(* ===== verification/Prelude.thy ===== *)
theory Prelude
  imports Main "HOL-Library.Word"
begin

text \<open>
  Shared vocabulary of the development.

  \<^item> Machine types: \<open>u8\<close>, \<open>u16\<close>, \<open>u32\<close>, \<open>u64\<close> are \<open>HOL-Library.Word\<close> words, so their
    arithmetic wraps as the C arithmetic of unsigned types does. Sizes and lengths of type
    \<open>size_t\<close> are natural numbers; where a C expression on them can wrap, \<open>add_size\<close>
    and \<open>mul_size\<close> write the reduction modulo \<open>2 ^ 64\<close> out.
  \<^item> \<open>bytes\<close>: a run of memory, as the list of its bytes.
  \<^item> \<open>stream_simps\<close>: the rewriting rules of the byte streams, collected by the components.
  \<^item> Generic facts on words and lists that several components use: assembling a word from
    base-128 or base-256 digits, prefixes, list splicing.
\<close>

unbundle bit_operations_syntax

named_theorems stream_simps \<open>rewriting rules of byte streams\<close>

type_synonym u8 = "8 word"
type_synonym u16 = "16 word"
type_synonym u32 = "32 word"
type_synonym u64 = "64 word"
type_synonym bytes = "u8 list"

section \<open>Sizes\<close>

definition add_size :: "nat \<Rightarrow> nat \<Rightarrow> nat" where
  "add_size a b = (a + b) mod 2 ^ 64"

definition mul_size :: "nat \<Rightarrow> nat \<Rightarrow> nat" where
  "mul_size a b = (a * b) mod 2 ^ 64"

lemma add_size_small [simp]: "a + b < 2 ^ 64 \<Longrightarrow> add_size a b = a + b"
  by (simp add: add_size_def)

lemma add_size_bound: "add_size a b < 2 ^ 64"
  by (simp add: add_size_def)

lemma mul_size_small [simp]: "a * b < 2 ^ 64 \<Longrightarrow> mul_size a b = a * b"
  by (simp add: mul_size_def)

lemma add_size_assoc: "add_size (add_size a b) c = add_size a (b + c)"
  by (simp add: add_size_def add.assoc mod_add_left_eq)

text \<open>The C test \<open>a + b < a\<close> detects the wrap-around of a \<open>size_t\<close> sum.\<close>

lemma add_size_overflow_test:
  assumes "a < 2 ^ 64" and "b < 2 ^ 64"
  shows "add_size a b < a \<longleftrightarrow> 2 ^ 64 \<le> a + b"
proof (cases "a + b < 2 ^ 64")
  case False
  then have "add_size a b = a + b - 2 ^ 64"
    using assms by (simp add: add_size_def le_mod_geq)
  with False assms show ?thesis by simp
qed simp

section \<open>Words\<close>

lemma and_0x7F: "(x :: 'a::len word) AND 0x7F = take_bit 7 x"
  using mask_eq_exp_minus_1 [of 7, where ?'a = "'a word"]
  by (simp add: take_bit_eq_mask)

lemma u8_less: "unat (b :: u8) < 256"
proof -
  have "unat b < 2 ^ LENGTH(8)" by (rule unsigned_less)
  then show ?thesis by simp
qed

lemma unat_ucast_u8 [simp]: "unat (ucast (b :: u8) :: u64) = unat b"
  using u8_less [of b] by (simp add: unsigned_ucast_eq take_bit_nat_eq_self)

text \<open>One more base-128 digit of a word.\<close>

lemma take_bit_step:
  fixes v :: "'a::len word"
  shows "take_bit n v OR push_bit n (take_bit k (drop_bit n v)) = take_bit (n + k) v"
  by (rule bit_word_eqI) (auto simp: bit_simps)

lemma drop_bit_add: "drop_bit m (drop_bit n (v :: 'a::len word)) = drop_bit (n + m) v"
  by (rule bit_word_eqI) (simp add: bit_simps ac_simps)

lemma take_bit_word_beyond: "LENGTH('a) \<le> n \<Longrightarrow> take_bit n (v :: 'a::len word) = v"
  by (rule bit_word_eqI) (auto simp: bit_simps)

lemma drop_bit_word_beyond: "LENGTH('a) \<le> n \<Longrightarrow> drop_bit n (v :: 'a::len word) = 0"
  by (rule bit_word_eqI) (auto simp: bit_simps)

lemma unat_drop_bit: "unat (drop_bit n (v :: 'a::len word)) = unat v div 2 ^ n"
  by (simp only: unsigned_drop_bit_eq take_bit_nat_eq_self [OF unsigned_less])
     (simp only: drop_bit_eq_div)

lemma unat_drop_bit_less:
  assumes "v \<noteq> 0" and "0 < n"
  shows "unat (drop_bit n (v :: 'a::len word)) < unat v"
proof -
  from assms(1) have "0 < unat v" by (simp add: unat_gt_0)
  moreover from assms(2) have "1 < (2::nat) ^ n" by (rule one_less_power [rotated]) simp
  ultimately show ?thesis by (simp only: unat_drop_bit div_less_dividend)
qed

lemma nat_push_or:
  assumes "x < 2 ^ n" shows "push_bit n a OR x = a * 2 ^ n + (x :: nat)"
proof -
  have b: "bit x i \<longleftrightarrow> i < n \<and> bit x i" for i
    using assms take_bit_nat_eq_self [of x n] bit_take_bit_iff [of n x i] by simp
  have "push_bit n a AND x = 0"
    by (rule bit_eqI) (subst bit_and_iff, subst b, simp add: bit_push_bit_iff)
  then show ?thesis by (simp add: disjunctive_add_eq_or [symmetric] push_bit_eq_mult)
qed

lemma unat_push_or:
  fixes w :: "'a::len word"
  assumes "unat w * 2 ^ n < 2 ^ LENGTH('a)" and "unat x < 2 ^ n"
  shows "unat (push_bit n w OR x) = unat w * 2 ^ n + unat x"
proof -
  have "unat (push_bit n w) = push_bit n (unat w)"
    using assms(1) unfolding push_bit_eq_mult [of n "unat w"]
    by (simp only: unsigned_push_bit_eq push_bit_take_bit push_bit_eq_mult [of n "unat w"] take_bit_nat_eq_self)
  then show ?thesis using nat_push_or [OF assms(2), of "unat w"]
    by (simp only: unsigned_or_eq)
qed

lemma unat_ucast_up [simp]:
  "LENGTH('a) \<le> LENGTH('b) \<Longrightarrow> unat (ucast (w :: 'a::len word) :: 'b::len word) = unat w"
proof -
  assume "LENGTH('a) \<le> LENGTH('b)"
  then have "unat w < 2 ^ LENGTH('b)"
    using unsigned_less [of w, where 'a = nat] power_increasing [of "LENGTH('a)" "LENGTH('b)" "2 :: nat"]
    by linarith
  then show ?thesis by (simp add: unsigned_ucast_eq take_bit_nat_eq_self)
qed

lemma unat_and_0x7F: "unat ((b :: u8) AND 0x7F) = unat b mod 128"
proof -
  have "(128 :: nat) = 2 ^ 7" by simp
  then show ?thesis
    by (simp only: and_0x7F unsigned_take_bit_eq take_bit_eq_mod [of 7 "unat b"])
qed

lemma unat_of_nat_u8: "unat (of_nat n :: u8) = n mod 256"
  by (simp add: unat_of_nat)

lemma and_0x80_iff: "(b :: u8) AND 0x80 \<noteq> 0 \<longleftrightarrow> 128 \<le> unat b"
proof -
  have "b AND 0x80 \<noteq> 0 \<longleftrightarrow> bit b 7"
    using and_exp_eq_0_iff_not_bit [of b 7] by simp
  also have "\<dots> \<longleftrightarrow> odd (unat b div 128)"
    by (simp add: bit_unsigned_iff [where 'a = nat, of b 7, simplified, symmetric] bit_iff_odd [of "unat b"])
  also have "\<dots> \<longleftrightarrow> 128 \<le> unat b"
  proof (cases "unat b < 128")
    case False
    then have "unat b div 128 = 1" using u8_less [of b] by simp
    with False show ?thesis by simp
  qed simp
  finally show ?thesis .
qed

lemma u8_eq_iff: "b = c \<longleftrightarrow> unat b = unat (c :: u8)"
  by (simp add: word_unat_eq_iff)

lemma drop_bit_eq_0_iff: "drop_bit n (w :: 'a::len word) = 0 \<longleftrightarrow> unat w < 2 ^ n"
proof -
  have "drop_bit n w = 0 \<longleftrightarrow> unat w div 2 ^ n = 0"
    by (simp only: unat_eq_0 [symmetric] unat_drop_bit)
  then show ?thesis by (simp add: div_eq_0_iff)
qed

lemma not_bit_above: "unat (w :: 'a::len word) < 2 ^ n \<Longrightarrow> n \<le> i \<Longrightarrow> \<not> bit w i"
proof -
  assume "unat w < 2 ^ n" and "n \<le> i"
  then have "\<not> bit (drop_bit n w) (i - n)" by (simp add: drop_bit_eq_0_iff [THEN iffD2])
  with \<open>n \<le> i\<close> show ?thesis by (simp add: bit_simps)
qed

lemma ucast_ucast_up [simp]:
  "LENGTH('a) \<le> LENGTH('b) \<Longrightarrow> ucast (ucast (w :: 'a::len word) :: 'b::len word) = w"
  by (rule bit_word_eqI) (auto simp: bit_simps)

section \<open>Lists\<close>

lemma take_append_exact [simp]: "take (length xs) (xs @ ys) = xs"
  by simp

lemma drop_append_exact [simp]: "drop (length xs) (xs @ ys) = ys"
  by simp

text \<open>The bytes of a list as one big-endian number, most significant byte first.\<close>

definition be_val :: "bytes \<Rightarrow> nat" where
  "be_val bs = foldl (\<lambda>acc b. acc * 256 + unat b) 0 bs"

lemma be_val_Nil [simp]: "be_val [] = 0"
  by (simp add: be_val_def)

lemma be_val_snoc [simp]: "be_val (bs @ [b]) = be_val bs * 256 + unat b"
  by (simp add: be_val_def)

lemma be_val_single [simp]: "be_val [b] = unat b"
  by (simp add: be_val_def)

lemma be_val_less: "be_val bs < 256 ^ length bs"
proof (induction bs rule: rev_induct)
  case (snoc b bs)
  then have "be_val bs * 256 + 256 \<le> 256 ^ length bs * 256" by simp
  with u8_less [of b] show ?case by simp
qed simp

end
