(* ===== verification/Pb_Stream.thy ===== *)
theory Pb_Stream
  imports Prelude
begin

text \<open>
  The byte streams of nanopb (\<open>Pods/nanopb/pb_encode.c\<close>, \<open>pb_decode.c\<close>, with the structures of
  \<open>pb_encode.h\<close> and \<open>pb_decode.h\<close>), in the configuration of the pod: 64-bit integers, error
  messages and custom callbacks enabled.

  The C structure of a stream has a callback pointer and a \<open>void *state\<close> the callback owns. Here
  the callback is a datatype: the buffer callback of the library, the null callback of a sizing
  stream, or a function of the user, a parameter of the model over an abstract state \<open>'st\<close>. For the
  buffer callbacks the state pointer is modelled by what it points to: \<open>i_src\<close> is the memory from
  the read pointer on, \<open>o_buf\<close> the bytes stored before the write pointer. A user callback reports a
  result and its new state; setting \<open>bytes_left\<close> to zero is its documented way to signal the end of
  the stream, and it changes no other field.

  A C function that returns \<open>bool\<close> and fills an output argument returns an \<open>option\<close> here, next to
  the new stream: the stream also changes when the function fails.
\<close>

section \<open>Input streams\<close>

datatype 'st in_result =
    Rd_ok bytes 'st
  | Rd_fail 'st
  | Rd_eof 'st

datatype 'st in_callback =
    Buf_read
  | User_read "'st \<Rightarrow> nat \<Rightarrow> 'st in_result"

record 'st pb_istream =
  i_callback :: "'st in_callback"
  i_src :: bytes
  i_user :: 'st
  bytes_left :: nat
  i_errmsg :: "string option"

fun is_buf_read :: "'st in_callback \<Rightarrow> bool" where
  "is_buf_read Buf_read = True"
| "is_buf_read (User_read f) = False"

text \<open>\<open>PB_RETURN_ERROR\<close>: the first message is kept, the function returns false.\<close>

definition in_error :: "'st pb_istream \<Rightarrow> string \<Rightarrow> 'a option \<times> 'st pb_istream" where
  "in_error s msg =
     (None, s\<lparr>i_errmsg := (case i_errmsg s of None \<Rightarrow> Some msg | Some m \<Rightarrow> Some m)\<rparr>)"

text \<open>The same for a function with no output argument.\<close>

definition in_fail :: "'st pb_istream \<Rightarrow> string \<Rightarrow> bool \<times> 'st pb_istream" where
  "in_fail s msg = (False, snd (in_error s msg :: unit option \<times> 'st pb_istream))"

definition buf_read :: "'st pb_istream \<Rightarrow> nat \<Rightarrow> bytes \<times> 'st pb_istream" where
  "buf_read s count = (take count (i_src s), s\<lparr>i_src := drop count (i_src s)\<rparr>)"

text \<open>The call \<open>stream->callback(stream, buf, count)\<close>, with its failure message.\<close>

definition call_in :: "'st pb_istream \<Rightarrow> nat \<Rightarrow> bytes option \<times> 'st pb_istream" where
  "call_in s count =
     (case i_callback s of
        Buf_read \<Rightarrow> (case buf_read s count of (bs, s') \<Rightarrow> (Some bs, s'))
      | User_read f \<Rightarrow>
          (case f (i_user s) count of
             Rd_ok bs st \<Rightarrow> (Some bs, s\<lparr>i_user := st\<rparr>)
           | Rd_fail st \<Rightarrow> in_error (s\<lparr>i_user := st\<rparr>) ''io error''
           | Rd_eof st \<Rightarrow> in_error (s\<lparr>i_user := st, bytes_left := 0\<rparr>) ''io error''))"

text \<open>The part of \<open>pb_read\<close> that reads into a buffer.\<close>

definition pb_read_into :: "'st pb_istream \<Rightarrow> nat \<Rightarrow> bytes option \<times> 'st pb_istream" where
  "pb_read_into s count =
     (if bytes_left s < count then in_error s ''end-of-stream''
      else case call_in s count of
             (None, s') \<Rightarrow> (None, s')
           | (Some bs, s') \<Rightarrow> (Some bs, s'\<lparr>bytes_left := bytes_left s' - count\<rparr>))"

text \<open>Skipping on a stream with a user callback: reads of 16 bytes into a scratch buffer.\<close>

function pb_read_skip :: "'st pb_istream \<Rightarrow> nat \<Rightarrow> bytes option \<times> 'st pb_istream" where
  "pb_read_skip s count =
     (if 16 < count then
        (case pb_read_into s 16 of
           (None, s') \<Rightarrow> (None, s')
         | (Some _, s') \<Rightarrow> pb_read_skip s' (count - 16))
      else pb_read_into s count)"
  by pat_completeness auto
termination
  by (relation "measure snd") auto

declare pb_read_skip.simps [simp del]

text \<open>\<open>buf\<close> tells whether the C argument \<open>buf\<close> is a buffer (true) or \<open>NULL\<close>.\<close>

definition pb_read :: "'st pb_istream \<Rightarrow> bool \<Rightarrow> nat \<Rightarrow> bytes option \<times> 'st pb_istream" where
  "pb_read s buf count =
     (if \<not> buf \<and> \<not> is_buf_read (i_callback s) then pb_read_skip s count
      else pb_read_into s count)"

definition pb_readbyte :: "'st pb_istream \<Rightarrow> u8 option \<times> 'st pb_istream" where
  "pb_readbyte s =
     (if bytes_left s = 0 then in_error s ''end-of-stream''
      else case call_in s 1 of
             (None, s') \<Rightarrow> (None, s')
           | (Some bs, s') \<Rightarrow> (Some (hd bs), s'\<lparr>bytes_left := bytes_left s' - 1\<rparr>))"

definition pb_istream_from_buffer :: "bytes \<Rightarrow> nat \<Rightarrow> unit pb_istream" where
  "pb_istream_from_buffer buf bufsize =
     \<lparr>i_callback = Buf_read, i_src = buf, i_user = (), bytes_left = bufsize, i_errmsg = None\<rparr>"

subsection \<open>Reading from a buffer\<close>

text \<open>\<open>adv s k\<close>: the stream \<open>k\<close> bytes further on.\<close>

definition adv :: "'st pb_istream \<Rightarrow> nat \<Rightarrow> 'st pb_istream" where
  "adv s k = s\<lparr>i_src := drop k (i_src s), bytes_left := bytes_left s - k\<rparr>"

text \<open>\<open>starts s bs\<close>: \<open>s\<close> reads a buffer, and the bytes it may still read begin with \<open>bs\<close>.\<close>

definition starts :: "'st pb_istream \<Rightarrow> bytes \<Rightarrow> bool" where
  "starts s bs \<longleftrightarrow> i_callback s = Buf_read \<and> length bs \<le> bytes_left s \<and>
     take (length bs) (i_src s) = bs"

lemma adv_0 [simp]: "adv s 0 = s"
  by (simp add: adv_def)

lemma adv_adv [simp]: "adv (adv s a) b = adv s (a + b)"
  by (simp add: adv_def add.commute)

lemma adv_fields [simp]:
  "i_callback (adv s k) = i_callback s"
  "i_src (adv s k) = drop k (i_src s)"
  "bytes_left (adv s k) = bytes_left s - k"
  "i_errmsg (adv s k) = i_errmsg s"
  "i_user (adv s k) = i_user s"
  by (simp_all add: adv_def)

lemma starts_append:
  "starts s (a @ b) \<longleftrightarrow> starts s a \<and> starts (adv s (length a)) b"
proof -
  have "take (length a + length b) (i_src s) = a @ b \<longleftrightarrow>
      take (length a) (i_src s) = a \<and> take (length b) (drop (length a) (i_src s)) = b"
    (is "?l \<longleftrightarrow> ?r")
  proof
    assume ?l
    then have "take (length a) (take (length a + length b) (i_src s)) = a"
      and "drop (length a) (take (length a + length b) (i_src s)) = b" by simp_all
    then show ?r by (simp add: take_drop add.commute)
  next
    assume ?r
    then show ?l by (simp add: take_add)
  qed
  then show ?thesis by (auto simp: starts_def)
qed

lemma starts_Nil [simp]: "starts s [] \<longleftrightarrow> i_callback s = Buf_read"
  by (simp add: starts_def)

lemma starts_Cons:
  "starts s (b # bs) \<longleftrightarrow> starts s [b] \<and> starts (adv s 1) bs"
  using starts_append [of s "[b]" bs] by simp

lemma starts_callback: "starts s bs \<Longrightarrow> i_callback s = Buf_read"
  by (simp add: starts_def)

lemma pb_readbyte_starts [stream_simps]:
  assumes "starts s [b]"
  shows "pb_readbyte s = (Some b, adv s 1)"
proof -
  from assms obtain bs where "i_src s = b # bs"
    by (cases "i_src s") (auto simp: starts_def)
  with assms show ?thesis
    by (simp add: pb_readbyte_def call_in_def buf_read_def starts_def adv_def)
qed

lemma pb_readbyte_nth:
  assumes "starts s bs" and "i < length bs"
  shows "pb_readbyte (adv s i) = (Some (bs ! i), adv s (Suc i))"
proof -
  from assms have "starts (adv s i) (drop i bs)"
    using starts_append [of s "take i bs" "drop i bs"] by (simp add: min_absorb2)
  moreover from assms(2) have "drop i bs = bs ! i # drop (Suc i) bs" by (simp add: Cons_nth_drop_Suc)
  ultimately have "starts (adv s i) [bs ! i]"
    using starts_Cons [of "adv s i" "bs ! i" "drop (Suc i) bs"] by simp
  then show ?thesis by (simp add: pb_readbyte_starts)
qed

lemma pb_read_buf:
  assumes "i_callback s = Buf_read"
  shows "pb_read s d k =
    (if bytes_left s < k then in_error s ''end-of-stream''
     else (Some (take k (i_src s)), adv s k))"
  using assms
  by (simp add: pb_read_def pb_read_into_def call_in_def buf_read_def adv_def)

lemma pb_read_starts [stream_simps]:
  "starts s bs \<Longrightarrow> pb_read s d (length bs) = (Some bs, adv s (length bs))"
  by (simp add: pb_read_buf starts_def)

text \<open>
  Frame of the readers: a function that reads a buffer stream and gets nothing else than what the
  stream still owns moves \<open>i_src\<close> and \<open>bytes_left\<close> together.
\<close>

definition moved :: "'st pb_istream \<Rightarrow> 'st pb_istream \<Rightarrow> bool" where
  "moved s s' \<longleftrightarrow> (\<exists>k \<le> bytes_left s. i_src s' = drop k (i_src s) \<and>
     bytes_left s' = bytes_left s - k \<and> i_callback s' = i_callback s \<and> i_user s' = i_user s)"

lemma moved_refl [simp, intro]: "moved s s"
  by (auto simp: moved_def intro: exI [of _ 0])

lemma moved_trans [trans]: "moved s t \<Longrightarrow> moved t u \<Longrightarrow> moved s u"
proof -
  assume "moved s t" and "moved t u"
  then obtain j k where "j \<le> bytes_left s" "i_src t = drop j (i_src s)"
      "bytes_left t = bytes_left s - j" "i_callback t = i_callback s" "i_user t = i_user s"
    and "k \<le> bytes_left t" "i_src u = drop k (i_src t)"
      "bytes_left u = bytes_left t - k" "i_callback u = i_callback t" "i_user u = i_user t"
    unfolding moved_def by blast
  then show "moved s u"
    unfolding moved_def by (intro exI [of _ "j + k"]) (auto simp: add.commute)
qed

lemma moved_callback: "moved s s' \<Longrightarrow> i_callback s' = i_callback s"
  by (auto simp: moved_def)

lemma moved_left: "moved s s' \<Longrightarrow> bytes_left s' \<le> bytes_left s"
  by (auto simp: moved_def)

lemma moved_adv [intro]: "k \<le> bytes_left s \<Longrightarrow> moved s (adv s k)"
  by (auto simp: moved_def intro: exI [of _ k])

lemma moved_in_error [intro]: "in_error s m = (r, s') \<Longrightarrow> moved s s'"
  by (auto simp: in_error_def moved_def intro: exI [of _ 0])

lemma moved_in_fail [intro]: "in_fail s m = (r, s') \<Longrightarrow> moved s s'"
  by (auto simp: in_fail_def in_error_def moved_def intro: exI [of _ 0])

lemma moved_pb_readbyte:
  "i_callback s = Buf_read \<Longrightarrow> pb_readbyte s = (r, s') \<Longrightarrow> moved s s'"
  by (auto simp: pb_readbyte_def call_in_def buf_read_def moved_def in_error_def
      intro: exI [of _ 0] exI [of _ 1] split: if_splits)

lemma moved_pb_read:
  "i_callback s = Buf_read \<Longrightarrow> pb_read s d k = (r, s') \<Longrightarrow> moved s s'"
  by (auto simp: pb_read_buf split: if_splits)

text \<open>Any stream: a byte that was read is accounted for in \<open>bytes_left\<close>.\<close>

lemma pb_readbyte_left:
  "pb_readbyte s = (Some b, s') \<Longrightarrow> 0 < bytes_left s \<and> bytes_left s' = bytes_left s - 1"
  by (auto simp: pb_readbyte_def call_in_def buf_read_def in_error_def
      split: if_splits in_callback.splits in_result.splits option.splits)

lemma pb_read_into_left:
  "pb_read_into s k = (Some bs, s') \<Longrightarrow> k \<le> bytes_left s \<and> bytes_left s' = bytes_left s - k"
  by (auto simp: pb_read_into_def call_in_def buf_read_def in_error_def
      split: if_splits in_callback.splits in_result.splits option.splits)

lemma pb_read_skip_left:
  "pb_read_skip s k = (Some bs, s') \<Longrightarrow> k \<le> bytes_left s \<and> bytes_left s' = bytes_left s - k"
proof (induction s k arbitrary: s' rule: pb_read_skip.induct)
  case (1 s count)
  show ?case
  proof (cases "16 < count")
    case True
    with "1.prems" obtain cs t where t: "pb_read_into s 16 = (Some cs, t)"
      and r: "pb_read_skip t (count - 16) = (Some bs, s')"
      by (auto simp: pb_read_skip.simps [of s] split: prod.splits option.splits)
    from "1.IH" [OF True t [symmetric] refl r] pb_read_into_left [OF t] True
    show ?thesis by auto
  next
    case False
    with "1.prems" show ?thesis
      by (simp add: pb_read_skip.simps [of s] pb_read_into_left)
  qed
qed

lemma pb_read_left:
  "pb_read s d k = (Some bs, s') \<Longrightarrow> k \<le> bytes_left s \<and> bytes_left s' = bytes_left s - k"
  by (auto simp: pb_read_def pb_read_into_left pb_read_skip_left split: if_splits)

section \<open>Output streams\<close>

datatype 'st out_callback =
    Sizing
  | Buf_write
  | User_write "'st \<Rightarrow> bytes \<Rightarrow> bool \<times> 'st"

record 'st pb_ostream =
  o_callback :: "'st out_callback"
  o_buf :: bytes
  o_user :: 'st
  max_size :: nat
  bytes_written :: nat
  o_errmsg :: "string option"

definition out_error :: "'st pb_ostream \<Rightarrow> string \<Rightarrow> bool \<times> 'st pb_ostream" where
  "out_error s msg =
     (False, s\<lparr>o_errmsg := (case o_errmsg s of None \<Rightarrow> Some msg | Some m \<Rightarrow> Some m)\<rparr>)"

definition buf_write :: "'st pb_ostream \<Rightarrow> bytes \<Rightarrow> nat \<Rightarrow> bool \<times> 'st pb_ostream" where
  "buf_write s buf count = (True, s\<lparr>o_buf := o_buf s @ take count buf\<rparr>)"

definition pb_ostream_from_buffer :: "nat \<Rightarrow> unit pb_ostream" where
  "pb_ostream_from_buffer bufsize =
     \<lparr>o_callback = Buf_write, o_buf = [], o_user = (), max_size = bufsize, bytes_written = 0,
      o_errmsg = None\<rparr>"

text \<open>\<open>PB_OSTREAM_SIZING\<close>.\<close>

definition pb_ostream_sizing :: "'st \<Rightarrow> 'st pb_ostream" where
  "pb_ostream_sizing st =
     \<lparr>o_callback = Sizing, o_buf = [], o_user = st, max_size = 0, bytes_written = 0,
      o_errmsg = None\<rparr>"

definition pb_write :: "'st pb_ostream \<Rightarrow> bytes \<Rightarrow> nat \<Rightarrow> bool \<times> 'st pb_ostream" where
  "pb_write s buf count =
     (case
        (case o_callback s of
           Sizing \<Rightarrow> (True, s)
         | Buf_write \<Rightarrow>
             if max_size s < add_size (bytes_written s) count then out_error s ''stream full''
             else buf_write s buf count
         | User_write f \<Rightarrow>
             if max_size s < add_size (bytes_written s) count then out_error s ''stream full''
             else (case f (o_user s) (take count buf) of
                     (True, st) \<Rightarrow> (True, s\<lparr>o_user := st\<rparr>)
                   | (False, st) \<Rightarrow> out_error (s\<lparr>o_user := st\<rparr>) ''io error''))
      of (False, s') \<Rightarrow> (False, s')
       | (True, s') \<Rightarrow> (True, s'\<lparr>bytes_written := add_size (bytes_written s') count\<rparr>))"

subsection \<open>Writing to a buffer\<close>

text \<open>\<open>fits s n\<close>: \<open>n\<close> more bytes can be written to \<open>s\<close>; \<open>emit s bs\<close>: \<open>s\<close> with \<open>bs\<close> written.\<close>

definition fits :: "'st pb_ostream \<Rightarrow> nat \<Rightarrow> bool" where
  "fits s n \<longleftrightarrow> o_callback s = Buf_write \<and> bytes_written s + n \<le> max_size s \<and> max_size s < 2 ^ 64"

definition emit :: "'st pb_ostream \<Rightarrow> bytes \<Rightarrow> 'st pb_ostream" where
  "emit s bs = s\<lparr>o_buf := o_buf s @ bs, bytes_written := bytes_written s + length bs\<rparr>"

lemma emit_Nil [simp]: "emit s [] = s"
  by (simp add: emit_def)

lemma emit_emit [simp]: "emit (emit s a) b = emit s (a @ b)"
  by (simp add: emit_def)

lemma emit_fields [simp]:
  "o_callback (emit s bs) = o_callback s" "o_buf (emit s bs) = o_buf s @ bs"
  "max_size (emit s bs) = max_size s"
  "bytes_written (emit s bs) = bytes_written s + length bs"
  "o_errmsg (emit s bs) = o_errmsg s" "o_user (emit s bs) = o_user s"
  by (simp_all add: emit_def)

lemma fits_emit [simp]: "fits (emit s a) n \<longleftrightarrow> fits s (length a + n)"
  by (auto simp: fits_def)

lemma fits_mono: "fits s n \<Longrightarrow> m \<le> n \<Longrightarrow> fits s m"
  by (simp add: fits_def)

lemma pb_write_fits [stream_simps]:
  "fits s (length bs) \<Longrightarrow> pb_write s bs (length bs) = (True, emit s bs)"
  by (simp add: pb_write_def fits_def emit_def buf_write_def)

lemma pb_write_full:
  assumes "o_callback s = Buf_write" and "bytes_written s + n < 2 ^ 64"
    and "max_size s < bytes_written s + n"
  shows "pb_write s bs n = out_error s ''stream full''"
  using assms by (simp add: pb_write_def out_error_def)

lemma pb_write_sizing [stream_simps]:
  "o_callback s = Sizing \<Longrightarrow>
   pb_write s bs n = (True, s\<lparr>bytes_written := add_size (bytes_written s) n\<rparr>)"
  by (simp add: pb_write_def)

text \<open>A buffer stream never holds more than \<open>max_size\<close> bytes, whatever is written to it.\<close>

definition ostream_ok :: "'st pb_ostream \<Rightarrow> bool" where
  "ostream_ok s \<longleftrightarrow> o_callback s = Buf_write \<and> bytes_written s = length (o_buf s) \<and>
     bytes_written s \<le> max_size s \<and> max_size s < 2 ^ 64"

lemma ostream_ok_from_buffer: "n < 2 ^ 64 \<Longrightarrow> ostream_ok (pb_ostream_from_buffer n)"
  by (simp add: ostream_ok_def pb_ostream_from_buffer_def)

end
