(* ===== verification/Pb_Varint.thy ===== *)
theory Pb_Varint
  imports Pb_Stream
begin

text \<open>
  The scalar encodings of nanopb: varints (64-bit and 32-bit decoders), zigzag varints and
  little-endian fixed-width integers (\<open>pb_encode.c\<close> and \<open>pb_decode.c\<close>). The round trips are stated
  over any stream that begins with the encoded bytes, so they compose; the abstract encoding
  \<open>varint\<close> is the base-128 representation of the protocol-buffer format.
\<close>

section \<open>Encoders\<close>

text \<open>The loop of \<open>pb_encode_varint\<close>: the bytes it stores in \<open>buffer\<close>, all with the top bit set.\<close>

function encode_varint_loop :: "u64 \<Rightarrow> bytes" where
  "encode_varint_loop v =
     (if v = 0 then []
      else ((ucast (v AND 0x7F) :: u8) OR 0x80) # encode_varint_loop (drop_bit 7 v))"
  by pat_completeness auto
termination
  by (relation "measure unat") (auto simp: unat_drop_bit_less)

declare encode_varint_loop.simps [simp del]

definition pb_encode_varint :: "'st pb_ostream \<Rightarrow> u64 \<Rightarrow> bool \<times> 'st pb_ostream" where
  "pb_encode_varint s v =
     (if v \<le> 0x7F then pb_write s [ucast v] 1
      else
        let buffer = encode_varint_loop v;
            i = length buffer;
            buffer = buffer[i - 1 := buffer ! (i - 1) AND 0x7F]
        in pb_write s buffer i)"

definition zigzag :: "u64 \<Rightarrow> u64" where
  "zigzag v = (if sint v < 0 then NOT (push_bit 1 v) else push_bit 1 v)"

definition pb_encode_svarint :: "'st pb_ostream \<Rightarrow> u64 \<Rightarrow> bool \<times> 'st pb_ostream" where
  "pb_encode_svarint s v = pb_encode_varint s (zigzag v)"

definition fixed32_bytes :: "u32 \<Rightarrow> bytes" where
  "fixed32_bytes val =
     [ucast (val AND 0xFF), ucast (drop_bit 8 val AND 0xFF), ucast (drop_bit 16 val AND 0xFF),
      ucast (drop_bit 24 val AND 0xFF)]"

definition pb_encode_fixed32 :: "'st pb_ostream \<Rightarrow> u32 \<Rightarrow> bool \<times> 'st pb_ostream" where
  "pb_encode_fixed32 s val = pb_write s (fixed32_bytes val) 4"

definition fixed64_bytes :: "u64 \<Rightarrow> bytes" where
  "fixed64_bytes val =
     [ucast (val AND 0xFF), ucast (drop_bit 8 val AND 0xFF), ucast (drop_bit 16 val AND 0xFF),
      ucast (drop_bit 24 val AND 0xFF), ucast (drop_bit 32 val AND 0xFF),
      ucast (drop_bit 40 val AND 0xFF), ucast (drop_bit 48 val AND 0xFF),
      ucast (drop_bit 56 val AND 0xFF)]"

definition pb_encode_fixed64 :: "'st pb_ostream \<Rightarrow> u64 \<Rightarrow> bool \<times> 'st pb_ostream" where
  "pb_encode_fixed64 s val = pb_write s (fixed64_bytes val) 8"

section \<open>Decoders\<close>

text \<open>\<open>bitpos\<close> stays below 77 here: the overflow test stops the loop before it can wrap.\<close>

function decode_varint_loop ::
  "'st pb_istream \<Rightarrow> nat \<Rightarrow> u64 \<Rightarrow> u64 option \<times> 'st pb_istream" where
  "decode_varint_loop s bitpos result =
     (if 64 \<le> bitpos then in_error s ''varint overflow''
      else case pb_readbyte s of
             (None, s') \<Rightarrow> (None, s')
           | (Some byte, s') \<Rightarrow>
               let result' = result OR push_bit bitpos (ucast (byte AND 0x7F))
               in if byte AND 0x80 \<noteq> 0 then decode_varint_loop s' (bitpos + 7) result'
                  else (Some result', s'))"
  by pat_completeness auto
termination
  by (relation "measure (\<lambda>(s, bitpos, result). 71 - bitpos)") auto

declare decode_varint_loop.simps [simp del]

definition pb_decode_varint :: "'st pb_istream \<Rightarrow> u64 option \<times> 'st pb_istream" where
  "pb_decode_varint s = decode_varint_loop s 0 0"

text \<open>
  \<open>pb_decode_varint32_eof\<close>. The C variable \<open>bitpos\<close> is a \<open>uint_fast8_t\<close>, one byte wide on the
  targets of the pod, and nothing in this loop stops it from wrapping: it is an \<open>u8\<close> here. The
  loop ends because every round reads a byte of the stream.
\<close>

function decode_varint32_loop ::
  "'st pb_istream \<Rightarrow> u8 \<Rightarrow> u32 \<Rightarrow> u32 option \<times> 'st pb_istream" where
  "decode_varint32_loop s bitpos result =
     (case pb_readbyte s of
        (None, s') \<Rightarrow> (None, s')
      | (Some byte, s') \<Rightarrow>
          let sign_extension = (if bitpos < 63 then 0xFF else 0x01) in
          if 32 \<le> bitpos \<and> byte AND 0x7F \<noteq> 0 \<and>
             (drop_bit 31 result = 0 \<or> byte \<noteq> sign_extension) then
            in_error s' ''varint overflow''
          else
            let result' = (if 32 \<le> bitpos then result
                           else result OR push_bit (unat bitpos) (ucast (byte AND 0x7F)));
                bitpos' = bitpos + 7
            in if byte AND 0x80 \<noteq> 0 then decode_varint32_loop s' bitpos' result'
               else if bitpos' = 35 \<and> byte AND 0x70 \<noteq> 0 then in_error s' ''varint overflow''
               else (Some result', s'))"
  by pat_completeness auto
termination
  by (relation "measure (\<lambda>(s, bitpos, result). bytes_left s)")
     (auto dest!: sym [of _ "pb_readbyte _"] dest: pb_readbyte_left)

declare decode_varint32_loop.simps [simp del]

text \<open>The result has the third component \<open>eof\<close>: whether the function set \<open>*eof\<close> to true.\<close>

definition pb_decode_varint32_eof ::
  "'st pb_istream \<Rightarrow> (u32 option \<times> bool) \<times> 'st pb_istream" where
  "pb_decode_varint32_eof s =
     (case pb_readbyte s of
        (None, s') \<Rightarrow> ((None, bytes_left s' = 0), s')
      | (Some byte, s') \<Rightarrow>
          if byte AND 0x80 = 0 then ((Some (ucast byte), False), s')
          else (case decode_varint32_loop s' 7 (ucast (byte AND 0x7F)) of
                  (r, s'') \<Rightarrow> ((r, False), s'')))"

definition pb_decode_varint32 :: "'st pb_istream \<Rightarrow> u32 option \<times> 'st pb_istream" where
  "pb_decode_varint32 s = (case pb_decode_varint32_eof s of ((r, _), s') \<Rightarrow> (r, s'))"

definition unzigzag :: "u64 \<Rightarrow> u64" where
  "unzigzag v = (if v AND 1 \<noteq> 0 then NOT (drop_bit 1 v) else drop_bit 1 v)"

definition pb_decode_svarint :: "'st pb_istream \<Rightarrow> u64 option \<times> 'st pb_istream" where
  "pb_decode_svarint s =
     (case pb_decode_varint s of
        (None, s') \<Rightarrow> (None, s')
      | (Some v, s') \<Rightarrow> (Some (unzigzag v), s'))"

definition fixed32_of :: "bytes \<Rightarrow> u32" where
  "fixed32_of b =
     push_bit 0 (ucast (b ! 0)) OR push_bit 8 (ucast (b ! 1)) OR
     push_bit 16 (ucast (b ! 2)) OR push_bit 24 (ucast (b ! 3))"

definition pb_decode_fixed32 :: "'st pb_istream \<Rightarrow> u32 option \<times> 'st pb_istream" where
  "pb_decode_fixed32 s =
     (case pb_read s True 4 of
        (None, s') \<Rightarrow> (None, s')
      | (Some b, s') \<Rightarrow> (Some (fixed32_of b), s'))"

definition fixed64_of :: "bytes \<Rightarrow> u64" where
  "fixed64_of b =
     push_bit 0 (ucast (b ! 0)) OR push_bit 8 (ucast (b ! 1)) OR
     push_bit 16 (ucast (b ! 2)) OR push_bit 24 (ucast (b ! 3)) OR
     push_bit 32 (ucast (b ! 4)) OR push_bit 40 (ucast (b ! 5)) OR
     push_bit 48 (ucast (b ! 6)) OR push_bit 56 (ucast (b ! 7))"

definition pb_decode_fixed64 :: "'st pb_istream \<Rightarrow> u64 option \<times> 'st pb_istream" where
  "pb_decode_fixed64 s =
     (case pb_read s True 8 of
        (None, s') \<Rightarrow> (None, s')
      | (Some b, s') \<Rightarrow> (Some (fixed64_of b), s'))"

section \<open>The abstract encoding\<close>

text \<open>Base-128 digits, least significant first, the top bit on all but the last.\<close>

function varint :: "u64 \<Rightarrow> bytes" where
  "varint v = (if v \<le> 0x7F then [ucast v]
               else ((ucast (take_bit 7 v) :: u8) OR 0x80) # varint (drop_bit 7 v))"
  by pat_completeness auto
termination
  by (relation "measure unat") (auto intro!: unat_drop_bit_less)

declare varint.simps [simp del]

lemma varint_not_Nil [simp]: "varint v \<noteq> []"
  by (subst varint.simps) simp

lemma le_0x7F_iff: "(v :: u64) \<le> 0x7F \<longleftrightarrow> drop_bit 7 v = 0"
proof -
  have "v \<le> 0x7F \<longleftrightarrow> unat v < 128" by (simp add: word_le_nat_alt) linarith
  also have "\<dots> \<longleftrightarrow> unat (drop_bit 7 v) = 0"
    by (simp add: unat_drop_bit div_eq_0_iff)
  finally show ?thesis by (simp only: unat_eq_zero)
qed

subsection \<open>Bits of one byte\<close>

lemma and_0x80: "(b :: u8) AND 0x80 = 0 \<longleftrightarrow> \<not> bit b 7"
  using and_exp_eq_0_iff_not_bit [of b 7] by simp

lemma or_0x80: "(b :: u8) OR 0x80 = set_bit 7 b"
  by (simp add: set_bit_eq_or)

lemma digit_more: "((ucast (take_bit 7 (v :: u64)) :: u8) OR 0x80) AND 0x80 \<noteq> 0"
  by (simp add: and_0x80 or_0x80 bit_simps)

lemma digit_more_val:
  "(ucast (((ucast (take_bit 7 (v :: u64)) :: u8) OR 0x80) AND 0x7F) :: u64) = take_bit 7 v"
  unfolding and_0x7F or_0x80 by (rule bit_word_eqI) (auto simp: bit_simps)

lemma digit_last:
  assumes "(v :: u64) \<le> 0x7F"
  shows "(ucast v :: u8) AND 0x80 = 0"
proof -
  from assms have "\<not> bit (drop_bit 7 v) 0" by (simp add: le_0x7F_iff)
  then show ?thesis by (simp add: and_0x80 bit_simps)
qed

lemma digit_last_val: "(ucast ((ucast (v :: u64) :: u8) AND 0x7F) :: u64) = take_bit 7 v"
  unfolding and_0x7F by (rule bit_word_eqI) (auto simp: bit_simps)

lemma digit_unmark:
  "((ucast (take_bit 7 (v :: u64)) :: u8) OR 0x80) AND 0x7F = ucast (take_bit 7 v)"
  unfolding and_0x7F or_0x80 by (rule bit_word_eqI) (auto simp: bit_simps)

subsection \<open>The encoder computes the abstract encoding\<close>

text \<open>The last step of the C encoder: unset the top bit on the last byte.\<close>

lemma varint_unmark_last:
  assumes "v \<noteq> 0"
  shows "(encode_varint_loop v)[length (encode_varint_loop v) - 1 :=
      encode_varint_loop v ! (length (encode_varint_loop v) - 1) AND 0x7F] = varint v"
  using assms
proof (induction v rule: varint.induct)
  case (1 v)
  note loop = encode_varint_loop.simps [of v] and_0x7F
  show ?case
  proof (cases "v \<le> 0x7F")
    case True
    then have z: "drop_bit 7 v = 0" by (simp only: le_0x7F_iff)
    then have "take_bit 7 v = v" using bits_ident [of 7 v] by simp
    with True z "1.prems" show ?thesis
      using digit_unmark [of v]
      by (simp add: loop encode_varint_loop.simps [of 0] varint.simps [of v])
  next
    case False
    then have z: "drop_bit 7 v \<noteq> 0" by (simp only: le_0x7F_iff not_False_eq_True)
    let ?r = "encode_varint_loop (drop_bit 7 v)"
    from z have "?r \<noteq> []" by (subst encode_varint_loop.simps) simp
    then obtain n where n: "length ?r = Suc n" by (cases ?r) auto
    from "1.IH" [OF False z] n have "?r[n := ?r ! n AND 0x7F] = varint (drop_bit 7 v)"
      by simp
    with False n "1.prems" show ?thesis
      by (simp add: loop varint.simps [of v])
  qed
qed

theorem pb_encode_varint_eq:
  "pb_encode_varint s v = pb_write s (varint v) (length (varint v))"
proof (cases "v \<le> 0x7F")
  case True
  then show ?thesis by (simp add: pb_encode_varint_def varint.simps [of v])
next
  case False
  then have "v \<noteq> 0" by auto
  from varint_unmark_last [OF this] have
    "length (encode_varint_loop v) = length (varint v)"
    by (metis length_list_update)
  with False varint_unmark_last [OF \<open>v \<noteq> 0\<close>] show ?thesis
    by (simp add: pb_encode_varint_def Let_def)
qed

text \<open>The local array \<open>buffer[10]\<close> is never overrun.\<close>

lemma varint_length_bound:
  assumes "unat v < 2 ^ (7 * n)" and "0 < n"
  shows "length (varint v) \<le> n"
  using assms
proof (induction v arbitrary: n rule: varint.induct)
  case (1 v)
  show ?case
  proof (cases "v \<le> 0x7F")
    case True
    with "1.prems" show ?thesis by (simp add: varint.simps [of v])
  next
    case False
    then have "128 \<le> unat v" by (simp add: word_le_nat_alt)
    obtain m where m: "n = Suc m" using "1.prems"(2) by (cases n) auto
    have "0 < m"
    proof (rule ccontr)
      assume "\<not> 0 < m"
      with m "1.prems"(1) \<open>128 \<le> unat v\<close> show False by simp
    qed
    have "unat v < 2 ^ (7 * m) * 128"
      using "1.prems"(1) m by (simp add: power_add)
    then have "unat (drop_bit 7 v) < 2 ^ (7 * m)"
      by (simp only: unat_drop_bit) (simp add: less_mult_imp_div_less)
    from "1.IH" [OF False this \<open>0 < m\<close>] False m show ?thesis
      by (simp add: varint.simps [of v])
  qed
qed

lemma varint_length: "length (varint v) \<le> 10" "0 < length (varint v)"
proof -
  have "unat v < 2 ^ LENGTH(64)" by (rule unsigned_less)
  then have "unat v < 2 ^ (7 * 10)" by simp
  then show "length (varint v) \<le> 10" by (rule varint_length_bound) simp
qed simp

lemma encode_varint_loop_length: "length (encode_varint_loop v) \<le> 10"
proof (cases "v = 0")
  case True
  then show ?thesis by (simp add: encode_varint_loop.simps)
next
  case False
  from arg_cong [OF varint_unmark_last [OF this], of length] varint_length(1) [of v]
  show ?thesis by simp
qed

lemma pb_encode_varint_fits [stream_simps]:
  "fits s (length (varint v)) \<Longrightarrow> pb_encode_varint s v = (True, emit s (varint v))"
  by (simp add: pb_encode_varint_eq pb_write_fits)

subsection \<open>Decoding\<close>

lemma decode_varint_loop_more:
  "n < 64 \<Longrightarrow> starts s [b] \<Longrightarrow> b AND 0x80 \<noteq> 0 \<Longrightarrow>
   decode_varint_loop s n a =
     decode_varint_loop (adv s 1) (n + 7) (a OR push_bit n (ucast (b AND 0x7F)))"
  by (subst decode_varint_loop.simps) (simp add: pb_readbyte_starts)

lemma decode_varint_loop_last:
  "n < 64 \<Longrightarrow> starts s [b] \<Longrightarrow> b AND 0x80 = 0 \<Longrightarrow>
   decode_varint_loop s n a = (Some (a OR push_bit n (ucast (b AND 0x7F))), adv s 1)"
  by (subst decode_varint_loop.simps) (simp add: pb_readbyte_starts)

lemma decode_varint_loop_varint:
  assumes "v = drop_bit n V" and "n < 64" and "starts s (varint v)"
  shows "decode_varint_loop s n (take_bit n V) = (Some V, adv s (length (varint v)))"
  using assms
proof (induction v arbitrary: n s rule: varint.induct)
  case (1 v)
  have step: "take_bit n V OR push_bit n (take_bit 7 v) = take_bit (n + 7) V"
    using "1.prems"(1) by (simp add: take_bit_step)
  show ?case
  proof (cases "v \<le> 0x7F")
    case True
    then have "drop_bit (n + 7) V = 0"
      using "1.prems"(1) by (simp only: le_0x7F_iff drop_bit_add)
    then have V: "take_bit (n + 7) V = V"
      using bits_ident [of "n + 7" V] by simp
    from True have e: "varint v = [ucast v]" by (simp add: varint.simps [of v])
    with "1.prems"(3) have "starts s [ucast v]" by simp
    from decode_varint_loop_last [OF "1.prems"(2) this digit_last [OF True]]
    show ?thesis by (simp only: digit_last_val step V e) simp
  next
    case False
    define b where "b = ((ucast (take_bit 7 v) :: u8) OR 0x80)"
    from False have e: "varint v = b # varint (drop_bit 7 v)"
      by (simp add: varint.simps [of v] b_def)
    have d: "drop_bit 7 v = drop_bit (n + 7) V"
      using "1.prems"(1) by (simp only: drop_bit_add)
    have "n + 7 < 64"
    proof (rule ccontr)
      assume "\<not> n + 7 < 64"
      then have "drop_bit (n + 7) V = 0" by (intro drop_bit_word_beyond) simp
      with False d show False by (simp only: le_0x7F_iff)
    qed
    from "1.prems"(3) e have s: "starts s [b]" "starts (adv s 1) (varint (drop_bit 7 v))"
      by (simp_all only: starts_Cons [of s b "varint (drop_bit 7 v)"])
    have "b AND 0x80 \<noteq> 0" unfolding b_def by (rule digit_more)
    from decode_varint_loop_more [OF "1.prems"(2) s(1) this, of "take_bit n V"]
    have "decode_varint_loop s n (take_bit n V) =
        decode_varint_loop (adv s 1) (n + 7) (take_bit (n + 7) V)"
      by (simp only: b_def digit_more_val step)
    with "1.IH" [OF False d \<open>n + 7 < 64\<close> s(2)] show ?thesis by (simp add: e)
  qed
qed

lemma pb_decode_varint_starts [stream_simps]:
  "starts s (varint v) \<Longrightarrow> pb_decode_varint s = (Some v, adv s (length (varint v)))"
  using decode_varint_loop_varint [of v 0 v s] by (simp add: pb_decode_varint_def)

lemma moved_decode_varint_loop:
  "i_callback s = Buf_read \<Longrightarrow> decode_varint_loop s n a = (r, s') \<Longrightarrow> moved s s'"
proof (induction s n a rule: decode_varint_loop.induct)
  case (1 s n a)
  show ?case
  proof (cases "64 \<le> n")
    case True
    with "1.prems" show ?thesis by (auto simp: decode_varint_loop.simps [of s])
  next
    case False
    obtain q t where q: "pb_readbyte s = (q, t)" by (cases "pb_readbyte s")
    then have t: "moved s t" using "1.prems"(1) by (rule moved_pb_readbyte [rotated])
    show ?thesis
    proof (cases q)
      case None
      with False q t "1.prems"(2) show ?thesis by (simp add: decode_varint_loop.simps [of s])
    next
      case (Some b)
      from "1.IH" [OF False q [symmetric] Some refl] t "1.prems" False q Some
      show ?thesis
        by (auto simp: decode_varint_loop.simps [of s n] Let_def moved_callback
            intro: moved_trans split: if_splits)
    qed
  qed
qed

lemma moved_pb_decode_varint:
  "i_callback s = Buf_read \<Longrightarrow> pb_decode_varint s = (r, s') \<Longrightarrow> moved s s'"
  by (simp add: pb_decode_varint_def moved_decode_varint_loop)

subsection \<open>Zigzag and fixed-width integers\<close>

lemma sint_neg_iff: "sint (v :: u64) < 0 \<longleftrightarrow> bit v 63"
  using bit_last_iff [of v] by simp

lemma bit_double: "bit ((v :: u64) * 2) n \<longleftrightarrow> 0 < n \<and> n < 64 \<and> bit v (n - 1)"
  using bit_push_bit_iff [of 1 v n] by auto

lemma zigzag_bits: "bit (zigzag v) n \<longleftrightarrow> n < 64 \<and> (if n = 0 then bit v 63 else bit v 63 \<noteq> bit v (n - 1))"
  by (auto simp: zigzag_def sint_neg_iff bit_simps bit_double)

lemma unzigzag_bits: "bit (unzigzag v) n \<longleftrightarrow> n < 64 \<and> (bit v 0 \<noteq> (n < 63 \<and> bit v (Suc n)))"
  using and_exp_eq_0_iff_not_bit [of v 0]
  by (auto simp: unzigzag_def bit_simps dest: bit_imp_le_length)

lemma unzigzag_zigzag [simp]: "unzigzag (zigzag v) = v"
proof (rule bit_word_eqI)
  fix n
  assume "n < LENGTH(64)"
  then have "n < 63 \<or> n = 63" by auto
  then show "bit (unzigzag (zigzag v)) n = bit v n"
    by (auto simp: unzigzag_bits zigzag_bits)
qed

lemma zigzag_unzigzag [simp]: "zigzag (unzigzag v) = v"
  by (rule bit_word_eqI) (auto simp: unzigzag_bits zigzag_bits)

lemma and_0xFF: "(x :: 'a::len word) AND 0xFF = take_bit 8 x"
  using mask_eq_exp_minus_1 [of 8, where ?'a = "'a word"]
  by (simp add: take_bit_eq_mask)

lemma ucast_digit32: "(ucast (ucast (take_bit 8 (v :: u32)) :: u8) :: u32) = take_bit 8 v"
  by (rule bit_word_eqI) (auto simp: bit_simps)

lemma ucast_digit64: "(ucast (ucast (take_bit 8 (v :: u64)) :: u8) :: u64) = take_bit 8 v"
  by (rule bit_word_eqI) (auto simp: bit_simps)

lemma fixed32_of_bytes: "fixed32_of (fixed32_bytes v) = v"
proof -
  have "fixed32_of (fixed32_bytes v) =
      ((take_bit 8 v OR push_bit 8 (take_bit 8 (drop_bit 8 v))) OR
        push_bit 16 (take_bit 8 (drop_bit 16 v))) OR push_bit 24 (take_bit 8 (drop_bit 24 v))"
    by (simp add: fixed32_of_def fixed32_bytes_def and_0xFF ucast_digit32 or.assoc del: push_bit_word_beyond)
  also have "\<dots> = v"
    by (simp add: take_bit_step take_bit_word_beyond)
  finally show ?thesis .
qed
lemma fixed64_of_bytes: "fixed64_of (fixed64_bytes v) = v"
proof -
  have "fixed64_of (fixed64_bytes v) =
      ((((((take_bit 8 v OR push_bit 8 (take_bit 8 (drop_bit 8 v))) OR
        push_bit 16 (take_bit 8 (drop_bit 16 v))) OR push_bit 24 (take_bit 8 (drop_bit 24 v))) OR
        push_bit 32 (take_bit 8 (drop_bit 32 v))) OR push_bit 40 (take_bit 8 (drop_bit 40 v))) OR
        push_bit 48 (take_bit 8 (drop_bit 48 v))) OR push_bit 56 (take_bit 8 (drop_bit 56 v))"
    by (simp add: fixed64_of_def fixed64_bytes_def and_0xFF ucast_digit64 or.assoc)
  also have "\<dots> = v"
    by (simp add: take_bit_step take_bit_word_beyond)
  finally show ?thesis .
qed

lemma pb_svarint_fits [stream_simps]:
  "fits s (length (varint (zigzag v))) \<Longrightarrow>
   pb_encode_svarint s v = (True, emit s (varint (zigzag v)))"
  by (simp add: pb_encode_svarint_def stream_simps)

lemma pb_decode_svarint_starts [stream_simps]:
  "starts s (varint (zigzag v)) \<Longrightarrow>
   pb_decode_svarint s = (Some v, adv s (length (varint (zigzag v))))"
  by (simp add: pb_decode_svarint_def stream_simps)

lemma length_fixed_bytes [simp]:
  "length (fixed32_bytes w) = 4" "length (fixed64_bytes v) = 8"
  by (simp_all add: fixed32_bytes_def fixed64_bytes_def)

lemma fixed_bytes_not_Nil [simp]: "fixed32_bytes w \<noteq> []" "fixed64_bytes v \<noteq> []"
  by (simp_all add: fixed32_bytes_def fixed64_bytes_def)

lemma pb_encode_fixed32_fits [stream_simps]:
  "fits s 4 \<Longrightarrow> pb_encode_fixed32 s w = (True, emit s (fixed32_bytes w))"
  using pb_write_fits [of s "fixed32_bytes w"] by (simp add: pb_encode_fixed32_def)

lemma pb_encode_fixed64_fits [stream_simps]:
  "fits s 8 \<Longrightarrow> pb_encode_fixed64 s v = (True, emit s (fixed64_bytes v))"
  using pb_write_fits [of s "fixed64_bytes v"] by (simp add: pb_encode_fixed64_def)

lemma pb_decode_fixed32_starts [stream_simps]:
  "starts s (fixed32_bytes w) \<Longrightarrow> pb_decode_fixed32 s = (Some w, adv s 4)"
  using pb_read_starts [of s "fixed32_bytes w" True]
  by (simp add: pb_decode_fixed32_def fixed32_of_bytes)

lemma pb_decode_fixed64_starts [stream_simps]:
  "starts s (fixed64_bytes v) \<Longrightarrow> pb_decode_fixed64 s = (Some v, adv s 8)"
  using pb_read_starts [of s "fixed64_bytes v" True]
  by (simp add: pb_decode_fixed64_def fixed64_of_bytes)

subsection \<open>The 32-bit decoder\<close>

lemma decode_varint32_loop_more:
  assumes "n < 32" and "starts s [b]" and "b AND 0x80 \<noteq> 0"
  shows "decode_varint32_loop s (of_nat n) a =
    decode_varint32_loop (adv s 1) (of_nat (n + 7)) (a OR push_bit n (ucast (b AND 0x7F)))"
proof -
  have n: "\<not> (32 :: u8) \<le> of_nat n"
    using assms(1) by (simp add: word_le_nat_alt unat_of_nat_u8)
  have u: "unat (of_nat n :: u8) = n" using assms(1) by (simp add: unat_of_nat_u8)
  show ?thesis
    by (subst decode_varint32_loop.simps)
       (simp add: pb_readbyte_starts [OF assms(2)] assms(3) n u Let_def add.commute)
qed

lemma decode_varint32_loop_last:
  assumes "n < 32" and "starts s [b]" and "b AND 0x80 = 0" and "n = 28 \<Longrightarrow> b AND 0x70 = 0"
  shows "decode_varint32_loop s (of_nat n) a =
    (Some (a OR push_bit n (ucast (b AND 0x7F))), adv s 1)"
proof -
  have n: "\<not> (32 :: u8) \<le> of_nat n"
    using assms(1) by (simp add: word_le_nat_alt unat_of_nat_u8)
  have u: "unat (of_nat n :: u8) = n" using assms(1) by (simp add: unat_of_nat_u8)
  have e: "of_nat n + 7 = (35 :: u8) \<longleftrightarrow> n = 28"
  proof
    assume "of_nat n + 7 = (35 :: u8)"
    then have "(of_nat n :: u8) = 28" by (simp add: eq_diff_eq [symmetric])
    then have "unat (of_nat n :: u8) = 28" by simp
    with u show "n = 28" by simp
  qed simp
  show ?thesis
    by (subst decode_varint32_loop.simps)
       (use assms(4) in \<open>auto simp: pb_readbyte_starts [OF assms(2)] assms(3) n u e Let_def\<close>)
qed

lemma low_digit: "\<not> bit b 7 \<Longrightarrow> take_bit 7 (b :: u8) = b"
proof (rule bit_word_eqI)
  fix n
  assume "\<not> bit b 7" and "n < LENGTH(8)"
  then show "bit (take_bit 7 b) n = bit b n"
    by (cases "n = 7") (auto simp: bit_simps)
qed

lemma pb_decode_varint32_eq: "pb_decode_varint32 s = decode_varint32_loop s 0 0"
  by (subst decode_varint32_loop.simps)
     (auto simp: pb_decode_varint32_def pb_decode_varint32_eof_def Let_def and_0x7F and_0x80
       low_digit split: prod.splits option.splits)

text \<open>One digit of a 64-bit value, as the 32-bit decoder accumulates it.\<close>

lemma take_bit_step32:
  "take_bit n (ucast V :: u32) OR push_bit n (ucast (take_bit 7 (drop_bit n (V :: u64)))) =
   take_bit (n + 7) (ucast V)"
  by (rule bit_word_eqI) (auto simp: bit_simps)

lemma digit_more_val32:
  "(ucast (((ucast (take_bit 7 (v :: u64)) :: u8) OR 0x80) AND 0x7F) :: u32) = ucast (take_bit 7 v)"
  unfolding and_0x7F or_0x80 by (rule bit_word_eqI) (auto simp: bit_simps)

lemma digit_last_val32:
  "(ucast ((ucast (v :: u64) :: u8) AND 0x7F) :: u32) = ucast (take_bit 7 v)"
  unfolding and_0x7F by (rule bit_word_eqI) (auto simp: bit_simps)

text \<open>A digit that is not the last one and lies below bit 32.\<close>

lemma decode_varint32_loop_digit:
  assumes "n < 32" and "\<not> drop_bit n V \<le> 0x7F" and "starts s (varint (drop_bit n V))"
  shows "decode_varint32_loop s (of_nat n) (take_bit n (ucast V)) =
      decode_varint32_loop (adv s 1) (of_nat (n + 7)) (take_bit (n + 7) (ucast V))"
    and "starts (adv s 1) (varint (drop_bit (n + 7) V))"
    and "length (varint (drop_bit n V)) = Suc (length (varint (drop_bit (n + 7) V)))"
proof -
  define b where "b = ((ucast (take_bit 7 (drop_bit n V)) :: u8) OR 0x80)"
  have e: "varint (drop_bit n V) = b # varint (drop_bit (n + 7) V)"
    using assms(2) by (subst varint.simps) (simp only: b_def drop_bit_add if_False)
  from assms(3) have s: "starts s [b]" "starts (adv s 1) (varint (drop_bit (n + 7) V))"
    by (simp_all only: e starts_Cons [of s b "varint (drop_bit (n + 7) V)"])
  have "b AND 0x80 \<noteq> 0" unfolding b_def by (rule digit_more)
  from decode_varint32_loop_more [OF assms(1) s(1) this, of "take_bit n (ucast V)"]
  show "decode_varint32_loop s (of_nat n) (take_bit n (ucast V)) =
      decode_varint32_loop (adv s 1) (of_nat (n + 7)) (take_bit (n + 7) (ucast V))"
    by (simp only: b_def digit_more_val32 take_bit_step32)
  show "starts (adv s 1) (varint (drop_bit (n + 7) V))" by (rule s(2))
  show "length (varint (drop_bit n V)) = Suc (length (varint (drop_bit (n + 7) V)))"
    by (simp only: e list.size)
qed

lemma and_0x70:
  assumes "\<not> bit b 4" "\<not> bit b 5" "\<not> bit b 6"
  shows "(b :: u8) AND 0x70 = 0"
proof -
  have "(0x70 :: u8) = 2 ^ 4 OR 2 ^ 5 OR 2 ^ 6" by simp
  then have "b AND 0x70 = (b AND 2 ^ 4) OR (b AND 2 ^ 5) OR (b AND 2 ^ 6)"
    by (simp only: bit.conj_disj_distrib)
  moreover have "b AND 2 ^ 4 = 0" "b AND 2 ^ 5 = 0" "b AND 2 ^ 6 = 0"
    using assms by (simp_all only: and_exp_eq_0_iff_not_bit not_False_eq_True)
  ultimately show ?thesis by simp
qed

lemma decode_varint32_loop_varint:
  assumes "drop_bit 32 V = 0" and "n = 7 * k" and "n < 32" and "starts s (varint (drop_bit n V))"
  shows "decode_varint32_loop s (of_nat n) (take_bit n (ucast V)) =
    (Some (ucast V), adv s (length (varint (drop_bit n V))))"
  using assms
proof (induction "32 - n" arbitrary: n k s rule: less_induct)
  case less
  have z: "(ucast V :: u32) = take_bit m (ucast V)" if "drop_bit m V = 0" for m
  proof (rule bit_word_eqI)
    fix i
    have "bit (drop_bit m V) (i - m) = False" using that by simp
    then show "bit (ucast V :: u32) i = bit (take_bit m (ucast V) :: u32) i"
      by (cases "i < m") (auto simp: bit_simps)
  qed
  show ?case
  proof (cases "drop_bit n V \<le> 0x7F")
    case True
    then have e: "varint (drop_bit n V) = [ucast (drop_bit n V)]" by (subst varint.simps) simp
    have "ucast (drop_bit n V) AND 0x70 = (0 :: u8)" if "n = 28"
    proof -
      have "\<not> bit V i" if "32 \<le> i" for i
      proof -
        have "bit (drop_bit 32 V) (i - 32) = False" using less.prems(1) by simp
        with that show ?thesis by (simp add: bit_simps)
      qed
      with \<open>n = 28\<close> show ?thesis by (intro and_0x70) (simp_all add: bit_simps)
    qed
    from decode_varint32_loop_last [OF less.prems(3) less.prems(4) [unfolded e]
        digit_last [OF True] this]
    have "decode_varint32_loop s (of_nat n) (take_bit n (ucast V)) =
        (Some (take_bit (n + 7) (ucast V)), adv s 1)"
      by (simp only: digit_last_val32 take_bit_step32)
    moreover from True have "drop_bit (n + 7) V = 0" by (simp only: le_0x7F_iff drop_bit_add)
    ultimately show ?thesis using z [of "n + 7"] by (simp add: e)
  next
    case False
    have "n + 7 < 32"
    proof (rule ccontr)
      assume "\<not> n + 7 < 32"
      then have "n + 7 = 32 + (n + 7 - 32)" by simp
      then have "drop_bit (n + 7) V = drop_bit (n + 7 - 32) (drop_bit 32 V)"
        by (simp only: drop_bit_add)
      with less.prems(1) False show False by (simp only: le_0x7F_iff drop_bit_add) simp
    qed
    note d = decode_varint32_loop_digit [OF less.prems(3) False less.prems(4)]
    have "decode_varint32_loop (adv s 1) (of_nat (n + 7)) (take_bit (n + 7) (ucast V)) =
        (Some (ucast V), adv (adv s 1) (length (varint (drop_bit (n + 7) V))))"
    proof (rule less.hyps [OF _ less.prems(1) _ \<open>n + 7 < 32\<close> d(2)])
      show "32 - (n + 7) < 32 - n" using less.prems(3) by linarith
      show "n + 7 = 7 * Suc k" using less.prems(2) by simp
    qed
    then show ?thesis by (simp only: d(1,3) adv_adv plus_1_eq_Suc)
  qed
qed


lemma pb_decode_varint32_starts [stream_simps]:
  assumes "drop_bit 32 v = 0" and "starts s (varint v)"
  shows "pb_decode_varint32 s = (Some (ucast v), adv s (length (varint v)))"
  using decode_varint32_loop_varint [of v 0 0 s] assms by (simp add: pb_decode_varint32_eq)

text \<open>
  A negative 32-bit integer is sent sign-extended to 64 bits, in ten bytes: the decoder skips the
  extension and returns the low half.
\<close>

lemma varint_sign_tail: "varint 0x1FFFFFFF = [0xFF, 0xFF, 0xFF, 0xFF, 0x01]"
  by (simp add: varint.simps word_le_nat_alt)

lemma decode_varint32_loop_sign:
  assumes "bit a 31" and "starts s [0xFF, 0xFF, 0xFF, 0xFF, 0x01]"
  shows "decode_varint32_loop s 35 (a :: u32) = (Some a, adv s 5)"
proof -
  have a: "drop_bit 31 a \<noteq> 0"
  proof
    assume "drop_bit 31 a = 0"
    then have "\<not> bit (drop_bit 31 a) 0" by simp
    with assms(1) show False by (simp add: bit_simps)
  qed
  have s: "pb_readbyte s = (Some 0xFF, adv s (Suc 0))"
    "pb_readbyte (adv s (Suc 0)) = (Some 0xFF, adv s 2)"
    "pb_readbyte (adv s 2) = (Some 0xFF, adv s 3)" "pb_readbyte (adv s 3) = (Some 0xFF, adv s 4)"
    "pb_readbyte (adv s 4) = (Some 0x01, adv s 5)"
    using pb_readbyte_nth [OF assms(2), of 0] pb_readbyte_nth [OF assms(2), of 1]
      pb_readbyte_nth [OF assms(2), of 2] pb_readbyte_nth [OF assms(2), of 3]
      pb_readbyte_nth [OF assms(2), of 4]
    by (simp_all add: eval_nat_numeral)
  show ?thesis
    by (simp add: decode_varint32_loop.simps s a word_less_nat_alt word_le_nat_alt)
qed


lemma pb_decode_varint32_sign:
  assumes "bit w 31" and "starts s (varint (scast (w :: u32)))"
  shows "pb_decode_varint32 s = (Some w, adv s 10)"
proof -
  define V where "V = (scast w :: u64)"
  have top: "\<not> drop_bit n V \<le> 0x7F" if "n < 36" for n
  proof
    assume "drop_bit n V \<le> 0x7F"
    then have "drop_bit (n + 7) V = 0" by (simp only: le_0x7F_iff drop_bit_add)
    then have "\<not> bit (drop_bit (n + 7) V) (56 - n)" by simp
    with assms(1) that show False by (simp add: V_def bit_simps)
  qed
  have low: "take_bit 35 (ucast V) = w" "bit (take_bit 35 (ucast V) :: u32) 31"
    using assms(1) by (auto intro!: bit_word_eqI simp: V_def bit_simps)
  have tail: "drop_bit 35 V = 0x1FFFFFFF"
  proof -
    have "drop_bit 35 V = mask 29"
      using assms(1) by (intro bit_word_eqI) (auto simp: V_def bit_simps)
    then show ?thesis by (simp add: mask_eq_exp_minus_1)
  qed
  note digit = decode_varint32_loop_digit [where V = V, OF _ top]
  have s0: "starts s (varint (drop_bit 0 V))" using assms(2) by (simp add: V_def)
  note s1 = digit(2) [OF _ _ s0, simplified]
  note s2 = digit(2) [OF _ _ s1, simplified]
  note s3 = digit(2) [OF _ _ s2, simplified]
  note s4 = digit(2) [OF _ _ s3, simplified]
  note s5 = digit(2) [OF _ _ s4, simplified]
  have five: "Suc (Suc (Suc (Suc (Suc 0)))) = 5" by simp
  have "decode_varint32_loop s 0 0 = decode_varint32_loop (adv s 5) 35 (take_bit 35 (ucast V))"
    using digit(1) [OF _ _ s0] digit(1) [OF _ _ s1] digit(1) [OF _ _ s2] digit(1) [OF _ _ s3]
      digit(1) [OF _ _ s4] by (simp add: eval_nat_numeral)
  also have "\<dots> = (Some w, adv s 10)"
    using decode_varint32_loop_sign [OF low(2), of "adv s 5"] s5
    by (simp add: low tail varint_sign_tail five)
  finally show ?thesis by (simp add: pb_decode_varint32_eq)
qed

lemma moved_decode_varint32_loop:
  "i_callback s = Buf_read \<Longrightarrow> decode_varint32_loop s n a = (r, s') \<Longrightarrow> moved s s'"
proof (induction s n a arbitrary: r s' rule: decode_varint32_loop.induct)
  case (1 s n a)
  obtain q t where q: "pb_readbyte s = (q, t)" by (cases "pb_readbyte s")
  then have t: "moved s t" using "1.prems"(1) by (rule moved_pb_readbyte [rotated])
  show ?case
  proof (cases q)
    case None
    with q t "1.prems"(2) show ?thesis by (simp add: decode_varint32_loop.simps [of s])
  next
    case (Some b)
    from t have c: "i_callback t = Buf_read" using "1.prems"(1) by (simp add: moved_callback)
    from "1.IH" [OF q [symmetric] Some refl _ refl refl _ c] t "1.prems"(2) q Some
    show ?thesis
      by (auto simp: decode_varint32_loop.simps [of s n] Let_def
          intro: moved_trans split: if_splits)
  qed
qed

lemma moved_pb_decode_varint32:
  "i_callback s = Buf_read \<Longrightarrow> pb_decode_varint32 s = (r, s') \<Longrightarrow> moved s s'"
  by (simp add: pb_decode_varint32_eq moved_decode_varint32_loop)

end
