(* ===== verification/Pb_Wire.thy ===== *)
theory Pb_Wire
  imports Pb_Varint
begin

text \<open>
  The wire level of nanopb, the part of the library the Firestore serializer calls directly: field
  tags, length-delimited strings, substreams, skipping, raw values (\<open>pb_encode.c\<close>,
  \<open>pb_decode.c\<close>), and the loops over the items of a packed array. The locale
  \<open>wire_codec\<close> is the contract of a scalar encoder and decoder; the packed loops are proved once
  against it and interpreted for the four scalar encodings of the library.
\<close>

section \<open>Tags\<close>

abbreviation (input) PB_WT_VARINT :: u32 where "PB_WT_VARINT \<equiv> 0"
abbreviation (input) PB_WT_64BIT :: u32 where "PB_WT_64BIT \<equiv> 1"
abbreviation (input) PB_WT_STRING :: u32 where "PB_WT_STRING \<equiv> 2"
abbreviation (input) PB_WT_32BIT :: u32 where "PB_WT_32BIT \<equiv> 5"

definition pb_encode_tag :: "'st pb_ostream \<Rightarrow> u32 \<Rightarrow> u32 \<Rightarrow> bool \<times> 'st pb_ostream" where
  "pb_encode_tag s wiretype field_number =
     pb_encode_varint s (push_bit 3 (ucast field_number) OR ucast wiretype)"

text \<open>
  The outcomes of \<open>pb_decode_tag\<close>: a wire type and a tag (the function returned true), false with
  \<open>*eof\<close> set, false with \<open>*eof\<close> clear.
\<close>

datatype tag_result = Tag u32 u32 | Tag_eof | Tag_fail

definition pb_decode_tag :: "'st pb_istream \<Rightarrow> tag_result \<times> 'st pb_istream" where
  "pb_decode_tag s =
     (case pb_decode_varint32_eof s of
        ((None, eof), s') \<Rightarrow> (if eof then Tag_eof else Tag_fail, s')
      | ((Some temp, _), s') \<Rightarrow>
          if temp = 0 then (Tag_eof, s')
          else (Tag (temp AND 7) (drop_bit 3 temp), s'))"

section \<open>Strings and skipping\<close>

definition pb_encode_string :: "'st pb_ostream \<Rightarrow> bytes \<Rightarrow> nat \<Rightarrow> bool \<times> 'st pb_ostream" where
  "pb_encode_string s buffer sz =
     (case pb_encode_varint s (of_nat sz) of
        (False, s') \<Rightarrow> (False, s')
      | (True, s') \<Rightarrow> pb_write s' buffer sz)"

function pb_skip_varint :: "'st pb_istream \<Rightarrow> bool \<times> 'st pb_istream" where
  "pb_skip_varint s =
     (case pb_read s True 1 of
        (None, s') \<Rightarrow> (False, s')
      | (Some bs, s') \<Rightarrow> if hd bs AND 0x80 \<noteq> 0 then pb_skip_varint s' else (True, s'))"
  by pat_completeness auto
termination
  by (relation "measure bytes_left")
     (auto dest!: sym [of _ "pb_read _ _ _"] dest: pb_read_left)

declare pb_skip_varint.simps [simp del]

definition skip_bytes :: "'st pb_istream \<Rightarrow> nat \<Rightarrow> bool \<times> 'st pb_istream" where
  "skip_bytes s count = (case pb_read s False count of (r, s') \<Rightarrow> (r \<noteq> None, s'))"

definition pb_skip_string :: "'st pb_istream \<Rightarrow> bool \<times> 'st pb_istream" where
  "pb_skip_string s =
     (case pb_decode_varint32 s of
        (None, s') \<Rightarrow> (False, s')
      | (Some len, s') \<Rightarrow> skip_bytes s' (unat len))"

definition pb_skip_field :: "'st pb_istream \<Rightarrow> u32 \<Rightarrow> bool \<times> 'st pb_istream" where
  "pb_skip_field s wire_type =
     (if wire_type = PB_WT_VARINT then pb_skip_varint s
      else if wire_type = PB_WT_64BIT then skip_bytes s 8
      else if wire_type = PB_WT_STRING then pb_skip_string s
      else if wire_type = PB_WT_32BIT then skip_bytes s 4
      else in_fail s ''invalid wire_type'')"

text \<open>
  \<open>read_raw_value\<close>: the bytes of a scalar, at most \<open>max_sz\<close> of them for a varint. A varint
  that does not fit makes the function return false with no message.
\<close>

function read_raw_varint ::
  "'st pb_istream \<Rightarrow> nat \<Rightarrow> nat \<Rightarrow> bytes option \<times> 'st pb_istream" where
  "read_raw_varint s max_sz sz =
     (if max_sz < sz + 1 then (None, s)
      else case pb_read s True 1 of
             (None, s') \<Rightarrow> (None, s')
           | (Some bs, s') \<Rightarrow>
               if hd bs AND 0x80 \<noteq> 0 then
                 (case read_raw_varint s' max_sz (sz + 1) of
                    (None, s'') \<Rightarrow> (None, s'')
                  | (Some rest, s'') \<Rightarrow> (Some (hd bs # rest), s''))
               else (Some [hd bs], s'))"
  by pat_completeness auto
termination
  by (relation "measure (\<lambda>(s, max_sz, sz). max_sz - sz)") auto

declare read_raw_varint.simps [simp del]

definition read_raw_value ::
  "'st pb_istream \<Rightarrow> u32 \<Rightarrow> nat \<Rightarrow> bytes option \<times> 'st pb_istream" where
  "read_raw_value s wire_type max_sz =
     (if wire_type = PB_WT_VARINT then read_raw_varint s max_sz 0
      else if wire_type = PB_WT_64BIT then pb_read s True 8
      else if wire_type = PB_WT_32BIT then pb_read s True 4
      else in_error s ''invalid wire_type'')"

section \<open>Substreams\<close>

definition pb_make_string_substream ::
  "'st pb_istream \<Rightarrow> 'st pb_istream option \<times> 'st pb_istream" where
  "pb_make_string_substream s =
     (case pb_decode_varint32 s of
        (None, s') \<Rightarrow> (None, s')
      | (Some sz, s') \<Rightarrow>
          if bytes_left s' < unat sz then in_error s' ''parent stream too short''
          else (Some (s'\<lparr>bytes_left := unat sz\<rparr>),
                s'\<lparr>bytes_left := bytes_left s' - unat sz\<rparr>))"

text \<open>
  \<open>stream->state = substream->state\<close>: the read position moves to where the substream ended; the
  error message is handed back too.
\<close>

definition pb_close_string_substream ::
  "'st pb_istream \<Rightarrow> 'st pb_istream \<Rightarrow> bool \<times> 'st pb_istream" where
  "pb_close_string_substream s sub =
     (case (if bytes_left sub \<noteq> 0 then skip_bytes sub (bytes_left sub) else (True, sub)) of
        (False, sub') \<Rightarrow> (False, s)
      | (True, sub') \<Rightarrow>
          (True, s\<lparr>i_src := i_src sub', i_user := i_user sub', i_errmsg := i_errmsg sub'\<rparr>))"

section \<open>Packed items\<close>

text \<open>
  The loop over the items of a packed array, as \<open>decode_static_field\<close> runs it on the substream:
  \<open>room\<close> is what is left of the array. It stops at the end of the data, at a full array, or when an
  item fails. The result holds the items decoded and whether all of them succeeded.
\<close>

fun decode_items ::
  "('st pb_istream \<Rightarrow> 'a option \<times> 'st pb_istream) \<Rightarrow> 'st pb_istream \<Rightarrow> nat \<Rightarrow>
   'a list \<times> bool \<times> 'st pb_istream" where
  "decode_items dec s 0 = ([], True, s)"
| "decode_items dec s (Suc room) =
     (if bytes_left s = 0 then ([], True, s)
      else case dec s of
             (None, s') \<Rightarrow> ([], False, s')
           | (Some x, s') \<Rightarrow>
               (case decode_items dec s' room of (xs, ok, s'') \<Rightarrow> (x # xs, ok, s'')))"

text \<open>The writing loop of \<open>encode_array\<close>.\<close>

fun encode_items ::
  "('st pb_ostream \<Rightarrow> 'a \<Rightarrow> bool \<times> 'st pb_ostream) \<Rightarrow> 'st pb_ostream \<Rightarrow> 'a list \<Rightarrow>
   bool \<times> 'st pb_ostream" where
  "encode_items encf s [] = (True, s)"
| "encode_items encf s (x # xs) =
     (case encf s x of
        (False, s') \<Rightarrow> (False, s')
      | (True, s') \<Rightarrow> encode_items encf s' xs)"

text \<open>The contract between the encoder and the decoder of a scalar.\<close>

locale wire_codec =
  fixes enc :: "'a \<Rightarrow> bytes"
    and encf :: "'st pb_ostream \<Rightarrow> 'a \<Rightarrow> bool \<times> 'st pb_ostream"
    and dec :: "'t pb_istream \<Rightarrow> 'a option \<times> 't pb_istream"
  assumes enc_not_Nil: "enc x \<noteq> []"
    and encf_fits: "fits s (length (enc x)) \<Longrightarrow> encf s x = (True, emit s (enc x))"
    and dec_starts: "starts t (enc x) \<Longrightarrow> dec t = (Some x, adv t (length (enc x)))"
begin

lemma encode_items_fits:
  "fits s (length (concat (map enc xs))) \<Longrightarrow>
   encode_items encf s xs = (True, emit s (concat (map enc xs)))"
proof (induction xs arbitrary: s)
  case (Cons x xs)
  then have "fits s (length (enc x))" by (auto elim: fits_mono)
  with Cons show ?case by (simp add: encf_fits)
qed simp

lemma decode_items_starts:
  assumes "starts t (concat (map enc xs))" and "bytes_left t = length (concat (map enc xs))"
    and "length xs \<le> room"
  shows "decode_items dec t room = (xs, True, adv t (bytes_left t))"
  using assms
proof (induction xs arbitrary: t room)
  case Nil
  then show ?case by (cases room) simp_all
next
  case (Cons x xs)
  obtain r where r: "room = Suc r" using Cons.prems(3) by (cases room) auto
  have s: "starts t (enc x)" "starts (adv t (length (enc x))) (concat (map enc xs))"
    using Cons.prems(1) by (simp_all add: starts_append)
  have "bytes_left t \<noteq> 0" using Cons.prems(2) enc_not_Nil [of x] by simp
  moreover have "decode_items dec (adv t (length (enc x))) r =
      (xs, True, adv (adv t (length (enc x))) (bytes_left (adv t (length (enc x)))))"
    by (rule Cons.IH [OF s(2)]) (use Cons.prems(2,3) r in simp_all)
  ultimately show ?case using Cons.prems(2) by (simp add: r dec_starts [OF s(1)])
qed

lemma enc_inj: "enc x = enc y \<Longrightarrow> x = y"
proof -
  assume e: "enc x = enc y"
  let ?t = "\<lparr>i_callback = Buf_read, i_src = enc x, i_user = undefined,
    bytes_left = length (enc x), i_errmsg = None\<rparr> :: 't pb_istream"
  have "starts ?t (enc x)" "starts ?t (enc y)" by (simp_all add: starts_def flip: e)
  then show "x = y" by (auto dest!: dec_starts)
qed

end

interpretation varint_codec: wire_codec varint pb_encode_varint pb_decode_varint
  by unfold_locales (simp_all add: stream_simps)

interpretation svarint_codec:
  wire_codec "\<lambda>v. varint (zigzag v)" pb_encode_svarint pb_decode_svarint
  by unfold_locales (simp_all add: stream_simps)

interpretation fixed32_codec: wire_codec fixed32_bytes pb_encode_fixed32 pb_decode_fixed32
  by unfold_locales (simp_all add: stream_simps)

interpretation fixed64_codec: wire_codec fixed64_bytes pb_encode_fixed64 pb_decode_fixed64
  by unfold_locales (simp_all add: stream_simps)

section \<open>Abstract fields\<close>

text \<open>What a field of a protocol-buffer message carries, by wire type.\<close>

datatype wire_val = WVarint u64 | W64 u64 | WString bytes | W32 u32

fun wire_type_of :: "wire_val \<Rightarrow> u32" where
  "wire_type_of (WVarint v) = PB_WT_VARINT"
| "wire_type_of (W64 v) = PB_WT_64BIT"
| "wire_type_of (WString bs) = PB_WT_STRING"
| "wire_type_of (W32 w) = PB_WT_32BIT"

definition string_bytes :: "bytes \<Rightarrow> bytes" where
  "string_bytes bs = varint (of_nat (length bs)) @ bs"

fun wire_bytes :: "wire_val \<Rightarrow> bytes" where
  "wire_bytes (WVarint v) = varint v"
| "wire_bytes (W64 v) = fixed64_bytes v"
| "wire_bytes (WString bs) = string_bytes bs"
| "wire_bytes (W32 w) = fixed32_bytes w"

text \<open>The decoder reads string lengths with the 32-bit decoder.\<close>

fun wire_ok :: "wire_val \<Rightarrow> bool" where
  "wire_ok (WString bs) \<longleftrightarrow> length bs < 2 ^ 32"
| "wire_ok _ \<longleftrightarrow> True"

definition tag_word :: "u32 \<Rightarrow> u32 \<Rightarrow> u64" where
  "tag_word wiretype field_number = push_bit 3 (ucast field_number) OR ucast wiretype"

subsection \<open>Tags\<close>

lemma pb_decode_varint32_eof_Some:
  "pb_decode_varint32 s = (Some r, s') \<Longrightarrow> pb_decode_varint32_eof s = ((Some r, False), s')"
  by (auto simp: pb_decode_varint32_def pb_decode_varint32_eof_def
      split: prod.splits option.splits if_splits)

lemma tag_word_bits:
  assumes "unat f < 2 ^ 29" and "unat w < 8"
  shows "drop_bit 32 (tag_word w f) = 0"
    and "(ucast (tag_word w f) :: u32) AND 7 = w"
    and "drop_bit 3 (ucast (tag_word w f) :: u32) = f"
proof -
  have f: "\<not> bit f i" if "29 \<le> i" for i using not_bit_above [OF assms(1) that] .
  then have f': "i < 29" if "bit f i" for i using that by (meson not_less)
  have w: "\<not> bit w i" if "3 \<le> i" for i
    using not_bit_above [of w 3 i] assms(2) that by simp
  then have w': "i < 3" if "bit w i" for i using that by (meson not_less)
  show "drop_bit 32 (tag_word w f) = 0"
    by (rule bit_word_eqI) (auto simp: tag_word_def bit_simps f w)
  have m: "x AND 7 = take_bit 3 x" for x :: u32
    using mask_eq_exp_minus_1 [of 3, where ?'a = u32] by (simp add: take_bit_eq_mask)
  show "(ucast (tag_word w f) :: u32) AND 7 = w"
    unfolding m by (rule bit_word_eqI) (auto simp: tag_word_def bit_simps dest: w')
  show "drop_bit 3 (ucast (tag_word w f) :: u32) = f"
    by (rule bit_word_eqI) (auto simp: tag_word_def bit_simps f w dest: f' w')
qed

lemma unat_of_nat_u64: "n < 2 ^ 64 \<Longrightarrow> unat (of_nat n :: u64) = n"
  by (simp add: unat_of_nat)

lemma pb_encode_tag_fits [stream_simps]:
  "fits s (length (varint (tag_word w f))) \<Longrightarrow>
   pb_encode_tag s w f = (True, emit s (varint (tag_word w f)))"
  by (simp add: pb_encode_tag_def tag_word_def stream_simps)

lemma pb_decode_tag_starts [stream_simps]:
  assumes "unat f < 2 ^ 29" and "unat w < 8" and "f \<noteq> 0"
    and "starts s (varint (tag_word w f))"
  shows "pb_decode_tag s = (Tag w f, adv s (length (varint (tag_word w f))))"
proof -
  note b = tag_word_bits [OF assms(1,2)]
  have "ucast (tag_word w f) \<noteq> (0 :: u32)" using b(3) assms(3) by auto
  with pb_decode_varint32_eof_Some [OF pb_decode_varint32_starts [OF b(1) assms(4)]] b(2,3)
  show ?thesis by (simp add: pb_decode_tag_def)
qed

subsection \<open>Strings\<close>

lemma pb_encode_string_fits [stream_simps]:
  "fits s (length (string_bytes bs)) \<Longrightarrow>
   pb_encode_string s bs (length bs) = (True, emit s (string_bytes bs))"
  by (simp add: pb_encode_string_def string_bytes_def stream_simps fits_mono)

lemma of_nat_length_u64: "n < 2 ^ 32 \<Longrightarrow> drop_bit 32 (of_nat n :: u64) = 0"
  by (simp add: drop_bit_eq_0_iff unat_of_nat_u64)

lemma unat_length_u32: "n < 2 ^ 32 \<Longrightarrow> unat (ucast (of_nat n :: u64) :: u32) = n"
  by (simp add: unsigned_ucast_eq unat_of_nat_u64 take_bit_nat_eq_self)

lemma pb_decode_length_starts:
  assumes "length bs < 2 ^ 32" and "starts s (string_bytes bs)"
  shows "\<exists>n. pb_decode_varint32 s = (Some n, adv s (length (varint (of_nat (length bs))))) \<and>
      unat n = length bs"
    and "starts (adv s (length (varint (of_nat (length bs))))) bs"
  using assms pb_decode_varint32_starts [of "of_nat (length bs)" s]
  by (auto simp: string_bytes_def starts_append of_nat_length_u64 unat_length_u32)

text \<open>
  A substream shows exactly the bytes of the string, and closing it leaves the parent right behind
  the string, however much of the substream was read.
\<close>

lemma pb_make_string_substream_starts:
  assumes "length bs < 2 ^ 32" and "starts s (string_bytes bs)"
  obtains sub t where "pb_make_string_substream s = (Some sub, t)"
    and "starts sub bs" and "bytes_left sub = length bs"
    and "t = s\<lparr>i_src := i_src sub, bytes_left := bytes_left s - length (string_bytes bs)\<rparr>"
    and "i_src sub = drop (length (varint (of_nat (length bs)))) (i_src s)"
proof -
  let ?k = "length (varint (of_nat (length bs)))"
  obtain n where n: "pb_decode_varint32 s = (Some n, adv s ?k)" "unat n = length bs"
    using pb_decode_length_starts(1) [OF assms] by blast
  have b: "starts (adv s ?k) bs" by (rule pb_decode_length_starts(2) [OF assms])
  show ?thesis
  proof (rule that)
    show "pb_make_string_substream s =
      (Some ((adv s ?k)\<lparr>bytes_left := length bs\<rparr>),
       (adv s ?k)\<lparr>bytes_left := bytes_left (adv s ?k) - length bs\<rparr>)"
      using n b by (simp add: pb_make_string_substream_def starts_def)
  qed (use b in \<open>auto simp: starts_def string_bytes_def adv_def\<close>)
qed

lemma pb_close_string_substream_moved:
  assumes "i_callback sub = Buf_read" and "moved sub sub'"
  shows "pb_close_string_substream t sub' =
    (True, t\<lparr>i_src := drop (bytes_left sub) (i_src sub), i_user := i_user sub,
      i_errmsg := i_errmsg sub'\<rparr>)"
proof -
  obtain k where k: "k \<le> bytes_left sub" "i_src sub' = drop k (i_src sub)"
    "bytes_left sub' = bytes_left sub - k" "i_callback sub' = i_callback sub"
    "i_user sub' = i_user sub"
    using assms(2) unfolding moved_def by blast
  with assms(1) show ?thesis
    by (auto simp: pb_close_string_substream_def skip_bytes_def pb_read_buf adv_def)
qed

lemma whole_substream:
  assumes "length bs < 2 ^ 32" and "starts s (string_bytes bs)"
  obtains sub t where "pb_make_string_substream s = (Some sub, t)" and "starts sub bs"
    and "bytes_left sub = length bs"
    and "pb_close_string_substream t (adv sub (length bs)) = (True, adv s (length (string_bytes bs)))"
proof -
  let ?k = "length (varint (of_nat (length bs)))"
  let ?sub = "(adv s ?k)\<lparr>bytes_left := length bs\<rparr>"
  let ?t = "(adv s ?k)\<lparr>bytes_left := bytes_left (adv s ?k) - length bs\<rparr>"
  obtain n where n: "pb_decode_varint32 s = (Some n, adv s ?k)" "unat n = length bs"
    using pb_decode_length_starts(1) [OF assms] by blast
  have b: "starts (adv s ?k) bs" by (rule pb_decode_length_starts(2) [OF assms])
  have sub: "starts ?sub bs" using b by (simp add: starts_def)
  have mv: "moved ?sub (adv ?sub (length bs))" by (intro moved_adv) simp
  show ?thesis
  proof (rule that)
    show "pb_make_string_substream s = (Some ?sub, ?t)"
      using n b by (simp add: pb_make_string_substream_def starts_def)
    show "pb_close_string_substream ?t (adv ?sub (length bs)) = (True, adv s (length (string_bytes bs)))"
      using pb_close_string_substream_moved [OF _ mv, of ?t] sub
      by (simp add: starts_def string_bytes_def) (simp add: adv_def add.commute)
  qed (use sub in simp_all)
qed

subsection \<open>Skipping\<close>

lemma skip_bytes_starts: "starts s bs \<Longrightarrow> skip_bytes s (length bs) = (True, adv s (length bs))"
  by (simp add: skip_bytes_def stream_simps)

lemma pb_skip_varint_starts:
  "starts s (varint v) \<Longrightarrow> pb_skip_varint s = (True, adv s (length (varint v)))"
proof (induction v arbitrary: s rule: varint.induct)
  case (1 v)
  show ?case
  proof (cases "v \<le> 0x7F")
    case True
    then have e: "varint v = [ucast v]" by (simp add: varint.simps [of v])
    with "1.prems" digit_last [OF True] pb_read_starts [of s "[ucast v]" True] show ?thesis
      by (subst pb_skip_varint.simps) simp
  next
    case False
    define b where "b = ((ucast (take_bit 7 v) :: u8) OR 0x80)"
    from False have e: "varint v = b # varint (drop_bit 7 v)"
      by (simp add: varint.simps [of v] b_def)
    from "1.prems" e have s: "starts s [b]" "starts (adv s 1) (varint (drop_bit 7 v))"
      by (simp_all only: starts_Cons [of s b "varint (drop_bit 7 v)"])
    have "b AND 0x80 \<noteq> 0" unfolding b_def by (rule digit_more)
    with "1.IH" [OF False s(2)] pb_read_starts [OF s(1), of True] show ?thesis
      by (subst pb_skip_varint.simps) (simp add: e)
  qed
qed

lemma pb_skip_string_starts:
  assumes "length bs < 2 ^ 32" and "starts s (string_bytes bs)"
  shows "pb_skip_string s = (True, adv s (length (string_bytes bs)))"
  using pb_decode_length_starts [OF assms] skip_bytes_starts
  by (fastforce simp: pb_skip_string_def string_bytes_def)

lemma pb_skip_field_starts:
  assumes "wire_ok p" and "starts s (wire_bytes p)"
  shows "pb_skip_field s (wire_type_of p) = (True, adv s (length (wire_bytes p)))"
  using assms skip_bytes_starts [of s "wire_bytes p"]
  by (cases p) (auto simp: pb_skip_field_def pb_skip_varint_starts pb_skip_string_starts)

end
