(* ===== verification/Pb_Fields.thy ===== *)
theory Pb_Fields
  imports Pb_Wire
begin

text \<open>
  Messages in memory and the descriptors of their fields: the types of \<open>Pods/nanopb/pb.h\<close> and the
  field iterator of \<open>pb_common.c\<close>.

  A message is a C structure; the library reads and writes it through \<open>void *\<close> pointers at offsets
  the descriptors give. So memory is byte-addressed here, \<open>memory = nat \<Rightarrow> u8\<close>, an address is a natural
  number, 0 is \<open>NULL\<close>, and integers and pointers are stored little-endian in 1, 2, 4 or 8 bytes, as on
  the targets of the pod. The descriptor arrays are constants of the program: a table maps the address
  of an array to its entries, without the entry \<open>PB_LAST_FIELD\<close> that ends it. \<open>PB_FIELD_32BIT\<close> is set,
  so that \<open>pb_size_t\<close> has 32 bits.
\<close>

section \<open>Memory\<close>

type_synonym memory = "nat \<Rightarrow> u8"

fun rd_bytes :: "memory \<Rightarrow> nat \<Rightarrow> nat \<Rightarrow> bytes" where
  "rd_bytes m a 0 = []"
| "rd_bytes m a (Suc n) = m a # rd_bytes m (Suc a) n"

fun wr_bytes :: "memory \<Rightarrow> nat \<Rightarrow> bytes \<Rightarrow> memory" where
  "wr_bytes m a [] = m"
| "wr_bytes m a (b # bs) = wr_bytes (m(a := b)) (Suc a) bs"

text \<open>Little-endian numbers.\<close>

fun le_word :: "bytes \<Rightarrow> 'a::len word" where
  "le_word [] = 0"
| "le_word (b # bs) = ucast b OR push_bit 8 (le_word bs)"

fun le_bytes :: "nat \<Rightarrow> 'a::len word \<Rightarrow> bytes" where
  "le_bytes 0 w = []"
| "le_bytes (Suc n) w = ucast w # le_bytes n (drop_bit 8 w)"

definition rd_u16 :: "memory \<Rightarrow> nat \<Rightarrow> u16" where "rd_u16 m a = le_word (rd_bytes m a 2)"
definition rd_u32 :: "memory \<Rightarrow> nat \<Rightarrow> u32" where "rd_u32 m a = le_word (rd_bytes m a 4)"
definition rd_u64 :: "memory \<Rightarrow> nat \<Rightarrow> u64" where "rd_u64 m a = le_word (rd_bytes m a 8)"
definition rd_ptr :: "memory \<Rightarrow> nat \<Rightarrow> nat" where "rd_ptr m a = unat (rd_u64 m a)"
definition rd_bool :: "memory \<Rightarrow> nat \<Rightarrow> bool" where "rd_bool m a \<longleftrightarrow> m a \<noteq> 0"

lemma length_rd_bytes [simp]: "length (rd_bytes m a n) = n"
  by (induction n arbitrary: a) simp_all

lemma length_le_bytes [simp]: "length (le_bytes n w) = n"
  by (induction n arbitrary: w) simp_all

lemma nth_rd_bytes: "i < n \<Longrightarrow> rd_bytes m a n ! i = m (a + i)"
proof (induction n arbitrary: a i)
  case (Suc n)
  then show ?case by (cases i) simp_all
qed simp

lemma wr_bytes_app:
  "wr_bytes m a bs x = (if a \<le> x \<and> x < a + length bs then bs ! (x - a) else m x)"
proof (induction bs arbitrary: m a x)
  case (Cons b bs)
  show ?case
  proof (cases "x = a")
    case False
    then have "x - a = Suc (x - Suc a)" if "a \<le> x" using that by simp
    with False show ?thesis by (auto simp: Cons.IH)
  qed (simp add: Cons.IH)
qed auto

lemma rd_wr_same: "rd_bytes (wr_bytes m a bs) a (length bs) = bs"
  by (rule nth_equalityI) (simp_all add: nth_rd_bytes wr_bytes_app)

lemma rd_wr_other:
  "a + length bs \<le> b \<or> b + n \<le> a \<Longrightarrow> rd_bytes (wr_bytes m a bs) b n = rd_bytes m b n"
  by (rule nth_equalityI) (auto simp: nth_rd_bytes wr_bytes_app)

lemma bit_le_word_Cons:
  "bit (le_word (b # bs) :: 'a::len word) n \<longleftrightarrow>
     n < LENGTH('a) \<and> (if n < 8 then bit b n else bit (le_word bs :: 'a word) (n - 8))"
  by (auto simp: bit_simps not_le dest: bit_imp_le_length)

lemma le_word_bytes: "8 * n = LENGTH('a) \<Longrightarrow> le_word (le_bytes n (w :: 'a::len word)) = w"
proof -
  have "(le_word (le_bytes n w) :: 'a word) = take_bit (8 * n) w" for n
  proof (induction n arbitrary: w)
    case (Suc n)
    show ?case
    proof (rule bit_word_eqI)
      fix i assume "i < LENGTH('a)"
      then show "bit (le_word (le_bytes (Suc n) w) :: 'a word) i = bit (take_bit (8 * Suc n) w) i"
        unfolding le_bytes.simps bit_le_word_Cons Suc.IH by (auto simp: bit_simps)
    qed
  qed simp
  then show "8 * n = LENGTH('a) \<Longrightarrow> ?thesis" by (simp add: take_bit_word_beyond)
qed

section \<open>Field descriptors\<close>

record pb_field =
  f_tag :: u32
  f_type :: u8
  f_data_offset :: u32
  f_size_offset :: "32 word"
  f_data_size :: u32
  f_array_size :: u32
  f_ptr :: nat

abbreviation (input) PB_SIZE_MAX :: u32 where "PB_SIZE_MAX \<equiv> - 1"

definition PB_ATYPE :: "u8 \<Rightarrow> u8" where "PB_ATYPE x = x AND 0xC0"
definition PB_HTYPE :: "u8 \<Rightarrow> u8" where "PB_HTYPE x = x AND 0x30"
definition PB_LTYPE :: "u8 \<Rightarrow> u8" where "PB_LTYPE x = x AND 0x0F"

abbreviation (input) PB_ATYPE_STATIC :: u8 where "PB_ATYPE_STATIC \<equiv> 0x00"
abbreviation (input) PB_ATYPE_POINTER :: u8 where "PB_ATYPE_POINTER \<equiv> 0x80"
abbreviation (input) PB_ATYPE_CALLBACK :: u8 where "PB_ATYPE_CALLBACK \<equiv> 0x40"
abbreviation (input) PB_HTYPE_REQUIRED :: u8 where "PB_HTYPE_REQUIRED \<equiv> 0x00"
abbreviation (input) PB_HTYPE_OPTIONAL :: u8 where "PB_HTYPE_OPTIONAL \<equiv> 0x10"
abbreviation (input) PB_HTYPE_REPEATED :: u8 where "PB_HTYPE_REPEATED \<equiv> 0x20"
abbreviation (input) PB_HTYPE_ONEOF :: u8 where "PB_HTYPE_ONEOF \<equiv> 0x30"
abbreviation (input) PB_LTYPE_VARINT :: u8 where "PB_LTYPE_VARINT \<equiv> 0"
abbreviation (input) PB_LTYPE_UVARINT :: u8 where "PB_LTYPE_UVARINT \<equiv> 1"
abbreviation (input) PB_LTYPE_SVARINT :: u8 where "PB_LTYPE_SVARINT \<equiv> 2"
abbreviation (input) PB_LTYPE_FIXED32 :: u8 where "PB_LTYPE_FIXED32 \<equiv> 3"
abbreviation (input) PB_LTYPE_FIXED64 :: u8 where "PB_LTYPE_FIXED64 \<equiv> 4"
abbreviation (input) PB_LTYPE_LAST_PACKABLE :: u8 where "PB_LTYPE_LAST_PACKABLE \<equiv> 4"
abbreviation (input) PB_LTYPE_BYTES :: u8 where "PB_LTYPE_BYTES \<equiv> 5"
abbreviation (input) PB_LTYPE_STRING :: u8 where "PB_LTYPE_STRING \<equiv> 6"
abbreviation (input) PB_LTYPE_SUBMESSAGE :: u8 where "PB_LTYPE_SUBMESSAGE \<equiv> 7"
abbreviation (input) PB_LTYPE_EXTENSION :: u8 where "PB_LTYPE_EXTENSION \<equiv> 8"
abbreviation (input) PB_LTYPE_FIXED_LENGTH_BYTES :: u8 where "PB_LTYPE_FIXED_LENGTH_BYTES \<equiv> 9"

definition PB_LAST_FIELD :: pb_field where
  "PB_LAST_FIELD = \<lparr>f_tag = 0, f_type = 0, f_data_offset = 0, f_size_offset = 0, f_data_size = 0,
     f_array_size = 0, f_ptr = 0\<rparr>"

type_synonym pb_tables = "nat \<Rightarrow> pb_field list"

definition field_at :: "pb_field list \<Rightarrow> nat \<Rightarrow> pb_field" where
  "field_at fs i = (if i < length fs then fs ! i else PB_LAST_FIELD)"

text \<open>A pointer and a signed 32-bit offset.\<close>

definition ptr_plus :: "nat \<Rightarrow> 32 word \<Rightarrow> nat" where
  "ptr_plus p off = nat (int p + sint off)"

lemma ptr_plus_0 [simp]: "ptr_plus p 0 = p"
  by (simp add: ptr_plus_def)

text \<open>The cases of a type.\<close>

lemma htype_cases:
  obtains "PB_HTYPE x = PB_HTYPE_REQUIRED" | "PB_HTYPE x = PB_HTYPE_OPTIONAL"
  | "PB_HTYPE x = PB_HTYPE_REPEATED" | "PB_HTYPE x = PB_HTYPE_ONEOF"
proof -
  have e: "(0x30 :: u8) = push_bit 4 (mask 2)" by (simp add: mask_eq_exp_minus_1)
  have b: "bit (0x10 :: u8) n \<longleftrightarrow> n = 4" "bit (0x20 :: u8) n \<longleftrightarrow> n = 5" for n
    using bit_exp_iff [of 4 n, where 'a = u8] bit_exp_iff [of 5 n, where 'a = u8] by auto
  have "x AND 0x30 = (if bit x 4 then 0x10 else 0) OR (if bit x 5 then 0x20 else 0)"
  proof (rule bit_word_eqI)
    fix n assume n: "n < LENGTH(8)"
    consider "n < 4" | "n = 4" | "n = 5" | "6 \<le> n" by linarith
    then show "bit (x AND 0x30) n =
        bit ((if bit x 4 then 0x10 else 0) OR (if bit x 5 then 0x20 else 0) :: u8) n"
      unfolding e using n b [of n] by cases (auto simp: bit_simps)
  qed
  then show thesis using that by (auto simp: PB_HTYPE_def split: if_splits)
qed

lemma packable_cases:
  fixes l :: u8
  assumes "l \<le> 4"
  obtains "l = 0" | "l = 1" | "l = 2" | "l = 3" | "l = 4"
proof -
  from assms have "unat l \<le> 4" by (simp add: word_le_nat_alt)
  then have "unat l = 0 \<or> unat l = 1 \<or> unat l = 2 \<or> unat l = 3 \<or> unat l = 4" by linarith
  then have "l = 0 \<or> l = 1 \<or> l = 2 \<or> l = 3 \<or> l = 4" by (simp add: word_unat_eq_iff)
  with that show ?thesis by blast
qed

section \<open>The field iterator\<close>

record pb_field_iter =
  it_start :: nat
  it_pos :: nat
  it_required_field_index :: nat
  it_dest_struct :: nat
  it_pData :: nat
  it_pSize :: nat

text \<open>\<open>*iter->pos\<close>.\<close>

definition it_field :: "pb_tables \<Rightarrow> pb_field_iter \<Rightarrow> pb_field" where
  "it_field d it = field_at (d (it_start it)) (it_pos it)"

definition pb_field_iter_begin :: "pb_tables \<Rightarrow> nat \<Rightarrow> nat \<Rightarrow> bool \<times> pb_field_iter" where
  "pb_field_iter_begin d fds dest_struct =
     (let pos = field_at (d fds) 0;
          pData = dest_struct + unat (f_data_offset pos)
      in (f_tag pos \<noteq> 0,
          \<lparr>it_start = fds, it_pos = 0, it_required_field_index = 0, it_dest_struct = dest_struct,
           it_pData = pData, it_pSize = ptr_plus pData (f_size_offset pos)\<rparr>))"

definition pb_field_iter_next :: "pb_tables \<Rightarrow> pb_field_iter \<Rightarrow> bool \<times> pb_field_iter" where
  "pb_field_iter_next d it =
     (let prev = it_field d it in
      if f_tag prev = 0 then (False, it)
      else
        let it = it\<lparr>it_pos := it_pos it + 1\<rparr>; pos = it_field d it in
        if f_tag pos = 0 then
          (False, snd (pb_field_iter_begin d (it_start it) (it_dest_struct it)))
        else if PB_HTYPE (f_type prev) = PB_HTYPE_ONEOF \<and> PB_HTYPE (f_type pos) = PB_HTYPE_ONEOF \<and>
                f_data_offset pos = PB_SIZE_MAX then (True, it)
        else
          let prev_size =
                (if PB_ATYPE (f_type prev) = PB_ATYPE_STATIC \<and>
                    PB_HTYPE (f_type prev) = PB_HTYPE_REPEATED then
                   mul_size (unat (f_data_size prev)) (unat (f_array_size prev))
                 else if PB_ATYPE (f_type prev) = PB_ATYPE_POINTER then 8
                 else unat (f_data_size prev));
              pData = it_pData it + prev_size + unat (f_data_offset pos)
          in (True,
              it\<lparr>it_required_field_index :=
                   (if PB_HTYPE (f_type prev) = PB_HTYPE_REQUIRED then it_required_field_index it + 1
                    else it_required_field_index it),
                 it_pData := pData, it_pSize := ptr_plus pData (f_size_offset pos)\<rparr>))"

text \<open>
  The loop of \<open>pb_field_iter_find\<close> (and of \<open>find_extension_field\<close>, which looks for something else)
  goes on until the iterator is back where it began. It is given as many rounds as there are fields,
  and \<open>None\<close> would say that they were not enough.
\<close>

fun find_loop :: "pb_tables \<Rightarrow> (pb_field \<Rightarrow> bool) \<Rightarrow> nat \<Rightarrow> nat \<Rightarrow> pb_field_iter \<Rightarrow>
    (bool \<times> pb_field_iter) option" where
  "find_loop d want start 0 it = None"
| "find_loop d want start (Suc n) it =
     (if want (it_field d it) then Some (True, it)
      else
        let it = snd (pb_field_iter_next d it) in
        if it_pos it \<noteq> start then find_loop d want start n it else Some (False, it))"

definition pb_field_iter_find :: "pb_tables \<Rightarrow> pb_field_iter \<Rightarrow> u32 \<Rightarrow>
    (bool \<times> pb_field_iter) option" where
  "pb_field_iter_find d it tag =
     find_loop d (\<lambda>f. f_tag f = tag \<and> PB_LTYPE (f_type f) \<noteq> PB_LTYPE_EXTENSION) (it_pos it)
       (Suc (length (d (it_start it)))) it"

text \<open>
  The loop \<open>do { body } while (pb_field_iter_next(&iter))\<close>, with a body that may fail; the state is
  what the body works on. \<open>None\<close> is a body that does not return.
\<close>

definition and_then :: "(bool \<times> 's) option \<Rightarrow> ('s \<Rightarrow> (bool \<times> 's) option) \<Rightarrow> (bool \<times> 's) option" where
  "and_then r f = (case r of None \<Rightarrow> None | Some (ok, s) \<Rightarrow> if ok then f s else Some (False, s))"

lemma next_pos:
  "fst (pb_field_iter_next d it) \<Longrightarrow>
   it_start (snd (pb_field_iter_next d it)) = it_start it \<and>
   it_pos (snd (pb_field_iter_next d it)) = it_pos it + 1 \<and> it_pos it + 1 < length (d (it_start it))"
  by (auto simp: pb_field_iter_next_def Let_def it_field_def field_at_def PB_LAST_FIELD_def
      split: if_splits)

function each_field :: "pb_tables \<Rightarrow> (pb_field_iter \<Rightarrow> 's \<Rightarrow> (bool \<times> 's) option) \<Rightarrow> pb_field_iter \<Rightarrow> 's \<Rightarrow>
    (bool \<times> 's) option" where
  "each_field d body it s =
     and_then (body it s)
       (\<lambda>s. if fst (pb_field_iter_next d it) then each_field d body (snd (pb_field_iter_next d it)) s
            else Some (True, s))"
  by pat_completeness auto
termination
  by (relation "measure (\<lambda>(d, body, it, s). length (d (it_start it)) - it_pos it)")
     (auto dest: next_pos)

declare each_field.simps [simp del]

section \<open>Where the iterator goes\<close>

text \<open>
  The iterator on field \<open>k\<close> in closed form. \<open>nfields\<close> is the number of fields before the end of the
  array, \<open>field_space\<close> the room a field takes in the structure, \<open>field_offset\<close> where field \<open>k\<close> begins; a
  field that continues a union begins where the one before it does.
\<close>

definition nfields :: "pb_field list \<Rightarrow> nat" where
  "nfields fs = length (takeWhile (\<lambda>f. f_tag f \<noteq> 0) fs)"

definition field_space :: "pb_field \<Rightarrow> nat" where
  "field_space f =
     (if PB_ATYPE (f_type f) = PB_ATYPE_STATIC \<and> PB_HTYPE (f_type f) = PB_HTYPE_REPEATED then
        unat (f_data_size f) * unat (f_array_size f)
      else if PB_ATYPE (f_type f) = PB_ATYPE_POINTER then 8
      else unat (f_data_size f))"

definition continues_union :: "pb_field \<Rightarrow> pb_field \<Rightarrow> bool" where
  "continues_union prev f \<longleftrightarrow> PB_HTYPE (f_type prev) = PB_HTYPE_ONEOF \<and>
     PB_HTYPE (f_type f) = PB_HTYPE_ONEOF \<and> f_data_offset f = PB_SIZE_MAX"

fun field_offset :: "pb_field list \<Rightarrow> nat \<Rightarrow> nat" where
  "field_offset fs 0 = unat (f_data_offset (field_at fs 0))"
| "field_offset fs (Suc k) =
     (if continues_union (fs ! k) (fs ! Suc k) then field_offset fs k
      else field_offset fs k + field_space (fs ! k) + unat (f_data_offset (fs ! Suc k)))"

text \<open>The field whose descriptor gives the place of the count, the tag of a union or the flag.\<close>

fun size_field :: "pb_field list \<Rightarrow> nat \<Rightarrow> nat" where
  "size_field fs 0 = 0"
| "size_field fs (Suc k) = (if continues_union (fs ! k) (fs ! Suc k) then size_field fs k else Suc k)"

definition required_before :: "pb_field list \<Rightarrow> nat \<Rightarrow> nat" where
  "required_before fs k = length (filter (\<lambda>f. PB_HTYPE (f_type f) = PB_HTYPE_REQUIRED) (take k fs))"

definition iter_at :: "pb_tables \<Rightarrow> nat \<Rightarrow> nat \<Rightarrow> nat \<Rightarrow> pb_field_iter" where
  "iter_at d fds dest k =
     \<lparr>it_start = fds, it_pos = k, it_required_field_index = required_before (d fds) k,
      it_dest_struct = dest, it_pData = dest + field_offset (d fds) k,
      it_pSize = ptr_plus (dest + field_offset (d fds) k)
        (f_size_offset (field_at (d fds) (size_field (d fds) k)))\<rparr>"

lemma iter_at_sel [simp]:
  "it_start (iter_at d fds dest k) = fds" "it_pos (iter_at d fds dest k) = k"
  "it_dest_struct (iter_at d fds dest k) = dest"
  "it_pData (iter_at d fds dest k) = dest + field_offset (d fds) k"
  "it_field d (iter_at d fds dest k) = field_at (d fds) k"
  by (simp_all add: iter_at_def it_field_def)

lemma nfields_le: "nfields fs \<le> length fs"
  by (simp add: nfields_def length_takeWhile_le)

lemma nfields_tag: "k < nfields fs \<Longrightarrow> f_tag (fs ! k) \<noteq> 0"
proof -
  assume "k < nfields fs"
  then have k: "k < length (takeWhile (\<lambda>f. f_tag f \<noteq> 0) fs)" by (simp add: nfields_def)
  from set_takeWhileD [OF nth_mem [OF k]] takeWhile_nth [OF k] show ?thesis by simp
qed

lemma field_at_nth: "k < nfields fs \<Longrightarrow> field_at fs k = fs ! k"
  using nfields_le [of fs] by (simp add: field_at_def)

lemma nfields_end: "f_tag (field_at fs (nfields fs)) = 0"
  using nth_length_takeWhile [of "\<lambda>f. f_tag f \<noteq> 0" fs]
  by (auto simp: nfields_def field_at_def PB_LAST_FIELD_def)

lemma begin_iter_at: "pb_field_iter_begin d fds dest = (0 < nfields (d fds), iter_at d fds dest 0)"
proof -
  have "f_tag (field_at (d fds) 0) \<noteq> 0 \<longleftrightarrow> 0 < nfields (d fds)"
    using nfields_end [of "d fds"] nfields_tag [of 0 "d fds"] field_at_nth [of 0 "d fds"]
    by (cases "nfields (d fds)") auto
  then show ?thesis
    by (simp add: pb_field_iter_begin_def iter_at_def Let_def required_before_def)
qed

lemma next_iter_at:
  assumes "k < nfields (d fds)"
  shows "pb_field_iter_next d (iter_at d fds dest k) =
    (if Suc k < nfields (d fds) then (True, iter_at d fds dest (Suc k))
     else (False, iter_at d fds dest 0))"
proof -
  let ?fs = "d fds"
  have prev: "field_at ?fs k = ?fs ! k" "f_tag (?fs ! k) \<noteq> 0" "k < length ?fs"
    using field_at_nth [OF assms] nfields_tag [OF assms] nfields_le [of ?fs] assms by auto
  have space: "mul_size (unat (f_data_size f)) (unat (f_array_size f)) =
      unat (f_data_size f) * unat (f_array_size f)" for f
  proof -
    have "unat (f_data_size f) < 2 ^ 32" "unat (f_array_size f) < 2 ^ 32"
      using unsigned_less [of "f_data_size f", where 'a = nat] unsigned_less [of "f_array_size f", where 'a = nat]
      by simp_all
    then have "unat (f_data_size f) * unat (f_array_size f) < 2 ^ 32 * 2 ^ 32" by (rule mult_strict_mono) simp_all
    then show ?thesis by simp
  qed
  show ?thesis
  proof (cases "Suc k < nfields ?fs")
    case True
    then have pos: "field_at ?fs (Suc k) = ?fs ! Suc k" "f_tag (?fs ! Suc k) \<noteq> 0"
      using field_at_nth [OF True] nfields_tag [OF True] by auto
    have req: "required_before ?fs (Suc k) = required_before ?fs k +
        (if PB_HTYPE (f_type (?fs ! k)) = PB_HTYPE_REQUIRED then 1 else 0)"
      using prev(3) by (simp add: required_before_def take_Suc_conv_app_nth)
    show ?thesis
      using True prev pos req
      by (simp add: pb_field_iter_next_def iter_at_def it_field_def Let_def continues_union_def space field_space_def
          add.assoc)
  next
    case False
    with assms have "Suc k = nfields ?fs" by simp
    then have "f_tag (field_at ?fs (Suc k)) = 0" using nfields_end [of ?fs] by simp
    with False prev show ?thesis
      by (simp add: pb_field_iter_next_def iter_at_def it_field_def Let_def)
         (simp add: iter_at_def begin_iter_at)
  qed
qed

lemma next_iter_empty:
  "nfields (d fds) = 0 \<Longrightarrow>
   pb_field_iter_next d (iter_at d fds dest 0) = (False, iter_at d fds dest 0)"
  using nfields_end [of "d fds"] by (simp add: pb_field_iter_next_def)

text \<open>A search from field \<open>k\<close> looks at every field once, in cyclic order.\<close>

definition cyclic_from :: "nat \<Rightarrow> nat \<Rightarrow> nat list" where
  "cyclic_from n k = map (\<lambda>i. (k + i) mod n) [0..<n]"

lemma find_loop_cyclic:
  assumes "k < nfields (d fds)" and "0 < r" and "r \<le> nfields (d fds)" and "r \<le> m"
    and "start = (k + r) mod nfields (d fds)"
  shows "find_loop d want start m (iter_at d fds dest k) =
    (case find (\<lambda>j. want (d fds ! j)) (map (\<lambda>i. (k + i) mod nfields (d fds)) [0..<r]) of
       Some j \<Rightarrow> Some (True, iter_at d fds dest j)
     | None \<Rightarrow> Some (False, iter_at d fds dest start))"
  using assms
proof (induction r arbitrary: k m)
  case (Suc r)
  let ?n = "nfields (d fds)"
  obtain m' where m: "m = Suc m'" using Suc.prems(4) by (cases m) auto
  have nxt: "snd (pb_field_iter_next d (iter_at d fds dest k)) = iter_at d fds dest (Suc k mod ?n)"
    using next_iter_at [of k d fds dest] Suc.prems(1) by (auto simp: mod_Suc)
  have shift: "map (\<lambda>i. (k + i) mod ?n) [0..<Suc r] = k # map (\<lambda>i. (Suc k mod ?n + i) mod ?n) [0..<r]"
  proof -
    have "[0..<Suc r] = 0 # map Suc [0..<r]" by (simp add: upt_conv_Cons map_Suc_upt del: upt_Suc)
    then show ?thesis using Suc.prems(1) by (simp add: mod_add_left_eq del: upt_Suc)
  qed
  show ?case
  proof (cases "want (d fds ! k)")
    case True
    with Suc.prems(1) show ?thesis unfolding m shift by (simp add: field_at_nth)
  next
    case False
    show ?thesis
    proof (cases "r = 0")
      case True
      with False Suc.prems show ?thesis unfolding m shift
        by (simp add: field_at_nth nxt Let_def)
    next
      case r: False
      have "Suc k mod ?n \<noteq> start"
      proof
        assume "Suc k mod ?n = start"
        then have "(Suc k + r) mod ?n = Suc k mod ?n" using Suc.prems(5) by simp
        then have "(Suc k mod ?n + r) mod ?n = Suc k mod ?n" by (simp add: mod_add_left_eq)
        moreover have "Suc k mod ?n < ?n" using Suc.prems(1) by simp
        moreover have "r < ?n" using Suc.prems(3) by simp
        moreover have "(q + r) mod n \<noteq> q" if "q < n" "r < n" "r \<noteq> 0" for q n :: nat
          using that by (cases "q + r < n") (simp_all add: mod_if [of "q + r"])
        ultimately show False using r by blast
      qed
      moreover have "Suc k mod ?n < ?n" using Suc.prems(1) by simp
      moreover have "start = (Suc k mod ?n + r) mod ?n" using Suc.prems(5) by (simp add: mod_add_left_eq)
      ultimately show ?thesis
        using Suc.IH [of "Suc k mod ?n" m'] Suc.prems r False unfolding m shift
        by (simp add: field_at_nth nxt Let_def)
    qed
  qed
qed simp

text \<open>An iterator the library has set up: on one of the fields, or on the end of an empty array.\<close>

definition valid_pos :: "pb_field list \<Rightarrow> nat \<Rightarrow> bool" where
  "valid_pos fs k \<longleftrightarrow> k < nfields fs \<or> nfields fs = 0 \<and> k = 0"

lemma find_loop_iter_at:
  assumes "valid_pos (d fds) k"
    and "nfields (d fds) = 0 \<Longrightarrow> \<not> want (field_at (d fds) 0)"
  shows "find_loop d want k (Suc (length (d fds))) (iter_at d fds dest k) =
    (case find (\<lambda>j. want (d fds ! j)) (cyclic_from (nfields (d fds)) k) of
       Some j \<Rightarrow> Some (True, iter_at d fds dest j)
     | None \<Rightarrow> Some (False, iter_at d fds dest k))"
proof (cases "nfields (d fds) = 0")
  case True
  with assms show ?thesis
    by (simp add: valid_pos_def cyclic_from_def next_iter_empty Let_def)
next
  case False
  with assms(1) have "k < nfields (d fds)" by (simp add: valid_pos_def)
  with False show ?thesis
    using find_loop_cyclic [of k d fds "nfields (d fds)" "Suc (length (d fds))" k] nfields_le [of "d fds"]
    by (simp add: cyclic_from_def)
qed

lemma set_cyclic_from: "k < n \<Longrightarrow> set (cyclic_from n k) = {..<n}"
proof
  assume k: "k < n"
  then show "set (cyclic_from n k) \<subseteq> {..<n}" by (auto simp: cyclic_from_def)
  show "{..<n} \<subseteq> set (cyclic_from n k)"
  proof
    fix j assume j: "j \<in> {..<n}"
    define i where "i = (if k \<le> j then j - k else j + n - k)"
    have "(k + i) mod n = j" "i < n" using j k by (auto simp: i_def)
    then show "j \<in> set (cyclic_from n k)" by (auto simp: cyclic_from_def)
  qed
qed

definition tag_matches :: "u32 \<Rightarrow> pb_field \<Rightarrow> bool" where
  "tag_matches tag f \<longleftrightarrow> f_tag f = tag \<and> PB_LTYPE (f_type f) \<noteq> PB_LTYPE_EXTENSION"

lemma find_iter_at:
  assumes "valid_pos (d fds) k" and "tag \<noteq> 0"
  obtains j where "pb_field_iter_find d (iter_at d fds dest k) tag = Some (True, iter_at d fds dest j)"
      "j < nfields (d fds)" "tag_matches tag (d fds ! j)"
  | "pb_field_iter_find d (iter_at d fds dest k) tag = Some (False, iter_at d fds dest k)"
      "\<forall>j < nfields (d fds). \<not> tag_matches tag (d fds ! j)"
proof -
  let ?want = "\<lambda>f. f_tag f = tag \<and> PB_LTYPE (f_type f) \<noteq> PB_LTYPE_EXTENSION"
  let ?l = "cyclic_from (nfields (d fds)) k"
  have "\<not> ?want (field_at (d fds) 0)" if "nfields (d fds) = 0"
    using nfields_end [of "d fds"] that assms(2) by simp
  then have f: "pb_field_iter_find d (iter_at d fds dest k) tag =
    (case find (\<lambda>j. ?want (d fds ! j)) ?l of
       Some j \<Rightarrow> Some (True, iter_at d fds dest j)
     | None \<Rightarrow> Some (False, iter_at d fds dest k))"
    unfolding pb_field_iter_find_def iter_at_sel by (rule find_loop_iter_at [of d fds k, OF assms(1)])
  have s: "set ?l = {..<nfields (d fds)}"
    using assms(1) set_cyclic_from [of k "nfields (d fds)"]
    by (auto simp: valid_pos_def cyclic_from_def)
  show thesis
  proof (cases "find (\<lambda>j. ?want (d fds ! j)) ?l")
    case None
    with f s show thesis by (intro that(2)) (auto simp: find_None_iff tag_matches_def)
  next
    case (Some j)
    then have "j \<in> set ?l" "?want (d fds ! j)" by (auto simp: find_Some_iff)
    with f s Some show thesis by (intro that(1) [of j]) (auto simp: tag_matches_def)
  qed
qed

text \<open>The loop over the fields is a loop over their positions.\<close>

fun each :: "('a \<Rightarrow> 's \<Rightarrow> (bool \<times> 's) option) \<Rightarrow> 'a list \<Rightarrow> 's \<Rightarrow> (bool \<times> 's) option" where
  "each f [] s = Some (True, s)"
| "each f (x # xs) s = and_then (f x s) (each f xs)"

lemma each_Nil_fun: "each f [] = (\<lambda>s. Some (True, s))"
  by (rule ext) simp

lemma each_field_iter_at:
  assumes "k < nfields (d fds)"
  shows "each_field d body (iter_at d fds dest k) s =
    each (\<lambda>j. body (iter_at d fds dest j)) [k..<nfields (d fds)] s"
  using assms
proof (induction "nfields (d fds) - k" arbitrary: k s)
  case (Suc r)
  have u: "[k..<nfields (d fds)] = k # [Suc k..<nfields (d fds)]"
    using Suc.prems by (simp add: upt_conv_Cons)
  show ?case
  proof (cases "Suc k < nfields (d fds)")
    case True
    with Suc have "each_field d body (iter_at d fds dest (Suc k)) =
        each (\<lambda>j. body (iter_at d fds dest j)) [Suc k..<nfields (d fds)]" by (intro ext) simp
    with True show ?thesis
      by (subst each_field.simps) (simp add: u next_iter_at [of k d fds, OF Suc.prems])
  next
    case False
    then show ?thesis
      by (subst each_field.simps) (simp add: u each_Nil_fun next_iter_at [of k d fds, OF Suc.prems])
  qed
qed simp

end
