(* ===== verification/Pb_Encode.thy ===== *)
theory Pb_Encode
  imports Pb_Fields
begin

text \<open>
  The message encoder of nanopb (\<open>pb_encode.c\<close>): a message in memory is written to a stream, driven by
  the descriptors of its fields.

  The encoder only reads the message, so everything it reads is one constant environment: the memory,
  the descriptor arrays, the types of extensions, and the user's callbacks, found by the function
  pointer stored in the message. The recursion into submessages is open: a function that may encode a
  submessage takes the encoder as the argument \<open>sub\<close>. \<open>pb_encode\<close> closes it with fuel, one unit for each
  level of submessages and for each extension of a list. The result \<open>None\<close> means that the fuel has run
  out, that is, that the C function does not return, or calls a null pointer.
\<close>

section \<open>The environment\<close>

record pb_extension_type =
  x_decode :: nat
  x_encode :: nat
  x_arg :: nat

record 'st enc_env =
  en_mem :: memory
  en_fields :: pb_tables
  en_ext :: "nat \<Rightarrow> pb_extension_type"
  en_field_cb :: "nat \<Rightarrow> 'st pb_ostream \<Rightarrow> pb_field \<Rightarrow> nat \<Rightarrow> bool \<times> 'st pb_ostream"
  en_ext_cb :: "nat \<Rightarrow> 'st pb_ostream \<Rightarrow> nat \<Rightarrow> bool \<times> 'st pb_ostream"

type_synonym 'st enc_result = "(bool \<times> 'st pb_ostream) option"
type_synonym 'st sub_encoder = "'st pb_ostream \<Rightarrow> nat \<Rightarrow> nat \<Rightarrow> 'st enc_result"

text \<open>The layout of \<open>pb_extension_t\<close>, \<open>pb_callback_t\<close> and \<open>pb_bytes_array_t\<close>.\<close>

abbreviation (input) ext_type_off :: nat where "ext_type_off \<equiv> 0"
abbreviation (input) ext_dest_off :: nat where "ext_dest_off \<equiv> 8"
abbreviation (input) ext_next_off :: nat where "ext_next_off \<equiv> 16"
abbreviation (input) ext_found_off :: nat where "ext_found_off \<equiv> 24"
abbreviation (input) callback_arg_off :: nat where "callback_arg_off \<equiv> 8"
abbreviation (input) bytes_off :: nat where "bytes_off \<equiv> 4"

abbreviation (input) SIZE_MAX :: nat where "SIZE_MAX \<equiv> 18446744073709551615"

section \<open>Values\<close>

definition pb_encode_tag_for_field :: "'st pb_ostream \<Rightarrow> pb_field \<Rightarrow> bool \<times> 'st pb_ostream" where
  "pb_encode_tag_for_field s f =
     (let l = PB_LTYPE (f_type f) in
      if l = PB_LTYPE_VARINT \<or> l = PB_LTYPE_UVARINT \<or> l = PB_LTYPE_SVARINT then
        pb_encode_tag s PB_WT_VARINT (f_tag f)
      else if l = PB_LTYPE_FIXED32 then pb_encode_tag s PB_WT_32BIT (f_tag f)
      else if l = PB_LTYPE_FIXED64 then pb_encode_tag s PB_WT_64BIT (f_tag f)
      else if l = PB_LTYPE_BYTES \<or> l = PB_LTYPE_STRING \<or> l = PB_LTYPE_SUBMESSAGE \<or>
              l = PB_LTYPE_FIXED_LENGTH_BYTES then pb_encode_tag s PB_WT_STRING (f_tag f)
      else out_error s ''invalid field type'')"

text \<open>An integer of 1, 2, 4 or 8 bytes in memory, extended to 64 bits.\<close>

definition signed_value :: "memory \<Rightarrow> u32 \<Rightarrow> nat \<Rightarrow> u64 option" where
  "signed_value m data_size src =
     (if data_size = 1 then Some (scast (m src))
      else if data_size = 2 then Some (scast (rd_u16 m src))
      else if data_size = 4 then Some (scast (rd_u32 m src))
      else if data_size = 8 then Some (rd_u64 m src)
      else None)"

definition unsigned_value :: "memory \<Rightarrow> u32 \<Rightarrow> nat \<Rightarrow> u64 option" where
  "unsigned_value m data_size src =
     (if data_size = 1 then Some (ucast (m src))
      else if data_size = 2 then Some (ucast (rd_u16 m src))
      else if data_size = 4 then Some (ucast (rd_u32 m src))
      else if data_size = 8 then Some (rd_u64 m src)
      else None)"

definition pb_enc_varint :: "memory \<Rightarrow> 'st pb_ostream \<Rightarrow> pb_field \<Rightarrow> nat \<Rightarrow> bool \<times> 'st pb_ostream" where
  "pb_enc_varint m s f src =
     (case signed_value m (f_data_size f) src of
        None \<Rightarrow> out_error s ''invalid data_size''
      | Some v \<Rightarrow> pb_encode_varint s v)"

definition pb_enc_uvarint :: "memory \<Rightarrow> 'st pb_ostream \<Rightarrow> pb_field \<Rightarrow> nat \<Rightarrow> bool \<times> 'st pb_ostream" where
  "pb_enc_uvarint m s f src =
     (case unsigned_value m (f_data_size f) src of
        None \<Rightarrow> out_error s ''invalid data_size''
      | Some v \<Rightarrow> pb_encode_varint s v)"

definition pb_enc_svarint :: "memory \<Rightarrow> 'st pb_ostream \<Rightarrow> pb_field \<Rightarrow> nat \<Rightarrow> bool \<times> 'st pb_ostream" where
  "pb_enc_svarint m s f src =
     (case signed_value m (f_data_size f) src of
        None \<Rightarrow> out_error s ''invalid data_size''
      | Some v \<Rightarrow> pb_encode_svarint s v)"

definition pb_enc_fixed32 :: "memory \<Rightarrow> 'st pb_ostream \<Rightarrow> pb_field \<Rightarrow> nat \<Rightarrow> bool \<times> 'st pb_ostream" where
  "pb_enc_fixed32 m s f src = pb_encode_fixed32 s (rd_u32 m src)"

definition pb_enc_fixed64 :: "memory \<Rightarrow> 'st pb_ostream \<Rightarrow> pb_field \<Rightarrow> nat \<Rightarrow> bool \<times> 'st pb_ostream" where
  "pb_enc_fixed64 m s f src = pb_encode_fixed64 s (rd_u64 m src)"

definition pb_enc_bytes :: "memory \<Rightarrow> 'st pb_ostream \<Rightarrow> pb_field \<Rightarrow> nat \<Rightarrow> bool \<times> 'st pb_ostream" where
  "pb_enc_bytes m s f src =
     (if src = 0 then pb_encode_string s [] 0
      else
        let sz = unat (rd_u32 m src) in
        if PB_ATYPE (f_type f) = PB_ATYPE_STATIC \<and> unat (f_data_size f) < sz + bytes_off then
          out_error s ''bytes size exceeded''
        else pb_encode_string s (rd_bytes m (src + bytes_off) sz) sz)"

function c_strnlen :: "memory \<Rightarrow> nat \<Rightarrow> nat \<Rightarrow> nat" where
  "c_strnlen m p max_sz =
     (if 0 < max_sz \<and> m p \<noteq> 0 then Suc (c_strnlen m (Suc p) (max_sz - 1)) else 0)"
  by pat_completeness auto
termination
  by (relation "measure (\<lambda>(m, p, max_sz). max_sz)") auto

declare c_strnlen.simps [simp del]

definition pb_enc_string :: "memory \<Rightarrow> 'st pb_ostream \<Rightarrow> pb_field \<Rightarrow> nat \<Rightarrow> bool \<times> 'st pb_ostream" where
  "pb_enc_string m s f src =
     (let max_sz = (if PB_ATYPE (f_type f) = PB_ATYPE_POINTER then SIZE_MAX else unat (f_data_size f));
          sz = (if src = 0 then 0 else c_strnlen m src max_sz)
      in pb_encode_string s (rd_bytes m src sz) sz)"

definition pb_enc_fixed_length_bytes ::
  "memory \<Rightarrow> 'st pb_ostream \<Rightarrow> pb_field \<Rightarrow> nat \<Rightarrow> bool \<times> 'st pb_ostream" where
  "pb_enc_fixed_length_bytes m s f src =
     pb_encode_string s (rd_bytes m src (unat (f_data_size f))) (unat (f_data_size f))"

section \<open>Submessages\<close>

definition pb_encode_submessage :: "'st sub_encoder \<Rightarrow> 'st pb_ostream \<Rightarrow> nat \<Rightarrow> nat \<Rightarrow> 'st enc_result" where
  "pb_encode_submessage sub s fds src =
     (case sub (pb_ostream_sizing (o_user s)) fds src of
        None \<Rightarrow> None
      | Some (False, sizing) \<Rightarrow> Some (False, s\<lparr>o_errmsg := o_errmsg sizing\<rparr>)
      | Some (True, sizing) \<Rightarrow>
          let sz = bytes_written sizing in
          and_then (Some (pb_encode_varint s (of_nat sz)))
            (\<lambda>s. if o_callback s = Sizing then Some (pb_write s [] sz)
                 else if max_size s < add_size (bytes_written s) sz then Some (out_error s ''stream full'')
                 else
                   (case sub (s\<lparr>max_size := sz, bytes_written := 0, o_errmsg := None\<rparr>) fds src of
                      None \<Rightarrow> None
                    | Some (status, substream) \<Rightarrow>
                        let s = s\<lparr>bytes_written := add_size (bytes_written s) (bytes_written substream),
                                  o_buf := o_buf substream, o_user := o_user substream,
                                  o_errmsg := o_errmsg substream\<rparr>
                        in if bytes_written substream \<noteq> sz then Some (out_error s ''submsg size changed'')
                           else Some (status, s))))"

definition pb_enc_submessage :: "'st sub_encoder \<Rightarrow> 'st pb_ostream \<Rightarrow> pb_field \<Rightarrow> nat \<Rightarrow> 'st enc_result" where
  "pb_enc_submessage sub s f src =
     (if f_ptr f = 0 then Some (out_error s ''invalid field descriptor'')
      else pb_encode_submessage sub s (f_ptr f) src)"

text \<open>The table \<open>PB_ENCODERS\<close>, applied to the type of the field: entry 8 is null.\<close>

definition pb_encoder :: "memory \<Rightarrow> 'st sub_encoder \<Rightarrow> 'st pb_ostream \<Rightarrow> pb_field \<Rightarrow> nat \<Rightarrow> 'st enc_result" where
  "pb_encoder m sub s f src =
     (let l = PB_LTYPE (f_type f) in
      if l = PB_LTYPE_VARINT then Some (pb_enc_varint m s f src)
      else if l = PB_LTYPE_UVARINT then Some (pb_enc_uvarint m s f src)
      else if l = PB_LTYPE_SVARINT then Some (pb_enc_svarint m s f src)
      else if l = PB_LTYPE_FIXED32 then Some (pb_enc_fixed32 m s f src)
      else if l = PB_LTYPE_FIXED64 then Some (pb_enc_fixed64 m s f src)
      else if l = PB_LTYPE_BYTES then Some (pb_enc_bytes m s f src)
      else if l = PB_LTYPE_STRING then Some (pb_enc_string m s f src)
      else if l = PB_LTYPE_SUBMESSAGE then pb_enc_submessage sub s f src
      else if l = PB_LTYPE_FIXED_LENGTH_BYTES then Some (pb_enc_fixed_length_bytes m s f src)
      else None)"

section \<open>Fields\<close>

fun enc_items :: "('st pb_ostream \<Rightarrow> nat \<Rightarrow> 'st enc_result) \<Rightarrow> nat \<Rightarrow> nat \<Rightarrow> nat \<Rightarrow> 'st pb_ostream \<Rightarrow>
    'st enc_result" where
  "enc_items func stride p 0 s = Some (True, s)"
| "enc_items func stride p (Suc count) s =
     and_then (func s p) (enc_items func stride (p + stride) count)"

definition encode_array :: "memory \<Rightarrow> 'st sub_encoder \<Rightarrow> 'st pb_ostream \<Rightarrow> pb_field \<Rightarrow> nat \<Rightarrow> nat \<Rightarrow>
    'st enc_result" where
  "encode_array m sub s f pData count =
     (let func = (\<lambda>s p. pb_encoder m sub s f p); stride = unat (f_data_size f) in
      if count = 0 then Some (True, s)
      else if PB_ATYPE (f_type f) \<noteq> PB_ATYPE_POINTER \<and> unat (f_array_size f) < count then
        Some (out_error s ''array max size exceeded'')
      else if PB_LTYPE (f_type f) \<le> PB_LTYPE_LAST_PACKABLE then
        and_then (Some (pb_encode_tag s PB_WT_STRING (f_tag f)))
          (\<lambda>s. case (if PB_LTYPE (f_type f) = PB_LTYPE_FIXED32 then Some (Some (4 * count))
                     else if PB_LTYPE (f_type f) = PB_LTYPE_FIXED64 then Some (Some (8 * count))
                     else
                       (case enc_items func stride pData count (pb_ostream_sizing (o_user s)) of
                          None \<Rightarrow> None
                        | Some (False, _) \<Rightarrow> Some None
                        | Some (True, sizing) \<Rightarrow> Some (Some (bytes_written sizing)))) of
                 None \<Rightarrow> None
               | Some None \<Rightarrow> Some (False, s)
               | Some (Some sz) \<Rightarrow>
                   and_then (Some (pb_encode_varint s (of_nat sz)))
                     (\<lambda>s. if o_callback s = Sizing then Some (pb_write s [] sz)
                          else enc_items func stride pData count s))
      else
        enc_items
          (\<lambda>s p. and_then (Some (pb_encode_tag_for_field s f))
             (\<lambda>s. if PB_ATYPE (f_type f) = PB_ATYPE_POINTER \<and>
                     (PB_LTYPE (f_type f) = PB_LTYPE_STRING \<or> PB_LTYPE (f_type f) = PB_LTYPE_BYTES)
                  then func s (rd_ptr m p) else func s p))
          stride pData count s)"

text \<open>
  \<open>pb_check_proto3_default_value\<close>, open in the check of a whole message \<open>deflt\<close>.
\<close>

definition pb_check_proto3_default_value ::
  "memory \<Rightarrow> (nat \<Rightarrow> nat \<Rightarrow> bool option) \<Rightarrow> pb_field \<Rightarrow> nat \<Rightarrow> bool option" where
  "pb_check_proto3_default_value m deflt f pData =
     (let type = f_type f; pSize = ptr_plus pData (f_size_offset f) in
      if PB_HTYPE type = PB_HTYPE_REQUIRED then Some False
      else if PB_HTYPE type = PB_HTYPE_REPEATED then Some (rd_u32 m pSize = 0)
      else if PB_HTYPE type = PB_HTYPE_ONEOF then Some (rd_u32 m pSize = 0)
      else if PB_HTYPE type = PB_HTYPE_OPTIONAL \<and> f_size_offset f \<noteq> 0 then Some (\<not> rd_bool m pSize)
      else if PB_ATYPE type = PB_ATYPE_STATIC \<and> PB_LTYPE type = PB_LTYPE_BYTES then
        Some (rd_u32 m pData = 0)
      else if PB_ATYPE type = PB_ATYPE_STATIC \<and> PB_LTYPE type = PB_LTYPE_STRING then
        Some (m pData = 0)
      else if PB_ATYPE type = PB_ATYPE_STATIC \<and> PB_LTYPE type = PB_LTYPE_FIXED_LENGTH_BYTES then
        Some (f_data_size f = 0)
      else if PB_ATYPE type = PB_ATYPE_STATIC \<and> PB_LTYPE type = PB_LTYPE_SUBMESSAGE then
        deflt (f_ptr f) pData
      else Some (\<forall>b\<in>set (rd_bytes m pData (unat (f_data_size f))). b = 0))"

text \<open>The loop over the fields of a static submessage.\<close>

fun pb_check_message :: "nat \<Rightarrow> memory \<Rightarrow> pb_tables \<Rightarrow> nat \<Rightarrow> nat \<Rightarrow> bool option" where
  "pb_check_message 0 m d fds src = None"
| "pb_check_message (Suc n) m d fds src =
     (case pb_field_iter_begin d fds src of
        (False, it) \<Rightarrow> Some True
      | (True, it) \<Rightarrow>
          map_option fst
            (each_field d
               (\<lambda>it u. map_option (\<lambda>b. (b, u))
                  (pb_check_proto3_default_value m (pb_check_message n m d) (it_field d it) (it_pData it)))
               it ()))"

text \<open>
  \<open>encode_basic_field\<close>. \<open>pSize\<close> points to a flag or a count in the message, or else to the local
  variable \<open>implicit_has\<close>; a union without a tag field is not a valid descriptor, and its case reads
  beyond that variable.
\<close>

definition encode_basic_field :: "memory \<Rightarrow> 'st sub_encoder \<Rightarrow> (nat \<Rightarrow> nat \<Rightarrow> bool option) \<Rightarrow>
    'st pb_ostream \<Rightarrow> pb_field \<Rightarrow> nat \<Rightarrow> 'st enc_result" where
  "encode_basic_field m sub deflt s f pData0 =
     (let pSize = ptr_plus pData0 (f_size_offset f);
          ptr = (PB_ATYPE (f_type f) = PB_ATYPE_POINTER);
          pData = (if ptr then rd_ptr m pData0 else pData0);
          value = (\<lambda>s. and_then (Some (pb_encode_tag_for_field s f)) (\<lambda>s. pb_encoder m sub s f pData))
      in
      case (if f_size_offset f = 0 \<and> PB_HTYPE (f_type f) = PB_HTYPE_OPTIONAL then
              map_option Not (pb_check_proto3_default_value m deflt f pData0)
            else Some True) of
        None \<Rightarrow> None
      | Some has0 \<Rightarrow>
          let implicit_has = (if ptr then pData \<noteq> 0 else has0) in
          if PB_HTYPE (f_type f) = PB_HTYPE_REQUIRED then
            (if pData = 0 then Some (out_error s ''missing required field'') else value s)
          else if PB_HTYPE (f_type f) = PB_HTYPE_OPTIONAL then
            (if (if f_size_offset f \<noteq> 0 then rd_bool m pSize else implicit_has) then value s
             else Some (True, s))
          else if PB_HTYPE (f_type f) = PB_HTYPE_REPEATED then
            encode_array m sub s f pData
              (if f_size_offset f \<noteq> 0 then unat (rd_u32 m pSize) else unat (f_array_size f))
          else if f_size_offset f = 0 then None
          else if rd_u32 m pSize = f_tag f then value s else Some (True, s))"

definition encode_callback_field :: "'st enc_env \<Rightarrow> 'st pb_ostream \<Rightarrow> pb_field \<Rightarrow> nat \<Rightarrow>
    bool \<times> 'st pb_ostream" where
  "encode_callback_field E s f pData =
     (let encode = rd_ptr (en_mem E) pData in
      if encode \<noteq> 0 then
        (case en_field_cb E encode s f (pData + callback_arg_off) of
           (False, s) \<Rightarrow> out_error s ''callback error''
         | (True, s) \<Rightarrow> (True, s))
      else (True, s))"

definition encode_field :: "'st enc_env \<Rightarrow> 'st sub_encoder \<Rightarrow> (nat \<Rightarrow> nat \<Rightarrow> bool option) \<Rightarrow>
    'st pb_ostream \<Rightarrow> pb_field \<Rightarrow> nat \<Rightarrow> 'st enc_result" where
  "encode_field E sub deflt s f pData =
     (if PB_ATYPE (f_type f) = PB_ATYPE_STATIC \<or> PB_ATYPE (f_type f) = PB_ATYPE_POINTER then
        encode_basic_field (en_mem E) sub deflt s f pData
      else if PB_ATYPE (f_type f) = PB_ATYPE_CALLBACK then Some (encode_callback_field E s f pData)
      else Some (out_error s ''invalid field type''))"

section \<open>Extensions\<close>

definition default_extension_encoder :: "'st enc_env \<Rightarrow> 'st sub_encoder \<Rightarrow>
    (nat \<Rightarrow> nat \<Rightarrow> bool option) \<Rightarrow> 'st pb_ostream \<Rightarrow> nat \<Rightarrow> 'st enc_result" where
  "default_extension_encoder E sub deflt s extension =
     (let type = en_ext E (rd_ptr (en_mem E) (extension + ext_type_off));
          f = field_at (en_fields E (x_arg type)) 0
      in if PB_ATYPE (f_type f) = PB_ATYPE_POINTER then
           encode_field E sub deflt s f (extension + ext_dest_off)
         else encode_field E sub deflt s f (rd_ptr (en_mem E) (extension + ext_dest_off)))"

fun encode_extensions :: "nat \<Rightarrow> 'st enc_env \<Rightarrow> 'st sub_encoder \<Rightarrow> (nat \<Rightarrow> nat \<Rightarrow> bool option) \<Rightarrow>
    nat \<Rightarrow> 'st pb_ostream \<Rightarrow> 'st enc_result" where
  "encode_extensions 0 E sub deflt extension s = None"
| "encode_extensions (Suc n) E sub deflt extension s =
     (if extension = 0 then Some (True, s)
      else
        let type = en_ext E (rd_ptr (en_mem E) (extension + ext_type_off)) in
        and_then
          (if x_encode type \<noteq> 0 then Some (en_ext_cb E (x_encode type) s extension)
           else default_extension_encoder E sub deflt s extension)
          (encode_extensions n E sub deflt (rd_ptr (en_mem E) (extension + ext_next_off))))"

definition encode_extension_field :: "nat \<Rightarrow> 'st enc_env \<Rightarrow> 'st sub_encoder \<Rightarrow>
    (nat \<Rightarrow> nat \<Rightarrow> bool option) \<Rightarrow> 'st pb_ostream \<Rightarrow> nat \<Rightarrow> 'st enc_result" where
  "encode_extension_field n E sub deflt s pData =
     encode_extensions n E sub deflt (rd_ptr (en_mem E) pData) s"

section \<open>Messages\<close>

fun pb_encode :: "nat \<Rightarrow> 'st enc_env \<Rightarrow> 'st pb_ostream \<Rightarrow> nat \<Rightarrow> nat \<Rightarrow> 'st enc_result" where
  "pb_encode 0 E s fds src = None"
| "pb_encode (Suc n) E s fds src =
     (case pb_field_iter_begin (en_fields E) fds src of
        (False, it) \<Rightarrow> Some (True, s)
      | (True, it) \<Rightarrow>
          each_field (en_fields E)
            (\<lambda>it s.
               let f = it_field (en_fields E) it; sub = pb_encode n E;
                   deflt = pb_check_message n (en_mem E) (en_fields E)
               in if PB_LTYPE (f_type f) = PB_LTYPE_EXTENSION then
                    encode_extension_field n E sub deflt s (it_pData it)
                  else encode_field E sub deflt s f (it_pData it))
            it s)"

definition pb_encode_delimited :: "nat \<Rightarrow> 'st enc_env \<Rightarrow> 'st pb_ostream \<Rightarrow> nat \<Rightarrow> nat \<Rightarrow> 'st enc_result" where
  "pb_encode_delimited n E s fds src = pb_encode_submessage (pb_encode n E) s fds src"

definition pb_encode_nullterminated :: "nat \<Rightarrow> 'st enc_env \<Rightarrow> 'st pb_ostream \<Rightarrow> nat \<Rightarrow> nat \<Rightarrow>
    'st enc_result" where
  "pb_encode_nullterminated n E s fds src =
     and_then (pb_encode n E s fds src) (\<lambda>s. Some (pb_write s [0] 1))"

text \<open>\<open>*size\<close> when the function returns true.\<close>

definition pb_get_encoded_size :: "nat \<Rightarrow> 'st enc_env \<Rightarrow> 'st \<Rightarrow> nat \<Rightarrow> nat \<Rightarrow> nat option option" where
  "pb_get_encoded_size n E st fds src =
     map_option (\<lambda>(ok, s). if ok then Some (bytes_written s) else None)
       (pb_encode n E (pb_ostream_sizing st) fds src)"

end
