(* ===== verification/Pb_Decode.thy ===== *)
theory Pb_Decode
  imports Pb_Encode
begin

text \<open>
  The message decoder of nanopb (\<open>pb_decode.c\<close>): a stream is read into a message in memory, driven by
  the descriptors of its fields.

  The state is the stream, the memory and the state of the allocator, which the functions thread through.
  \<open>pb_realloc\<close>, \<open>pb_free\<close> and the user's callbacks are parameters, functions on that state. Field
  iterators, the tables of descriptors and the types of extensions are those of the encoder.

  As there, recursion into submessages is open in the definitions of the fields: they take the decoder,
  the initialisation and the release of a message as arguments, and \<open>pb_decode\<close> closes the recursion with
  fuel. \<open>None\<close> means that the fuel has run out, or the call of a null function pointer.

  One local variable of \<open>pb_decode_noinit\<close>, \<open>fixed_count_size\<close>, is reached through a pointer of the
  iterator. It lies in memory, at an address that is a parameter for each level of the recursion.
\<close>

section \<open>The state and the environment\<close>

record ('st, 'h) dec_state =
  ds_in :: "'st pb_istream"
  ds_mem :: memory
  ds_heap :: 'h

record ('st, 'h) dec_env =
  de_fields :: pb_tables
  de_ext :: "nat \<Rightarrow> pb_extension_type"
  de_realloc :: "nat \<Rightarrow> nat \<Rightarrow> memory \<Rightarrow> 'h \<Rightarrow> nat \<times> memory \<times> 'h"
  de_free :: "nat \<Rightarrow> memory \<Rightarrow> 'h \<Rightarrow> memory \<times> 'h"
  de_field_cb :: "nat \<Rightarrow> pb_field \<Rightarrow> nat \<Rightarrow> ('st, 'h) dec_state \<Rightarrow> bool \<times> ('st, 'h) dec_state"
  de_ext_cb :: "nat \<Rightarrow> nat \<Rightarrow> u32 \<Rightarrow> u32 \<Rightarrow> ('st, 'h) dec_state \<Rightarrow> bool \<times> ('st, 'h) dec_state"
  de_local :: "nat \<Rightarrow> nat"

type_synonym ('st, 'h) dec_result = "(bool \<times> ('st, 'h) dec_state) option"
type_synonym ('st, 'h) dec_step = "('st, 'h) dec_state \<Rightarrow> ('st, 'h) dec_result"

text \<open>A decoder of messages, a release of messages, an initialisation of messages.\<close>

type_synonym ('st, 'h) sub_decoder = "nat \<Rightarrow> nat \<Rightarrow> ('st, 'h) dec_step"
type_synonym ('st, 'h) sub_release = "nat \<Rightarrow> nat \<Rightarrow> ('st, 'h) dec_state \<Rightarrow> ('st, 'h) dec_state option"
type_synonym sub_defaults = "nat \<Rightarrow> nat \<Rightarrow> memory \<Rightarrow> memory option"

text \<open>Writing to memory.\<close>

definition wr_u16 :: "nat \<Rightarrow> u16 \<Rightarrow> memory \<Rightarrow> memory" where "wr_u16 a v m = wr_bytes m a (le_bytes 2 v)"
definition wr_u32 :: "nat \<Rightarrow> u32 \<Rightarrow> memory \<Rightarrow> memory" where "wr_u32 a v m = wr_bytes m a (le_bytes 4 v)"
definition wr_u64 :: "nat \<Rightarrow> u64 \<Rightarrow> memory \<Rightarrow> memory" where "wr_u64 a v m = wr_bytes m a (le_bytes 8 v)"
definition wr_ptr :: "nat \<Rightarrow> nat \<Rightarrow> memory \<Rightarrow> memory" where "wr_ptr a p = wr_u64 a (of_nat p)"
definition wr_bool :: "nat \<Rightarrow> bool \<Rightarrow> memory \<Rightarrow> memory" where
  "wr_bool a b m = wr_bytes m a [if b then 1 else 0]"

definition mem_set :: "nat \<Rightarrow> nat \<Rightarrow> memory \<Rightarrow> memory" where
  "mem_set a n m = wr_bytes m a (replicate n 0)"

definition upd_mem :: "(memory \<Rightarrow> memory) \<Rightarrow> ('st, 'h) dec_state \<Rightarrow> ('st, 'h) dec_state" where
  "upd_mem f s = s\<lparr>ds_mem := f (ds_mem s)\<rparr>"

definition dec_error :: "string \<Rightarrow> ('st, 'h) dec_step" where
  "dec_error msg s = Some (False, s\<lparr>ds_in := snd (in_fail (ds_in s) msg)\<rparr>)"

text \<open>Run a reader of the stream; go on with its value, or return false.\<close>

definition with_read :: "('st pb_istream \<Rightarrow> 'a option \<times> 'st pb_istream) \<Rightarrow>
    ('a \<Rightarrow> ('st, 'h) dec_step) \<Rightarrow> ('st, 'h) dec_step" where
  "with_read rd k s =
     (case rd (ds_in s) of
        (None, t) \<Rightarrow> Some (False, s\<lparr>ds_in := t\<rparr>)
      | (Some x, t) \<Rightarrow> k x (s\<lparr>ds_in := t\<rparr>))"

text \<open>A function of the stream that returns a truth value.\<close>

definition on_stream :: "('st pb_istream \<Rightarrow> bool \<times> 'st pb_istream) \<Rightarrow> ('st, 'h) dec_step" where
  "on_stream f s = (case f (ds_in s) of (ok, t) \<Rightarrow> Some (ok, s\<lparr>ds_in := t\<rparr>))"

text \<open>\<open>pb_read\<close> into a buffer in memory.\<close>

definition read_to :: "nat \<Rightarrow> nat \<Rightarrow> ('st, 'h) dec_step" where
  "read_to dest count =
     with_read (\<lambda>t. pb_read t True count)
       (\<lambda>bs s. Some (True, upd_mem (\<lambda>m. wr_bytes m dest (take count bs)) s))"

section \<open>Values\<close>

text \<open>A 64-bit integer cast to the size of a field and back, and the store of the cast value.\<close>

definition narrow_signed :: "u32 \<Rightarrow> u64 \<Rightarrow> u64 option" where
  "narrow_signed data_size v =
     (if data_size = 8 then Some v
      else if data_size = 4 then Some (scast (ucast v :: u32))
      else if data_size = 2 then Some (scast (ucast v :: u16))
      else if data_size = 1 then Some (scast (ucast v :: u8))
      else None)"

definition narrow_unsigned :: "u32 \<Rightarrow> u64 \<Rightarrow> u64 option" where
  "narrow_unsigned data_size v =
     (if data_size = 8 then Some v
      else if data_size = 4 then Some (ucast (ucast v :: u32))
      else if data_size = 2 then Some (ucast (ucast v :: u16))
      else if data_size = 1 then Some (ucast (ucast v :: u8))
      else None)"

definition store_int :: "u32 \<Rightarrow> nat \<Rightarrow> u64 \<Rightarrow> memory \<Rightarrow> memory" where
  "store_int data_size dest v =
     (if data_size = 8 then wr_u64 dest v
      else if data_size = 4 then wr_u32 dest (ucast v)
      else if data_size = 2 then wr_u16 dest (ucast v)
      else if data_size = 1 then (\<lambda>m. wr_bytes m dest [ucast v])
      else (\<lambda>m. m))"

text \<open>Store \<open>v\<close> and compare what was stored with it.\<close>

definition store_checked :: "u64 option \<Rightarrow> u32 \<Rightarrow> nat \<Rightarrow> u64 \<Rightarrow> ('st, 'h) dec_step" where
  "store_checked clamped data_size dest v s =
     (case clamped of
        None \<Rightarrow> dec_error ''invalid data_size'' s
      | Some c \<Rightarrow>
          let s = upd_mem (store_int data_size dest v) s in
          if c \<noteq> v then dec_error ''integer too large'' s else Some (True, s))"

definition pb_dec_varint :: "pb_field \<Rightarrow> nat \<Rightarrow> ('st, 'h) dec_step" where
  "pb_dec_varint f dest =
     with_read pb_decode_varint
       (\<lambda>value.
          let svalue = (if f_data_size f = 8 then value else scast (ucast value :: u32)) in
          store_checked (narrow_signed (f_data_size f) svalue) (f_data_size f) dest svalue)"

definition pb_dec_uvarint :: "pb_field \<Rightarrow> nat \<Rightarrow> ('st, 'h) dec_step" where
  "pb_dec_uvarint f dest =
     with_read pb_decode_varint
       (\<lambda>value. store_checked (narrow_unsigned (f_data_size f) value) (f_data_size f) dest value)"

definition pb_dec_svarint :: "pb_field \<Rightarrow> nat \<Rightarrow> ('st, 'h) dec_step" where
  "pb_dec_svarint f dest =
     with_read pb_decode_svarint
       (\<lambda>value. store_checked (narrow_signed (f_data_size f) value) (f_data_size f) dest value)"

definition pb_dec_fixed32 :: "pb_field \<Rightarrow> nat \<Rightarrow> ('st, 'h) dec_step" where
  "pb_dec_fixed32 f dest = with_read pb_decode_fixed32 (\<lambda>v s. Some (True, upd_mem (wr_u32 dest v) s))"

definition pb_dec_fixed64 :: "pb_field \<Rightarrow> nat \<Rightarrow> ('st, 'h) dec_step" where
  "pb_dec_fixed64 f dest = with_read pb_decode_fixed64 (\<lambda>v s. Some (True, upd_mem (wr_u64 dest v) s))"

definition allocate_field :: "('st, 'h) dec_env \<Rightarrow> nat \<Rightarrow> nat \<Rightarrow> nat \<Rightarrow> ('st, 'h) dec_step" where
  "allocate_field E pData data_size array_size s =
     (if data_size = 0 \<or> array_size = 0 then dec_error ''invalid size'' s
      else if (2 ^ 32 \<le> data_size \<or> 2 ^ 32 \<le> array_size) \<and> SIZE_MAX div array_size < data_size then
        dec_error ''size too large'' s
      else
        (case de_realloc E (rd_ptr (ds_mem s) pData) (mul_size array_size data_size) (ds_mem s) (ds_heap s) of
           (ptr, m, h) \<Rightarrow>
             let s = s\<lparr>ds_mem := m, ds_heap := h\<rparr> in
             if ptr = 0 then dec_error ''realloc failed'' s
             else Some (True, upd_mem (wr_ptr pData ptr) s)))"

definition pb_dec_bytes :: "('st, 'h) dec_env \<Rightarrow> pb_field \<Rightarrow> nat \<Rightarrow> ('st, 'h) dec_step" where
  "pb_dec_bytes E f dest =
     with_read pb_decode_varint32
       (\<lambda>sz s.
          let alloc_size = add_size (unat sz) bytes_off in
          if PB_SIZE_MAX < sz then dec_error ''bytes overflow'' s
          else if alloc_size < unat sz then dec_error ''size too large'' s
          else if PB_ATYPE (f_type f) = PB_ATYPE_POINTER then
            and_then (allocate_field E dest alloc_size 1 s)
              (\<lambda>s. let bdest = rd_ptr (ds_mem s) dest in
                    read_to (bdest + bytes_off) (unat sz) (upd_mem (wr_u32 bdest sz) s))
          else if unat (f_data_size f) < alloc_size then dec_error ''bytes overflow'' s
          else read_to (dest + bytes_off) (unat sz) (upd_mem (wr_u32 dest sz) s))"

text \<open>The zero behind a string is written whether or not the string could be read.\<close>

definition read_string_to :: "nat \<Rightarrow> nat \<Rightarrow> ('st, 'h) dec_step" where
  "read_string_to dest sz s =
     map_option (\<lambda>(status, s). (status, upd_mem (\<lambda>m. wr_bytes m (dest + sz) [0]) s)) (read_to dest sz s)"

definition pb_dec_string :: "('st, 'h) dec_env \<Rightarrow> pb_field \<Rightarrow> nat \<Rightarrow> ('st, 'h) dec_step" where
  "pb_dec_string E f dest =
     with_read pb_decode_varint32
       (\<lambda>sz s.
          let alloc_size = unat (sz + 1) in
          if alloc_size < unat sz then dec_error ''size too large'' s
          else if PB_ATYPE (f_type f) = PB_ATYPE_POINTER then
            and_then (allocate_field E dest alloc_size 1 s)
              (\<lambda>s. read_string_to (rd_ptr (ds_mem s) dest) (unat sz) s)
          else if unat (f_data_size f) < alloc_size then dec_error ''string overflow'' s
          else read_string_to dest (unat sz) s)"

definition pb_dec_fixed_length_bytes :: "pb_field \<Rightarrow> nat \<Rightarrow> ('st, 'h) dec_step" where
  "pb_dec_fixed_length_bytes f dest =
     with_read pb_decode_varint32
       (\<lambda>sz s.
          if PB_SIZE_MAX < sz then dec_error ''bytes overflow'' s
          else if sz = 0 then Some (True, upd_mem (mem_set dest (unat (f_data_size f))) s)
          else if sz \<noteq> f_data_size f then dec_error ''incorrect fixed length bytes size'' s
          else read_to dest (unat (f_data_size f)) s)"

section \<open>Initialisation\<close>

definition iter_from_extension :: "('st, 'h) dec_env \<Rightarrow> nat \<Rightarrow> memory \<Rightarrow> pb_field_iter" where
  "iter_from_extension E extension m =
     (let arg = x_arg (de_ext E (rd_ptr m (extension + ext_type_off)));
          dest = rd_ptr m (extension + ext_dest_off);
          f = field_at (de_fields E arg) 0
      in (snd (pb_field_iter_begin (de_fields E) arg dest))
           \<lparr>it_pData := (if PB_ATYPE (f_type f) = PB_ATYPE_POINTER then extension + ext_dest_off else dest),
            it_pSize := extension + ext_found_off\<rparr>)"

text \<open>
  \<open>pb_field_set_to_default\<close>, open in the initialisation of a submessage and in that of a list of
  extensions.
\<close>

definition pb_field_set_to_default :: "('st, 'h) dec_env \<Rightarrow> sub_defaults \<Rightarrow> (nat \<Rightarrow> memory \<Rightarrow> memory option) \<Rightarrow>
    pb_field_iter \<Rightarrow> memory \<Rightarrow> memory option" where
  "pb_field_set_to_default E msg exts it m =
     (let f = it_field (de_fields E) it; type = f_type f in
      if PB_LTYPE type = PB_LTYPE_EXTENSION then exts (rd_ptr m (it_pData it)) m
      else if PB_ATYPE type = PB_ATYPE_STATIC then
        (if PB_HTYPE type = PB_HTYPE_REPEATED \<or> PB_HTYPE type = PB_HTYPE_ONEOF then
           Some (wr_u32 (it_pSize it) 0 m)
         else
           let m = (if PB_HTYPE type = PB_HTYPE_OPTIONAL \<and> it_pSize it \<noteq> it_pData it
                    then wr_bool (it_pSize it) False m else m)
           in if PB_LTYPE type = PB_LTYPE_SUBMESSAGE then msg (f_ptr f) (it_pData it) m
              else if f_ptr f \<noteq> 0 then
                Some (wr_bytes m (it_pData it) (rd_bytes m (f_ptr f) (unat (f_data_size f))))
              else Some (mem_set (it_pData it) (unat (f_data_size f)) m))
      else if PB_ATYPE type = PB_ATYPE_POINTER then
        let m = wr_ptr (it_pData it) 0 m in
        Some (if PB_HTYPE type = PB_HTYPE_REPEATED \<or> PB_HTYPE type = PB_HTYPE_ONEOF
              then wr_u32 (it_pSize it) 0 m else m)
      else Some m)"

fun default_extensions :: "nat \<Rightarrow> ('st, 'h) dec_env \<Rightarrow> sub_defaults \<Rightarrow> nat \<Rightarrow> memory \<Rightarrow> memory option" where
  "default_extensions 0 E msg ext m = None"
| "default_extensions (Suc n) E msg ext m =
     (if ext = 0 then Some m
      else
        let m = wr_bool (ext + ext_found_off) False m in
        (case pb_field_set_to_default E msg (default_extensions n E msg) (iter_from_extension E ext m) m of
           None \<Rightarrow> None
         | Some m \<Rightarrow> default_extensions n E msg (rd_ptr m (ext + ext_next_off)) m))"

fun pb_message_set_to_defaults :: "nat \<Rightarrow> ('st, 'h) dec_env \<Rightarrow> sub_defaults" where
  "pb_message_set_to_defaults 0 E fds dest m = None"
| "pb_message_set_to_defaults (Suc n) E fds dest m =
     (case pb_field_iter_begin (de_fields E) fds dest of
        (False, it) \<Rightarrow> Some m
      | (True, it) \<Rightarrow>
          map_option snd
            (each_field (de_fields E)
               (\<lambda>it m. map_option (\<lambda>m. (True, m))
                  (pb_field_set_to_default E (pb_message_set_to_defaults n E)
                     (default_extensions n E (pb_message_set_to_defaults n E)) it m))
               it m))"

section \<open>Release\<close>

fun release_items :: "(nat \<Rightarrow> ('st, 'h) dec_state \<Rightarrow> ('st, 'h) dec_state option) \<Rightarrow> nat \<Rightarrow> nat \<Rightarrow> nat \<Rightarrow>
    ('st, 'h) dec_state \<Rightarrow> ('st, 'h) dec_state option" where
  "release_items rel stride pItem 0 s = Some s"
| "release_items rel stride pItem (Suc count) s =
     (case rel pItem s of
        None \<Rightarrow> None
      | Some s \<Rightarrow> release_items rel stride (pItem + stride) count s)"

definition free_at :: "('st, 'h) dec_env \<Rightarrow> nat \<Rightarrow> ('st, 'h) dec_state \<Rightarrow> ('st, 'h) dec_state" where
  "free_at E a s =
     (case de_free E (rd_ptr (ds_mem s) a) (ds_mem s) (ds_heap s) of
        (m, h) \<Rightarrow> s\<lparr>ds_mem := wr_ptr a 0 m, ds_heap := h\<rparr>)"

fun free_strings :: "('st, 'h) dec_env \<Rightarrow> nat \<Rightarrow> nat \<Rightarrow> ('st, 'h) dec_state \<Rightarrow> ('st, 'h) dec_state" where
  "free_strings E pItem 0 s = s"
| "free_strings E pItem (Suc count) s = free_strings E (pItem + 8) count (free_at E pItem s)"

text \<open>The items of a submessage field.\<close>

definition release_count :: "memory \<Rightarrow> pb_field \<Rightarrow> nat \<Rightarrow> nat \<Rightarrow> u32" where
  "release_count m f pData pSize =
     (if PB_HTYPE (f_type f) = PB_HTYPE_REPEATED then
        let static = (PB_ATYPE (f_type f) = PB_ATYPE_STATIC);
            count = (if static \<and> pSize = pData then f_array_size f else rd_u32 m pSize)
        in if static \<and> f_array_size f < count then f_array_size f else count
      else 1)"

definition pb_release_single_field :: "('st, 'h) dec_env \<Rightarrow> ('st, 'h) sub_release \<Rightarrow>
    (nat \<Rightarrow> ('st, 'h) dec_state \<Rightarrow> ('st, 'h) dec_state option) \<Rightarrow>
    pb_field_iter \<Rightarrow> ('st, 'h) dec_state \<Rightarrow> ('st, 'h) dec_state option" where
  "pb_release_single_field E rel exts it s =
     (let f = it_field (de_fields E) it; type = f_type f; pData = it_pData it; pSize = it_pSize it;
          ptr = (PB_ATYPE type = PB_ATYPE_POINTER)
      in
      if PB_HTYPE type = PB_HTYPE_ONEOF \<and> rd_u32 (ds_mem s) pSize \<noteq> f_tag f then Some s
      else
        case (if PB_LTYPE type = PB_LTYPE_EXTENSION then exts (rd_ptr (ds_mem s) pData) s
              else if PB_LTYPE type = PB_LTYPE_SUBMESSAGE then
                let pItem = (if ptr then rd_ptr (ds_mem s) pData else pData) in
                if pItem \<noteq> 0 then
                  release_items (rel (f_ptr f)) (unat (f_data_size f)) pItem
                    (unat (release_count (ds_mem s) f pData pSize)) s
                else Some s
              else Some s) of
          None \<Rightarrow> None
        | Some s \<Rightarrow>
            if ptr then
              let s = (if PB_HTYPE type = PB_HTYPE_REPEATED \<and>
                          (PB_LTYPE type = PB_LTYPE_STRING \<or> PB_LTYPE type = PB_LTYPE_BYTES)
                       then free_strings E (rd_ptr (ds_mem s) pData) (unat (rd_u32 (ds_mem s) pSize)) s
                       else s);
                  s = (if PB_HTYPE type = PB_HTYPE_REPEATED then upd_mem (wr_u32 pSize 0) s else s)
              in Some (free_at E pData s)
            else Some s)"

fun release_extensions :: "nat \<Rightarrow> ('st, 'h) dec_env \<Rightarrow> ('st, 'h) sub_release \<Rightarrow> nat \<Rightarrow>
    ('st, 'h) dec_state \<Rightarrow> ('st, 'h) dec_state option" where
  "release_extensions 0 E rel ext s = None"
| "release_extensions (Suc n) E rel ext s =
     (if ext = 0 then Some s
      else
        (case pb_release_single_field E rel (release_extensions n E rel)
                (iter_from_extension E ext (ds_mem s)) s of
           None \<Rightarrow> None
         | Some s \<Rightarrow> release_extensions n E rel (rd_ptr (ds_mem s) (ext + ext_next_off)) s))"

fun pb_release :: "nat \<Rightarrow> ('st, 'h) dec_env \<Rightarrow> ('st, 'h) sub_release" where
  "pb_release 0 E fds dest s = None"
| "pb_release (Suc n) E fds dest s =
     (if dest = 0 then Some s
      else
        (case pb_field_iter_begin (de_fields E) fds dest of
           (False, it) \<Rightarrow> Some s
         | (True, it) \<Rightarrow>
             map_option snd
               (each_field (de_fields E)
                  (\<lambda>it s. map_option (\<lambda>s. (True, s))
                     (pb_release_single_field E (pb_release n E) (release_extensions n E (pb_release n E)) it s))
                  it s)))"

text \<open>\<open>pb_release_union_field\<close> moves the iterator to the old member of the union and back.\<close>

definition pb_release_union_field :: "('st, 'h) dec_env \<Rightarrow>
    (pb_field_iter \<Rightarrow> ('st, 'h) dec_state \<Rightarrow> ('st, 'h) dec_state option) \<Rightarrow>
    pb_field_iter \<Rightarrow> ('st, 'h) dec_state \<Rightarrow> (bool \<times> pb_field_iter \<times> ('st, 'h) dec_state) option" where
  "pb_release_union_field E release it s =
     (let d = de_fields E; old_tag = rd_u32 (ds_mem s) (it_pSize it); new_tag = f_tag (it_field d it) in
      if old_tag = 0 then Some (True, it, s)
      else if old_tag = new_tag then Some (True, it, s)
      else
        (case pb_field_iter_find d it old_tag of
           None \<Rightarrow> None
         | Some (False, it) \<Rightarrow> map_option (\<lambda>(r, s). (r, it, s)) (dec_error ''invalid union tag'' s)
         | Some (True, it) \<Rightarrow>
             (case release it s of
                None \<Rightarrow> None
              | Some s \<Rightarrow>
                  (case pb_field_iter_find d it new_tag of
                     None \<Rightarrow> None
                   | Some (False, it) \<Rightarrow> map_option (\<lambda>(r, s). (r, it, s)) (dec_error ''iterator error'' s)
                   | Some (True, it) \<Rightarrow> Some (True, it, s)))))"

section \<open>Submessages and fields\<close>

text \<open>
  What the functions of a field need of the message level: the decoders \<open>pb_decode_noinit\<close> and
  \<open>pb_decode\<close>, \<open>pb_message_set_to_defaults\<close> and \<open>pb_release_single_field\<close>, and the fuel of their own loops.
\<close>

record ('st, 'h) dec_subs =
  sub_fuel :: nat
  sub_noinit :: "('st, 'h) sub_decoder"
  sub_decode :: "('st, 'h) sub_decoder"
  sub_default :: sub_defaults
  sub_release_field :: "pb_field_iter \<Rightarrow> ('st, 'h) dec_state \<Rightarrow> ('st, 'h) dec_state option"

text \<open>Close the substream a state has been working on and go back to the parent stream.\<close>

definition close_substream :: "'st pb_istream \<Rightarrow> bool \<Rightarrow> ('st, 'h) dec_step" where
  "close_substream parent status s =
     (case pb_close_string_substream parent (ds_in s) of
        (ok, t) \<Rightarrow> Some (ok \<and> status, s\<lparr>ds_in := t\<rparr>))"

definition pb_dec_submessage :: "('st, 'h) dec_subs \<Rightarrow> pb_field \<Rightarrow> nat \<Rightarrow> ('st, 'h) dec_step" where
  "pb_dec_submessage D f dest =
     with_read pb_make_string_substream
       (\<lambda>substream s.
          if f_ptr f = 0 then dec_error ''invalid field descriptor'' s
          else
            (case (if PB_HTYPE (f_type f) = PB_HTYPE_REPEATED then sub_decode D else sub_noinit D)
                    (f_ptr f) dest (s\<lparr>ds_in := substream\<rparr>) of
               None \<Rightarrow> None
             | Some (status, s') \<Rightarrow> close_substream (ds_in s) status s'))"

text \<open>The table \<open>PB_DECODERS\<close>, applied to the type of the field: entry 8 is null.\<close>

definition pb_decoder :: "('st, 'h) dec_env \<Rightarrow> ('st, 'h) dec_subs \<Rightarrow> pb_field \<Rightarrow> nat \<Rightarrow> ('st, 'h) dec_step" where
  "pb_decoder E D f dest =
     (let l = PB_LTYPE (f_type f) in
      if l = PB_LTYPE_VARINT then pb_dec_varint f dest
      else if l = PB_LTYPE_UVARINT then pb_dec_uvarint f dest
      else if l = PB_LTYPE_SVARINT then pb_dec_svarint f dest
      else if l = PB_LTYPE_FIXED32 then pb_dec_fixed32 f dest
      else if l = PB_LTYPE_FIXED64 then pb_dec_fixed64 f dest
      else if l = PB_LTYPE_BYTES then pb_dec_bytes E f dest
      else if l = PB_LTYPE_STRING then pb_dec_string E f dest
      else if l = PB_LTYPE_SUBMESSAGE then pb_dec_submessage D f dest
      else if l = PB_LTYPE_FIXED_LENGTH_BYTES then pb_dec_fixed_length_bytes f dest
      else (\<lambda>s. None))"

definition incr_u32 :: "nat \<Rightarrow> memory \<Rightarrow> memory" where
  "incr_u32 a m = wr_u32 a (rd_u32 m a + 1) m"

text \<open>\<open>iter->pos->data_size * (*size)\<close>, a product of 32-bit numbers.\<close>

definition item_offset :: "pb_field \<Rightarrow> u32 \<Rightarrow> nat" where
  "item_offset f sz = unat (f_data_size f * sz)"

text \<open>The loop over a packed array: each round reads at least one byte of the substream.\<close>

fun packed_items :: "nat \<Rightarrow> (nat \<Rightarrow> ('st, 'h) dec_step) \<Rightarrow> pb_field \<Rightarrow> nat \<Rightarrow> nat \<Rightarrow> ('st, 'h) dec_step" where
  "packed_items 0 func f pData pSize s = None"
| "packed_items (Suc n) func f pData pSize s =
     (if 0 < bytes_left (ds_in s) \<and> rd_u32 (ds_mem s) pSize < f_array_size f then
        and_then (func (pData + item_offset f (rd_u32 (ds_mem s) pSize)) s)
          (\<lambda>s. packed_items n func f pData pSize (upd_mem (incr_u32 pSize) s))
      else Some (True, s))"

definition decode_static_field :: "('st, 'h) dec_env \<Rightarrow> ('st, 'h) dec_subs \<Rightarrow> u32 \<Rightarrow> pb_field_iter \<Rightarrow>
    ('st, 'h) dec_step" where
  "decode_static_field E D wire_type it s =
     (let f = it_field (de_fields E) it; type = f_type f; func = pb_decoder E D f;
          pData = it_pData it; pSize = it_pSize it
      in
      if PB_HTYPE type = PB_HTYPE_REQUIRED then func pData s
      else if PB_HTYPE type = PB_HTYPE_OPTIONAL then
        func pData (if pSize \<noteq> pData then upd_mem (wr_bool pSize True) s else s)
      else if PB_HTYPE type = PB_HTYPE_REPEATED then
        (if wire_type = PB_WT_STRING \<and> PB_LTYPE type \<le> PB_LTYPE_LAST_PACKABLE then
           with_read pb_make_string_substream
             (\<lambda>substream s.
                case packed_items (Suc (bytes_left substream)) func f pData pSize (s\<lparr>ds_in := substream\<rparr>) of
                  None \<Rightarrow> None
                | Some (status, s') \<Rightarrow>
                    if bytes_left (ds_in s') \<noteq> 0 then dec_error ''array overflow'' (s'\<lparr>ds_in := ds_in s\<rparr>)
                    else close_substream (ds_in s) status s')
             s
         else
           let sz = rd_u32 (ds_mem s) pSize; pItem = pData + item_offset f sz;
               s = upd_mem (incr_u32 pSize) s
           in if f_array_size f \<le> sz then dec_error ''array overflow'' s else func pItem s)
      else
        let s = upd_mem (wr_u32 pSize (f_tag f)) s in
        if PB_LTYPE type = PB_LTYPE_SUBMESSAGE then
          (case sub_default D (f_ptr f) pData (mem_set pData (unat (f_data_size f)) (ds_mem s)) of
             None \<Rightarrow> None
           | Some m \<Rightarrow> func pData (s\<lparr>ds_mem := m\<rparr>))
        else func pData s)"

definition initialize_pointer_field :: "('st, 'h) dec_env \<Rightarrow> ('st, 'h) dec_subs \<Rightarrow> nat \<Rightarrow> pb_field_iter \<Rightarrow>
    ('st, 'h) dec_state \<Rightarrow> ('st, 'h) dec_state option" where
  "initialize_pointer_field E D pItem it s =
     (let f = it_field (de_fields E) it in
      if PB_LTYPE (f_type f) = PB_LTYPE_STRING \<or> PB_LTYPE (f_type f) = PB_LTYPE_BYTES then
        Some (upd_mem (wr_ptr pItem 0) s)
      else if PB_LTYPE (f_type f) = PB_LTYPE_SUBMESSAGE then
        map_option (\<lambda>m. s\<lparr>ds_mem := m\<rparr>)
          (sub_default D (f_ptr f) pItem (mem_set pItem (unat (f_data_size f)) (ds_mem s)))
      else Some s)"

text \<open>
  The loop over a packed array with pointer allocation, on the substream. It may set the message of the
  parent stream. A \<open>data_size\<close> of zero would be a division by zero.
\<close>

fun packed_alloc_items :: "nat \<Rightarrow> ('st, 'h) dec_env \<Rightarrow> ('st, 'h) dec_subs \<Rightarrow> pb_field_iter \<Rightarrow> nat \<Rightarrow>
    'st pb_istream \<Rightarrow> ('st, 'h) dec_state \<Rightarrow> (bool \<times> 'st pb_istream \<times> ('st, 'h) dec_state) option" where
  "packed_alloc_items 0 E D it allocated parent s = None"
| "packed_alloc_items (Suc n) E D it allocated parent s =
     (let f = it_field (de_fields E) it; pData = it_pData it; pSize = it_pSize it;
          sz = rd_u32 (ds_mem s) pSize; full = (allocated < unat sz + 1);
          allocated = (if full
            then add_size allocated ((bytes_left (ds_in s) - 1) div unat (f_data_size f) + 1)
            else allocated)
      in
      if bytes_left (ds_in s) = 0 then Some (True, parent, s)
      else if full \<and> f_data_size f = 0 then None
      else
        case (if full then allocate_field E pData (unat (f_data_size f)) allocated s else Some (True, s)) of
          None \<Rightarrow> None
        | Some (False, s) \<Rightarrow> Some (False, parent, s)
        | Some (True, s) \<Rightarrow>
            let pItem = rd_ptr (ds_mem s) pData + item_offset f (rd_u32 (ds_mem s) pSize) in
            (case initialize_pointer_field E D pItem it s of
               None \<Rightarrow> None
             | Some s \<Rightarrow>
                 (case pb_decoder E D f pItem s of
                    None \<Rightarrow> None
                  | Some (False, s) \<Rightarrow> Some (False, parent, s)
                  | Some (True, s) \<Rightarrow>
                      if rd_u32 (ds_mem s) pSize = PB_SIZE_MAX then
                        Some (False, parent\<lparr>i_errmsg := Some ''too many array entries''\<rparr>, s)
                      else packed_alloc_items n E D it allocated parent (upd_mem (incr_u32 pSize) s))))"

definition decode_pointer_field :: "('st, 'h) dec_env \<Rightarrow> ('st, 'h) dec_subs \<Rightarrow> u32 \<Rightarrow> pb_field_iter \<Rightarrow>
    ('st, 'h) dec_step" where
  "decode_pointer_field E D wire_type it s =
     (let f = it_field (de_fields E) it; type = f_type f; func = pb_decoder E D f;
          pData = it_pData it; pSize = it_pSize it
      in
      if PB_HTYPE type \<noteq> PB_HTYPE_REPEATED then
        case (if PB_LTYPE type = PB_LTYPE_SUBMESSAGE \<and> rd_ptr (ds_mem s) pData \<noteq> 0
              then sub_release_field D it s else Some s) of
          None \<Rightarrow> None
        | Some s \<Rightarrow>
            let s = (if PB_HTYPE type = PB_HTYPE_ONEOF then upd_mem (wr_u32 pSize (f_tag f)) s else s) in
            if PB_LTYPE type = PB_LTYPE_STRING \<or> PB_LTYPE type = PB_LTYPE_BYTES then func pData s
            else
              and_then (allocate_field E pData (unat (f_data_size f)) 1 s)
                (\<lambda>s. case initialize_pointer_field E D (rd_ptr (ds_mem s) pData) it s of
                       None \<Rightarrow> None
                     | Some s \<Rightarrow> func (rd_ptr (ds_mem s) pData) s)
      else if wire_type = PB_WT_STRING \<and> PB_LTYPE type \<le> PB_LTYPE_LAST_PACKABLE then
        with_read pb_make_string_substream
          (\<lambda>substream s.
             case packed_alloc_items (Suc (bytes_left substream)) E D it
                    (unat (rd_u32 (ds_mem s) pSize)) (ds_in s) (s\<lparr>ds_in := substream\<rparr>) of
               None \<Rightarrow> None
             | Some (status, parent, s') \<Rightarrow> close_substream parent status s')
          s
      else if rd_u32 (ds_mem s) pSize = PB_SIZE_MAX then dec_error ''too many array entries'' s
      else
        let s = upd_mem (incr_u32 pSize) s in
        and_then (allocate_field E pData (unat (f_data_size f)) (unat (rd_u32 (ds_mem s) pSize)) s)
          (\<lambda>s. let pItem = rd_ptr (ds_mem s) pData + item_offset f (rd_u32 (ds_mem s) pSize - 1) in
                case initialize_pointer_field E D pItem it s of
                  None \<Rightarrow> None
                | Some s \<Rightarrow> func pItem s))"

text \<open>The loop that calls the callback until it has read the whole substream.\<close>

fun callback_loop :: "nat \<Rightarrow> (('st, 'h) dec_state \<Rightarrow> bool \<times> ('st, 'h) dec_state) \<Rightarrow> ('st, 'h) dec_step" where
  "callback_loop 0 cb s = None"
| "callback_loop (Suc n) cb s =
     (case cb s of
        (False, s) \<Rightarrow> Some (False, s)
      | (True, s) \<Rightarrow> if bytes_left (ds_in s) \<noteq> 0 then callback_loop n cb s else Some (True, s))"

definition decode_callback_field :: "('st, 'h) dec_env \<Rightarrow> ('st, 'h) dec_subs \<Rightarrow> u32 \<Rightarrow> pb_field_iter \<Rightarrow>
    ('st, 'h) dec_step" where
  "decode_callback_field E D wire_type it s =
     (let pCallback = it_pData it; decode = rd_ptr (ds_mem s) pCallback;
          cb = de_field_cb E decode (it_field (de_fields E) it) (pCallback + callback_arg_off)
      in
      if pCallback = 0 \<or> decode = 0 then on_stream (\<lambda>t. pb_skip_field t wire_type) s
      else if wire_type = PB_WT_STRING then
        with_read pb_make_string_substream
          (\<lambda>substream s.
             case callback_loop (sub_fuel D) cb (s\<lparr>ds_in := substream\<rparr>) of
               None \<Rightarrow> None
             | Some (False, s') \<Rightarrow> dec_error ''callback failed'' (s'\<lparr>ds_in := ds_in s\<rparr>)
             | Some (True, s') \<Rightarrow> close_substream (ds_in s) True s')
          s
      else
        with_read (\<lambda>t. read_raw_value t wire_type 10)
          (\<lambda>bs s.
             case cb (s\<lparr>ds_in := (ds_in s)\<lparr>i_callback := Buf_read, i_src := bs, bytes_left := length bs,
                                           i_errmsg := None\<rparr>\<rparr>) of
               (status, s') \<Rightarrow> Some (status, s'\<lparr>ds_in := ds_in s\<rparr>))
          s)"

definition decode_field :: "('st, 'h) dec_env \<Rightarrow> ('st, 'h) dec_subs \<Rightarrow> u32 \<Rightarrow> pb_field_iter \<Rightarrow>
    ('st, 'h) dec_state \<Rightarrow> (bool \<times> pb_field_iter \<times> ('st, 'h) dec_state) option" where
  "decode_field E D wire_type it s =
     (case (if PB_HTYPE (f_type (it_field (de_fields E) it)) = PB_HTYPE_ONEOF
            then pb_release_union_field E (sub_release_field D) it s else Some (True, it, s)) of
        None \<Rightarrow> None
      | Some (False, it, s) \<Rightarrow> Some (False, it, s)
      | Some (True, it, s) \<Rightarrow>
          let a = PB_ATYPE (f_type (it_field (de_fields E) it)) in
          map_option (\<lambda>(ok, s). (ok, it, s))
            (if a = PB_ATYPE_STATIC then decode_static_field E D wire_type it s
             else if a = PB_ATYPE_POINTER then decode_pointer_field E D wire_type it s
             else if a = PB_ATYPE_CALLBACK then decode_callback_field E D wire_type it s
             else dec_error ''invalid field type'' s))"

section \<open>Extensions\<close>

definition default_extension_decoder :: "('st, 'h) dec_env \<Rightarrow> ('st, 'h) dec_subs \<Rightarrow> nat \<Rightarrow> u32 \<Rightarrow> u32 \<Rightarrow>
    ('st, 'h) dec_step" where
  "default_extension_decoder E D extension tag wire_type s =
     (let arg = x_arg (de_ext E (rd_ptr (ds_mem s) (extension + ext_type_off))) in
      if f_tag (field_at (de_fields E arg) 0) \<noteq> tag then Some (True, s)
      else
        let it = iter_from_extension E extension (ds_mem s);
            s = upd_mem (wr_bool (extension + ext_found_off) True) s
        in map_option (\<lambda>(ok, _, s). (ok, s)) (decode_field E D wire_type it s))"

fun decode_extensions :: "nat \<Rightarrow> ('st, 'h) dec_env \<Rightarrow> ('st, 'h) dec_subs \<Rightarrow> nat \<Rightarrow> u32 \<Rightarrow> u32 \<Rightarrow> nat \<Rightarrow>
    ('st, 'h) dec_step" where
  "decode_extensions 0 E D pos tag wire_type extension s = None"
| "decode_extensions (Suc n) E D pos tag wire_type extension s =
     (if extension \<noteq> 0 \<and> pos = bytes_left (ds_in s) then
        let decode = x_decode (de_ext E (rd_ptr (ds_mem s) (extension + ext_type_off))) in
        and_then
          (if decode \<noteq> 0 then Some (de_ext_cb E decode extension tag wire_type s)
           else default_extension_decoder E D extension tag wire_type s)
          (\<lambda>s. decode_extensions n E D pos tag wire_type (rd_ptr (ds_mem s) (extension + ext_next_off)) s)
      else Some (True, s))"

definition decode_extension :: "('st, 'h) dec_env \<Rightarrow> ('st, 'h) dec_subs \<Rightarrow> u32 \<Rightarrow> u32 \<Rightarrow> pb_field_iter \<Rightarrow>
    ('st, 'h) dec_step" where
  "decode_extension E D tag wire_type it s =
     decode_extensions (sub_fuel D) E D (bytes_left (ds_in s)) tag wire_type
       (rd_ptr (ds_mem s) (it_pData it)) s"

definition find_extension_field :: "pb_tables \<Rightarrow> pb_field_iter \<Rightarrow> (bool \<times> pb_field_iter) option" where
  "find_extension_field d it =
     find_loop d (\<lambda>f. PB_LTYPE (f_type f) = PB_LTYPE_EXTENSION) (it_pos it) (Suc (length (d (it_start it)))) it"

section \<open>Messages\<close>

abbreviation (input) PB_MAX_REQUIRED_FIELDS :: nat where "PB_MAX_REQUIRED_FIELDS \<equiv> 64"

text \<open>
  The local variables of \<open>pb_decode_noinit\<close>; \<open>fixed_count_field\<close> is a position in the table of the
  message, and \<open>fixed_count_size\<close> lies in memory.
\<close>

record noinit_locals =
  nl_fields_seen :: "u32 list"
  nl_extension_range_start :: u32
  nl_iter :: pb_field_iter
  nl_fixed_count_field :: "nat option"

text \<open>How a round of the loop ends: \<open>continue\<close> or the end of its body, \<open>break\<close>, \<open>return false\<close>.\<close>

datatype loop_exit = Continue | Break | Return_false

type_synonym ('st, 'h) noinit_step =
  "noinit_locals \<Rightarrow> ('st, 'h) dec_state \<Rightarrow> (loop_exit \<times> noinit_locals \<times> ('st, 'h) dec_state) option"

definition finish_round :: "noinit_locals \<Rightarrow> ('st, 'h) dec_result \<Rightarrow>
    (loop_exit \<times> noinit_locals \<times> ('st, 'h) dec_state) option" where
  "finish_round l r = map_option (\<lambda>(ok, s). (if ok then Continue else Return_false, l, s)) r"

text \<open>A tag with no field: an extension, or skipped.\<close>

definition decode_unknown :: "('st, 'h) dec_env \<Rightarrow> ('st, 'h) dec_subs \<Rightarrow> u32 \<Rightarrow> u32 \<Rightarrow> ('st, 'h) noinit_step" where
  "decode_unknown E D tag wire_type l s =
     (let skip = (\<lambda>l s. finish_round l (on_stream (\<lambda>t. pb_skip_field t wire_type) s)) in
      if nl_extension_range_start l \<le> tag then
        (case find_extension_field (de_fields E) (nl_iter l) of
           None \<Rightarrow> None
         | Some (found, it) \<Rightarrow>
             let start = (if found then f_tag (it_field (de_fields E) it) else - 1);
                 l = l\<lparr>nl_iter := it, nl_extension_range_start := start\<rparr>
             in if start \<le> tag then
                  (case decode_extension E D tag wire_type it s of
                     None \<Rightarrow> None
                   | Some (False, s') \<Rightarrow> Some (Return_false, l, s')
                   | Some (True, s') \<Rightarrow>
                       if bytes_left (ds_in s) \<noteq> bytes_left (ds_in s') then Some (Continue, l, s')
                       else skip l s')
                else skip l s)
      else skip l s)"

text \<open>The old and the new field of fixed count, and the count so far.\<close>

definition fixed_count_wrong :: "pb_field list \<Rightarrow> nat option \<Rightarrow> u32 \<Rightarrow> bool" where
  "fixed_count_wrong fs fixed sz =
     (case fixed of None \<Rightarrow> False | Some k \<Rightarrow> sz \<noteq> f_array_size (field_at fs k))"

text \<open>A tag with a field, on which the iterator is.\<close>

definition decode_known :: "('st, 'h) dec_env \<Rightarrow> ('st, 'h) dec_subs \<Rightarrow> nat \<Rightarrow> u32 \<Rightarrow> ('st, 'h) noinit_step" where
  "decode_known E D local wire_type l s =
     (let d = de_fields E; it = nl_iter l; f = it_field d it;
          fixed = (PB_HTYPE (f_type f) = PB_HTYPE_REPEATED \<and> it_pSize it = it_pData it);
          fresh = (fixed \<and> nl_fixed_count_field l \<noteq> Some (it_pos it))
      in
      if fresh \<and> fixed_count_wrong (d (it_start it)) (nl_fixed_count_field l) (rd_u32 (ds_mem s) local) then
        finish_round l (dec_error ''wrong size for fixed count field'' s)
      else
        let s = (if fresh then upd_mem (wr_u32 local 0) s else s);
            it = (if fixed then it\<lparr>it_pSize := local\<rparr> else it);
            r = it_required_field_index it;
            seen = nl_fields_seen l;
            l = l\<lparr>nl_iter := it,
                  nl_fixed_count_field := (if fresh then Some (it_pos it) else nl_fixed_count_field l),
                  nl_fields_seen :=
                    (if PB_HTYPE (f_type f) = PB_HTYPE_REQUIRED \<and> r < PB_MAX_REQUIRED_FIELDS
                     then seen[drop_bit 5 r := seen ! drop_bit 5 r OR push_bit (r mod 32) 1] else seen)\<rparr>
        in (case decode_field E D wire_type it s of
              None \<Rightarrow> None
            | Some (ok, it, s) \<Rightarrow> Some (if ok then Continue else Return_false, l\<lparr>nl_iter := it\<rparr>, s)))"

definition noinit_round :: "('st, 'h) dec_env \<Rightarrow> ('st, 'h) dec_subs \<Rightarrow> nat \<Rightarrow> ('st, 'h) noinit_step" where
  "noinit_round E D local l s =
     (case pb_decode_tag (ds_in s) of
        (Tag_eof, t) \<Rightarrow> Some (Break, l, s\<lparr>ds_in := t\<rparr>)
      | (Tag_fail, t) \<Rightarrow> Some (Return_false, l, s\<lparr>ds_in := t\<rparr>)
      | (Tag wire_type tag, t) \<Rightarrow>
          let s = s\<lparr>ds_in := t\<rparr> in
          (case pb_field_iter_find (de_fields E) (nl_iter l) tag of
             None \<Rightarrow> None
           | Some (False, it) \<Rightarrow> decode_unknown E D tag wire_type (l\<lparr>nl_iter := it\<rparr>) s
           | Some (True, it) \<Rightarrow> decode_known E D local wire_type (l\<lparr>nl_iter := it\<rparr>) s))"

fun noinit_loop :: "nat \<Rightarrow> ('st, 'h) noinit_step \<Rightarrow> noinit_locals \<Rightarrow> ('st, 'h) dec_state \<Rightarrow>
    (bool \<times> noinit_locals \<times> ('st, 'h) dec_state) option" where
  "noinit_loop 0 step l s = None"
| "noinit_loop (Suc n) step l s =
     (if bytes_left (ds_in s) = 0 then Some (True, l, s)
      else
        (case step l s of
           None \<Rightarrow> None
         | Some (Return_false, l, s) \<Rightarrow> Some (False, l, s)
         | Some (Break, l, s) \<Rightarrow> Some (True, l, s)
         | Some (Continue, l, s) \<Rightarrow> noinit_loop n step l s))"

text \<open>The loop that seeks to the end of the field array: the values of the variables behind it.\<close>

function seek_end :: "pb_tables \<Rightarrow> pb_field_iter \<Rightarrow> nat \<times> u8 \<times> pb_field_iter" where
  "seek_end d it =
     (if fst (pb_field_iter_next d it) then seek_end d (snd (pb_field_iter_next d it))
      else (it_required_field_index it, f_type (it_field d it), snd (pb_field_iter_next d it)))"
  by pat_completeness auto
termination
  by (relation "measure (\<lambda>(d, it). length (d (it_start it)) - it_pos it)") (auto dest: next_pos)

declare seek_end.simps [simp del]

definition required_missing :: "pb_tables \<Rightarrow> pb_field_iter \<Rightarrow> u32 list \<Rightarrow> bool" where
  "required_missing d it seen =
     (case seek_end d it of
        (count, last_type, it) \<Rightarrow>
          let count = (if PB_HTYPE last_type = PB_HTYPE_REQUIRED \<and> f_tag (it_field d it) \<noteq> 0
                       then count + 1 else count);
              count = (if PB_MAX_REQUIRED_FIELDS < count then PB_MAX_REQUIRED_FIELDS else count)
          in (\<exists>i\<in>set [0..<drop_bit 5 count]. seen ! i \<noteq> - 1) \<or>
             (count mod 32 \<noteq> 0 \<and> seen ! drop_bit 5 count \<noteq> drop_bit (32 - count mod 32) (- 1)))"

text \<open>\<open>pb_decode\<close>, open in \<open>pb_decode_noinit\<close>.\<close>

definition decode_init :: "nat \<Rightarrow> ('st, 'h) dec_env \<Rightarrow> ('st, 'h) sub_decoder \<Rightarrow> ('st, 'h) sub_decoder" where
  "decode_init n E noinit fds dest s =
     (case pb_message_set_to_defaults n E fds dest (ds_mem s) of
        None \<Rightarrow> None
      | Some m \<Rightarrow>
          (case noinit fds dest (s\<lparr>ds_mem := m\<rparr>) of
             None \<Rightarrow> None
           | Some (True, s) \<Rightarrow> Some (True, s)
           | Some (False, s) \<Rightarrow> map_option (\<lambda>s. (False, s)) (pb_release n E fds dest s)))"

text \<open>The functions of submessages with fuel \<open>n\<close>.\<close>

definition subs_of :: "nat \<Rightarrow> ('st, 'h) dec_env \<Rightarrow> ('st, 'h) sub_decoder \<Rightarrow> ('st, 'h) dec_subs" where
  "subs_of n E noinit =
     \<lparr>sub_fuel = n, sub_noinit = noinit, sub_decode = decode_init n E noinit,
      sub_default = pb_message_set_to_defaults n E,
      sub_release_field = pb_release_single_field E (pb_release n E) (release_extensions n E (pb_release n E))\<rparr>"

fun pb_decode_noinit :: "nat \<Rightarrow> ('st, 'h) dec_env \<Rightarrow> ('st, 'h) sub_decoder" where
  "pb_decode_noinit 0 E fds dest s = None"
| "pb_decode_noinit (Suc n) E fds dest s =
     (let d = de_fields E; local = de_local E n;
          l = \<lparr>nl_fields_seen = [0, 0], nl_extension_range_start = 0,
               nl_iter = snd (pb_field_iter_begin d fds dest), nl_fixed_count_field = None\<rparr>
      in
      case noinit_loop n (noinit_round E (subs_of n E (pb_decode_noinit n E)) local) l
             (upd_mem (wr_u32 local 0) s) of
        None \<Rightarrow> None
      | Some (False, l, s) \<Rightarrow> Some (False, s)
      | Some (True, l, s) \<Rightarrow>
          if fixed_count_wrong (d fds) (nl_fixed_count_field l) (rd_u32 (ds_mem s) local) then
            dec_error ''wrong size for fixed count field'' s
          else if required_missing d (nl_iter l) (nl_fields_seen l) then
            dec_error ''missing required field'' s
          else Some (True, s))"

definition pb_decode :: "nat \<Rightarrow> ('st, 'h) dec_env \<Rightarrow> ('st, 'h) sub_decoder" where
  "pb_decode n E = decode_init n E (pb_decode_noinit n E)"

definition in_delimited :: "('st, 'h) sub_decoder \<Rightarrow> ('st, 'h) sub_decoder" where
  "in_delimited dec fds dest =
     with_read pb_make_string_substream
       (\<lambda>substream s.
          case dec fds dest (s\<lparr>ds_in := substream\<rparr>) of
            None \<Rightarrow> None
          | Some (status, s') \<Rightarrow> close_substream (ds_in s) status s')"

definition pb_decode_delimited_noinit :: "nat \<Rightarrow> ('st, 'h) dec_env \<Rightarrow> ('st, 'h) sub_decoder" where
  "pb_decode_delimited_noinit n E = in_delimited (pb_decode_noinit n E)"

definition pb_decode_delimited :: "nat \<Rightarrow> ('st, 'h) dec_env \<Rightarrow> ('st, 'h) sub_decoder" where
  "pb_decode_delimited n E = in_delimited (pb_decode n E)"

definition pb_decode_nullterminated :: "nat \<Rightarrow> ('st, 'h) dec_env \<Rightarrow> ('st, 'h) sub_decoder" where
  "pb_decode_nullterminated n E = pb_decode n E"

end
