(* ===== verification/Pb_Encode_Spec.thy ===== *)
theory Pb_Encode_Spec
  imports Pb_Encode
begin

text \<open>
  What the message encoder writes, without streams: every function of \<open>Pb_Encode\<close> has a counterpart
  that gives the bytes as a list, and \<open>writes\<close> relates the two. The two passes over submessages and
  packed arrays, the first of which only counts, are gone here. The bytes user callbacks write are the
  assumption of the locale \<open>message_callbacks\<close>.
\<close>

section \<open>Writers\<close>

text \<open>
  The outcome of an encoding: it fails, or it gives bytes. \<open>None\<close> stands for an encoding that does not
  return; so that no size can wrap round, also for one with a string or a submessage of 2^62 bytes or
  more, which no memory holds.
\<close>

type_synonym outcome = "bytes option option"

abbreviation gives :: "bytes \<Rightarrow> outcome" where "gives bs \<equiv> Some (Some bs)"
abbreviation fails :: outcome where "fails \<equiv> Some None"

fun out_append :: "outcome \<Rightarrow> outcome \<Rightarrow> outcome" where
  "out_append None r = None"
| "out_append (Some None) r = fails"
| "out_append (Some (Some a)) None = None"
| "out_append (Some (Some a)) (Some None) = fails"
| "out_append (Some (Some a)) (Some (Some b)) = gives (a @ b)"

definition out_concat :: "outcome list \<Rightarrow> outcome" where
  "out_concat rs = foldr out_append rs (gives [])"

lemma out_concat_simps [simp]:
  "out_concat [] = gives []" "out_concat (r # rs) = out_append r (out_concat rs)"
  by (simp_all add: out_concat_def)

text \<open>The streams the library makes itself: it counts, or it writes to a buffer.\<close>

definition lib_stream :: "'st pb_ostream \<Rightarrow> bool" where
  "lib_stream s \<longleftrightarrow> (o_callback s = Sizing \<or> o_callback s = Buf_write \<and> max_size s < 2 ^ 63 \<and>
     bytes_written s \<le> max_size s) \<and> bytes_written s < 2 ^ 64 \<and> o_errmsg s = None"

definition room :: "'st pb_ostream \<Rightarrow> nat \<Rightarrow> bool" where
  "room s n \<longleftrightarrow> o_callback s = Sizing \<or> bytes_written s + n \<le> max_size s"

definition put :: "'st pb_ostream \<Rightarrow> bytes \<Rightarrow> 'st pb_ostream" where
  "put s bs = (if o_callback s = Sizing then s\<lparr>bytes_written := add_size (bytes_written s) (length bs)\<rparr>
     else emit s bs)"

definition writes :: "('st pb_ostream \<Rightarrow> 'st enc_result) \<Rightarrow> outcome \<Rightarrow> bool" where
  "writes g r \<longleftrightarrow>
     (case r of
        None \<Rightarrow> True
      | Some None \<Rightarrow> (\<forall>s. lib_stream s \<longrightarrow> (\<exists>t. g s = Some (False, t)))
      | Some (Some bs) \<Rightarrow>
          (\<forall>s. lib_stream s \<longrightarrow>
             (if room s (length bs) then g s = Some (True, put s bs) else \<exists>t. g s = Some (False, t))))"

lemma writes_gives:
  "writes g (gives bs) \<longleftrightarrow>
     (\<forall>s. lib_stream s \<longrightarrow>
        (room s (length bs) \<longrightarrow> g s = Some (True, put s bs)) \<and>
        (\<not> room s (length bs) \<longrightarrow> (\<exists>t. g s = Some (False, t))))"
  by (auto simp: writes_def)

lemma writes_fails: "writes g fails \<longleftrightarrow> (\<forall>s. lib_stream s \<longrightarrow> (\<exists>t. g s = Some (False, t)))"
  by (simp add: writes_def)

lemma writes_None [simp]: "writes g None"
  by (simp add: writes_def)

lemma put_Nil [simp]: "lib_stream s \<Longrightarrow> put s [] = s"
  by (auto simp: put_def lib_stream_def)

lemma put_put: "lib_stream s \<Longrightarrow> put (put s a) b = put s (a @ b)"
  by (auto simp: put_def lib_stream_def add_size_assoc)

lemma put_sel [simp]:
  "o_callback (put s bs) = o_callback s" "max_size (put s bs) = max_size s"
  "o_user (put s bs) = o_user s" "o_errmsg (put s bs) = o_errmsg s"
  by (auto simp: put_def)

lemma lib_stream_put: "lib_stream s \<Longrightarrow> room s (length bs) \<Longrightarrow> lib_stream (put s bs)"
  by (auto simp: lib_stream_def room_def put_def add_size_bound [simplified] split: if_splits)

lemma room_append:
  "lib_stream s \<Longrightarrow> room s (length (a @ b)) \<longleftrightarrow> room s (length a) \<and> room (put s a) (length b)"
  by (auto simp: room_def put_def split: if_splits)

lemma writes_return: "writes (\<lambda>s. Some (True, s)) (gives [])"
  by (auto simp: writes_gives room_def lib_stream_def)

lemma writes_error: "writes (\<lambda>s. Some (out_error s msg)) fails"
  by (simp add: writes_fails out_error_def)

lemma writes_and_then:
  assumes "writes g r1" and "writes h r2"
  shows "writes (\<lambda>s. and_then (g s) h) (out_append r1 r2)"
proof (cases r1)
  case (Some o1)
  show ?thesis
  proof (cases o1)
    case None
    with Some assms(1) show ?thesis by (fastforce simp: writes_fails and_then_def)
  next
    case a: (Some a)
    note g = assms(1) [unfolded Some a writes_gives, rule_format]
    show ?thesis
    proof (cases r2)
      case o2: (Some o2)
      show ?thesis
      proof (cases o2)
        case None
        have "\<exists>t. and_then (g s) h = Some (False, t)" if s: "lib_stream s" for s
        proof (cases "room s (length a)")
          case True
          with g [OF s] assms(2) lib_stream_put [OF s True] None o2 show ?thesis
            by (auto simp: and_then_def writes_fails)
        next
          case False
          with g [OF s] show ?thesis by (auto simp: and_then_def)
        qed
        with Some a o2 None show ?thesis by (simp add: writes_fails)
      next
        case b: (Some b)
        note h = assms(2) [unfolded o2 b writes_gives, rule_format]
        have "(room s (length (a @ b)) \<longrightarrow> and_then (g s) h = Some (True, put s (a @ b))) \<and>
            (\<not> room s (length (a @ b)) \<longrightarrow> (\<exists>t. and_then (g s) h = Some (False, t)))"
          if s: "lib_stream s" for s
        proof (cases "room s (length a)")
          case True
          with g [OF s] have gs: "g s = Some (True, put s a)" by simp
          from h [OF lib_stream_put [OF s True]] show ?thesis
            unfolding room_append [OF s] using gs True put_put [OF s] by (auto simp: and_then_def)
        next
          case False
          with g [OF s] show ?thesis unfolding room_append [OF s] by (auto simp: and_then_def)
        qed
        with Some a o2 b show ?thesis by (simp add: writes_gives)
      qed
    qed (simp add: Some a)
  qed
qed simp

lemma writes_if: "(c \<Longrightarrow> writes g r1) \<Longrightarrow> (\<not> c \<Longrightarrow> writes h r2) \<Longrightarrow>
    writes (\<lambda>s. if c then g s else h s) (if c then r1 else r2)"
  by simp

section \<open>Values\<close>

lemma writes_pb_write: "length bs < 2 ^ 63 \<Longrightarrow> writes (\<lambda>s. Some (pb_write s bs (length bs))) (gives bs)"
  unfolding writes_gives
proof (intro allI impI)
  fix s :: "'a pb_ostream"
  assume l: "length bs < 2 ^ 63" and s: "lib_stream s"
  then consider "o_callback s = Sizing" | "o_callback s = Buf_write" "max_size s < 2 ^ 63" "bytes_written s \<le> max_size s"
    by (auto simp: lib_stream_def)
  then show "(room s (length bs) \<longrightarrow> Some (pb_write s bs (length bs)) = Some (True, put s bs)) \<and>
      (\<not> room s (length bs) \<longrightarrow> (\<exists>t. Some (pb_write s bs (length bs)) = Some (False, t)))"
  proof cases
    case 1
    then show ?thesis by (simp add: room_def put_def pb_write_sizing)
  next
    case 2
    then have sum: "bytes_written s + length bs < 2 ^ 64" using l by simp
    show ?thesis
    proof (cases "bytes_written s + length bs \<le> max_size s")
      case True
      with 2 have "fits s (length bs)" by (simp add: fits_def)
      with True 2 show ?thesis by (simp add: room_def put_def pb_write_fits)
    next
      case False
      with 2 sum show ?thesis by (simp add: room_def pb_write_full out_error_def)
    qed
  qed
qed

lemma writes_varint: "writes (\<lambda>s. Some (pb_encode_varint s v)) (gives (varint v))"
  using writes_pb_write [of "varint v"] varint_length(1) [of v] by (simp add: pb_encode_varint_eq)

lemma writes_string:
  assumes "length bs < 2 ^ 62"
  shows "writes (\<lambda>s :: 'st pb_ostream. Some (pb_encode_string s bs (length bs))) (gives (string_bytes bs))"
proof -
  have "writes (\<lambda>s :: 'st pb_ostream. and_then (Some (pb_encode_varint s (of_nat (length bs))))
      (\<lambda>s. Some (pb_write s bs (length bs)))) (out_append (gives (varint (of_nat (length bs)))) (gives bs))"
    using assms by (intro writes_and_then writes_varint writes_pb_write) simp
  moreover have "and_then (Some (pb_encode_varint s (of_nat (length bs)))) (\<lambda>s. Some (pb_write s bs (length bs))) =
      Some (pb_encode_string s bs (length bs))" for s :: "'st pb_ostream"
    by (simp add: and_then_def pb_encode_string_def split: prod.split bool.split)
  ultimately show ?thesis by (simp add: string_bytes_def)
qed

text \<open>A length-delimited value, if it is not too long.\<close>

definition sized :: "outcome \<Rightarrow> outcome" where
  "sized r =
     (case r of
        None \<Rightarrow> None
      | Some None \<Rightarrow> fails
      | Some (Some bs) \<Rightarrow> if length bs < 2 ^ 62 then gives (string_bytes bs) else None)"

definition wire_of_ltype :: "u8 \<Rightarrow> u32 option" where
  "wire_of_ltype l =
     (if l = PB_LTYPE_VARINT \<or> l = PB_LTYPE_UVARINT \<or> l = PB_LTYPE_SVARINT then Some PB_WT_VARINT
      else if l = PB_LTYPE_FIXED32 then Some PB_WT_32BIT
      else if l = PB_LTYPE_FIXED64 then Some PB_WT_64BIT
      else if l = PB_LTYPE_BYTES \<or> l = PB_LTYPE_STRING \<or> l = PB_LTYPE_SUBMESSAGE \<or>
              l = PB_LTYPE_FIXED_LENGTH_BYTES then Some PB_WT_STRING
      else None)"

definition tag_out :: "pb_field \<Rightarrow> outcome" where
  "tag_out f =
     (case wire_of_ltype (PB_LTYPE (f_type f)) of
        None \<Rightarrow> fails
      | Some w \<Rightarrow> gives (varint (tag_word w (f_tag f))))"

definition value_out :: "memory \<Rightarrow> (nat \<Rightarrow> nat \<Rightarrow> outcome) \<Rightarrow> pb_field \<Rightarrow> nat \<Rightarrow> outcome" where
  "value_out m sub f src =
     (let l = PB_LTYPE (f_type f); sz = f_data_size f in
      if l = PB_LTYPE_VARINT then Some (map_option varint (signed_value m sz src))
      else if l = PB_LTYPE_UVARINT then Some (map_option varint (unsigned_value m sz src))
      else if l = PB_LTYPE_SVARINT then
        Some (map_option (\<lambda>v. varint (zigzag v)) (signed_value m sz src))
      else if l = PB_LTYPE_FIXED32 then gives (fixed32_bytes (rd_u32 m src))
      else if l = PB_LTYPE_FIXED64 then gives (fixed64_bytes (rd_u64 m src))
      else if l = PB_LTYPE_BYTES then
        (if src = 0 then gives (string_bytes [])
         else if PB_ATYPE (f_type f) = PB_ATYPE_STATIC \<and> unat sz < unat (rd_u32 m src) + 4 then fails
         else gives (string_bytes (rd_bytes m (src + 4) (unat (rd_u32 m src)))))
      else if l = PB_LTYPE_STRING then
        sized (gives (if src = 0 then [] else
          rd_bytes m src (c_strnlen m src
            (if PB_ATYPE (f_type f) = PB_ATYPE_POINTER then SIZE_MAX else unat sz))))
      else if l = PB_LTYPE_SUBMESSAGE then (if f_ptr f = 0 then fails else sized (sub (f_ptr f) src))
      else if l = PB_LTYPE_FIXED_LENGTH_BYTES then gives (string_bytes (rd_bytes m src (unat sz)))
      else None)"

lemma writes_tag_for_field: "writes (\<lambda>s :: 'st pb_ostream. Some (pb_encode_tag_for_field s f)) (tag_out f)"
proof -
  have "writes (\<lambda>s :: 'st pb_ostream. Some (pb_encode_tag s w (f_tag f))) (gives (varint (tag_word w (f_tag f))))" for w
    using writes_varint [of "tag_word w (f_tag f)"] by (simp add: pb_encode_tag_def tag_word_def)
  then show ?thesis
    by (simp add: pb_encode_tag_for_field_def tag_out_def wire_of_ltype_def Let_def writes_error
        del: One_nat_def)
qed

text \<open>What a writer does on a counting stream.\<close>

lemma writes_sizing:
  assumes "writes g r"
  shows "case r of None \<Rightarrow> True
    | Some None \<Rightarrow> \<exists>t. g (pb_ostream_sizing st) = Some (False, t)
    | Some (Some bs) \<Rightarrow> \<exists>t. g (pb_ostream_sizing st) = Some (True, t) \<and> bytes_written t = length bs mod 2 ^ 64"
proof -
  let ?s = "pb_ostream_sizing st"
  have s: "lib_stream ?s" "room ?s n" for n
    by (simp_all add: lib_stream_def room_def pb_ostream_sizing_def)
  have "bytes_written (put ?s bs) = length bs mod 2 ^ 64" for bs
    by (simp add: put_def pb_ostream_sizing_def add_size_def)
  with assms s show ?thesis by (auto simp: writes_def split: option.splits)
qed

lemma of_nat_mod_u64: "(of_nat (n mod 2 ^ 64) :: u64) = of_nat n"
  by (simp add: word_unat_eq_iff unat_of_nat)

lemma writes_submessage:
  assumes "writes (\<lambda>s :: 'st pb_ostream. sub s fds src) r"
  shows "writes (\<lambda>s. pb_encode_submessage sub s fds src) (sized r)"
proof (cases r)
  case (Some o1)
  show ?thesis
  proof (cases o1)
    case None
    have "\<exists>t. pb_encode_submessage sub s fds src = Some (False, t)" for s :: "'st pb_ostream"
      using writes_sizing [OF assms, of "o_user s"] Some None by (auto simp: pb_encode_submessage_def)
    with Some None show ?thesis by (simp add: sized_def writes_fails)
  next
    case bs: (Some bs)
    show ?thesis
    proof (cases "length bs < 2 ^ 62")
      case True
      define bodyn where "bodyn sz = (\<lambda>s :: 'st pb_ostream. if o_callback s = Sizing then Some (pb_write s [] sz)
           else if max_size s < add_size (bytes_written s) sz then Some (out_error s ''stream full'')
           else
             (case sub (s\<lparr>max_size := sz, bytes_written := 0, o_errmsg := None\<rparr>) fds src of
                None \<Rightarrow> None
              | Some (status, substream) \<Rightarrow>
                  let s = s\<lparr>bytes_written := add_size (bytes_written s) (bytes_written substream),
                            o_buf := o_buf substream, o_user := o_user substream,
                            o_errmsg := o_errmsg substream\<rparr>
                  in if bytes_written substream \<noteq> sz then Some (out_error s ''submsg size changed'')
                     else Some (status, s)))" for sz
      define body where "body = bodyn (length bs)"
      have body_def: "body = (\<lambda>s :: 'st pb_ostream. if o_callback s = Sizing then Some (pb_write s [] (length bs))
           else if max_size s < add_size (bytes_written s) (length bs) then Some (out_error s ''stream full'')
           else
             (case sub (s\<lparr>max_size := length bs, bytes_written := 0, o_errmsg := None\<rparr>) fds src of
                None \<Rightarrow> None
              | Some (status, substream) \<Rightarrow>
                  let s = s\<lparr>bytes_written := add_size (bytes_written s) (bytes_written substream),
                            o_buf := o_buf substream, o_user := o_user substream,
                            o_errmsg := o_errmsg substream\<rparr>
                  in if bytes_written substream \<noteq> length bs then Some (out_error s ''submsg size changed'')
                     else Some (status, s)))"
        unfolding body_def bodyn_def ..
      have m: "length bs mod 2 ^ 64 = length bs" using True by simp
      have unf: "pb_encode_submessage sub s fds src =
         (case sub (pb_ostream_sizing (o_user s)) fds src of
            None \<Rightarrow> None
          | Some (False, sizing) \<Rightarrow> Some (False, s\<lparr>o_errmsg := o_errmsg sizing\<rparr>)
          | Some (True, sizing) \<Rightarrow>
              and_then (Some (pb_encode_varint s (of_nat (bytes_written sizing)))) (bodyn (bytes_written sizing)))"
        for s :: "'st pb_ostream"
        unfolding pb_encode_submessage_def bodyn_def Let_def ..
      have split: "pb_encode_submessage sub s fds src =
          and_then (Some (pb_encode_varint s (of_nat (length bs)))) body" for s :: "'st pb_ostream"
        using writes_sizing [OF assms, of "o_user s"] Some bs m
        by (auto simp: unf \<open>body = bodyn (length bs)\<close>)
      have "writes body (gives bs)"
        unfolding writes_gives
      proof (intro allI impI)
        fix s :: "'st pb_ostream"
        assume s: "lib_stream s"
        then consider "o_callback s = Sizing"
          | "o_callback s = Buf_write" "max_size s < 2 ^ 63" "bytes_written s \<le> max_size s" "o_errmsg s = None"
          by (auto simp: lib_stream_def)
        then show "(room s (length bs) \<longrightarrow> body s = Some (True, put s bs)) \<and>
            (\<not> room s (length bs) \<longrightarrow> (\<exists>t. body s = Some (False, t)))"
        proof cases
          case 1
          then show ?thesis by (simp add: body_def room_def put_def pb_write_sizing)
        next
          case 2
          have add: "add_size (bytes_written s) (length bs) = bytes_written s + length bs"
            using 2 True by simp
          show ?thesis
          proof (cases "room s (length bs)")
            case r: True
            let ?t = "s\<lparr>max_size := length bs, bytes_written := 0, o_errmsg := None\<rparr>"
            have "lib_stream ?t" "room ?t (length bs)"
              using 2 True by (simp_all add: lib_stream_def room_def)
            with assms Some bs have "sub ?t fds src = Some (True, put ?t bs)" by (simp add: writes_gives)
            with r 2 add show ?thesis by (simp add: body_def room_def put_def Let_def emit_def)
          next
            case False
            with 2 add show ?thesis by (simp add: body_def room_def out_error_def)
          qed
        qed
      qed
      then have "writes (\<lambda>s :: 'st pb_ostream. and_then (Some (pb_encode_varint s (of_nat (length bs)))) body)
          (out_append (gives (varint (of_nat (length bs)))) (gives bs))"
        by (intro writes_and_then writes_varint)
      with Some bs True show ?thesis unfolding split by (simp add: sized_def string_bytes_def)
    qed (simp add: Some bs sized_def)
  qed
qed (simp add: sized_def)

lemma sized_simps [simp]: "length bs < 2 ^ 62 \<Longrightarrow> sized (gives bs) = gives (string_bytes bs)"
  by (simp add: sized_def)

lemma unat_u32_small: "unat (w :: u32) < 2 ^ 62"
proof -
  have "unat w < 2 ^ 32" using unsigned_less [of w, where 'a = nat] by simp
  then show ?thesis by simp
qed

lemma writes_fixed32: "writes (\<lambda>s :: 'st pb_ostream. Some (pb_encode_fixed32 s w)) (gives (fixed32_bytes w))"
proof -
  have "length (fixed32_bytes w) = 4" by (simp add: fixed32_bytes_def)
  with writes_pb_write [of "fixed32_bytes w"] show ?thesis by (simp add: pb_encode_fixed32_def)
qed

lemma writes_fixed64: "writes (\<lambda>s :: 'st pb_ostream. Some (pb_encode_fixed64 s w)) (gives (fixed64_bytes w))"
proof -
  have "length (fixed64_bytes w) = 8" by (simp add: fixed64_bytes_def)
  with writes_pb_write [of "fixed64_bytes w"] show ?thesis by (simp add: pb_encode_fixed64_def)
qed

lemma writes_mem_string:
  "n < 2 ^ 62 \<Longrightarrow>
   writes (\<lambda>s :: 'st pb_ostream. Some (pb_encode_string s (rd_bytes m p n) n)) (gives (string_bytes (rd_bytes m p n)))"
  using writes_string [of "rd_bytes m p n"] by simp

lemma writes_empty_string:
  "writes (\<lambda>s :: 'st pb_ostream. Some (pb_encode_string s [] 0)) (gives (string_bytes []))"
  using writes_string [of "[]"] by simp

lemma writes_enc_bytes:
  "writes (\<lambda>s :: 'st pb_ostream. Some (pb_enc_bytes m s f src))
     (if src = 0 then gives (string_bytes [])
      else if PB_ATYPE (f_type f) = PB_ATYPE_STATIC \<and> unat (f_data_size f) < unat (rd_u32 m src) + 4 then fails
      else gives (string_bytes (rd_bytes m (src + 4) (unat (rd_u32 m src)))))"
  unfolding pb_enc_bytes_def Let_def if_distrib [where f = Some]
  by (intro writes_if writes_error writes_empty_string writes_mem_string unat_u32_small)

lemma writes_enc_string:
  "writes (\<lambda>s :: 'st pb_ostream. Some (pb_enc_string m s f src))
     (sized (gives (if src = 0 then [] else
        rd_bytes m src (c_strnlen m src
          (if PB_ATYPE (f_type f) = PB_ATYPE_POINTER then SIZE_MAX else unat (f_data_size f))))))"
proof (cases "src = 0")
  case True
  then show ?thesis using writes_empty_string by (simp add: pb_enc_string_def)
next
  case False
  define n where "n = c_strnlen m src
      (if PB_ATYPE (f_type f) = PB_ATYPE_POINTER then SIZE_MAX else unat (f_data_size f))"
  have "writes (\<lambda>s :: 'st pb_ostream. Some (pb_encode_string s (rd_bytes m src n) n)) (sized (gives (rd_bytes m src n)))"
    using writes_mem_string [of n] by (cases "n < 2 ^ 62") (simp_all add: sized_def)
  with False show ?thesis unfolding pb_enc_string_def Let_def n_def by simp
qed

lemma writes_enc_varints:
  "writes (\<lambda>s :: 'st pb_ostream. Some (pb_enc_varint m s f src))
     (Some (map_option varint (signed_value m (f_data_size f) src)))"
  "writes (\<lambda>s :: 'st pb_ostream. Some (pb_enc_uvarint m s f src))
     (Some (map_option varint (unsigned_value m (f_data_size f) src)))"
  "writes (\<lambda>s :: 'st pb_ostream. Some (pb_enc_svarint m s f src))
     (Some (map_option (\<lambda>v. varint (zigzag v)) (signed_value m (f_data_size f) src)))"
proof -
  have v: "writes (\<lambda>s :: 'st pb_ostream. Some (case x of None \<Rightarrow> out_error s e | Some v \<Rightarrow> pb_encode_varint s (g v)))
      (Some (map_option (\<lambda>v. varint (g v)) x))" for x e and g :: "u64 \<Rightarrow> u64"
    by (cases x) (simp_all add: writes_error writes_varint)
  note w = v [where g = "\<lambda>v. v"]
  show "writes (\<lambda>s :: 'st pb_ostream. Some (pb_enc_varint m s f src))
     (Some (map_option varint (signed_value m (f_data_size f) src)))"
    unfolding pb_enc_varint_def by (rule w)
  show "writes (\<lambda>s :: 'st pb_ostream. Some (pb_enc_uvarint m s f src))
     (Some (map_option varint (unsigned_value m (f_data_size f) src)))"
    unfolding pb_enc_uvarint_def by (rule w)
  show "writes (\<lambda>s :: 'st pb_ostream. Some (pb_enc_svarint m s f src))
     (Some (map_option (\<lambda>v. varint (zigzag v)) (signed_value m (f_data_size f) src)))"
    unfolding pb_enc_svarint_def pb_encode_svarint_def by (rule v)
qed

lemma writes_enc_submessage:
  assumes "writes (\<lambda>s :: 'st pb_ostream. sub s (f_ptr f) src) (subo (f_ptr f) src)"
  shows "writes (\<lambda>s. pb_enc_submessage sub s f src) (if f_ptr f = 0 then fails else sized (subo (f_ptr f) src))"
  unfolding pb_enc_submessage_def by (intro writes_if writes_error writes_submessage assms)

lemma writes_value:
  assumes "writes (\<lambda>s :: 'st pb_ostream. sub s (f_ptr f) src) (subo (f_ptr f) src)"
  shows "writes (\<lambda>s. pb_encoder m sub s f src) (value_out m subo f src)"
  unfolding pb_encoder_def value_out_def Let_def pb_enc_fixed32_def pb_enc_fixed64_def
    pb_enc_fixed_length_bytes_def
  by (intro writes_if writes_None writes_enc_submessage [where subo = subo and sub = sub and f = f and src = src, OF assms] writes_enc_varints
      writes_enc_bytes writes_enc_string
      writes_fixed32 writes_fixed64 writes_mem_string unat_u32_small)


section \<open>Fields\<close>

definition array_out :: "memory \<Rightarrow> (nat \<Rightarrow> nat \<Rightarrow> outcome) \<Rightarrow> pb_field \<Rightarrow> nat \<Rightarrow> nat \<Rightarrow> outcome" where
  "array_out m sub f pData count =
     (let item = (\<lambda>i. pData + i * unat (f_data_size f)) in
      if count = 0 then gives []
      else if PB_ATYPE (f_type f) \<noteq> PB_ATYPE_POINTER \<and> unat (f_array_size f) < count then fails
      else if PB_LTYPE (f_type f) \<le> PB_LTYPE_LAST_PACKABLE then
        out_append (gives (varint (tag_word PB_WT_STRING (f_tag f))))
          (sized (out_concat (map (\<lambda>i. value_out m sub f (item i)) [0..<count])))
      else
        out_concat (map (\<lambda>i. out_append (tag_out f)
          (value_out m sub f
             (if PB_ATYPE (f_type f) = PB_ATYPE_POINTER \<and>
                 (PB_LTYPE (f_type f) = PB_LTYPE_STRING \<or> PB_LTYPE (f_type f) = PB_LTYPE_BYTES)
              then rd_ptr m (item i) else item i))) [0..<count]))"

definition basic_field_out :: "memory \<Rightarrow> (nat \<Rightarrow> nat \<Rightarrow> outcome) \<Rightarrow> (nat \<Rightarrow> nat \<Rightarrow> bool option) \<Rightarrow>
    pb_field \<Rightarrow> nat \<Rightarrow> outcome" where
  "basic_field_out m sub deflt f pData0 =
     (let pSize = ptr_plus pData0 (f_size_offset f);
          ptr = (PB_ATYPE (f_type f) = PB_ATYPE_POINTER);
          pData = (if ptr then rd_ptr m pData0 else pData0);
          value = out_append (tag_out f) (value_out m sub f pData)
      in
      case (if f_size_offset f = 0 \<and> PB_HTYPE (f_type f) = PB_HTYPE_OPTIONAL then
              map_option Not (pb_check_proto3_default_value m deflt f pData0)
            else Some True) of
        None \<Rightarrow> None
      | Some has0 \<Rightarrow>
          if PB_HTYPE (f_type f) = PB_HTYPE_REQUIRED then (if pData = 0 then fails else value)
          else if PB_HTYPE (f_type f) = PB_HTYPE_OPTIONAL then
            (if (if f_size_offset f \<noteq> 0 then rd_bool m pSize else if ptr then pData \<noteq> 0 else has0)
             then value else gives [])
          else if PB_HTYPE (f_type f) = PB_HTYPE_REPEATED then
            array_out m sub f pData
              (if f_size_offset f \<noteq> 0 then unat (rd_u32 m pSize) else unat (f_array_size f))
          else if f_size_offset f = 0 then None
          else if rd_u32 m pSize = f_tag f then value else gives [])"

definition field_out :: "'st enc_env \<Rightarrow> (nat \<Rightarrow> pb_field \<Rightarrow> nat \<Rightarrow> outcome) \<Rightarrow> (nat \<Rightarrow> nat \<Rightarrow> outcome) \<Rightarrow>
    (nat \<Rightarrow> nat \<Rightarrow> bool option) \<Rightarrow> pb_field \<Rightarrow> nat \<Rightarrow> outcome" where
  "field_out E cb sub deflt f pData =
     (if PB_ATYPE (f_type f) = PB_ATYPE_STATIC \<or> PB_ATYPE (f_type f) = PB_ATYPE_POINTER then
        basic_field_out (en_mem E) sub deflt f pData
      else if PB_ATYPE (f_type f) = PB_ATYPE_CALLBACK then
        (if rd_ptr (en_mem E) pData = 0 then gives []
         else cb (rd_ptr (en_mem E) pData) f (pData + callback_arg_off))
      else fails)"

fun extensions_out :: "nat \<Rightarrow> 'st enc_env \<Rightarrow> (nat \<Rightarrow> pb_field \<Rightarrow> nat \<Rightarrow> outcome) \<Rightarrow> (nat \<Rightarrow> nat \<Rightarrow> outcome) \<Rightarrow>
    (nat \<Rightarrow> nat \<Rightarrow> outcome) \<Rightarrow> (nat \<Rightarrow> nat \<Rightarrow> bool option) \<Rightarrow> nat \<Rightarrow> outcome" where
  "extensions_out 0 E cb xcb sub deflt extension = None"
| "extensions_out (Suc n) E cb xcb sub deflt extension =
     (if extension = 0 then gives []
      else
        let type = en_ext E (rd_ptr (en_mem E) (extension + ext_type_off));
            f = field_at (en_fields E (x_arg type)) 0 in
        out_append
          (if x_encode type \<noteq> 0 then xcb (x_encode type) extension
           else field_out E cb sub deflt f
             (if PB_ATYPE (f_type f) = PB_ATYPE_POINTER then extension + ext_dest_off
              else rd_ptr (en_mem E) (extension + ext_dest_off)))
          (extensions_out n E cb xcb sub deflt (rd_ptr (en_mem E) (extension + ext_next_off))))"

text \<open>The encoding of a message: the encodings of its fields, one after the other.\<close>

fun message_out :: "nat \<Rightarrow> 'st enc_env \<Rightarrow> (nat \<Rightarrow> pb_field \<Rightarrow> nat \<Rightarrow> outcome) \<Rightarrow> (nat \<Rightarrow> nat \<Rightarrow> outcome) \<Rightarrow>
    nat \<Rightarrow> nat \<Rightarrow> outcome" where
  "message_out 0 E cb xcb fds src = None"
| "message_out (Suc n) E cb xcb fds src =
     out_concat
       (map (\<lambda>k. let f = field_at (en_fields E fds) k; pData = src + field_offset (en_fields E fds) k;
                     sub = message_out n E cb xcb;
                     deflt = pb_check_message n (en_mem E) (en_fields E)
                 in if PB_LTYPE (f_type f) = PB_LTYPE_EXTENSION then
                      extensions_out n E cb xcb sub deflt (rd_ptr (en_mem E) pData)
                    else field_out E cb sub deflt f pData)
          [0..<nfields (en_fields E fds)])"

subsection \<open>The encoder writes it\<close>

lemma writes_each:
  assumes "\<And>x. x \<in> set xs \<Longrightarrow> writes (g x) (r x)"
  shows "writes (each g xs) (out_concat (map r xs))"
  using assms
proof (induction xs)
  case Nil
  then show ?case using writes_return by (simp add: each_Nil_fun)
next
  case (Cons x xs)
  have "each g (x # xs) = (\<lambda>s. and_then (g x s) (each g xs))" by (rule ext) simp
  with Cons writes_and_then [of "g x" "r x" "each g xs"] show ?case by simp
qed

lemma each_Cons_fun: "each f (x # xs) = (\<lambda>s. and_then (f x s) (each f xs))"
  by (rule ext) simp

lemma each_map: "each g (map h xs) = each (\<lambda>x. g (h x)) xs"
  by (induction xs) (simp_all only: list.map each_Nil_fun each_Cons_fun)

lemma enc_items_each:
  "enc_items func stride p count = each (\<lambda>i s. func s (p + i * stride)) [0..<count]"
proof (induction count arbitrary: p)
  case 0
  show ?case by (rule ext) simp
next
  case (Suc count)
  have e: "[0..<Suc count] = 0 # map Suc [0..<count]" by (simp add: upt_conv_Cons map_Suc_upt del: upt_Suc)
  show ?case unfolding e each_Cons_fun each_map
    by (rule ext) (simp add: Suc.IH ac_simps)
qed

lemma writes_items:
  assumes "\<And>p. writes (\<lambda>s :: 'st pb_ostream. func s p) (r p)"
  shows "writes (enc_items func stride p count) (out_concat (map (\<lambda>i. r (p + i * stride)) [0..<count]))"
  unfolding enc_items_each by (rule writes_each) (rule assms)


lemma out_concat_gives: "out_concat (map (\<lambda>i. gives (g i)) xs) = gives (concat (map g xs))"
  by (induction xs) simp_all

lemma writes_array:
  assumes "\<And>src. writes (\<lambda>s :: 'st pb_ostream. sub s (f_ptr f) src) (subo (f_ptr f) src)"
    and "count < 2 ^ 32"
  shows "writes (\<lambda>s. encode_array m sub s f pData count) (array_out m subo f pData count)"
proof -
  let ?func = "\<lambda>s :: 'st pb_ostream. \<lambda>p. pb_encoder m sub s f p"
  let ?stride = "unat (f_data_size f)"
  let ?r = "out_concat (map (\<lambda>i. value_out m subo f (pData + i * ?stride)) [0..<count])"
  let ?l = "PB_LTYPE (f_type f)"
  have v: "writes (\<lambda>s. ?func s p) (value_out m subo f p)" for p
    by (rule writes_value [of sub f p subo m, OF assms(1)])
  note items = writes_items [of ?func, OF v, of ?stride pData count]
  define size where "size = (\<lambda>s :: 'st pb_ostream.
      if ?l = PB_LTYPE_FIXED32 then Some (Some (4 * count))
      else if ?l = PB_LTYPE_FIXED64 then Some (Some (8 * count))
      else (case enc_items ?func ?stride pData count (pb_ostream_sizing (o_user s)) of
              None \<Rightarrow> None
            | Some (False, _) \<Rightarrow> Some None
            | Some (True, sizing) \<Rightarrow> Some (Some (bytes_written sizing))))"
  define packed where "packed = (\<lambda>s :: 'st pb_ostream. case size s of
        None \<Rightarrow> None
      | Some None \<Rightarrow> Some (False, s)
      | Some (Some sz) \<Rightarrow>
          and_then (Some (pb_encode_varint s (of_nat sz)))
            (\<lambda>s. if o_callback s = Sizing then Some (pb_write s [] sz)
                 else enc_items ?func ?stride pData count s))"
  have size: "case ?r of None \<Rightarrow> True | Some None \<Rightarrow> size s = Some None
      | Some (Some bs) \<Rightarrow> size s = Some (Some (length bs mod 2 ^ 64))" for s
  proof -
    consider "?l = PB_LTYPE_FIXED32" | "?l = PB_LTYPE_FIXED64" | "?l \<noteq> PB_LTYPE_FIXED32" "?l \<noteq> PB_LTYPE_FIXED64"
      by blast
    then show ?thesis
    proof cases
      case 1
      then have "?r = gives (concat (map (\<lambda>i. fixed32_bytes (rd_u32 m (pData + i * ?stride))) [0..<count]))"
        by (simp add: value_out_def out_concat_gives)
      then show ?thesis using 1 assms(2)
        by (simp add: size_def length_concat fixed32_bytes_def o_def sum_list_triv)
    next
      case 2
      then have "?r = gives (concat (map (\<lambda>i. fixed64_bytes (rd_u64 m (pData + i * ?stride))) [0..<count]))"
        by (simp add: value_out_def out_concat_gives)
      then show ?thesis using 2 assms(2)
        by (simp add: size_def length_concat fixed64_bytes_def o_def sum_list_triv)
    next
      case 3
      then show ?thesis using writes_sizing [OF items, of "o_user s"]
        by (auto simp: size_def split: option.splits)
    qed
  qed
  have "writes packed (sized ?r)"
  proof (cases ?r)
    case (Some o1)
    show ?thesis
    proof (cases o1)
      case None
      with Some size have "packed s = Some (False, s)" for s by (simp add: packed_def)
      with Some None show ?thesis by (simp add: sized_def writes_fails)
    next
      case bs: (Some bs)
      show ?thesis
      proof (cases "length bs < 2 ^ 62")
        case True
        let ?body = "\<lambda>s. if o_callback s = Sizing then Some (pb_write s [] (length bs))
            else enc_items ?func ?stride pData count s"
        have "size s = Some (Some (length bs))" for s using size [of s] True by (simp add: Some bs)
        then have p: "packed = (\<lambda>s. and_then (Some (pb_encode_varint s (of_nat (length bs)))) ?body)"
          by (simp add: packed_def)
        have "writes ?body (gives bs)"
          using items True unfolding Some bs writes_gives
          by (auto simp: room_def put_def pb_write_sizing)
        then show ?thesis
          using writes_and_then [OF writes_varint, of ?body "gives bs" "of_nat (length bs)"] True
          unfolding p Some bs by (simp add: string_bytes_def)
      qed (simp add: Some bs sized_def)
    qed
  qed (simp add: sized_def)
  moreover have "writes (\<lambda>s :: 'st pb_ostream. Some (pb_encode_tag s PB_WT_STRING (f_tag f)))
      (gives (varint (tag_word PB_WT_STRING (f_tag f))))"
    using writes_varint [of "tag_word PB_WT_STRING (f_tag f)"] by (simp add: pb_encode_tag_def tag_word_def)
  ultimately have packed: "writes (\<lambda>s. and_then (Some (pb_encode_tag s PB_WT_STRING (f_tag f))) packed)
      (out_append (gives (varint (tag_word PB_WT_STRING (f_tag f)))) (sized ?r))"
    by (intro writes_and_then)
  let ?deref = "PB_ATYPE (f_type f) = PB_ATYPE_POINTER \<and> (?l = PB_LTYPE_STRING \<or> ?l = PB_LTYPE_BYTES)"
  have one: "writes (\<lambda>s. and_then (Some (pb_encode_tag_for_field s f))
        (\<lambda>s. if ?deref then ?func s (rd_ptr m p) else ?func s p))
      (out_append (tag_out f) (value_out m subo f (if ?deref then rd_ptr m p else p)))" for p
    by (intro writes_and_then writes_tag_for_field) (use v in auto)
  note unpacked = writes_items [of "\<lambda>s p. and_then (Some (pb_encode_tag_for_field s f))
        (\<lambda>s. if ?deref then ?func s (rd_ptr m p) else ?func s p)", OF one, of ?stride pData count]
  show ?thesis
    unfolding encode_array_def array_out_def Let_def
    by (intro writes_if writes_return writes_error packed [unfolded packed_def size_def] unpacked)
qed


lemma writes_case_option:
  assumes "\<And>x. b = Some x \<Longrightarrow> writes (g x) (r x)"
  shows "writes (\<lambda>s. case b of None \<Rightarrow> None | Some x \<Rightarrow> g x s) (case b of None \<Rightarrow> None | Some x \<Rightarrow> r x)"
  using assms by (cases b) simp_all

lemma unat_u32_less: "unat (w :: u32) < 2 ^ 32"
  using unsigned_less [of w, where 'a = nat] by simp

lemma writes_basic_field:
  assumes "\<And>src. writes (\<lambda>s :: 'st pb_ostream. sub s (f_ptr f) src) (subo (f_ptr f) src)"
  shows "writes (\<lambda>s. encode_basic_field m sub deflt s f pData) (basic_field_out m subo deflt f pData)"
proof -
  have v: "writes (\<lambda>s. and_then (Some (pb_encode_tag_for_field s f)) (\<lambda>s. pb_encoder m sub s f p))
      (out_append (tag_out f) (value_out m subo f p))" for p
    by (intro writes_and_then writes_tag_for_field writes_value [of sub f p subo m, OF assms])
  have c: "(if b then unat (w :: u32) else unat (u :: u32)) < 2 ^ 32" for b w u
    using unat_u32_less by simp
  note a = writes_array [of sub f subo, OF assms c]
  show ?thesis
    unfolding encode_basic_field_def basic_field_out_def Let_def
    by (intro writes_case_option writes_if writes_None writes_return writes_error v a)
qed

section \<open>Callbacks\<close>

text \<open>
  The contract of the user's callbacks: whatever stream of the library it is given, a callback writes
  the bytes \<open>cb\<close> and \<open>xcb\<close> say, the same on every call.
\<close>

locale message_callbacks =
  fixes E :: "'st enc_env"
    and cb :: "nat \<Rightarrow> pb_field \<Rightarrow> nat \<Rightarrow> outcome"
    and xcb :: "nat \<Rightarrow> nat \<Rightarrow> outcome"
  assumes field_callback: "writes (\<lambda>s. Some (en_field_cb E p s f a)) (cb p f a)"
    and ext_callback: "writes (\<lambda>s. Some (en_ext_cb E p s x)) (xcb p x)"
begin

lemma writes_field:
  assumes "\<And>src. writes (\<lambda>s :: 'st pb_ostream. sub s (f_ptr f) src) (subo (f_ptr f) src)"
  shows "writes (\<lambda>s. encode_field E sub deflt s f pData) (field_out E cb subo deflt f pData)"
proof -
  let ?p = "rd_ptr (en_mem E) pData"
  let ?cb = "\<lambda>s. case en_field_cb E ?p s f (pData + 8) of
      (False, s) \<Rightarrow> out_error s ''callback error'' | (True, s) \<Rightarrow> (True, s)"
  have "writes (\<lambda>s. Some (?cb s)) (cb ?p f (pData + 8))"
    using field_callback [of ?p f "pData + 8"]
    by (fastforce simp: writes_def out_error_def split: option.splits bool.splits prod.splits)
  then have c: "writes (\<lambda>s. Some (encode_callback_field E s f pData))
      (if ?p = 0 then gives [] else cb ?p f (pData + 8))"
    unfolding encode_callback_field_def Let_def using writes_return by (cases "?p = 0") simp_all
  show ?thesis
    unfolding encode_field_def field_out_def
    by (intro writes_if writes_error c writes_basic_field [of sub f subo, OF assms])
qed

lemma writes_extensions:
  assumes "\<And>fds src. writes (\<lambda>s :: 'st pb_ostream. sub s fds src) (subo fds src)"
  shows "writes (encode_extensions n E sub deflt extension) (extensions_out n E cb xcb subo deflt extension)"
proof (induction n arbitrary: extension)
  case 0
  show ?case by simp
next
  case (Suc n)
  let ?type = "en_ext E (rd_ptr (en_mem E) (extension + ext_type_off))"
  let ?f = "field_at (en_fields E (x_arg ?type)) 0"
  have "writes (\<lambda>s. default_extension_encoder E sub deflt s extension)
      (field_out E cb subo deflt ?f
         (if PB_ATYPE (f_type ?f) = PB_ATYPE_POINTER then extension + 8
          else rd_ptr (en_mem E) (extension + 8)))"
    unfolding default_extension_encoder_def Let_def
    using writes_field [of sub ?f subo, OF assms] by simp
  then have "writes (\<lambda>s. if x_encode ?type \<noteq> 0 then Some (en_ext_cb E (x_encode ?type) s extension)
        else default_extension_encoder E sub deflt s extension)
      (if x_encode ?type \<noteq> 0 then xcb (x_encode ?type) extension
       else field_out E cb subo deflt ?f
         (if PB_ATYPE (f_type ?f) = PB_ATYPE_POINTER then extension + 8
          else rd_ptr (en_mem E) (extension + 8)))"
    by (intro writes_if ext_callback)
  note step = writes_and_then [OF this Suc.IH [of "rd_ptr (en_mem E) (extension + 16)"]]
  have fold: "encode_extensions (Suc n) E sub deflt extension = (\<lambda>s. if extension = 0 then Some (True, s)
      else and_then
        (if x_encode ?type \<noteq> 0 then Some (en_ext_cb E (x_encode ?type) s extension)
         else default_extension_encoder E sub deflt s extension)
        (encode_extensions n E sub deflt (rd_ptr (en_mem E) (extension + 16))))"
    by (rule ext) (simp only: encode_extensions.simps Let_def)
  show ?case
    unfolding fold extensions_out.simps Let_def by (intro writes_if writes_return step)
qed

lemma writes_message: "writes (\<lambda>s. pb_encode n E s fds src) (message_out n E cb xcb fds src)"
proof (induction n arbitrary: fds src)
  case 0
  show ?case by simp
next
  case (Suc n)
  let ?d = "en_fields E" let ?m = "en_mem E"
  let ?N = "nfields (?d fds)"
  let ?sub = "pb_encode n E" let ?subo = "message_out n E cb xcb"
  let ?deflt = "pb_check_message n ?m ?d"
  define body where "body = (\<lambda>it s. let f = it_field ?d it in
      if PB_LTYPE (f_type f) = PB_LTYPE_EXTENSION then
        encode_extension_field n E ?sub ?deflt s (it_pData it)
      else encode_field E ?sub ?deflt s f (it_pData it))"
  have one: "writes (body (iter_at ?d fds src k))
      (let f = field_at (?d fds) k; pData = src + field_offset (?d fds) k in
       if PB_LTYPE (f_type f) = PB_LTYPE_EXTENSION then
         extensions_out n E cb xcb ?subo ?deflt (rd_ptr ?m pData)
       else field_out E cb ?subo ?deflt f pData)" for k
    unfolding body_def Let_def iter_at_sel encode_extension_field_def
    by (intro writes_if writes_extensions writes_field Suc.IH)
  have e: "pb_encode (Suc n) E s fds src = each (\<lambda>k. body (iter_at ?d fds src k)) [0..<?N] s" for s
  proof (cases "0 < ?N")
    case True
    then show ?thesis
      by (simp add: begin_iter_at each_field_iter_at body_def Let_def)
  qed (simp add: begin_iter_at)
  show ?case
    unfolding e message_out.simps by (rule writes_each) (simp only: Let_def, rule one [unfolded Let_def])
qed

end

end
