(* ===== verification/Messages.thy ===== *)
theory Messages
  imports Pb_Encode_Spec "HOL-Library.Code_Target_Nat"
begin

text \<open>
  Properties of the message level of nanopb: the field iterator (\<open>pb_common.c\<close>) and the message
  encoder (\<open>pb_encode.c\<close>), with the callback of gRPC that encodes a string and the descriptors of a
  time stamp of Firestore as concrete instances.
\<close>

section \<open>When the encoder returns\<close>

definition returns :: "('s \<Rightarrow> (bool \<times> 's) option) \<Rightarrow> bool" where
  "returns g \<longleftrightarrow> (\<forall>s. g s \<noteq> None)"

lemma returns_Some [simp]: "returns (\<lambda>s. Some (g s))"
  by (simp add: returns_def)

lemma returns_and_then: "returns g \<Longrightarrow> returns h \<Longrightarrow> returns (\<lambda>s. and_then (g s) h)"
  by (auto simp: returns_def and_then_def split: option.split)

lemma returns_each: "(\<And>x. x \<in> set xs \<Longrightarrow> returns (g x)) \<Longrightarrow> returns (each g xs)"
proof (induction xs)
  case (Cons x xs)
  then show ?case unfolding each_Cons_fun by (intro returns_and_then) simp_all
qed (simp add: each_Nil_fun)

lemma returns_if: "(c \<Longrightarrow> returns g) \<Longrightarrow> (\<not> c \<Longrightarrow> returns h) \<Longrightarrow> returns (\<lambda>s. if c then g s else h s)"
  by (cases c) simp_all

lemma returns_tag_then:
  assumes "wire_of_ltype (PB_LTYPE (f_type f)) \<noteq> None \<Longrightarrow> returns h"
  shows "returns (\<lambda>s. and_then (Some (pb_encode_tag_for_field s f)) h)"
proof (cases "wire_of_ltype (PB_LTYPE (f_type f))")
  case None
  then show ?thesis
    by (auto simp: returns_def and_then_def wire_of_ltype_def pb_encode_tag_for_field_def Let_def
        out_error_def split: if_splits)
next
  case Some
  with assms show ?thesis by (intro returns_and_then) simp_all
qed

text \<open>The submessages the encoder goes into for a field, and for a whole message.\<close>

definition field_submessages :: "memory \<Rightarrow> pb_field \<Rightarrow> nat \<Rightarrow> (nat \<times> nat) list" where
  "field_submessages m f pData0 =
     (let pSize = ptr_plus pData0 (f_size_offset f);
          pData = (if PB_ATYPE (f_type f) = PB_ATYPE_POINTER then rd_ptr m pData0 else pData0) in
      if PB_LTYPE (f_type f) \<noteq> PB_LTYPE_SUBMESSAGE \<or> PB_ATYPE (f_type f) = PB_ATYPE_CALLBACK then []
      else if PB_HTYPE (f_type f) = PB_HTYPE_REPEATED then
        map (\<lambda>i. (f_ptr f, pData + i * unat (f_data_size f)))
          [0..<(if f_size_offset f \<noteq> 0 then unat (rd_u32 m pSize) else unat (f_array_size f))]
      else if PB_HTYPE (f_type f) = PB_HTYPE_ONEOF then
        (if rd_u32 m pSize = f_tag f then [(f_ptr f, pData)] else [])
      else if PB_ATYPE (f_type f) = PB_ATYPE_POINTER \<and> f_size_offset f = 0 \<and> pData = 0 then []
      else [(f_ptr f, pData)])"

definition submessages :: "'st enc_env \<Rightarrow> nat \<Rightarrow> nat \<Rightarrow> (nat \<times> nat) list" where
  "submessages E fds src =
     concat (map (\<lambda>k. field_submessages (en_mem E) (field_at (en_fields E fds) k)
                        (src + field_offset (en_fields E fds) k))
               [0..<nfields (en_fields E fds)])"

lemma submessages_field:
  assumes "c \<in> set (submessages E fds src)"
  shows "\<exists>f\<in>set (en_fields E fds). \<exists>p. c \<in> set (field_submessages (en_mem E) f p)"
proof -
  from assms obtain k where k: "k < nfields (en_fields E fds)" and
    c: "c \<in> set (field_submessages (en_mem E) (field_at (en_fields E fds) k)
        (src + field_offset (en_fields E fds) k))"
    by (auto simp: submessages_def)
  have "field_at (en_fields E fds) k \<in> set (en_fields E fds)"
    using k nfields_le [of "en_fields E fds"] by (simp add: field_at_nth)
  with c show ?thesis by blast
qed

text \<open>A descriptor the generator makes: no extensions, and a union has a tag field.\<close>

definition plain_field :: "pb_field \<Rightarrow> bool" where
  "plain_field f \<longleftrightarrow> PB_LTYPE (f_type f) \<noteq> PB_LTYPE_EXTENSION \<and>
     (PB_HTYPE (f_type f) = PB_HTYPE_ONEOF \<longrightarrow> f_size_offset f \<noteq> 0)"

lemma returns_submessage:
  assumes "returns (\<lambda>s. sub s fds src)"
  shows "returns (\<lambda>s. pb_encode_submessage sub s fds src)"
proof -
  define g where "g s = the (sub s fds src)" for s
  have "sub s fds src = Some (g s)" for s using assms by (auto simp: returns_def g_def)
  then show ?thesis
    by (auto simp: returns_def pb_encode_submessage_def and_then_def Let_def
        split: option.split bool.split prod.split)
qed

lemma returns_encoder:
  assumes "PB_LTYPE (f_type f) = PB_LTYPE_SUBMESSAGE \<Longrightarrow> returns (\<lambda>s. sub s (f_ptr f) src)"
    and "wire_of_ltype (PB_LTYPE (f_type f)) \<noteq> None"
  shows "returns (\<lambda>s. pb_encoder m sub s f src)"
proof (cases "PB_LTYPE (f_type f) = PB_LTYPE_SUBMESSAGE")
  case True
  then have "returns (\<lambda>s. pb_enc_submessage sub s f src)"
    unfolding pb_enc_submessage_def
    using assms(1) by (intro returns_if returns_submessage) simp_all
  with True show ?thesis by (simp add: pb_encoder_def)
next
  case False
  then have "pb_encoder m sub s f src \<noteq> None" for s
    using assms(2) by (auto simp: pb_encoder_def wire_of_ltype_def Let_def split: if_splits)
  then show ?thesis by (simp add: returns_def)
qed


lemma returns_items:
  assumes "\<And>i. i < count \<Longrightarrow> returns (\<lambda>s. func s (p + i * stride))"
  shows "returns (enc_items func stride p count)"
  unfolding enc_items_each using assms by (intro returns_each) simp

lemma returns_array:
  assumes "\<And>i. i < count \<Longrightarrow> PB_LTYPE (f_type f) = PB_LTYPE_SUBMESSAGE \<Longrightarrow>
      returns (\<lambda>s. sub s (f_ptr f) (pData + i * unat (f_data_size f)))"
  shows "returns (\<lambda>s. encode_array m sub s f pData count)"
proof -
  let ?func = "\<lambda>s p. pb_encoder m sub s f p"
  let ?stride = "unat (f_data_size f)"
  let ?l = "PB_LTYPE (f_type f)"
  have func: "returns (\<lambda>s. ?func s p)"
    if "?l \<noteq> PB_LTYPE_SUBMESSAGE" "wire_of_ltype ?l \<noteq> None" for p
    using that by (intro returns_encoder) simp_all
  show ?thesis
  proof (cases "?l \<le> PB_LTYPE_LAST_PACKABLE")
    case True
    have "wire_of_ltype ?l \<noteq> None" "?l \<noteq> PB_LTYPE_SUBMESSAGE"
      by (rule packable_cases [OF True]; simp add: wire_of_ltype_def)+
    with func have i: "returns (enc_items ?func ?stride pData count)" by (intro returns_items) blast
    define g where "g s = the (enc_items ?func ?stride pData count s)" for s
    have "enc_items ?func ?stride pData count s = Some (g s)" for s using i by (auto simp: returns_def g_def)
    with True show ?thesis
      by (auto simp: returns_def encode_array_def Let_def and_then_def
          split: option.split prod.split bool.split)
  next
    case False
    let ?deref = "PB_ATYPE (f_type f) = PB_ATYPE_POINTER \<and> (?l = PB_LTYPE_STRING \<or> ?l = PB_LTYPE_BYTES)"
    let ?one = "\<lambda>s p. and_then (Some (pb_encode_tag_for_field s f))
        (\<lambda>s. if ?deref then ?func s (rd_ptr m p) else ?func s p)"
    have "returns (\<lambda>s. ?one s (pData + i * ?stride))" if i: "i < count" for i
    proof (rule returns_tag_then)
      assume w: "wire_of_ltype ?l \<noteq> None"
      show "returns (\<lambda>s. if ?deref then ?func s (rd_ptr m (pData + i * ?stride)) else ?func s (pData + i * ?stride))"
        using w i assms by (intro returns_if returns_encoder) auto
    qed
    then have "returns (enc_items ?one ?stride pData count)" by (intro returns_items)
    with False show ?thesis
      unfolding encode_array_def Let_def by (auto simp: returns_def)
  qed
qed

lemma returns_field:
  assumes "plain_field f"
    and "\<And>src. (f_ptr f, src) \<in> set (field_submessages (en_mem E) f pData) \<Longrightarrow>
      returns (\<lambda>s. sub s (f_ptr f) src) \<and> deflt (f_ptr f) src \<noteq> None"
  shows "returns (\<lambda>s. encode_field E sub deflt s f pData)"
proof -
  let ?m = "en_mem E"
  let ?p = "if PB_ATYPE (f_type f) = PB_ATYPE_POINTER then rd_ptr ?m pData else pData"
  have "returns (\<lambda>s. encode_basic_field ?m sub deflt s f pData)"
    if a: "PB_ATYPE (f_type f) = PB_ATYPE_STATIC \<or> PB_ATYPE (f_type f) = PB_ATYPE_POINTER"
  proof -
    let ?sub = "PB_LTYPE (f_type f) = PB_LTYPE_SUBMESSAGE"
    let ?S = "field_submessages ?m f pData"
    let ?size = "ptr_plus pData (f_size_offset f)"
    have cb: "PB_ATYPE (f_type f) \<noteq> PB_ATYPE_CALLBACK" using a by auto
    have val: "returns (\<lambda>s. and_then (Some (pb_encode_tag_for_field s f)) (\<lambda>s. pb_encoder ?m sub s f ?p))"
      if "?sub \<Longrightarrow> (f_ptr f, ?p) \<in> set ?S"
      using that assms(2) by (intro returns_tag_then returns_encoder) blast+
    have check: "pb_check_proto3_default_value ?m deflt f pData \<noteq> None"
      if "PB_HTYPE (f_type f) = PB_HTYPE_OPTIONAL"
    proof (cases "PB_ATYPE (f_type f) = PB_ATYPE_STATIC \<and> ?sub")
      case True
      then have "(f_ptr f, pData) \<in> set ?S" using that by (simp add: field_submessages_def Let_def)
      with assms(2) show ?thesis by (auto simp: pb_check_proto3_default_value_def Let_def)
    qed (auto simp: pb_check_proto3_default_value_def Let_def)
    show ?thesis
    proof (cases "f_type f" rule: htype_cases)
      case 1
      have "returns (\<lambda>s. if ?p = 0 then Some (out_error s ''missing required field'')
          else and_then (Some (pb_encode_tag_for_field s f)) (\<lambda>s. pb_encoder ?m sub s f ?p))"
        using 1 cb by (intro returns_if val) (simp_all add: field_submessages_def Let_def)
      with 1 show ?thesis by (simp add: encode_basic_field_def Let_def)
    next
      case 2
      obtain b where b: "pb_check_proto3_default_value ?m deflt f pData = Some b" using check [OF 2] by blast
      define has where "has = (if f_size_offset f \<noteq> 0 then rd_bool ?m ?size
          else if PB_ATYPE (f_type f) = PB_ATYPE_POINTER then ?p \<noteq> 0 else \<not> b)"
      have "returns (\<lambda>s. if has
          then and_then (Some (pb_encode_tag_for_field s f)) (\<lambda>s. pb_encoder ?m sub s f ?p) else Some (True, s))"
        using 2 cb by (intro returns_if val) (auto simp: field_submessages_def Let_def has_def)
      with 2 b show ?thesis
        by (cases "PB_ATYPE (f_type f) = PB_ATYPE_POINTER"; cases "f_size_offset f = 0")
           (simp_all add: encode_basic_field_def Let_def has_def cong: if_cong)
    next
      case 3
      let ?n = "if f_size_offset f \<noteq> 0 then unat (rd_u32 ?m ?size) else unat (f_array_size f)"
      have "returns (\<lambda>s. encode_array ?m sub s f ?p ?n)"
      proof (rule returns_array)
        fix i assume "i < ?n" "?sub"
        then have "(f_ptr f, ?p + i * unat (f_data_size f)) \<in> set ?S"
          using 3 cb by (auto simp: field_submessages_def Let_def intro!: rev_image_eqI [where x = i] split: if_splits)
        with assms(2) show "returns (\<lambda>s. sub s (f_ptr f) (?p + i * unat (f_data_size f)))" by blast
      qed
      with 3 show ?thesis by (simp add: encode_basic_field_def Let_def)
    next
      case 4
      have "returns (\<lambda>s. if rd_u32 ?m ?size = f_tag f
          then and_then (Some (pb_encode_tag_for_field s f)) (\<lambda>s. pb_encoder ?m sub s f ?p) else Some (True, s))"
        using 4 cb by (intro returns_if val) (simp_all add: field_submessages_def Let_def)
      with 4 assms(1) show ?thesis by (simp add: encode_basic_field_def Let_def plain_field_def)
    qed
  qed
  then show ?thesis
    unfolding encode_field_def by (intro returns_if) simp_all
qed


text \<open>A message with a rank: every submessage has a smaller one.\<close>

definition ranked :: "'st enc_env \<Rightarrow> (nat \<Rightarrow> nat \<Rightarrow> nat) \<Rightarrow> bool" where
  "ranked E rank \<longleftrightarrow> (\<forall>fds src. (\<forall>f\<in>set (en_fields E fds). plain_field f) \<and>
     (\<forall>(fds', src')\<in>set (submessages E fds src). rank fds' src' < rank fds src))"

lemma rankedD: "ranked E rank \<Longrightarrow> (a, b) \<in> set (submessages E fds src) \<Longrightarrow> rank a b < rank fds src"
  by (fastforce simp: ranked_def)

lemma check_returns:
  assumes "ranked E rank" and "rank fds src < n"
  shows "pb_check_message n (en_mem E) (en_fields E) fds src \<noteq> None"
  using assms(2)
proof (induction n arbitrary: fds src)
  case (Suc n)
  let ?d = "en_fields E"
  let ?it = "iter_at ?d fds src"
  have "pb_check_proto3_default_value (en_mem E) (pb_check_message n (en_mem E) ?d)
      (it_field ?d (?it k)) (it_pData (?it k)) \<noteq> None" if k: "k < nfields (?d fds)" for k
  proof -
    let ?f = "field_at (?d fds) k" let ?p = "src + field_offset (?d fds) k"
    have "pb_check_message n (en_mem E) ?d (f_ptr ?f) ?p \<noteq> None"
      if "PB_LTYPE (f_type ?f) = PB_LTYPE_SUBMESSAGE" "PB_ATYPE (f_type ?f) = PB_ATYPE_STATIC"
        "PB_HTYPE (f_type ?f) = PB_HTYPE_OPTIONAL"
    proof -
      have "(f_ptr ?f, ?p) \<in> set (field_submessages (en_mem E) ?f ?p)"
        using that by (simp add: field_submessages_def Let_def)
      with k have "(f_ptr ?f, ?p) \<in> set (submessages E fds src)" by (auto simp: submessages_def)
      from rankedD [OF assms(1) this] have "rank (f_ptr ?f) ?p < rank fds src" .
      with Suc show ?thesis by simp
    qed
    then show ?thesis
      by (cases "f_type ?f" rule: htype_cases) (simp_all add: pb_check_proto3_default_value_def Let_def)
  qed
  then have r: "returns (each (\<lambda>k (u :: unit). map_option (\<lambda>b. (b, u)) (pb_check_proto3_default_value (en_mem E)
      (pb_check_message n (en_mem E) ?d) (it_field ?d (?it k)) (it_pData (?it k)))) [0..<nfields (?d fds)])"
    by (intro returns_each) (auto simp: returns_def)
  show ?case
  proof (cases "0 < nfields (?d fds)")
    case True
    with r show ?thesis by (simp add: begin_iter_at each_field_iter_at returns_def)
  qed (simp add: begin_iter_at)
qed simp

lemma encode_returns:
  assumes "ranked E rank" and "rank fds src < n"
  shows "returns (\<lambda>s. pb_encode n E s fds src)"
  using assms(2)
proof (induction n arbitrary: fds src)
  case (Suc n)
  let ?d = "en_fields E"
  let ?it = "iter_at ?d fds src"
  have one: "returns (\<lambda>s. let f = it_field ?d (?it k); sub = pb_encode n E;
        deflt = pb_check_message n (en_mem E) ?d
      in if PB_LTYPE (f_type f) = PB_LTYPE_EXTENSION then
           encode_extension_field n E sub deflt s (it_pData (?it k))
         else encode_field E sub deflt s f (it_pData (?it k)))"
    if k: "k < nfields (?d fds)" for k
  proof -
    let ?f = "field_at (?d fds) k" let ?p = "src + field_offset (?d fds) k"
    have "?f \<in> set (?d fds)" using k nfields_le [of "?d fds"] by (simp add: field_at_nth)
    with assms(1) have plain: "plain_field ?f" by (auto simp: ranked_def)
    have "returns (\<lambda>s. encode_field E (pb_encode n E) (pb_check_message n (en_mem E) ?d) s ?f ?p)"
    proof (rule returns_field [OF plain])
      fix src' assume "(f_ptr ?f, src') \<in> set (field_submessages (en_mem E) ?f ?p)"
      with k have "(f_ptr ?f, src') \<in> set (submessages E fds src)" by (auto simp: submessages_def)
      from rankedD [OF assms(1) this] have "rank (f_ptr ?f) src' < rank fds src" .
      with Suc.prems have "rank (f_ptr ?f) src' < n" by simp
      with Suc.IH check_returns [OF assms(1)]
      show "returns (\<lambda>s. pb_encode n E s (f_ptr ?f) src') \<and>
          pb_check_message n (en_mem E) ?d (f_ptr ?f) src' \<noteq> None" by blast
    qed
    with plain show ?thesis by (simp add: plain_field_def Let_def)
  qed
  show ?case
  proof (cases "0 < nfields (?d fds)")
    case True
    have "returns (each (\<lambda>k s. let f = it_field ?d (?it k); sub = pb_encode n E;
        deflt = pb_check_message n (en_mem E) ?d
      in if PB_LTYPE (f_type f) = PB_LTYPE_EXTENSION then
           encode_extension_field n E sub deflt s (it_pData (?it k))
         else encode_field E sub deflt s f (it_pData (?it k))) [0..<nfields (?d fds)])"
      using one by (intro returns_each) simp
    with True show ?thesis by (simp add: begin_iter_at each_field_iter_at)
  qed (simp add: begin_iter_at)
qed simp


section \<open>Instances\<close>

text \<open>
  \<open>encode_string_or_bytes_cb\<close> of gRPC (\<open>alts_handshaker_service_api_util.cc\<close>): the callback of a string
  field, whose argument points to a slice. What a slice holds is a parameter.
\<close>

definition encode_string_or_bytes_cb :: "memory \<Rightarrow> (nat \<Rightarrow> bytes) \<Rightarrow> 'st pb_ostream \<Rightarrow> pb_field \<Rightarrow> nat \<Rightarrow>
    bool \<times> 'st pb_ostream" where
  "encode_string_or_bytes_cb m contents s f arg =
     (case pb_encode_tag_for_field s f of
        (False, s) \<Rightarrow> (False, s)
      | (True, s) \<Rightarrow> pb_encode_string s (contents (rd_ptr m arg)) (length (contents (rd_ptr m arg))))"

text \<open>The messages of a program whose only callback is this one, and whose extensions write nothing.\<close>

definition grpc_env :: "memory \<Rightarrow> pb_tables \<Rightarrow> (nat \<Rightarrow> bytes) \<Rightarrow> 'st enc_env" where
  "grpc_env m d contents =
     \<lparr>en_mem = m, en_fields = d, en_ext = (\<lambda>_. \<lparr>x_decode = 0, x_encode = 0, x_arg = 0\<rparr>),
      en_field_cb = (\<lambda>_. encode_string_or_bytes_cb m contents), en_ext_cb = (\<lambda>_ s _. (True, s))\<rparr>"

definition slice_out :: "memory \<Rightarrow> (nat \<Rightarrow> bytes) \<Rightarrow> nat \<Rightarrow> pb_field \<Rightarrow> nat \<Rightarrow> outcome" where
  "slice_out m contents p f arg = out_append (tag_out f) (sized (gives (contents (rd_ptr m arg))))"

interpretation grpc: message_callbacks "grpc_env m d contents :: 'st enc_env" "slice_out m contents" "\<lambda>_ _. gives []"
proof unfold_locales
  fix p f a
  let ?bs = "contents (rd_ptr m a)"
  have "writes (\<lambda>s :: 'st pb_ostream. Some (pb_encode_string s ?bs (length ?bs))) (sized (gives ?bs))"
    using writes_string [of ?bs] by (cases "length ?bs < 2 ^ 62") (simp_all add: sized_def)
  note w = writes_and_then [OF writes_tag_for_field this]
  have e: "(\<lambda>s :: 'st pb_ostream. Some (en_field_cb (grpc_env m d contents) p s f a)) =
      (\<lambda>s. and_then (Some (pb_encode_tag_for_field s f)) (\<lambda>s. Some (pb_encode_string s ?bs (length ?bs))))"
    by (rule ext) (simp add: grpc_env_def encode_string_or_bytes_cb_def and_then_def split: prod.split bool.split)
  show "writes (\<lambda>s :: 'st pb_ostream. Some (en_field_cb (grpc_env m d contents) p s f a)) (slice_out m contents p f a)"
    unfolding e slice_out_def by (rule w)
next
  fix p x
  show "writes (\<lambda>s :: 'st pb_ostream. Some (en_ext_cb (grpc_env m d contents) p s x)) (gives [])"
    using writes_return by (simp add: grpc_env_def)
qed

text \<open>The macros \<open>PB_SINGULAR_STATIC\<close>, \<open>PB_SINGULAR_POINTER\<close> and \<open>PB_SINGULAR_CALLBACK\<close> of \<open>pb.h\<close>.\<close>

definition PB_SINGULAR_STATIC :: "u32 \<Rightarrow> u32 \<Rightarrow> u32 \<Rightarrow> u8 \<Rightarrow> nat \<Rightarrow> pb_field" where
  "PB_SINGULAR_STATIC tag fd membersize ltype ptr =
     \<lparr>f_tag = tag, f_type = PB_ATYPE_STATIC OR PB_HTYPE_OPTIONAL OR ltype, f_data_offset = fd,
      f_size_offset = 0, f_data_size = membersize, f_array_size = 0, f_ptr = ptr\<rparr>"

definition PB_SINGULAR_POINTER :: "u32 \<Rightarrow> u32 \<Rightarrow> u32 \<Rightarrow> u8 \<Rightarrow> nat \<Rightarrow> pb_field" where
  "PB_SINGULAR_POINTER tag fd membersize ltype ptr =
     \<lparr>f_tag = tag, f_type = PB_ATYPE_POINTER OR PB_HTYPE_OPTIONAL OR ltype, f_data_offset = fd,
      f_size_offset = 0, f_data_size = membersize, f_array_size = 0, f_ptr = ptr\<rparr>"

definition PB_SINGULAR_CALLBACK :: "u32 \<Rightarrow> u32 \<Rightarrow> u32 \<Rightarrow> u8 \<Rightarrow> nat \<Rightarrow> pb_field" where
  "PB_SINGULAR_CALLBACK tag fd membersize ltype ptr =
     \<lparr>f_tag = tag, f_type = PB_ATYPE_CALLBACK OR PB_HTYPE_OPTIONAL OR ltype, f_data_offset = fd,
      f_size_offset = 0, f_data_size = membersize, f_array_size = 0, f_ptr = ptr\<rparr>"

text \<open>
  The descriptors of \<open>google.protobuf.Timestamp\<close> (an \<open>int64_t\<close> and an \<open>int32_t\<close>) at address 1, and at
  address 2 those of a message with a pointer to a time stamp and a string that a callback writes.
\<close>

definition google_protobuf_Timestamp_fields :: "pb_field list" where
  "google_protobuf_Timestamp_fields =
     [PB_SINGULAR_STATIC 1 0 8 PB_LTYPE_VARINT 0, PB_SINGULAR_STATIC 2 0 4 PB_LTYPE_VARINT 0]"

definition demo_tables :: pb_tables where
  "demo_tables a =
     (if a = 1 then google_protobuf_Timestamp_fields
      else if a = 2 then
        [PB_SINGULAR_POINTER 1 0 16 PB_LTYPE_SUBMESSAGE 1, PB_SINGULAR_CALLBACK 2 0 16 PB_LTYPE_STRING 0]
      else [])"

fun memory_of :: "(nat \<times> bytes) list \<Rightarrow> memory" where
  "memory_of [] a = 0"
| "memory_of ((p, bs) # rs) a = (if p \<le> a \<and> a < p + length bs then bs ! (a - p) else memory_of rs a)"

definition demo_memory :: memory where
  "demo_memory = memory_of
     [(4096, [0, 32, 0, 0, 0, 0, 0, 0, 77, 0, 0, 0, 0, 0, 0, 0, 5, 0, 0, 0, 0, 0, 0, 0]),
      (8192, [44, 1, 0, 0, 0, 0, 0, 0, 7, 0, 0, 0])]"

definition demo_env :: "unit enc_env" where
  "demo_env = grpc_env demo_memory demo_tables (\<lambda>a. if a = 5 then [104, 105] else [])"

lemma demo_callbacks:
  "message_callbacks demo_env (slice_out demo_memory (\<lambda>a. if a = 5 then [104, 105] else [])) (\<lambda>_ _. gives [])"
  unfolding demo_env_def by (rule grpc.message_callbacks_axioms)

lemma rd_bytes_upt: "rd_bytes m a n = map m [a..<a + n]"
  by (rule nth_equalityI) (simp_all add: nth_rd_bytes)

lemma demo_reads:
  "rd_bytes demo_memory 4096 8 = [0, 32, 0, 0, 0, 0, 0, 0]"
  "rd_bytes demo_memory 4104 8 = [77, 0, 0, 0, 0, 0, 0, 0]"
  "rd_bytes demo_memory 4112 8 = [5, 0, 0, 0, 0, 0, 0, 0]"
  "rd_bytes demo_memory 8192 8 = [44, 1, 0, 0, 0, 0, 0, 0]"
  "rd_bytes demo_memory 8200 4 = [7, 0, 0, 0]"
  by (simp_all add: rd_bytes_upt demo_memory_def upt_rec_numeral nth_Cons_numeral)


lemma demo_words:
  "rd_ptr demo_memory 4096 = 8192" "rd_ptr demo_memory 4104 = 77" "rd_ptr demo_memory 4112 = 5"
  "rd_u64 demo_memory 8192 = 300" "rd_u32 demo_memory 8200 = 7"
  by (simp_all add: rd_ptr_def rd_u64_def rd_u32_def demo_reads push_bit_eq_mult)

lemma varint_one: "v \<le> 0x7F \<Longrightarrow> varint v = [ucast v]"
  by (simp add: varint.simps)

lemma demo_varint: "varint 300 = [172, 2]"
  by (simp add: varint.simps [of 300] varint_one take_bit_eq_mod drop_bit_eq_div)

lemmas demo_simps =
  demo_tables_def PB_SINGULAR_POINTER_def PB_SINGULAR_CALLBACK_def PB_SINGULAR_STATIC_def
  google_protobuf_Timestamp_fields_def nfields_def upt_rec field_at_def continues_union_def field_space_def
  PB_ATYPE_def PB_HTYPE_def PB_LTYPE_def Let_def demo_words demo_reads demo_varint varint_one

lemma demo_out: "message_out 3 demo_env (slice_out demo_memory (\<lambda>a. if a = 5 then [104, 105] else []))
    (\<lambda>_ _. gives []) 2 4096 = gives [10, 5, 8, 172, 2, 16, 7, 18, 2, 104, 105]"
  by (simp add: numeral_3_eq_3 demo_simps demo_env_def grpc_env_def field_out_def basic_field_out_def
     pb_check_proto3_default_value_def tag_out_def wire_of_ltype_def tag_word_def value_out_def slice_out_def
     signed_value_def string_bytes_def sized_def)

lemma demo_ranked: "ranked demo_env (\<lambda>fds src. if fds = 2 then 1 else 0)"
proof -
  have f: "field_submessages demo_memory f p = []" if "f \<in> set google_protobuf_Timestamp_fields" for f p
    using that by (auto simp: field_submessages_def google_protobuf_Timestamp_fields_def PB_SINGULAR_STATIC_def
        PB_LTYPE_def PB_ATYPE_def Let_def)
  have g: "fst ` set (field_submessages demo_memory f p) \<subseteq> {1}" if "f \<in> set (demo_tables 2)" for f p
    using that by (auto simp: field_submessages_def demo_tables_def PB_SINGULAR_POINTER_def
        PB_SINGULAR_CALLBACK_def PB_LTYPE_def PB_ATYPE_def PB_HTYPE_def Let_def)
  have h: "\<exists>f\<in>set (demo_tables fds). \<exists>p. c \<in> set (field_submessages demo_memory f p)"
    if "c \<in> set (submessages demo_env fds src)" for c fds src
    using submessages_field [OF that] by (simp add: demo_env_def grpc_env_def)
  have t: "demo_tables fds = (if fds = 1 then google_protobuf_Timestamp_fields
      else if fds = 2 then demo_tables 2 else [])" for fds
    by (simp add: demo_tables_def)
  have s: "fds = 2 \<and> fst c = 1" if "c \<in> set (submessages demo_env fds src)" for c fds src
  proof -
    from h [OF that] obtain f' p where m: "f' \<in> set (demo_tables fds)"
      and c: "c \<in> set (field_submessages demo_memory f' p)" by blast
    from m c f have 2: "fds = 2" unfolding t [of fds] by (auto split: if_splits)
    with g [of f' p] m c show ?thesis by auto
  qed
  have p: "plain_field f" if "f \<in> set (demo_tables fds)" for f fds
    using that by (auto simp: demo_tables_def google_protobuf_Timestamp_fields_def PB_SINGULAR_STATIC_def
        PB_SINGULAR_POINTER_def PB_SINGULAR_CALLBACK_def plain_field_def PB_LTYPE_def PB_HTYPE_def split: if_splits)
  show ?thesis
    unfolding ranked_def
  proof (intro allI conjI ballI)
    show "plain_field f'" if "f' \<in> set (en_fields demo_env fds)" for f' fds
      using that by (intro p) (simp add: demo_env_def grpc_env_def)
    show "case c of (fds', src') \<Rightarrow> (if fds' = 2 then 1 else 0 :: nat) < (if fds = 2 then 1 else 0)"
      if "c \<in> set (submessages demo_env fds src)" for c fds src
      using s [OF that] by (cases c) simp
  qed
qed

text \<open>The iterator after \<open>k\<close> calls of \<open>pb_field_iter_next\<close>.\<close>

definition visited :: "pb_tables \<Rightarrow> nat \<Rightarrow> nat \<Rightarrow> nat \<Rightarrow> pb_field_iter" where
  "visited d fds dest k =
     ((\<lambda>it. snd (pb_field_iter_next d it)) ^^ k) (snd (pb_field_iter_begin d fds dest))"


section \<open>Properties\<close>

text \<open>C10: Whatever the message and its callbacks, if the encoding of a message is \<open>bs\<close> (the encodings of
  its fields, one after the other, a submessage behind its length), then \<open>pb_encode\<close> to a buffer of any
  size succeeds exactly if \<open>bs\<close> fits and then has written \<open>bs\<close>; \<open>pb_encode_nullterminated\<close> writes a zero
  behind it, \<open>pb_encode_delimited\<close> its length before it.\<close>

theorem message_encoded:
  assumes "message_callbacks E cb xcb" and "message_out n E cb xcb fds src = gives bs"
    and "length bs < 2 ^ 62" and "bufsz < 2 ^ 63"
  shows "\<exists>t u v.
    pb_encode n E (pb_ostream_from_buffer bufsz) fds src = Some (length bs \<le> bufsz, t) \<and>
    (length bs \<le> bufsz \<longrightarrow> o_buf t = bs) \<and>
    pb_encode_nullterminated n E (pb_ostream_from_buffer bufsz) fds src = Some (length bs < bufsz, u) \<and>
    (length bs < bufsz \<longrightarrow> o_buf u = bs @ [0]) \<and>
    pb_encode_delimited n E (pb_ostream_from_buffer bufsz) fds src =
      Some (length (string_bytes bs) \<le> bufsz, v) \<and>
    (length (string_bytes bs) \<le> bufsz \<longrightarrow> o_buf v = string_bytes bs)"
proof -
  let ?s = "pb_ostream_from_buffer bufsz"
  note w = message_callbacks.writes_message [OF assms(1), of n fds src, unfolded assms(2)]
  have lib: "lib_stream ?s" using assms(4) by (simp add: lib_stream_def pb_ostream_from_buffer_def)
  have fin: "\<exists>t. g ?s = Some (length cs \<le> bufsz, t) \<and> (length cs \<le> bufsz \<longrightarrow> o_buf t = cs)"
    if "writes g (gives cs)" for g cs
  proof -
    have r: "room ?s (length cs) \<longleftrightarrow> length cs \<le> bufsz"
      by (simp add: room_def pb_ostream_from_buffer_def)
    have "o_buf (put ?s cs) = cs" by (simp add: put_def pb_ostream_from_buffer_def)
    with that lib r show ?thesis unfolding writes_gives by (cases "length cs \<le> bufsz") auto
  qed
  have z: "writes (\<lambda>s. pb_encode_nullterminated n E s fds src) (gives (bs @ [0]))"
    using writes_and_then [OF w writes_pb_write [of "[0]"]] by (simp add: pb_encode_nullterminated_def)
  have d: "writes (\<lambda>s. pb_encode_delimited n E s fds src) (gives (string_bytes bs))"
    using writes_submessage [of "pb_encode n E" fds src "gives bs", OF w] assms(3) by (simp add: pb_encode_delimited_def)
  from fin [OF w] fin [OF z] fin [OF d] show ?thesis by (simp add: Suc_le_eq)
qed

theorem message_encoded_witness:
  "\<exists>t. pb_encode 3 demo_env (pb_ostream_from_buffer 16) 2 4096 = Some (True, t) \<and>
       o_buf t = [10, 5, 8, 172, 2, 16, 7, 18, 2, 104, 105]"
  using message_encoded [OF demo_callbacks demo_out, of 16] by auto

text \<open>C30: \<open>pb_get_encoded_size\<close> is exact: the size it reports is the size of the smallest buffer to which
  \<open>pb_encode\<close> can write the message, and a successful \<open>pb_encode\<close> writes exactly that many bytes; it
  reports a failure exactly if \<open>pb_encode\<close> fails on every buffer.\<close>

theorem encoded_size_exact:
  assumes "message_callbacks E cb xcb" and "message_out n E cb xcb fds src = Some r"
    and "\<And>bs. r = Some bs \<Longrightarrow> length bs < 2 ^ 63" and "bufsz < 2 ^ 63"
  shows "\<exists>ok t. pb_encode n E (pb_ostream_from_buffer bufsz) fds src = Some (ok, t) \<and>
    (case pb_get_encoded_size n E () fds src of
       None \<Rightarrow> False
     | Some None \<Rightarrow> \<not> ok
     | Some (Some k) \<Rightarrow> (ok \<longleftrightarrow> k \<le> bufsz) \<and> (ok \<longrightarrow> bytes_written t = k \<and> length (o_buf t) = k))"
proof -
  let ?s = "pb_ostream_from_buffer bufsz"
  note w = message_callbacks.writes_message [OF assms(1), of n fds src, unfolded assms(2)]
  have lib: "lib_stream ?s" using assms(4) by (simp add: lib_stream_def pb_ostream_from_buffer_def)
  show ?thesis
  proof (cases r)
    case None
    with w lib obtain t where "pb_encode n E ?s fds src = Some (False, t)" by (auto simp: writes_fails)
    moreover have "pb_get_encoded_size n E () fds src = Some None"
      using writes_sizing [OF w, of "()"] None by (auto simp: pb_get_encoded_size_def)
    ultimately show ?thesis by (intro exI [of _ False] exI [of _ t]) simp
  next
    case (Some bs)
    with assms(3) have l: "length bs < 2 ^ 63" by simp
    have k: "pb_get_encoded_size n E () fds src = Some (Some (length bs))"
      using writes_sizing [OF w, of "()"] Some l by (auto simp: pb_get_encoded_size_def)
    have r: "room ?s (length bs) \<longleftrightarrow> length bs \<le> bufsz" by (simp add: room_def pb_ostream_from_buffer_def)
    have "bytes_written (put ?s bs) = length bs \<and> o_buf (put ?s bs) = bs"
      by (simp add: put_def pb_ostream_from_buffer_def)
    with w lib r obtain ok t where "pb_encode n E ?s fds src = Some (ok, t)" "ok \<longleftrightarrow> length bs \<le> bufsz"
        "ok \<longrightarrow> bytes_written t = length bs \<and> length (o_buf t) = length bs"
      unfolding Some writes_gives by (cases "length bs \<le> bufsz") (metis, blast)
    with k show ?thesis by (intro exI [of _ ok] exI [of _ t]) simp
  qed
qed

theorem encoded_size_exact_witness:
  "\<exists>t. pb_encode 3 demo_env (pb_ostream_from_buffer 11) 2 4096 = Some (True, t) \<and> bytes_written t = 11"
proof -
  note w = demo_callbacks
  have "pb_get_encoded_size 3 demo_env () 2 4096 = Some (Some 11)"
    using writes_sizing [OF message_callbacks.writes_message [OF w, of 3 2 4096], of "()"]
    by (auto simp: demo_out pb_get_encoded_size_def)
  with encoded_size_exact [OF w demo_out, of 11] show ?thesis by auto
qed

text \<open>C31: The encoder returns, in an environment that is \<open>ranked\<close>: no table has an extension field or a union without
  a field for its tag, and there is a rank of tables and addresses such that, in every table at every address of the memory, the submessages found there have a smaller
  rank (so the pointers form no cycle, in the message or elsewhere). Then \<open>pb_encode\<close> returns on every stream, and as many
  units of fuel as the rank of the message and one are enough.\<close>

theorem encoder_returns:
  assumes "ranked E rank" and "rank fds src < n"
  shows "\<exists>ok t. pb_encode n E s fds src = Some (ok, t)"
  using encode_returns [OF assms] by (auto simp: returns_def)

theorem encoder_returns_witness:
  "\<exists>ok t. pb_encode 3 demo_env (pb_ostream_from_buffer 16) 2 4096 = Some (ok, t)"
  using encoder_returns [OF demo_ranked] by simp

text \<open>The search for a field always returns, from any position; it finds a field exactly if one of the
  message has the tag (an extension marker does not count), and then the iterator is on such a field, with its
  address; if there is none the iterator is back where it began.\<close>

theorem field_search:
  assumes "valid_pos (d fds) k" and "tag \<noteq> 0"
  shows "\<exists>ok it. pb_field_iter_find d (iter_at d fds dest k) tag = Some (ok, it) \<and>
    (ok \<longleftrightarrow> (\<exists>j < nfields (d fds). tag_matches tag (d fds ! j))) \<and>
    (ok \<longrightarrow> (\<exists>j < nfields (d fds). it = iter_at d fds dest j \<and> tag_matches tag (d fds ! j) \<and>
        it_pData it = dest + field_offset (d fds) j)) \<and>
    (\<not> ok \<longrightarrow> it = iter_at d fds dest k)"
proof (rule find_iter_at [of d fds k tag dest, OF assms])
  fix j
  assume "pb_field_iter_find d (iter_at d fds dest k) tag = Some (True, iter_at d fds dest j)"
    and "j < nfields (d fds)" and "tag_matches tag (d fds ! j)"
  then show ?thesis by (intro exI [of _ True] exI [of _ "iter_at d fds dest j"]) auto
next
  assume "pb_field_iter_find d (iter_at d fds dest k) tag = Some (False, iter_at d fds dest k)"
    and "\<forall>j < nfields (d fds). \<not> tag_matches tag (d fds ! j)"
  then show ?thesis by (intro exI [of _ False] exI [of _ "iter_at d fds dest k"]) auto
qed

text \<open>C32: \<open>pb_field_iter_begin\<close> and \<open>pb_field_iter_next\<close> visit the fields of a message in order, each once, and a field
  that the next one does not share a union with ends before any later field begins. (Fields that share a union have the
  same address and do overlap; of a union, the statement is about the last field.) After the last field the iterator is back
  at the first one.\<close>

theorem fields_disjoint:
  assumes "i < j" and "j < nfields (d fds)" and "\<not> continues_union (d fds ! i) (d fds ! Suc i)"
  shows "let visit = visited d fds dest in it_field d (visit i) = d fds ! i \<and> it_field d (visit j) = d fds ! j \<and>
    it_pData (visit i) + field_space (d fds ! i) \<le> it_pData (visit j) \<and>
    visit (nfields (d fds)) = visit 0"
proof -
  let ?visit = "visited d fds dest"
  have v: "?visit k = iter_at d fds dest k" if "k < nfields (d fds)" for k
    using that by (induction k) (simp_all add: visited_def begin_iter_at next_iter_at)
  have "?visit (nfields (d fds)) = iter_at d fds dest 0"
    using v [of "nfields (d fds) - 1"] assms(2) next_iter_at [of "nfields (d fds) - 1" d fds dest]
    by (cases "nfields (d fds)") (simp_all add: visited_def)
  moreover have "field_offset (d fds) i + field_space (d fds ! i) \<le> field_offset (d fds) j"
    using assms(1) by (induction j) (auto simp: less_Suc_eq assms(3))
  ultimately show ?thesis using assms(1,2) by (simp add: v field_at_nth Let_def)
qed

theorem fields_disjoint_witness:
  "it_pData (visited demo_tables 1 8192 0) + 8 \<le> it_pData (visited demo_tables 1 8192 1)"
proof -
  have "nfields (demo_tables 1) = 2" "\<not> continues_union (demo_tables 1 ! 0) (demo_tables 1 ! Suc 0)"
      "field_space (demo_tables 1 ! 0) = 8"
    by (simp_all add: demo_simps)
  with fields_disjoint [of 0 1 demo_tables 1 8192] show ?thesis by (simp add: Let_def)
qed

end
