(* ===== verification/Nanopb.thy ===== *)
theory Nanopb
  imports Pb_Wire "HOL-Library.Code_Target_Nat"
begin

text \<open>
  The properties of nanopb at the wire level: round trips of the scalar encodings, of tagged fields
  and of packed arrays through the buffer streams, the frame of the readers, the bound of the writer.
\<close>

section \<open>Streams at a position\<close>

lemma fits_from_buffer: "n \<le> m \<Longrightarrow> m < 2 ^ 64 \<Longrightarrow> fits (pb_ostream_from_buffer m) n"
  by (simp add: fits_def pb_ostream_from_buffer_def)

lemma starts_from_buffer: "starts (pb_istream_from_buffer (bs @ rest) (length (bs @ rest))) bs"
  by (simp add: starts_def pb_istream_from_buffer_def)

lemma adv_from_buffer:
  "adv (pb_istream_from_buffer (bs @ rest) (length (bs @ rest))) (length bs) =
   pb_istream_from_buffer rest (length rest)"
  by (simp add: adv_def pb_istream_from_buffer_def)

lemma o_buf_from_buffer [simp]: "o_buf (pb_ostream_from_buffer m) = []"
  by (simp add: pb_ostream_from_buffer_def)

lemma bytes_left_from_buffer [simp]: "bytes_left (pb_istream_from_buffer bs n) = n"
  by (simp add: pb_istream_from_buffer_def)

text \<open>One tagged value, as the serializer writes it: the tag, then the value by its wire type.\<close>

fun put_value :: "'st pb_ostream \<Rightarrow> wire_val \<Rightarrow> bool \<times> 'st pb_ostream" where
  "put_value s (WVarint v) = pb_encode_varint s v"
| "put_value s (W64 v) = pb_encode_fixed64 s v"
| "put_value s (WString bs) = pb_encode_string s bs (length bs)"
| "put_value s (W32 w) = pb_encode_fixed32 s w"

fun put_fields :: "'st pb_ostream \<Rightarrow> (u32 \<times> wire_val) list \<Rightarrow> bool \<times> 'st pb_ostream" where
  "put_fields s [] = (True, s)"
| "put_fields s ((f, p) # fs) =
     (case pb_encode_tag s (wire_type_of p) f of
        (False, s') \<Rightarrow> (False, s')
      | (True, s') \<Rightarrow>
          (case put_value s' p of
             (False, s'') \<Rightarrow> (False, s'')
           | (True, s'') \<Rightarrow> put_fields s'' fs))"

text \<open>The reading side of the serializer: a tag, then the reader of its wire type, up to the end.\<close>

definition get_value :: "'st pb_istream \<Rightarrow> u32 \<Rightarrow> wire_val option \<times> 'st pb_istream" where
  "get_value s wire_type =
     (if wire_type = PB_WT_VARINT then map_prod (map_option WVarint) id (pb_decode_varint s)
      else if wire_type = PB_WT_64BIT then map_prod (map_option W64) id (pb_decode_fixed64 s)
      else if wire_type = PB_WT_STRING then
        (case pb_make_string_substream s of
           (None, s') \<Rightarrow> (None, s')
         | (Some sub, s') \<Rightarrow>
             (case pb_read sub True (bytes_left sub) of
                (None, sub') \<Rightarrow> (None, s')
              | (Some bs, sub') \<Rightarrow>
                  (case pb_close_string_substream s' sub' of
                     (False, s'') \<Rightarrow> (None, s'')
                   | (True, s'') \<Rightarrow> (Some (WString bs), s''))))
      else if wire_type = PB_WT_32BIT then map_prod (map_option W32) id (pb_decode_fixed32 s)
      else in_error s ''invalid wire_type'')"

fun get_fields :: "nat \<Rightarrow> 'st pb_istream \<Rightarrow> (u32 \<times> wire_val) list option \<times> 'st pb_istream" where
  "get_fields 0 s = (None, s)"
| "get_fields (Suc n) s =
     (case pb_decode_tag s of
        (Tag_eof, s') \<Rightarrow> (Some [], s')
      | (Tag_fail, s') \<Rightarrow> (None, s')
      | (Tag w f, s') \<Rightarrow>
          (case get_value s' w of
             (None, s'') \<Rightarrow> (None, s'')
           | (Some p, s'') \<Rightarrow>
               (case get_fields n s'' of
                  (None, t) \<Rightarrow> (None, t)
                | (Some fs, t) \<Rightarrow> (Some ((f, p) # fs), t))))"

text \<open>The same scan without a descriptor: every field is unknown and skipped.\<close>

fun skip_fields :: "nat \<Rightarrow> 'st pb_istream \<Rightarrow> bool \<times> 'st pb_istream" where
  "skip_fields 0 s = (False, s)"
| "skip_fields (Suc n) s =
     (case pb_decode_tag s of
        (Tag_eof, s') \<Rightarrow> (True, s')
      | (Tag_fail, s') \<Rightarrow> (False, s')
      | (Tag w f, s') \<Rightarrow>
          (case pb_skip_field s' w of
             (False, s'') \<Rightarrow> (False, s'')
           | (True, s'') \<Rightarrow> skip_fields n s''))"

fun fields_bytes :: "(u32 \<times> wire_val) list \<Rightarrow> bytes" where
  "fields_bytes [] = []"
| "fields_bytes ((f, p) # fs) =
     varint (tag_word (wire_type_of p) f) @ wire_bytes p @ fields_bytes fs"

definition field_ok :: "u32 \<times> wire_val \<Rightarrow> bool" where
  "field_ok fp \<longleftrightarrow> fst fp \<noteq> 0 \<and> unat (fst fp) < 2 ^ 29 \<and> wire_ok (snd fp)"

lemma wire_type_small: "unat (wire_type_of p) < 8"
  by (cases p) simp_all

lemma put_value_fits:
  "fits s (length (wire_bytes p)) \<Longrightarrow> put_value s p = (True, emit s (wire_bytes p))"
  by (cases p) (simp_all add: stream_simps)

lemma put_fields_fits:
  "fits s (length (fields_bytes fs)) \<Longrightarrow> put_fields s fs = (True, emit s (fields_bytes fs))"
proof (induction fs arbitrary: s)
  case (Cons fp fs)
  obtain f p where fp: "fp = (f, p)" by force
  let ?t = "varint (tag_word (wire_type_of p) f)"
  have "fits s (length ?t)" "fits (emit s ?t) (length (wire_bytes p))"
    "fits (emit (emit s ?t) (wire_bytes p)) (length (fields_bytes fs))"
    using Cons.prems by (simp_all add: fp add.assoc) (auto elim: fits_mono)
  with Cons.IH show ?case by (simp add: fp pb_encode_tag_fits put_value_fits)
qed simp

lemma get_value_starts:
  assumes "wire_ok p" and "starts s (wire_bytes p)"
  shows "get_value s (wire_type_of p) = (Some p, adv s (length (wire_bytes p)))"
proof (cases p)
  case (WString bs)
  with assms have ok: "length bs < 2 ^ 32" "starts s (string_bytes bs)" by simp_all
  from ok obtain sub t where "pb_make_string_substream s = (Some sub, t)" "starts sub bs"
    "bytes_left sub = length bs" "pb_close_string_substream t (adv sub (length bs)) = (True, adv s (length (string_bytes bs)))"
    by (rule whole_substream)
  then show ?thesis using pb_read_starts [of sub bs True] by (simp add: WString get_value_def)
qed (use assms in \<open>simp_all add: get_value_def stream_simps\<close>)

lemma wire_bytes_not_Nil [simp]: "wire_bytes p \<noteq> []"
  by (cases p) (simp_all add: string_bytes_def)

lemma fields_bytes_length: "length fs \<le> length (fields_bytes fs)"
proof (induction fs rule: fields_bytes.induct)
  case (2 f p fs)
  have "Suc 0 \<le> length (wire_bytes p)" by (simp add: Suc_le_eq)
  with 2 show ?case unfolding fields_bytes.simps length_append list.size by linarith
qed simp

lemma pb_decode_tag_end: "bytes_left s = 0 \<Longrightarrow> fst (pb_decode_tag s) = Tag_eof"
  by (simp add: pb_decode_tag_def pb_decode_varint32_eof_def pb_readbyte_def in_error_def)

lemma scan_step:
  assumes "\<forall>fp\<in>set ((f, p) # fs). field_ok fp" and "starts s (fields_bytes ((f, p) # fs))"
  defines "t \<equiv> length (varint (tag_word (wire_type_of p) f))"
  shows "pb_decode_tag s = (Tag (wire_type_of p) f, adv s t) \<and>
    get_value (adv s t) (wire_type_of p) = (Some p, adv s (t + length (wire_bytes p))) \<and>
    pb_skip_field (adv s t) (wire_type_of p) = (True, adv s (t + length (wire_bytes p))) \<and>
    starts (adv s (t + length (wire_bytes p))) (fields_bytes fs)"
proof -
  have s: "starts s (varint (tag_word (wire_type_of p) f))" "starts (adv s t) (wire_bytes p)"
    "starts (adv s (t + length (wire_bytes p))) (fields_bytes fs)"
    using assms(2) by (simp_all add: starts_append t_def)
  have ok: "f \<noteq> 0" "unat f < 2 ^ 29" "wire_ok p" using assms(1) by (simp_all add: field_ok_def)
  show ?thesis
    using pb_decode_tag_starts [OF ok(2) wire_type_small ok(1) s(1)]
      get_value_starts [OF ok(3) s(2)] pb_skip_field_starts [OF ok(3) s(2)] s(3) by (simp add: t_def)
qed

text \<open>The fields of a list are read back, in order, from a stream that holds nothing else.\<close>

lemma scan_fields:
  assumes "\<forall>fp\<in>set fs. field_ok fp" and "starts s (fields_bytes fs)"
    and "bytes_left s = length (fields_bytes fs)" and "length fs < n"
  shows "\<exists>s'. get_fields n s = (Some fs, s') \<and> bytes_left s' = 0"
    and "\<exists>s'. skip_fields n s = (True, s') \<and> bytes_left s' = 0"
  using assms
proof (induction fs arbitrary: s n)
  case Nil
  case 1
  then obtain m where "n = Suc m" by (cases n) auto
  moreover obtain s' where "pb_decode_tag s = (Tag_eof, s')"
    using pb_decode_tag_end [of s] 1 by (cases "pb_decode_tag s") auto
  moreover from this 1 have "bytes_left s' = 0"
    by (auto simp: pb_decode_tag_def pb_decode_varint32_eof_def pb_readbyte_def in_error_def)
  ultimately show ?case by simp
next
  case Nil
  case 2
  then obtain m where "n = Suc m" by (cases n) auto
  moreover obtain s' where "pb_decode_tag s = (Tag_eof, s')"
    using pb_decode_tag_end [of s] 2 by (cases "pb_decode_tag s") auto
  moreover from this 2 have "bytes_left s' = 0"
    by (auto simp: pb_decode_tag_def pb_decode_varint32_eof_def pb_readbyte_def in_error_def)
  ultimately show ?case by simp
next
  case (Cons fp fs)
  obtain f p where fp: "fp = (f, p)" by force
  let ?t = "varint (tag_word (wire_type_of p) f)"
  note step = scan_step [of f p fs, folded fp]
  {
    case 1
    then obtain m where n: "n = Suc m" by (cases n) auto
    have "bytes_left (adv s (length ?t + length (wire_bytes p))) = length (fields_bytes fs)"
      using 1 by (simp add: fp)
    with Cons.IH(1) [of "adv s (length ?t + length (wire_bytes p))" m] step [OF 1(1,2)] 1 n
    show ?case by (auto simp: fp)
  next
    case 2
    then obtain m where n: "n = Suc m" by (cases n) auto
    have "bytes_left (adv s (length ?t + length (wire_bytes p))) = length (fields_bytes fs)"
      using 2 by (simp add: fp)
    with Cons.IH(2) [of "adv s (length ?t + length (wire_bytes p))" m] step [OF 2(1,2)] 2 n
    show ?case by (auto simp: fp)
  }
qed

lemma starts_whole: "starts (pb_istream_from_buffer bs (length bs)) bs"
  using starts_from_buffer [of bs "[]"] by simp


lemma varint_length_lower: "drop_bit (7 * k) v \<noteq> 0 \<Longrightarrow> k < length (varint v)"
proof (induction k arbitrary: v)
  case 0
  then show ?case by simp
next
  case (Suc k)
  have d: "drop_bit (7 * k) (drop_bit 7 v) \<noteq> 0"
    using Suc.prems by (simp only: drop_bit_add mult_Suc_right) simp
  note IH = Suc.IH [OF d]
  have "drop_bit 7 v \<noteq> 0" using d by (rule contrapos_nn) simp
  with IH show ?case by (simp add: varint.simps [of v] le_0x7F_iff)
qed

section \<open>The properties\<close>

text \<open>C1: A protocol-buffer message survives the wire. Whatever fields, with numbers and lengths in
  the range of the format, are written to a buffer that can hold them, the bytes in the buffer are
  read back as the same fields in the same order, and a reader that knows none of them skips them all
  and stops exactly at the end.\<close>

theorem fields_roundtrip:
  assumes "\<forall>fp\<in>set fs. field_ok fp" and "length (fields_bytes fs) \<le> m" and "m < 2 ^ 64"
  shows "\<exists>out s1 s2. put_fields (pb_ostream_from_buffer m) fs = (True, out) \<and>
    get_fields (Suc (length fs)) (pb_istream_from_buffer (o_buf out) (length (o_buf out))) = (Some fs, s1) \<and>
    skip_fields (Suc (length fs)) (pb_istream_from_buffer (o_buf out) (length (o_buf out))) = (True, s2) \<and>
    bytes_left s1 = 0 \<and> bytes_left s2 = 0"
proof -
  let ?out = "emit (pb_ostream_from_buffer m) (fields_bytes fs)"
  have "put_fields (pb_ostream_from_buffer m) fs = (True, ?out)"
    by (rule put_fields_fits [OF fits_from_buffer [OF assms(2,3)]])
  moreover have "bytes_left (pb_istream_from_buffer (fields_bytes fs) (length (fields_bytes fs))) =
      length (fields_bytes fs)" by (simp add: pb_istream_from_buffer_def)
  note scan_fields [OF assms(1) starts_whole this lessI]
  ultimately show ?thesis by auto
qed

lemma fields_roundtrip_witness:
  "\<exists>out s1. put_fields (pb_ostream_from_buffer 20) [(1, WVarint 300), (2, WString [7, 8]), (3, W32 5)] = (True, out) \<and>
    get_fields 4 (pb_istream_from_buffer (o_buf out) (length (o_buf out))) =
      (Some [(1, WVarint 300), (2, WString [7, 8]), (3, W32 5)], s1)"
proof -
  let ?fs = "[(1, WVarint 300), (2, WString [7, 8]), (3, W32 5)]"
  have ok: "\<forall>fp\<in>set ?fs. field_ok fp" by (simp add: field_ok_def)
  have len: "length (fields_bytes ?fs) \<le> 20" by code_simp
  have n: "Suc (length ?fs) = 4" by simp
  have lt: "(20 :: nat) < 2 ^ 64" by simp
  show ?thesis using fields_roundtrip [OF ok len lt, unfolded n] by blast
qed

text \<open>C40: Variable-length integers. Every 64-bit value takes at most ten bytes and is read back,
  whatever follows it in the buffer.\<close>

theorem varint_roundtrip:
  "\<exists>out. pb_encode_varint (pb_ostream_from_buffer 10) v = (True, out) \<and> length (o_buf out) \<le> 10 \<and>
     pb_decode_varint (pb_istream_from_buffer (o_buf out @ rest) (length (o_buf out @ rest))) =
       (Some v, pb_istream_from_buffer rest (length rest))"
proof -
  have "fits (pb_ostream_from_buffer 10) (length (varint v))"
    by (rule fits_from_buffer [OF varint_length(1)]) simp
  from pb_encode_varint_fits [OF this]
    pb_decode_varint_starts [OF starts_from_buffer [of "varint v" rest]]
  show ?thesis using varint_length(1) [of v] unfolding adv_from_buffer by simp
qed

text \<open>Negative 32-bit numbers, which the encoder extends to 64 bits and writes in ten bytes, are
  accepted by the 32-bit decoder, which reads the ten bytes and returns the number.\<close>

theorem varint32_sign_extended:
  assumes "bit w 31"
  shows "\<exists>out. pb_encode_varint (pb_ostream_from_buffer 10) (scast (w :: u32)) = (True, out) \<and>
     pb_decode_varint32 (pb_istream_from_buffer (o_buf out @ rest) (length (o_buf out @ rest))) =
       (Some w, pb_istream_from_buffer rest (length rest))"
proof -
  let ?b = "varint (scast w)"
  have "fits (pb_ostream_from_buffer 10) (length ?b)"
    by (rule fits_from_buffer [OF varint_length(1)]) simp
  note e = pb_encode_varint_fits [OF this]
  have "drop_bit (7 * 9) (scast w :: u64) \<noteq> 0"
  proof
    assume "drop_bit (7 * 9) (scast w :: u64) = 0"
    then have "\<not> bit (drop_bit (7 * 9) (scast w :: u64)) 0" by simp
    with assms show False by (simp add: bit_simps)
  qed
  then have "length ?b = 10" using varint_length_lower [of 9] varint_length(1) [of "scast w"] by fastforce
  then show ?thesis
    using e pb_decode_varint32_sign [OF assms starts_from_buffer [of ?b rest]]
      adv_from_buffer [of ?b rest] by simp
qed

text \<open>Packed arrays of zigzag integers. The items written by the array loop are read back by the
  packed-array loop, which uses up the whole substream, when the array has room for them.\<close>

theorem packed_svarint_roundtrip:
  assumes "length (concat (map (\<lambda>v. varint (zigzag v)) xs)) \<le> m" and "m < 2 ^ 64"
    and "length xs \<le> room"
  shows "\<exists>out t. encode_items pb_encode_svarint (pb_ostream_from_buffer m) xs = (True, out) \<and>
    decode_items pb_decode_svarint (pb_istream_from_buffer (o_buf out) (length (o_buf out))) room =
      (xs, True, t) \<and> bytes_left t = 0"
  using svarint_codec.encode_items_fits [OF fits_from_buffer [OF assms(1,2)]]
    svarint_codec.decode_items_starts [OF starts_whole _ assms(3)]
  by simp

text \<open>Packed arrays of fixed-width integers, in the same way.\<close>

lemma packed_fixed64_roundtrip:
  assumes "8 * length xs \<le> m" and "m < 2 ^ 64" and "length xs \<le> room"
  shows "\<exists>out t. encode_items pb_encode_fixed64 (pb_ostream_from_buffer m) xs = (True, out) \<and>
    length (o_buf out) = 8 * length xs \<and>
    decode_items pb_decode_fixed64 (pb_istream_from_buffer (o_buf out) (length (o_buf out))) room =
      (xs, True, t) \<and> bytes_left t = 0"
proof -
  have l: "length (concat (map fixed64_bytes xs)) = 8 * length xs" by (induction xs) simp_all
  have "length (concat (map fixed64_bytes xs)) \<le> m" using assms(1) l by simp
  from fixed64_codec.encode_items_fits [OF fits_from_buffer [OF this assms(2)]]
    fixed64_codec.decode_items_starts [OF starts_whole _ assms(3)] l
  show ?thesis by simp
qed

section \<open>Frames\<close>

lemma moved_decode_varint32_eof:
  "i_callback s = Buf_read \<Longrightarrow> pb_decode_varint32_eof s = (r, s') \<Longrightarrow> moved s s'"
proof -
  assume b: "i_callback s = Buf_read" and e: "pb_decode_varint32_eof s = (r, s')"
  have "s' = snd (pb_decode_varint32 s)"
    using e by (simp add: pb_decode_varint32_def split: prod.splits)
  then show ?thesis using moved_pb_decode_varint32 [OF b, of "fst (pb_decode_varint32 s)" s'] by simp
qed

lemma moved_pb_decode_tag:
  "i_callback s = Buf_read \<Longrightarrow> pb_decode_tag s = (r, s') \<Longrightarrow> moved s s'"
  by (auto simp: pb_decode_tag_def dest: moved_decode_varint32_eof split: prod.splits option.splits if_splits)

lemma moved_skip_bytes:
  "i_callback s = Buf_read \<Longrightarrow> skip_bytes s n = (r, s') \<Longrightarrow> moved s s'"
  by (auto simp: skip_bytes_def dest: moved_pb_read split: prod.splits)

lemma moved_pb_skip_varint:
  "i_callback s = Buf_read \<Longrightarrow> pb_skip_varint s = (r, s') \<Longrightarrow> moved s s'"
proof (induction s rule: pb_skip_varint.induct)
  case (1 s)
  obtain q t where q: "pb_read s True 1 = (q, t)" by force
  have t: "moved s t" by (rule moved_pb_read [OF "1.prems"(1) q])
  show ?case
  proof (cases q)
    case None
    with "1.prems"(2) q t show ?thesis by (simp add: pb_skip_varint.simps [of s])
  next
    case (Some bs)
    show ?thesis
    proof (cases "hd bs AND 0x80 \<noteq> 0")
      case True
      have "pb_skip_varint t = (r, s')"
        using "1.prems"(2) q Some True by (simp add: pb_skip_varint.simps [of s])
      moreover have "i_callback t = Buf_read" using moved_callback [OF t] "1.prems"(1) by simp
      ultimately have "moved t s'" using "1.IH" [OF q [symmetric] Some True] by blast
      with t show ?thesis by (rule moved_trans)
    next
      case False
      with "1.prems"(2) q Some t show ?thesis by (simp add: pb_skip_varint.simps [of s])
    qed
  qed
qed

lemma moved_pb_skip_string:
  assumes "i_callback s = Buf_read" and "pb_skip_string s = (r, s')"
  shows "moved s s'"
proof -
  obtain q t where q: "pb_decode_varint32 s = (q, t)" by force
  have t: "moved s t" by (rule moved_pb_decode_varint32 [OF assms(1) q])
  have b: "i_callback t = Buf_read" using moved_callback [OF t] assms(1) by simp
  show ?thesis
    using assms(2) q t moved_trans [OF t moved_skip_bytes [OF b]]
    by (auto simp: pb_skip_string_def split: option.splits)
qed

lemma moved_pb_skip_field:
  "i_callback s = Buf_read \<Longrightarrow> pb_skip_field s w = (r, s') \<Longrightarrow> moved s s'"
  by (auto simp: pb_skip_field_def dest: moved_skip_bytes moved_pb_skip_varint moved_pb_skip_string
      moved_in_fail split: if_splits)

text \<open>The readers stay inside their buffer. On any input whatever, hostile or cut short, a scan of
  unknown fields moves the read pointer forward by some number of bytes that were announced as left,
  and takes exactly that number off \<open>bytes_left\<close>; the same holds for each reader of a value.\<close>

theorem skip_fields_in_bounds:
  assumes "i_callback s = Buf_read" and "skip_fields n s = (r, s')"
  shows "\<exists>k \<le> bytes_left s. i_src s' = drop k (i_src s) \<and> bytes_left s' = bytes_left s - k"
proof -
  have "moved s s'" using assms
  proof (induction n arbitrary: s)
    case (Suc n)
    obtain g t where g: "pb_decode_tag s = (g, t)" by force
    have t: "moved s t" by (rule moved_pb_decode_tag [OF Suc.prems(1) g])
    have b: "i_callback t = Buf_read" using moved_callback [OF t] Suc.prems(1) by simp
    show ?case
    proof (cases g)
      case (Tag w f)
      obtain ok u where k: "pb_skip_field t w = (ok, u)" by force
      have u: "moved s u" by (rule moved_trans [OF t moved_pb_skip_field [OF b k]])
      have bu: "i_callback u = Buf_read" using moved_callback [OF u] Suc.prems(1) by simp
      show ?thesis
        using Suc.prems(2) g Tag k u moved_trans [OF u Suc.IH [OF bu]] by (cases ok) auto
    qed (use Suc.prems(2) g t in auto)
  qed simp
  then show ?thesis by (auto simp: moved_def)
qed

text \<open>The writer stays inside its buffer. A buffer stream that holds as many bytes as it counts,
  and no more than \<open>max_size\<close>, still does after any write of a block that exists in memory next to
  it, whether the write succeeds or not; it succeeds exactly when the block fits, and a failed write
  leaves the buffer and the count alone.\<close>

theorem pb_write_in_bounds:
  assumes "ostream_ok s" and "n \<le> length buf" and "length (o_buf s) + length buf < 2 ^ 64"
    and "pb_write s buf n = (ok, s')"
  shows "ostream_ok s' \<and> (ok \<longleftrightarrow> bytes_written s + n \<le> max_size s) \<and>
    o_buf s' = o_buf s @ (if ok then take n buf else [])"
proof -
  have n: "bytes_written s + n < 2 ^ 64" and c: "o_callback s = Buf_write"
    using assms(1-3) by (simp_all add: ostream_ok_def)
  then show ?thesis
    using assms
    by (auto simp: pb_write_def ostream_ok_def buf_write_def out_error_def split: if_splits)
qed

lemma decode_varint32_loop_pad:
  "starts s (replicate k 0x80 @ bs) \<Longrightarrow>
   decode_varint32_loop s n a = decode_varint32_loop (adv s k) (n + of_nat (7 * k)) a"
proof (induction k arbitrary: s n)
  case (Suc k)
  have s: "starts s [0x80]" "starts (adv s 1) (replicate k 0x80 @ bs)"
    using Suc.prems starts_append [of s "[0x80]" "replicate k 0x80 @ bs"] by simp_all
  have "decode_varint32_loop s n a = decode_varint32_loop (adv s 1) (n + 7) a"
    by (subst decode_varint32_loop.simps) (simp add: pb_readbyte_starts [OF s(1)] Let_def)
  also have "\<dots> = decode_varint32_loop (adv s (Suc k)) (n + of_nat (7 * Suc k)) a"
    using Suc.IH [OF s(2), of "n + 7"] by (simp add: add.assoc)
  finally show ?case .
qed simp

lemma varint32_wrap:
  "fst (pb_decode_varint32 (pb_istream_from_buffer (replicate 37 0x80 @ [0x01]) 38)) = Some 8"
proof -
  let ?s = "pb_istream_from_buffer (replicate 37 0x80 @ [0x01]) 38"
  have s: "starts ?s (replicate 37 0x80 @ [0x01])" "starts (adv ?s 37) [0x01]"
    by (simp_all add: starts_def pb_istream_from_buffer_def)
  have w: "(259 :: u8) = 3" by (simp add: u8_eq_iff)
  have "decode_varint32_loop ?s 0 0 = decode_varint32_loop (adv ?s 37) 3 0"
    using decode_varint32_loop_pad [OF s(1), of 0 0] by (simp add: w)
  also have "\<dots> = (Some 8, adv (adv ?s 37) 1)"
    using decode_varint32_loop_last [OF _ s(2), of 3 0] by simp
  finally show ?thesis by (simp add: pb_decode_varint32_eq)
qed

text \<open>The 32-bit decoder does not refuse every value that is too large. A digit at bit 28 with
  no bit below 32 in it, followed by a terminating zero byte, drops a set bit 32 unseen; and after 37
  continuation bytes the 8-bit position counter has wrapped round, so that the next digit is taken for
  a low one. Both inputs are accepted with a value that is not the one encoded.\<close>

theorem varint32_overflow_accepted:
  "fst (pb_decode_varint32 (pb_istream_from_buffer [0x80, 0x80, 0x80, 0x80, 0x90, 0x00] 6)) = Some 0 \<and>
   fst (pb_decode_varint32 (pb_istream_from_buffer (replicate 37 0x80 @ [0x01]) 38)) = Some 8 \<and>
   fst (pb_decode_varint (pb_istream_from_buffer [0x80, 0x80, 0x80, 0x80, 0x90, 0x00] 6)) =
     Some 0x100000000"
proof (intro conjI)
  show "fst (pb_decode_varint32 (pb_istream_from_buffer [0x80, 0x80, 0x80, 0x80, 0x90, 0x00] 6)) = Some 0"
    by (simp add: pb_decode_varint32_eq decode_varint32_loop.simps pb_readbyte_def call_in_def
        buf_read_def pb_istream_from_buffer_def word_less_nat_alt word_le_nat_alt)
  show "fst (pb_decode_varint (pb_istream_from_buffer [0x80, 0x80, 0x80, 0x80, 0x90, 0x00] 6)) =
     Some 0x100000000"
    by (simp add: pb_decode_varint_def decode_varint_loop.simps pb_readbyte_def call_in_def
        buf_read_def pb_istream_from_buffer_def)
qed (rule varint32_wrap)

end
