(* ===== verification/Pb_Decode_Spec.thy ===== *)
theory Pb_Decode_Spec
  imports Pb_Decode Messages Nanopb
begin

text \<open>
  What the decoder may do to the memory and to the stream, and that it returns. \<open>safe A b g\<close> says that
  the step \<open>g\<close>, started on a buffer stream with at most \<open>b\<close> bytes left, returns, writes only at addresses
  of \<open>A\<close>, and does not read past the bytes the stream had left.
\<close>

section \<open>Streams\<close>

definition within :: "'st pb_istream \<Rightarrow> 'st pb_istream \<Rightarrow> bool" where
  "within s t \<longleftrightarrow> i_callback t = i_callback s \<and> i_user t = i_user s \<and>
     (\<exists>k. i_src t = drop k (i_src s) \<and> k + bytes_left t \<le> bytes_left s)"

lemma within_refl [simp, intro]: "within s s"
  by (auto simp: within_def intro: exI [of _ 0])

lemma within_trans [trans]: "within s t \<Longrightarrow> within t u \<Longrightarrow> within s u"
proof -
  assume st: "within s t" and tu: "within t u"
  from st obtain j where "i_src t = drop j (i_src s)" "j + bytes_left t \<le> bytes_left s"
    by (auto simp: within_def)
  moreover from tu obtain k where "i_src u = drop k (i_src t)" "k + bytes_left u \<le> bytes_left t"
    by (auto simp: within_def)
  ultimately have "i_src u = drop (k + j) (i_src s) \<and> k + j + bytes_left u \<le> bytes_left s" by simp
  with st tu show "within s u" unfolding within_def by (intro conjI exI [of _ "k + j"]) simp_all
qed

lemma within_callback: "within s t \<Longrightarrow> i_callback t = i_callback s"
  by (simp add: within_def)

lemma within_left: "within s t \<Longrightarrow> bytes_left t \<le> bytes_left s"
  by (auto simp: within_def)

lemma moved_within: "moved s t \<Longrightarrow> within s t"
  unfolding moved_def within_def by auto

lemma within_errmsg [simp]: "within s (t\<lparr>i_errmsg := e\<rparr>) \<longleftrightarrow> within s t"
  by (simp add: within_def)

lemma within_fewer: "within s t \<Longrightarrow> n \<le> bytes_left t \<Longrightarrow> within s (t\<lparr>bytes_left := n\<rparr>)"
  by (fastforce simp: within_def)

text \<open>A reader that stays within the stream; a strict one reads something if it succeeds.\<close>

definition reader :: "('st pb_istream \<Rightarrow> 'a option \<times> 'st pb_istream) \<Rightarrow> bool" where
  "reader rd \<longleftrightarrow> (\<forall>s r t. i_callback s = Buf_read \<longrightarrow> rd s = (r, t) \<longrightarrow> within s t)"

definition strict :: "('st pb_istream \<Rightarrow> 'a option \<times> 'st pb_istream) \<Rightarrow> bool" where
  "strict rd \<longleftrightarrow> (\<forall>s x t. rd s = (Some x, t) \<longrightarrow> bytes_left t < bytes_left s)"

lemma readerI: "(\<And>s r t. i_callback s = Buf_read \<Longrightarrow> rd s = (r, t) \<Longrightarrow> moved s t) \<Longrightarrow> reader rd"
  unfolding reader_def by (blast intro: moved_within)

lemma readerD: "reader rd \<Longrightarrow> i_callback s = Buf_read \<Longrightarrow> rd s = (r, t) \<Longrightarrow> within s t"
  unfolding reader_def by blast

lemma strictD: "strict rd \<Longrightarrow> rd s = (Some x, t) \<Longrightarrow> bytes_left t < bytes_left s"
  unfolding strict_def by blast

lemma reader_varint: "reader pb_decode_varint"
  by (rule readerI) (rule moved_pb_decode_varint)

lemma reader_varint32: "reader pb_decode_varint32"
  by (rule readerI) (rule moved_pb_decode_varint32)

lemma reader_svarint: "reader pb_decode_svarint"
  by (rule readerI) (auto simp: pb_decode_svarint_def dest: moved_pb_decode_varint split: prod.splits option.splits)

lemma reader_fixed32: "reader pb_decode_fixed32"
  by (rule readerI) (auto simp: pb_decode_fixed32_def dest: moved_pb_read split: prod.splits option.splits)

lemma reader_fixed64: "reader pb_decode_fixed64"
  by (rule readerI) (auto simp: pb_decode_fixed64_def dest: moved_pb_read split: prod.splits option.splits)

lemma reader_read: "reader (\<lambda>t. pb_read t d n)"
  by (rule readerI) (rule moved_pb_read)

lemma decode_varint_loop_strict:
  "decode_varint_loop s n a = (Some v, t) \<Longrightarrow> bytes_left t < bytes_left s"
proof (induction s n a rule: decode_varint_loop.induct)
  case (1 s n a)
  from "1.prems" have n: "\<not> 64 \<le> n" by (auto simp: decode_varint_loop.simps [of s] in_error_def)
  from "1.prems" n obtain b u where q: "pb_readbyte s = (Some b, u)"
    by (auto simp: decode_varint_loop.simps [of s] split: prod.splits option.splits)
  note l = pb_readbyte_left [OF q]
  from "1.IH" [OF n q [symmetric] refl refl] "1.prems" n q l show ?case
    by (auto simp: decode_varint_loop.simps [of s n] Let_def split: if_splits)
qed

lemma decode_varint32_loop_strict:
  "decode_varint32_loop s n a = (Some v, t) \<Longrightarrow> bytes_left t < bytes_left s"
proof (induction s n a arbitrary: v t rule: decode_varint32_loop.induct)
  case (1 s n a)
  from "1.prems" obtain b u where q: "pb_readbyte s = (Some b, u)"
    by (auto simp: decode_varint32_loop.simps [of s] split: prod.splits option.splits)
  note l = pb_readbyte_left [OF q]
  from "1.IH" [OF q [symmetric] refl refl _ refl refl] "1.prems" q l show ?case
    by (auto simp: decode_varint32_loop.simps [of s n] Let_def in_error_def
        intro: less_trans split: if_splits)
qed

lemma strict_varint: "strict pb_decode_varint"
  by (auto simp: strict_def pb_decode_varint_def dest: decode_varint_loop_strict)

lemma strict_varint32: "strict pb_decode_varint32"
  by (auto simp: strict_def pb_decode_varint32_eq dest: decode_varint32_loop_strict)

lemma strict_svarint: "strict pb_decode_svarint"
  using strict_varint by (auto simp: strict_def pb_decode_svarint_def split: prod.splits option.splits)

lemma strict_read: "0 < n \<Longrightarrow> strict (\<lambda>t. pb_read t d n)"
  by (auto simp: strict_def dest: pb_read_left)

lemma strict_fixed32: "strict pb_decode_fixed32"
  by (auto simp: strict_def pb_decode_fixed32_def dest!: pb_read_left split: prod.splits option.splits)

lemma strict_fixed64: "strict pb_decode_fixed64"
  by (auto simp: strict_def pb_decode_fixed64_def dest!: pb_read_left split: prod.splits option.splits)

lemma decode_tag_small: "pb_decode_tag s = (Tag w f, t) \<Longrightarrow> f \<noteq> - 1 \<and> f < - 1"
proof -
  assume "pb_decode_tag s = (Tag w f, t)"
  then obtain v :: u32 where "f = drop_bit 3 v"
    by (auto simp: pb_decode_tag_def split: prod.splits option.splits if_splits)
  then have "\<not> bit f 31" by (auto simp: bit_drop_bit_eq dest: bit_imp_le_length)
  then have "f \<noteq> - 1" by auto
  then show ?thesis by (simp add: word_neq_0_conv order.not_eq_order_implies_strict)
qed

lemma decode_tag_left: "pb_decode_tag s = (Tag w f, t) \<Longrightarrow> bytes_left t < bytes_left s"
proof -
  assume "pb_decode_tag s = (Tag w f, t)"
  then obtain v where "pb_decode_varint32_eof s = ((Some v, False), t) \<or> pb_decode_varint32_eof s = ((Some v, True), t)"
    by (auto simp: pb_decode_tag_def split: prod.splits option.splits if_splits)
  then have "pb_decode_varint32 s = (Some v, t)" by (auto simp: pb_decode_varint32_def)
  then show ?thesis by (rule strictD [OF strict_varint32])
qed

lemma moved_read_raw_varint:
  "i_callback s = Buf_read \<Longrightarrow> read_raw_varint s n k = (r, t) \<Longrightarrow> moved s t"
proof (induction s n k arbitrary: r t rule: read_raw_varint.induct)
  case (1 s n k)
  show ?case
  proof (cases "n < k + 1")
    case True
    with "1.prems"(2) show ?thesis by (simp add: read_raw_varint.simps [of s])
  next
    case False
    obtain q u where q: "pb_read s True 1 = (q, u)" by force
    have u: "moved s u" by (rule moved_pb_read [OF "1.prems"(1) q])
    have c: "i_callback u = Buf_read" using u "1.prems"(1) by (simp add: moved_callback)
    show ?thesis
    proof (cases q)
      case None
      with False q u "1.prems"(2) show ?thesis by (simp add: read_raw_varint.simps [of s])
    next
      case (Some bs)
      obtain r' v where r': "read_raw_varint u n (k + 1) = (r', v)" by force
      have "moved u v" if "hd bs AND 0x80 \<noteq> 0"
        using "1.IH" [OF False q [symmetric] Some that c r'] .
      with u have "moved s v" if "hd bs AND 0x80 \<noteq> 0" using that by (blast intro: moved_trans)
      with False q Some u r' "1.prems"(2) show ?thesis
        by (auto simp: read_raw_varint.simps [of s] split: if_splits option.splits)
    qed
  qed
qed

lemma reader_raw_value: "reader (\<lambda>t. read_raw_value t w n)"
  by (rule readerI) (auto simp: read_raw_value_def dest: moved_read_raw_varint moved_pb_read moved_in_error split: if_splits)

text \<open>A substream, and the parent stream when it is closed.\<close>

lemma substream_within:
  assumes b: "i_callback p = Buf_read" and m: "pb_make_string_substream p = (Some sub, t)"
  shows "i_callback sub = Buf_read" and "bytes_left sub < bytes_left p" and "within p t"
    and "within sub u \<Longrightarrow> within p (snd (pb_close_string_substream t u))"
proof -
  from m obtain sz t0 where v: "pb_decode_varint32 p = (Some sz, t0)" and le: "unat sz \<le> bytes_left t0"
    and sub: "sub = t0\<lparr>bytes_left := unat sz\<rparr>" and t: "t = t0\<lparr>bytes_left := bytes_left t0 - unat sz\<rparr>"
    by (auto simp: pb_make_string_substream_def in_error_def split: prod.splits option.splits if_splits)
  have w: "within p t0" by (rule readerD [OF reader_varint32 b v])
  show c: "i_callback sub = Buf_read" using within_callback [OF w] b sub by simp
  show "bytes_left sub < bytes_left p" using strictD [OF strict_varint32 v] le sub by simp
  show "within p t" unfolding t using w by (rule within_fewer) simp
  assume u: "within sub u"
  have cu: "i_callback u = Buf_read" using within_callback [OF u] c by simp
  obtain ok u' where u': "(if bytes_left u \<noteq> 0 then skip_bytes u (bytes_left u) else (True, u)) = (ok, u')"
    by (cases "if bytes_left u \<noteq> 0 then skip_bytes u (bytes_left u) else (True, u)")
  then have "within u u'"
    using moved_within [OF moved_skip_bytes [OF cu]] by (auto split: if_splits)
  with u have u'': "within sub u'" by (rule within_trans)
  show "within p (snd (pb_close_string_substream t u))"
  proof (cases ok)
    case False
    with u' w show ?thesis
      using within_fewer [OF w, of "bytes_left t0 - unat sz"]
      by (simp add: pb_close_string_substream_def t)
  next
    case True
    from u'' obtain k where k: "i_src u' = drop k (i_src t0)" "k + bytes_left u' \<le> unat sz" "i_user u' = i_user t0"
      by (auto simp: within_def sub)
    have "within t0 (t\<lparr>i_src := i_src u', i_user := i_user u', i_errmsg := i_errmsg u'\<rparr>)"
      unfolding within_def using k le by (intro conjI exI [of _ k]) (simp_all add: t)
    with w have "within p (t\<lparr>i_src := i_src u', i_user := i_user u', i_errmsg := i_errmsg u'\<rparr>)"
      by (rule within_trans)
    with u' True show ?thesis by (simp add: pb_close_string_substream_def)
  qed
qed

lemma reader_substream: "reader pb_make_string_substream"
  unfolding reader_def
proof (intro allI impI)
  fix s r t
  assume b: "i_callback s = Buf_read" and m: "pb_make_string_substream s = (r, t)"
  obtain q t0 where v: "pb_decode_varint32 s = (q, t0)" by force
  have w: "within s t0" by (rule readerD [OF reader_varint32 b v])
  with m v show "within s t"
    by (auto simp: pb_make_string_substream_def in_error_def within_fewer split: option.splits if_splits)
qed

section \<open>Steps\<close>

abbreviation left :: "('st, 'h) dec_state \<Rightarrow> nat" where "left s \<equiv> bytes_left (ds_in s)"
abbreviation on_buffer :: "('st, 'h) dec_state \<Rightarrow> bool" where "on_buffer s \<equiv> i_callback (ds_in s) = Buf_read"

definition frame :: "nat set \<Rightarrow> ('st, 'h) dec_state \<Rightarrow> ('st, 'h) dec_state \<Rightarrow> bool" where
  "frame A s t \<longleftrightarrow> within (ds_in s) (ds_in t) \<and> (\<forall>a. a \<notin> A \<longrightarrow> ds_mem t a = ds_mem s a)"

lemma frame_refl [simp, intro]: "frame A s s"
  by (simp add: frame_def)

lemma frame_trans [trans]: "frame A s t \<Longrightarrow> frame A t u \<Longrightarrow> frame A s u"
  by (auto simp: frame_def intro: within_trans)

lemma frame_buffer: "frame A s t \<Longrightarrow> on_buffer s \<Longrightarrow> on_buffer t"
  by (auto simp: frame_def dest: within_callback)

lemma frame_left: "frame A s t \<Longrightarrow> left t \<le> left s"
  by (simp add: frame_def within_left)

lemma frame_mono: "frame A s t \<Longrightarrow> A \<subseteq> B \<Longrightarrow> frame B s t"
  by (auto simp: frame_def)

lemma frame_stream: "within (ds_in s) t \<Longrightarrow> frame A s (s\<lparr>ds_in := t\<rparr>)"
  by (simp add: frame_def)

text \<open>A change of the memory inside \<open>A\<close>.\<close>

definition confined :: "nat set \<Rightarrow> (memory \<Rightarrow> memory) \<Rightarrow> bool" where
  "confined A f \<longleftrightarrow> (\<forall>m a. a \<notin> A \<longrightarrow> f m a = m a)"

lemma confined_id [simp]: "confined A (\<lambda>m. m)"
  by (simp add: confined_def)

lemma confined_wr_bytes: "{a..<a + length bs} \<subseteq> A \<Longrightarrow> confined A (\<lambda>m. wr_bytes m a bs)"
  by (auto simp: confined_def wr_bytes_app)

lemma confined_wr:
  "{a..<a + 2} \<subseteq> A \<Longrightarrow> confined A (wr_u16 a v2)"
  "{a..<a + 4} \<subseteq> A \<Longrightarrow> confined A (wr_u32 a v4)"
  "{a..<a + 8} \<subseteq> A \<Longrightarrow> confined A (wr_u64 a v8)"
  "{a..<a + 8} \<subseteq> A \<Longrightarrow> confined A (wr_ptr a p)"
  "{a..<a + 1} \<subseteq> A \<Longrightarrow> confined A (wr_bool a b)"
  "{a..<a + n} \<subseteq> A \<Longrightarrow> confined A (mem_set a n)"
  "{a..<a + 4} \<subseteq> A \<Longrightarrow> confined A (incr_u32 a)"
  by (auto simp: confined_def wr_u16_def wr_u32_def wr_u64_def wr_ptr_def wr_bool_def mem_set_def incr_u32_def
      wr_bytes_app)

lemma confined_store_int:
  "{a..<a + unat sz} \<subseteq> A \<Longrightarrow> confined A (store_int sz a v)"
  by (auto simp: store_int_def confined_def intro!: confined_wr [unfolded confined_def, rule_format])

lemma frame_upd_mem: "confined A f \<Longrightarrow> frame A s (upd_mem f s)"
  by (simp add: frame_def confined_def upd_mem_def)

text \<open>The result of a step that returns, from a state that was reached from \<open>s\<close>.\<close>

definition ok_at :: "nat set \<Rightarrow> ('st, 'h) dec_state \<Rightarrow> ('st, 'h) dec_result \<Rightarrow> bool" where
  "ok_at A s r \<longleftrightarrow> (\<exists>ok t. r = Some (ok, t) \<and> frame A s t)"

lemma ok_at_Some: "ok_at A s (Some (ok, t)) \<longleftrightarrow> frame A s t"
  by (simp add: ok_at_def)

lemma ok_at_step: "frame A s t \<Longrightarrow> ok_at A t r \<Longrightarrow> ok_at A s r"
  by (auto simp: ok_at_def intro: frame_trans)

lemma ok_at_upd: "confined A f \<Longrightarrow> ok_at A (upd_mem f s) r \<Longrightarrow> ok_at A s r"
  by (rule ok_at_step [OF frame_upd_mem])

lemma ok_at_mono: "ok_at A s r \<Longrightarrow> A \<subseteq> B \<Longrightarrow> ok_at B s r"
  by (auto simp: ok_at_def intro: frame_mono)

lemma ok_at_error [intro]: "ok_at A s (dec_error msg s)"
  by (simp add: dec_error_def ok_at_Some in_fail_def in_error_def frame_stream)

lemma ok_at_if: "(c \<Longrightarrow> ok_at A s r) \<Longrightarrow> (\<not> c \<Longrightarrow> ok_at A s q) \<Longrightarrow> ok_at A s (if c then r else q)"
  by simp

lemma ok_at_and_then:
  assumes "ok_at A s r" and "\<And>t. r = Some (True, t) \<Longrightarrow> frame A s t \<Longrightarrow> ok_at A t (k t)"
  shows "ok_at A s (and_then r k)"
proof -
  from assms(1) obtain ok t where r: "r = Some (ok, t)" and t: "frame A s t" by (auto simp: ok_at_def)
  show ?thesis
  proof (cases ok)
    case True
    with r t assms(2) show ?thesis by (auto simp: and_then_def intro: ok_at_step)
  qed (use r t in \<open>simp add: and_then_def ok_at_Some\<close>)
qed

lemma ok_at_with_read:
  assumes "on_buffer s" and "reader rd"
    and "\<And>x t. rd (ds_in s) = (Some x, t) \<Longrightarrow> on_buffer (s\<lparr>ds_in := t\<rparr>) \<Longrightarrow> ok_at A (s\<lparr>ds_in := t\<rparr>) (k x (s\<lparr>ds_in := t\<rparr>))"
  shows "ok_at A s (with_read rd k s)"
proof -
  obtain r t where r: "rd (ds_in s) = (r, t)" by force
  have w: "within (ds_in s) t" by (rule readerD [OF assms(2,1) r])
  have f: "frame A s (s\<lparr>ds_in := t\<rparr>)" by (rule frame_stream [OF w])
  show ?thesis
  proof (cases r)
    case None
    with r f show ?thesis by (simp add: with_read_def ok_at_Some)
  next
    case (Some x)
    have "on_buffer (s\<lparr>ds_in := t\<rparr>)" using frame_buffer [OF f assms(1)] .
    with assms(3) r Some have "ok_at A (s\<lparr>ds_in := t\<rparr>) (k x (s\<lparr>ds_in := t\<rparr>))" by blast
    with f have "ok_at A s (k x (s\<lparr>ds_in := t\<rparr>))" by (rule ok_at_step)
    with r Some show ?thesis by (simp add: with_read_def)
  qed
qed

text \<open>A step that is sound wherever at most \<open>b\<close> bytes are left.\<close>

definition safe :: "nat set \<Rightarrow> nat \<Rightarrow> ('st, 'h) dec_step \<Rightarrow> bool" where
  "safe A b g \<longleftrightarrow> (\<forall>s. on_buffer s \<longrightarrow> left s \<le> b \<longrightarrow> ok_at A s (g s))"

lemma safeD: "safe A b g \<Longrightarrow> on_buffer s \<Longrightarrow> left s \<le> b \<Longrightarrow> ok_at A s (g s)"
  by (simp add: safe_def)

lemma safe_mono: "safe A b g \<Longrightarrow> A \<subseteq> B \<Longrightarrow> c \<le> b \<Longrightarrow> safe B c g"
  by (auto simp: safe_def intro: ok_at_mono)

text \<open>A substream: the body runs on it, then the parent stream is closed or left as it is.\<close>

lemma ok_at_substream:
  assumes b: "on_buffer s"
    and body: "\<And>sub. i_callback sub = Buf_read \<Longrightarrow> bytes_left sub < left s \<Longrightarrow>
        ok_at A (s\<lparr>ds_in := sub\<rparr>) (body sub (s\<lparr>ds_in := sub\<rparr>))"
    and finish: "\<And>parent sub status t. pb_make_string_substream (ds_in s) = (Some sub, parent) \<Longrightarrow>
        frame A (s\<lparr>ds_in := sub\<rparr>) t \<Longrightarrow>
        finish parent status t = close_substream parent status t \<or>
        finish parent status t = dec_error msg (t\<lparr>ds_in := parent\<rparr>)"
    and k: "\<And>sub s'. ds_mem s' = ds_mem s \<Longrightarrow> s'\<lparr>ds_in := sub\<rparr> = s\<lparr>ds_in := sub\<rparr> \<Longrightarrow> k sub s' =
        (case body sub (s'\<lparr>ds_in := sub\<rparr>) of None \<Rightarrow> None | Some (status, t) \<Rightarrow> finish (ds_in s') status t)"
  shows "ok_at A s (with_read pb_make_string_substream k s)"
proof -
  obtain r p where m': "pb_make_string_substream (ds_in s) = (r, p)" by force
  show ?thesis
  proof (cases r)
    case None
    with m' readerD [OF reader_substream b m'] show ?thesis
      by (simp add: with_read_def ok_at_Some frame_stream)
  next
    case (Some sub)
    with m' have m: "pb_make_string_substream (ds_in s) = (Some sub, p)" by simp
    let ?s = "s\<lparr>ds_in := p\<rparr>"
    note w = substream_within [OF b m]
    from body [OF w(1,2)] obtain status t where r: "body sub (s\<lparr>ds_in := sub\<rparr>) = Some (status, t)"
      and t: "frame A (s\<lparr>ds_in := sub\<rparr>) t" by (auto simp: ok_at_def)
    have mem: "\<forall>a. a \<notin> A \<longrightarrow> ds_mem t a = ds_mem s a" using t by (simp add: frame_def)
    have "within sub (ds_in t)" using t by (simp add: frame_def)
    then have c: "within (ds_in s) (snd (pb_close_string_substream p (ds_in t)))" by (rule w(4))
    have e: "within (ds_in s) (snd (in_fail p msg))"
      using w(3) by (simp add: in_fail_def in_error_def)
    have "ok_at A s (finish p status t)"
      using finish [OF m t, of status] c e mem
      by (auto simp: close_substream_def dec_error_def ok_at_def frame_def split: prod.split)
    with k [of ?s sub] r m show ?thesis by (simp add: with_read_def)
  qed
qed

section \<open>Values\<close>

lemma ok_at_read_to:
  assumes "on_buffer s" and "{dest..<dest + n} \<subseteq> A"
  shows "ok_at A s (read_to dest n s)"
  unfolding read_to_def
proof (rule ok_at_with_read [OF assms(1) reader_read], goal_cases)
  case (1 bs t)
  have "confined A (\<lambda>m. wr_bytes m dest (take n bs))"
    using assms(2) by (intro confined_wr_bytes order.trans [OF _ assms(2)]) simp
  then show ?case by (simp add: ok_at_Some frame_upd_mem)
qed

lemma ok_at_read_string_to:
  assumes "on_buffer s" and "{dest..<dest + n + 1} \<subseteq> A"
  shows "ok_at A s (read_string_to dest n s)"
proof -
  have "{dest..<dest + n} \<subseteq> A" using assms(2) by auto
  then obtain ok t where r: "read_to dest n s = Some (ok, t)" and t: "frame A s t"
    using ok_at_read_to [OF assms(1), of dest n A] unfolding ok_at_def by blast
  have "confined A (\<lambda>m. wr_bytes m (dest + n) [0])" using assms(2) by (intro confined_wr_bytes) auto
  then have "frame A t (upd_mem (\<lambda>m. wr_bytes m (dest + n) [0]) t)" by (rule frame_upd_mem)
  with t have "frame A s (upd_mem (\<lambda>m. wr_bytes m (dest + n) [0]) t)" by (rule frame_trans)
  with r show ?thesis by (simp add: read_string_to_def ok_at_Some)
qed

lemma ok_at_store_checked:
  assumes "{dest..<dest + unat sz} \<subseteq> A"
  shows "ok_at A s (store_checked clamped sz dest v s)"
proof (cases clamped)
  case (Some c)
  have "ok_at A s (let t = upd_mem (store_int sz dest v) s in
      if c \<noteq> v then dec_error ''integer too large'' t else Some (True, t))"
    unfolding Let_def
    by (rule ok_at_upd [OF confined_store_int [OF assms]]) (auto simp: ok_at_Some intro: ok_at_if)
  with Some show ?thesis by (simp add: store_checked_def)
qed (simp add: store_checked_def ok_at_error)

text \<open>
  A static field whose values have room: \<open>sz\<close> gives the size of the structure for every table. The
  types are those of the table of decoders.
\<close>

definition value_fits :: "(nat \<Rightarrow> nat) \<Rightarrow> pb_field \<Rightarrow> bool" where
  "value_fits sz f \<longleftrightarrow>
     wire_of_ltype (PB_LTYPE (f_type f)) \<noteq> None \<and>
     (PB_LTYPE (f_type f) = PB_LTYPE_FIXED32 \<longrightarrow> 4 \<le> unat (f_data_size f)) \<and>
     (PB_LTYPE (f_type f) = PB_LTYPE_FIXED64 \<longrightarrow> 8 \<le> unat (f_data_size f)) \<and>
     (PB_LTYPE (f_type f) = PB_LTYPE_SUBMESSAGE \<longrightarrow> sz (f_ptr f) \<le> unat (f_data_size f))"

definition sub_safe :: "nat set \<Rightarrow> nat \<Rightarrow> ('st, 'h) dec_subs \<Rightarrow> pb_field \<Rightarrow> nat \<Rightarrow> bool" where
  "sub_safe A b D f dest \<longleftrightarrow> (PB_LTYPE (f_type f) = PB_LTYPE_SUBMESSAGE \<longrightarrow>
     safe A b (sub_noinit D (f_ptr f) dest) \<and> safe A b (sub_decode D (f_ptr f) dest))"

lemma ok_at_submessage:
  assumes b: "on_buffer s" and "left s \<le> Suc b"
    and n: "safe A b (sub_noinit D (f_ptr f) dest)" and d: "safe A b (sub_decode D (f_ptr f) dest)"
  shows "ok_at A s (pb_dec_submessage D f dest s)"
proof (cases "f_ptr f = 0")
  case True
  show ?thesis unfolding pb_dec_submessage_def
    by (rule ok_at_with_read [OF b reader_substream]) (simp add: True ok_at_error)
next
  case False
  show ?thesis unfolding pb_dec_submessage_def
  proof (rule ok_at_substream [OF b, where body = "\<lambda>_. (if PB_HTYPE (f_type f) = PB_HTYPE_REPEATED
          then sub_decode D else sub_noinit D) (f_ptr f) dest" and finish = close_substream and msg = "[]"], goal_cases)
    case (1 sub)
    with assms(2) n d show ?case by (auto intro: safeD)
  qed (use False in auto)
qed

lemma ok_at_bytes:
  assumes b: "on_buffer s" and s: "PB_ATYPE (f_type f) = PB_ATYPE_STATIC"
    and A: "{dest..<dest + unat (f_data_size f)} \<subseteq> A"
  shows "ok_at A s (pb_dec_bytes E f dest s)"
  unfolding pb_dec_bytes_def Let_def
proof (rule ok_at_with_read [OF b reader_varint32], goal_cases)
  case (1 n t)
  have *: "ok_at A (s\<lparr>ds_in := t\<rparr>) (read_to (dest + 4) (unat n) (upd_mem (wr_u32 dest n) (s\<lparr>ds_in := t\<rparr>)))"
    if "\<not> unat (f_data_size f) < add_size (unat n) 4"
  proof -
    have "unat n < 2 ^ 32" by (rule order.strict_trans2 [OF unsigned_less]) simp
    then have "unat n + 4 \<le> unat (f_data_size f)" using that by simp
    then have m: "{dest..<dest + 4} \<subseteq> A" "{dest + 4..<dest + 4 + unat n} \<subseteq> A" using A by auto
    from 1(2) have "on_buffer (upd_mem (wr_u32 dest n) (s\<lparr>ds_in := t\<rparr>))" by (simp add: upd_mem_def)
    from ok_at_upd [OF confined_wr(2) [OF m(1)] ok_at_read_to [OF this m(2)]] show ?thesis .
  qed
  show ?case using s by (intro ok_at_if ok_at_error *) simp_all
qed

lemma ok_at_string:
  assumes b: "on_buffer s" and s: "PB_ATYPE (f_type f) = PB_ATYPE_STATIC"
    and A: "{dest..<dest + unat (f_data_size f)} \<subseteq> A"
  shows "ok_at A s (pb_dec_string E f dest s)"
  unfolding pb_dec_string_def Let_def
proof (rule ok_at_with_read [OF b reader_varint32], goal_cases)
  case (1 n t)
  have *: "ok_at A (s\<lparr>ds_in := t\<rparr>) (read_string_to dest (unat n) (s\<lparr>ds_in := t\<rparr>))"
    if c: "\<not> unat (n + 1) < unat n" "\<not> unat (f_data_size f) < unat (n + 1)"
  proof -
    have "n + 1 \<noteq> 0"
    proof
      assume z: "n + 1 = 0"
      with c(1) have "n = 0" by (simp add: unat_eq_0)
      with z show False by simp
    qed
    then have "unat (n + 1) = unat n + 1" using unatSuc [of n] by (simp add: add.commute)
    then have "{dest..<dest + unat n + 1} \<subseteq> A" using c(2) A by auto
    with 1(2) show ?thesis by (rule ok_at_read_string_to)
  qed
  show ?case using s by (intro ok_at_if ok_at_error *) simp_all
qed

lemma ok_at_fixed:
  assumes b: "on_buffer s" and f: "value_fits sz f" and A: "{dest..<dest + unat (f_data_size f)} \<subseteq> A"
  shows "PB_LTYPE (f_type f) = PB_LTYPE_FIXED32 \<Longrightarrow> ok_at A s (pb_dec_fixed32 f dest s)"
    and "PB_LTYPE (f_type f) = PB_LTYPE_FIXED64 \<Longrightarrow> ok_at A s (pb_dec_fixed64 f dest s)"
    and "ok_at A s (pb_dec_fixed_length_bytes f dest s)"
proof -
  assume "PB_LTYPE (f_type f) = PB_LTYPE_FIXED32"
  then have "{dest..<dest + 4} \<subseteq> A" using f A by (auto simp: value_fits_def)
  then show "ok_at A s (pb_dec_fixed32 f dest s)" unfolding pb_dec_fixed32_def
    by (intro ok_at_with_read [OF b reader_fixed32]) (simp add: ok_at_Some frame_upd_mem confined_wr)
next
  assume "PB_LTYPE (f_type f) = PB_LTYPE_FIXED64"
  then have "{dest..<dest + 8} \<subseteq> A" using f A by (auto simp: value_fits_def)
  then show "ok_at A s (pb_dec_fixed64 f dest s)" unfolding pb_dec_fixed64_def
    by (intro ok_at_with_read [OF b reader_fixed64]) (simp add: ok_at_Some frame_upd_mem confined_wr)
next
  show "ok_at A s (pb_dec_fixed_length_bytes f dest s)"
    unfolding pb_dec_fixed_length_bytes_def
    by (rule ok_at_with_read [OF b reader_varint32], intro ok_at_if ok_at_error ok_at_read_to)
       (simp_all add: ok_at_Some frame_upd_mem confined_wr A)
qed

lemma ok_at_decoder:
  assumes b: "on_buffer s" and s: "PB_ATYPE (f_type f) = PB_ATYPE_STATIC" and f: "value_fits sz f"
    and A: "{dest..<dest + unat (f_data_size f)} \<subseteq> A"
    and l: "left s \<le> Suc b" and sub: "sub_safe A b D f dest"
  shows "ok_at A s (pb_decoder E D f dest s)"
proof -
  let ?l = "PB_LTYPE (f_type f)"
  have int: "ok_at A s (pb_dec_varint f dest s)" "ok_at A s (pb_dec_uvarint f dest s)"
      "ok_at A s (pb_dec_svarint f dest s)"
    unfolding pb_dec_varint_def pb_dec_uvarint_def pb_dec_svarint_def Let_def
    by (rule ok_at_with_read [OF b reader_varint] ok_at_with_read [OF b reader_svarint],
        rule ok_at_store_checked [OF A])+
  have msg: "ok_at A s (pb_dec_submessage D f dest s)" if "?l = PB_LTYPE_SUBMESSAGE"
    using sub that by (intro ok_at_submessage [OF b l]) (simp_all add: sub_safe_def)
  have w: "wire_of_ltype ?l \<noteq> None" using f by (simp add: value_fits_def)
  show ?thesis
    unfolding pb_decoder_def Let_def
    unfolding if_distrib [where f = "\<lambda>g. g s"] if_distribR
    by (intro ok_at_if)
       (use w in \<open>simp_all add: int msg ok_at_bytes [OF b s A] ok_at_string [OF b s A]
          ok_at_fixed [OF b f A] wire_of_ltype_def\<close>)
qed

section \<open>Fields of static messages\<close>

text \<open>
  Messages without allocation. \<open>sz\<close> is the size of the structure of each table, \<open>rank\<close> a bound on the
  depth of its submessages. Every field lies in the structure, with its count, flag or union tag; it is
  static, with room for its values, or a callback. The set \<open>fixed_count\<close> of arrays without a count is
  covered: \<open>size_cell\<close> is then the place of the array itself.
\<close>

definition size_cell :: "pb_field list \<Rightarrow> nat \<Rightarrow> int" where
  "size_cell fs k = int (field_offset fs k) + sint (f_size_offset (field_at fs (size_field fs k)))"

definition cell_ok :: "pb_field list \<Rightarrow> nat \<Rightarrow> nat \<Rightarrow> nat \<Rightarrow> bool" where
  "cell_ok fs k n len \<longleftrightarrow> 0 \<le> size_cell fs k \<and> size_cell fs k + int n \<le> int len"

definition field_ok :: "pb_tables \<Rightarrow> (nat \<Rightarrow> nat) \<Rightarrow> (nat \<Rightarrow> nat) \<Rightarrow> nat \<Rightarrow> nat \<Rightarrow> bool" where
  "field_ok d sz rank fds k \<longleftrightarrow>
     (let fs = d fds; f = fs ! k; h = PB_HTYPE (f_type f); a = PB_ATYPE (f_type f) in
      PB_LTYPE (f_type f) \<noteq> PB_LTYPE_EXTENSION \<and>
      field_offset fs k + field_space f \<le> sz fds \<and>
      (PB_LTYPE (f_type f) = PB_LTYPE_SUBMESSAGE \<longrightarrow> rank (f_ptr f) < rank fds) \<and>
      (a = PB_ATYPE_STATIC \<and> value_fits sz f \<and>
         (h = PB_HTYPE_REPEATED \<or> h = PB_HTYPE_ONEOF \<longrightarrow> cell_ok fs k 4 (sz fds)) \<and>
         (h = PB_HTYPE_OPTIONAL \<and> f_size_offset (field_at fs (size_field fs k)) \<noteq> 0 \<longrightarrow>
            cell_ok fs k 1 (sz fds))
       \<or> a = PB_ATYPE_CALLBACK \<and> 16 \<le> unat (f_data_size f)))"

definition static_tables :: "pb_tables \<Rightarrow> (nat \<Rightarrow> nat) \<Rightarrow> (nat \<Rightarrow> nat) \<Rightarrow> bool" where
  "static_tables d sz rank \<longleftrightarrow>
     (\<forall>fds. nfields (d fds) = length (d fds) \<and> (\<forall>k < nfields (d fds). field_ok d sz rank fds k))"

text \<open>Where an iterator points to, for a field \<open>f\<close>.\<close>

definition place :: "nat set \<Rightarrow> pb_field \<Rightarrow> nat \<Rightarrow> nat \<Rightarrow> bool" where
  "place A f pData pSize \<longleftrightarrow>
     {pData..<pData + field_space f} \<subseteq> A \<and>
     (PB_ATYPE (f_type f) = PB_ATYPE_STATIC \<longrightarrow>
        (PB_HTYPE (f_type f) = PB_HTYPE_REPEATED \<or> PB_HTYPE (f_type f) = PB_HTYPE_ONEOF \<longrightarrow>
           {pSize..<pSize + 4} \<subseteq> A) \<and>
        (PB_HTYPE (f_type f) = PB_HTYPE_OPTIONAL \<and> pSize \<noteq> pData \<longrightarrow> {pSize..<pSize + 1} \<subseteq> A))"

definition struct_at :: "(nat \<Rightarrow> nat) \<Rightarrow> nat \<Rightarrow> nat \<Rightarrow> nat set" where
  "struct_at sz fds dest = {dest..<dest + sz fds}"

lemma it_pSize_iter_at:
  "it_pSize (iter_at d fds dest k) = nat (int dest + size_cell (d fds) k)"
  by (simp add: iter_at_def ptr_plus_def size_cell_def)

lemma cell_region:
  assumes "cell_ok (d fds) k n (sz fds)"
  shows "{it_pSize (iter_at d fds dest k)..<it_pSize (iter_at d fds dest k) + n} \<subseteq> struct_at sz fds dest"
  using assms by (auto simp: cell_ok_def it_pSize_iter_at struct_at_def)

lemma place_iter_at:
  assumes t: "static_tables d sz rank" and k: "k < nfields (d fds)"
  shows "place (struct_at sz fds dest) (d fds ! k) (it_pData (iter_at d fds dest k)) (it_pSize (iter_at d fds dest k))"
proof -
  let ?f = "d fds ! k" let ?h = "PB_HTYPE (f_type ?f)"
  have f: "field_ok d sz rank fds k" using t k by (simp add: static_tables_def)
  then have "{dest + field_offset (d fds) k..<dest + field_offset (d fds) k + field_space ?f} \<subseteq> struct_at sz fds dest"
    by (auto simp: field_ok_def Let_def struct_at_def)
  moreover have "{it_pSize (iter_at d fds dest k)..<it_pSize (iter_at d fds dest k) + 4} \<subseteq> struct_at sz fds dest"
    if "PB_ATYPE (f_type ?f) = PB_ATYPE_STATIC" "?h = PB_HTYPE_REPEATED \<or> ?h = PB_HTYPE_ONEOF"
    using f that by (intro cell_region) (auto simp: field_ok_def Let_def)
  moreover have "{it_pSize (iter_at d fds dest k)..<it_pSize (iter_at d fds dest k) + 1} \<subseteq> struct_at sz fds dest"
    if "PB_ATYPE (f_type ?f) = PB_ATYPE_STATIC" "?h = PB_HTYPE_OPTIONAL"
      "it_pSize (iter_at d fds dest k) \<noteq> dest + field_offset (d fds) k"
  proof (rule cell_region)
    from that(3) have "f_size_offset (field_at (d fds) (size_field (d fds) k)) \<noteq> 0"
      by (auto simp: iter_at_def)
    with f that show "cell_ok (d fds) k 1 (sz fds)" by (auto simp: field_ok_def Let_def)
  qed
  ultimately show ?thesis by (auto simp: place_def)
qed

text \<open>An item of an array lies in the field; the product may have wrapped.\<close>

lemma item_region:
  assumes "n < f_array_size f" and "PB_HTYPE (f_type f) = PB_HTYPE_REPEATED" and "PB_ATYPE (f_type f) = PB_ATYPE_STATIC"
  shows "{p + item_offset f n..<p + item_offset f n + unat (f_data_size f)} \<subseteq> {p..<p + field_space f}"
proof -
  have "item_offset f n \<le> unat (f_data_size f) * unat n"
    by (simp add: item_offset_def unat_word_ariths)
  moreover have "Suc (unat n) \<le> unat (f_array_size f)" using assms(1) by (simp add: word_less_nat_alt)
  then have "unat (f_data_size f) * Suc (unat n) \<le> unat (f_data_size f) * unat (f_array_size f)"
    by (rule mult_le_mono2)
  then have "unat (f_data_size f) * Suc (unat n) \<le> field_space f"
    using assms(2,3) by (simp add: field_space_def)
  ultimately show ?thesis by auto
qed

lemma place_item:
  assumes "place A f p z" and "n < f_array_size f" and "PB_HTYPE (f_type f) = PB_HTYPE_REPEATED"
    and "PB_ATYPE (f_type f) = PB_ATYPE_STATIC"
  shows "{p + item_offset f n..<p + item_offset f n + unat (f_data_size f)} \<subseteq> A"
  using item_region [OF assms(2-4), of p] assms(1) unfolding place_def by (meson subset_trans)

lemma space_static:
  "PB_ATYPE (f_type f) = PB_ATYPE_STATIC \<Longrightarrow> PB_HTYPE (f_type f) \<noteq> PB_HTYPE_REPEATED \<Longrightarrow>
   field_space f = unat (f_data_size f)"
  by (simp add: field_space_def)

lemma decoder_strict:
  assumes "PB_LTYPE (f_type f) \<le> PB_LTYPE_LAST_PACKABLE" and "pb_decoder E D f p s = Some (True, t)"
  shows "left t < left s"
proof -
  have rd: "left t < left s"
    if "with_read rd k s = Some (True, t)" "strict rd" "\<And>x u. k x u = Some (True, t) \<Longrightarrow> left t \<le> left u"
    for rd :: "'a pb_istream \<Rightarrow> 'c option \<times> 'a pb_istream" and k
  proof -
    from that(1) obtain x u where "rd (ds_in s) = (Some x, u)" "k x (s\<lparr>ds_in := u\<rparr>) = Some (True, t)"
      by (auto simp: with_read_def split: prod.splits option.splits)
    with strictD [OF that(2)] that(3) show ?thesis by fastforce
  qed
  have store: "left t \<le> left u" if "store_checked c n p v u = Some (True, t)" for c n p v u
    using that by (auto simp: store_checked_def dec_error_def upd_mem_def Let_def split: option.splits if_splits)
  note decs = pb_dec_varint_def pb_dec_uvarint_def pb_dec_svarint_def pb_dec_fixed32_def pb_dec_fixed64_def
  show ?thesis
  proof (rule packable_cases [OF assms(1)])
    assume l: "PB_LTYPE (f_type f) = 0"
    from assms(2) have "pb_dec_varint f p s = Some (True, t)" by (simp add: pb_decoder_def l)
    then show ?thesis unfolding pb_dec_varint_def Let_def by (rule rd [OF _ strict_varint]) (rule store)
  next
    assume l: "PB_LTYPE (f_type f) = 1"
    from assms(2) have "pb_dec_uvarint f p s = Some (True, t)" by (simp add: pb_decoder_def l)
    then show ?thesis unfolding pb_dec_uvarint_def by (rule rd [OF _ strict_varint]) (rule store)
  next
    assume l: "PB_LTYPE (f_type f) = 2"
    from assms(2) have "pb_dec_svarint f p s = Some (True, t)" by (simp add: pb_decoder_def l)
    then show ?thesis unfolding pb_dec_svarint_def by (rule rd [OF _ strict_svarint]) (rule store)
  next
    assume l: "PB_LTYPE (f_type f) = 3"
    from assms(2) have "pb_dec_fixed32 f p s = Some (True, t)" by (simp add: pb_decoder_def l)
    then show ?thesis unfolding pb_dec_fixed32_def by (rule rd [OF _ strict_fixed32]) (auto simp: upd_mem_def)
  next
    assume l: "PB_LTYPE (f_type f) = 4"
    from assms(2) have "pb_dec_fixed64 f p s = Some (True, t)" by (simp add: pb_decoder_def l)
    then show ?thesis unfolding pb_dec_fixed64_def by (rule rd [OF _ strict_fixed64]) (auto simp: upd_mem_def)
  qed
qed

subsection \<open>Static fields\<close>

lemma ok_at_packed_items:
  assumes "on_buffer s" and "left s < n"
    and pk: "PB_LTYPE (f_type f) \<le> PB_LTYPE_LAST_PACKABLE" and st: "PB_ATYPE (f_type f) = PB_ATYPE_STATIC"
    and h: "PB_HTYPE (f_type f) = PB_HTYPE_REPEATED" and f: "value_fits sz f" and p: "place A f pData pSize"
  shows "ok_at A s (packed_items n (pb_decoder E D f) f pData pSize s)"
  using assms(1,2)
proof (induction n arbitrary: s)
  case (Suc n)
  have sub: "sub_safe A b D f q" for b q
    by (rule packable_cases [OF pk]) (simp_all add: sub_safe_def)
  have c: "confined A (incr_u32 pSize)" using p st h by (intro confined_wr) (auto simp: place_def)
  let ?sz = "rd_u32 (ds_mem s) pSize"
  let ?q = "pData + item_offset f ?sz"
  show ?case unfolding packed_items.simps
  proof (rule ok_at_if)
    assume go: "0 < left s \<and> ?sz < f_array_size f"
    then have "{?q..<?q + unat (f_data_size f)} \<subseteq> A"
      by (intro place_item [OF p _ h st]) simp
    then have d: "ok_at A s (pb_decoder E D f ?q s)"
      by (rule ok_at_decoder [OF Suc.prems(1) st f, where b = "left s"]) (simp_all add: sub)
    show "ok_at A s (and_then (pb_decoder E D f ?q s)
        (\<lambda>s. packed_items n (pb_decoder E D f) f pData pSize (upd_mem (incr_u32 pSize) s)))"
    proof (rule ok_at_and_then [OF d])
      fix t assume r: "pb_decoder E D f ?q s = Some (True, t)" and t: "frame A s t"
      have "left t < n" using decoder_strict [OF pk r] Suc.prems(2) by simp
      moreover have "on_buffer t" by (rule frame_buffer [OF t Suc.prems(1)])
      ultimately have "ok_at A (upd_mem (incr_u32 pSize) t)
          (packed_items n (pb_decoder E D f) f pData pSize (upd_mem (incr_u32 pSize) t))"
        by (intro Suc.IH) (simp_all add: upd_mem_def)
      then show "ok_at A t (packed_items n (pb_decoder E D f) f pData pSize (upd_mem (incr_u32 pSize) t))"
        by (rule ok_at_upd [OF c])
    qed
  qed (simp add: ok_at_Some)
qed simp

text \<open>A submessage can be given its default values.\<close>

definition default_safe :: "nat set \<Rightarrow> ('st, 'h) dec_subs \<Rightarrow> pb_field \<Rightarrow> nat \<Rightarrow> bool" where
  "default_safe A D f dest \<longleftrightarrow> (PB_LTYPE (f_type f) = PB_LTYPE_SUBMESSAGE \<longrightarrow>
     (\<forall>m. \<exists>m'. sub_default D (f_ptr f) dest m = Some m' \<and> (\<forall>a. a \<notin> A \<longrightarrow> m' a = m a)))"

lemma ok_at_static_field:
  assumes b: "on_buffer s" and l: "left s \<le> Suc n" and it: "it_field (de_fields E) it = f"
    and st: "PB_ATYPE (f_type f) = PB_ATYPE_STATIC" and f: "value_fits sz f"
    and p: "place A f (it_pData it) (it_pSize it)"
    and sub: "\<And>q. {q..<q + unat (f_data_size f)} \<subseteq> A \<Longrightarrow> sub_safe A n D f q \<and> default_safe A D f q"
  shows "ok_at A s (decode_static_field E D wire_type it s)"
proof -
  let ?p = "it_pData it" let ?z = "it_pSize it" let ?func = "pb_decoder E D f"
  have func: "ok_at A u (?func q u)" if "on_buffer u" "left u \<le> Suc n" "{q..<q + unat (f_data_size f)} \<subseteq> A" for q u
    using sub [OF that(3)] by (intro ok_at_decoder [OF that(1) st f that(3,2)]) simp
  have space: "{?p..<?p + unat (f_data_size f)} \<subseteq> A" if "PB_HTYPE (f_type f) \<noteq> PB_HTYPE_REPEATED"
    using p space_static [OF st that] by (simp add: place_def)
  have cell: "{?z..<?z + 4} \<subseteq> A" if "PB_HTYPE (f_type f) = PB_HTYPE_REPEATED \<or> PB_HTYPE (f_type f) = PB_HTYPE_ONEOF"
    using p st that by (simp add: place_def)
  have upd: "ok_at A u (?func q (upd_mem g u))"
    if "confined A g" "on_buffer u" "left u \<le> Suc n" "{q..<q + unat (f_data_size f)} \<subseteq> A" for g q u
    by (rule ok_at_upd [OF that(1)], rule func) (use that in \<open>simp_all add: upd_mem_def\<close>)
  show ?thesis
  proof (cases "f_type f" rule: htype_cases)
    case 1
    with func [OF b l space] it show ?thesis by (simp add: decode_static_field_def Let_def)
  next
    case 2
    have "confined A (wr_bool ?z True)" if "?z \<noteq> ?p"
      using that p st 2 by (intro confined_wr) (simp add: place_def)
    with upd [OF _ b l space, of "wr_bool ?z True"] func [OF b l space] 2 it show ?thesis
      by (simp add: decode_static_field_def Let_def)
  next
    case 3
    note c = cell [OF disjI1 [OF 3]]
    let ?packed = "wire_type = PB_WT_STRING \<and> PB_LTYPE (f_type f) \<le> PB_LTYPE_LAST_PACKABLE"
    have packed: "ok_at A s (with_read pb_make_string_substream
          (\<lambda>substream s.
             case packed_items (Suc (bytes_left substream)) ?func f ?p ?z (s\<lparr>ds_in := substream\<rparr>) of
               None \<Rightarrow> None
             | Some (status, s') \<Rightarrow>
                 if bytes_left (ds_in s') \<noteq> 0 then dec_error ''array overflow'' (s'\<lparr>ds_in := ds_in s\<rparr>)
                 else close_substream (ds_in s) status s') s)" if ?packed
    proof (rule ok_at_substream [OF b, where body = "\<lambda>sub. packed_items (Suc (bytes_left sub)) ?func f ?p ?z"
        and finish = "\<lambda>parent status s'. if bytes_left (ds_in s') \<noteq> 0 then dec_error ''array overflow'' (s'\<lparr>ds_in := parent\<rparr>)
                 else close_substream parent status s'" and msg = "''array overflow''"], goal_cases)
      case (1 sub)
      then show ?case using that by (intro ok_at_packed_items [OF _ _ _ st 3 f p]) simp_all
    qed simp_all
    let ?sz = "rd_u32 (ds_mem s) ?z"
    let ?u = "upd_mem (incr_u32 ?z) s"
    have "ok_at A s (if f_array_size f \<le> ?sz then dec_error ''array overflow'' ?u else ?func (?p + item_offset f ?sz) ?u)"
    proof (rule ok_at_if)
      show "ok_at A s (dec_error ''array overflow'' ?u)"
        by (rule ok_at_upd [OF confined_wr(7) [OF c]]) (rule ok_at_error)
    next
      assume "\<not> f_array_size f \<le> ?sz"
      then have "{?p + item_offset f ?sz..<?p + item_offset f ?sz + unat (f_data_size f)} \<subseteq> A"
        by (intro place_item [OF p _ 3 st]) (simp add: not_le)
      then show "ok_at A s (?func (?p + item_offset f ?sz) ?u)"
        by (rule upd [OF confined_wr(7) [OF c] b l])
    qed
    note single = this
    show ?thesis unfolding decode_static_field_def Let_def it
      by (simp only: 3) (use packed single in simp)
  next
    case 4
    note c = cell [OF disjI2 [OF 4]]
    let ?u = "upd_mem (wr_u32 ?z (f_tag f)) s"
    have sp: "{?p..<?p + unat (f_data_size f)} \<subseteq> A" using space 4 by simp
    have u: "frame A s ?u" by (rule frame_upd_mem [OF confined_wr(2) [OF c]])
    show ?thesis
    proof (cases "PB_LTYPE (f_type f) = PB_LTYPE_SUBMESSAGE")
      case True
      let ?m = "mem_set ?p (unat (f_data_size f)) (ds_mem ?u)"
      from sub [OF sp] True obtain m where m: "sub_default D (f_ptr f) ?p ?m = Some m" and
        a: "\<forall>a. a \<notin> A \<longrightarrow> m a = ?m a" unfolding default_safe_def by blast
      have "\<forall>a. a \<notin> A \<longrightarrow> ?m a = ds_mem ?u a"
        using confined_wr(6) [OF sp] by (simp add: confined_def)
      with a have "frame A ?u (?u\<lparr>ds_mem := m\<rparr>)" by (simp add: frame_def)
      with u have "frame A s (?u\<lparr>ds_mem := m\<rparr>)" by (rule frame_trans)
      moreover have "ok_at A (?u\<lparr>ds_mem := m\<rparr>) (?func ?p (?u\<lparr>ds_mem := m\<rparr>))"
        using b l by (intro func sp) (simp_all add: upd_mem_def)
      ultimately have "ok_at A s (?func ?p (?u\<lparr>ds_mem := m\<rparr>))" by (rule ok_at_step)
      with True 4 it m show ?thesis by (simp add: decode_static_field_def Let_def)
    next
      case False
      with upd [OF confined_wr(2) [OF c] b l sp] 4 it show ?thesis
        by (simp add: decode_static_field_def Let_def)
    qed
  qed
qed

subsection \<open>Default values\<close>

definition defaults_ok :: "(nat \<Rightarrow> nat) \<Rightarrow> nat \<Rightarrow> nat \<Rightarrow> (memory \<Rightarrow> memory option) \<Rightarrow> bool" where
  "defaults_ok sz fds dest g \<longleftrightarrow>
     (\<forall>m. \<exists>m'. g m = Some m' \<and> (\<forall>a. a \<notin> struct_at sz fds dest \<longrightarrow> m' a = m a))"

lemma defaultsI:
  assumes "confined A f" shows "\<exists>m'. Some (f m) = Some m' \<and> (\<forall>a. a \<notin> A \<longrightarrow> m' a = m a)"
  using assms by (auto simp: confined_def)

lemma struct_sub:
  assumes "{q..<q + n} \<subseteq> A" and "sz f \<le> n" shows "struct_at sz f q \<subseteq> A"
  using assms by (auto simp: struct_at_def)

lemma field_default_ok:
  assumes it: "it_field (de_fields E) it = f" and p: "place A f (it_pData it) (it_pSize it)"
    and x: "PB_LTYPE (f_type f) \<noteq> PB_LTYPE_EXTENSION"
    and a: "PB_ATYPE (f_type f) = PB_ATYPE_STATIC \<and> value_fits sz f \<or> PB_ATYPE (f_type f) = PB_ATYPE_CALLBACK"
    and msg: "PB_ATYPE (f_type f) = PB_ATYPE_STATIC \<Longrightarrow> PB_LTYPE (f_type f) = PB_LTYPE_SUBMESSAGE \<Longrightarrow>
      defaults_ok sz (f_ptr f) (it_pData it) (msg (f_ptr f) (it_pData it))"
  shows "\<exists>m'. pb_field_set_to_default E msg exts it m = Some m' \<and> (\<forall>a. a \<notin> A \<longrightarrow> m' a = m a)"
proof (cases "PB_ATYPE (f_type f) = PB_ATYPE_STATIC")
  case False
  with a x it show ?thesis by (simp add: pb_field_set_to_default_def Let_def)
next
  case st: True
  let ?p = "it_pData it" let ?z = "it_pSize it" let ?h = "PB_HTYPE (f_type f)"
  show ?thesis
  proof (cases "?h = PB_HTYPE_REPEATED \<or> ?h = PB_HTYPE_ONEOF")
    case True
    then have "confined A (wr_u32 ?z 0)" using p st by (intro confined_wr) (auto simp: place_def)
    from defaultsI [OF this] True st x it show ?thesis
      by (simp add: pb_field_set_to_default_def Let_def)
  next
    case False
    define m1 where "m1 = (if ?h = PB_HTYPE_OPTIONAL \<and> ?z \<noteq> ?p then wr_bool ?z False m else m)"
    have m1: "m1 a = m a" if "a \<notin> A" for a
    proof (cases "?h = PB_HTYPE_OPTIONAL \<and> ?z \<noteq> ?p")
      case True
      then have "confined A (wr_bool ?z False)" using p st by (intro confined_wr) (simp add: place_def)
      with True that show ?thesis by (simp add: m1_def confined_def)
    qed (auto simp: m1_def)
    have sp: "{?p..<?p + unat (f_data_size f)} \<subseteq> A"
      using p space_static [OF st] False by (simp add: place_def)
    have step: "pb_field_set_to_default E msg exts it m =
      (if PB_LTYPE (f_type f) = PB_LTYPE_SUBMESSAGE then msg (f_ptr f) ?p m1
       else if f_ptr f \<noteq> 0 then Some (wr_bytes m1 ?p (rd_bytes m1 (f_ptr f) (unat (f_data_size f))))
       else Some (mem_set ?p (unat (f_data_size f)) m1))"
      using False st x it by (simp add: pb_field_set_to_default_def Let_def m1_def)
    have "\<exists>m'. pb_field_set_to_default E msg exts it m = Some m' \<and> (\<forall>a. a \<notin> A \<longrightarrow> m' a = m1 a)"
    proof (cases "PB_LTYPE (f_type f) = PB_LTYPE_SUBMESSAGE")
      case True
      with a st have "sz (f_ptr f) \<le> unat (f_data_size f)" by (simp add: value_fits_def)
      then have s: "struct_at sz (f_ptr f) ?p \<subseteq> A" by (rule struct_sub [OF sp])
      from msg [OF st True] obtain m2 where "msg (f_ptr f) ?p m1 = Some m2"
        "\<forall>a. a \<notin> struct_at sz (f_ptr f) ?p \<longrightarrow> m2 a = m1 a" unfolding defaults_ok_def by blast
      with s step True show ?thesis by auto
    next
      case False
      have "confined A (mem_set ?p (unat (f_data_size f)))" by (rule confined_wr(6) [OF sp])
      moreover have "confined A (\<lambda>m. wr_bytes m ?p (rd_bytes m1 (f_ptr f) (unat (f_data_size f))))"
        using sp by (intro confined_wr_bytes) simp
      ultimately show ?thesis using False by (simp add: step confined_def)
    qed
    with m1 show ?thesis by auto
  qed
qed

lemma each_memory:
  assumes "\<And>k m. k \<in> set ks \<Longrightarrow> \<exists>m'. g k m = Some m' \<and> (\<forall>a. a \<notin> A \<longrightarrow> m' a = m a)"
  shows "\<exists>m'. each (\<lambda>k m. map_option (\<lambda>m. (True, m)) (g k m)) ks m = Some (True, m') \<and>
    (\<forall>a. a \<notin> A \<longrightarrow> m' a = m a)"
  using assms
proof (induction ks arbitrary: m)
  case (Cons k ks)
  from Cons.prems [of k m] obtain m1 where m1: "g k m = Some m1" "\<forall>a. a \<notin> A \<longrightarrow> m1 a = m a" by auto
  from Cons.IH [of m1] Cons.prems obtain m2 where
    "each (\<lambda>k m. map_option (\<lambda>m. (True, m)) (g k m)) ks m1 = Some (True, m2)" "\<forall>a. a \<notin> A \<longrightarrow> m2 a = m1 a"
    by auto
  with m1 show ?case by (simp add: and_then_def)
qed simp

lemma message_defaults_ok:
  assumes t: "static_tables (de_fields E) sz rank" and "rank fds < n"
  shows "defaults_ok sz fds dest (pb_message_set_to_defaults n E fds dest)"
  using assms(2)
proof (induction n arbitrary: fds dest)
  case (Suc n)
  let ?d = "de_fields E" let ?A = "struct_at sz fds dest" let ?it = "iter_at ?d fds dest"
  let ?msg = "pb_message_set_to_defaults n E"
  let ?g = "\<lambda>k. pb_field_set_to_default E ?msg (default_extensions n E ?msg) (?it k)"
  have one: "\<exists>m'. ?g k m = Some m' \<and> (\<forall>a. a \<notin> ?A \<longrightarrow> m' a = m a)" if k: "k < nfields (?d fds)" for k m
  proof -
    let ?f = "?d fds ! k"
    have f: "field_ok ?d sz rank fds k" using t k by (simp add: static_tables_def)
    show ?thesis
    proof (rule field_default_ok [where sz = sz and f = ?f])
      show "it_field ?d (?it k) = ?f" using k by (simp add: field_at_nth)
      show "place ?A ?f (it_pData (?it k)) (it_pSize (?it k))" by (rule place_iter_at [OF t k])
      show "PB_LTYPE (f_type ?f) \<noteq> PB_LTYPE_EXTENSION" using f by (simp add: field_ok_def Let_def)
      show "PB_ATYPE (f_type ?f) = PB_ATYPE_STATIC \<and> value_fits sz ?f \<or> PB_ATYPE (f_type ?f) = PB_ATYPE_CALLBACK"
        using f by (auto simp: field_ok_def Let_def)
      assume "PB_ATYPE (f_type ?f) = PB_ATYPE_STATIC" "PB_LTYPE (f_type ?f) = PB_LTYPE_SUBMESSAGE"
      with f have "rank (f_ptr ?f) < rank fds" by (auto simp: field_ok_def Let_def)
      with Suc.prems show "defaults_ok sz (f_ptr ?f) (it_pData (?it k)) (?msg (f_ptr ?f) (it_pData (?it k)))"
        by (intro Suc.IH) simp
    qed
  qed
  show ?case unfolding defaults_ok_def
  proof
    fix m
    show "\<exists>m'. pb_message_set_to_defaults (Suc n) E fds dest m = Some m' \<and> (\<forall>a. a \<notin> ?A \<longrightarrow> m' a = m a)"
    proof (cases "0 < nfields (?d fds)")
      case True
      from each_memory [of "[0..<nfields (?d fds)]" ?g ?A m] one
      obtain m' where "each (\<lambda>k m. map_option (\<lambda>m. (True, m)) (?g k m)) [0..<nfields (?d fds)] m = Some (True, m')"
        "\<forall>a. a \<notin> ?A \<longrightarrow> m' a = m a" by auto
      with True show ?thesis by (simp add: begin_iter_at each_field_iter_at)
    qed (simp add: begin_iter_at)
  qed
qed simp

subsection \<open>Release\<close>

lemma release_items_same:
  "(\<And>p. rel p s = Some s) \<Longrightarrow> release_items rel stride p n s = Some s"
  by (induction n arbitrary: p) simp_all

lemma release_field_same:
  assumes it: "it_field (de_fields E) it = f" and x: "PB_LTYPE (f_type f) \<noteq> PB_LTYPE_EXTENSION"
    and a: "PB_ATYPE (f_type f) \<noteq> PB_ATYPE_POINTER"
    and rel: "\<And>q. PB_LTYPE (f_type f) = PB_LTYPE_SUBMESSAGE \<Longrightarrow> rel (f_ptr f) q s = Some s"
  shows "pb_release_single_field E rel exts it s = Some s"
  using x a release_items_same [of "rel (f_ptr f)" s] rel
  by (auto simp: pb_release_single_field_def it Let_def)

lemma each_same:
  "(\<And>k. k \<in> set ks \<Longrightarrow> g k s = Some s) \<Longrightarrow> each (\<lambda>k s. map_option (\<lambda>s. (True, s)) (g k s)) ks s = Some (True, s)"
  by (induction ks) (simp_all add: and_then_def)

lemma release_iter_same:
  assumes t: "static_tables (de_fields E) sz rank" and k: "k < nfields (de_fields E fds)"
    and rel: "\<And>fds' q. rank fds' < rank fds \<Longrightarrow> rel fds' q s = Some s"
  shows "pb_release_single_field E rel exts (iter_at (de_fields E) fds dest k) s = Some s"
proof (rule release_field_same)
  let ?f = "de_fields E fds ! k"
  have f: "field_ok (de_fields E) sz rank fds k" using t k by (simp add: static_tables_def)
  show "it_field (de_fields E) (iter_at (de_fields E) fds dest k) = ?f" using k by (simp add: field_at_nth)
  show "PB_LTYPE (f_type ?f) \<noteq> PB_LTYPE_EXTENSION" "PB_ATYPE (f_type ?f) \<noteq> PB_ATYPE_POINTER"
    using f by (auto simp: field_ok_def Let_def)
  assume "PB_LTYPE (f_type ?f) = PB_LTYPE_SUBMESSAGE"
  with f show "rel (f_ptr ?f) q s = Some s" for q by (intro rel) (simp add: field_ok_def Let_def)
qed

lemma release_same:
  assumes t: "static_tables (de_fields E) sz rank" and "rank fds < n"
  shows "pb_release n E fds dest s = Some s"
  using assms(2)
proof (induction n arbitrary: fds dest)
  case (Suc n)
  let ?d = "de_fields E" let ?it = "iter_at ?d fds dest"
  let ?g = "\<lambda>k. pb_release_single_field E (pb_release n E) (release_extensions n E (pb_release n E)) (?it k)"
  have "each (\<lambda>k s. map_option (\<lambda>s. (True, s)) (?g k s)) [0..<nfields (?d fds)] s = Some (True, s)"
    using Suc by (intro each_same release_iter_same [OF t]) simp_all
  then show ?case
    by (cases "0 < nfields (?d fds)") (simp_all add: begin_iter_at each_field_iter_at)
qed simp

section \<open>Callbacks\<close>

text \<open>
  What the decoder relies on in a callback: on a buffer stream it reads no more than the stream has left,
  it writes only to its argument and to the addresses \<open>W\<close> that are its own, and if it succeeds it has
  read something.
\<close>

definition callback_ok :: "nat set \<Rightarrow> nat \<Rightarrow> (('st, 'h) dec_state \<Rightarrow> bool \<times> ('st, 'h) dec_state) \<Rightarrow> bool" where
  "callback_ok W arg cb \<longleftrightarrow> (\<forall>s ok t. on_buffer s \<longrightarrow> cb s = (ok, t) \<longrightarrow>
     frame (W \<union> {arg..<arg + 8}) s t \<and> (ok \<longrightarrow> left t = 0 \<or> left t < left s))"

lemma ok_at_callback_loop:
  assumes cb: "callback_ok W arg cb" and A: "W \<union> {arg..<arg + 8} \<subseteq> A"
    and "on_buffer s" and "left s < n"
  shows "ok_at A s (callback_loop n cb s)"
  using assms(3,4)
proof (induction n arbitrary: s)
  case (Suc n)
  obtain ok t where c: "cb s = (ok, t)" by force
  with cb Suc.prems(1) have t: "frame A s t" and l: "ok \<Longrightarrow> left t = 0 \<or> left t < left s"
    using frame_mono [OF _ A] unfolding callback_ok_def by blast+
  have "ok_at A t (callback_loop n cb t)" if "ok" "left t \<noteq> 0"
    using l [OF that(1)] that(2) Suc.prems frame_buffer [OF t] by (intro Suc.IH) auto
  then have "ok_at A s (callback_loop n cb t)" if "ok" "left t \<noteq> 0" using ok_at_step [OF t] that by blast
  with c t show ?case by (cases ok) (simp_all add: ok_at_Some)
qed simp

lemma ok_at_skip_field: "on_buffer s \<Longrightarrow> ok_at A s (on_stream (\<lambda>t. pb_skip_field t w) s)"
  using moved_within [OF moved_pb_skip_field [of "ds_in s" w]]
  by (auto simp: on_stream_def ok_at_Some frame_stream split: prod.split)

lemma ok_at_callback_field:
  assumes b: "on_buffer s" and n: "left s \<le> sub_fuel D"
    and cb: "\<And>p. callback_ok W (it_pData it + 8) (de_field_cb E p (it_field (de_fields E) it) (it_pData it + 8))"
    and A: "W \<union> {it_pData it..<it_pData it + 16} \<subseteq> A"
  shows "ok_at A s (decode_callback_field E D wire_type it s)"
proof -
  have A': "W \<union> {it_pData it + 8..<it_pData it + 8 + 8} \<subseteq> A" using A by auto
  define cb where "cb = de_field_cb E (rd_ptr (ds_mem s) (it_pData it)) (it_field (de_fields E) it) (it_pData it + 8)"
  have cb: "callback_ok W (it_pData it + 8) cb" unfolding cb_def by (rule assms(3))
  have string: "ok_at A s (with_read pb_make_string_substream
       (\<lambda>substream s.
          case callback_loop (sub_fuel D) cb (s\<lparr>ds_in := substream\<rparr>) of
            None \<Rightarrow> None
          | Some (False, s') \<Rightarrow> dec_error ''callback failed'' (s'\<lparr>ds_in := ds_in s\<rparr>)
          | Some (True, s') \<Rightarrow> close_substream (ds_in s) True s') s)"
  proof (rule ok_at_substream [OF b, where body = "\<lambda>_. callback_loop (sub_fuel D) cb" and msg = "''callback failed''"
        and finish = "\<lambda>parent status s'. if status then close_substream parent True s'
          else dec_error ''callback failed'' (s'\<lparr>ds_in := parent\<rparr>)"], goal_cases)
    case (1 sub)
    then show ?case using n by (intro ok_at_callback_loop [OF cb A']) simp_all
  next
    case (3 sub s')
    show ?case by (simp only: 3 split: option.split prod.split bool.split) auto
  qed auto
  have raw: "ok_at A s (with_read (\<lambda>t. read_raw_value t wire_type 10)
       (\<lambda>bs s. case cb (s\<lparr>ds_in := (ds_in s)\<lparr>i_callback := Buf_read, i_src := bs, bytes_left := length bs,
                                        i_errmsg := None\<rparr>\<rparr>) of
            (status, s') \<Rightarrow> Some (status, s'\<lparr>ds_in := ds_in s\<rparr>)) s)"
  proof (rule ok_at_with_read [OF b reader_raw_value], goal_cases)
    case (1 bs t)
    let ?u = "s\<lparr>ds_in := t\<lparr>i_callback := Buf_read, i_src := bs, bytes_left := length bs, i_errmsg := None\<rparr>\<rparr>"
    obtain status s' where c: "cb ?u = (status, s')" by force
    have "on_buffer ?u" by simp
    with cb c have "frame (W \<union> {it_pData it + 8..<it_pData it + 8 + 8}) ?u s'"
      unfolding callback_ok_def by blast
    then have "frame A ?u s'" by (rule frame_mono [OF _ A'])
    then have "frame A (s\<lparr>ds_in := t\<rparr>) (s'\<lparr>ds_in := t\<rparr>)" by (simp add: frame_def)
    with c show ?case by (simp add: ok_at_Some)
  qed
  show ?thesis
    unfolding decode_callback_field_def Let_def cb_def [symmetric]
    using string raw ok_at_skip_field [OF b, of A wire_type] by simp
qed

end
