(* ===== verification/Pb_Decode_Safe.thy ===== *)
theory Pb_Decode_Safe
  imports Pb_Decode_Spec
begin

text \<open>
  The decoder on static messages: the locale \<open>static_decoder\<close> is the contract between the decoder, the
  descriptors and the callbacks, and \<open>decode_safe\<close> in it says that a message is decoded in the end, with
  writes only to the structure, to the local variables and to the addresses of the callbacks. It is
  interpreted on the callback of gRPC and its descriptors in \<open>Decoding\<close>.
\<close>

section \<open>One field\<close>

text \<open>
  The iterator of the loop: on a field, or on an array without a count, with \<open>pSize\<close> on the local
  variable.
\<close>

definition loop_iter :: "pb_tables \<Rightarrow> nat \<Rightarrow> nat \<Rightarrow> nat \<Rightarrow> pb_field_iter \<Rightarrow> bool" where
  "loop_iter d fds dest local it \<longleftrightarrow>
     (\<exists>k. valid_pos (d fds) k \<and> it = iter_at d fds dest k) \<or>
     (\<exists>k < nfields (d fds). PB_HTYPE (f_type (d fds ! k)) = PB_HTYPE_REPEATED \<and>
        it = (iter_at d fds dest k)\<lparr>it_pSize := local\<rparr>)"

lemma next_local:
  assumes "k < nfields (d fds)" and "PB_HTYPE (f_type (d fds ! k)) = PB_HTYPE_REPEATED"
  shows "pb_field_iter_next d ((iter_at d fds dest k)\<lparr>it_pSize := local\<rparr>) =
    pb_field_iter_next d (iter_at d fds dest k)"
  using assms field_at_nth [OF assms(1)] nfields_tag [OF assms(1)]
  by (simp add: pb_field_iter_next_def iter_at_def it_field_def Let_def)

lemma find_loop_local:
  assumes "k < nfields (d fds)" and "PB_HTYPE (f_type (d fds ! k)) = PB_HTYPE_REPEATED" and "\<not> want (d fds ! k)"
  shows "find_loop d want start (Suc n) ((iter_at d fds dest k)\<lparr>it_pSize := local\<rparr>) =
    find_loop d want start (Suc n) (iter_at d fds dest k)"
proof -
  have "it_field d (iter_at d fds dest k) = d fds ! k"
    and "it_field d ((iter_at d fds dest k)\<lparr>it_pSize := local\<rparr>) = d fds ! k"
    using field_at_nth [OF assms(1)] by (simp_all add: it_field_def iter_at_def)
  with assms(3) show ?thesis by (simp add: next_local [of k d fds, OF assms(1,2)] del: iter_at_sel(5))
qed

lemma loop_iter_at: "valid_pos (d fds) k \<Longrightarrow> loop_iter d fds dest local (iter_at d fds dest k)"
  by (auto simp: loop_iter_def)

text \<open>The two searches of the loop.\<close>

lemma find_loop_result:
  assumes "valid_pos (d fds) k"
    and "nfields (d fds) = 0 \<Longrightarrow> \<not> want (field_at (d fds) 0)"
  shows "\<exists>ok j. find_loop d want k (Suc (length (d fds))) (iter_at d fds dest k) = Some (ok, iter_at d fds dest j) \<and>
    valid_pos (d fds) j \<and> (ok \<longrightarrow> j < nfields (d fds) \<and> want (d fds ! j))"
proof (cases "find (\<lambda>j. want (d fds ! j)) (cyclic_from (nfields (d fds)) k)")
  case None
  then show ?thesis using find_loop_iter_at [of d fds k want, OF assms] assms(1)
    by (intro exI [of _ False] exI [of _ k]) (simp del: find_loop.simps)
next
  case (Some j)
  then have j: "j \<in> set (cyclic_from (nfields (d fds)) k)" "want (d fds ! j)" by (auto simp: find_Some_iff)
  with assms(1) have "j < nfields (d fds)"
    using set_cyclic_from [of k "nfields (d fds)"] by (auto simp: valid_pos_def cyclic_from_def)
  with j Some show ?thesis using find_loop_iter_at [of d fds k want, OF assms, of dest]
    by (intro exI [of _ True] exI [of _ j]) (simp add: valid_pos_def del: find_loop.simps)
qed

lemma find_from_loop:
  assumes l: "loop_iter d fds dest local it"
    and z: "nfields (d fds) = 0 \<Longrightarrow> \<not> want (field_at (d fds) 0)"
  shows "\<exists>ok it'. find_loop d want (it_pos it) (Suc (length (d (it_start it)))) it = Some (ok, it') \<and>
    loop_iter d fds dest local it' \<and>
    (ok \<longrightarrow> (\<exists>j < nfields (d fds). it_pos it' = j \<and> it_field d it' = d fds ! j \<and> want (d fds ! j)))"
  using l [unfolded loop_iter_def]
proof (elim disjE)
  assume "\<exists>k. valid_pos (d fds) k \<and> it = iter_at d fds dest k"
  then obtain k where k: "valid_pos (d fds) k" "it = iter_at d fds dest k" by blast
  from find_loop_result [of d fds k want dest, OF k(1) z] obtain ok j where
    "find_loop d want k (Suc (length (d fds))) it = Some (ok, iter_at d fds dest j)" "valid_pos (d fds) j"
    "ok \<longrightarrow> j < nfields (d fds) \<and> want (d fds ! j)" unfolding k(2) by blast
  then show ?thesis
    by (intro exI [of _ ok] exI [of _ "iter_at d fds dest j"]) (auto simp: k field_at_nth loop_iter_def simp del: find_loop.simps)
next
  assume "\<exists>k<nfields (d fds). PB_HTYPE (f_type (d fds ! k)) = PB_HTYPE_REPEATED \<and>
    it = (iter_at d fds dest k)\<lparr>it_pSize := local\<rparr>"
  then obtain k where k: "k < nfields (d fds)" "PB_HTYPE (f_type (d fds ! k)) = PB_HTYPE_REPEATED"
    "it = (iter_at d fds dest k)\<lparr>it_pSize := local\<rparr>" by blast
  have f: "it_field d it = d fds ! k" using k by (simp add: it_field_def iter_at_def field_at_nth)
  show ?thesis
  proof (cases "want (d fds ! k)")
    case True
    with k f show ?thesis
      by (intro exI [of _ True] exI [of _ it]) (auto simp: loop_iter_def simp del: iter_at_sel(5))
  next
    case False
    have v: "valid_pos (d fds) k" using k(1) by (simp add: valid_pos_def)
    from find_loop_result [of d fds k want dest, OF v z] obtain ok j where
      "find_loop d want k (Suc (length (d fds))) (iter_at d fds dest k) = Some (ok, iter_at d fds dest j)"
      "valid_pos (d fds) j" "ok \<longrightarrow> j < nfields (d fds) \<and> want (d fds ! j)" by blast
    then show ?thesis using find_loop_local [where d = d and fds = fds and want = want, OF k(1,2) False]
      by (intro exI [of _ ok] exI [of _ "iter_at d fds dest j"])
         (auto simp: k(3) field_at_nth loop_iter_def simp del: find_loop.simps)
  qed
qed

text \<open>
  The contract under which the decoder is proved: descriptors of static messages, and callbacks that keep
  to their own addresses.
\<close>

locale static_decoder =
  fixes E :: "('st, 'h) dec_env" and sz rank :: "nat \<Rightarrow> nat" and W :: "nat set"
  assumes tables: "static_tables (de_fields E) sz rank"
    and callbacks: "callback_ok W arg (de_field_cb E p f arg)"
begin

text \<open>Where the decoder may write: the message, the local variables, and what belongs to the callbacks.\<close>

definition own :: "nat set" where
  "own = W \<union> (\<Union>n. {de_local E n..<de_local E n + 4})"

definition area :: "nat \<Rightarrow> nat \<Rightarrow> nat set" where
  "area fds dest = struct_at sz fds dest \<union> own"

lemma area_sub: "{q..<q + n} \<subseteq> area fds dest \<Longrightarrow> sz f \<le> n \<Longrightarrow> area f q \<subseteq> area fds dest"
  using struct_sub [of q n "area fds dest" sz f] by (auto simp: area_def)

lemma local_area: "{de_local E n..<de_local E n + 4} \<subseteq> area fds dest"
  by (auto simp: area_def own_def)

lemma struct_area: "struct_at sz fds dest \<subseteq> area fds dest"
  by (simp add: area_def)

definition subs_ok :: "('st, 'h) dec_subs \<Rightarrow> nat \<Rightarrow> nat \<Rightarrow> bool" where
  "subs_ok D r b \<longleftrightarrow> b < sub_fuel D \<and>
     (\<forall>fds dest. rank fds < r \<longrightarrow>
        safe (area fds dest) b (sub_noinit D fds dest) \<and> safe (area fds dest) b (sub_decode D fds dest) \<and>
        defaults_ok sz fds dest (sub_default D fds dest)) \<and>
     (\<forall>fds dest k s. rank fds \<le> r \<longrightarrow> k < nfields (de_fields E fds) \<longrightarrow>
        sub_release_field D (iter_at (de_fields E) fds dest k) s = Some s)"

lemma place_area:
  "k < nfields (de_fields E fds) \<Longrightarrow>
   place (area fds dest) (de_fields E fds ! k) (it_pData (iter_at (de_fields E) fds dest k))
     (it_pSize (iter_at (de_fields E) fds dest k))"
  using place_iter_at [OF tables, of k fds dest] struct_area unfolding place_def by blast

lemma field_okD: "k < nfields (de_fields E fds) \<Longrightarrow> field_ok (de_fields E) sz rank fds k"
  using tables by (simp add: static_tables_def)

text \<open>The switch of \<open>decode_field\<close>.\<close>

definition dispatch :: "('st, 'h) dec_subs \<Rightarrow> u32 \<Rightarrow> pb_field_iter \<Rightarrow> ('st, 'h) dec_step" where
  "dispatch D wire_type it s =
     (let a = PB_ATYPE (f_type (it_field (de_fields E) it)) in
      if a = PB_ATYPE_STATIC then decode_static_field E D wire_type it s
      else if a = PB_ATYPE_POINTER then decode_pointer_field E D wire_type it s
      else if a = PB_ATYPE_CALLBACK then decode_callback_field E D wire_type it s
      else dec_error ''invalid field type'' s)"

lemma decode_field_dispatch:
  "decode_field E D wire_type it s =
     (case (if PB_HTYPE (f_type (it_field (de_fields E) it)) = PB_HTYPE_ONEOF
            then pb_release_union_field E (sub_release_field D) it s else Some (True, it, s)) of
        None \<Rightarrow> None
      | Some (False, it, s) \<Rightarrow> Some (False, it, s)
      | Some (True, it, s) \<Rightarrow> map_option (\<lambda>(ok, s). (ok, it, s)) (dispatch D wire_type it s))"
  unfolding decode_field_def dispatch_def Let_def ..

lemma ok_at_dispatch:
  assumes b: "on_buffer s" and l: "left s \<le> Suc n" and D: "subs_ok D (rank fds) n"
    and k: "k < nfields (de_fields E fds)" and it: "it_field (de_fields E) it = de_fields E fds ! k"
    and p: "place (area fds dest) (de_fields E fds ! k) (it_pData it) (it_pSize it)"
  shows "ok_at (area fds dest) s (dispatch D wire_type it s)"
proof -
  let ?f = "de_fields E fds ! k" let ?A = "area fds dest"
  have f: "field_ok (de_fields E) sz rank fds k" by (rule field_okD [OF k])
  show ?thesis
  proof (cases "PB_ATYPE (f_type ?f) = PB_ATYPE_STATIC")
    case True
    with f have v: "value_fits sz ?f" by (auto simp: field_ok_def Let_def)
    have sub: "sub_safe ?A n D ?f q \<and> default_safe ?A D ?f q" if q: "{q..<q + unat (f_data_size ?f)} \<subseteq> ?A" for q
    proof (cases "PB_LTYPE (f_type ?f) = PB_LTYPE_SUBMESSAGE")
      case True
      with f v have r: "rank (f_ptr ?f) < rank fds" and s: "sz (f_ptr ?f) \<le> unat (f_data_size ?f)"
        by (simp_all add: field_ok_def value_fits_def Let_def)
      have A: "area (f_ptr ?f) q \<subseteq> ?A" by (rule area_sub [OF q s])
      from D r have "safe (area (f_ptr ?f) q) n (sub_noinit D (f_ptr ?f) q)"
        "safe (area (f_ptr ?f) q) n (sub_decode D (f_ptr ?f) q)"
        "defaults_ok sz (f_ptr ?f) q (sub_default D (f_ptr ?f) q)"
        by (simp_all add: subs_ok_def)
      moreover have "struct_at sz (f_ptr ?f) q \<subseteq> ?A" using A struct_area by blast
      ultimately show ?thesis
        using safe_mono [OF _ A order.refl] unfolding sub_safe_def default_safe_def defaults_ok_def by blast
    qed (simp add: sub_safe_def default_safe_def)
    have "ok_at ?A s (decode_static_field E D wire_type it s)"
      by (rule ok_at_static_field [OF b l it True v p sub])
    with True it show ?thesis by (simp add: dispatch_def)
  next
    case False
    with f have a: "PB_ATYPE (f_type ?f) = PB_ATYPE_CALLBACK" and "16 \<le> unat (f_data_size ?f)"
      by (auto simp: field_ok_def Let_def)
    then have "{it_pData it..<it_pData it + 16} \<subseteq> ?A"
      using p by (auto simp: place_def field_space_def)
    then have "W \<union> {it_pData it..<it_pData it + 16} \<subseteq> ?A" by (auto simp: area_def own_def)
    then have "ok_at ?A s (decode_callback_field E D wire_type it s)"
      using l D by (intro ok_at_callback_field [OF b _ callbacks]) (simp add: subs_ok_def)
    with a it show ?thesis by (simp add: dispatch_def)
  qed
qed

lemma union_ok:
  assumes k: "k < nfields (de_fields E fds)" and D: "subs_ok D (rank fds) n"
  shows "\<exists>ok j t. pb_release_union_field E (sub_release_field D) (iter_at (de_fields E) fds dest k) s =
      Some (ok, iter_at (de_fields E) fds dest j, t) \<and> frame A s t \<and> valid_pos (de_fields E fds) j \<and>
      (ok \<longrightarrow> t = s \<and> j < nfields (de_fields E fds))"
proof -
  let ?d = "de_fields E" let ?it = "iter_at ?d fds dest"
  have find: "\<exists>ok j. pb_field_iter_find ?d (?it i) tag = Some (ok, ?it j) \<and> valid_pos (?d fds) j \<and>
      (ok \<longrightarrow> j < nfields (?d fds))" if "valid_pos (?d fds) i" "tag \<noteq> 0" for i tag
      proof (rule find_iter_at [of ?d fds i tag dest, OF that])
    fix j assume "pb_field_iter_find ?d (?it i) tag = Some (True, ?it j)" "j < nfields (?d fds)"
    then show ?thesis by (intro exI [of _ True] exI [of _ j]) (simp add: valid_pos_def)
  next
    assume "pb_field_iter_find ?d (?it i) tag = Some (False, ?it i)"
    with that(1) show ?thesis by (intro exI [of _ False] exI [of _ i]) simp
  qed
  have v: "valid_pos (?d fds) k" using k by (simp add: valid_pos_def)
  define old where "old = rd_u32 (ds_mem s) (it_pSize (?it k))"
  define new where "new = f_tag (it_field ?d (?it k))"
  have "new \<noteq> 0" using nfields_tag [OF k] field_at_nth [OF k] by (simp add: new_def)
  have err: "\<exists>t. dec_error msg s = Some (False, t) \<and> frame A s t" for msg
    using ok_at_error [of A s msg] by (simp add: ok_at_def dec_error_def)
  show ?thesis
  proof (cases "old = 0 \<or> old = new")
    case True
    then show ?thesis
      by (intro exI [of _ True] exI [of _ k] exI [of _ s])
         (auto simp: pb_release_union_field_def Let_def v k old_def new_def)
  next
    case False
    with find [OF v, of old] obtain ok j where j: "pb_field_iter_find ?d (?it k) old = Some (ok, ?it j)"
      "valid_pos (?d fds) j" "ok \<longrightarrow> j < nfields (?d fds)" by blast
    have rel: "sub_release_field D (?it j) s = Some s" if ok
      using D j(3) that by (simp add: subs_ok_def)
    from find [OF j(2) \<open>new \<noteq> 0\<close>] obtain ok2 i where i: "pb_field_iter_find ?d (?it j) new = Some (ok2, ?it i)"
      "valid_pos (?d fds) i" "ok2 \<longrightarrow> i < nfields (?d fds)" by blast
    obtain t1 t2 where e: "dec_error ''invalid union tag'' s = Some (False, t1)" "frame A s t1"
      "dec_error ''iterator error'' s = Some (False, t2)" "frame A s t2" using err [of "''invalid union tag''"] err [of "''iterator error''"] by blast
    note u = pb_release_union_field_def [of E "sub_release_field D" "?it k" s, folded old_def new_def, unfolded Let_def,
      folded old_def new_def]
    consider "\<not> ok" | "ok" "\<not> ok2" | "ok" "ok2" by blast
    then show ?thesis
    proof cases
      case 1
      with False j e show ?thesis unfolding u
        by (intro exI [of _ False] exI [of _ j] exI [of _ t1]) simp
    next
      case 2
      with False j i e rel show ?thesis unfolding u
        by (intro exI [of _ False] exI [of _ i] exI [of _ t2]) simp
    next
      case 3
      with False j i rel show ?thesis unfolding u
        by (intro exI [of _ True] exI [of _ i] exI [of _ s]) simp
    qed
  qed
qed

lemma decode_field_ok:
  assumes b: "on_buffer s" and l: "left s \<le> Suc n" and D: "subs_ok D (rank fds) n"
    and it: "loop_iter (de_fields E) fds dest (de_local E m) it" and f: "it_field (de_fields E) it = de_fields E fds ! it_pos it"
    and k: "it_pos it < nfields (de_fields E fds)"
  shows "\<exists>ok it' t. decode_field E D wire_type it s = Some (ok, it', t) \<and> frame (area fds dest) s t \<and>
    loop_iter (de_fields E) fds dest (de_local E m) it'"
proof -
  let ?d = "de_fields E" let ?A = "area fds dest" let ?f = "?d fds ! it_pos it"
  have place: "place ?A ?f (it_pData it) (it_pSize it)"
    using it unfolding loop_iter_def
  proof (elim disjE exE conjE)
    fix i assume "it = iter_at ?d fds dest i"
    with k show ?thesis using place_area [of i fds dest] by simp
  next
    fix i assume i: "i < nfields (?d fds)" "it = (iter_at ?d fds dest i)\<lparr>it_pSize := de_local E m\<rparr>"
      "PB_HTYPE (f_type (?d fds ! i)) = PB_HTYPE_REPEATED"
    have "it_pos it = i" "it_pData it = it_pData (iter_at ?d fds dest i)" using i(2) by simp_all
    with place_area [OF i(1), of dest] local_area [of m fds dest] i show ?thesis by (auto simp: place_def)
  qed
  have go: "\<exists>ok t. map_option (\<lambda>(ok, s). (ok, it', s)) (dispatch D wire_type it' s) = Some (ok, it', t) \<and> frame ?A s t"
    if "j < nfields (?d fds)" "it_field ?d it' = ?d fds ! j" "place ?A (?d fds ! j) (it_pData it') (it_pSize it')" for it' j
    using ok_at_dispatch [OF b l D that, of wire_type] by (auto simp: ok_at_def)
  show ?thesis
  proof (cases "PB_HTYPE (f_type ?f) = PB_HTYPE_ONEOF")
    case False
    from go [OF k f place] it False f show ?thesis
      unfolding decode_field_dispatch by auto
  next
    case True
    with it have e: "it = iter_at ?d fds dest (it_pos it)" by (auto simp: loop_iter_def)
    from union_ok [OF k D, of dest s ?A] obtain ok j t where
      u: "pb_release_union_field E (sub_release_field D) it s = Some (ok, iter_at ?d fds dest j, t)"
      and t: "frame ?A s t" and v: "valid_pos (?d fds) j" and ok: "ok \<longrightarrow> t = s \<and> j < nfields (?d fds)"
      unfolding e [symmetric] by blast
    show ?thesis
    proof (cases ok)
      case False
      with u t True f v show ?thesis
        by (intro exI [of _ False] exI [of _ "iter_at ?d fds dest j"] exI [of _ t]) (simp add: decode_field_dispatch loop_iter_at)
    next
      case True': True
      then have j: "j < nfields (?d fds)" "t = s" using ok by auto
      have "it_field ?d (iter_at ?d fds dest j) = ?d fds ! j" using j by (simp add: field_at_nth)
      from go [OF j(1) this place_area [OF j(1)]] obtain ok2 t2 where
        g: "map_option (\<lambda>(ok, s). (ok, iter_at ?d fds dest j, s)) (dispatch D wire_type (iter_at ?d fds dest j) s) =
          Some (ok2, iter_at ?d fds dest j, t2)" and t2: "frame ?A s t2" by blast
      have "decode_field E D wire_type it s = Some (ok2, iter_at ?d fds dest j, t2)"
        using u True' True f g j unfolding decode_field_dispatch by simp
      with t2 v show ?thesis by (blast intro: loop_iter_at)
    qed
  qed
qed

text \<open>A round of the loop, the loop, and messages.\<close>

definition round_ok :: "nat \<Rightarrow> nat \<Rightarrow> nat \<Rightarrow> ('st, 'h) dec_state \<Rightarrow>
    (loop_exit \<times> noinit_locals \<times> ('st, 'h) dec_state) option \<Rightarrow> bool" where
  "round_ok fds dest m s r \<longleftrightarrow> (\<exists>e l t. r = Some (e, l, t) \<and> frame (area fds dest) s t \<and>
     loop_iter (de_fields E) fds dest (de_local E m) (nl_iter l))"

lemma round_finish:
  "ok_at (area fds dest) s r \<Longrightarrow> loop_iter (de_fields E) fds dest (de_local E m) (nl_iter l) \<Longrightarrow>
   round_ok fds dest m s (finish_round l r)"
  unfolding round_ok_def ok_at_def finish_round_def
  by (elim exE conjE) (rename_tac ok t, rule_tac x = "if ok then Continue else Return_false" in exI, auto)

lemma no_extension:
  assumes it: "loop_iter (de_fields E) fds dest (de_local E m) it"
  shows "\<exists>it'. find_extension_field (de_fields E) it = Some (False, it') \<and>
    loop_iter (de_fields E) fds dest (de_local E m) it'"
proof -
  let ?d = "de_fields E"
  have z: "\<not> PB_LTYPE (f_type (field_at (?d fds) 0)) = PB_LTYPE_EXTENSION" if "nfields (?d fds) = 0"
  proof -
    have "?d fds = []" using tables that by (simp add: static_tables_def)
    then show ?thesis by (simp add: field_at_def PB_LAST_FIELD_def PB_LTYPE_def)
  qed
  from find_from_loop [of ?d fds dest "de_local E m" it "\<lambda>f. PB_LTYPE (f_type f) = PB_LTYPE_EXTENSION", OF it z]
  obtain ok it' where f: "find_extension_field ?d it = Some (ok, it')"
    and it': "loop_iter ?d fds dest (de_local E m) it'"
    and no: "ok \<longrightarrow> (\<exists>j < nfields (?d fds). PB_LTYPE (f_type (?d fds ! j)) = PB_LTYPE_EXTENSION)"
    by (fastforce simp: find_extension_field_def PB_LAST_FIELD_def PB_LTYPE_def simp del: find_loop.simps)
  have "\<not> ok" using no field_okD by (fastforce simp: field_ok_def Let_def)
  with f it' show ?thesis by simp
qed

text \<open>So an unknown tag is skipped.\<close>

lemma unknown_skips:
  assumes "loop_iter (de_fields E) fds dest (de_local E m) (nl_iter l)" and "tag < - 1"
  obtains l' where "decode_unknown E D tag wire_type l s = finish_round l' (on_stream (\<lambda>t. pb_skip_field t wire_type) s)"
    and "loop_iter (de_fields E) fds dest (de_local E m) (nl_iter l')"
proof -
  from no_extension [OF assms(1)] obtain it' where f: "find_extension_field (de_fields E) (nl_iter l) = Some (False, it')"
    and it': "loop_iter (de_fields E) fds dest (de_local E m) it'" by blast
  have "\<not> - 1 \<le> tag" using assms(2) by (simp only: not_le)
  with f it' assms(1) show ?thesis
    by (cases "nl_extension_range_start l \<le> tag")
       (auto simp: decode_unknown_def Let_def intro: that)
qed

lemma unknown_ok:
  assumes b: "on_buffer s" and it: "loop_iter (de_fields E) fds dest (de_local E m) (nl_iter l)"
    and tag: "tag < - 1"
  shows "round_ok fds dest m s (decode_unknown E D tag wire_type l s)"
  by (rule unknown_skips [OF it tag, where D = D and wire_type = wire_type and s = s])
     (simp add: round_finish [OF ok_at_skip_field [OF b]])

lemma known_ok:
  assumes b: "on_buffer s" and l: "left s \<le> Suc n" and D: "subs_ok D (rank fds) n"
    and it: "loop_iter (de_fields E) fds dest (de_local E m) (nl_iter l)"
    and k: "it_pos (nl_iter l) < nfields (de_fields E fds)"
    and f: "it_field (de_fields E) (nl_iter l) = de_fields E fds ! it_pos (nl_iter l)"
  shows "round_ok fds dest m s (decode_known E D (de_local E m) wire_type l s)"
proof -
  let ?d = "de_fields E" let ?A = "area fds dest" let ?it = "nl_iter l" let ?f = "?d fds ! it_pos ?it"
  let ?local = "de_local E m"
  define fixed where "fixed \<longleftrightarrow> PB_HTYPE (f_type ?f) = PB_HTYPE_REPEATED \<and> it_pSize ?it = it_pData ?it"
  define fresh where "fresh \<longleftrightarrow> fixed \<and> nl_fixed_count_field l \<noteq> Some (it_pos ?it)"
  define u where "u = (if fresh then upd_mem (wr_u32 ?local 0) s else s)"
  define it2 where "it2 = (if fixed then ?it\<lparr>it_pSize := ?local\<rparr> else ?it)"
  have u: "frame ?A s u" unfolding u_def by (simp add: frame_upd_mem confined_wr(2) local_area)
  have bu: "on_buffer u" "left u = left s" using b by (simp_all add: u_def upd_mem_def)
  have it2: "loop_iter ?d fds dest ?local it2"
  proof (cases fixed)
    case True
    obtain i where i: "?it = iter_at ?d fds dest i \<or> ?it = (iter_at ?d fds dest i)\<lparr>it_pSize := ?local\<rparr>"
      using it unfolding loop_iter_def by blast
    then have "it_pos ?it = i" "it2 = (iter_at ?d fds dest i)\<lparr>it_pSize := ?local\<rparr>"
      using True by (auto simp: it2_def)
    with True k show ?thesis unfolding loop_iter_def fixed_def by blast
  qed (use it in \<open>simp add: it2_def\<close>)
  have p2: "it_pos it2 = it_pos ?it" "it_field ?d it2 = ?f" using f by (simp_all add: it2_def it_field_def)
  from decode_field_ok [OF bu(1) _ D it2, of wire_type] l bu(2) p2 k obtain ok it3 t where
    d: "decode_field E D wire_type it2 u = Some (ok, it3, t)" and t: "frame ?A u t" and
    it3: "loop_iter ?d fds dest ?local it3" by auto
  have err: "round_ok fds dest m s (finish_round l (dec_error msg s))" for msg
    by (rule round_finish [OF ok_at_error it])
  have "frame ?A s t" using u t by (rule frame_trans)
  with it3 d err show ?thesis
    by (simp add: decode_known_def Let_def f fixed_def [symmetric] fresh_def [symmetric]
        u_def [symmetric] it2_def [symmetric] round_ok_def)
qed

lemma round_empty:
  assumes b: "on_buffer s" and it: "loop_iter (de_fields E) fds dest (de_local E m) (nl_iter l)"
    and "nfields (de_fields E fds) = 0"
  shows "pb_field_iter_find (de_fields E) (nl_iter l) 0 = Some (True, nl_iter l)"
    and "round_ok fds dest m s (decode_known E D (de_local E m) wire_type l s)"
proof -
  let ?d = "de_fields E" let ?A = "area fds dest" let ?it = "iter_at ?d fds dest 0"
  have e: "?d fds = []" using tables assms(3) by (simp add: static_tables_def)
  have l: "nl_iter l = ?it" using it assms(3) by (auto simp: loop_iter_def valid_pos_def)
  have f: "field_at (?d fds) 0 = PB_LAST_FIELD" by (simp add: e field_at_def)
  have t: "PB_ATYPE (f_type PB_LAST_FIELD) = 0" "PB_HTYPE (f_type PB_LAST_FIELD) = 0"
    "PB_LTYPE (f_type PB_LAST_FIELD) = 0" "f_tag PB_LAST_FIELD = 0"
    by (simp_all add: PB_LAST_FIELD_def PB_ATYPE_def PB_HTYPE_def PB_LTYPE_def)
  show "pb_field_iter_find ?d (nl_iter l) 0 = Some (True, nl_iter l)"
    by (simp add: l pb_field_iter_find_def f t)
  have v: "ok_at ?A s (pb_dec_varint PB_LAST_FIELD p s)" for p
    unfolding pb_dec_varint_def Let_def
    by (rule ok_at_with_read [OF b reader_varint], rule ok_at_store_checked) (simp add: PB_LAST_FIELD_def)
  have "ok_at ?A s (decode_static_field E D wire_type ?it s)"
    using v by (simp add: decode_static_field_def pb_decoder_def f t)
  then obtain ok u where "decode_static_field E D wire_type ?it s = Some (ok, u)" "frame ?A s u"
    by (auto simp: ok_at_def)
  then have "decode_field E D wire_type ?it s = Some (ok, ?it, u)" "frame ?A s u"
    by (simp_all add: decode_field_dispatch dispatch_def f t)
  moreover have "valid_pos (?d fds) 0" by (simp add: valid_pos_def e nfields_def)
  ultimately show "round_ok fds dest m s (decode_known E D (de_local E m) wire_type l s)"
    by (auto simp: round_ok_def decode_known_def l f t Let_def intro: loop_iter_at)
qed

lemma round_step:
  assumes b: "on_buffer s" and l: "left s \<le> Suc (Suc n)" and D: "subs_ok D (rank fds) n"
    and it: "loop_iter (de_fields E) fds dest (de_local E m) (nl_iter l)"
  shows "\<exists>e l' t. noinit_round E D (de_local E m) l s = Some (e, l', t) \<and> frame (area fds dest) s t \<and>
    loop_iter (de_fields E) fds dest (de_local E m) (nl_iter l') \<and> (e = Continue \<longrightarrow> left t < left s)"
proof -
  let ?d = "de_fields E" let ?A = "area fds dest"
  obtain g u where g: "pb_decode_tag (ds_in s) = (g, u)" by force
  have w: "within (ds_in s) u" by (rule moved_within [OF moved_pb_decode_tag [OF b g]])
  let ?u = "s\<lparr>ds_in := u\<rparr>"
  have fu: "frame ?A s ?u" by (rule frame_stream [OF w])
  show ?thesis
  proof (cases g)
    case (Tag wt tag)
    note small = decode_tag_small [OF g [unfolded Tag]] and less = decode_tag_left [OF g [unfolded Tag]]
    have bu: "on_buffer ?u" by (rule frame_buffer [OF fu b])
    have lu: "left ?u \<le> Suc n" using less l by simp
    show ?thesis
    proof (cases "nfields (?d fds) = 0 \<and> tag = 0")
      case True
      note e = round_empty(1) [OF bu it] round_empty(2) [OF bu it, where D = D and wire_type = wt]
      from True e(2) obtain e l' t where
        r: "decode_known E D (de_local E m) wt l ?u = Some (e, l', t)" and t: "frame ?A ?u t"
        and l': "loop_iter ?d fds dest (de_local E m) (nl_iter l')" unfolding round_ok_def by blast
      have "left t < left s" using frame_left [OF t] less by simp
      moreover have "frame ?A s t" using fu t by (rule frame_trans)
      ultimately show ?thesis using True e(1) r l' g Tag by (simp add: noinit_round_def)
    next
      case False
      then have z: "\<not> (f_tag (field_at (?d fds) 0) = tag \<and> PB_LTYPE (f_type (field_at (?d fds) 0)) \<noteq> PB_LTYPE_EXTENSION)"
        if "nfields (?d fds) = 0" using nfields_end [of "?d fds"] that by simp
    from find_from_loop [of ?d fds dest "de_local E m" "nl_iter l"
        "\<lambda>f. f_tag f = tag \<and> PB_LTYPE (f_type f) \<noteq> PB_LTYPE_EXTENSION", OF it z]
    have "\<exists>ok it'. pb_field_iter_find ?d (nl_iter l) tag = Some (ok, it') \<and> loop_iter ?d fds dest (de_local E m) it' \<and>
        (ok \<longrightarrow> it_pos it' < nfields (?d fds) \<and> it_field ?d it' = ?d fds ! it_pos it')"
      unfolding pb_field_iter_find_def by blast
    then obtain ok it' where f: "pb_field_iter_find ?d (nl_iter l) tag = Some (ok, it')"
      and it': "loop_iter ?d fds dest (de_local E m) it'"
      and k: "ok \<longrightarrow> it_pos it' < nfields (?d fds) \<and> it_field ?d it' = ?d fds ! it_pos it'" by blast
    have "round_ok fds dest m ?u (if ok then decode_known E D (de_local E m) wt (l\<lparr>nl_iter := it'\<rparr>) ?u
        else decode_unknown E D tag wt (l\<lparr>nl_iter := it'\<rparr>) ?u)"
      using known_ok [OF bu lu D] unknown_ok [OF bu] it' k small by simp
    then obtain e l' t where r: "(if ok then decode_known E D (de_local E m) wt (l\<lparr>nl_iter := it'\<rparr>) ?u
        else decode_unknown E D tag wt (l\<lparr>nl_iter := it'\<rparr>) ?u) = Some (e, l', t)"
      and t: "frame ?A ?u t" and l': "loop_iter ?d fds dest (de_local E m) (nl_iter l')"
      unfolding round_ok_def by blast
    have "left t < left s" using frame_left [OF t] less by simp
    with r l' frame_trans [OF fu t] g Tag f show ?thesis
      by (cases ok) (simp_all add: noinit_round_def)
    qed
  qed (use g fu it in \<open>simp_all add: noinit_round_def\<close>)
qed

lemma loop_step:
  assumes "on_buffer s" and "left s \<le> Suc (Suc n)" and D: "subs_ok D (rank fds) n" and "left s < i"
    and "loop_iter (de_fields E) fds dest (de_local E m) (nl_iter l)"
  shows "\<exists>ok l' t. noinit_loop i (noinit_round E D (de_local E m)) l s = Some (ok, l', t) \<and>
    frame (area fds dest) s t"
  using assms(1,2,4,5)
proof (induction i arbitrary: s l)
  case (Suc i)
  show ?case
  proof (cases "left s = 0")
    case False
    from round_step [OF Suc.prems(1,2) D Suc.prems(4)] obtain e l' t where
      r: "noinit_round E D (de_local E m) l s = Some (e, l', t)" and t: "frame (area fds dest) s t"
      and it: "loop_iter (de_fields E) fds dest (de_local E m) (nl_iter l')" and c: "e = Continue \<longrightarrow> left t < left s"
      by blast
    show ?thesis
    proof (cases e)
      case Continue
      with c Suc.prems frame_buffer [OF t Suc.prems(1)] it obtain ok l'' v where
        "noinit_loop i (noinit_round E D (de_local E m)) l' t = Some (ok, l'', v)" "frame (area fds dest) t v"
        using Suc.IH [of t l'] by auto
      with False r Continue frame_trans [OF t] show ?thesis by auto
    qed (use False r t in auto)
  qed auto
qed simp

lemma init_safe:
  assumes r: "rank fds < n" and d: "safe (area fds dest) b (noinit fds dest)"
  shows "safe (area fds dest) b (decode_init n E noinit fds dest)"
  unfolding safe_def
proof (intro allI impI)
  fix s :: "('st, 'h) dec_state" assume b: "on_buffer s" and l: "left s \<le> b"
  let ?A = "area fds dest"
  from message_defaults_ok [OF tables r, of dest] obtain m where
    m: "pb_message_set_to_defaults n E fds dest (ds_mem s) = Some m"
    and a: "\<forall>a. a \<notin> struct_at sz fds dest \<longrightarrow> m a = ds_mem s a" unfolding defaults_ok_def by blast
  have f: "frame ?A s (s\<lparr>ds_mem := m\<rparr>)" using a struct_area by (auto simp: frame_def)
  from safeD [OF d, of "s\<lparr>ds_mem := m\<rparr>"] b l obtain ok t where
    t: "noinit fds dest (s\<lparr>ds_mem := m\<rparr>) = Some (ok, t)" "frame ?A (s\<lparr>ds_mem := m\<rparr>) t"
    by (auto simp: ok_at_def)
  have "frame ?A s t" using f t(2) by (rule frame_trans)
  then show "ok_at ?A s (decode_init n E noinit fds dest s)"
    using m t(1) release_same [OF tables r, of dest t] by (cases ok) (simp_all add: decode_init_def ok_at_Some)
qed

lemma subs_of_ok:
  assumes n: "b + rank fds < n"
    and noinit: "\<And>fds' dest'. rank fds' < rank fds \<Longrightarrow> safe (area fds' dest') (b - 1) (noinit fds' dest')"
  shows "subs_ok (subs_of n E noinit) (rank fds) (b - 1)"
  unfolding subs_ok_def
proof (intro conjI allI impI)
  let ?d = "de_fields E" let ?D = "subs_of n E noinit"
  show "b - 1 < sub_fuel ?D" using n by (simp add: subs_of_def)
  fix fds' dest' :: nat assume r: "rank fds' < rank fds"
  then have r': "rank fds' < n" using n by simp
  note s = noinit [OF r]
  show "safe (area fds' dest') (b - 1) (sub_noinit ?D fds' dest')" using s by (simp add: subs_of_def)
  show "safe (area fds' dest') (b - 1) (sub_decode ?D fds' dest')"
    using init_safe [of fds' n dest' "b - 1" noinit, OF r' s] by (simp add: subs_of_def)
  show "defaults_ok sz fds' dest' (sub_default ?D fds' dest')"
    using message_defaults_ok [OF tables r'] by (simp add: subs_of_def)
next
  fix fds' dest' k and s :: "('st, 'h) dec_state"
  assume r: "rank fds' \<le> rank fds" and k: "k < nfields (de_fields E fds')"
  show "sub_release_field (subs_of n E noinit) (iter_at (de_fields E) fds' dest' k) s = Some s"
    using r n by (simp add: subs_of_def) (intro release_iter_same [OF tables k] release_same [OF tables], simp)
qed

lemma noinit_safe: "b + rank fds + 1 < n \<Longrightarrow> safe (area fds dest) b (pb_decode_noinit n E fds dest)"
proof (induction n arbitrary: fds dest b)
  case (Suc n)
  let ?d = "de_fields E" let ?A = "area fds dest" let ?local = "de_local E n"
  let ?D = "subs_of n E (pb_decode_noinit n E)"
  have D: "subs_ok ?D (rank fds) (b - 1)"
    using Suc.prems by (intro subs_of_ok Suc.IH) simp_all
  show ?case unfolding safe_def
  proof (intro allI impI)
    fix s :: "('st, 'h) dec_state" assume bs: "on_buffer s" and ls: "left s \<le> b"
    let ?s = "upd_mem (wr_u32 ?local 0) s"
    define l where "l = \<lparr>nl_fields_seen = [0, 0], nl_extension_range_start = 0,
      nl_iter = snd (pb_field_iter_begin ?d fds dest), nl_fixed_count_field = None\<rparr>"
    have f: "frame ?A s ?s" by (rule frame_upd_mem [OF confined_wr(2) [OF local_area]])
    have "valid_pos (?d fds) 0" by (auto simp: valid_pos_def)
    then have it: "loop_iter ?d fds dest ?local (nl_iter l)" by (simp add: l_def begin_iter_at loop_iter_at)
    have "\<exists>ok l' t. noinit_loop n (noinit_round E ?D ?local) l ?s = Some (ok, l', t) \<and> frame ?A ?s t"
      using bs ls Suc.prems by (intro loop_step [OF _ _ D _ it]) (simp_all add: upd_mem_def)
    then obtain ok l' t where r: "noinit_loop n (noinit_round E ?D ?local) l ?s = Some (ok, l', t)"
      and t: "frame ?A ?s t" by blast
    have ft: "frame ?A s t" using f t by (rule frame_trans)
    have e: "pb_decode_noinit (Suc n) E fds dest s =
      (case noinit_loop n (noinit_round E ?D ?local) l ?s of
         None \<Rightarrow> None
       | Some (False, l, s) \<Rightarrow> Some (False, s)
       | Some (True, l, s) \<Rightarrow>
           if fixed_count_wrong (?d fds) (nl_fixed_count_field l) (rd_u32 (ds_mem s) ?local) then
             dec_error ''wrong size for fixed count field'' s
           else if required_missing ?d (nl_iter l) (nl_fields_seen l) then
             dec_error ''missing required field'' s
           else Some (True, s))"
      unfolding pb_decode_noinit.simps Let_def l_def ..
    show "ok_at ?A s (pb_decode_noinit (Suc n) E fds dest s)"
      unfolding e r using ok_at_step [OF ft ok_at_error] ft by (cases ok) (simp_all add: ok_at_Some)
  qed
qed simp

lemma decode_safe:
  assumes "b + rank fds + 1 < n"
  shows "safe (area fds dest) b (pb_decode n E fds dest)" "safe (area fds dest) b (pb_decode_noinit n E fds dest)"
  using init_safe [of fds n dest b "pb_decode_noinit n E"] noinit_safe [OF assms] assms
  by (simp_all add: pb_decode_def)

end

end
