(* ===== verification/Pb_Values.thy ===== *)
theory Pb_Values
  imports Pb_Decode Pb_Encode_Spec
begin

text \<open>
  The value of a message as a tree, and that the decoder of each type of value reads back what the encoder
  has written: \<open>value_back\<close>. Submessages and whole messages are in \<open>Pb_Roundtrip\<close>.
\<close>

section \<open>Words and strings\<close>

lemma le_word_small: "8 * length bs \<le> i \<Longrightarrow> \<not> bit (le_word bs :: 'a::len word) i"
proof (induction bs arbitrary: i)
  case (Cons b bs)
  then have "8 * length bs \<le> i - 8" "8 \<le> i" by simp_all
  with Cons.IH [of "i - 8"] show ?case by (auto simp: bit_le_word_Cons simp del: le_word.simps dest: bit_imp_le_length)
qed simp

lemma le_bytes_word: "8 * length bs \<le> LENGTH('a) \<Longrightarrow> le_bytes (length bs) (le_word bs :: 'a::len word) = bs"
proof (induction bs)
  case (Cons b bs)
  have b: "(ucast (le_word (b # bs) :: 'a word) :: u8) = b"
    by (rule bit_word_eqI) (use Cons.prems in \<open>auto simp: bit_simps bit_le_word_Cons\<close>)
  have d: "drop_bit 8 (le_word (b # bs) :: 'a word) = le_word bs"
  proof (rule bit_word_eqI)
    fix i assume "i < LENGTH('a)"
    have "\<not> bit b (8 + i)" by (auto dest: bit_imp_le_length)
    moreover have "bit (le_word bs :: 'a word) i \<Longrightarrow> 8 + i < LENGTH('a)"
      using le_word_small [of bs i, where 'a = 'a] Cons.prems by (cases "8 * length bs \<le> i") auto
    ultimately show "bit (drop_bit 8 (le_word (b # bs) :: 'a word)) i = bit (le_word bs :: 'a word) i"
      by (auto simp: bit_simps bit_le_word_Cons)
  qed
  from Cons show ?case by (simp add: b d del: le_word.simps)
qed simp

lemma le_bytes_rd:
  "le_bytes 2 (rd_u16 m a) = rd_bytes m a 2" "le_bytes 4 (rd_u32 m a) = rd_bytes m a 4"
  "le_bytes 8 (rd_u64 m a) = rd_bytes m a 8"
  using le_bytes_word [of "rd_bytes m a 2", where 'a = 16] le_bytes_word [of "rd_bytes m a 4", where 'a = 32]
    le_bytes_word [of "rd_bytes m a 8", where 'a = 64]
  by (simp_all add: rd_u16_def rd_u32_def rd_u64_def)

lemma cast_back [simp]:
  "ucast (scast (b :: u8) :: u64) = b" "ucast (scast (h :: u16) :: u64) = h" "ucast (scast (w :: u32) :: u64) = w"
  "ucast (ucast (b :: u8) :: u64) = b" "ucast (ucast (h :: u16) :: u64) = h" "ucast (ucast (w :: u32) :: u64) = w"
  by (rule bit_word_eqI; force simp: bit_simps)+

lemma cast_via32 [simp]:
  "scast (ucast (scast (b :: u8) :: u64) :: u32) = (scast b :: u64)"
  "scast (ucast (scast (h :: u16) :: u64) :: u32) = (scast h :: u64)"
  by (rule bit_word_eqI; simp add: bit_simps min_def)+

text \<open>An integer field is stored as it was read.\<close>

lemma store_signed:
  assumes "signed_value m sz src = Some v"
  shows "narrow_signed sz v = Some v" and "sz \<noteq> 8 \<Longrightarrow> scast (ucast v :: u32) = v"
    and "store_int sz dest v m' = wr_bytes m' dest (rd_bytes m src (unat sz))"
  using assms le_bytes_rd [of m src]
  by (auto simp: signed_value_def narrow_signed_def store_int_def wr_u16_def wr_u32_def wr_u64_def split: if_splits)

lemma store_unsigned:
  assumes "unsigned_value m sz src = Some v"
  shows "narrow_unsigned sz v = Some v"
    and "store_int sz dest v m' = wr_bytes m' dest (rd_bytes m src (unat sz))"
  using assms le_bytes_rd [of m src]
  by (auto simp: unsigned_value_def narrow_unsigned_def store_int_def wr_u16_def wr_u32_def wr_u64_def split: if_splits)

text \<open>The length of a string in an array.\<close>

lemma c_strnlen_le: "c_strnlen m p k \<le> k"
proof (induction m p k rule: c_strnlen.induct)
  case (1 m p k)
  then show ?case by (auto simp: c_strnlen.simps [of m p k])
qed

lemma c_strnlen_char: "i < c_strnlen m p k \<Longrightarrow> m (p + i) \<noteq> 0"
proof (induction m p k arbitrary: i rule: c_strnlen.induct)
  case (1 m p k)
  then show ?case by (cases i) (auto simp: c_strnlen.simps [of m p k] split: if_splits)
qed

lemma c_strnlen_eq:
  "(\<forall>i<n. m (p + i) \<noteq> 0) \<Longrightarrow> m (p + n) = 0 \<Longrightarrow> n < k \<Longrightarrow> c_strnlen m p k = n"
proof (induction n arbitrary: p k)
  case (Suc n)
  from Suc.prems(1) have "m p \<noteq> 0" "\<forall>i<n. m (Suc p + i) \<noteq> 0" by (auto dest: spec [of _ "Suc _"] spec [of _ 0])
  with Suc show ?case by (simp add: c_strnlen.simps [of m p])
qed (simp add: c_strnlen.simps [of m p for p])

lemma c_strnlen_cong: "(\<And>i. i < k \<Longrightarrow> m (p + i) = m' (q + i)) \<Longrightarrow> c_strnlen m p k = c_strnlen m' q k"
proof (induction k arbitrary: p q)
  case (Suc k)
  have "c_strnlen m (Suc p) k = c_strnlen m' (Suc q) k"
    using Suc.prems [of "Suc _"] by (intro Suc.IH) simp
  with Suc.prems [of 0] show ?case by (simp add: c_strnlen.simps [of m p] c_strnlen.simps [of m' q])
qed (simp add: c_strnlen.simps [of _ _ 0])

lemma rd_bytes_cong: "(\<And>i. i < n \<Longrightarrow> m (p + i) = m' (q + i)) \<Longrightarrow> rd_bytes m p n = rd_bytes m' q n"
  by (rule nth_equalityI) (simp_all add: nth_rd_bytes)


section \<open>The value of a message\<close>

text \<open>
  A message as a tree: numbers and byte arrays of fixed length are \<open>Scalar\<close>, strings and byte arrays are
  \<open>Contents\<close>, and a field whose flag says that it is absent is \<open>None\<close>. A fixed number is read at its width,
  and nothing behind the end of an array is read.
\<close>

datatype pb_value = Scalar bytes | Contents bytes | Message "pb_value option list"

definition plain_value :: "memory \<Rightarrow> (nat \<Rightarrow> nat \<Rightarrow> pb_value option list) \<Rightarrow> pb_field \<Rightarrow> nat \<Rightarrow> pb_value" where
  "plain_value m sub f p =
     (let l = PB_LTYPE (f_type f); sz = unat (f_data_size f) in
      if l = PB_LTYPE_SUBMESSAGE then Message (sub (f_ptr f) p)
      else if l = PB_LTYPE_BYTES then
        Contents (rd_bytes m (p + bytes_off) (min (unat (rd_u32 m p)) (sz - bytes_off)))
      else if l = PB_LTYPE_STRING then Contents (rd_bytes m p (c_strnlen m p sz))
      else Scalar (rd_bytes m p
        (if l = PB_LTYPE_FIXED32 then 4 else if l = PB_LTYPE_FIXED64 then 8 else sz)))"

definition has_flag :: "memory \<Rightarrow> pb_field \<Rightarrow> nat \<Rightarrow> bool" where
  "has_flag m f p \<longleftrightarrow> f_size_offset f = 0 \<or> rd_bool m (ptr_plus p (f_size_offset f))"

fun message_value :: "nat \<Rightarrow> pb_tables \<Rightarrow> memory \<Rightarrow> nat \<Rightarrow> nat \<Rightarrow> pb_value option list" where
  "message_value 0 d m fds p = []"
| "message_value (Suc n) d m fds p =
     map (\<lambda>k. let f = field_at (d fds) k; q = p + field_offset (d fds) k in
            if has_flag m f q then Some (plain_value m (message_value n d m) f q) else None)
       [0..<nfields (d fds)]"

section \<open>One value\<close>

lemma with_read_Some: "rd (ds_in s) = (Some x, t) \<Longrightarrow> with_read rd k s = k x (s\<lparr>ds_in := t\<rparr>)"
  by (simp add: with_read_def)

text \<open>The state behind \<open>n\<close> more bytes of the stream and with memory \<open>m\<close>.\<close>

abbreviation stepped :: "('st, 'h) dec_state \<Rightarrow> nat \<Rightarrow> memory \<Rightarrow> ('st, 'h) dec_state" where
  "stepped s n m \<equiv> s\<lparr>ds_in := adv (ds_in s) n, ds_mem := m\<rparr>"

definition same_outside :: "nat set \<Rightarrow> memory \<Rightarrow> memory \<Rightarrow> bool" where
  "same_outside A m m' \<longleftrightarrow> (\<forall>a. a \<notin> A \<longrightarrow> m' a = m a)"

lemma same_outside_wr: "{a..<a + length bs} \<subseteq> A \<Longrightarrow> same_outside A m (wr_bytes m a bs)"
  by (auto simp: same_outside_def wr_bytes_app)

lemma read_to_starts:
  "starts (ds_in s) bs \<Longrightarrow>
   read_to dest (length bs) s = Some (True, stepped s (length bs) (wr_bytes (ds_mem s) dest bs))"
  by (simp add: read_to_def with_read_def stream_simps upd_mem_def)

lemma store_checked_Some:
  "c = Some v \<Longrightarrow> store_checked c sz dest v s = Some (True, upd_mem (store_int sz dest v) s)"
  by (simp add: store_checked_def Let_def)

text \<open>The part of the conditions on a field that its value needs.\<close>

definition value_wide :: "pb_field \<Rightarrow> bool" where
  "value_wide f \<longleftrightarrow>
     (PB_LTYPE (f_type f) = PB_LTYPE_FIXED32 \<longrightarrow> 4 \<le> unat (f_data_size f)) \<and>
     (PB_LTYPE (f_type f) = PB_LTYPE_FIXED64 \<longrightarrow> 8 \<le> unat (f_data_size f))"

definition reads_back :: "(('st, 'h) dec_state \<Rightarrow> ('st, 'h) dec_result) \<Rightarrow> bytes \<Rightarrow> nat set \<Rightarrow> (memory \<Rightarrow> bool) \<Rightarrow>
    ('st, 'h) dec_state \<Rightarrow> bool" where
  "reads_back g bs A P s \<longleftrightarrow>
     (\<exists>m'. g s = Some (True, stepped s (length bs) m') \<and> P m' \<and> same_outside A (ds_mem s) m')"

lemma reads_backI:
  "g s = Some (True, stepped s (length bs) m') \<Longrightarrow> P m' \<Longrightarrow> same_outside A (ds_mem s) m' \<Longrightarrow> reads_back g bs A P s"
  by (auto simp: reads_back_def)

text \<open>The steps that write a number as it lies in the memory of the sender.\<close>

lemma scalar_back:
  assumes "g s = Some (True, stepped s (length bs) (wr_bytes (ds_mem s) dest (rd_bytes m src n)))"
    and "n \<le> k" and "\<And>m'. rd_bytes m' dest n = rd_bytes m src n \<Longrightarrow> P m'"
  shows "reads_back g bs {dest..<dest + k} P s"
  using assms(1)
proof (rule reads_backI)
  show "P (wr_bytes (ds_mem s) dest (rd_bytes m src n))"
    using rd_wr_same [of "ds_mem s" dest "rd_bytes m src n"] by (intro assms(3)) simp
qed (rule same_outside_wr, simp add: assms(2))

lemma varint_back:
  assumes "signed_value m (f_data_size f) src = Some v" and "starts (ds_in s) (varint v)"
  shows "pb_dec_varint f dest s =
    Some (True, stepped s (length (varint v)) (wr_bytes (ds_mem s) dest (rd_bytes m src (unat (f_data_size f)))))"
proof -
  note v = store_signed [OF assms(1)]
  from v(2) have "(if f_data_size f = 8 then v else scast (ucast v :: u32)) = v" by simp
  with assms(2) show ?thesis
    by (simp add: pb_dec_varint_def with_read_def stream_simps store_checked_Some v upd_mem_def)
qed

lemma uvarint_back:
  assumes "unsigned_value m (f_data_size f) src = Some v" and "starts (ds_in s) (varint v)"
  shows "pb_dec_uvarint f dest s =
    Some (True, stepped s (length (varint v)) (wr_bytes (ds_mem s) dest (rd_bytes m src (unat (f_data_size f)))))"
  using store_unsigned [OF assms(1)] assms(2)
  by (simp add: pb_dec_uvarint_def with_read_def stream_simps store_checked_Some upd_mem_def)

lemma svarint_back:
  assumes "signed_value m (f_data_size f) src = Some v" and "starts (ds_in s) (varint (zigzag v))"
  shows "pb_dec_svarint f dest s =
    Some (True, stepped s (length (varint (zigzag v)))
      (wr_bytes (ds_mem s) dest (rd_bytes m src (unat (f_data_size f)))))"
  using store_signed [OF assms(1)] assms(2)
  by (simp add: pb_dec_svarint_def with_read_def stream_simps store_checked_Some upd_mem_def)

lemma fixed_back:
  "starts (ds_in s) (fixed32_bytes (rd_u32 m src)) \<Longrightarrow>
    pb_dec_fixed32 f dest s = Some (True, stepped s 4 (wr_bytes (ds_mem s) dest (rd_bytes m src 4)))"
  "starts (ds_in s) (fixed64_bytes (rd_u64 m src)) \<Longrightarrow>
    pb_dec_fixed64 f dest s = Some (True, stepped s 8 (wr_bytes (ds_mem s) dest (rd_bytes m src 8)))"
  by (simp_all add: pb_dec_fixed32_def pb_dec_fixed64_def with_read_def stream_simps upd_mem_def wr_u32_def
      wr_u64_def le_bytes_rd)

lemma length_step:
  assumes "length bs < 2 ^ 32" and "starts (ds_in s) (string_bytes bs)"
  obtains sz t where "\<And>k. with_read pb_decode_varint32 k s = k sz (s\<lparr>ds_in := t\<rparr>)"
    and "unat sz = length bs" and "starts t bs" and "adv t (length bs) = adv (ds_in s) (length (string_bytes bs))"
proof -
  let ?t = "adv (ds_in s) (length (varint (of_nat (length bs))))"
  from pb_decode_length_starts [OF assms] obtain sz where
    "pb_decode_varint32 (ds_in s) = (Some sz, ?t)" "unat sz = length bs" "starts ?t bs" by blast
  moreover have "adv ?t (length bs) = adv (ds_in s) (length (string_bytes bs))" by (simp add: string_bytes_def)
  ultimately show ?thesis by (intro that [of sz ?t]) (simp_all add: with_read_Some)
qed

lemma fixed_bytes_back:
  assumes "starts (ds_in s) (string_bytes (rd_bytes m src (unat (f_data_size f))))"
  shows "pb_dec_fixed_length_bytes f dest s =
    Some (True, stepped s (length (string_bytes (rd_bytes m src (unat (f_data_size f)))))
      (wr_bytes (ds_mem s) dest (rd_bytes m src (unat (f_data_size f)))))"
proof -
  let ?bs = "rd_bytes m src (unat (f_data_size f))"
  have l: "length ?bs < 2 ^ 32" using unat_u32_less [of "f_data_size f"] by simp
  obtain sz t where r: "\<And>k. with_read pb_decode_varint32 k s = k sz (s\<lparr>ds_in := t\<rparr>)"
    and sz: "unat sz = length ?bs" and t: "starts t ?bs" "adv t (length ?bs) = adv (ds_in s) (length (string_bytes ?bs))"
    by (rule length_step [OF l assms]) blast
  from sz have z: "sz = f_data_size f" by (simp add: word_unat_eq_iff)
  have m: "\<not> PB_SIZE_MAX < sz" using word_order.extremum_strict [of sz] by simp
  show ?thesis
  proof (cases "sz = 0")
    case True
    with z have "f_data_size f = 0" by simp
    with True r m t show ?thesis by (simp add: pb_dec_fixed_length_bytes_def upd_mem_def mem_set_def)
  next
    case False
    with r z m read_to_starts [of "s\<lparr>ds_in := t\<rparr>" ?bs dest] t show ?thesis by (simp add: pb_dec_fixed_length_bytes_def)
  qed
qed

lemma same_outside_trans: "same_outside A m m' \<Longrightarrow> same_outside A m' m'' \<Longrightarrow> same_outside A m m''"
  by (simp add: same_outside_def)

lemma bytes_back:
  assumes f: "PB_ATYPE (f_type f) = PB_ATYPE_STATIC" "PB_LTYPE (f_type f) = PB_LTYPE_BYTES"
    and n: "unat (rd_u32 m src) + 4 \<le> unat (f_data_size f)"
    and st: "starts (ds_in s) (string_bytes (rd_bytes m (src + 4) (unat (rd_u32 m src))))"
  shows "reads_back (pb_dec_bytes E f dest) (string_bytes (rd_bytes m (src + 4) (unat (rd_u32 m src))))
    {dest..<dest + unat (f_data_size f)} (\<lambda>m'. plain_value m' sub' f dest = plain_value m sub f src) s"
proof -
  let ?n = "unat (rd_u32 m src)" let ?bs = "rd_bytes m (src + 4) ?n"
  have l: "length ?bs < 2 ^ 32" using unat_u32_less [of "rd_u32 m src"] by simp
  obtain sz t where r: "\<And>k. with_read pb_decode_varint32 k s = k sz (s\<lparr>ds_in := t\<rparr>)"
    and sz: "unat sz = length ?bs" and t: "starts t ?bs" "adv t (length ?bs) = adv (ds_in s) (length (string_bytes ?bs))"
    by (rule length_step [OF l st]) blast
  have m: "\<not> PB_SIZE_MAX < sz" using word_order.extremum_strict [of sz] by simp
  have z: "sz = rd_u32 m src" using sz by (simp add: word_unat_eq_iff)
  have a: "add_size (unat sz) bytes_off = unat sz + 4"
    using unat_u32_less [of sz] by (simp add: add_size_def)
  let ?m1 = "wr_u32 dest sz (ds_mem s)" let ?m2 = "wr_bytes ?m1 (dest + 4) ?bs"
  have "read_to (dest + 4) (length ?bs) (upd_mem (wr_u32 dest sz) (s\<lparr>ds_in := t\<rparr>)) =
      Some (True, stepped s (length (string_bytes ?bs)) ?m2)"
    using read_to_starts [of "upd_mem (wr_u32 dest sz) (s\<lparr>ds_in := t\<rparr>)" ?bs "dest + 4"] t by (simp add: upd_mem_def)
  with r m a sz n f z have "pb_dec_bytes E f dest s = Some (True, stepped s (length (string_bytes ?bs)) ?m2)"
    by (simp add: pb_dec_bytes_def)
  then show ?thesis
  proof (rule reads_backI)
    have "rd_bytes ?m2 dest 4 = le_bytes 4 sz"
      using rd_wr_same [of "ds_mem s" dest "le_bytes 4 sz"] rd_wr_other [of "dest + 4" ?bs dest 4 ?m1]
      by (simp add: wr_u32_def)
    then have "rd_u32 ?m2 dest = sz" using le_word_bytes [of 4 sz] by (simp add: rd_u32_def)
    moreover have "rd_bytes ?m2 (dest + 4) ?n = ?bs" using rd_wr_same [of ?m1 "dest + 4" ?bs] by simp
    moreover have "min ?n (unat (f_data_size f) - 4) = ?n" using n by simp
    ultimately show "plain_value ?m2 sub' f dest = plain_value m sub f src" using z f(2) by (simp add: plain_value_def)
    have "same_outside {dest..<dest + unat (f_data_size f)} (ds_mem s) ?m1"
      unfolding wr_u32_def by (rule same_outside_wr) (use n in simp)
    moreover have "same_outside {dest..<dest + unat (f_data_size f)} ?m1 ?m2"
      by (rule same_outside_wr) (use n in auto)
    ultimately show "same_outside {dest..<dest + unat (f_data_size f)} (ds_mem s) ?m2" by (rule same_outside_trans)
  qed
qed

lemma string_back:
  assumes f: "PB_ATYPE (f_type f) = PB_ATYPE_STATIC" "PB_LTYPE (f_type f) = PB_LTYPE_STRING"
    and n: "c_strnlen m src (unat (f_data_size f)) < unat (f_data_size f)"
    and st: "starts (ds_in s) (string_bytes (rd_bytes m src (c_strnlen m src (unat (f_data_size f)))))"
  shows "reads_back (pb_dec_string E f dest) (string_bytes (rd_bytes m src (c_strnlen m src (unat (f_data_size f)))))
    {dest..<dest + unat (f_data_size f)} (\<lambda>m'. plain_value m' sub' f dest = plain_value m sub f src) s"
proof -
  let ?k = "unat (f_data_size f)" let ?n = "c_strnlen m src ?k" let ?bs = "rd_bytes m src ?n"
  have l: "length ?bs < 2 ^ 32" using n unat_u32_less [of "f_data_size f"] by simp
  obtain sz t where r: "\<And>k. with_read pb_decode_varint32 k s = k sz (s\<lparr>ds_in := t\<rparr>)"
    and sz: "unat sz = length ?bs" and t: "starts t ?bs" "adv t (length ?bs) = adv (ds_in s) (length (string_bytes ?bs))"
    by (rule length_step [OF l st]) blast
  have "unat (sz + 1) = unat sz + 1"
    using sz n unat_u32_less [of "f_data_size f"] by (subst unat_add_lem [THEN iffD1]) simp_all
  with r sz n f have r: "pb_dec_string E f dest s = read_string_to dest (length ?bs) (s\<lparr>ds_in := t\<rparr>)"
    by (simp add: pb_dec_string_def)
  let ?m1 = "wr_bytes (ds_mem s) dest ?bs" let ?m2 = "wr_bytes ?m1 (dest + ?n) [0]"
  have "read_string_to dest (length ?bs) (s\<lparr>ds_in := t\<rparr>) = Some (True, stepped s (length (string_bytes ?bs)) ?m2)"
    using read_to_starts [of "s\<lparr>ds_in := t\<rparr>" ?bs dest] t by (simp add: read_string_to_def upd_mem_def)
  with r have "pb_dec_string E f dest s = Some (True, stepped s (length (string_bytes ?bs)) ?m2)" by simp
  then show ?thesis
  proof (rule reads_backI)
    have b: "?m2 (dest + i) = m (src + i)" if "i < ?n" for i
      using that by (simp add: wr_bytes_app nth_rd_bytes)
    have "c_strnlen ?m2 dest ?k = ?n"
      by (rule c_strnlen_eq) (use b c_strnlen_char n in \<open>auto simp: wr_bytes_app\<close>)
    moreover have "rd_bytes ?m2 dest ?n = ?bs" by (rule rd_bytes_cong) (rule b)
    ultimately show "plain_value ?m2 sub' f dest = plain_value m sub f src" using f(2) by (simp add: plain_value_def)
    have "same_outside {dest..<dest + ?k} (ds_mem s) ?m1" by (rule same_outside_wr) (use n in simp)
    moreover have "same_outside {dest..<dest + ?k} ?m1 ?m2" by (rule same_outside_wr) (use n in auto)
    ultimately show "same_outside {dest..<dest + ?k} (ds_mem s) ?m2" by (rule same_outside_trans)
  qed
qed

lemma value_back:
  assumes v: "value_out m subo f src = gives bs" and src: "src \<noteq> 0"
    and f: "PB_ATYPE (f_type f) = PB_ATYPE_STATIC" "PB_LTYPE (f_type f) \<noteq> PB_LTYPE_SUBMESSAGE" "value_wide f"
    and str: "PB_LTYPE (f_type f) = PB_LTYPE_STRING \<Longrightarrow>
      c_strnlen m src (unat (f_data_size f)) < unat (f_data_size f)"
    and st: "starts (ds_in s) bs"
  shows "reads_back (pb_decoder E D f dest) bs {dest..<dest + unat (f_data_size f)}
    (\<lambda>m'. plain_value m' sub' f dest = plain_value m sub f src) s"
proof -
  let ?l = "PB_LTYPE (f_type f)"
  consider "?l = PB_LTYPE_VARINT" | "?l = PB_LTYPE_UVARINT" | "?l = PB_LTYPE_SVARINT" | "?l = PB_LTYPE_FIXED32"
    | "?l = PB_LTYPE_FIXED64" | "?l = PB_LTYPE_BYTES" | "?l = PB_LTYPE_STRING" | "?l = PB_LTYPE_FIXED_LENGTH_BYTES"
    using v f(2) by (auto simp: value_out_def Let_def split: if_splits)
  then show ?thesis
  proof cases
    case 1
    with v obtain w where w: "signed_value m (f_data_size f) src = Some w" "bs = varint w" by (auto simp: value_out_def)
    show ?thesis
      by (rule scalar_back [where m = m and src = src and n = "unat (f_data_size f)"])
         (use 1 w st in \<open>simp_all add: pb_decoder_def plain_value_def varint_back\<close>)
  next
    case 2
    with v obtain w where w: "unsigned_value m (f_data_size f) src = Some w" "bs = varint w" by (auto simp: value_out_def)
    show ?thesis
      by (rule scalar_back [where m = m and src = src and n = "unat (f_data_size f)"])
         (use 2 w st in \<open>simp_all add: pb_decoder_def plain_value_def uvarint_back\<close>)
  next
    case 3
    with v obtain w where w: "signed_value m (f_data_size f) src = Some w" "bs = varint (zigzag w)"
      by (auto simp: value_out_def)
    show ?thesis
      by (rule scalar_back [where m = m and src = src and n = "unat (f_data_size f)"])
         (use 3 w st in \<open>simp_all add: pb_decoder_def plain_value_def svarint_back\<close>)
  next
    case 4
    with v have b: "bs = fixed32_bytes (rd_u32 m src)" by (simp add: value_out_def)
    show ?thesis
      by (rule scalar_back [where m = m and src = src and n = 4])
         (use 4 b st f(3) in \<open>simp_all add: pb_decoder_def plain_value_def value_wide_def fixed_back\<close>)
  next
    case 5
    with v have b: "bs = fixed64_bytes (rd_u64 m src)" by (simp add: value_out_def)
    show ?thesis
      by (rule scalar_back [where m = m and src = src and n = 8])
         (use 5 b st f(3) in \<open>simp_all add: pb_decoder_def plain_value_def value_wide_def fixed_back\<close>)
  next
    case 6
    with v src f(1) have b: "unat (rd_u32 m src) + 4 \<le> unat (f_data_size f)"
      "bs = string_bytes (rd_bytes m (src + 4) (unat (rd_u32 m src)))"
      by (auto simp: value_out_def split: if_splits)
    from bytes_back [OF f(1) 6 b(1) st [unfolded b(2)]] b(2) 6 show ?thesis
      by (simp add: pb_decoder_def)
  next
    case 7
    from v 7 src f(1) have "sized (gives (rd_bytes m src (c_strnlen m src (unat (f_data_size f))))) = gives bs"
      by (simp add: value_out_def)
    then have b: "bs = string_bytes (rd_bytes m src (c_strnlen m src (unat (f_data_size f))))"
      by (simp add: sized_def split: if_splits)
    from string_back [OF f(1) 7 str [OF 7] st [unfolded b]] b 7 show ?thesis
      by (simp add: pb_decoder_def)
  next
    case 8
    with v have b: "bs = string_bytes (rd_bytes m src (unat (f_data_size f)))" by (simp add: value_out_def)
    show ?thesis
      by (rule scalar_back [where m = m and src = src and n = "unat (f_data_size f)"])
         (use 8 b st in \<open>simp_all add: pb_decoder_def plain_value_def fixed_bytes_back\<close>)
  qed
qed

text \<open>A submessage: the decoder of messages works on a substream with the encoding and nothing else.\<close>

lemma submessage_back:
  assumes l: "length cs < 2 ^ 32" and st: "starts (ds_in s) (string_bytes cs)"
    and f: "f_ptr f \<noteq> 0" "PB_HTYPE (f_type f) \<noteq> PB_HTYPE_REPEATED"
    and sub: "\<And>s1. starts (ds_in s1) cs \<Longrightarrow> bytes_left (ds_in s1) = length cs \<Longrightarrow> ds_mem s1 = ds_mem s \<Longrightarrow>
      reads_back (sub_noinit D (f_ptr f) p) cs A P s1"
  shows "reads_back (pb_dec_submessage D f p) (string_bytes cs) A P s"
proof -
  from l st obtain u t where u: "pb_make_string_substream (ds_in s) = (Some u, t)" "starts u cs"
    "bytes_left u = length cs" and c: "pb_close_string_substream t (adv u (length cs)) =
      (True, adv (ds_in s) (length (string_bytes cs)))" by (rule whole_substream)
  from sub [of "s\<lparr>ds_in := u\<rparr>"] u obtain m' where
    "sub_noinit D (f_ptr f) p (s\<lparr>ds_in := u\<rparr>) = Some (True, stepped (s\<lparr>ds_in := u\<rparr>) (length cs) m')"
    "P m'" "same_outside A (ds_mem s) m'" by (auto simp: reads_back_def)
  with u(1) c f show ?thesis
    by (intro reads_backI [where m' = m']) (simp_all add: pb_dec_submessage_def with_read_Some close_substream_def)
qed

end
