(* ===== verification/Pb_Roundtrip.thy ===== *)
theory Pb_Roundtrip
  imports Pb_Decode_Safe Messages Pb_Values
begin

text \<open>
  Decoding what was encoded. The locale \<open>simple_messages\<close> is the contract: all fields of a message are
  optional, with or without a flag, and lie in the structure, submessages included, and no two fields
  overlap. Then \<open>pb_decode\<close> gives the structure the value the encoded one had.
\<close>

section \<open>The fields of a message\<close>

definition simple_field :: "pb_field \<Rightarrow> bool" where
  "simple_field f \<longleftrightarrow>
     PB_ATYPE (f_type f) = PB_ATYPE_STATIC \<and> PB_HTYPE (f_type f) = PB_HTYPE_OPTIONAL \<and>
     unat (f_tag f) < 2 ^ 29 \<and> sint (f_size_offset f) \<le> 0 \<and>
     (PB_LTYPE (f_type f) \<noteq> PB_LTYPE_SUBMESSAGE \<and> f_size_offset f = 0 \<longrightarrow> f_ptr f = 0) \<and>
     (PB_LTYPE (f_type f) = PB_LTYPE_BYTES \<longrightarrow> 4 \<le> unat (f_data_size f)) \<and>
     (PB_LTYPE (f_type f) = PB_LTYPE_STRING \<longrightarrow> f_data_size f \<noteq> 0)"

text \<open>The bytes of field \<open>k\<close> of a message at \<open>p\<close>: its value and its flag.\<close>

definition flag_cell :: "pb_field \<Rightarrow> nat \<Rightarrow> nat set" where
  "flag_cell f q = (if f_size_offset f = 0 then {} else {ptr_plus q (f_size_offset f)})"

definition cells :: "pb_field list \<Rightarrow> nat \<Rightarrow> nat \<Rightarrow> nat set" where
  "cells fs p k =
     (let f = field_at fs k; q = p + field_offset fs k
      in {q..<q + unat (f_data_size f)} \<union> flag_cell f q)"

definition simple_tables :: "pb_tables \<Rightarrow> bool" where
  "simple_tables d \<longleftrightarrow>
     (\<forall>fds. distinct (map f_tag (d fds)) \<and>
        (\<forall>k < nfields (d fds). simple_field (d fds ! k) \<and>
           (\<forall>j < k. \<forall>p. cells (d fds) p j \<inter> cells (d fds) p k = {})))"

text \<open>A message as \<open>pb_message_set_to_defaults\<close> leaves it.\<close>

definition fresh_field :: "memory \<Rightarrow> (nat \<Rightarrow> nat \<Rightarrow> bool) \<Rightarrow> pb_field \<Rightarrow> nat \<Rightarrow> bool" where
  "fresh_field m sub f q \<longleftrightarrow>
     (f_size_offset f \<noteq> 0 \<longrightarrow> \<not> rd_bool m (ptr_plus q (f_size_offset f))) \<and>
     (if PB_LTYPE (f_type f) = PB_LTYPE_SUBMESSAGE then sub (f_ptr f) q
      else f_size_offset f = 0 \<longrightarrow> (\<forall>b\<in>set (rd_bytes m q (unat (f_data_size f))). b = 0))"

fun fresh :: "nat \<Rightarrow> pb_tables \<Rightarrow> memory \<Rightarrow> nat \<Rightarrow> nat \<Rightarrow> bool" where
  "fresh 0 d m fds p = True"
| "fresh (Suc n) d m fds p \<longleftrightarrow>
     (\<forall>k < nfields (d fds). fresh_field m (fresh n d m) (d fds ! k) (p + field_offset (d fds) k))"

text \<open>A message whose strings end within their arrays.\<close>

fun terminated :: "nat \<Rightarrow> pb_tables \<Rightarrow> memory \<Rightarrow> nat \<Rightarrow> nat \<Rightarrow> bool" where
  "terminated 0 d m fds p = True"
| "terminated (Suc n) d m fds p \<longleftrightarrow>
     (\<forall>k < nfields (d fds). let f = d fds ! k; q = p + field_offset (d fds) k in
        has_flag m f q \<longrightarrow>
        (PB_LTYPE (f_type f) = PB_LTYPE_STRING \<longrightarrow> c_strnlen m q (unat (f_data_size f)) < unat (f_data_size f)) \<and>
        (PB_LTYPE (f_type f) = PB_LTYPE_SUBMESSAGE \<longrightarrow> terminated n d m (f_ptr f) q))"

subsection \<open>Values depend on their own bytes\<close>

lemma plain_value_local:
  assumes a: "\<And>a. a \<in> {q..<q + unat (f_data_size f)} \<Longrightarrow> m' a = m a" and w: "value_wide f"
    and b: "PB_LTYPE (f_type f) = PB_LTYPE_BYTES \<Longrightarrow> 4 \<le> unat (f_data_size f)"
    and sub: "PB_LTYPE (f_type f) = PB_LTYPE_SUBMESSAGE \<Longrightarrow> sub' (f_ptr f) q = sub (f_ptr f) q"
  shows "plain_value m' sub' f q = plain_value m sub f q"
proof -
  let ?l = "PB_LTYPE (f_type f)" let ?n = "unat (f_data_size f)"
  have r: "rd_bytes m' q k = rd_bytes m q k" if "k \<le> ?n" for k
    using that by (intro rd_bytes_cong a) simp
  have rb: "rd_u32 m' q = rd_u32 m q"
    "rd_bytes m' (q + 4) (min k (?n - 4)) = rd_bytes m (q + 4) (min k (?n - 4))" if "?l = PB_LTYPE_BYTES" for k
    using b [OF that] by (simp add: rd_u32_def r, intro rd_bytes_cong a, auto)
  have "c_strnlen m' q ?n = c_strnlen m q ?n" by (intro c_strnlen_cong a) simp
  then show ?thesis
    using r [OF c_strnlen_le [of m q ?n]] r [of 4] r [of 8] r [of ?n] rb sub w
    by (simp add: plain_value_def Let_def value_wide_def)
qed

lemma plain_value_sub:
  "PB_LTYPE (f_type f) \<noteq> PB_LTYPE_SUBMESSAGE \<Longrightarrow> plain_value m sub f q = plain_value m (\<lambda>_ _. []) f q"
  by (simp add: plain_value_def)

lemma has_flag_local: "(\<And>a. a \<in> flag_cell f q \<Longrightarrow> m' a = m a) \<Longrightarrow> has_flag m' f q = has_flag m f q"
  by (cases "f_size_offset f = 0") (auto simp: has_flag_def flag_cell_def rd_bool_def)

lemma fresh_field_local:
  assumes "\<And>a. a \<in> {q..<q + unat (f_data_size f)} \<union> flag_cell f q \<Longrightarrow> m' a = m a"
    and "PB_LTYPE (f_type f) = PB_LTYPE_SUBMESSAGE \<Longrightarrow> sub (f_ptr f) q \<Longrightarrow> sub' (f_ptr f) q"
    and "fresh_field m sub f q"
  shows "fresh_field m' sub' f q"
proof -
  have "rd_bytes m' q (unat (f_data_size f)) = rd_bytes m q (unat (f_data_size f))"
    by (intro rd_bytes_cong assms(1)) simp
  with assms show ?thesis by (auto simp: fresh_field_def flag_cell_def rd_bool_def)
qed

lemma le_word_zero: "le_word (replicate n 0) = 0"
  by (induction n) simp_all

lemma rd_u32_zero: "(\<And>i. i < 4 \<Longrightarrow> m (a + i) = 0) \<Longrightarrow> rd_u32 m a = 0"
  using rd_bytes_cong [of 4 m a "\<lambda>_. 0" a] nth_equalityI [of "rd_bytes (\<lambda>_. 0) a 4" "replicate 4 0"]
  by (simp add: rd_u32_def nth_rd_bytes le_word_zero)

lemma same_outside_mono: "same_outside A m m' \<Longrightarrow> A \<subseteq> B \<Longrightarrow> same_outside B m m'"
  by (auto simp: same_outside_def)

lemma reads_back_mono:
  "reads_back g bs A P s \<Longrightarrow> A \<subseteq> B \<Longrightarrow> (\<And>m'. P m' \<Longrightarrow> Q m') \<Longrightarrow> reads_back g bs B Q s"
  unfolding reads_back_def using same_outside_mono by blast

lemma out_append_gives: "out_append a b = gives c \<longleftrightarrow> (\<exists>x y. a = gives x \<and> b = gives y \<and> c = x @ y)"
  by (cases "(a, b)" rule: out_append.cases) auto

lemma out_concat_parts:
  "out_concat (map g xs) = gives bs \<Longrightarrow>
    bs = concat (map (\<lambda>x. the (the (g x))) xs) \<and> (\<forall>x\<in>set xs. g x = gives (the (the (g x))))"
  by (induction xs arbitrary: bs) (auto simp: out_append_gives)

section \<open>Simple messages\<close>

locale simple_messages = static_decoder E sz rank W
  for E :: "('st, 'h) dec_env" and sz rank :: "nat \<Rightarrow> nat" and W :: "nat set" +
  assumes simple: "simple_tables (de_fields E)"
begin

abbreviation "d \<equiv> de_fields E"

lemma simpleD:
  assumes "k < nfields (d fds)"
  shows "PB_ATYPE (f_type (d fds ! k)) = PB_ATYPE_STATIC" "PB_HTYPE (f_type (d fds ! k)) = PB_HTYPE_OPTIONAL"
    "unat (f_tag (d fds ! k)) < 2 ^ 29" "sint (f_size_offset (d fds ! k)) \<le> 0"
    "PB_LTYPE (f_type (d fds ! k)) \<noteq> PB_LTYPE_SUBMESSAGE \<Longrightarrow> f_size_offset (d fds ! k) = 0 \<Longrightarrow> f_ptr (d fds ! k) = 0"
    "PB_LTYPE (f_type (d fds ! k)) = PB_LTYPE_BYTES \<Longrightarrow> 4 \<le> unat (f_data_size (d fds ! k))"
    "PB_LTYPE (f_type (d fds ! k)) = PB_LTYPE_STRING \<Longrightarrow> f_data_size (d fds ! k) \<noteq> 0"
  using simple assms by (simp_all add: simple_tables_def simple_field_def)

lemma cells_disjoint: "i \<noteq> j \<Longrightarrow> i < nfields (d fds) \<Longrightarrow> j < nfields (d fds) \<Longrightarrow> cells (d fds) p i \<inter> cells (d fds) p j = {}"
  using simple by (cases i j rule: linorder_cases) (simp_all add: simple_tables_def, simp add: inf_commute)

lemma size_field_simple: "k < nfields (d fds) \<Longrightarrow> size_field (d fds) k = k"
  by (cases k) (use simpleD(2) in \<open>simp_all add: continues_union_def\<close>)

lemma simple_ok:
  assumes k: "k < nfields (d fds)"
  shows "value_fits sz (d fds ! k)" "value_wide (d fds ! k)"
    "PB_LTYPE (f_type (d fds ! k)) \<noteq> PB_LTYPE_EXTENSION"
    "PB_LTYPE (f_type (d fds ! k)) = PB_LTYPE_SUBMESSAGE \<Longrightarrow>
      rank (f_ptr (d fds ! k)) < rank fds \<and> sz (f_ptr (d fds ! k)) \<le> unat (f_data_size (d fds ! k))"
    "field_offset (d fds) k + unat (f_data_size (d fds ! k)) \<le> sz fds"
    "f_size_offset (d fds ! k) \<noteq> 0 \<Longrightarrow> cell_ok (d fds) k 1 (sz fds)"
proof -
  let ?f = "d fds ! k"
  have f: "field_ok d sz rank fds k" using k by (rule field_okD)
  note s = simpleD [OF k]
  show v: "value_fits sz ?f" using f s by (simp add: field_ok_def Let_def)
  then show "value_wide ?f" by (simp add: value_fits_def value_wide_def)
  show "PB_LTYPE (f_type ?f) \<noteq> PB_LTYPE_EXTENSION" using f by (simp add: field_ok_def Let_def)
  show "rank (f_ptr ?f) < rank fds \<and> sz (f_ptr ?f) \<le> unat (f_data_size ?f)"
    if "PB_LTYPE (f_type ?f) = PB_LTYPE_SUBMESSAGE"
    using f v that by (simp add: field_ok_def value_fits_def Let_def)
  have "field_space ?f = unat (f_data_size ?f)" using s by (simp add: field_space_def)
  with f show "field_offset (d fds) k + unat (f_data_size ?f) \<le> sz fds" by (simp add: field_ok_def Let_def)
  show "cell_ok (d fds) k 1 (sz fds)" if "f_size_offset ?f \<noteq> 0"
    using f s that k by (simp add: field_ok_def Let_def size_field_simple field_at_nth)
qed

lemma flag_place:
  assumes k: "k < nfields (d fds)" and off: "f_size_offset (d fds ! k) \<noteq> 0" and q: "q = p + field_offset (d fds) k"
  shows "ptr_plus q (f_size_offset (d fds ! k)) < q"
proof -
  have "sint (f_size_offset (d fds ! k)) < 0"
    using simpleD(4) [OF k] off by (auto simp: order_less_le intro: signed_word_eqI)
  moreover have "0 \<le> int (field_offset (d fds) k) + sint (f_size_offset (d fds ! k))"
    using simple_ok(6) [OF k off] k by (simp add: cell_ok_def size_cell_def size_field_simple field_at_nth)
  ultimately show ?thesis by (simp add: ptr_plus_def q)
qed

lemma cells_struct: "k < nfields (d fds) \<Longrightarrow> cells (d fds) p k \<subseteq> struct_at sz fds p"
  using simple_ok(5,6) [of k fds] size_field_simple [of k fds]
  by (auto simp: cells_def struct_at_def Let_def field_at_nth flag_cell_def cell_ok_def size_cell_def ptr_plus_def
      split: if_splits)

lemma iter_flag:
  assumes k: "k < nfields (d fds)"
  shows "it_pSize (iter_at d fds dest k) = ptr_plus (dest + field_offset (d fds) k) (f_size_offset (d fds ! k))"
    and "it_pSize (iter_at d fds dest k) = it_pData (iter_at d fds dest k) \<longleftrightarrow> f_size_offset (d fds ! k) = 0"
proof -
  show z: "it_pSize (iter_at d fds dest k) = ptr_plus (dest + field_offset (d fds) k) (f_size_offset (d fds ! k))"
    using k by (simp add: iter_at_def size_field_simple field_at_nth)
  then show "it_pSize (iter_at d fds dest k) = it_pData (iter_at d fds dest k) \<longleftrightarrow> f_size_offset (d fds ! k) = 0"
    using flag_place [OF k _ refl, of dest] by (cases "f_size_offset (d fds ! k) = 0") (auto simp: ptr_plus_def)
qed

lemma cells_parts:
  "k < nfields (d fds) \<Longrightarrow> cells (d fds) p k =
    {p + field_offset (d fds) k..<p + field_offset (d fds) k + unat (f_data_size (d fds ! k))} \<union>
    flag_cell (d fds ! k) (p + field_offset (d fds) k)"
  by (simp add: cells_def Let_def field_at_nth)

lemma sub_struct:
  "k < nfields (d fds) \<Longrightarrow> PB_LTYPE (f_type (d fds ! k)) = PB_LTYPE_SUBMESSAGE \<Longrightarrow>
    struct_at sz (f_ptr (d fds ! k)) (p + field_offset (d fds) k) \<subseteq>
      {p + field_offset (d fds) k..<p + field_offset (d fds) k + unat (f_data_size (d fds ! k))}"
  using simple_ok(4) [of k fds] by (auto simp: struct_at_def)

definition field_value :: "nat \<Rightarrow> memory \<Rightarrow> nat \<Rightarrow> nat \<Rightarrow> nat \<Rightarrow> pb_value option" where
  "field_value n m fds p k =
     (let f = d fds ! k; q = p + field_offset (d fds) k in
      if has_flag m f q then Some (plain_value m (message_value n d m) f q) else None)"

lemma message_value_fields: "message_value (Suc n) d m fds p = map (field_value n m fds p) [0..<nfields (d fds)]"
  by (simp add: field_value_def field_at_nth Let_def)

lemma field_value_local:
  assumes k: "k < nfields (d fds)" and a: "\<And>a. a \<in> cells (d fds) p k \<Longrightarrow> m' a = m a"
    and sub: "\<And>fds' q. (\<And>a. a \<in> struct_at sz fds' q \<Longrightarrow> m' a = m a) \<Longrightarrow>
      message_value n d m' fds' q = message_value n d m fds' q"
  shows "field_value n m' fds p k = field_value n m fds p k"
proof -
  let ?f = "d fds ! k" let ?q = "p + field_offset (d fds) k"
  note c = cells_parts [OF k, of p]
  have "has_flag m' ?f ?q = has_flag m ?f ?q" using a c by (intro has_flag_local) simp
  moreover have "plain_value m' (message_value n d m') ?f ?q = plain_value m (message_value n d m) ?f ?q"
    using a c simple_ok(2) [OF k] simpleD(6) [OF k] sub_struct [OF k, of p]
    by (intro plain_value_local sub) auto
  ultimately show ?thesis by (simp add: field_value_def Let_def)
qed

lemma message_value_local:
  "(\<And>a. a \<in> struct_at sz fds p \<Longrightarrow> m' a = m a) \<Longrightarrow> message_value n d m' fds p = message_value n d m fds p"
proof (induction n arbitrary: fds p)
  case (Suc n)
  have "field_value n m' fds p k = field_value n m fds p k" if k: "k < nfields (d fds)" for k
    using k Suc.prems cells_struct [OF k, of p] by (intro field_value_local Suc.IH) auto
  then show ?case by (simp add: message_value_fields del: message_value.simps)
qed simp

lemmas field_value_cells = field_value_local [OF _ _ message_value_local]

lemma fresh_local:
  "(\<And>a. a \<in> struct_at sz fds p \<Longrightarrow> m' a = m a) \<Longrightarrow> fresh n d m fds p \<Longrightarrow> fresh n d m' fds p"
proof (induction n arbitrary: fds p)
  case (Suc n)
  have "fresh_field m' (fresh n d m') (d fds ! k) (p + field_offset (d fds) k)" if k: "k < nfields (d fds)" for k
  proof (rule fresh_field_local)
    show "fresh_field m (fresh n d m) (d fds ! k) (p + field_offset (d fds) k)" using Suc.prems(2) k by simp
    show "m' a = m a" if "a \<in> {p + field_offset (d fds) k..<p + field_offset (d fds) k + unat (f_data_size (d fds ! k))} \<union>
        flag_cell (d fds ! k) (p + field_offset (d fds) k)" for a
      using that Suc.prems(1) cells_struct [OF k, of p] cells_parts [OF k, of p] by auto
    show "fresh n d m' (f_ptr (d fds ! k)) (p + field_offset (d fds) k)"
      if "PB_LTYPE (f_type (d fds ! k)) = PB_LTYPE_SUBMESSAGE" "fresh n d m (f_ptr (d fds ! k)) (p + field_offset (d fds) k)"
      using that(2) Suc.prems(1) sub_struct [OF k that(1), of p] cells_struct [OF k, of p] cells_parts [OF k, of p]
      by (intro Suc.IH) auto
  qed
  then show ?case by simp
qed simp

subsection \<open>Defaults\<close>

text \<open>The field the iterator is on after \<open>pb_field_set_to_default\<close>.\<close>

lemma default_field:
  assumes k: "k < nfields (d fds)"
    and msg: "PB_LTYPE (f_type (d fds ! k)) = PB_LTYPE_SUBMESSAGE \<Longrightarrow>
      (\<forall>m. \<exists>m'. msg (f_ptr (d fds ! k)) (p + field_offset (d fds) k) m = Some m' \<and>
        same_outside (struct_at sz (f_ptr (d fds ! k)) (p + field_offset (d fds) k)) m m' \<and>
        fresh n d m' (f_ptr (d fds ! k)) (p + field_offset (d fds) k))"
  shows "\<exists>m'. pb_field_set_to_default E msg exts (iter_at d fds p k) m = Some m' \<and>
    same_outside (cells (d fds) p k) m m' \<and>
    fresh_field m' (fresh n d m') (d fds ! k) (p + field_offset (d fds) k)"
proof -
  let ?f = "d fds ! k" let ?q = "p + field_offset (d fds) k" let ?it = "iter_at d fds p k"
  let ?z = "ptr_plus ?q (f_size_offset ?f)" let ?n = "unat (f_data_size ?f)"
  note s = simpleD [OF k] and c = cells_parts [OF k, of p]
  define m1 where "m1 = (if f_size_offset ?f = 0 then m else wr_bool ?z False m)"
  have m1: "same_outside (cells (d fds) p k) m m1"
    using c same_outside_wr [of ?z "[0]" "flag_cell ?f ?q" m] by (auto simp: m1_def flag_cell_def wr_bool_def same_outside_def)
  have flag: "\<not> rd_bool m' ?z" if "f_size_offset ?f \<noteq> 0" "same_outside {?q..<?q + ?n} m1 m'" for m'
    using that flag_place [OF k that(1) refl, of p]
    by (simp add: rd_bool_def same_outside_def m1_def wr_bool_def wr_bytes_app)
  have step: "pb_field_set_to_default E msg exts ?it m =
      (if PB_LTYPE (f_type ?f) = PB_LTYPE_SUBMESSAGE then msg (f_ptr ?f) ?q m1
       else if f_ptr ?f \<noteq> 0 then Some (wr_bytes m1 ?q (rd_bytes m1 (f_ptr ?f) ?n))
       else Some (mem_set ?q ?n m1))"
    using s iter_flag [OF k, of p] simple_ok(3) [OF k] k
    by (simp add: pb_field_set_to_default_def Let_def field_at_nth m1_def)
  have sub: "{?q..<?q + ?n} \<subseteq> cells (d fds) p k" using c by simp
  have fin: ?thesis if "pb_field_set_to_default E msg exts ?it m = Some m'" "same_outside {?q..<?q + ?n} m1 m'"
      "if PB_LTYPE (f_type ?f) = PB_LTYPE_SUBMESSAGE then fresh n d m' (f_ptr ?f) ?q
       else f_size_offset ?f = 0 \<longrightarrow> (\<forall>b\<in>set (rd_bytes m' ?q ?n). b = 0)" for m'
    using that(1,3) flag [OF _ that(2)] same_outside_trans [OF m1 same_outside_mono [OF that(2) sub]]
    by (intro exI [of _ m']) (simp add: fresh_field_def)
  show ?thesis
  proof (cases "PB_LTYPE (f_type ?f) = PB_LTYPE_SUBMESSAGE")
    case True
    from msg [OF True] obtain m' where "msg (f_ptr ?f) ?q m1 = Some m'"
      "same_outside (struct_at sz (f_ptr ?f) ?q) m1 m'" "fresh n d m' (f_ptr ?f) ?q" by blast
    with True step sub_struct [OF k True, of p] show ?thesis by (intro fin [of m']) (auto simp: same_outside_def)
  next
    case False
    show ?thesis
    proof (cases "f_ptr ?f = 0")
      case True
      have "rd_bytes (mem_set ?q ?n m1) ?q ?n = replicate ?n 0"
        using rd_wr_same [of m1 ?q "replicate ?n 0"] by (simp add: mem_set_def)
      with True False step show ?thesis
        by (intro fin [of "mem_set ?q ?n m1"]) (auto simp: mem_set_def intro: same_outside_wr)
    next
      case ptr: False
      with s(5) False have "f_size_offset ?f \<noteq> 0" by blast
      with ptr False step show ?thesis
        by (intro fin [of "wr_bytes m1 ?q (rd_bytes m1 (f_ptr ?f) ?n)"]) (simp_all add: same_outside_wr)
    qed
  qed
qed

lemma each_local:
  assumes "\<And>k m. k \<in> set ks \<Longrightarrow> \<exists>m'. g k m = Some m' \<and> same_outside (C k) m m' \<and> P k m'"
    and "\<And>k m m'. k \<in> set ks \<Longrightarrow> (\<And>a. a \<in> C k \<Longrightarrow> m' a = m a) \<Longrightarrow> P k m \<Longrightarrow> P k m'"
    and "\<And>i j. i \<in> set ks \<Longrightarrow> j \<in> set ks \<Longrightarrow> i \<noteq> j \<Longrightarrow> C i \<inter> C j = {}" and "distinct ks"
  shows "\<exists>m'. each (\<lambda>k m. map_option (\<lambda>m. (True, m)) (g k m)) ks m = Some (True, m') \<and>
    same_outside (\<Union>k\<in>set ks. C k) m m' \<and> (\<forall>k\<in>set ks. P k m')"
  using assms
proof (induction ks arbitrary: m)
  case (Cons k ks)
  from Cons.prems(1) [of k m] obtain m1 where m1: "g k m = Some m1" "same_outside (C k) m m1" "P k m1" by auto
  have "\<exists>m'. each (\<lambda>k m. map_option (\<lambda>m. (True, m)) (g k m)) ks m1 = Some (True, m') \<and>
      same_outside (\<Union>k\<in>set ks. C k) m1 m' \<and> (\<forall>k\<in>set ks. P k m')"
    by (rule Cons.IH; (rule Cons.prems)?; use Cons.prems(4) in simp)
  then obtain m2 where m2: "each (\<lambda>k m. map_option (\<lambda>m. (True, m)) (g k m)) ks m1 = Some (True, m2)"
    "same_outside (\<Union>k\<in>set ks. C k) m1 m2" "\<forall>k\<in>set ks. P k m2" by blast
  have "C k \<inter> C j = {}" if "j \<in> set ks" for j using Cons.prems(3) [of k j] Cons.prems(4) that by auto
  then have "m2 a = m1 a" if "a \<in> C k" for a using m2(2) that by (auto simp: same_outside_def)
  from Cons.prems(2) [OF _ this m1(3)] have "P k m2" by simp
  with m1 m2 show ?case by (auto simp: and_then_def same_outside_def)
qed (simp add: same_outside_def)

lemma fresh_cells:
  assumes "k < nfields (d fds)" and "\<And>a. a \<in> cells (d fds) p k \<Longrightarrow> m' a = m a"
    and "fresh_field m (fresh n d m) (d fds ! k) (p + field_offset (d fds) k)"
  shows "fresh_field m' (fresh n d m') (d fds ! k) (p + field_offset (d fds) k)"
  using _ _ assms(3)
proof (rule fresh_field_local)
  note c = cells_parts [OF assms(1), of p]
  show "m' a = m a" if "a \<in> {p + field_offset (d fds) k..<p + field_offset (d fds) k + unat (f_data_size (d fds ! k))} \<union>
      flag_cell (d fds ! k) (p + field_offset (d fds) k)" for a
    using that assms(2) c by auto
  show "fresh n d m' (f_ptr (d fds ! k)) (p + field_offset (d fds) k)"
    if "PB_LTYPE (f_type (d fds ! k)) = PB_LTYPE_SUBMESSAGE" "fresh n d m (f_ptr (d fds ! k)) (p + field_offset (d fds) k)"
    using that(2) assms(2) c sub_struct [OF assms(1) that(1), of p] by (intro fresh_local [OF _ that(2)]) auto
qed

text \<open>\<open>pb_message_set_to_defaults\<close> makes a message fresh and touches nothing else.\<close>

lemma defaults_fresh:
  "rank fds < N \<Longrightarrow> \<exists>m'. pb_message_set_to_defaults N E fds p m = Some m' \<and>
    same_outside (struct_at sz fds p) m m' \<and> fresh n d m' fds p"
proof (induction N arbitrary: fds p m n)
  case (Suc N)
  let ?msg = "pb_message_set_to_defaults N E"
  let ?P = "\<lambda>n k m. fresh_field m (fresh n d m) (d fds ! k) (p + field_offset (d fds) k)"
  let ?g = "\<lambda>k. pb_field_set_to_default E ?msg (default_extensions N E ?msg) (iter_at d fds p k)"
  obtain n' where n: "fresh n d m' fds p \<longleftrightarrow> n = 0 \<or> (\<forall>k < nfields (d fds). ?P n' k m')" for m'
    by (cases n) auto
  have "\<exists>m'. ?g k m = Some m' \<and> same_outside (cells (d fds) p k) m m' \<and> ?P n' k m'" if k: "k < nfields (d fds)" for k m
    using simple_ok(4) [OF k] Suc.prems by (intro default_field [OF k] allI Suc.IH) simp
  then have "\<exists>m'. each (\<lambda>k m. map_option (\<lambda>m. (True, m)) (?g k m)) [0..<nfields (d fds)] m = Some (True, m') \<and>
      same_outside (\<Union>k\<in>set [0..<nfields (d fds)]. cells (d fds) p k) m m' \<and>
      (\<forall>k\<in>set [0..<nfields (d fds)]. ?P n' k m')"
    by (intro each_local) (auto intro: fresh_cells dest: cells_disjoint)
  then obtain m' where m': "each (\<lambda>k m. map_option (\<lambda>m. (True, m)) (?g k m)) [0..<nfields (d fds)] m = Some (True, m')"
      "same_outside (\<Union>k\<in>set [0..<nfields (d fds)]. cells (d fds) p k) m m'" "\<forall>k < nfields (d fds). ?P n' k m'"
    by auto
  from same_outside_mono [OF m'(2)] have "same_outside (struct_at sz fds p) m m'"
    using cells_struct [of _ fds p] by (auto simp: UN_subset_iff)
  moreover have "fresh n d m' fds p" using m'(3) n by blast
  moreover have "pb_message_set_to_defaults (Suc N) E fds p m = Some m'"
    using m'(1) by (cases "0 < nfields (d fds)") (simp_all add: begin_iter_at each_field_iter_at)
  ultimately show ?case by blast
qed simp

text \<open>A message that \<open>pb_check_proto3_default_value\<close> finds to have only default values has that of a fresh one.\<close>

lemma each_True:
  "each (\<lambda>k u. map_option (\<lambda>b. (b, u)) (g k)) ks () = Some (True, ()) \<Longrightarrow> k \<in> set ks \<Longrightarrow> g k = Some True"
  by (induction ks) (auto simp: and_then_def split: option.splits if_splits)

lemma plain_value_fresh:
  assumes k: "k < nfields (d fds)" and f: "f = d fds ! k" and off: "f_size_offset f = 0"
    and chk: "pb_check_proto3_default_value m deflt f q = Some True"
    and fr: "fresh_field m' fr' f q'"
    and sub: "PB_LTYPE (f_type f) = PB_LTYPE_SUBMESSAGE \<Longrightarrow> deflt (f_ptr f) q = Some True \<Longrightarrow> fr' (f_ptr f) q' \<Longrightarrow>
      sub' (f_ptr f) q' = sub (f_ptr f) q"
  shows "plain_value m' sub' f q' = plain_value m sub f q"
proof -
  let ?l = "PB_LTYPE (f_type f)" let ?n = "unat (f_data_size f)"
  note s = simpleD [OF k, folded f] and w = simple_ok(2) [OF k, folded f]
  have z: "m' (q' + i) = 0" if "?l \<noteq> PB_LTYPE_SUBMESSAGE" "i < ?n" for i
    using fr off that nth_rd_bytes [of i ?n m' q'] by (auto simp: fresh_field_def in_set_conv_nth)
  have chk': "if ?l = PB_LTYPE_BYTES then rd_u32 m q = 0 else if ?l = PB_LTYPE_STRING then m q = 0
      else if ?l = PB_LTYPE_FIXED_LENGTH_BYTES then f_data_size f = 0
      else if ?l = PB_LTYPE_SUBMESSAGE then deflt (f_ptr f) q = Some True
      else \<forall>b\<in>set (rd_bytes m q ?n). b = 0"
    using chk s(1,2) off by (simp add: pb_check_proto3_default_value_def Let_def split: if_splits)
  consider "?l = PB_LTYPE_SUBMESSAGE" | "?l = PB_LTYPE_BYTES" | "?l = PB_LTYPE_STRING"
    | "?l = PB_LTYPE_FIXED_LENGTH_BYTES"
    | "?l \<notin> {PB_LTYPE_SUBMESSAGE, PB_LTYPE_BYTES, PB_LTYPE_STRING, PB_LTYPE_FIXED_LENGTH_BYTES}" by blast
  then show ?thesis
  proof cases
    case 1
    with chk' fr have "sub' (f_ptr f) q' = sub (f_ptr f) q" by (intro sub) (simp_all add: fresh_field_def)
    with 1 show ?thesis by (simp add: plain_value_def)
  next
    case 2
    have "rd_u32 m' q' = 0" using z 2 s(6) by (intro rd_u32_zero) simp
    with 2 chk' show ?thesis by (simp add: plain_value_def)
  next
    case 3
    have "c_strnlen m' q' ?n = 0" using z [of 0] 3 by (cases "?n = 0") (simp_all add: c_strnlen.simps [of m' q'])
    moreover have "c_strnlen m q ?n = 0" using chk' 3 by (simp add: c_strnlen.simps [of m q])
    ultimately show ?thesis using 3 by (simp add: plain_value_def)
  next
    case 4
    with chk' show ?thesis by (simp add: plain_value_def)
  next
    case 5
    with chk' have "\<forall>b\<in>set (rd_bytes m q ?n). b = 0" by auto
    then have "m (q + i) = 0" if "i < ?n" for i
      using that nth_rd_bytes [of i ?n m q] by (auto simp: in_set_conv_nth)
    with 5 z have "rd_bytes m' q' j = rd_bytes m q j" if "j \<le> ?n" for j
      using that by (intro rd_bytes_cong) simp
    with 5 w show ?thesis by (simp add: plain_value_def value_wide_def Let_def)
  qed
qed

text \<open>The value of a field that the encoder leaves out.\<close>

definition absent :: "nat \<Rightarrow> memory \<Rightarrow> pb_field \<Rightarrow> nat \<Rightarrow> bool" where
  "absent n m f q \<longleftrightarrow>
     (if f_size_offset f = 0 then pb_check_proto3_default_value m (pb_check_message n m d) f q = Some True
      else \<not> rd_bool m (ptr_plus q (f_size_offset f)))"

lemma absent_value:
  assumes k: "k < nfields (d fds)" and a: "absent n m (d fds ! k) (src + field_offset (d fds) k)"
    and fr: "fresh_field m' (fresh n d m') (d fds ! k) (dest + field_offset (d fds) k)"
    and sub: "\<And>fds src dest. pb_check_message n m d fds src = Some True \<Longrightarrow> fresh n d m' fds dest \<Longrightarrow>
      message_value n d m' fds dest = message_value n d m fds src"
  shows "field_value n m' fds dest k = field_value n m fds src k"
proof (cases "f_size_offset (d fds ! k) = 0")
  case True
  with plain_value_fresh [OF k refl True _ fr, where sub' = "message_value n d m'" and sub = "message_value n d m"] a sub
  show ?thesis by (simp add: field_value_def absent_def has_flag_def)
next
  case False
  with a fr show ?thesis by (simp add: field_value_def absent_def has_flag_def fresh_field_def Let_def)
qed

lemma fresh_value:
  "pb_check_message n m d fds src = Some True \<Longrightarrow> fresh n d m' fds dest \<Longrightarrow>
    message_value n d m' fds dest = message_value n d m fds src"
proof (induction n arbitrary: fds src dest)
  case (Suc n)
  have "field_value n m' fds dest k = field_value n m fds src k" if k: "k < nfields (d fds)" for k
  proof (rule absent_value [OF k])
    let ?g = "\<lambda>k. pb_check_proto3_default_value m (pb_check_message n m d) (it_field d (iter_at d fds src k))
      (it_pData (iter_at d fds src k))"
    from Suc.prems(1) k have "each (\<lambda>k u. map_option (\<lambda>b. (b, u)) (?g k)) [0..<nfields (d fds)] () = Some (True, ())"
      by (auto simp: begin_iter_at each_field_iter_at simp del: iter_at_sel)
    from each_True [OF this, of k] k have c: "?g k = Some True" by simp
    show "absent n m (d fds ! k) (src + field_offset (d fds) k)"
    proof (cases "f_size_offset (d fds ! k) = 0")
      case True
      with c k show ?thesis by (simp add: absent_def field_at_nth)
    next
      case False
      with c k simpleD(2) [OF k] show ?thesis
        by (simp add: absent_def field_at_nth pb_check_proto3_default_value_def)
    qed
    show "fresh_field m' (fresh n d m') (d fds ! k) (dest + field_offset (d fds) k)" using Suc.prems(2) k by simp
  qed (rule Suc.IH)
  then show ?case by (simp add: message_value_fields del: message_value.simps)
qed simp

subsection \<open>One field\<close>

lemma find_simple:
  assumes k: "k < nfields (d fds)" and j: "valid_pos (d fds) j"
  shows "pb_field_iter_find d (iter_at d fds p j) (f_tag (d fds ! k)) = Some (True, iter_at d fds p k)"
proof (rule find_iter_at [of d fds j "f_tag (d fds ! k)" p, OF j nfields_tag [OF k]])
  fix i assume i: "i < nfields (d fds)" "tag_matches (f_tag (d fds ! k)) (d fds ! i)"
    and r: "pb_field_iter_find d (iter_at d fds p j) (f_tag (d fds ! k)) = Some (True, iter_at d fds p i)"
  have "distinct (map f_tag (d fds))" using simple by (simp add: simple_tables_def)
  moreover have "i < length (d fds)" "k < length (d fds)" using i k nfields_le [of "d fds"] by simp_all
  ultimately have "i = k" using i(2) by (auto simp: distinct_conv_nth tag_matches_def)
  with r show ?thesis by simp
next
  assume "\<forall>i < nfields (d fds). \<not> tag_matches (f_tag (d fds ! k)) (d fds ! i)"
  with k simple_ok(3) [OF k] show ?thesis by (auto simp: tag_matches_def)
qed

lemma static_back:
  assumes k: "k < nfields (d fds)" and q: "q = p + field_offset (d fds) k" and A: "flag_cell (d fds ! k) q \<inter> A = {}"
    and val: "\<And>s1. ds_in s1 = ds_in s \<Longrightarrow> same_outside (flag_cell (d fds ! k) q) (ds_mem s) (ds_mem s1) \<Longrightarrow>
      reads_back (pb_decoder E D (d fds ! k) q) bs A P s1"
  shows "reads_back (decode_static_field E D w (iter_at d fds p k)) bs (A \<union> flag_cell (d fds ! k) q)
    (\<lambda>m'. P m' \<and> has_flag m' (d fds ! k) q) s"
proof -
  let ?f = "d fds ! k" let ?z = "ptr_plus q (f_size_offset ?f)"
  let ?s = "if f_size_offset ?f = 0 then s else upd_mem (wr_bool ?z True) s"
  have m: "same_outside (flag_cell ?f q) (ds_mem s) (ds_mem ?s)"
    by (simp add: same_outside_def flag_cell_def upd_mem_def wr_bool_def wr_bytes_app)
  have "ds_in ?s = ds_in s" by (simp add: upd_mem_def)
  from val [OF this m] obtain m' where r: "pb_decoder E D ?f q ?s = Some (True, stepped ?s (length bs) m')"
    and P: "P m'" and m': "same_outside A (ds_mem ?s) m'" by (auto simp: reads_back_def)
  have e: "stepped ?s (length bs) m' = stepped s (length bs) m'" by (simp add: upd_mem_def)
  have "has_flag m' ?f q"
    using m' A by (auto simp: has_flag_def flag_cell_def same_outside_def rd_bool_def upd_mem_def wr_bool_def wr_bytes_app)
  moreover have "same_outside (A \<union> flag_cell ?f q) (ds_mem s) m'"
    using m m' by (auto simp: same_outside_def)
  moreover have "decode_static_field E D w (iter_at d fds p k) s = pb_decoder E D ?f q ?s"
    using simpleD(2) [OF k] iter_flag [OF k, of p] k q
    by (simp add: decode_static_field_def Let_def field_at_nth)
  ultimately show ?thesis using r e P by (intro reads_backI [where m' = m']) simp_all
qed

lemma wire_small: "wire_of_ltype l = Some w \<Longrightarrow> unat w < 8"
  by (auto simp: wire_of_ltype_def split: if_splits)

lemma round_back:
  assumes k: "k < nfields (d fds)" and q: "q = p + field_offset (d fds) k" and A: "flag_cell (d fds ! k) q \<inter> A = {}"
    and j: "valid_pos (d fds) j" and l: "nl_iter l = iter_at d fds p j"
    and w: "wire_of_ltype (PB_LTYPE (f_type (d fds ! k))) = Some w"
    and st: "starts (ds_in s) (varint (tag_word w (f_tag (d fds ! k))) @ vb)"
    and val: "\<And>s1. starts (ds_in s1) vb \<Longrightarrow> same_outside (flag_cell (d fds ! k) q) (ds_mem s) (ds_mem s1) \<Longrightarrow>
      reads_back (pb_decoder E D (d fds ! k) q) vb A P s1"
  shows "\<exists>m'. noinit_round E D local l s =
      Some (Continue, l\<lparr>nl_iter := iter_at d fds p k\<rparr>,
        stepped s (length (varint (tag_word w (f_tag (d fds ! k))) @ vb)) m') \<and>
    P m' \<and> has_flag m' (d fds ! k) q \<and> same_outside (A \<union> flag_cell (d fds ! k) q) (ds_mem s) m'"
proof -
  let ?f = "d fds ! k" let ?tag = "varint (tag_word w (f_tag ?f))"
  let ?s = "s\<lparr>ds_in := adv (ds_in s) (length ?tag)\<rparr>"
  from st have st: "starts (ds_in s) ?tag" "starts (ds_in ?s) vb" by (simp_all add: starts_append)
  note c = simpleD [OF k]
  have t: "pb_decode_tag (ds_in s) = (Tag w (f_tag ?f), adv (ds_in s) (length ?tag))"
    using pb_decode_tag_starts [OF c(3) wire_small [OF w] nfields_tag [OF k] st(1)] .
  have "reads_back (decode_static_field E D w (iter_at d fds p k)) vb (A \<union> flag_cell ?f q)
      (\<lambda>m'. P m' \<and> has_flag m' ?f q) ?s"
    by (rule static_back [OF k q A], rule val) (use st(2) in simp_all)
  then obtain m' where r: "decode_static_field E D w (iter_at d fds p k) ?s = Some (True, stepped ?s (length vb) m')"
    and P: "P m'" "has_flag m' ?f q" "same_outside (A \<union> flag_cell ?f q) (ds_mem s) m'"
    by (auto simp: reads_back_def)
  have e: "l\<lparr>nl_iter := i, nl_fields_seen := nl_fields_seen l, nl_fixed_count_field := nl_fixed_count_field l\<rparr> =
      l\<lparr>nl_iter := i\<rparr>" for i
    by (cases l) simp
  have "decode_field E D w (iter_at d fds p k) ?s = Some (True, iter_at d fds p k, stepped ?s (length vb) m')"
    using r c(1,2) k by (simp add: decode_field_def field_at_nth)
  then have "decode_known E D local w (l\<lparr>nl_iter := iter_at d fds p k\<rparr>) ?s =
      Some (Continue, l\<lparr>nl_iter := iter_at d fds p k\<rparr>, stepped ?s (length vb) m')"
    using c(2) k e by (simp add: decode_known_def Let_def field_at_nth)
  then have "noinit_round E D local l s =
      Some (Continue, l\<lparr>nl_iter := iter_at d fds p k\<rparr>, stepped s (length (?tag @ vb)) m')"
    using t find_simple [OF k j, of p] l by (simp add: noinit_round_def)
  with P show ?thesis by blast
qed

subsection \<open>All fields\<close>

text \<open>
  What the encoder has written for a field: nothing, and its value is the default one or it is flagged as
  absent, or its tag and bytes that the decoder of its type reads back.
\<close>

definition field_back :: "nat \<Rightarrow> ('st, 'h) dec_subs \<Rightarrow> memory \<Rightarrow> nat \<Rightarrow> nat \<Rightarrow> nat \<Rightarrow> bytes \<Rightarrow> nat \<Rightarrow> bool" where
  "field_back n D m fds src p bs k \<longleftrightarrow>
     (let f = d fds ! k; q = p + field_offset (d fds) k; r = src + field_offset (d fds) k in
      bs = [] \<and> absent n m f r \<or>
      (\<exists>w vb. wire_of_ltype (PB_LTYPE (f_type f)) = Some w \<and> bs = varint (tag_word w (f_tag f)) @ vb \<and>
         has_flag m f r \<and>
         (\<forall>s. starts (ds_in s) vb \<longrightarrow>
            (PB_LTYPE (f_type f) = PB_LTYPE_SUBMESSAGE \<longrightarrow> fresh n d (ds_mem s) (f_ptr f) q) \<longrightarrow>
            reads_back (pb_decoder E D f q) vb ({q..<q + unat (f_data_size f)} \<union> own)
              (\<lambda>m'. plain_value m' (message_value n d m') f q = plain_value m (message_value n d m) f r) s)))"

abbreviation fresh_at :: "nat \<Rightarrow> memory \<Rightarrow> nat \<Rightarrow> nat \<Rightarrow> nat \<Rightarrow> bool" where
  "fresh_at n m fds p k \<equiv> fresh_field m (fresh n d m) (d fds ! k) (p + field_offset (d fds) k)"

lemma field_round:
  assumes k: "k < nfields (d fds)" and own: "own \<inter> struct_at sz fds p = {}"
    and fb: "field_back n D m fds src p bs k" and bs: "bs \<noteq> []"
    and fr: "fresh_at n (ds_mem s) fds p k"
    and j: "valid_pos (d fds) j" and l: "nl_iter l = iter_at d fds p j"
    and st: "starts (ds_in s) bs"
  shows "\<exists>m'. noinit_round E D local l s = Some (Continue, l\<lparr>nl_iter := iter_at d fds p k\<rparr>, stepped s (length bs) m') \<and>
    field_value n m' fds p k = field_value n m fds src k \<and> same_outside (cells (d fds) p k \<union> own) (ds_mem s) m'"
proof -
  let ?f = "d fds ! k" let ?q = "p + field_offset (d fds) k" let ?r = "src + field_offset (d fds) k"
  let ?A = "{?q..<?q + unat (f_data_size ?f)} \<union> own"
  note c = cells_parts [OF k, of p]
  have "flag_cell ?f ?q \<subseteq> struct_at sz fds p" using c cells_struct [OF k, of p] by blast
  moreover have "flag_cell ?f ?q \<inter> {?q..<?q + unat (f_data_size ?f)} = {}"
    using flag_place [OF k _ refl, of p] by (auto simp: flag_cell_def)
  ultimately have A: "flag_cell ?f ?q \<inter> ?A = {}" using own by blast
  from fb bs obtain w vb where w: "wire_of_ltype (PB_LTYPE (f_type ?f)) = Some w"
    and b: "bs = varint (tag_word w (f_tag ?f)) @ vb" and h: "has_flag m ?f ?r"
    and val: "\<And>s. starts (ds_in s) vb \<Longrightarrow>
            (PB_LTYPE (f_type ?f) = PB_LTYPE_SUBMESSAGE \<Longrightarrow> fresh n d (ds_mem s) (f_ptr ?f) ?q) \<Longrightarrow>
            reads_back (pb_decoder E D ?f ?q) vb ?A
              (\<lambda>m'. plain_value m' (message_value n d m') ?f ?q = plain_value m (message_value n d m) ?f ?r) s"
    unfolding field_back_def Let_def by blast
  have "\<exists>m'. noinit_round E D local l s =
      Some (Continue, l\<lparr>nl_iter := iter_at d fds p k\<rparr>,
        stepped s (length (varint (tag_word w (f_tag ?f)) @ vb)) m') \<and>
    plain_value m' (message_value n d m') ?f ?q = plain_value m (message_value n d m) ?f ?r \<and>
    has_flag m' ?f ?q \<and> same_outside (?A \<union> flag_cell ?f ?q) (ds_mem s) m'"
  proof (rule round_back [where P = "\<lambda>m'. plain_value m' (message_value n d m') ?f ?q =
      plain_value m (message_value n d m) ?f ?r", OF k refl A j l w st [unfolded b]], erule val)
    fix s1 :: "('st, 'h) dec_state"
    assume s1: "same_outside (flag_cell ?f ?q) (ds_mem s) (ds_mem s1)"
    assume sub: "PB_LTYPE (f_type ?f) = PB_LTYPE_SUBMESSAGE"
    with fr have "fresh n d (ds_mem s) (f_ptr ?f) ?q" by (simp add: fresh_field_def)
    moreover have "struct_at sz (f_ptr ?f) ?q \<inter> flag_cell ?f ?q = {}" using sub_struct [OF k sub, of p] A by blast
    then have "ds_mem s1 a = ds_mem s a" if "a \<in> struct_at sz (f_ptr ?f) ?q" for a
      using s1 that unfolding same_outside_def by blast
    ultimately show "fresh n d (ds_mem s1) (f_ptr ?f) ?q" by (rule fresh_local [rotated])
  qed
  then obtain m' where r: "noinit_round E D local l s =
      Some (Continue, l\<lparr>nl_iter := iter_at d fds p k\<rparr>, stepped s (length bs) m')"
    and m': "plain_value m' (message_value n d m') ?f ?q = plain_value m (message_value n d m) ?f ?r"
      "has_flag m' ?f ?q" "same_outside (?A \<union> flag_cell ?f ?q) (ds_mem s) m'" unfolding b by blast
  have "?A \<union> flag_cell ?f ?q = cells (d fds) p k \<union> own" using c by auto
  with m'(3) have "same_outside (cells (d fds) p k \<union> own) (ds_mem s) m'" by simp
  moreover have "field_value n m' fds p k = field_value n m fds src k" using m'(1,2) h by (simp add: field_value_def)
  ultimately show ?thesis using r by blast
qed

lemma loop_back:
  assumes own: "own \<inter> struct_at sz fds p = {}"
    and "\<forall>k\<in>set ks. k < nfields (d fds) \<and> field_back n D m fds src p (part k) k \<and> fresh_at n (ds_mem s) fds p k"
    and "distinct ks" and "starts (ds_in s) (concat (map part ks))"
    and "bytes_left (ds_in s) = length (concat (map part ks))" and "bytes_left (ds_in s) < N"
    and "valid_pos (d fds) j" and "nl_iter l = iter_at d fds p j" and "nl_fixed_count_field l = None"
  shows "\<exists>l' m' i. noinit_loop N (noinit_round E D local) l s =
      Some (True, l', stepped s (length (concat (map part ks))) m') \<and>
    valid_pos (d fds) i \<and> nl_iter l' = iter_at d fds p i \<and> nl_fixed_count_field l' = None \<and>
    (\<forall>k\<in>set ks. field_value n m' fds p k = field_value n m fds src k) \<and>
    same_outside ((\<Union>k\<in>set ks. cells (d fds) p k) \<union> own) (ds_mem s) m'"
  using assms(2-)
proof (induction ks arbitrary: s l j N)
  case Nil
  then obtain N' where "N = Suc N'" by (cases N) auto
  moreover have "stepped s 0 (ds_mem s) = s" by simp
  ultimately show ?case using Nil by (auto simp: same_outside_def intro!: exI [of _ l] exI [of _ "ds_mem s"])
next
  case (Cons k ks)
  from Cons.prems(1) have k: "k < nfields (d fds)" by simp
  let ?rest = "concat (map part ks)"
  let ?C = "(\<Union>k\<in>set ks. cells (d fds) p k) \<union> own"
  have "cells (d fds) p k \<inter> cells (d fds) p i = {}" if "i \<in> set ks" for i
    using Cons.prems(1,2) that by (intro cells_disjoint) auto
  moreover have "cells (d fds) p k \<inter> own = {}" using cells_struct [OF k, of p] own by blast
  ultimately have apart: "cells (d fds) p k \<inter> ?C = {}" by blast
  show ?case
  proof (cases "part k = []")
    case True
    with Cons.prems(1) have ab: "absent n m (d fds ! k) (src + field_offset (d fds) k)"
      and fr: "fresh_at n (ds_mem s) fds p k" by (auto simp: field_back_def Let_def)
    from Cons.IH [OF _ _ _ _ Cons.prems(5-8)] Cons.prems(1-4) True obtain l' m' i where
      r: "noinit_loop N (noinit_round E D local) l s = Some (True, l', stepped s (length ?rest) m')"
        "valid_pos (d fds) i \<and> nl_iter l' = iter_at d fds p i \<and> nl_fixed_count_field l' = None"
        "\<forall>k\<in>set ks. field_value n m' fds p k = field_value n m fds src k" "same_outside ?C (ds_mem s) m'"
      by auto
    have "m' a = ds_mem s a" if "a \<in> cells (d fds) p k" for a
      using that apart r(4) unfolding same_outside_def by blast
    then have "fresh_at n m' fds p k" by (rule fresh_cells [OF k _ fr])
    from absent_value [OF k ab this fresh_value] have "field_value n m' fds p k = field_value n m fds src k" .
    with r True show ?thesis
      by (intro exI [of _ l'] exI [of _ m'] exI [of _ i]) (auto simp: same_outside_def)
  next
    case False
    then obtain N' where N: "N = Suc N'" and left: "bytes_left (ds_in s) \<noteq> 0"
      using Cons.prems(4,5) by (cases N) auto
    from Cons.prems(1,3) have "field_back n D m fds src p (part k) k" "fresh_at n (ds_mem s) fds p k"
      "starts (ds_in s) (part k)" and rest: "starts (adv (ds_in s) (length (part k))) ?rest"
      by (simp_all add: starts_append)
    from field_round [OF k own this(1) False this(2) Cons.prems(6,7) this(3), of local] obtain m1 where
      r1: "noinit_round E D local l s = Some (Continue, l\<lparr>nl_iter := iter_at d fds p k\<rparr>, stepped s (length (part k)) m1)"
      and v1: "field_value n m1 fds p k = field_value n m fds src k"
      and o1: "same_outside (cells (d fds) p k \<union> own) (ds_mem s) m1" by blast
    let ?s = "stepped s (length (part k)) m1" let ?l = "l\<lparr>nl_iter := iter_at d fds p k\<rparr>"
    have "fresh_at n m1 fds p i" if i: "i \<in> set ks" for i
    proof -
      have "k \<noteq> i" "i < nfields (d fds)" "fresh_at n (ds_mem s) fds p i" using Cons.prems(1,2) i by auto
      moreover from this have "m1 a = ds_mem s a" if "a \<in> cells (d fds) p i" for a
        using that o1 cells_disjoint [OF _ k, of i p] cells_struct [of i fds p] own by (fastforce simp: same_outside_def)
      ultimately show ?thesis by (intro fresh_cells [of i fds p m1 "ds_mem s" n]) simp_all
    qed
    moreover have l1: "length ?rest < N'" using False Cons.prems(4,5) N by (cases "part k") auto
    ultimately have "\<exists>l' m' i. noinit_loop N' (noinit_round E D local) ?l ?s = Some (True, l', stepped ?s (length ?rest) m') \<and>
        valid_pos (d fds) i \<and> nl_iter l' = iter_at d fds p i \<and> nl_fixed_count_field l' = None \<and>
        (\<forall>k\<in>set ks. field_value n m' fds p k = field_value n m fds src k) \<and> same_outside ?C (ds_mem ?s) m'"
      using Cons.prems N k rest l1
      by (intro Cons.IH [of ?s N' k ?l]) (auto simp: valid_pos_def)
    then obtain l' m' i where
      r: "noinit_loop N' (noinit_round E D local) ?l ?s = Some (True, l', stepped ?s (length ?rest) m')"
        "valid_pos (d fds) i \<and> nl_iter l' = iter_at d fds p i \<and> nl_fixed_count_field l' = None"
        "\<forall>k\<in>set ks. field_value n m' fds p k = field_value n m fds src k" "same_outside ?C m1 m'"
      by auto
    have "m' a = m1 a" if "a \<in> cells (d fds) p k" for a
      using that apart r(4) unfolding same_outside_def by blast
    then have "field_value n m' fds p k = field_value n m fds src k"
      using v1 by (subst field_value_cells [OF k]) simp_all
    moreover have "noinit_loop N (noinit_round E D local) l s =
        Some (True, l', stepped s (length (concat (map part (k # ks)))) m')"
      using r(1) r1 N left by simp
    moreover have "same_outside ((\<Union>k\<in>set (k # ks). cells (d fds) p k) \<union> own) (ds_mem s) m'"
      using o1 r(4) by (auto simp: same_outside_def)
    ultimately show ?thesis using r(2,3) by (intro exI [of _ l'] exI [of _ m'] exI [of _ i]) simp
  qed
qed

subsection \<open>Required fields\<close>

lemma seek_end_simple:
  "valid_pos (d fds) i \<Longrightarrow> \<exists>k. valid_pos (d fds) k \<and>
    seek_end d (iter_at d fds p i) = (required_before (d fds) k, f_type (field_at (d fds) k), iter_at d fds p 0)"
proof (induction "nfields (d fds) - i" arbitrary: i)
  case 0
  then have "nfields (d fds) = 0" "i = 0" by (auto simp: valid_pos_def)
  then show ?case using nfields_end [of "d fds"]
    by (intro exI [of _ 0])
       (simp add: seek_end.simps [of d "iter_at d fds p 0"] pb_field_iter_next_def valid_pos_def, simp add: iter_at_def)
next
  case (Suc r)
  then have i: "i < nfields (d fds)" by simp
  note n = next_iter_at [of i d fds p, OF i]
  show ?case
  proof (cases "Suc i < nfields (d fds)")
    case True
    with Suc have "\<exists>k. valid_pos (d fds) k \<and> seek_end d (iter_at d fds p (Suc i)) =
        (required_before (d fds) k, f_type (field_at (d fds) k), iter_at d fds p 0)"
      by (intro Suc.hyps) (simp_all add: valid_pos_def)
    with True n show ?thesis by (simp add: seek_end.simps [of d "iter_at d fds p i"])
  next
    case False
    with n i show ?thesis
      by (intro exI [of _ i]) (simp add: seek_end.simps [of d "iter_at d fds p i"] valid_pos_def, simp add: iter_at_def)
  qed
qed

lemma none_required: "valid_pos (d fds) i \<Longrightarrow> \<not> required_missing d (iter_at d fds p i) seen"
proof -
  assume "valid_pos (d fds) i"
  from seek_end_simple [OF this, of p] obtain k where k: "valid_pos (d fds) k"
    "seek_end d (iter_at d fds p i) = (required_before (d fds) k, f_type (field_at (d fds) k), iter_at d fds p 0)" by blast
  have "PB_HTYPE (f_type f) \<noteq> PB_HTYPE_REQUIRED" if "f \<in> set (take k (d fds))" for f
  proof -
    from that obtain j where "j < k" "f = d fds ! j" by (auto simp: in_set_conv_nth)
    with k(1) simpleD(2) [of j fds] show ?thesis by (simp add: valid_pos_def)
  qed
  then have "required_before (d fds) k = 0" by (simp add: required_before_def filter_empty_conv)
  moreover have "\<not> (PB_HTYPE (f_type (field_at (d fds) k)) = PB_HTYPE_REQUIRED \<and> f_tag (field_at (d fds) 0) \<noteq> 0)"
  proof (cases "nfields (d fds) = 0")
    case True
    then show ?thesis using nfields_end [of "d fds"] by simp
  next
    case False
    with k(1) have "k < nfields (d fds)" by (auto simp: valid_pos_def)
    then show ?thesis using simpleD(2) [of k fds] by (simp add: field_at_nth)
  qed
  ultimately show ?thesis using k(2) by (auto simp: required_missing_def Let_def)
qed

subsection \<open>Messages\<close>

lemma field_part:
  assumes k: "k < nfields (d fds)"
    and b: "basic_field_out m subo (pb_check_message n m d) (d fds ! k) r = gives bs"
  shows "bs = [] \<and> absent n m (d fds ! k) r \<or>
    (\<exists>w vb. wire_of_ltype (PB_LTYPE (f_type (d fds ! k))) = Some w \<and>
      bs = varint (tag_word w (f_tag (d fds ! k))) @ vb \<and>
      has_flag m (d fds ! k) r \<and> value_out m subo (d fds ! k) r = gives vb)"
  using b simpleD(1,2) [OF k]
  by (auto simp: basic_field_out_def Let_def absent_def has_flag_def out_append_gives tag_out_def
      split: if_splits option.splits)

lemma value_part:
  assumes k: "k < nfields (d fds)" and v: "value_out m subo (d fds ! k) r = gives vb" and r: "r \<noteq> 0"
    and t: "PB_LTYPE (f_type (d fds ! k)) = PB_LTYPE_STRING \<Longrightarrow>
      c_strnlen m r (unat (f_data_size (d fds ! k))) < unat (f_data_size (d fds ! k))"
    and st: "starts (ds_in s) vb" and l: "length vb < 2 ^ 32"
    and sub: "\<And>cs s1. PB_LTYPE (f_type (d fds ! k)) = PB_LTYPE_SUBMESSAGE \<Longrightarrow> subo (f_ptr (d fds ! k)) r = gives cs \<Longrightarrow>
      length cs < length vb \<Longrightarrow> starts (ds_in s1) cs \<Longrightarrow> bytes_left (ds_in s1) = length cs \<Longrightarrow> ds_mem s1 = ds_mem s \<Longrightarrow>
      reads_back (sub_noinit D (f_ptr (d fds ! k)) q) cs (struct_at sz (f_ptr (d fds ! k)) q \<union> own)
        (\<lambda>m'. message_value n d m' (f_ptr (d fds ! k)) q = message_value n d m (f_ptr (d fds ! k)) r) s1"
  shows "reads_back (pb_decoder E D (d fds ! k) q) vb ({q..<q + unat (f_data_size (d fds ! k))} \<union> own)
    (\<lambda>m'. plain_value m' (message_value n d m') (d fds ! k) q = plain_value m (message_value n d m) (d fds ! k) r) s"
proof (cases "PB_LTYPE (f_type (d fds ! k)) = PB_LTYPE_SUBMESSAGE")
  case True
  with v obtain cs where f: "f_ptr (d fds ! k) \<noteq> 0" and cs: "subo (f_ptr (d fds ! k)) r = gives cs" "vb = string_bytes cs"
    by (auto simp: value_out_def sized_def split: if_splits option.splits)
  have less: "length cs < length vb" using cs(2) varint_length(2) [of "of_nat (length cs)"] by (simp add: string_bytes_def)
  have "reads_back (pb_dec_submessage D (d fds ! k) q) vb (struct_at sz (f_ptr (d fds ! k)) q \<union> own)
      (\<lambda>m'. message_value n d m' (f_ptr (d fds ! k)) q = message_value n d m (f_ptr (d fds ! k)) r) s"
    unfolding cs(2)
    by (rule submessage_back [OF _ st [unfolded cs(2)] f]) (use less l simpleD(2) [OF k] sub [OF True cs(1) less] in simp_all)
  then have "reads_back (pb_decoder E D (d fds ! k) q) vb (struct_at sz (f_ptr (d fds ! k)) q \<union> own)
      (\<lambda>m'. message_value n d m' (f_ptr (d fds ! k)) q = message_value n d m (f_ptr (d fds ! k)) r) s"
    using True by (simp add: pb_decoder_def)
  then show ?thesis
    by (rule reads_back_mono) (use simple_ok(4) [OF k True] in \<open>auto simp: struct_at_def plain_value_def True\<close>)
next
  case False
  note p = plain_value_sub [OF False]
  from value_back [OF v r simpleD(1) [OF k] False simple_ok(2) [OF k] t st, where sub' = "\<lambda>_ _. []" and sub = "\<lambda>_ _. []"]
  show ?thesis by (rule reads_back_mono) (auto simp: p [of _ "message_value n d _"])
qed

lemma message_parts:
  assumes o: "message_out (Suc n) EE cb xcb fds src = gives bs" and e: "en_fields EE = d"
  obtains part where "bs = concat (map part [0..<nfields (d fds)])"
    and "\<And>k. k < nfields (d fds) \<Longrightarrow> basic_field_out (en_mem EE) (message_out n EE cb xcb)
      (pb_check_message n (en_mem EE) d) (d fds ! k) (src + field_offset (d fds) k) = gives (part k)"
proof -
  let ?g = "\<lambda>k. let f = field_at (en_fields EE fds) k; pData = src + field_offset (en_fields EE fds) k;
                     sub = message_out n EE cb xcb;
                     deflt = pb_check_message n (en_mem EE) (en_fields EE)
                 in if PB_LTYPE (f_type f) = PB_LTYPE_EXTENSION then
                      extensions_out n EE cb xcb sub deflt (rd_ptr (en_mem EE) pData)
                    else field_out EE cb sub deflt f pData"
  have g: "?g k = basic_field_out (en_mem EE) (message_out n EE cb xcb)
      (pb_check_message n (en_mem EE) d) (d fds ! k) (src + field_offset (d fds) k)" if k: "k < nfields (d fds)" for k
    using simple_ok(3) [OF k] simpleD(1) [OF k] k by (simp add: e field_at_nth field_out_def Let_def)
  from o have "out_concat (map ?g [0..<nfields (d fds)]) = gives bs" by (simp add: e)
  from out_concat_parts [OF this] g show ?thesis by (intro that [of "\<lambda>x. the (the (?g x))"]) auto
qed

lemma message_back:
  "own \<inter> struct_at sz fds p = {} \<Longrightarrow> message_out n EE cb xcb fds src = gives bs \<Longrightarrow> en_fields EE = d \<Longrightarrow>
    terminated n d (en_mem EE) fds src \<Longrightarrow> fresh n d (ds_mem s) fds p \<Longrightarrow> src \<noteq> 0 \<Longrightarrow>
    starts (ds_in s) bs \<Longrightarrow> bytes_left (ds_in s) = length bs \<Longrightarrow> length bs < 2 ^ 32 \<Longrightarrow> length bs + 1 < N \<Longrightarrow>
    reads_back (pb_decode_noinit N E fds p) bs (struct_at sz fds p \<union> own)
      (\<lambda>m'. message_value n d m' fds p = message_value n d (en_mem EE) fds src) s"
proof (induction n arbitrary: fds p src bs s N)
  case (Suc n)
  let ?m = "en_mem EE"
  obtain N' where N: "N = Suc N'" and N': "length bs < N'" using Suc.prems(10) by (cases N) auto
  let ?D = "subs_of N' E (pb_decode_noinit N' E)" let ?local = "de_local E N'"
  from message_parts [OF Suc.prems(2,3)] obtain part where bs: "bs = concat (map part [0..<nfields (d fds)])"
    and part: "\<And>k. k < nfields (d fds) \<Longrightarrow> basic_field_out ?m (message_out n EE cb xcb)
      (pb_check_message n ?m d) (d fds ! k) (src + field_offset (d fds) k) = gives (part k)" by blast
  have fb: "field_back n ?D ?m fds src p (part k) k" if k: "k < nfields (d fds)" for k
  proof -
    let ?f = "d fds ! k" let ?r = "src + field_offset (d fds) k" let ?q = "p + field_offset (d fds) k"
    have len: "length (part k) \<le> length bs"
      unfolding bs length_concat using k by (intro member_le_sum_list) simp_all
    from Suc.prems(4) k have t: "has_flag ?m ?f ?r \<Longrightarrow>
        (PB_LTYPE (f_type ?f) = PB_LTYPE_STRING \<longrightarrow> c_strnlen ?m ?r (unat (f_data_size ?f)) < unat (f_data_size ?f)) \<and>
        (PB_LTYPE (f_type ?f) = PB_LTYPE_SUBMESSAGE \<longrightarrow> terminated n d ?m (f_ptr ?f) ?r)"
      by (simp add: Let_def)
    have apart: "own \<inter> struct_at sz (f_ptr ?f) ?q = {}" if "PB_LTYPE (f_type ?f) = PB_LTYPE_SUBMESSAGE"
      using sub_struct [OF k that, of p] cells_struct [OF k, of p] cells_parts [OF k, of p] Suc.prems(1) by blast
    have "reads_back (pb_decoder E ?D ?f ?q) vb ({?q..<?q + unat (f_data_size ?f)} \<union> own)
        (\<lambda>m'. plain_value m' (message_value n d m') ?f ?q = plain_value ?m (message_value n d ?m) ?f ?r) s1"
      if p: "part k = varint (tag_word w (f_tag ?f)) @ vb" and h: "has_flag ?m ?f ?r"
        and v: "value_out ?m (message_out n EE cb xcb) ?f ?r = gives vb" and st: "starts (ds_in s1) vb"
        and fr: "PB_LTYPE (f_type ?f) = PB_LTYPE_SUBMESSAGE \<longrightarrow> fresh n d (ds_mem s1) (f_ptr ?f) ?q"
      for w vb and s1 :: "('st, 'h) dec_state"
    proof (rule value_part [OF k v])
      have l: "length vb < length (part k)" using p by simp
      then show "length vb < 2 ^ 32" using len Suc.prems(9) by linarith
      fix cs and s2 :: "('st, 'h) dec_state"
      assume sub: "PB_LTYPE (f_type ?f) = PB_LTYPE_SUBMESSAGE" and cs: "message_out n EE cb xcb (f_ptr ?f) ?r = gives cs"
        and less: "length cs < length vb" and s2: "starts (ds_in s2) cs" "bytes_left (ds_in s2) = length cs"
          "ds_mem s2 = ds_mem s1"
      have "reads_back (pb_decode_noinit N' E (f_ptr ?f) ?q) cs (struct_at sz (f_ptr ?f) ?q \<union> own)
          (\<lambda>m'. message_value n d m' (f_ptr ?f) ?q = message_value n d ?m (f_ptr ?f) ?r) s2"
        using t [OF h] fr sub s2 Suc.prems(6,9) less l len N'
        by (intro Suc.IH [OF apart [OF sub] cs Suc.prems(3)]) simp_all
      then show "reads_back (sub_noinit ?D (f_ptr ?f) ?q) cs (struct_at sz (f_ptr ?f) ?q \<union> own)
          (\<lambda>m'. message_value n d m' (f_ptr ?f) ?q = message_value n d ?m (f_ptr ?f) ?r) s2"
        by (simp add: subs_of_def)
    qed (use t [OF h] st Suc.prems(6) in simp_all)
    with field_part [OF k part [OF k]] show ?thesis unfolding field_back_def Let_def by blast
  qed
  let ?s = "upd_mem (wr_u32 ?local 0) s"
  define l where "l = \<lparr>nl_fields_seen = [0, 0], nl_extension_range_start = 0,
    nl_iter = snd (pb_field_iter_begin d fds p), nl_fixed_count_field = None\<rparr>"
  have loc: "same_outside own (ds_mem s) (ds_mem ?s)"
    unfolding upd_mem_def wr_u32_def by (simp, rule same_outside_wr) (auto simp: own_def)
  have fr: "fresh_at n (ds_mem ?s) fds p k" if k: "k < nfields (d fds)" for k
  proof (rule fresh_cells [OF k])
    show "fresh_at n (ds_mem s) fds p k" using Suc.prems(5) k by simp
    show "ds_mem ?s a = ds_mem s a" if "a \<in> cells (d fds) p k" for a
      using that loc cells_struct [OF k, of p] Suc.prems(1) unfolding same_outside_def by blast
  qed
  have "\<exists>l' m' i. noinit_loop N' (noinit_round E ?D ?local) l ?s =
      Some (True, l', stepped ?s (length (concat (map part [0..<nfields (d fds)]))) m') \<and>
    valid_pos (d fds) i \<and> nl_iter l' = iter_at d fds p i \<and> nl_fixed_count_field l' = None \<and>
    (\<forall>k\<in>set [0..<nfields (d fds)]. field_value n m' fds p k = field_value n ?m fds src k) \<and>
    same_outside ((\<Union>k\<in>set [0..<nfields (d fds)]. cells (d fds) p k) \<union> own) (ds_mem ?s) m'"
    using fb fr Suc.prems(7,8) N'
    by (intro loop_back [OF Suc.prems(1), of _ n ?D ?m src part ?s N' 0 l])
       (auto simp: bs [symmetric] l_def begin_iter_at valid_pos_def upd_mem_def)
  then obtain l' m' i where r: "noinit_loop N' (noinit_round E ?D ?local) l ?s =
      Some (True, l', stepped ?s (length bs) m')" and i: "valid_pos (d fds) i" "nl_iter l' = iter_at d fds p i"
      and fc: "nl_fixed_count_field l' = None"
      and v: "\<forall>k < nfields (d fds). field_value n m' fds p k = field_value n ?m fds src k"
      and o: "same_outside ((\<Union>k < nfields (d fds). cells (d fds) p k) \<union> own) (ds_mem ?s) m'"
    by (auto simp: bs [symmetric] atLeast0LessThan)
  have "pb_decode_noinit N E fds p s = Some (True, stepped s (length bs) m')"
    using r fc i none_required [OF i(1)] unfolding N pb_decode_noinit.simps Let_def l_def [symmetric]
    by (simp add: fixed_count_wrong_def) (simp add: upd_mem_def)
  then show ?case
  proof (rule reads_backI)
    show "message_value (Suc n) d m' fds p = message_value (Suc n) d ?m fds src"
      using v by (simp add: message_value_fields del: message_value.simps)
    have "(\<Union>k < nfields (d fds). cells (d fds) p k) \<subseteq> struct_at sz fds p" using cells_struct by blast
    then have "same_outside (struct_at sz fds p \<union> own) (ds_mem ?s) m'" by (intro same_outside_mono [OF o]) blast
    moreover have "same_outside (struct_at sz fds p \<union> own) (ds_mem s) (ds_mem ?s)"
      by (rule same_outside_mono [OF loc]) blast
    ultimately show "same_outside (struct_at sz fds p \<union> own) (ds_mem s) m'" by (rule same_outside_trans [rotated])
  qed
qed simp

text \<open>The same from the start, with the defaults set.\<close>

lemma decode_back:
  assumes "own \<inter> struct_at sz fds p = {}" and "message_out n EE cb xcb fds src = gives bs" and "en_fields EE = d"
    and "terminated n d (en_mem EE) fds src" and "src \<noteq> 0" and "starts (ds_in s) bs"
    and "bytes_left (ds_in s) = length bs" and "length bs < 2 ^ 32" and "length bs + rank fds + 1 < N"
  shows "reads_back (pb_decode N E fds p) bs (struct_at sz fds p \<union> own)
    (\<lambda>m'. message_value n d m' fds p = message_value n d (en_mem EE) fds src) s"
proof -
  from assms(9) have "rank fds < N" by simp
  from defaults_fresh [OF this, of p "ds_mem s" n] obtain m0 where
    d: "pb_message_set_to_defaults N E fds p (ds_mem s) = Some m0" and o: "same_outside (struct_at sz fds p) (ds_mem s) m0"
    and fr: "fresh n d m0 fds p" by blast
  have "reads_back (pb_decode_noinit N E fds p) bs (struct_at sz fds p \<union> own)
      (\<lambda>m'. message_value n d m' fds p = message_value n d (en_mem EE) fds src) (s\<lparr>ds_mem := m0\<rparr>)"
    using assms fr by (intro message_back) simp_all
  then obtain m' where m': "pb_decode_noinit N E fds p (s\<lparr>ds_mem := m0\<rparr>) = Some (True, stepped s (length bs) m')"
    "message_value n d m' fds p = message_value n d (en_mem EE) fds src"
    "same_outside (struct_at sz fds p \<union> own) m0 m'" by (auto simp: reads_back_def)
  have "same_outside (struct_at sz fds p \<union> own) (ds_mem s) m'"
    using same_outside_trans [OF same_outside_mono [OF o] m'(3)] by blast
  with d m' show ?thesis by (intro reads_backI [where m' = m']) (simp_all add: pb_decode_def decode_init_def)
qed

end

end
