(* ===== verification/Pb_Typed.thy ===== *)
theory Pb_Typed
  imports Pb_Roundtrip
begin

text \<open>
  What a structure is like after a successful decode of any input, not only of what the encoder writes: its
  flags are true or false, its strings are terminated, and its byte arrays are not longer than their buffers.
  The proof follows \<open>Pb_Decode_Safe\<close>, with the contents of the fields added to the frames.
\<close>

section \<open>Well-typed messages\<close>

definition field_typed :: "memory \<Rightarrow> (nat \<Rightarrow> nat \<Rightarrow> bool) \<Rightarrow> pb_field \<Rightarrow> nat \<Rightarrow> bool" where
  "field_typed m sub f q \<longleftrightarrow>
     (f_size_offset f \<noteq> 0 \<longrightarrow> m (ptr_plus q (f_size_offset f)) = 0 \<or> m (ptr_plus q (f_size_offset f)) = 1) \<and>
     (PB_LTYPE (f_type f) = PB_LTYPE_STRING \<and> has_flag m f q \<longrightarrow>
        c_strnlen m q (unat (f_data_size f)) < unat (f_data_size f)) \<and>
     (PB_LTYPE (f_type f) = PB_LTYPE_BYTES \<and> has_flag m f q \<longrightarrow> unat (rd_u32 m q) + 4 \<le> unat (f_data_size f)) \<and>
     (PB_LTYPE (f_type f) = PB_LTYPE_SUBMESSAGE \<longrightarrow> sub (f_ptr f) q)"

fun well_typed :: "nat \<Rightarrow> pb_tables \<Rightarrow> memory \<Rightarrow> nat \<Rightarrow> nat \<Rightarrow> bool" where
  "well_typed 0 d m fds p = True"
| "well_typed (Suc n) d m fds p \<longleftrightarrow>
     (\<forall>k < nfields (d fds). field_typed m (well_typed n d m) (d fds ! k) (p + field_offset (d fds) k))"

text \<open>A well-typed message can be encoded again and is then read back.\<close>

lemma well_typed_terminated: "well_typed n d m fds p \<Longrightarrow> terminated n d m fds p"
  by (induction n arbitrary: fds p) (simp_all add: field_typed_def Let_def)

lemma field_typed_local:
  assumes a: "\<And>a. a \<in> {q..<q + unat (f_data_size f)} \<union> flag_cell f q \<Longrightarrow> m' a = m a"
    and sub: "PB_LTYPE (f_type f) = PB_LTYPE_SUBMESSAGE \<Longrightarrow> sub (f_ptr f) q \<Longrightarrow> sub' (f_ptr f) q"
    and b: "PB_LTYPE (f_type f) = PB_LTYPE_BYTES \<Longrightarrow> 4 \<le> unat (f_data_size f)"
    and t: "field_typed m sub f q"
  shows "field_typed m' sub' f q"
proof -
  have "c_strnlen m' q (unat (f_data_size f)) = c_strnlen m q (unat (f_data_size f))"
    by (intro c_strnlen_cong a) simp
  moreover have "rd_u32 m' q = rd_u32 m q" if "PB_LTYPE (f_type f) = PB_LTYPE_BYTES"
    unfolding rd_u32_def using b [OF that] by (intro arg_cong [where f = le_word] rd_bytes_cong a) simp
  moreover have "has_flag m' f q = has_flag m f q" by (rule has_flag_local) (simp add: a)
  ultimately show ?thesis using t sub a by (auto simp: field_typed_def flag_cell_def)
qed

section \<open>Values\<close>

lemma c_strnlen_end: "m (p + i) = 0 \<Longrightarrow> i < k \<Longrightarrow> c_strnlen m p k < k"
  using c_strnlen_char [of i m p k] by (cases "i < c_strnlen m p k") auto

lemma with_read_True:
  assumes "with_read rd k s = Some (True, t)"
  obtains x u where "rd (ds_in s) = (Some x, u)" "k x (s\<lparr>ds_in := u\<rparr>) = Some (True, t)"
  using assms by (auto simp: with_read_def split: prod.splits option.splits)

lemma string_typed:
  assumes "pb_dec_string E f q s = Some (True, t)" and f: "PB_ATYPE (f_type f) = PB_ATYPE_STATIC"
  shows "c_strnlen (ds_mem t) q (unat (f_data_size f)) < unat (f_data_size f)"
proof -
  from assms(1) [unfolded pb_dec_string_def Let_def] obtain sz :: u32 and u where
    r: "(if unat (sz + 1) < unat sz then dec_error ''size too large'' (s\<lparr>ds_in := u\<rparr>)
      else if PB_ATYPE (f_type f) = PB_ATYPE_POINTER then
        and_then (allocate_field E q (unat (sz + 1)) 1 (s\<lparr>ds_in := u\<rparr>))
          (\<lambda>s. read_string_to (rd_ptr (ds_mem s) q) (unat sz) s)
      else if unat (f_data_size f) < unat (sz + 1) then dec_error ''string overflow'' (s\<lparr>ds_in := u\<rparr>)
      else read_string_to q (unat sz) (s\<lparr>ds_in := u\<rparr>)) = Some (True, t)"
    by (rule with_read_True) blast
  with f have le: "unat sz \<le> unat (sz + 1)" "unat (sz + 1) \<le> unat (f_data_size f)"
    and rs: "read_string_to q (unat sz) (s\<lparr>ds_in := u\<rparr>) = Some (True, t)"
    by (auto simp: dec_error_def split: if_splits)
  have "sz + 1 \<noteq> sz" by simp
  then have less: "unat sz < unat (f_data_size f)" using le word_unat_eq_iff [of "sz + 1" sz] by linarith
  from rs have "ds_mem t (q + unat sz) = 0"
    by (auto simp: read_string_to_def upd_mem_def wr_bytes_app)
  with less show ?thesis by (intro c_strnlen_end [where i = "unat sz"])
qed

lemma bytes_typed:
  assumes "pb_dec_bytes E f q s = Some (True, t)" and f: "PB_ATYPE (f_type f) = PB_ATYPE_STATIC"
  shows "unat (rd_u32 (ds_mem t) q) + 4 \<le> unat (f_data_size f)"
proof -
  from assms(1) [unfolded pb_dec_bytes_def Let_def] obtain sz u where
    r: "(if PB_SIZE_MAX < sz then dec_error ''bytes overflow'' (s\<lparr>ds_in := u\<rparr>)
      else if add_size (unat sz) bytes_off < unat sz then dec_error ''size too large'' (s\<lparr>ds_in := u\<rparr>)
      else if PB_ATYPE (f_type f) = PB_ATYPE_POINTER then
        and_then (allocate_field E q (add_size (unat sz) bytes_off) 1 (s\<lparr>ds_in := u\<rparr>))
          (\<lambda>s. read_to (rd_ptr (ds_mem s) q + bytes_off) (unat sz) (upd_mem (wr_u32 (rd_ptr (ds_mem s) q) sz) s))
      else if unat (f_data_size f) < add_size (unat sz) bytes_off then dec_error ''bytes overflow'' (s\<lparr>ds_in := u\<rparr>)
      else read_to (q + bytes_off) (unat sz) (upd_mem (wr_u32 q sz) (s\<lparr>ds_in := u\<rparr>))) = Some (True, t)"
    by (rule with_read_True) (auto simp: Let_def)
  have a: "add_size (unat sz) bytes_off = unat sz + 4" using unat_u32_less [of sz] by (simp add: add_size_def)
  from r f have "\<not> unat (f_data_size f) < unat sz + 4"
    and "read_to (q + 4) (unat sz) (upd_mem (wr_u32 q sz) (s\<lparr>ds_in := u\<rparr>)) = Some (True, t)"
    unfolding a by (auto simp: dec_error_def split: if_splits)
  then obtain bs v where m: "t = upd_mem (\<lambda>m. wr_bytes m (q + 4) (take (unat sz) bs))
      (upd_mem (wr_u32 q sz) (s\<lparr>ds_in := u\<rparr>)\<lparr>ds_in := v\<rparr>)"
    unfolding read_to_def by (elim with_read_True) auto
  have "rd_bytes (ds_mem t) q 4 = le_bytes 4 sz"
    using rd_wr_same [of "ds_mem s" q "le_bytes 4 sz"]
    by (simp add: m upd_mem_def rd_wr_other wr_u32_def del: wr_bytes.simps)
  then have "rd_u32 (ds_mem t) q = sz" using le_word_bytes [of 4 sz] by (simp add: rd_u32_def)
  with \<open>\<not> unat (f_data_size f) < unat sz + 4\<close> show ?thesis by simp
qed

lemma submessage_typed:
  assumes "pb_dec_submessage D f q s = Some (True, t)" and "PB_HTYPE (f_type f) \<noteq> PB_HTYPE_REPEATED"
    and b: "on_buffer s"
    and sub: "\<And>s1 t1. on_buffer s1 \<Longrightarrow> left s1 < left s \<Longrightarrow> ds_mem s1 = ds_mem s \<Longrightarrow>
      sub_noinit D (f_ptr f) q s1 = Some (True, t1) \<Longrightarrow> P (ds_mem t1)"
  shows "P (ds_mem t)"
proof -
  from assms(1) [unfolded pb_dec_submessage_def] obtain u p where u: "pb_make_string_substream (ds_in s) = (Some u, p)"
    and r: "(if f_ptr f = 0 then dec_error ''invalid field descriptor'' (s\<lparr>ds_in := p\<rparr>)
       else case sub_noinit D (f_ptr f) q (s\<lparr>ds_in := u\<rparr>) of None \<Rightarrow> None
         | Some (status, s') \<Rightarrow> close_substream p status s') = Some (True, t)"
    using assms(2) by (elim with_read_True) (simp split del: if_split cong: if_cong option.case_cong)
  note w = substream_within [OF b u]
  from r obtain status t1 where t1: "sub_noinit D (f_ptr f) q (s\<lparr>ds_in := u\<rparr>) = Some (status, t1)"
    "close_substream p status t1 = Some (True, t)"
    by (auto simp: dec_error_def split: if_splits option.splits)
  then have "status" "ds_mem t = ds_mem t1" by (auto simp: close_substream_def split: prod.splits if_splits)
  with sub [of "s\<lparr>ds_in := u\<rparr>" t1] w t1 show ?thesis by simp
qed

section \<open>Fields\<close>

context simple_messages
begin

lemma well_typed_local:
  "(\<And>a. a \<in> struct_at sz fds p \<Longrightarrow> m' a = m a) \<Longrightarrow> well_typed n d m fds p \<Longrightarrow> well_typed n d m' fds p"
proof (induction n arbitrary: fds p)
  case (Suc n)
  have "field_typed m' (well_typed n d m') (d fds ! k) (p + field_offset (d fds) k)" if k: "k < nfields (d fds)" for k
  proof (rule field_typed_local [OF _ _ simpleD(6) [OF k]])
    note c = cells_struct [OF k, of p] cells_parts [OF k, of p]
    show "field_typed m (well_typed n d m) (d fds ! k) (p + field_offset (d fds) k)" using Suc.prems(2) k by simp
    show "m' a = m a" if "a \<in> {p + field_offset (d fds) k..<p + field_offset (d fds) k + unat (f_data_size (d fds ! k))} \<union>
        flag_cell (d fds ! k) (p + field_offset (d fds) k)" for a
      using that Suc.prems(1) c by auto
    show "well_typed n d m' (f_ptr (d fds ! k)) (p + field_offset (d fds) k)"
      if "PB_LTYPE (f_type (d fds ! k)) = PB_LTYPE_SUBMESSAGE" "well_typed n d m (f_ptr (d fds ! k)) (p + field_offset (d fds) k)"
      using that(2) Suc.prems(1) sub_struct [OF k that(1), of p] c by (intro Suc.IH) auto
  qed
  then show ?case by simp
qed simp

abbreviation "typed_at n m fds p k \<equiv> field_typed m (well_typed n d m) (d fds ! k) (p + field_offset (d fds) k)"

lemma typed_cells:
  assumes "k < nfields (d fds)" and "\<And>a. a \<in> cells (d fds) p k \<Longrightarrow> m' a = m a" and "typed_at n m fds p k"
  shows "typed_at n m' fds p k"
  using _ _ simpleD(6) [OF assms(1)] assms(3)
proof (rule field_typed_local)
  note c = cells_parts [OF assms(1), of p]
  show "m' a = m a" if "a \<in> {p + field_offset (d fds) k..<p + field_offset (d fds) k + unat (f_data_size (d fds ! k))} \<union>
      flag_cell (d fds ! k) (p + field_offset (d fds) k)" for a
    using that assms(2) c by auto
  show "well_typed n d m' (f_ptr (d fds ! k)) (p + field_offset (d fds) k)"
    if "PB_LTYPE (f_type (d fds ! k)) = PB_LTYPE_SUBMESSAGE" "well_typed n d m (f_ptr (d fds ! k)) (p + field_offset (d fds) k)"
    using that(2) assms(2) c sub_struct [OF assms(1) that(1), of p] by (intro well_typed_local [OF _ that(2)]) auto
qed

text \<open>The defaults are well-typed.\<close>

lemma fresh_typed: "fresh n d m fds p \<Longrightarrow> well_typed n d m fds p"
proof (induction n arbitrary: fds p)
  case (Suc n)
  have "typed_at n m fds p k" if k: "k < nfields (d fds)" for k
  proof -
    let ?f = "d fds ! k" let ?q = "p + field_offset (d fds) k" let ?n = "unat (f_data_size ?f)"
    have fr: "fresh_field m (fresh n d m) ?f ?q" using Suc.prems k by simp
    have z: "m (?q + i) = 0" if "has_flag m ?f ?q" "PB_LTYPE (f_type ?f) \<noteq> PB_LTYPE_SUBMESSAGE" "i < ?n" for i
      using fr that nth_rd_bytes [of i ?n m ?q] by (auto simp: fresh_field_def has_flag_def in_set_conv_nth)
    have "c_strnlen m ?q ?n < ?n" if "PB_LTYPE (f_type ?f) = PB_LTYPE_STRING" "has_flag m ?f ?q"
      using z [OF that(2), of 0] that simpleD(7) [OF k that(1)]
      by (intro c_strnlen_end [where i = 0]) (simp_all add: unat_gt_0)
    moreover have "unat (rd_u32 m ?q) + 4 \<le> ?n" if "PB_LTYPE (f_type ?f) = PB_LTYPE_BYTES" "has_flag m ?f ?q"
      using z [OF that(2)] that simpleD(6) [OF k that(1)] rd_u32_zero [of m ?q] by simp
    ultimately show ?thesis using fr Suc.IH by (auto simp: field_typed_def fresh_field_def rd_bool_def)
  qed
  then show ?case by simp
qed simp

text \<open>A field that has been decoded.\<close>

definition sub_typed :: "nat \<Rightarrow> nat \<Rightarrow> ('st, 'h) dec_subs \<Rightarrow> nat \<Rightarrow> bool" where
  "sub_typed n b D r \<longleftrightarrow>
     (\<forall>fds q s t. rank fds < r \<longrightarrow> struct_at sz fds q \<inter> own = {} \<longrightarrow> on_buffer s \<longrightarrow> left s \<le> b \<longrightarrow>
        well_typed n d (ds_mem s) fds q \<longrightarrow> sub_noinit D fds q s = Some (True, t) \<longrightarrow> well_typed n d (ds_mem t) fds q)"

lemma sub_typedD:
  "sub_typed n b D r \<Longrightarrow> rank fds < r \<Longrightarrow> struct_at sz fds q \<inter> own = {} \<Longrightarrow> on_buffer s \<Longrightarrow> left s \<le> b \<Longrightarrow>
    well_typed n d (ds_mem s) fds q \<Longrightarrow> sub_noinit D fds q s = Some (True, t) \<Longrightarrow> well_typed n d (ds_mem t) fds q"
  unfolding sub_typed_def by blast

lemma static_typed:
  assumes k: "k < nfields (d fds)" and apart: "own \<inter> struct_at sz fds p = {}"
    and b: "on_buffer s" and l: "left s \<le> Suc b" and D: "subs_ok D (rank fds) b" and sub: "sub_typed n b D (rank fds)"
    and ty: "typed_at n (ds_mem s) fds p k"
    and r: "decode_static_field E D w (iter_at d fds p k) s = Some (True, t)"
  shows "typed_at n (ds_mem t) fds p k" and "same_outside (cells (d fds) p k \<union> own) (ds_mem s) (ds_mem t)"
proof -
  let ?f = "d fds ! k" let ?q = "p + field_offset (d fds) k" let ?z = "ptr_plus ?q (f_size_offset ?f)"
  let ?n = "unat (f_data_size ?f)" let ?l = "PB_LTYPE (f_type ?f)"
  define u where "u = (if f_size_offset ?f = 0 then s else upd_mem (wr_bool ?z True) s)"
  note c = cells_parts [OF k, of p] and st = cells_struct [OF k, of p] and ok = simple_ok [OF k]
  have r: "pb_decoder E D ?f ?q u = Some (True, t)"
    using r simpleD(2) [OF k] iter_flag [OF k, of p] k
    by (simp add: decode_static_field_def Let_def field_at_nth u_def split: if_splits)
  have u: "on_buffer u" "left u \<le> Suc b" "same_outside (flag_cell ?f ?q) (ds_mem s) (ds_mem u)"
    using b l by (simp_all add: u_def upd_mem_def same_outside_def flag_cell_def wr_bool_def wr_bytes_app)
  have sa: "struct_at sz (f_ptr ?f) ?q \<subseteq> {?q..<?q + ?n}" if "?l = PB_LTYPE_SUBMESSAGE" by (rule sub_struct [OF k that])
  have "sub_safe ({?q..<?q + ?n} \<union> own) b D ?f ?q" unfolding sub_safe_def
  proof (intro impI conjI)
    assume m: "?l = PB_LTYPE_SUBMESSAGE"
    then have A: "area (f_ptr ?f) ?q \<subseteq> {?q..<?q + ?n} \<union> own" using sa unfolding area_def by blast
    have "safe (area (f_ptr ?f) ?q) b (sub_noinit D (f_ptr ?f) ?q)" "safe (area (f_ptr ?f) ?q) b (sub_decode D (f_ptr ?f) ?q)"
      using D ok(4) m by (simp_all add: subs_ok_def)
    then show "safe ({?q..<?q + ?n} \<union> own) b (sub_noinit D (f_ptr ?f) ?q)"
      "safe ({?q..<?q + ?n} \<union> own) b (sub_decode D (f_ptr ?f) ?q)" by (simp_all add: safe_mono [OF _ A order.refl])
  qed
  then have "ok_at ({?q..<?q + ?n} \<union> own) u (pb_decoder E D ?f ?q u)"
    by (intro ok_at_decoder [OF u(1) simpleD(1) [OF k] ok(1) _ u(2)]) simp_all
  with r have f: "same_outside ({?q..<?q + ?n} \<union> own) (ds_mem u) (ds_mem t)"
    by (simp add: ok_at_Some frame_def same_outside_def)
  with u(3) c show o: "same_outside (cells (d fds) p k \<union> own) (ds_mem s) (ds_mem t)" by (auto simp: same_outside_def)
  have flag: "ds_mem t ?z = 1" if "f_size_offset ?f \<noteq> 0"
  proof -
    have "?z \<in> cells (d fds) p k" using c that by (simp add: flag_cell_def)
    then have "?z \<notin> {?q..<?q + ?n} \<union> own" using st apart flag_place [OF k that refl, of p] by auto
    with f that show ?thesis by (simp add: same_outside_def u_def upd_mem_def wr_bool_def wr_bytes_app)
  qed
  have "c_strnlen (ds_mem t) ?q ?n < ?n" if "?l = PB_LTYPE_STRING"
    using r that by (intro string_typed [OF _ simpleD(1) [OF k]]) (simp add: pb_decoder_def)
  moreover have "unat (rd_u32 (ds_mem t) ?q) + 4 \<le> ?n" if "?l = PB_LTYPE_BYTES"
    using r that by (intro bytes_typed [OF _ simpleD(1) [OF k]]) (simp add: pb_decoder_def)
  moreover have "well_typed n d (ds_mem t) (f_ptr ?f) ?q" if m: "?l = PB_LTYPE_SUBMESSAGE"
  proof (rule submessage_typed [where P = "\<lambda>m. well_typed n d m (f_ptr ?f) ?q"])
    show "pb_dec_submessage D ?f ?q u = Some (True, t)" using r m by (simp add: pb_decoder_def)
    fix s1 t1 assume s1: "on_buffer s1" "left s1 < left u" "ds_mem s1 = ds_mem u" "sub_noinit D (f_ptr ?f) ?q s1 = Some (True, t1)"
    have "well_typed n d (ds_mem s) (f_ptr ?f) ?q" using ty m by (simp add: field_typed_def)
    moreover have "ds_mem u a = ds_mem s a" if "a \<in> struct_at sz (f_ptr ?f) ?q" for a
      using sa [OF m] that u(3) flag_place [OF k _ refl, of p] by (force simp: same_outside_def flag_cell_def split: if_splits)
    ultimately have "well_typed n d (ds_mem s1) (f_ptr ?f) ?q" unfolding s1(3) by (rule well_typed_local [rotated])
    moreover have "struct_at sz (f_ptr ?f) ?q \<inter> own = {}" using sa [OF m] c st apart by blast
    ultimately show "well_typed n d (ds_mem t1) (f_ptr ?f) ?q"
      using s1 u(2) ok(4) m by (intro sub_typedD [OF sub _ _ s1(1) _ _ s1(4)]) simp_all
  qed (use u simpleD(2) [OF k] in simp_all)
  ultimately show "typed_at n (ds_mem t) fds p k" using flag by (simp add: field_typed_def)
qed

section \<open>The loop\<close>

definition all_typed :: "nat \<Rightarrow> memory \<Rightarrow> nat \<Rightarrow> nat \<Rightarrow> bool" where
  "all_typed n m fds p \<longleftrightarrow> (\<forall>k < nfields (d fds). typed_at n m fds p k)"

lemma all_typed_field:
  assumes k: "k < nfields (d fds)" and apart: "own \<inter> struct_at sz fds p = {}"
    and b: "on_buffer s" and l: "left s \<le> Suc b" and D: "subs_ok D (rank fds) b" and sub: "sub_typed n b D (rank fds)"
    and ty: "all_typed n (ds_mem s) fds p"
    and r: "decode_static_field E D w (iter_at d fds p k) s = Some (True, t)"
  shows "all_typed n (ds_mem t) fds p"
  unfolding all_typed_def
proof (intro allI impI)
  fix i assume i: "i < nfields (d fds)"
  from ty k i have tk: "typed_at n (ds_mem s) fds p k" and ti: "typed_at n (ds_mem s) fds p i"
    unfolding all_typed_def by blast+
  note st = static_typed [OF k apart b l D sub tk r]
  show "typed_at n (ds_mem t) fds p i"
  proof (cases "i = k")
    case False
    have "ds_mem t a = ds_mem s a" if "a \<in> cells (d fds) p i" for a
      using that st(2) cells_disjoint [OF False i k, of p] cells_struct [OF i, of p] apart
      unfolding same_outside_def by blast
    then show ?thesis by (rule typed_cells [OF i _ ti])
  qed (use st(1) in simp)
qed

lemma all_typed_outside:
  "own \<inter> struct_at sz fds p = {} \<Longrightarrow> same_outside own m m' \<Longrightarrow> all_typed n m fds p \<Longrightarrow> all_typed n m' fds p"
  unfolding all_typed_def
proof (intro allI impI)
  fix k assume k: "k < nfields (d fds)" and apart: "own \<inter> struct_at sz fds p = {}"
    and o: "same_outside own m m'" and ty: "\<forall>k < nfields (d fds). typed_at n m fds p k"
  have "m' a = m a" if "a \<in> cells (d fds) p k" for a
    using that o cells_struct [OF k, of p] apart unfolding same_outside_def by blast
  then show "typed_at n m' fds p k" by (rule typed_cells [OF k]) (use ty k in blast)+
qed

lemma loop_iter_simple:
  assumes "loop_iter d fds p local it" obtains j where "valid_pos (d fds) j" "it = iter_at d fds p j"
  using assms simpleD(2) [of _ fds] by (auto simp: loop_iter_def)

lemma round_typed:
  assumes apart: "own \<inter> struct_at sz fds p = {}" and b: "on_buffer s" and le: "left s \<le> Suc (Suc n')"
    and D: "subs_ok D (rank fds) n'" and sub: "sub_typed n n' D (rank fds)"
    and it: "loop_iter d fds p (de_local E m) (nl_iter l)" and ty: "all_typed n (ds_mem s) fds p"
    and r: "noinit_round E D (de_local E m) l s = Some (e, l', t)" and e: "e \<noteq> Return_false"
  shows "all_typed n (ds_mem t) fds p"
proof (cases "nfields (d fds) = 0")
  case nonempty: False
  obtain g u where g: "pb_decode_tag (ds_in s) = (g, u)" by force
  let ?s = "s\<lparr>ds_in := u\<rparr>"
  show ?thesis
  proof (cases g)
    case (Tag wt tag)
    have bs: "on_buffer ?s" using frame_buffer [OF frame_stream [OF moved_within [OF moved_pb_decode_tag [OF b g]]] b] .
    have ls: "left ?s \<le> Suc n'" using decode_tag_left [OF g [unfolded Tag]] le by simp
    from find_from_loop [of d fds p "de_local E m" "nl_iter l"
        "\<lambda>f. f_tag f = tag \<and> PB_LTYPE (f_type f) \<noteq> PB_LTYPE_EXTENSION", OF it] nonempty
    have "\<exists>ok it'. pb_field_iter_find d (nl_iter l) tag = Some (ok, it') \<and> loop_iter d fds p (de_local E m) it' \<and>
        (ok \<longrightarrow> it_pos it' < nfields (d fds))"
      unfolding pb_field_iter_find_def by blast
    then obtain ok it' where f: "pb_field_iter_find d (nl_iter l) tag = Some (ok, it')"
      and it': "loop_iter d fds p (de_local E m) it'" and k: "ok \<longrightarrow> it_pos it' < nfields (d fds)" by blast
    let ?l = "l\<lparr>nl_iter := it'\<rparr>"
    show ?thesis
    proof (cases ok)
      case True
      obtain j where j: "it' = iter_at d fds p j" by (rule loop_iter_simple [OF it'])
      with k True have kj: "j < nfields (d fds)" by simp
      have "decode_static_field E D wt (iter_at d fds p j) ?s = Some (True, t)"
        using r g Tag f True j kj e simpleD(1,2) [OF kj]
        by (auto simp: noinit_round_def decode_known_def decode_field_def field_at_nth Let_def
            split: option.splits if_splits)
      then show ?thesis by (rule all_typed_field [OF kj apart bs ls D sub, rotated]) (use ty in simp)
    next
      case False
      obtain l2 where "decode_unknown E D tag wt ?l ?s = finish_round l2 (on_stream (\<lambda>t. pb_skip_field t wt) ?s)"
        by (rule unknown_skips [where l = ?l and tag = tag and D = D and wire_type = wt and s = ?s])
           (use it' decode_tag_small [OF g [unfolded Tag]] in simp_all)
      with r g Tag f False have "ds_mem t = ds_mem s"
        by (auto simp: noinit_round_def finish_round_def on_stream_def split: prod.splits)
      with ty show ?thesis by simp
    qed
  qed (use r g ty e in \<open>auto simp: noinit_round_def\<close>)
qed (simp add: all_typed_def)

lemma loop_typed:
  assumes apart: "own \<inter> struct_at sz fds p = {}" and D: "subs_ok D (rank fds) n'" and sub: "sub_typed n n' D (rank fds)"
    and "on_buffer s" and "left s \<le> Suc (Suc n')" and "loop_iter d fds p (de_local E m) (nl_iter l)"
    and "all_typed n (ds_mem s) fds p" and "noinit_loop i (noinit_round E D (de_local E m)) l s = Some (True, l', t)"
  shows "all_typed n (ds_mem t) fds p"
  using assms(4-)
proof (induction i arbitrary: s l)
  case (Suc i)
  show ?case
  proof (cases "left s = 0")
    case False
    from round_step [OF Suc.prems(1,2) D Suc.prems(3)] obtain e l2 u where
      r: "noinit_round E D (de_local E m) l s = Some (e, l2, u)" and u: "frame (area fds p) s u"
      and it: "loop_iter d fds p (de_local E m) (nl_iter l2)" by blast
    note ty = round_typed [OF apart Suc.prems(1,2) D sub Suc.prems(3,4) r]
    show ?thesis
    proof (cases e)
      case Continue
      with r False Suc.prems(5) have "noinit_loop i (noinit_round E D (de_local E m)) l2 u = Some (True, l', t)" by simp
      then show ?thesis
        by (rule Suc.IH [of u l2, rotated -1])
           (use ty Continue frame_buffer [OF u Suc.prems(1)] frame_left [OF u] Suc.prems(2) it in simp_all)
    qed (use r False Suc.prems(5) ty in simp_all)
  qed (use Suc.prems in simp)
qed simp

lemma noinit_typed:
  "struct_at sz fds p \<inter> own = {} \<Longrightarrow> on_buffer s \<Longrightarrow> left s + rank fds + 1 < N \<Longrightarrow> well_typed n d (ds_mem s) fds p \<Longrightarrow>
    pb_decode_noinit N E fds p s = Some (True, t) \<Longrightarrow> well_typed n d (ds_mem t) fds p"
proof (induction n arbitrary: fds p s t N)
  case (Suc n)
  obtain N' where N: "N = Suc N'" using Suc.prems(3) by (cases N) auto
  let ?D = "subs_of N' E (pb_decode_noinit N' E)" let ?local = "de_local E N'" let ?b = "left s - 1"
  let ?s = "upd_mem (wr_u32 ?local 0) s"
  define l where "l = \<lparr>nl_fields_seen = [0, 0], nl_extension_range_start = 0,
    nl_iter = snd (pb_field_iter_begin d fds p), nl_fixed_count_field = None\<rparr>"
  have apart: "own \<inter> struct_at sz fds p = {}" using Suc.prems(1) by blast
  have D: "subs_ok ?D (rank fds) ?b"
    using Suc.prems(3) N by (intro subs_of_ok noinit_safe) simp_all
  have sub: "sub_typed n ?b ?D (rank fds)" unfolding sub_typed_def
  proof (intro allI impI)
    fix fds' q and s1 t1 :: "('st, 'h) dec_state"
    assume a: "rank fds' < rank fds" "struct_at sz fds' q \<inter> own = {}" "on_buffer s1" "left s1 \<le> ?b"
      "well_typed n d (ds_mem s1) fds' q" "sub_noinit ?D fds' q s1 = Some (True, t1)"
    show "well_typed n d (ds_mem t1) fds' q"
      by (rule Suc.IH [OF a(2,3) _ a(5), of N']) (use a Suc.prems(3) N in \<open>simp_all add: subs_of_def\<close>)
  qed
  have "all_typed n (ds_mem s) fds p" using Suc.prems(4) by (simp add: all_typed_def)
  moreover have "same_outside own (ds_mem s) (ds_mem ?s)"
    unfolding upd_mem_def wr_u32_def by (simp, rule same_outside_wr) (auto simp: own_def)
  ultimately have ty: "all_typed n (ds_mem ?s) fds p" by (rule all_typed_outside [OF apart, rotated])
  have it: "loop_iter d fds p ?local (nl_iter l)"
    using loop_iter_at [of d fds 0 p ?local] by (auto simp: l_def begin_iter_at valid_pos_def)
  from Suc.prems(5) obtain l' where r: "noinit_loop N' (noinit_round E ?D ?local) l ?s = Some (True, l', t)"
    unfolding N pb_decode_noinit.simps Let_def l_def [symmetric]
    by (auto simp: dec_error_def split: option.splits bool.splits if_splits)
  have "all_typed n (ds_mem t) fds p"
    by (rule loop_typed [OF apart D sub _ _ it ty r]) (use Suc.prems(2) in \<open>simp_all add: upd_mem_def\<close>)
  then show ?case by (simp add: all_typed_def)
qed simp

lemma decode_typed:
  assumes "struct_at sz fds p \<inter> own = {}" and "on_buffer s" and "left s + rank fds + 1 < N"
    and "pb_decode N E fds p s = Some (True, t)"
  shows "well_typed n d (ds_mem t) fds p"
proof -
  from assms(3) have "rank fds < N" by simp
  from defaults_fresh [OF this, of p "ds_mem s" n] obtain m where
    m: "pb_message_set_to_defaults N E fds p (ds_mem s) = Some m" "fresh n d m fds p" by blast
  with assms(4) have "pb_decode_noinit N E fds p (s\<lparr>ds_mem := m\<rparr>) = Some (True, t)"
    by (auto simp: pb_decode_def decode_init_def split: option.splits bool.splits)
  then show ?thesis
    by (rule noinit_typed [of fds p "s\<lparr>ds_mem := m\<rparr>", rotated -1]) (use assms(1-3) in \<open>simp_all add: fresh_typed [OF m(2)]\<close>)
qed

end

end
