(* ===== verification/Decoding.thy ===== *)
theory Decoding
  imports Pb_Decode_Safe Messages
begin

text \<open>
  Properties of the message decoder of nanopb (\<open>pb_decode.c\<close>), with the callback of gRPC that reads a
  string and a message of the gRPC kind as concrete instances.
\<close>

section \<open>Instances\<close>

text \<open>
  \<open>decode_string_or_bytes_cb\<close> of gRPC. Making a slice of \<open>n\<close> bytes and a copy of it on the heap is a
  parameter: it gives the address of the bytes and that of the copy.
\<close>

definition decode_string_or_bytes_cb :: "(nat \<Rightarrow> memory \<Rightarrow> 'h \<Rightarrow> nat \<times> nat \<times> memory \<times> 'h) \<Rightarrow> pb_field \<Rightarrow>
    nat \<Rightarrow> ('st, 'h) dec_state \<Rightarrow> bool \<times> ('st, 'h) dec_state" where
  "decode_string_or_bytes_cb new_slice f arg s =
     (case new_slice (bytes_left (ds_in s)) (ds_mem s) (ds_heap s) of
        (start, cb_slice, m, h) \<Rightarrow>
          let s = s\<lparr>ds_mem := m, ds_heap := h\<rparr> in
          (case pb_read (ds_in s) True (bytes_left (ds_in s)) of
             (None, t) \<Rightarrow> (False, s\<lparr>ds_in := t\<rparr>)
           | (Some bs, t) \<Rightarrow>
               (True, upd_mem (wr_ptr arg cb_slice)
                  (upd_mem (\<lambda>m. wr_bytes m start (take (bytes_left (ds_in s)) bs)) (s\<lparr>ds_in := t\<rparr>)))))"

definition slices_in :: "nat set \<Rightarrow> (nat \<Rightarrow> memory \<Rightarrow> 'h \<Rightarrow> nat \<times> nat \<times> memory \<times> 'h) \<Rightarrow> bool" where
  "slices_in W new_slice \<longleftrightarrow> (\<forall>n m h start cb m' h'. new_slice n m h = (start, cb, m', h') \<longrightarrow>
     {start..<start + n} \<subseteq> W \<and> (\<forall>a. a \<notin> W \<longrightarrow> m' a = m a))"

lemma string_cb_ok:
  fixes new_slice :: "nat \<Rightarrow> memory \<Rightarrow> 'h \<Rightarrow> nat \<times> nat \<times> memory \<times> 'h"
  assumes "slices_in W new_slice"
  shows "callback_ok W arg (decode_string_or_bytes_cb new_slice f arg :: ('st, 'h) dec_state \<Rightarrow> _)"
  unfolding callback_ok_def
proof (intro allI impI)
  fix s t :: "('st, 'h) dec_state" and ok
  assume b: "on_buffer s" and c: "decode_string_or_bytes_cb new_slice f arg s = (ok, t)"
  let ?A = "W \<union> {arg..<arg + 8}"
  obtain start cb m h where n: "new_slice (left s) (ds_mem s) (ds_heap s) = (start, cb, m, h)"
    by (metis prod_cases4)
  with assms have w: "{start..<start + left s} \<subseteq> ?A" and m: "\<forall>a. a \<notin> W \<longrightarrow> m a = ds_mem s a"
    unfolding slices_in_def by blast+
  obtain r u where r: "pb_read (ds_in s) True (left s) = (r, u)" by force
  have wu: "within (ds_in s) u" by (rule readerD [OF reader_read b r])
  let ?u = "s\<lparr>ds_mem := m, ds_heap := h, ds_in := u\<rparr>"
  have fu: "frame ?A s ?u" using wu m by (simp add: frame_def)
  show "frame ?A s t \<and> (ok \<longrightarrow> left t = 0 \<or> left t < left s)"
  proof (cases r)
    case None
    with c n r fu show ?thesis by (simp add: decode_string_or_bytes_cb_def)
  next
    case (Some bs)
    let ?v = "upd_mem (\<lambda>m. wr_bytes m start (take (left s) bs)) ?u"
    have "confined ?A (\<lambda>m. wr_bytes m start (take (left s) bs))"
      by (rule confined_wr_bytes) (use w in \<open>auto simp: subset_iff\<close>)
    then have v: "frame ?A ?u ?v" by (rule frame_upd_mem)
    have "confined ?A (wr_ptr arg cb)" by (rule confined_wr) auto
    then have x: "frame ?A ?v (upd_mem (wr_ptr arg cb) ?v)" by (rule frame_upd_mem)
    have "frame ?A s (upd_mem (wr_ptr arg cb) ?v)"
      by (rule frame_trans [OF fu frame_trans [OF v x]])
    moreover have "bytes_left u = 0" using pb_read_left [OF r [unfolded Some]] by simp
    ultimately show ?thesis using c n r Some
      by (simp add: decode_string_or_bytes_cb_def) (auto simp: upd_mem_def)
  qed
qed

text \<open>A program whose only callback is this one, and whose messages are never released.\<close>

definition grpc_dec_env :: "pb_tables \<Rightarrow> (nat \<Rightarrow> memory \<Rightarrow> 'h \<Rightarrow> nat \<times> nat \<times> memory \<times> 'h) \<Rightarrow> (nat \<Rightarrow> nat) \<Rightarrow>
    ('st, 'h) dec_env" where
  "grpc_dec_env d new_slice locals =
     \<lparr>de_fields = d, de_ext = (\<lambda>_. \<lparr>x_decode = 0, x_encode = 0, x_arg = 0\<rparr>),
      de_realloc = (\<lambda>_ _ m h. (0, m, h)), de_free = (\<lambda>_ m h. (m, h)),
      de_field_cb = (\<lambda>_. decode_string_or_bytes_cb new_slice), de_ext_cb = (\<lambda>_ _ _ _ s. (True, s)),
      de_local = locals\<rparr>"

definition PB_REPEATED_STATIC :: "u32 \<Rightarrow> u32 \<Rightarrow> 32 word \<Rightarrow> u32 \<Rightarrow> u32 \<Rightarrow> u8 \<Rightarrow> nat \<Rightarrow> pb_field" where
  "PB_REPEATED_STATIC tag fd delta membersize arraysize ltype ptr =
     \<lparr>f_tag = tag, f_type = PB_ATYPE_STATIC OR PB_HTYPE_REPEATED OR ltype, f_data_offset = fd,
      f_size_offset = delta, f_data_size = membersize, f_array_size = arraysize, f_ptr = ptr\<rparr>"

text \<open>
  Descriptors: at address 1 those of a time stamp, at 2 those of a message of a time stamp, an array of at
  most three packed numbers with its count behind it, and a string that a callback reads.
\<close>

definition dec_tables :: pb_tables where
  "dec_tables a =
     (if a = 1 then google_protobuf_Timestamp_fields
      else if a = 2 then
        [PB_SINGULAR_STATIC 1 0 16 PB_LTYPE_SUBMESSAGE 1,
         PB_REPEATED_STATIC 2 0 12 4 3 PB_LTYPE_UVARINT 0,
         PB_SINGULAR_CALLBACK 3 4 16 PB_LTYPE_STRING 0]
      else [])"

definition dec_size :: "nat \<Rightarrow> nat" where "dec_size a = (if a = 1 then 16 else if a = 2 then 48 else 0)"
definition dec_rank :: "nat \<Rightarrow> nat" where "dec_rank a = (if a = 2 then 1 else 0)"

text \<open>An allocator that never gives anything back: its state is the next free address.\<close>

definition bump_slice :: "nat \<Rightarrow> memory \<Rightarrow> nat \<Rightarrow> nat \<times> nat \<times> memory \<times> nat" where
  "bump_slice n m h = (65536 + h, 65536 + h + n, m, h + n + 16)"

lemma bump_in: "slices_in {65536..} bump_slice"
  by (auto simp: slices_in_def bump_slice_def)

lemma dec_fields:
  "dec_tables 1 = [PB_SINGULAR_STATIC 1 0 8 PB_LTYPE_VARINT 0, PB_SINGULAR_STATIC 2 0 4 PB_LTYPE_VARINT 0]"
  "dec_tables 2 = [PB_SINGULAR_STATIC 1 0 16 PB_LTYPE_SUBMESSAGE 1,
     PB_REPEATED_STATIC 2 0 12 4 3 PB_LTYPE_UVARINT 0, PB_SINGULAR_CALLBACK 3 4 16 PB_LTYPE_STRING 0]"
  "a \<noteq> 1 \<Longrightarrow> a \<noteq> 2 \<Longrightarrow> dec_tables a = []"
  by (simp_all add: dec_tables_def google_protobuf_Timestamp_fields_def)

lemmas dec_simps =
  PB_SINGULAR_STATIC_def PB_REPEATED_STATIC_def PB_SINGULAR_CALLBACK_def nfields_def field_at_def
  continues_union_def field_space_def PB_ATYPE_def PB_HTYPE_def PB_LTYPE_def dec_size_def dec_rank_def

lemma dec_nfields: "nfields (dec_tables 1) = 2" "nfields (dec_tables 2) = 3" "dec_tables a = [] \<Longrightarrow> nfields (dec_tables a) = 0"
  by (simp_all add: dec_fields dec_simps del: One_nat_def)

lemmas dec_field_simps = field_ok_def value_fits_def wire_of_ltype_def cell_ok_def size_cell_def
  dec_fields dec_simps Let_def

lemma dec_field_ok_1: "field_ok dec_tables dec_size dec_rank 1 0" "field_ok dec_tables dec_size dec_rank 1 (Suc 0)"
  by (simp_all add: dec_field_simps del: One_nat_def)

lemma dec_field_ok_2: "field_ok dec_tables dec_size dec_rank 2 0"
  "field_ok dec_tables dec_size dec_rank 2 (Suc 0)" "field_ok dec_tables dec_size dec_rank 2 (Suc (Suc 0))"
  by (simp_all add: dec_field_simps del: One_nat_def)

lemma dec_static: "static_tables dec_tables dec_size dec_rank"
  unfolding static_tables_def
proof (intro allI conjI impI)
  fix fds k
  consider "fds = 1" | "fds = 2" | "dec_tables fds = []" using dec_fields(3) by blast
  note c = this
  show "nfields (dec_tables fds) = length (dec_tables fds)"
    by (cases rule: c) (simp_all add: dec_fields dec_simps del: One_nat_def)
  assume k: "k < nfields (dec_tables fds)"
  show "field_ok dec_tables dec_size dec_rank fds k"
  proof (cases rule: c)
    case 1
    with k have "k = 0 \<or> k = 1" using dec_nfields(1) by auto
    with 1 show ?thesis using dec_field_ok_1 by auto
  next
    case 2
    with k have "k = 0 \<or> k = 1 \<or> k = 2" using dec_nfields(2) by auto
    with 2 show ?thesis using dec_field_ok_2 by (auto simp: numeral_2_eq_2)
  next
    case 3
    with k dec_nfields(3) [OF 3] show ?thesis by (simp only: not_less_zero)
  qed
qed

interpretation grpc_dec: static_decoder "grpc_dec_env dec_tables bump_slice locals :: ('st, nat) dec_env"
    dec_size dec_rank "{65536..}"
  by unfold_locales (simp_all add: grpc_dec_env_def dec_static string_cb_ok [OF bump_in])

text \<open>
  A message cut off in the middle: a time stamp, then a packed array whose last number is not there. The
  local variables of up to 64 levels of the decoder lie on a stack.
\<close>

definition demo_locals :: "nat \<Rightarrow> nat" where "demo_locals i = 64 + 4 * (i mod 64)"

definition demo_dec_state :: "(unit, nat) dec_state" where
  "demo_dec_state =
     \<lparr>ds_in = pb_istream_from_buffer [10, 2, 8, 5, 18, 3, 7, 255, 255] 9, ds_mem = (\<lambda>_. 0), ds_heap = 0\<rparr>"

abbreviation demo_dec_env :: "(unit, nat) dec_env" where
  "demo_dec_env \<equiv> grpc_dec_env dec_tables bump_slice demo_locals"

lemma demo_facts: "i_callback (ds_in demo_dec_state) = Buf_read" "bytes_left (ds_in demo_dec_state) + dec_rank 2 + 1 < 12"
  "ds_mem demo_dec_state = (\<lambda>_. 0)" "de_local demo_dec_env = demo_locals"
  by (simp_all add: demo_dec_state_def pb_istream_from_buffer_def dec_rank_def grpc_dec_env_def)

section \<open>Pointer fields: two defects\<close>

text \<open>
  A repeated pointer field counts an item before it has allocated the item: when the allocation fails, the
  count says one more than the array holds, and \<open>pb_release\<close>, which \<open>pb_decode\<close> then calls, goes by the count.
\<close>

lemma failed_allocation_counted:
  assumes "PB_HTYPE (f_type f) = PB_HTYPE_REPEATED" and "f = it_field (de_fields E) it"
    and "wire_type \<noteq> PB_WT_STRING \<or> PB_LTYPE_LAST_PACKABLE < PB_LTYPE (f_type f)"
    and "rd_u32 (ds_mem s) (it_pSize it) = n" and "n \<noteq> PB_SIZE_MAX"
    and "\<And>p k m h. de_realloc E p k m h = (0, m, h)"
  shows "\<exists>t. decode_pointer_field E D wire_type it s = Some (False, t) \<and>
    ds_mem t = wr_u32 (it_pSize it) (n + 1) (ds_mem s)"
  using assms
  by (auto simp: decode_pointer_field_def allocate_field_def and_then_def incr_u32_def dec_error_def upd_mem_def Let_def)

text \<open>
  Releasing the old member of a union leaves the storage of a static member as it is. If the new member is a
  pointer, its first eight bytes, which the input has chosen, are the pointer handed to \<open>pb_realloc\<close>.
\<close>

lemma union_storage_kept:
  assumes "f = it_field (de_fields E) it'" and "PB_ATYPE (f_type f) = PB_ATYPE_STATIC"
    and "PB_LTYPE (f_type f) \<noteq> PB_LTYPE_EXTENSION" "PB_LTYPE (f_type f) \<noteq> PB_LTYPE_SUBMESSAGE"
  shows "pb_release_single_field E rel exts it' s = Some s"
  using assms by (simp add: pb_release_single_field_def Let_def)

section \<open>Properties\<close>

text \<open>C13: The decoder writes only where it may, for the tables of \<open>static_decoder\<close>: static fields (required, optional,
  singular, repeated, oneof, submessages) and callback fields, with the sizes and offsets of the table within the structure,
  submessages of a lower rank, callbacks that keep their contract, and neither pointer nor extension fields (the decoder is
  not safe with pointer fields). On a buffer stream with any bytes in it and with enough fuel, \<open>pb_decode\<close> changes no byte of
  memory outside the structure, its own local variables and what belongs to the callbacks, and reads no byte behind the end
  of its stream: array counts, string and submessage lengths, unions and unknown fields of a hostile message included.\<close>

theorem decoder_in_bounds:
  assumes "static_decoder E sz rank W"
    and "i_callback (ds_in s) = Buf_read" and "bytes_left (ds_in s) + rank fds + 1 < n"
    and "pb_decode n E fds dest s = Some (ok, t)"
  shows "(\<forall>a. a \<notin> {dest..<dest + sz fds} \<and> a \<notin> W \<and> (\<forall>i. a \<notin> {de_local E i..<de_local E i + 4}) \<longrightarrow>
      ds_mem t a = ds_mem s a) \<and>
    (\<exists>k. i_src (ds_in t) = drop k (i_src (ds_in s)) \<and> k + bytes_left (ds_in t) \<le> bytes_left (ds_in s))"
proof -
  have "ok_at (static_decoder.area E sz W fds dest) s (pb_decode n E fds dest s)"
    using safeD [OF static_decoder.decode_safe(1) [OF assms(1,3)] assms(2)] by simp
  with assms(4) have f: "frame (static_decoder.area E sz W fds dest) s t" by (simp add: ok_at_Some)
  have "static_decoder.area E sz W fds dest =
      {dest..<dest + sz fds} \<union> W \<union> (\<Union>i. {de_local E i..<de_local E i + 4})"
    by (auto simp: static_decoder.area_def [OF assms(1)] static_decoder.own_def [OF assms(1)] struct_at_def)
  with f show ?thesis by (auto simp: frame_def within_def)
qed

theorem decoder_in_bounds_witness:
  "\<exists>ok t. pb_decode 12 demo_dec_env 2 4096 demo_dec_state = Some (ok, t) \<and>
    (\<forall>a. 320 \<le> a \<and> a < 4096 \<or> 4144 \<le> a \<and> a < 65536 \<longrightarrow> ds_mem t a = 0)"
proof -
  have "ok_at (static_decoder.area demo_dec_env dec_size {65536..} 2 4096) demo_dec_state (pb_decode 12 demo_dec_env 2 4096 demo_dec_state)"
    by (rule safeD [OF static_decoder.decode_safe(1) [OF grpc_dec.static_decoder_axioms demo_facts(2)] demo_facts(1) order.refl])
  then obtain ok t where r: "pb_decode 12 demo_dec_env 2 4096 demo_dec_state = Some (ok, t)"
    by (auto simp: ok_at_def)
  have "\<forall>i. a \<notin> {demo_locals i..<demo_locals i + 4}" if "320 \<le> a" for a
  proof
    fix i show "a \<notin> {demo_locals i..<demo_locals i + 4}"
      using that less_imp_le_nat [OF mod_less_divisor [of 64 i]] unfolding demo_locals_def atLeastLessThan_iff
      by linarith
  qed
  with decoder_in_bounds [OF grpc_dec.static_decoder_axioms demo_facts(1,2) r] r show ?thesis
    by (intro exI [of _ ok] exI [of _ t]) (simp add: demo_facts(3,4) dec_size_def)
qed

text \<open>C14: The decoder returns, for the same tables (\<open>static_decoder\<close>: static and callback fields, consistent sizes, ranked
  submessages, no pointer or extension fields) and a buffer stream with any bytes in it: \<open>pb_decode\<close>, \<open>pb_decode_noinit\<close>
  and \<open>pb_decode_delimited\<close> return a result, and as many units of fuel as the stream has bytes, plus
  the rank of the message and two, are enough.\<close>

theorem decoder_returns:
  assumes "static_decoder E sz rank W"
    and "i_callback (ds_in s) = Buf_read" and "bytes_left (ds_in s) + rank fds + 1 < n"
  shows "pb_decode n E fds dest s \<noteq> None \<and> pb_decode_noinit n E fds dest s \<noteq> None \<and>
    pb_decode_delimited n E fds dest s \<noteq> None"
proof -
  have s: "safe (static_decoder.area E sz W fds dest) (bytes_left (ds_in s)) (pb_decode n E fds dest)"
    by (rule static_decoder.decode_safe(1) [OF assms(1,3)])
  have "ok_at (static_decoder.area E sz W fds dest) s (pb_decode_delimited n E fds dest s)"
    unfolding pb_decode_delimited_def in_delimited_def
  proof (rule ok_at_substream [OF assms(2), where body = "\<lambda>_. pb_decode n E fds dest" and
        finish = close_substream and msg = "[]"], goal_cases)
    case (1 sub)
    then show ?case by (intro safeD [OF s]) simp_all
  qed simp_all
  moreover have "ok_at (static_decoder.area E sz W fds dest) s (pb_decode n E fds dest s)"
    by (rule safeD [OF s assms(2)]) simp
  moreover have "ok_at (static_decoder.area E sz W fds dest) s (pb_decode_noinit n E fds dest s)"
    by (rule safeD [OF static_decoder.decode_safe(2) [OF assms(1,3)] assms(2)]) simp
  ultimately show ?thesis by (auto simp: ok_at_def)
qed

theorem decoder_returns_witness:
  "pb_decode 12 demo_dec_env 2 4096 demo_dec_state \<noteq> None"
  using decoder_returns [OF grpc_dec.static_decoder_axioms demo_facts(1,2)] by blast

end
