(* ===== verification/Rpc_Versions.thy ===== *)
theory Rpc_Versions
  imports Pb_Typed Decoding
begin

text \<open>
  The protocol versions that the two ends of a gRPC connection exchange
  (\<open>src/core/tsi/alts/handshaker/transport_security_common_api.cc\<close>), on top of nanopb: setting them,
  encoding them to a slice, decoding them, copying them and finding the highest one both ends have.

  Structures lie in memory as nanopb sees them; a null pointer is the address 0. A slice is the list of its
  bytes. The records \<open>rpc_version\<close> and \<open>rpc_versions\<close> are what a structure in memory holds.
\<close>

section \<open>Structures and descriptors\<close>

record rpc_version =
  has_major :: bool
  major :: u32
  has_minor :: bool
  minor :: u32

record rpc_versions =
  has_max_rpc_version :: bool
  max_rpc_version :: rpc_version
  has_min_rpc_version :: bool
  min_rpc_version :: rpc_version

definition load_version :: "memory \<Rightarrow> nat \<Rightarrow> rpc_version" where
  "load_version m p =
     \<lparr>has_major = rd_bool m p, major = rd_u32 m (p + 4), has_minor = rd_bool m (p + 8), minor = rd_u32 m (p + 12)\<rparr>"

definition load_versions :: "memory \<Rightarrow> nat \<Rightarrow> rpc_versions" where
  "load_versions m p =
     \<lparr>has_max_rpc_version = rd_bool m p, max_rpc_version = load_version m (p + 4),
      has_min_rpc_version = rd_bool m (p + 20), min_rpc_version = load_version m (p + 24)\<rparr>"

definition PB_OPTIONAL_STATIC :: "u32 \<Rightarrow> u32 \<Rightarrow> 32 word \<Rightarrow> u32 \<Rightarrow> u8 \<Rightarrow> nat \<Rightarrow> pb_field" where
  "PB_OPTIONAL_STATIC tag fd delta membersize ltype ptr =
     \<lparr>f_tag = tag, f_type = PB_ATYPE_STATIC OR PB_HTYPE_OPTIONAL OR ltype, f_data_offset = fd,
      f_size_offset = delta, f_data_size = membersize, f_array_size = 0, f_ptr = ptr\<rparr>"

definition grpc_gcp_RpcProtocolVersions_Version_fields :: "pb_field list" where
  "grpc_gcp_RpcProtocolVersions_Version_fields =
     [PB_OPTIONAL_STATIC 1 4 (- 4) 4 PB_LTYPE_UVARINT 0, PB_OPTIONAL_STATIC 2 4 (- 4) 4 PB_LTYPE_UVARINT 0]"

definition grpc_gcp_RpcProtocolVersions_fields :: "pb_field list" where
  "grpc_gcp_RpcProtocolVersions_fields =
     [PB_OPTIONAL_STATIC 1 4 (- 4) 16 PB_LTYPE_SUBMESSAGE 1, PB_OPTIONAL_STATIC 2 4 (- 4) 16 PB_LTYPE_SUBMESSAGE 1]"

text \<open>The tables: the fields of a version at address 1, those of a pair of versions at address 2.\<close>

definition versions_tables :: pb_tables where
  "versions_tables a =
     (if a = 1 then grpc_gcp_RpcProtocolVersions_Version_fields
      else if a = 2 then grpc_gcp_RpcProtocolVersions_fields else [])"

section \<open>Operations\<close>

definition set_version :: "nat \<Rightarrow> u32 \<Rightarrow> u32 \<Rightarrow> memory \<Rightarrow> memory" where
  "set_version p mjr mnr m =
     wr_u32 (p + 12) mnr (wr_u32 (p + 4) mjr (wr_bool (p + 8) True (wr_bool p True m)))"

definition grpc_gcp_rpc_protocol_versions_set_max :: "nat \<Rightarrow> u32 \<Rightarrow> u32 \<Rightarrow> memory \<Rightarrow> bool \<times> memory" where
  "grpc_gcp_rpc_protocol_versions_set_max versions max_major max_minor m =
     (if versions = 0 then (False, m)
      else (True, set_version (versions + 4) max_major max_minor (wr_bool versions True m)))"

definition grpc_gcp_rpc_protocol_versions_set_min :: "nat \<Rightarrow> u32 \<Rightarrow> u32 \<Rightarrow> memory \<Rightarrow> bool \<times> memory" where
  "grpc_gcp_rpc_protocol_versions_set_min versions min_major min_minor m =
     (if versions = 0 then (False, m)
      else (True, set_version (versions + 24) min_major min_minor (wr_bool (versions + 20) True m)))"

text \<open>The messages have no callbacks and no extensions; \<open>n\<close> is the fuel of nanopb.\<close>

definition versions_enc :: "memory \<Rightarrow> unit enc_env" where
  "versions_enc m = grpc_env m versions_tables (\<lambda>_. [])"

definition grpc_gcp_rpc_protocol_versions_encode_length :: "nat \<Rightarrow> nat \<Rightarrow> memory \<Rightarrow> nat option" where
  "grpc_gcp_rpc_protocol_versions_encode_length n versions m =
     (if versions = 0 then Some 0
      else map_option (\<lambda>(ok, s). if ok then bytes_written s else 0)
        (pb_encode n (versions_enc m) (pb_ostream_sizing ()) 2 versions))"

text \<open>The bytes are what has been written to the buffer; a null buffer is one of length 0.\<close>

definition grpc_gcp_rpc_protocol_versions_encode_to_raw_bytes :: "nat \<Rightarrow> nat \<Rightarrow> nat \<Rightarrow> memory \<Rightarrow>
    (bool \<times> bytes) option" where
  "grpc_gcp_rpc_protocol_versions_encode_to_raw_bytes n versions bytes_length m =
     (if versions = 0 \<or> bytes_length = 0 then Some (False, [])
      else map_option (\<lambda>(ok, s). (ok, o_buf s))
        (pb_encode n (versions_enc m) (pb_ostream_from_buffer bytes_length) 2 versions))"

definition grpc_gcp_rpc_protocol_versions_encode :: "nat \<Rightarrow> nat \<Rightarrow> bool \<Rightarrow> memory \<Rightarrow> (bool \<times> bytes) option" where
  "grpc_gcp_rpc_protocol_versions_encode n versions has_slice m =
     (if versions = 0 \<or> \<not> has_slice then Some (False, [])
      else
        case grpc_gcp_rpc_protocol_versions_encode_length n versions m of
          None \<Rightarrow> None
        | Some encoded_length \<Rightarrow>
            if encoded_length = 0 then Some (False, [])
            else grpc_gcp_rpc_protocol_versions_encode_to_raw_bytes n versions encoded_length m)"

text \<open>
  These messages have no pointers either, so the decoder never calls the allocator; \<open>locals\<close> is where its
  local variables lie.
\<close>

definition versions_dec :: "(nat \<Rightarrow> nat) \<Rightarrow> (unit, 'h) dec_env" where
  "versions_dec locals =
     \<lparr>de_fields = versions_tables, de_ext = (\<lambda>_. \<lparr>x_decode = 0, x_encode = 0, x_arg = 0\<rparr>),
      de_realloc = (\<lambda>_ _ m h. (0, m, h)), de_free = (\<lambda>_ m h. (m, h)),
      de_field_cb = (\<lambda>_ _ _ s. (False, s)), de_ext_cb = (\<lambda>_ _ _ _ s. (False, s)), de_local = locals\<rparr>"

definition grpc_gcp_rpc_protocol_versions_decode :: "nat \<Rightarrow> (nat \<Rightarrow> nat) \<Rightarrow> bytes \<Rightarrow> nat \<Rightarrow> memory \<Rightarrow> 'h \<Rightarrow>
    (bool \<times> memory \<times> 'h) option" where
  "grpc_gcp_rpc_protocol_versions_decode n locals bs versions m h =
     (if versions = 0 then Some (False, m, h)
      else map_option (\<lambda>(ok, s). (ok, ds_mem s, ds_heap s))
        (pb_decode n (versions_dec locals) 2 versions
           \<lparr>ds_in = pb_istream_from_buffer bs (length bs), ds_mem = m, ds_heap = h\<rparr>))"

definition grpc_gcp_rpc_protocol_versions_copy :: "nat \<Rightarrow> nat \<Rightarrow> memory \<Rightarrow> bool \<times> memory" where
  "grpc_gcp_rpc_protocol_versions_copy src dst m =
     (if src = 0 \<and> dst \<noteq> 0 \<or> src \<noteq> 0 \<and> dst = 0 then (False, m)
      else if src = 0 then (True, m)
      else
        let m = snd (grpc_gcp_rpc_protocol_versions_set_max dst (rd_u32 m (src + 8)) (rd_u32 m (src + 16)) m);
            m = snd (grpc_gcp_rpc_protocol_versions_set_min dst (rd_u32 m (src + 28)) (rd_u32 m (src + 36)) m)
        in (True, m))"

definition grpc_gcp_rpc_protocol_version_compare :: "rpc_version \<Rightarrow> rpc_version \<Rightarrow> int" where
  "grpc_gcp_rpc_protocol_version_compare v1 v2 =
     (if major v1 > major v2 \<or> major v1 = major v2 \<and> minor v1 > minor v2 then 1
      else if major v1 < major v2 \<or> major v1 = major v2 \<and> minor v1 < minor v2 then - 1
      else 0)"

definition grpc_gcp_rpc_protocol_versions_check :: "nat \<Rightarrow> nat \<Rightarrow> nat \<Rightarrow> memory \<Rightarrow> bool \<times> memory" where
  "grpc_gcp_rpc_protocol_versions_check local_versions peer_versions highest_common_version m =
     (if local_versions = 0 \<or> peer_versions = 0 then (False, m)
      else
        let cmp = (\<lambda>p q. grpc_gcp_rpc_protocol_version_compare (load_version m p) (load_version m q));
            max_common = (if cmp (local_versions + 4) (peer_versions + 4) > 0 then peer_versions + 4
                          else local_versions + 4);
            min_common = (if cmp (local_versions + 24) (peer_versions + 24) > 0 then local_versions + 24
                          else peer_versions + 24);
            result = (cmp max_common min_common \<ge> 0)
        in (result,
            if result \<and> highest_common_version \<noteq> 0
            then wr_bytes m highest_common_version (rd_bytes m max_common 16) else m))"


section \<open>The descriptors keep the contract\<close>

definition versions_size :: "nat \<Rightarrow> nat" where "versions_size a = (if a = 1 then 16 else if a = 2 then 40 else 0)"
definition versions_rank :: "nat \<Rightarrow> nat" where "versions_rank a = (if a = 2 then 1 else 0)"

lemma versions_fields:
  "versions_tables 1 = [PB_OPTIONAL_STATIC 1 4 (- 4) 4 PB_LTYPE_UVARINT 0, PB_OPTIONAL_STATIC 2 4 (- 4) 4 PB_LTYPE_UVARINT 0]"
  "versions_tables 2 =
     [PB_OPTIONAL_STATIC 1 4 (- 4) 16 PB_LTYPE_SUBMESSAGE 1, PB_OPTIONAL_STATIC 2 4 (- 4) 16 PB_LTYPE_SUBMESSAGE 1]"
  "a \<noteq> 1 \<Longrightarrow> a \<noteq> 2 \<Longrightarrow> versions_tables a = []"
  by (simp_all add: versions_tables_def grpc_gcp_RpcProtocolVersions_Version_fields_def
      grpc_gcp_RpcProtocolVersions_fields_def)

lemma optional_static [simp]:
  "f_tag (PB_OPTIONAL_STATIC t fd delta ms l ptr) = t" "f_data_offset (PB_OPTIONAL_STATIC t fd delta ms l ptr) = fd"
  "f_size_offset (PB_OPTIONAL_STATIC t fd delta ms l ptr) = delta"
  "f_data_size (PB_OPTIONAL_STATIC t fd delta ms l ptr) = ms" "f_ptr (PB_OPTIONAL_STATIC t fd delta ms l ptr) = ptr"
  by (simp_all add: PB_OPTIONAL_STATIC_def)

lemma optional_types [simp]:
  "PB_ATYPE (f_type (PB_OPTIONAL_STATIC t fd delta ms PB_LTYPE_UVARINT ptr)) = PB_ATYPE_STATIC"
  "PB_HTYPE (f_type (PB_OPTIONAL_STATIC t fd delta ms PB_LTYPE_UVARINT ptr)) = PB_HTYPE_OPTIONAL"
  "PB_LTYPE (f_type (PB_OPTIONAL_STATIC t fd delta ms PB_LTYPE_UVARINT ptr)) = PB_LTYPE_UVARINT"
  "PB_ATYPE (f_type (PB_OPTIONAL_STATIC t fd delta ms PB_LTYPE_SUBMESSAGE ptr)) = PB_ATYPE_STATIC"
  "PB_HTYPE (f_type (PB_OPTIONAL_STATIC t fd delta ms PB_LTYPE_SUBMESSAGE ptr)) = PB_HTYPE_OPTIONAL"
  "PB_LTYPE (f_type (PB_OPTIONAL_STATIC t fd delta ms PB_LTYPE_SUBMESSAGE ptr)) = PB_LTYPE_SUBMESSAGE"
  by (simp_all add: PB_OPTIONAL_STATIC_def PB_ATYPE_def PB_HTYPE_def PB_LTYPE_def)

lemma take_bit_num_one: "take_bit_num 1 Num.One = Some Num.One"
  by simp

lemmas versions_simps =
  take_bit_num_one nfields_def field_at_def continues_union_def field_space_def versions_size_def versions_rank_def PB_LAST_FIELD_def

lemma versions_nfields: "nfields (versions_tables 1) = 2" "nfields (versions_tables 2) = 2"
  "versions_tables a = [] \<Longrightarrow> nfields (versions_tables a) = 0"
  by (simp_all add: versions_fields versions_simps del: One_nat_def)

lemma versions_cases:
  assumes "k < nfields (versions_tables fds)"
  obtains "fds = 1" "k = 0" | "fds = 1" "k = Suc 0" | "fds = 2" "k = 0" | "fds = 2" "k = Suc 0"
proof -
  have "fds = 1 \<or> fds = 2 \<or> versions_tables fds = []" using versions_fields(3) by blast
  with assms versions_nfields have "(fds = 1 \<or> fds = 2) \<and> k < 2" by (metis not_less_zero)
  then show ?thesis using that by (auto simp: less_2_cases_iff)
qed

lemma versions_field_ok:
  "field_ok versions_tables versions_size versions_rank 1 0"
  "field_ok versions_tables versions_size versions_rank 1 (Suc 0)"
  "field_ok versions_tables versions_size versions_rank 2 0"
  "field_ok versions_tables versions_size versions_rank 2 (Suc 0)"
  by (simp_all add: field_ok_def value_fits_def wire_of_ltype_def cell_ok_def size_cell_def versions_fields
      versions_simps Let_def del: One_nat_def)

lemma versions_static: "static_tables versions_tables versions_size versions_rank"
  unfolding static_tables_def
proof (intro allI conjI impI)
  fix fds k
  have "fds = 1 \<or> fds = 2 \<or> versions_tables fds = []" using versions_fields(3) by blast
  then show "nfields (versions_tables fds) = length (versions_tables fds)"
    by (elim disjE) (simp_all add: versions_fields versions_simps del: One_nat_def)
  assume "k < nfields (versions_tables fds)"
  then show "field_ok versions_tables versions_size versions_rank fds k"
    by (rule versions_cases) (simp_all add: versions_field_ok del: One_nat_def)
qed

lemma versions_offsets:
  "field_offset (versions_tables 1) 0 = 4" "field_offset (versions_tables 1) (Suc 0) = 12"
  "field_offset (versions_tables 2) 0 = 4" "field_offset (versions_tables 2) (Suc 0) = 24"
  by (simp_all add: versions_fields versions_simps del: One_nat_def)

lemma versions_nth:
  "versions_tables 1 ! 0 = PB_OPTIONAL_STATIC 1 4 (- 4) 4 PB_LTYPE_UVARINT 0"
  "versions_tables 1 ! Suc 0 = PB_OPTIONAL_STATIC 2 4 (- 4) 4 PB_LTYPE_UVARINT 0"
  "versions_tables 2 ! 0 = PB_OPTIONAL_STATIC 1 4 (- 4) 16 PB_LTYPE_SUBMESSAGE 1"
  "versions_tables 2 ! Suc 0 = PB_OPTIONAL_STATIC 2 4 (- 4) 16 PB_LTYPE_SUBMESSAGE 1"
  by (simp_all add: versions_fields del: One_nat_def)

lemma versions_simple: "simple_tables versions_tables"
  unfolding simple_tables_def
proof (intro allI conjI impI)
  fix fds k j p
  have "fds = 1 \<or> fds = 2 \<or> versions_tables fds = []" using versions_fields(3) by blast
  then show "distinct (map f_tag (versions_tables fds))"
    by (elim disjE) (simp_all add: versions_fields versions_simps del: One_nat_def)
  assume k: "k < nfields (versions_tables fds)"
  then show "simple_field (versions_tables fds ! k)"
    by (rule versions_cases) (simp_all add: versions_nth simple_field_def versions_simps del: One_nat_def)
  assume j: "j < k"
  from k show "cells (versions_tables fds) p j \<inter> cells (versions_tables fds) p k = {}"
    by (rule versions_cases)
       (use j in \<open>auto simp: cells_def field_at_nth versions_nfields versions_nth versions_offsets flag_cell_def
          ptr_plus_def Let_def simp del: One_nat_def field_offset.simps\<close>)
qed

interpretation versions: simple_messages "versions_dec locals :: (unit, 'h) dec_env" versions_size versions_rank "{}"
  by unfold_locales (simp_all add: versions_dec_def versions_static versions_simple callback_ok_def)

section \<open>What is exchanged\<close>

definition version_known :: "rpc_version \<Rightarrow> u32 option \<times> u32 option" where
  "version_known v = (if has_major v then Some (major v) else None, if has_minor v then Some (minor v) else None)"

definition versions_known :: "rpc_versions \<Rightarrow> (u32 option \<times> u32 option) option \<times> (u32 option \<times> u32 option) option" where
  "versions_known v =
     (if has_max_rpc_version v then Some (version_known (max_rpc_version v)) else None,
      if has_min_rpc_version v then Some (version_known (min_rpc_version v)) else None)"

lemma ptr_back [simp]: "ptr_plus (p + 4) (- 4) = p" "ptr_plus (p + 12) (- 4) = p + 8" "ptr_plus (p + 24) (- 4) = p + 20"
  by (simp_all add: ptr_plus_def)

lemma version_value:
  "message_value (Suc n) versions_tables m 1 p =
    [if rd_bool m p then Some (Scalar (rd_bytes m (p + 4) 4)) else None,
     if rd_bool m (p + 8) then Some (Scalar (rd_bytes m (p + 12) 4)) else None]"
  by (simp add: versions_nfields versions_offsets field_at_nth versions_nth upt_rec has_flag_def plain_value_def
      del: One_nat_def field_offset.simps)

lemma versions_value:
  "message_value (Suc (Suc n)) versions_tables m 2 p =
    [if rd_bool m p then Some (Message (message_value (Suc n) versions_tables m 1 (p + 4))) else None,
     if rd_bool m (p + 20) then Some (Message (message_value (Suc n) versions_tables m 1 (p + 24))) else None]"
  by (subst message_value.simps)
     (simp add: versions_nfields versions_offsets field_at_nth versions_nth upt_rec has_flag_def plain_value_def
      del: One_nat_def field_offset.simps message_value.simps)

lemma rd_u32_bytes: "rd_bytes m p 4 = rd_bytes m' q 4 \<Longrightarrow> rd_u32 m p = rd_u32 m' q"
  by (simp add: rd_u32_def)

lemma version_known_value:
  "message_value (Suc n) versions_tables m 1 p = message_value (Suc n) versions_tables m' 1 q \<Longrightarrow>
    version_known (load_version m p) = version_known (load_version m' q)"
  unfolding version_value by (auto simp: version_known_def load_version_def dest: rd_u32_bytes split: if_splits)

lemma versions_known_value:
  "message_value (Suc (Suc n)) versions_tables m 2 p = message_value (Suc (Suc n)) versions_tables m' 2 q \<Longrightarrow>
    versions_known (load_versions m p) = versions_known (load_versions m' q)"
  unfolding versions_value
  by (auto simp: versions_known_def load_versions_def simp del: message_value.simps One_nat_def
      dest: version_known_value split: if_splits)

text \<open>The encoding.\<close>

definition version_bytes :: "rpc_version \<Rightarrow> bytes" where
  "version_bytes v = (if has_major v then 8 # varint (ucast (major v)) else []) @
     (if has_minor v then 16 # varint (ucast (minor v)) else [])"

definition versions_bytes :: "rpc_versions \<Rightarrow> bytes" where
  "versions_bytes v = (if has_max_rpc_version v then 10 # string_bytes (version_bytes (max_rpc_version v)) else []) @
     (if has_min_rpc_version v then 18 # string_bytes (version_bytes (min_rpc_version v)) else [])"

lemma varint_u32: "length (varint (ucast (w :: u32))) \<le> 5"
proof (rule varint_length_bound)
  have "unat (ucast w :: u64) = unat w" 
    using unat_u32_less [of w] by (simp add: unsigned_ucast_eq take_bit_nat_eq_self)
  then show "unat (ucast w :: u64) < 2 ^ (7 * 5)" using unat_u32_less [of w] by simp
qed simp

lemma version_tags:
  "varint (tag_word PB_WT_VARINT 1) = [8]" "varint (tag_word PB_WT_VARINT 2) = [16]"
  "varint (tag_word PB_WT_STRING 1) = [10]" "varint (tag_word PB_WT_STRING 2) = [18]"
  by (simp_all add: tag_word_def varint_one)

lemma version_bytes_length: "length (version_bytes v) \<le> 12"
  using varint_u32 [of "major v"] varint_u32 [of "minor v"] by (simp add: version_bytes_def)

lemma string_bytes_small: "length bs \<le> 12 \<Longrightarrow> length (string_bytes bs) \<le> 13"
  using varint_length_bound [of "of_nat (length bs)" 1] by (simp add: string_bytes_def unat_of_nat)

lemma versions_bytes_length: "length (versions_bytes v) \<le> 28"
  using string_bytes_small [OF version_bytes_length, of "max_rpc_version v"]
    string_bytes_small [OF version_bytes_length, of "min_rpc_version v"]
  by (simp add: versions_bytes_def)

lemma version_out:
  "message_out (Suc n) (versions_enc m) cb xcb 1 p = gives (version_bytes (load_version m p))"
  by (simp add: versions_enc_def grpc_env_def versions_nfields versions_offsets field_at_nth versions_nth upt_rec
      field_out_def basic_field_out_def tag_out_def wire_of_ltype_def version_tags value_out_def unsigned_value_def
      version_bytes_def load_version_def Let_def take_bit_num_one del: One_nat_def field_offset.simps)

lemma versions_out:
  "message_out (Suc (Suc n)) (versions_enc m) cb xcb 2 p = gives (versions_bytes (load_versions m p))"
  using version_bytes_length [of "load_version m (p + 4)"] version_bytes_length [of "load_version m (p + 24)"]
    version_out [of n m cb xcb "p + 4"] version_out [of n m cb xcb "p + 24"]
  by (subst message_out.simps)
     (simp add: versions_enc_def grpc_env_def versions_nfields versions_offsets field_at_nth versions_nth upt_rec
      field_out_def basic_field_out_def tag_out_def wire_of_ltype_def version_tags value_out_def sized_def
      versions_bytes_def load_versions_def Let_def take_bit_num_one del: One_nat_def field_offset.simps message_out.simps)

lemma versions_terminated: "terminated n versions_tables m fds p"
proof (induction n arbitrary: fds p)
  case (Suc n)
  have "PB_LTYPE (f_type (versions_tables fds ! k)) \<noteq> PB_LTYPE_STRING" if "k < nfields (versions_tables fds)" for k
    using that by (rule versions_cases) (simp_all add: versions_nth del: One_nat_def)
  with Suc show ?case by (simp add: Let_def)
qed simp

lemmas versions_writes =
  message_callbacks.writes_message [OF grpc.message_callbacks_axioms
      [where d = versions_tables and contents = "\<lambda>_. []"]]

text \<open>An encoder on a buffer that is large enough.\<close>

lemma writes_buffer:
  assumes "writes g (gives bs)" and "length bs \<le> n" and "n < 2 ^ 63"
  shows "\<exists>t. g (pb_ostream_from_buffer n) = Some (True, t) \<and> o_buf t = bs"
proof -
  have "lib_stream (pb_ostream_from_buffer n)" "room (pb_ostream_from_buffer n) (length bs)"
    using assms(2,3) by (simp_all add: lib_stream_def room_def pb_ostream_from_buffer_def)
  moreover have "o_buf (put (pb_ostream_from_buffer n) bs) = bs" by (simp add: put_def pb_ostream_from_buffer_def)
  ultimately show ?thesis using assms(1) unfolding writes_gives by blast
qed

lemma versions_encoded:
  assumes "src \<noteq> 0" and "2 \<le> n"
  shows "grpc_gcp_rpc_protocol_versions_encode n src True m =
    Some (versions_bytes (load_versions m src) \<noteq> [], versions_bytes (load_versions m src))"
proof -
  let ?bs = "versions_bytes (load_versions m src)"
  obtain k where n: "n = Suc (Suc k)" using assms(2) by (metis add_2_eq_Suc le_Suc_ex)
  have "writes (\<lambda>s. pb_encode n (versions_enc m) s 2 src)
      (message_out n (versions_enc m) (slice_out m (\<lambda>_. [])) (\<lambda>_ _. gives []) 2 src)"
    unfolding versions_enc_def by (rule versions_writes)
  then have w: "writes (\<lambda>s. pb_encode n (versions_enc m) s 2 src) (gives ?bs)" unfolding n versions_out .
  have l: "length ?bs \<le> 28" by (rule versions_bytes_length)
  have len: "grpc_gcp_rpc_protocol_versions_encode_length n src m = Some (length ?bs)"
    using writes_sizing [OF w, of "()"] assms(1) l by (auto simp: grpc_gcp_rpc_protocol_versions_encode_length_def)
  show ?thesis
  proof (cases "?bs = []")
    case True
    with assms(1) len show ?thesis by (simp add: grpc_gcp_rpc_protocol_versions_encode_def)
  next
    case False
    from writes_buffer [OF w order.refl] l obtain t where
      "pb_encode n (versions_enc m) (pb_ostream_from_buffer (length ?bs)) 2 src = Some (True, t)" "o_buf t = ?bs" by auto
    with assms(1) len False show ?thesis
      by (simp add: grpc_gcp_rpc_protocol_versions_encode_def grpc_gcp_rpc_protocol_versions_encode_to_raw_bytes_def)
  qed
qed

section \<open>Copies and comparison\<close>

lemma load_version_cong: "(\<And>i. i < 16 \<Longrightarrow> m (p + i) = m' (q + i)) \<Longrightarrow> load_version m p = load_version m' q"
  using rd_bytes_cong [of 4 m "p + 4" m' "q + 4"] rd_bytes_cong [of 4 m "p + 12" m' "q + 12"]
  by (simp add: load_version_def rd_bool_def rd_u32_def add.assoc) (metis add_0_right zero_less_numeral numeral_less_iff semiring_norm(68,76,78,79))

lemma load_version_copied: "load_version (wr_bytes m q (rd_bytes m p 16)) q = load_version m p"
  by (rule load_version_cong) (simp add: wr_bytes_app nth_rd_bytes)

text \<open>The order of versions, and the range of versions one end supports.\<close>

definition version_le :: "rpc_version \<Rightarrow> rpc_version \<Rightarrow> bool" where
  "version_le v w \<longleftrightarrow> major v < major w \<or> major v = major w \<and> minor v \<le> minor w"

definition supports :: "rpc_versions \<Rightarrow> rpc_version \<Rightarrow> bool" where
  "supports vs v \<longleftrightarrow> version_le (min_rpc_version vs) v \<and> version_le v (max_rpc_version vs)"

lemma version_le_trans: "version_le u v \<Longrightarrow> version_le v w \<Longrightarrow> version_le u w"
  by (auto simp: version_le_def)

lemma version_le_refl [simp]: "version_le v v"
  by (simp add: version_le_def)

lemma compare_le:
  "0 < grpc_gcp_rpc_protocol_version_compare v w \<longleftrightarrow> \<not> version_le v w"
  "0 \<le> grpc_gcp_rpc_protocol_version_compare v w \<longleftrightarrow> version_le w v"
  by (auto simp: grpc_gcp_rpc_protocol_version_compare_def version_le_def)

lemma not_version_le: "\<not> version_le v w \<Longrightarrow> version_le w v"
  by (auto simp: version_le_def)

lemma if_not_else: "(if \<not> P then x else y) = (if P then y else x)"
  by simp

lemma rd_written:
  "rd_u32 (wr_u32 p v m) p = v"
  "p + 4 \<le> q \<or> q + 4 \<le> p \<Longrightarrow> rd_u32 (wr_u32 p v m) q = rd_u32 m q"
  "p < q \<or> q + 4 \<le> p \<Longrightarrow> rd_u32 (wr_bool p b m) q = rd_u32 m q"
  "rd_bool (wr_bool p b m) p = b"
  "p \<noteq> q \<Longrightarrow> rd_bool (wr_bool p b m) q = rd_bool m q"
  "p + 4 \<le> q \<or> q < p \<Longrightarrow> rd_bool (wr_u32 p v m) q = rd_bool m q"
  using rd_wr_same [of m p "le_bytes 4 v"]
  by (auto simp: rd_u32_def rd_bool_def wr_u32_def wr_bool_def wr_bytes_app rd_wr_other le_word_bytes simp del: wr_bytes.simps)

lemma versions_set:
  assumes "versions \<noteq> 0"
  shows "\<exists>m'. grpc_gcp_rpc_protocol_versions_set_max versions mjr mnr m = (True, m') \<and>
      load_versions m' versions = (load_versions m versions)\<lparr>has_max_rpc_version := True,
        max_rpc_version := \<lparr>has_major = True, major = mjr, has_minor = True, minor = mnr\<rparr>\<rparr>"
    and "\<exists>m'. grpc_gcp_rpc_protocol_versions_set_min versions mjr mnr m = (True, m') \<and>
      load_versions m' versions = (load_versions m versions)\<lparr>has_min_rpc_version := True,
        min_rpc_version := \<lparr>has_major = True, major = mjr, has_minor = True, minor = mnr\<rparr>\<rparr>"
  using assms
  by (simp_all add: grpc_gcp_rpc_protocol_versions_set_max_def grpc_gcp_rpc_protocol_versions_set_min_def
      set_version_def load_versions_def load_version_def rd_written)

text \<open>A copy flags everything as present, whatever the source has.\<close>

lemma versions_copied:
  assumes "src \<noteq> 0" and "dst \<noteq> 0" and "src + 40 \<le> dst \<or> dst + 40 \<le> src"
  shows "\<exists>m'. grpc_gcp_rpc_protocol_versions_copy src dst m = (True, m') \<and>
    load_versions m' dst =
      \<lparr>has_max_rpc_version = True,
       max_rpc_version = (max_rpc_version (load_versions m src))\<lparr>has_major := True, has_minor := True\<rparr>,
       has_min_rpc_version = True,
       min_rpc_version = (min_rpc_version (load_versions m src))\<lparr>has_major := True, has_minor := True\<rparr>\<rparr>"
  using assms(1,2,3)
  by (auto simp: grpc_gcp_rpc_protocol_versions_copy_def grpc_gcp_rpc_protocol_versions_set_max_def Let_def
      grpc_gcp_rpc_protocol_versions_set_min_def set_version_def load_versions_def load_version_def rd_written)
     (simp_all add: add.commute)

text \<open>Length 0 stands for failure, so versions of which neither is set cannot be encoded.\<close>

lemma empty_versions_not_encoded:
  assumes "\<not> has_max_rpc_version (load_versions m src)" and "\<not> has_min_rpc_version (load_versions m src)" and "2 \<le> n"
  shows "\<exists>bs. grpc_gcp_rpc_protocol_versions_encode n src True m = Some (False, bs)"
proof (cases "src = 0")
  case False
  with assms versions_encoded [of src n m] show ?thesis by (simp add: versions_bytes_def)
qed (simp add: grpc_gcp_rpc_protocol_versions_encode_def)

text \<open>Decoding the encoding.\<close>

lemma versions_decoded:
  fixes h :: 'h and locals :: "nat \<Rightarrow> nat" and m m' :: memory and src :: nat and bs :: bytes
  defines "bs \<equiv> versions_bytes (load_versions m src)" and "D \<equiv> versions_dec locals :: (unit, 'h) dec_env"
  defines "s \<equiv> \<lparr>ds_in = pb_istream_from_buffer bs (length bs), ds_mem = m', ds_heap = h\<rparr>"
  assumes "src \<noteq> 0" and "2 \<le> n" and "31 \<le> N" and "\<And>i. locals i + 4 \<le> dest \<or> dest + 40 \<le> locals i"
  shows "\<exists>m''. pb_decode N D 2 dest s = Some (True, stepped s (length bs) m'') \<and>
    message_value n versions_tables m'' 2 dest = message_value n versions_tables m 2 src \<and>
    (\<forall>a. a \<notin> {dest..<dest + 40} \<and> (\<forall>i. a \<notin> {locals i..<locals i + 4}) \<longrightarrow> m'' a = m' a)"
proof -
  obtain k where n: "n = Suc (Suc k)" using assms(5) by (metis add_2_eq_Suc le_Suc_ex)
  let ?own = "static_decoder.own D {}"
  have own: "?own = (\<Union>i. {locals i..<locals i + 4})"
    using static_decoder.own_def [OF versions.static_decoder_axioms, of locals] by (simp add: D_def versions_dec_def)
  have apart: "{locals i..<locals i + 4} \<inter> {dest..<dest + 40} = {}" for i using assms(7) [of i] by auto
  have l: "length bs \<le> 28" unfolding bs_def by (rule versions_bytes_length)
  have "reads_back (pb_decode N D 2 dest) bs (struct_at versions_size 2 dest \<union> ?own)
      (\<lambda>m'. message_value n (de_fields D) m' 2 dest =
        message_value n (de_fields D) (en_mem (versions_enc m :: unit enc_env)) 2 src) s"
    unfolding D_def
  proof (rule versions.decode_back)
    show "message_out n (versions_enc m) (\<lambda>_ _ _. None) (\<lambda>_ _. None) 2 src = gives bs"
      unfolding n bs_def by (rule versions_out)
    have "struct_at versions_size 2 dest = {dest..<dest + 40}" by (simp add: struct_at_def versions_size_def)
    with apart show "static_decoder.own (versions_dec locals :: (unit, 'h) dec_env) {} \<inter> struct_at versions_size 2 dest = {}"
      unfolding own [unfolded D_def] by blast
    show "length bs + versions_rank 2 + 1 < N" using l assms(6) by (simp add: versions_rank_def)
  qed (use assms(4) l in \<open>simp_all add: versions_terminated versions_dec_def versions_enc_def grpc_env_def
      starts_whole s_def\<close>)
  then obtain m'' where r: "pb_decode N D 2 dest s = Some (True, stepped s (length bs) m'')"
    and v: "message_value n versions_tables m'' 2 dest = message_value n versions_tables m 2 src"
    and o: "same_outside (struct_at versions_size 2 dest \<union> ?own) (ds_mem s) m''"
    by (auto simp: reads_back_def D_def versions_dec_def versions_enc_def grpc_env_def)
  from o have "\<forall>a. a \<notin> {dest..<dest + 40} \<and> (\<forall>i. a \<notin> {locals i..<locals i + 4}) \<longrightarrow> m'' a = m' a"
    by (auto simp: same_outside_def own struct_at_def versions_size_def s_def)
  with r v show ?thesis by blast
qed

section \<open>Properties\<close>

text \<open>C11: Decoding gives back what was encoded. For messages of optional and proto3 singular fields, with
  nested messages, strings and byte arrays, whose fields do not overlap: if \<open>pb_encode\<close> succeeds on a message
  whose strings are terminated, then \<open>pb_decode\<close> of the bytes succeeds, reads them all, leaves a structure with
  the same value (a field that is flagged as absent has none), and touches no other memory.\<close>

theorem message_roundtrip:
  assumes "simple_messages D sz rank W" and "message_callbacks E cb xcb" and "en_fields E = de_fields D"
    and "pb_encode n E (pb_ostream_from_buffer bufsz) fds src = Some (True, out)"
    and "message_out n E cb xcb fds src \<noteq> None" and "terminated n (en_fields E) (en_mem E) fds src" and "src \<noteq> 0"
    and "bufsz < 2 ^ 32" and "bufsz + rank fds + 1 < N"
    and "\<And>a. a \<in> {dest..<dest + sz fds} \<Longrightarrow> a \<notin> W \<and> (\<forall>i. a \<notin> {de_local D i..<de_local D i + 4})"
    and "ds_in s = pb_istream_from_buffer (o_buf out) (length (o_buf out))"
  shows "\<exists>t. pb_decode N D fds dest s = Some (True, t) \<and> bytes_left (ds_in t) = 0 \<and> ds_heap t = ds_heap s \<and>
    message_value n (de_fields D) (ds_mem t) fds dest = message_value n (en_fields E) (en_mem E) fds src \<and>
    (\<forall>a. a \<notin> {dest..<dest + sz fds} \<and> a \<notin> W \<and> (\<forall>i. a \<notin> {de_local D i..<de_local D i + 4}) \<longrightarrow>
      ds_mem t a = ds_mem s a)"
proof -
  have st: "static_decoder D sz rank W" using assms(1) by (simp add: simple_messages_def)
  let ?own = "static_decoder.own D W"
  have own: "?own = W \<union> (\<Union>i. {de_local D i..<de_local D i + 4})" by (rule static_decoder.own_def [OF st])
  note w = message_callbacks.writes_message [OF assms(2), of n fds src]
  have lib: "lib_stream (pb_ostream_from_buffer bufsz)"
    using assms(8) by (simp add: lib_stream_def pb_ostream_from_buffer_def)
  obtain bs where bs: "message_out n E cb xcb fds src = gives bs" and out: "o_buf out = bs" and le: "length bs \<le> bufsz"
  proof (cases "message_out n E cb xcb fds src")
    case (Some r)
    show ?thesis
    proof (cases r)
      case None
      with Some w lib assms(4) show ?thesis by (auto simp: writes_fails)
    next
      case (Some bs)
      with \<open>message_out n E cb xcb fds src = Some r\<close> w have g: "writes (\<lambda>s. pb_encode n E s fds src) (gives bs)" by simp
      have r: "room (pb_ostream_from_buffer bufsz) (length bs)"
        using g lib assms(4) unfolding writes_gives by fastforce
      then have "length bs \<le> bufsz" by (simp add: room_def pb_ostream_from_buffer_def)
      moreover have "o_buf out = bs"
        using writes_buffer [OF g \<open>length bs \<le> bufsz\<close>] assms(4,8) by auto
      ultimately show ?thesis using that Some \<open>message_out n E cb xcb fds src = Some r\<close> by simp
    qed
  qed (use assms(5) in simp)
  have "reads_back (pb_decode N D fds dest) bs (struct_at sz fds dest \<union> ?own)
      (\<lambda>m'. message_value n (de_fields D) m' fds dest = message_value n (de_fields D) (en_mem E) fds src) s"
  proof (rule simple_messages.decode_back [OF assms(1) _ bs assms(3)])
    show "?own \<inter> struct_at sz fds dest = {}" using assms(10) unfolding own struct_at_def by blast
    show "starts (ds_in s) bs" "bytes_left (ds_in s) = length bs" using assms(11) out by (simp_all add: starts_whole)
  qed (use assms(3,6-9) le in simp_all)
  then obtain m' where "pb_decode N D fds dest s = Some (True, stepped s (length bs) m')"
    "message_value n (de_fields D) m' fds dest = message_value n (de_fields D) (en_mem E) fds src"
    "same_outside (struct_at sz fds dest \<union> ?own) (ds_mem s) m'" by (auto simp: reads_back_def)
  with assms(3,11) out show ?thesis
    by (intro exI [of _ "stepped s (length bs) m'"]) (auto simp: same_outside_def own struct_at_def)
qed

text \<open>C12: Messages of optional and singular static fields (\<open>simple_messages\<close>: scalars, strings, byte arrays and submessages of
  the same kind; no required, repeated, oneof, pointer, callback or extension fields, tables consistent with the sizes of
  the structures). On a buffer stream with any bytes in it and with enough fuel, a decode into a structure apart from the
  decoder's own variables that succeeds leaves a well-typed message: every flag is true or false, every string that is
  present ends within its array, every byte array that is present fits its buffer, and so do those of the submessages, to
  any depth.\<close>

theorem decoded_well_typed:
  assumes "simple_messages D sz rank W" and "i_callback (ds_in s) = Buf_read"
    and "bytes_left (ds_in s) + rank fds + 1 < N"
    and "\<And>a. a \<in> {dest..<dest + sz fds} \<Longrightarrow> a \<notin> W \<and> (\<forall>i. a \<notin> {de_local D i..<de_local D i + 4})"
    and "pb_decode N D fds dest s = Some (True, t)"
  shows "well_typed n (de_fields D) (ds_mem t) fds dest"
proof -
  have "static_decoder D sz rank W" using assms(1) by (simp add: simple_messages_def)
  from static_decoder.own_def [OF this] assms(4) have "struct_at sz fds dest \<inter> static_decoder.own D W = {}"
    unfolding struct_at_def by blast
  from simple_messages.decode_typed [OF assms(1) this assms(2,3,5)] show ?thesis .
qed

text \<open>C21: Protocol versions are exchanged. Versions of which at least one is set are encoded into a slice of at
  most 28 bytes, the constant of the header; and the peer that decodes the slice holds the same versions:
  the same numbers are present, with the same values, and nothing else in its memory has changed.\<close>

theorem rpc_versions_exchanged:
  fixes h :: 'h
  assumes "src \<noteq> 0" and "dest \<noteq> 0" and "2 \<le> n" and "31 \<le> N"
    and "has_max_rpc_version (load_versions m src) \<or> has_min_rpc_version (load_versions m src)"
    and "\<And>i. locals i + 4 \<le> dest \<or> dest + 40 \<le> locals i"
  shows "\<exists>bs m''. grpc_gcp_rpc_protocol_versions_encode n src True m = Some (True, bs) \<and> length bs \<le> 28 \<and>
    grpc_gcp_rpc_protocol_versions_decode N locals bs dest m' h = Some (True, m'', h) \<and>
    versions_known (load_versions m'' dest) = versions_known (load_versions m src) \<and>
    (\<forall>a. a \<notin> {dest..<dest + 40} \<and> (\<forall>i. a \<notin> {locals i..<locals i + 4}) \<longrightarrow> m'' a = m' a)"
proof -
  let ?bs = "versions_bytes (load_versions m src)"
  let ?s = "\<lparr>ds_in = pb_istream_from_buffer ?bs (length ?bs), ds_mem = m', ds_heap = h\<rparr>"
  obtain k where n: "n = Suc (Suc k)" using assms(3) by (metis add_2_eq_Suc le_Suc_ex)
  from versions_decoded [where m = m and m' = m' and h = h and locals = locals, OF assms(1,3,4,6)] obtain m'' where
    r: "pb_decode N (versions_dec locals) 2 dest ?s = Some (True, stepped ?s (length ?bs) m'')"
    and v: "message_value n versions_tables m'' 2 dest = message_value n versions_tables m 2 src"
    and o: "\<forall>a. a \<notin> {dest..<dest + 40} \<and> (\<forall>i. a \<notin> {locals i..<locals i + 4}) \<longrightarrow> m'' a = m' a" by blast
  have "?bs \<noteq> []" using assms(5) by (auto simp: versions_bytes_def)
  then have "grpc_gcp_rpc_protocol_versions_encode n src True m = Some (True, ?bs)"
    using versions_encoded [OF assms(1,3)] by simp
  moreover have "grpc_gcp_rpc_protocol_versions_decode N locals ?bs dest m' h = Some (True, m'', h)"
    using r assms(2) by (simp add: grpc_gcp_rpc_protocol_versions_decode_def)
  moreover have "versions_known (load_versions m'' dest) = versions_known (load_versions m src)"
    using v unfolding n by (rule versions_known_value)
  ultimately show ?thesis using o versions_bytes_length by blast
qed

text \<open>C22: The two ends agree on a version exactly if there is one that both support, and the version they agree on
  is then the highest one that both support; otherwise memory is left alone.\<close>

theorem versions_agreed:
  assumes "local \<noteq> 0" and "peer \<noteq> 0"
    and "grpc_gcp_rpc_protocol_versions_check local peer highest m = (ok, m')"
  shows "let L = load_versions m local; P = load_versions m peer; H = load_version m' highest in
    (ok \<longleftrightarrow> (\<exists>v. supports L v \<and> supports P v)) \<and>
    (ok \<and> highest \<noteq> 0 \<longrightarrow> supports L H \<and> supports P H \<and> (\<forall>v. supports L v \<and> supports P v \<longrightarrow> version_le v H)) \<and>
    (\<not> ok \<or> highest = 0 \<longrightarrow> m' = m)"
proof -
  let ?L = "load_versions m local" let ?P = "load_versions m peer"
  define pm where "pm = (if version_le (max_rpc_version ?L) (max_rpc_version ?P) then local + 4 else peer + 4)"
  define pn where "pn = (if version_le (min_rpc_version ?L) (min_rpc_version ?P) then peer + 24 else local + 24)"
  define hi where "hi = load_version m pm"
  define lo where "lo = load_version m pn"
  have hi: "version_le v hi \<longleftrightarrow> version_le v (max_rpc_version ?L) \<and> version_le v (max_rpc_version ?P)" for v
    unfolding hi_def pm_def by (auto simp: load_versions_def dest: version_le_trans not_version_le)
  have lo: "version_le lo v \<longleftrightarrow> version_le (min_rpc_version ?L) v \<and> version_le (min_rpc_version ?P) v" for v
    unfolding lo_def pn_def by (auto simp: load_versions_def dest: version_le_trans not_version_le)
  have both: "supports ?L v \<and> supports ?P v \<longleftrightarrow> version_le lo v \<and> version_le v hi" for v
    unfolding supports_def hi lo by blast
  have "grpc_gcp_rpc_protocol_versions_check local peer highest m =
      (version_le lo hi, if version_le lo hi \<and> highest \<noteq> 0 then wr_bytes m highest (rd_bytes m pm 16) else m)"
    using assms(1,2)
    by (simp add: grpc_gcp_rpc_protocol_versions_check_def compare_le Let_def lo_def hi_def pm_def pn_def
        load_versions_def if_not_else split del: if_split cong: if_cong)
  then have ok: "ok \<longleftrightarrow> version_le lo hi"
    and m': "m' = (if ok \<and> highest \<noteq> 0 then wr_bytes m highest (rd_bytes m pm 16) else m)"
    using assms(3) by auto
  have "load_version m' highest = hi" if "ok" "highest \<noteq> 0"
    using that m' by (simp add: load_version_copied hi_def)
  moreover have "(\<exists>v. version_le lo v \<and> version_le v hi) \<longleftrightarrow> version_le lo hi"
    using version_le_trans version_le_refl by blast
  moreover have "supports ?L hi \<and> supports ?P hi" if "ok" using that unfolding both ok by simp
  ultimately show ?thesis unfolding Let_def both using m' ok both by auto
qed

section \<open>Witnesses\<close>

text \<open>Versions 2.1 to 3.7 at one end (address 4096), 1.9 to 3.2 at the other (address 5000).\<close>

definition demo_versions :: memory where
  "demo_versions =
     snd (grpc_gcp_rpc_protocol_versions_set_min 5000 1 9 (snd (grpc_gcp_rpc_protocol_versions_set_max 5000 3 2
       (snd (grpc_gcp_rpc_protocol_versions_set_min 4096 2 1 (snd (grpc_gcp_rpc_protocol_versions_set_max 4096 3 7
         (\<lambda>_. 0))))))))"

lemma versions_encodes:
  assumes "src \<noteq> 0"
  shows "\<exists>out. pb_encode 2 (versions_enc m) (pb_ostream_from_buffer 28) 2 src = Some (True, out)"
proof -
  have "writes (\<lambda>s. pb_encode 2 (versions_enc m) s 2 src)
      (message_out (Suc (Suc 0)) (versions_enc m) (slice_out m (\<lambda>_. [])) (\<lambda>_ _. gives []) 2 src)"
    unfolding versions_enc_def numeral_2_eq_2 [symmetric] by (rule versions_writes)
  then have "writes (\<lambda>s. pb_encode 2 (versions_enc m) s 2 src) (gives (versions_bytes (load_versions m src)))"
    unfolding versions_out .
  from writes_buffer [OF this versions_bytes_length] show ?thesis by auto
qed

theorem message_roundtrip_witness:
  "\<exists>out t. pb_encode 2 (versions_enc demo_versions) (pb_ostream_from_buffer 28) 2 4096 = Some (True, out) \<and>
    pb_decode 60 (versions_dec (\<lambda>_. 8192) :: (unit, unit) dec_env) 2 64
      \<lparr>ds_in = pb_istream_from_buffer (o_buf out) (length (o_buf out)), ds_mem = demo_versions, ds_heap = ()\<rparr> =
      Some (True, t) \<and>
    message_value 2 versions_tables (ds_mem t) 2 64 = message_value 2 versions_tables demo_versions 2 4096"
proof -
  let ?D = "versions_dec (\<lambda>_. 8192) :: (unit, unit) dec_env" let ?E = "versions_enc demo_versions"
  obtain out where out: "pb_encode 2 ?E (pb_ostream_from_buffer 28) 2 4096 = Some (True, out)"
    using versions_encodes [of 4096] by auto
  let ?s = "\<lparr>ds_in = pb_istream_from_buffer (o_buf out) (length (o_buf out)), ds_mem = demo_versions, ds_heap = ()\<rparr>"
  have "\<exists>t. pb_decode 60 ?D 2 64 ?s = Some (True, t) \<and> bytes_left (ds_in t) = 0 \<and> ds_heap t = ds_heap ?s \<and>
    message_value 2 (de_fields ?D) (ds_mem t) 2 64 = message_value 2 (en_fields ?E) (en_mem ?E) 2 4096 \<and>
    (\<forall>a. a \<notin> {64..<64 + versions_size 2} \<and> a \<notin> {} \<and> (\<forall>i. a \<notin> {de_local ?D i..<de_local ?D i + 4}) \<longrightarrow>
      ds_mem t a = ds_mem ?s a)"
  proof (rule message_roundtrip [OF versions.simple_messages_axioms _ _ out])
    show "message_callbacks ?E (slice_out demo_versions (\<lambda>_. [])) (\<lambda>_ _. gives [])"
      unfolding versions_enc_def by (rule grpc.message_callbacks_axioms)
    show "message_out 2 ?E (slice_out demo_versions (\<lambda>_. [])) (\<lambda>_ _. gives []) 2 4096 \<noteq> None"
      using versions_out [of 0] by (simp add: numeral_2_eq_2 [symmetric] del: message_out.simps)
  qed (simp_all add: versions_enc_def versions_dec_def grpc_env_def versions_terminated versions_rank_def versions_size_def)
  with out show ?thesis by (auto simp: versions_enc_def versions_dec_def grpc_env_def)
qed

theorem decoded_well_typed_witness:
  "\<exists>bs t. bs \<noteq> [] \<and> pb_decode 31 (versions_dec (\<lambda>_. 8192) :: (unit, unit) dec_env) 2 64
      \<lparr>ds_in = pb_istream_from_buffer bs (length bs), ds_mem = (\<lambda>_. 255), ds_heap = ()\<rparr> = Some (True, t) \<and>
    well_typed 2 versions_tables (ds_mem t) 2 64"
proof -
  let ?bs = "versions_bytes (load_versions demo_versions 4096)"
  let ?D = "versions_dec (\<lambda>_. 8192) :: (unit, unit) dec_env"
  let ?s = "\<lparr>ds_in = pb_istream_from_buffer ?bs (length ?bs), ds_mem = (\<lambda>_. 255), ds_heap = ()\<rparr>"
  have "has_max_rpc_version (load_versions demo_versions 4096)" by code_simp
  then have "?bs \<noteq> []" by (simp add: versions_bytes_def)
  moreover obtain t where t: "pb_decode 31 ?D 2 64 ?s = Some (True, t)"
    using versions_decoded [where src = 4096 and n = 2 and N = 31 and locals = "\<lambda>_. 8192" and dest = 64 and
        m = demo_versions and m' = "\<lambda>_. 255" and h = "()"] by auto
  moreover have "well_typed 2 (de_fields ?D) (ds_mem t) 2 64"
  proof (rule decoded_well_typed [OF versions.simple_messages_axioms _ _ _ t])
    show "bytes_left (ds_in ?s) + versions_rank 2 + 1 < 31"
      using versions_bytes_length [of "load_versions demo_versions 4096"]
      by (simp add: pb_istream_from_buffer_def versions_rank_def)
  qed (simp_all add: pb_istream_from_buffer_def versions_dec_def versions_size_def)
  ultimately show ?thesis by (auto simp: versions_dec_def)
qed

theorem rpc_versions_exchanged_witness:
  "\<exists>bs m. grpc_gcp_rpc_protocol_versions_encode 2 4096 True demo_versions = Some (True, bs) \<and>
    grpc_gcp_rpc_protocol_versions_decode 31 (\<lambda>_. 8192) bs 64 (\<lambda>_. 0) () = Some (True, m, ()) \<and>
    versions_known (load_versions m 64) = versions_known (load_versions demo_versions 4096)"
proof -
  have "has_max_rpc_version (load_versions demo_versions 4096)" by code_simp
  then show ?thesis
    using rpc_versions_exchanged [of 4096 64 2 31 demo_versions "\<lambda>_. 8192" "\<lambda>_. 0" "()"] by auto
qed

theorem versions_agreed_witness:
  "\<exists>m. grpc_gcp_rpc_protocol_versions_check 4096 5000 64 demo_versions = (True, m) \<and>
    (\<forall>v. supports (load_versions demo_versions 4096) v \<and> supports (load_versions demo_versions 5000) v \<longrightarrow>
      version_le v (load_version m 64))"
proof -
  obtain ok m where r: "grpc_gcp_rpc_protocol_versions_check 4096 5000 64 demo_versions = (ok, m)" by fastforce
  have "fst (grpc_gcp_rpc_protocol_versions_check 4096 5000 64 demo_versions)" by code_simp
  with r versions_agreed [OF _ _ r] show ?thesis by (auto simp: Let_def)
qed

end
