(* ===== verification/Mem.thy ===== *)
theory Mem
  imports Prelude
begin

text \<open>
  Memory helpers of BoringSSL: \<open>crypto/mem.c\<close> and \<open>crypto/buf/buf.c\<close>.

  The system allocator is code outside the repository, so it is a parameter \<open>malloc\<close>: given a
  size it returns nothing or a block, whose initial contents are arbitrary. \<open>malloc_ok\<close> states its
  documented behaviour: the block has the requested size, and no object is larger than
  \<open>PTRDIFF_MAX\<close>. An allocated block is the list of its
  bytes as the caller sees them; the size prefix that \<open>OPENSSL_malloc\<close> stores in front of it is the
  length of that list. A C string is the list of its characters before the terminating NUL, memory
  that may hold one is a list of bytes.
\<close>

section \<open>Allocation\<close>

type_synonym allocator = "nat \<Rightarrow> bytes option"

definition malloc_ok :: "allocator \<Rightarrow> bool" where
  "malloc_ok malloc \<longleftrightarrow> (\<forall>n b. malloc n = Some b \<longrightarrow> length b = n \<and> n < 2 ^ 63)"

abbreviation (input) OPENSSL_MALLOC_PREFIX :: nat where "OPENSSL_MALLOC_PREFIX \<equiv> 8"

definition OPENSSL_malloc :: "allocator \<Rightarrow> nat \<Rightarrow> bytes option" where
  "OPENSSL_malloc malloc sz =
     (case malloc (add_size sz OPENSSL_MALLOC_PREFIX) of
        None \<Rightarrow> None
      | Some raw \<Rightarrow> Some (drop OPENSSL_MALLOC_PREFIX raw))"

text \<open>The first argument is \<open>None\<close> for a null pointer.\<close>

definition OPENSSL_realloc :: "allocator \<Rightarrow> bytes option \<Rightarrow> nat \<Rightarrow> bytes option" where
  "OPENSSL_realloc malloc orig new_size =
     (case orig of
        None \<Rightarrow> OPENSSL_malloc malloc new_size
      | Some old \<Rightarrow>
         (case OPENSSL_malloc malloc new_size of
            None \<Rightarrow> None
          | Some ret \<Rightarrow>
              (let to_copy = (if length old < new_size then length old else new_size)
               in Some (take to_copy old @ drop to_copy ret))))"

lemma OPENSSL_malloc_length:
  assumes "malloc_ok malloc" and "OPENSSL_malloc malloc n = Some b" and "n + 8 < 2 ^ 64"
  shows "length b = n" and "n + 8 < 2 ^ 63"
proof -
  from assms(2,3) obtain raw where "malloc (n + 8) = Some raw" and b: "b = drop 8 raw"
    by (auto simp: OPENSSL_malloc_def split: option.splits)
  with assms(1) have "length raw = n + 8 \<and> n + 8 < 2 ^ 63" unfolding malloc_ok_def by blast
  with b show "length b = n" and "n + 8 < 2 ^ 63" by simp_all
qed

lemma OPENSSL_realloc_Some:
  assumes "malloc_ok malloc" and "OPENSSL_realloc malloc (Some old) n = Some b"
    and "n + 8 < 2 ^ 64" and "length old \<le> n"
  shows "length b = n" and "take (length old) b = old" and "n + 8 < 2 ^ 63"
  using assms OPENSSL_malloc_length [OF assms(1) _ assms(3)]
  by (auto simp: OPENSSL_realloc_def Let_def split: option.splits if_splits)

section \<open>Comparison, hashing, strings\<close>

definition CRYPTO_memcmp :: "bytes \<Rightarrow> bytes \<Rightarrow> nat \<Rightarrow> int" where
  "CRYPTO_memcmp a b len =
     uint (foldl (\<lambda>x i. x OR (a ! i XOR b ! i)) (0 :: u8) [0..<len])"

definition OPENSSL_hash32 :: "bytes \<Rightarrow> u32" where
  "OPENSSL_hash32 bs = foldl (\<lambda>h b. (h XOR ucast b) * 16777619) 2166136261 bs"

fun OPENSSL_strnlen :: "bytes \<Rightarrow> nat \<Rightarrow> nat" where
  "OPENSSL_strnlen s 0 = 0"
| "OPENSSL_strnlen [] (Suc n) = 0"
| "OPENSSL_strnlen (c # s) (Suc n) = (if c = 0 then 0 else Suc (OPENSSL_strnlen s n))"

definition OPENSSL_tolower :: "int \<Rightarrow> int" where
  "OPENSSL_tolower c = (if 65 \<le> c \<and> c \<le> 90 then c + 32 else c)"

text \<open>
  \<open>char\<close> is signed on the platform, so a character is read with \<open>sint\<close>; the terminating NUL of a
  string is the end of its list.
\<close>

definition char_at :: "bytes \<Rightarrow> int" where
  "char_at s = (case s of [] \<Rightarrow> 0 | c # _ \<Rightarrow> sint c)"

function OPENSSL_strcasecmp :: "bytes \<Rightarrow> bytes \<Rightarrow> int" where
  "OPENSSL_strcasecmp a b =
     (let aa = OPENSSL_tolower (char_at a); bb = OPENSSL_tolower (char_at b) in
      if aa < bb then - 1 else if aa > bb then 1 else if aa = 0 then 0
      else OPENSSL_strcasecmp (tl a) (tl b))"
  by pat_completeness auto
termination
proof (relation "measure (\<lambda>(a, b). length a)")
  fix a b :: bytes and x xa
  assume "x = OPENSSL_tolower (char_at a)" "xa = OPENSSL_tolower (char_at b)"
    and "\<not> x < xa" "\<not> xa < x" "x \<noteq> 0"
  then have "a \<noteq> []" by (auto simp: char_at_def OPENSSL_tolower_def)
  then show "((tl a, tl b), (a, b)) \<in> measure (\<lambda>(a, b). length a)" by (cases a) auto
qed simp

declare OPENSSL_strcasecmp.simps [simp del]

fun OPENSSL_strncasecmp :: "bytes \<Rightarrow> bytes \<Rightarrow> nat \<Rightarrow> int" where
  "OPENSSL_strncasecmp a b 0 = 0"
| "OPENSSL_strncasecmp a b (Suc n) =
     (let aa = OPENSSL_tolower (char_at a); bb = OPENSSL_tolower (char_at b) in
      if aa < bb then - 1 else if aa > bb then 1 else if aa = 0 then 0
      else OPENSSL_strncasecmp (tl a) (tl b) n)"

section \<open>Growable buffers and bounded string copies\<close>

record buf_mem =
  bm_length :: nat
  bm_data :: "bytes option"
  bm_max :: nat

text \<open>\<open>BUF_MEM_new\<close>; the allocation of the structure itself is the flag \<open>ok\<close>.\<close>

definition BUF_MEM_new :: "bool \<Rightarrow> buf_mem option" where
  "BUF_MEM_new ok = (if ok then Some \<lparr>bm_length = 0, bm_data = None, bm_max = 0\<rparr> else None)"

definition BUF_MEM_reserve :: "allocator \<Rightarrow> buf_mem \<Rightarrow> nat \<Rightarrow> bool \<times> buf_mem" where
  "BUF_MEM_reserve malloc buf cap =
     (if bm_max buf \<ge> cap then (True, buf)
      else
        let n = add_size cap 3 in
        if n < cap then (False, buf)
        else
          let n = n div 3; alloc_size = mul_size n 4 in
          if alloc_size div 4 \<noteq> n then (False, buf)
          else
            (case OPENSSL_realloc malloc (bm_data buf) alloc_size of
               None \<Rightarrow> (False, buf)
             | Some new_buf \<Rightarrow> (True, buf\<lparr>bm_data := Some new_buf, bm_max := alloc_size\<rparr>)))"

text \<open>Writes \<open>bs\<close> at offset \<open>i\<close> of a block.\<close>

definition put_at :: "nat \<Rightarrow> 'a list \<Rightarrow> 'a list \<Rightarrow> 'a list" where
  "put_at i bs mem = take i mem @ bs @ drop (i + length bs) mem"

definition put_data :: "nat \<Rightarrow> bytes \<Rightarrow> buf_mem \<Rightarrow> buf_mem" where
  "put_data i bs buf = buf\<lparr>bm_data := map_option (put_at i bs) (bm_data buf)\<rparr>"

definition BUF_MEM_grow :: "allocator \<Rightarrow> buf_mem \<Rightarrow> nat \<Rightarrow> nat \<times> buf_mem" where
  "BUF_MEM_grow malloc buf len =
     (case BUF_MEM_reserve malloc buf len of
        (False, buf') \<Rightarrow> (0, buf')
      | (True, buf') \<Rightarrow>
          let buf'' = (if bm_length buf' < len
                       then put_data (bm_length buf') (replicate (len - bm_length buf') 0) buf'
                       else buf')
          in (len, buf''\<lparr>bm_length := len\<rparr>))"

definition BUF_MEM_grow_clean :: "allocator \<Rightarrow> buf_mem \<Rightarrow> nat \<Rightarrow> nat \<times> buf_mem" where
  "BUF_MEM_grow_clean malloc buf len = BUF_MEM_grow malloc buf len"

definition BUF_MEM_append :: "allocator \<Rightarrow> buf_mem \<Rightarrow> bytes \<Rightarrow> bool \<times> buf_mem" where
  "BUF_MEM_append malloc buf bs =
     (let new_len = add_size (bm_length buf) (length bs) in
      if new_len < length bs then (False, buf)
      else
        (case BUF_MEM_reserve malloc buf new_len of
           (False, buf') \<Rightarrow> (False, buf')
         | (True, buf') \<Rightarrow>
             (True, (put_data (bm_length buf') bs buf')\<lparr>bm_length := new_len\<rparr>)))"

fun BUF_strnlen :: "bytes \<Rightarrow> nat \<Rightarrow> nat" where
  "BUF_strnlen s 0 = 0"
| "BUF_strnlen [] (Suc n) = 0"
| "BUF_strnlen (c # s) (Suc n) = (if c = 0 then 0 else Suc (BUF_strnlen s n))"

definition BUF_strndup :: "allocator \<Rightarrow> bytes option \<Rightarrow> nat \<Rightarrow> bytes option" where
  "BUF_strndup malloc str sz =
     (case str of
        None \<Rightarrow> None
      | Some s \<Rightarrow>
          let sz = BUF_strnlen s sz; alloc_size = add_size sz 1 in
          if alloc_size < sz then None
          else
            (case OPENSSL_malloc malloc alloc_size of
               None \<Rightarrow> None
             | Some ret \<Rightarrow> Some (put_at 0 (take sz s @ [0]) ret)))"

definition BUF_strdup :: "allocator \<Rightarrow> bytes option \<Rightarrow> bytes option" where
  "BUF_strdup malloc str =
     (case str of None \<Rightarrow> None | Some s \<Rightarrow> BUF_strndup malloc (Some s) (length s))"

text \<open>
  \<open>BUF_strlcpy\<close> as the loop over the destination: \<open>dst\<close> is the memory it points to, \<open>src\<close> the
  characters of the source string. Result: the returned length and the destination afterwards.
\<close>

fun BUF_strlcpy :: "bytes \<Rightarrow> bytes \<Rightarrow> nat \<Rightarrow> nat \<times> bytes" where
  "BUF_strlcpy dst src 0 = (length src, dst)"
| "BUF_strlcpy dst src (Suc 0) = (length src, put_at 0 [0] dst)"
| "BUF_strlcpy dst [] (Suc (Suc n)) = (0, put_at 0 [0] dst)"
| "BUF_strlcpy dst (c # src) (Suc (Suc n)) =
     (case BUF_strlcpy (tl dst) src (Suc n) of (l, dst') \<Rightarrow> (Suc l, c # dst'))"

fun BUF_strlcat :: "bytes \<Rightarrow> bytes \<Rightarrow> nat \<Rightarrow> nat \<times> bytes" where
  "BUF_strlcat dst src 0 = BUF_strlcpy dst src 0"
| "BUF_strlcat [] src (Suc n) = BUF_strlcpy [] src (Suc n)"
| "BUF_strlcat (c # dst) src (Suc n) =
     (if c = 0 then BUF_strlcpy (c # dst) src (Suc n)
      else case BUF_strlcat dst src n of (l, dst') \<Rightarrow> (Suc l, c # dst'))"

definition BUF_memdup :: "allocator \<Rightarrow> bytes \<Rightarrow> bytes option" where
  "BUF_memdup malloc bs =
     (if bs = [] then None
      else
        (case OPENSSL_malloc malloc (length bs) of
           None \<Rightarrow> None
         | Some ret \<Rightarrow> Some (put_at 0 bs ret)))"

section \<open>Lemmas\<close>

lemma put_at_length [simp]: "i + length bs \<le> length mem \<Longrightarrow> length (put_at i bs mem) = length mem"
  by (simp add: put_at_def)

lemma take_put_at: "i \<le> length mem \<Longrightarrow> take (i + length bs) (put_at i bs mem) = take i mem @ bs"
  by (simp add: put_at_def min_def)

lemma foldl_or_zero: "foldl (\<lambda>x i. x OR f i) (a :: u8) is = 0 \<longleftrightarrow> a = 0 \<and> (\<forall>i\<in>set is. f i = 0)"
  by (induction "is" arbitrary: a) (auto simp: or_eq_0_iff)

lemma BUF_memdup_Some:
  assumes "malloc_ok malloc" and "length bs + 8 < 2 ^ 64" and "BUF_memdup malloc bs = Some r"
  shows "r = bs"
  using assms OPENSSL_malloc_length(1) [OF assms(1) _ assms(2)]
  by (auto simp: BUF_memdup_def put_at_def split: if_splits option.splits)

end
