(* ===== verification/Cbs.thy ===== *)
theory Cbs
  imports Mem
begin

text \<open>
  The byte-string parser of BoringSSL, \<open>crypto/bytestring/cbs.c\<close>. A \<open>CBS\<close> (a pointer into a buffer
  and a length) is the list of the bytes it shows. Every \<open>CBS_get_*\<close> function takes the \<open>CBS\<close> and
  returns its result, \<open>None\<close> where the C function returns 0, with the \<open>CBS\<close> as the call leaves it,
  also on failure; the contents of an output parameter after a failure are not modelled.
\<close>

type_synonym cbs = bytes

section \<open>Bytes and integers\<close>

definition cbs_get :: "cbs \<Rightarrow> nat \<Rightarrow> bytes option \<times> cbs" where
  "cbs_get s n = (if length s < n then (None, s) else (Some (take n s), drop n s))"

definition CBS_skip :: "cbs \<Rightarrow> nat \<Rightarrow> bool \<times> cbs" where
  "CBS_skip s len = (case cbs_get s len of (r, s') \<Rightarrow> (r \<noteq> None, s'))"

text \<open>\<open>CBS_stow\<close>: success flag and the stowed copy (\<open>None\<close> is the null pointer).\<close>

definition CBS_stow :: "allocator \<Rightarrow> cbs \<Rightarrow> bool \<times> bytes option" where
  "CBS_stow malloc s =
     (if length s = 0 then (True, None)
      else case BUF_memdup malloc s of None \<Rightarrow> (False, None) | Some p \<Rightarrow> (True, Some p))"

definition CBS_strdup :: "allocator \<Rightarrow> cbs \<Rightarrow> bool \<times> bytes option" where
  "CBS_strdup malloc s = (case BUF_strndup malloc (Some s) (length s) of p \<Rightarrow> (p \<noteq> None, p))"

definition CBS_contains_zero_byte :: "cbs \<Rightarrow> bool" where
  "CBS_contains_zero_byte s = (0 \<in> set s)"

definition CBS_mem_equal :: "cbs \<Rightarrow> bytes \<Rightarrow> bool" where
  "CBS_mem_equal s data =
     (if length data \<noteq> length s then False else CRYPTO_memcmp s data (length data) = 0)"

definition cbs_get_u :: "cbs \<Rightarrow> nat \<Rightarrow> u32 option \<times> cbs" where
  "cbs_get_u s len =
     (case cbs_get s len of
        (None, s') \<Rightarrow> (None, s')
      | (Some data, s') \<Rightarrow> (Some (foldl (\<lambda>result b. push_bit 8 result OR ucast b) 0 data), s'))"

definition CBS_get_u8 :: "cbs \<Rightarrow> u8 option \<times> cbs" where
  "CBS_get_u8 s = (case cbs_get s 1 of (None, s') \<Rightarrow> (None, s') | (Some v, s') \<Rightarrow> (Some (hd v), s'))"

definition CBS_get_u16 :: "cbs \<Rightarrow> u16 option \<times> cbs" where
  "CBS_get_u16 s =
     (case cbs_get_u s 2 of (None, s') \<Rightarrow> (None, s') | (Some v, s') \<Rightarrow> (Some (ucast v), s'))"

definition CBS_get_u24 :: "cbs \<Rightarrow> u32 option \<times> cbs" where
  "CBS_get_u24 s = cbs_get_u s 3"

definition CBS_get_u32 :: "cbs \<Rightarrow> u32 option \<times> cbs" where
  "CBS_get_u32 s = cbs_get_u s 4"

definition CBS_get_last_u8 :: "cbs \<Rightarrow> u8 option \<times> cbs" where
  "CBS_get_last_u8 s =
     (if length s = 0 then (None, s) else (Some (s ! (length s - 1)), butlast s))"

definition CBS_get_bytes :: "cbs \<Rightarrow> nat \<Rightarrow> cbs option \<times> cbs" where
  "CBS_get_bytes s len = cbs_get s len"

definition CBS_copy_bytes :: "cbs \<Rightarrow> nat \<Rightarrow> bytes option \<times> cbs" where
  "CBS_copy_bytes s len = cbs_get s len"

definition cbs_get_length_prefixed :: "cbs \<Rightarrow> nat \<Rightarrow> cbs option \<times> cbs" where
  "cbs_get_length_prefixed s len_len =
     (case cbs_get_u s len_len of
        (None, s') \<Rightarrow> (None, s')
      | (Some len, s') \<Rightarrow> CBS_get_bytes s' (unat len))"

definition CBS_get_u8_length_prefixed :: "cbs \<Rightarrow> cbs option \<times> cbs" where
  "CBS_get_u8_length_prefixed s = cbs_get_length_prefixed s 1"

definition CBS_get_u16_length_prefixed :: "cbs \<Rightarrow> cbs option \<times> cbs" where
  "CBS_get_u16_length_prefixed s = cbs_get_length_prefixed s 2"

definition CBS_get_u24_length_prefixed :: "cbs \<Rightarrow> cbs option \<times> cbs" where
  "CBS_get_u24_length_prefixed s = cbs_get_length_prefixed s 3"

section \<open>ASN.1 elements\<close>

abbreviation CBS_ASN1_TAG_SHIFT :: nat where "CBS_ASN1_TAG_SHIFT \<equiv> 24"
abbreviation CBS_ASN1_CONSTRUCTED :: u32 where "CBS_ASN1_CONSTRUCTED \<equiv> 0x20000000"
abbreviation CBS_ASN1_TAG_NUMBER_MASK :: u32 where "CBS_ASN1_TAG_NUMBER_MASK \<equiv> 0x1FFFFFFF"
abbreviation CBS_ASN1_BOOLEAN :: u32 where "CBS_ASN1_BOOLEAN \<equiv> 1"
abbreviation CBS_ASN1_INTEGER :: u32 where "CBS_ASN1_INTEGER \<equiv> 2"
abbreviation CBS_ASN1_BITSTRING :: u32 where "CBS_ASN1_BITSTRING \<equiv> 3"
abbreviation CBS_ASN1_OCTETSTRING :: u32 where "CBS_ASN1_OCTETSTRING \<equiv> 4"

fun parse_base128_loop :: "u64 \<Rightarrow> cbs \<Rightarrow> u64 option \<times> cbs" where
  "parse_base128_loop v [] = (None, [])"
| "parse_base128_loop v (b # s) =
     (if drop_bit (64 - 7) v \<noteq> 0 then (None, s)
      else if v = 0 \<and> b = 0x80 then (None, s)
      else
        let v' = push_bit 7 v OR ucast (b AND 0x7f) in
        if b AND 0x80 \<noteq> 0 then parse_base128_loop v' s else (Some v', s))"

definition parse_base128_integer :: "cbs \<Rightarrow> u64 option \<times> cbs" where
  "parse_base128_integer s = parse_base128_loop 0 s"

definition parse_asn1_tag :: "cbs \<Rightarrow> u32 option \<times> cbs" where
  "parse_asn1_tag s =
     (case CBS_get_u8 s of
        (None, s') \<Rightarrow> (None, s')
      | (Some tag_byte, s') \<Rightarrow>
          let tag = push_bit CBS_ASN1_TAG_SHIFT (ucast tag_byte AND 0xe0 :: u32);
              tag_number = ucast (tag_byte AND 0x1f) :: u32 in
          if tag_number = 0x1f then
            (case parse_base128_integer s' of
               (None, s'') \<Rightarrow> (None, s'')
             | (Some v, s'') \<Rightarrow>
                 if v > ucast CBS_ASN1_TAG_NUMBER_MASK \<or> v < 0x1f then (None, s'')
                 else (Some (tag OR ucast v), s''))
          else (Some (tag OR tag_number), s'))"

text \<open>
  The element, its tag and the length of its header. The C function works on a copy of the \<open>CBS\<close>
  and writes it back only through its last call.
\<close>

definition get_element ::
  "cbs \<Rightarrow> nat \<Rightarrow> u32 \<Rightarrow> nat \<Rightarrow> (cbs \<times> u32 \<times> nat) option \<times> cbs" where
  "get_element s len tag header_len =
     (case CBS_get_bytes s len of
        (None, s') \<Rightarrow> (None, s')
      | (Some out, s') \<Rightarrow> (Some (out, tag, header_len), s'))"

definition cbs_get_any_asn1_element ::
  "cbs \<Rightarrow> bool \<Rightarrow> (cbs \<times> u32 \<times> nat) option \<times> cbs" where
  "cbs_get_any_asn1_element s ber_ok =
     (case parse_asn1_tag s of
        (None, _) \<Rightarrow> (None, s)
      | (Some tag, header) \<Rightarrow>
     (case CBS_get_u8 header of
        (None, _) \<Rightarrow> (None, s)
      | (Some length_byte, header) \<Rightarrow>
          let header_len = length s - length header in
          if length_byte AND 0x80 = 0 then
            get_element s (unat length_byte + header_len) tag header_len
          else
            let num_bytes = unat (length_byte AND 0x7f) in
            if ber_ok \<and> tag AND CBS_ASN1_CONSTRUCTED \<noteq> 0 \<and> num_bytes = 0 then
              get_element s header_len tag header_len
            else if num_bytes = 0 \<or> num_bytes > 4 then (None, s)
            else
              (case cbs_get_u header num_bytes of
                 (None, _) \<Rightarrow> (None, s)
               | (Some len32, _) \<Rightarrow>
                   if len32 < 128 then (None, s)
                   else if drop_bit ((num_bytes - 1) * 8) len32 = 0 then (None, s)
                   else
                     let len = unat len32 in
                     if add_size (add_size len header_len) num_bytes < len then (None, s)
                     else get_element s (add_size len (header_len + num_bytes)) tag
                            (header_len + num_bytes))))"

definition CBS_get_any_asn1_element :: "cbs \<Rightarrow> (cbs \<times> u32 \<times> nat) option \<times> cbs" where
  "CBS_get_any_asn1_element s = cbs_get_any_asn1_element s False"

definition CBS_get_any_ber_asn1_element :: "cbs \<Rightarrow> (cbs \<times> u32 \<times> nat) option \<times> cbs" where
  "CBS_get_any_ber_asn1_element s = cbs_get_any_asn1_element s True"

definition CBS_get_any_asn1 :: "cbs \<Rightarrow> (cbs \<times> u32) option \<times> cbs" where
  "CBS_get_any_asn1 s =
     (case CBS_get_any_asn1_element s of
        (None, s') \<Rightarrow> (None, s')
      | (Some (out, tag, header_len), s') \<Rightarrow>
          (case CBS_skip out header_len of
             (False, _) \<Rightarrow> (None, s')
           | (True, out') \<Rightarrow> (Some (out', tag), s')))"

definition cbs_get_asn1 :: "cbs \<Rightarrow> u32 \<Rightarrow> bool \<Rightarrow> cbs option \<times> cbs" where
  "cbs_get_asn1 s tag_value skip_header =
     (case CBS_get_any_asn1_element s of
        (None, s') \<Rightarrow> (None, s')
      | (Some (out, tag, header_len), s') \<Rightarrow>
          if tag \<noteq> tag_value then (None, s')
          else if skip_header then
            (case CBS_skip out header_len of
               (False, _) \<Rightarrow> (None, s')
             | (True, out') \<Rightarrow> (Some out', s'))
          else (Some out, s'))"

definition CBS_get_asn1 :: "cbs \<Rightarrow> u32 \<Rightarrow> cbs option \<times> cbs" where
  "CBS_get_asn1 s tag_value = cbs_get_asn1 s tag_value True"

definition CBS_get_asn1_element :: "cbs \<Rightarrow> u32 \<Rightarrow> cbs option \<times> cbs" where
  "CBS_get_asn1_element s tag_value = cbs_get_asn1 s tag_value False"

definition CBS_peek_asn1_tag :: "cbs \<Rightarrow> u32 \<Rightarrow> bool" where
  "CBS_peek_asn1_tag s tag_value =
     (if length s < 1 then False
      else case parse_asn1_tag s of (None, _) \<Rightarrow> False | (Some actual_tag, _) \<Rightarrow> tag_value = actual_tag)"

section \<open>ASN.1 values\<close>

fun asn1_uint64_loop :: "u64 \<Rightarrow> bytes \<Rightarrow> u64 option" where
  "asn1_uint64_loop out [] = Some out"
| "asn1_uint64_loop out (b # bs) =
     (if drop_bit 56 out \<noteq> 0 then None else asn1_uint64_loop (push_bit 8 out OR ucast b) bs)"

definition CBS_get_asn1_uint64 :: "cbs \<Rightarrow> u64 option \<times> cbs" where
  "CBS_get_asn1_uint64 s =
     (case CBS_get_asn1 s CBS_ASN1_INTEGER of
        (None, s') \<Rightarrow> (None, s')
      | (Some data, s') \<Rightarrow>
          if length data = 0 then (None, s')
          else if data ! 0 AND 0x80 \<noteq> 0 then (None, s')
          else if data ! 0 = 0 \<and> length data > 1 \<and> data ! 1 AND 0x80 = 0 then (None, s')
          else (asn1_uint64_loop 0 data, s'))"

definition CBS_get_asn1_bool :: "cbs \<Rightarrow> bool option \<times> cbs" where
  "CBS_get_asn1_bool s =
     (case CBS_get_asn1 s CBS_ASN1_BOOLEAN of
        (None, s') \<Rightarrow> (None, s')
      | (Some data, s') \<Rightarrow>
          if length data \<noteq> 1 then (None, s')
          else
            let v = data ! 0 in
            if v \<noteq> 0 \<and> v \<noteq> 0xff then (None, s') else (Some (v \<noteq> 0), s'))"

text \<open>The inner option is \<open>None\<close> where the element is absent (\<open>*out_present\<close> is 0).\<close>

definition CBS_get_optional_asn1 :: "cbs \<Rightarrow> u32 \<Rightarrow> cbs option option \<times> cbs" where
  "CBS_get_optional_asn1 s tag =
     (if CBS_peek_asn1_tag s tag then
        (case CBS_get_asn1 s tag of
           (None, s') \<Rightarrow> (None, s')
         | (Some out, s') \<Rightarrow> (Some (Some out), s'))
      else (Some None, s))"

definition CBS_get_optional_asn1_octet_string :: "cbs \<Rightarrow> u32 \<Rightarrow> (cbs \<times> bool) option \<times> cbs" where
  "CBS_get_optional_asn1_octet_string s tag =
     (case CBS_get_optional_asn1 s tag of
        (None, s') \<Rightarrow> (None, s')
      | (Some None, s') \<Rightarrow> (Some ([], False), s')
      | (Some (Some child), s') \<Rightarrow>
          (case CBS_get_asn1 child CBS_ASN1_OCTETSTRING of
             (None, _) \<Rightarrow> (None, s')
           | (Some out, child') \<Rightarrow>
               if length child' \<noteq> 0 then (None, s') else (Some (out, True), s')))"

definition CBS_get_optional_asn1_uint64 :: "cbs \<Rightarrow> u32 \<Rightarrow> u64 \<Rightarrow> u64 option \<times> cbs" where
  "CBS_get_optional_asn1_uint64 s tag default_value =
     (case CBS_get_optional_asn1 s tag of
        (None, s') \<Rightarrow> (None, s')
      | (Some None, s') \<Rightarrow> (Some default_value, s')
      | (Some (Some child), s') \<Rightarrow>
          (case CBS_get_asn1_uint64 child of
             (None, _) \<Rightarrow> (None, s')
           | (Some out, child') \<Rightarrow> if length child' \<noteq> 0 then (None, s') else (Some out, s')))"

text \<open>The value is the C \<open>int\<close> (the default may be any number).\<close>

definition CBS_get_optional_asn1_bool :: "cbs \<Rightarrow> u32 \<Rightarrow> int \<Rightarrow> int option \<times> cbs" where
  "CBS_get_optional_asn1_bool s tag default_value =
     (case CBS_get_optional_asn1 s tag of
        (None, s') \<Rightarrow> (None, s')
      | (Some None, s') \<Rightarrow> (Some default_value, s')
      | (Some (Some child), s') \<Rightarrow>
          (case CBS_get_asn1 child CBS_ASN1_BOOLEAN of
             (None, _) \<Rightarrow> (None, s')
           | (Some child2, child') \<Rightarrow>
               if length child2 \<noteq> 1 \<or> length child' \<noteq> 0 then (None, s')
               else if child2 ! 0 = 0 then (Some 0, s')
               else if child2 ! 0 = 0xff then (Some 1, s')
               else (None, s')))"

definition CBS_is_valid_asn1_bitstring :: "cbs \<Rightarrow> bool" where
  "CBS_is_valid_asn1_bitstring s =
     (case CBS_get_u8 s of
        (None, _) \<Rightarrow> False
      | (Some num_unused_bits, s') \<Rightarrow>
          if num_unused_bits > 7 then False
          else if num_unused_bits = 0 then True
          else
            (case CBS_get_last_u8 s' of
               (None, _) \<Rightarrow> False
             | (Some last_byte, _) \<Rightarrow>
                 ucast last_byte AND (push_bit (unat num_unused_bits) 1 - 1 :: u32) = 0))"

definition CBS_asn1_bitstring_has_bit :: "cbs \<Rightarrow> u32 \<Rightarrow> bool" where
  "CBS_asn1_bitstring_has_bit s bit_index =
     (if \<not> CBS_is_valid_asn1_bitstring s then False
      else
        let byte_num = drop_bit 3 bit_index + 1; bit_num = 7 - (bit_index AND 7) in
        unat byte_num < length s \<and>
        (ucast (s ! unat byte_num) :: u32) AND push_bit (unat bit_num) 1 \<noteq> 0)"

end
