(* ===== verification/Cbb.thy ===== *)
theory Cbb
  imports Cbs
begin

text \<open>
  The byte-string builder of BoringSSL, \<open>crypto/bytestring/cbb.c\<close>, with \<open>CBS_asn1_oid_to_text\<close> of
  \<open>cbs.c\<close> and \<open>crypto/bytestring/asn1_compat.c\<close>, which use it.

  A top-level \<open>CBB\<close> and the chain of the child \<open>CBB\<close>s opened below it share one buffer. The state
  \<open>cbb\<close> is that buffer (\<open>None\<close> once it has been released) and the frames of the open children,
  outermost first; a \<open>CBB *\<close> handle is the depth of its frame, 0 for the top level. A handle deeper
  than the chain is one whose \<open>base\<close> a flush of its parent has cleared. An operation returns its
  result and the state, so each failure leaves the state the code leaves. \<open>malloc\<close> is the system
  allocator; since all sizes a builder asks it for increase, a function of the size can answer every
  request differently. A null \<open>buf\<close> is the empty block.
\<close>

section \<open>The shared buffer\<close>

record cbb_buffer =
  bb_buf :: bytes
  bb_len :: nat
  bb_cap :: nat
  bb_can_resize :: bool
  bb_error :: bool

definition cbb_buffer_reserve :: "allocator \<Rightarrow> cbb_buffer \<Rightarrow> nat \<Rightarrow> bool \<times> cbb_buffer" where
  "cbb_buffer_reserve malloc base len =
     (let newlen = add_size (bb_len base) len in
      if newlen < bb_len base then (False, base\<lparr>bb_error := True\<rparr>)
      else if newlen > bb_cap base then
        (let newcap = mul_size (bb_cap base) 2 in
         if \<not> bb_can_resize base then (False, base\<lparr>bb_error := True\<rparr>)
         else
           let newcap = (if newcap < bb_cap base \<or> newcap < newlen then newlen else newcap) in
           case OPENSSL_realloc malloc (Some (bb_buf base)) newcap of
             None \<Rightarrow> (False, base\<lparr>bb_error := True\<rparr>)
           | Some newbuf \<Rightarrow> (True, base\<lparr>bb_buf := newbuf, bb_cap := newcap\<rparr>))
      else (True, base))"

definition cbb_buffer_add :: "allocator \<Rightarrow> cbb_buffer \<Rightarrow> nat \<Rightarrow> bool \<times> cbb_buffer" where
  "cbb_buffer_add malloc base len =
     (case cbb_buffer_reserve malloc base len of
        (False, base') \<Rightarrow> (False, base')
      | (True, base') \<Rightarrow> (True, base'\<lparr>bb_len := bb_len base' + len\<rparr>))"

definition bb_put :: "nat \<Rightarrow> bytes \<Rightarrow> cbb_buffer \<Rightarrow> cbb_buffer" where
  "bb_put i bs base = base\<lparr>bb_buf := put_at i bs (bb_buf base)\<rparr>"

text \<open>
  The loop \<open>for (i = n - 1; i < n; i--) { buf[i] = v; v >>= 8; }\<close>: the bytes it writes and what is
  left of \<open>v\<close>.
\<close>

fun put_be :: "nat \<Rightarrow> nat \<Rightarrow> bytes \<times> nat" where
  "put_be 0 v = ([], v)"
| "put_be (Suc n) v = (case put_be n (v div 256) of (bs, r) \<Rightarrow> (bs @ [of_nat v], r))"

definition cbb_buffer_add_u :: "allocator \<Rightarrow> cbb_buffer \<Rightarrow> u32 \<Rightarrow> nat \<Rightarrow> bool \<times> cbb_buffer" where
  "cbb_buffer_add_u malloc base v len_len =
     (if len_len = 0 then (True, base)
      else
        (case cbb_buffer_add malloc base len_len of
           (False, base') \<Rightarrow> (False, base')
         | (True, base') \<Rightarrow>
             (case put_be len_len (unat v) of
                (bs, v') \<Rightarrow>
                  let base'' = bb_put (bb_len base' - len_len) bs base' in
                  if v' \<noteq> 0 then (False, base''\<lparr>bb_error := True\<rparr>) else (True, base''))))"

section \<open>Builders\<close>

record cbb_frame =
  cf_offset :: nat
  cf_pending_len_len :: nat
  cf_pending_is_asn1 :: bool

record cbb =
  cb_base :: "cbb_buffer option"
  cb_children :: "cbb_frame list"

definition CBB_zero :: cbb where
  "CBB_zero = \<lparr>cb_base = None, cb_children = []\<rparr>"

text \<open>\<open>ok\<close> is whether the allocation of the buffer structure itself succeeds.\<close>

definition cbb_init :: "bool \<Rightarrow> bytes \<Rightarrow> nat \<Rightarrow> bool \<times> cbb" where
  "cbb_init ok buf cap =
     (if \<not> ok then (False, CBB_zero)
      else (True, \<lparr>cb_base = Some \<lparr>bb_buf = buf, bb_len = 0, bb_cap = cap, bb_can_resize = True,
                     bb_error = False\<rparr>, cb_children = []\<rparr>))"

definition CBB_init :: "allocator \<Rightarrow> bool \<Rightarrow> nat \<Rightarrow> bool \<times> cbb" where
  "CBB_init malloc ok initial_capacity =
     (case OPENSSL_malloc malloc initial_capacity of
        None \<Rightarrow> if initial_capacity > 0 then (False, CBB_zero) else cbb_init ok [] 0
      | Some buf \<Rightarrow> cbb_init ok buf initial_capacity)"

definition CBB_init_fixed :: "bool \<Rightarrow> bytes \<Rightarrow> nat \<Rightarrow> bool \<times> cbb" where
  "CBB_init_fixed ok buf len =
     (case cbb_init ok buf len of
        (False, s) \<Rightarrow> (False, s)
      | (True, s) \<Rightarrow> (True, s\<lparr>cb_base := map_option (\<lambda>b. b\<lparr>bb_can_resize := False\<rparr>) (cb_base s)\<rparr>))"

definition CBB_cleanup :: "cbb \<Rightarrow> cbb" where
  "CBB_cleanup s = s\<lparr>cb_base := None, cb_children := []\<rparr>"

section \<open>Flushing\<close>

text \<open>The number of bytes of a DER length and its first byte; \<open>None\<close> where it is too large.\<close>

definition asn1_len_len :: "nat \<Rightarrow> (nat \<times> u8) option" where
  "asn1_len_len len =
     (if len > 0xfffffffe then None
      else if len > 0xffffff then Some (5, 0x80 OR 4)
      else if len > 0xffff then Some (4, 0x80 OR 3)
      else if len > 0xff then Some (3, 0x80 OR 2)
      else if len > 0x7f then Some (2, 0x80 OR 1)
      else Some (1, of_nat len))"

text \<open>
  The tail of \<open>CBB_flush\<close>, after the child itself has been flushed: the pending length is written,
  for ASN.1 after the contents have been moved to make room for it.
\<close>

definition write_pending ::
  "cbb_buffer \<Rightarrow> cbb_frame \<Rightarrow> nat \<Rightarrow> bool \<times> cbb_buffer" where
  "write_pending base child len =
     (case put_be (cf_pending_len_len child) len of
        (bs, len') \<Rightarrow>
          let base' = bb_put (cf_offset child) bs base in
          if len' \<noteq> 0 then (False, base'\<lparr>bb_error := True\<rparr>) else (True, base'))"

definition flush_pending ::
  "allocator \<Rightarrow> cbb_buffer \<Rightarrow> cbb_frame \<Rightarrow> nat \<Rightarrow> bool \<times> cbb_buffer" where
  "flush_pending malloc base child child_start =
     (let len = bb_len base - child_start in
      if cf_pending_is_asn1 child then
        (case asn1_len_len len of
           None \<Rightarrow> (False, base\<lparr>bb_error := True\<rparr>)
         | Some (len_len, initial_length_byte) \<Rightarrow>
             if len_len \<noteq> 1 then
               (case cbb_buffer_add malloc base (len_len - 1) of
                  (False, base') \<Rightarrow> (False, base'\<lparr>bb_error := True\<rparr>)
                | (True, base') \<Rightarrow>
                    write_pending
                      (bb_put (cf_offset child) [initial_length_byte]
                        (bb_put (child_start + (len_len - 1))
                          (take len (drop child_start (bb_buf base'))) base'))
                      (child\<lparr>cf_offset := cf_offset child + 1, cf_pending_len_len := len_len - 1\<rparr>) len)
             else
               write_pending (bb_put (cf_offset child) [initial_length_byte] base)
                 (child\<lparr>cf_offset := cf_offset child + 1, cf_pending_len_len := len_len - 1\<rparr>) 0)
      else write_pending base child len)"

text \<open>\<open>CBB_flush\<close> of a \<open>CBB\<close> whose open descendants are the given frames.\<close>

fun cbb_flush ::
  "allocator \<Rightarrow> cbb_buffer \<Rightarrow> cbb_frame list \<Rightarrow> bool \<times> cbb_buffer \<times> cbb_frame list" where
  "cbb_flush malloc base [] = (\<not> bb_error base, base, [])"
| "cbb_flush malloc base (child # rest) =
     (if bb_error base then (False, base, child # rest)
      else if cf_pending_len_len child = 0 then (True, base, child # rest)
      else
        let child_start = add_size (cf_offset child) (cf_pending_len_len child) in
        (case cbb_flush malloc base rest of
           (False, base', rest') \<Rightarrow> (False, base'\<lparr>bb_error := True\<rparr>, child # rest')
         | (True, base', rest') \<Rightarrow>
             if child_start < cf_offset child \<or> bb_len base' < child_start
             then (False, base'\<lparr>bb_error := True\<rparr>, child # rest')
             else
               (case flush_pending malloc base' child child_start of
                  (False, base'') \<Rightarrow> (False, base'', child # rest')
                | (True, base'') \<Rightarrow> (True, base'', []))))"

definition CBB_flush :: "allocator \<Rightarrow> nat \<Rightarrow> cbb \<Rightarrow> bool \<times> cbb" where
  "CBB_flush malloc d s =
     (case cb_base s of
        None \<Rightarrow> (False, s)
      | Some base \<Rightarrow>
          if d > length (cb_children s) then (False, s)
          else
            (case cbb_flush malloc base (drop d (cb_children s)) of
               (r, base', rest) \<Rightarrow>
                 (r, s\<lparr>cb_base := Some base', cb_children := take d (cb_children s) @ rest\<rparr>)))"

text \<open>Sequencing of calls as in \<open>!f(...) || !g(...)\<close>: the first failure is the result.\<close>

definition and_then :: "bool \<times> 's \<Rightarrow> ('s \<Rightarrow> bool \<times> 's) \<Rightarrow> bool \<times> 's" where
  "and_then r f = (case r of (False, s) \<Rightarrow> (False, s) | (True, s) \<Rightarrow> f s)"

definition on_base :: "(cbb_buffer \<Rightarrow> bool \<times> cbb_buffer) \<Rightarrow> cbb \<Rightarrow> bool \<times> cbb" where
  "on_base f s =
     (case cb_base s of
        None \<Rightarrow> (False, s)
      | Some base \<Rightarrow> (case f base of (r, base') \<Rightarrow> (r, s\<lparr>cb_base := Some base'\<rparr>)))"

section \<open>Operations\<close>

definition frame_at :: "nat \<Rightarrow> cbb \<Rightarrow> cbb_frame" where
  "frame_at d s =
     (if d = 0 then \<lparr>cf_offset = 0, cf_pending_len_len = 0, cf_pending_is_asn1 = False\<rparr>
      else cb_children s ! (d - 1))"

definition CBB_len :: "nat \<Rightarrow> cbb \<Rightarrow> nat" where
  "CBB_len d s =
     (case cb_base s of
        None \<Rightarrow> 0
      | Some base \<Rightarrow>
          bb_len base - cf_offset (frame_at d s) - cf_pending_len_len (frame_at d s))"

text \<open>The memory \<open>CBB_data\<close> points to, up to the length that \<open>CBB_len\<close> returns.\<close>

definition CBB_data :: "nat \<Rightarrow> cbb \<Rightarrow> bytes" where
  "CBB_data d s =
     (case cb_base s of
        None \<Rightarrow> []
      | Some base \<Rightarrow>
          take (CBB_len d s)
            (drop (cf_offset (frame_at d s) + cf_pending_len_len (frame_at d s)) (bb_buf base)))"

definition base_len :: "cbb \<Rightarrow> nat" where
  "base_len s = (case cb_base s of None \<Rightarrow> 0 | Some base \<Rightarrow> bb_len base)"

definition open_child :: "nat \<Rightarrow> cbb_frame \<Rightarrow> cbb \<Rightarrow> cbb" where
  "open_child d f s = s\<lparr>cb_children := take d (cb_children s) @ [f]\<rparr>"

definition cbb_add_length_prefixed :: "allocator \<Rightarrow> nat \<Rightarrow> nat \<Rightarrow> cbb \<Rightarrow> bool \<times> cbb" where
  "cbb_add_length_prefixed malloc d len_len s =
     and_then (CBB_flush malloc d s) (\<lambda>s.
       let offset = base_len s in
       and_then (on_base (\<lambda>base. cbb_buffer_add malloc base len_len) s) (\<lambda>s.
         and_then (on_base (\<lambda>base. (True, bb_put offset (replicate len_len 0) base)) s) (\<lambda>s.
           (True, open_child d \<lparr>cf_offset = offset, cf_pending_len_len = len_len,
                    cf_pending_is_asn1 = False\<rparr> s))))"

definition CBB_add_u8_length_prefixed :: "allocator \<Rightarrow> nat \<Rightarrow> cbb \<Rightarrow> bool \<times> cbb" where
  "CBB_add_u8_length_prefixed malloc d s = cbb_add_length_prefixed malloc d 1 s"

definition CBB_add_u16_length_prefixed :: "allocator \<Rightarrow> nat \<Rightarrow> cbb \<Rightarrow> bool \<times> cbb" where
  "CBB_add_u16_length_prefixed malloc d s = cbb_add_length_prefixed malloc d 2 s"

definition CBB_add_u24_length_prefixed :: "allocator \<Rightarrow> nat \<Rightarrow> cbb \<Rightarrow> bool \<times> cbb" where
  "CBB_add_u24_length_prefixed malloc d s = cbb_add_length_prefixed malloc d 3 s"

definition CBB_add_u8 :: "allocator \<Rightarrow> nat \<Rightarrow> u8 \<Rightarrow> cbb \<Rightarrow> bool \<times> cbb" where
  "CBB_add_u8 malloc d v s =
     and_then (CBB_flush malloc d s) (on_base (\<lambda>base. cbb_buffer_add_u malloc base (ucast v) 1))"

definition CBB_add_u16 :: "allocator \<Rightarrow> nat \<Rightarrow> u16 \<Rightarrow> cbb \<Rightarrow> bool \<times> cbb" where
  "CBB_add_u16 malloc d v s =
     and_then (CBB_flush malloc d s) (on_base (\<lambda>base. cbb_buffer_add_u malloc base (ucast v) 2))"

definition CBB_add_u24 :: "allocator \<Rightarrow> nat \<Rightarrow> u32 \<Rightarrow> cbb \<Rightarrow> bool \<times> cbb" where
  "CBB_add_u24 malloc d v s =
     and_then (CBB_flush malloc d s) (on_base (\<lambda>base. cbb_buffer_add_u malloc base v 3))"

definition CBB_add_u32 :: "allocator \<Rightarrow> nat \<Rightarrow> u32 \<Rightarrow> cbb \<Rightarrow> bool \<times> cbb" where
  "CBB_add_u32 malloc d v s =
     and_then (CBB_flush malloc d s) (on_base (\<lambda>base. cbb_buffer_add_u malloc base v 4))"

definition CBB_add_bytes :: "allocator \<Rightarrow> nat \<Rightarrow> bytes \<Rightarrow> cbb \<Rightarrow> bool \<times> cbb" where
  "CBB_add_bytes malloc d data s =
     and_then (CBB_flush malloc d s) (on_base (\<lambda>base.
       case cbb_buffer_add malloc base (length data) of
         (False, base') \<Rightarrow> (False, base')
       | (True, base') \<Rightarrow> (True, bb_put (bb_len base' - length data) data base')))"

text \<open>
  \<open>CBB_add_space\<close> and \<open>CBB_reserve\<close> hand out a pointer into the buffer, here its offset;
  \<open>cbb_poke\<close> is what the caller writes through it.
\<close>

definition CBB_add_space :: "allocator \<Rightarrow> nat \<Rightarrow> nat \<Rightarrow> cbb \<Rightarrow> nat option \<times> cbb" where
  "CBB_add_space malloc d len s =
     (case CBB_flush malloc d s of
        (False, s') \<Rightarrow> (None, s')
      | (True, s') \<Rightarrow>
          (case on_base (\<lambda>base. cbb_buffer_add malloc base len) s' of
             (False, s'') \<Rightarrow> (None, s'')
           | (True, s'') \<Rightarrow> (Some (base_len s'), s'')))"

definition CBB_reserve :: "allocator \<Rightarrow> nat \<Rightarrow> nat \<Rightarrow> cbb \<Rightarrow> nat option \<times> cbb" where
  "CBB_reserve malloc d len s =
     (case CBB_flush malloc d s of
        (False, s') \<Rightarrow> (None, s')
      | (True, s') \<Rightarrow>
          (case on_base (\<lambda>base. cbb_buffer_reserve malloc base len) s' of
             (False, s'') \<Rightarrow> (None, s'')
           | (True, s'') \<Rightarrow> (Some (base_len s'), s'')))"

definition cbb_poke :: "nat \<Rightarrow> bytes \<Rightarrow> cbb \<Rightarrow> cbb" where
  "cbb_poke i bs s = s\<lparr>cb_base := map_option (bb_put i bs) (cb_base s)\<rparr>"

definition CBB_did_write :: "nat \<Rightarrow> nat \<Rightarrow> cbb \<Rightarrow> bool \<times> cbb" where
  "CBB_did_write d len s =
     on_base (\<lambda>base.
       let newlen = add_size (bb_len base) len in
       if d < length (cb_children s) \<or> newlen < bb_len base \<or> newlen > bb_cap base
       then (False, base) else (True, base\<lparr>bb_len := newlen\<rparr>)) s"

definition CBB_discard_child :: "nat \<Rightarrow> cbb \<Rightarrow> cbb" where
  "CBB_discard_child d s =
     (if d < length (cb_children s) then
        s\<lparr>cb_base := map_option (\<lambda>b. b\<lparr>bb_len := cf_offset (cb_children s ! d)\<rparr>) (cb_base s),
          cb_children := take d (cb_children s)\<rparr>
      else s)"

text \<open>
  \<open>CBB_finish\<close>: the first \<open>*out_len\<close> bytes at \<open>*out_data\<close>. \<open>outs\<close> is whether both output pointers are
  non-null. The buffer goes to the caller and the builder is released.
\<close>

definition CBB_finish :: "allocator \<Rightarrow> nat \<Rightarrow> bool \<Rightarrow> cbb \<Rightarrow> bytes option \<times> cbb" where
  "CBB_finish malloc d outs s =
     (if d \<noteq> 0 then (None, s)
      else
        (case CBB_flush malloc d s of
           (False, s') \<Rightarrow> (None, s')
         | (True, s') \<Rightarrow>
             (case cb_base s' of
                None \<Rightarrow> (None, s')
              | Some base \<Rightarrow>
                  if bb_can_resize base \<and> \<not> outs then (None, s')
                  else (Some (take (bb_len base) (bb_buf base)), CBB_cleanup s'))))"

section \<open>ASN.1\<close>

fun base128_len :: "nat \<Rightarrow> u64 \<Rightarrow> nat" where
  "base128_len 0 v = 0"
| "base128_len (Suc n) v = (if v = 0 then 0 else Suc (base128_len n (drop_bit 7 v)))"

fun add_base128_loop :: "allocator \<Rightarrow> nat \<Rightarrow> u64 \<Rightarrow> nat \<Rightarrow> cbb \<Rightarrow> bool \<times> cbb" where
  "add_base128_loop malloc d v 0 s = (True, s)"
| "add_base128_loop malloc d v (Suc i) s =
     (let byte = ucast (drop_bit (7 * i) v) AND 0x7f;
          byte = (if i \<noteq> 0 then byte OR 0x80 else byte)
      in and_then (CBB_add_u8 malloc d byte s) (add_base128_loop malloc d v i))"

text \<open>A 64-bit value has at most ten base-128 digits.\<close>

definition add_base128_integer :: "allocator \<Rightarrow> nat \<Rightarrow> u64 \<Rightarrow> cbb \<Rightarrow> bool \<times> cbb" where
  "add_base128_integer malloc d v s =
     (let len_len = base128_len 10 v; len_len = (if len_len = 0 then 1 else len_len)
      in add_base128_loop malloc d v len_len s)"

definition CBB_add_asn1 :: "allocator \<Rightarrow> nat \<Rightarrow> u32 \<Rightarrow> cbb \<Rightarrow> bool \<times> cbb" where
  "CBB_add_asn1 malloc d tag s =
     and_then (CBB_flush malloc d s) (\<lambda>s.
       let tag_bits = ucast (drop_bit CBS_ASN1_TAG_SHIFT tag) AND 0xe0;
           tag_number = tag AND CBS_ASN1_TAG_NUMBER_MASK in
       and_then
         (if 0x1f \<le> tag_number then
            and_then (CBB_add_u8 malloc d (tag_bits OR 0x1f) s)
              (add_base128_integer malloc d (ucast tag_number))
          else CBB_add_u8 malloc d (tag_bits OR ucast tag_number) s) (\<lambda>s.
         let offset = base_len s in
         and_then (CBB_add_u8 malloc d 0 s) (\<lambda>s.
           (True, open_child d \<lparr>cf_offset = offset, cf_pending_len_len = 1,
                    cf_pending_is_asn1 = True\<rparr> s))))"

fun asn1_uint64_bytes :: "allocator \<Rightarrow> nat \<Rightarrow> u64 \<Rightarrow> nat \<Rightarrow> bool \<Rightarrow> cbb \<Rightarrow> bool \<times> cbb" where
  "asn1_uint64_bytes malloc d v 0 started s =
     (if \<not> started then CBB_add_u8 malloc d 0 s else (True, s))"
| "asn1_uint64_bytes malloc d v (Suc n) started s =
     (let byte = ucast (drop_bit (8 * n) v) AND 0xff :: u8 in
      if \<not> started then
        if byte = 0 then asn1_uint64_bytes malloc d v n started s
        else
          and_then (if byte AND 0x80 \<noteq> 0 then CBB_add_u8 malloc d 0 s else (True, s)) (\<lambda>s.
            and_then (CBB_add_u8 malloc d byte s) (asn1_uint64_bytes malloc d v n True))
      else and_then (CBB_add_u8 malloc d byte s) (asn1_uint64_bytes malloc d v n started))"

definition CBB_add_asn1_uint64 :: "allocator \<Rightarrow> nat \<Rightarrow> u64 \<Rightarrow> cbb \<Rightarrow> bool \<times> cbb" where
  "CBB_add_asn1_uint64 malloc d v s =
     and_then (CBB_add_asn1 malloc d CBS_ASN1_INTEGER s) (\<lambda>s.
       and_then (asn1_uint64_bytes malloc (d + 1) v 8 False s) (CBB_flush malloc d))"

definition CBB_add_asn1_octet_string :: "allocator \<Rightarrow> nat \<Rightarrow> bytes \<Rightarrow> cbb \<Rightarrow> bool \<times> cbb" where
  "CBB_add_asn1_octet_string malloc d data s =
     and_then (CBB_add_asn1 malloc d CBS_ASN1_OCTETSTRING s) (\<lambda>s.
       and_then (CBB_add_bytes malloc (d + 1) data s) (CBB_flush malloc d))"

definition CBB_add_asn1_bool :: "allocator \<Rightarrow> nat \<Rightarrow> int \<Rightarrow> cbb \<Rightarrow> bool \<times> cbb" where
  "CBB_add_asn1_bool malloc d v s =
     and_then (CBB_add_asn1 malloc d CBS_ASN1_BOOLEAN s) (\<lambda>s.
       and_then (CBB_add_u8 malloc (d + 1) (if v \<noteq> 0 then 0xff else 0) s) (CBB_flush malloc d))"

section \<open>Object identifiers as text\<close>

fun dotted_decimal_loop :: "u64 \<Rightarrow> bool \<Rightarrow> cbs \<Rightarrow> u64 option \<times> cbs" where
  "dotted_decimal_loop out seen_digit [] = (if seen_digit then Some out else None, [])"
| "dotted_decimal_loop out seen_digit (u # s) =
     (if u = 0x2E \<and> length s > 0 then (if seen_digit then Some out else None, s)
      else if u < 0x30 \<or> u > 0x39 \<or> (seen_digit \<and> out = 0) \<or>
              out > 0xFFFFFFFFFFFFFFFF div 10 \<or>
              out * 10 > 0xFFFFFFFFFFFFFFFF - (ucast u - 0x30)
           then (None, s)
      else dotted_decimal_loop (out * 10 + (ucast u - 0x30)) True s)"

definition parse_dotted_decimal :: "cbs \<Rightarrow> u64 option \<times> cbs" where
  "parse_dotted_decimal s = dotted_decimal_loop 0 False s"

lemma dotted_decimal_loop_shorter:
  "dotted_decimal_loop out seen s = (Some r, s') \<Longrightarrow> s' = [] \<or> length s' < length s"
  by (induction out seen s rule: dotted_decimal_loop.induct) (auto split: if_splits)

function oid_components :: "allocator \<Rightarrow> nat \<Rightarrow> cbs \<Rightarrow> cbb \<Rightarrow> bool \<times> cbb" where
  "oid_components malloc d text s =
     (if text = [] then (True, s)
      else
        (case parse_dotted_decimal text of
           (None, _) \<Rightarrow> (False, s)
         | (Some a, text') \<Rightarrow>
             (case add_base128_integer malloc d a s of
                (False, s') \<Rightarrow> (False, s')
              | (True, s') \<Rightarrow> oid_components malloc d text' s')))"
  by pat_completeness auto
termination
  by (relation "measure (\<lambda>(_, _, text, _). length text)")
     (auto simp: parse_dotted_decimal_def dest!: sym [of _ "dotted_decimal_loop _ _ _"]
       dest: dotted_decimal_loop_shorter)

declare oid_components.simps [simp del]

definition CBB_add_asn1_oid_from_text :: "allocator \<Rightarrow> nat \<Rightarrow> bytes \<Rightarrow> cbb \<Rightarrow> bool \<times> cbb" where
  "CBB_add_asn1_oid_from_text malloc d text s =
     and_then (CBB_flush malloc d s) (\<lambda>s.
       case parse_dotted_decimal text of
         (None, _) \<Rightarrow> (False, s)
       | (Some a, text1) \<Rightarrow>
      (case parse_dotted_decimal text1 of
         (None, _) \<Rightarrow> (False, s)
       | (Some b, text2) \<Rightarrow>
           if a > 2 \<or> (a < 2 \<and> b > 39) \<or> b > 0xFFFFFFFFFFFFFFFF - 80 then (False, s)
           else and_then (add_base128_integer malloc d (40 * a + b) s)
                  (oid_components malloc d text2)))"

text \<open>\<open>BIO_snprintf\<close> with \<open>PRIu64\<close>: the decimal digits of a number.\<close>

function decimal :: "nat \<Rightarrow> bytes" where
  "decimal n = (if n < 10 then [of_nat (48 + n)] else decimal (n div 10) @ [of_nat (48 + n mod 10)])"
  by pat_completeness auto
termination by (relation "measure id") auto

declare decimal.simps [simp del]

definition add_decimal :: "allocator \<Rightarrow> nat \<Rightarrow> u64 \<Rightarrow> cbb \<Rightarrow> bool \<times> cbb" where
  "add_decimal malloc d v s = CBB_add_bytes malloc d (decimal (unat v)) s"

lemma parse_base128_loop_shorter:
  "parse_base128_loop v s = (r, s') \<Longrightarrow> s' = [] \<or> length s' < length s"
  by (induction v s rule: parse_base128_loop.induct) (auto simp: Let_def split: if_splits)

function oid_text_components :: "allocator \<Rightarrow> cbs \<Rightarrow> cbb \<Rightarrow> bool \<times> cbb" where
  "oid_text_components malloc copy s =
     (if copy = [] then (True, s)
      else
        (case parse_base128_integer copy of
           (None, _) \<Rightarrow> (False, s)
         | (Some v, copy') \<Rightarrow>
             (case and_then (CBB_add_u8 malloc 0 0x2E s) (add_decimal malloc 0 v) of
                (False, s') \<Rightarrow> (False, s')
              | (True, s') \<Rightarrow> oid_text_components malloc copy' s')))"
  by pat_completeness auto
termination
  by (relation "measure (\<lambda>(_, copy, _). length copy)")
     (auto simp: parse_base128_integer_def dest!: sym [of _ "parse_base128_loop _ _"]
       dest: parse_base128_loop_shorter)

declare oid_text_components.simps [simp del]

text \<open>The returned string with its terminating NUL; \<open>None\<close> is the null pointer.\<close>

definition CBS_asn1_oid_to_text :: "allocator \<Rightarrow> bool \<Rightarrow> cbs \<Rightarrow> bytes option" where
  "CBS_asn1_oid_to_text malloc ok cs =
     (case CBB_init malloc ok 32 of
        (False, _) \<Rightarrow> None
      | (True, s) \<Rightarrow>
     (case parse_base128_integer cs of
        (None, _) \<Rightarrow> None
      | (Some v, copy) \<Rightarrow>
     (case and_then
             (if 80 \<le> v then
                and_then (CBB_add_bytes malloc 0 [0x32, 0x2E] s) (add_decimal malloc 0 (v - 80))
              else
                and_then (add_decimal malloc 0 (v div 40) s) (\<lambda>s.
                  and_then (CBB_add_u8 malloc 0 0x2E s) (add_decimal malloc 0 (v mod 40))))
             (\<lambda>s. and_then (oid_text_components malloc copy s) (CBB_add_u8 malloc 0 0)) of
        (False, _) \<Rightarrow> None
      | (True, s) \<Rightarrow> fst (CBB_finish malloc 0 True s))))"

section \<open>SET OF\<close>

fun compare_bytes :: "bytes \<Rightarrow> bytes \<Rightarrow> int" where
  "compare_bytes (a # as) (b # bs) =
     (if a < b then - 1 else if b < a then 1 else compare_bytes as bs)"
| "compare_bytes _ _ = 0"

text \<open>\<open>compare_bytes\<close> is the sign of \<open>memcmp\<close> over the length of the shorter argument.\<close>

definition compare_set_of_element :: "cbs \<Rightarrow> cbs \<Rightarrow> int" where
  "compare_set_of_element a b =
     (let min_len = (if length a < length b then length a else length b);
          ret = compare_bytes (take min_len a) (take min_len b) in
      if ret \<noteq> 0 then ret
      else if length a = length b then 0
      else if length a < length b then - 1 else 1)"

text \<open>
  The children of the set, \<open>None\<close> where one does not parse. The C code parses them twice, once to
  count them and once, from a copy of the buffer, to keep them. The fuel is the number of bytes left.
\<close>

fun set_of_children :: "nat \<Rightarrow> cbs \<Rightarrow> cbs list option" where
  "set_of_children 0 cs = (if cs = [] then Some [] else None)"
| "set_of_children (Suc n) cs =
     (if cs = [] then Some []
      else
        (case CBS_get_any_asn1_element cs of
           (None, _) \<Rightarrow> None
         | (Some (out, _, _), cs') \<Rightarrow> map_option ((#) out) (set_of_children n cs')))"

fun add_children :: "allocator \<Rightarrow> nat \<Rightarrow> cbs list \<Rightarrow> cbb \<Rightarrow> bool \<times> cbb" where
  "add_children malloc d [] s = (True, s)"
| "add_children malloc d (c # cs) s = and_then (CBB_add_bytes malloc d c s) (add_children malloc d cs)"

text \<open>
  \<open>qsort\<close> is the C library's, a parameter; \<open>ok\<close> is whether the array of children is allocated;
  \<open>sizeof(CBS)\<close> is 16.
\<close>

definition CBB_flush_asn1_set_of ::
  "allocator \<Rightarrow> bool \<Rightarrow> ((cbs \<Rightarrow> cbs \<Rightarrow> int) \<Rightarrow> cbs list \<Rightarrow> cbs list) \<Rightarrow> nat \<Rightarrow> cbb \<Rightarrow> bool \<times> cbb" where
  "CBB_flush_asn1_set_of malloc ok qsort d s =
     and_then (CBB_flush malloc d s) (\<lambda>s.
       let data = CBB_data d s in
       case set_of_children (length data) data of
         None \<Rightarrow> (False, s)
       | Some found \<Rightarrow>
           if length found < 2 then (True, s)
           else if length found > (2 ^ 64 - 1) div 16 then (False, s)
           else
             (case BUF_memdup malloc data of
                None \<Rightarrow> (False, s)
              | Some buf \<Rightarrow>
                  if \<not> ok then (False, s)
                  else
                    (case set_of_children (length buf) buf of
                       None \<Rightarrow> (False, s)
                     | Some children \<Rightarrow>
                         let f = frame_at d s in
                         and_then
                           (on_base (\<lambda>base.
                              (True, base\<lparr>bb_len := cf_offset f + cf_pending_len_len f\<rparr>)) s)
                           (add_children malloc d (qsort compare_set_of_element children)))))"

section \<open>Legacy output\<close>

text \<open>
  \<open>CBB_finish_i2d\<close>: the length or -1, and the bytes written, to a fresh buffer or to the caller's.
\<close>

definition CBB_finish_i2d :: "allocator \<Rightarrow> cbb \<Rightarrow> int \<times> bytes" where
  "CBB_finish_i2d malloc s =
     (case fst (CBB_finish malloc 0 True s) of
        None \<Rightarrow> (- 1, [])
      | Some der \<Rightarrow> if length der > 0x7FFFFFFF then (- 1, []) else (int (length der), der))"

end
