(* ===== verification/Der.thy ===== *)
theory Der
  imports Cbs
begin

text \<open>
  The DER encoding as a specification, independent of both routines of the library: base-128
  integers, tags, lengths, elements. The parser of \<open>Cbs\<close> accepts exactly these encodings, so each
  element has one; the writer of \<open>Cbb\<close> produces them.
\<close>

section \<open>Big-endian integers\<close>

fun be_bytes :: "nat \<Rightarrow> nat \<Rightarrow> bytes" where
  "be_bytes 0 v = []"
| "be_bytes (Suc n) v = be_bytes n (v div 256) @ [of_nat v]"

lemma length_be_bytes [simp]: "length (be_bytes n v) = n"
  by (induction n v rule: be_bytes.induct) simp_all

lemma be_val_be_bytes: "be_val (be_bytes n v) = v mod 256 ^ n"
proof (induction n v rule: be_bytes.induct)
  case (2 n v)
  have "v mod (256 * 256 ^ n) = 256 * (v div 256 mod 256 ^ n) + v mod 256"
    by (rule mod_mult2_eq)
  with 2 show ?case by (simp add: unat_of_nat_u8)
qed simp

lemma be_bytes_be_val: "be_bytes (length bs) (be_val bs) = bs"
proof (induction bs rule: rev_induct)
  case (snoc b bs)
  then show ?case using u8_less [of b]
    by (simp add: u8_eq_iff unat_of_nat_u8 del: of_nat_add of_nat_mult)
qed simp

section \<open>Base-128 integers\<close>

function base128_hi :: "nat \<Rightarrow> bytes" where
  "base128_hi n = (if n = 0 then [] else base128_hi (n div 128) @ [of_nat (128 + n mod 128)])"
  by pat_completeness auto
termination by (relation "measure id") auto

declare base128_hi.simps [simp del]

definition base128 :: "nat \<Rightarrow> bytes" where
  "base128 n = base128_hi (n div 128) @ [of_nat (n mod 128)]"

lemma base128_hi_0 [simp]: "base128_hi 0 = []"
  by (simp add: base128_hi.simps)

lemma base128_hi_step:
  "0 < n \<Longrightarrow> base128_hi n = base128_hi (n div 128) @ [of_nat (128 + n mod 128)]"
  by (simp add: base128_hi.simps [of n])

lemma base128_not_Nil [simp]: "base128 n \<noteq> []"
  by (simp add: base128_def)

lemma base128_accumulate:
  fixes v :: u64 and b :: u8
  assumes "unat v < 2 ^ 57"
  shows "unat (push_bit 7 v OR ucast (b AND 0x7F)) = unat v * 128 + unat b mod 128"
proof -
  have "unat (push_bit 7 v OR ucast (b AND 0x7F)) = unat v * 2 ^ 7 + unat (ucast (b AND 0x7F) :: u64)"
    by (rule unat_push_or) (use assms in \<open>simp_all add: unat_and_0x7F\<close>)
  then show ?thesis by (simp add: unat_and_0x7F)
qed

text \<open>The digits already read determine the accumulator: the loop continues from its value.\<close>

lemma parse_base128_loop_hi:
  "n < 2 ^ 64 \<Longrightarrow> parse_base128_loop 0 (base128_hi n @ s) = parse_base128_loop (of_nat n) s"
proof (induction n arbitrary: s rule: base128_hi.induct)
  case (1 n)
  show ?case
  proof (cases "n = 0")
    case False
    define q where "q = (of_nat (n div 128) :: u64)"
    define d where "d = (of_nat (128 + n mod 128) :: u8)"
    have q: "unat q = n div 128" using "1.prems" by (simp add: q_def unat_of_nat)
    have d: "unat d = 128 + n mod 128" by (simp only: d_def unat_of_nat_u8) simp
    have small: "unat q < 2 ^ 57" using "1.prems" q by simp
    have m: "\<not> (q = 0 \<and> d = 0x80)"
    proof
      assume "q = 0 \<and> d = 0x80"
      then have "unat q = 0" "unat d = 128" by simp_all
      with q d have "n div 128 = 0" "n mod 128 = 0" by simp_all
      with False show False using div_mult_mod_eq [of n 128] by simp
    qed
    have v: "push_bit 7 q OR ucast (d AND 0x7F) = (of_nat n :: u64)"
      using base128_accumulate [OF small, of d] "1.prems"
      by (simp add: word_unat_eq_iff q d unat_of_nat)
    have c: "d AND 0x80 \<noteq> 0" by (simp only: and_0x80_iff d)
    have "parse_base128_loop 0 (base128_hi n @ s) = parse_base128_loop q (d # s)"
      using "1.IH" [OF False] "1.prems" by (subst base128_hi_step) (use False in \<open>simp_all add: q_def d_def\<close>)
    also have "\<dots> = parse_base128_loop (of_nat n) s"
      using drop_bit_eq_0_iff [THEN iffD2, OF small] m c v
      by (simp only: parse_base128_loop.simps Let_def) auto
    finally show ?thesis .
  qed simp
qed

lemma parse_base128_integer_base128:
  assumes "n < 2 ^ 64"
  shows "parse_base128_integer (base128 n @ s) = (Some (of_nat n), s)"
proof -
  define q where "q = (of_nat (n div 128) :: u64)"
  define d where "d = (of_nat (n mod 128) :: u8)"
  have q: "unat q = n div 128" using assms by (simp add: q_def unat_of_nat)
  have d: "unat d = n mod 128" by (simp add: d_def unat_of_nat_u8)
  have d': "unat d < 128" by (simp add: d)
  have small: "unat q < 2 ^ 57" using assms q by simp
  have v: "push_bit 7 q OR ucast (d AND 0x7F) = (of_nat n :: u64)"
    using base128_accumulate [OF small, of d] assms
    by (simp add: word_unat_eq_iff q d unat_of_nat)
  have c: "d AND 0x80 = 0" using and_0x80_iff [of d] d' by linarith
  have m: "d \<noteq> 0x80" using d' by auto
  have "parse_base128_integer (base128 n @ s) = parse_base128_loop q (d # s)"
    using parse_base128_loop_hi [of "n div 128" "d # s"] assms
    by (simp add: parse_base128_integer_def base128_def q_def d_def)
  also have "\<dots> = (Some (of_nat n), s)"
    using drop_bit_eq_0_iff [THEN iffD2, OF small] m c v
    by (simp only: parse_base128_loop.simps Let_def) auto
  finally show ?thesis .
qed

text \<open>Conversely, what the parser accepts is the encoding of what it returns.\<close>

lemma parse_base128_loop_Some:
  "parse_base128_loop v s = (Some r, s') \<Longrightarrow>
   \<exists>ds. s = ds @ s' \<and> base128_hi (unat v) @ ds = base128 (unat r)"
proof (induction v s rule: parse_base128_loop.induct)
  case (2 v b s)
  let ?v = "push_bit 7 v OR ucast (b AND 0x7F)"
  have z: "drop_bit (64 - 7) v = 0" and m: "\<not> (v = 0 \<and> b = 0x80)"
    using "2.prems" by (simp_all split: if_splits)
  then have small: "unat v < 2 ^ 57" by (simp only: drop_bit_eq_0_iff) simp
  have v: "unat ?v = unat v * 128 + unat b mod 128" by (rule base128_accumulate [OF small])
  have loop: "parse_base128_loop v (b # s) =
      (if b AND 0x80 \<noteq> 0 then parse_base128_loop ?v s else (Some ?v, s))"
    using z m by (simp only: parse_base128_loop.simps Let_def) auto
  show ?case
  proof (cases "b AND 0x80 \<noteq> 0")
    case True
    then have b: "128 \<le> unat b" by (simp only: and_0x80_iff)
    have bm: "unat b = 128 + unat b mod 128" using b u8_less [of b] by (simp add: le_mod_geq)
    have "unat v \<noteq> 0 \<or> unat b \<noteq> 128" using m by (auto simp: word_unat_eq_iff)
    then have "0 < unat ?v" using bm v by linarith
    moreover have "unat ?v div 128 = unat v" "unat ?v mod 128 = unat b mod 128"
      by (simp_all only: v) simp_all
    ultimately have h: "base128_hi (unat ?v) = base128_hi (unat v) @ [b]"
      using base128_hi_step [of "unat ?v"] bm by (simp add: u8_eq_iff unat_of_nat_u8 del: of_nat_add)
    have "parse_base128_loop ?v s = (Some r, s')"
      using "2.prems" unfolding loop by (simp only: True if_True not_False_eq_True)
    from "2.IH" [OF _ _ refl True this] z m obtain ds where
      "s = ds @ s'" "base128_hi (unat ?v) @ ds = base128 (unat r)" by auto
    with h show ?thesis by (intro exI [of _ "b # ds"]) simp
  next
    case False
    then have "unat b < 128" by (simp only: and_0x80_iff not_le)
    moreover have "?v = r" "s = s'"
      using "2.prems" False unfolding loop by simp_all
    moreover have "unat ?v div 128 = unat v" "unat ?v mod 128 = unat b mod 128"
      by (simp_all only: v) simp_all
    ultimately show ?thesis
      by (intro exI [of _ "[b]"]) (simp add: base128_def u8_eq_iff unat_of_nat_u8)
  qed
qed simp

lemma parse_base128_integer_Some:
  "parse_base128_integer s = (Some r, s') \<Longrightarrow> s = base128 (unat r) @ s'"
  using parse_base128_loop_Some [of 0 s r s'] by (auto simp: parse_base128_integer_def)

section \<open>Tags\<close>

definition asn1_tag_bytes :: "u32 \<Rightarrow> bytes" where
  "asn1_tag_bytes tag =
     (let tag_bits = ucast (drop_bit CBS_ASN1_TAG_SHIFT tag) AND 0xe0 :: u8;
          tag_number = tag AND CBS_ASN1_TAG_NUMBER_MASK
      in if 0x1f \<le> tag_number then (tag_bits OR 0x1f) # base128 (unat tag_number)
         else [tag_bits OR ucast tag_number])"

lemma and_0xe0_u8: "(x :: u8) AND 0xe0 = push_bit 5 (drop_bit 5 x)"
proof -
  have "(0xe0 :: u8) = push_bit 5 (mask 3)" by (simp add: mask_eq_exp_minus_1)
  show ?thesis
    by (simp only: \<open>0xe0 = _\<close>, rule bit_word_eqI) (auto simp: bit_simps)
qed

lemma and_0xe0_u32: "(x :: u32) AND 0xe0 = push_bit 5 (take_bit 3 (drop_bit 5 x))"
proof -
  have "(0xe0 :: u32) = push_bit 5 (mask 3)" by (simp add: mask_eq_exp_minus_1)
  show ?thesis
    by (simp only: \<open>0xe0 = _\<close>, rule bit_word_eqI) (auto simp: bit_simps)
qed

lemma and_0x1f: "(x :: 'a::len word) AND 0x1f = take_bit 5 x"
  using mask_eq_exp_minus_1 [of 5, where ?'a = "'a word"] by (simp add: take_bit_eq_mask)

lemma and_0x1FFFFFFF: "(x :: 'a::len word) AND 0x1FFFFFFF = take_bit 29 x"
  using mask_eq_exp_minus_1 [of 29, where ?'a = "'a word"] by (simp add: take_bit_eq_mask)

lemmas tag_masks = and_0xe0_u8 and_0xe0_u32 and_0x1f and_0x1FFFFFFF

lemma tag_split:
  fixes tb :: u8 and m :: u32
  assumes "unat m < 2 ^ 29"
  defines "t \<equiv> push_bit 24 (ucast tb AND 0xe0) OR m"
  shows "t AND 0x1FFFFFFF = m" and "ucast (drop_bit 24 t) AND 0xe0 = tb AND 0xe0"
proof -
  have m: "i < 29" if "bit m i" for i using not_bit_above [OF assms(1)] that by (meson not_less)
  show "t AND 0x1FFFFFFF = m"
    unfolding t_def tag_masks by (rule bit_word_eqI) (auto simp: bit_simps dest: m)
  show "ucast (drop_bit 24 t) AND 0xe0 = tb AND 0xe0"
    unfolding t_def tag_masks by (rule bit_word_eqI) (auto simp: bit_simps dest: m)
qed

lemma tag_join:
  fixes t :: u32 and x :: u8
  assumes "unat x < 32"
  shows "push_bit 24 (ucast ((ucast (drop_bit 24 t) AND 0xe0) OR x) AND 0xe0) OR (t AND 0x1FFFFFFF) = t"
    and "((ucast (drop_bit 24 t) AND 0xe0) OR x) AND 0x1f = x"
proof -
  have x5: "unat x < 2 ^ 5" using assms by simp
  have x: "i < 5" if "bit x i" for i using not_bit_above [OF x5] that by (meson not_less)
  show "push_bit 24 (ucast ((ucast (drop_bit 24 t) AND 0xe0) OR x) AND 0xe0) OR (t AND 0x1FFFFFFF) = t"
    unfolding tag_masks by (rule bit_word_eqI) (auto simp: bit_simps dest: x)
  show "((ucast (drop_bit 24 t) AND 0xe0) OR x) AND 0x1f = x"
    unfolding tag_masks by (rule bit_word_eqI) (auto simp: bit_simps dest: x)
qed

lemma parse_asn1_tag_tag_bytes: "parse_asn1_tag (asn1_tag_bytes tag @ s) = (Some tag, s)"
proof -
  let ?m = "tag AND CBS_ASN1_TAG_NUMBER_MASK"
  have m: "unat ?m < 2 ^ 29"
    by (simp only: tag_masks unsigned_take_bit_eq take_bit_nat_less_exp)
  show ?thesis
  proof (cases "0x1f \<le> ?m")
    case True
    have "unat (0x1f :: u8) < 32" by simp
    note j = tag_join [OF this, of tag]
    have u: "unat (of_nat (unat ?m) :: u64) = unat ?m" using m by (simp add: unat_of_nat)
    have le: "\<not> (of_nat (unat ?m) :: u64) > ucast CBS_ASN1_TAG_NUMBER_MASK"
      using m by (simp add: word_less_nat_alt u)
    have ge: "\<not> (of_nat (unat ?m) :: u64) < 0x1f"
      using True by (simp add: word_less_nat_alt word_le_nat_alt u)
    have v: "ucast (of_nat (unat ?m) :: u64) = ?m"
      by (simp add: ucast_ucast_up)
    have "unat ?m < 2 ^ 64" using m by simp
    note p = parse_base128_integer_base128 [OF this, of s]
    show ?thesis using True j le ge v p
      by (simp add: parse_asn1_tag_def asn1_tag_bytes_def CBS_get_u8_def cbs_get_def Let_def)
  next
    case False
    then have f: "unat (ucast ?m :: u8) = unat ?m"
      by (simp add: word_le_nat_alt unsigned_ucast_eq take_bit_nat_eq_self)
    with False have "unat (ucast ?m :: u8) < 32" by (simp add: word_le_nat_alt)
    note j = tag_join [OF this, of tag]
    have v: "(ucast (ucast ?m :: u8) :: u32) = ?m" using f by (simp add: word_unat_eq_iff)
    have n: "?m \<noteq> 0x1f" using False by auto
    show ?thesis using False j v n
      by (simp add: parse_asn1_tag_def asn1_tag_bytes_def CBS_get_u8_def cbs_get_def Let_def)
  qed
qed


lemma ucast_u8_eq_iff: "(ucast (b :: u8) :: u32) = ucast c \<longleftrightarrow> b = c"
  by (simp add: word_unat_eq_iff)

lemma parse_asn1_tag_Cons:
  "parse_asn1_tag (tb # s) =
     (if tb AND 0x1f = 0x1f then
        (case parse_base128_integer s of
           (None, s') \<Rightarrow> (None, s')
         | (Some v, s') \<Rightarrow>
             if v > ucast CBS_ASN1_TAG_NUMBER_MASK \<or> v < 0x1f then (None, s')
             else (Some (push_bit 24 (ucast tb AND 0xe0) OR ucast v), s'))
      else (Some (push_bit 24 (ucast tb AND 0xe0) OR ucast (tb AND 0x1f)), s))"
proof -
  have "(ucast (tb AND 0x1f) :: u32) = 0x1f \<longleftrightarrow> tb AND 0x1f = 0x1f"
    using ucast_u8_eq_iff [of "tb AND 0x1f" "0x1f"] by simp
  then show ?thesis
    by (simp add: parse_asn1_tag_def CBS_get_u8_def cbs_get_def Let_def split: option.split prod.split)
qed

lemma parse_asn1_tag_Some:
  assumes "parse_asn1_tag s = (Some tag, s')"
  shows "s = asn1_tag_bytes tag @ s'"
proof (cases s)
  case Nil
  with assms show ?thesis by (simp add: parse_asn1_tag_def CBS_get_u8_def cbs_get_def)
next
  case (Cons tb s1)
  let ?bits = "push_bit 24 (ucast tb AND 0xe0) :: u32"
  have tb: "(tb AND 0xe0) OR (tb AND 0x1f) = tb"
    unfolding tag_masks by (rule bit_word_eqI) (auto simp: bit_simps)
  show ?thesis
  proof (cases "tb AND 0x1f = 0x1f")
    case True
    obtain r s2 where r: "parse_base128_integer s1 = (r, s2)" by (cases "parse_base128_integer s1")
    from assms [unfolded Cons parse_asn1_tag_Cons r if_P [OF True]] obtain v where
      v: "parse_base128_integer s1 = (Some v, s')" "\<not> v > ucast CBS_ASN1_TAG_NUMBER_MASK" "\<not> v < 0x1f"
      and t: "tag = ?bits OR ucast v"
      using r by (cases r) (simp_all split: if_splits)
    have u: "unat (ucast v :: u32) = unat v"
      using v(2) by (simp add: word_less_nat_alt unsigned_ucast_eq take_bit_nat_eq_self)
    have "unat (ucast v :: u32) < 2 ^ 29" using v(2) by (simp add: word_less_nat_alt u)
    note sp = tag_split [OF this, of tb, folded t]
    have "0x1f \<le> (ucast v :: u32)" using v(3) by (simp add: word_le_nat_alt word_less_nat_alt u)
    with sp parse_base128_integer_Some [OF v(1)] Cons True tb u show ?thesis
      by (simp add: asn1_tag_bytes_def Let_def)
  next
    case False
    have l: "unat (tb AND 0x1f) < 32"
      by (simp only: and_0x1f unsigned_take_bit_eq) (rule less_le_trans [OF take_bit_nat_less_exp], simp)
    have u: "unat (ucast (tb AND 0x1f) :: u32) = unat (tb AND 0x1f)" by simp
    have ne: "(ucast (tb AND 0x1f) :: u32) \<noteq> 0x1f"
      using False ucast_u8_eq_iff [of "tb AND 0x1f" "0x1f"] by simp
    from assms [unfolded Cons parse_asn1_tag_Cons if_not_P [OF False]]
    have t: "tag = ?bits OR ucast (tb AND 0x1f)" "s' = s1" by simp_all
    have "unat (ucast (tb AND 0x1f) :: u32) < 2 ^ 29" using l u by simp
    note sp = tag_split [OF this, of tb, folded t(1)]
    have "\<not> 0x1f \<le> (ucast (tb AND 0x1f) :: u32)"
      using l ne by (auto simp: word_le_nat_alt word_unat_eq_iff u)
    moreover have "ucast (ucast (tb AND 0x1f) :: u32) = tb AND 0x1f" by simp
    ultimately show ?thesis using sp Cons tb t(2)
      by (simp add: asn1_tag_bytes_def Let_def)
  qed
qed

section \<open>Lengths and elements\<close>

definition der_len_len :: "nat \<Rightarrow> nat" where
  "der_len_len n = (if n \<le> 0xff then 1 else if n \<le> 0xffff then 2 else if n \<le> 0xffffff then 3 else 4)"

definition der_length :: "nat \<Rightarrow> bytes" where
  "der_length n =
     (if n < 128 then [of_nat n] else of_nat (128 + der_len_len n) # be_bytes (der_len_len n) n)"

definition der_header :: "u32 \<Rightarrow> nat \<Rightarrow> bytes" where
  "der_header tag n = asn1_tag_bytes tag @ der_length n"

definition der_element :: "u32 \<Rightarrow> bytes \<Rightarrow> bytes" where
  "der_element tag body = der_header tag (length body) @ body"

lemma der_len_len_unique:
  assumes "1 \<le> k" and "k \<le> 4" and "256 ^ (k - 1) \<le> n" and "n < 256 ^ k"
  shows "der_len_len n = k"
proof -
  have "k \<in> {1, 2, 3, 4}" using assms(1,2) by auto
  with assms(3,4) show ?thesis by (auto simp: der_len_len_def)
qed

lemma der_len_len_bounds:
  assumes "n < 2 ^ 32"
  shows "1 \<le> der_len_len n" and "der_len_len n \<le> 4" and "n < 256 ^ der_len_len n"
    and "der_len_len n \<noteq> 1 \<Longrightarrow> 256 ^ (der_len_len n - 1) \<le> n"
  using assms by (auto simp: der_len_len_def)

lemma fold_be_val:
  "length data \<le> 4 \<Longrightarrow>
   unat (foldl (\<lambda>result b. push_bit 8 result OR ucast b) (0 :: u32) data) = be_val data"
proof (induction data rule: rev_induct)
  case (snoc b bs)
  let ?f = "foldl (\<lambda>result b. push_bit 8 result OR ucast b) (0 :: u32) bs"
  have IH: "unat ?f = be_val bs" using snoc by simp
  have "be_val bs < 256 ^ length bs" by (rule be_val_less)
  also have "\<dots> \<le> 256 ^ 3" using snoc.prems by (intro power_increasing) simp_all
  finally have "unat ?f * 2 ^ 8 < 2 ^ LENGTH(32)" using IH by simp
  from unat_push_or [OF this, of "ucast b"] u8_less [of b] IH show ?case by simp
qed simp

lemma cbs_get_u_append:
  assumes "length ds \<le> 4"
  obtains w where "cbs_get_u (ds @ s) (length ds) = (Some w, s)" and "unat w = be_val ds"
proof
  show "cbs_get_u (ds @ s) (length ds) =
    (Some (foldl (\<lambda>result b. push_bit 8 result OR ucast b) 0 ds), s)"
    by (simp add: cbs_get_u_def cbs_get_def)
qed (rule fold_be_val [OF assms])

lemma cbs_get_u_Some:
  assumes "cbs_get_u s k = (Some w, s')" and "k \<le> 4"
  obtains ds where "s = ds @ s'" and "length ds = k" and "unat w = be_val ds"
proof
  from assms(1) have k: "k \<le> length s" "s' = drop k s"
    "w = foldl (\<lambda>result b. push_bit 8 result OR ucast b) 0 (take k s)"
    by (auto simp: cbs_get_u_def cbs_get_def split: if_splits)
  then show "s = take k s @ s'" and "length (take k s) = k" by simp_all
  show "unat w = be_val (take k s)" unfolding k(3) by (rule fold_be_val) (use assms(2) in simp)
qed

lemma cbs_get_append [simp]: "cbs_get (ds @ s) (length ds) = (Some ds, s)"
  by (simp add: cbs_get_def)

lemma get_element_append:
  "s' = e @ s \<Longrightarrow> n = length e \<Longrightarrow> get_element s' n tag h = (Some (e, tag, h), s)"
  by (simp add: get_element_def CBS_get_bytes_def)

lemma get_element_Some:
  "get_element s n tag h = (Some (out, tag', h'), s') \<longleftrightarrow>
     s = out @ s' \<and> length out = n \<and> tag' = tag \<and> h' = h"
  by (auto simp: get_element_def CBS_get_bytes_def cbs_get_def split: if_splits)

lemma get_element_tag: "get_element s n t h = (Some (out, t', h'), s') \<Longrightarrow> t = t'"
  by (simp add: get_element_Some)

lemma CBS_get_u8_Cons: "CBS_get_u8 (b # s) = (Some b, s)"
  by (simp add: CBS_get_u8_def cbs_get_def)

lemma base128_hi_length: "n < 128 ^ k \<Longrightarrow> length (base128_hi n) \<le> k"
proof (induction k arbitrary: n)
  case (Suc k)
  then have "n div 128 < 128 ^ k" by (simp add: less_mult_imp_div_less)
  with Suc.IH [of "n div 128"] show ?case
    by (cases "n = 0") (simp_all add: base128_hi_step)
qed simp

lemma base128_length: "n < 128 ^ Suc k \<Longrightarrow> length (base128 n) \<le> Suc k"
  using base128_hi_length [of "n div 128" k] by (simp add: base128_def less_mult_imp_div_less)

lemma length_asn1_tag_bytes: "length (asn1_tag_bytes tag) \<le> 6"
proof -
  have "unat (tag AND CBS_ASN1_TAG_NUMBER_MASK) < 2 ^ 29"
    by (simp only: tag_masks unsigned_take_bit_eq take_bit_nat_less_exp)
  then have "unat (tag AND CBS_ASN1_TAG_NUMBER_MASK) < 128 ^ Suc 4" by simp
  from base128_length [OF this] show ?thesis by (simp add: asn1_tag_bytes_def Let_def)
qed

lemma cbs_get_any_asn1_element_cases:
  "cbs_get_any_asn1_element s ber_ok =
     (case parse_asn1_tag s of
        (Some tag, b # h) \<Rightarrow>
          if unat b < 128 then get_element s (unat b + (length s - length h)) tag (length s - length h)
          else
            let k = unat b mod 128 in
            if ber_ok \<and> tag AND CBS_ASN1_CONSTRUCTED \<noteq> 0 \<and> k = 0 then
              get_element s (length s - length h) tag (length s - length h)
            else if k = 0 \<or> k > 4 then (None, s)
            else
              (case cbs_get_u h k of
                 (None, _) \<Rightarrow> (None, s)
               | (Some w, _) \<Rightarrow>
                   if unat w < 128 \<or> unat w < 256 ^ (k - 1) then (None, s)
                   else
                     if add_size (add_size (unat w) (length s - length h)) k < unat w then (None, s)
                     else get_element s (add_size (unat w) (length s - length h + k)) tag
                            (length s - length h + k))
      | _ \<Rightarrow> (None, s))"
proof -
  have p: "(2 :: nat) ^ ((k - 1) * 8) = 256 ^ (k - 1)" for k
    by (simp add: power_mult [symmetric] mult.commute [of _ 8] power_mult)
  have w: "drop_bit ((k - 1) * 8) (w :: u32) = 0 \<longleftrightarrow> unat w < 256 ^ (k - 1)" for k w
    by (simp only: drop_bit_eq_0_iff p)
  have z: "b AND 0x80 = 0 \<longleftrightarrow> unat b < 128" for b :: u8
    using and_0x80_iff [of b] by linarith
  have l: "w < 128 \<longleftrightarrow> unat w < 128" for w :: u32
    by (simp add: word_less_nat_alt)
  show ?thesis
    unfolding cbs_get_any_asn1_element_def w z l unat_and_0x7F
    by (simp add: CBS_get_u8_def cbs_get_def Let_def split: prod.split option.split list.split)
qed

text \<open>Reading one element of the encoding returns it and stops right behind it.\<close>

lemma cbs_get_any_asn1_element_der:
  assumes "length body < 2 ^ 32"
  shows "cbs_get_any_asn1_element (der_element tag body @ s) ber_ok =
    (Some (der_element tag body, tag, length (der_header tag (length body))), s)"
proof -
  let ?n = "length body" and ?t = "asn1_tag_bytes tag" and ?e = "der_element tag body"
  have get: "get_element (?e @ s) (length ?e) tag (length (der_header tag ?n)) =
    (Some (?e, tag, length (der_header tag ?n)), s)"
    by (rule get_element_append) simp_all
  have tag: "parse_asn1_tag (?e @ s) = (Some tag, der_length ?n @ body @ s)"
    by (simp add: der_element_def der_header_def parse_asn1_tag_tag_bytes)
  show ?thesis
  proof (cases "?n < 128")
    case True
    define b where "b = (of_nat ?n :: u8)"
    have u: "unat b = ?n" using True by (simp add: b_def unat_of_nat_u8)
    have d: "der_length ?n = [b]" using True by (simp add: der_length_def b_def)
    have l: "length (?e @ s) - length (body @ s) = length (der_header tag ?n)"
      by (simp add: der_element_def der_header_def d)
    have "?n + length (der_header tag ?n) = length ?e" by (simp add: der_element_def)
    with get show ?thesis
      unfolding cbs_get_any_asn1_element_cases tag d append_Cons append_Nil
      by (simp only: prod.case option.case list.case u True if_True l)
  next
    case False
    let ?k = "der_len_len ?n"
    define b where "b = (of_nat (128 + ?k) :: u8)"
    note kb = der_len_len_bounds [OF assms]
    have d: "der_length ?n = b # be_bytes ?k ?n" using False by (simp add: der_length_def b_def)
    have ub: "unat b = 128 + ?k" using kb(2) by (simp only: b_def unat_of_nat_u8) simp
    have num: "unat b mod 128 = ?k" using kb(2) by (simp only: ub) simp
    obtain w where w: "cbs_get_u (be_bytes ?k ?n @ body @ s) ?k = (Some w, body @ s)" "unat w = ?n"
      using cbs_get_u_append [of "be_bytes ?k ?n" "body @ s"] kb by (auto simp: be_val_be_bytes)
    have w1: "\<not> (unat w < 128 \<or> unat w < 256 ^ (?k - 1))"
      using w(2) False kb(4) by (cases "?k = 1") auto
    have l: "length (?e @ s) - length (be_bytes ?k ?n @ body @ s) + ?k = length (der_header tag ?n)"
      by (simp add: der_element_def der_header_def d)
    have hl: "length (der_header tag ?n) \<le> 11"
      using length_asn1_tag_bytes [of tag] kb(2) by (simp add: der_header_def d)
    have e: "?n + length (der_header tag ?n) = length ?e" by (simp add: der_element_def)
    have a1: "add_size (unat w) (length (der_header tag ?n)) = length ?e"
      using assms hl w(2) e by simp
    then have a2: "add_size (add_size (unat w) (length (?e @ s) - length (be_bytes ?k ?n @ body @ s))) ?k
        = length ?e"
      by (simp only: add_size_assoc l)
    have nk: "\<not> (?k = 0 \<or> 4 < ?k)" "\<not> (ber_ok \<and> tag AND CBS_ASN1_CONSTRUCTED \<noteq> 0 \<and> ?k = 0)"
      using kb(1,2) by auto
    have nb: "\<not> unat b < 128" "\<not> length ?e < unat w" using ub e w(2) by simp_all
    show ?thesis
      unfolding cbs_get_any_asn1_element_cases tag d append_Cons append_Nil
      by (simp only: prod.case option.case list.case nb if_False num Let_def nk w(1) w1 a2 l a1 get)
  qed
qed

lemma cbs_get_any_asn1_element_Some:
  assumes "cbs_get_any_asn1_element s False = (Some (out, tag, hl), s')"
  obtains body where "out = der_element tag body" and "s = out @ s'" and "length body < 2 ^ 32"
    and "hl = length (der_header tag (length body))"
proof -
  obtain b h where h: "parse_asn1_tag s = (Some tag, b # h)"
  proof (cases "parse_asn1_tag s")
    case (Pair r h)
    have "r \<noteq> None" using assms by (intro notI) (simp add: cbs_get_any_asn1_element_cases Pair)
    then obtain t where t: "r = Some t" by blast
    have "h \<noteq> []" using assms by (intro notI) (simp add: cbs_get_any_asn1_element_cases Pair t)
    then obtain b h' where h: "h = b # h'" by (cases h) auto
    have "t = tag"
      using assms
      by (auto simp add: cbs_get_any_asn1_element_cases Pair t h Let_def dest: get_element_tag
          split: if_splits option.splits prod.splits)
    with that Pair t h show thesis by blast
  qed
  from parse_asn1_tag_Some [OF h] have s: "s = asn1_tag_bytes tag @ b # h" .
  have l: "length s - length h = length (asn1_tag_bytes tag) + 1" by (simp add: s)
  note eq = cbs_get_any_asn1_element_cases [of s False, unfolded h prod.case option.case list.case l simp_thms(21-24)]
  show thesis
  proof (cases "unat b < 128")
    case True
    have e: "s = out @ s'" "length out = unat b + (length (asn1_tag_bytes tag) + 1)"
      "hl = length (asn1_tag_bytes tag) + 1"
      using assms [unfolded eq if_P [OF True] get_element_Some] by blast+
    let ?body = "take (unat b) h"
    have lh: "length ?body = unat b" using e(2) arg_cong [OF e(1), of length] s by simp
    then have lh': "min (length h) (unat b) = unat b" by simp
    have d: "der_length (unat b) = [b]" using True by (simp add: der_length_def u8_eq_iff unat_of_nat_u8)
    have "out = take (length out) s" using e(1) by simp
    then have out: "out = der_element tag ?body"
      by (simp add: e(2) s der_element_def der_header_def lh' d)
    show thesis
      by (rule that [OF out e(1)]) (use True lh' lh e(3) d in \<open>simp_all add: der_header_def\<close>)
  next
    case False
    let ?k = "unat b mod 128"
    obtain r h' where r: "cbs_get_u h ?k = (r, h')" by (cases "cbs_get_u h ?k")
    note eq' = eq [unfolded if_not_P [OF False] Let_def r prod.case]
    from assms eq' have k: "?k \<noteq> 0" "?k \<le> 4" by (auto split: if_splits)
    from assms eq' k obtain w where w: "r = Some w" by (cases r) auto
    from cbs_get_u_Some [OF r [unfolded w] k(2)] obtain ds where
      ds: "h = ds @ h'" "length ds = ?k" "unat w = be_val ds" .
    have n: "\<not> (unat w < 128 \<or> unat w < 256 ^ (?k - 1))" using assms eq' k w by auto
    have wl: "unat w < 256 ^ ?k" using be_val_less [of ds] ds by simp
    have w32: "unat w < 2 ^ 32" using unsigned_less [of w, where 'a = nat] by simp
    have sm: "unat w + (length (asn1_tag_bytes tag) + 1) + ?k < 2 ^ 64"
      using w32 k(2) length_asn1_tag_bytes [of tag] by simp
    have kk: "der_len_len (unat w) = ?k" using k n wl by (intro der_len_len_unique) auto
    have bb: "unat b = 128 + ?k" using False u8_less [of b] by (simp add: le_mod_geq)
    have d: "der_length (unat w) = b # ds"
    proof -
      have "be_bytes ?k (unat w) = ds" using be_bytes_be_val [of ds] ds by simp
      moreover have "of_nat (128 + ?k) = b" unfolding bb [symmetric] by simp
      ultimately show ?thesis using n by (simp only: der_length_def kk if_False) auto
    qed
    have nk: "\<not> (?k = 0 \<or> 4 < ?k)" using k by simp
    have a1: "add_size (unat w) (length (asn1_tag_bytes tag) + 1 + ?k) =
        unat w + (length (asn1_tag_bytes tag) + 1 + ?k)" using sm by simp
    have a2: "\<not> add_size (add_size (unat w) (length (asn1_tag_bytes tag) + 1)) ?k < unat w"
      by (simp only: add_size_assoc a1)
    note eq'' = eq' [unfolded w option.case simp_thms if_False if_not_P [OF nk] if_not_P [OF n]
        if_not_P [OF a2] prod.case]
    have e: "s = out @ s'" "length out = unat w + (length (asn1_tag_bytes tag) + 1 + ?k)"
      "hl = length (asn1_tag_bytes tag) + 1 + ?k"
      using assms [unfolded eq'' a1 get_element_Some] by blast+
    let ?body = "take (unat w) h'"
    have lh: "length ?body = unat w" using e(2) arg_cong [OF e(1), of length] s ds(1,2) by simp
    then have lh': "min (length h') (unat w) = unat w" by simp
    have "out = take (length out) s" using e(1) by simp
    then have out: "out = der_element tag ?body"
      using ds(1,2) by (simp add: e(2) s der_element_def der_header_def lh' d)
    show thesis
      by (rule that [OF out e(1)]) (use w32 lh' lh e(3) d ds(2) in \<open>simp_all add: der_header_def\<close>)
  qed
qed

lemma get_any_iff:
  "CBS_get_any_asn1_element s = (Some (out, tag, hl), s') \<longleftrightarrow>
     (\<exists>body. length body < 2 ^ 32 \<and> out = der_element tag body \<and>
        hl = length (der_header tag (length body)) \<and> s = out @ s')"
  using cbs_get_any_asn1_element_Some [of s out tag hl s']
    cbs_get_any_asn1_element_der [of _ tag s' False]
  unfolding CBS_get_any_asn1_element_def by (metis (no_types, lifting))

lemma get_element_None: "get_element s n t h = (None, s') \<Longrightarrow> s' = s"
  by (auto simp: get_element_def CBS_get_bytes_def cbs_get_def split: if_splits)

text \<open>A failing call leaves the input where it was.\<close>

lemma cbs_get_any_asn1_element_None:
  "cbs_get_any_asn1_element s ber_ok = (None, s') \<Longrightarrow> s' = s"
  unfolding cbs_get_any_asn1_element_cases
  by (auto simp: Let_def dest: get_element_None split: option.splits prod.splits list.splits if_splits)

lemma drop_header: "drop (length (der_header tag (length body))) (der_element tag body) = body"
  by (simp add: der_element_def)

lemma header_le: "length (der_header tag (length body)) \<le> length (der_element tag body)"
  by (simp add: der_element_def)

lemma CBS_skip_header:
  "CBS_skip (der_element tag body) (length (der_header tag (length body))) = (True, body)"
  using header_le [of tag body] by (simp add: CBS_skip_def cbs_get_def drop_header)

lemma CBS_get_asn1_iff:
  "CBS_get_asn1 s tag = (Some body, s') \<longleftrightarrow> length body < 2 ^ 32 \<and> s = der_element tag body @ s'"
proof
  assume "CBS_get_asn1 s tag = (Some body, s')"
  then obtain out hl where o: "CBS_get_any_asn1_element s = (Some (out, tag, hl), s')"
    and k: "CBS_skip out hl = (True, body)"
    by (auto simp: CBS_get_asn1_def cbs_get_asn1_def split: prod.splits option.splits if_splits bool.splits)
  from o [unfolded get_any_iff] obtain b where
    "length b < 2 ^ 32" "out = der_element tag b" "hl = length (der_header tag (length b))" "s = out @ s'"
    by blast
  with k show "length body < 2 ^ 32 \<and> s = der_element tag body @ s'"
    by (simp add: CBS_skip_header)
next
  assume "length body < 2 ^ 32 \<and> s = der_element tag body @ s'"
  then have "CBS_get_any_asn1_element s =
      (Some (der_element tag body, tag, length (der_header tag (length body))), s')"
    by (auto simp: get_any_iff)
  then show "CBS_get_asn1 s tag = (Some body, s')"
    by (simp add: CBS_get_asn1_def cbs_get_asn1_def CBS_skip_header)
qed

section \<open>Unsigned integers\<close>

function uint_bytes :: "nat \<Rightarrow> bytes" where
  "uint_bytes n = (if n = 0 then [] else uint_bytes (n div 256) @ [of_nat n])"
  by pat_completeness auto
termination by (relation "measure id") auto

declare uint_bytes.simps [simp del]

lemma uint_bytes_0 [simp]: "uint_bytes 0 = []"
  by (simp add: uint_bytes.simps)

definition der_uint :: "nat \<Rightarrow> bytes" where
  "der_uint n =
     (if n = 0 then [0] else if hd (uint_bytes n) AND 0x80 \<noteq> 0 then 0 # uint_bytes n else uint_bytes n)"

lemma be_val_Cons: "be_val (b # bs) = unat b * 256 ^ length bs + be_val bs"
proof (induction bs rule: rev_induct)
  case (snoc c cs)
  have "be_val (b # cs @ [c]) = be_val ((b # cs) @ [c])" by simp
  also have "\<dots> = be_val (b # cs) * 256 + unat c" by (rule be_val_snoc)
  finally show ?case using snoc by (simp add: algebra_simps)
qed simp

lemma be_val_uint_bytes [simp]: "be_val (uint_bytes n) = n"
proof (induction n rule: uint_bytes.induct)
  case (1 n)
  then show ?case by (cases "n = 0") (simp_all add: uint_bytes.simps [of n] unat_of_nat_u8)
qed

lemma uint_bytes_be_val: "bs = [] \<or> hd bs \<noteq> 0 \<Longrightarrow> uint_bytes (be_val bs) = bs"
proof (induction bs rule: rev_induct)
  case (snoc b bs)
  have IH: "uint_bytes (be_val bs) = bs" using snoc by (cases bs) auto
  have pos: "be_val (bs @ [b]) \<noteq> 0"
  proof (cases bs)
    case Nil
    with snoc.prems show ?thesis by (simp add: unat_eq_0)
  next
    case (Cons c cs)
    with snoc.prems have "unat c \<noteq> 0" by (simp add: unat_eq_0)
    then show ?thesis by (simp add: Cons be_val_Cons)
  qed
  have "be_val (bs @ [b]) div 256 = be_val bs" "(of_nat (be_val (bs @ [b])) :: u8) = b"
    using u8_less [of b] by (simp_all add: u8_eq_iff unat_of_nat_u8 del: of_nat_add of_nat_mult)
  with pos IH show ?case by (subst uint_bytes.simps) simp
qed simp

lemma uint_bytes_hd: "n \<noteq> 0 \<Longrightarrow> uint_bytes n \<noteq> [] \<and> hd (uint_bytes n) \<noteq> 0"
proof (induction n rule: uint_bytes.induct)
  case (1 n)
  show ?case
  proof (cases "n div 256 = 0")
    case True
    then have "n < 256" by simp
    with "1.prems" True show ?thesis
      by (simp add: uint_bytes.simps [of n] u8_eq_iff unat_of_nat_u8)
  next
    case False
    with "1.IH" "1.prems" show ?thesis by (simp add: uint_bytes.simps [of n])
  qed
qed

lemma asn1_uint64_loop_eq:
  "asn1_uint64_loop out bs =
     (if unat out * 256 ^ length bs + be_val bs < 2 ^ 64
      then Some (of_nat (unat out * 256 ^ length bs + be_val bs)) else None)"
proof (induction out bs rule: asn1_uint64_loop.induct)
  case (2 out b bs)
  have z: "drop_bit 56 out = 0 \<longleftrightarrow> unat out < 2 ^ 56" by (rule drop_bit_eq_0_iff)
  have tot: "unat out * 256 ^ length (b # bs) + be_val (b # bs) =
      (unat out * 256 + unat b) * 256 ^ length bs + be_val bs"
    by (simp add: be_val_Cons algebra_simps)
  show ?case
  proof (cases "drop_bit 56 out = 0")
    case True
    then have "unat out * 2 ^ 8 < 2 ^ LENGTH(64)" using z by simp
    from unat_push_or [OF this, of "ucast b"] u8_less [of b]
    have u: "unat (push_bit 8 out OR ucast b) = unat out * 256 + unat b" by simp
    show ?thesis using "2.IH" True unfolding tot by (simp add: u)
  next
    case False
    then have "2 ^ 56 \<le> unat out" using z by simp
    then have "2 ^ 56 * 256 \<le> unat out * 256" by (rule mult_le_mono1)
    also have "\<dots> \<le> (unat out * 256 + unat b) * 256 ^ length bs + be_val bs"
      by (rule trans_le_add1, rule order_trans [OF le_add1 [of "unat out * 256" "unat b"]])
         simp
    finally show ?thesis using False unfolding tot by simp
  qed
next
  case (1 out)
  then show ?case using unsigned_less [of out, where 'a = nat] by simp
qed

lemma uint_bytes_length: "n < 256 ^ k \<Longrightarrow> length (uint_bytes n) \<le> k"
proof (induction k arbitrary: n)
  case (Suc k)
  then have "n div 256 < 256 ^ k" by (simp add: less_mult_imp_div_less)
  with Suc.IH [of "n div 256"] show ?case
    by (cases "n = 0") (simp_all add: uint_bytes.simps [of n])
qed simp

lemma der_uint_length: "n < 2 ^ 64 \<Longrightarrow> length (der_uint n) \<le> 9"
  using uint_bytes_length [of n 8] by (simp add: der_uint_def)

lemma be_val_der_uint [simp]: "be_val (der_uint n) = n"
  by (simp add: der_uint_def be_val_Cons)

definition minimal_uint :: "bytes \<Rightarrow> bool" where
  "minimal_uint data \<longleftrightarrow> length data \<noteq> 0 \<and> data ! 0 AND 0x80 = 0 \<and>
     \<not> (data ! 0 = 0 \<and> 1 < length data \<and> data ! 1 AND 0x80 = 0)"

lemma minimal_uint_iff: "minimal_uint data \<longleftrightarrow> data = der_uint (be_val data)"
proof
  assume m: "minimal_uint data"
  then obtain b bs where d: "data = b # bs" by (cases data) (auto simp: minimal_uint_def)
  show "data = der_uint (be_val data)"
  proof (cases "b = 0")
    case True
    show ?thesis
    proof (cases bs)
      case Nil
      with True d show ?thesis by (simp add: der_uint_def)
    next
      case (Cons c cs)
      with m d True have c: "c AND 0x80 \<noteq> 0" by (simp add: minimal_uint_def)
      then have "c \<noteq> 0" by auto
      then have u: "uint_bytes (be_val bs) = bs" using Cons uint_bytes_be_val [of bs] by simp
      have v: "be_val data = be_val bs" using d True by (simp add: be_val_Cons)
      have "be_val bs \<noteq> 0" using u Cons by (metis list.distinct(1) uint_bytes_0)
      with u v c Cons d True show ?thesis by (simp add: der_uint_def)
    qed
  next
    case False
    then have u: "uint_bytes (be_val data) = data" using d uint_bytes_be_val [of data] by simp
    moreover have "be_val data \<noteq> 0" using u d by (metis list.distinct(1) uint_bytes_0)
    moreover have "hd data AND 0x80 = 0" using m d by (simp add: minimal_uint_def)
    ultimately show ?thesis by (simp add: der_uint_def)
  qed
next
  have "minimal_uint (der_uint n)" for n
  proof (cases "n = 0")
    case False
    then obtain c cs where c: "uint_bytes n = c # cs" "c \<noteq> 0"
      using uint_bytes_hd [of n] by (cases "uint_bytes n") auto
    with False show ?thesis by (simp add: der_uint_def minimal_uint_def)
  qed (simp add: der_uint_def minimal_uint_def)
  moreover assume "data = der_uint (be_val data)"
  ultimately show "minimal_uint data" by metis
qed

lemma CBS_get_asn1_uint64_iff:
  "CBS_get_asn1_uint64 s = (Some v, s') \<longleftrightarrow>
     s = der_element CBS_ASN1_INTEGER (der_uint (unat v)) @ s'"
proof
  assume a: "CBS_get_asn1_uint64 s = (Some v, s')"
  obtain r s1 where r: "CBS_get_asn1 s CBS_ASN1_INTEGER = (r, s1)"
    by (cases "CBS_get_asn1 s CBS_ASN1_INTEGER")
  from a obtain data where d: "r = Some data" and m: "minimal_uint data"
    and l: "asn1_uint64_loop 0 data = Some v" "s1 = s'"
    by (cases r) (auto simp: CBS_get_asn1_uint64_def r minimal_uint_def split: if_splits)
  from l(1) have "be_val data = unat v"
    by (auto simp: asn1_uint64_loop_eq unat_of_nat split: if_splits)
  with m have "data = der_uint (unat v)" by (simp add: minimal_uint_iff)
  with r d l(2) show "s = der_element CBS_ASN1_INTEGER (der_uint (unat v)) @ s'"
    using CBS_get_asn1_iff by blast
next
  assume s: "s = der_element CBS_ASN1_INTEGER (der_uint (unat v)) @ s'"
  have v: "unat v < 2 ^ 64" using unsigned_less [of v, where 'a = nat] by simp
  have g: "CBS_get_asn1 s CBS_ASN1_INTEGER = (Some (der_uint (unat v)), s')"
    unfolding CBS_get_asn1_iff using s der_uint_length [OF v] by simp
  have "minimal_uint (der_uint (unat v))" by (simp add: minimal_uint_iff)
  moreover have "asn1_uint64_loop 0 (der_uint (unat v)) = Some v"
    using v by (simp add: asn1_uint64_loop_eq)
  ultimately show "CBS_get_asn1_uint64 s = (Some v, s')"
    by (auto simp: CBS_get_asn1_uint64_def g minimal_uint_def)
qed

section \<open>Booleans and optional elements\<close>

lemma CBS_get_asn1_bool_iff:
  "CBS_get_asn1_bool s = (Some b, s') \<longleftrightarrow>
     s = der_element CBS_ASN1_BOOLEAN [if b then 0xff else 0] @ s'"
proof
  assume a: "CBS_get_asn1_bool s = (Some b, s')"
  obtain r s1 where r: "CBS_get_asn1 s CBS_ASN1_BOOLEAN = (r, s1)"
    by (cases "CBS_get_asn1 s CBS_ASN1_BOOLEAN")
  from a obtain data where d: "r = Some data" and l: "length data = 1" "s1 = s'"
    "data ! 0 = 0 \<or> data ! 0 = 0xff" "b = (data ! 0 \<noteq> 0)"
    by (cases r) (auto simp: CBS_get_asn1_bool_def r Let_def split: if_splits)
  from l have "data = [if b then 0xff else 0]" by (cases data) auto
  with r d l(2) show "s = der_element CBS_ASN1_BOOLEAN [if b then 0xff else 0] @ s'"
    using CBS_get_asn1_iff by blast
next
  assume "s = der_element CBS_ASN1_BOOLEAN [if b then 0xff else 0] @ s'"
  then have "CBS_get_asn1 s CBS_ASN1_BOOLEAN = (Some [if b then 0xff else 0], s')"
    unfolding CBS_get_asn1_iff by simp
  then show "CBS_get_asn1_bool s = (Some b, s')"
    by (simp add: CBS_get_asn1_bool_def Let_def)
qed

lemma CBS_peek_asn1_tag_element: "CBS_peek_asn1_tag (der_element tag body @ s) tag' \<longleftrightarrow> tag' = tag"
proof -
  have "parse_asn1_tag (der_element tag body @ s) = (Some tag, der_length (length body) @ body @ s)"
    by (simp add: der_element_def der_header_def parse_asn1_tag_tag_bytes)
  moreover have "der_element tag body \<noteq> []"
    by (simp add: der_element_def der_header_def der_length_def)
  ultimately show ?thesis
    by (cases "der_element tag body") (simp_all add: CBS_peek_asn1_tag_def)
qed

lemma CBS_get_optional_asn1_present:
  "length body < 2 ^ 32 \<Longrightarrow>
   CBS_get_optional_asn1 (der_element tag body @ s) tag = (Some (Some body), s)"
  using CBS_get_asn1_iff [of "der_element tag body @ s" tag body s]
  by (simp add: CBS_get_optional_asn1_def CBS_peek_asn1_tag_element)

lemma CBS_get_optional_asn1_absent:
  "tag' \<noteq> tag \<Longrightarrow> CBS_get_optional_asn1 (der_element tag body @ s) tag' = (Some None, der_element tag body @ s)"
  by (simp add: CBS_get_optional_asn1_def CBS_peek_asn1_tag_element)

end
