(* ===== verification/Cbb_Spec.thy ===== *)
theory Cbb_Spec
  imports Cbb Der
begin

text \<open>
  What a builder promises, and the proof that the code of \<open>Cbb\<close> keeps it. The abstract builder is
  the list of the open levels, outermost first, each with the kind of its length prefix and its
  contents so far; level 0 is the top-level \<open>CBB\<close> and has no prefix. \<open>builder_rep\<close> relates a builder
  to the buffer and the frames of the code. \<open>refines\<close> states that an operation of the code
  implements an abstract one: if it succeeds the results correspond, and it does succeed whenever
  the abstract one does and the result fits into the memory there is.
\<close>

section \<open>Abstract builders\<close>

datatype prefix = Length_prefix nat | Asn1_prefix

fun placeholder :: "prefix \<Rightarrow> nat" where
  "placeholder (Length_prefix n) = n"
| "placeholder Asn1_prefix = 1"

type_synonym level = "prefix \<times> bytes"

fun seal :: "level \<Rightarrow> bytes option" where
  "seal (Length_prefix n, bs) =
     (if length bs < 256 ^ n then Some (be_bytes n (length bs) @ bs) else None)"
| "seal (Asn1_prefix, bs) =
     (if length bs \<le> 0xfffffffe then Some (der_length (length bs) @ bs) else None)"

fun collapse :: "level list \<Rightarrow> bytes option" where
  "collapse [] = Some []"
| "collapse ((p, bs) # rest) =
     (case collapse rest of None \<Rightarrow> None | Some cs \<Rightarrow> seal (p, bs @ cs))"

definition abs_flush :: "nat \<Rightarrow> level list \<Rightarrow> level list option" where
  "abs_flush d ls =
     (if d < length ls then
        map_option (\<lambda>cs. take d ls @ [(fst (ls ! d), snd (ls ! d) @ cs)]) (collapse (drop (Suc d) ls))
      else None)"

definition append_last :: "bytes \<Rightarrow> level list \<Rightarrow> level list" where
  "append_last bs ls = butlast ls @ [(fst (last ls), snd (last ls) @ bs)]"

definition abs_append :: "nat \<Rightarrow> bytes \<Rightarrow> level list \<Rightarrow> level list option" where
  "abs_append d bs ls = Option.bind (abs_flush d ls) (\<lambda>ls. Some (append_last bs ls))"

definition abs_open :: "nat \<Rightarrow> prefix \<Rightarrow> level list \<Rightarrow> level list option" where
  "abs_open d p ls = Option.bind (abs_flush d ls) (\<lambda>ls. Some (ls @ [(p, [])]))"

section \<open>The buffer\<close>

text \<open>The buffer holds the bytes \<open>bs\<close>.\<close>

definition holds :: "cbb_buffer \<Rightarrow> bytes \<Rightarrow> bool" where
  "holds b bs \<longleftrightarrow> \<not> bb_error b \<and> bb_len b = length bs \<and> take (length bs) (bb_buf b) = bs \<and>
     length (bb_buf b) = bb_cap b \<and> length bs \<le> bb_cap b \<and> bb_cap b + 8 < 2 ^ 63"

text \<open>There is memory for \<open>n\<close> bytes in all.\<close>

definition room :: "allocator \<Rightarrow> cbb_buffer \<Rightarrow> nat \<Rightarrow> bool" where
  "room malloc b n \<longleftrightarrow>
     (if bb_can_resize b then n < 2 ^ 61 \<and> (\<forall>k \<le> 2 * n + 8. malloc k \<noteq> None) else n \<le> bb_cap b)"

definition grown :: "cbb_buffer \<Rightarrow> nat \<Rightarrow> nat" where
  "grown b n =
     (let newcap = mul_size (bb_cap b) 2
      in if newcap < bb_cap b \<or> newcap < bb_len b + n then bb_len b + n else newcap)"

lemma cbb_buffer_reserve_eq:
  assumes "bb_len b + n < 2 ^ 64"
  shows "cbb_buffer_reserve malloc b n =
     (if bb_cap b < bb_len b + n then
        if bb_can_resize b then
          (case OPENSSL_realloc malloc (Some (bb_buf b)) (grown b n) of
             None \<Rightarrow> (False, b\<lparr>bb_error := True\<rparr>)
           | Some newbuf \<Rightarrow> (True, b\<lparr>bb_buf := newbuf, bb_cap := grown b n\<rparr>))
        else (False, b\<lparr>bb_error := True\<rparr>)
      else (True, b))"
proof -
  have add: "add_size (bb_len b) n = bb_len b + n" using assms by simp
  show ?thesis unfolding cbb_buffer_reserve_def grown_def Let_def add by simp
qed

text \<open>Making room keeps the contents; it succeeds where there is memory.\<close>

lemma cbb_buffer_reserve_holds:
  assumes "malloc_ok malloc" and "holds b bs" and "n + 8 < 2 ^ 63"
    and "cbb_buffer_reserve malloc b n = (True, b')"
  shows "holds b' bs" and "length bs + n \<le> bb_cap b'" and "bb_can_resize b' = bb_can_resize b"
proof -
  let ?new = "length bs + n"
  have h: "\<not> bb_error b" "bb_len b = length bs" "take (length bs) (bb_buf b) = bs"
    "length (bb_buf b) = bb_cap b" "length bs \<le> bb_cap b" "bb_cap b + 8 < 2 ^ 63"
    using assms(2) by (simp_all add: holds_def)
  have sm: "?new + 8 < 2 ^ 64" "bb_cap b * 2 + 8 < 2 ^ 64" and "bb_len b + n < 2 ^ 64"
    using h(2,5,6) assms(3) by simp_all
  note eq = assms(4) [unfolded cbb_buffer_reserve_eq [OF this(3)]]
  have "holds b' bs \<and> ?new \<le> bb_cap b' \<and> bb_can_resize b' = bb_can_resize b"
  proof (cases "bb_cap b < ?new")
    case False
    with assms(2) eq h(2) show ?thesis by auto
  next
    case True
    with eq h(2) obtain newbuf where
      nb: "OPENSSL_realloc malloc (Some (bb_buf b)) (grown b n) = Some newbuf"
      and res: "bb_can_resize b" and b': "b' = b\<lparr>bb_buf := newbuf, bb_cap := grown b n\<rparr>"
      by (auto split: option.splits if_splits)
    have ge: "?new \<le> grown b n" and sm': "grown b n + 8 < 2 ^ 64"
      using sm h(2) by (auto simp: grown_def Let_def)
    have le: "length (bb_buf b) \<le> grown b n" using h(4) True ge by simp
    note r = OPENSSL_realloc_Some [OF assms(1) nb sm' le]
    have "take (length bs) newbuf = take (length bs) (take (length (bb_buf b)) newbuf)"
      using h(4,5) by (simp add: min_def)
    with r h(3) have "take (length bs) newbuf = bs" by simp
    with h r(1,3) ge res b' show ?thesis by (simp add: holds_def)
  qed
  then show "holds b' bs" and "?new \<le> bb_cap b'" and "bb_can_resize b' = bb_can_resize b"
    by blast+
qed

lemma cbb_buffer_reserve_room:
  assumes "holds b bs" and "room malloc b m" and "length bs + n \<le> m" and "n + 8 < 2 ^ 63"
  obtains b' where "cbb_buffer_reserve malloc b n = (True, b')" and "room malloc b' m"
proof -
  have h: "bb_len b = length bs" "length bs \<le> bb_cap b" "bb_cap b + 8 < 2 ^ 63"
    using assms(1) by (simp_all add: holds_def)
  then have "bb_len b + n < 2 ^ 64" using assms(4) by simp
  note eq = cbb_buffer_reserve_eq [OF this, of malloc]
  show thesis
  proof (cases "bb_cap b < bb_len b + n")
    case False
    with assms(2) show thesis by (intro that [of b]) (simp_all add: eq)
  next
    case True
    with assms(2,3) h have res: "bb_can_resize b" and m: "m < 2 ^ 61"
      and all: "\<And>k. k \<le> 2 * m + 8 \<Longrightarrow> malloc k \<noteq> None"
      by (auto simp: room_def split: if_splits)
    have "mul_size (bb_cap b) 2 = bb_cap b * 2" using True assms(3) m h by simp
    then have c: "grown b n \<le> 2 * m" using True assms(3) h by (simp add: grown_def Let_def)
    then have "add_size (grown b n) 8 = grown b n + 8" using m by simp
    with c all [of "grown b n + 8"] obtain newbuf where
      nb: "OPENSSL_realloc malloc (Some (bb_buf b)) (grown b n) = Some newbuf"
      by (auto simp: OPENSSL_realloc_def OPENSSL_malloc_def Let_def)
    show thesis
      by (rule that [of "b\<lparr>bb_buf := newbuf, bb_cap := grown b n\<rparr>"])
         (use assms(2) res True nb in \<open>simp_all add: eq room_def\<close>)
  qed
qed

lemma cbb_buffer_add_holds:
  assumes "malloc_ok malloc" and "holds b bs" and "n + 8 < 2 ^ 63"
    and "cbb_buffer_add malloc b n = (True, b')"
  obtains x where "length x = n" and "holds b' (bs @ x)" and "bb_len b' = length bs + n"
    and "bb_can_resize b' = bb_can_resize b"
proof -
  from assms(4) obtain b1 where r: "cbb_buffer_reserve malloc b n = (True, b1)"
    and b': "b' = b1\<lparr>bb_len := bb_len b1 + n\<rparr>"
    by (auto simp: cbb_buffer_add_def split: prod.splits bool.splits)
  note k = cbb_buffer_reserve_holds [OF assms(1-3) r]
  have x: "take (length bs + n) (bb_buf b1) = bs @ take n (drop (length bs) (bb_buf b1))"
    using k(1) by (simp add: holds_def take_add)
  show thesis
  proof (rule that)
    show "length (take n (drop (length bs) (bb_buf b1))) = n"
      using k(1,2) by (simp add: holds_def)
    with k(1,2) x b' show "holds b' (bs @ take n (drop (length bs) (bb_buf b1)))"
      by (simp add: holds_def)
    show "bb_len b' = length bs + n" using k(1) b' by (simp add: holds_def)
    show "bb_can_resize b' = bb_can_resize b" using k(3) b' by simp
  qed
qed

lemma room_len [simp]: "room malloc (b\<lparr>bb_len := n\<rparr>) m = room malloc b m"
  by (simp add: room_def)

lemma cbb_buffer_add_room:
  assumes "holds b bs" and "room malloc b m" and "length bs + n \<le> m" and "n + 8 < 2 ^ 63"
  obtains b' where "cbb_buffer_add malloc b n = (True, b')" and "room malloc b' m"
proof -
  obtain b1 where "cbb_buffer_reserve malloc b n = (True, b1)" "room malloc b1 m"
    using cbb_buffer_reserve_room [OF assms] .
  then show thesis
    by (intro that [of "b1\<lparr>bb_len := bb_len b1 + n\<rparr>"]) (simp_all add: cbb_buffer_add_def)
qed

lemma bb_put_holds:
  assumes "holds b bs" and "i + length x \<le> length bs"
  shows "holds (bb_put i x b) (put_at i x bs)"
proof -
  have h: "take (length bs) (bb_buf b) = bs" "length bs \<le> length (bb_buf b)"
    using assms(1) by (simp_all add: holds_def)
  then obtain r where b: "bb_buf b = bs @ r" by (metis append_take_drop_id)
  with assms show ?thesis by (simp add: holds_def bb_put_def put_at_def)
qed

lemma room_put [simp]: "room malloc (bb_put i x b) m = room malloc b m"
  by (simp add: room_def bb_put_def)

lemma put_at_append: "put_at (length xs) ys (xs @ zs) = xs @ ys @ drop (length ys) zs"
  by (simp add: put_at_def)

lemma put_be_eq: "put_be n v = (be_bytes n v, v div 256 ^ n)"
  by (induction n v rule: put_be.induct) (simp_all add: div_mult2_eq)

text \<open>Appending.\<close>

lemma append_holds:
  assumes "malloc_ok malloc" and "holds b bs" and "length x + 8 < 2 ^ 63"
    and "cbb_buffer_add malloc b (length x) = (True, b')"
  shows "holds (bb_put (bb_len b' - length x) x b') (bs @ x)"
proof -
  obtain y where y: "length y = length x" "holds b' (bs @ y)" "bb_len b' = length bs + length x"
    using cbb_buffer_add_holds [OF assms] .
  from bb_put_holds [OF y(2), of "length bs" x] y show ?thesis
    by (simp add: put_at_append)
qed

section \<open>Flushing one level\<close>

lemma length_der_length: "n \<le> 0xfffffffe \<Longrightarrow> length (der_length n) \<le> 5"
  by (simp add: der_length_def der_len_len_def)

lemma seal_grows: "seal (p, bs) = Some e \<Longrightarrow> placeholder p + length bs \<le> length e"
  by (cases p) (auto simp: der_length_def split: if_splits)

lemma asn1_len_len_eq:
  "asn1_len_len n =
     (if n \<le> 0xfffffffe then
        Some (if n < 128 then (1, of_nat n) else (Suc (der_len_len n), of_nat (128 + der_len_len n)))
      else None)"
  by (auto simp: asn1_len_len_def der_len_len_def)

lemma write_pending_eq:
  "write_pending b c n =
     (if n < 256 ^ cf_pending_len_len c
      then (True, bb_put (cf_offset c) (be_bytes (cf_pending_len_len c) n) b)
      else (False, (bb_put (cf_offset c) (be_bytes (cf_pending_len_len c) n) b)\<lparr>bb_error := True\<rparr>))"
  by (auto simp: write_pending_def put_be_eq Let_def div_greater_zero_iff)

lemma put_at_in_append:
  "length ys = length ys' \<Longrightarrow> i = length xs \<Longrightarrow> put_at i ys (xs @ ys' @ zs) = xs @ ys @ zs"
  by (simp add: put_at_def)

lemma der_len_len_less: "n \<le> 0xfffffffe \<Longrightarrow> n < 256 ^ der_len_len n"
  by (auto simp: der_len_len_def)

lemma flush_pending_asn1_eq:
  assumes "bb_len b - Suc i = n"
  shows "flush_pending malloc b
       \<lparr>cf_offset = i, cf_pending_len_len = Suc 0, cf_pending_is_asn1 = True\<rparr> (Suc i) =
     (if n \<le> 0xfffffffe then
        if n < 128 then (True, bb_put (Suc i) [] (bb_put i [of_nat n] b))
        else
          (case cbb_buffer_add malloc b (der_len_len n) of
             (False, b1) \<Rightarrow> (False, b1\<lparr>bb_error := True\<rparr>)
           | (True, b1) \<Rightarrow>
               (True, bb_put (Suc i) (be_bytes (der_len_len n) n)
                  (bb_put i [of_nat (128 + der_len_len n)]
                    (bb_put (Suc i + der_len_len n) (take n (drop (Suc i) (bb_buf b1))) b1))))
      else (False, b\<lparr>bb_error := True\<rparr>))"
proof -
  have "der_len_len n \<noteq> 0" by (simp add: der_len_len_def)
  then show ?thesis
    using der_len_len_less [of n]
    by (auto simp: flush_pending_def assms Let_def asn1_len_len_eq write_pending_eq
        simp del: of_nat_add split: prod.split bool.split)
qed

lemma flush_pending_holds:
  assumes "malloc_ok malloc"
    and "holds b (pre @ replicate (placeholder p) 0 @ body)"
    and "child = \<lparr>cf_offset = length pre, cf_pending_len_len = placeholder p,
           cf_pending_is_asn1 = (p = Asn1_prefix)\<rparr>"
    and "flush_pending malloc b child (length pre + placeholder p) = (True, b')"
  obtains e where "seal (p, body) = Some e" and "holds b' (pre @ e)"
    and "bb_can_resize b' = bb_can_resize b"
proof (cases p)
  case (Length_prefix n)
  have len: "bb_len b - (length pre + n) = length body"
    using assms(2) Length_prefix by (simp add: holds_def)
  have n: "length body < 256 ^ n" and b': "b' = bb_put (length pre) (be_bytes n (length body)) b"
    using assms(4) by (auto simp: Length_prefix assms(3) flush_pending_def len write_pending_eq Let_def
        split: if_splits)
  have "holds b' (pre @ be_bytes n (length body) @ body)"
    unfolding b' using bb_put_holds [OF assms(2), of "length pre" "be_bytes n (length body)"]
    by (simp add: Length_prefix put_at_in_append)
  moreover have "bb_can_resize b' = bb_can_resize b" by (simp add: b' bb_put_def)
  ultimately show thesis using n by (intro that) (simp_all add: Length_prefix)
next
  case Asn1_prefix
  have "bb_len b - Suc (length pre) = length body"
    using assms(2) Asn1_prefix by (simp add: holds_def)
  note eq = assms(4) [unfolded assms(3) Asn1_prefix, simplified, unfolded flush_pending_asn1_eq [OF this]]
  have h: "holds b ((pre @ [0]) @ body)" using assms(2) Asn1_prefix by simp
  from eq have small: "length body \<le> 0xfffffffe" by (simp split: if_splits)
  show thesis
  proof (cases "length body < 128")
    case True
    let ?i = "[of_nat (length body)] :: bytes"
    have b': "b' = bb_put (Suc (length pre)) [] (bb_put (length pre) ?i b)"
      using eq True small by simp
    have "holds (bb_put (length pre) ?i b) (pre @ ?i @ body)"
      using bb_put_holds [OF h, of "length pre" ?i] by (simp add: put_at_def)
    from bb_put_holds [OF this, of "Suc (length pre)" "[]"]
    have "holds b' (pre @ ?i @ body)" unfolding b' by (simp add: put_at_def)
    moreover have "bb_can_resize b' = bb_can_resize b" by (simp add: b' bb_put_def)
    ultimately show thesis using True small by (intro that) (simp_all add: Asn1_prefix der_length_def)
  next
    case False
    let ?k = "der_len_len (length body)"
    let ?i = "[of_nat (128 + ?k)] :: bytes"
    have kl: "?k \<le> 4" by (simp add: der_len_len_def)
    from eq False small obtain b1 where
      add: "cbb_buffer_add malloc b ?k = (True, b1)"
      and b': "b' = bb_put (Suc (length pre)) (be_bytes ?k (length body))
          (bb_put (length pre) ?i
            (bb_put (Suc (length pre) + ?k) (take (length body) (drop (Suc (length pre)) (bb_buf b1))) b1))"
      by (auto split: prod.splits bool.splits)
    have "?k + 8 < 2 ^ 63" using kl by simp
    from cbb_buffer_add_holds [OF assms(1) h this add] obtain x where
      x: "length x = ?k" and h1: "holds b1 (((pre @ [0]) @ body) @ x)"
      and r: "bb_can_resize b1 = bb_can_resize b" by blast
    have moved: "take (length body) (drop (Suc (length pre)) (bb_buf b1)) = body"
    proof -
      have "take (length (pre @ [0] @ body @ x)) (bb_buf b1) = pre @ [0] @ body @ x"
        using h1 by (simp add: holds_def)
      then obtain r where "bb_buf b1 = (pre @ [0] @ body @ x) @ r" by (metis append_take_drop_id)
      then show ?thesis by simp
    qed
    let ?b2 = "bb_put (Suc (length pre) + ?k) body b1"
    obtain y where y: "length y = ?k" "holds ?b2 (pre @ 0 # y @ body)"
    proof
      let ?y = "take ?k (body @ x)"
      show "length ?y = ?k" using x by simp
      have "put_at (Suc (length pre) + ?k) body (((pre @ [0]) @ body) @ x) = pre @ 0 # ?y @ body"
        using x by (simp add: put_at_def)
      with bb_put_holds [OF h1, of "Suc (length pre) + ?k" body] x
      show "holds ?b2 (pre @ 0 # ?y @ body)" by simp
    qed
    let ?b3 = "bb_put (length pre) ?i ?b2"
    have h3: "holds ?b3 ((pre @ ?i) @ y @ body)"
      using bb_put_holds [OF y(2), of "length pre" ?i] by (simp add: put_at_def)
    have "holds b' ((pre @ ?i) @ be_bytes ?k (length body) @ body)"
      unfolding b' moved
      using bb_put_holds [OF h3, of "Suc (length pre)" "be_bytes ?k (length body)"] y(1)
      by (simp add: put_at_def)
    moreover have "bb_can_resize b' = bb_can_resize b" by (simp add: b' bb_put_def r)
    ultimately show thesis using False small by (intro that) (simp_all add: Asn1_prefix der_length_def)
  qed
qed

lemma flush_pending_room:
  assumes "holds b (pre @ replicate (placeholder p) 0 @ body)" and "room malloc b m"
    and "child = \<lparr>cf_offset = length pre, cf_pending_len_len = placeholder p,
           cf_pending_is_asn1 = (p = Asn1_prefix)\<rparr>"
    and "seal (p, body) = Some e" and "length pre + length e \<le> m"
  obtains b' where "flush_pending malloc b child (length pre + placeholder p) = (True, b')"
    and "room malloc b' m"
proof (cases p)
  case (Length_prefix n)
  have len: "bb_len b - (length pre + n) = length body"
    using assms(1) Length_prefix by (simp add: holds_def)
  have "length body < 256 ^ n" using assms(4) Length_prefix by (simp split: if_splits)
  with assms(2) show thesis
    by (intro that [of "bb_put (length pre) (be_bytes n (length body)) b"])
       (simp_all add: Length_prefix assms(3) flush_pending_def len write_pending_eq)
next
  case Asn1_prefix
  have "bb_len b - Suc (length pre) = length body"
    using assms(1) Asn1_prefix by (simp add: holds_def)
  note eq = flush_pending_asn1_eq [OF this, of malloc]
  have h: "holds b ((pre @ [0]) @ body)" using assms(1) Asn1_prefix by simp
  have small: "length body \<le> 0xfffffffe" and e: "e = der_length (length body) @ body"
    using assms(4) Asn1_prefix by (simp_all split: if_splits)
  show thesis
  proof (cases "length body < 128")
    case True
    with assms(2) small show thesis
      by (intro that [of "bb_put (Suc (length pre)) [] (bb_put (length pre) [of_nat (length body)] b)"])
         (simp_all add: Asn1_prefix assms(3) eq)
  next
    case False
    let ?k = "der_len_len (length body)"
    have "length ((pre @ [0]) @ body) + ?k \<le> m" "?k + 8 < 2 ^ 63"
      using assms(5) False by (simp_all add: e der_length_def der_len_len_def)
    from cbb_buffer_add_room [OF h assms(2) this] obtain b1 where
      "cbb_buffer_add malloc b ?k = (True, b1)" "room malloc b1 m" .
    with False small show thesis
      by (intro that [of "bb_put (Suc (length pre)) (be_bytes ?k (length body))
            (bb_put (length pre) [of_nat (128 + ?k)]
              (bb_put (Suc (length pre) + ?k) (take (length body) (drop (Suc (length pre)) (bb_buf b1))) b1))"])
         (simp_all add: Asn1_prefix assms(3) eq)
  qed
qed


section \<open>Flushing the chain\<close>

fun frames_at :: "nat \<Rightarrow> level list \<Rightarrow> cbb_frame list" where
  "frames_at i [] = []"
| "frames_at i ((p, bs) # rest) =
     \<lparr>cf_offset = i, cf_pending_len_len = placeholder p, cf_pending_is_asn1 = (p = Asn1_prefix)\<rparr>
     # frames_at (i + placeholder p + length bs) rest"

fun raw :: "level list \<Rightarrow> bytes" where
  "raw [] = []"
| "raw ((p, bs) # rest) = replicate (placeholder p) 0 @ bs @ raw rest"

abbreviation proper :: "level list \<Rightarrow> bool" where
  "proper ls \<equiv> (\<forall>l\<in>set ls. placeholder (fst l) \<noteq> 0)"

lemma length_frames_at [simp]: "length (frames_at i ls) = length ls"
  by (induction i ls rule: frames_at.induct) simp_all

lemma frames_at_append:
  "frames_at i (ls @ ms) = frames_at i ls @ frames_at (i + length (raw ls)) ms"
  by (induction i ls rule: frames_at.induct) (simp_all add: add.assoc)

lemma raw_append: "raw (ls @ ms) = raw ls @ raw ms"
  by (induction ls rule: raw.induct) simp_all

lemma collapse_grows: "collapse ls = Some cs \<Longrightarrow> length (raw ls) \<le> length cs"
proof (induction ls arbitrary: cs rule: collapse.induct)
  case (2 p bs rest)
  then obtain c where "collapse rest = Some c" "seal (p, bs @ c) = Some cs"
    by (auto split: option.splits)
  with 2 seal_grows [of p "bs @ c" cs] show ?case by fastforce
qed simp

lemma cbb_flush_holds:
  assumes "malloc_ok malloc" and "holds b (pre @ raw ls)" and "proper ls"
    and "cbb_flush malloc b (frames_at (length pre) ls) = (True, b', fs)"
  shows "\<exists>cs. collapse ls = Some cs \<and> fs = [] \<and> holds b' (pre @ cs) \<and> bb_can_resize b' = bb_can_resize b"
  using assms(2-)
proof (induction ls arbitrary: pre b' fs rule: raw.induct)
  case (2 p bs rest)
  let ?pre = "pre @ replicate (placeholder p) 0 @ bs"
  let ?start = "length pre + placeholder p"
  have e: "\<not> bb_error b" using "2.prems"(1) by (simp add: holds_def)
  have "?start < 2 ^ 64" using "2.prems"(1) by (simp add: holds_def)
  then have add: "add_size (length pre) (placeholder p) = ?start" by simp
  obtain r b1 fs1 where f: "cbb_flush malloc b (frames_at (length ?pre) rest) = (r, b1, fs1)"
    by (cases "cbb_flush malloc b (frames_at (length ?pre) rest)")
  have f': "cbb_flush malloc b (frames_at (?start + length bs) rest) = (r, b1, fs1)"
    using f by (simp add: add.assoc)
  have p: "placeholder p \<noteq> 0" using "2.prems"(2) by simp
  from "2.prems"(3) e p have r: r
    by (auto simp: f' Let_def split: if_splits bool.splits)
  obtain cs where cs: "collapse rest = Some cs" "holds b1 (?pre @ cs)"
    and res: "bb_can_resize b1 = bb_can_resize b"
    using "2.IH" [of ?pre b1 fs1] f r "2.prems"(1,2) by auto
  have "\<not> bb_len b1 < ?start" using cs(2) by (simp add: holds_def)
  with "2.prems"(3) e p r obtain b2 where
    fp: "flush_pending malloc b1 \<lparr>cf_offset = length pre, cf_pending_len_len = placeholder p,
           cf_pending_is_asn1 = (p = Asn1_prefix)\<rparr> ?start = (True, b2)"
    and out: "b' = b2" "fs = []"
    by (auto simp: f' Let_def add split: if_splits prod.splits bool.splits)
  have h1: "holds b1 (pre @ replicate (placeholder p) 0 @ bs @ cs)" using cs(2) by simp
  obtain e where "seal (p, bs @ cs) = Some e" "holds b2 (pre @ e)" "bb_can_resize b2 = bb_can_resize b1"
    using flush_pending_holds [OF assms(1) h1 refl fp] .
  with cs(1) out res show ?case by simp
qed auto

lemma cbb_flush_room:
  assumes "malloc_ok malloc" and "holds b (pre @ raw ls)" and "proper ls" and "room malloc b m"
    and "collapse ls = Some cs" and "length pre + length cs \<le> m"
  shows "\<exists>b'. cbb_flush malloc b (frames_at (length pre) ls) = (True, b', []) \<and> room malloc b' m"
  using assms(2,3,5,6)
proof (induction ls arbitrary: pre cs rule: raw.induct)
  case 1
  with assms(4) show ?case by (simp add: holds_def)
next
  case (2 p bs rest)
  let ?pre = "pre @ replicate (placeholder p) 0 @ bs"
  let ?start = "length pre + placeholder p"
  have e: "\<not> bb_error b" using "2.prems"(1) by (simp add: holds_def)
  have "?start < 2 ^ 64" using "2.prems"(1) by (simp add: holds_def)
  then have add: "add_size (length pre) (placeholder p) = ?start" by simp
  have p: "placeholder p \<noteq> 0" using "2.prems"(2) by simp
  obtain c where c: "collapse rest = Some c" "seal (p, bs @ c) = Some cs"
    using "2.prems"(3) by (auto split: option.splits)
  have "length ?pre + length c \<le> m" using seal_grows [OF c(2)] "2.prems"(4) by simp
  then obtain b1 where f: "cbb_flush malloc b (frames_at (length ?pre) rest) = (True, b1, [])"
    and m: "room malloc b1 m"
    using "2.IH" [of ?pre c] "2.prems"(1,2) c(1) by auto
  have f': "cbb_flush malloc b (frames_at (?start + length bs) rest) = (True, b1, [])"
    using f by (simp add: add.assoc)
  have "holds b (?pre @ raw rest)" "proper rest" using "2.prems"(1,2) by simp_all
  from cbb_flush_holds [OF assms(1) this f] c(1) have h1: "holds b1 (?pre @ c)" by simp
  then have h1': "holds b1 (pre @ replicate (placeholder p) 0 @ bs @ c)" by simp
  have l: "\<not> bb_len b1 < ?start" using h1 by (simp add: holds_def)
  obtain b2 where
    "flush_pending malloc b1 \<lparr>cf_offset = length pre, cf_pending_len_len = placeholder p,
           cf_pending_is_asn1 = (p = Asn1_prefix)\<rparr> ?start = (True, b2)" "room malloc b2 m"
    using flush_pending_room [OF h1' m refl c(2) "2.prems"(4)] .
  then show ?case using e p l by (simp add: f' Let_def add)
qed


section \<open>Refinement\<close>

definition builder_rep :: "cbb \<Rightarrow> level list \<Rightarrow> bool" where
  "builder_rep s ls \<longleftrightarrow> ls \<noteq> [] \<and> fst (hd ls) = Length_prefix 0 \<and> proper (tl ls) \<and>
     cb_children s = tl (frames_at 0 ls) \<and> (\<exists>b. cb_base s = Some b \<and> holds b (raw ls))"

definition has_room :: "allocator \<Rightarrow> cbb \<Rightarrow> nat \<Rightarrow> bool" where
  "has_room malloc s m \<longleftrightarrow> (\<exists>b. cb_base s = Some b \<and> room malloc b m)"

definition refines ::
  "allocator \<Rightarrow> (level list \<Rightarrow> bool) \<Rightarrow> (cbb \<Rightarrow> bool \<times> cbb) \<Rightarrow>
   (level list \<Rightarrow> level list option) \<Rightarrow> bool" where
  "refines malloc P f a \<longleftrightarrow>
     (\<forall>s ls s'. P ls \<and> builder_rep s ls \<and> f s = (True, s') \<longrightarrow>
        (\<exists>ls'. a ls = Some ls' \<and> builder_rep s' ls')) \<and>
     (\<forall>s ls ls' m. P ls \<and> builder_rep s ls \<and> has_room malloc s m \<and> a ls = Some ls' \<and>
        length (raw ls') \<le> m \<longrightarrow> (\<exists>s'. f s = (True, s') \<and> has_room malloc s' m)) \<and>
     (\<forall>ls ls'. P ls \<and> a ls = Some ls' \<longrightarrow> length (raw ls) \<le> length (raw ls'))"

lemma refinesI:
  assumes "\<And>s ls s'. P ls \<Longrightarrow> builder_rep s ls \<Longrightarrow> f s = (True, s') \<Longrightarrow>
      \<exists>ls'. a ls = Some ls' \<and> builder_rep s' ls'"
    and "\<And>s ls ls' m. P ls \<Longrightarrow> builder_rep s ls \<Longrightarrow> has_room malloc s m \<Longrightarrow> a ls = Some ls' \<Longrightarrow>
      length (raw ls') \<le> m \<Longrightarrow> \<exists>s'. f s = (True, s') \<and> has_room malloc s' m"
    and "\<And>ls ls'. P ls \<Longrightarrow> a ls = Some ls' \<Longrightarrow> length (raw ls) \<le> length (raw ls')"
  shows "refines malloc P f a"
  unfolding refines_def using assms by blast

lemma refinesD:
  assumes "refines malloc P f a" and "P ls"
  shows "builder_rep s ls \<Longrightarrow> f s = (True, s') \<Longrightarrow> \<exists>ls'. a ls = Some ls' \<and> builder_rep s' ls'"
    and "builder_rep s ls \<Longrightarrow> has_room malloc s m \<Longrightarrow> a ls = Some ls' \<Longrightarrow> length (raw ls') \<le> m \<Longrightarrow>
      \<exists>s'. f s = (True, s') \<and> builder_rep s' ls' \<and> has_room malloc s' m"
    and "a ls = Some ls' \<Longrightarrow> length (raw ls) \<le> length (raw ls')"
  using assms unfolding refines_def by (fastforce)+

lemma refines_and_then:
  assumes f: "refines malloc P f a" and g: "refines malloc Q g c"
    and Q: "\<And>ls ls'. P ls \<Longrightarrow> a ls = Some ls' \<Longrightarrow> Q ls'"
  shows "refines malloc P (\<lambda>s. and_then (f s) g) (\<lambda>ls. Option.bind (a ls) c)"
proof (rule refinesI)
  fix s ls s' assume P: "P ls" and r: "builder_rep s ls" and e: "and_then (f s) g = (True, s')"
  then obtain s1 where s1: "f s = (True, s1)" "g s1 = (True, s')"
    by (auto simp: and_then_def split: prod.splits bool.splits)
  obtain ls1 where "a ls = Some ls1" "builder_rep s1 ls1" using refinesD(1) [OF f P r s1(1)] by blast
  with refinesD(1) [OF g Q [OF P] _ s1(2), of ls1]
  show "\<exists>ls'. Option.bind (a ls) c = Some ls' \<and> builder_rep s' ls'" by auto
next
  fix s ls ls' m
  assume P: "P ls" and r: "builder_rep s ls" and m: "has_room malloc s m"
    and b: "Option.bind (a ls) c = Some ls'" and l: "length (raw ls') \<le> m"
  then obtain ls1 where ls1: "a ls = Some ls1" "c ls1 = Some ls'" by (auto simp: bind_eq_Some_conv)
  have Q1: "Q ls1" by (rule Q [OF P ls1(1)])
  have "length (raw ls1) \<le> m" using refinesD(3) [OF g Q1 ls1(2)] l by simp
  with refinesD(2) [OF f P r m ls1(1)] obtain s1 where
    s1: "f s = (True, s1)" "builder_rep s1 ls1" "has_room malloc s1 m" by blast
  from refinesD(2) [OF g Q1 s1(2,3) ls1(2) l] s1(1)
  show "\<exists>s'. and_then (f s) g = (True, s') \<and> has_room malloc s' m" by (auto simp: and_then_def)
next
  fix ls ls' assume P: "P ls" and "Option.bind (a ls) c = Some ls'"
  then obtain ls1 where ls1: "a ls = Some ls1" "c ls1 = Some ls'" by (auto simp: bind_eq_Some_conv)
  with refinesD(3) [OF f P ls1(1)] refinesD(3) [OF g Q [OF P ls1(1)] ls1(2)]
  show "length (raw ls) \<le> length (raw ls')" by simp
qed

lemma refines_cong:
  "refines malloc P f a \<Longrightarrow> (\<And>s. f' s = f s) \<Longrightarrow> (\<And>ls. P ls \<Longrightarrow> a' ls = a ls) \<Longrightarrow> refines malloc P f' a'"
proof -
  assume R: "refines malloc P f a" and f: "\<And>s. f' s = f s" and a: "\<And>ls. P ls \<Longrightarrow> a' ls = a ls"
  show "refines malloc P f' a'"
  proof (rule refinesI)
    fix s ls s' assume "P ls" "builder_rep s ls" "f' s = (True, s')"
    then show "\<exists>ls'. a' ls = Some ls' \<and> builder_rep s' ls'" using refinesD(1) [OF R] f a by simp
  next
    fix s ls ls' m assume "P ls" "builder_rep s ls" "has_room malloc s m" "a' ls = Some ls'"
      "length (raw ls') \<le> m"
    then show "\<exists>s'. f' s = (True, s') \<and> has_room malloc s' m" using refinesD(2) [OF R] f a by metis
  next
    fix ls ls' assume "P ls" "a' ls = Some ls'"
    then show "length (raw ls) \<le> length (raw ls')" using refinesD(3) [OF R] a by simp
  qed
qed

lemma frames_at_last: "frames_at i (xs @ [(p, a)]) = frames_at i (xs @ [(p, c)])"
  by (simp add: frames_at_append)

lemma abs_flush_length: "abs_flush d ls = Some ls' \<Longrightarrow> length ls' = Suc d"
  by (auto simp: abs_flush_def split: if_splits)

lemma split_at: "d < length ls \<Longrightarrow> take (Suc d) ls = take d ls @ [ls ! d]"
  by (rule take_Suc_conv_app_nth)

lemma builder_rep_split:
  assumes "builder_rep s ls" and "d < length ls"
  shows "drop d (cb_children s) = frames_at (length (raw (take (Suc d) ls))) (drop (Suc d) ls)"
    and "take d (cb_children s) = tl (frames_at 0 (take (Suc d) ls))"
    and "proper (drop (Suc d) ls)"
    and "raw (take (Suc d) ls) @ raw (drop (Suc d) ls) = raw ls"
proof -
  have f: "frames_at 0 ls = frames_at 0 (take (Suc d) ls) @
      frames_at (length (raw (take (Suc d) ls))) (drop (Suc d) ls)"
    using frames_at_append [of 0 "take (Suc d) ls" "drop (Suc d) ls"] by simp
  have l: "length (frames_at 0 (take (Suc d) ls)) = Suc d" using assms(2) by simp
  have c: "cb_children s = tl (frames_at 0 ls)" using assms(1) by (simp add: builder_rep_def)
  have "cb_children s = tl (frames_at 0 (take (Suc d) ls)) @
      frames_at (length (raw (take (Suc d) ls))) (drop (Suc d) ls)"
    unfolding c f using l by (cases "frames_at 0 (take (Suc d) ls)") simp_all
  with l show "drop d (cb_children s) = frames_at (length (raw (take (Suc d) ls))) (drop (Suc d) ls)"
    and "take d (cb_children s) = tl (frames_at 0 (take (Suc d) ls))" by simp_all
  have "set (drop (Suc d) ls) \<subseteq> set (tl ls)" by (simp add: drop_Suc set_drop_subset)
  then show "proper (drop (Suc d) ls)" using assms(1) unfolding builder_rep_def by blast
  show "raw (take (Suc d) ls) @ raw (drop (Suc d) ls) = raw ls"
    by (simp only: raw_append [symmetric] append_take_drop_id)
qed

lemma builder_rep_join:
  assumes "builder_rep s ls" and "d < length ls" and "holds b (raw (take (Suc d) ls) @ cs)"
  shows "builder_rep (s\<lparr>cb_base := Some b, cb_children := take d (cb_children s)\<rparr>)
    (take d ls @ [(fst (ls ! d), snd (ls ! d) @ cs)])"
proof -
  obtain p bs where l: "ls ! d = (p, bs)" by (cases "ls ! d")
  note ts = split_at [OF assms(2), unfolded l]
  have fr: "take d (cb_children s) = tl (frames_at 0 (take d ls @ [(p, bs @ cs)]))"
    unfolding builder_rep_split(2) [OF assms(1,2)] ts by (simp add: frames_at_append)
  have ne: "ls \<noteq> []" and hd: "fst (hd ls) = Length_prefix 0" and pr: "proper (tl ls)"
    using assms(1) by (simp_all add: builder_rep_def)
  have tl: "tl (take d ls @ [(p, bs @ cs)]) = (if d = 0 then [] else take (d - 1) (tl ls) @ [(p, bs @ cs)])"
    using ne by (cases ls; cases d) simp_all
  have "(p, bs) \<in> set (tl ls)" if "d \<noteq> 0"
    using assms(2) l that by (cases ls; cases d) (auto simp: in_set_conv_nth)
  with pr have "placeholder p \<noteq> 0" if "d \<noteq> 0" using that by force
  with pr have "proper (tl (take d ls @ [(p, bs @ cs)]))"
    unfolding tl by (auto dest: in_set_takeD)
  moreover have "fst (hd (take d ls @ [(p, bs @ cs)])) = Length_prefix 0"
    using ne hd l by (cases ls; cases d) simp_all
  moreover have "raw (take d ls @ [(p, bs @ cs)]) = raw (take (Suc d) ls) @ cs"
    by (simp add: ts raw_append)
  ultimately show ?thesis
    using assms(3) l fr by (simp add: builder_rep_def)
qed

lemma CBB_flush_refines:
  assumes "malloc_ok malloc"
  shows "refines malloc (\<lambda>_. True) (CBB_flush malloc d) (abs_flush d)"
proof (rule refinesI)
  fix s ls s' assume r: "builder_rep s ls" and f: "CBB_flush malloc d s = (True, s')"
  from r obtain b where b: "cb_base s = Some b" "holds b (raw ls)" by (auto simp: builder_rep_def)
  have "\<not> length (cb_children s) < d" using f by (auto simp: CBB_flush_def b)
  moreover have "length (cb_children s) = length ls - 1" "ls \<noteq> []" using r by (simp_all add: builder_rep_def)
  ultimately have d: "d < length ls" by (cases ls) auto
  note sp = builder_rep_split [OF r d]
  obtain b' fs where cf: "cbb_flush malloc b (drop d (cb_children s)) = (True, b', fs)"
    and s': "s' = s\<lparr>cb_base := Some b', cb_children := take d (cb_children s) @ fs\<rparr>"
    using f by (auto simp: CBB_flush_def b split: if_splits prod.splits)
  have "holds b (raw (take (Suc d) ls) @ raw (drop (Suc d) ls))" using b(2) sp(4) by simp
  from cbb_flush_holds [OF assms this sp(3) cf [unfolded sp(1)]] obtain cs where
    cs: "collapse (drop (Suc d) ls) = Some cs" "fs = []" "holds b' (raw (take (Suc d) ls) @ cs)" by blast
  from builder_rep_join [OF r d cs(3)] cs(1,2) d s'
  show "\<exists>ls'. abs_flush d ls = Some ls' \<and> builder_rep s' ls'" by (simp add: abs_flush_def)
next
  fix s ls ls' m
  assume r: "builder_rep s ls" and m: "has_room malloc s m" and a: "abs_flush d ls = Some ls'"
    and l: "length (raw ls') \<le> m"
  from r m obtain b where b: "cb_base s = Some b" "holds b (raw ls)" "room malloc b m"
    by (auto simp: builder_rep_def has_room_def)
  from a obtain cs where d: "d < length ls" and cs: "collapse (drop (Suc d) ls) = Some cs"
    and ls': "ls' = take d ls @ [(fst (ls ! d), snd (ls ! d) @ cs)]"
    by (auto simp: abs_flush_def split: if_splits)
  note sp = builder_rep_split [OF r d]
  have h: "holds b (raw (take (Suc d) ls) @ raw (drop (Suc d) ls))" using b(2) sp(4) by simp
  have "raw ls' = raw (take (Suc d) ls) @ cs"
    by (simp add: ls' split_at [OF d] raw_append prod.case_eq_if split: prod.split)
       (cases "ls ! d", simp)
  then have "length (raw (take (Suc d) ls)) + length cs \<le> m" using l by simp
  from cbb_flush_room [OF assms h sp(3) b(3) cs this] obtain b' where
    "cbb_flush malloc b (drop d (cb_children s)) = (True, b', [])" "room malloc b' m"
    unfolding sp(1) by blast
  moreover have "\<not> length (cb_children s) < d" using r d by (simp add: builder_rep_def)
  ultimately show "\<exists>s'. CBB_flush malloc d s = (True, s') \<and> has_room malloc s' m"
    by (simp add: CBB_flush_def b has_room_def)
next
  fix ls ls' assume "abs_flush d ls = Some ls'"
  then obtain cs where d: "d < length ls" and cs: "collapse (drop (Suc d) ls) = Some cs"
    and ls': "ls' = take d ls @ [(fst (ls ! d), snd (ls ! d) @ cs)]"
    by (auto simp: abs_flush_def split: if_splits)
  obtain p bs where l: "ls ! d = (p, bs)" by (cases "ls ! d")
  have "raw ls = raw (take d ls @ [(p, bs)]) @ raw (drop (Suc d) ls)"
    by (simp only: l [symmetric] split_at [OF d, symmetric] raw_append [symmetric] append_take_drop_id)
  with collapse_grows [OF cs] show "length (raw ls) \<le> length (raw ls')"
    by (simp add: ls' l raw_append)
qed


section \<open>The operations\<close>

lemma raw_append_last: "ls \<noteq> [] \<Longrightarrow> raw (append_last bs ls) = raw ls @ bs"
  by (cases ls rule: rev_cases) (auto simp: append_last_def raw_append)

lemma builder_rep_append_last:
  assumes "builder_rep s ls" and "holds b (raw ls @ bs)"
  shows "builder_rep (s\<lparr>cb_base := Some b\<rparr>) (append_last bs ls)"
proof -
  obtain xs p c where ls: "ls = xs @ [(p, c)]"
    using assms(1) by (cases ls rule: rev_cases) (auto simp: builder_rep_def)
  have "holds b (raw (append_last bs ls))" using assms(2) by (simp add: raw_append_last ls)
  with assms(1) show ?thesis
    by (cases xs) (auto simp: builder_rep_def ls append_last_def frames_at_append)
qed

lemma append_refines:
  assumes "malloc_ok malloc" and "length data + 8 < 2 ^ 63"
  shows "refines malloc (\<lambda>ls. ls \<noteq> [])
    (on_base (\<lambda>base.
       case cbb_buffer_add malloc base (length data) of
         (False, base') \<Rightarrow> (False, base')
       | (True, base') \<Rightarrow> (True, bb_put (bb_len base' - length data) data base')))
    (\<lambda>ls. Some (append_last data ls))"
proof (rule refinesI)
  fix s ls s'
  assume r: "builder_rep s ls" and f: "on_base (\<lambda>base.
       case cbb_buffer_add malloc base (length data) of
         (False, base') \<Rightarrow> (False, base')
       | (True, base') \<Rightarrow> (True, bb_put (bb_len base' - length data) data base')) s = (True, s')"
  from r obtain b where b: "cb_base s = Some b" "holds b (raw ls)" by (auto simp: builder_rep_def)
  from f b(1) obtain b1 where b1: "cbb_buffer_add malloc b (length data) = (True, b1)"
    and s': "s' = s\<lparr>cb_base := Some (bb_put (bb_len b1 - length data) data b1)\<rparr>"
    by (auto simp: on_base_def split: prod.splits bool.splits)
  from builder_rep_append_last [OF r append_holds [OF assms(1) b(2) assms(2) b1]] s'
  show "\<exists>ls'. Some (append_last data ls) = Some ls' \<and> builder_rep s' ls'" by simp
next
  fix s ls ls' m
  assume ne: "ls \<noteq> []" and r: "builder_rep s ls" and m: "has_room malloc s m"
    and a: "Some (append_last data ls) = Some ls'" and l: "length (raw ls') \<le> m"
  from r m obtain b where b: "cb_base s = Some b" "holds b (raw ls)" "room malloc b m"
    by (auto simp: builder_rep_def has_room_def)
  have "length (raw ls) + length data \<le> m" using a l ne by (auto simp: raw_append_last)
  from cbb_buffer_add_room [OF b(2,3) this assms(2)] b(1)
  show "\<exists>s'. on_base (\<lambda>base.
       case cbb_buffer_add malloc base (length data) of
         (False, base') \<Rightarrow> (False, base')
       | (True, base') \<Rightarrow> (True, bb_put (bb_len base' - length data) data base')) s = (True, s') \<and>
     has_room malloc s' m"
    by (fastforce simp: on_base_def has_room_def)
qed (auto simp: raw_append_last)

lemma cbb_buffer_add_u_eq:
  assumes "unat v < 256 ^ n" and "n \<noteq> 0"
  shows "cbb_buffer_add_u malloc b v n =
    (case cbb_buffer_add malloc b (length (be_bytes n (unat v))) of
         (False, base') \<Rightarrow> (False, base')
       | (True, base') \<Rightarrow>
           (True, bb_put (bb_len base' - length (be_bytes n (unat v))) (be_bytes n (unat v)) base'))"
  using assms by (simp add: cbb_buffer_add_u_def put_be_eq Let_def split: prod.split bool.split)

lemma flush_then:
  assumes "malloc_ok malloc" and "refines malloc (\<lambda>ls. ls \<noteq> []) g (\<lambda>ls. Some (h ls))"
  shows "refines malloc (\<lambda>_. True) (\<lambda>s. and_then (CBB_flush malloc d s) g)
    (\<lambda>ls. Option.bind (abs_flush d ls) (\<lambda>ls. Some (h ls)))"
  by (rule refines_and_then [OF CBB_flush_refines [OF assms(1)] assms(2)])
     (auto dest: abs_flush_length)

lemma CBB_add_bytes_refines:
  assumes "malloc_ok malloc" and "length data + 8 < 2 ^ 63"
  shows "refines malloc (\<lambda>_. True) (CBB_add_bytes malloc d data) (abs_append d data)"
  using flush_then [OF assms(1) append_refines [OF assms], of d]
  by (rule refines_cong) (simp_all add: CBB_add_bytes_def abs_append_def)

lemma add_u_refines:
  assumes "malloc_ok malloc" and "unat v < 256 ^ n" and "0 < n" and "n \<le> 4"
  shows "refines malloc (\<lambda>_. True)
    (\<lambda>s. and_then (CBB_flush malloc d s) (on_base (\<lambda>base. cbb_buffer_add_u malloc base v n)))
    (abs_append d (be_bytes n (unat v)))"
proof -
  have "length (be_bytes n (unat v)) + 8 < 2 ^ 63" using assms(4) by simp
  from flush_then [OF assms(1) append_refines [OF assms(1) this], of d] show ?thesis
    by (rule refines_cong) (use assms in \<open>simp_all only: cbb_buffer_add_u_eq abs_append_def neq0_conv\<close>)
qed

lemma CBB_add_u8_refines:
  "malloc_ok malloc \<Longrightarrow> refines malloc (\<lambda>_. True) (CBB_add_u8 malloc d v) (abs_append d [v])"
  using add_u_refines [of malloc "ucast v" 1 d] u8_less [of v]
  by (simp add: CBB_add_u8_def [abs_def])

lemma CBB_add_u16_refines:
  "malloc_ok malloc \<Longrightarrow>
   refines malloc (\<lambda>_. True) (CBB_add_u16 malloc d v) (abs_append d (be_bytes 2 (unat v)))"
  using add_u_refines [of malloc "ucast v" 2 d] unsigned_less [of v, where 'a = nat]
  by (simp add: CBB_add_u16_def [abs_def])

lemma CBB_add_u24_refines:
  "malloc_ok malloc \<Longrightarrow> unat v < 2 ^ 24 \<Longrightarrow>
   refines malloc (\<lambda>_. True) (CBB_add_u24 malloc d v) (abs_append d (be_bytes 3 (unat v)))"
  using add_u_refines [of malloc v 3 d] by (simp add: CBB_add_u24_def [abs_def])

lemma CBB_add_u32_refines:
  "malloc_ok malloc \<Longrightarrow>
   refines malloc (\<lambda>_. True) (CBB_add_u32 malloc d v) (abs_append d (be_bytes 4 (unat v)))"
  using add_u_refines [of malloc v 4 d] unsigned_less [of v, where 'a = nat]
  by (simp add: CBB_add_u32_def [abs_def])


text \<open>Opening a child: its placeholder is appended, then the frame is pushed.\<close>

lemma frames_at_append_last: "ls \<noteq> [] \<Longrightarrow> frames_at i (append_last bs ls) = frames_at i ls"
  by (cases ls rule: rev_cases) (auto simp: append_last_def frames_at_append)

lemma fst_hd_append_last: "ls \<noteq> [] \<Longrightarrow> fst (hd (append_last bs ls)) = fst (hd ls)"
  by (cases ls rule: rev_cases) (auto simp: append_last_def hd_append)

lemma proper_append_last: "ls \<noteq> [] \<Longrightarrow> proper (tl (append_last bs ls)) \<longleftrightarrow> proper (tl ls)"
  by (cases ls rule: rev_cases) (auto simp: append_last_def tl_append split: list.splits)

lemma builder_rep_open:
  assumes "builder_rep s (append_last (replicate (placeholder p) 0) ls)" and "length ls = Suc d"
    and "placeholder p \<noteq> 0"
  shows "builder_rep (open_child d \<lparr>cf_offset = length (raw ls), cf_pending_len_len = placeholder p,
      cf_pending_is_asn1 = (p = Asn1_prefix)\<rparr> s) (ls @ [(p, [])])"
proof -
  have ne: "ls \<noteq> []" using assms(2) by auto
  have c: "cb_children s = tl (frames_at 0 ls)" and hd: "fst (hd ls) = Length_prefix 0"
    and pr: "proper (tl ls)"
    and b: "\<exists>b. cb_base s = Some b \<and> holds b (raw ls @ replicate (placeholder p) 0)"
    using assms(1)
    unfolding builder_rep_def frames_at_append_last [OF ne] fst_hd_append_last [OF ne]
      proper_append_last [OF ne] raw_append_last [OF ne] by blast+
  have "length (cb_children s) = d" using c assms(2) by simp
  moreover have "tl (frames_at 0 (ls @ [(p, [])])) = tl (frames_at 0 ls) @
      [\<lparr>cf_offset = length (raw ls), cf_pending_len_len = placeholder p,
        cf_pending_is_asn1 = (p = Asn1_prefix)\<rparr>]"
  proof -
    have "frames_at 0 ls \<noteq> []" using ne length_frames_at [of 0 ls] by (metis length_0_conv)
    then show ?thesis by (simp add: frames_at_append)
  qed
  ultimately show ?thesis
    using c hd pr b ne assms(3) by (auto simp: builder_rep_def open_child_def raw_append)
qed

lemma base_len_rep: "builder_rep s ls \<Longrightarrow> base_len s = length (raw ls)"
  by (auto simp: builder_rep_def base_len_def holds_def)

lemma open_refines:
  assumes f: "refines malloc (\<lambda>ls. length ls = Suc d) f (\<lambda>ls. Some (append_last (replicate (placeholder p) 0) ls))"
    and p: "placeholder p \<noteq> 0"
  shows "refines malloc (\<lambda>ls. length ls = Suc d)
    (\<lambda>s. and_then (f s) (\<lambda>s'. (True, open_child d \<lparr>cf_offset = base_len s,
       cf_pending_len_len = placeholder p, cf_pending_is_asn1 = (p = Asn1_prefix)\<rparr> s')))
    (\<lambda>ls. Some (ls @ [(p, [])]))"
proof (rule refinesI)
  fix s ls s'
  assume d: "length ls = Suc d" and r: "builder_rep s ls"
    and a: "and_then (f s) (\<lambda>s'. (True, open_child d \<lparr>cf_offset = base_len s,
       cf_pending_len_len = placeholder p, cf_pending_is_asn1 = (p = Asn1_prefix)\<rparr> s')) = (True, s')"
  then obtain s1 where s1: "f s = (True, s1)" and s': "s' = open_child d \<lparr>cf_offset = base_len s,
       cf_pending_len_len = placeholder p, cf_pending_is_asn1 = (p = Asn1_prefix)\<rparr> s1"
    by (auto simp: and_then_def split: prod.splits bool.splits)
  have "builder_rep s1 (append_last (replicate (placeholder p) 0) ls)"
    using refinesD(1) [OF f d r s1] by simp
  from builder_rep_open [OF this d p] show "\<exists>ls'. Some (ls @ [(p, [])]) = Some ls' \<and> builder_rep s' ls'"
    by (simp add: s' base_len_rep [OF r])
next
  fix s ls ls' m
  assume d: "length ls = Suc d" and r: "builder_rep s ls" and m: "has_room malloc s m"
    and a: "Some (ls @ [(p, [])]) = Some ls'" and l: "length (raw ls') \<le> m"
  have "ls \<noteq> []" using d by auto
  with a l have "length (raw (append_last (replicate (placeholder p) 0) ls)) \<le> m"
    by (auto simp: raw_append_last raw_append)
  from refinesD(2) [OF f d r m refl this]
  show "\<exists>s'. and_then (f s) (\<lambda>s'. (True, open_child d \<lparr>cf_offset = base_len s,
       cf_pending_len_len = placeholder p, cf_pending_is_asn1 = (p = Asn1_prefix)\<rparr> s')) = (True, s') \<and>
     has_room malloc s' m"
    by (auto simp: and_then_def open_child_def has_room_def)
qed (auto simp: raw_append)

lemma cbb_buffer_add_len: "cbb_buffer_add malloc b n = (True, b') \<Longrightarrow> bb_len b' = bb_len b + n"
  by (auto simp: cbb_buffer_add_def cbb_buffer_reserve_def Let_def
      split: prod.splits bool.splits if_splits option.splits)

lemma refines_weaken: "refines malloc P f a \<Longrightarrow> (\<And>ls. Q ls \<Longrightarrow> P ls) \<Longrightarrow> refines malloc Q f a"
  unfolding refines_def by blast

lemma cbb_add_length_prefixed_refines:
  assumes "malloc_ok malloc" and "0 < n" and "n < 2 ^ 62"
  shows "refines malloc (\<lambda>_. True) (cbb_add_length_prefixed malloc d n) (abs_open d (Length_prefix n))"
proof -
  let ?data = "replicate n 0 :: bytes"
  have "length ?data + 8 < 2 ^ 63" using assms(3) by simp
  note app = append_refines [OF assms(1) this]
  have "refines malloc (\<lambda>ls. length ls = Suc d)
    (on_base (\<lambda>base.
       case cbb_buffer_add malloc base (length ?data) of
         (False, base') \<Rightarrow> (False, base')
       | (True, base') \<Rightarrow> (True, bb_put (bb_len base' - length ?data) ?data base')))
    (\<lambda>ls. Some (append_last (replicate (placeholder (Length_prefix n)) 0) ls))"
    using refines_weaken [OF app, of "\<lambda>ls. length ls = Suc d"] by fastforce
  from open_refines [OF this] assms(2)
  have op: "refines malloc (\<lambda>ls. length ls = Suc d)
    (\<lambda>s. and_then (on_base (\<lambda>base.
       case cbb_buffer_add malloc base (length ?data) of
         (False, base') \<Rightarrow> (False, base')
       | (True, base') \<Rightarrow> (True, bb_put (bb_len base' - length ?data) ?data base')) s)
      (\<lambda>s'. (True, open_child d \<lparr>cf_offset = base_len s, cf_pending_len_len = n,
         cf_pending_is_asn1 = False\<rparr> s')))
    (\<lambda>ls. Some (ls @ [(Length_prefix n, [])]))" by simp
  have eq: "and_then (on_base (\<lambda>base.
       case cbb_buffer_add malloc base (length ?data) of
         (False, base') \<Rightarrow> (False, base')
       | (True, base') \<Rightarrow> (True, bb_put (bb_len base' - length ?data) ?data base')) s) g =
     and_then (on_base (\<lambda>base. cbb_buffer_add malloc base n) s) (\<lambda>s'.
       and_then (on_base (\<lambda>base. (True, bb_put (base_len s) ?data base)) s') g)" for s g
    using cbb_buffer_add_len [of malloc _ n]
    by (auto simp: and_then_def on_base_def base_len_def split: option.splits prod.splits bool.splits)
  have "refines malloc (\<lambda>_. True) (\<lambda>s. and_then (CBB_flush malloc d s)
      (\<lambda>s. and_then (on_base (\<lambda>base. cbb_buffer_add malloc base n) s) (\<lambda>s'.
        and_then (on_base (\<lambda>base. (True, bb_put (base_len s) ?data base)) s') (\<lambda>s'.
          (True, open_child d \<lparr>cf_offset = base_len s, cf_pending_len_len = n,
             cf_pending_is_asn1 = False\<rparr> s')))))
    (\<lambda>ls. Option.bind (abs_flush d ls) (\<lambda>ls. Some (ls @ [(Length_prefix n, [])])))"
    by (rule refines_and_then [OF CBB_flush_refines [OF assms(1)] op [unfolded eq]])
       (rule abs_flush_length)
  then show ?thesis
    by (rule refines_cong) (simp_all add: cbb_add_length_prefixed_def abs_open_def Let_def)
qed


text \<open>After a flush the level is the last one, and flushing or appending there again is direct.\<close>

lemma abs_flush_id: "length ls = Suc d \<Longrightarrow> abs_flush d ls = Some ls"
  using split_at [of d ls] by (simp add: abs_flush_def)

lemma abs_append_last: "length ls = Suc d \<Longrightarrow> abs_append d bs ls = Some (append_last bs ls)"
  by (simp add: abs_append_def abs_flush_id)

lemma length_append_last: "ls \<noteq> [] \<Longrightarrow> length (append_last bs ls) = length ls"
  by (cases ls rule: rev_cases) (auto simp: append_last_def)

lemma abs_append_length: "abs_append d bs ls = Some ls' \<Longrightarrow> length ls' = Suc d"
  by (auto simp: abs_append_def bind_eq_Some_conv length_append_last dest!: abs_flush_length)
     (metis abs_flush_length length_append_last length_0_conv nat.distinct(1))

lemma append_last_append_last:
  "ls \<noteq> [] \<Longrightarrow> append_last ys (append_last xs ls) = append_last (xs @ ys) ls"
  by (cases ls rule: rev_cases) (auto simp: append_last_def)

lemma abs_append_append:
  "Option.bind (abs_append d xs ls) (abs_append d ys) = abs_append d (xs @ ys) ls"
proof (cases "abs_flush d ls")
  case (Some ls')
  then have l: "length ls' = Suc d" by (rule abs_flush_length)
  then have "ls' \<noteq> []" by auto
  with Some l show ?thesis
    by (simp add: abs_append_def abs_flush_id length_append_last append_last_append_last)
qed (simp add: abs_append_def)

lemma abs_append_Nil: "length ls = Suc d \<Longrightarrow> abs_append d [] ls = Some ls"
  by (cases ls rule: rev_cases) (auto simp: abs_append_last append_last_def)

text \<open>Appending in steps.\<close>

lemma append_steps:
  assumes "refines malloc (\<lambda>_. True) f (abs_append d xs)"
    and "refines malloc (\<lambda>ls. length ls = Suc d) g (abs_append d ys)"
  shows "refines malloc (\<lambda>_. True) (\<lambda>s. and_then (f s) g) (abs_append d (xs @ ys))"
  using refines_and_then [OF assms] abs_append_length
  by (simp add: abs_append_append)

lemma append_steps':
  assumes "refines malloc (\<lambda>ls. length ls = Suc d) f (abs_append d xs)"
    and "refines malloc (\<lambda>ls. length ls = Suc d) g (abs_append d ys)"
  shows "refines malloc (\<lambda>ls. length ls = Suc d) (\<lambda>s. and_then (f s) g) (abs_append d (xs @ ys))"
  using refines_and_then [OF assms] abs_append_length
  by (simp add: abs_append_append)

lemma skip_refines: "refines malloc (\<lambda>ls. length ls = Suc d) (\<lambda>s. (True, s)) (abs_append d [])"
  by (rule refinesI) (auto simp: abs_append_Nil)

section \<open>ASN.1\<close>

text \<open>The base-128 digits, most significant first, that the loop writes from position \<open>i\<close>.\<close>

fun base128_from :: "nat \<Rightarrow> nat \<Rightarrow> bytes" where
  "base128_from v 0 = []"
| "base128_from v (Suc i) =
     of_nat ((if i = 0 then 0 else 128) + v div 128 ^ i mod 128) # base128_from v i"

lemma unat_or_0x80: "unat (b :: u8) < 128 \<Longrightarrow> unat (b OR 0x80) = 128 + unat b"
  using unat_push_or [of 1 7 b] by (simp add: or.commute)

lemma digit_byte:
  "unat (y :: u8) = n \<Longrightarrow> n < 128 \<Longrightarrow>
   (if i \<noteq> 0 then y OR 0x80 else y) = of_nat ((if i = (0 :: nat) then 0 else 128) + n)"
  by (cases "i = 0") (auto simp: u8_eq_iff unat_of_nat_u8 unat_or_0x80 simp del: of_nat_add)

lemma add_base128_loop_refines:
  assumes "malloc_ok malloc"
  shows "refines malloc (\<lambda>ls. length ls = Suc d) (add_base128_loop malloc d v i)
    (abs_append d (base128_from (unat v) i))"
proof (induction i)
  case 0
  then show ?case using skip_refines by simp
next
  case (Suc i)
  let ?b = "ucast (drop_bit (7 * i) v) AND 0x7f :: u8"
  have ub: "unat ?b = unat v div 128 ^ i mod 128"
  proof -
    have "unat ?b = unat (drop_bit (7 * i) v) mod 256 mod 128"
      unfolding unat_and_0x7F by (simp add: unsigned_ucast_eq take_bit_eq_mod)
    also have "\<dots> = unat (drop_bit (7 * i) v) mod 128" by (rule mod_mod_cancel) simp
    also have "\<dots> = unat v div 128 ^ i mod 128"
      by (simp only: unat_drop_bit power_mult) simp
    finally show ?thesis .
  qed
  have b: "(if i \<noteq> 0 then ?b OR 0x80 else ?b) =
      of_nat ((if i = 0 then 0 else 128) + unat v div 128 ^ i mod 128)"
    by (rule digit_byte [OF ub]) simp
  have "refines malloc (\<lambda>ls. length ls = Suc d)
      (CBB_add_u8 malloc d (if i \<noteq> 0 then ?b OR 0x80 else ?b))
      (abs_append d [of_nat ((if i = 0 then 0 else 128) + unat v div 128 ^ i mod 128)])"
    unfolding b using refines_weaken [OF CBB_add_u8_refines [OF assms]] by blast
  from append_steps' [OF this Suc.IH] show ?case by (simp add: Let_def)
qed


fun hi_from :: "nat \<Rightarrow> nat \<Rightarrow> bytes" where
  "hi_from v 0 = []"
| "hi_from v (Suc i) = of_nat (128 + v div 128 ^ i mod 128) # hi_from v i"

lemma base128_from_hi: "base128_from v (Suc i) = hi_from (v div 128) i @ [of_nat (v mod 128)]"
  by (induction i) (simp_all add: div_mult2_eq)

lemma hi_from_snoc: "hi_from v (Suc i) = hi_from (v div 128) i @ [of_nat (128 + v mod 128)]"
  by (induction i) (simp_all add: div_mult2_eq)

lemma hi_from_eq:
  "(v = 0 \<and> i = 0) \<or> (0 < i \<and> 128 ^ (i - 1) \<le> v \<and> v < 128 ^ i) \<Longrightarrow> hi_from v i = base128_hi v"
proof (induction i arbitrary: v)
  case (Suc i)
  then have v: "128 ^ i \<le> v" "v < 128 * 128 ^ i" by simp_all
  then have pos: "0 < v" by (meson less_le_trans zero_less_numeral zero_less_power)
  have "hi_from (v div 128) i = base128_hi (v div 128)"
  proof (rule Suc.IH, cases i)
    case (Suc j)
    have "128 ^ j \<le> v div 128" using v(1) Suc by (simp add: less_eq_div_iff_mult_less_eq mult.commute)
    moreover have "v div 128 < 128 ^ i" using v(2) by (simp add: less_mult_imp_div_less mult.commute)
    ultimately show "(v div 128 = 0 \<and> i = 0) \<or> (0 < i \<and> 128 ^ (i - 1) \<le> v div 128 \<and> v div 128 < 128 ^ i)"
      using Suc by simp
  qed (use v in simp)
  then show ?case by (simp only: hi_from_snoc base128_hi_step [OF pos])
qed simp

lemma base128_len_bounds:
  "unat v < 128 ^ k \<Longrightarrow>
   (v = 0 \<and> base128_len k v = 0) \<or>
   (0 < base128_len k v \<and> 128 ^ (base128_len k v - 1) \<le> unat v \<and> unat v < 128 ^ base128_len k v)"
proof (induction k v rule: base128_len.induct)
  case (2 n v)
  show ?case
  proof (cases "v = 0")
    case False
    let ?w = "drop_bit 7 v"
    have w: "unat ?w = unat v div 128" by (simp only: unat_drop_bit) simp
    have "unat ?w < 128 ^ n" using "2.prems" w by (simp add: less_mult_imp_div_less)
    note IH = "2.IH" [OF False this]
    show ?thesis
    proof (cases "?w = 0")
      case True
      then have "unat v div 128 = 0" using w by simp
      then have "unat v < 128" by simp
      moreover have "base128_len n ?w = 0" using True by (cases n) simp_all
      moreover have "0 < unat v" using False by (simp add: unat_gt_0)
      ultimately show ?thesis using False by simp
    next
      case nz: False
      with IH obtain l where l: "base128_len n ?w = Suc l" "128 ^ l \<le> unat v div 128" "unat v div 128 < 128 ^ Suc l"
        using w by (cases "base128_len n ?w") auto
      then have "128 ^ Suc l \<le> unat v" "unat v < 128 ^ Suc (Suc l)"
        by (simp_all add: less_eq_div_iff_mult_less_eq div_less_iff_less_mult mult.commute)
      with False l(1) show ?thesis by simp
    qed
  qed simp
qed (simp add: unat_eq_0)

lemma add_base128_integer_refines:
  assumes "malloc_ok malloc"
  shows "refines malloc (\<lambda>ls. length ls = Suc d) (add_base128_integer malloc d v)
    (abs_append d (base128 (unat v)))"
proof -
  have "unat v < 128 ^ 10" using unsigned_less [of v, where 'a = nat] by simp
  note b = base128_len_bounds [OF this]
  define l where "l = (if base128_len 10 v = 0 then 1 else base128_len 10 v)"
  have "base128_from (unat v) l = base128 (unat v)"
  proof (cases "v = 0")
    case True
    with b have "l = Suc 0" by (auto simp: l_def)
    with True show ?thesis by (simp add: base128_def)
  next
    case False
    with b obtain i where i: "l = Suc i" "128 ^ i \<le> unat v" "unat v < 128 ^ Suc i"
      by (cases "base128_len 10 v") (auto simp: l_def)
    have "hi_from (unat v div 128) i = base128_hi (unat v div 128)"
      by (rule hi_from_eq)
         (use i(2,3) in \<open>cases i; simp add: less_eq_div_iff_mult_less_eq less_mult_imp_div_less mult.commute\<close>)
    then show ?thesis unfolding i(1) base128_from_hi base128_def by simp
  qed
  with add_base128_loop_refines [OF assms, of d v l] show ?thesis
    by (simp add: add_base128_integer_def [abs_def] Let_def l_def)
qed


text \<open>\<open>CBB_add_asn1\<close>: the tag is appended, then a child with an ASN.1 length is opened.\<close>

lemma tag_bytes_refines:
  assumes "malloc_ok malloc"
  shows "refines malloc (\<lambda>ls. length ls = Suc d)
    (\<lambda>s. let tag_bits = ucast (drop_bit CBS_ASN1_TAG_SHIFT tag) AND 0xe0;
           tag_number = tag AND CBS_ASN1_TAG_NUMBER_MASK in
       if 0x1f \<le> tag_number then
         and_then (CBB_add_u8 malloc d (tag_bits OR 0x1f) s)
           (add_base128_integer malloc d (ucast tag_number))
       else CBB_add_u8 malloc d (tag_bits OR ucast tag_number) s)
    (abs_append d (asn1_tag_bytes tag))"
proof -
  let ?m = "tag AND CBS_ASN1_TAG_NUMBER_MASK"
  let ?bits = "ucast (drop_bit CBS_ASN1_TAG_SHIFT tag) AND 0xe0 :: u8"
  have u8: "refines malloc (\<lambda>ls. length ls = Suc d) (CBB_add_u8 malloc d v) (abs_append d [v])" for v
    using refines_weaken [OF CBB_add_u8_refines [OF assms]] by blast
  show ?thesis
  proof (cases "0x1f \<le> ?m")
    case True
    have "unat (ucast ?m :: u64) = unat ?m" by (rule unat_ucast_up) simp
    with append_steps' [OF u8 [of "?bits OR 0x1f"] add_base128_integer_refines [OF assms, of d "ucast ?m"]]
    have "refines malloc (\<lambda>ls. length ls = Suc d)
      (\<lambda>s. and_then (CBB_add_u8 malloc d (?bits OR 0x1f) s) (add_base128_integer malloc d (ucast ?m)))
      (abs_append d ((?bits OR 0x1f) # base128 (unat ?m)))"
      by (simp only: append_Cons append_Nil)
    then show ?thesis
      by (rule refines_cong) (simp_all only: Let_def True if_True asn1_tag_bytes_def)
  next
    case False
    show ?thesis
      by (rule refines_cong [OF u8 [of "?bits OR ucast ?m"]])
         (simp_all only: Let_def False if_False asn1_tag_bytes_def)
  qed
qed

definition abs_add_asn1 :: "nat \<Rightarrow> u32 \<Rightarrow> level list \<Rightarrow> level list option" where
  "abs_add_asn1 d tag ls =
     Option.bind (abs_append d (asn1_tag_bytes tag) ls) (abs_open d Asn1_prefix)"

lemma CBB_add_asn1_refines:
  assumes "malloc_ok malloc"
  shows "refines malloc (\<lambda>_. True) (CBB_add_asn1 malloc d tag) (abs_add_asn1 d tag)"
proof -
  have "refines malloc (\<lambda>ls. length ls = Suc d) (CBB_add_u8 malloc d 0)
      (\<lambda>ls. Some (append_last (replicate (placeholder Asn1_prefix) 0) ls))"
    by (rule refines_cong [OF refines_weaken [OF CBB_add_u8_refines [OF assms, of d 0],
            of "\<lambda>ls. length ls = Suc d"]]) (simp_all add: abs_append_last)
  from open_refines [OF this]
  have op: "refines malloc (\<lambda>ls. length ls = Suc d)
    (\<lambda>s. and_then (CBB_add_u8 malloc d 0 s) (\<lambda>s'. (True, open_child d \<lparr>cf_offset = base_len s,
       cf_pending_len_len = 1, cf_pending_is_asn1 = True\<rparr> s')))
    (\<lambda>ls. Some (ls @ [(Asn1_prefix, [])]))" by simp
  have "refines malloc (\<lambda>_. True) (\<lambda>s. and_then (CBB_flush malloc d s) (\<lambda>s. and_then
      (let tag_bits = ucast (drop_bit CBS_ASN1_TAG_SHIFT tag) AND 0xe0;
           tag_number = tag AND CBS_ASN1_TAG_NUMBER_MASK in
       if 0x1f \<le> tag_number then
         and_then (CBB_add_u8 malloc d (tag_bits OR 0x1f) s)
           (add_base128_integer malloc d (ucast tag_number))
       else CBB_add_u8 malloc d (tag_bits OR ucast tag_number) s)
      (\<lambda>s. and_then (CBB_add_u8 malloc d 0 s) (\<lambda>s'. (True, open_child d \<lparr>cf_offset = base_len s,
       cf_pending_len_len = 1, cf_pending_is_asn1 = True\<rparr> s')))))
    (\<lambda>ls. Option.bind (abs_flush d ls) (\<lambda>ls. Option.bind (abs_append d (asn1_tag_bytes tag) ls)
       (\<lambda>ls. Some (ls @ [(Asn1_prefix, [])]))))"
    by (rule refines_and_then [OF CBB_flush_refines [OF assms]
          refines_and_then [OF tag_bytes_refines [OF assms] op]])
       (auto dest: abs_flush_length abs_append_length)
  then show ?thesis
  proof (rule refines_cong)
    fix ls
    show "abs_add_asn1 d tag ls =
      Option.bind (abs_flush d ls) (\<lambda>ls. Option.bind (abs_append d (asn1_tag_bytes tag) ls)
        (\<lambda>ls. Some (ls @ [(Asn1_prefix, [])])))"
    proof (cases "abs_flush d ls")
      case (Some ls1)
      then have l: "length ls1 = Suc d" by (rule abs_flush_length)
      then have "length (append_last (asn1_tag_bytes tag) ls1) = Suc d"
        by (subst length_append_last) auto
      with Some l show ?thesis
        by (simp add: abs_add_asn1_def abs_append_def abs_open_def abs_flush_id)
    qed (simp add: abs_add_asn1_def abs_append_def)
  qed (simp add: CBB_add_asn1_def Let_def)
qed


section \<open>Whole elements\<close>

lemma abs_element:
  assumes "length body \<le> 0xfffffffe"
  shows "Option.bind (abs_add_asn1 d tag ls)
      (\<lambda>ls. Option.bind (abs_append (Suc d) body ls) (abs_flush d)) =
    abs_append d (der_element tag body) ls"
proof (cases "abs_flush d ls")
  case (Some ls1)
  then have l: "length ls1 = Suc d" by (rule abs_flush_length)
  then obtain xs p c where ls1: "ls1 = xs @ [(p, c)]" by (cases ls1 rule: rev_cases) auto
  with l have d: "length xs = d" by simp
  let ?t = "asn1_tag_bytes tag"
  have open_: "abs_add_asn1 d tag ls = Some (xs @ [(p, c @ ?t), (Asn1_prefix, [])])"
    using Some d by (simp add: abs_add_asn1_def abs_append_def abs_open_def append_last_def ls1 abs_flush_id)
  have app: "abs_append (Suc d) body (xs @ [(p, c @ ?t), (Asn1_prefix, [])]) =
      Some (xs @ [(p, c @ ?t), (Asn1_prefix, body)])"
    using d by (subst abs_append_last) (simp_all add: append_last_def butlast_append)
  have "abs_flush d (xs @ [(p, c @ ?t), (Asn1_prefix, body)]) =
      Some (xs @ [(p, (c @ ?t) @ der_length (length body) @ body)])"
    using d assms by (simp add: abs_flush_def nth_append)
  with open_ app have "Option.bind (abs_add_asn1 d tag ls)
      (\<lambda>ls. Option.bind (abs_append (Suc d) body ls) (abs_flush d)) =
      Some (xs @ [(p, (c @ ?t) @ der_length (length body) @ body)])" by simp
  with Some show ?thesis
    by (simp add: abs_append_def append_last_def ls1 der_element_def der_header_def)
qed (simp add: abs_add_asn1_def abs_append_def)

lemma abs_add_asn1_length: "abs_add_asn1 d tag ls = Some ls' \<Longrightarrow> length ls' = Suc (Suc d)"
  by (auto simp: abs_add_asn1_def abs_open_def bind_eq_Some_conv dest: abs_flush_length)

lemma element_refines:
  assumes "malloc_ok malloc" and "length body \<le> 0xfffffffe"
    and "refines malloc (\<lambda>ls. length ls = Suc (Suc d)) g (abs_append (Suc d) body)"
  shows "refines malloc (\<lambda>_. True)
    (\<lambda>s. and_then (CBB_add_asn1 malloc d tag s) (\<lambda>s. and_then (g s) (CBB_flush malloc d)))
    (abs_append d (der_element tag body))"
proof -
  have "refines malloc (\<lambda>_. True)
    (\<lambda>s. and_then (CBB_add_asn1 malloc d tag s) (\<lambda>s. and_then (g s) (CBB_flush malloc d)))
    (\<lambda>ls. Option.bind (abs_add_asn1 d tag ls)
      (\<lambda>ls. Option.bind (abs_append (Suc d) body ls) (abs_flush d)))"
    by (rule refines_and_then [OF CBB_add_asn1_refines [OF assms(1)]
          refines_and_then [OF assms(3) CBB_flush_refines [OF assms(1)]]])
       (auto dest: abs_add_asn1_length)
  then show ?thesis by (simp only: abs_element [OF assms(2)])
qed

lemma CBB_add_asn1_octet_string_refines:
  assumes "malloc_ok malloc" and "length data \<le> 0xfffffffe"
  shows "refines malloc (\<lambda>_. True) (CBB_add_asn1_octet_string malloc d data)
    (abs_append d (der_element CBS_ASN1_OCTETSTRING data))"
proof -
  have "length data + 8 < 2 ^ 63" using assms(2) by simp
  from element_refines [OF assms refines_weaken [OF CBB_add_bytes_refines [OF assms(1) this]]]
  show ?thesis by (simp add: CBB_add_asn1_octet_string_def [abs_def])
qed

lemma CBB_add_asn1_bool_refines:
  assumes "malloc_ok malloc"
  shows "refines malloc (\<lambda>_. True) (CBB_add_asn1_bool malloc d v)
    (abs_append d (der_element CBS_ASN1_BOOLEAN [if v \<noteq> 0 then 0xff else 0]))"
proof -
  let ?b = "if v \<noteq> 0 then 0xff else 0 :: u8"
  have "length [?b] \<le> 0xfffffffe" by simp
  from element_refines [OF assms this refines_weaken [OF CBB_add_u8_refines [OF assms]]]
  show ?thesis by (simp only: CBB_add_asn1_bool_def [abs_def] Suc_eq_plus1)
qed

lemma be_bytes_Cons: "be_bytes (Suc n) v = of_nat (v div 256 ^ n) # be_bytes n v"
  by (induction n arbitrary: v) (simp_all add: div_mult2_eq)

lemma uint64_byte: "unat (ucast (drop_bit (8 * n) (v :: u64)) AND 0xff :: u8) = unat v div 256 ^ n mod 256"
proof -
  have m: "(b :: u8) AND 0xff = b" for b
  proof -
    have ff: "(0xff :: u8) = mask 8" by (simp add: mask_eq_exp_minus_1)
    show ?thesis by (simp only: ff take_bit_eq_mask [symmetric]) (rule take_bit_word_beyond, simp)
  qed
  have "unat (drop_bit (8 * n) v) = unat v div 256 ^ n"
    by (simp only: unat_drop_bit power_mult) simp
  then show ?thesis by (simp add: m unsigned_ucast_eq take_bit_eq_mod)
qed

lemma uint_bytes_be_bytes:
  assumes "256 ^ n \<le> v" and "v < 256 ^ Suc n"
  shows "uint_bytes v = be_bytes (Suc n) v"
proof -
  have "0 < v div 256 ^ n" "v div 256 ^ n < 256"
    using assms by (simp_all add: div_greater_zero_iff less_mult_imp_div_less)
  then have "hd (be_bytes (Suc n) v) \<noteq> 0" by (simp add: be_bytes_Cons u8_eq_iff unat_of_nat_u8 del: be_bytes.simps)
  with uint_bytes_be_val [of "be_bytes (Suc n) v"] assms(2) show ?thesis
    by (simp add: be_val_be_bytes del: be_bytes.simps)
qed

lemma asn1_uint64_bytes_refines:
  assumes "malloc_ok malloc"
  shows "refines malloc (\<lambda>ls. length ls = Suc d) (asn1_uint64_bytes malloc d v n True)
      (abs_append d (be_bytes n (unat v)))"
    and "unat v < 256 ^ n \<Longrightarrow>
      refines malloc (\<lambda>ls. length ls = Suc d) (asn1_uint64_bytes malloc d v n False)
        (abs_append d (der_uint (unat v)))"
proof -
  let ?P = "\<lambda>ls :: level list. length ls = Suc d"
  let ?byte = "\<lambda>n. ucast (drop_bit (8 * n) v) AND 0xff :: u8"
  have u8: "refines malloc ?P (CBB_add_u8 malloc d b) (abs_append d [b])" for b
    using refines_weaken [OF CBB_add_u8_refines [OF assms]] by blast
  have byte: "?byte n = of_nat (unat v div 256 ^ n)" for n
    by (simp only: u8_eq_iff uint64_byte unat_of_nat_u8)
  show started: "refines malloc ?P (asn1_uint64_bytes malloc d v n True) (abs_append d (be_bytes n (unat v)))" for n
  proof (induction n)
    case 0
    then show ?case using skip_refines by simp
  next
    case (Suc n)
    from append_steps' [OF u8 [of "?byte n"] Suc] show ?case
      by (simp only: asn1_uint64_bytes.simps Let_def byte be_bytes_Cons append_Cons append_Nil
          not_True_eq_False if_False)
  qed
  show "unat v < 256 ^ n \<Longrightarrow>
      refines malloc ?P (asn1_uint64_bytes malloc d v n False) (abs_append d (der_uint (unat v)))"
  proof (induction n)
    case 0
    then have "unat v = 0" by simp
    with u8 [of 0] show ?case by (simp add: der_uint_def)
  next
    case (Suc n)
    show ?case
    proof (cases "?byte n = 0")
      case True
      have "unat v div 256 ^ n < 256" using Suc.prems by (simp add: less_mult_imp_div_less)
      with True have "unat v div 256 ^ n = 0" using uint64_byte [of n v] by simp
      then have "unat v < 256 ^ n" by (simp add: div_eq_0_iff)
      with Suc.IH True show ?thesis by (simp add: Let_def)
    next
      case False
      have lt: "unat v div 256 ^ n < 256" using Suc.prems by (simp add: less_mult_imp_div_less)
      have "unat v div 256 ^ n \<noteq> 0" using False uint64_byte [of n v] lt by (auto simp: u8_eq_iff)
      then have "256 ^ n \<le> unat v" by (simp add: div_eq_0_iff)
      note ub = uint_bytes_be_bytes [OF this Suc.prems]
      have nz: "unat v \<noteq> 0" using \<open>256 ^ n \<le> unat v\<close> by (metis not_le zero_less_numeral zero_less_power)
      have du: "der_uint (unat v) =
          (if ?byte n AND 0x80 \<noteq> 0 then [0] else []) @ ?byte n # be_bytes n (unat v)"
        using nz by (simp add: der_uint_def ub be_bytes_Cons byte del: be_bytes.simps)
      have pad: "refines malloc ?P (\<lambda>s. if ?byte n AND 0x80 \<noteq> 0 then CBB_add_u8 malloc d 0 s else (True, s))
          (abs_append d (if ?byte n AND 0x80 \<noteq> 0 then [0] else []))"
        using u8 [of 0] skip_refines by (cases "?byte n AND 0x80 \<noteq> 0") simp_all
      from append_steps' [OF pad append_steps' [OF u8 [of "?byte n"] started]] False
      show ?thesis unfolding du by (simp add: Let_def)
    qed
  qed
qed

lemma CBB_add_asn1_uint64_refines:
  assumes "malloc_ok malloc"
  shows "refines malloc (\<lambda>_. True) (CBB_add_asn1_uint64 malloc d v)
    (abs_append d (der_element CBS_ASN1_INTEGER (der_uint (unat v))))"
proof -
  have v: "unat v < 256 ^ 8" using unsigned_less [of v, where 'a = nat] by simp
  then have "length (der_uint (unat v)) \<le> 0xfffffffe" using der_uint_length [of "unat v"] by simp
  from element_refines [OF assms this asn1_uint64_bytes_refines(2) [OF assms v]]
  show ?thesis by (simp add: CBB_add_asn1_uint64_def [abs_def])
qed

section \<open>Creating and finishing\<close>

lemma CBB_init_fixed_rep:
  assumes "length buf + 8 < 2 ^ 63"
  obtains s where "CBB_init_fixed True buf (length buf) = (True, s)"
    and "builder_rep s [(Length_prefix 0, [])]" and "has_room malloc s (length buf)"
  using assms
  by (simp add: CBB_init_fixed_def cbb_init_def builder_rep_def has_room_def holds_def room_def)

lemma CBB_init_rep:
  assumes "malloc_ok malloc" and "CBB_init malloc ok n = (True, s)" and "n < 2 ^ 62"
  shows "builder_rep s [(Length_prefix 0, [])]"
proof (cases "OPENSSL_malloc malloc n")
  case (Some buf)
  from OPENSSL_malloc_length [OF assms(1) Some] assms(3) have "length buf = n" by simp
  with Some assms(2,3) show ?thesis
    by (auto simp: CBB_init_def cbb_init_def builder_rep_def holds_def split: if_splits)
qed (use assms(2) in \<open>auto simp: CBB_init_def cbb_init_def builder_rep_def holds_def split: if_splits\<close>)

lemma CBB_finish_rep:
  assumes "malloc_ok malloc" and "builder_rep s ls" and "CBB_finish malloc d outs s = (Some data, s')"
  shows "abs_flush 0 ls = Some [(Length_prefix 0, data)]" and "d = 0"
proof -
  show d: "d = 0" using assms(3) by (auto simp: CBB_finish_def split: if_splits)
  obtain s1 where f: "CBB_flush malloc 0 s = (True, s1)"
    using assms(3) d by (auto simp: CBB_finish_def split: prod.splits bool.splits)
  obtain ls1 where ls1: "abs_flush 0 ls = Some ls1" "builder_rep s1 ls1"
    using refinesD(1) [OF CBB_flush_refines [OF assms(1)] TrueI assms(2) f] by blast
  then have "length ls1 = Suc 0" using abs_flush_length by blast
  then obtain p c where c: "ls1 = [(p, c)]" by (cases ls1) auto
  with ls1(2) obtain b where b: "cb_base s1 = Some b" "holds b c" "p = Length_prefix 0"
    by (auto simp: builder_rep_def)
  with assms(3) d f have "data = c"
    by (auto simp: CBB_finish_def holds_def split: if_splits)
  with ls1(1) c b(3) show "abs_flush 0 ls = Some [(Length_prefix 0, data)]" by simp
qed

lemma CBB_finish_total:
  assumes "malloc_ok malloc" and "builder_rep s ls" and "has_room malloc s m"
    and "abs_flush 0 ls = Some [(Length_prefix 0, data)]" and "length data \<le> m"
  shows "fst (CBB_finish malloc 0 True s) = Some data"
proof -
  have "length (raw [(Length_prefix 0, data)]) \<le> m" using assms(5) by simp
  from refinesD(2) [OF CBB_flush_refines [OF assms(1)] TrueI assms(2-4) this] obtain s1 where
    "CBB_flush malloc 0 s = (True, s1)" "builder_rep s1 [(Length_prefix 0, data)]" by blast
  then show ?thesis by (auto simp: CBB_finish_def builder_rep_def holds_def)
qed

end
