(* ===== verification/Ber.thy ===== *)
theory Ber
  imports Cbb_Spec
begin

text \<open>
  Conversion of BER to DER, \<open>crypto/bytestring/ber.c\<close>. The C functions recurse into constructed
  elements up to \<open>kMaxDepth\<close>. \<open>cbs_find_ber\<close> is modelled with its own recursion; \<open>convert_ber\<close>, whose
  loop goes on behind what a nested call has consumed, takes a bound on the number of nested
  iterations, and \<open>cbs_convert_ber\<close> passes one more than the length of the input, which is enough
  (\<open>convert_ber_fuel\<close>).
\<close>

definition kMaxDepth :: nat where "kMaxDepth = 2048"

definition is_string_type :: "u32 \<Rightarrow> bool" where
  "is_string_type tag =
     (tag AND NOT CBS_ASN1_CONSTRUCTED
        \<in> set [3, 4, 0xc, 0x12, 0x13, 0x14, 0x15, 0x16, 0x19, 0x1a, 0x1b, 0x1c, 0x1e])"

definition is_indefinite :: "cbs \<Rightarrow> nat \<Rightarrow> bool" where
  "is_indefinite contents header_len =
     (length contents = header_len \<and> header_len > 0 \<and> contents ! (header_len - 1) = 0x80)"

section \<open>Progress of the element parser\<close>

lemma asn1_tag_bytes_not_Nil: "asn1_tag_bytes tag \<noteq> []"
  by (simp add: asn1_tag_bytes_def Let_def)

lemma ber_element_Some:
  assumes "CBS_get_any_ber_asn1_element s = (Some (out, tag, hl), s')"
  shows "s = out @ s'" and "2 \<le> hl" and "hl \<le> length out"
proof -
  obtain r h where p: "parse_asn1_tag s = (r, h)" by (cases "parse_asn1_tag s")
  have e: "cbs_get_any_asn1_element s True = (Some (out, tag, hl), s')"
    using assms by (simp add: CBS_get_any_ber_asn1_element_def)
  obtain t b h' where t: "r = Some t" "h = b # h'"
    using e by (cases r; cases h) (simp_all add: cbs_get_any_asn1_element_cases p)
  have "s = asn1_tag_bytes t @ b # h'" using parse_asn1_tag_Some p t by simp
  then have l: "length s = length (asn1_tag_bytes t) + 1 + length h'" by simp
  then have h2: "2 \<le> length s - length h'"
    using asn1_tag_bytes_not_Nil [of t] by (cases "asn1_tag_bytes t") simp_all
  let ?h = "length s - length h'"
  obtain n k where g: "get_element s n tag (?h + k) = (Some (out, tag, hl), s')"
    and n: "?h + k \<le> n" and hl: "hl = ?h + k"
  proof -
    let ?k = "unat b mod 128"
    obtain w h'' where w: "cbs_get_u h' ?k = (w, h'')" by (cases "cbs_get_u h' ?k")
    note eq = e [unfolded cbs_get_any_asn1_element_cases p t prod.case option.case list.case Let_def w]
    have "get_element s (unat b + ?h) t ?h = (Some (out, tag, hl), s') \<or>
        get_element s ?h t ?h = (Some (out, tag, hl), s') \<or>
        (\<exists>x :: u32. get_element s (add_size (unat x) (?h + ?k)) t (?h + ?k) = (Some (out, tag, hl), s') \<and> ?k \<le> 4)"
      using eq by (cases w) (auto split: if_splits)
    then consider (short) "get_element s (unat b + ?h) t ?h = (Some (out, tag, hl), s')"
      | (indef) "get_element s ?h t ?h = (Some (out, tag, hl), s')"
      | (long) x :: u32 where "get_element s (add_size (unat x) (?h + ?k)) t (?h + ?k) = (Some (out, tag, hl), s')"
          "?k \<le> 4"
      by blast
    then show thesis
    proof cases
      case short
      then have "t = tag" "hl = ?h" unfolding get_element_Some by blast+
      with short show thesis by (intro that [of "unat b + ?h" 0]) simp_all
    next
      case indef
      then have "t = tag" "hl = ?h" unfolding get_element_Some by blast+
      with indef show thesis by (intro that [of ?h 0]) simp_all
    next
      case long
      have "unat x < 2 ^ 32" using unsigned_less [of x, where 'a = nat] by simp
      then have "add_size (unat x) (?h + ?k) = unat x + (?h + ?k)"
        using l long(2) length_asn1_tag_bytes [of t] by simp
      moreover have "t = tag" "hl = ?h + ?k" using long(1) unfolding get_element_Some by blast+
      ultimately show thesis using long(1) by (intro that [of "unat x + (?h + ?k)" ?k]) simp_all
    qed
  qed
  from g have "s = out @ s'" "length out = n" unfolding get_element_Some by blast+
  then show "s = out @ s'" and "2 \<le> hl" and "hl \<le> length out" using n hl h2 by linarith+
qed


lemma ber_element_shorter:
  assumes "CBS_get_any_ber_asn1_element s = (Some (out, tag, hl), s')"
  shows "length s' < length s" and "length out - hl < length s"
  using ber_element_Some [OF assms] by auto

section \<open>Looking for BER\<close>

text \<open>\<open>None\<close> where the C function returns 0, else the value of \<open>*ber_found\<close>.\<close>

function find_ber_loop :: "cbs \<Rightarrow> bool \<Rightarrow> nat \<Rightarrow> bool option" where
  "find_ber_loop s ber_found depth =
     (if s = [] then Some ber_found
      else
        (case CBS_get_any_ber_asn1_element s of
           (None, _) \<Rightarrow> None
         | (Some (contents, tag, header_len), s') \<Rightarrow>
             if is_indefinite contents header_len then Some True
             else if tag AND CBS_ASN1_CONSTRUCTED \<noteq> 0 then
               if is_string_type tag then Some True
               else
                 (case CBS_skip contents header_len of
                    (False, _) \<Rightarrow> None
                  | (True, contents') \<Rightarrow>
                      if depth + 1 > kMaxDepth then None
                      else
                        (case find_ber_loop contents' False (depth + 1) of
                           None \<Rightarrow> None
                         | Some found \<Rightarrow> find_ber_loop s' found depth))
             else find_ber_loop s' ber_found depth))"
  by pat_completeness auto
termination
proof (relation "measure (\<lambda>(s, _). length s)")
  show "wf (measure (\<lambda>(s :: cbs, _ :: bool \<times> nat). length s))" by simp
qed (auto simp: CBS_skip_def cbs_get_def dest!: sym [of _ "CBS_get_any_ber_asn1_element _"]
    dest: ber_element_shorter split: if_splits)

declare find_ber_loop.simps [simp del]

definition cbs_find_ber :: "cbs \<Rightarrow> nat \<Rightarrow> bool option" where
  "cbs_find_ber s depth = (if depth > kMaxDepth then None else find_ber_loop s False depth)"

section \<open>Conversion\<close>

definition is_eoc :: "nat \<Rightarrow> cbs \<Rightarrow> bool" where
  "is_eoc header_len contents = (header_len = 2 \<and> length contents = 2 \<and> contents = [0, 0])"

text \<open>
  \<open>d\<close> is the handle of \<open>out\<close>; \<open>out_contents\<close> is \<open>out\<close> itself inside a constructed string and its
  new child otherwise; both ways of reading the contents end in the same flush and the next
  iteration. The result is the returned flag with \<open>in\<close> and the builder, \<open>None\<close> where the
  bound is used up.
\<close>

fun convert_ber ::
  "allocator \<Rightarrow> nat \<Rightarrow> cbs \<Rightarrow> nat \<Rightarrow> cbb \<Rightarrow> u32 \<Rightarrow> bool \<Rightarrow> nat \<Rightarrow> (bool \<times> cbs \<times> cbb) option" where
  "convert_ber malloc 0 s d out string_tag looking_for_eoc depth = None"
| "convert_ber malloc (Suc n) s d out string_tag looking_for_eoc depth =
     (if s = [] then Some (\<not> looking_for_eoc, s, out)
      else
        (case CBS_get_any_ber_asn1_element s of
           (None, s') \<Rightarrow> Some (False, s', out)
         | (Some (contents, tag, header_len), s') \<Rightarrow>
             if is_eoc header_len contents then Some (looking_for_eoc, s', out)
             else
               let out_tag = (if tag AND CBS_ASN1_CONSTRUCTED \<noteq> 0 \<and> is_string_type tag
                              then tag AND NOT CBS_ASN1_CONSTRUCTED else tag);
                   child_string_tag =
                     (if string_tag \<noteq> 0 then string_tag
                      else if tag AND CBS_ASN1_CONSTRUCTED \<noteq> 0 \<and> is_string_type tag then out_tag
                      else string_tag);
                   out_contents = (if string_tag \<noteq> 0 then d else d + 1) in
               if string_tag \<noteq> 0 \<and> tag AND NOT CBS_ASN1_CONSTRUCTED \<noteq> string_tag then Some (False, s', out)
               else
                 (case (if string_tag \<noteq> 0 then (True, out) else CBB_add_asn1 malloc d out_tag out) of
                    (False, out) \<Rightarrow> Some (False, s', out)
                  | (True, out) \<Rightarrow>
                      (case
                         (if is_indefinite contents header_len then
                            if depth + 1 > kMaxDepth then Some (False, s', out)
                            else convert_ber malloc n s' out_contents out child_string_tag True (depth + 1)
                          else
                            (case CBS_skip contents header_len of
                               (False, _) \<Rightarrow> Some (False, s', out)
                             | (True, contents') \<Rightarrow>
                                 if tag AND CBS_ASN1_CONSTRUCTED \<noteq> 0 then
                                   if depth + 1 > kMaxDepth then Some (False, s', out)
                                   else
                                     map_option (\<lambda>(r, _, out). (r, s', out))
                                       (convert_ber malloc n contents' out_contents out child_string_tag
                                         False (depth + 1))
                                 else
                                   (case CBB_add_bytes malloc out_contents contents' out of
                                      (r, out) \<Rightarrow> Some (r, s', out)))) of
                         None \<Rightarrow> None
                       | Some (False, s'', out) \<Rightarrow> Some (False, s'', out)
                       | Some (True, s'', out) \<Rightarrow>
                           (case CBB_flush malloc d out of
                              (False, out) \<Rightarrow> Some (False, s'', out)
                            | (True, out) \<Rightarrow>
                                convert_ber malloc n s'' d out string_tag looking_for_eoc depth)))))"

definition cbs_convert_ber ::
  "allocator \<Rightarrow> cbs \<Rightarrow> nat \<Rightarrow> cbb \<Rightarrow> u32 \<Rightarrow> bool \<Rightarrow> nat \<Rightarrow> (bool \<times> cbs \<times> cbb) option" where
  "cbs_convert_ber malloc s d out string_tag looking_for_eoc depth =
     (if depth > kMaxDepth then Some (False, s, out)
      else convert_ber malloc (Suc (length s)) s d out string_tag looking_for_eoc depth)"

text \<open>
  \<open>CBS_asn1_ber_to_der\<close>: \<open>Some None\<close> where no conversion is needed (\<open>*out\<close> is null), \<open>Some (Some der)\<close>
  for the converted data. \<open>ok\<close> is whether the builder's structure is allocated.
\<close>

definition CBS_asn1_ber_to_der ::
  "allocator \<Rightarrow> bool \<Rightarrow> cbs \<Rightarrow> bytes option option \<times> cbs" where
  "CBS_asn1_ber_to_der malloc ok s =
     (case cbs_find_ber s 0 of
        None \<Rightarrow> (None, s)
      | Some False \<Rightarrow> (Some None, s)
      | Some True \<Rightarrow>
          (case CBB_init malloc ok (length s) of
             (False, _) \<Rightarrow> (None, s)
           | (True, cbb) \<Rightarrow>
               (case cbs_convert_ber malloc s 0 cbb 0 False 0 of
                  None \<Rightarrow> (None, s)
                | Some (False, s', _) \<Rightarrow> (None, s')
                | Some (True, s', cbb) \<Rightarrow>
                    (case CBB_finish malloc 0 True cbb of
                       (None, _) \<Rightarrow> (None, s')
                     | (Some der, _) \<Rightarrow> (Some (Some der), s')))))"

lemma CBS_get_asn1_shorter:
  assumes "CBS_get_asn1 s tag = (Some body, s')" shows "length s' < length s"
proof -
  have "s = der_element tag body @ s'" using assms by (simp add: CBS_get_asn1_iff)
  then show ?thesis
    using asn1_tag_bytes_not_Nil by (simp add: der_element_def der_header_def)
qed

function implicit_string_chunks ::
  "allocator \<Rightarrow> cbs \<Rightarrow> u32 \<Rightarrow> cbb \<Rightarrow> bool \<times> cbb" where
  "implicit_string_chunks malloc child inner_tag result =
     (if child = [] then (True, result)
      else
        (case CBS_get_asn1 child inner_tag of
           (None, _) \<Rightarrow> (False, result)
         | (Some chunk, child') \<Rightarrow>
             (case CBB_add_bytes malloc 0 chunk result of
                (False, result) \<Rightarrow> (False, result)
              | (True, result) \<Rightarrow> implicit_string_chunks malloc child' inner_tag result)))"
  by pat_completeness auto
termination
  by (relation "measure (\<lambda>(_, child, _). length child)")
     (auto dest!: sym [of _ "CBS_get_asn1 _ _"] dest: CBS_get_asn1_shorter)

declare implicit_string_chunks.simps [simp del]

text \<open>The string, and whether it is a buffer of its own (\<open>*out_storage\<close> is not null).\<close>

definition CBS_get_asn1_implicit_string ::
  "allocator \<Rightarrow> bool \<Rightarrow> cbs \<Rightarrow> u32 \<Rightarrow> u32 \<Rightarrow> (bytes \<times> bool) option \<times> cbs" where
  "CBS_get_asn1_implicit_string malloc ok s outer_tag inner_tag =
     (if CBS_peek_asn1_tag s outer_tag then
        (case CBS_get_asn1 s outer_tag of
           (None, s') \<Rightarrow> (None, s')
         | (Some out, s') \<Rightarrow> (Some (out, False), s'))
      else
        (case CBB_init malloc ok (length s) of
           (False, _) \<Rightarrow> (None, s)
         | (True, result) \<Rightarrow>
             (case CBS_get_asn1 s (outer_tag OR CBS_ASN1_CONSTRUCTED) of
                (None, s') \<Rightarrow> (None, s')
              | (Some child, s') \<Rightarrow>
                  (case implicit_string_chunks malloc child inner_tag result of
                     (False, _) \<Rightarrow> (None, s')
                   | (True, result) \<Rightarrow>
                       (case CBB_finish malloc 0 True result of
                          (None, _) \<Rightarrow> (None, s')
                        | (Some data, _) \<Rightarrow> (Some (data, True), s'))))))"

end
