(* ===== verification/Ber_Spec.thy ===== *)
theory Ber_Spec
  imports Ber
begin

text \<open>
  What the conversion of \<open>Ber\<close> produces: one iteration of the loop as a sequence of builder calls, the elements
  these calls write, the shape of a converted output, and that the fuel of the recursion is enough.
\<close>

section \<open>One iteration\<close>

lemma CBS_skip_header_len:
  "CBS_get_any_ber_asn1_element s = (Some (out, tag, hl), s') \<Longrightarrow> CBS_skip out hl = (True, drop hl out)"
  using ber_element_Some [of s out tag hl s'] by (simp add: CBS_skip_def cbs_get_def)

definition child_tag :: "u32 \<Rightarrow> u32" where
  "child_tag tag = (if tag AND CBS_ASN1_CONSTRUCTED \<noteq> 0 \<and> is_string_type tag
     then tag AND NOT CBS_ASN1_CONSTRUCTED else tag)"

definition child_string :: "u32 \<Rightarrow> u32 \<Rightarrow> u32" where
  "child_string st tag = (if st \<noteq> 0 then st
     else if tag AND CBS_ASN1_CONSTRUCTED \<noteq> 0 \<and> is_string_type tag then child_tag tag else st)"

text \<open>The calls that read the contents of an element, by the kind of the element.\<close>

definition contents_call ::
  "allocator \<Rightarrow> nat \<Rightarrow> cbs \<Rightarrow> u32 \<Rightarrow> nat \<Rightarrow> cbs \<Rightarrow> nat \<Rightarrow> u32 \<Rightarrow> nat \<Rightarrow> cbb \<Rightarrow>
   (bool \<times> cbs \<times> cbb) option" where
  "contents_call malloc n contents tag hl s1 d' cst depth out =
     (if is_indefinite contents hl then
        if depth + 1 > kMaxDepth then Some (False, s1, out)
        else convert_ber malloc n s1 d' out cst True (depth + 1)
      else if tag AND CBS_ASN1_CONSTRUCTED \<noteq> 0 then
        if depth + 1 > kMaxDepth then Some (False, s1, out)
        else map_option (\<lambda>(r, _, out). (r, s1, out))
          (convert_ber malloc n (drop hl contents) d' out cst False (depth + 1))
      else (case CBB_add_bytes malloc d' (drop hl contents) out of (r, out) \<Rightarrow> Some (r, s1, out)))"

lemma convert_ber_step:
  assumes "CBS_get_any_ber_asn1_element s = (Some (contents, tag, hl), s1)"
  shows "convert_ber malloc (Suc n) s d out st eoc depth =
    (if is_eoc hl contents then Some (eoc, s1, out)
     else if st \<noteq> 0 \<and> tag AND NOT CBS_ASN1_CONSTRUCTED \<noteq> st then Some (False, s1, out)
     else
       (case (if st \<noteq> 0 then (True, out) else CBB_add_asn1 malloc d (child_tag tag) out) of
          (False, out) \<Rightarrow> Some (False, s1, out)
        | (True, out) \<Rightarrow>
            (case contents_call malloc n contents tag hl s1 (if st \<noteq> 0 then d else d + 1)
                (child_string st tag) depth out of
               None \<Rightarrow> None
             | Some (False, s2, out) \<Rightarrow> Some (False, s2, out)
             | Some (True, s2, out) \<Rightarrow>
                 (case CBB_flush malloc d out of
                    (False, out) \<Rightarrow> Some (False, s2, out)
                  | (True, out) \<Rightarrow> convert_ber malloc n s2 d out st eoc depth))))"
proof -
  have "s \<noteq> []" using ber_element_shorter(1) [OF assms] by auto
  then show ?thesis
    by (simp only: convert_ber.simps(2) assms if_False prod.case option.case Let_def contents_call_def
        CBS_skip_header_len [OF assms] bool.case child_tag_def child_string_def)
qed


lemma convert_ber_other:
  assumes "CBS_get_any_ber_asn1_element s = (None, s1)"
  shows "convert_ber malloc (Suc n) s d out st eoc depth =
    (if s = [] then Some (\<not> eoc, s, out) else Some (False, s1, out))"
  by (simp add: assms)

section \<open>The bound is enough\<close>

lemma convert_ber_fuel:
  "length s < n \<Longrightarrow> \<exists>r s' out'. convert_ber malloc n s d out st eoc depth = Some (r, s', out') \<and>
     length s' \<le> length s"
proof (induction n arbitrary: s d out st eoc depth)
  case (Suc n)
  show ?case
  proof (cases "CBS_get_any_ber_asn1_element s")
    case e: (Pair e s1)
    show ?thesis
    proof (cases e)
      case None
      have "s1 = s" using e None cbs_get_any_asn1_element_None [of s True s1]
        by (simp add: CBS_get_any_ber_asn1_element_def)
      with convert_ber_other [OF e [unfolded None]] show ?thesis by auto
    next
      case (Some x)
      obtain contents tag hl where x: "x = (contents, tag, hl)" by (cases x) auto
      note e' = e [unfolded Some x]
      note sh = ber_element_shorter [OF e']
      have IH: "\<exists>r s' out'. convert_ber malloc n s2 d out st eoc depth = Some (r, s', out') \<and>
          length s' \<le> length s2" if "length s2 \<le> length s1" for s2 d out st eoc depth
        using Suc.IH [of s2] Suc.prems sh(1) that by simp
      have IHc: "\<exists>r s' out'. convert_ber malloc n (drop hl contents) d out st eoc depth = Some (r, s', out')"
        for d out st eoc depth
        using Suc.IH [of "drop hl contents"] Suc.prems sh(2) by fastforce
      have c: "\<exists>r s2 out'. contents_call malloc n contents tag hl s1 d' cst depth out = Some (r, s2, out') \<and>
          length s2 \<le> length s1" for d' cst out
      proof -
        consider "is_indefinite contents hl" | "\<not> is_indefinite contents hl" "tag AND CBS_ASN1_CONSTRUCTED \<noteq> 0"
          | "\<not> is_indefinite contents hl" "tag AND CBS_ASN1_CONSTRUCTED = 0" by blast
        then show ?thesis
        proof cases
          case 1
          with IH [of s1 d' out cst True "depth + 1"] show ?thesis by (auto simp: contents_call_def)
        next
          case 2
          with IHc [of d' out cst False "depth + 1"] show ?thesis by (auto simp: contents_call_def)
        next
          case 3
          then show ?thesis by (auto simp: contents_call_def split: prod.split)
        qed
      qed
      obtain b out1 where a: "(if st \<noteq> 0 then (True, out) else CBB_add_asn1 malloc d (child_tag tag) out) = (b, out1)"
        by fastforce
      obtain r s2 out2 where r: "contents_call malloc n contents tag hl s1 (if st \<noteq> 0 then d else d + 1)
          (child_string st tag) depth out1 = Some (r, s2, out2)" and s2: "length s2 \<le> length s1"
        using c by blast
      obtain f out3 where f: "CBB_flush malloc d out2 = (f, out3)" by fastforce
      show ?thesis
        unfolding convert_ber_step [OF e'] a
        using IH [OF s2, of d out3 st eoc depth] sh(1) s2
        by (cases b; cases r; cases f) (auto simp: r f)
    qed
  qed
qed simp

section \<open>The conversion without the builder\<close>

fun conv :: "nat \<Rightarrow> cbs \<Rightarrow> u32 \<Rightarrow> bool \<Rightarrow> nat \<Rightarrow> (bytes \<times> cbs) option" where
  "conv 0 s st eoc depth = None"
| "conv (Suc n) s st eoc depth =
     (case CBS_get_any_ber_asn1_element s of
        (None, _) \<Rightarrow> if s = [] \<and> \<not> eoc then Some ([], []) else None
      | (Some (contents, tag, hl), s1) \<Rightarrow>
          if is_eoc hl contents then if eoc then Some ([], s1) else None
          else if st \<noteq> 0 \<and> tag AND NOT CBS_ASN1_CONSTRUCTED \<noteq> st then None
          else
            Option.bind
              (if is_indefinite contents hl then
                 if depth + 1 > kMaxDepth then None else conv n s1 (child_string st tag) True (depth + 1)
               else if tag AND CBS_ASN1_CONSTRUCTED \<noteq> 0 then
                 if depth + 1 > kMaxDepth then None
                 else map_option (\<lambda>(body, _). (body, s1))
                   (conv n (drop hl contents) (child_string st tag) False (depth + 1))
               else Some (drop hl contents, s1))
              (\<lambda>(body, s2). Option.bind
                 (if st \<noteq> 0 then Some body
                  else if length body \<le> 0xfffffffe then Some (der_element (child_tag tag) body) else None)
                 (\<lambda>e. map_option (\<lambda>(rest, s3). (e @ rest, s3)) (conv n s2 st eoc depth))))"

lemma conv_shorter: "conv n s st eoc depth = Some (bs, s') \<Longrightarrow> length s' \<le> length s"
proof (induction n arbitrary: s st eoc depth bs s')
  case (Suc n)
  obtain e s1 where e: "CBS_get_any_ber_asn1_element s = (e, s1)"
    by (cases "CBS_get_any_ber_asn1_element s")
  show ?case
  proof (cases e)
    case None
    with Suc.prems e show ?thesis by (auto split: if_splits)
  next
    case (Some x)
    obtain contents tag hl where x: "x = (contents, tag, hl)" by (cases x) auto
    note sh = ber_element_shorter [OF e [unfolded Some x]]
    show ?thesis
    proof (cases "is_eoc hl contents")
      case True
      with Suc.prems e Some x sh show ?thesis by (auto split: if_splits)
    next
      case False
      with Suc.prems e Some x obtain body s2 el rest where
        c: "(if is_indefinite contents hl then
                 if depth + 1 > kMaxDepth then None else conv n s1 (child_string st tag) True (depth + 1)
               else if tag AND CBS_ASN1_CONSTRUCTED \<noteq> 0 then
                 if depth + 1 > kMaxDepth then None
                 else map_option (\<lambda>(body, _). (body, s1))
                   (conv n (drop hl contents) (child_string st tag) False (depth + 1))
               else Some (drop hl contents, s1)) = Some (body, s2)"
        and r: "conv n s2 st eoc depth = Some (rest, s')"
        by (auto simp: bind_eq_Some_conv split: if_splits)
      have "length s2 \<le> length s1" using c Suc.IH [of s1 _ _ _ body s2] by (auto split: if_splits)
      with Suc.IH [OF r] sh(1) show ?thesis by simp
    qed
  qed
qed simp


lemma abs_element_None:
  assumes "abs_add_asn1 d tag ls = Some ls1" and "abs_flush d (append_last body ls1) = Some ls2"
    and "length ls = Suc d"
  shows "length body \<le> 0xfffffffe" and "ls2 = append_last (der_element tag body) ls"
proof -
  obtain xs p c where ls: "ls = xs @ [(p, c)]" using assms(3) by (cases ls rule: rev_cases) auto
  with assms(3) have d: "length xs = d" by simp
  have ls1: "ls1 = xs @ [(p, c @ asn1_tag_bytes tag), (Asn1_prefix, [])]"
    using assms(1,3) d by (simp add: abs_add_asn1_def abs_append_last abs_open_def ls append_last_def abs_flush_id)
  then have a: "append_last body ls1 = xs @ [(p, c @ asn1_tag_bytes tag), (Asn1_prefix, body)]"
    by (simp add: append_last_def butlast_append)
  show l: "length body \<le> 0xfffffffe"
    using assms(2) d unfolding a by (simp add: abs_flush_def split: if_splits)
  show "ls2 = append_last (der_element tag body) ls"
    using assms(2) d l unfolding a
    by (simp add: abs_flush_def append_last_def ls nth_append der_element_def der_header_def)
qed

lemma convert_ber_rep:
  assumes ok: "malloc_ok malloc"
  shows "length s < 2 ^ 62 \<Longrightarrow> builder_rep out ls \<Longrightarrow> length ls = Suc d \<Longrightarrow>
    convert_ber malloc n s d out st eoc depth = Some (True, s', out') \<Longrightarrow>
    \<exists>bs. conv n s st eoc depth = Some (bs, s') \<and> builder_rep out' (append_last bs ls)"
proof (induction n arbitrary: s d out st eoc depth s' out' ls)
  case (Suc n)
  obtain e s1 where e: "CBS_get_any_ber_asn1_element s = (e, s1)"
    by (cases "CBS_get_any_ber_asn1_element s")
  have ne: "ls \<noteq> []" using Suc.prems(3) by auto
  have app0: "append_last [] ls = ls" using ne by (cases ls rule: rev_cases) (auto simp: append_last_def)
  show ?case
  proof (cases e)
    case None
    with Suc.prems e app0 show ?thesis by (auto split: if_splits)
  next
    case (Some x)
    obtain contents tag hl where x: "x = (contents, tag, hl)" by (cases x) auto
    note e' = e [unfolded Some x]
    note sh = ber_element_shorter [OF e']
    note eq = Suc.prems(4) [unfolded convert_ber_step [OF e']]
    show ?thesis
    proof (cases "is_eoc hl contents")
      case True
      with eq e' Suc.prems(2) app0 show ?thesis by auto
    next
      case False
      note neoc = False
      from eq False have tag: "\<not> (st \<noteq> 0 \<and> tag AND NOT CBS_ASN1_CONSTRUCTED \<noteq> st)"
        by (auto split: if_splits)
      note eq = eq [unfolded if_not_P [OF False] if_not_P [OF tag]]
      let ?d' = "if st \<noteq> 0 then d else d + 1" and ?cst = "child_string st tag"
      from eq obtain out1 where
        a: "(if st \<noteq> 0 then (True, out) else CBB_add_asn1 malloc d (child_tag tag) out) = (True, out1)"
        by (auto split: prod.splits bool.splits)
      note eq = eq [unfolded a prod.case bool.case]
      from eq obtain s2 out2 where
        c: "contents_call malloc n contents tag hl s1 ?d' ?cst depth out1 = Some (True, s2, out2)"
        by (auto split: option.splits prod.splits bool.splits)
      note eq = eq [unfolded c option.case prod.case bool.case]
      from eq obtain out3 where f: "CBB_flush malloc d out2 = (True, out3)"
        and loop: "convert_ber malloc n s2 d out3 st eoc depth = Some (True, s', out')"
        by (auto split: prod.splits bool.splits)
      obtain ls1 where ls1: "builder_rep out1 ls1" "length ls1 = Suc ?d'"
        and ls1': "if st \<noteq> 0 then ls1 = ls else abs_add_asn1 d (child_tag tag) ls = Some ls1"
      proof (cases "st \<noteq> 0")
        case True
        with a Suc.prems(2,3) show thesis by (intro that [of ls]) simp_all
      next
        case False
        with a have "CBB_add_asn1 malloc d (child_tag tag) out = (True, out1)" by simp
        from refinesD(1) [OF CBB_add_asn1_refines [OF ok] TrueI Suc.prems(2) this] obtain ls1 where
          "abs_add_asn1 d (child_tag tag) ls = Some ls1" "builder_rep out1 ls1" by blast
        with False abs_add_asn1_length show thesis by (intro that [of ls1]) simp_all
      qed
      have body: "\<exists>body. (if is_indefinite contents hl then
                 if depth + 1 > kMaxDepth then None else conv n s1 ?cst True (depth + 1)
               else if tag AND CBS_ASN1_CONSTRUCTED \<noteq> 0 then
                 if depth + 1 > kMaxDepth then None
                 else map_option (\<lambda>(body, _). (body, s1)) (conv n (drop hl contents) ?cst False (depth + 1))
               else Some (drop hl contents, s1)) = Some (body, s2) \<and>
          builder_rep out2 (append_last body ls1)"
      proof -
        consider (indef) "is_indefinite contents hl"
          | (cons) "\<not> is_indefinite contents hl" "tag AND CBS_ASN1_CONSTRUCTED \<noteq> 0"
          | (prim) "\<not> is_indefinite contents hl" "tag AND CBS_ASN1_CONSTRUCTED = 0" by blast
        then show ?thesis
        proof cases
          case indef
          then have dep: "\<not> depth + 1 > kMaxDepth"
            and call: "convert_ber malloc n s1 ?d' out1 ?cst True (depth + 1) = Some (True, s2, out2)"
            using c by (auto simp: contents_call_def split: if_splits)
          have "length s1 < 2 ^ 62" using sh(1) Suc.prems(1) by simp
          from Suc.IH [OF this ls1 call] indef dep show ?thesis by auto
        next
          case cons
          then have dep: "\<not> depth + 1 > kMaxDepth" and "\<exists>s3.
            convert_ber malloc n (drop hl contents) ?d' out1 ?cst False (depth + 1) = Some (True, s3, out2)"
            and s2: "s2 = s1"
            using c by (auto simp: contents_call_def split: if_splits)
          then obtain s3 where
            call: "convert_ber malloc n (drop hl contents) ?d' out1 ?cst False (depth + 1) = Some (True, s3, out2)"
            by blast
          have "length (drop hl contents) < 2 ^ 62" using sh(2) Suc.prems(1) by simp
          from Suc.IH [OF this ls1 call] cons dep s2 show ?thesis by auto
        next
          case prim
          then have call: "CBB_add_bytes malloc ?d' (drop hl contents) out1 = (True, out2)" and s2: "s2 = s1"
            using c by (auto simp: contents_call_def split: prod.splits)
          have "length (drop hl contents) + 8 < 2 ^ 63" using sh(2) Suc.prems(1) by simp
          from refinesD(1) [OF CBB_add_bytes_refines [OF ok this] TrueI ls1(1) call] ls1(2)
          have "builder_rep out2 (append_last (drop hl contents) ls1)" by (simp add: abs_append_last)
          with prim s2 show ?thesis by auto
        qed
      qed
      then obtain body where
        bc: "(if is_indefinite contents hl then
                 if depth + 1 > kMaxDepth then None else conv n s1 ?cst True (depth + 1)
               else if tag AND CBS_ASN1_CONSTRUCTED \<noteq> 0 then
                 if depth + 1 > kMaxDepth then None
                 else map_option (\<lambda>(body, _). (body, s1)) (conv n (drop hl contents) ?cst False (depth + 1))
               else Some (drop hl contents, s1)) = Some (body, s2)"
        and b: "builder_rep out2 (append_last body ls1)" by blast
      from refinesD(1) [OF CBB_flush_refines [OF ok] TrueI b f] obtain ls2 where
        ls2: "abs_flush d (append_last body ls1) = Some ls2" "builder_rep out3 ls2" by blast
      have bodylen: "length s2 \<le> length s1"
        using bc conv_shorter by (auto split: if_splits)
      obtain el where el: "ls2 = append_last el ls"
        and el': "(if st \<noteq> 0 then Some body
          else if length body \<le> 0xfffffffe then Some (der_element (child_tag tag) body) else None) = Some el"
      proof (cases "st \<noteq> 0")
        case True
        with ls1' ls2(1) Suc.prems(3) ne show thesis
          by (intro that [of body]) (simp_all add: abs_flush_id length_append_last)
      next
        case False
        with ls1' have "abs_add_asn1 d (child_tag tag) ls = Some ls1" by simp
        from abs_element_None [OF this ls2(1) Suc.prems(3)] False show thesis
          by (intro that) simp_all
      qed
      have "length s2 < 2 ^ 62" using bodylen sh(1) Suc.prems(1) by simp
      moreover have "length ls2 = Suc d" using abs_flush_length [OF ls2(1)] .
      ultimately obtain rest where r: "conv n s2 st eoc depth = Some (rest, s')"
        and rr: "builder_rep out' (append_last rest ls2)"
        using Suc.IH [OF _ ls2(2) _ loop] by blast
      have "conv (Suc n) s st eoc depth = Some (el @ rest, s')"
        by (simp only: conv.simps(2) e' prod.case option.case if_not_P [OF neoc] if_not_P [OF tag] bc el'
            bind.bind_lunit r option.map(2))
      moreover have "builder_rep out' (append_last (el @ rest) ls)"
        using rr ne by (simp add: el append_last_append_last)
      ultimately show ?thesis by blast
    qed
  qed
qed simp


section \<open>The result is DER\<close>

text \<open>
  A run of elements with no indefinite length and no constructed string at any level, nested no
  deeper than the limit.
\<close>

inductive der_normal :: "nat \<Rightarrow> bytes \<Rightarrow> bool" where
  der_normal_Nil: "der_normal depth []"
| der_normal_element:
    "length body < 2 ^ 32 \<Longrightarrow>
     (tag AND CBS_ASN1_CONSTRUCTED \<noteq> 0 \<Longrightarrow>
        \<not> is_string_type tag \<and> depth + 1 \<le> kMaxDepth \<and> der_normal (depth + 1) body) \<Longrightarrow>
     der_normal depth rest \<Longrightarrow> der_normal depth (der_element tag body @ rest)"

lemma child_tag_constructed:
  "child_tag tag AND CBS_ASN1_CONSTRUCTED \<noteq> 0 \<longleftrightarrow> tag AND CBS_ASN1_CONSTRUCTED \<noteq> 0 \<and> \<not> is_string_type tag"
proof -
  have "(tag AND NOT CBS_ASN1_CONSTRUCTED) AND CBS_ASN1_CONSTRUCTED = 0"
    by (simp add: and.assoc)
  then show ?thesis by (auto simp: child_tag_def)
qed

lemma conv_normal: "conv n s 0 eoc depth = Some (bs, s') \<Longrightarrow> der_normal depth bs"
proof (induction n arbitrary: s eoc depth bs s')
  case (Suc n)
  obtain e s1 where e: "CBS_get_any_ber_asn1_element s = (e, s1)"
    by (cases "CBS_get_any_ber_asn1_element s")
  show ?case
  proof (cases e)
    case None
    with Suc.prems e show ?thesis by (auto split: if_splits intro: der_normal_Nil)
  next
    case (Some x)
    obtain contents tag hl where x: "x = (contents, tag, hl)" by (cases x) auto
    show ?thesis
    proof (cases "is_eoc hl contents")
      case True
      with Suc.prems e Some x show ?thesis by (auto split: if_splits intro: der_normal_Nil)
    next
      case False
      let ?cst = "child_string 0 tag"
      from False Suc.prems e Some x obtain body s2 rest where
        c: "(if is_indefinite contents hl then
                 if depth + 1 > kMaxDepth then None else conv n s1 ?cst True (depth + 1)
               else if tag AND CBS_ASN1_CONSTRUCTED \<noteq> 0 then
                 if depth + 1 > kMaxDepth then None
                 else map_option (\<lambda>(body, _). (body, s1))
                   (conv n (drop hl contents) ?cst False (depth + 1))
               else Some (drop hl contents, s1)) = Some (body, s2)"
        and l: "length body \<le> 0xfffffffe"
        and r: "conv n s2 0 eoc depth = Some (rest, s')"
        and bs: "bs = der_element (child_tag tag) body @ rest"
        by (auto simp: bind_eq_Some_conv split: if_splits)
      show ?thesis
        unfolding bs
      proof (rule der_normal_element)
        assume "child_tag tag AND CBS_ASN1_CONSTRUCTED \<noteq> 0"
        then have t: "tag AND CBS_ASN1_CONSTRUCTED \<noteq> 0" "\<not> is_string_type tag"
          by (simp_all add: child_tag_constructed)
        then have "?cst = 0" "child_tag tag = tag" by (simp_all add: child_string_def child_tag_def)
        with c t Suc.IH [of s1 True "depth + 1" body] Suc.IH [of "drop hl contents" False "depth + 1" body]
        show "\<not> is_string_type (child_tag tag) \<and> depth + 1 \<le> kMaxDepth \<and> der_normal (depth + 1) body"
          by (auto split: if_splits)
      qed (use l Suc.IH [OF r] in simp_all)
    qed
  qed
qed simp

lemma last_byte_header:
  "\<not> is_indefinite (der_element tag body) (length (der_header tag (length body)))"
proof
  assume a: "is_indefinite (der_element tag body) (length (der_header tag (length body)))"
  then have "body = []" by (simp add: is_indefinite_def der_element_def)
  with a show False by (simp add: is_indefinite_def der_element_def der_header_def der_length_def nth_append)
qed

lemma find_ber_normal: "der_normal depth bs \<Longrightarrow> find_ber_loop bs False depth = Some False"
proof (induction rule: der_normal.induct)
  case (der_normal_Nil depth)
  then show ?case by (simp add: find_ber_loop.simps)
next
  case (der_normal_element body tag depth rest)
  let ?e = "der_element tag body" and ?h = "length (der_header tag (length body))"
  have ne: "?e @ rest \<noteq> []" by (simp add: der_element_def der_header_def asn1_tag_bytes_not_Nil)
  have g: "CBS_get_any_ber_asn1_element (?e @ rest) = (Some (?e, tag, ?h), rest)"
    using cbs_get_any_asn1_element_der [OF der_normal_element(1)]
    by (simp add: CBS_get_any_ber_asn1_element_def)
  have i: "\<not> is_indefinite ?e ?h" by (rule last_byte_header)
  show ?case
    using der_normal_element.IH der_normal_element.hyps ne i
    by (cases "tag AND CBS_ASN1_CONSTRUCTED = 0"; subst find_ber_loop.simps)
       (auto simp: g CBS_skip_header)
qed


lemma bind_rest:
  "Option.bind A (\<lambda>(x, y). Option.bind (B x) (\<lambda>e. map_option (\<lambda>(r, z). (e @ r, z)) (f y))) = Some (bs, s') \<Longrightarrow>
   \<exists>y r. f y = Some (r, s')"
  by (auto simp: bind_eq_Some_conv)

lemma conv_end: "conv n s st False depth = Some (bs, s') \<Longrightarrow> s' = []"
proof (induction n arbitrary: s bs)
  case (Suc n)
  obtain e s1 where e: "CBS_get_any_ber_asn1_element s = (e, s1)"
    by (cases "CBS_get_any_ber_asn1_element s")
  show ?case
  proof (cases e)
    case None
    with Suc.prems e show ?thesis by (auto split: if_splits)
  next
    case (Some x)
    obtain contents tag hl where x: "x = (contents, tag, hl)" by (cases x) auto
    note eq = Suc.prems [unfolded conv.simps(2) e Some x prod.case option.case if_False]
    have i: "\<not> is_eoc hl contents"
    proof
      assume i: "is_eoc hl contents"
      from eq [unfolded if_P [OF i]] show False by simp
    qed
    note eq = eq [unfolded if_not_P [OF i]]
    have t: "\<not> (st \<noteq> 0 \<and> tag AND NOT CBS_ASN1_CONSTRUCTED \<noteq> st)"
    proof
      assume t: "st \<noteq> 0 \<and> tag AND NOT CBS_ASN1_CONSTRUCTED \<noteq> st"
      from eq [unfolded if_P [OF t]] show False by simp
    qed
    from bind_rest [OF eq [unfolded if_not_P [OF t]]] show ?thesis using Suc.IH by blast
  qed
qed simp

declare convert_ber.simps [simp del] conv.simps [simp del]

lemma CBS_asn1_ber_to_der_Some:
  assumes "malloc_ok malloc" and "length s < 2 ^ 62"
    and "CBS_asn1_ber_to_der malloc ok s = (Some (Some der), s')"
  shows "conv (Suc (length s)) s 0 False 0 = Some (der, s')"
proof -
  note e = assms(3) [unfolded CBS_asn1_ber_to_der_def]
  have ber: "cbs_find_ber s 0 = Some True" using e by (auto split: option.splits bool.splits)
  obtain q b0 where i: "CBB_init malloc ok (length s) = (q, b0)" by fastforce
  have q: "q = True" using e by (auto simp: ber i split: bool.splits)
  note e = e [unfolded ber option.case bool.case i q prod.case]
  obtain r s2 b1 where "cbs_convert_ber malloc s 0 b0 0 False 0 = Some (r, s2, b1)"
    using e by (auto split: option.splits)
  note c = this
  have r: "r = True" using e by (auto simp: c split: bool.splits)
  obtain o1 b2 where f: "CBB_finish malloc 0 True b1 = (o1, b2)" by fastforce
  have o1: "o1 = Some der" "s2 = s'" using e by (auto simp: c r f split: option.splits)
  note i = i [unfolded q] and c = c [unfolded r o1(2)] and f = f [unfolded o1(1)]
  have "builder_rep b0 [(Length_prefix 0, [])]" by (rule CBB_init_rep [OF assms(1) i assms(2)])
  moreover have "convert_ber malloc (Suc (length s)) s 0 b0 0 False 0 = Some (True, s', b1)"
    using c by (simp add: cbs_convert_ber_def kMaxDepth_def)
  ultimately obtain bs where bs: "conv (Suc (length s)) s 0 False 0 = Some (bs, s')"
    and rb: "builder_rep b1 (append_last bs [(Length_prefix 0, [])])"
    using convert_ber_rep [OF assms(1,2), of b0 "[(Length_prefix 0, [])]" 0
        "Suc (length s)" 0 False 0 s' b1] by auto
  from CBB_finish_rep(1) [OF assms(1) rb f] have "bs = der"
    by (simp add: append_last_def abs_flush_def)
  with bs show ?thesis by simp
qed

end
