(* ===== verification/Oid.thy ===== *)
theory Oid
  imports Ber_Spec
begin

text \<open>
  Object identifiers: \<open>CBB_add_asn1_oid_from_text\<close> and \<open>CBS_asn1_oid_to_text\<close> are inverse to each
  other on the texts the former accepts.
\<close>

section \<open>Decimal numbers\<close>

lemma decimal_small: "n < 10 \<Longrightarrow> decimal n = [of_nat (48 + n)]"
  by (simp add: decimal.simps [of n] del: of_nat_add)

lemma decimal_step: "0 < n \<Longrightarrow> k < 10 \<Longrightarrow> decimal (n * 10 + k) = decimal n @ [of_nat (48 + k)]"
  by (subst decimal.simps) (simp del: of_nat_add)

lemma decimal_not_Nil [simp]: "decimal n \<noteq> []"
  by (subst decimal.simps) simp

definition dot :: u8 where "dot = 0x2E"

text \<open>What the loop has read, when it succeeds, completes the digits it had to a decimal number.\<close>

lemma dotted_decimal_loop_Some:
  "dotted_decimal_loop out seen s = (Some v, s') \<Longrightarrow> (\<not> seen \<Longrightarrow> out = 0) \<Longrightarrow>
   \<exists>ds. (s = ds \<and> s' = [] \<or> s = ds @ dot # s' \<and> s' \<noteq> []) \<and>
     (if seen then decimal (unat out) @ ds else ds) = decimal (unat v)"
proof (induction out seen s rule: dotted_decimal_loop.induct)
  case (2 out seen u s)
  show ?case
  proof (cases "u = 0x2E \<and> 0 < length s")
    case True
    with 2 show ?thesis by (auto simp: dot_def split: if_splits)
  next
    case False
    have ok: "\<not> (u < 0x30 \<or> u > 0x39 \<or> (seen \<and> out = 0) \<or>
              out > 0xFFFFFFFFFFFFFFFF div 10 \<or> out * 10 > 0xFFFFFFFFFFFFFFFF - (ucast u - 0x30))"
    proof
      assume bad: "u < 0x30 \<or> u > 0x39 \<or> (seen \<and> out = 0) \<or>
              out > 0xFFFFFFFFFFFFFFFF div 10 \<or> out * 10 > 0xFFFFFFFFFFFFFFFF - (ucast u - 0x30)"
      from "2.prems"(1) [unfolded dotted_decimal_loop.simps if_not_P [OF False] if_P [OF bad]]
      show False by simp
    qed
    let ?k = "unat u - 48"
    have k: "48 \<le> unat u" "unat u \<le> 57" using ok by (simp_all add: word_less_nat_alt not_less)
    have uk: "unat (ucast u - 0x30 :: u64) = ?k"
      using k by (simp add: unat_sub word_le_nat_alt)
    have out: "unat out \<le> 1844674407370955161"
    proof -
      have "(0xFFFFFFFFFFFFFFFF :: u64) div 10 = 1844674407370955161" by simp
      with ok show ?thesis by (simp add: word_less_nat_alt not_less)
    qed
    then have o10: "unat (out * 10) = unat out * 10" by (subst unat_mult_lem [THEN iffD1]) simp_all
    have "unat (0xFFFFFFFFFFFFFFFF - (ucast u - 0x30) :: u64) = 0xFFFFFFFFFFFFFFFF - ?k"
      using k uk by (subst unat_sub) (simp_all add: word_le_nat_alt)
    moreover have "\<not> out * 10 > 0xFFFFFFFFFFFFFFFF - (ucast u - 0x30)" using ok by blast
    ultimately have "unat out * 10 \<le> 0xFFFFFFFFFFFFFFFF - ?k"
      using o10 by (simp only: word_less_nat_alt not_less)
    then have "unat (out * 10) + unat (ucast u - 0x30 :: u64) < 2 ^ 64" using k by (simp add: o10 uk)
    then have sum: "unat (out * 10 + (ucast u - 0x30)) = unat out * 10 + ?k"
      by (subst unat_add_lem [THEN iffD1]) (simp_all add: o10 uk)
    have u: "of_nat (48 + ?k) = u" using k by (simp add: u8_eq_iff unat_of_nat_u8 del: of_nat_add)
    have loop: "dotted_decimal_loop (out * 10 + (ucast u - 0x30)) True s = (Some v, s')"
      using "2.prems"(1) [unfolded dotted_decimal_loop.simps if_not_P [OF False] if_not_P [OF ok]] .
    from "2.IH" [OF False ok loop] obtain ds where
      ds: "s = ds \<and> s' = [] \<or> s = ds @ dot # s' \<and> s' \<noteq> []"
      "decimal (unat out * 10 + ?k) @ ds = decimal (unat v)" by (auto simp: sum)
    have "(if seen then decimal (unat out) @ u # ds else u # ds) = decimal (unat v)"
    proof (cases seen)
      case True
      then have "0 < unat out" using ok by (auto simp: unat_gt_0)
      with decimal_step [of "unat out" ?k] k ds(2) u True show ?thesis by simp
    next
      case f: False
      then have "unat out = 0" using "2.prems"(2) by simp
      with decimal_small [of ?k] k ds(2) u f show ?thesis by simp
    qed
    with ds(1) show ?thesis by (intro exI [of _ "u # ds"]) auto
  qed
qed (auto split: if_splits)

lemma parse_dotted_decimal_Some:
  assumes "parse_dotted_decimal s = (Some v, s')"
  shows "s = decimal (unat v) \<and> s' = [] \<or> s = decimal (unat v) @ dot # s' \<and> s' \<noteq> []"
  using dotted_decimal_loop_Some [of 0 False s v s'] assms by (auto simp: parse_dotted_decimal_def)

section \<open>The components\<close>

definition dotted :: "u64 list \<Rightarrow> bytes" where
  "dotted vs = concat (map (\<lambda>v. dot # decimal (unat v)) vs)"

definition oid_bytes :: "u64 list \<Rightarrow> bytes" where
  "oid_bytes vs = concat (map (\<lambda>v. base128 (unat v)) vs)"

lemma oid_components_rep:
  "malloc_ok malloc \<Longrightarrow> oid_components malloc d tx s = (True, s') \<Longrightarrow> builder_rep s ls \<Longrightarrow> length ls = Suc d \<Longrightarrow>
    \<exists>vs. (if tx = [] then vs = [] else dot # tx = dotted vs) \<and> builder_rep s' (append_last (oid_bytes vs) ls)"
proof (induction malloc d tx s arbitrary: ls rule: oid_components.induct)
  case (1 malloc d tx s)
  have ne: "ls \<noteq> []" using "1.prems"(4) by auto
  show ?case
  proof (cases "tx = []")
    case True
    have "append_last [] ls = ls" using ne by (cases ls rule: rev_cases) (auto simp: append_last_def)
    moreover have "s' = s" using "1.prems"(2) True by (simp add: oid_components.simps [of malloc d "[]"])
    ultimately show ?thesis using True "1.prems"(3)
      by (intro exI [of _ "[]"]) (simp add: oid_bytes_def)
  next
    case False
    obtain a tx' s1 where p: "parse_dotted_decimal tx = (Some a, tx')"
      and b: "add_base128_integer malloc d a s = (True, s1)"
      and r: "oid_components malloc d tx' s1 = (True, s')"
      using "1.prems"(2) False
      by (auto simp: oid_components.simps [of malloc d tx] split: prod.splits option.splits bool.splits)
    have "length ls = Suc d" by (rule "1.prems"(4))
    from refinesD(1) [OF add_base128_integer_refines [OF "1.prems"(1)] this "1.prems"(3) b] "1.prems"(4)
    have r1: "builder_rep s1 (append_last (base128 (unat a)) ls)" by (auto simp: abs_append_last)
    have l1: "length (append_last (base128 (unat a)) ls) = Suc d" using "1.prems"(4) ne
      by (simp add: length_append_last)
    from "1.IH" [OF False p [symmetric] refl b [symmetric] refl "1.prems"(1) r r1 l1] obtain vs where
      vs: "if tx' = [] then vs = [] else dot # tx' = dotted vs"
      and r2: "builder_rep s' (append_last (oid_bytes vs) (append_last (base128 (unat a)) ls))" by blast
    have "dot # tx = dotted (a # vs)"
      using parse_dotted_decimal_Some [OF p] vs by (auto simp: dotted_def split: if_splits)
    moreover have "builder_rep s' (append_last (oid_bytes (a # vs)) ls)"
      using r2 ne by (simp add: append_last_append_last oid_bytes_def)
    ultimately show ?thesis using False by (intro exI [of _ "a # vs"]) simp
  qed
qed

lemma CBB_add_asn1_oid_from_text_Some:
  assumes "malloc_ok malloc" and "CBB_add_asn1_oid_from_text malloc d tx s = (True, s')"
    and "builder_rep s ls"
  obtains a b :: u64 and vs ls1 where "abs_flush d ls = Some ls1"
    and "builder_rep s' (append_last (base128 (40 * unat a + unat b) @ oid_bytes vs) ls1)"
    and "tx = decimal (unat a) @ dotted (b # vs)"
    and "unat a \<le> 2" and "unat a < 2 \<longrightarrow> unat b \<le> 39" and "40 * unat a + unat b < 2 ^ 64"
proof -
  obtain s1 a b tx1 tx2 s2 where f: "CBB_flush malloc d s = (True, s1)"
    and p1: "parse_dotted_decimal tx = (Some a, tx1)" and p2: "parse_dotted_decimal tx1 = (Some b, tx2)"
    and ok: "\<not> (a > 2 \<or> (a < 2 \<and> b > 39) \<or> b > 0xFFFFFFFFFFFFFFFF - 80)"
    and b: "add_base128_integer malloc d (40 * a + b) s1 = (True, s2)"
    and c: "oid_components malloc d tx2 s2 = (True, s')"
    using assms(2)
    by (auto simp: CBB_add_asn1_oid_from_text_def and_then_def split: prod.splits option.splits bool.splits if_splits)
  from refinesD(1) [OF CBB_flush_refines [OF assms(1)] TrueI assms(3) f] obtain ls1 where
    ls1: "abs_flush d ls = Some ls1" "builder_rep s1 ls1" by blast
  note l1 = abs_flush_length [OF ls1(1)]
  have ne: "ls1 \<noteq> []" using l1 by auto
  have ua: "unat a \<le> 2" and ub: "unat a < 2 \<longrightarrow> unat b \<le> 39"
    and ub2: "unat b \<le> 0xFFFFFFFFFFFFFFFF - 80"
    using ok by (auto simp add: word_less_nat_alt not_less)
  have m: "unat (40 * a) = 40 * unat a" using ua by (subst unat_mult_lem [THEN iffD1]) simp_all
  have "unat (40 * a) + unat b < 2 ^ LENGTH(64)" using ua ub2 by (simp add: m)
  then have v: "unat (40 * a + b) = 40 * unat a + unat b"
    by (subst unat_add_lem [THEN iffD1]) (simp_all add: m)
  from refinesD(1) [OF add_base128_integer_refines [OF assms(1)] l1 ls1(2) b] l1
  have r2: "builder_rep s2 (append_last (base128 (40 * unat a + unat b)) ls1)"
    by (auto simp: abs_append_last v)
  have l2: "length (append_last (base128 (40 * unat a + unat b)) ls1) = Suc d"
    using l1 ne by (simp add: length_append_last)
  from oid_components_rep [OF assms(1) c r2 l2] obtain vs where
    vs: "if tx2 = [] then vs = [] else dot # tx2 = dotted vs"
    and r3: "builder_rep s' (append_last (oid_bytes vs) (append_last (base128 (40 * unat a + unat b)) ls1))"
    by blast
  have t: "tx = decimal (unat a) @ dotted (b # vs)"
  proof -
    have "parse_dotted_decimal [] = (None, [])" by (simp add: parse_dotted_decimal_def)
    with p2 have "tx1 \<noteq> []" by auto
    with parse_dotted_decimal_Some [OF p1] have "tx = decimal (unat a) @ dot # tx1" by auto
    with parse_dotted_decimal_Some [OF p2] vs show ?thesis by (auto simp: dotted_def split: if_splits)
  qed
  have lt: "40 * unat a + unat b < 2 ^ 64" using ua ub2 by simp
  have r4: "builder_rep s' (append_last (base128 (40 * unat a + unat b) @ oid_bytes vs) ls1)"
    using r3 ne by (simp add: append_last_append_last)
  show thesis by (rule that [OF ls1(1) r4 t ua ub lt])
qed

section \<open>Back to text\<close>

lemma decimal_length: "n < 10 ^ Suc k \<Longrightarrow> length (decimal n) \<le> Suc k"
proof (induction k arbitrary: n)
  case 0
  then show ?case by (simp add: decimal_small)
next
  case (Suc k)
  show ?case
  proof (cases "n < 10")
    case False
    have "n div 10 < 10 ^ Suc k" using Suc.prems by (simp add: less_mult_imp_div_less)
    from Suc.IH [OF this] False show ?thesis by (simp add: decimal.simps [of n])
  qed (simp add: decimal_small)
qed

lemma add_decimal_refines:
  assumes "malloc_ok malloc"
  shows "refines malloc (\<lambda>_. True) (add_decimal malloc d v) (abs_append d (decimal (unat v)))"
proof -
  have "unat v < 10 ^ Suc 19" using unsigned_less [of v, where 'a = nat] by simp
  from decimal_length [OF this] have "length (decimal (unat v)) + 8 < 2 ^ 63" by simp
  from CBB_add_bytes_refines [OF assms this] show ?thesis by (simp add: add_decimal_def [abs_def])
qed

lemma add_dotted_refines:
  assumes "malloc_ok malloc"
  shows "refines malloc (\<lambda>_. True) (\<lambda>s. and_then (CBB_add_u8 malloc 0 0x2E s) (add_decimal malloc 0 v))
    (abs_append 0 (dot # decimal (unat v)))"
  using append_steps [OF CBB_add_u8_refines [OF assms, of 0 "0x2E"]
      refines_weaken [OF add_decimal_refines [OF assms]]]
  by (simp add: dot_def)

text \<open>Printing as a refinement of appending the text, for the first arc and for the others.\<close>

definition first_text :: "nat \<Rightarrow> bytes" where
  "first_text n = (if 80 \<le> n then [0x32, dot] @ decimal (n - 80)
    else decimal (n div 40) @ dot # decimal (n mod 40))"

definition add_first :: "allocator \<Rightarrow> u64 \<Rightarrow> cbb \<Rightarrow> bool \<times> cbb" where
  "add_first malloc v s =
     (if 80 \<le> v then and_then (CBB_add_bytes malloc 0 [0x32, 0x2E] s) (add_decimal malloc 0 (v - 80))
      else and_then (add_decimal malloc 0 (v div 40) s) (\<lambda>s.
        and_then (CBB_add_u8 malloc 0 0x2E s) (add_decimal malloc 0 (v mod 40))))"

lemma add_first_refines:
  assumes "malloc_ok malloc" and "n < 2 ^ 64"
  shows "refines malloc (\<lambda>_. True) (add_first malloc (of_nat n)) (abs_append 0 (first_text n))"
proof -
  let ?v = "of_nat n :: u64"
  have u: "unat ?v = n" using assms(2) by (simp add: unat_of_nat)
  have W: "refines malloc (\<lambda>_. True) f a \<Longrightarrow> refines malloc (\<lambda>ls. length ls = Suc 0) f a" for f a
    by (erule refines_weaken) simp
  note dec = add_decimal_refines [OF assms(1), of 0]
  show ?thesis
  proof (cases "80 \<le> n")
    case True
    have "80 \<le> ?v" using True u by (simp add: word_le_nat_alt)
    moreover from this have "unat (?v - 80) = n - 80" using u by (simp add: unat_sub)
    moreover have "length [0x32, 0x2E :: u8] + 8 < 2 ^ 63" by simp
    ultimately show ?thesis
      using append_steps [OF CBB_add_bytes_refines [OF assms(1), of "[0x32, 0x2E]" 0] W [OF dec [of "?v - 80"]]]
        True by (simp add: dot_def first_text_def add_first_def [abs_def])
  next
    case False
    then have "\<not> 80 \<le> ?v" using u by (simp add: word_le_nat_alt)
    moreover have "unat (?v div 40) = n div 40" "unat (?v mod 40) = n mod 40"
      using u by (simp_all add: unat_div_distrib unat_mod_distrib)
    ultimately show ?thesis
      using append_steps [OF dec [of "?v div 40"] W [OF add_dotted_refines [OF assms(1), of "?v mod 40"]]]
        False by (simp add: first_text_def add_first_def [abs_def])
  qed
qed

lemma oid_text_components_refines:
  assumes "malloc_ok malloc"
  shows "refines malloc (\<lambda>ls. length ls = Suc 0) (oid_text_components malloc (oid_bytes vs)) (abs_append 0 (dotted vs))"
proof (induction vs)
  case Nil
  have "oid_text_components malloc (oid_bytes []) = (\<lambda>s. (True, s))"
    by (simp add: fun_eq_iff oid_text_components.simps oid_bytes_def)
  then show ?case using skip_refines [of malloc 0] by (simp add: dotted_def)
next
  case (Cons v vs)
  have "unat v < 2 ^ 64" using unsigned_less [of v, where 'a = nat] by simp
  from parse_base128_integer_base128 [OF this, of "oid_bytes vs"]
  have p: "parse_base128_integer (oid_bytes (v # vs)) = (Some v, oid_bytes vs)" by (simp add: oid_bytes_def)
  have "oid_bytes (v # vs) \<noteq> []" by (simp add: oid_bytes_def)
  then have "oid_text_components malloc (oid_bytes (v # vs)) =
      (\<lambda>s. and_then (and_then (CBB_add_u8 malloc 0 0x2E s) (add_decimal malloc 0 v))
        (oid_text_components malloc (oid_bytes vs)))"
    by (simp add: fun_eq_iff oid_text_components.simps [of malloc "oid_bytes (v # vs)"] p and_then_def
        split: prod.split bool.split)
  moreover have "dotted (v # vs) = (dot # decimal (unat v)) @ dotted vs" by (simp add: dotted_def)
  moreover have "refines malloc (\<lambda>ls. length ls = Suc 0)
      (\<lambda>s. and_then (CBB_add_u8 malloc 0 0x2E s) (add_decimal malloc 0 v)) (abs_append 0 (dot # decimal (unat v)))"
    by (rule refines_weaken [OF add_dotted_refines [OF assms]]) simp
  ultimately show ?case using append_steps' [OF _ Cons.IH] by metis
qed

text \<open>The whole text and its NUL: what is printed, and that it is printed when there is memory.\<close>

definition print_oid :: "allocator \<Rightarrow> nat \<Rightarrow> u64 list \<Rightarrow> cbb \<Rightarrow> bool \<times> cbb" where
  "print_oid malloc n vs s =
     and_then (add_first malloc (of_nat n) s) (\<lambda>s.
       and_then (oid_text_components malloc (oid_bytes vs) s) (CBB_add_u8 malloc 0 0))"

lemma print_oid_refines:
  assumes "malloc_ok malloc" and "n < 2 ^ 64"
  shows "refines malloc (\<lambda>_. True) (print_oid malloc n vs) (abs_append 0 (first_text n @ dotted vs @ [0]))"
proof -
  have "refines malloc (\<lambda>ls. length ls = Suc 0) (CBB_add_u8 malloc 0 0) (abs_append 0 [0])"
    by (rule refines_weaken [OF CBB_add_u8_refines [OF assms(1)]]) simp
  from append_steps [OF add_first_refines [OF assms] append_steps' [OF oid_text_components_refines [OF assms(1)] this]]
  show ?thesis by (simp add: print_oid_def [abs_def])
qed

lemma CBS_asn1_oid_to_text_eq:
  assumes "n < 2 ^ 64"
  shows "CBS_asn1_oid_to_text malloc ok (base128 n @ oid_bytes vs) =
    (case CBB_init malloc ok 32 of
       (False, _) \<Rightarrow> None
     | (True, s) \<Rightarrow>
         (case print_oid malloc n vs s of
            (False, _) \<Rightarrow> None
          | (True, s) \<Rightarrow> fst (CBB_finish malloc 0 True s)))"
  unfolding CBS_asn1_oid_to_text_def parse_base128_integer_base128 [OF assms] print_oid_def add_first_def
    option.case prod.case ..

lemma CBS_asn1_oid_to_text_Some:
  assumes "malloc_ok malloc"
    and "CBS_asn1_oid_to_text malloc ok (base128 n @ oid_bytes vs) = Some out" and "n < 2 ^ 64"
  shows "out = first_text n @ dotted vs @ [0]"
proof -
  obtain s0 s1 where i: "CBB_init malloc ok 32 = (True, s0)" and p: "print_oid malloc n vs s0 = (True, s1)"
    and f: "fst (CBB_finish malloc 0 True s1) = Some out"
    using assms(2) unfolding CBS_asn1_oid_to_text_eq [OF assms(3)]
    by (auto split: prod.splits bool.splits)
  obtain s2 where f: "CBB_finish malloc 0 True s1 = (Some out, s2)" using f by (metis prod.collapse)
  have r0: "builder_rep s0 [(Length_prefix 0, [])]"
    by (rule CBB_init_rep [OF assms(1) i]) simp
  from refinesD(1) [OF print_oid_refines [OF assms(1,3)] TrueI r0 p]
  have "builder_rep s1 (append_last (first_text n @ dotted vs @ [0]) [(Length_prefix 0, [])])"
    by (simp add: abs_append_last)
  from CBB_finish_rep(1) [OF assms(1) this f] show ?thesis
    by (simp add: append_last_def abs_flush_def)
qed

lemma CBS_asn1_oid_to_text_total:
  assumes "malloc_ok malloc" and "n < 2 ^ 64"
    and m: "length (first_text n @ dotted vs @ [0]) \<le> m" "16 \<le> m" "m < 2 ^ 61" "\<forall>k \<le> 2 * m + 8. malloc k \<noteq> None"
  shows "CBS_asn1_oid_to_text malloc True (base128 n @ oid_bytes vs) = Some (first_text n @ dotted vs @ [0])"
proof -
  let ?t = "first_text n @ dotted vs @ [0]"
  have "malloc 40 \<noteq> None" using m(2,4) by simp
  then obtain buf where b: "OPENSSL_malloc malloc 32 = Some buf"
    by (auto simp: OPENSSL_malloc_def split: option.splits)
  then obtain s0 where i: "CBB_init malloc True 32 = (True, s0)" and room: "has_room malloc s0 m"
    using m(3,4) by (simp add: CBB_init_def cbb_init_def has_room_def room_def)
  have r0: "builder_rep s0 [(Length_prefix 0, [])]"
    by (rule CBB_init_rep [OF assms(1) i]) simp
  have a: "abs_append 0 ?t [(Length_prefix 0, [])] = Some [(Length_prefix 0, ?t)]"
    by (simp add: abs_append_last append_last_def)
  have l: "length (raw [(Length_prefix 0, ?t)]) \<le> m" using m(1) by simp
  from refinesD(2) [OF print_oid_refines [OF assms(1,2)] TrueI r0 room a l] obtain s1 where
    p: "print_oid malloc n vs s0 = (True, s1)" "builder_rep s1 [(Length_prefix 0, ?t)]" "has_room malloc s1 m" by blast
  have "abs_flush 0 [(Length_prefix 0, ?t)] = Some [(Length_prefix 0, ?t)]" by (simp add: abs_flush_def)
  from CBB_finish_total [OF assms(1) p(2,3) this m(1)] show ?thesis
    using i p(1) by (simp add: CBS_asn1_oid_to_text_eq [OF assms(2)])
qed

text \<open>The contents that the encoder makes from a text, and that they stand for the text.\<close>

lemma oid_encoded:
  assumes "malloc_ok malloc" and "CBB_init malloc ok n = (True, s0)" and "n < 2 ^ 62"
    and "CBB_add_asn1_oid_from_text malloc 0 tx s0 = (True, s1)"
    and "CBB_finish malloc 0 outs s1 = (Some der, s2)"
  obtains k vs where "der = base128 k @ oid_bytes vs" and "k < 2 ^ 64" and "first_text k @ dotted vs = tx"
proof -
  note r0 = CBB_init_rep [OF assms(1,2,3)]
  from CBB_add_asn1_oid_from_text_Some [OF assms(1,4) r0] obtain a b :: u64 and vs ls1 where
    ls1: "abs_flush 0 [(Length_prefix 0, [])] = Some ls1"
    and r: "builder_rep s1 (append_last (base128 (40 * unat a + unat b) @ oid_bytes vs) ls1)"
    and t: "tx = decimal (unat a) @ dotted (b # vs)"
    and a: "unat a \<le> 2" "unat a < 2 \<longrightarrow> unat b \<le> 39" and lt: "40 * unat a + unat b < 2 ^ 64" .
  let ?n = "40 * unat a + unat b"
  have "ls1 = [(Length_prefix 0, [])]" using ls1 by (simp add: abs_flush_def)
  with CBB_finish_rep(1) [OF assms(1) r assms(5)] have der: "der = base128 ?n @ oid_bytes vs"
    by (simp add: append_last_def abs_flush_def)
  have two: "decimal 2 = [0x32]" by (simp add: decimal_small)
  have "first_text ?n @ dotted vs = tx"
  proof (cases "unat a = 2")
    case True
    with two t show ?thesis by (simp add: dotted_def first_text_def)
  next
    case False
    with a have u: "unat a < 2" "unat b < 40" by auto
    then have "\<not> 80 \<le> ?n" "?n div 40 = unat a" "?n mod 40 = unat b" by (auto)
    with t show ?thesis by (simp add: dotted_def first_text_def)
  qed
  with der lt show thesis by (rule that)
qed

lemma oid_roundtrip_aux:
  assumes "malloc_ok malloc" and "CBB_init malloc ok n = (True, s0)" and "n < 2 ^ 62"
    and "CBB_add_asn1_oid_from_text malloc 0 tx s0 = (True, s1)"
    and "CBB_finish malloc 0 outs s1 = (Some der, s2)"
  shows "\<forall>out. CBS_asn1_oid_to_text malloc ok' der = Some out \<longrightarrow> out = tx @ [0]"
    and "length tx < 2 ^ 60 \<Longrightarrow> \<forall>k \<le> 2 * length tx + 40. malloc k \<noteq> None \<Longrightarrow>
      CBS_asn1_oid_to_text malloc True der = Some (tx @ [0])"
proof -
  from oid_encoded [OF assms] obtain k vs where
    k: "der = base128 k @ oid_bytes vs" "k < 2 ^ 64" and t: "first_text k @ dotted vs = tx" .
  have t0: "first_text k @ dotted vs @ [0] = tx @ [0]" using t by simp
  show "\<forall>out. CBS_asn1_oid_to_text malloc ok' der = Some out \<longrightarrow> out = tx @ [0]"
  proof (intro allI impI)
    fix out assume "CBS_asn1_oid_to_text malloc ok' der = Some out"
    from CBS_asn1_oid_to_text_Some [OF assms(1) this [unfolded k(1)] k(2)] show "out = tx @ [0]"
      unfolding t0 .
  qed
  assume l: "length tx < 2 ^ 60" and a: "\<forall>k \<le> 2 * length tx + 40. malloc k \<noteq> None"
  have "\<forall>k \<le> 2 * (length tx + 16) + 8. malloc k \<noteq> None" using a by simp
  moreover have "length (first_text k @ dotted vs @ [0]) \<le> length tx + 16" unfolding t0 by simp
  moreover have "16 \<le> length tx + 16" "length tx + 16 < 2 ^ 61" using l by simp_all
  ultimately have "CBS_asn1_oid_to_text malloc True (base128 k @ oid_bytes vs) =
      Some (first_text k @ dotted vs @ [0])"
    by (intro CBS_asn1_oid_to_text_total [OF assms(1) k(2)])
  then show "CBS_asn1_oid_to_text malloc True der = Some (tx @ [0])" unfolding k(1) t0 .
qed

section \<open>The texts the encoder takes\<close>

definition oid_text :: "bytes \<Rightarrow> bool" where
  "oid_text tx \<longleftrightarrow> (\<exists>(a :: u64) (b :: u64) vs. tx = decimal (unat a) @ dotted (b # vs) \<and>
     unat a \<le> 2 \<and> (unat a < 2 \<longrightarrow> unat b \<le> 39) \<and> unat b \<le> 0xFFFFFFFFFFFFFFFF - 80)"

lemma decimal_bound: "n < 10 ^ length (decimal n)"
proof (induction n rule: less_induct)
  case (less n)
  show ?case
  proof (cases "n < 10")
    case True
    then show ?thesis by (simp add: decimal_small)
  next
    case False
    then have "n div 10 < 10 ^ length (decimal (n div 10))" by (intro less.IH) simp
    then have "n < 10 * 10 ^ length (decimal (n div 10))" by simp
    then show ?thesis using False by (simp add: decimal.simps [of n])
  qed
qed

lemma dotted_decimal_step:
  assumes "m * 10 + k < 2 ^ 64" and "k < 10" and "seen \<Longrightarrow> 0 < m"
  shows "dotted_decimal_loop (of_nat m) seen (of_nat (48 + k) # s) = dotted_decimal_loop (of_nat (m * 10 + k)) True s"
proof -
  let ?u = "of_nat (48 + k) :: u8" and ?m = "of_nat m :: u64"
  have u: "unat ?u = 48 + k" using assms(2) by (simp add: unat_of_nat_u8 del: of_nat_add)
  have m: "unat ?m = m" using assms(1) by (simp add: unat_of_nat)
  have uk: "unat (of_nat k :: u64) = k" using assms(2) by (simp add: unat_of_nat)
  have "unat (ucast ?u - 0x30 :: u64) = k"
    using u by (simp add: unat_sub word_le_nat_alt del: of_nat_add)
  with uk have k: "ucast ?u - 0x30 = (of_nat k :: u64)" by (simp add: word_unat_eq_iff)
  have m10: "unat (?m * 10) = m * 10"
    using assms(1) m by (subst unat_mult_lem [THEN iffD1]) simp_all
  have d: "unat ((0xFFFFFFFFFFFFFFFF :: u64) div 10) = 1844674407370955161" by simp
  have x: "unat (0xFFFFFFFFFFFFFFFF - of_nat k :: u64) = 0xFFFFFFFFFFFFFFFF - k"
    using uk assms(2) by (subst unat_sub) (simp_all add: word_le_nat_alt)
  have "?u \<noteq> 0x2E"
  proof
    assume e: "?u = 0x2E"
    have "unat ?u = 46" unfolding e by simp
    with u show False by linarith
  qed
  then have "\<not> (?u = 0x2E \<and> 0 < length s)" by blast
  moreover have "\<not> ?m > 0xFFFFFFFFFFFFFFFF div 10" unfolding word_less_nat_alt d m using assms(1) by simp
  moreover have "\<not> ?m * 10 > 0xFFFFFFFFFFFFFFFF - (ucast ?u - 0x30)"
    unfolding k word_less_nat_alt x m10 using assms(1) by simp
  moreover have "\<not> (seen \<and> ?m = 0)" using assms(3) m by auto
  moreover have "\<not> ?u < 0x30" "\<not> ?u > 0x39" unfolding word_less_nat_alt u using assms(2) by simp_all
  moreover have "?m * 10 + (ucast ?u - 0x30) = of_nat (m * 10 + k)" unfolding k by simp
  ultimately show ?thesis by (simp only: dotted_decimal_loop.simps if_False simp_thms)
qed

lemma dotted_decimal_loop_decimal:
  "n < 2 ^ 64 \<Longrightarrow> dotted_decimal_loop 0 False (decimal n @ s) = dotted_decimal_loop (of_nat n) True s"
proof (induction n arbitrary: s rule: less_induct)
  case (less n)
  show ?case
  proof (cases "n < 10")
    case True
    with dotted_decimal_step [of 0 n False s] less.prems show ?thesis by (simp add: decimal_small)
  next
    case False
    have "n div 10 < 2 ^ 64" using less.prems by simp
    have "dotted_decimal_loop 0 False (decimal n @ s) =
        dotted_decimal_loop 0 False (decimal (n div 10) @ of_nat (48 + n mod 10) # s)"
      using False by (simp add: decimal.simps [of n])
    also have "\<dots> = dotted_decimal_loop (of_nat (n div 10)) True (of_nat (48 + n mod 10) # s)"
      by (rule less.IH) (use False less.prems in simp_all)
    also have "\<dots> = dotted_decimal_loop (of_nat (n div 10 * 10 + n mod 10)) True s"
      by (rule dotted_decimal_step) (use False less.prems in simp_all)
    finally show ?thesis by simp
  qed
qed

lemma parse_dotted_decimal_end: "parse_dotted_decimal (decimal (unat v)) = (Some v, [])"
  using dotted_decimal_loop_decimal [of "unat v" "[]"] unsigned_less [of v, where 'a = nat]
  by (simp add: parse_dotted_decimal_def)

lemma parse_dotted_decimal_dot: "s \<noteq> [] \<Longrightarrow> parse_dotted_decimal (decimal (unat v) @ dot # s) = (Some v, s)"
  using dotted_decimal_loop_decimal [of "unat v" "dot # s"] unsigned_less [of v, where 'a = nat]
  by (simp add: parse_dotted_decimal_def dot_def)

lemma dotted_Cons: "dotted (v # vs) = dot # decimal (unat v) @ dotted vs"
  by (simp add: dotted_def)

lemma parse_dotted: "parse_dotted_decimal (decimal (unat v) @ dotted vs) = (Some v, tl (dotted vs))"
proof (cases vs)
  case Nil
  then show ?thesis using parse_dotted_decimal_end [of v] by (simp add: dotted_def)
next
  case (Cons w ws)
  then show ?thesis using parse_dotted_decimal_dot [of "decimal (unat w) @ dotted ws" v] by (simp add: dotted_Cons)
qed

lemma oid_components_refines:
  assumes "malloc_ok malloc"
  shows "refines malloc (\<lambda>ls. length ls = Suc d) (oid_components malloc d (tl (dotted vs))) (abs_append d (oid_bytes vs))"
proof (induction vs)
  case Nil
  have "oid_components malloc d (tl (dotted [])) = (\<lambda>s. (True, s))"
    by (simp add: fun_eq_iff oid_components.simps dotted_def)
  then show ?case using skip_refines [of malloc d] by (simp add: oid_bytes_def)
next
  case (Cons v vs)
  have "oid_components malloc d (tl (dotted (v # vs))) =
      (\<lambda>s. and_then (add_base128_integer malloc d v s) (oid_components malloc d (tl (dotted vs))))"
    by (simp add: fun_eq_iff dotted_Cons oid_components.simps [of malloc d "decimal (unat v) @ dotted vs"]
        parse_dotted and_then_def split: prod.split bool.split)
  moreover have "oid_bytes (v # vs) = base128 (unat v) @ oid_bytes vs" by (simp add: oid_bytes_def)
  ultimately show ?case using append_steps' [OF add_base128_integer_refines [OF assms] Cons.IH] by metis
qed

lemma oid_bytes_length: "length (oid_bytes vs) \<le> length (dotted vs)"
proof (induction vs)
  case (Cons v vs)
  have "unat v < 10 ^ length (decimal (unat v))" by (rule decimal_bound)
  also have "\<dots> \<le> 128 ^ Suc (length (decimal (unat v)))"
    by (rule order.trans [OF power_mono [of 10 128]]) simp_all
  finally have "length (base128 (unat v)) \<le> Suc (length (decimal (unat v)))" by (rule base128_length)
  with Cons.IH show ?case by (simp add: oid_bytes_def dotted_Cons)
qed (simp add: oid_bytes_def)

lemma oid_text_taken:
  assumes "malloc_ok malloc" and "oid_text tx" and "has_room malloc s m" and "length tx \<le> m"
    and r: "builder_rep s [(Length_prefix 0, [])]"
  shows "\<exists>s' der. CBB_add_asn1_oid_from_text malloc 0 tx s = (True, s') \<and>
    builder_rep s' [(Length_prefix 0, der)] \<and> has_room malloc s' m \<and> length der \<le> m"
proof -
  obtain a b :: u64 and vs where tx: "tx = decimal (unat a) @ dotted (b # vs)" and a: "unat a \<le> 2"
    "unat a < 2 \<longrightarrow> unat b \<le> 39" "unat b \<le> 0xFFFFFFFFFFFFFFFF - 80"
    using assms(2) unfolding oid_text_def by blast
  have m: "unat (40 * a) = 40 * unat a" using a(1) by (subst unat_mult_lem [THEN iffD1]) simp_all
  have "unat (40 * a) + unat b < 2 ^ LENGTH(64)" using a(1,3) by (simp add: m)
  then have v: "unat (40 * a + b) = 40 * unat a + unat b"
    by (subst unat_add_lem [THEN iffD1]) (simp_all add: m)
  let ?c = "base128 (40 * unat a + unat b)"
  have "unat b < 10 ^ length (decimal (unat b))" by (rule decimal_bound)
  moreover have "(10::nat) ^ length (decimal (unat b)) \<le> 128 ^ length (decimal (unat b))"
    by (rule power_mono) simp_all
  moreover have "(1::nat) \<le> 128 ^ length (decimal (unat b))" by simp
  ultimately have "40 * unat a + unat b < 128 ^ Suc (length (decimal (unat b)))" using a(1) unfolding power_Suc by linarith
  then have "length ?c \<le> Suc (length (decimal (unat b)))" by (rule base128_length)
  with oid_bytes_length [of vs] have l: "length (?c @ oid_bytes vs) \<le> m"
    using assms(4) by (simp add: tx dotted_Cons)
  have f: "abs_flush 0 [(Length_prefix 0, [])] = Some [(Length_prefix 0, [])]" by (simp add: abs_flush_def)
  from refinesD(2) [OF CBB_flush_refines [OF assms(1)] TrueI r assms(3) f] obtain s1 where
    s1: "CBB_flush malloc 0 s = (True, s1)" "builder_rep s1 [(Length_prefix 0, [])]" "has_room malloc s1 m" by auto
  have c: "refines malloc (\<lambda>ls. length ls = Suc 0)
      (\<lambda>s. and_then (add_base128_integer malloc 0 (40 * a + b) s) (oid_components malloc 0 (tl (dotted vs))))
      (abs_append 0 (?c @ oid_bytes vs))"
    using append_steps' [OF add_base128_integer_refines [OF assms(1)] oid_components_refines [OF assms(1)]]
    unfolding v [symmetric] .
  have "abs_append 0 (?c @ oid_bytes vs) [(Length_prefix 0, [])] = Some [(Length_prefix 0, ?c @ oid_bytes vs)]"
    by (simp add: abs_append_last append_last_def)
  from refinesD(2) [OF c _ s1(2,3) this] l obtain s2 where
    s2: "and_then (add_base128_integer malloc 0 (40 * a + b) s1) (oid_components malloc 0 (tl (dotted vs))) = (True, s2)"
      "builder_rep s2 [(Length_prefix 0, ?c @ oid_bytes vs)]" "has_room malloc s2 m" by auto
  have p: "parse_dotted_decimal tx = (Some a, decimal (unat b) @ dotted vs)"
    unfolding tx parse_dotted by (simp add: dotted_Cons)
  have "\<not> (a > 2 \<or> (a < 2 \<and> b > 39) \<or> b > 0xFFFFFFFFFFFFFFFF - 80)"
    using a by (auto simp: word_less_nat_alt)
  then have "CBB_add_asn1_oid_from_text malloc 0 tx s = (True, s2)"
    using s1(1) s2(1) by (simp add: CBB_add_asn1_oid_from_text_def and_then_def [of "(True, s1)"] p parse_dotted)
  with s2(2,3) l show ?thesis by blast
qed

lemma oid_text_only:
  assumes "malloc_ok malloc" and "CBB_add_asn1_oid_from_text malloc d tx s = (True, s')" and "builder_rep s ls"
  shows "oid_text tx"
proof -
  from CBB_add_asn1_oid_from_text_Some [OF assms] obtain a b :: u64 and vs where
    t: "tx = decimal (unat a) @ dotted (b # vs)"
      "unat a \<le> 2" "unat a < 2 \<longrightarrow> unat b \<le> 39" "40 * unat a + unat b < 2 ^ 64" .
  have "unat b \<le> 0xFFFFFFFFFFFFFFFF - 80"
  proof (cases "unat a < 2")
    case False
    with t(2,4) show ?thesis by simp
  qed (use t(3) in simp)
  with t(1-3) show ?thesis unfolding oid_text_def by blast
qed

lemma oid_roundtrip:
  assumes "malloc_ok malloc" and i: "CBB_init malloc ok n = (True, s0)" and "n < 2 ^ 62"
    and l: "length tx < 2 ^ 60" and a: "\<forall>k \<le> 2 * length tx + 40. malloc k \<noteq> None"
  shows "oid_text tx \<longleftrightarrow> (\<exists>s1 der. CBB_add_asn1_oid_from_text malloc 0 tx s0 = (True, s1) \<and>
    fst (CBB_finish malloc 0 True s1) = Some der \<and> CBS_asn1_oid_to_text malloc True der = Some (tx @ [0]))"
    (is "_ \<longleftrightarrow> ?printed")
proof
  note r0 = CBB_init_rep [OF assms(1-3)]
  assume t: "oid_text tx"
  have m: "\<forall>k \<le> 2 * (length tx + 16) + 8. malloc k \<noteq> None" "length tx + 16 < 2 ^ 61" using a l by simp_all
  have "has_room malloc s0 (length tx + 16)"
    using i m by (auto simp: CBB_init_def cbb_init_def has_room_def room_def split: option.splits if_splits)
  from oid_text_taken [OF assms(1) t this _ r0] obtain s1 der where
    s1: "CBB_add_asn1_oid_from_text malloc 0 tx s0 = (True, s1)" "builder_rep s1 [(Length_prefix 0, der)]"
      "has_room malloc s1 (length tx + 16)" "length der \<le> length tx + 16" by auto
  have "abs_flush 0 [(Length_prefix 0, der)] = Some [(Length_prefix 0, der)]" by (simp add: abs_flush_def)
  from CBB_finish_total [OF assms(1) s1(2,3) this s1(4)] obtain s2 where
    f: "CBB_finish malloc 0 True s1 = (Some der, s2)" by (metis prod.collapse)
  from oid_roundtrip_aux(2) [OF assms(1-3) s1(1) f l a] s1(1) f show ?printed by auto
next
  assume ?printed
  then obtain s1 where "CBB_add_asn1_oid_from_text malloc 0 tx s0 = (True, s1)" by blast
  from oid_text_only [OF assms(1) this CBB_init_rep [OF assms(1-3)]] show "oid_text tx" .
qed

end
