(* ===== verification/Sort.thy ===== *)
theory Sort
  imports Mem "HOL-Library.Multiset"
begin

text \<open>
  The interface of the C library's \<open>qsort\<close> and \<open>bsearch\<close> with its clients: the locale
  \<open>comparator\<close> is what a comparison function must satisfy, \<open>qsort_ok\<close> and \<open>bsearch_ok\<close> what the
  library then promises. Both functions are parameters of the model. The case-insensitive string
  comparison of \<open>Mem\<close> is a comparator.
\<close>

locale comparator =
  fixes cmp :: "'a \<Rightarrow> 'a \<Rightarrow> int"
  assumes cmp_refl: "cmp a a = 0"
    and cmp_anti: "cmp a b < 0 \<longleftrightarrow> 0 < cmp b a"
    and cmp_trans: "cmp a b \<le> 0 \<Longrightarrow> cmp b c \<le> 0 \<Longrightarrow> cmp a c \<le> 0"
begin

abbreviation ascending :: "'a list \<Rightarrow> bool" where
  "ascending \<equiv> sorted_wrt (\<lambda>a b. cmp a b \<le> 0)"

lemma cmp_zero_sym: "cmp a b = 0 \<longleftrightarrow> cmp b a = 0"
  using cmp_anti [of a b] cmp_anti [of b a] by linarith

lemma cmp_zero_trans: "cmp a b = 0 \<Longrightarrow> cmp b c = 0 \<Longrightarrow> cmp a c = 0"
proof -
  assume "cmp a b = 0" and "cmp b c = 0"
  moreover from this have "cmp b a = 0" "cmp c b = 0" by (simp_all add: cmp_zero_sym)
  ultimately have "cmp a c \<le> 0" "cmp c a \<le> 0"
    using cmp_trans [of a b c] cmp_trans [of c b a] by simp_all
  then show "cmp a c = 0" using cmp_anti [of a c] by auto
qed

lemma cmp_total: "cmp a b \<le> 0 \<or> cmp b a \<le> 0"
  using cmp_anti [of b a] by linarith

text \<open>In an ascending list, the elements equal to a key are next to each other.\<close>

lemma ascending_between:
  assumes "ascending xs" and "i \<le> j" and "j \<le> k" and "k < length xs"
    and "cmp key (xs ! i) = 0" and "cmp key (xs ! k) = 0"
  shows "cmp key (xs ! j) = 0"
proof -
  have ij: "cmp (xs ! i) (xs ! j) \<le> 0"
    using assms(1-4) cmp_refl by (cases "i = j") (auto simp: sorted_wrt_iff_nth_less)
  have jk: "cmp (xs ! j) (xs ! k) \<le> 0"
    using assms(1-4) cmp_refl by (cases "j = k") (auto simp: sorted_wrt_iff_nth_less)
  have "cmp key (xs ! j) \<le> 0" using cmp_trans [OF _ ij, of key] assms(5) by simp
  moreover have "cmp (xs ! j) key \<le> 0"
    using cmp_trans [OF jk, of key] assms(6) cmp_zero_sym [of key "xs ! k"] by simp
  ultimately show ?thesis using cmp_anti [of "xs ! j" key] cmp_anti [of key "xs ! j"] by linarith
qed

end

definition qsort_ok :: "(('a \<Rightarrow> 'a \<Rightarrow> int) \<Rightarrow> 'a list \<Rightarrow> 'a list) \<Rightarrow> bool" where
  "qsort_ok qsort \<longleftrightarrow>
     (\<forall>cmp xs. comparator cmp \<longrightarrow>
        mset (qsort cmp xs) = mset xs \<and> sorted_wrt (\<lambda>a b. cmp a b \<le> 0) (qsort cmp xs))"

definition bsearch_ok :: "(('a \<Rightarrow> 'a \<Rightarrow> int) \<Rightarrow> 'a \<Rightarrow> 'a list \<Rightarrow> nat option) \<Rightarrow> bool" where
  "bsearch_ok bsearch \<longleftrightarrow>
     (\<forall>cmp key xs. comparator cmp \<longrightarrow> sorted_wrt (\<lambda>a b. cmp a b \<le> 0) xs \<longrightarrow>
        (case bsearch cmp key xs of
           None \<Rightarrow> \<forall>x\<in>set xs. cmp key x \<noteq> 0
         | Some i \<Rightarrow> i < length xs \<and> cmp key (xs ! i) = 0))"

lemma qsort_okD:
  assumes "qsort_ok qsort" and "comparator cmp"
  shows "mset (qsort cmp xs) = mset xs" and "sorted_wrt (\<lambda>a b. cmp a b \<le> 0) (qsort cmp xs)"
  using assms unfolding qsort_ok_def by blast+

lemma bsearch_okD:
  assumes "bsearch_ok bsearch" and "comparator cmp" and "sorted_wrt (\<lambda>a b. cmp a b \<le> 0) xs"
  shows "bsearch cmp key xs = None \<Longrightarrow> \<forall>x\<in>set xs. cmp key x \<noteq> 0"
    and "bsearch cmp key xs = Some i \<Longrightarrow> i < length xs \<and> cmp key (xs ! i) = 0"
proof -
  have "case bsearch cmp key xs of None \<Rightarrow> \<forall>x\<in>set xs. cmp key x \<noteq> 0
      | Some i \<Rightarrow> i < length xs \<and> cmp key (xs ! i) = 0"
    using assms unfolding bsearch_ok_def by blast
  then show "bsearch cmp key xs = None \<Longrightarrow> \<forall>x\<in>set xs. cmp key x \<noteq> 0"
    and "bsearch cmp key xs = Some i \<Longrightarrow> i < length xs \<and> cmp key (xs ! i) = 0" by simp_all
qed

section \<open>Functions that meet the contracts\<close>

fun insert_by :: "('a \<Rightarrow> 'a \<Rightarrow> int) \<Rightarrow> 'a \<Rightarrow> 'a list \<Rightarrow> 'a list" where
  "insert_by cmp x [] = [x]"
| "insert_by cmp x (y # ys) = (if cmp x y \<le> 0 then x # y # ys else y # insert_by cmp x ys)"

fun sort_by :: "('a \<Rightarrow> 'a \<Rightarrow> int) \<Rightarrow> 'a list \<Rightarrow> 'a list" where
  "sort_by cmp [] = []"
| "sort_by cmp (x # xs) = insert_by cmp x (sort_by cmp xs)"

fun search_by :: "('a \<Rightarrow> 'a \<Rightarrow> int) \<Rightarrow> 'a \<Rightarrow> 'a list \<Rightarrow> nat option" where
  "search_by cmp key [] = None"
| "search_by cmp key (x # xs) = (if cmp key x = 0 then Some 0 else map_option Suc (search_by cmp key xs))"

lemma mset_insert_by [simp]: "mset (insert_by cmp x ys) = add_mset x (mset ys)"
  by (induction ys) auto

lemma mset_sort_by [simp]: "mset (sort_by cmp xs) = mset xs"
  by (induction xs) auto

context comparator
begin

lemma ascending_insert_by: "ascending ys \<Longrightarrow> ascending (insert_by cmp x ys)"
proof (induction ys)
  case (Cons y ys)
  have s: "set (insert_by cmp x ys) = insert x (set ys)"
    using mset_insert_by [of cmp x ys] by (metis set_mset_add_mset_insert set_mset_mset)
  show ?case
  proof (cases "cmp x y \<le> 0")
    case True
    with Cons.prems show ?thesis by (auto intro: cmp_trans)
  next
    case False
    with Cons show ?thesis using cmp_total [of x y] by (auto simp: s)
  qed
qed simp

lemma ascending_sort_by: "ascending (sort_by cmp xs)"
  by (induction xs) (simp_all add: ascending_insert_by)

end

lemma sort_by_ok: "qsort_ok sort_by"
  by (simp add: qsort_ok_def comparator.ascending_sort_by)

lemma search_by_ok: "bsearch_ok search_by"
proof -
  have "case search_by cmp key xs of None \<Rightarrow> \<forall>x\<in>set xs. cmp key x \<noteq> 0
      | Some i \<Rightarrow> i < length xs \<and> cmp key (xs ! i) = 0" for cmp :: "'a \<Rightarrow> 'a \<Rightarrow> int" and key xs
    by (induction xs) (auto split: option.splits)
  then show ?thesis by (simp add: bsearch_ok_def)
qed

section \<open>Strings are comparable\<close>

text \<open>The key of a character string: its lower-case characters, compared lexicographically.\<close>

lemma strcasecmp_Cons:
  "OPENSSL_strcasecmp a b =
     (if OPENSSL_tolower (char_at a) < OPENSSL_tolower (char_at b) then - 1
      else if OPENSSL_tolower (char_at b) < OPENSSL_tolower (char_at a) then 1
      else if OPENSSL_tolower (char_at a) = 0 then 0 else OPENSSL_strcasecmp (tl a) (tl b))"
  by (subst OPENSSL_strcasecmp.simps) (simp add: Let_def)

lemma strcasecmp_refl: "OPENSSL_strcasecmp a a = 0"
proof (induction a)
  case Nil
  show ?case by (subst strcasecmp_Cons) (simp add: char_at_def OPENSSL_tolower_def)
next
  case (Cons c a)
  then show ?case by (subst strcasecmp_Cons) simp
qed

lemma strcasecmp_anti: "OPENSSL_strcasecmp a b < 0 \<longleftrightarrow> 0 < OPENSSL_strcasecmp b a"
proof (induction a b rule: OPENSSL_strcasecmp.induct)
  case (1 a b)
  let ?a = "OPENSSL_tolower (char_at a)" and ?b = "OPENSSL_tolower (char_at b)"
  consider "?a < ?b" | "?b < ?a" | "?a = ?b" "?a = 0" | "?a = ?b" "?a \<noteq> 0" by linarith
  then show ?case
    using strcasecmp_Cons [of a b] strcasecmp_Cons [of b a] "1.IH" [OF refl refl] by cases simp_all
qed

lemma strcasecmp_trans:
  "OPENSSL_strcasecmp a b \<le> 0 \<Longrightarrow> OPENSSL_strcasecmp b c \<le> 0 \<Longrightarrow> OPENSSL_strcasecmp a c \<le> 0"
proof (induction a b arbitrary: c rule: OPENSSL_strcasecmp.induct)
  case (1 a b)
  let ?a = "OPENSSL_tolower (char_at a)" and ?b = "OPENSSL_tolower (char_at b)"
    and ?c = "OPENSSL_tolower (char_at c)"
  have ab: "?a \<le> ?b" using "1.prems"(1) strcasecmp_Cons [of a b] by (simp split: if_splits)
  have bc: "?b \<le> ?c" using "1.prems"(2) strcasecmp_Cons [of b c] by (simp split: if_splits)
  show ?case
  proof (cases "?a = ?b \<and> ?b = ?c \<and> ?a \<noteq> 0")
    case True
    with "1.prems" strcasecmp_Cons [of a b] strcasecmp_Cons [of b c] strcasecmp_Cons [of a c]
      "1.IH" [OF refl refl, of "tl c"]
    show ?thesis by simp
  next
    case False
    with ab bc strcasecmp_Cons [of a c] show ?thesis by auto
  qed
qed

interpretation strcasecmp: comparator OPENSSL_strcasecmp
  by unfold_locales (auto intro: strcasecmp_refl strcasecmp_trans simp: strcasecmp_anti)

end
