(* ===== verification/Set_of.thy ===== *)
theory Set_of
  imports Cbb_Spec Sort
begin

text \<open>
  \<open>CBB_flush_asn1_set_of\<close>: the elements of a DER SET OF are put into ascending order. The comparison
  function of the code is a \<open>comparator\<close>, so \<open>qsort\<close> sorts with it.
\<close>

section \<open>The comparison\<close>

lemma compare_take:
  "compare_bytes (take (min (length a) (length b)) a) (take (min (length a) (length b)) b) = compare_bytes a b"
  by (induction a b rule: compare_bytes.induct) auto

lemma compare_set_of_element_simps [simp]:
  "compare_set_of_element [] [] = 0"
  "compare_set_of_element [] (b # bs) = - 1"
  "compare_set_of_element (a # as) [] = 1"
  "compare_set_of_element (a # as) (b # bs) =
     (if a < b then - 1 else if b < a then 1 else compare_set_of_element as bs)"
  by (auto simp: compare_set_of_element_def Let_def)

interpretation set_of: comparator compare_set_of_element
proof
  fix a b c :: bytes
  show "compare_set_of_element a a = 0" by (induction a) auto
  show "compare_set_of_element a b < 0 \<longleftrightarrow> 0 < compare_set_of_element b a"
    by (induction a b rule: list_induct2') auto
  show "compare_set_of_element a b \<le> 0 \<Longrightarrow> compare_set_of_element b c \<le> 0 \<Longrightarrow>
      compare_set_of_element a c \<le> 0"
  proof (induction a b arbitrary: c rule: list_induct2')
    case (4 x xs y ys)
    then show ?case by (cases c) (auto split: if_splits)
  qed (auto split: if_splits, metis list.exhaust compare_set_of_element_simps(1,2) order_refl neg_le_0_iff_le zero_le_one)
qed

section \<open>The children\<close>

lemma set_of_children_concat: "set_of_children n cs = Some xs \<Longrightarrow> cs = concat xs"
proof (induction n cs arbitrary: xs rule: set_of_children.induct)
  case (2 n cs)
  show ?case
  proof (cases "cs = []")
    case False
    obtain out tag hl cs' ys where g: "CBS_get_any_asn1_element cs = (Some (out, tag, hl), cs')"
      and ys: "set_of_children n cs' = Some ys" and xs: "xs = out # ys"
      using "2.prems" False by (auto split: prod.splits option.splits)
    from "2.IH" [OF False g [symmetric] refl _ _ ys] have "cs' = concat ys" by simp
    moreover have "cs = out @ cs'" using g by (auto simp: get_any_iff)
    ultimately show ?thesis by (simp add: xs)
  qed (use "2.prems" in auto)
qed (auto split: if_splits)

lemma set_of_children_elements:
  "set_of_children n cs = Some xs \<Longrightarrow> \<forall>x\<in>set xs. \<exists>tag body. x = der_element tag body"
proof (induction n cs arbitrary: xs rule: set_of_children.induct)
  case (2 n cs)
  show ?case
  proof (cases "cs = []")
    case False
    obtain out tag hl cs' ys where g: "CBS_get_any_asn1_element cs = (Some (out, tag, hl), cs')"
      and ys: "set_of_children n cs' = Some ys" and xs: "xs = out # ys"
      using "2.prems" False by (auto split: prod.splits option.splits)
    from "2.IH" [OF False g [symmetric] refl _ _ ys] g show ?thesis by (auto simp: xs get_any_iff)
  qed (use "2.prems" in auto)
qed (auto split: if_splits)

text \<open>The number of bytes is enough fuel: more changes nothing.\<close>

lemma set_of_children_fuel: "length cs \<le> n \<Longrightarrow> set_of_children (Suc n) cs = set_of_children n cs"
proof (induction n arbitrary: cs)
  case (Suc n)
  have "length cs' \<le> n" if "CBS_get_any_asn1_element cs = (Some (out, tag, hl), cs')" for out tag hl cs'
  proof -
    from that obtain body where "cs = der_element tag body @ cs'" by (auto simp: get_any_iff)
    moreover have "der_element tag body \<noteq> []"
      by (simp add: der_element_def der_header_def der_length_def)
    ultimately have "length cs' < length cs" by simp
    with Suc.prems show ?thesis by simp
  qed
  then show ?case
    using Suc.IH by (subst (1 2) set_of_children.simps(2)) (auto split: prod.split option.split)
qed auto

section \<open>Sorting in place\<close>

lemma frame_at_rep:
  assumes "builder_rep s ls" and "length ls = Suc d"
  shows "cf_offset (frame_at d s) + cf_pending_len_len (frame_at d s) =
      length (raw (butlast ls)) + placeholder (fst (last ls))"
proof (cases d)
  case 0
  with assms obtain p c where "ls = [(p, c)]" "p = Length_prefix 0"
    by (cases ls) (auto simp: builder_rep_def)
  with 0 show ?thesis by (simp add: frame_at_def)
next
  case (Suc k)
  obtain xs p c where ls: "ls = xs @ [(p, c)]" using assms(2) by (cases ls rule: rev_cases) auto
  with assms Suc have xs: "length xs = Suc k" "xs \<noteq> []" by auto
  have "cb_children s = tl (frames_at 0 xs) @
      [\<lparr>cf_offset = length (raw xs), cf_pending_len_len = placeholder p, cf_pending_is_asn1 = (p = Asn1_prefix)\<rparr>]"
  proof -
    have "frames_at 0 xs \<noteq> []" using xs length_frames_at [of 0 xs] by (metis length_0_conv)
    then show ?thesis using assms(1) by (simp add: builder_rep_def ls frames_at_append)
  qed
  moreover have "length (tl (frames_at 0 xs)) = k" using xs by simp
  ultimately show ?thesis using Suc by (simp add: frame_at_def ls nth_append)
qed

lemma CBB_data_rep:
  assumes "builder_rep s ls" and "length ls = Suc d"
  shows "CBB_data d s = snd (last ls)"
proof -
  obtain xs p c where ls: "ls = xs @ [(p, c)]" using assms(2) by (cases ls rule: rev_cases) auto
  obtain b where b: "cb_base s = Some b" "holds b (raw ls)" using assms(1) by (auto simp: builder_rep_def)
  note f = frame_at_rep [OF assms]
  have raw: "raw ls = (raw xs @ replicate (placeholder p) 0) @ c" by (simp add: ls raw_append)
  have pre: "length (raw xs @ replicate (placeholder p) 0) =
      cf_offset (frame_at d s) + cf_pending_len_len (frame_at d s)" using f by (simp add: ls)
  have "bb_len b = length (raw ls)" "take (length (raw ls)) (bb_buf b) = raw ls"
    using b(2) by (simp_all add: holds_def)
  then obtain r where buf: "bb_buf b = raw ls @ r" by (metis append_take_drop_id)
  have l: "CBB_len d s = length c"
    using \<open>bb_len b = length (raw ls)\<close> pre by (simp add: CBB_len_def b raw)
  have "drop (cf_offset (frame_at d s) + cf_pending_len_len (frame_at d s)) (bb_buf b) = c @ r"
    unfolding buf raw pre [symmetric] by simp
  then show ?thesis by (simp add: CBB_data_def b l ls)
qed

lemma rewind_rep:
  assumes "builder_rep s ls" and "length ls = Suc d"
  obtains s' where "on_base (\<lambda>base. (True, base\<lparr>bb_len := cf_offset (frame_at d s) +
      cf_pending_len_len (frame_at d s)\<rparr>)) s = (True, s')"
    and "builder_rep s' (butlast ls @ [(fst (last ls), [])])"
proof -
  obtain xs p c where ls: "ls = xs @ [(p, c)]" using assms(2) by (cases ls rule: rev_cases) auto
  obtain b where b: "cb_base s = Some b" "holds b (raw ls)" using assms(1) by (auto simp: builder_rep_def)
  let ?n = "cf_offset (frame_at d s) + cf_pending_len_len (frame_at d s)"
  have pre: "?n = length (raw (xs @ [(p, [])]))" using frame_at_rep [OF assms] by (simp add: ls raw_append)
  have raw: "raw ls = raw (xs @ [(p, [])]) @ c" by (simp add: ls raw_append)
  have h: "holds (b\<lparr>bb_len := ?n\<rparr>) (raw (xs @ [(p, [])]))"
  proof -
    have "take ?n (bb_buf b) = take ?n (take (length (raw ls)) (bb_buf b))" by (simp add: pre raw min_def)
    with b(2) have "take ?n (bb_buf b) = raw (xs @ [(p, [])])" by (simp add: holds_def raw pre)
    with b(2) show ?thesis by (simp add: holds_def raw pre)
  qed
  show thesis
  proof (rule that)
    show "on_base (\<lambda>base. (True, base\<lparr>bb_len := ?n\<rparr>)) s = (True, s\<lparr>cb_base := Some (b\<lparr>bb_len := ?n\<rparr>)\<rparr>)"
      by (simp add: on_base_def b)
    show "builder_rep (s\<lparr>cb_base := Some (b\<lparr>bb_len := ?n\<rparr>)\<rparr>) (butlast ls @ [(fst (last ls), [])])"
      using assms(1) h by (cases xs) (auto simp: builder_rep_def ls frames_at_append)
  qed
qed

lemma add_children_rep:
  assumes "malloc_ok malloc"
  shows "add_children malloc d ys s = (True, s') \<Longrightarrow> builder_rep s ls \<Longrightarrow> length ls = Suc d \<Longrightarrow>
    \<forall>y\<in>set ys. length y + 8 < 2 ^ 63 \<Longrightarrow> builder_rep s' (append_last (concat ys) ls)"
proof (induction ys arbitrary: s ls)
  case Nil
  have "append_last [] ls = ls" using Nil.prems(3) by (cases ls rule: rev_cases) (auto simp: append_last_def)
  with Nil show ?case by simp
next
  case (Cons y ys)
  have ne: "ls \<noteq> []" using Cons.prems(3) by auto
  obtain s1 where s1: "CBB_add_bytes malloc d y s = (True, s1)" "add_children malloc d ys s1 = (True, s')"
    using Cons.prems(1) by (auto simp: and_then_def split: prod.splits bool.splits)
  have "length y + 8 < 2 ^ 63" using Cons.prems(4) by simp
  from refinesD(1) [OF CBB_add_bytes_refines [OF assms this] TrueI Cons.prems(2) s1(1)] Cons.prems(3)
  have r1: "builder_rep s1 (append_last y ls)" by (auto simp: abs_append_last)
  from Cons.IH [OF s1(2) r1] Cons.prems(3,4) ne show ?case
    by (simp add: length_append_last append_last_append_last)
qed

lemma CBB_flush_asn1_set_of_rep:
  assumes ok: "malloc_ok malloc" and q: "qsort_ok qsort" and r: "builder_rep s ls"
    and f: "CBB_flush_asn1_set_of malloc ok' qsort d s = (True, s')"
  shows "\<exists>xs ls1 ys. abs_flush d ls = Some ls1 \<and> snd (last ls1) = concat xs \<and> mset ys = mset xs \<and>
     sorted_wrt (\<lambda>a b. compare_set_of_element a b \<le> 0) ys \<and>
     (\<forall>x\<in>set xs. \<exists>tag body. x = der_element tag body) \<and>
     builder_rep s' (butlast ls1 @ [(fst (last ls1), concat ys)])"
proof -
  obtain s1 where fl: "CBB_flush malloc d s = (True, s1)"
    using f by (auto simp: CBB_flush_asn1_set_of_def and_then_def split: prod.splits bool.splits)
  from refinesD(1) [OF CBB_flush_refines [OF ok] TrueI r fl] obtain ls1 where
    ls1: "abs_flush d ls = Some ls1" and r1: "builder_rep s1 ls1" by blast
  note d = abs_flush_length [OF ls1]
  have ne: "ls1 \<noteq> []" using d by auto
  let ?data = "snd (last ls1)"
  note data = CBB_data_rep [OF r1 d]
  obtain b where b: "cb_base s1 = Some b" "holds b (raw ls1)" using r1 by (auto simp: builder_rep_def)
  have "length ?data \<le> length (raw ls1)" using ne by (cases ls1 rule: rev_cases) (auto simp: raw_append)
  with b(2) have small: "length ?data + 8 < 2 ^ 63" by (simp add: holds_def)
  note eq = f [unfolded CBB_flush_asn1_set_of_def fl and_then_def prod.case bool.case Let_def data]
  obtain xs where xs: "set_of_children (length ?data) ?data = Some xs"
    using eq by (auto split: option.splits)
  note xs' = set_of_children_concat [OF xs] set_of_children_elements [OF xs]
  show ?thesis
  proof (cases "length xs < 2")
    case True
    with eq xs have "s1 = s'" by simp
    moreover have "sorted_wrt (\<lambda>a b. compare_set_of_element a b \<le> 0) xs"
      using True by (cases xs) auto
    moreover have "builder_rep s1 (butlast ls1 @ [(fst (last ls1), concat xs)])"
    proof -
      have "butlast ls1 @ [(fst (last ls1), concat xs)] = ls1"
        using ne xs'(1) by (metis append_butlast_last_id prod.collapse)
      with r1 show ?thesis by simp
    qed
    ultimately show ?thesis using ls1 xs' by blast
  next
    case False
    let ?ys = "qsort compare_set_of_element xs"
    obtain buf where buf: "BUF_memdup malloc ?data = Some buf"
      using eq False by (auto simp: xs split: option.splits if_splits)
    have "buf = ?data" by (rule BUF_memdup_Some [OF ok _ buf]) (use small in simp)
    note buf = buf [unfolded this]
    obtain s2 where rw: "on_base (\<lambda>base. (True, base\<lparr>bb_len := cf_offset (frame_at d s1) +
        cf_pending_len_len (frame_at d s1)\<rparr>)) s1 = (True, s2)"
      and r2: "builder_rep s2 (butlast ls1 @ [(fst (last ls1), [])])"
      using rewind_rep [OF r1 d] .
    have add: "add_children malloc d ?ys s2 = (True, s')"
      using eq False by (auto simp: xs buf rw split: if_splits)
    have ms: "mset ?ys = mset xs" and so: "sorted_wrt (\<lambda>a b. compare_set_of_element a b \<le> 0) ?ys"
      using qsort_okD [OF q set_of.comparator_axioms] by blast+
    have "length y + 8 < 2 ^ 63" if "y \<in> set ?ys" for y
    proof -
      have "y \<in> set xs" using that ms by (metis set_mset_mset)
      then have "length y \<le> length (concat xs)"
        by (simp add: length_concat member_le_sum_list)
      with xs'(1) small show ?thesis by simp
    qed
    moreover have "length (butlast ls1 @ [(fst (last ls1), [])]) = Suc d" using d by simp
    ultimately have "builder_rep s' (append_last (concat ?ys) (butlast ls1 @ [(fst (last ls1), [])]))"
      using add_children_rep [OF ok add r2] by blast
    then have "builder_rep s' (butlast ls1 @ [(fst (last ls1), concat ?ys)])"
      by (simp add: append_last_def)
    with ls1 xs' ms so show ?thesis by blast
  qed
qed

end
