(* ===== verification/Bytestring.thy ===== *)
theory Bytestring
  imports Ber_Spec Oid Set_of "HOL-Library.Code_Target_Nat"
begin

text \<open>
  The properties of the byte-string components: what sequences of builder calls produce, what the
  parser accepts, their round trips, and the conversion of BER.
\<close>

section \<open>Sequences of calls\<close>

datatype cbb_call =
    Call_u8 nat u8
  | Call_u16 nat u16
  | Call_u24 nat u32
  | Call_u32 nat u32
  | Call_bytes nat bytes
  | Call_u8_length_prefixed nat
  | Call_u16_length_prefixed nat
  | Call_u24_length_prefixed nat
  | Call_asn1 nat u32
  | Call_asn1_uint64 nat u64
  | Call_asn1_octet_string nat bytes
  | Call_asn1_bool nat int
  | Call_flush nat

fun run_call :: "allocator \<Rightarrow> cbb_call \<Rightarrow> cbb \<Rightarrow> bool \<times> cbb" where
  "run_call malloc (Call_u8 d v) = CBB_add_u8 malloc d v"
| "run_call malloc (Call_u16 d v) = CBB_add_u16 malloc d v"
| "run_call malloc (Call_u24 d v) = CBB_add_u24 malloc d v"
| "run_call malloc (Call_u32 d v) = CBB_add_u32 malloc d v"
| "run_call malloc (Call_bytes d bs) = CBB_add_bytes malloc d bs"
| "run_call malloc (Call_u8_length_prefixed d) = CBB_add_u8_length_prefixed malloc d"
| "run_call malloc (Call_u16_length_prefixed d) = CBB_add_u16_length_prefixed malloc d"
| "run_call malloc (Call_u24_length_prefixed d) = CBB_add_u24_length_prefixed malloc d"
| "run_call malloc (Call_asn1 d tag) = CBB_add_asn1 malloc d tag"
| "run_call malloc (Call_asn1_uint64 d v) = CBB_add_asn1_uint64 malloc d v"
| "run_call malloc (Call_asn1_octet_string d bs) = CBB_add_asn1_octet_string malloc d bs"
| "run_call malloc (Call_asn1_bool d v) = CBB_add_asn1_bool malloc d v"
| "run_call malloc (Call_flush d) = CBB_flush malloc d"

fun run_calls :: "allocator \<Rightarrow> cbb_call list \<Rightarrow> cbb \<Rightarrow> bool \<times> cbb" where
  "run_calls malloc [] s = (True, s)"
| "run_calls malloc (c # cs) s = and_then (run_call malloc c s) (run_calls malloc cs)"

text \<open>What each call means for the abstract builder.\<close>

fun abs_call :: "cbb_call \<Rightarrow> level list \<Rightarrow> level list option" where
  "abs_call (Call_u8 d v) = abs_append d [v]"
| "abs_call (Call_u16 d v) = abs_append d (be_bytes 2 (unat v))"
| "abs_call (Call_u24 d v) = (if unat v < 2 ^ 24 then abs_append d (be_bytes 3 (unat v)) else (\<lambda>_. None))"
| "abs_call (Call_u32 d v) = abs_append d (be_bytes 4 (unat v))"
| "abs_call (Call_bytes d bs) = abs_append d bs"
| "abs_call (Call_u8_length_prefixed d) = abs_open d (Length_prefix 1)"
| "abs_call (Call_u16_length_prefixed d) = abs_open d (Length_prefix 2)"
| "abs_call (Call_u24_length_prefixed d) = abs_open d (Length_prefix 3)"
| "abs_call (Call_asn1 d tag) = abs_add_asn1 d tag"
| "abs_call (Call_asn1_uint64 d v) = abs_append d (der_element CBS_ASN1_INTEGER (der_uint (unat v)))"
| "abs_call (Call_asn1_octet_string d bs) =
     (\<lambda>ls. Option.bind (abs_add_asn1 d CBS_ASN1_OCTETSTRING ls)
        (\<lambda>ls. Option.bind (abs_append (Suc d) bs ls) (abs_flush d)))"
| "abs_call (Call_asn1_bool d v) =
     abs_append d (der_element CBS_ASN1_BOOLEAN [if v \<noteq> 0 then 0xff else 0])"
| "abs_call (Call_flush d) = abs_flush d"

fun abs_calls :: "cbb_call list \<Rightarrow> level list \<Rightarrow> level list option" where
  "abs_calls [] ls = Some ls"
| "abs_calls (c # cs) ls = Option.bind (abs_call c ls) (abs_calls cs)"

text \<open>The bytes a sequence of calls stands for, all open children closed at the end.\<close>

definition abs_build :: "cbb_call list \<Rightarrow> bytes option" where
  "abs_build cs =
     Option.bind (abs_calls cs [(Length_prefix 0, [])])
       (\<lambda>ls. map_option (\<lambda>ls. snd (hd ls)) (abs_flush 0 ls))"

text \<open>Arguments are objects in memory.\<close>

fun call_ok :: "cbb_call \<Rightarrow> bool" where
  "call_ok (Call_bytes d bs) \<longleftrightarrow> length bs < 2 ^ 62"
| "call_ok (Call_asn1_octet_string d bs) \<longleftrightarrow> length bs < 2 ^ 62"
| "call_ok _ \<longleftrightarrow> True"

lemma refines_fail: "(\<And>s s'. f s \<noteq> (True, s')) \<Longrightarrow> refines malloc P f (\<lambda>_. None)"
  by (rule refinesI) auto

lemma and_then_True: "and_then r f = (True, s') \<longleftrightarrow> (\<exists>s. r = (True, s) \<and> f s = (True, s'))"
  by (auto simp: and_then_def split: prod.splits bool.splits)

lemma CBB_add_u24_fails: "\<not> unat v < 2 ^ 24 \<Longrightarrow> CBB_add_u24 malloc d v s \<noteq> (True, s')"
  by (auto simp: CBB_add_u24_def and_then_True on_base_def cbb_buffer_add_u_def put_be_eq Let_def
      div_eq_0_iff split: option.splits prod.splits bool.splits if_splits)

lemma octet_string_refines:
  assumes "malloc_ok malloc" and "length bs < 2 ^ 62"
  shows "refines malloc (\<lambda>_. True) (CBB_add_asn1_octet_string malloc d bs)
    (abs_call (Call_asn1_octet_string d bs))"
proof -
  have "length bs + 8 < 2 ^ 63" using assms(2) by simp
  note app = refines_weaken [OF CBB_add_bytes_refines [OF assms(1) this], of "\<lambda>_. True" "Suc d"]
  have "refines malloc (\<lambda>_. True)
    (\<lambda>s. and_then (CBB_add_asn1 malloc d CBS_ASN1_OCTETSTRING s)
      (\<lambda>s. and_then (CBB_add_bytes malloc (Suc d) bs s) (CBB_flush malloc d)))
    (\<lambda>ls. Option.bind (abs_add_asn1 d CBS_ASN1_OCTETSTRING ls)
      (\<lambda>ls. Option.bind (abs_append (Suc d) bs ls) (abs_flush d)))"
    by (rule refines_and_then [OF CBB_add_asn1_refines [OF assms(1)]
          refines_and_then [OF app CBB_flush_refines [OF assms(1)]]]) simp_all
  then show ?thesis by (simp add: CBB_add_asn1_octet_string_def [abs_def])
qed

lemma run_call_refines:
  assumes "malloc_ok malloc" and "call_ok c"
  shows "refines malloc (\<lambda>_. True) (run_call malloc c) (abs_call c)"
proof (cases c)
  case (Call_u24 d v)
  then show ?thesis
    using CBB_add_u24_refines [OF assms(1)] refines_fail [OF CBB_add_u24_fails] by simp
next
  case (Call_bytes d bs)
  then have "length bs + 8 < 2 ^ 63" using assms(2) by simp
  with Call_bytes CBB_add_bytes_refines [OF assms(1)] show ?thesis by simp
next
  case (Call_asn1_octet_string d bs)
  with assms octet_string_refines show ?thesis by simp
qed (use assms(1) in \<open>simp_all add: CBB_add_u8_refines CBB_add_u16_refines CBB_add_u32_refines
    CBB_add_asn1_refines CBB_add_asn1_uint64_refines CBB_add_asn1_bool_refines CBB_flush_refines
    CBB_add_u8_length_prefixed_def [abs_def] CBB_add_u16_length_prefixed_def [abs_def]
    CBB_add_u24_length_prefixed_def [abs_def] cbb_add_length_prefixed_refines\<close>)

lemma Some_refines: "refines malloc (\<lambda>_. True) (\<lambda>s. (True, s)) Some"
  by (rule refinesI) auto

lemma run_calls_refines:
  assumes "malloc_ok malloc" and "\<forall>c\<in>set cs. call_ok c"
  shows "refines malloc (\<lambda>_. True) (run_calls malloc cs) (abs_calls cs)"
  using assms(2)
proof (induction cs)
  case Nil
  show ?case by (rule refines_cong [OF Some_refines]) simp_all
next
  case (Cons c cs)
  have "refines malloc (\<lambda>_. True) (\<lambda>s. and_then (run_call malloc c s) (run_calls malloc cs))
      (\<lambda>ls. Option.bind (abs_call c ls) (abs_calls cs))"
    by (rule refines_and_then [OF run_call_refines [OF assms(1)]]) (use Cons in simp_all)
  then show ?case by (rule refines_cong) simp_all
qed

text \<open>The outermost level never changes its kind.\<close>

lemma hd_flush: "abs_flush d ls = Some ls' \<Longrightarrow> fst (hd ls') = fst (hd ls)"
  by (cases d) (auto simp: abs_flush_def hd_append hd_conv_nth split: if_splits)

lemma hd_append': "abs_append d bs ls = Some ls' \<Longrightarrow> fst (hd ls') = fst (hd ls)"
proof -
  assume "abs_append d bs ls = Some ls'"
  then obtain ls1 where l: "abs_flush d ls = Some ls1" "ls' = append_last bs ls1"
    by (auto simp: abs_append_def bind_eq_Some_conv)
  have "ls1 \<noteq> []" using abs_flush_length [OF l(1)] by auto
  with l hd_flush [OF l(1)] show ?thesis by (simp add: fst_hd_append_last)
qed

lemma hd_open: "abs_open d p ls = Some ls' \<Longrightarrow> fst (hd ls') = fst (hd ls)"
proof -
  assume "abs_open d p ls = Some ls'"
  then obtain ls1 where l: "abs_flush d ls = Some ls1" "ls' = ls1 @ [(p, [])]"
    by (auto simp: abs_open_def bind_eq_Some_conv)
  have "ls1 \<noteq> []" using abs_flush_length [OF l(1)] by auto
  with l hd_flush [OF l(1)] show ?thesis by simp
qed

lemma hd_add_asn1: "abs_add_asn1 d tag ls = Some ls' \<Longrightarrow> fst (hd ls') = fst (hd ls)"
  by (auto simp: abs_add_asn1_def bind_eq_Some_conv dest!: hd_append' hd_open)

lemma hd_abs_call: "abs_call c ls = Some ls' \<Longrightarrow> fst (hd ls') = fst (hd ls)"
  by (cases c)
     (auto simp: bind_eq_Some_conv dest: hd_flush hd_append' hd_open hd_add_asn1 split: if_splits,
      metis hd_flush hd_append' hd_add_asn1)

lemma hd_abs_calls: "abs_calls cs ls = Some ls' \<Longrightarrow> fst (hd ls') = fst (hd ls)"
  by (induction cs arbitrary: ls) (auto simp: bind_eq_Some_conv dest: hd_abs_call)

text \<open>A concrete allocator for the witnesses.\<close>

definition zero_malloc :: allocator where
  "zero_malloc n = (if n < 2 ^ 63 then Some (replicate n 0) else None)"

lemma zero_malloc_ok: "malloc_ok zero_malloc"
  by (auto simp: malloc_ok_def zero_malloc_def split: if_splits)

text \<open>A builder on a growable buffer of eight bytes, for the witnesses.\<close>

definition buffer8 :: "bytes \<Rightarrow> nat \<Rightarrow> cbb_frame list \<Rightarrow> cbb" where
  "buffer8 bs n fs =
     \<lparr>cb_base = Some \<lparr>bb_buf = bs, bb_len = n, bb_cap = 8, bb_can_resize = True, bb_error = False\<rparr>,
      cb_children = fs\<rparr>"

lemma buffer8_init: "CBB_init zero_malloc True 8 = (True, buffer8 (replicate 8 0) 0 [])"
  by code_simp

section \<open>The properties\<close>

text \<open>C2: Whatever sequence of builder calls a client makes on whatever open children, if every
  call succeeds and the builder is finished, the buffer holds exactly the bytes the calls stand for:
  contents in order, each child preceded by its big-endian or DER length, whatever reallocations and
  moves the code did on the way.\<close>

theorem builder_calls_correct:
  assumes "malloc_ok malloc" and "CBB_init malloc ok n = (True, s0)" and "n < 2 ^ 62"
    and "\<forall>c\<in>set cs. call_ok c" and "run_calls malloc cs s0 = (True, s1)"
    and "CBB_finish malloc d outs s1 = (Some data, s2)"
  shows "abs_build cs = Some data"
proof -
  note r0 = CBB_init_rep [OF assms(1,2,3)]
  obtain ls where ls: "abs_calls cs [(Length_prefix 0, [])] = Some ls" "builder_rep s1 ls"
    using refinesD(1) [OF run_calls_refines [OF assms(1,4)] TrueI r0 assms(5)] by blast
  from CBB_finish_rep(1) [OF assms(1) ls(2) assms(6)] ls(1) show ?thesis
    by (simp add: abs_build_def)
qed

definition demo_calls :: "cbb_call list" where
  "demo_calls = [Call_asn1 0 0x20000010, Call_asn1_uint64 1 300, Call_u16_length_prefixed 1,
     Call_u8 2 7, Call_asn1_bool 1 1]"

text \<open>C25: On a fixed buffer the calls do succeed whenever the finished bytes fit into it; no
  allocation is made.\<close>

theorem builder_fixed_total:
  assumes "malloc_ok malloc" and "length buf + 8 < 2 ^ 63" and "\<forall>c\<in>set cs. call_ok c"
    and "abs_build cs = Some data" and "length data \<le> length buf"
  shows "\<exists>s0 s1. CBB_init_fixed True buf (length buf) = (True, s0) \<and>
    run_calls malloc cs s0 = (True, s1) \<and> fst (CBB_finish malloc 0 True s1) = Some data"
proof -
  obtain s0 where s0: "CBB_init_fixed True buf (length buf) = (True, s0)"
    and r0: "builder_rep s0 [(Length_prefix 0, [])]" and m0: "has_room malloc s0 (length buf)"
    using CBB_init_fixed_rep [OF assms(2)] .
  obtain ls ls' where ls: "abs_calls cs [(Length_prefix 0, [])] = Some ls" "abs_flush 0 ls = Some ls'"
    and data: "data = snd (hd ls')"
    using assms(4) by (auto simp: abs_build_def bind_eq_Some_conv)
  note R = run_calls_refines [OF assms(1,3)]
  have one: "length ls' = Suc 0" by (rule abs_flush_length [OF ls(2)])
  have le: "length (raw ls) \<le> length (raw ls')"
    using refinesD(3) [OF CBB_flush_refines [OF assms(1)] TrueI ls(2)] .
  have "fst (hd ls') = Length_prefix 0" using hd_flush [OF ls(2)] hd_abs_calls [OF ls(1)] by simp
  with one data have ls': "ls' = [(Length_prefix 0, data)]" by (cases ls') auto
  with le assms(5) have "length (raw ls) \<le> length buf" by simp
  from refinesD(2) [OF R TrueI r0 m0 ls(1) this] obtain s1 where
    s1: "run_calls malloc cs s0 = (True, s1)" "builder_rep s1 ls" "has_room malloc s1 (length buf)" by blast
  from CBB_finish_total [OF assms(1) s1(2,3) ls(2) [unfolded ls'] assms(5)] s0 s1(1)
  show ?thesis by blast
qed


lemma demo_build: "abs_build demo_calls = Some [0x30, 10, 2, 2, 1, 44, 0, 1, 7, 1, 1, 0xff]"
  by code_simp

lemma demo_ok: "\<forall>c\<in>set demo_calls. call_ok c"
  by (simp add: demo_calls_def)

lemma builder_fixed_total_witness:
  "\<exists>s0 s1. CBB_init_fixed True (replicate 20 0) 20 = (True, s0) \<and>
    run_calls zero_malloc demo_calls s0 = (True, s1) \<and>
    fst (CBB_finish zero_malloc 0 True s1) = Some [0x30, 10, 2, 2, 1, 44, 0, 1, 7, 1, 1, 0xff]"
  using builder_fixed_total [OF zero_malloc_ok _ demo_ok demo_build, of "replicate 20 0"] by simp

lemma builder_calls_correct_witness:
  "\<exists>s0 s1 s2. CBB_init zero_malloc True 4 = (True, s0) \<and> run_calls zero_malloc demo_calls s0 = (True, s1) \<and>
     CBB_finish zero_malloc 0 True s1 = (abs_build demo_calls, s2) \<and> abs_build demo_calls \<noteq> None"
proof -
  define s0 where "s0 = snd (CBB_init zero_malloc True 4)"
  define s1 where "s1 = snd (run_calls zero_malloc demo_calls s0)"
  have i: "CBB_init zero_malloc True 4 = (True, s0)"
    by (simp add: s0_def CBB_init_def OPENSSL_malloc_def zero_malloc_def cbb_init_def)
  have r: "fst (run_calls zero_malloc demo_calls (snd (CBB_init zero_malloc True 4))) \<and>
      fst (CBB_finish zero_malloc 0 True
        (snd (run_calls zero_malloc demo_calls (snd (CBB_init zero_malloc True 4))))) \<noteq> None"
    by code_simp
  then have c: "run_calls zero_malloc demo_calls s0 = (True, s1)"
    by (simp add: s0_def s1_def prod_eq_iff)
  obtain data s2 where f: "CBB_finish zero_malloc 0 True s1 = (Some data, s2)"
    using r by (auto simp: s0_def s1_def prod_eq_iff)
  from builder_calls_correct [OF zero_malloc_ok i _ demo_ok c f] i c f show ?thesis by simp
qed


text \<open>C15: The DER parser accepts exactly the DER encodings. \<open>CBS_get_any_asn1_element\<close> succeeds with
  an element, its tag and its header length if and only if the input starts with the one canonical
  encoding of that tag and some contents of less than \<open>2 ^ 32\<close> bytes, and it stops right behind it:
  no other spelling of a tag or of a length is accepted, and no valid one is refused. Tags of several bytes, for tag numbers
  from 31 to the largest a tag of the library can hold, are among those accepted, although a comment in the parser says
  that it does not support them.\<close>

theorem der_element_parsed_iff:
  "CBS_get_any_asn1_element s = (Some (out, tag, header_len), s') \<longleftrightarrow>
     (\<exists>body. length body < 2 ^ 32 \<and> out = der_element tag body \<and>
        header_len = length (der_header tag (length body)) \<and> s = out @ s')"
  by (rule get_any_iff)

text \<open>Unsigned integers. The parser returns \<open>v\<close> on exactly the minimal DER encoding of \<open>v\<close>, so
  negative numbers, redundant leading zeros and values of more than 64 bits are all refused.\<close>

theorem uint64_parsed_iff:
  "CBS_get_asn1_uint64 s = (Some v, s') \<longleftrightarrow>
     s = der_element CBS_ASN1_INTEGER (der_uint (unat v)) @ s'"
  by (rule CBS_get_asn1_uint64_iff)

text \<open>What the builder writes for an integer is read back as that integer, in front of any
  following data.\<close>

theorem uint64_roundtrip:
  assumes "malloc_ok malloc" and "CBB_init malloc ok n = (True, s0)" and "n < 2 ^ 62"
    and "CBB_add_asn1_uint64 malloc 0 v s0 = (True, s1)"
    and "CBB_finish malloc 0 outs s1 = (Some der, s2)"
  shows "CBS_get_asn1_uint64 (der @ rest) = (Some v, rest)"
proof -
  note r0 = CBB_init_rep [OF assms(1,2,3)]
  from refinesD(1) [OF CBB_add_asn1_uint64_refines [OF assms(1)] TrueI r0 assms(4)] obtain ls where
    ls: "abs_append 0 (der_element CBS_ASN1_INTEGER (der_uint (unat v))) [(Length_prefix 0, [])] = Some ls"
      "builder_rep s1 ls" by blast
  from CBB_finish_rep(1) [OF assms(1) ls(2) assms(5)] ls(1)
  have "der = der_element CBS_ASN1_INTEGER (der_uint (unat v))"
    by (auto simp: abs_append_def abs_flush_def append_last_def)
  then show ?thesis by (simp add: CBS_get_asn1_uint64_iff)
qed

text \<open>Length prefixes. Behind a big-endian length of \<open>n\<close> bytes the parser returns exactly the
  contents, for every contents whose length the prefix can hold.\<close>

theorem length_prefixed_roundtrip:
  assumes "seal (Length_prefix n, bs) = Some enc" and "n \<le> 4"
  shows "cbs_get_length_prefixed (enc @ rest) n = (Some bs, rest)"
proof -
  have l: "length bs < 256 ^ n" and enc: "enc = be_bytes n (length bs) @ bs"
    using assms(1) by (auto split: if_splits)
  have "length (be_bytes n (length bs)) \<le> 4" using assms(2) by simp
  then obtain w where "cbs_get_u (be_bytes n (length bs) @ bs @ rest) (length (be_bytes n (length bs))) =
      (Some w, bs @ rest)" "unat w = be_val (be_bytes n (length bs))"
    by (rule cbs_get_u_append)
  with l show ?thesis
    by (simp add: enc cbs_get_length_prefixed_def CBS_get_bytes_def be_val_be_bytes)
qed

text \<open>C16: Conversion of BER. When \<open>CBS_asn1_ber_to_der\<close> converts, it has read all of the input (not only its first element, as
  the header of the library says), and its output contains no indefinite-length element and no constructed string at any
  level; running the search for BER on it again finds nothing.\<close>

theorem ber_to_der_normal:
  assumes "malloc_ok malloc" and "length s < 2 ^ 62"
    and "CBS_asn1_ber_to_der malloc ok s = (Some (Some der), s')"
  shows "der_normal 0 der \<and> cbs_find_ber der 0 = Some False \<and> s' = []"
proof -
  note c = CBS_asn1_ber_to_der_Some [OF assms]
  have n: "der_normal 0 der" by (rule conv_normal [OF c])
  then show ?thesis using conv_end [OF c] find_ber_normal [OF n]
    by (simp add: cbs_find_ber_def kMaxDepth_def)
qed

lemma ber_to_der_normal_witness:
  "CBS_asn1_ber_to_der zero_malloc True [0x24, 0x80, 4, 1, 7, 0, 0] = (Some (Some [4, 1, 7]), []) \<and>
   cbs_find_ber [4, 1, 7] 0 = Some False"
proof -
  have e: "CBS_asn1_ber_to_der zero_malloc True [0x24, 0x80, 4, 1, 7, 0, 0] = (Some (Some [4, 1, 7]), [])"
    by code_simp
  have "length ([0x24, 0x80, 4, 1, 7, 0, 0] :: bytes) < 2 ^ 62" by simp
  from ber_to_der_normal [OF zero_malloc_ok this e] e show ?thesis by blast
qed

text \<open>C36: The conversion returns. The bound of one more than the length of the input on nested
  iterations is never used up, whatever the input, the builder and the allocator do.\<close>

theorem ber_conversion_returns:
  "\<exists>r s' out'. cbs_convert_ber malloc s d out string_tag looking_for_eoc depth = Some (r, s', out') \<and>
     length s' \<le> length s"
  using convert_ber_fuel [of s "Suc (length s)" malloc d out string_tag looking_for_eoc depth]
  by (auto simp: cbs_convert_ber_def)

text \<open>The search for BER forgets what it has found. A sequence whose first child holds a
  constructed string is reported free of BER when a later child is constructed and clean: the nested
  call resets \<open>*ber_found\<close>. The same sequence without the second child is reported.\<close>

theorem find_ber_forgets:
  "cbs_find_ber [0x30, 8, 0x30, 4, 0x24, 2, 4, 0, 0x30, 0] 0 = Some False \<and>
   cbs_find_ber [0x30, 6, 0x30, 4, 0x24, 2, 4, 0] 0 = Some True"
  by code_simp



text \<open>C34: DER SET OF. A successful \<open>CBB_flush_asn1_set_of\<close> leaves in the open child the same
  elements, each as often as before, in ascending order of their encodings; the children around it are
  untouched. \<open>qsort\<close> is the C library's, with what its documentation promises.\<close>

theorem set_of_sorted:
  assumes "malloc_ok malloc" and "qsort_ok qsort" and "builder_rep s ls"
    and "CBB_flush_asn1_set_of malloc ok qsort d s = (True, s')"
  shows "\<exists>xs ls1 ys. abs_flush d ls = Some ls1 \<and> snd (last ls1) = concat xs \<and> mset ys = mset xs \<and>
     sorted_wrt (\<lambda>a b. compare_set_of_element a b \<le> 0) ys \<and>
     (\<forall>x\<in>set xs. \<exists>tag body. x = der_element tag body) \<and>
     builder_rep s' (butlast ls1 @ [(fst (last ls1), concat ys)])"
  by (rule CBB_flush_asn1_set_of_rep [OF assms])

lemma set_of_sorted_witness:
  "\<exists>ls s xs ls1 ys. builder_rep s ls \<and> CBB_flush_asn1_set_of zero_malloc True sort_by 1 s =
      (True, buffer8 [49, 0, 2, 1, 5, 4, 1, 9] 8 [\<lparr>cf_offset = 1, cf_pending_len_len = 1, cf_pending_is_asn1 = True\<rparr>]) \<and>
     abs_flush 1 ls = Some ls1 \<and> snd (last ls1) = concat xs \<and> mset ys = mset xs \<and>
     sorted_wrt (\<lambda>a b. compare_set_of_element a b \<le> 0) ys \<and>
     builder_rep (buffer8 [49, 0, 2, 1, 5, 4, 1, 9] 8 [\<lparr>cf_offset = 1, cf_pending_len_len = 1, cf_pending_is_asn1 = True\<rparr>])
       (butlast ls1 @ [(fst (last ls1), concat ys)])"
proof -
  let ?f = "\<lparr>cf_offset = 1, cf_pending_len_len = 1, cf_pending_is_asn1 = True\<rparr>"
  have "length ([4, 1, 9, 2, 1, 5] :: bytes) + 8 < 2 ^ 63" by simp
  note app = refines_weaken [OF CBB_add_bytes_refines [OF zero_malloc_ok this], of "\<lambda>_. True" 1]
  have a: "CBB_add_asn1 zero_malloc 0 0x20000011 (buffer8 (replicate 8 0) 0 []) =
      (True, buffer8 [49, 0, 0, 0, 0, 0, 0, 0] 2 [?f])" by code_simp
  have b: "CBB_add_bytes zero_malloc 1 [4, 1, 9, 2, 1, 5] (buffer8 [49, 0, 0, 0, 0, 0, 0, 0] 2 [?f]) =
      (True, buffer8 [49, 0, 4, 1, 9, 2, 1, 5] 8 [?f])" by code_simp
  have fl: "CBB_flush_asn1_set_of zero_malloc True sort_by 1 (buffer8 [49, 0, 4, 1, 9, 2, 1, 5] 8 [?f]) =
      (True, buffer8 [49, 0, 2, 1, 5, 4, 1, 9] 8 [?f])" by code_simp
  have r0: "builder_rep (buffer8 (replicate 8 0) 0 []) [(Length_prefix 0, [])]"
    by (rule CBB_init_rep [OF zero_malloc_ok buffer8_init]) simp
  obtain ls1 where r1: "builder_rep (buffer8 [49, 0, 0, 0, 0, 0, 0, 0] 2 [?f]) ls1"
    using refinesD(1) [OF CBB_add_asn1_refines [OF zero_malloc_ok] TrueI r0 a] by blast
  obtain ls where r2: "builder_rep (buffer8 [49, 0, 4, 1, 9, 2, 1, 5] 8 [?f]) ls"
    using refinesD(1) [OF app TrueI r1 b] by blast
  from set_of_sorted [OF zero_malloc_ok sort_by_ok r2 fl] r2 fl show ?thesis by blast
qed

lemma CBB_flush_error:
  "cb_base s = Some base \<Longrightarrow> bb_error base \<Longrightarrow> CBB_flush malloc d s = (False, s)"
  using append_take_drop_id [of d "cb_children s"]
  by (cases "drop d (cb_children s)") (simp_all add: CBB_flush_def)

text \<open>C39: Errors stick. Once the buffer has its error flag set, the operations that add to the builder or to any of its
  children, \<open>CBB_flush\<close> and \<open>CBB_flush_asn1_set_of\<close> among them, fail and change nothing, and \<open>CBB_finish\<close> hands out no data.
  The two operations that do not test the flag, \<open>CBB_did_write\<close>, which may succeed and change the length, and
  \<open>CBB_discard_child\<close>, leave the flag set.\<close>

theorem builder_error_sticky:
  assumes "cb_base s = Some base" and "bb_error base"
  shows "run_call malloc c s = (False, s) \<and> CBB_add_space malloc d n s = (None, s) \<and>
    CBB_reserve malloc d n s = (None, s) \<and> CBB_add_asn1_oid_from_text malloc d tx s = (False, s) \<and>
    CBB_flush_asn1_set_of malloc ok qsort d s = (False, s) \<and> CBB_finish malloc d outs s = (None, s) \<and>
    (\<exists>b. cb_base (snd (CBB_did_write d n s)) = Some b \<and> bb_error b) \<and>
    (\<exists>b. cb_base (CBB_discard_child d s) = Some b \<and> bb_error b)"
proof -
  note e = CBB_flush_error [OF assms]
  have "run_call malloc c s = (False, s)"
    by (cases c) (simp_all add: e and_then_def CBB_add_u8_def CBB_add_u16_def CBB_add_u24_def
      CBB_add_u32_def CBB_add_bytes_def CBB_add_u8_length_prefixed_def
      CBB_add_u16_length_prefixed_def CBB_add_u24_length_prefixed_def cbb_add_length_prefixed_def
      CBB_add_asn1_def CBB_add_asn1_uint64_def CBB_add_asn1_octet_string_def CBB_add_asn1_bool_def)
  moreover have "CBB_finish malloc d outs s = (None, s)" by (simp add: CBB_finish_def e)
  moreover have "CBB_add_space malloc d n s = (None, s)" "CBB_reserve malloc d n s = (None, s)"
    "CBB_add_asn1_oid_from_text malloc d tx s = (False, s)" "CBB_flush_asn1_set_of malloc ok qsort d s = (False, s)"
    by (simp_all add: CBB_add_space_def CBB_reserve_def CBB_add_asn1_oid_from_text_def
        CBB_flush_asn1_set_of_def and_then_def e)
  moreover have "\<exists>b. cb_base (snd (CBB_did_write d n s)) = Some b \<and> bb_error b"
    "\<exists>b. cb_base (CBB_discard_child d s) = Some b \<and> bb_error b"
    using assms by (simp_all add: CBB_did_write_def on_base_def CBB_discard_child_def Let_def)
  ultimately show ?thesis by blast
qed

lemma builder_error_sticky_witness:
  "\<exists>s. CBB_add_u24 zero_malloc 0 0x1000000 (buffer8 (replicate 8 0) 0 []) = (False, s) \<and>
     run_call zero_malloc (Call_u8 0 7) s = (False, s) \<and> CBB_finish zero_malloc 0 True s = (None, s)"
proof -
  let ?s = "(buffer8 [0, 0, 0, 0, 0, 0, 0, 0] 3 [])\<lparr>cb_base := Some \<lparr>bb_buf = replicate 8 0, bb_len = 3,
    bb_cap = 8, bb_can_resize = True, bb_error = True\<rparr>\<rparr>"
  have a: "CBB_add_u24 zero_malloc 0 0x1000000 (buffer8 (replicate 8 0) 0 []) = (False, ?s)"
    by code_simp
  have e: "cb_base ?s = Some \<lparr>bb_buf = replicate 8 0, bb_len = 3, bb_cap = 8, bb_can_resize = True,
    bb_error = True\<rparr>" "bb_error \<lparr>bb_buf = replicate 8 0, bb_len = 3, bb_cap = 8, bb_can_resize = True,
    bb_error = True\<rparr>" by simp_all
  from builder_error_sticky [OF e, where malloc = zero_malloc and c = "Call_u8 0 7" and d = 0 and outs = True] a show ?thesis by blast
qed

end
