(* ===== verification/Stack.thy ===== *)
theory Stack
  imports Sort
begin

text \<open>
  \<open>crypto/stack/stack.c\<close>: the growable array of pointers.

  A pointer is its address, a null pointer is \<open>0\<close>; so is a pointer to a comparison function, and
  \<open>code\<close> says what the function at an address computes on the objects two pointers lead to. The
  array is the list of the \<open>num_alloc\<close> words it holds, those behind \<open>num\<close> included. A \<open>_STACK *\<close>
  argument that may be null is an option. The callbacks of \<open>sk_pop_free\<close> and \<open>sk_deep_copy\<close> are
  parameters that act on an arbitrary state.
\<close>

section \<open>State\<close>

type_synonym ptr = nat
type_synonym cmp_code = "ptr \<Rightarrow> ptr \<Rightarrow> ptr \<Rightarrow> int"

record stack =
  st_num :: nat
  st_data :: "ptr list"
  st_sorted :: bool
  st_num_alloc :: nat
  st_comp :: ptr

abbreviation sizeof_STACK :: nat where "sizeof_STACK \<equiv> 40"
abbreviation sizeof_ptr :: nat where "sizeof_ptr \<equiv> 8"
abbreviation kMinSize :: nat where "kMinSize \<equiv> 4"

text \<open>Reallocation of an array of pointers: the words the new block holds behind the copied ones
  are arbitrary.\<close>

definition words_of :: "bytes \<Rightarrow> ptr list" where
  "words_of b = map (\<lambda>i. be_val (rev (take 8 (drop (8 * i) b)))) [0..<length b div 8]"

definition realloc_ptrs :: "allocator \<Rightarrow> ptr list \<Rightarrow> nat \<Rightarrow> ptr list option" where
  "realloc_ptrs malloc old alloc_size =
     (case OPENSSL_malloc malloc alloc_size of
        None \<Rightarrow> None
      | Some ret \<Rightarrow>
          (let to_copy = (if length old < alloc_size div sizeof_ptr then length old
                          else alloc_size div sizeof_ptr)
           in Some (take to_copy old @ drop to_copy (words_of ret))))"

section \<open>Operations\<close>

definition sk_new :: "allocator \<Rightarrow> ptr \<Rightarrow> stack option" where
  "sk_new malloc cmp =
     (case OPENSSL_malloc malloc sizeof_STACK of
        None \<Rightarrow> None
      | Some _ \<Rightarrow>
          (case OPENSSL_malloc malloc (sizeof_ptr * kMinSize) of
             None \<Rightarrow> None
           | Some _ \<Rightarrow>
               Some \<lparr>st_num = 0, st_data = replicate kMinSize 0, st_sorted = False,
                     st_num_alloc = kMinSize, st_comp = cmp\<rparr>))"

definition sk_new_null :: "allocator \<Rightarrow> stack option" where
  "sk_new_null malloc = sk_new malloc 0"

definition sk_num :: "stack option \<Rightarrow> nat" where
  "sk_num sk = (case sk of None \<Rightarrow> 0 | Some s \<Rightarrow> st_num s)"

definition sk_zero :: "stack option \<Rightarrow> stack option" where
  "sk_zero sk =
     (case sk of None \<Rightarrow> None
      | Some s \<Rightarrow>
          if st_num s = 0 then Some s
          else Some (s\<lparr>st_data := replicate (st_num s) 0 @ drop (st_num s) (st_data s),
                       st_num := 0, st_sorted := False\<rparr>))"

definition sk_value :: "stack option \<Rightarrow> nat \<Rightarrow> ptr" where
  "sk_value sk i =
     (case sk of None \<Rightarrow> 0 | Some s \<Rightarrow> if st_num s \<le> i then 0 else st_data s ! i)"

definition sk_set :: "stack option \<Rightarrow> nat \<Rightarrow> ptr \<Rightarrow> ptr \<times> stack option" where
  "sk_set sk i v =
     (case sk of None \<Rightarrow> (0, None)
      | Some s \<Rightarrow>
          if st_num s \<le> i then (0, Some s)
          else (v, Some (s\<lparr>st_data := (st_data s)[i := v]\<rparr>)))"

definition sk_pop_free :: "(ptr \<Rightarrow> 'w \<Rightarrow> 'w) \<Rightarrow> stack option \<Rightarrow> 'w \<Rightarrow> 'w" where
  "sk_pop_free func sk w =
     (case sk of None \<Rightarrow> w
      | Some s \<Rightarrow>
          foldl (\<lambda>w i. if st_data s ! i \<noteq> 0 then func (st_data s ! i) w else w) w [0..<st_num s])"

text \<open>The growth of \<open>sk_insert\<close>: double, or else add one, or else fail.\<close>

definition sk_grown_alloc :: "nat \<Rightarrow> (nat \<times> nat) option" where
  "sk_grown_alloc num_alloc =
     (let new_alloc = mul_size num_alloc 2;
          alloc_size = mul_size new_alloc sizeof_ptr;
          (new_alloc, alloc_size) =
            (if new_alloc < num_alloc \<or> alloc_size div sizeof_ptr \<noteq> new_alloc
             then (add_size num_alloc 1, mul_size (add_size num_alloc 1) sizeof_ptr)
             else (new_alloc, alloc_size))
      in if new_alloc < num_alloc \<or> alloc_size div sizeof_ptr \<noteq> new_alloc then None
         else Some (new_alloc, alloc_size))"

definition sk_reserve :: "allocator \<Rightarrow> stack \<Rightarrow> stack option" where
  "sk_reserve malloc s =
     (if st_num_alloc s \<le> add_size (st_num s) 1 then
        (case sk_grown_alloc (st_num_alloc s) of
           None \<Rightarrow> None
         | Some (new_alloc, alloc_size) \<Rightarrow>
             (case realloc_ptrs malloc (st_data s) alloc_size of
                None \<Rightarrow> None
              | Some data \<Rightarrow> Some (s\<lparr>st_data := data, st_num_alloc := new_alloc\<rparr>)))
      else Some s)"

definition sk_insert :: "allocator \<Rightarrow> stack option \<Rightarrow> ptr \<Rightarrow> nat \<Rightarrow> nat \<times> stack option" where
  "sk_insert malloc sk p at =
     (case sk of None \<Rightarrow> (0, None)
      | Some s0 \<Rightarrow>
          (case sk_reserve malloc s0 of
             None \<Rightarrow> (0, Some s0)
           | Some s \<Rightarrow>
               (let data =
                  (if st_num s \<le> at then (st_data s)[st_num s := p]
                   else (take (at + 1) (st_data s) @ take (st_num s - at) (drop at (st_data s)) @
                         drop (st_num s + 1) (st_data s))[at := p])
                in (add_size (st_num s) 1,
                    Some (s\<lparr>st_data := data, st_num := add_size (st_num s) 1, st_sorted := False\<rparr>)))))"

definition sk_delete :: "stack option \<Rightarrow> nat \<Rightarrow> ptr \<times> stack option" where
  "sk_delete sk at =
     (case sk of None \<Rightarrow> (0, None)
      | Some s \<Rightarrow>
          if st_num s \<le> at then (0, Some s)
          else
            (let data = (if at \<noteq> st_num s - 1 then
                           take at (st_data s) @ take (st_num s - at - 1) (drop (at + 1) (st_data s)) @
                           drop (st_num s - 1) (st_data s)
                         else st_data s)
             in (st_data s ! at, Some (s\<lparr>st_data := data, st_num := st_num s - 1\<rparr>))))"

fun index_from :: "ptr \<Rightarrow> ptr list \<Rightarrow> nat \<Rightarrow> nat option" where
  "index_from p [] i = None"
| "index_from p (x # xs) i = (if x = p then Some i else index_from p xs (Suc i))"

definition sk_delete_ptr :: "stack option \<Rightarrow> ptr \<Rightarrow> ptr \<times> stack option" where
  "sk_delete_ptr sk p =
     (case sk of None \<Rightarrow> (0, None)
      | Some s \<Rightarrow>
          (case index_from p (take (st_num s) (st_data s)) 0 of
             None \<Rightarrow> (0, Some s)
           | Some i \<Rightarrow> sk_delete (Some s) i))"

definition sk_shift :: "stack option \<Rightarrow> ptr \<times> stack option" where
  "sk_shift sk =
     (case sk of None \<Rightarrow> (0, None)
      | Some s \<Rightarrow> if st_num s = 0 then (0, Some s) else sk_delete (Some s) 0)"

definition sk_push :: "allocator \<Rightarrow> stack option \<Rightarrow> ptr \<Rightarrow> nat \<times> stack option" where
  "sk_push malloc sk p = sk_insert malloc sk p (sk_num sk)"

definition sk_pop :: "stack option \<Rightarrow> ptr \<times> stack option" where
  "sk_pop sk =
     (case sk of None \<Rightarrow> (0, None)
      | Some s \<Rightarrow> if st_num s = 0 then (0, Some s) else sk_delete (Some s) (st_num s - 1))"

definition sk_dup :: "allocator \<Rightarrow> stack option \<Rightarrow> stack option" where
  "sk_dup malloc sk =
     (case sk of None \<Rightarrow> None
      | Some s \<Rightarrow>
          (case sk_new malloc (st_comp s) of
             None \<Rightarrow> None
           | Some ret \<Rightarrow>
               (case realloc_ptrs malloc (st_data ret) (mul_size sizeof_ptr (st_num_alloc s)) of
                  None \<Rightarrow> None
                | Some data \<Rightarrow>
                    Some \<lparr>st_num = st_num s,
                          st_data = take (st_num s) (st_data s) @ drop (st_num s) data,
                          st_sorted = st_sorted s, st_num_alloc = st_num_alloc s,
                          st_comp = st_comp s\<rparr>)))"

definition sk_sort :: "cmp_code \<Rightarrow> ((ptr \<Rightarrow> ptr \<Rightarrow> int) \<Rightarrow> ptr list \<Rightarrow> ptr list) \<Rightarrow>
    stack option \<Rightarrow> stack option" where
  "sk_sort code qsort sk =
     (case sk of None \<Rightarrow> None
      | Some s \<Rightarrow>
          if st_comp s = 0 \<or> st_sorted s then Some s
          else Some (s\<lparr>st_data := qsort (code (st_comp s)) (take (st_num s) (st_data s)) @
                                 drop (st_num s) (st_data s),
                       st_sorted := True\<rparr>))"

definition sk_is_sorted :: "stack option \<Rightarrow> bool" where
  "sk_is_sorted sk = (case sk of None \<Rightarrow> True | Some s \<Rightarrow> st_sorted s)"

definition sk_set_cmp_func :: "stack \<Rightarrow> ptr \<Rightarrow> ptr \<times> stack" where
  "sk_set_cmp_func s cmp =
     (let s1 = (if st_comp s \<noteq> cmp then s\<lparr>st_sorted := False\<rparr> else s)
      in (st_comp s, s1\<lparr>st_comp := cmp\<rparr>))"

text \<open>The first of the elements equal to the one that \<open>bsearch\<close> found.\<close>

fun sk_first_equal :: "(ptr \<Rightarrow> ptr \<Rightarrow> int) \<Rightarrow> ptr \<Rightarrow> ptr list \<Rightarrow> nat \<Rightarrow> nat" where
  "sk_first_equal cmp p data 0 = 0"
| "sk_first_equal cmp p data (Suc i) =
     (if cmp p (data ! i) = 0 then sk_first_equal cmp p data i else Suc i)"

definition sk_find :: "cmp_code \<Rightarrow> ((ptr \<Rightarrow> ptr \<Rightarrow> int) \<Rightarrow> ptr list \<Rightarrow> ptr list) \<Rightarrow>
    ((ptr \<Rightarrow> ptr \<Rightarrow> int) \<Rightarrow> ptr \<Rightarrow> ptr list \<Rightarrow> nat option) \<Rightarrow>
    stack option \<Rightarrow> ptr \<Rightarrow> nat option \<times> stack option" where
  "sk_find code qsort bsearch sk p =
     (case sk of None \<Rightarrow> (None, None)
      | Some s \<Rightarrow>
          if st_comp s = 0 then (index_from p (take (st_num s) (st_data s)) 0, Some s)
          else if p = 0 then (None, Some s)
          else
            (case sk_sort code qsort (Some s) of
               None \<Rightarrow> (None, None)
             | Some s1 \<Rightarrow>
                 (case bsearch (code (st_comp s1)) p (take (st_num s1) (st_data s1)) of
                    None \<Rightarrow> (None, Some s1)
                  | Some idx \<Rightarrow>
                      (Some (sk_first_equal (code (st_comp s1)) p (st_data s1) idx), Some s1))))"

text \<open>The loop of \<open>sk_deep_copy\<close> over the indices that are left; on a failure the copies made so far
  are freed.\<close>

fun deep_copy_loop :: "(ptr \<Rightarrow> 'w \<Rightarrow> ptr \<times> 'w) \<Rightarrow> (ptr \<Rightarrow> 'w \<Rightarrow> 'w) \<Rightarrow> nat list \<Rightarrow> stack \<Rightarrow> 'w \<Rightarrow>
    stack option \<times> 'w" where
  "deep_copy_loop copy_func free_func [] ret w = (Some ret, w)"
| "deep_copy_loop copy_func free_func (i # is) ret w =
     (if st_data ret ! i = 0 then deep_copy_loop copy_func free_func is ret w
      else
        (case copy_func (st_data ret ! i) w of
           (c, w1) \<Rightarrow>
             if c = 0 then
               (None, foldl (\<lambda>w j. if st_data ret ! j \<noteq> 0 then free_func (st_data ret ! j) w else w)
                        w1 [0..<i])
             else deep_copy_loop copy_func free_func is (ret\<lparr>st_data := (st_data ret)[i := c]\<rparr>) w1))"

definition sk_deep_copy :: "allocator \<Rightarrow> (ptr \<Rightarrow> 'w \<Rightarrow> ptr \<times> 'w) \<Rightarrow> (ptr \<Rightarrow> 'w \<Rightarrow> 'w) \<Rightarrow>
    stack option \<Rightarrow> 'w \<Rightarrow> stack option \<times> 'w" where
  "sk_deep_copy malloc copy_func free_func sk w =
     (case sk_dup malloc sk of
        None \<Rightarrow> (None, w)
      | Some ret \<Rightarrow> deep_copy_loop copy_func free_func [0..<st_num ret] ret w)"

section \<open>The invariant and the sequence a stack holds\<close>

definition stack_wf :: "stack \<Rightarrow> bool" where
  "stack_wf s \<longleftrightarrow> length (st_data s) = st_num_alloc s \<and> st_num s < st_num_alloc s \<and>
     kMinSize \<le> st_num_alloc s \<and> sizeof_ptr * st_num_alloc s < 2 ^ 63"

definition elems :: "stack \<Rightarrow> ptr list" where
  "elems s = take (st_num s) (st_data s)"

lemma length_elems [simp]: "stack_wf s \<Longrightarrow> length (elems s) = st_num s"
  by (simp add: stack_wf_def elems_def)

lemma elems_nth [simp]: "stack_wf s \<Longrightarrow> i < st_num s \<Longrightarrow> elems s ! i = st_data s ! i"
  by (simp add: elems_def)

lemma length_words_of [simp]: "length (words_of b) = length b div 8"
  by (simp add: words_of_def)

lemma realloc_ptrs_Some:
  assumes "malloc_ok malloc" and "realloc_ptrs malloc old (8 * n) = Some new"
    and "8 * n + 8 < 2 ^ 64"
  shows "length new = n" and "take (length old) new = take n old" and "8 * n + 8 < 2 ^ 63"
proof -
  obtain ret where r: "OPENSSL_malloc malloc (8 * n) = Some ret"
    using assms(2) by (auto simp: realloc_ptrs_def split: option.splits)
  note l = OPENSSL_malloc_length [OF assms(1) r assms(3)]
  show "length new = n" and "take (length old) new = take n old" and "8 * n + 8 < 2 ^ 63"
    using assms(2) r l by (auto simp: realloc_ptrs_def Let_def split: if_splits)
qed

lemma sk_grown_alloc_small:
  assumes "8 * n < 2 ^ 63"
  shows "sk_grown_alloc n = Some (2 * n, 8 * (2 * n))"
proof -
  have "mul_size n 2 = 2 * n" "mul_size (2 * n) 8 = 8 * (2 * n)" using assms by simp_all
  then show ?thesis by (simp add: sk_grown_alloc_def Let_def)
qed

lemma sk_reserve_Some:
  assumes "malloc_ok malloc" and "stack_wf s" and "sk_reserve malloc s = Some s'"
  shows "stack_wf s'" and "elems s' = elems s" and "st_num s' = st_num s"
    and "st_num s + 1 < st_num_alloc s'" and "st_comp s' = st_comp s"
proof -
  have wf: "length (st_data s) = st_num_alloc s" "st_num s < st_num_alloc s"
    "4 \<le> st_num_alloc s" "8 * st_num_alloc s < 2 ^ 63" using assms(2) by (simp_all add: stack_wf_def)
  have a: "add_size (st_num s) (Suc 0) = Suc (st_num s)" using wf by simp
  have "stack_wf s' \<and> elems s' = elems s \<and> st_num s' = st_num s \<and> st_num s + 1 < st_num_alloc s' \<and>
      st_comp s' = st_comp s"
  proof (cases "st_num_alloc s \<le> st_num s + 1")
    case True
    then obtain data where d: "realloc_ptrs malloc (st_data s) (8 * (2 * st_num_alloc s)) = Some data"
      and s': "s' = s\<lparr>st_data := data, st_num_alloc := 2 * st_num_alloc s\<rparr>"
      using assms(3) sk_grown_alloc_small [OF wf(4)] by (auto simp: sk_reserve_def a split: option.splits)
    have lt: "8 * (2 * st_num_alloc s) + 8 < 2 ^ 64" using wf by simp
    note r = realloc_ptrs_Some [OF assms(1) d lt]
    have "take (st_num s) data = take (st_num s) (take (st_num_alloc s) data)"
      using wf by simp
    also have "\<dots> = take (st_num s) (st_data s)"
      using r(2) wf by simp
    finally show ?thesis using r wf by (simp add: s' stack_wf_def elems_def)
  next
    case False
    then show ?thesis using assms(2,3) by (simp add: sk_reserve_def a)
  qed
  then show "stack_wf s'" and "elems s' = elems s" and "st_num s' = st_num s"
    and "st_num s + 1 < st_num_alloc s'" and "st_comp s' = st_comp s" by simp_all
qed

lemma sk_new_wf:
  assumes "sk_new malloc cmp = Some s"
  shows "stack_wf s" and "elems s = []" and "st_comp s = cmp" and "\<not> st_sorted s"
  using assms by (auto simp: sk_new_def stack_wf_def elems_def split: option.splits)

definition insert_at :: "nat \<Rightarrow> 'a \<Rightarrow> 'a list \<Rightarrow> 'a list" where
  "insert_at i x xs = take i xs @ x # drop i xs"

definition delete_at :: "nat \<Rightarrow> 'a list \<Rightarrow> 'a list" where
  "delete_at i xs = take i xs @ drop (Suc i) xs"

lemma sk_insert_elems:
  assumes "malloc_ok malloc" and "stack_wf s" and "sk_insert malloc (Some s) p at = (Suc n, sk')"
  shows "\<exists>s'. sk' = Some s' \<and> stack_wf s' \<and> elems s' = insert_at at p (elems s) \<and>
    Suc n = Suc (st_num s) \<and> \<not> st_sorted s' \<and> st_comp s' = st_comp s"
proof -
  obtain s1 where r: "sk_reserve malloc s = Some s1"
    using assms(3) by (auto simp: sk_insert_def split: option.splits)
  note R = sk_reserve_Some [OF assms(1,2) r]
  have wf: "length (st_data s1) = st_num_alloc s1" "st_num s + 1 < st_num_alloc s1"
    "8 * st_num_alloc s1 < 2 ^ 63" "4 \<le> st_num_alloc s1" using R by (simp_all add: stack_wf_def)
  have a: "add_size (st_num s) (Suc 0) = Suc (st_num s)" using wf by simp
  define data where "data = (if st_num s \<le> at then (st_data s1)[st_num s := p]
     else (take (at + 1) (st_data s1) @ take (st_num s - at) (drop at (st_data s1)) @
           drop (st_num s + 1) (st_data s1))[at := p])"
  have sk': "n = st_num s" "sk' = Some (s1\<lparr>st_data := data, st_num := Suc (st_num s), st_sorted := False\<rparr>)"
    using assms(3) by (auto simp: sk_insert_def r R(3) a Let_def data_def)
  have d: "length data = st_num_alloc s1 \<and> take (Suc (st_num s)) data = insert_at at p (elems s1)"
  proof (cases "st_num s \<le> at")
    case True
    have "take (Suc (st_num s)) data = elems s1 @ [p]"
      using True wf by (simp add: data_def elems_def R(3) take_Suc_conv_app_nth)
    with True wf R show ?thesis by (simp add: data_def insert_at_def elems_def)
  next
    case False
    then have lt: "at < st_num s" by simp
    have "data = take at (st_data s1) @ p # take (st_num s - at) (drop at (st_data s1)) @
        drop (st_num s + 1) (st_data s1)"
      using lt wf by (simp add: data_def list_update_append take_Suc_conv_app_nth)
    then show ?thesis using lt wf
      by (simp add: insert_at_def elems_def R(3) take_Cons' drop_take min_def)
  qed
  then show ?thesis
    using wf R sk' by (simp add: stack_wf_def elems_def)
qed

lemma sk_insert_fail:
  "sk_insert malloc (Some s) p at = (0, sk') \<Longrightarrow> stack_wf s \<Longrightarrow> malloc_ok malloc \<Longrightarrow> sk' = Some s"
proof -
  assume a: "sk_insert malloc (Some s) p at = (0, sk')" and wf: "stack_wf s" and m: "malloc_ok malloc"
  show "sk' = Some s"
  proof (cases "sk_reserve malloc s")
    case None
    with a show ?thesis by (simp add: sk_insert_def)
  next
    case (Some s1)
    have "st_num s1 < 2 ^ 63" using sk_reserve_Some [OF m wf Some] by (simp add: stack_wf_def)
    with Some a show ?thesis by (simp add: sk_insert_def)
  qed
qed

lemma sk_delete_elems:
  assumes "stack_wf s" and "at < st_num s"
  shows "\<exists>s'. sk_delete (Some s) at = (elems s ! at, Some s') \<and> stack_wf s' \<and>
    elems s' = delete_at at (elems s) \<and> st_sorted s' = st_sorted s \<and> st_comp s' = st_comp s"
proof -
  have wf: "length (st_data s) = st_num_alloc s" "st_num s < st_num_alloc s"
    "4 \<le> st_num_alloc s" "8 * st_num_alloc s < 2 ^ 63" using assms(1) by (simp_all add: stack_wf_def)
  define data where "data = (if at \<noteq> st_num s - 1 then
       take at (st_data s) @ take (st_num s - at - 1) (drop (at + 1) (st_data s)) @
       drop (st_num s - 1) (st_data s) else st_data s)"
  have r: "sk_delete (Some s) at = (elems s ! at, Some (s\<lparr>st_data := data, st_num := st_num s - 1\<rparr>))"
    using assms by (simp add: sk_delete_def data_def Let_def)
  have l: "length data = st_num_alloc s" using wf assms(2) by (simp add: data_def)
  have "take (st_num s - 1) data = delete_at at (elems s)"
  proof (cases "at = st_num s - 1")
    case True
    with assms(2) wf show ?thesis by (simp add: data_def delete_at_def elems_def)
  next
    case False
    with assms(2) wf show ?thesis
      by (simp add: data_def delete_at_def elems_def drop_take)
  qed
  with r l wf show ?thesis by (auto simp: stack_wf_def elems_def)
qed

lemma index_from_None: "index_from p xs i = None \<longleftrightarrow> p \<notin> set xs"
  by (induction xs arbitrary: i) auto

lemma index_from_Some:
  "index_from p xs i = Some k \<Longrightarrow>
     i \<le> k \<and> k - i < length xs \<and> xs ! (k - i) = p \<and> (\<forall>j<k - i. xs ! j \<noteq> p)"
proof (induction xs arbitrary: i)
  case (Cons x xs)
  show ?case
  proof (cases "x = p")
    case False
    then have "index_from p xs (Suc i) = Some k" using Cons.prems by simp
    note IH = Cons.IH [OF this]
    then have "Suc i \<le> k" by blast
    then have k: "k - i = Suc (k - Suc i)" by simp
    show ?thesis unfolding k using IH False by (auto simp: less_Suc_eq_0_disj)
  qed (use Cons.prems in simp)
qed simp

lemma delete_at_remove1:
  "i < length xs \<Longrightarrow> xs ! i = p \<Longrightarrow> \<forall>j<i. xs ! j \<noteq> p \<Longrightarrow> delete_at i xs = remove1 p xs"
proof (induction xs arbitrary: i)
  case (Cons x xs)
  show ?case
  proof (cases i)
    case 0
    with Cons.prems show ?thesis by (simp add: delete_at_def)
  next
    case (Suc k)
    have "\<forall>j<k. xs ! j \<noteq> p" using Cons.prems(3) Suc by (metis Suc_less_eq nth_Cons_Suc)
    with Cons.IH [of k] Cons.prems Suc have "delete_at k xs = remove1 p xs" by simp
    moreover have "x \<noteq> p" using Cons.prems(3) Suc by (metis nth_Cons_0 zero_less_Suc)
    ultimately show ?thesis using Suc by (simp add: delete_at_def)
  qed
qed simp

section \<open>A stack is the list of its elements\<close>

datatype stack_call =
    Sk_push ptr | Sk_insert ptr nat | Sk_delete nat | Sk_delete_ptr ptr | Sk_shift | Sk_pop
  | Sk_set nat ptr | Sk_value nat | Sk_num | Sk_zero

fun run_stack :: "allocator \<Rightarrow> stack_call \<Rightarrow> stack option \<Rightarrow> nat \<times> stack option" where
  "run_stack malloc (Sk_push p) sk = sk_push malloc sk p"
| "run_stack malloc (Sk_insert p i) sk = sk_insert malloc sk p i"
| "run_stack malloc (Sk_delete i) sk = sk_delete sk i"
| "run_stack malloc (Sk_delete_ptr p) sk = sk_delete_ptr sk p"
| "run_stack malloc Sk_shift sk = sk_shift sk"
| "run_stack malloc Sk_pop sk = sk_pop sk"
| "run_stack malloc (Sk_set i p) sk = sk_set sk i p"
| "run_stack malloc (Sk_value i) sk = (sk_value sk i, sk)"
| "run_stack malloc Sk_num sk = (sk_num sk, sk)"
| "run_stack malloc Sk_zero sk = (0, sk_zero sk)"

text \<open>The same call on a list: the result and the list afterwards.\<close>

fun list_call :: "stack_call \<Rightarrow> ptr list \<Rightarrow> nat \<times> ptr list" where
  "list_call (Sk_push p) xs = (Suc (length xs), xs @ [p])"
| "list_call (Sk_insert p i) xs = (Suc (length xs), insert_at i p xs)"
| "list_call (Sk_delete i) xs = (if i < length xs then (xs ! i, delete_at i xs) else (0, xs))"
| "list_call (Sk_delete_ptr p) xs = (if p \<in> set xs then (p, remove1 p xs) else (0, xs))"
| "list_call Sk_shift xs = (case xs of [] \<Rightarrow> (0, []) | y # ys \<Rightarrow> (y, ys))"
| "list_call Sk_pop xs = (if xs = [] then (0, []) else (last xs, butlast xs))"
| "list_call (Sk_set i p) xs = (if i < length xs then (p, xs[i := p]) else (0, xs))"
| "list_call (Sk_value i) xs = (if i < length xs then xs ! i else 0, xs)"
| "list_call Sk_num xs = (length xs, xs)"
| "list_call Sk_zero xs = (0, [])"

fun inserts :: "stack_call \<Rightarrow> bool" where
  "inserts (Sk_push p) = True"
| "inserts (Sk_insert p i) = True"
| "inserts _ = False"

lemma insert_refines:
  assumes "malloc_ok malloc" and "stack_wf s" and "sk_insert malloc (Some s) p i = (r, sk')"
  shows "\<exists>s'. sk' = Some s' \<and> stack_wf s' \<and>
    ((r, elems s') = (Suc (length (elems s)), insert_at i p (elems s)) \<or> r = 0 \<and> s' = s)"
proof (cases r)
  case 0
  with sk_insert_fail assms show ?thesis by blast
next
  case (Suc n)
  with sk_insert_elems [OF assms(1,2), of p i n sk'] assms(2,3) show ?thesis by auto
qed

lemma delete_refines:
  assumes "stack_wf s" and "sk_delete (Some s) i = (r, sk')"
  shows "\<exists>s'. sk' = Some s' \<and> stack_wf s' \<and>
    (r, elems s') = list_call (Sk_delete i) (elems s)"
proof (cases "i < st_num s")
  case True
  with sk_delete_elems [OF assms(1) True] assms show ?thesis by auto
next
  case False
  with assms show ?thesis by (auto simp: sk_delete_def)
qed

lemma run_stack_refines:
  assumes "malloc_ok malloc" and "stack_wf s" and "run_stack malloc c (Some s) = (r, sk')"
  shows "\<exists>s'. sk' = Some s' \<and> stack_wf s' \<and>
    ((r, elems s') = list_call c (elems s) \<or> inserts c \<and> r = 0 \<and> s' = s)"
proof (cases c)
  case (Sk_push p)
  have "insert_at (sk_num (Some s)) p (elems s) = elems s @ [p]"
    using assms(2) by (simp add: insert_at_def sk_num_def)
  with insert_refines [OF assms(1,2), of p "sk_num (Some s)" r sk'] assms(3) Sk_push show ?thesis
    by (simp add: sk_push_def)
next
  case (Sk_insert p i)
  with insert_refines [OF assms(1,2), of p i r sk'] assms(3) show ?thesis by simp
next
  case (Sk_delete i)
  with delete_refines [OF assms(2), of i r sk'] assms(3) show ?thesis by simp
next
  case (Sk_delete_ptr p)
  show ?thesis
  proof (cases "index_from p (elems s) 0")
    case None
    with assms(2,3) Sk_delete_ptr show ?thesis
      using index_from_None [of p "elems s" 0]
      by (auto simp: sk_delete_ptr_def elems_def)
  next
    case (Some i)
    note ix = index_from_Some [OF Some]
    have d: "delete_at i (elems s) = remove1 p (elems s)" "p \<in> set (elems s)"
      using ix delete_at_remove1 [of i "elems s" p] nth_mem [of i "elems s"] by auto
    have "sk_delete (Some s) i = (r, sk')"
      using assms(3) Some Sk_delete_ptr by (simp add: sk_delete_ptr_def elems_def)
    with delete_refines [OF assms(2), of i r sk'] d ix Sk_delete_ptr show ?thesis by auto
  qed
next
  case Sk_shift
  show ?thesis
  proof (cases "st_num s = 0")
    case True
    with assms(2,3) Sk_shift show ?thesis by (auto simp: sk_shift_def elems_def)
  next
    case False
    then obtain y ys where e: "elems s = y # ys" using length_elems [OF assms(2)]
      by (metis length_0_conv neq_Nil_conv)
    have "sk_delete (Some s) 0 = (r, sk')" using False assms(3) Sk_shift by (simp add: sk_shift_def)
    with delete_refines [OF assms(2), of 0 r sk'] Sk_shift show ?thesis
      by (simp add: e delete_at_def)
  qed
next
  case Sk_pop
  show ?thesis
  proof (cases "st_num s = 0")
    case True
    with assms(2,3) Sk_pop show ?thesis by (auto simp: sk_pop_def elems_def)
  next
    case False
    then have e: "elems s \<noteq> []" "length (elems s) = st_num s" using length_elems [OF assms(2)] by auto
    have "sk_delete (Some s) (st_num s - 1) = (r, sk')"
      using False assms(3) Sk_pop by (simp add: sk_pop_def)
    with delete_refines [OF assms(2), of "st_num s - 1" r sk'] Sk_pop e False show ?thesis
      by (simp add: delete_at_def last_conv_nth butlast_conv_take)
  qed
next
  case (Sk_set i p)
  with assms(2,3) show ?thesis
    by (auto simp: sk_set_def stack_wf_def elems_def take_update_swap split: if_splits)
next
  case (Sk_value i)
  with assms(2,3) show ?thesis by (auto simp: sk_value_def split: if_splits)
next
  case Sk_num
  with assms(2,3) show ?thesis by (auto simp: sk_num_def)
next
  case Sk_zero
  with assms(2,3) show ?thesis by (auto simp: sk_zero_def stack_wf_def elems_def split: if_splits)
qed

section \<open>Sorting and searching\<close>

definition sorted_flag_ok :: "cmp_code \<Rightarrow> stack \<Rightarrow> bool" where
  "sorted_flag_ok code s \<longleftrightarrow>
     (st_sorted s \<longrightarrow> sorted_wrt (\<lambda>a b. code (st_comp s) a b \<le> 0) (elems s))"

lemma sk_sort_elems:
  assumes "qsort_ok qsort" and "comparator (code (st_comp s))" and "st_comp s \<noteq> 0"
    and "stack_wf s" and "sorted_flag_ok code s"
  shows "\<exists>s'. sk_sort code qsort (Some s) = Some s' \<and> stack_wf s' \<and> mset (elems s') = mset (elems s) \<and>
    sorted_wrt (\<lambda>a b. code (st_comp s) a b \<le> 0) (elems s') \<and> st_sorted s' \<and> st_comp s' = st_comp s \<and>
    st_num s' = st_num s"
proof (cases "st_sorted s")
  case True
  with assms(3-5) show ?thesis by (simp add: sk_sort_def sorted_flag_ok_def)
next
  case False
  note q = qsort_okD [OF assms(1,2), of "elems s"]
  have l: "length (qsort (code (st_comp s)) (elems s)) = st_num s"
    using mset_eq_length [OF q(1)] assms(4) by simp
  have wf: "length (st_data s) = st_num_alloc s" "st_num s < st_num_alloc s"
    using assms(4) by (simp_all add: stack_wf_def)
  show ?thesis using False assms(3,4) q l wf
    by (simp add: sk_sort_def stack_wf_def elems_def)
qed

lemma sk_first_equal_spec:
  assumes "sk_first_equal cmp p data i = k" and "cmp p (data ! i) = 0"
  shows "k \<le> i \<and> cmp p (data ! k) = 0 \<and> (0 < k \<longrightarrow> cmp p (data ! (k - 1)) \<noteq> 0)"
  using assms by (induction i) (auto split: if_splits)

lemma sk_find_first:
  assumes "qsort_ok qsort" and "bsearch_ok bsearch" and "comparator (code (st_comp s))"
    and "st_comp s \<noteq> 0" and "stack_wf s" and "sorted_flag_ok code s" and "p \<noteq> 0"
    and "sk_find code qsort bsearch (Some s) p = (r, sk')"
  shows "\<exists>s'. sk' = Some s' \<and> stack_wf s' \<and> mset (elems s') = mset (elems s) \<and> sorted_flag_ok code s' \<and>
    (case r of
       None \<Rightarrow> \<forall>x\<in>set (elems s'). code (st_comp s) p x \<noteq> 0
     | Some i \<Rightarrow> i < length (elems s') \<and> code (st_comp s) p (elems s' ! i) = 0 \<and>
         (\<forall>j<i. code (st_comp s) p (elems s' ! j) \<noteq> 0))"
proof -
  let ?cmp = "code (st_comp s)"
  obtain s1 where s1: "sk_sort code qsort (Some s) = Some s1" "stack_wf s1"
    "mset (elems s1) = mset (elems s)" "sorted_wrt (\<lambda>a b. ?cmp a b \<le> 0) (elems s1)"
    "st_comp s1 = st_comp s" "st_num s1 = st_num s"
    using sk_sort_elems [where code = code, OF assms(1,3-6)] by blast
  have ok: "sorted_flag_ok code s1" using s1 by (simp add: sorted_flag_ok_def)
  have e: "take (st_num s) (st_data s1) = elems s1" by (simp add: elems_def s1(6))
  have f: "(r, sk') = (case bsearch ?cmp p (elems s1) of
      None \<Rightarrow> (None, Some s1) | Some i \<Rightarrow> (Some (sk_first_equal ?cmp p (st_data s1) i), Some s1))"
    using assms(4,7,8) s1(1,5,6) by (simp add: sk_find_def e split: option.splits)
  show ?thesis
  proof (cases "bsearch ?cmp p (elems s1)")
    case None
    with f s1 ok bsearch_okD(1) [OF assms(2,3) s1(4) None] show ?thesis by auto
  next
    case (Some i)
    note b = bsearch_okD(2) [OF assms(2,3) s1(4) Some]
    define k where "k = sk_first_equal ?cmp p (st_data s1) i"
    have i: "i < st_num s1" using b s1(2) by simp
    have "?cmp p (st_data s1 ! i) = 0" using b i s1(2) by simp
    note k = sk_first_equal_spec [OF k_def [symmetric] this]
    have kl: "k < st_num s1" using k i by simp
    have "?cmp p (elems s1 ! j) \<noteq> 0" if "j < k" for j
    proof
      assume z: "?cmp p (elems s1 ! j) = 0"
      have "j \<le> k - 1" "k - 1 \<le> i" using that conjunct1 [OF k] by linarith+
      then have "?cmp p (elems s1 ! (k - 1)) = 0"
        using comparator.ascending_between [OF assms(3) s1(4), of j "k - 1" i p] z b by blast
      with k kl that s1(2) show False by simp
    qed
    with f Some s1 ok k kl show ?thesis by (auto simp: k_def [symmetric])
  qed
qed

section \<open>Copies\<close>

lemma sk_dup_elems:
  assumes "malloc_ok malloc" and "stack_wf s" and "sk_dup malloc (Some s) = Some s'"
  shows "stack_wf s'" and "elems s' = elems s" and "st_sorted s' = st_sorted s"
    and "st_comp s' = st_comp s" and "st_num s' = st_num s"
proof -
  have wf: "length (st_data s) = st_num_alloc s" "st_num s < st_num_alloc s"
    "4 \<le> st_num_alloc s" "8 * st_num_alloc s < 2 ^ 63" using assms(2) by (simp_all add: stack_wf_def)
  have m: "mul_size 8 (st_num_alloc s) = 8 * st_num_alloc s" using wf by simp
  obtain ret :: stack and data where d: "realloc_ptrs malloc (st_data ret) (8 * st_num_alloc s) = Some data"
    and s': "s' = \<lparr>st_num = st_num s, st_data = take (st_num s) (st_data s) @ drop (st_num s) data,
      st_sorted = st_sorted s, st_num_alloc = st_num_alloc s, st_comp = st_comp s\<rparr>"
    using assms(3) by (auto simp: sk_dup_def m split: option.splits)
  have "8 * st_num_alloc s + 8 < 2 ^ 64" using wf by simp
  note r = realloc_ptrs_Some [OF assms(1) d this]
  show "stack_wf s'" and "elems s' = elems s" and "st_sorted s' = st_sorted s"
    and "st_comp s' = st_comp s" and "st_num s' = st_num s"
    using r wf by (simp_all add: s' stack_wf_def elems_def)
qed

text \<open>
  A state that records the objects alive: \<open>copy_func\<close> adds the object it makes, \<open>free_func\<close> removes
  one.
\<close>

definition copies_live :: "(ptr \<Rightarrow> ptr multiset \<Rightarrow> ptr \<times> ptr multiset) \<Rightarrow> bool" where
  "copies_live copy_func \<longleftrightarrow>
     (\<forall>p w. case copy_func p w of (c, w1) \<Rightarrow> w1 = (if c = 0 then w else add_mset c w))"

definition free_live :: "ptr \<Rightarrow> ptr multiset \<Rightarrow> ptr multiset" where
  "free_live p w = w - {#p#}"

definition non_null :: "ptr list \<Rightarrow> ptr multiset" where
  "non_null xs = filter_mset (\<lambda>p. p \<noteq> 0) (mset xs)"

lemma foldl_free_live:
  "foldl (\<lambda>w j. if xs ! j \<noteq> 0 then free_live (xs ! j) w else w) w [0..<n] = w - non_null (take n xs)"
  if "n \<le> length xs"
  using that
  by (induction n) (auto simp: take_Suc_conv_app_nth non_null_def free_live_def)

lemma non_null_take_Suc:
  assumes "i < length xs"
  shows "non_null (take (Suc i) xs) = non_null (take i xs) + (if xs ! i = 0 then {#} else {#xs ! i#})"
  using assms by (simp add: non_null_def take_Suc_conv_app_nth)

text \<open>The \<open>j\<close>-th copy is null where the original is, and what \<open>copy_func\<close> returned elsewhere.\<close>

definition copied :: "(ptr \<Rightarrow> 'w \<Rightarrow> ptr \<times> 'w) \<Rightarrow> ptr \<Rightarrow> ptr \<Rightarrow> bool" where
  "copied copy_func x y \<longleftrightarrow> (if x = 0 then y = 0 else y \<noteq> 0 \<and> (\<exists>w. fst (copy_func x w) = y))"

text \<open>What the loop has done when it started at index \<open>i\<close> with the array of \<open>ret\<close>.\<close>

definition copy_result :: "(ptr \<Rightarrow> ptr multiset \<Rightarrow> ptr \<times> ptr multiset) \<Rightarrow> nat \<Rightarrow> nat \<Rightarrow> stack \<Rightarrow>
    ptr multiset \<Rightarrow> stack option \<Rightarrow> ptr multiset \<Rightarrow> bool" where
  "copy_result copy_func i n ret w0 r w' \<longleftrightarrow>
     (case r of
        None \<Rightarrow> w' = w0
      | Some ret' \<Rightarrow> (\<exists>d. ret' = ret\<lparr>st_data := d\<rparr> \<and> length d = length (st_data ret) \<and>
          take i d = take i (st_data ret) \<and> w' = w0 + non_null (take n d) \<and>
          (\<forall>j. i \<le> j \<and> j < n \<longrightarrow> copied copy_func (st_data ret ! j) (d ! j))))"

lemma copy_result_step:
  assumes "copy_result copy_func (Suc i) n (ret\<lparr>st_data := (st_data ret)[i := c]\<rparr>) w0 r w'"
    and "copied copy_func (st_data ret ! i) c" and "i < length (st_data ret)"
  shows "copy_result copy_func i n ret w0 r w'"
proof (cases r)
  case None
  with assms(1) show ?thesis by (simp add: copy_result_def)
next
  case (Some ret')
  with assms(1) obtain d where d: "ret' = ret\<lparr>st_data := d\<rparr>" "length d = length (st_data ret)"
    "take (Suc i) d = take (Suc i) ((st_data ret)[i := c])" "w' = w0 + non_null (take n d)"
    "\<And>j. Suc i \<le> j \<Longrightarrow> j < n \<Longrightarrow> copied copy_func ((st_data ret)[i := c] ! j) (d ! j)"
    unfolding copy_result_def by (simp, blast)
  have "take i d @ [d ! i] = take i (st_data ret) @ [c]"
    using d(2,3) assms(3) by (simp add: take_Suc_conv_app_nth)
  then have di: "take i d = take i (st_data ret)" "d ! i = c" by simp_all
  have "copied copy_func (st_data ret ! j) (d ! j)" if "i \<le> j" "j < n" for j
  proof (cases "j = i")
    case True
    with di(2) assms(2) show ?thesis by simp
  next
    case False
    with that d(5) [of j] show ?thesis by simp
  qed
  with d(1,2,4) di(1) Some show ?thesis unfolding copy_result_def by simp blast
qed

lemma deep_copy_loop_spec:
  assumes "copies_live copy_func" and "i \<le> n" and "n \<le> length (st_data ret)"
    and "deep_copy_loop copy_func free_live [i..<n] ret (w0 + non_null (take i (st_data ret))) = (r, w')"
  shows "copy_result copy_func i n ret w0 r w'"
  using assms(2-4)
proof (induction "n - i" arbitrary: i ret)
  case 0
  then have "i = n" by simp
  with "0.prems" have r: "r = Some ret" and "w' = w0 + non_null (take n (st_data ret))" by simp_all
  moreover have "ret = ret\<lparr>st_data := st_data ret\<rparr>" by simp
  ultimately show ?case unfolding copy_result_def \<open>i = n\<close> r option.case
    by (intro exI [of _ "st_data ret"]) (simp, linarith)
next
  case (Suc m)
  then have lt: "i < n" "i < length (st_data ret)" and m: "m = n - Suc i" by simp_all
  have up: "[i..<n] = i # [Suc i..<n]" using lt by (simp add: upt_conv_Cons)
  let ?w = "w0 + non_null (take i (st_data ret))"
  obtain c w1 where c: "copy_func (st_data ret ! i) ?w = (c, w1)" by (rule prod.exhaust)
  have w1: "w1 = (if c = 0 then ?w else add_mset c ?w)"
    using spec [OF spec [OF assms(1) [unfolded copies_live_def], of "st_data ret ! i"], of ?w] c by simp
  consider "st_data ret ! i = 0" | "st_data ret ! i \<noteq> 0" "c = 0" | "st_data ret ! i \<noteq> 0" "c \<noteq> 0" by blast
  then show ?case
  proof cases
    case 1
    then have "deep_copy_loop copy_func free_live [Suc i..<n] ret (w0 + non_null (take (Suc i) (st_data ret))) = (r, w')"
      using Suc.prems(3) lt by (simp add: up non_null_take_Suc)
    from Suc.hyps(1) [OF m _ Suc.prems(2) this] lt
    have "copy_result copy_func (Suc i) n (ret\<lparr>st_data := (st_data ret)[i := st_data ret ! i]\<rparr>) w0 r w'"
      by simp
    then show ?thesis by (rule copy_result_step) (use 1 lt in \<open>simp_all add: copied_def\<close>)
  next
    case 2
    then have "r = None" "w' = w1 - non_null (take i (st_data ret))"
      using Suc.prems(3) c lt foldl_free_live [of i "st_data ret" w1] by (simp_all add: up)
    then show ?thesis using 2 w1 by (simp add: copy_result_def)
  next
    case 3
    let ?ret = "ret\<lparr>st_data := (st_data ret)[i := c]\<rparr>"
    have "deep_copy_loop copy_func free_live [Suc i..<n] ?ret (w0 + non_null (take (Suc i) (st_data ?ret))) = (r, w')"
      using Suc.prems(3) 3 c w1 lt by (simp add: up non_null_take_Suc)
    from Suc.hyps(1) [OF m _ _ this] lt Suc.prems(2)
    have "copy_result copy_func (Suc i) n ?ret w0 r w'" by simp
    moreover have "copied copy_func (st_data ret ! i) c"
      using 3 exI [of "\<lambda>w. fst (copy_func (st_data ret ! i) w) = c" ?w] c unfolding copied_def by simp
    ultimately show ?thesis using lt(2) by (rule copy_result_step)
  qed
qed

lemma sk_deep_copy_spec:
  assumes "malloc_ok malloc" and "stack_wf s" and "copies_live copy_func"
    and "sk_deep_copy malloc copy_func free_live (Some s) w = (r, w')"
  shows "case r of
      None \<Rightarrow> w' = w
    | Some s' \<Rightarrow> stack_wf s' \<and> w' = w + non_null (elems s') \<and>
        list_all2 (copied copy_func) (elems s) (elems s')"
proof (cases "sk_dup malloc (Some s)")
  case None
  with assms(4) show ?thesis by (auto simp: sk_deep_copy_def)
next
  case (Some ret)
  note d = sk_dup_elems [OF assms(1,2) Some]
  have n: "st_num ret \<le> length (st_data ret)" using d(1) by (simp add: stack_wf_def)
  have "deep_copy_loop copy_func free_live [0..<st_num ret] ret (w + non_null (take 0 (st_data ret))) = (r, w')"
    using assms(4) Some by (simp add: sk_deep_copy_def non_null_def)
  note S = deep_copy_loop_spec [OF assms(3) _ n this]
  show ?thesis
  proof (cases r)
    case None
    with S show ?thesis by (simp add: copy_result_def)
  next
    case (Some s')
    with S obtain dd where s': "s' = ret\<lparr>st_data := dd\<rparr>" "length dd = length (st_data ret)"
      "w' = w + non_null (take (st_num ret) dd)"
      "\<And>j. j < st_num ret \<Longrightarrow> copied copy_func (st_data ret ! j) (dd ! j)"
      unfolding copy_result_def by (simp, blast)
    have wf: "stack_wf s'" using d(1) s' by (simp add: stack_wf_def)
    have "list_all2 (copied copy_func) (elems s) (elems s')"
      unfolding d(2) [symmetric] using s' d(1) wf
      by (simp add: list_all2_conv_all_nth)
    with Some s' wf show ?thesis by (simp add: elems_def)
  qed
qed

end
