(* ===== verification/Lhash.thy ===== *)
theory Lhash
  imports Stack
begin

text \<open>
  \<open>crypto/lhash/lhash.c\<close>: the hash table of pointers, with separate chaining and resizing.

  A chain is the list of its items, each the data pointer and the stored hash; a pointer to a
  \<open>next\<close> field (or to a bucket head) is the bucket and the position in its chain. The functions of
  the client that hash and compare are fields of the table, as in the code. The locale \<open>hashing\<close> is what
  they must satisfy; it is interpreted on the string hash of the library.
\<close>

section \<open>State\<close>

type_synonym lh_item = "ptr \<times> u32"

record lhash =
  lh_items :: nat
  lh_buckets :: "lh_item list list"
  lh_num_buckets :: nat
  lh_callback_depth :: nat
  lh_comp :: "ptr \<Rightarrow> ptr \<Rightarrow> int"
  lh_hash :: "ptr \<Rightarrow> u32"

abbreviation sizeof_LHASH :: nat where "sizeof_LHASH \<equiv> 48"
abbreviation sizeof_LHASH_ITEM :: nat where "sizeof_LHASH_ITEM \<equiv> 24"
abbreviation kMinNumBuckets :: nat where "kMinNumBuckets \<equiv> 16"
abbreviation kMaxAverageChainLength :: nat where "kMaxAverageChainLength \<equiv> 2"
abbreviation kMinAverageChainLength :: nat where "kMinAverageChainLength \<equiv> 1"
abbreviation UINT_MAX :: nat where "UINT_MAX \<equiv> 4294967295"

section \<open>Operations\<close>

definition lh_new :: "allocator \<Rightarrow> (ptr \<Rightarrow> u32) \<Rightarrow> (ptr \<Rightarrow> ptr \<Rightarrow> int) \<Rightarrow> lhash option" where
  "lh_new malloc hash cmp =
     (case OPENSSL_malloc malloc sizeof_LHASH of
        None \<Rightarrow> None
      | Some _ \<Rightarrow>
          (case OPENSSL_malloc malloc (mul_size sizeof_ptr kMinNumBuckets) of
             None \<Rightarrow> None
           | Some _ \<Rightarrow>
               Some \<lparr>lh_items = 0, lh_buckets = replicate kMinNumBuckets [],
                     lh_num_buckets = kMinNumBuckets, lh_callback_depth = 0,
                     lh_comp = cmp, lh_hash = hash\<rparr>))"

definition lh_num_items :: "lhash \<Rightarrow> nat" where
  "lh_num_items lh = lh_items lh"

fun chain_pos :: "(ptr \<Rightarrow> ptr \<Rightarrow> int) \<Rightarrow> ptr \<Rightarrow> lh_item list \<Rightarrow> nat" where
  "chain_pos cmp data [] = 0"
| "chain_pos cmp data (cur # chain) =
     (if cmp (fst cur) data = 0 then 0 else Suc (chain_pos cmp data chain))"

text \<open>Bucket, position in its chain, hash; the position behind the last item is the null pointer.\<close>

definition get_next_ptr_and_hash :: "lhash \<Rightarrow> ptr \<Rightarrow> nat \<times> nat \<times> u32" where
  "get_next_ptr_and_hash lh data =
     (let hash = lh_hash lh data; b = unat hash mod lh_num_buckets lh
      in (b, chain_pos (lh_comp lh) data (lh_buckets lh ! b), hash))"

definition lh_retrieve :: "lhash \<Rightarrow> ptr \<Rightarrow> ptr" where
  "lh_retrieve lh data =
     (case get_next_ptr_and_hash lh data of
        (b, i, _) \<Rightarrow>
          if length (lh_buckets lh ! b) \<le> i then 0 else fst (lh_buckets lh ! b ! i))"

text \<open>The loops of \<open>lh_rebucket\<close>: each item, in the order of the old buckets, becomes the head of its
  new chain.\<close>

fun rebucket_items :: "nat \<Rightarrow> lh_item list \<Rightarrow> lh_item list list \<Rightarrow> lh_item list list" where
  "rebucket_items n [] new_buckets = new_buckets"
| "rebucket_items n (cur # items) new_buckets =
     (let new_bucket = unat (snd cur) mod n
      in rebucket_items n items (new_buckets[new_bucket := cur # new_buckets ! new_bucket]))"

definition lh_rebucket :: "allocator \<Rightarrow> lhash \<Rightarrow> nat \<Rightarrow> lhash" where
  "lh_rebucket malloc lh new_num_buckets =
     (let alloc_size = mul_size sizeof_ptr new_num_buckets in
      if alloc_size div sizeof_ptr \<noteq> new_num_buckets then lh
      else
        (case OPENSSL_malloc malloc alloc_size of
           None \<Rightarrow> lh
         | Some _ \<Rightarrow>
             lh\<lparr>lh_num_buckets := new_num_buckets,
                lh_buckets := rebucket_items new_num_buckets (concat (lh_buckets lh))
                                (replicate new_num_buckets [])\<rparr>))"

definition lh_maybe_resize :: "allocator \<Rightarrow> lhash \<Rightarrow> lhash" where
  "lh_maybe_resize malloc lh =
     (if 0 < lh_callback_depth lh then lh
      else
        let avg_chain_length = lh_items lh div lh_num_buckets lh in
        if kMaxAverageChainLength < avg_chain_length then
          (let new_num_buckets = mul_size (lh_num_buckets lh) 2 in
           if lh_num_buckets lh < new_num_buckets then lh_rebucket malloc lh new_num_buckets else lh)
        else if avg_chain_length < kMinAverageChainLength \<and> kMinNumBuckets < lh_num_buckets lh then
          (let new_num_buckets = lh_num_buckets lh div 2;
               new_num_buckets = (if new_num_buckets < kMinNumBuckets then kMinNumBuckets
                                  else new_num_buckets)
           in lh_rebucket malloc lh new_num_buckets)
        else lh)"

text \<open>The old element (\<open>0\<close> if there was none), success, the table.\<close>

definition lh_insert :: "allocator \<Rightarrow> lhash \<Rightarrow> ptr \<Rightarrow> ptr \<times> bool \<times> lhash" where
  "lh_insert malloc lh data =
     (case get_next_ptr_and_hash lh data of
        (b, i, hash) \<Rightarrow>
          let chain = lh_buckets lh ! b in
          if i < length chain then
            (fst (chain ! i), True,
             lh\<lparr>lh_buckets := (lh_buckets lh)[b := chain[i := (data, snd (chain ! i))]]\<rparr>)
          else
            (case OPENSSL_malloc malloc sizeof_LHASH_ITEM of
               None \<Rightarrow> (0, False, lh)
             | Some _ \<Rightarrow>
                 (0, True,
                  lh_maybe_resize malloc
                    (lh\<lparr>lh_buckets := (lh_buckets lh)[b := chain @ [(data, hash)]],
                        lh_items := add_size (lh_items lh) 1\<rparr>))))"

definition lh_delete :: "allocator \<Rightarrow> lhash \<Rightarrow> ptr \<Rightarrow> ptr \<times> lhash" where
  "lh_delete malloc lh data =
     (case get_next_ptr_and_hash lh data of
        (b, i, _) \<Rightarrow>
          let chain = lh_buckets lh ! b in
          if length chain \<le> i then (0, lh)
          else
            (fst (chain ! i),
             lh_maybe_resize malloc
               (lh\<lparr>lh_buckets := (lh_buckets lh)[b := take i chain @ drop (Suc i) chain],
                   lh_items := add_size (lh_items lh) (2 ^ 64 - 1)\<rparr>)))"

definition lh_strhash :: "bytes option \<Rightarrow> u32" where
  "lh_strhash c = (case c of None \<Rightarrow> 0 | Some s \<Rightarrow> OPENSSL_hash32 s)"

section \<open>The contract of the client functions\<close>

locale hashing =
  fixes hash :: "ptr \<Rightarrow> u32" and cmp :: "ptr \<Rightarrow> ptr \<Rightarrow> int"
  assumes eq_refl: "cmp a a = 0"
    and eq_sym: "cmp a b = 0 \<Longrightarrow> cmp b a = 0"
    and eq_trans: "cmp a b = 0 \<Longrightarrow> cmp b c = 0 \<Longrightarrow> cmp a c = 0"
    and eq_hash: "cmp a b = 0 \<Longrightarrow> hash a = hash b"

text \<open>Every item is in the bucket of its hash.\<close>

definition placed :: "(ptr \<Rightarrow> u32) \<Rightarrow> nat \<Rightarrow> lh_item list list \<Rightarrow> bool" where
  "placed hash n bs \<longleftrightarrow> length bs = n \<and>
     (\<forall>b<n. \<forall>it\<in>set (bs ! b). snd it = hash (fst it) \<and> unat (hash (fst it)) mod n = b)"

text \<open>The elements, and that no two of them are equal.\<close>

definition members :: "lhash \<Rightarrow> ptr multiset" where
  "members lh = image_mset fst (mset (concat (lh_buckets lh)))"

definition unique :: "(ptr \<Rightarrow> ptr \<Rightarrow> int) \<Rightarrow> ptr multiset \<Rightarrow> bool" where
  "unique cmp M \<longleftrightarrow> (\<forall>x\<in>#M. filter_mset (\<lambda>y. cmp x y = 0) M = {#x#})"

definition lh_wf :: "lhash \<Rightarrow> bool" where
  "lh_wf lh \<longleftrightarrow> kMinNumBuckets \<le> lh_num_buckets lh \<and> lh_num_buckets lh < 2 ^ 60 \<and>
     placed (lh_hash lh) (lh_num_buckets lh) (lh_buckets lh) \<and>
     unique (lh_comp lh) (members lh) \<and> lh_items lh = size (members lh) \<and>
     lh_items lh < 2 ^ 63"

text \<open>The map a table stands for: from a key to the element equal to it.\<close>

definition lh_map :: "lhash \<Rightarrow> ptr \<Rightarrow> ptr option" where
  "lh_map lh k = find (\<lambda>x. lh_comp lh x k = 0) (map fst (concat (lh_buckets lh)))"

section \<open>Chains and buckets\<close>

lemma filter_mset_none: "filter_mset P N = {#} \<longleftrightarrow> (\<forall>y\<in>#N. \<not> P y)"
  by (induction N) auto

lemma chain_pos_le: "chain_pos cmp d c \<le> length c"
  by (induction c) auto

lemma chain_pos_found: "chain_pos cmp d c < length c \<Longrightarrow> cmp (fst (c ! chain_pos cmp d c)) d = 0"
  by (induction c) auto

lemma chain_pos_none: "\<not> chain_pos cmp d c < length c \<Longrightarrow> it \<in> set c \<Longrightarrow> cmp (fst it) d \<noteq> 0"
  by (induction c) (auto split: if_splits)

lemma mset_concat_update:
  assumes "b < length bs"
  shows "mset (concat (bs[b := c])) + mset (bs ! b) = mset (concat bs) + mset c"
proof -
  have "mset (concat bs) = mset (concat (take b bs)) + mset (bs ! b) + mset (concat (drop (Suc b) bs))"
    by (subst id_take_nth_drop [OF assms]) simp
  then show ?thesis by (simp add: upd_conv_take_nth_drop [OF assms])
qed

lemma placed_update:
  assumes "placed hash n bs" and "b < n"
    and "\<forall>it\<in>set c. snd it = hash (fst it) \<and> unat (hash (fst it)) mod n = b"
  shows "placed hash n (bs[b := c])"
  unfolding placed_def
proof (intro conjI allI impI ballI)
  fix j it
  assume j: "j < n" and it: "it \<in> set (bs[b := c] ! j)"
  show "snd it = hash (fst it)" and "unat (hash (fst it)) mod n = j"
    using assms j it by (cases "j = b"; simp add: placed_def)+
qed (use assms(1) in \<open>simp add: placed_def\<close>)

lemma placed_rebucket_items:
  assumes "0 < n" and "\<forall>it\<in>set items. snd it = hash (fst it)" and "placed hash n bs"
  shows "placed hash n (rebucket_items n items bs)"
    and "mset (concat (rebucket_items n items bs)) = mset items + mset (concat bs)"
  using assms(2,3)
proof (induction items arbitrary: bs)
  case (Cons it items)
  let ?b = "unat (snd it) mod n"
  have b: "?b < n" "?b < length bs" if "placed hash n bs" for bs
    using assms(1) that by (simp_all add: placed_def)
  {
    case 1
    have "placed hash n (bs[?b := it # bs ! ?b])"
      by (rule placed_update [OF 1(2) b(1) [OF 1(2)]]) (use 1 b(1) [OF 1(2)] in \<open>simp add: placed_def\<close>)
    with Cons.IH(1) 1(1) show ?case by (simp add: Let_def)
  next
    case 2
    have "placed hash n (bs[?b := it # bs ! ?b])"
      by (rule placed_update [OF 2(2) b(1) [OF 2(2)]]) (use 2 b(1) [OF 2(2)] in \<open>simp add: placed_def\<close>)
    from Cons.IH(2) [OF _ this] 2(1) mset_concat_update [OF b(2) [OF 2(2)], of "it # bs ! ?b"]
    show ?case by (simp add: Let_def)
  }
qed simp_all

lemma placed_hash: "placed hash n bs \<Longrightarrow> it \<in> set (concat bs) \<Longrightarrow> snd it = hash (fst it)"
  by (auto simp: placed_def in_set_conv_nth [of _ bs])

lemma placed_bucket:
  assumes "placed hash n bs" and "it \<in> set (concat bs)"
  shows "it \<in> set (bs ! (unat (hash (fst it)) mod n))"
proof -
  obtain b where b: "b < length bs" "it \<in> set (bs ! b)"
    using assms(2) by (auto simp: in_set_conv_nth [of _ bs])
  with assms(1) have "unat (hash (fst it)) mod n = b" unfolding placed_def by blast
  with b show ?thesis by simp
qed

lemma placedD:
  assumes "placed hash n bs" and "b < n" and "it \<in> set (bs ! b)"
  shows "snd it = hash (fst it)" and "unat (hash (fst it)) mod n = b"
  using assms unfolding placed_def by blast+

lemma placed_length: "placed hash n bs \<Longrightarrow> length bs = n"
  by (simp add: placed_def)

lemma placed_empty: "placed hash n (replicate n [])"
  by (simp add: placed_def)

lemma find_Some_unique:
  assumes "unique cmp (mset xs)" and "\<And>x y. x \<in> set xs \<Longrightarrow> y \<in> set xs \<Longrightarrow> cmp x k = 0 \<Longrightarrow> cmp y k = 0 \<Longrightarrow> cmp x y = 0"
  shows "find (\<lambda>x. cmp x k = 0) xs = Some x \<longleftrightarrow> x \<in> set xs \<and> cmp x k = 0"
proof
  assume "find (\<lambda>x. cmp x k = 0) xs = Some x"
  then show "x \<in> set xs \<and> cmp x k = 0" by (auto simp: find_Some_iff)
next
  assume x: "x \<in> set xs \<and> cmp x k = 0"
  then obtain y where y: "find (\<lambda>x. cmp x k = 0) xs = Some y"
    by (cases "find (\<lambda>x. cmp x k = 0) xs") (auto simp: find_None_iff)
  then have "y \<in> set xs" "cmp y k = 0" by (auto simp: find_Some_iff)
  with x assms(2) have "y \<in># filter_mset (\<lambda>y. cmp x y = 0) (mset xs)" by simp
  moreover have "filter_mset (\<lambda>y. cmp x y = 0) (mset xs) = {#x#}"
    using assms(1) x by (auto simp: unique_def)
  ultimately show "find (\<lambda>x. cmp x k = 0) xs = Some x" using y by simp
qed

lemma members_update:
  assumes "b < length (lh_buckets lh)" and "mset c + A = mset (lh_buckets lh ! b) + B"
  shows "members (lh\<lparr>lh_buckets := (lh_buckets lh)[b := c]\<rparr>) + image_mset fst A = members lh + image_mset fst B"
proof -
  have "mset (concat ((lh_buckets lh)[b := c])) + A = mset (concat (lh_buckets lh)) + B"
  proof (rule add_right_imp_eq [of _ "mset (lh_buckets lh ! b)"])
    have "mset (concat ((lh_buckets lh)[b := c])) + A + mset (lh_buckets lh ! b) =
        mset (concat (lh_buckets lh)) + (mset c + A)"
      using mset_concat_update [OF assms(1), of c] by (simp add: ac_simps)
    then show "mset (concat ((lh_buckets lh)[b := c])) + A + mset (lh_buckets lh ! b) =
        mset (concat (lh_buckets lh)) + B + mset (lh_buckets lh ! b)"
      using assms(2) by (simp add: ac_simps)
  qed
  from arg_cong [OF this, of "image_mset fst"] show ?thesis by (simp add: members_def)
qed

section \<open>The operations keep the invariant and implement a map\<close>

context hashing
begin

lemma unique_add: "unique cmp (add_mset x N) \<longleftrightarrow> unique cmp N \<and> (\<forall>y\<in>#N. cmp x y \<noteq> 0)"
proof
  assume u: "unique cmp (add_mset x N)"
  then have "filter_mset (\<lambda>y. cmp x y = 0) (add_mset x N) = {#x#}" by (simp add: unique_def)
  then have n: "\<forall>y\<in>#N. cmp x y \<noteq> 0" by (simp add: eq_refl filter_mset_none)
  then have "\<forall>y\<in>#N. cmp y x \<noteq> 0" using eq_sym by blast
  with u n show "unique cmp N \<and> (\<forall>y\<in>#N. cmp x y \<noteq> 0)" by (auto simp: unique_def)
next
  assume u: "unique cmp N \<and> (\<forall>y\<in>#N. cmp x y \<noteq> 0)"
  then have "\<forall>y\<in>#N. cmp y x \<noteq> 0" using eq_sym by blast
  with u show "unique cmp (add_mset x N)"
    by (auto simp: unique_def eq_refl filter_mset_none)
qed

lemma unique_replace:
  "unique cmp (add_mset x N) \<Longrightarrow> cmp x d = 0 \<Longrightarrow> unique cmp (add_mset d N)"
  unfolding unique_add using eq_trans by blast

end

definition lh_ok :: "(ptr \<Rightarrow> u32) \<Rightarrow> (ptr \<Rightarrow> ptr \<Rightarrow> int) \<Rightarrow> lhash \<Rightarrow> bool" where
  "lh_ok hash cmp lh \<longleftrightarrow> lh_wf lh \<and> lh_hash lh = hash \<and> lh_comp lh = cmp"

lemma lh_okD:
  assumes "lh_ok hash cmp lh"
  shows "lh_hash lh = hash" "lh_comp lh = cmp" "16 \<le> lh_num_buckets lh" "lh_num_buckets lh < 2 ^ 60"
    "placed hash (lh_num_buckets lh) (lh_buckets lh)" "unique cmp (members lh)"
    "lh_items lh = size (members lh)" "lh_items lh < 2 ^ 63"
  using assms by (auto simp: lh_ok_def lh_wf_def)

lemma rebucket_ok:
  assumes "malloc_ok malloc" and "lh_ok hash cmp lh" and "16 \<le> n" and "n \<le> 2 * lh_num_buckets lh"
  shows "lh_ok hash cmp (lh_rebucket malloc lh n) \<and> members (lh_rebucket malloc lh n) = members lh"
proof -
  note w = lh_okD [OF assms(2)]
  have m: "mul_size 8 n = 8 * n" using w(4) assms(4) by simp
  show ?thesis
  proof (cases "OPENSSL_malloc malloc (8 * n)")
    case None
    then have "lh_rebucket malloc lh n = lh" by (simp add: lh_rebucket_def Let_def m)
    with assms(2) show ?thesis by simp
  next
    case (Some b)
    have "8 * n + 8 < 2 ^ 64" using w(4) assms(4) by simp
    then have n: "n < 2 ^ 60" using OPENSSL_malloc_length(2) [OF assms(1) Some] by simp
    let ?bs = "rebucket_items n (concat (lh_buckets lh)) (replicate n [])"
    have pl: "placed hash n ?bs" "mset (concat ?bs) = mset (concat (lh_buckets lh))"
      using placed_rebucket_items [of n "concat (lh_buckets lh)" hash "replicate n []"]
        placed_hash [OF w(5)] placed_empty [of hash n] assms(3)
      by simp_all
    have e: "lh_rebucket malloc lh n = lh\<lparr>lh_num_buckets := n, lh_buckets := ?bs\<rparr>"
      by (simp add: lh_rebucket_def Let_def m Some)
    have mem: "members (lh_rebucket malloc lh n) = members lh" by (simp add: e members_def pl(2))
    show ?thesis
      unfolding lh_ok_def lh_wf_def mem using w n assms(3) pl(1) by (simp add: e)
  qed
qed

lemma maybe_resize_ok:
  assumes "malloc_ok malloc" and "lh_ok hash cmp lh"
  shows "lh_ok hash cmp (lh_maybe_resize malloc lh) \<and>
    members (lh_maybe_resize malloc lh) = members lh"
proof -
  note w = lh_okD [OF assms(2)]
  have m: "mul_size (lh_num_buckets lh) 2 = 2 * lh_num_buckets lh" using w(4) by simp
  have "lh_maybe_resize malloc lh = lh \<or>
      (\<exists>n. 16 \<le> n \<and> n \<le> 2 * lh_num_buckets lh \<and> lh_maybe_resize malloc lh = lh_rebucket malloc lh n)"
    unfolding lh_maybe_resize_def Let_def m using w(3)
    by (simp split: if_split) (intro conjI impI disjI2 exI; (rule refl)?; simp)
  then show ?thesis using assms(2) rebucket_ok [OF assms] by auto
qed

text \<open>The element a key is mapped to, in terms of the elements alone.\<close>

context hashing
begin

lemma map_iff:
  assumes "lh_ok hash cmp lh"
  shows "lh_map lh k = Some x \<longleftrightarrow> x \<in># members lh \<and> cmp x k = 0"
proof -
  note w = lh_okD [OF assms]
  have u: "unique cmp (mset (map fst (concat (lh_buckets lh))))" using w(6) by (simp add: members_def)
  have "cmp x y = 0" if "cmp x k = 0" "cmp y k = 0" for x y
    using eq_trans [OF that(1) eq_sym [OF that(2)]] .
  from find_Some_unique [OF u this] show ?thesis
    unfolding lh_map_def w(2) by (auto simp: members_def)
qed

lemma map_None: "lh_ok hash cmp lh \<Longrightarrow> lh_map lh k = None \<longleftrightarrow> (\<forall>x\<in>#members lh. cmp x k \<noteq> 0)"
  using map_iff [of lh k] by (cases "lh_map lh k") auto

lemma map_eqI:
  assumes "lh_ok hash cmp lh" and "\<And>x. x \<in># members lh \<and> cmp x k = 0 \<longleftrightarrow> r = Some x"
  shows "lh_map lh k = r"
proof (cases "lh_map lh k")
  case None
  with assms map_None [OF assms(1), of k] show ?thesis by (cases r) auto
next
  case (Some x)
  with assms map_iff [OF assms(1), of k x] show ?thesis by auto
qed

text \<open>Where the search of the code ends up.\<close>

lemma located:
  assumes "lh_ok hash cmp lh" and "get_next_ptr_and_hash lh d = (b, i, h)"
  shows "b < length (lh_buckets lh)" and "h = hash d" and "b = unat (hash d) mod lh_num_buckets lh"
    and "i < length (lh_buckets lh ! b) \<Longrightarrow> lh_map lh d = Some (fst (lh_buckets lh ! b ! i)) \<and>
      cmp (fst (lh_buckets lh ! b ! i)) d = 0"
    and "\<not> i < length (lh_buckets lh ! b) \<Longrightarrow> lh_map lh d = None"
proof -
  note w = lh_okD [OF assms(1)]
  have g: "b = unat (hash d) mod lh_num_buckets lh" "h = hash d"
    "i = chain_pos cmp d (lh_buckets lh ! b)"
    using assms(2) by (auto simp: get_next_ptr_and_hash_def Let_def w(1,2))
  show "b = unat (hash d) mod lh_num_buckets lh" "h = hash d" by (fact g)+
  show b: "b < length (lh_buckets lh)" using w(3,5) g(1) by (simp add: placed_def)
  show "lh_map lh d = Some (fst (lh_buckets lh ! b ! i)) \<and> cmp (fst (lh_buckets lh ! b ! i)) d = 0"
    if "i < length (lh_buckets lh ! b)"
  proof -
    have "cmp (fst (lh_buckets lh ! b ! i)) d = 0" using chain_pos_found that unfolding g(3) by metis
    moreover have "lh_buckets lh ! b ! i \<in> set (concat (lh_buckets lh))"
      using nth_mem [OF b] nth_mem [OF that] by auto
    then have "fst (lh_buckets lh ! b ! i) \<in># members lh" unfolding members_def by auto
    ultimately show ?thesis using map_iff [OF assms(1)] by blast
  qed
  show "lh_map lh d = None" if n: "\<not> i < length (lh_buckets lh ! b)"
  proof (rule ccontr)
    assume "lh_map lh d \<noteq> None"
    then obtain x where x: "x \<in># members lh" "cmp x d = 0" using map_iff [OF assms(1)] by auto
    then obtain it where it: "it \<in> set (concat (lh_buckets lh))" "fst it = x"
      by (auto simp: members_def)
    have "it \<in> set (lh_buckets lh ! b)"
      using placed_bucket [OF w(5) it(1)] eq_hash [OF x(2)] it(2) g(1) by simp
    with chain_pos_none [of cmp d "lh_buckets lh ! b" it] n x(2) it(2) show False by (simp add: g(3))
  qed
qed

lemma retrieve: "lh_ok hash cmp lh \<Longrightarrow>
    lh_retrieve lh d = (case lh_map lh d of None \<Rightarrow> 0 | Some x \<Rightarrow> x)"
proof -
  assume ok: "lh_ok hash cmp lh"
  obtain b i h where g: "get_next_ptr_and_hash lh d = (b, i, h)" by (rule prod_cases3)
  from located(4,5) [OF ok g] show ?thesis
    by (cases "i < length (lh_buckets lh ! b)") (simp_all add: lh_retrieve_def g)
qed

lemma insert_replaces:
  assumes ok: "lh_ok hash cmp lh" and g: "get_next_ptr_and_hash lh d = (b, i, h)"
    and i: "i < length (lh_buckets lh ! b)"
    and lh': "lh' = lh\<lparr>lh_buckets := (lh_buckets lh)
      [b := (lh_buckets lh ! b)[i := (d, snd (lh_buckets lh ! b ! i))]]\<rparr>"
  shows "lh_ok hash cmp lh' \<and> (\<exists>x N. lh_map lh d = Some x \<and> x = fst (lh_buckets lh ! b ! i) \<and>
    members lh = add_mset x N \<and> members lh' = add_mset d N)"
proof -
  note w = lh_okD [OF ok]
  note l = located [OF ok g]
  let ?c = "lh_buckets lh ! b"
  let ?x = "fst (?c ! i)"
  let ?c' = "?c[i := (d, snd (?c ! i))]"
  have m: "lh_map lh d = Some ?x" "cmp ?x d = 0" using l(4) i by blast+
  have bn: "b < lh_num_buckets lh" using l(1) placed_length [OF w(5)] by simp
  have "mset ?c' + {#?c ! i#} = mset ?c + {#(d, snd (?c ! i))#}"
    using i by (simp add: mset_update)
  from members_update [OF l(1) this] have e: "add_mset ?x (members lh') = add_mset d (members lh)"
    by (simp add: lh')
  have "?x \<in># members lh" using m(1) map_iff [OF ok] by blast
  then obtain N where N: "members lh = add_mset ?x N" by (auto dest: multi_member_split)
  have mem: "members lh' = add_mset d N"
    using e unfolding N add_mset_commute [of d ?x] by (simp only: add_mset_add_mset_same_iff)
  have sx: "snd (?c ! i) = hash ?x" by (rule placedD(1) [OF w(5) bn nth_mem [OF i]])
  have "snd it = hash (fst it) \<and> unat (hash (fst it)) mod lh_num_buckets lh = b" if "it \<in> set ?c'" for it
  proof (cases "it = (d, snd (?c ! i))")
    case True
    then show ?thesis using sx eq_hash [OF m(2)] l(3) by simp
  next
    case False
    with that have "it \<in> set ?c" using set_update_subset_insert [of ?c i "(d, snd (?c ! i))"] by auto
    then show ?thesis using placedD [OF w(5) bn] by blast
  qed
  then have pl: "placed hash (lh_num_buckets lh) ((lh_buckets lh)[b := ?c'])"
    by (intro placed_update [OF w(5) bn]) blast
  have u: "unique cmp (members lh')" using unique_replace [OF _ m(2)] w(6) unfolding N mem by blast
  have "lh_ok hash cmp lh'"
    unfolding lh_ok_def lh_wf_def using w(1-4,7,8) pl u N mem by (simp add: lh')
  then show ?thesis using m N mem by blast
qed

lemma insert_adds:
  assumes "malloc_ok malloc" and ok: "lh_ok hash cmp lh" and g: "get_next_ptr_and_hash lh d = (b, i, h)"
    and i: "\<not> i < length (lh_buckets lh ! b)" and small: "lh_items lh + 1 < 2 ^ 63"
    and lh': "lh' = lh\<lparr>lh_buckets := (lh_buckets lh)[b := lh_buckets lh ! b @ [(d, h)]],
      lh_items := lh_items lh + 1\<rparr>"
  shows "lh_map lh d = None \<and> lh_ok hash cmp lh' \<and> members lh' = add_mset d (members lh)"
proof -
  note w = lh_okD [OF ok]
  note l = located [OF ok g]
  let ?c = "lh_buckets lh ! b"
  have m: "lh_map lh d = None" using l(5) i by blast
  have bn: "b < lh_num_buckets lh" using l(1) placed_length [OF w(5)] by simp
  have "mset (?c @ [(d, h)]) + {#} = mset ?c + {#(d, h)#}" by simp
  from members_update [OF l(1) this]
  have mem: "members lh' = add_mset d (members lh)" by (simp add: members_def lh')
  have "snd it = hash (fst it) \<and> unat (hash (fst it)) mod lh_num_buckets lh = b"
    if "it \<in> set (?c @ [(d, h)])" for it
    using that placedD [OF w(5) bn, of it] l(2,3) by auto
  then have pl: "placed hash (lh_num_buckets lh) ((lh_buckets lh)[b := ?c @ [(d, h)]])"
    by (intro placed_update [OF w(5) bn]) blast
  have "\<forall>y\<in>#members lh. cmp d y \<noteq> 0" using m map_None [OF ok] eq_sym by blast
  then have u: "unique cmp (members lh')" unfolding mem unique_add using w(6) by simp
  have sz: "lh_items lh' = size (members lh')" unfolding mem using w(7) by (simp add: lh')
  have "lh_ok hash cmp lh'"
    unfolding lh_ok_def lh_wf_def sz [symmetric] using w(1-4) pl u small
    by (simp add: lh' del: members_def)
  with m mem show ?thesis by blast
qed

lemma map_insert:
  assumes ok: "lh_ok hash cmp lh" and ok': "lh_ok hash cmp lh'" and m': "members lh' = add_mset d N"
    and m: "(\<exists>y. members lh = add_mset y N \<and> cmp y d = 0) \<or> members lh = N"
  shows "lh_map lh' k = (if cmp d k = 0 then Some d else lh_map lh k)"
proof (cases "cmp d k = 0")
  case True
  then show ?thesis using map_iff [OF ok', of k d] m' by simp
next
  case False
  have "lh_map lh' k = lh_map lh k"
  proof (rule map_eqI [OF ok'])
    fix x
    have "cmp y k \<noteq> 0" if "cmp y d = 0" for y
      using eq_trans [OF eq_sym [OF that], of k] False by blast
    then show "x \<in># members lh' \<and> cmp x k = 0 \<longleftrightarrow> lh_map lh k = Some x"
      using map_iff [OF ok, of k x] m m' False by auto
  qed
  with False show ?thesis by simp
qed

lemma map_delete:
  assumes ok: "lh_ok hash cmp lh" and ok': "lh_ok hash cmp lh'" and m': "members lh' = N"
    and m: "members lh = add_mset x N" "cmp x d = 0"
  shows "lh_map lh' k = (if cmp d k = 0 then None else lh_map lh k)"
proof (rule map_eqI [OF ok'])
  fix y
  have "unique cmp (add_mset x N)" using lh_okD(6) [OF ok] m(1) by simp
  then have n: "\<forall>y\<in>#N. cmp x y \<noteq> 0" by (simp add: unique_add)
  show "y \<in># members lh' \<and> cmp y k = 0 \<longleftrightarrow> (if cmp d k = 0 then None else lh_map lh k) = Some y"
  proof (cases "cmp d k = 0")
    case True
    have "cmp y k \<noteq> 0" if "y \<in># N"
    proof
      assume "cmp y k = 0"
      then have "cmp x y = 0" using eq_trans [OF eq_trans [OF m(2) True] eq_sym] by blast
      with n that show False by blast
    qed
    with True m' show ?thesis by auto
  next
    case False
    have "cmp x k \<noteq> 0" using eq_trans [OF eq_sym [OF m(2)], of k] False by blast
    then show ?thesis using map_iff [OF ok, of k y] m m' False by auto
  qed
qed

lemma insert:
  assumes "malloc_ok malloc" and ok: "lh_ok hash cmp lh" and small: "lh_items lh + 1 < 2 ^ 63"
    and r: "lh_insert malloc lh d = (old, True, lh')"
  shows "lh_ok hash cmp lh' \<and> old = (case lh_map lh d of None \<Rightarrow> 0 | Some x \<Rightarrow> x) \<and>
    lh_map lh' k = (if cmp d k = 0 then Some d else lh_map lh k) \<and>
    lh_items lh' = (if lh_map lh d = None then lh_items lh + 1 else lh_items lh)"
proof -
  obtain b i h where g: "get_next_ptr_and_hash lh d = (b, i, h)" by (rule prod_cases3)
  show ?thesis
  proof (cases "i < length (lh_buckets lh ! b)")
    case True
    let ?lh = "lh\<lparr>lh_buckets := (lh_buckets lh)
      [b := (lh_buckets lh ! b)[i := (d, snd (lh_buckets lh ! b ! i))]]\<rparr>"
    obtain x N where x: "lh_ok hash cmp ?lh" "lh_map lh d = Some x" "x = fst (lh_buckets lh ! b ! i)"
      "members lh = add_mset x N" "members ?lh = add_mset d N"
      using insert_replaces [OF ok g True refl] by blast
    have e: "lh' = ?lh" "old = x" using r True x(3) by (simp_all add: lh_insert_def g Let_def)
    have "cmp x d = 0" using x(2) map_iff [OF ok] by blast
    with map_insert [OF ok x(1,5), of k] x e show ?thesis by auto
  next
    case False
    let ?lh = "lh\<lparr>lh_buckets := (lh_buckets lh)[b := lh_buckets lh ! b @ [(d, h)]],
      lh_items := lh_items lh + 1\<rparr>"
    have x: "lh_map lh d = None" "lh_ok hash cmp ?lh" "members ?lh = add_mset d (members lh)"
      using insert_adds [OF assms(1) ok g False small refl] by blast+
    have e: "lh' = lh_maybe_resize malloc ?lh" "old = 0"
      using r False small by (auto simp: lh_insert_def g Let_def split: option.splits)
    have z: "lh_ok hash cmp lh'" "members lh' = add_mset d (members lh)"
      using maybe_resize_ok [OF assms(1) x(2)] x(3) unfolding e(1) by simp_all
    have "lh_items lh' = lh_items lh + 1"
      using lh_okD(7) [OF z(1)] lh_okD(7) [OF ok] z(2) by simp
    with map_insert [OF ok z, of k] z x e show ?thesis by simp
  qed
qed

lemma insert_failed:
  assumes "lh_insert malloc lh d = (old, False, lh')" shows "lh' = lh \<and> old = 0"
  using assms by (auto simp: lh_insert_def Let_def split: prod.splits option.splits if_splits)

lemma delete_removes:
  assumes ok: "lh_ok hash cmp lh" and g: "get_next_ptr_and_hash lh d = (b, i, h)"
    and i: "i < length (lh_buckets lh ! b)"
    and lh': "lh' = lh\<lparr>lh_buckets := (lh_buckets lh)
      [b := take i (lh_buckets lh ! b) @ drop (Suc i) (lh_buckets lh ! b)],
      lh_items := add_size (lh_items lh) (2 ^ 64 - 1)\<rparr>"
  shows "lh_ok hash cmp lh' \<and> lh_map lh d = Some (fst (lh_buckets lh ! b ! i)) \<and>
    members lh = add_mset (fst (lh_buckets lh ! b ! i)) (members lh')"
proof -
  note w = lh_okD [OF ok]
  note l = located [OF ok g]
  let ?c = "lh_buckets lh ! b"
  let ?x = "fst (?c ! i)"
  let ?c' = "take i ?c @ drop (Suc i) ?c"
  have m: "lh_map lh d = Some ?x" "cmp ?x d = 0" using l(4) i by blast+
  have bn: "b < lh_num_buckets lh" using l(1) placed_length [OF w(5)] by simp
  have "?x \<in># members lh" using m(1) map_iff [OF ok] by blast
  then obtain N where N: "members lh = add_mset ?x N" by (auto dest: multi_member_split)
  have it: "lh_items lh = Suc (size N)" using w(7) N by simp
  have sub: "add_size (lh_items lh) (2 ^ 64 - 1) = size N"
    using it w(8) by (simp add: add_size_def le_mod_geq)
  have "mset ?c' + {#?c ! i#} = mset ?c + {#}"
    by (subst (3) id_take_nth_drop [OF i]) simp
  from members_update [OF l(1) this]
  have "add_mset ?x (members (lh\<lparr>lh_buckets := (lh_buckets lh)[b := ?c']\<rparr>)) = add_mset ?x N"
    using N by simp
  then have mem: "members lh' = N" by (simp add: members_def lh')
  have "set ?c' \<subseteq> set ?c" by (auto dest: in_set_takeD in_set_dropD)
  then have pl: "placed hash (lh_num_buckets lh) ((lh_buckets lh)[b := ?c'])"
    by (intro placed_update [OF w(5) bn]) (use placedD [OF w(5) bn] in blast)
  have u: "unique cmp N" using w(6) unfolding N unique_add by blast
  have "lh_ok hash cmp lh'"
    unfolding lh_ok_def lh_wf_def mem using w(1-4,8) pl u it sub by (simp add: lh')
  with m(1) N mem show ?thesis by simp
qed

lemma delete:
  assumes "malloc_ok malloc" and ok: "lh_ok hash cmp lh"
    and r: "lh_delete malloc lh d = (old, lh')"
  shows "lh_ok hash cmp lh' \<and> old = (case lh_map lh d of None \<Rightarrow> 0 | Some x \<Rightarrow> x) \<and>
    lh_map lh' k = (if cmp d k = 0 then None else lh_map lh k) \<and>
    lh_items lh' = (if lh_map lh d = None then lh_items lh else lh_items lh - 1)"
proof -
  obtain b i h where g: "get_next_ptr_and_hash lh d = (b, i, h)" by (rule prod_cases3)
  note l = located [OF ok g]
  let ?c = "lh_buckets lh ! b"
  show ?thesis
  proof (cases "i < length ?c")
    case False
    then have e: "lh' = lh" "old = 0" using r by (simp_all add: lh_delete_def g Let_def)
    have n: "lh_map lh d = None" using l(5) False by blast
    have "lh_map lh k = None" if "cmp d k = 0"
      using map_None [OF ok, of d] map_None [OF ok, of k] n eq_trans [OF _ eq_sym [OF that]] by blast
    with e n ok show ?thesis by simp
  next
    case True
    let ?x = "fst (?c ! i)"
    let ?lh = "lh\<lparr>lh_buckets := (lh_buckets lh)[b := take i ?c @ drop (Suc i) ?c],
      lh_items := add_size (lh_items lh) (2 ^ 64 - 1)\<rparr>"
    have "lh_ok hash cmp ?lh \<and> lh_map lh d = Some ?x \<and> members lh = add_mset ?x (members ?lh)"
      by (rule delete_removes [OF ok g True refl])
    then obtain lh1 where x: "lh_ok hash cmp lh1" "lh_map lh d = Some ?x"
      "members lh = add_mset ?x (members lh1)" and lh1: "lh1 = ?lh" by blast
    have c: "cmp ?x d = 0" using x(2) map_iff [OF ok] by blast
    have e: "lh' = lh_maybe_resize malloc lh1" "old = ?x"
      using r True unfolding lh1 lh_delete_def g Let_def by simp_all
    note z = maybe_resize_ok [OF assms(1) x(1), THEN conjunct1, folded e(1)]
      maybe_resize_ok [OF assms(1) x(1), THEN conjunct2, folded e(1)]
    have "lh_items lh' = lh_items lh - 1"
      unfolding lh_okD(7) [OF z(1)] lh_okD(7) [OF ok] z(2) x(3) by simp
    moreover have "lh_map lh' k = (if cmp d k = 0 then None else lh_map lh k)"
      using map_delete [OF ok z(1) refl _ c, of k] x(3) unfolding z(2) by blast
    ultimately show ?thesis using z(1) x(2) e(2) by simp
  qed
qed

lemma new:
  assumes "lh_new malloc hash cmp = Some lh"
  shows "lh_ok hash cmp lh" and "lh_map lh k = None" and "lh_items lh = 0"
  using assms
  by (auto simp: lh_new_def lh_ok_def lh_wf_def placed_def members_def unique_def lh_map_def
      concat_replicate_trivial split: option.splits)

end

section \<open>Tables of strings\<close>

text \<open>
  \<open>strcmp\<close> of the C library on the strings two pointers lead to, and the string hash of this file:
  the functions with which the library's own tables of strings are made.
\<close>

fun strcmp :: "bytes \<Rightarrow> bytes \<Rightarrow> int" where
  "strcmp [] [] = 0"
| "strcmp [] (b # bs) = - 1"
| "strcmp (a # as) [] = 1"
| "strcmp (a # as) (b # bs) = (if a < b then - 1 else if b < a then 1 else strcmp as bs)"

lemma strcmp_eq_0: "strcmp a b = 0 \<longleftrightarrow> a = b"
  by (induction a b rule: strcmp.induct) auto

interpretation lh_strings: hashing "\<lambda>p. lh_strhash (Some (str p))" "\<lambda>p q. strcmp (str p) (str q)"
  for str :: "ptr \<Rightarrow> bytes"
  by unfold_locales (auto simp: strcmp_eq_0)

text \<open>Pointers as their own keys: the identity of objects.\<close>

definition ptr_hash :: "ptr \<Rightarrow> u32" where
  "ptr_hash p = of_nat p"

definition ptr_cmp :: "ptr \<Rightarrow> ptr \<Rightarrow> int" where
  "ptr_cmp p q = (if p = q then 0 else 1)"

interpretation lh_ptrs: hashing ptr_hash ptr_cmp
  by unfold_locales (auto simp: ptr_cmp_def split: if_splits)

section \<open>A table is a map\<close>

datatype lh_call = Lh_insert ptr | Lh_delete ptr | Lh_retrieve ptr | Lh_num_items

fun run_lh :: "allocator \<Rightarrow> lh_call \<Rightarrow> lhash \<Rightarrow> (nat \<times> bool) \<times> lhash" where
  "run_lh malloc (Lh_insert p) lh = (case lh_insert malloc lh p of (old, ok, lh') \<Rightarrow> ((old, ok), lh'))"
| "run_lh malloc (Lh_delete p) lh = (case lh_delete malloc lh p of (old, lh') \<Rightarrow> ((old, True), lh'))"
| "run_lh malloc (Lh_retrieve p) lh = ((lh_retrieve lh p, True), lh)"
| "run_lh malloc Lh_num_items lh = ((lh_num_items lh, True), lh)"

text \<open>What the calls mean for a map from keys to elements and its number of elements.\<close>

definition or_null :: "ptr option \<Rightarrow> ptr" where
  "or_null r = (case r of None \<Rightarrow> 0 | Some x \<Rightarrow> x)"

fun map_call :: "(ptr \<Rightarrow> ptr \<Rightarrow> int) \<Rightarrow> lh_call \<Rightarrow> (ptr \<Rightarrow> ptr option) \<Rightarrow> nat \<Rightarrow>
    nat \<times> (ptr \<Rightarrow> ptr option) \<times> nat" where
  "map_call cmp (Lh_insert p) m n =
     (or_null (m p), (\<lambda>k. if cmp p k = 0 then Some p else m k), if m p = None then n + 1 else n)"
| "map_call cmp (Lh_delete p) m n =
     (or_null (m p), (\<lambda>k. if cmp p k = 0 then None else m k), if m p = None then n else n - 1)"
| "map_call cmp (Lh_retrieve p) m n = (or_null (m p), m, n)"
| "map_call cmp Lh_num_items m n = (n, m, n)"

context hashing
begin

lemma run_refines:
  assumes "malloc_ok malloc" and ok: "lh_ok hash cmp lh" and "lh_num_items lh + 1 < 2 ^ 63"
    and r: "run_lh malloc c lh = ((r, success), lh')"
  shows "lh_ok hash cmp lh' \<and>
    (if success then (r, lh_map lh', lh_num_items lh') = map_call cmp c (lh_map lh) (lh_num_items lh)
     else r = 0 \<and> lh' = lh)"
proof (cases c)
  case (Lh_insert p)
  then have i: "lh_insert malloc lh p = (r, success, lh')" using r by (auto split: prod.splits)
  show ?thesis
  proof (cases success)
    case True
    have "lh_items lh + 1 < 2 ^ 63" using assms(3) by (simp add: lh_num_items_def)
    from insert [OF assms(1) ok this i [unfolded True [THEN eq_True [THEN iffD2]]]] True Lh_insert
    show ?thesis by (auto simp: or_null_def lh_num_items_def fun_eq_iff)
  next
    case False
    with i insert_failed [of malloc lh p r lh'] ok show ?thesis by simp
  qed
next
  case (Lh_delete p)
  then have "lh_delete malloc lh p = (r, lh')" "success" using r by (auto split: prod.splits)
  with delete [OF assms(1) ok this(1)] Lh_delete show ?thesis
    by (auto simp: or_null_def lh_num_items_def fun_eq_iff)
qed (use r ok retrieve [OF ok] in \<open>auto simp: or_null_def\<close>)

end

end
