(* ===== verification/Lhash_Iter.thy ===== *)
theory Lhash_Iter
  imports Lhash
begin

text \<open>
  \<open>lh_doall\<close> and \<open>lh_doall_arg\<close> of \<open>crypto/lhash/lhash.c\<close>: calling a function on every element of a hash
  table that the function may change.

  The callback is given the element, the table and a state of its own, and answers with the calls of
  the table's operations it makes. An iteration inside the callback is the calls that its own callback
  makes: while one iteration runs, \<open>callback_depth\<close> is positive and no call resizes the table. The pointer
  \<open>next\<close>, which the loop saves before the callback runs, is null, or an item of the chain, whose position
  moves when an item before it is deleted; when the item itself is deleted, the pointer is dangling.
  The loops return nothing when they follow a dangling pointer, and when they run forever (which
  they do if the callback keeps inserting into the chain).
\<close>

section \<open>Operations\<close>

datatype lh_next = Next_null | Next_item nat | Next_freed

text \<open>Where a pointer into the chain of bucket \<open>b\<close> is after a call.\<close>

fun next_after :: "lhash \<Rightarrow> lh_call \<Rightarrow> nat \<Rightarrow> lh_next \<Rightarrow> lh_next" where
  "next_after lh (Lh_delete p) b (Next_item j) =
     (case get_next_ptr_and_hash lh p of
        (b', i, _) \<Rightarrow>
          if b' \<noteq> b \<or> length (lh_buckets lh ! b') \<le> i \<or> j < i then Next_item j
          else if i = j then Next_freed
          else Next_item (j - 1))"
| "next_after lh c b nxt = nxt"

fun callback_calls :: "allocator \<Rightarrow> nat \<Rightarrow> lh_call list \<Rightarrow> lhash \<Rightarrow> lh_next \<Rightarrow> lhash \<times> lh_next" where
  "callback_calls malloc b [] lh nxt = (lh, nxt)"
| "callback_calls malloc b (c # cs) lh nxt =
     callback_calls malloc b cs (snd (run_lh malloc c lh)) (next_after lh c b nxt)"

text \<open>The inner loop, from the item \<open>cur\<close> of bucket \<open>b\<close>.\<close>

partial_function (option) doall_chain ::
    "allocator \<Rightarrow> (ptr \<Rightarrow> lhash \<Rightarrow> 'w \<Rightarrow> lh_call list \<times> 'w) \<Rightarrow> nat \<Rightarrow> lh_next \<Rightarrow> lhash \<Rightarrow> 'w \<Rightarrow>
      (lhash \<times> 'w) option" where
  "doall_chain malloc func b cur lh w =
     (case cur of
        Next_null \<Rightarrow> Some (lh, w)
      | Next_freed \<Rightarrow> None
      | Next_item j \<Rightarrow>
          (let chain = lh_buckets lh ! b;
               nxt = (if Suc j < length chain then Next_item (Suc j) else Next_null);
               r = func (fst (chain ! j)) lh w;
               s = callback_calls malloc b (fst r) lh nxt
           in doall_chain malloc func b (snd s) (fst s) (snd r)))"

text \<open>The outer loop, from bucket \<open>i\<close>.\<close>

partial_function (option) doall_buckets ::
    "allocator \<Rightarrow> (ptr \<Rightarrow> lhash \<Rightarrow> 'w \<Rightarrow> lh_call list \<times> 'w) \<Rightarrow> nat \<Rightarrow> lhash \<Rightarrow> 'w \<Rightarrow>
      (lhash \<times> 'w) option" where
  "doall_buckets malloc func i lh w =
     (if i < lh_num_buckets lh then
        (case doall_chain malloc func i
                (if lh_buckets lh ! i = [] then Next_null else Next_item 0) lh w of
           None \<Rightarrow> None
         | Some r \<Rightarrow> doall_buckets malloc func (Suc i) (fst r) (snd r))
      else Some (lh, w))"

declare doall_chain.simps [code] doall_buckets.simps [code]

definition lh_doall_internal :: "allocator \<Rightarrow> (ptr \<Rightarrow> lhash \<Rightarrow> 'w \<Rightarrow> lh_call list \<times> 'w) \<Rightarrow>
    lhash option \<Rightarrow> 'w \<Rightarrow> (lhash option \<times> 'w) option" where
  "lh_doall_internal malloc func lh w =
     (case lh of None \<Rightarrow> Some (None, w)
      | Some l \<Rightarrow>
          let l = (if lh_callback_depth l < UINT_MAX
                   then l\<lparr>lh_callback_depth := lh_callback_depth l + 1\<rparr> else l)
          in
            (case doall_buckets malloc func 0 l w of
               None \<Rightarrow> None
             | Some (l, w) \<Rightarrow>
                 let l = (if lh_callback_depth l < UINT_MAX
                          then l\<lparr>lh_callback_depth := lh_callback_depth l - 1\<rparr> else l)
                 in Some (Some (lh_maybe_resize malloc l), w)))"

definition lh_doall :: "allocator \<Rightarrow> (ptr \<Rightarrow> lhash \<Rightarrow> 'w \<Rightarrow> lh_call list \<times> 'w) \<Rightarrow>
    lhash option \<Rightarrow> 'w \<Rightarrow> (lhash option \<times> 'w) option" where
  "lh_doall malloc func lh w = lh_doall_internal malloc func lh w"

definition lh_doall_arg :: "allocator \<Rightarrow> (ptr \<Rightarrow> 'a \<Rightarrow> lhash \<Rightarrow> 'w \<Rightarrow> lh_call list \<times> 'w) \<Rightarrow>
    lhash option \<Rightarrow> 'a \<Rightarrow> 'w \<Rightarrow> (lhash option \<times> 'w) option" where
  "lh_doall_arg malloc func lh arg w = lh_doall_internal malloc (\<lambda>p. func p arg) lh w"

section \<open>The items still to be visited\<close>

definition rest :: "lh_item list list \<Rightarrow> nat \<Rightarrow> lh_next \<Rightarrow> lh_item list" where
  "rest bs b cur =
     (case cur of Next_item j \<Rightarrow> drop j (bs ! b) | _ \<Rightarrow> []) @ concat (drop (Suc b) bs)"

definition next_ok :: "lh_item list list \<Rightarrow> nat \<Rightarrow> lh_next \<Rightarrow> bool" where
  "next_ok bs b cur \<longleftrightarrow> b < length bs \<and> (case cur of Next_item j \<Rightarrow> j < length (bs ! b) | _ \<Rightarrow> True)"

lemma rest_subset: "next_ok bs b cur \<Longrightarrow> set (rest bs b cur) \<subseteq> set (concat bs)"
proof
  fix it assume ok: "next_ok bs b cur" and it: "it \<in> set (rest bs b cur)"
  from ok have b: "bs ! b \<in> set bs" by (simp add: next_ok_def)
  from it have "it \<in> set (bs ! b) \<or> it \<in> set (concat (drop (Suc b) bs))"
    by (auto simp: rest_def split: lh_next.splits dest: in_set_dropD)
  then show "it \<in> set (concat bs)" using b by (auto dest: in_set_dropD)
qed

lemma rest_cases:
  assumes "b < length bs" and "b' < length bs"
  obtains
    (here) "b' = b" and "\<And>c cur. mset (rest (bs[b' := c]) b cur) =
      mset (case cur of Next_item j \<Rightarrow> drop j c | _ \<Rightarrow> []) + mset (concat (drop (Suc b) bs))"
  | (later) S where "b < b'" and "\<And>c cur. mset (rest (bs[b' := c]) b cur) =
      mset (case cur of Next_item j \<Rightarrow> drop j (bs ! b) | _ \<Rightarrow> []) + mset c + S"
  | (earlier) "b' < b" and "\<And>c cur. mset (rest (bs[b' := c]) b cur) = mset (rest bs b cur)"
proof (cases b' b rule: linorder_cases)
  case less
  then show ?thesis by (intro earlier) (simp_all add: rest_def split: lh_next.split)
next
  case equal
  then show ?thesis using assms by (intro here) (simp_all add: rest_def split: lh_next.split)
next
  case greater
  let ?ds = "drop (Suc b) bs" and ?k = "b' - Suc b"
  have k: "?k < length ?ds" using assms greater by simp
  have "drop (Suc b) (bs[b' := c]) = ?ds[?k := c]" for c using greater by (simp add: drop_update_swap)
  then have "mset (concat (drop (Suc b) (bs[b' := c]))) =
      mset c + (mset (concat (take ?k ?ds)) + mset (concat (drop (Suc ?k) ?ds)))" for c
    using upd_conv_take_nth_drop [OF k, of c] by simp
  then show ?thesis using greater
    by (intro later [of "mset (concat (take ?k ?ds)) + mset (concat (drop (Suc ?k) ?ds))"])
      (simp_all add: rest_def ac_simps split: lh_next.split)
qed

lemma update_same: "b < length bs \<Longrightarrow> rest (bs[b := bs ! b]) = rest bs"
  by simp

text \<open>Replacing an item, adding one at the end of a chain, and removing one.\<close>

lemma mset_nth_update:
  assumes "i < length c"
  obtains S where "mset c = add_mset (c ! i) S" and "\<And>it. mset (c[i := it]) = add_mset it S"
proof
  show "mset c = add_mset (c ! i) (mset (take i c) + mset (drop (Suc i) c))"
    by (subst id_take_nth_drop [OF assms]) simp
  show "mset (c[i := it]) = add_mset it (mset (take i c) + mset (drop (Suc i) c))" for it
    by (simp add: upd_conv_take_nth_drop [OF assms])
qed

lemma mset_drop_update:
  assumes "i < length c"
  shows "(\<exists>S. mset (drop j c) = add_mset (c ! i) S \<and> mset (drop j (c[i := it])) = add_mset it S) \<or>
    mset (drop j (c[i := it])) = mset (drop j c)"
proof (cases "i < j")
  case False
  then have "i - j < length (drop j c)" using assms by simp
  from mset_nth_update [OF this] obtain S where "mset (drop j c) = add_mset (drop j c ! (i - j)) S"
    "mset ((drop j c)[i - j := it]) = add_mset it S" by blast
  then show ?thesis using False assms by (auto simp: drop_update_swap)
qed simp

lemma rest_replace:
  assumes "next_ok bs b cur" and "b' < length bs" and "i < length (bs ! b')"
  shows "(\<exists>R. mset (rest bs b cur) = add_mset (bs ! b' ! i) R \<and>
      mset (rest (bs[b' := (bs ! b')[i := it]]) b cur) = add_mset it R) \<or>
    mset (rest (bs[b' := (bs ! b')[i := it]]) b cur) = mset (rest bs b cur)"
proof -
  have b: "b < length bs" using assms(1) by (simp add: next_ok_def)
  from b assms(2) show ?thesis
  proof (cases rule: rest_cases)
    case here
    note r = here(2) [of "bs ! b'" cur, simplified] here(2) [of "(bs ! b')[i := it]" cur]
    show ?thesis
    proof (cases cur)
      case (Next_item j)
      from mset_drop_update [OF assms(3), of j it] show ?thesis
        unfolding r unfolding Next_item by auto
    qed (use r in simp_all)
  next
    case (later S)
    from mset_nth_update [OF assms(3)] obtain T where "mset (bs ! b') = add_mset (bs ! b' ! i) T"
      "mset ((bs ! b')[i := it]) = add_mset it T" by blast
    with later(2) [of "bs ! b'" cur] later(2) [of "(bs ! b')[i := it]" cur] show ?thesis by auto
  qed simp
qed

lemma rest_append:
  assumes "next_ok bs b cur" and "b' < length bs"
  shows "mset (rest (bs[b' := bs ! b' @ [it]]) b cur) = mset (rest bs b cur) \<or>
    mset (rest (bs[b' := bs ! b' @ [it]]) b cur) = add_mset it (mset (rest bs b cur))"
proof -
  have b: "b < length bs" using assms(1) by (simp add: next_ok_def)
  from b assms(2) show ?thesis
  proof (cases rule: rest_cases)
    case here
    from here(2) [of "bs ! b'" cur] here(2) [of "bs ! b' @ [it]" cur] show ?thesis
      using assms(1) here(1) by (cases cur) (auto simp: next_ok_def)
  next
    case (later S)
    from later(2) [of "bs ! b'" cur] later(2) [of "bs ! b' @ [it]" cur] show ?thesis by auto
  qed simp
qed

definition next_removed :: "nat \<Rightarrow> nat \<Rightarrow> nat \<Rightarrow> lh_next \<Rightarrow> lh_next" where
  "next_removed b' i b cur =
     (case cur of
        Next_item j \<Rightarrow>
          if b' \<noteq> b \<or> j < i then Next_item j else if i = j then Next_freed else Next_item (j - 1)
      | _ \<Rightarrow> cur)"

lemma rest_remove:
  assumes "next_ok bs b cur" and "b' < length bs" and i: "i < length (bs ! b')"
    and bs': "bs' = bs[b' := take i (bs ! b') @ drop (Suc i) (bs ! b')]"
    and cur': "cur' = next_removed b' i b cur"
  shows "next_ok bs' b cur'" and
    "mset (rest bs' b cur') = mset (rest bs b cur) \<and> (cur' = Next_freed \<longrightarrow> cur = Next_freed) \<or>
     (cur' = Next_freed \<or> mset (rest bs b cur) = add_mset (bs ! b' ! i) (mset (rest bs' b cur'))) \<and>
       bs ! b' ! i \<in> set (rest bs b cur)"
proof -
  let ?c = "take i (bs ! b') @ drop (Suc i) (bs ! b')"
  have b: "b < length bs" using assms(1) by (simp add: next_ok_def)
  show "next_ok bs' b cur'"
    using assms(1) i unfolding bs' cur' next_ok_def next_removed_def
    by (cases "b' = b") (auto split: lh_next.splits)
  have c: "mset (bs ! b') = add_mset (bs ! b' ! i) (mset ?c)"
    by (subst id_take_nth_drop [OF i]) simp
  from b assms(2)
  show "mset (rest bs' b cur') = mset (rest bs b cur) \<and> (cur' = Next_freed \<longrightarrow> cur = Next_freed) \<or>
     (cur' = Next_freed \<or> mset (rest bs b cur) = add_mset (bs ! b' ! i) (mset (rest bs' b cur'))) \<and>
       bs ! b' ! i \<in> set (rest bs b cur)"
  proof (cases rule: rest_cases)
    case here
    note r = here(2) [of "bs ! b'" cur] here(2) [of ?c cur']
    show ?thesis
    proof (cases cur)
      case (Next_item j)
      consider "j < i" | "i = j" | "i < j" by linarith
      then show ?thesis
      proof cases
        case 1
        have "mset (drop j (bs ! b')) = add_mset (bs ! b' ! i) (mset (drop j ?c))"
          by (subst id_take_nth_drop [OF i]) (use 1 i in \<open>simp add: min_def\<close>)
        moreover have "cur' = Next_item j" using 1 Next_item by (simp add: cur' next_removed_def)
        ultimately have "mset (rest bs b cur) = add_mset (bs ! b' ! i) (mset (rest bs' b cur'))"
          using r Next_item unfolding bs' by simp
        moreover from this have "bs ! b' ! i \<in> set (rest bs b cur)"
          by (metis set_mset_mset union_single_eq_member)
        ultimately show ?thesis by blast
      next
        case 2
        then have "bs ! b' ! i \<in> set (drop j (bs ! b'))" using i by (auto simp: in_set_conv_nth intro!: exI [of _ 0])
        then have "bs ! b' ! i \<in> set (rest bs b cur)" using here(1) Next_item by (simp add: rest_def)
        moreover have "cur' = Next_freed" using 2 here(1) Next_item by (simp add: cur' next_removed_def)
        ultimately show ?thesis by blast
      next
        case 3
        have "drop (j - 1) ?c = drop j (bs ! b')" using 3 i by (simp add: min_def)
        moreover have "cur' = Next_item (j - 1)" using 3 here(1) Next_item by (simp add: cur' next_removed_def)
        ultimately show ?thesis using r Next_item unfolding bs' by simp
      qed
    qed (use r in \<open>simp_all add: bs' cur' next_removed_def\<close>)
  next
    case (later S)
    have "cur' = cur" using later(1) by (auto simp: cur' next_removed_def split: lh_next.split)
    with later(2) [of "bs ! b'" cur] later(2) [of ?c cur] c
    have "mset (rest bs b cur) = add_mset (bs ! b' ! i) (mset (rest bs' b cur'))" by (simp add: bs')
    moreover from this have "bs ! b' ! i \<in> set (rest bs b cur)"
      by (metis set_mset_mset union_single_eq_member)
    ultimately show ?thesis by blast
  next
    case earlier
    have "cur' = cur" using earlier(1) by (auto simp: cur' next_removed_def split: lh_next.split)
    with earlier(2) show ?thesis by (simp add: bs')
  qed
qed

section \<open>Calls made by the callback\<close>

lemma next_ok_update:
  "next_ok bs b cur \<Longrightarrow> length (bs ! b') \<le> length c \<Longrightarrow> next_ok (bs[b' := c]) b cur"
  by (cases "b' = b") (auto simp: next_ok_def split: lh_next.splits)

lemma next_after_delete:
  "get_next_ptr_and_hash lh d = (b', i, h) \<Longrightarrow> i < length (lh_buckets lh ! b') \<Longrightarrow>
    next_after lh (Lh_delete d) b cur = next_removed b' i b cur"
  by (cases cur) (auto simp: next_removed_def)

lemma next_after_missing:
  "get_next_ptr_and_hash lh d = (b', i, h) \<Longrightarrow> \<not> i < length (lh_buckets lh ! b') \<Longrightarrow>
    next_after lh (Lh_delete d) b cur = cur"
  by (cases cur) auto

lemma next_after_freed: "next_after lh c b Next_freed = Next_freed"
  by (cases c) simp_all

lemma callback_calls_freed: "snd (callback_calls malloc b cs lh Next_freed) = Next_freed"
  by (induction cs arbitrary: lh) (simp_all add: next_after_freed)

lemma no_resize: "0 < lh_callback_depth lh \<Longrightarrow> lh_maybe_resize malloc lh = lh"
  by (simp add: lh_maybe_resize_def)

text \<open>
  The calls that do not disturb the iteration at the element \<open>p\<close>, for a set \<open>N\<close> of new elements: inserting
  and deleting elements of \<open>N\<close>, and deleting \<open>p\<close> itself.
\<close>

fun undisturbing :: "(ptr \<Rightarrow> ptr \<Rightarrow> int) \<Rightarrow> ptr set \<Rightarrow> ptr \<Rightarrow> lh_call \<Rightarrow> bool" where
  "undisturbing cmp N p (Lh_insert q) \<longleftrightarrow> q \<in> N"
| "undisturbing cmp N p (Lh_delete d) \<longleftrightarrow> cmp p d = 0 \<or> d \<in> N"
| "undisturbing cmp N p c \<longleftrightarrow> True"

text \<open>The calls under which the iteration comes to its end: those that delete no new element.\<close>

fun keeps_new :: "(ptr \<Rightarrow> ptr \<Rightarrow> int) \<Rightarrow> ptr set \<Rightarrow> ptr \<Rightarrow> lh_call \<Rightarrow> bool" where
  "keeps_new cmp N p (Lh_insert q) \<longleftrightarrow> q \<in> N"
| "keeps_new cmp N p (Lh_delete d) \<longleftrightarrow> p \<notin> N \<and> cmp p d = 0"
| "keeps_new cmp N p c \<longleftrightarrow> True"

definition deletes :: "(ptr \<Rightarrow> ptr \<Rightarrow> int) \<Rightarrow> ptr \<Rightarrow> lh_call list \<Rightarrow> bool" where
  "deletes cmp p cs \<longleftrightarrow> (\<exists>c\<in>set cs. case c of Lh_delete d \<Rightarrow> cmp p d = 0 | _ \<Rightarrow> False)"

definition olds :: "ptr set \<Rightarrow> ptr multiset \<Rightarrow> ptr multiset" where
  "olds N = filter_mset (\<lambda>x. x \<notin> N)"

text \<open>A set \<open>N\<close> of new elements for the elements \<open>M\<close> of a table, and a table during the iteration.\<close>

definition newcomers :: "(ptr \<Rightarrow> ptr \<Rightarrow> int) \<Rightarrow> ptr multiset \<Rightarrow> ptr set \<Rightarrow> bool" where
  "newcomers cmp M N \<longleftrightarrow> finite N \<and> size M + card N + 1 < 2 ^ 63 \<and> unique cmp M \<and>
     (\<forall>x\<in>#M. \<forall>q\<in>N. cmp x q \<noteq> 0)"

definition iterated :: "(ptr \<Rightarrow> u32) \<Rightarrow> (ptr \<Rightarrow> ptr \<Rightarrow> int) \<Rightarrow> ptr multiset \<Rightarrow> ptr set \<Rightarrow> lhash \<Rightarrow> bool" where
  "iterated hash cmp M N lh \<longleftrightarrow> lh_ok hash cmp lh \<and> 0 < lh_callback_depth lh \<and>
     (\<forall>x\<in>#members lh. x \<in># M \<or> x \<in> N)"

abbreviation pending :: "lhash \<Rightarrow> nat \<Rightarrow> lh_next \<Rightarrow> ptr multiset" where
  "pending lh b cur \<equiv> image_mset fst (mset (rest (lh_buckets lh) b cur))"

text \<open>What an iteration still has to do: new elements that may come, and elements to be visited.\<close>

definition news :: "ptr set \<Rightarrow> ptr multiset \<Rightarrow> ptr multiset" where
  "news N = filter_mset (\<lambda>x. x \<in> N)"

abbreviation work :: "ptr set \<Rightarrow> lhash \<Rightarrow> nat \<Rightarrow> lh_next \<Rightarrow> nat" where
  "work N lh b cur \<equiv> (card N - size (news N (members lh))) + size (pending lh b cur)"

lemma news_simps [simp]:
  "news N {#} = {#}" "news N (add_mset x A) = (if x \<in> N then add_mset x (news N A) else news N A)"
  by (simp_all add: news_def)

lemma iteratedD:
  assumes "iterated hash cmp M N lh"
  shows "lh_ok hash cmp lh" and "0 < lh_callback_depth lh" and "x \<in># members lh \<Longrightarrow> x \<in># M \<or> x \<in> N"
  using assms by (simp_all add: iterated_def)

lemma olds_simps [simp]:
  "olds N {#} = {#}" "olds N (A + B) = olds N A + olds N B"
  "olds N (add_mset x A) = (if x \<in> N then olds N A else add_mset x (olds N A))"
  by (simp_all add: olds_def)

lemma filter_mset_all: "(\<And>x. x \<in># A \<Longrightarrow> P x) \<Longrightarrow> filter_mset P A = A"
  by (induction A) auto

context hashing
begin

lemma unique_size:
  assumes "unique cmp A" shows "size A = card (set_mset A)"
proof -
  have "count A x = 1" if "x \<in># A" for x
  proof -
    have "filter_mset (\<lambda>y. cmp x y = 0) A = {#x#}" using assms that by (simp add: unique_def)
    then have "count (filter_mset (\<lambda>y. cmp x y = 0) A) x = 1" by simp
    then show ?thesis by (simp add: eq_refl)
  qed
  then show ?thesis by (simp add: size_multiset_overloaded_eq)
qed

lemma iterated_size:
  assumes "newcomers cmp M N" and "iterated hash cmp M N lh"
  shows "lh_items lh + 1 < 2 ^ 63"
proof -
  note w = lh_okD [OF iteratedD(1) [OF assms(2)]]
  have n: "finite N" "size M + card N + 1 < 2 ^ 63" "unique cmp M" using assms(1) by (simp_all add: newcomers_def)
  have "card (set_mset (members lh)) \<le> card (set_mset M \<union> N)"
    using iteratedD(3) [OF assms(2)] n(1) by (intro card_mono) auto
  also have "\<dots> \<le> card (set_mset M) + card N" by (rule card_Un_le)
  finally show ?thesis using w(7) unique_size [OF w(6)] unique_size [OF n(3)] n(2) by simp
qed

lemma news_size:
  assumes "newcomers cmp M N" and "iterated hash cmp M N lh"
  shows "size (news N (members lh)) \<le> card N"
proof -
  have u: "unique cmp (members lh)" by (rule lh_okD(6) [OF iteratedD(1) [OF assms(2)]])
  have "filter_mset (\<lambda>y. cmp x y = 0) (news N (members lh)) = {#x#}" if x: "x \<in># news N (members lh)" for x
  proof -
    have "filter_mset (\<lambda>y. cmp x y = 0) (news N (members lh)) = news N (filter_mset (\<lambda>y. cmp x y = 0) (members lh))"
      by (simp add: news_def filter_filter_mset conj_commute)
    also have "filter_mset (\<lambda>y. cmp x y = 0) (members lh) = {#x#}"
      using u x by (simp add: unique_def news_def)
    finally show ?thesis using x by (simp add: news_def)
  qed
  then have "unique cmp (news N (members lh))" by (simp add: unique_def)
  from unique_size [OF this] show ?thesis
    using assms(1) by (simp add: newcomers_def news_def) (auto intro: card_mono)
qed

lemma equal_new:
  assumes "newcomers cmp M N" and "iterated hash cmp M N lh" and "x \<in># members lh" "cmp x q = 0" "q \<in> N"
  shows "x \<in> N"
  using assms by (auto simp: newcomers_def dest: iteratedD(3))

lemma equal_visited:
  assumes n: "newcomers cmp M N" and it: "iterated hash cmp M N lh" and x: "x \<in># members lh"
    and e: "cmp x d = 0" "cmp p d = 0" and p: "p \<in># M \<or> p \<in> N"
  shows "x = p \<and> p \<notin> N \<or> x \<in> N \<and> p \<in> N"
proof -
  have xp: "cmp x p = 0" by (rule eq_trans [OF e(1) eq_sym [OF e(2)]])
  have N: "cmp y q \<noteq> 0" if "y \<in># M" "q \<in> N" for y q using n that by (simp add: newcomers_def)
  have MN: "y \<notin> N" if "y \<in># M" for y using N [OF that, of y] eq_refl by blast
  have "x \<in># M \<or> x \<in> N" by (rule iteratedD(3) [OF it x])
  moreover have "x = p" if "x \<in># M" "p \<in># M"
  proof -
    have "filter_mset (\<lambda>y. cmp x y = 0) M = {#x#}" using n that by (simp add: newcomers_def unique_def)
    moreover have "p \<in># filter_mset (\<lambda>y. cmp x y = 0) M" using that xp by simp
    ultimately show ?thesis by simp
  qed
  ultimately show ?thesis using p N [of x p] N [of p x] xp eq_sym [OF xp] MN by blast
qed

text \<open>One call: the elements that are not new, in the table and among those still to be visited.\<close>

lemma inserted:
  assumes "malloc_ok malloc" and n: "newcomers cmp M N" and it: "iterated hash cmp M N lh"
    and nx: "next_ok (lh_buckets lh) b cur" and q: "q \<in> N"
    and lh': "lh' = snd (run_lh malloc (Lh_insert q) lh)"
  shows "iterated hash cmp M N lh' \<and> lh_num_buckets lh' = lh_num_buckets lh \<and>
    lh_callback_depth lh' = lh_callback_depth lh \<and> next_ok (lh_buckets lh') b cur \<and>
    olds N (pending lh' b cur) = olds N (pending lh b cur) \<and> olds N (members lh') = olds N (members lh) \<and>
    work N lh' b cur \<le> work N lh b cur"
proof -
  note ok = iteratedD(1) [OF it]
  obtain b' i h where g: "get_next_ptr_and_hash lh q = (b', i, h)" by (rule prod_cases3)
  let ?c = "lh_buckets lh ! b'"
  note b' = located(1) [OF ok g]
  show ?thesis
  proof (cases "i < length ?c")
    case True
    have e: "lh' = lh\<lparr>lh_buckets := (lh_buckets lh)[b' := ?c[i := (q, snd (?c ! i))]]\<rparr>"
      using True by (simp add: lh' lh_insert_def g Let_def)
    obtain x A where x: "lh_ok hash cmp lh'" "lh_map lh q = Some x" "x = fst (?c ! i)"
      "members lh = add_mset x A" "members lh' = add_mset q A"
      using insert_replaces [OF ok g True e] by blast
    have "x \<in># members lh" "cmp x q = 0" using x(2) map_iff [OF ok] by blast+
    then have xN: "x \<in> N" using equal_new [OF n it _ _ q] by blast
    have "olds N (pending lh' b cur) = olds N (pending lh b cur)"
      using rest_replace [OF nx b' True, of "(q, snd (?c ! i))"] xN q unfolding x(3) e by auto
    moreover have "next_ok (lh_buckets lh') b cur" using next_ok_update [OF nx] by (simp add: e)
    moreover have "iterated hash cmp M N lh'"
      using it x(1,4,5) q unfolding iterated_def by (auto simp: e)
    moreover have "size (pending lh' b cur) = size (pending lh b cur)"
      using rest_replace [OF nx b' True, of "(q, snd (?c ! i))"] unfolding e by (auto simp del: size_mset)
    moreover have "size (news N (members lh')) = size (news N (members lh))" unfolding x(4,5) using xN q by simp
    ultimately show ?thesis using x(4,5) xN q by (simp add: e)
  next
    case False
    show ?thesis
    proof (cases "OPENSSL_malloc malloc sizeof_LHASH_ITEM")
      case None
      then have "lh' = lh" using False by (simp add: lh' lh_insert_def g Let_def)
      then show ?thesis using it nx by simp
    next
      case (Some a)
      have small: "lh_items lh + 1 < 2 ^ 63" by (rule iterated_size [OF n it])
      have e: "lh' = lh\<lparr>lh_buckets := (lh_buckets lh)[b' := ?c @ [(q, h)]], lh_items := lh_items lh + 1\<rparr>"
        using False Some small iteratedD(2) [OF it]
        by (simp add: lh' lh_insert_def g Let_def no_resize)
      from insert_adds [OF assms(1) ok g False small e]
      have x: "lh_ok hash cmp lh'" "members lh' = add_mset q (members lh)" by blast+
      have "olds N (pending lh' b cur) = olds N (pending lh b cur)"
        using rest_append [OF nx b', of "(q, h)"] q unfolding e by auto
      moreover have "next_ok (lh_buckets lh') b cur" using next_ok_update [OF nx] by (simp add: e)
      moreover have "iterated hash cmp M N lh'"
        using it x q unfolding iterated_def by (auto simp: e)
      moreover have "size (pending lh' b cur) \<le> Suc (size (pending lh b cur))"
        using rest_append [OF nx b', of "(q, h)"] unfolding e by (auto simp del: size_mset)
      moreover have "size (news N (members lh')) = Suc (size (news N (members lh)))" unfolding x(2) using q by simp
      moreover from calculation(3) have "size (news N (members lh')) \<le> card N" by (rule news_size [OF n])
      ultimately show ?thesis using x(2) q by (simp add: e)
    qed
  qed
qed

lemma deleted:
  assumes n: "newcomers cmp M N" and it: "iterated hash cmp M N lh"
    and nx: "next_ok (lh_buckets lh) b cur" and d: "cmp p d = 0 \<or> d \<in> N"
    and p: "p \<in># M \<or> p \<in> N" and gone: "p \<notin># olds N (pending lh b cur)" and alive: "cur \<noteq> Next_freed"
    and lh': "lh' = snd (run_lh malloc (Lh_delete d) lh)" and cur': "cur' = next_after lh (Lh_delete d) b cur"
  shows "iterated hash cmp M N lh' \<and> lh_num_buckets lh' = lh_num_buckets lh \<and>
    lh_callback_depth lh' = lh_callback_depth lh \<and> next_ok (lh_buckets lh') b cur' \<and>
    (p \<notin> N \<and> cmp p d = 0 \<longrightarrow> cur' \<noteq> Next_freed \<and> work N lh' b cur' \<le> work N lh b cur) \<and>
    (cur' \<noteq> Next_freed \<longrightarrow> olds N (pending lh' b cur') = olds N (pending lh b cur)) \<and>
    olds N (members lh') = filter_mset (\<lambda>x. \<not> (x = p \<and> cmp p d = 0)) (olds N (members lh))"
proof -
  note ok = iteratedD(1) [OF it]
  obtain b' i h where g: "get_next_ptr_and_hash lh d = (b', i, h)" by (rule prod_cases3)
  let ?c = "lh_buckets lh ! b'"
  note b' = located(1) [OF ok g]
  show ?thesis
  proof (cases "i < length ?c")
    case False
    then have e: "lh' = lh" "cur' = cur"
      using next_after_missing [OF g False] by (simp_all add: lh' cur' lh_delete_def g Let_def)
    have "lh_map lh d = None" by (rule located(5) [OF ok g False])
    then have "\<forall>x\<in>#members lh. cmp x d \<noteq> 0" using map_None [OF ok] by blast
    then have "\<not> (y = p \<and> cmp p d = 0)" if "y \<in># olds N (members lh)" for y
      using that by (auto simp: olds_def)
    then have "filter_mset (\<lambda>x. \<not> (x = p \<and> cmp p d = 0)) (olds N (members lh)) = olds N (members lh)"
      by (rule filter_mset_all)
    then show ?thesis using it nx alive unfolding e by simp
  next
    case True
    let ?x = "fst (?c ! i)"
    let ?bs = "(lh_buckets lh)[b' := take i ?c @ drop (Suc i) ?c]"
    have e: "lh' = lh\<lparr>lh_buckets := ?bs, lh_items := add_size (lh_items lh) (2 ^ 64 - 1)\<rparr>"
      using True iteratedD(2) [OF it] by (simp add: lh' lh_delete_def g Let_def no_resize)
    have e': "lh_buckets lh' = ?bs" "lh_num_buckets lh' = lh_num_buckets lh"
      "lh_callback_depth lh' = lh_callback_depth lh" by (simp_all add: e)
    have x: "lh_ok hash cmp lh'" "lh_map lh d = Some ?x" "members lh = add_mset ?x (members lh')"
      using delete_removes [OF ok g True e] by blast+
    have m: "?x \<in># members lh" "cmp ?x d = 0" using x(2) map_iff [OF ok] by blast+
    have r: "cur' = next_removed b' i b cur" using next_after_delete [OF g True] by (simp add: cur')
    have xN: "?x \<in> N \<or> ?x = p \<and> p \<notin> N \<and> cmp p d = 0"
      using equal_new [OF n it m] equal_visited [OF n it m _ p] d by blast
    have i': "iterated hash cmp M N lh'"
      using it x(1,3) unfolding iterated_def e'(3) by auto
    have u: "unique cmp (add_mset ?x (members lh'))" using lh_okD(6) [OF ok] x(3) by simp
    have mem: "olds N (members lh') = filter_mset (\<lambda>x. \<not> (x = p \<and> cmp p d = 0)) (olds N (members lh))"
    proof (cases "?x \<in> N")
      case True
      have "\<not> (y = p \<and> cmp p d = 0)" if "y \<in># olds N (members lh')" for y
        using equal_visited [OF n it m _ p] that True by (auto simp: olds_def)
      then have "filter_mset (\<lambda>x. \<not> (x = p \<and> cmp p d = 0)) (olds N (members lh')) = olds N (members lh')"
        by (rule filter_mset_all)
      then show ?thesis using True unfolding x(3) by simp
    next
      case False
      with xN have xp: "?x = p" "p \<notin> N" "cmp p d = 0" by blast+
      have "y \<noteq> p" if "y \<in># olds N (members lh')" for y
        using that u eq_refl unfolding unique_add xp(1) by (auto simp: olds_def)
      then have "\<not> (y = p \<and> cmp p d = 0)" if "y \<in># olds N (members lh')" for y using that by blast
      then have "filter_mset (\<lambda>x. \<not> (x = p \<and> cmp p d = 0)) (olds N (members lh')) = olds N (members lh')"
        by (rule filter_mset_all)
      then show ?thesis using xp unfolding x(3) by simp
    qed
    have rest: "(p \<notin> N \<and> cmp p d = 0 \<longrightarrow> cur' \<noteq> Next_freed \<and> work N lh' b cur' \<le> work N lh b cur) \<and>
      (cur' \<noteq> Next_freed \<longrightarrow> olds N (pending lh' b cur') = olds N (pending lh b cur))"
    proof (cases "?c ! i \<in> set (rest (lh_buckets lh) b cur)")
      case True
      then have "?x \<in># pending lh b cur" by auto
      then have "?x \<in> N" using xN gone by (auto simp: olds_def)
      moreover from this have "\<not> (p \<notin> N \<and> cmp p d = 0)" using equal_visited [OF n it m _ p] by blast
      ultimately show ?thesis using rest_remove(2) [OF nx b' \<open>i < length ?c\<close> e'(1) r] by auto
    next
      case False
      with rest_remove(2) [OF nx b' True e'(1) r] alive
      have s: "mset (rest (lh_buckets lh') b cur') = mset (rest (lh_buckets lh) b cur)" "cur' \<noteq> Next_freed" by blast+
      have "work N lh' b cur' \<le> work N lh b cur" if "p \<notin> N" "cmp p d = 0"
      proof -
        have "?x \<notin> N" using equal_visited [OF n it m that(2) p] that(1) by blast
        then show ?thesis unfolding s(1) x(3) by simp
      qed
      with s show ?thesis by simp
    qed
    show ?thesis using i' e'(2,3) rest_remove(1) [OF nx b' True e'(1) r] rest mem by blast
  qed
qed

lemma called:
  assumes "malloc_ok malloc" and n: "newcomers cmp M N" and "iterated hash cmp M N lh"
    and "next_ok (lh_buckets lh) b cur" and "\<forall>c\<in>set cs. undisturbing cmp N p c"
    and p: "p \<in># M \<or> p \<in> N" and "p \<notin># olds N (pending lh b cur)" and "cur \<noteq> Next_freed"
    and "callback_calls malloc b cs lh cur = (lh', cur')"
  shows "((\<forall>c\<in>set cs. keeps_new cmp N p c) \<longrightarrow> cur' \<noteq> Next_freed \<and> work N lh' b cur' \<le> work N lh b cur) \<and>
    (cur' \<noteq> Next_freed \<longrightarrow> iterated hash cmp M N lh' \<and> lh_num_buckets lh' = lh_num_buckets lh \<and>
    next_ok (lh_buckets lh') b cur' \<and> olds N (pending lh' b cur') = olds N (pending lh b cur) \<and>
    olds N (members lh') = filter_mset (\<lambda>x. \<not> (x = p \<and> deletes cmp p cs)) (olds N (members lh)))"
  using assms(3-5,7-)
proof (induction cs arbitrary: lh cur)
  case Nil
  then show ?case by (auto simp: deletes_def)
next
  case (Cons c cs)
  let ?l = "snd (run_lh malloc c lh)" and ?nx = "next_after lh c b cur"
  have step: "(keeps_new cmp N p c \<longrightarrow> ?nx \<noteq> Next_freed \<and> work N ?l b ?nx \<le> work N lh b cur) \<and> iterated hash cmp M N ?l \<and> lh_num_buckets ?l = lh_num_buckets lh \<and>
    next_ok (lh_buckets ?l) b ?nx \<and> (?nx \<noteq> Next_freed \<longrightarrow> olds N (pending ?l b ?nx) = olds N (pending lh b cur)) \<and>
    olds N (members ?l) = filter_mset (\<lambda>x. \<not> (x = p \<and> deletes cmp p [c])) (olds N (members lh))"
  proof (cases c)
    case (Lh_insert q)
    have q: "q \<in> N" using Cons.prems(3) Lh_insert by simp
    from inserted [OF assms(1) n Cons.prems(1,2) q refl] show ?thesis
      using Cons.prems(5) unfolding Lh_insert by (simp add: deletes_def)
  next
    case (Lh_delete d)
    have d: "cmp p d = 0 \<or> d \<in> N" using Cons.prems(3) Lh_delete by simp
    have s: "deletes cmp p [Lh_delete d] = (cmp p d = 0)" by (simp add: deletes_def)
    from deleted [OF n Cons.prems(1,2) d p Cons.prems(4,5) refl refl, of malloc] show ?thesis
      unfolding Lh_delete s keeps_new.simps by blast
  qed (use Cons.prems in \<open>simp_all add: deletes_def\<close>)
  have e: "callback_calls malloc b cs ?l ?nx = (lh', cur')" using Cons.prems(6) by simp
  show ?case
  proof (cases "?nx = Next_freed")
    case True
    then show ?thesis using e step callback_calls_freed [of malloc b cs ?l] by simp
  next
    case False
    have f: "filter_mset (\<lambda>x. \<not> (x = p \<and> deletes cmp p cs)) (filter_mset (\<lambda>x. \<not> (x = p \<and> deletes cmp p [c])) A) =
        filter_mset (\<lambda>x. \<not> (x = p \<and> deletes cmp p (c # cs))) A" for A :: "ptr multiset"
      by (simp add: filter_filter_mset deletes_def) (rule filter_mset_cong; auto)
    note st = step [THEN conjunct2, THEN conjunct1] step [THEN conjunct2, THEN conjunct2, THEN conjunct1]
      step [THEN conjunct2, THEN conjunct2, THEN conjunct2, THEN conjunct1]
      step [THEN conjunct2, THEN conjunct2, THEN conjunct2, THEN conjunct2, THEN conjunct1, THEN mp, OF False]
      step [THEN conjunct2, THEN conjunct2, THEN conjunct2, THEN conjunct2, THEN conjunct2]
    have "\<forall>c\<in>set cs. undisturbing cmp N p c" and "p \<notin># olds N (pending ?l b ?nx)"
      using Cons.prems(3,4) st(4) by simp_all
    from Cons.IH [OF st(1,3) this False e]
    have IH: "(\<forall>c\<in>set cs. keeps_new cmp N p c) \<longrightarrow> cur' \<noteq> Next_freed \<and> work N lh' b cur' \<le> work N ?l b ?nx"
      and "cur' \<noteq> Next_freed \<longrightarrow> iterated hash cmp M N lh' \<and> lh_num_buckets lh' = lh_num_buckets lh \<and>
        next_ok (lh_buckets lh') b cur' \<and> olds N (pending lh' b cur') = olds N (pending lh b cur) \<and>
        olds N (members lh') = filter_mset (\<lambda>x. \<not> (x = p \<and> deletes cmp p (c # cs))) (olds N (members lh))"
      unfolding st(2,4,5) f by blast+
    moreover have "cur' \<noteq> Next_freed \<and> work N lh' b cur' \<le> work N lh b cur" if "\<forall>c\<in>set (c # cs). keeps_new cmp N p c"
      using IH step [THEN conjunct1] that by (auto intro: order.trans)
    ultimately show ?thesis by blast
  qed
qed

end

section \<open>The loops\<close>

text \<open>The callback, with a record of the elements it was called on and the calls it made there.\<close>

definition logged :: "(ptr \<Rightarrow> lhash \<Rightarrow> 'w \<Rightarrow> lh_call list \<times> 'w) \<Rightarrow>
    ptr \<Rightarrow> lhash \<Rightarrow> 'w \<times> (ptr \<times> lh_call list) list \<Rightarrow> lh_call list \<times> 'w \<times> (ptr \<times> lh_call list) list" where
  "logged func p lh w =
     (case func p lh (fst w) of (cs, w') \<Rightarrow> (cs, w', snd w @ [(p, cs)]))"

text \<open>During the iteration: what has been visited, and the elements \<open>R\<close> still to be visited.\<close>

definition visiting :: "(ptr \<Rightarrow> u32) \<Rightarrow> (ptr \<Rightarrow> ptr \<Rightarrow> int) \<Rightarrow> ptr multiset \<Rightarrow> ptr set \<Rightarrow> lhash \<Rightarrow>
    ptr multiset \<Rightarrow> (ptr \<times> lh_call list) list \<Rightarrow> bool" where
  "visiting hash cmp M N lh R log \<longleftrightarrow> iterated hash cmp M N lh \<and>
     olds N (mset (map fst log)) + olds N R = M \<and> fst ` set log \<subseteq> set_mset M \<union> N \<and>
     (\<forall>(p, cs)\<in>set log. p \<notin> N \<longrightarrow> (p \<in># members lh \<longleftrightarrow> \<not> deletes cmp p cs))"

lemma visitingD:
  assumes "visiting hash cmp M N lh R log"
  shows "iterated hash cmp M N lh" and "olds N (mset (map fst log)) + olds N R = M"
    and "fst ` set log \<subseteq> set_mset M \<union> N"
    and "(p, cs) \<in> set log \<Longrightarrow> p \<notin> N \<Longrightarrow> p \<in># members lh \<longleftrightarrow> \<not> deletes cmp p cs"
  using assms by (auto simp: visiting_def)

lemma in_olds: "x \<in># olds N A \<longleftrightarrow> x \<in># A \<and> x \<notin> N"
  by (auto simp: olds_def)

definition next_item :: "lh_item list \<Rightarrow> nat \<Rightarrow> lh_next" where
  "next_item chain j = (if Suc j < length chain then Next_item (Suc j) else Next_null)"

lemma pending_item:
  assumes "next_ok (lh_buckets lh) b (Next_item j)"
  shows "pending lh b (Next_item j) =
      add_mset (fst (lh_buckets lh ! b ! j)) (pending lh b (next_item (lh_buckets lh ! b) j))"
    and "next_ok (lh_buckets lh) b (next_item (lh_buckets lh ! b) j)"
    and "next_item (lh_buckets lh ! b) j \<noteq> Next_freed"
proof -
  have j: "j < length (lh_buckets lh ! b)" using assms by (simp add: next_ok_def)
  have "drop j (lh_buckets lh ! b) = lh_buckets lh ! b ! j # drop (Suc j) (lh_buckets lh ! b)"
    by (rule Cons_nth_drop_Suc [OF j, symmetric])
  then show "pending lh b (Next_item j) =
      add_mset (fst (lh_buckets lh ! b ! j)) (pending lh b (next_item (lh_buckets lh ! b) j))"
    by (simp add: rest_def next_item_def)
qed (use assms in \<open>simp_all add: next_ok_def next_item_def\<close>)

context hashing
begin

lemma visited:
  assumes "malloc_ok malloc" and n: "newcomers cmp M N"
    and v: "visiting hash cmp M N lh (pending lh b (Next_item j)) log"
    and nx: "next_ok (lh_buckets lh) b (Next_item j)"
    and p: "p = fst (lh_buckets lh ! b ! j)" and cs: "\<forall>c\<in>set cs. undisturbing cmp N p c"
    and r: "callback_calls malloc b cs lh (next_item (lh_buckets lh ! b) j) = (lh', cur')"
  shows "((\<forall>c\<in>set cs. keeps_new cmp N p c) \<longrightarrow> cur' \<noteq> Next_freed \<and> work N lh' b cur' < work N lh b (Next_item j)) \<and>
    (cur' \<noteq> Next_freed \<longrightarrow> visiting hash cmp M N lh' (pending lh' b cur') (log @ [(p, cs)]) \<and>
    lh_num_buckets lh' = lh_num_buckets lh \<and> next_ok (lh_buckets lh') b cur')"
proof -
  let ?nxt = "next_item (lh_buckets lh ! b) j"
  note pi = pending_item [OF nx, folded p]
  note vd = visitingD [OF v]
  have M: "olds N (mset (map fst log)) + olds N (add_mset p (pending lh b ?nxt)) = M"
    using vd(2) unfolding pi(1) .
  have "p \<in> fst ` set (rest (lh_buckets lh) b (Next_item j))"
    using pi(1) by (metis set_image_mset set_mset_mset union_single_eq_member)
  then have pm: "p \<in># members lh" using rest_subset [OF nx] by (auto simp: members_def)
  have pMN: "p \<in># M \<or> p \<in> N" by (rule iteratedD(3) [OF vd(1) pm])
  have uM: "unique cmp M" using n by (simp add: newcomers_def)
  have once: "p \<notin># olds N (mset (map fst log)) + olds N (pending lh b ?nxt)"
  proof
    assume a: "p \<in># olds N (mset (map fst log)) + olds N (pending lh b ?nxt)"
    then have pN: "p \<notin> N" by (auto simp: in_olds)
    then have "M = add_mset p (olds N (mset (map fst log)) + olds N (pending lh b ?nxt))" using M by simp
    with uM have "unique cmp (add_mset p (olds N (mset (map fst log)) + olds N (pending lh b ?nxt)))" by simp
    with a eq_refl show False unfolding unique_add by blast
  qed
  then have gone: "p \<notin># olds N (pending lh b ?nxt)" by simp
  note c = called [OF assms(1) n vd(1) pi(2) cs pMN gone pi(3) r]
  have "work N lh b ?nxt < work N lh b (Next_item j)" unfolding pi(1) by simp
  then have "cur' \<noteq> Next_freed \<and> work N lh' b cur' < work N lh b (Next_item j)" if "\<forall>c\<in>set cs. keeps_new cmp N p c"
    using c that by linarith
  moreover have "visiting hash cmp M N lh' (pending lh' b cur') (log @ [(p, cs)]) \<and>
    lh_num_buckets lh' = lh_num_buckets lh \<and> next_ok (lh_buckets lh') b cur'" if alive: "cur' \<noteq> Next_freed"
  proof -
    have on: "cur' \<noteq> Next_freed" "iterated hash cmp M N lh'"
      "lh_num_buckets lh' = lh_num_buckets lh" "next_ok (lh_buckets lh') b cur'"
      "olds N (pending lh' b cur') = olds N (pending lh b ?nxt)"
      "olds N (members lh') = filter_mset (\<lambda>x. \<not> (x = p \<and> deletes cmp p cs)) (olds N (members lh))"
      using c alive by blast+
    have mem: "x \<in># members lh' \<longleftrightarrow> x \<in># members lh \<and> \<not> (x = p \<and> deletes cmp p cs)" if "x \<notin> N" for x
      using on(6) that in_olds [of x N "members lh'"] in_olds [of x N "members lh"] by simp
    have "q \<in># members lh' \<longleftrightarrow> \<not> deletes cmp q ds" if "(q, ds) \<in> set (log @ [(p, cs)])" "q \<notin> N" for q ds
    proof (cases "(q, ds) \<in> set log")
      case True
      then have "q \<in># olds N (mset (map fst log))" using that(2) by (force simp: in_olds)
      then have "q \<noteq> p" using once by auto
      with True that(2) vd(4) mem show ?thesis by blast
    next
      case False
      then have "q = p" "ds = cs" using that(1) by auto
      with pm mem [of p] that(2) show ?thesis by blast
    qed
    moreover have "olds N (mset (map fst (log @ [(p, cs)]))) + olds N (pending lh' b cur') = M"
      using M on(5) by (cases "p \<in> N") (simp_all add: ac_simps)
    moreover have "fst ` set (log @ [(p, cs)]) \<subseteq> set_mset M \<union> N" using vd(3) pMN by auto
    ultimately have "visiting hash cmp M N lh' (pending lh' b cur') (log @ [(p, cs)])"
      using on(2) unfolding visiting_def by blast
    then show ?thesis using on(3,4) by blast
  qed
  ultimately show ?thesis by blast
qed

lemma chain_step:
  "doall_chain malloc (logged func) b (Next_item j) lh (w, log) =
     (let p = fst (lh_buckets lh ! b ! j); r = func p lh w;
          s = callback_calls malloc b (fst r) lh (next_item (lh_buckets lh ! b) j)
      in doall_chain malloc (logged func) b (snd s) (fst s) (snd r, log @ [(p, fst r)]))"
  by (subst doall_chain.simps) (simp add: Let_def logged_def next_item_def split_beta)

lemma chain_visits:
  assumes "malloc_ok malloc" and n: "newcomers cmp M N"
    and calls: "\<And>p l w. \<forall>c\<in>set (fst (func p l w)). undisturbing cmp N p c"
    and r: "doall_chain malloc (logged func) b cur lh wl = Some r"
    and v: "visiting hash cmp M N lh (pending lh b cur) (snd wl)" "next_ok (lh_buckets lh) b cur"
  shows "visiting hash cmp M N (fst r) (pending (fst r) b Next_null) (snd (snd r)) \<and>
    lh_num_buckets (fst r) = lh_num_buckets lh"
proof -
  let ?Q = "\<lambda>b cur lh wl r.
      visiting hash cmp M N lh (pending lh b cur) (snd wl) \<and> next_ok (lh_buckets lh) b cur \<longrightarrow>
      visiting hash cmp M N (fst r) (pending (fst r) b Next_null) (snd (snd r)) \<and>
      lh_num_buckets (fst r) = lh_num_buckets lh"
  let ?P = "\<lambda>mal f b cur lh wl r. mal = malloc \<and> f = logged func \<longrightarrow> cur \<noteq> Next_freed \<and> ?Q b cur lh wl r"
  have "?P malloc (logged func) b cur lh wl r"
  proof (rule doall_chain.raw_induct [where P = ?P, OF _ r], intro impI)
    fix loop mal f b cur lh wl r
    assume IH: "\<And>mal f b cur lh wl r. loop mal f b cur lh wl = Some r \<Longrightarrow> ?P mal f b cur lh wl r"
      and s: "(case cur of Next_null \<Rightarrow> Some (lh, wl) | Next_item j \<Rightarrow>
          let chain = lh_buckets lh ! b; nxt = if Suc j < length chain then Next_item (Suc j) else Next_null;
              r = f (fst (chain ! j)) lh wl; s = callback_calls mal b (fst r) lh nxt
          in loop mal f b (snd s) (fst s) (snd r)
        | Next_freed \<Rightarrow> None) = Some r"
      and e: "mal = malloc \<and> f = logged func"
    show "cur \<noteq> Next_freed \<and> ?Q b cur lh wl r"
    proof (cases cur)
      case (Next_item j)
      let ?p = "fst (lh_buckets lh ! b ! j)"
      let ?cs = "fst (func ?p lh (fst wl))"
      obtain l' c' where c: "callback_calls malloc b ?cs lh (next_item (lh_buckets lh ! b) j) = (l', c')"
        by fastforce
      have "loop malloc (logged func) b c' l' (snd (func ?p lh (fst wl)), snd wl @ [(?p, ?cs)]) = Some r"
        using s c e by (simp add: Next_item Let_def logged_def next_item_def split_beta)
      from IH [OF this] have q: "c' \<noteq> Next_freed"
        "?Q b c' l' (snd (func ?p lh (fst wl)), snd wl @ [(?p, ?cs)]) r" by blast+
      have "?Q b cur lh wl r"
      proof
        assume v: "visiting hash cmp M N lh (pending lh b cur) (snd wl) \<and> next_ok (lh_buckets lh) b cur"
        from visited [OF assms(1) n _ _ refl calls c] v q(1) Next_item
        have "visiting hash cmp M N l' (pending l' b c') (snd wl @ [(?p, ?cs)]) \<and>
          lh_num_buckets l' = lh_num_buckets lh \<and> next_ok (lh_buckets l') b c'" by blast
        with q(2) show "visiting hash cmp M N (fst r) (pending (fst r) b Next_null) (snd (snd r)) \<and>
          lh_num_buckets (fst r) = lh_num_buckets lh" by simp
      qed
      with Next_item show ?thesis by simp
    qed (use s in auto)
  qed
  with v show ?thesis by blast
qed

text \<open>If no new element is deleted, the inner loop comes to its end: each round leaves less to do.\<close>

lemma chain_returns:
  assumes "malloc_ok malloc" and n: "newcomers cmp M N"
    and calls: "\<And>p l w. \<forall>c\<in>set (fst (func p l w)). undisturbing cmp N p c"
    and keeps: "\<And>p l w. \<forall>c\<in>set (fst (func p l w)). keeps_new cmp N p c"
    and "visiting hash cmp M N lh (pending lh b cur) (snd wl)" and "next_ok (lh_buckets lh) b cur"
    and "cur \<noteq> Next_freed"
  shows "doall_chain malloc (logged func) b cur lh wl \<noteq> None"
  using assms(5-)
proof (induction "work N lh b cur" arbitrary: lh cur wl rule: less_induct)
  case less
  show ?case
  proof (cases cur)
    case (Next_item j)
    let ?p = "fst (lh_buckets lh ! b ! j)"
    let ?cs = "fst (func ?p lh (fst wl))"
    obtain l' c' where c: "callback_calls malloc b ?cs lh (next_item (lh_buckets lh ! b) j) = (l', c')"
      by fastforce
    from visited [OF assms(1) n _ _ refl calls c] less.prems Next_item keeps [of ?p lh "fst wl"]
    have v: "c' \<noteq> Next_freed" "visiting hash cmp M N l' (pending l' b c') (snd wl @ [(?p, ?cs)])"
      "next_ok (lh_buckets l') b c'" "work N l' b c' < work N lh b cur" by blast+
    from less.hyps [OF v(4), of "(snd (func ?p lh (fst wl)), snd wl @ [(?p, ?cs)])"] v(1-3)
    have "doall_chain malloc (logged func) b c' l' (snd (func ?p lh (fst wl)), snd wl @ [(?p, ?cs)]) \<noteq> None"
      by simp
    then show ?thesis using c by (cases wl) (simp add: Next_item chain_step Let_def)
  qed (use less.prems in \<open>simp_all add: doall_chain.simps\<close>)
qed

end

abbreviation first_item :: "lhash \<Rightarrow> nat \<Rightarrow> lh_next" where
  "first_item lh i \<equiv> (if lh_buckets lh ! i = [] then Next_null else Next_item 0)"

definition pending_from :: "lhash \<Rightarrow> nat \<Rightarrow> ptr multiset" where
  "pending_from lh i = image_mset fst (mset (concat (drop i (lh_buckets lh))))"

lemma pending_start:
  assumes "i < length (lh_buckets lh)"
  shows "pending lh i (first_item lh i) = pending_from lh i" and "next_ok (lh_buckets lh) i (first_item lh i)"
    and "first_item lh i \<noteq> Next_freed"
proof -
  have "drop i (lh_buckets lh) = lh_buckets lh ! i # drop (Suc i) (lh_buckets lh)"
    by (rule Cons_nth_drop_Suc [OF assms, symmetric])
  then show "pending lh i (first_item lh i) = pending_from lh i"
    by (simp add: rest_def pending_from_def)
qed (use assms in \<open>simp_all add: next_ok_def\<close>)

lemma pending_finished: "pending lh i Next_null = pending_from lh (Suc i)"
  by (simp add: rest_def pending_from_def)

lemma visiting_length:
  "visiting hash cmp M N lh R log \<Longrightarrow> length (lh_buckets lh) = lh_num_buckets lh"
  by (rule placed_length [OF lh_okD(5) [OF iteratedD(1) [OF visitingD(1)]]])

context hashing
begin

lemma buckets_visits:
  assumes "malloc_ok malloc" and n: "newcomers cmp M N"
    and calls: "\<And>p l w. \<forall>c\<in>set (fst (func p l w)). undisturbing cmp N p c"
    and "visiting hash cmp M N lh (pending_from lh i) (snd wl)"
  shows "((\<forall>p l w. \<forall>c\<in>set (fst (func p l w)). keeps_new cmp N p c) \<longrightarrow>
      doall_buckets malloc (logged func) i lh wl \<noteq> None) \<and>
    (\<forall>r. doall_buckets malloc (logged func) i lh wl = Some r \<longrightarrow>
      visiting hash cmp M N (fst r) {#} (snd (snd r)))"
  using assms(4)
proof (induction "lh_num_buckets lh - i" arbitrary: i lh wl rule: less_induct)
  case less
  note v = less.prems
  show ?case
  proof (cases "i < lh_num_buckets lh")
    case False
    then have "pending_from lh i = {#}" using visiting_length [OF v] by (simp add: pending_from_def)
    with v False show ?thesis by (subst (1 2) doall_buckets.simps) simp
  next
    case True
    then have i: "i < length (lh_buckets lh)" using visiting_length [OF v] by simp
    note st = pending_start [OF i]
    have v': "visiting hash cmp M N lh (pending lh i (first_item lh i)) (snd wl)" unfolding st(1) by (rule v)
    show ?thesis
    proof (cases "doall_chain malloc (logged func) i (first_item lh i) lh wl")
      case None
      have "\<not> (\<forall>p l w. \<forall>c\<in>set (fst (func p l w)). keeps_new cmp N p c)"
        using chain_returns [where func = func, OF assms(1) n calls _ v' st(2,3)] None by blast
      with True None show ?thesis by (subst (1 2) doall_buckets.simps) simp
    next
      case (Some s)
      from chain_visits [OF assms(1) n calls Some v' st(2)]
      have c: "visiting hash cmp M N (fst s) (pending_from (fst s) (Suc i)) (snd (snd s))"
        "lh_num_buckets (fst s) = lh_num_buckets lh" unfolding pending_finished by blast+
      have "lh_num_buckets (fst s) - Suc i < lh_num_buckets lh - i" using True c(2) by simp
      from less.hyps [OF this c(1)] True Some show ?thesis
        by (subst (1 2) doall_buckets.simps) simp
    qed
  qed
qed

lemma ok_depth: "lh_ok hash cmp lh \<Longrightarrow> lh_ok hash cmp (lh\<lparr>lh_callback_depth := n\<rparr>)"
  by (auto simp: lh_ok_def lh_wf_def members_def)

lemma iterates:
  assumes "malloc_ok malloc" and ok: "lh_ok hash cmp lh"
    and N: "finite N" "lh_num_items lh + card N + 1 < 2 ^ 63" "\<forall>x\<in>#members lh. \<forall>q\<in>N. cmp x q \<noteq> 0"
    and calls: "\<And>p l w. \<forall>c\<in>set (fst (func p l w)). undisturbing cmp N p c"
  shows "((\<forall>p l w. \<forall>c\<in>set (fst (func p l w)). keeps_new cmp N p c) \<longrightarrow>
      lh_doall malloc (logged func) (Some lh) (w, []) \<noteq> None) \<and>
    (\<forall>r w' log. lh_doall malloc (logged func) (Some lh) (w, []) = Some (r, w', log) \<longrightarrow>
      (\<exists>lh'. r = Some lh' \<and> lh_ok hash cmp lh' \<and>
        filter_mset (\<lambda>p. p \<notin> N) (mset (map fst log)) = members lh \<and>
        (\<forall>(p, cs)\<in>set log. p \<notin> N \<longrightarrow> (p \<in># members lh' \<longleftrightarrow> \<not> deletes cmp p cs)) \<and>
        set_mset (members lh') \<subseteq> set_mset (members lh) \<union> N))"
proof -
  let ?M = "members lh"
  let ?l = "if lh_callback_depth lh < UINT_MAX then lh\<lparr>lh_callback_depth := lh_callback_depth lh + 1\<rparr> else lh"
  have n: "newcomers cmp ?M N"
    using N lh_okD(6,7) [OF ok] by (simp add: newcomers_def lh_num_items_def)
  have l: "lh_ok hash cmp ?l" "members ?l = ?M" "lh_buckets ?l = lh_buckets lh" "0 < lh_callback_depth ?l"
    using ok ok_depth by (simp_all add: members_def)
  have "\<forall>x\<in>#?M. x \<notin> N" using N(3) eq_refl by blast
  then have "olds N ?M = ?M" unfolding olds_def by (intro filter_mset_all) blast
  then have v: "visiting hash cmp ?M N ?l (pending_from ?l 0) (snd (w, []))"
    using l by (simp add: visiting_def iterated_def pending_from_def members_def)
  note b = buckets_visits [where func = func, OF assms(1) n calls v]
  show ?thesis
  proof (cases "doall_buckets malloc (logged func) 0 ?l (w, [])")
    case None
    then show ?thesis using b by (simp add: lh_doall_def lh_doall_internal_def)
  next
    case (Some s)
    let ?s = "fst s"
    let ?l' = "if lh_callback_depth ?s < UINT_MAX then ?s\<lparr>lh_callback_depth := lh_callback_depth ?s - 1\<rparr> else ?s"
    let ?lh' = "lh_maybe_resize malloc ?l'"
    have v': "visiting hash cmp ?M N ?s {#} (snd (snd s))" using b Some by blast
    note it = visitingD(1) [OF v']
    have "lh_ok hash cmp ?l'" "members ?l' = members ?s"
      using iteratedD(1) [OF it] ok_depth by (simp_all add: members_def)
    then have lh': "lh_ok hash cmp ?lh'" "members ?lh' = members ?s"
      using maybe_resize_ok [OF assms(1)] by metis+
    have e: "lh_doall malloc (logged func) (Some lh) (w, []) = Some (Some ?lh', snd s)"
      using Some by (simp add: lh_doall_def lh_doall_internal_def Let_def split_beta)
    have "filter_mset (\<lambda>p. p \<notin> N) (mset (map fst (snd (snd s)))) = ?M"
      using visitingD(2) [OF v'] by (simp add: olds_def)
    moreover have "\<forall>(p, cs)\<in>set (snd (snd s)). p \<notin> N \<longrightarrow> (p \<in># members ?lh' \<longleftrightarrow> \<not> deletes cmp p cs)"
      unfolding lh'(2) using visitingD(4) [OF v'] by blast
    moreover have "set_mset (members ?lh') \<subseteq> set_mset ?M \<union> N"
      unfolding lh'(2) using iteratedD(3) [OF it] by blast
    ultimately have "\<exists>lh'. Some ?lh' = Some lh' \<and> lh_ok hash cmp lh' \<and>
        filter_mset (\<lambda>p. p \<notin> N) (mset (map fst (snd (snd s)))) = members lh \<and>
        (\<forall>(p, cs)\<in>set (snd (snd s)). p \<notin> N \<longrightarrow> (p \<in># members lh' \<longleftrightarrow> \<not> deletes cmp p cs)) \<and>
        set_mset (members lh') \<subseteq> set_mset (members lh) \<union> N"
      using lh'(1) by blast
    then show ?thesis unfolding e by auto
  qed
qed

end

end
