(* ===== verification/Containers.thy ===== *)
theory Containers
  imports Lhash_Iter "HOL-Library.Code_Target_Nat"
begin

text \<open>
  The properties of the containers of BoringSSL, and the concrete stacks of their witnesses.
\<close>

definition small_malloc :: allocator where
  "small_malloc n = (if n < 1000 then Some (replicate n 0) else None)"

lemma small_malloc_ok: "malloc_ok small_malloc"
  by (auto simp: malloc_ok_def small_malloc_def split: if_splits)

definition demo_stack :: "ptr list \<Rightarrow> ptr \<Rightarrow> bool \<Rightarrow> stack" where
  "demo_stack xs c srt = \<lparr>st_num = length xs, st_data = xs @ [0], st_sorted = srt,
     st_num_alloc = length xs + 1, st_comp = c\<rparr>"

lemma demo_stack_wf: "3 \<le> length xs \<Longrightarrow> length xs < 1000 \<Longrightarrow> stack_wf (demo_stack xs c srt)"
  by (simp add: demo_stack_def stack_wf_def)

lemma demo_stack_fields [simp]:
  "elems (demo_stack xs c srt) = xs" "st_comp (demo_stack xs c srt) = c"
  "st_sorted (demo_stack xs c srt) = srt"
  by (simp_all add: demo_stack_def elems_def)

text \<open>Comparison of the addresses themselves, as the code at every address.\<close>

definition address_cmp :: cmp_code where
  "address_cmp f a b = int a - int b"

lemma address_cmp_ok: "comparator (address_cmp f)"
  by unfold_locales (auto simp: address_cmp_def)

text \<open>C20: A stack is the list of its elements, for the ten operations \<open>sk_push\<close>, \<open>sk_insert\<close>, \<open>sk_delete\<close>,
  \<open>sk_delete_ptr\<close>, \<open>sk_shift\<close>, \<open>sk_pop\<close>, \<open>sk_set\<close>, \<open>sk_value\<close>, \<open>sk_num\<close> and \<open>sk_zero\<close> of \<open>run_stack\<close>. Each of
  them, from whatever well-formed stack, gives the result and the elements that the same operation on the list gives,
  out-of-range indices included, and keeps the stack well-formed; of these only \<open>sk_push\<close> and \<open>sk_insert\<close> may fail instead,
  for lack of memory, and then they return 0 and leave the stack as it was. (Sorting, searching and copying, which depend on
  the comparison function and the \<open>sorted\<close> flag, are not among the ten: see \<open>sk_sort_elems\<close>, \<open>sk_find_returns_first\<close> and
  \<open>sk_deep_copy_no_leak\<close>.)\<close>

theorem stack_refines_list:
  assumes "malloc_ok malloc" and "stack_wf s" and "run_stack malloc c (Some s) = (r, sk')"
  shows "\<exists>s'. sk' = Some s' \<and> stack_wf s' \<and>
    ((r, elems s') = list_call c (elems s) \<or> inserts c \<and> r = 0 \<and> s' = s)"
  by (rule run_stack_refines [OF assms])

lemma stack_refines_list_witness:
  "\<exists>r s'. run_stack small_malloc (Sk_insert 9 1) (Some (demo_stack [5, 6, 7] 0 False)) = (r, Some s') \<and>
     stack_wf s'"
proof -
  let ?c = "run_stack small_malloc (Sk_insert 9 1) (Some (demo_stack [5, 6, 7] 0 False))"
  have c: "?c = (fst ?c, snd ?c)" by simp
  have "stack_wf (demo_stack [5, 6, 7] 0 False)" by (rule demo_stack_wf) simp_all
  from stack_refines_list [OF small_malloc_ok this c] c show ?thesis by metis
qed

text \<open>Searching. With a comparison function, on a stack whose \<open>sorted\<close> flag is truthful,
  \<open>sk_find\<close> leaves the same elements, sorted, and returns the index of the first of them that compares
  equal to the key, or reports that there is none.\<close>

theorem sk_find_returns_first:
  assumes "qsort_ok qsort" and "bsearch_ok bsearch" and "comparator (code (st_comp s))"
    and "st_comp s \<noteq> 0" and "stack_wf s" and "sorted_flag_ok code s" and "p \<noteq> 0"
    and "sk_find code qsort bsearch (Some s) p = (r, sk')"
  shows "\<exists>s'. sk' = Some s' \<and> stack_wf s' \<and> mset (elems s') = mset (elems s) \<and> sorted_flag_ok code s' \<and>
    (case r of
       None \<Rightarrow> \<forall>x\<in>set (elems s'). code (st_comp s) p x \<noteq> 0
     | Some i \<Rightarrow> i < length (elems s') \<and> code (st_comp s) p (elems s' ! i) = 0 \<and>
         (\<forall>j<i. code (st_comp s) p (elems s' ! j) \<noteq> 0))"
  by (rule sk_find_first [OF assms])

text \<open>C33: Copying. Against a record of the live objects, \<open>sk_deep_copy\<close> either returns a well-formed
  stack with a copy of each element that is not null, in order, having made exactly those objects, or
  it returns null and every object it had made is freed again.\<close>

theorem sk_deep_copy_no_leak:
  assumes "malloc_ok malloc" and "stack_wf s" and "copies_live copy_func"
    and "sk_deep_copy malloc copy_func free_live (Some s) w = (r, w')"
  shows "case r of
      None \<Rightarrow> w' = w
    | Some s' \<Rightarrow> stack_wf s' \<and> w' = w + non_null (elems s') \<and>
        list_all2 (copied copy_func) (elems s) (elems s')"
  by (rule sk_deep_copy_spec [OF assms])

definition demo_copy :: "ptr \<Rightarrow> ptr multiset \<Rightarrow> ptr \<times> ptr multiset" where
  "demo_copy p w = (if p = 7 then (0, w) else (p + 100, add_mset (p + 100) w))"

lemma sk_deep_copy_no_leak_witness:
  "sk_deep_copy small_malloc demo_copy free_live (Some (demo_stack [5, 0, 7] 0 False)) {#1#} = (None, {#1#})"
proof -
  let ?s = "demo_stack [5, 0, 7] 0 False"
  let ?r = "sk_deep_copy small_malloc demo_copy free_live (Some ?s) {#1#}"
  have live: "copies_live demo_copy" by (simp add: copies_live_def demo_copy_def)
  have wf: "stack_wf ?s" by (rule demo_stack_wf) simp_all
  have e: "?r = (fst ?r, snd ?r)" by simp
  have d: "sk_dup small_malloc (Some ?s) = Some (demo_stack [5, 0, 7] 0 False)" by code_simp
  have u: "[0..<3] = [0, 1, 2 :: nat]" by code_simp
  have f: "fst ?r = None"
    by (simp add: sk_deep_copy_def d) (simp add: demo_stack_def demo_copy_def u)
  have "snd ?r = {#1#}" using sk_deep_copy_no_leak [OF small_malloc_ok wf live e] f by simp
  with f e show ?thesis by simp
qed

text \<open>The \<open>sorted\<close> flag is not kept truthful. \<open>sk_set\<close> on a sorted stack overwrites an element
  and leaves the flag set, although the elements are no longer in ascending order.\<close>

theorem sk_set_keeps_sorted_flag:
  "sorted_flag_ok address_cmp (demo_stack [3, 5, 7] 1 True) \<and>
   (case sk_set (Some (demo_stack [3, 5, 7] 1 True)) 0 9 of
      (r, Some s') \<Rightarrow> r = 9 \<and> sk_is_sorted (Some s') \<and> \<not> sorted_flag_ok address_cmp s'
    | (r, None) \<Rightarrow> False)"
  by (simp add: sorted_flag_ok_def address_cmp_def sk_set_def demo_stack_def elems_def sk_is_sorted_def
      eval_nat_numeral)

text \<open>C23: A hash table is a map. For hash and comparison functions that agree, every operation on
  a well-formed table returns what the same operation on the map from keys to elements returns, and
  leaves a well-formed table for the resulting map, through every doubling and halving of the bucket
  array; only an insertion may fail instead, for lack of memory, and then it leaves the table as it was.\<close>

theorem lhash_refines_map:
  assumes "malloc_ok malloc" and "hashing hash cmp" and "lh_ok hash cmp lh"
    and "lh_num_items lh + 1 < 2 ^ 63" and "run_lh malloc c lh = ((r, success), lh')"
  shows "lh_ok hash cmp lh' \<and>
    (if success then (r, lh_map lh', lh_num_items lh') = map_call cmp c (lh_map lh) (lh_num_items lh)
     else r = 0 \<and> lh' = lh)"
  by (rule hashing.run_refines [OF assms(2,1,3-5)])

lemma lhash_refines_map_witness:
  "\<exists>lh lh'. lh_new small_malloc ptr_hash ptr_cmp = Some lh \<and>
     run_lh small_malloc (Lh_insert 7) lh = ((0, True), lh') \<and> lh_ok ptr_hash ptr_cmp lh' \<and>
     lh_map lh' 7 = Some 7 \<and> lh_num_items lh' = 1"
proof -
  let ?lh = "the (lh_new small_malloc ptr_hash ptr_cmp)"
  have n: "lh_new small_malloc ptr_hash ptr_cmp = Some ?lh"
    by (simp add: lh_new_def OPENSSL_malloc_def small_malloc_def)
  note k = lh_ptrs.new [OF n]
  let ?r = "run_lh small_malloc (Lh_insert 7) ?lh"
  have r: "?r = ((0, True), snd ?r)"
    by (simp add: lh_new_def OPENSSL_malloc_def small_malloc_def lh_insert_def
        get_next_ptr_and_hash_def ptr_hash_def Let_def)
  have h: "hashing ptr_hash ptr_cmp" by (rule lh_ptrs.hashing_axioms)
  have "lh_num_items ?lh + 1 < 2 ^ 63" using k(3) by (simp add: lh_num_items_def)
  from lhash_refines_map [OF small_malloc_ok h k(1) this r] k r n
  have "lh_ok ptr_hash ptr_cmp (snd ?r) \<and> lh_map (snd ?r) 7 = Some 7 \<and> lh_num_items (snd ?r) = 1"
    by (simp add: ptr_cmp_def lh_num_items_def)
  with n r show ?thesis by blast
qed

text \<open>C37: Iterating while the callback changes the table. Let the callback of \<open>lh_doall\<close>, at each element
  it is called on, make any calls of these kinds: retrieving, counting, deleting that element, and
  inserting and deleting elements of a finite set \<open>N\<close>, none of which is equal to an element the table had
  at the start. Then, whenever \<open>lh_doall\<close> returns, it has called the callback on each of those elements
  exactly once, and on others only if they are in \<open>N\<close>; it leaves a well-formed table, in which an element
  of the start is still contained if and only if the callback did not delete it. It always returns if the
  callback deletes no element of \<open>N\<close> (otherwise it may follow a dangling pointer, or be kept busy for ever).\<close>

theorem lh_doall_visits_each_once:
  assumes "malloc_ok malloc" and "hashing hash cmp" and "lh_ok hash cmp lh"
    and "finite N" and "lh_num_items lh + card N + 1 < 2 ^ 63"
    and "\<forall>x\<in>#members lh. \<forall>q\<in>N. cmp x q \<noteq> 0"
    and "\<And>p l w. \<forall>c\<in>set (fst (func p l w)). undisturbing cmp N p c"
  shows "((\<forall>p l w. \<forall>c\<in>set (fst (func p l w)). keeps_new cmp N p c) \<longrightarrow>
      lh_doall malloc (logged func) (Some lh) (w, []) \<noteq> None) \<and>
    (\<forall>r w' log. lh_doall malloc (logged func) (Some lh) (w, []) = Some (r, w', log) \<longrightarrow>
      (\<exists>lh'. r = Some lh' \<and> lh_ok hash cmp lh' \<and>
        filter_mset (\<lambda>p. p \<notin> N) (mset (map fst log)) = members lh \<and>
        (\<forall>(p, cs)\<in>set log. p \<notin> N \<longrightarrow> (p \<in># members lh' \<longleftrightarrow> \<not> deletes cmp p cs)) \<and>
        set_mset (members lh') \<subseteq> set_mset (members lh) \<union> N))"
  by (rule hashing.iterates [OF assms(2,1,3-7)])

text \<open>A table with two elements in one chain; the callback deletes the first of them and inserts another.\<close>

definition demo_table :: lhash where
  "demo_table = \<lparr>lh_items = 3,
     lh_buckets = (replicate 16 [])[7 := [(7, 7), (23, 23)], 8 := [(8, 8)]],
     lh_num_buckets = 16, lh_callback_depth = 0, lh_comp = ptr_cmp, lh_hash = ptr_hash\<rparr>"

definition demo_visit :: "ptr \<Rightarrow> lhash \<Rightarrow> unit \<Rightarrow> lh_call list \<times> unit" where
  "demo_visit p lh w = (if p = 7 then [Lh_delete 7, Lh_insert 39] else [Lh_retrieve 23], w)"

lemma lh_doall_visits_each_once_witness:
  "\<exists>lh' log. lh_doall small_malloc (logged demo_visit) (Some demo_table) ((), []) = Some (Some lh', (), log) \<and>
     map fst log = [7, 23, 39, 8] \<and> lh_ok ptr_hash ptr_cmp lh' \<and> 7 \<notin># members lh' \<and> 23 \<in># members lh'"
proof -
  have m: "members demo_table = {#7, 23, 8#}" by (simp add: members_def demo_table_def eval_nat_numeral)
  have pl: "placed ptr_hash 16 (lh_buckets demo_table)"
    by (simp add: demo_table_def) (intro placed_update placed_empty; simp add: ptr_hash_def)
  have ok: "lh_ok ptr_hash ptr_cmp demo_table"
    unfolding lh_ok_def lh_wf_def m using pl
    by (simp add: demo_table_def unique_def ptr_cmp_def)
  have sz: "lh_num_items demo_table + card {39 :: nat} + 1 < 2 ^ 63"
    by (simp add: lh_num_items_def demo_table_def)
  have new: "\<forall>x\<in>#members demo_table. \<forall>q\<in>{39}. ptr_cmp x q \<noteq> 0" unfolding m by (simp add: ptr_cmp_def)
  have calls: "\<forall>c\<in>set (fst (demo_visit p l w)). undisturbing ptr_cmp {39} p c" for p l w
    by (simp add: demo_visit_def ptr_cmp_def)
  let ?r = "lh_doall small_malloc (logged demo_visit) (Some demo_table) ((), [])"
  have run: "map_option (\<lambda>r. (fst r \<noteq> None, map fst (snd (snd r)), deletes ptr_cmp 7 (snd (snd (snd r) ! 0)),
      deletes ptr_cmp 23 (snd (snd (snd r) ! 1)))) ?r = Some (True, [7, 23, 39, 8], True, False)"
    by code_simp
  then obtain r log where r: "?r = Some (r, (), log)" "map fst log = [7, 23, 39, 8]"
    "deletes ptr_cmp 7 (snd (log ! 0))" "\<not> deletes ptr_cmp 23 (snd (log ! 1))"
    by (auto simp: map_option_case split: option.splits)
  obtain a b c d where log: "log = [a, b, c, d]" "fst a = 7" "fst b = 23"
    using r(2) by (auto simp: map_eq_Cons_conv)
  from lh_doall_visits_each_once [where func = demo_visit and N = "{39}" and w = "()",
      OF small_malloc_ok lh_ptrs.hashing_axioms ok _ sz new calls] r(1)
  obtain lh' where "r = Some lh'" "lh_ok ptr_hash ptr_cmp lh'"
    "\<forall>(p, cs)\<in>set log. p \<notin> {39} \<longrightarrow> (p \<in># members lh' \<longleftrightarrow> \<not> deletes ptr_cmp p cs)" by auto
  with r log show ?thesis by (cases a; cases b) auto
qed

end
