(* ===== verification/Constant_Time.thy ===== *)
theory Constant_Time
  imports Prelude
begin

text \<open>
  The constant-time helpers of \<open>crypto/internal.h\<close>: comparisons and selection without branches, on
  the 64-bit \<open>crypto_word_t\<close>. Each is shown to be the comparison it stands for, as an all-ones or
  all-zeros mask.
\<close>

type_synonym crypto_word = u64

definition constant_time_msb_w :: "crypto_word \<Rightarrow> crypto_word" where
  "constant_time_msb_w a = 0 - drop_bit 63 a"

definition constant_time_lt_w :: "crypto_word \<Rightarrow> crypto_word \<Rightarrow> crypto_word" where
  "constant_time_lt_w a b = constant_time_msb_w (a XOR ((a XOR b) OR ((a - b) XOR a)))"

definition constant_time_lt_8 :: "crypto_word \<Rightarrow> crypto_word \<Rightarrow> u8" where
  "constant_time_lt_8 a b = ucast (constant_time_lt_w a b)"

definition constant_time_ge_w :: "crypto_word \<Rightarrow> crypto_word \<Rightarrow> crypto_word" where
  "constant_time_ge_w a b = NOT (constant_time_lt_w a b)"

definition constant_time_ge_8 :: "crypto_word \<Rightarrow> crypto_word \<Rightarrow> u8" where
  "constant_time_ge_8 a b = ucast (constant_time_ge_w a b)"

definition constant_time_is_zero_w :: "crypto_word \<Rightarrow> crypto_word" where
  "constant_time_is_zero_w a = constant_time_msb_w (NOT a AND (a - 1))"

definition constant_time_is_zero_8 :: "crypto_word \<Rightarrow> u8" where
  "constant_time_is_zero_8 a = ucast (constant_time_is_zero_w a)"

definition constant_time_eq_w :: "crypto_word \<Rightarrow> crypto_word \<Rightarrow> crypto_word" where
  "constant_time_eq_w a b = constant_time_is_zero_w (a XOR b)"

definition constant_time_eq_8 :: "crypto_word \<Rightarrow> crypto_word \<Rightarrow> u8" where
  "constant_time_eq_8 a b = ucast (constant_time_eq_w a b)"

text \<open>The conversion of an \<open>int\<close> to the unsigned word extends its sign.\<close>

definition constant_time_eq_int :: "32 word \<Rightarrow> 32 word \<Rightarrow> crypto_word" where
  "constant_time_eq_int a b = constant_time_eq_w (scast a) (scast b)"

definition constant_time_eq_int_8 :: "32 word \<Rightarrow> 32 word \<Rightarrow> u8" where
  "constant_time_eq_int_8 a b = constant_time_eq_8 (scast a) (scast b)"

definition constant_time_select_w :: "crypto_word \<Rightarrow> crypto_word \<Rightarrow> crypto_word \<Rightarrow> crypto_word" where
  "constant_time_select_w msk a b = (msk AND a) OR (NOT msk AND b)"

definition constant_time_select_8 :: "u8 \<Rightarrow> u8 \<Rightarrow> u8 \<Rightarrow> u8" where
  "constant_time_select_8 msk a b = ucast (constant_time_select_w (ucast msk) (ucast a) (ucast b))"

definition constant_time_select_int :: "crypto_word \<Rightarrow> 32 word \<Rightarrow> 32 word \<Rightarrow> 32 word" where
  "constant_time_select_int msk a b = ucast (constant_time_select_w msk (scast a) (scast b))"

section \<open>What they compute\<close>

lemma bit_63: "bit (w :: u64) 63 \<longleftrightarrow> 2 ^ 63 \<le> unat w"
proof -
  have l: "unat w < 2 ^ 64" using unsigned_less [of w, where 'a = nat] by simp
  have "bit w 63 \<longleftrightarrow> bit (unat w) 63" by (simp add: bit_unsigned_iff)
  also have "\<dots> \<longleftrightarrow> odd (unat w div 2 ^ 63)" by (rule bit_iff_odd)
  also have "\<dots> \<longleftrightarrow> 2 ^ 63 \<le> unat w"
  proof (cases "2 ^ 63 \<le> unat w")
    case True
    then have "unat w div 2 ^ 63 = 1" using l by (simp add: div_nat_eqI)
    with True show ?thesis by simp
  qed simp
  finally show ?thesis .
qed

lemma msb_w: "constant_time_msb_w a = (if bit a 63 then - 1 else 0)"
proof -
  have "drop_bit 63 a = (if bit a 63 then 1 else 0)"
  proof (rule bit_word_eqI)
    fix n
    show "bit (drop_bit 63 a) n \<longleftrightarrow> bit (if bit a 63 then 1 else 0 :: u64) n"
      by (cases n) (auto simp: bit_simps dest: bit_imp_le_length)
  qed
  then show ?thesis by (simp add: constant_time_msb_w_def)
qed

lemma unat_diff: "unat ((a :: u64) - b) = (if unat b \<le> unat a then unat a - unat b else unat a + 2 ^ 64 - unat b)"
  by (simp add: unat_sub_if')

lemma lt_w: "constant_time_lt_w a b = (if a < b then - 1 else 0)"
proof -
  have l: "unat a < 2 ^ 64" "unat b < 2 ^ 64"
    using unsigned_less [of a, where 'a = nat] unsigned_less [of b, where 'a = nat] by simp_all
  have "bit (a XOR ((a XOR b) OR ((a - b) XOR a))) 63 \<longleftrightarrow>
      bit a 63 \<noteq> (bit a 63 \<noteq> bit b 63 \<or> bit (a - b) 63 \<noteq> bit a 63)"
    by (simp add: bit_simps)
  also have "\<dots> \<longleftrightarrow> a < b"
    using l unfolding bit_63 unat_diff word_less_nat_alt by auto
  finally show ?thesis by (simp add: constant_time_lt_w_def msb_w)
qed

lemma is_zero_w: "constant_time_is_zero_w a = (if a = 0 then - 1 else 0)"
proof -
  have "bit (NOT a AND (a - 1)) 63 \<longleftrightarrow> \<not> bit a 63 \<and> bit (a - 1) 63" by (simp add: bit_simps)
  also have "\<dots> \<longleftrightarrow> a = 0"
  proof (cases "a = 0")
    case False
    then have "unat (a - 1) = unat a - 1" using unat_minus_one by blast
    with False show ?thesis unfolding bit_63 by (simp, linarith)
  qed (simp add: bit_simps)
  finally show ?thesis by (simp add: constant_time_is_zero_w_def msb_w)
qed

lemma xor_eq_0: "(a :: 'a::len word) XOR b = 0 \<longleftrightarrow> a = b"
  by (auto simp: bit_eq_iff bit_simps)

lemma eq_w: "constant_time_eq_w a b = (if a = b then - 1 else 0)"
  by (simp add: constant_time_eq_w_def is_zero_w xor_eq_0)

lemma ge_w: "constant_time_ge_w a b = (if b \<le> a then - 1 else 0)"
  by (auto simp: constant_time_ge_w_def lt_w)

lemma select_w: "constant_time_select_w (if c then - 1 else 0) a b = (if c then a else b)"
  by (simp add: constant_time_select_w_def)

lemma all_ones_8: "(0xff :: u8) = - 1"
  by (rule word_unat_eq_iff [THEN iffD2]) (simp add: unsigned_minus_1_eq_mask mask_eq_exp_minus_1)

lemma ucast_minus_one: "(ucast (- 1 :: u64) :: u8) = 0xff"
  unfolding all_ones_8 by (rule bit_word_eqI) (simp add: bit_simps)

lemma lt_8: "constant_time_lt_8 a b = (if a < b then 0xff else 0)"
  by (simp add: constant_time_lt_8_def lt_w ucast_minus_one)

lemma ge_8: "constant_time_ge_8 a b = (if b \<le> a then 0xff else 0)"
  by (simp add: constant_time_ge_8_def ge_w ucast_minus_one)

lemma is_zero_8: "constant_time_is_zero_8 a = (if a = 0 then 0xff else 0)"
  by (simp add: constant_time_is_zero_8_def is_zero_w ucast_minus_one)

lemma eq_8: "constant_time_eq_8 a b = (if a = b then 0xff else 0)"
  by (simp add: constant_time_eq_8_def eq_w ucast_minus_one)

lemma scast_eq_iff: "(scast (a :: 32 word) :: u64) = scast b \<longleftrightarrow> a = b"
proof
  assume e: "(scast a :: u64) = scast b"
  show "a = b"
  proof (rule bit_word_eqI)
    fix n
    assume "n < LENGTH(32)"
    then have "min 31 n = n" "n < 64" by (simp_all add: min_def)
    moreover have "bit (scast a :: u64) n = bit (scast b :: u64) n" by (simp add: e)
    ultimately show "bit a n = bit b n" by (simp add: bit_simps)
  qed
qed simp

lemma eq_int_8: "constant_time_eq_int_8 a b = (if a = b then 0xff else 0)"
  by (simp add: constant_time_eq_int_8_def eq_8 scast_eq_iff)

lemma eq_int: "constant_time_eq_int a b = (if a = b then - 1 else 0)"
  by (simp add: constant_time_eq_int_def eq_w scast_eq_iff)

lemma select_int: "constant_time_select_int (if c then - 1 else 0) a b = (if c then a else b)"
proof -
  have "(ucast (scast x :: u64) :: 32 word) = x" for x :: "32 word"
  proof (rule bit_word_eqI)
    fix n
    assume "n < LENGTH(32)"
    then have "min 31 n = n" "n < 32" by (simp_all add: min_def)
    then show "bit (ucast (scast x :: u64) :: 32 word) n = bit x n" by (simp add: bit_simps)
  qed
  then show ?thesis by (simp add: constant_time_select_int_def select_w)
qed

lemma select_8: "constant_time_select_8 (if c then 0xff else 0) a b = (if c then a else b)"
proof (cases c)
  case True
  show ?thesis
    unfolding constant_time_select_8_def constant_time_select_w_def all_ones_8
    using True by (intro bit_word_eqI) (simp add: bit_simps)
next
  case False
  then show ?thesis
    by (simp add: constant_time_select_8_def constant_time_select_w_def)
qed

end
