(* ===== verification/Base64.thy ===== *)
theory Base64
  imports Mem Constant_Time
begin

text \<open>
  \<open>crypto/base64/base64.c\<close>: the encoder and decoder of base64, in one piece and as streams.

  A buffer the code writes to is the list of the characters it has written; the terminating NUL that
  every block of output is followed by, and the next one overwrites, is not part of it. The counts the
  functions report are the lengths of these lists.
\<close>

section \<open>State\<close>

record encode_ctx =
  ec_data_used :: nat
  ec_data :: bytes
  ec_eof_seen :: bool
  ec_error :: bool

abbreviation (input) sizeof_data :: nat where "sizeof_data \<equiv> 48"
abbreviation (input) INT_MAX :: nat where "INT_MAX \<equiv> 2147483647"

definition constant_time_lt_args_8 :: "u8 \<Rightarrow> u8 \<Rightarrow> u8" where
  "constant_time_lt_args_8 a b = ucast (constant_time_msb_w (ucast a - ucast b))"

definition constant_time_in_range_8 :: "u8 \<Rightarrow> u8 \<Rightarrow> u8 \<Rightarrow> u8" where
  "constant_time_in_range_8 a mn mx = constant_time_lt_args_8 (a - mn) (mx - mn + 1)"

section \<open>Encoding\<close>

definition conv_bin2ascii :: "u8 \<Rightarrow> u8" where
  "conv_bin2ascii a0 =
     (let a = a0 AND 0x3f;
          ret = constant_time_select_8 (constant_time_eq_8 (ucast a) 62) 43 47;
          ret = constant_time_select_8 (constant_time_lt_args_8 a 62) (a - 52 + 48) ret;
          ret = constant_time_select_8 (constant_time_lt_args_8 a 52) (a - 26 + 97) ret
      in constant_time_select_8 (constant_time_lt_args_8 a 26) (a + 65) ret)"

definition EVP_EncodedLength :: "nat \<Rightarrow> nat option" where
  "EVP_EncodedLength len =
     (if add_size len 2 < len then None
      else
        let len = add_size len 2 div 3 in
        if mul_size len 4 div 4 \<noteq> len then None
        else
          let len = mul_size len 4 in
          if add_size len 1 < len then None else Some (add_size len 1))"

definition EVP_EncodeInit :: encode_ctx where
  "EVP_EncodeInit = \<lparr>ec_data_used = 0, ec_data = replicate sizeof_data 0, ec_eof_seen = False,
     ec_error = False\<rparr>"

text \<open>The loop of \<open>EVP_EncodeBlock\<close>: three bytes make four characters; one or two are padded.\<close>

fun encode_block :: "bytes \<Rightarrow> bytes" where
  "encode_block [] = []"
| "encode_block [a] =
     (let l = push_bit 16 (ucast a) :: u32
      in [conv_bin2ascii (ucast (drop_bit 18 l)), conv_bin2ascii (ucast (drop_bit 12 l)), 61, 61])"
| "encode_block [a, b] =
     (let l = push_bit 16 (ucast a) OR push_bit 8 (ucast b) :: u32
      in [conv_bin2ascii (ucast (drop_bit 18 l)), conv_bin2ascii (ucast (drop_bit 12 l)),
          conv_bin2ascii (ucast (drop_bit 6 l)), 61])"
| "encode_block (a # b # c # src) =
     (let l = push_bit 16 (ucast a) OR push_bit 8 (ucast b) OR ucast c :: u32
      in [conv_bin2ascii (ucast (drop_bit 18 l)), conv_bin2ascii (ucast (drop_bit 12 l)),
          conv_bin2ascii (ucast (drop_bit 6 l)), conv_bin2ascii (ucast l)] @ encode_block src)"

definition EVP_EncodeBlock :: "bytes \<Rightarrow> nat \<Rightarrow> bytes" where
  "EVP_EncodeBlock src src_len = encode_block (take src_len src)"

text \<open>The loop over whole lines of \<open>EVP_EncodeUpdate\<close>: the lines, the new total unless it has wrapped
  round, and the input that is left.\<close>

function encode_lines :: "bytes \<Rightarrow> nat \<Rightarrow> bytes \<times> nat option \<times> bytes" where
  "encode_lines inp tot =
     (if sizeof_data \<le> length inp then
        let line = EVP_EncodeBlock inp sizeof_data @ [10];
            tot' = add_size tot (length line)
        in if tot' < tot then (line, None, drop sizeof_data inp)
           else (case encode_lines (drop sizeof_data inp) tot' of
                   (out, t, rest) \<Rightarrow> (line @ out, t, rest))
      else ([], Some tot, inp))"
  by pat_completeness auto
termination
  by (relation "measure (\<lambda>(inp, tot). length inp)") auto

declare encode_lines.simps [simp del]

text \<open>The characters written, \<open>*out_len\<close> and the context.\<close>

definition EVP_EncodeUpdate :: "encode_ctx \<Rightarrow> bytes \<Rightarrow> bytes \<times> nat \<times> encode_ctx" where
  "EVP_EncodeUpdate ctx inp =
     (if inp = [] then ([], 0, ctx)
      else if length inp < sizeof_data - ec_data_used ctx then
        ([], 0, ctx\<lparr>ec_data := put_at (ec_data_used ctx) inp (ec_data ctx),
                     ec_data_used := ec_data_used ctx + length inp\<rparr>)
      else
        (case (if ec_data_used ctx \<noteq> 0 then
                 let todo = sizeof_data - ec_data_used ctx;
                     data = put_at (ec_data_used ctx) (take todo inp) (ec_data ctx);
                     out = EVP_EncodeBlock data sizeof_data @ [10]
                 in (out, length out, drop todo inp, ctx\<lparr>ec_data := data, ec_data_used := 0\<rparr>)
               else ([], 0, inp, ctx)) of
           (out, tot, inp, ctx) \<Rightarrow>
             (case encode_lines inp tot of
                (out2, None, rest) \<Rightarrow> (out @ out2, 0, ctx)
              | (out2, Some tot, rest) \<Rightarrow>
                  (out @ out2, if INT_MAX < tot then 0 else tot,
                   ctx\<lparr>ec_data := put_at 0 rest (ec_data ctx), ec_data_used := length rest\<rparr>))))"

definition EVP_EncodeFinal :: "encode_ctx \<Rightarrow> bytes \<times> nat \<times> encode_ctx" where
  "EVP_EncodeFinal ctx =
     (if ec_data_used ctx = 0 then ([], 0, ctx)
      else
        let out = EVP_EncodeBlock (ec_data ctx) (ec_data_used ctx) @ [10]
        in (out, length out, ctx\<lparr>ec_data_used := 0\<rparr>))"

section \<open>Decoding\<close>

definition EVP_DecodedLength :: "nat \<Rightarrow> nat option" where
  "EVP_DecodedLength len = (if len mod 4 \<noteq> 0 then None else Some (mul_size (len div 4) 3))"

definition EVP_DecodeInit :: encode_ctx where
  "EVP_DecodeInit = \<lparr>ec_data_used = 0, ec_data = replicate sizeof_data 0, ec_eof_seen = False,
     ec_error = False\<rparr>"

definition base64_ascii_to_bin :: "u8 \<Rightarrow> u8" where
  "base64_ascii_to_bin a =
     (let is_upper = constant_time_in_range_8 a 65 90;
          is_lower = constant_time_in_range_8 a 97 122;
          is_digit = constant_time_in_range_8 a 48 57;
          is_plus = constant_time_eq_8 (ucast a) 43;
          is_slash = constant_time_eq_8 (ucast a) 47;
          is_equals = constant_time_eq_8 (ucast a) 61;
          ret = 0xff;
          ret = constant_time_select_8 is_upper (a - 65) ret;
          ret = constant_time_select_8 is_lower (a - 97 + 26) ret;
          ret = constant_time_select_8 is_digit (a - 48 + 52) ret;
          ret = constant_time_select_8 is_plus 62 ret;
          ret = constant_time_select_8 is_slash 63 ret
      in constant_time_select_8 is_equals 0 ret)"

text \<open>The bytes a quad stands for, one to three of them.\<close>

definition base64_decode_quad :: "bytes \<Rightarrow> bytes option" where
  "base64_decode_quad inp =
     (let a = base64_ascii_to_bin (inp ! 0); b = base64_ascii_to_bin (inp ! 1);
          c = base64_ascii_to_bin (inp ! 2); d = base64_ascii_to_bin (inp ! 3)
      in if a = 0xff \<or> b = 0xff \<or> c = 0xff \<or> d = 0xff then None
         else
           let v = push_bit 18 (ucast a) OR push_bit 12 (ucast b) OR push_bit 6 (ucast c) OR
                   ucast d :: u32;
               padding_pattern =
                 (if inp ! 0 = 61 then 8 else 0) + (if inp ! 1 = 61 then 4 else 0) +
                 (if inp ! 2 = 61 then 2 else 0) + (if inp ! 3 = 61 then 1 else 0) :: nat
           in if padding_pattern = 0 then
                Some [ucast (drop_bit 16 v), ucast (drop_bit 8 v), ucast v]
              else if padding_pattern = 1 then Some [ucast (drop_bit 16 v), ucast (drop_bit 8 v)]
              else if padding_pattern = 3 then Some [ucast (drop_bit 16 v)]
              else None)"

definition is_space :: "u8 \<Rightarrow> bool" where
  "is_space c \<longleftrightarrow> c = 32 \<or> c = 9 \<or> c = 13 \<or> c = 10"

text \<open>The loop of \<open>EVP_DecodeUpdate\<close>: success, the bytes written, the context.\<close>

fun decode_update :: "encode_ctx \<Rightarrow> bytes \<Rightarrow> bool \<times> bytes \<times> encode_ctx" where
  "decode_update ctx [] = (True, [], ctx)"
| "decode_update ctx (c # inp) =
     (if is_space c then decode_update ctx inp
      else if ec_eof_seen ctx then (False, [], ctx\<lparr>ec_error := True\<rparr>)
      else
        let ctx = ctx\<lparr>ec_data := put_at (ec_data_used ctx) [c] (ec_data ctx),
                      ec_data_used := ec_data_used ctx + 1\<rparr>
        in if ec_data_used ctx = 4 then
             (case base64_decode_quad (ec_data ctx) of
                None \<Rightarrow> (False, [], ctx\<lparr>ec_error := True\<rparr>)
              | Some bs \<Rightarrow>
                  let ctx = ctx\<lparr>ec_data_used := 0,
                                ec_eof_seen := (if length bs < 3 then True else ec_eof_seen ctx)\<rparr>
                  in case decode_update ctx inp of (ok, out, ctx) \<Rightarrow> (ok, bs @ out, ctx))
           else decode_update ctx inp)"

text \<open>The result, the bytes written, \<open>*out_len\<close>, the context.\<close>

definition EVP_DecodeUpdate :: "encode_ctx \<Rightarrow> bytes \<Rightarrow> int \<times> bytes \<times> nat \<times> encode_ctx" where
  "EVP_DecodeUpdate ctx inp =
     (if ec_error ctx then (- 1, [], 0, ctx)
      else
        (case decode_update ctx inp of
           (False, out, ctx) \<Rightarrow> (- 1, out, 0, ctx)
         | (True, out, ctx) \<Rightarrow>
             if INT_MAX < length out then (- 1, out, 0, ctx\<lparr>ec_error := True\<rparr>)
             else (if ec_eof_seen ctx then 0 else 1, out, length out, ctx)))"

definition EVP_DecodeFinal :: "encode_ctx \<Rightarrow> int" where
  "EVP_DecodeFinal ctx = (if ec_error ctx \<or> ec_data_used ctx \<noteq> 0 then - 1 else 1)"

text \<open>The loop of \<open>EVP_DecodeBase64\<close>: padding is accepted in the last quad only.\<close>

function decode_quads :: "bytes \<Rightarrow> bytes option" where
  "decode_quads inp =
     (if inp = [] then Some []
      else
        (case base64_decode_quad inp of
           None \<Rightarrow> None
         | Some bs \<Rightarrow>
             if length bs \<noteq> 3 \<and> length inp \<noteq> 4 then None
             else map_option (\<lambda>out. bs @ out) (decode_quads (drop 4 inp))))"
  by pat_completeness auto
termination
  by (relation "measure length") auto

declare decode_quads.simps [simp del]

definition EVP_DecodeBase64 :: "nat \<Rightarrow> bytes \<Rightarrow> bytes option" where
  "EVP_DecodeBase64 max_out inp =
     (if length inp mod 4 \<noteq> 0 then None
      else
        (case EVP_DecodedLength (length inp) of
           None \<Rightarrow> None
         | Some max_len \<Rightarrow> if max_out < max_len then None else decode_quads inp))"

fun zero_fill :: "bytes \<Rightarrow> bytes" where
  "zero_fill bs = bs @ replicate ((3 - length bs mod 3) mod 3) 0"

text \<open>The number of bytes or -1, and the bytes.\<close>

definition EVP_DecodeBlock :: "bytes \<Rightarrow> int \<times> bytes" where
  "EVP_DecodeBlock src =
     (let src = dropWhile (\<lambda>c. c = 32 \<or> c = 9) src;
          src = rev (dropWhile is_space (rev src))
      in case EVP_DecodedLength (length src) of
           None \<Rightarrow> (- 1, [])
         | Some dst_len \<Rightarrow>
             if INT_MAX < dst_len then (- 1, [])
             else (case EVP_DecodeBase64 dst_len src of
                     None \<Rightarrow> (- 1, [])
                   | Some bs \<Rightarrow> (int (length (zero_fill bs)), zero_fill bs)))"

section \<open>Characters\<close>

lemma lt_args_8: "constant_time_lt_args_8 a b = (if a < b then 0xff else 0)"
proof -
  have l: "unat a < 256" "unat b < 256" using u8_less by blast+
  have "bit ((ucast a :: u64) - ucast b) 63 \<longleftrightarrow> a < b"
    using l unfolding bit_63 unat_diff word_less_nat_alt by auto
  then show ?thesis by (simp add: constant_time_lt_args_8_def msb_w ucast_minus_one)
qed

lemma unat_u8_diff: "unat ((a :: u8) - b) = (if unat b \<le> unat a then unat a - unat b else unat a + 256 - unat b)"
  by (simp add: unat_sub_if')

lemma unat_u8_plus: "unat ((a :: u8) + b) = (unat a + unat b) mod 256"
  by (simp add: unat_word_ariths)

lemma in_range_8:
  assumes "mn \<le> mx" and "mx < 0xff"
  shows "constant_time_in_range_8 a mn mx = (if mn \<le> a \<and> a \<le> mx then 0xff else 0)"
proof -
  have l: "unat a < 256" "unat mn \<le> unat mx" "unat mx < 255"
    using u8_less [of a] assms by (simp_all add: word_le_nat_alt word_less_nat_alt)
  have "unat (mx - mn + 1) = unat mx - unat mn + 1"
    using l by (simp add: unat_u8_plus unat_u8_diff)
  then have "a - mn < mx - mn + 1 \<longleftrightarrow> mn \<le> a \<and> a \<le> mx"
    using l by (auto simp: word_less_nat_alt word_le_nat_alt unat_u8_diff)
  then show ?thesis by (simp add: constant_time_in_range_8_def lt_args_8)
qed

text \<open>The alphabet, by number.\<close>

definition b64_char :: "nat \<Rightarrow> nat" where
  "b64_char n = (if n < 26 then n + 65 else if n < 52 then n + 71 else if n < 62 then n - 4
     else if n = 62 then 43 else 47)"

lemma unat_take_bit_6: "unat (take_bit 6 (x :: u8)) = unat x mod 64"
proof -
  have "(64 :: nat) = 2 ^ 6" by simp
  then show ?thesis by (simp only: unsigned_take_bit_eq take_bit_eq_mod [of 6 "unat x"])
qed

lemma unat_and_0x3f: "unat ((x :: u8) AND 0x3f) = unat x mod 64"
proof -
  have m: "(0x3f :: u8) = mask 6" by (simp add: mask_eq_exp_minus_1)
  have "x AND 0x3f = take_bit 6 x" unfolding m by (simp only: take_bit_eq_mask)
  then show ?thesis by (simp only: unat_take_bit_6)
qed

lemma ucast_u64_eq: "(ucast (a :: u8) :: u64) = w \<longleftrightarrow> unat a = unat w"
  by (simp add: word_unat_eq_iff)

lemma conv_bin2ascii_char: "unat (conv_bin2ascii x) = b64_char (unat x mod 64)"
proof -
  define a where "a = x AND 0x3f"
  have n: "unat a < 64" and a: "unat x mod 64 = unat a" by (simp_all add: a_def unat_and_0x3f)
  have eq62: "(ucast a :: u64) = 62 \<longleftrightarrow> unat a = 62"
    by (simp add: ucast_u64_eq)
  have "conv_bin2ascii x = (if a < 26 then a + 65 else if a < 52 then a - 26 + 97
      else if a < 62 then a - 52 + 48 else if unat a = 62 then 43 else 47)"
    unfolding conv_bin2ascii_def Let_def a_def [symmetric] lt_args_8 eq_8 eq62 select_8 ..
  also have "unat \<dots> = b64_char (unat a)"
    using n by (simp add: b64_char_def word_less_nat_alt unat_u8_plus unat_u8_diff)
  finally show ?thesis by (simp add: a)
qed


definition b64_val :: "nat \<Rightarrow> nat" where
  "b64_val m = (if m = 61 then 0 else if m = 47 then 63 else if m = 43 then 62
      else if 48 \<le> m \<and> m \<le> 57 then m + 4 else if 97 \<le> m \<and> m \<le> 122 then m - 71
      else if 65 \<le> m \<and> m \<le> 90 then m - 65 else 255)"

lemma in_ranges:
  "constant_time_in_range_8 a 65 90 = (if 65 \<le> unat a \<and> unat a \<le> 90 then 0xff else 0)"
  "constant_time_in_range_8 a 97 122 = (if 97 \<le> unat a \<and> unat a \<le> 122 then 0xff else 0)"
  "constant_time_in_range_8 a 48 57 = (if 48 \<le> unat a \<and> unat a \<le> 57 then 0xff else 0)"
  using in_range_8 [of 65 90 a] in_range_8 [of 97 122 a] in_range_8 [of 48 57 a]
  by (simp_all add: word_le_nat_alt word_less_nat_alt)

lemma base64_ascii_to_bin_unfold:
  "base64_ascii_to_bin a =
      (if unat a = 61 then 0 else if unat a = 47 then 63 else if unat a = 43 then 62
       else if 48 \<le> unat a \<and> unat a \<le> 57 then a - 48 + 52
       else if 97 \<le> unat a \<and> unat a \<le> 122 then a - 97 + 26
       else if 65 \<le> unat a \<and> unat a \<le> 90 then a - 65 else 0xff)"
proof -
  have e: "unat (61 :: u64) = 61" "unat (47 :: u64) = 47" "unat (43 :: u64) = 43" by simp_all
  show ?thesis
    unfolding base64_ascii_to_bin_def Let_def in_ranges eq_8 select_8 ucast_u64_eq e by (rule refl)
qed

lemma base64_ascii_to_bin_if: "unat (base64_ascii_to_bin a) = b64_val (unat a)"
proof -
  have l: "unat a < 256" by (rule u8_less)
  consider "unat a = 61" | "unat a = 47" | "unat a = 43" | "48 \<le> unat a" "unat a \<le> 57"
    | "97 \<le> unat a" "unat a \<le> 122" | "65 \<le> unat a" "unat a \<le> 90"
    | "b64_val (unat a) = 255" "base64_ascii_to_bin a = 0xff"
    unfolding b64_val_def base64_ascii_to_bin_unfold by presburger
  then show ?thesis
  proof cases
    case 4
    then have "base64_ascii_to_bin a = a - 48 + 52" by (simp add: base64_ascii_to_bin_unfold)
    with 4 show ?thesis by (simp add: b64_val_def unat_u8_plus unat_u8_diff)
  next
    case 5
    then have "base64_ascii_to_bin a = a - 97 + 26" by (simp add: base64_ascii_to_bin_unfold)
    with 5 show ?thesis by (simp add: b64_val_def unat_u8_plus unat_u8_diff)
  next
    case 6
    then have "base64_ascii_to_bin a = a - 65" by (simp add: base64_ascii_to_bin_unfold)
    with 6 show ?thesis by (simp add: b64_val_def unat_u8_diff)
  qed (simp_all add: b64_val_def base64_ascii_to_bin_unfold)
qed

lemma ascii_to_bin_to_ascii: "unat (base64_ascii_to_bin (conv_bin2ascii x)) = unat x mod 64"
proof -
  have "unat x mod 64 < 64" by simp
  then show ?thesis
    unfolding base64_ascii_to_bin_if conv_bin2ascii_char
    by (auto simp: b64_char_def b64_val_def)
qed

lemma conv_bin2ascii_proper: "conv_bin2ascii x \<noteq> 61" "\<not> is_space (conv_bin2ascii x)"
  "base64_ascii_to_bin (conv_bin2ascii x) \<noteq> 0xff"
proof -
  have n: "b64_char n \<noteq> 61 \<and> b64_char n \<noteq> 32 \<and> b64_char n \<noteq> 9 \<and> b64_char n \<noteq> 13 \<and> b64_char n \<noteq> 10" for n
    unfolding b64_char_def by auto
  then show "conv_bin2ascii x \<noteq> 61" "\<not> is_space (conv_bin2ascii x)"
    unfolding is_space_def u8_eq_iff conv_bin2ascii_char by simp_all
  have "unat x mod 64 < 64" by simp
  then show "base64_ascii_to_bin (conv_bin2ascii x) \<noteq> 0xff"
    unfolding u8_eq_iff ascii_to_bin_to_ascii by simp
qed

lemma ascii_bits: "(ucast (base64_ascii_to_bin (conv_bin2ascii x)) :: u32) = ucast (take_bit 6 x)"
proof -
  have "unat (base64_ascii_to_bin (conv_bin2ascii x)) = unat (take_bit 6 x)"
    by (simp only: ascii_to_bin_to_ascii unat_take_bit_6)
  then show ?thesis by (simp add: word_unat_eq_iff)
qed

lemma not_padded: "conv_bin2ascii x = 61 \<longleftrightarrow> False"
  by (simp add: conv_bin2ascii_proper)

text \<open>A quad of the encoder is decoded to the bytes it was made from.\<close>

lemma digit24:
  "(ucast (take_bit 6 (ucast (drop_bit k (l :: u32)) :: u8)) :: u32) = take_bit 6 (drop_bit k l)"
  by (rule bit_word_eqI) (auto simp: bit_simps)

lemma join24:
  fixes l :: u32
  assumes "take_bit 24 l = l"
  shows "push_bit 18 (take_bit 6 (drop_bit 18 l)) OR push_bit 12 (take_bit 6 (drop_bit 12 l)) OR
    push_bit 6 (take_bit 6 (drop_bit 6 l)) OR take_bit 6 l = l"
proof -
  have "((take_bit 6 l OR push_bit 6 (take_bit 6 (drop_bit 6 l))) OR
      push_bit 12 (take_bit 6 (drop_bit 12 l))) OR push_bit 18 (take_bit 6 (drop_bit 18 l)) = l"
    by (simp add: take_bit_step assms)
  then show ?thesis by (simp add: ac_simps)
qed

lemma bytes24:
  fixes a b c :: u8
  defines "l \<equiv> (push_bit 16 (ucast a) OR push_bit 8 (ucast b) OR ucast c :: u32)"
  shows "take_bit 24 l = l" "ucast (drop_bit 16 l) = a" "ucast (drop_bit 8 l) = b" "ucast l = c"
  unfolding l_def by (rule bit_word_eqI, auto simp: bit_simps dest: bit_imp_le_length)+

lemma decode_chars:
  fixes l :: u32
  defines "a \<equiv> conv_bin2ascii (ucast (drop_bit 18 l))" and "b \<equiv> conv_bin2ascii (ucast (drop_bit 12 l))"
    and "c \<equiv> conv_bin2ascii (ucast (drop_bit 6 l))" and "d \<equiv> conv_bin2ascii (ucast l)"
  assumes l: "take_bit 24 l = l"
  shows "base64_decode_quad (a # b # c # d # rest) =
      Some [ucast (drop_bit 16 l), ucast (drop_bit 8 l), ucast l]"
    and "take_bit 6 l = 0 \<Longrightarrow> base64_decode_quad (a # b # c # 61 # rest) =
      Some [ucast (drop_bit 16 l), ucast (drop_bit 8 l)]"
    and "take_bit 12 l = 0 \<Longrightarrow> base64_decode_quad (a # b # 61 # 61 # rest) =
      Some [ucast (drop_bit 16 l)]"
proof -
  have e: "base64_ascii_to_bin 61 = 0" by (simp add: base64_ascii_to_bin_unfold)
  have d0: "(ucast (take_bit 6 (ucast l :: u8)) :: u32) = take_bit 6 l" using digit24 [of 0 l] by simp
  note p = conv_bin2ascii_proper(1,3)
  note j = join24 [OF l]
  show "base64_decode_quad (a # b # c # d # rest) =
      Some [ucast (drop_bit 16 l), ucast (drop_bit 8 l), ucast l]"
    unfolding base64_decode_quad_def Let_def a_def b_def c_def d_def
    by (simp add: p ascii_bits digit24 d0 j del: drop_bit_or take_bit_or)
  show "base64_decode_quad (a # b # c # 61 # rest) = Some [ucast (drop_bit 16 l), ucast (drop_bit 8 l)]"
    if "take_bit 6 l = 0"
    using j that unfolding base64_decode_quad_def Let_def a_def b_def c_def d_def
    by (simp add: p e ascii_bits digit24 d0 del: drop_bit_or take_bit_or)
  show "base64_decode_quad (a # b # 61 # 61 # rest) = Some [ucast (drop_bit 16 l)]"
    if "take_bit 12 l = 0"
  proof -
    have "take_bit 6 l = take_bit 6 (take_bit 12 l)" by simp
    moreover have "take_bit 6 (drop_bit 6 l) = drop_bit 6 (take_bit 12 l)"
      by (simp add: take_bit_drop_bit)
    ultimately have "take_bit 6 l = 0" "take_bit 6 (drop_bit 6 l) = 0" unfolding that by simp_all
    with j show ?thesis
      unfolding base64_decode_quad_def Let_def a_def b_def c_def d_def
      by (simp add: p e ascii_bits digit24 d0 del: drop_bit_or take_bit_or)
  qed
qed


section \<open>One block\<close>

lemma decode_quads_encode: "decode_quads (encode_block bs) = Some bs"
proof (induction bs rule: encode_block.induct)
  case 1
  show ?case by (simp add: decode_quads.simps)
next
  case (2 a)
  let ?l = "push_bit 16 (ucast a) :: u32"
  have b: "take_bit 24 ?l = ?l" "ucast (drop_bit 16 ?l) = a" "take_bit 12 ?l = 0"
    using bytes24 [of a 0 0] by (simp_all, intro bit_word_eqI) (simp add: bit_simps)
  from decode_chars(3) [OF b(1,3), of "[]"] b(2) show ?case
    by (simp add: Let_def decode_quads.simps)
next
  case (3 a b)
  let ?l = "push_bit 16 (ucast a) OR push_bit 8 (ucast b) :: u32"
  have b: "take_bit 24 ?l = ?l" "ucast (drop_bit 16 ?l) = a" "ucast (drop_bit 8 ?l) = b"
    using bytes24 [of a b 0] by simp_all
  have z: "take_bit 6 ?l = 0" by (rule bit_word_eqI) (simp add: bit_simps)
  from decode_chars(2) [OF b(1) z, of "[]"] b(2,3) show ?case
    by (simp add: Let_def decode_quads.simps)
next
  case (4 a b c src)
  let ?l = "push_bit 16 (ucast a) OR push_bit 8 (ucast b) OR ucast c :: u32"
  from decode_chars(1) [OF bytes24(1) [of a b c], of "encode_block src"] bytes24(2-4) [of a b c] 4
  show ?case by (subst decode_quads.simps) (simp add: Let_def)
qed

lemma length_encode_block: "length (encode_block bs) = 4 * ((length bs + 2) div 3)"
  by (induction bs rule: encode_block.induct) (simp_all add: Let_def, presburger)

lemma encode_block_append:
  "length a mod 3 = 0 \<Longrightarrow> encode_block (a @ b) = encode_block a @ encode_block b"
proof (induction a rule: encode_block.induct)
  case (4 x y z src)
  then have "length src mod 3 = 0" by (simp add: mod_Suc split: if_splits)
  with 4 show ?case by (simp add: Let_def)
qed simp_all

lemma encode_block_proper: "\<forall>c\<in>set (encode_block bs). \<not> is_space c"
proof -
  have "\<not> is_space 61" by (simp add: is_space_def)
  then show ?thesis
    by (induction bs rule: encode_block.induct) (simp_all add: Let_def conv_bin2ascii_proper)
qed

section \<open>Streams\<close>

text \<open>The whole lines of a text of bytes, and the bytes of the last, incomplete one.\<close>

function lines_of :: "bytes \<Rightarrow> bytes" where
  "lines_of bs = (if 48 \<le> length bs then encode_block (take 48 bs) @ [10] @ lines_of (drop 48 bs) else [])"
  by pat_completeness auto
termination by (relation "measure length") auto

function rest_of :: "bytes \<Rightarrow> bytes" where
  "rest_of bs = (if 48 \<le> length bs then rest_of (drop 48 bs) else bs)"
  by pat_completeness auto
termination by (relation "measure length") auto

declare lines_of.simps [simp del] rest_of.simps [simp del]

lemma rest_of_length: "length (rest_of bs) < 48"
  by (induction bs rule: rest_of.induct) (simp add: rest_of.simps)

lemma lines_of_append: "lines_of (a @ b) = lines_of a @ lines_of (rest_of a @ b)"
  and rest_of_append: "rest_of (a @ b) = rest_of (rest_of a @ b)"
proof (induction a rule: lines_of.induct)
  case (1 a)
  {
    case 1
    show ?case
    proof (cases "48 \<le> length a")
      case True
      with "1.IH"(1) show ?thesis
        by (subst (1 2) lines_of.simps, subst rest_of.simps) simp
    next
      case False
      then show ?thesis by (simp add: rest_of.simps [of a] lines_of.simps [of a])
    qed
  next
    case 2
    show ?case
    proof (cases "48 \<le> length a")
      case True
      with "1.IH"(2) show ?thesis
        by (subst (1 3) rest_of.simps) simp
    next
      case False
      then show ?thesis by (simp add: rest_of.simps [of a])
    qed
  }
qed

lemma lines_of_bound: "length (lines_of bs) \<le> 2 * length bs"
proof (induction bs rule: lines_of.induct)
  case (1 bs)
  show ?case
  proof (cases "48 \<le> length bs")
    case True
    have "length (encode_block (take 48 bs)) = 64" using True by (simp add: length_encode_block min_def)
    with 1 True show ?thesis by (subst lines_of.simps) simp
  qed (simp add: lines_of.simps)
qed

lemma encode_lines_eq:
  "tot + 2 * length inp < 2 ^ 64 \<Longrightarrow>
   encode_lines inp tot = (lines_of inp, Some (tot + length (lines_of inp)), rest_of inp)"
proof (induction inp tot rule: encode_lines.induct)
  case (1 inp tot)
  show ?case
  proof (cases "48 \<le> length inp")
    case True
    have l: "length (encode_block (take 48 inp)) = 64" using True by (simp add: length_encode_block min_def)
    have a: "add_size tot 65 = tot + 65" using 1(2) True by simp
    have e: "EVP_EncodeBlock inp 48 = encode_block (take 48 inp)" by (simp add: EVP_EncodeBlock_def)
    have "tot + 65 + 2 * length (drop 48 inp) < 2 ^ 64" using 1(2) True by simp
    with 1(1) [OF True refl refl] l a
    have "encode_lines (drop 48 inp) (tot + 65) = (lines_of (drop 48 inp),
        Some (tot + 65 + length (lines_of (drop 48 inp))), rest_of (drop 48 inp))"
      by (simp add: e)
    then show ?thesis
      by (subst encode_lines.simps, subst (1 2) lines_of.simps, subst rest_of.simps)
         (simp add: True Let_def e l a)
  next
    case False
    then show ?thesis by (simp add: encode_lines.simps lines_of.simps rest_of.simps)
  qed
qed

definition pending :: "encode_ctx \<Rightarrow> bytes" where
  "pending ctx = take (ec_data_used ctx) (ec_data ctx)"

definition ctx_wf :: "encode_ctx \<Rightarrow> bool" where
  "ctx_wf ctx \<longleftrightarrow> length (ec_data ctx) = 48 \<and> ec_data_used ctx < 48"

lemma length_pending: "ctx_wf ctx \<Longrightarrow> length (pending ctx) = ec_data_used ctx"
  by (simp add: ctx_wf_def pending_def)

lemma EVP_EncodeUpdate_spec:
  assumes "ctx_wf ctx" and "length inp < 2 ^ 62"
    and "EVP_EncodeUpdate ctx inp = (out, out_len, ctx')"
  shows "ctx_wf ctx' \<and> out = lines_of (pending ctx @ inp) \<and> pending ctx' = rest_of (pending ctx @ inp) \<and>
    out_len = (if length out \<le> INT_MAX then length out else 0)"
proof -
  have wf: "length (ec_data ctx) = 48" "ec_data_used ctx < 48" using assms(1) by (simp_all add: ctx_wf_def)
  consider "inp = []" | "inp \<noteq> []" "length inp < 48 - ec_data_used ctx"
    | "inp \<noteq> []" "\<not> length inp < 48 - ec_data_used ctx" by blast
  then show ?thesis
  proof cases
    case 1
    then show ?thesis using assms wf length_pending [OF assms(1)]
      by (simp add: EVP_EncodeUpdate_def lines_of.simps rest_of.simps)
  next
    case 2
    let ?d = "put_at (ec_data_used ctx) inp (ec_data ctx)"
    have r: "out = []" "out_len = 0"
      "ctx' = ctx\<lparr>ec_data := ?d, ec_data_used := ec_data_used ctx + length inp\<rparr>"
      using 2 assms(3) by (simp_all add: EVP_EncodeUpdate_def)
    have "take (ec_data_used ctx + length inp) ?d = pending ctx @ inp"
      using wf by (simp add: take_put_at pending_def)
    with r 2 wf length_pending [OF assms(1)] show ?thesis
      by (simp add: ctx_wf_def pending_def lines_of.simps rest_of.simps)
  next
    case 3
    define todo where "todo = 48 - ec_data_used ctx"
    define s where "s = (if ec_data_used ctx \<noteq> 0 then drop todo inp else inp)"
    define d where "d = (if ec_data_used ctx \<noteq> 0 then put_at (ec_data_used ctx) (take todo inp) (ec_data ctx) else ec_data ctx)"
    define o0 where "o0 = (if ec_data_used ctx \<noteq> 0 then encode_block d @ [10] else [])"
    have ld: "length d = 48" using wf 3 by (simp add: d_def todo_def)
    have lo: "length o0 \<le> 65" using ld by (simp add: o0_def length_encode_block)
    have whole: "lines_of (pending ctx @ inp) = o0 @ lines_of s \<and> rest_of (pending ctx @ inp) = rest_of s"
    proof (cases "ec_data_used ctx = 0")
      case True
      then show ?thesis by (simp add: pending_def o0_def s_def)
    next
      case False
      have "d = pending ctx @ take todo inp"
        using False 3 wf by (simp add: d_def put_at_def pending_def todo_def)
      then have "pending ctx @ inp = d @ s" using False by (simp add: s_def)
      moreover have "lines_of (d @ s) = o0 @ lines_of s" "rest_of (d @ s) = rest_of s"
        using ld False by (subst lines_of.simps rest_of.simps, simp add: o0_def)+
      ultimately show ?thesis by simp
    qed
    have "length s \<le> length inp" by (simp add: s_def)
    with lo assms(2) have "length o0 + 2 * length s < 2 ^ 64" by simp
    note el = encode_lines_eq [OF this]
    have r: "out = o0 @ lines_of s" "out_len = (if INT_MAX < length o0 + length (lines_of s) then 0
        else length o0 + length (lines_of s))"
      "ctx' = ctx\<lparr>ec_data := put_at 0 (rest_of s) d, ec_data_used := length (rest_of s)\<rparr>"
      using assms(3) 3 el ld
      by (auto simp: EVP_EncodeUpdate_def Let_def s_def d_def o0_def todo_def EVP_EncodeBlock_def
          split: if_splits)
    show ?thesis using r whole rest_of_length [of s] ld
      by (simp add: ctx_wf_def pending_def put_at_def)
  qed
qed

text \<open>A whole session of encoding: the updates, then the final call; what is written and the counts
  that were reported for it.\<close>

fun encode_session :: "encode_ctx \<Rightarrow> bytes list \<Rightarrow> bytes \<times> nat list" where
  "encode_session ctx [] = (case EVP_EncodeFinal ctx of (out, n, _) \<Rightarrow> (out, [n]))"
| "encode_session ctx (inp # inps) =
     (case EVP_EncodeUpdate ctx inp of
        (out, n, ctx') \<Rightarrow>
          (case encode_session ctx' inps of (outs, ns) \<Rightarrow> (out @ outs, n # ns)))"

text \<open>The encoded text of a run of bytes: lines of 64 characters.\<close>

definition base64_text :: "bytes \<Rightarrow> bytes" where
  "base64_text bs = lines_of bs @ (if rest_of bs = [] then [] else encode_block (rest_of bs) @ [10])"

lemma base64_text_append: "base64_text (a @ b) = lines_of a @ base64_text (rest_of a @ b)"
  by (simp add: base64_text_def lines_of_append [of a b] rest_of_append [of a b])

lemma encode_session_spec:
  assumes "ctx_wf ctx" and "\<forall>inp\<in>set inps. length inp < 2 ^ 29"
    and "encode_session ctx inps = (outs, ns)"
  shows "outs = base64_text (pending ctx @ concat inps) \<and> sum_list ns = length outs"
  using assms
proof (induction inps arbitrary: ctx outs ns)
  case Nil
  have wf: "length (ec_data ctx) = 48" "ec_data_used ctx < 48" using Nil.prems(1) by (simp_all add: ctx_wf_def)
  then have r: "lines_of (pending ctx) = []" "rest_of (pending ctx) = pending ctx"
    by (simp_all add: pending_def lines_of.simps rest_of.simps)
  have "pending ctx = [] \<longleftrightarrow> ec_data_used ctx = 0" using wf by (auto simp: pending_def)
  with Nil.prems(3) r show ?case
    by (auto simp: EVP_EncodeFinal_def base64_text_def Let_def EVP_EncodeBlock_def pending_def split: if_splits)
next
  case (Cons inp inps)
  obtain out n ctx' where u: "EVP_EncodeUpdate ctx inp = (out, n, ctx')" by (rule prod_cases3)
  obtain os ms where s: "encode_session ctx' inps = (os, ms)" by force
  have l: "length inp < 2 ^ 29" using Cons.prems(2) by simp
  then have "length inp < 2 ^ 62" by simp
  note e = EVP_EncodeUpdate_spec [OF Cons.prems(1) this u]
  have "length (pending ctx @ inp) < 2 ^ 29 + 48"
    using l length_pending [OF Cons.prems(1)] Cons.prems(1) by (simp add: ctx_wf_def)
  then have "length out \<le> INT_MAX" using e lines_of_bound [of "pending ctx @ inp"] by simp
  with e have n: "n = length out" by simp
  have IH: "os = base64_text (pending ctx' @ concat inps) \<and> sum_list ms = length os"
    using Cons.IH [OF _ _ s] e Cons.prems(2) by simp
  have "base64_text (pending ctx @ concat (inp # inps)) = out @ base64_text (pending ctx' @ concat inps)"
    using base64_text_append [of "pending ctx @ inp" "concat inps"] e by simp
  moreover have "outs = out @ os" "ns = n # ms" using Cons.prems(3) u s by simp_all
  ultimately show ?case using n IH by simp
qed

end
