(* ===== verification/Encoding.thy ===== *)
theory Encoding
  imports Base64
begin

text \<open>
  Sessions of the base64 streams of \<open>crypto/base64/base64.c\<close>, in which the text arrives in pieces of
  any size, and the properties of the encoder, the decoder and the constant-time helpers under them.
\<close>

section \<open>Decoding a text that arrives in pieces\<close>

lemma decode_update_Cons:
  "decode_update ctx (c # inp) =
     (case decode_update ctx [c] of
        (False, out, ctx1) \<Rightarrow> (False, out, ctx1)
      | (True, out, ctx1) \<Rightarrow> (case decode_update ctx1 inp of (ok, out2, ctx2) \<Rightarrow> (ok, out @ out2, ctx2)))"
  by (cases "decode_update ctx inp") (simp add: Let_def split: option.splits)

lemma decode_update_append:
  "decode_update ctx (a @ b) =
     (case decode_update ctx a of
        (False, out, ctx1) \<Rightarrow> (False, out, ctx1)
      | (True, out, ctx1) \<Rightarrow> (case decode_update ctx1 b of (ok, out2, ctx2) \<Rightarrow> (ok, out @ out2, ctx2)))"
proof (induction a arbitrary: ctx)
  case (Cons c a)
  show ?case
    unfolding append_Cons decode_update_Cons [of ctx c "a @ b"] decode_update_Cons [of ctx c a]
    by (simp add: Cons.IH del: decode_update.simps split: prod.splits bool.splits)
qed simp

lemma decode_update_spaces:
  "decode_update ctx inp = decode_update ctx (filter (\<lambda>c. \<not> is_space c) inp)"
  by (induction ctx inp rule: decode_update.induct)
     (auto simp: Let_def split: option.splits)

lemma decode_update_error:
  "decode_update ctx inp = (ok, out, ctx') \<Longrightarrow> ec_error ctx' = (ec_error ctx \<or> \<not> ok)"
  by (induction ctx inp arbitrary: out rule: decode_update.induct)
     (auto simp: Let_def split: option.splits if_splits prod.splits)

lemma base64_decode_quad_length: "base64_decode_quad inp = Some bs \<Longrightarrow> length bs \<le> 3"
  by (auto simp: base64_decode_quad_def Let_def split: if_splits)

lemma decode_update_length:
  "decode_update ctx inp = (ok, out, ctx') \<Longrightarrow> length out \<le> 3 * length inp"
proof (induction inp arbitrary: ctx ok out ctx')
  case (Cons c inp)
  obtain ok1 out1 ctx1 where d: "decode_update ctx [c] = (ok1, out1, ctx1)" by (rule prod_cases3)
  then have l: "length out1 \<le> 3"
    by (auto simp: Let_def split: if_splits option.splits dest: base64_decode_quad_length)
  obtain ok2 out2 ctx2 where d2: "decode_update ctx1 inp = (ok2, out2, ctx2)" by (rule prod_cases3)
  have "out = (if ok1 then out1 @ out2 else out1)"
    using Cons.prems unfolding decode_update_Cons [of ctx c inp] d
    by (cases ok1) (simp_all add: d2)
  with l Cons.IH [OF d2] show ?case by simp
qed simp

lemma decode_update_quad:
  assumes "ec_data_used ctx = 0" "\<not> ec_eof_seen ctx" "length (ec_data ctx) = 48"
    and "\<not> is_space q1" "\<not> is_space q2" "\<not> is_space q3" "\<not> is_space q4"
    and "\<And>rest. base64_decode_quad (q1 # q2 # q3 # q4 # rest) = Some bs"
  obtains ctx' where
    "decode_update ctx (q1 # q2 # q3 # q4 # inp) =
       (case decode_update ctx' inp of (ok, out, ctx2) \<Rightarrow> (ok, bs @ out, ctx2))"
    "ec_data_used ctx' = 0" "ec_eof_seen ctx' = (length bs < 3)" "length (ec_data ctx') = 48"
proof -
  have p: "put_at 3 [q4] (put_at 2 [q3] (put_at (Suc 0) [q2] (put_at 0 [q1] (ec_data ctx)))) =
      q1 # q2 # q3 # q4 # drop 4 (ec_data ctx)"
    using assms(3) by (simp add: put_at_def numeral_eq_Suc)
  show ?thesis
  proof
    show "decode_update ctx (q1 # q2 # q3 # q4 # inp) =
       (case decode_update (ctx\<lparr>ec_data := q1 # q2 # q3 # q4 # drop 4 (ec_data ctx),
          ec_data_used := 0, ec_eof_seen := length bs < 3\<rparr>) inp of (ok, out, ctx2) \<Rightarrow> (ok, bs @ out, ctx2))"
      using assms p by (simp add: Let_def numeral_eq_Suc)
  qed (use assms in simp_all)
qed

lemma not_space_pad: "\<not> is_space 61"
  by (simp add: is_space_def)

text \<open>What one block of the encoder's output does to a decoder between two quads.\<close>

lemma decode_update_encode_block:
  assumes "ec_data_used ctx = 0" "\<not> ec_eof_seen ctx" "length (ec_data ctx) = 48"
  shows "\<exists>ctx'. decode_update ctx (encode_block bs) = (True, bs, ctx') \<and> ec_data_used ctx' = 0"
  using assms
proof (induction bs arbitrary: ctx rule: encode_block.induct)
  case 1
  then show ?case by simp
next
  case (2 a)
  let ?l = "push_bit 16 (ucast a) :: u32"
  have b: "take_bit 24 ?l = ?l" "ucast (drop_bit 16 ?l) = a" "take_bit 12 ?l = 0"
    using bytes24 [of a 0 0] by (simp_all, intro bit_word_eqI) (simp add: bit_simps)
  note q = decode_chars(3) [OF b(1,3), unfolded b(2)]
  obtain ctx' where "decode_update ctx (encode_block [a]) =
      (case decode_update ctx' [] of (ok, out, ctx2) \<Rightarrow> (ok, [a] @ out, ctx2))"
    "ec_data_used ctx' = 0"
    unfolding encode_block.simps Let_def
    by (rule decode_update_quad [where inp = "[]", OF 2 _ _ _ _ q]) (simp_all add: conv_bin2ascii_proper not_space_pad del: decode_update.simps(2))
  then show ?case by (simp del: decode_update.simps(2))
next
  case (3 a b)
  let ?l = "push_bit 16 (ucast a) OR push_bit 8 (ucast b) :: u32"
  have b: "take_bit 24 ?l = ?l" "ucast (drop_bit 16 ?l) = a" "ucast (drop_bit 8 ?l) = b"
    using bytes24 [of a b 0] by simp_all
  have z: "take_bit 6 ?l = 0" by (rule bit_word_eqI) (simp add: bit_simps)
  note q = decode_chars(2) [OF b(1) z, unfolded b(2,3)]
  obtain ctx' where "decode_update ctx (encode_block [a, b]) =
      (case decode_update ctx' [] of (ok, out, ctx2) \<Rightarrow> (ok, [a, b] @ out, ctx2))"
    "ec_data_used ctx' = 0"
    unfolding encode_block.simps Let_def
    by (rule decode_update_quad [where inp = "[]", OF 3 _ _ _ _ q]) (simp_all add: conv_bin2ascii_proper not_space_pad del: decode_update.simps(2))
  then show ?case by (simp del: decode_update.simps(2))
next
  case (4 a b c src)
  note q = decode_chars(1) [OF bytes24(1) [of a b c], unfolded bytes24(2-4)]
  obtain ctx' where d: "decode_update ctx (encode_block (a # b # c # src)) =
      (case decode_update ctx' (encode_block src) of (ok, out, ctx2) \<Rightarrow> (ok, [a, b, c] @ out, ctx2))"
    "ec_data_used ctx' = 0" "ec_eof_seen ctx' = (length [a, b, c] < 3)" "length (ec_data ctx') = 48"
    unfolding encode_block.simps Let_def append_Cons append_Nil bytes24(4)
    by (rule decode_update_quad [where inp = "encode_block src", OF 4(2-4) conv_bin2ascii_proper(2)
        conv_bin2ascii_proper(2) conv_bin2ascii_proper(2) conv_bin2ascii_proper(2) q])
       (rule that; simp only: encode_block.simps Let_def append_Cons append_Nil bytes24(4))
  obtain ctx2 where "decode_update ctx' (encode_block src) = (True, src, ctx2)" "ec_data_used ctx2 = 0"
    using 4(1) [OF refl, of ctx'] d(2-4) by auto
  with d(1) show ?case by (simp del: encode_block.simps)
qed

lemma base64_text_nonspace: "filter (\<lambda>c. \<not> is_space c) (base64_text bs) = encode_block bs"
proof -
  have n: "is_space 10" by (simp add: is_space_def)
  have f: "filter (\<lambda>c. \<not> is_space c) (encode_block xs) = encode_block xs" for xs
    using encode_block_proper by (simp add: filter_id_conv)
  have "filter (\<lambda>c. \<not> is_space c) (lines_of bs) @ encode_block (rest_of bs) = encode_block bs"
  proof (induction bs rule: lines_of.induct)
    case (1 bs)
    show ?case
    proof (cases "48 \<le> length bs")
      case True
      have "encode_block (take 48 bs) @ encode_block (drop 48 bs) = encode_block bs"
        using encode_block_append [of "take 48 bs" "drop 48 bs"] True by (simp add: min_def)
      with 1 True show ?thesis by (subst lines_of.simps, subst rest_of.simps) (simp add: f n)
    qed (simp add: lines_of.simps rest_of.simps)
  qed
  then show ?thesis by (auto simp: base64_text_def f n)
qed

text \<open>A session of decoding: the updates, then the final call. Whether no call failed, the bytes, and
  the counts that were reported for them.\<close>

fun decode_session :: "encode_ctx \<Rightarrow> bytes list \<Rightarrow> bool \<times> bytes \<times> nat list" where
  "decode_session ctx [] = (EVP_DecodeFinal ctx = 1, [], [])"
| "decode_session ctx (inp # inps) =
     (case EVP_DecodeUpdate ctx inp of
        (r, out, n, ctx') \<Rightarrow>
          if r = - 1 then (False, out, [n])
          else (case decode_session ctx' inps of (ok, outs, ns) \<Rightarrow> (ok, out @ outs, n # ns)))"

lemma decode_session_spec:
  assumes "\<not> ec_error ctx" and "\<forall>inp\<in>set inps. length inp < 2 ^ 29"
    and "decode_update ctx (concat inps) = (True, out, ctx')" and "ec_data_used ctx' = 0"
  shows "\<exists>ns. decode_session ctx inps = (True, out, ns) \<and> sum_list ns = length out"
  using assms
proof (induction inps arbitrary: ctx out)
  case Nil
  then show ?case by (auto simp: EVP_DecodeFinal_def)
next
  case (Cons inp inps)
  obtain ok1 out1 ctx1 where d1: "decode_update ctx inp = (ok1, out1, ctx1)" by (rule prod_cases3)
  obtain ok2 out2 ctx2 where d2: "decode_update ctx1 (concat inps) = (ok2, out2, ctx2)"
    by (rule prod_cases3)
  have r: "ok1" "ok2" "out = out1 @ out2" "ctx2 = ctx'"
    using Cons.prems(3) by (auto simp: decode_update_append d1 d2 split: bool.splits)
  have "length out1 \<le> INT_MAX" using decode_update_length [OF d1] Cons.prems(2) by simp
  then have u: "EVP_DecodeUpdate ctx inp = (if ec_eof_seen ctx1 then 0 else 1, out1, length out1, ctx1)"
    using Cons.prems(1) d1 r(1) by (simp add: EVP_DecodeUpdate_def)
  have "\<not> ec_error ctx1" using decode_update_error [OF d1] Cons.prems(1) r(1) by simp
  then obtain ns where "decode_session ctx1 inps = (True, out2, ns)" "sum_list ns = length out2"
    using Cons.IH [of ctx1 out2] Cons.prems(2,4) d2 r by auto
  with u r(3) show ?case by auto
qed

section \<open>Properties\<close>

text \<open>C24: A text encoded by \<open>EVP_EncodeUpdate\<close> and \<open>EVP_EncodeFinal\<close>, however its bytes were split into
  calls (of fewer than 2^29 bytes each), is decoded by \<open>EVP_DecodeUpdate\<close> and \<open>EVP_DecodeFinal\<close>, however its characters are split into
  calls, to the same bytes; no call reports an error, and the counts the calls report add up to what
  was written.\<close>

theorem base64_stream_roundtrip:
  assumes "\<forall>inp\<in>set inps. length inp < 2 ^ 29"
    and "encode_session EVP_EncodeInit inps = (chars, ns)"
    and "concat pieces = chars" and "\<forall>piece\<in>set pieces. length piece < 2 ^ 29"
  shows "sum_list ns = length chars \<and>
    (\<exists>ms. decode_session EVP_DecodeInit pieces = (True, concat inps, ms) \<and>
          sum_list ms = length (concat inps))"
proof -
  have wf: "ctx_wf EVP_EncodeInit" and "pending EVP_EncodeInit = []"
    by (simp_all add: ctx_wf_def pending_def EVP_EncodeInit_def)
  with encode_session_spec [OF wf assms(1,2)]
  have e: "chars = base64_text (concat inps)" "sum_list ns = length chars" by simp_all
  obtain ctx' where d: "decode_update EVP_DecodeInit (encode_block (concat inps)) = (True, concat inps, ctx')"
    "ec_data_used ctx' = 0"
    using decode_update_encode_block [of EVP_DecodeInit "concat inps"] by (auto simp: EVP_DecodeInit_def)
  have "decode_update EVP_DecodeInit (concat pieces) = (True, concat inps, ctx')"
    using d(1) by (subst decode_update_spaces) (simp add: assms(3) e base64_text_nonspace)
  moreover have "\<not> ec_error EVP_DecodeInit" by (simp add: EVP_DecodeInit_def)
  ultimately show ?thesis using decode_session_spec [OF _ assms(4) _ d(2)] e by blast
qed

theorem base64_stream_roundtrip_witness:
  "\<exists>chars ns ms. encode_session EVP_EncodeInit [[77, 97], [110, 33]] = (chars, ns) \<and>
     decode_session EVP_DecodeInit [take 5 chars, drop 5 chars] = (True, [77, 97, 110, 33], ms) \<and>
     sum_list ms = 4"
proof -
  let ?inps = "[[77, 97], [110, 33]] :: bytes list"
  obtain chars ns where e: "encode_session EVP_EncodeInit ?inps = (chars, ns)" by (rule prod.exhaust)
  have wf: "ctx_wf EVP_EncodeInit" and p: "pending EVP_EncodeInit = []"
    by (simp_all add: ctx_wf_def pending_def EVP_EncodeInit_def)
  have "chars = encode_block [77, 97, 110, 33] @ [10]"
    using encode_session_spec [OF wf _ e]
    by (simp add: p base64_text_def lines_of.simps rest_of.simps del: encode_block.simps encode_session.simps)
  then have l: "length chars = 9" by (simp add: length_encode_block del: encode_block.simps)
  have "\<forall>inp\<in>set ?inps. length inp < 2 ^ 29" by simp
  from base64_stream_roundtrip [OF this e, of "[take 5 chars, drop 5 chars]"] l
  have "\<exists>ms. decode_session EVP_DecodeInit [take 5 chars, drop 5 chars] = (True, concat ?inps, ms) \<and>
      sum_list ms = length (concat ?inps)"
    by (simp del: encode_session.simps decode_session.simps)
  then have "\<exists>ms. decode_session EVP_DecodeInit [take 5 chars, drop 5 chars] =
      (True, [77, 97, 110, 33], ms) \<and> sum_list ms = 4"
    by (simp add: numeral_eq_Suc del: encode_session.simps decode_session.simps)
  with e show ?thesis by blast
qed

lemma padding: "(3 - k mod 3) mod 3 = 3 * ((k + 2) div 3) - (k :: nat)"
proof -
  obtain q r where k: "k = 3 * q + r" "r < 3" by (metis div_mult_mod_eq mod_less_divisor mult.commute zero_less_numeral)
  then consider "r = 0" | "r = 1" | "r = 2" by linarith
  moreover have "(3 * q + r) mod 3 = r" "(3 * q + r + 2) div 3 = q + (r + 2) div 3" using k(2) by simp_all
  ultimately show ?thesis unfolding k(1) by cases simp_all
qed

text \<open>\<open>EVP_EncodeBlock\<close> writes exactly the number of characters that \<open>EVP_EncodedLength\<close> announces
  (with the NUL), \<open>EVP_DecodeBase64\<close> gives the bytes back whenever the output has room for
  \<open>EVP_DecodedLength\<close> bytes, and \<open>EVP_DecodeBlock\<close> gives them back filled up with zeros to a multiple of
  three.\<close>

theorem base64_block_roundtrip:
  assumes "length bs < 2 ^ 29" and "3 * ((length bs + 2) div 3) \<le> max_out"
  shows "EVP_EncodedLength (length bs) = Some (length (EVP_EncodeBlock bs (length bs)) + 1) \<and>
    EVP_DecodeBase64 max_out (EVP_EncodeBlock bs (length bs)) = Some bs \<and>
    EVP_DecodeBlock (EVP_EncodeBlock bs (length bs)) =
      (int (3 * ((length bs + 2) div 3)), bs @ replicate (3 * ((length bs + 2) div 3) - length bs) 0)"
proof -
  define n where "n = (length bs + 2) div 3"
  let ?text = "encode_block bs"
  have n: "n < 2 ^ 29" and m: "3 * n \<le> max_out" using assms by (simp_all add: n_def)
  have len: "length ?text = 4 * n" unfolding n_def by (rule length_encode_block)
  have le: "length bs \<le> 3 * n" unfolding n_def by presburger
  have e: "EVP_EncodeBlock bs (length bs) = ?text" by (simp add: EVP_EncodeBlock_def)
  have a: "mul_size n 4 = 4 * n" "mul_size n 3 = 3 * n" "add_size (4 * n) 1 = 4 * n + 1"
    using n by simp_all
  have "add_size (length bs) 2 = length bs + 2" using assms(1) by simp
  then have 1: "EVP_EncodedLength (length bs) = Some (length ?text + 1)"
    unfolding EVP_EncodedLength_def Let_def by (simp add: n_def [symmetric] a a(3) [unfolded One_nat_def] len del: add_2_eq_Suc')
  have dl: "EVP_DecodedLength (4 * n) = Some (3 * n)" by (simp add: EVP_DecodedLength_def a)
  have 2: "EVP_DecodeBase64 k ?text = Some bs" if "3 * n \<le> k" for k
    using that by (simp add: EVP_DecodeBase64_def len dl decode_quads_encode)
  have trim: "dropWhile P xs = xs" if "\<forall>c\<in>set xs. \<not> P c" for P :: "u8 \<Rightarrow> bool" and xs
    using that by (cases xs) simp_all
  have "\<forall>c\<in>set ?text. \<not> (c = 32 \<or> c = 9)" using encode_block_proper by (auto simp: is_space_def)
  note trim1 = trim [OF this]
  have "\<forall>c\<in>set (rev ?text). \<not> is_space c" using encode_block_proper by simp
  note trim2 = trim [OF this]
  have z: "zero_fill bs = bs @ replicate (3 * n - length bs) 0"
  proof -
    have "(3 - length bs mod 3) mod 3 = 3 * n - length bs" unfolding n_def by (rule padding)
    then show ?thesis by simp
  qed
  then have "length (zero_fill bs) = 3 * n" using le by simp
  then have "EVP_DecodeBlock ?text = (int (3 * n), zero_fill bs)"
    unfolding EVP_DecodeBlock_def Let_def trim1 trim2
    using n 2 [of "3 * n"] by (simp add: len dl del: zero_fill.simps)
  with 1 2 [OF m] e z show ?thesis unfolding n_def [symmetric] by simp
qed

text \<open>\<open>EVP_EncodedLength\<close> is exact on every \<open>size_t\<close>: it succeeds if and only if the number of
  characters and the NUL fits, and then gives it; none of its tests for wrap-around misses one or
  refuses a length that fits.\<close>

theorem encoded_length_exact:
  assumes "len < 2 ^ 64"
  shows "EVP_EncodedLength len =
    (if 4 * ((len + 2) div 3) + 1 < 2 ^ 64 then Some (4 * ((len + 2) div 3) + 1) else None)"
proof (cases "len + 2 < 2 ^ 64")
  case False
  then have "add_size len 2 < len" using add_size_overflow_test [of len 2] assms by simp
  moreover have "2 ^ 64 div 3 \<le> (len + 2) div 3" using False by (intro div_le_mono) simp
  then have "\<not> 4 * ((len + 2) div 3) + 1 < 2 ^ 64" by simp
  ultimately show ?thesis by (simp add: EVP_EncodedLength_def)
next
  case True
  define m where "m = (len + 2) div 3"
  have m: "add_size len 2 = len + 2" using True by simp
  have step: "EVP_EncodedLength len = (if mul_size m 4 div 4 \<noteq> m then None
      else if add_size (mul_size m 4) 1 < mul_size m 4 then None else Some (add_size (mul_size m 4) 1))"
    unfolding EVP_EncodedLength_def Let_def m m_def by simp
  show ?thesis
  proof (cases "4 * m < 2 ^ 64")
    case True
    then have "mul_size m 4 = 4 * m" by simp
    moreover have "m < 2 ^ 62" using True by simp
    then have "4 * m + 1 < 2 ^ 64" by simp
    ultimately show ?thesis by (simp add: step m_def [symmetric] del: add_2_eq_Suc')
  next
    case False
    have "mul_size m 4 < 2 ^ 64" by (simp add: mul_size_def)
    with False have "mul_size m 4 div 4 \<noteq> m" by linarith
    with False show ?thesis by (simp add: step m_def [symmetric] del: add_2_eq_Suc')
  qed
qed

text \<open>C38: The constant-time comparisons are the comparisons: on every pair of words the mask is all ones
  when the comparison holds and zero when it does not, and a selection by such a mask is a conditional;
  in one byte as well as in a word.\<close>

theorem constant_time_masks:
  "constant_time_lt_w a b = (if a < b then - 1 else 0) \<and>
   constant_time_ge_w a b = (if b \<le> a then - 1 else 0) \<and>
   constant_time_is_zero_w a = (if a = 0 then - 1 else 0) \<and>
   constant_time_eq_w a b = (if a = b then - 1 else 0) \<and>
   constant_time_lt_8 a b = (if a < b then 0xff else 0) \<and>
   constant_time_ge_8 a b = (if b \<le> a then 0xff else 0) \<and>
   constant_time_is_zero_8 a = (if a = 0 then 0xff else 0) \<and>
   constant_time_eq_8 a b = (if a = b then 0xff else 0) \<and>
   constant_time_eq_int i j = (if i = j then - 1 else 0) \<and>
   constant_time_eq_int_8 i j = (if i = j then 0xff else 0) \<and>
   constant_time_select_w (constant_time_lt_w a b) c d = (if a < b then c else d) \<and>
   constant_time_select_int (constant_time_lt_w a b) i j = (if a < b then i else j) \<and>
   constant_time_select_8 (constant_time_lt_8 a b) x y = (if a < b then x else y)"
  by (simp only: lt_w ge_w is_zero_w eq_w lt_8 ge_8 is_zero_8 eq_8 eq_int eq_int_8 select_w select_int
      select_8 conj_absorb simp_thms)

end
