(* ===== verification/Timer_Heap.thy ===== *)
theory Timer_Heap
  imports Prelude "HOL-Library.Signed_Division" "HOL-Library.Multiset"
begin

text \<open>
  The heap of pending timers of gRPC (\<open>gRPC-Core/src/core/lib/iomgr/timer_heap.cc\<close>): an array of pointers to
  timers ordered by their deadlines, in which every timer knows its index.

  A timer is its address; the store gives the structure at an address. Indices and counts are \<open>uint32_t\<close>,
  as natural numbers with the reduction written out. The loops have no fuel: from an index of 2^31 on, the
  parent of an element is computed as a negative number, and the loop need not end.
\<close>

section \<open>State\<close>

type_synonym timer_ptr = nat

record grpc_timer =
  deadline :: int
  heap_index :: nat
  pending :: bool
  closure :: nat

type_synonym timer_store = "timer_ptr \<Rightarrow> grpc_timer"

record grpc_timer_heap =
  timers :: "timer_ptr list"
  timer_count :: nat
  timer_capacity :: nat

definition wrap32 :: "nat \<Rightarrow> nat" where
  "wrap32 n = n mod 2 ^ 32"

definition set_heap_index :: "timer_ptr \<Rightarrow> nat \<Rightarrow> timer_store \<Rightarrow> timer_store" where
  "set_heap_index t i T = T(t := (T t)\<lparr>heap_index := i\<rparr>)"

text \<open>\<open>(uint32_t)(((int)i - 1) / 2)\<close>\<close>

definition heap_parent :: "nat \<Rightarrow> nat" where
  "heap_parent i =
     (let k = (if i < 2 ^ 31 then int i else int i - 2 ^ 32) in nat (((k - 1) sdiv 2) mod 2 ^ 32))"

section \<open>Operations\<close>

definition put_timer :: "timer_ptr list \<Rightarrow> timer_store \<Rightarrow> nat \<Rightarrow> timer_ptr \<Rightarrow> timer_ptr list \<times> timer_store" where
  "put_timer first T i t = (first[i := t], set_heap_index t i T)"

partial_function (option) adjust_upwards :: "timer_ptr list \<Rightarrow> timer_store \<Rightarrow> nat \<Rightarrow> timer_ptr \<Rightarrow>
    (timer_ptr list \<times> timer_store) option" where
  "adjust_upwards first T i t =
     (if 0 < i then
        let parent = heap_parent i in
        if deadline (T (first ! parent)) \<le> deadline (T t) then Some (put_timer first T i t)
        else
          (case put_timer first T i (first ! parent) of
             (first, T) \<Rightarrow> adjust_upwards first T parent t)
      else Some (put_timer first T i t))"

partial_function (option) adjust_downwards :: "timer_ptr list \<Rightarrow> timer_store \<Rightarrow> nat \<Rightarrow> nat \<Rightarrow> timer_ptr \<Rightarrow>
    (timer_ptr list \<times> timer_store) option" where
  "adjust_downwards first T i n t =
     (let left_child = wrap32 (1 + 2 * i) in
      if n \<le> left_child then Some (put_timer first T i t)
      else
        let right_child = wrap32 (left_child + 1);
            next_i = (if right_child < n \<and> deadline (T (first ! right_child)) < deadline (T (first ! left_child))
                      then right_child else left_child)
        in if deadline (T t) \<le> deadline (T (first ! next_i)) then Some (put_timer first T i t)
           else
             (case put_timer first T i (first ! next_i) of
                (first, T) \<Rightarrow> adjust_downwards first T next_i n t))"

definition maybe_shrink :: "grpc_timer_heap \<Rightarrow> grpc_timer_heap" where
  "maybe_shrink h =
     (if 8 \<le> timer_count h \<and> timer_count h \<le> timer_capacity h div 2 div 2 then
        let capacity = wrap32 (timer_count h * 2)
        in h\<lparr>timer_capacity := capacity, timers := take capacity (timers h)\<rparr>
      else h)"

definition note_changed_priority :: "grpc_timer_heap \<Rightarrow> timer_store \<Rightarrow> timer_ptr \<Rightarrow>
    (grpc_timer_heap \<times> timer_store) option" where
  "note_changed_priority h T timer =
     (let i = heap_index (T timer); parent = heap_parent i in
      map_option (\<lambda>(first, T). (h\<lparr>timers := first\<rparr>, T))
        (if deadline (T timer) < deadline (T (timers h ! parent)) then adjust_upwards (timers h) T i timer
         else adjust_downwards (timers h) T i (timer_count h) timer))"

definition grpc_timer_heap_init :: grpc_timer_heap where
  "grpc_timer_heap_init = \<lparr>timers = [], timer_count = 0, timer_capacity = 0\<rparr>"

text \<open>\<open>fresh\<close> is what the new words of the reallocated array hold.\<close>

definition grpc_timer_heap_add :: "(nat \<Rightarrow> timer_ptr) \<Rightarrow> grpc_timer_heap \<Rightarrow> timer_store \<Rightarrow> timer_ptr \<Rightarrow>
    (bool \<times> grpc_timer_heap \<times> timer_store) option" where
  "grpc_timer_heap_add fresh h T timer =
     (let h = (if timer_count h = timer_capacity h then
                 let capacity = max (wrap32 (timer_capacity h + 1)) (wrap32 (timer_capacity h * 3) div 2)
                 in h\<lparr>timer_capacity := capacity,
                      timers := take capacity (timers h) @ map fresh [length (timers h)..<capacity]\<rparr>
               else h);
          T = set_heap_index timer (timer_count h) T
      in map_option
           (\<lambda>(first, T).
              (heap_index (T timer) = 0, h\<lparr>timers := first, timer_count := wrap32 (timer_count h + 1)\<rparr>, T))
           (adjust_upwards (timers h) T (timer_count h) timer))"

text \<open>The count of an empty heap would become \<open>UINT32_MAX\<close>.\<close>

definition grpc_timer_heap_remove :: "grpc_timer_heap \<Rightarrow> timer_store \<Rightarrow> timer_ptr \<Rightarrow>
    (grpc_timer_heap \<times> timer_store) option" where
  "grpc_timer_heap_remove h T timer =
     (let i = heap_index (T timer); last = wrap32 (timer_count h + (2 ^ 32 - 1)) in
      if i = last then Some (maybe_shrink (h\<lparr>timer_count := last\<rparr>), T)
      else
        let t = timers h ! last;
            h = maybe_shrink (h\<lparr>timers := (timers h)[i := t], timer_count := last\<rparr>);
            T = set_heap_index t i T
        in note_changed_priority h T (timers h ! i))"

definition grpc_timer_heap_is_empty :: "grpc_timer_heap \<Rightarrow> bool" where
  "grpc_timer_heap_is_empty h \<longleftrightarrow> timer_count h = 0"

definition grpc_timer_heap_top :: "grpc_timer_heap \<Rightarrow> timer_ptr" where
  "grpc_timer_heap_top h = timers h ! 0"

definition grpc_timer_heap_pop :: "grpc_timer_heap \<Rightarrow> timer_store \<Rightarrow> (grpc_timer_heap \<times> timer_store) option" where
  "grpc_timer_heap_pop h T = grpc_timer_heap_remove h T (grpc_timer_heap_top h)"

section \<open>The invariant\<close>

abbreviation up :: "nat \<Rightarrow> nat" where "up i \<equiv> (i - 1) div 2"

lemma heap_parent_up: "i < 2 ^ 31 \<Longrightarrow> heap_parent i = up i"
proof (cases "i = 0")
  case False
  assume i: "i < 2 ^ 31"
  have "(int i - 1) sdiv 2 = int (up i)"
    using False by (cases "i = 1") (simp_all add: signed_divide_int_def of_nat_diff zdiv_int)
  moreover have "int (up i) < 2 ^ 32" using i by simp
  ultimately show ?thesis using i by (simp add: heap_parent_def Let_def)
qed (simp add: heap_parent_def signed_divide_int_def)

lemma up_less: "0 < i \<Longrightarrow> up i < i"
  by simp

lemma up_children: "0 < j \<Longrightarrow> up j = i \<longleftrightarrow> j = 1 + 2 * i \<or> j = 2 + 2 * i"
  by auto

definition heap_ordered :: "(timer_ptr \<Rightarrow> int) \<Rightarrow> nat \<Rightarrow> timer_ptr list \<Rightarrow> bool" where
  "heap_ordered d n xs \<longleftrightarrow> (\<forall>j. 0 < j \<and> j < n \<longrightarrow> d (xs ! up j) \<le> d (xs ! j))"

definition indexed :: "nat \<Rightarrow> timer_store \<Rightarrow> timer_ptr list \<Rightarrow> bool" where
  "indexed n T xs \<longleftrightarrow> (\<forall>j < n. heap_index (T (xs ! j)) = j)"

text \<open>An array that is ordered except at \<open>i\<close>: there the element may be too early, or too late.\<close>

definition early_at :: "(timer_ptr \<Rightarrow> int) \<Rightarrow> nat \<Rightarrow> timer_ptr list \<Rightarrow> nat \<Rightarrow> bool" where
  "early_at d n ys i \<longleftrightarrow>
     (\<forall>j. 0 < j \<and> j < n \<and> j \<noteq> i \<longrightarrow> d (ys ! up j) \<le> d (ys ! j)) \<and>
     (\<forall>j. 0 < i \<and> 0 < j \<and> j < n \<and> up j = i \<longrightarrow> d (ys ! up i) \<le> d (ys ! j))"

definition late_at :: "(timer_ptr \<Rightarrow> int) \<Rightarrow> nat \<Rightarrow> timer_ptr list \<Rightarrow> nat \<Rightarrow> bool" where
  "late_at d n ys i \<longleftrightarrow>
     (\<forall>j. 0 < j \<and> j < n \<and> up j \<noteq> i \<longrightarrow> d (ys ! up j) \<le> d (ys ! j)) \<and>
     (\<forall>j. 0 < i \<and> 0 < j \<and> j < n \<and> up j = i \<longrightarrow> d (ys ! up i) \<le> d (ys ! j))"

lemma swap_nth:
  "i < length xs \<Longrightarrow> p < length xs \<Longrightarrow> i \<noteq> p \<Longrightarrow>
    xs[i := xs ! p, p := t] ! j = (if j = p then t else if j = i then xs ! p else xs ! j)"
  by simp

lemma early_up:
  assumes e: "early_at d n (xs[i := t]) i" and i: "0 < i" "i < n" "n \<le> length xs" and less: "d t < d (xs ! up i)"
  shows "early_at d n (xs[i := xs ! up i, up i := t]) (up i)"
proof -
  let ?p = "up i" let ?y = "xs[i := t]" let ?z = "xs[i := xs ! ?p, ?p := t]"
  have p: "?p < i" using i(1) by simp
  have z: "?z ! j = (if j = ?p then t else if j = i then xs ! ?p else xs ! j)" for j
    using p i by (intro swap_nth) simp_all
  have y: "?y ! j = (if j = i then t else xs ! j)" for j using i by simp
  have e1: "d (?y ! up j) \<le> d (?y ! j)" if "0 < j" "j < n" "j \<noteq> i" for j using e that by (simp add: early_at_def)
  have e2: "d (?y ! ?p) \<le> d (?y ! j)" if "0 < j" "j < n" "up j = i" for j
    using e that i(1) unfolding early_at_def by blast
  show ?thesis unfolding early_at_def
  proof (intro conjI allI impI)
    fix j assume j: "0 < j \<and> j < n \<and> j \<noteq> ?p"
    consider "j = i" | "j \<noteq> i" "up j = i" | "j \<noteq> i" "up j = ?p" | "j \<noteq> i" "up j \<noteq> i" "up j \<noteq> ?p" by blast
    then show "d (?z ! up j) \<le> d (?z ! j)"
    proof cases
      case 1 with p less show ?thesis by (simp only: z) simp
    next
      case 2
      with j p e2 [of j] show ?thesis by (simp only: z y) simp
    next
      case 3
      with j p e1 [of j] less show ?thesis by (simp only: z y) simp
    next
      case 4
      with j e1 [of j] show ?thesis by (simp only: z y) simp
    qed
  next
    fix j assume j: "0 < ?p \<and> 0 < j \<and> j < n \<and> up j = ?p"
    have u: "up ?p < ?p" using j by (intro up_less) simp
    with p have "up ?p \<noteq> i" by simp
    then have pp: "d (xs ! up ?p) \<le> d (xs ! ?p)" using e1 [of ?p] j p i(2) by (simp only: y) simp
    show "d (?z ! up ?p) \<le> d (?z ! j)"
    proof (cases "j = i")
      case True
      have "up ?p \<noteq> ?p" "up ?p \<noteq> i" using u p by simp_all
      with True pp p show ?thesis by (simp only: z) simp
    next
      case False
      have "up ?p \<noteq> ?p" "up ?p \<noteq> i" using u p by simp_all
      moreover have "j \<noteq> ?p" using j up_less [of j] by auto
      ultimately have "up ?p \<noteq> ?p" "up ?p \<noteq> i" "j \<noteq> ?p" by simp_all
      with False pp e1 [of j] j p show ?thesis by (simp only: z y) simp
    qed
  qed
qed

lemma late_down:
  assumes e: "late_at d n (xs[i := t]) i" and n: "n \<le> length xs" and c: "0 < c" "c < n" "up c = i"
    and least: "\<And>j. 0 < j \<Longrightarrow> j < n \<Longrightarrow> up j = i \<Longrightarrow> d (xs ! c) \<le> d (xs ! j)" and less: "d (xs ! c) < d t"
  shows "late_at d n (xs[i := xs ! c, c := t]) c"
proof -
  let ?y = "xs[i := t]" let ?z = "xs[i := xs ! c, c := t]"
  have ic: "i < c" using c by auto
  have z: "?z ! j = (if j = c then t else if j = i then xs ! c else xs ! j)" for j
    using ic c n by (intro swap_nth) simp_all
  have y: "?y ! j = (if j = i then t else xs ! j)" for j using ic c n by simp
  have e1: "d (?y ! up j) \<le> d (?y ! j)" if "0 < j" "j < n" "up j \<noteq> i" for j
    using e that unfolding late_at_def by blast
  have e2: "d (?y ! up i) \<le> d (?y ! j)" if "0 < i" "0 < j" "j < n" "up j = i" for j
    using e that unfolding late_at_def by blast
  show ?thesis unfolding late_at_def
  proof (intro conjI allI impI)
    fix j assume j: "0 < j \<and> j < n \<and> up j \<noteq> c"
    consider "j = c" | "j \<noteq> c" "up j = i" | "j = i" | "j \<noteq> c" "j \<noteq> i" "up j \<noteq> i" by blast
    then show "d (?z ! up j) \<le> d (?z ! j)"
    proof cases
      case 1 with c(3) ic less show ?thesis by (simp only: z) simp
    next
      case 2
      then have "j \<noteq> i" using j by auto
      with 2 least [of j] j ic show ?thesis by (simp only: z) simp
    next
      case 3
      then have "up i \<noteq> i" "up i \<noteq> c" using j ic by auto
      with 3 e2 [OF _ c] j ic show ?thesis by (simp only: z y) simp
    next
      case 4
      with e1 [of j] j show ?thesis by (simp only: z y) simp
    qed
  next
    fix j assume j: "0 < c \<and> 0 < j \<and> j < n \<and> up j = c"
    then have "j \<noteq> c" "j \<noteq> i" "up j \<noteq> i" using ic by auto
    with e1 [of j] j c(3) ic show "d (?z ! up c) \<le> d (?z ! j)" by (simp only: z y) simp
  qed
qed

text \<open>What sifting gives, from the array \<open>ys\<close> with the element in its place.\<close>

definition sifted :: "nat \<Rightarrow> timer_ptr list \<Rightarrow> timer_store \<Rightarrow> (timer_ptr list \<times> timer_store) option \<Rightarrow> bool" where
  "sifted n ys T r \<longleftrightarrow>
     (\<exists>rs T'. r = Some (rs, T') \<and> length rs = length ys \<and> mset (take n rs) = mset (take n ys) \<and>
        heap_ordered (\<lambda>x. deadline (T x)) n rs \<and> indexed n T' rs \<and> (\<forall>x. deadline (T' x) = deadline (T x)) \<and>
        (\<forall>x. x \<notin> set (take n ys) \<longrightarrow> T' x = T x))"

lemma deadline_set_index [simp]: "deadline (set_heap_index t i T x) = deadline (T x)"
  by (simp add: set_heap_index_def)

lemma index_set_index [simp]: "heap_index (set_heap_index t i T x) = (if x = t then i else heap_index (T x))"
  by (simp add: set_heap_index_def)

lemma set_index_other: "x \<noteq> t \<Longrightarrow> set_heap_index t i T x = T x"
  by (simp add: set_heap_index_def)

lemma sifted_put:
  assumes "heap_ordered (\<lambda>x. deadline (T x)) n (first[i := t])" and "i < n" "n \<le> length first"
    and "distinct (take n (first[i := t]))" and "\<forall>j < n. j \<noteq> i \<longrightarrow> heap_index (T (first ! j)) = j"
  shows "sifted n (first[i := t]) T (Some (put_timer first T i t))"
proof -
  have "first[i := t] ! j \<noteq> t" if "j < n" "j \<noteq> i" for j
    using assms(2-4) that nth_eq_iff_index_eq [OF assms(4), of j i] by simp
  then have "indexed n (set_heap_index t i T) (first[i := t])"
    using assms(2,3,5) by (auto simp: indexed_def nth_list_update)
  moreover have "t \<in> set (take n (first[i := t]))"
    using assms(2,3) by (auto simp: in_set_conv_nth intro!: exI [of _ i])
  moreover from this have "set_heap_index t i T x = T x" if "x \<notin> set (take n (first[i := t]))" for x
    using that by (intro set_index_other) blast
  ultimately show ?thesis using assms(1) by (simp add: sifted_def put_timer_def)
qed

text \<open>Moving an element from \<open>p\<close> to the hole at \<open>i\<close>.\<close>

lemma take_swap:
  assumes "i < n" "p < n" "i \<noteq> p" "n \<le> length first"
  shows "take n (first[i := first ! p, p := t]) =
    (take n (first[i := t]))[i := take n (first[i := t]) ! p, p := take n (first[i := t]) ! i]"
  by (rule nth_equalityI) (use assms in \<open>auto simp: nth_list_update\<close>)

lemma sifted_move:
  assumes r: "sifted n (first[i := first ! p, p := t]) (set_heap_index (first ! p) i T) r"
    and "i < n" "p < n" "i \<noteq> p" "n \<le> length first"
  shows "sifted n (first[i := t]) T r"
proof -
  let ?ys = "first[i := t]" let ?zs = "first[i := first ! p, p := t]"
  have l: "i < length (take n ?ys)" "p < length (take n ?ys)" using assms(2-5) by simp_all
  have "take n ?zs = (take n ?ys)[i := take n ?ys ! p, p := take n ?ys ! i]"
    by (rule take_swap [OF assms(2-5)])
  then have m: "mset (take n ?zs) = mset (take n ?ys)" using mset_swap [OF l(2,1)] by simp
  then have s: "set (take n ?zs) = set (take n ?ys)" by (metis set_mset_mset)
  have "?ys ! p = first ! p" using assms(4) by simp
  then have "first ! p \<in> set (take n ?ys)"
    using assms(3,5) by (auto simp: in_set_conv_nth intro!: exI [of _ p])
  then have other: "set_heap_index (first ! p) i T x = T x" if "x \<notin> set (take n ?ys)" for x
    using that by (auto intro: set_index_other)
  from r show ?thesis unfolding sifted_def s m using other by auto
qed

lemma moved_index:
  assumes "distinct (take n (first[i := t]))" and "\<forall>j < n. j \<noteq> i \<longrightarrow> heap_index (T (first ! j)) = j"
    and "i < n" "p < n" "i \<noteq> p" "n \<le> length first"
  shows "distinct (take n (first[i := first ! p, p := t]))"
    and "\<forall>j < n. j \<noteq> p \<longrightarrow> heap_index (set_heap_index (first ! p) i T (first[i := first ! p] ! j)) = j"
proof -
  let ?ys = "first[i := t]"
  have l: "i < length (take n ?ys)" "p < length (take n ?ys)" using assms(3-6) by simp_all
  have "take n (first[i := first ! p, p := t]) = (take n ?ys)[i := take n ?ys ! p, p := take n ?ys ! i]"
    by (rule take_swap [OF assms(3-6)])
  with assms(1) distinct_swap [OF l(1) l(2)] show "distinct (take n (first[i := first ! p, p := t]))" by simp
  show "\<forall>j < n. j \<noteq> p \<longrightarrow> heap_index (set_heap_index (first ! p) i T (first[i := first ! p] ! j)) = j"
  proof (intro allI impI)
    fix j assume j: "j < n" "j \<noteq> p"
    show "heap_index (set_heap_index (first ! p) i T (first[i := first ! p] ! j)) = j"
    proof (cases "j = i")
      case False
      have "first ! j \<noteq> first ! p"
        using False j assms(3-6) nth_eq_iff_index_eq [OF assms(1), of j p] by simp
      with False j assms(2) show ?thesis by simp
    qed (use assms(3,6) in simp)
  qed
qed

lemma early_heap:
  assumes "early_at d n (first[i := t]) i" and "i < n" "n \<le> length first" and "0 < i \<Longrightarrow> d (first ! up i) \<le> d t"
  shows "heap_ordered d n (first[i := t])"
proof -
  have "d (first[i := t] ! up i) \<le> d (first[i := t] ! i)" if "0 < i"
    using assms(2-4) that up_less [OF that] by simp
  with assms(1) show ?thesis unfolding heap_ordered_def early_at_def by blast
qed

lemma sift_up:
  assumes "early_at (\<lambda>x. deadline (T x)) n (first[i := t]) i" and "i < n" "n \<le> length first" "n \<le> 2 ^ 31"
    and "distinct (take n (first[i := t]))" and "\<forall>j < n. j \<noteq> i \<longrightarrow> heap_index (T (first ! j)) = j"
  shows "sifted n (first[i := t]) T (adjust_upwards first T i t)"
  using assms
proof (induction i arbitrary: first T rule: less_induct)
  case (less i)
  have p: "heap_parent i = up i" using less.prems by (intro heap_parent_up) simp
  show ?case
  proof (cases "0 < i \<and> deadline (T t) < deadline (T (first ! up i))")
    case True
    let ?p = "up i"
    have pi: "?p < i" using True by (intro up_less) simp
    let ?T = "set_heap_index (first ! ?p) i T"
    have d: "(\<lambda>x. deadline (?T x)) = (\<lambda>x. deadline (T x))" by simp
    have e: "early_at (\<lambda>x. deadline (?T x)) n (first[i := first ! ?p, ?p := t]) ?p"
      unfolding d using early_up [OF less.prems(1)] less.prems(2,3) True by blast
    note m = moved_index [OF less.prems(5,6,2) _ _ less.prems(3), of ?p]
    have "sifted n (first[i := first ! ?p, ?p := t]) ?T (adjust_upwards (first[i := first ! ?p]) ?T ?p t)"
      using pi less.prems(2-4) m by (intro less.IH e) simp_all
    then have "sifted n (first[i := t]) T (adjust_upwards (first[i := first ! ?p]) ?T ?p t)"
      by (rule sifted_move) (use pi less.prems(2,3) in simp_all)
    with True p show ?thesis
      by (subst adjust_upwards.simps) (simp add: Let_def put_timer_def not_le)
  next
    case False
    then have "heap_ordered (\<lambda>x. deadline (T x)) n (first[i := t])"
      by (intro early_heap [OF less.prems(1-3)]) simp
    from sifted_put [OF this less.prems(2,3,5,6)] False p show ?thesis
      by (subst adjust_upwards.simps) (auto simp add: Let_def not_less)
  qed
qed

lemma late_heap:
  assumes "late_at d n (first[i := t]) i" and "i < n" "n \<le> length first"
    and "\<And>j. 0 < j \<Longrightarrow> j < n \<Longrightarrow> up j = i \<Longrightarrow> d t \<le> d (first ! j)"
  shows "heap_ordered d n (first[i := t])"
  unfolding heap_ordered_def
proof (intro allI impI)
  fix j assume j: "0 < j \<and> j < n"
  show "d (first[i := t] ! up j) \<le> d (first[i := t] ! j)"
  proof (cases "up j = i")
    case True
    have "j \<noteq> i" using True j by auto
    with assms(4) [of j] True j assms(2,3) show ?thesis by simp
  qed (use assms(1) j in \<open>unfold late_at_def, blast\<close>)
qed

lemma sift_down:
  assumes "late_at (\<lambda>x. deadline (T x)) n (first[i := t]) i" and "i < n" "n \<le> length first" "n < 2 ^ 31"
    and "distinct (take n (first[i := t]))" and "\<forall>j < n. j \<noteq> i \<longrightarrow> heap_index (T (first ! j)) = j"
  shows "sifted n (first[i := t]) T (adjust_downwards first T i n t)"
  using assms
proof (induction "n - i" arbitrary: i first T rule: less_induct)
  case less
  let ?d = "\<lambda>x. deadline (T x)"
  have w: "wrap32 (1 + 2 * i) = 1 + 2 * i" "wrap32 (1 + 2 * i + 1) = 2 + 2 * i"
    using less.prems(2,4) by (simp_all add: wrap32_def)
  define c where "c = (if 2 + 2 * i < n \<and> ?d (first ! (2 + 2 * i)) < ?d (first ! (1 + 2 * i)) then 2 + 2 * i else 1 + 2 * i)"
  have step: "adjust_downwards first T i n t =
      (if n \<le> 1 + 2 * i \<or> ?d t \<le> ?d (first ! c) then Some (put_timer first T i t)
       else adjust_downwards (first[i := first ! c]) (set_heap_index (first ! c) i T) c n t)"
    by (subst adjust_downwards.simps) (simp add: Let_def w [simplified] put_timer_def c_def)
  have least: "?d (first ! c) \<le> ?d (first ! j)" if "0 < j" "j < n" "up j = i" for j
    using that up_children [OF that(1), of i] by (auto simp: c_def)
  show ?case
  proof (cases "n \<le> 1 + 2 * i \<or> ?d t \<le> ?d (first ! c)")
    case True
    have "heap_ordered ?d n (first[i := t])"
    proof (rule late_heap [OF less.prems(1-3)])
      fix j assume j: "0 < j" "j < n" "up j = i"
      then have "1 + 2 * i < n" using up_children [OF j(1), of i] by auto
      with True least [OF j] show "?d t \<le> ?d (first ! j)" by auto
    qed
    from sifted_put [OF this less.prems(2,3,5,6)] True show ?thesis by (simp only: step) simp
  next
    case False
    have c: "0 < c" "c < n" "up c = i" "i < c" using False by (auto simp: c_def)
    let ?T = "set_heap_index (first ! c) i T"
    have d: "(\<lambda>x. deadline (?T x)) = ?d" by simp
    have l: "late_at (\<lambda>x. deadline (?T x)) n (first[i := first ! c, c := t]) c"
      unfolding d using False by (intro late_down [OF less.prems(1,3) c(1-3) least]) simp_all
    note m = moved_index [OF less.prems(5,6,2) c(2) _ less.prems(3)]
    have "sifted n (first[i := first ! c, c := t]) ?T (adjust_downwards (first[i := first ! c]) ?T c n t)"
      using c less.prems(2-4) m by (intro less.hyps l) simp_all
    then have "sifted n (first[i := t]) T (adjust_downwards (first[i := first ! c]) ?T c n t)"
      by (rule sifted_move) (use c less.prems(2,3) in simp_all)
    with False show ?thesis by (simp only: step) simp
  qed
qed

section \<open>Well-formed heaps\<close>

definition pending_timers :: "grpc_timer_heap \<Rightarrow> timer_ptr list" where
  "pending_timers h = take (timer_count h) (timers h)"

definition timer_heap_wf :: "grpc_timer_heap \<times> timer_store \<Rightarrow> bool" where
  "timer_heap_wf s \<longleftrightarrow>
     (case s of (h, T) \<Rightarrow>
        length (timers h) = timer_capacity h \<and> timer_count h \<le> timer_capacity h \<and> timer_capacity h < 2 ^ 32 \<and>
        timer_count h < 2 ^ 31 \<and> distinct (pending_timers h) \<and>
        heap_ordered (\<lambda>x. deadline (T x)) (timer_count h) (timers h) \<and> indexed (timer_count h) T (timers h))"

definition pending_set :: "grpc_timer_heap \<times> timer_store \<Rightarrow> timer_ptr set" where
  "pending_set s = set (pending_timers (fst s))"

definition due :: "grpc_timer_heap \<times> timer_store \<Rightarrow> timer_ptr \<Rightarrow> int" where
  "due s t = deadline (snd s t)"

lemma heap_ordered_root: "heap_ordered d n xs \<Longrightarrow> i < n \<Longrightarrow> d (xs ! 0) \<le> d (xs ! i)"
proof (induction i rule: less_induct)
  case (less i)
  show ?case
  proof (cases "i = 0")
    case False
    then have u: "up i < i" by (intro up_less) simp
    with less have "d (xs ! 0) \<le> d (xs ! up i)" by simp
    also have "\<dots> \<le> d (xs ! i)" using less.prems False by (simp add: heap_ordered_def)
    finally show ?thesis .
  qed simp
qed

lemma indexed_distinct: "indexed n T xs \<Longrightarrow> n \<le> length xs \<Longrightarrow> distinct (take n xs)"
  by (auto simp: distinct_conv_nth indexed_def) metis

text \<open>A sifted array is the array of a well-formed heap.\<close>

lemma sifted_wf:
  assumes "sifted n ys T r" and "timer_count h = n" and "timer_capacity h = length ys"
    and "n \<le> length ys" "length ys < 2 ^ 32" "n < 2 ^ 31"
  shows "\<exists>rs T'. r = Some (rs, T') \<and> timer_heap_wf (h\<lparr>timers := rs\<rparr>, T') \<and>
    pending_set (h\<lparr>timers := rs\<rparr>, T') = set (take n ys) \<and> (\<forall>x. deadline (T' x) = deadline (T x)) \<and>
    (\<forall>x. x \<notin> set (take n ys) \<longrightarrow> T' x = T x) \<and> indexed n T' rs \<and> heap_ordered (\<lambda>x. deadline (T' x)) n rs"
proof -
  from assms(1) obtain rs T' where r: "r = Some (rs, T')" "length rs = length ys" "mset (take n rs) = mset (take n ys)"
    "heap_ordered (\<lambda>x. deadline (T x)) n rs" "indexed n T' rs" "\<forall>x. deadline (T' x) = deadline (T x)"
    "\<forall>x. x \<notin> set (take n ys) \<longrightarrow> T' x = T x" unfolding sifted_def by blast
  from r(3) have s: "set (take n rs) = set (take n ys)" by (metis set_mset_mset)
  have "distinct (take n rs)" using r(2,5) assms(4) by (intro indexed_distinct [of n T']) simp_all
  with r s assms show ?thesis
    by (intro exI [of _ rs] exI [of _ T']) (simp add: timer_heap_wf_def pending_set_def pending_timers_def)
qed

lemma wf_pending_nth:
  assumes "timer_heap_wf (h, T)" and "t \<in> pending_set (h, T)"
  shows "heap_index (T t) < timer_count h" and "timers h ! heap_index (T t) = t"
  using assms by (auto simp: timer_heap_wf_def pending_set_def pending_timers_def indexed_def in_set_conv_nth)

lemma heap_init_wf: "timer_heap_wf (grpc_timer_heap_init, T)" "pending_set (grpc_timer_heap_init, T) = {}"
  by (simp_all add: timer_heap_wf_def grpc_timer_heap_init_def pending_set_def pending_timers_def heap_ordered_def
      indexed_def)

lemma heap_empty: "timer_heap_wf (h, T) \<Longrightarrow> grpc_timer_heap_is_empty h \<longleftrightarrow> pending_set (h, T) = {}"
  by (auto simp: timer_heap_wf_def grpc_timer_heap_is_empty_def pending_set_def pending_timers_def)

lemma heap_top:
  assumes "timer_heap_wf (h, T)" and "pending_set (h, T) \<noteq> {}"
  shows "grpc_timer_heap_top h \<in> pending_set (h, T)"
    and "t \<in> pending_set (h, T) \<Longrightarrow> deadline (T (grpc_timer_heap_top h)) \<le> deadline (T t)"
proof -
  from assms have n: "0 < timer_count h" by (auto simp: pending_set_def pending_timers_def)
  with assms(1) show "grpc_timer_heap_top h \<in> pending_set (h, T)"
    by (auto simp: grpc_timer_heap_top_def pending_set_def pending_timers_def timer_heap_wf_def in_set_conv_nth
        intro!: exI [of _ 0])
  assume "t \<in> pending_set (h, T)"
  then obtain i where "i < timer_count h" "timers h ! i = t"
    by (auto simp: pending_set_def pending_timers_def in_set_conv_nth)
  with assms(1) heap_ordered_root [of "\<lambda>x. deadline (T x)" "timer_count h" "timers h" i]
  show "deadline (T (grpc_timer_heap_top h)) \<le> deadline (T t)"
    by (simp add: timer_heap_wf_def grpc_timer_heap_top_def)
qed

section \<open>Insertion and removal\<close>

lemma adjust_root:
  "0 < i \<Longrightarrow> i < 2 ^ 31 \<Longrightarrow> i < length first \<Longrightarrow> deadline (T (first ! 0)) \<le> deadline (T t) \<Longrightarrow>
    adjust_upwards first T i t = Some (rs, T') \<Longrightarrow> rs ! 0 = first ! 0"
proof (induction i arbitrary: first T rule: less_induct)
  case (less i)
  let ?p = "up i"
  have p: "heap_parent i = ?p" "?p < i" using less.prems(1,2) by (simp_all only: heap_parent_up up_less)
  show ?case
  proof (cases "deadline (T (first ! ?p)) \<le> deadline (T t)")
    case True
    with less.prems p(1) show ?thesis by (subst (asm) adjust_upwards.simps) (auto simp: Let_def put_timer_def)
  next
    case False
    then have "?p \<noteq> 0" using less.prems(4) by (cases "?p = 0") simp_all
    moreover have "adjust_upwards (first[i := first ! ?p]) (set_heap_index (first ! ?p) i T) ?p t = Some (rs, T')"
      using False less.prems(1,5) p(1) by (subst (asm) adjust_upwards.simps) (simp add: Let_def put_timer_def)
    ultimately show ?thesis using less.IH [OF p(2), of "first[i := first ! ?p]" "set_heap_index (first ! ?p) i T"] less.prems(1-4) p(2) by simp
  qed
qed

text \<open>The array may grow or shrink; what it holds of the heap stays.\<close>

definition same_heap :: "grpc_timer_heap \<Rightarrow> grpc_timer_heap \<Rightarrow> bool" where
  "same_heap h h' \<longleftrightarrow>
     timer_count h' = timer_count h \<and> pending_timers h' = pending_timers h \<and>
     length (timers h') = timer_capacity h' \<and> timer_count h' \<le> timer_capacity h' \<and> timer_capacity h' < 2 ^ 32"

lemma same_heap_nth: "same_heap h h' \<Longrightarrow> j < timer_count h \<Longrightarrow> timers h' ! j = timers h ! j"
  unfolding same_heap_def pending_timers_def by (metis nth_take)

lemma shrink_same:
  assumes "length (timers h) = timer_capacity h" "timer_count h \<le> timer_capacity h" "timer_capacity h < 2 ^ 32"
  shows "same_heap h (maybe_shrink h)"
proof (cases "8 \<le> timer_count h \<and> timer_count h \<le> timer_capacity h div 2 div 2")
  case True
  then have "timer_count h \<le> timer_capacity h div 4" by (simp add: div_mult2_eq [symmetric])
  then have le: "timer_count h * 2 \<le> timer_capacity h" by linarith
  then have "wrap32 (timer_count h * 2) = timer_count h * 2" using assms(3) by (simp add: wrap32_def)
  with True le assms show ?thesis by (simp add: maybe_shrink_def same_heap_def pending_timers_def Let_def)
qed (use assms in \<open>auto simp: maybe_shrink_def same_heap_def\<close>)

lemma same_heap_wf:
  assumes "same_heap h h'" and "timer_heap_wf (h, T)"
  shows "timer_heap_wf (h', T)" "pending_set (h', T) = pending_set (h, T)"
proof -
  note n = same_heap_nth [OF assms(1)]
  have "heap_ordered (\<lambda>x. deadline (T x)) (timer_count h) (timers h')"
    using assms(2) n by (auto simp: timer_heap_wf_def heap_ordered_def)
  moreover have "indexed (timer_count h) T (timers h')" using assms(2) n by (simp add: timer_heap_wf_def indexed_def)
  ultimately show "timer_heap_wf (h', T)" "pending_set (h', T) = pending_set (h, T)"
    using assms by (simp_all add: timer_heap_wf_def same_heap_def pending_set_def)
qed

definition grown :: "(nat \<Rightarrow> timer_ptr) \<Rightarrow> grpc_timer_heap \<Rightarrow> grpc_timer_heap" where
  "grown fresh h =
     (if timer_count h = timer_capacity h then
        let capacity = max (wrap32 (timer_capacity h + 1)) (wrap32 (timer_capacity h * 3) div 2)
        in h\<lparr>timer_capacity := capacity, timers := take capacity (timers h) @ map fresh [length (timers h)..<capacity]\<rparr>
      else h)"

lemma grown_same:
  assumes "length (timers h) = timer_capacity h" "timer_count h \<le> timer_capacity h" "timer_capacity h < 2 ^ 32"
    and "timer_count h + 1 < 2 ^ 31"
  shows "same_heap h (grown fresh h)" "timer_count h < timer_capacity (grown fresh h)"
proof -
  have w: "wrap32 (timer_capacity h + 1) = timer_capacity h + 1" if "timer_count h = timer_capacity h"
    using that assms(4) by (simp add: wrap32_def)
  have "wrap32 (timer_capacity h * 3) div 2 < 2 ^ 32" by (simp add: wrap32_def)
  with w assms show "same_heap h (grown fresh h)" "timer_count h < timer_capacity (grown fresh h)"
    by (auto simp: grown_def same_heap_def pending_timers_def Let_def)
qed

lemma added_early:
  assumes "heap_ordered d n xs" and "n < length xs"
  shows "early_at d (n + 1) (xs[n := t]) n"
  unfolding early_at_def
proof (intro conjI allI impI)
  fix j assume j: "0 < j \<and> j < n + 1 \<and> j \<noteq> n"
  then have "up j < n" "j < n" by auto
  with assms j show "d (xs[n := t] ! up j) \<le> d (xs[n := t] ! j)" by (simp add: heap_ordered_def)
next
  fix j assume j: "0 < n \<and> 0 < j \<and> j < n + 1 \<and> up j = n"
  then have "up j < j" by (intro up_less) simp
  with j show "d (xs[n := t] ! up n) \<le> d (xs[n := t] ! j)" by linarith
qed

text \<open>The new timer comes first exactly when it is due before all others.\<close>

lemma added_first:
  assumes wf: "timer_heap_wf (g, T)" "timer_heap_wf (h', T')"
    and sets: "t \<notin> pending_set (g, T)" "pending_set (h', T') = insert t (pending_set (g, T))"
    and d: "\<And>x. deadline (T' x) = deadline (T x)"
    and adj: "adjust_upwards (timers g) (set_heap_index t (timer_count g) T) (timer_count g) t = Some (timers h', T')"
    and n: "timer_count g < 2 ^ 31" "timer_count g < length (timers g)"
  shows "heap_index (T' t) = 0 \<longleftrightarrow> (\<forall>x \<in> pending_set (g, T). deadline (T t) < deadline (T x))"
proof
  have tin: "t \<in> pending_set (h', T')" using sets(2) by simp
  note tn = wf_pending_nth [OF wf(2) tin]
  assume z: "heap_index (T' t) = 0"
  show "\<forall>x \<in> pending_set (g, T). deadline (T t) < deadline (T x)"
  proof (rule ccontr)
    assume "\<not> ?thesis"
    then obtain x where x: "x \<in> pending_set (g, T)" "deadline (T x) \<le> deadline (T t)" by force
    then have n0: "0 < timer_count g" by (cases "timer_count g = 0") (auto simp: pending_set_def pending_timers_def)
    have "deadline (T (timers g ! 0)) \<le> deadline (T x)" "timers g ! 0 \<in> pending_set (g, T)"
      using heap_top [OF wf(1)] x(1) by (auto simp: grpc_timer_heap_top_def)
    moreover from this x(2) have "timers h' ! 0 = timers g ! 0" using n0 n adj
      by (intro adjust_root [OF _ _ _ _ adj]) simp_all
    ultimately show False using sets(1) tn(2) z by simp
  qed
next
  have ne: "pending_set (h', T') \<noteq> {}" and tin: "t \<in> pending_set (h', T')" using sets(2) by blast+
  assume a: "\<forall>x \<in> pending_set (g, T). deadline (T t) < deadline (T x)"
  from heap_top(1) [OF wf(2) ne] heap_top(2) [OF wf(2) ne tin] have
    "timers h' ! 0 \<in> insert t (pending_set (g, T))" "deadline (T (timers h' ! 0)) \<le> deadline (T t)"
    using sets(2) d by (auto simp: grpc_timer_heap_top_def)
  with a have "timers h' ! 0 = t" by auto
  moreover have "0 < timer_count h'" using ne by (auto simp: pending_set_def pending_timers_def)
  ultimately show "heap_index (T' t) = 0" using wf(2) by (auto simp: timer_heap_wf_def indexed_def)
qed

lemma heap_add:
  assumes wf: "timer_heap_wf (h, T)" and t: "t \<notin> pending_set (h, T)" and n: "timer_count h + 1 < 2 ^ 31"
  shows "\<exists>first h' T'. grpc_timer_heap_add fresh h T t = Some (first, h', T') \<and> timer_heap_wf (h', T') \<and>
    pending_set (h', T') = insert t (pending_set (h, T)) \<and> (\<forall>x. deadline (T' x) = deadline (T x)) \<and>
    (\<forall>x. x \<notin> insert t (pending_set (h, T)) \<longrightarrow> T' x = T x) \<and> timer_count h' = timer_count h + 1 \<and>
    (first \<longleftrightarrow> (\<forall>x \<in> pending_set (h, T). deadline (T t) < deadline (T x)))"
proof -
  let ?n = "timer_count h" let ?d = "\<lambda>x. deadline (T x)" let ?T = "set_heap_index t ?n T"
  define g where "g = grown fresh h"
  have g: "same_heap h g" "?n < timer_capacity g"
    unfolding g_def using wf n by (auto simp: timer_heap_wf_def intro!: grown_same)
  note wg = same_heap_wf [OF g(1) wf]
  have cnt: "timer_count g = ?n" "length (timers g) = timer_capacity g" "timer_capacity g < 2 ^ 32"
    using g(1) by (simp_all add: same_heap_def)
  have pend: "set (take ?n (timers g)) = pending_set (h, T)" "distinct (take ?n (timers g))"
    using wg cnt by (simp_all add: pending_set_def pending_timers_def timer_heap_wf_def)
  have ys: "take (?n + 1) ((timers g)[?n := t]) = take ?n (timers g) @ [t]"
    using g(2) cnt by (simp add: take_Suc_conv_app_nth)
  have "early_at ?d (?n + 1) ((timers g)[?n := t]) ?n"
    using wg(1) g(2) cnt by (intro added_early) (simp_all add: timer_heap_wf_def)
  moreover have "distinct (take (?n + 1) ((timers g)[?n := t]))" unfolding ys using pend t by simp
  moreover have "\<forall>j < ?n + 1. j \<noteq> ?n \<longrightarrow> heap_index (?T (timers g ! j)) = j"
  proof (intro allI impI)
    fix j assume j: "j < ?n + 1" "j \<noteq> ?n"
    then have "timers g ! j \<in> set (take ?n (timers g))"
      using g(2) cnt by (auto simp: in_set_conv_nth intro!: exI [of _ j])
    with t pend(1) wg(1) cnt(1) j show "heap_index (?T (timers g ! j)) = j"
      by (auto simp: timer_heap_wf_def indexed_def)
  qed
  ultimately have s: "sifted (?n + 1) ((timers g)[?n := t]) ?T (adjust_upwards (timers g) ?T ?n t)"
    using g(2) cnt n by (intro sift_up) (simp_all add: deadline_set_index)
  from sifted_wf [OF s, of "g\<lparr>timer_count := ?n + 1\<rparr>"] g(2) cnt n obtain rs T' where
    r: "adjust_upwards (timers g) ?T ?n t = Some (rs, T')"
    and w: "timer_heap_wf (g\<lparr>timer_count := ?n + 1, timers := rs\<rparr>, T')"
      "pending_set (g\<lparr>timer_count := ?n + 1, timers := rs\<rparr>, T') = set (take (?n + 1) ((timers g)[?n := t]))"
      "\<forall>x. deadline (T' x) = deadline (?T x)" "\<forall>x. x \<notin> set (take (?n + 1) ((timers g)[?n := t])) \<longrightarrow> T' x = ?T x"
      "indexed (?n + 1) T' rs" "heap_ordered (\<lambda>x. deadline (T' x)) (?n + 1) rs" by auto
  have ps: "set (take (?n + 1) ((timers g)[?n := t])) = insert t (pending_set (h, T))" unfolding ys using pend by simp
  have add: "grpc_timer_heap_add fresh h T t =
      Some (heap_index (T' t) = 0, g\<lparr>timers := rs, timer_count := ?n + 1\<rparr>, T')"
    unfolding grpc_timer_heap_add_def grown_def [symmetric] g_def [symmetric]
    using r cnt(1) n by (simp add: Let_def wrap32_def)
  have "heap_index (T' t) = 0 \<longleftrightarrow> (\<forall>x \<in> pending_set (h, T). ?d t < ?d x)" unfolding wg(2) [symmetric]
    by (rule added_first [OF wg(1) w(1)])
       (use t wg(2) ps w(2,3) r cnt(1) n g(2) cnt(2) in \<open>simp_all add: deadline_set_index\<close>)
  moreover have c: "g\<lparr>timer_count := ?n + 1, timers := rs\<rparr> = g\<lparr>timers := rs, timer_count := ?n + 1\<rparr>" by simp
  note w(1,2) [unfolded c ps]
  ultimately show ?thesis using add w(3,4) ps
    by (intro exI [of _ "heap_index (T' t) = 0"] exI [of _ "g\<lparr>timers := rs, timer_count := ?n + 1\<rparr>"] exI [of _ T'])
       (simp add: set_index_other)
qed

text \<open>The last element \<open>l\<close> of an ordered array in the place of the one at \<open>i\<close>.\<close>

lemma replaced_early:
  assumes "heap_ordered d (Suc n) xs" and i: "i < n" and y: "\<And>j. j < n \<Longrightarrow> ys ! j = (if j = i then l else xs ! j)"
    and less: "d l < d (ys ! up i)"
  shows "early_at d n ys i"
proof -
  have x: "d (xs ! up j) \<le> d (xs ! j)" if "0 < j" "j \<le> n" for j using assms(1) that by (simp add: heap_ordered_def)
  have "i \<noteq> 0"
  proof
    assume "i = 0"
    with less y [OF i] show False by simp
  qed
  then have i0: "0 < i" by simp
  have ui: "up i < i" by (rule up_less [OF i0])
  have lu: "d l < d (xs ! up i)" using less y [of "up i"] ui i by simp
  show ?thesis unfolding early_at_def
  proof (intro conjI allI impI)
    fix j assume j: "0 < j \<and> j < n \<and> j \<noteq> i"
    have uj: "up j < j" using up_less [of j] j by blast
    show "d (ys ! up j) \<le> d (ys ! j)"
    proof (cases "up j = i")
      case True
      have "d (xs ! up i) \<le> d (xs ! i)" "d (xs ! i) \<le> d (xs ! j)" using x [OF i0] x [of j] True j i by simp_all
      with lu have "d l \<le> d (xs ! j)" by linarith
      with True j y i show ?thesis by simp
    qed (use j uj y x [of j] in simp)
  next
    fix j assume j: "0 < i \<and> 0 < j \<and> j < n \<and> up j = i"
    have uj: "i < j" using up_less [of j] j by auto
    have "d (xs ! up i) \<le> d (xs ! i)" "d (xs ! i) \<le> d (xs ! j)" using x [OF i0] x [of j] j i by simp_all
    with j uj ui i y show "d (ys ! up i) \<le> d (ys ! j)" by simp
  qed
qed

lemma replaced_late:
  assumes "heap_ordered d (Suc n) xs" and i: "i < n" and y: "\<And>j. j < n \<Longrightarrow> ys ! j = (if j = i then l else xs ! j)"
    and less: "\<not> d l < d (ys ! up i)"
  shows "late_at d n ys i"
proof -
  have x: "d (xs ! up j) \<le> d (xs ! j)" if "0 < j" "j \<le> n" for j using assms(1) that by (simp add: heap_ordered_def)
  show ?thesis unfolding late_at_def
  proof (intro conjI allI impI)
    fix j assume j: "0 < j \<and> j < n \<and> up j \<noteq> i"
    have uj: "up j < j" using up_less [of j] j by blast
    show "d (ys ! up j) \<le> d (ys ! j)"
    proof (cases "j = i")
      case True
      with less show ?thesis using y i by simp
    qed (use j uj y x [of j] in simp)
  next
    fix j assume j: "0 < i \<and> 0 < j \<and> j < n \<and> up j = i"
    have uj: "i < j" "up i < i" using up_less [of j] up_less [of i] j by auto
    have "d (xs ! up i) \<le> d (xs ! i)" "d (xs ! i) \<le> d (xs ! j)" using x [of i] x [of j] j i by simp_all
    with j uj i y show "d (ys ! up i) \<le> d (ys ! j)" by simp
  qed
qed

text \<open>\<open>note_changed_priority\<close> puts one element in its place.\<close>

lemma note_changed_wf:
  assumes "heap_ordered d (Suc n) xs" and "d = (\<lambda>x. deadline (T x))" and i: "i < n"
    and y: "\<And>j. j < n \<Longrightarrow> timers g ! j = (if j = i then l else xs ! j)"
    and g: "timer_count g = n" "length (timers g) = timer_capacity g" "n \<le> timer_capacity g" "timer_capacity g < 2 ^ 32"
      "n < 2 ^ 31"
    and ix: "\<And>j. j < n \<Longrightarrow> heap_index (T (timers g ! j)) = j"
  shows "\<exists>h' T'. note_changed_priority g T l = Some (h', T') \<and> timer_heap_wf (h', T') \<and> timer_count h' = n \<and>
    pending_set (h', T') = set (take n (timers g)) \<and> (\<forall>x. deadline (T' x) = deadline (T x)) \<and>
    (\<forall>x. x \<notin> set (take n (timers g)) \<longrightarrow> T' x = T x)"
proof -
  have gi: "(timers g)[i := l] = timers g" using y [OF i] by (metis list_update_id)
  have di: "distinct (take n (timers g))" using ix g by (intro indexed_distinct [of n T]) (simp_all add: indexed_def)
  let ?r = "if d l < d (timers g ! up i) then adjust_upwards (timers g) T i l else adjust_downwards (timers g) T i n l"
  have "sifted n ((timers g)[i := l]) T ?r"
  proof (cases "d l < d (timers g ! up i)")
    case True
    have "early_at d n ((timers g)[i := l]) i" unfolding gi by (rule replaced_early [OF assms(1) i y True])
    then have "sifted n ((timers g)[i := l]) T (adjust_upwards (timers g) T i l)"
      unfolding assms(2) by (rule sift_up) (use i g di ix gi in simp_all)
    with True show ?thesis by simp
  next
    case False
    have "late_at d n ((timers g)[i := l]) i" unfolding gi by (rule replaced_late [OF assms(1) i y False])
    then have "sifted n ((timers g)[i := l]) T (adjust_downwards (timers g) T i n l)"
      unfolding assms(2) by (rule sift_down) (use i g di ix gi in simp_all)
    with False show ?thesis by simp
  qed
  then have s: "sifted n (timers g) T ?r" unfolding gi .
  have "heap_index (T l) = i" using ix [OF i] y [OF i] by simp
  moreover have "heap_parent i = up i" using i g(5) by (intro heap_parent_up) simp
  ultimately have "note_changed_priority g T l = map_option (\<lambda>(first, T). (g\<lparr>timers := first\<rparr>, T)) ?r"
    unfolding note_changed_priority_def Let_def assms(2) g(1) by simp
  moreover from sifted_wf [OF s g(1) g(2) [symmetric]] g(2-5) obtain rs T' where "?r = Some (rs, T')"
    "timer_heap_wf (g\<lparr>timers := rs\<rparr>, T')" "pending_set (g\<lparr>timers := rs\<rparr>, T') = set (take n (timers g))"
    "\<forall>x. deadline (T' x) = deadline (T x)" "\<forall>x. x \<notin> set (take n (timers g)) \<longrightarrow> T' x = T x" by metis
  ultimately show ?thesis using g(1) by (intro exI [of _ "g\<lparr>timers := rs\<rparr>"] exI [of _ T']) simp
qed

lemma heap_remove:
  assumes wf: "timer_heap_wf (h, T)" and t: "t \<in> pending_set (h, T)"
  shows "\<exists>h' T'. grpc_timer_heap_remove h T t = Some (h', T') \<and> timer_heap_wf (h', T') \<and>
    pending_set (h', T') = pending_set (h, T) - {t} \<and> (\<forall>x. deadline (T' x) = deadline (T x)) \<and>
    (\<forall>x. x \<notin> pending_set (h, T) \<longrightarrow> T' x = T x) \<and> timer_count h' + 1 = timer_count h"
proof -
  let ?d = "\<lambda>x. deadline (T x)" let ?xs = "timers h"
  define i where "i = heap_index (T t)"
  have i: "i < timer_count h" "?xs ! i = t" using wf_pending_nth [OF wf t] by (simp_all add: i_def)
  then obtain n where n: "timer_count h = Suc n" by (cases "timer_count h") simp_all
  have h: "length ?xs = timer_capacity h" "Suc n \<le> timer_capacity h" "timer_capacity h < 2 ^ 32" "Suc n < 2 ^ 31"
    "distinct (take (Suc n) ?xs)" "heap_ordered ?d (Suc n) ?xs" "indexed (Suc n) T ?xs"
    using wf n by (simp_all add: timer_heap_wf_def pending_timers_def)
  have ps: "pending_set (h, T) = insert (?xs ! n) (set (take n ?xs))" "?xs ! n \<notin> set (take n ?xs)" "distinct (take n ?xs)"
    using h(1,2,5) n by (simp_all add: pending_set_def pending_timers_def take_Suc_conv_app_nth)
  have last: "wrap32 (timer_count h + (2 ^ 32 - 1)) = n" using n h(4) by (simp add: wrap32_def)
  show ?thesis
  proof (cases "i = n")
    case True
    let ?h = "h\<lparr>timer_count := n\<rparr>"
    have w: "timer_heap_wf (?h, T)"
      using h ps(3) by (simp add: timer_heap_wf_def pending_timers_def heap_ordered_def indexed_def)
    have p: "pending_set (?h, T) = pending_set (h, T) - {t}"
      unfolding ps(1) using ps(2) i(2) True by (simp add: pending_set_def pending_timers_def)
    have s: "same_heap ?h (maybe_shrink ?h)" using h by (intro shrink_same) simp_all
    have "grpc_timer_heap_remove h T t = Some (maybe_shrink ?h, T)"
      using True last by (simp add: grpc_timer_heap_remove_def i_def)
    moreover have "timer_count (maybe_shrink ?h) = n" using s by (simp add: same_heap_def)
    ultimately show ?thesis using same_heap_wf [OF s w] p n by simp
  next
    case False
    then have il: "i < n" using i(1) n by simp
    let ?l = "?xs ! n" let ?T = "set_heap_index ?l i T"
    define g where "g = maybe_shrink (h\<lparr>timers := ?xs[i := ?l], timer_count := n\<rparr>)"
    have s: "same_heap (h\<lparr>timers := ?xs[i := ?l], timer_count := n\<rparr>) g"
      unfolding g_def using h by (intro shrink_same) simp_all
    then have cnt: "timer_count g = n" "length (timers g) = timer_capacity g" "n \<le> timer_capacity g"
      "timer_capacity g < 2 ^ 32" and tk: "take n (timers g) = (take n ?xs)[i := ?l]"
      by (auto simp: same_heap_def pending_timers_def take_update_swap)
    have y: "timers g ! j = (if j = i then ?l else ?xs ! j)" if "j < n" for j
      using same_heap_nth [OF s, of j] that h(1,2) il by simp
    have "t \<in> set (take n ?xs)" using il i(2) h(1,2) by (auto simp: in_set_conv_nth intro!: exI [of _ i])
    then have st: "set (take n (timers g)) = pending_set (h, T) - {t}"
      unfolding tk ps(1) using set_update_distinct [OF ps(3), of i ?l] il h(1,2) i(2) ps(2) by auto
    have ix: "heap_index (?T (timers g ! j)) = j" if j: "j < n" for j
    proof (cases "j = i")
      case False
      have "?xs ! j \<noteq> ?l" using j ps(2) h(1,2) by (auto simp: in_set_conv_nth)
      with False j y h(7) show ?thesis by (simp add: indexed_def)
    qed (use y il in simp)
    have d: "?d = (\<lambda>x. deadline (?T x))" by simp
    have n31: "n < 2 ^ 31" using h(4) by simp
    from note_changed_wf [OF h(6) d il y cnt n31 ix] obtain h' T' where
      r: "note_changed_priority g ?T ?l = Some (h', T')" "timer_heap_wf (h', T')" "timer_count h' = n"
      and w: "pending_set (h', T') = set (take n (timers g))" "\<forall>x. deadline (T' x) = deadline (?T x)"
        "\<forall>x. x \<notin> set (take n (timers g)) \<longrightarrow> T' x = ?T x" by blast
    have "grpc_timer_heap_remove h T t = note_changed_priority g ?T (timers g ! i)"
      using False last unfolding grpc_timer_heap_remove_def Let_def i_def [symmetric] by (simp add: g_def)
    then have "grpc_timer_heap_remove h T t = Some (h', T')" using r(1) y [OF il] by simp
    moreover have "T' x = T x" if "x \<notin> pending_set (h, T)" for x
    proof -
      have "x \<noteq> ?l" "x \<notin> set (take n (timers g))" using that ps(1) st by auto
      with w(3) show ?thesis by (simp add: set_index_other)
    qed
    ultimately show ?thesis using r(2,3) w st n by simp
  qed
qed

text \<open>The heap changes no timer but for its index.\<close>

definition same_timers :: "timer_store \<Rightarrow> timer_store \<Rightarrow> bool" where
  "same_timers T T' \<longleftrightarrow> (\<forall>x. T' x = (T x)\<lparr>heap_index := heap_index (T' x)\<rparr>)"

lemma same_timersD:
  "same_timers T T' \<Longrightarrow> deadline (T' x) = deadline (T x)" "same_timers T T' \<Longrightarrow> pending (T' x) = pending (T x)"
  "same_timers T T' \<Longrightarrow> closure (T' x) = closure (T x)"
  unfolding same_timers_def by (metis grpc_timer.ext_inject grpc_timer.surjective grpc_timer.update_convs(2))+

lemma same_timers_refl [simp]: "same_timers T T"
  by (simp add: same_timers_def)

lemma same_timers_trans: "same_timers T T' \<Longrightarrow> same_timers T' T'' \<Longrightarrow> same_timers T T''"
  unfolding same_timers_def by (metis grpc_timer.update_convs(2) grpc_timer.surjective grpc_timer.ext_inject)

lemma same_timers_set [simp]: "same_timers T (set_heap_index t i T)"
  by (simp add: same_timers_def set_heap_index_def)

lemma adjust_upwards_same: "adjust_upwards first T i t = Some (rs, T') \<Longrightarrow> same_timers T T'"
proof -
  assume "adjust_upwards first T i t = Some (rs, T')"
  then have "same_timers T (snd (rs, T'))"
    by (rule adjust_upwards.raw_induct [where P = "\<lambda>_ T _ _ r. same_timers T (snd r)", rotated])
       (force simp: Let_def put_timer_def split: if_splits intro: same_timers_trans [OF same_timers_set])
  then show ?thesis by simp
qed

lemma adjust_downwards_same: "adjust_downwards first T i n t = Some (rs, T') \<Longrightarrow> same_timers T T'"
proof -
  assume "adjust_downwards first T i n t = Some (rs, T')"
  then have "same_timers T (snd (rs, T'))"
  proof (rule adjust_downwards.raw_induct [where P = "\<lambda>_ T _ _ _ r. same_timers T (snd r)", rotated])
    fix f :: "timer_ptr list \<Rightarrow> timer_store \<Rightarrow> nat \<Rightarrow> nat \<Rightarrow> timer_ptr \<Rightarrow> (timer_ptr list \<times> timer_store) option"
      and first T i n t r
    assume f: "\<And>first T i n t r. f first T i n t = Some r \<Longrightarrow> same_timers T (snd r)"
    have "same_timers T (snd r)" if "f xs (set_heap_index u i T) j n t = Some r" for xs u j
      by (rule same_timers_trans [OF same_timers_set f [OF that]])
    moreover assume "(let left_child = wrap32 (1 + 2 * i)
         in if n \<le> left_child then Some (put_timer first T i t)
            else let right_child = wrap32 (left_child + 1);
                     next_i = if right_child < n \<and> deadline (T (first ! right_child)) < deadline (T (first ! left_child))
                       then right_child else left_child
                 in if deadline (T t) \<le> deadline (T (first ! next_i)) then Some (put_timer first T i t)
                    else case put_timer first T i (first ! next_i) of (first, T) \<Rightarrow> f first T next_i n t) = Some r"
    ultimately show "same_timers T (snd r)"
      unfolding Let_def put_timer_def by (auto split: if_split_asm)
  qed
  then show ?thesis by simp
qed

lemma heap_add_same: "grpc_timer_heap_add fresh h T t = Some (b, h', T') \<Longrightarrow> same_timers T T'"
  by (auto simp: grpc_timer_heap_add_def Let_def dest!: adjust_upwards_same
      intro: same_timers_trans [OF same_timers_set])

lemma heap_remove_same: "grpc_timer_heap_remove h T t = Some (h', T') \<Longrightarrow> same_timers T T'"
  by (auto simp: grpc_timer_heap_remove_def note_changed_priority_def Let_def split: if_splits
      dest!: adjust_upwards_same adjust_downwards_same intro: same_timers_trans [OF same_timers_set])

section \<open>The contract of a queue of timers\<close>

text \<open>
  What the client of a queue relies on: the states \<open>inv\<close>, the elements of a state and their keys, an element
  with the least key, and the removal of an element.
\<close>

locale timer_queue =
  fixes inv :: "'s \<Rightarrow> bool" and elems :: "'s \<Rightarrow> 'a set" and key :: "'s \<Rightarrow> 'a \<Rightarrow> int"
    and empty :: "'s \<Rightarrow> bool" and least :: "'s \<Rightarrow> 'a" and del :: "'s \<Rightarrow> 'a \<Rightarrow> 's option"
  assumes elems_finite: "inv s \<Longrightarrow> finite (elems s)"
    and empty_iff: "inv s \<Longrightarrow> empty s \<longleftrightarrow> elems s = {}"
    and least_elem: "inv s \<Longrightarrow> elems s \<noteq> {} \<Longrightarrow> least s \<in> elems s"
    and least_le: "inv s \<Longrightarrow> a \<in> elems s \<Longrightarrow> key s (least s) \<le> key s a"
    and del_elem: "inv s \<Longrightarrow> a \<in> elems s \<Longrightarrow>
      \<exists>s'. del s a = Some s' \<and> inv s' \<and> elems s' = elems s - {a} \<and> key s' = key s"
begin

text \<open>Taking the first element until none is left.\<close>

primrec drained :: "nat \<Rightarrow> 's \<Rightarrow> 'a list option" where
  "drained 0 s = (if empty s then Some [] else None)"
| "drained (Suc n) s =
     (if empty s then Some []
      else Option.bind (del s (least s)) (\<lambda>s'. map_option (Cons (least s)) (drained n s')))"

lemma drained_sorted:
  "inv s \<Longrightarrow> card (elems s) \<le> n \<Longrightarrow>
    \<exists>xs. drained n s = Some xs \<and> set xs = elems s \<and> distinct xs \<and> sorted (map (key s) xs)"
proof (induction n arbitrary: s)
  case 0
  then show ?case using elems_finite [of s] by (auto simp: empty_iff)
next
  case (Suc n)
  show ?case
  proof (cases "elems s = {}")
    case True
    with Suc.prems(1) show ?thesis by (auto simp: empty_iff)
  next
    case False
    note a = least_elem [OF Suc.prems(1) False]
    from del_elem [OF Suc.prems(1) a] obtain s' where s': "del s (least s) = Some s'" "inv s'"
      "elems s' = elems s - {least s}" "key s' = key s" by blast
    have "card (elems s') \<le> n" using Suc.prems(2) a elems_finite [OF Suc.prems(1)] s'(3) by simp
    from Suc.IH [OF s'(2) this] obtain xs where xs: "drained n s' = Some xs" "set xs = elems s'" "distinct xs"
      "sorted (map (key s) xs)" unfolding s'(4) by blast
    moreover have "\<forall>x \<in> set xs. key s (least s) \<le> key s x"
      using least_le [OF Suc.prems(1)] xs(2) s'(3) by simp
    ultimately show ?thesis using False a s' Suc.prems(1) by (auto simp: empty_iff)
  qed
qed

end

text \<open>The model of the heap keeps the contract.\<close>

lemma due_same: "same_timers T T' \<Longrightarrow> due (h', T') = due (h, T)"
  by (simp add: due_def fun_eq_iff same_timersD)

interpretation heap_queue: timer_queue timer_heap_wf pending_set due
    "\<lambda>s. grpc_timer_heap_is_empty (fst s)" "\<lambda>s. grpc_timer_heap_top (fst s)"
    "\<lambda>s t. grpc_timer_heap_remove (fst s) (snd s) t"
proof unfold_locales
  fix s t
  assume s: "timer_heap_wf s" "t \<in> pending_set s"
  then have "timer_heap_wf (fst s, snd s)" "t \<in> pending_set (fst s, snd s)" by simp_all
  from heap_remove [OF this] obtain h' T' where r: "grpc_timer_heap_remove (fst s) (snd s) t = Some (h', T')"
    "timer_heap_wf (h', T')" "pending_set (h', T') = pending_set s - {t}" by auto
  with heap_remove_same [OF r(1)] due_same [of "snd s" T' h' "fst s"]
  show "\<exists>s'. grpc_timer_heap_remove (fst s) (snd s) t = Some s' \<and> timer_heap_wf s' \<and>
      pending_set s' = pending_set s - {t} \<and> due s' = due s" by auto
next
  fix s t assume "timer_heap_wf s" "t \<in> pending_set s"
  with heap_top(2) [of "fst s" "snd s" t] show "due s (grpc_timer_heap_top (fst s)) \<le> due s t"
    by (auto simp: due_def)
qed (use heap_top(1) heap_empty in \<open>auto simp: pending_set_def\<close>)

end
