(* ===== verification/Timers.thy ===== *)
theory Timers
  imports Timer_Heap Complex_Main
begin

text \<open>
  The timers of gRPC (\<open>gRPC-Core/src/core/lib/iomgr/timer_generic.cc\<close>, \<open>time_averaged_stats.cc\<close>): shards that keep the
  timers due soon in a heap and the others in a list, and a queue of the shards ordered by the time of their next
  timer.

  A shard is its index in \<open>g_shards\<close>; the circular list of a shard is the list of its timers, from the head on.
  The state holds the store of the timers and the log of the scheduled closures. Every operation is one step: the
  model has no interleaving inside one. Times are \<open>int64_t\<close> milliseconds, as integers; a \<open>double\<close> is a value of any type
  with the arithmetic operations, of which nothing is assumed, and its conversions are parameters. The hash table of
  debug builds and the trace output are left out.
\<close>

section \<open>Averages\<close>

record 'd grpc_time_averaged_stats =
  init_avg :: 'd
  regress_weight :: 'd
  persistence_factor :: 'd
  batch_total_value :: 'd
  batch_num_samples :: 'd
  aggregate_total_weight :: 'd
  aggregate_weighted_avg :: 'd

definition grpc_time_averaged_stats_init :: "'d::zero \<Rightarrow> 'd \<Rightarrow> 'd \<Rightarrow> 'd grpc_time_averaged_stats" where
  "grpc_time_averaged_stats_init avg weight factor =
     \<lparr>init_avg = avg, regress_weight = weight, persistence_factor = factor, batch_total_value = 0,
      batch_num_samples = 0, aggregate_total_weight = 0, aggregate_weighted_avg = avg\<rparr>"

definition grpc_time_averaged_stats_add_sample ::
    "'d::{plus,one} grpc_time_averaged_stats \<Rightarrow> 'd \<Rightarrow> 'd grpc_time_averaged_stats" where
  "grpc_time_averaged_stats_add_sample s value =
     s\<lparr>batch_total_value := batch_total_value s + value, batch_num_samples := batch_num_samples s + 1\<rparr>"

definition grpc_time_averaged_stats_update_average ::
    "'d::{plus,times,zero,ord,inverse} grpc_time_averaged_stats \<Rightarrow> 'd \<times> 'd grpc_time_averaged_stats" where
  "grpc_time_averaged_stats_update_average s =
     (let weighted_sum = batch_total_value s;
          total_weight = batch_num_samples s;
          (weighted_sum, total_weight) =
            (if 0 < regress_weight s
             then (weighted_sum + regress_weight s * init_avg s, total_weight + regress_weight s)
             else (weighted_sum, total_weight));
          (weighted_sum, total_weight) =
            (if 0 < persistence_factor s then
               let prev_sample_weight = persistence_factor s * aggregate_total_weight s
               in (weighted_sum + prev_sample_weight * aggregate_weighted_avg s, total_weight + prev_sample_weight)
             else (weighted_sum, total_weight));
          avg = (if 0 < total_weight then weighted_sum / total_weight else init_avg s)
      in (avg, s\<lparr>aggregate_weighted_avg := avg, aggregate_total_weight := total_weight, batch_num_samples := 0,
                batch_total_value := 0\<rparr>))"

section \<open>State\<close>

type_synonym grpc_millis = int

definition GRPC_MILLIS_INF_FUTURE :: grpc_millis where
  "GRPC_MILLIS_INF_FUTURE = 2 ^ 63 - 1"

definition INVALID_HEAP_INDEX :: nat where
  "INVALID_HEAP_INDEX = 0xffffffff"

record 'd timer_shard =
  stats :: "'d grpc_time_averaged_stats"
  queue_deadline_cap :: grpc_millis
  min_deadline :: grpc_millis
  shard_queue_index :: nat
  heap :: grpc_timer_heap
  timer_list :: "timer_ptr list"

datatype grpc_error = GRPC_ERROR_NONE | GRPC_ERROR_CANCELLED | Before_initialization | List_shutdown | Shutting_down

datatype grpc_timer_check_result = GRPC_TIMERS_NOT_CHECKED | GRPC_TIMERS_CHECKED_AND_EMPTY | GRPC_TIMERS_FIRED

record 'd timer_globals =
  g_shards :: "'d timer_shard list"
  g_shard_queue :: "nat list"
  min_timer :: grpc_millis
  checker_mu :: bool
  initialized :: bool
  g_last_seen_min_timer :: grpc_millis
  store :: timer_store
  scheduled :: "(nat \<times> grpc_error) list"
  kicks :: nat

text \<open>The conversions between integers and \<open>double\<close>, and what reallocated memory holds.\<close>

record 'd timer_env =
  to_double :: "grpc_millis \<Rightarrow> 'd"
  to_millis :: "'d \<Rightarrow> grpc_millis"
  fresh_word :: "nat \<Rightarrow> timer_ptr"

text \<open>A decimal literal is the quotient of two integers: both are rounded from the same number.\<close>

definition ADD_DEADLINE_SCALE :: "'d::inverse timer_env \<Rightarrow> 'd" where
  "ADD_DEADLINE_SCALE E = to_double E 33 / to_double E 100"

definition GPR_HASH_POINTER :: "timer_ptr \<Rightarrow> nat \<Rightarrow> nat" where
  "GPR_HASH_POINTER x n =
     unat (drop_bit 4 (of_nat x :: u64) XOR drop_bit 9 (of_nat x) XOR drop_bit 14 (of_nat x)) mod n"

definition GPR_CLAMP :: "'a::ord \<Rightarrow> 'a \<Rightarrow> 'a \<Rightarrow> 'a" where
  "GPR_CLAMP a lo hi = (if a < lo then lo else if hi < a then hi else a)"

definition saturating_add :: "grpc_millis \<Rightarrow> grpc_millis \<Rightarrow> grpc_millis" where
  "saturating_add a b = (if GRPC_MILLIS_INF_FUTURE - b < a then GRPC_MILLIS_INF_FUTURE else a + b)"

definition compute_min_deadline :: "'d timer_shard \<Rightarrow> timer_store \<Rightarrow> grpc_millis" where
  "compute_min_deadline shard T =
     (if grpc_timer_heap_is_empty (heap shard) then saturating_add (queue_deadline_cap shard) 1
      else deadline (T (grpc_timer_heap_top (heap shard))))"

section \<open>The queue of the shards\<close>

definition set_shard :: "nat \<Rightarrow> 'd timer_shard \<Rightarrow> 'd timer_globals \<Rightarrow> 'd timer_globals" where
  "set_shard k sh g = g\<lparr>g_shards := (g_shards g)[k := sh]\<rparr>"

definition set_queue_index :: "nat \<Rightarrow> nat \<Rightarrow> 'd timer_globals \<Rightarrow> 'd timer_globals" where
  "set_queue_index k i g = set_shard k ((g_shards g ! k)\<lparr>shard_queue_index := i\<rparr>) g"

definition swap_adjacent_shards_in_queue :: "nat \<Rightarrow> 'd timer_globals \<Rightarrow> 'd timer_globals" where
  "swap_adjacent_shards_in_queue i g =
     (let temp = g_shard_queue g ! i;
          g = g\<lparr>g_shard_queue := (g_shard_queue g)[i := g_shard_queue g ! (i + 1)]\<rparr>;
          g = g\<lparr>g_shard_queue := (g_shard_queue g)[i + 1 := temp]\<rparr>;
          g = set_queue_index (g_shard_queue g ! i) i g
      in set_queue_index (g_shard_queue g ! (i + 1)) (i + 1) g)"

partial_function (option) move_forward :: "nat \<Rightarrow> 'd timer_globals \<Rightarrow> 'd timer_globals option" where
  "move_forward k g =
     (let sh = g_shards g ! k; i = shard_queue_index sh in
      if 0 < i \<and> min_deadline sh < min_deadline (g_shards g ! (g_shard_queue g ! (i - 1)))
      then move_forward k (swap_adjacent_shards_in_queue (i - 1) g)
      else Some g)"

partial_function (option) move_back :: "nat \<Rightarrow> 'd timer_globals \<Rightarrow> 'd timer_globals option" where
  "move_back k g =
     (let sh = g_shards g ! k; i = shard_queue_index sh in
      if i < length (g_shards g) - 1 \<and> min_deadline (g_shards g ! (g_shard_queue g ! (i + 1))) < min_deadline sh
      then move_back k (swap_adjacent_shards_in_queue i g)
      else Some g)"

definition note_deadline_change :: "nat \<Rightarrow> 'd timer_globals \<Rightarrow> 'd timer_globals option" where
  "note_deadline_change k g = Option.bind (move_forward k g) (move_back k)"

section \<open>One shard\<close>

definition list_join :: "timer_ptr list \<Rightarrow> timer_ptr \<Rightarrow> timer_ptr list" where
  "list_join head timer = head @ [timer]"

definition list_remove :: "timer_ptr \<Rightarrow> timer_ptr list \<Rightarrow> timer_ptr list" where
  "list_remove timer head = remove1 timer head"

text \<open>The loop of \<open>refill_heap\<close> reads the next timer of the list before it moves the current one.\<close>

fun refill_loop :: "(nat \<Rightarrow> timer_ptr) \<Rightarrow> timer_ptr list \<Rightarrow> 'd timer_shard \<Rightarrow> timer_store \<Rightarrow>
    ('d timer_shard \<times> timer_store) option" where
  "refill_loop fresh [] shard T = Some (shard, T)"
| "refill_loop fresh (timer # next) shard T =
     (if deadline (T timer) < queue_deadline_cap shard then
        let shard = shard\<lparr>timer_list := list_remove timer (timer_list shard)\<rparr> in
        Option.bind (grpc_timer_heap_add fresh (heap shard) T timer)
          (\<lambda>(_, h, T). refill_loop fresh next (shard\<lparr>heap := h\<rparr>) T)
      else refill_loop fresh next shard T)"

definition deadline_window :: "'d timer_env \<Rightarrow> 'd::{plus,times,zero,one,ord,inverse} grpc_time_averaged_stats \<Rightarrow>
    grpc_millis \<times> 'd grpc_time_averaged_stats" where
  "deadline_window E s =
     (let (avg, s) = grpc_time_averaged_stats_update_average s;
          computed_deadline_delta = avg * ADD_DEADLINE_SCALE E;
          deadline_delta = GPR_CLAMP computed_deadline_delta (1 / to_double E 100) 1
      in (to_millis E (deadline_delta * to_double E 1000), s))"

definition refill_heap :: "'d::{plus,times,zero,one,ord,inverse} timer_env \<Rightarrow> 'd timer_shard \<Rightarrow> timer_store \<Rightarrow>
    grpc_millis \<Rightarrow> (bool \<times> 'd timer_shard \<times> timer_store) option" where
  "refill_heap E shard T now =
     (let (delta, s) = deadline_window E (stats shard);
          shard = shard\<lparr>stats := s, queue_deadline_cap := saturating_add (max now (queue_deadline_cap shard)) delta\<rparr>
      in map_option (\<lambda>(shard, T). (\<not> grpc_timer_heap_is_empty (heap shard), shard, T))
           (refill_loop (fresh_word E) (timer_list shard) shard T))"

definition pop_top :: "'d timer_shard \<Rightarrow> timer_store \<Rightarrow> grpc_millis \<Rightarrow>
    (timer_ptr option \<times> 'd timer_shard \<times> timer_store) option" where
  "pop_top shard T now =
     (let timer = grpc_timer_heap_top (heap shard) in
      if now < deadline (T timer) then Some (None, shard, T)
      else
        let T = T(timer := (T timer)\<lparr>pending := False\<rparr>) in
        map_option (\<lambda>(h, T). (Some timer, shard\<lparr>heap := h\<rparr>, T)) (grpc_timer_heap_pop (heap shard) T))"

definition pop_one :: "'d::{plus,times,zero,one,ord,inverse} timer_env \<Rightarrow> 'd timer_shard \<Rightarrow> timer_store \<Rightarrow>
    grpc_millis \<Rightarrow> (timer_ptr option \<times> 'd timer_shard \<times> timer_store) option" where
  "pop_one E shard T now =
     (if grpc_timer_heap_is_empty (heap shard) then
        if now < queue_deadline_cap shard then Some (None, shard, T)
        else
          Option.bind (refill_heap E shard T now)
            (\<lambda>(filled, shard, T). if \<not> filled then Some (None, shard, T) else pop_top shard T now)
      else pop_top shard T now)"

text \<open>The loop of \<open>pop_timers\<close>; \<open>out\<close> is the log of scheduled closures, \<open>n\<close> counts them.\<close>

partial_function (option) pop_loop :: "'d::{plus,times,zero,one,ord,inverse} timer_env \<Rightarrow> 'd timer_shard \<Rightarrow>
    timer_store \<Rightarrow> grpc_millis \<Rightarrow> grpc_error \<Rightarrow> nat \<Rightarrow> (nat \<times> grpc_error) list \<Rightarrow>
    (nat \<times> (nat \<times> grpc_error) list \<times> 'd timer_shard \<times> timer_store) option" where
  "pop_loop E shard T now error n out =
     Option.bind (pop_one E shard T now)
       (\<lambda>(timer, shard, T).
          case timer of
            None \<Rightarrow> Some (n, out, shard, T)
          | Some t \<Rightarrow> pop_loop E shard T now error (n + 1) (out @ [(closure (T t), error)]))"

definition pop_timers :: "'d::{plus,times,zero,one,ord,inverse} timer_env \<Rightarrow> nat \<Rightarrow> grpc_millis \<Rightarrow> grpc_error \<Rightarrow>
    'd timer_globals \<Rightarrow> (nat \<times> grpc_millis \<times> 'd timer_globals) option" where
  "pop_timers E k now error g =
     map_option
       (\<lambda>(n, out, shard, T).
          (n, compute_min_deadline shard T, (set_shard k shard g)\<lparr>store := T, scheduled := out\<rparr>))
       (pop_loop E (g_shards g ! k) (store g) now error 0 (scheduled g))"

section \<open>The operations\<close>

definition timer_list_init :: "'d::{zero,one,inverse} timer_env \<Rightarrow> 'd timer_globals \<Rightarrow> nat \<Rightarrow> grpc_millis \<Rightarrow> 'd timer_globals" where
  "timer_list_init E g cores now =
     (let n = GPR_CLAMP (2 * cores) 1 32;
          shard = \<lparr>stats = grpc_time_averaged_stats_init (1 / ADD_DEADLINE_SCALE E) (1 / to_double E 10) (1 / to_double E 2), queue_deadline_cap = now,
                   min_deadline = 0, shard_queue_index = 0, heap = grpc_timer_heap_init, timer_list = []\<rparr>
      in g\<lparr>g_shards := map (\<lambda>i. shard\<lparr>shard_queue_index := i, min_deadline := compute_min_deadline shard (store g)\<rparr>) [0..<n],
           g_shard_queue := [0..<n], min_timer := now, checker_mu := False, initialized := True,
           g_last_seen_min_timer := 0\<rparr>)"

definition update_timer :: "timer_ptr \<Rightarrow> (grpc_timer \<Rightarrow> grpc_timer) \<Rightarrow> 'd timer_globals \<Rightarrow> 'd timer_globals" where
  "update_timer t f g = g\<lparr>store := (store g)(t := f (store g t))\<rparr>"

definition sched_closure :: "nat \<Rightarrow> grpc_error \<Rightarrow> 'd timer_globals \<Rightarrow> 'd timer_globals" where
  "sched_closure c error g = g\<lparr>scheduled := scheduled g @ [(c, error)]\<rparr>"

definition grpc_timer_init_unset :: "timer_ptr \<Rightarrow> 'd timer_globals \<Rightarrow> 'd timer_globals" where
  "grpc_timer_init_unset timer g = update_timer timer (pending_update (\<lambda>_. False)) g"

text \<open>The last part of \<open>timer_init\<close>: the shard may come to the front of the queue.\<close>

definition note_first_timer :: "nat \<Rightarrow> grpc_millis \<Rightarrow> 'd timer_globals \<Rightarrow> 'd timer_globals option" where
  "note_first_timer k dl g =
     (if dl < min_deadline (g_shards g ! k) then
        let old_min_deadline = min_deadline (g_shards g ! (g_shard_queue g ! 0)) in
        map_option
          (\<lambda>g. if shard_queue_index (g_shards g ! k) = 0 \<and> dl < old_min_deadline
               then g\<lparr>min_timer := dl, kicks := kicks g + 1\<rparr> else g)
          (note_deadline_change k (set_shard k ((g_shards g ! k)\<lparr>min_deadline := dl\<rparr>) g))
      else Some g)"

definition timer_init :: "'d::{plus,times,zero,one,ord,inverse} timer_env \<Rightarrow> timer_ptr \<Rightarrow> grpc_millis \<Rightarrow> nat \<Rightarrow>
    grpc_millis \<Rightarrow> 'd timer_globals \<Rightarrow> 'd timer_globals option" where
  "timer_init E timer dl cl now g =
     (let k = GPR_HASH_POINTER timer (length (g_shards g));
          g = update_timer timer (\<lambda>x. x\<lparr>closure := cl, deadline := dl\<rparr>) g
      in if \<not> initialized g then
           Some (sched_closure cl Before_initialization (update_timer timer (pending_update (\<lambda>_. False)) g))
         else
           let g = update_timer timer (pending_update (\<lambda>_. True)) g in
           if dl \<le> now then Some (sched_closure cl GRPC_ERROR_NONE (update_timer timer (pending_update (\<lambda>_. False)) g))
           else
             let shard = g_shards g ! k;
                 shard = shard\<lparr>stats := grpc_time_averaged_stats_add_sample (stats shard) (to_double E (dl - now) / to_double E 1000)\<rparr>
             in if dl < queue_deadline_cap shard then
                  Option.bind (grpc_timer_heap_add (fresh_word E) (heap shard) (store g) timer)
                    (\<lambda>(is_first_timer, h, T).
                       let g = (set_shard k (shard\<lparr>heap := h\<rparr>) g)\<lparr>store := T\<rparr>
                       in if is_first_timer then note_first_timer k dl g else Some g)
                else
                  let g = update_timer timer (heap_index_update (\<lambda>_. INVALID_HEAP_INDEX)) g
                  in Some (set_shard k (shard\<lparr>timer_list := list_join (timer_list shard) timer\<rparr>) g))"

definition timer_consume_kick :: "'d timer_globals \<Rightarrow> 'd timer_globals" where
  "timer_consume_kick g = g\<lparr>g_last_seen_min_timer := 0\<rparr>"

definition timer_cancel :: "timer_ptr \<Rightarrow> 'd timer_globals \<Rightarrow> 'd timer_globals option" where
  "timer_cancel timer g =
     (if \<not> initialized g then Some g
      else
        let k = GPR_HASH_POINTER timer (length (g_shards g)); shard = g_shards g ! k
        in if pending (store g timer) then
             let g = sched_closure (closure (store g timer)) GRPC_ERROR_CANCELLED g;
                 g = update_timer timer (pending_update (\<lambda>_. False)) g
             in if heap_index (store g timer) = INVALID_HEAP_INDEX
                then Some (set_shard k (shard\<lparr>timer_list := list_remove timer (timer_list shard)\<rparr>) g)
                else map_option (\<lambda>(h, T). (set_shard k (shard\<lparr>heap := h\<rparr>) g)\<lparr>store := T\<rparr>)
                       (grpc_timer_heap_remove (heap shard) (store g) timer)
           else Some g)"

partial_function (option) expire_loop :: "'d::{plus,times,zero,one,ord,inverse} timer_env \<Rightarrow> grpc_millis \<Rightarrow>
    grpc_error \<Rightarrow> grpc_timer_check_result \<Rightarrow> 'd timer_globals \<Rightarrow> (grpc_timer_check_result \<times> 'd timer_globals) option" where
  "expire_loop E now error result g =
     (let k = g_shard_queue g ! 0; m = min_deadline (g_shards g ! k) in
      if m < now \<or> now \<noteq> GRPC_MILLIS_INF_FUTURE \<and> m = now then
        Option.bind (pop_timers E k now error g)
          (\<lambda>(n, new_min_deadline, g).
             let result = (if 0 < n then GRPC_TIMERS_FIRED else result);
                 g = set_shard k ((g_shards g ! k)\<lparr>min_deadline := new_min_deadline\<rparr>) g
             in Option.bind (note_deadline_change k g) (\<lambda>g. expire_loop E now error result g))
      else Some (result, g))"

text \<open>\<open>next\<close> is where the caller wants the time of the next timer, or no pointer.\<close>

definition run_some_expired_timers :: "'d::{plus,times,zero,one,ord,inverse} timer_env \<Rightarrow> grpc_millis \<Rightarrow>
    grpc_millis option \<Rightarrow> grpc_error \<Rightarrow> 'd timer_globals \<Rightarrow>
    (grpc_timer_check_result \<times> grpc_millis option \<times> 'd timer_globals) option" where
  "run_some_expired_timers E now next error g =
     (let g = g\<lparr>g_last_seen_min_timer := min_timer g\<rparr> in
      if now < min_timer g then Some (GRPC_TIMERS_CHECKED_AND_EMPTY, map_option (\<lambda>x. min x (min_timer g)) next, g)
      else if checker_mu g then Some (GRPC_TIMERS_NOT_CHECKED, next, g)
      else
        map_option
          (\<lambda>(result, g).
             let m = min_deadline (g_shards g ! (g_shard_queue g ! 0))
             in (result, map_option (\<lambda>x. min x m) next, g\<lparr>min_timer := m\<rparr>))
          (expire_loop E now error GRPC_TIMERS_CHECKED_AND_EMPTY g))"

definition timer_check :: "'d::{plus,times,zero,one,ord,inverse} timer_env \<Rightarrow> grpc_millis \<Rightarrow> grpc_millis option \<Rightarrow>
    'd timer_globals \<Rightarrow> (grpc_timer_check_result \<times> grpc_millis option \<times> 'd timer_globals) option" where
  "timer_check E now next g =
     (let min_timer = g_last_seen_min_timer g in
      if now < min_timer then Some (GRPC_TIMERS_CHECKED_AND_EMPTY, map_option (\<lambda>x. min x min_timer) next, g)
      else
        let shutdown_error = (if now \<noteq> GRPC_MILLIS_INF_FUTURE then GRPC_ERROR_NONE else Shutting_down)
        in run_some_expired_timers E now next shutdown_error g)"

definition timer_list_shutdown :: "'d::{plus,times,zero,one,ord,inverse} timer_env \<Rightarrow> 'd timer_globals \<Rightarrow>
    'd timer_globals option" where
  "timer_list_shutdown E g =
     map_option (\<lambda>(_, _, g). g\<lparr>g_shards := [], g_shard_queue := [], initialized := False\<rparr>)
       (run_some_expired_timers E GRPC_MILLIS_INF_FUTURE None List_shutdown g)"

end
