(* ===== verification/Timer_Shard.thy ===== *)
theory Timer_Shard
  imports Timers
begin

text \<open>
  One shard of the timers: its invariant, the timers it holds, and what moving timers from the list to the heap and
  taking the expired ones do to them. The heap enters through \<open>heap_add\<close> and the facts of \<open>heap_queue\<close>.
\<close>

section \<open>The invariant of a shard\<close>

definition shard_elems :: "'d timer_shard \<Rightarrow> timer_ptr set" where
  "shard_elems sh = set (pending_timers (heap sh)) \<union> set (timer_list sh)"

text \<open>\<open>ahead\<close> are the timers of the list that have not been looked at after a change of the deadline cap.\<close>

definition shard_mid :: "timer_ptr list \<Rightarrow> 'd timer_shard \<Rightarrow> timer_store \<Rightarrow> bool" where
  "shard_mid ahead sh T \<longleftrightarrow>
     timer_heap_wf (heap sh, T) \<and> distinct (timer_list sh) \<and>
     set (pending_timers (heap sh)) \<inter> set (timer_list sh) = {} \<and>
     timer_count (heap sh) + length (timer_list sh) + 1 < 2 ^ 31 \<and>
     (\<forall>t \<in> set (pending_timers (heap sh)). deadline (T t) < queue_deadline_cap sh) \<and>
     (\<forall>t \<in> set (timer_list sh). heap_index (T t) = INVALID_HEAP_INDEX \<and>
        (t \<notin> set ahead \<longrightarrow> queue_deadline_cap sh \<le> deadline (T t)))"

abbreviation shard_wf :: "'d timer_shard \<Rightarrow> timer_store \<Rightarrow> bool" where
  "shard_wf \<equiv> shard_mid []"

text \<open>Only the timers of \<open>F\<close> have stopped being pending; deadlines and closures stay.\<close>

definition fired :: "timer_ptr set \<Rightarrow> timer_store \<Rightarrow> timer_store \<Rightarrow> bool" where
  "fired F T T' \<longleftrightarrow> (\<forall>x. deadline (T' x) = deadline (T x) \<and> closure (T' x) = closure (T x) \<and>
     (pending (T' x) \<longleftrightarrow> pending (T x) \<and> x \<notin> F))"

lemma firedD:
  "fired F T T' \<Longrightarrow> deadline (T' x) = deadline (T x)" "fired F T T' \<Longrightarrow> closure (T' x) = closure (T x)"
  "fired F T T' \<Longrightarrow> pending (T' x) \<longleftrightarrow> pending (T x) \<and> x \<notin> F"
  by (simp_all add: fired_def)

lemma fired_same: "same_timers T T' \<Longrightarrow> fired {} T T'"
  by (simp add: fired_def same_timersD)

lemma fired_trans: "fired F T T' \<Longrightarrow> fired G T' T'' \<Longrightarrow> fired (F \<union> G) T T''"
  by (auto simp: fired_def)

lemma heap_wf_cong:
  assumes "timer_heap_wf (h, T)"
    and "\<And>x. x \<in> set (pending_timers h) \<Longrightarrow> deadline (T' x) = deadline (T x) \<and> heap_index (T' x) = heap_index (T x)"
  shows "timer_heap_wf (h, T')"
proof -
  have "timers h ! j \<in> set (pending_timers h)" if "j < timer_count h" for j
    using assms(1) that by (auto simp: timer_heap_wf_def pending_timers_def in_set_conv_nth intro!: exI [of _ j])
  with assms show ?thesis by (auto simp: timer_heap_wf_def heap_ordered_def indexed_def)
qed

lemma shard_mid_cong:
  assumes "shard_mid ahead sh T" and "\<And>x. x \<in> shard_elems sh \<Longrightarrow> deadline (T' x) = deadline (T x) \<and> heap_index (T' x) = heap_index (T x)"
  shows "shard_mid ahead sh T'"
  using assms heap_wf_cong [of "heap sh" T T'] by (auto simp: shard_mid_def shard_elems_def)

lemma shard_elems_finite [simp]: "finite (shard_elems sh)"
  by (simp add: shard_elems_def)

lemma invalid_index: "shard_mid ahead sh T \<Longrightarrow> t \<in> shard_elems sh \<Longrightarrow>
    heap_index (T t) = INVALID_HEAP_INDEX \<longleftrightarrow> t \<in> set (timer_list sh)"
  using wf_pending_nth(1) [of "heap sh" T t]
  by (auto simp: shard_mid_def shard_elems_def INVALID_HEAP_INDEX_def timer_heap_wf_def pending_set_def)

section \<open>Moving timers to the heap\<close>

text \<open>\<open>sh'\<close> is \<open>sh\<close> but for the heap, the list, the deadline cap and the statistics.\<close>

definition same_place :: "'d timer_shard \<Rightarrow> 'd timer_shard \<Rightarrow> bool" where
  "same_place sh sh' \<longleftrightarrow> min_deadline sh' = min_deadline sh \<and> shard_queue_index sh' = shard_queue_index sh"

lemma same_place_trans: "same_place a b \<Longrightarrow> same_place b c \<Longrightarrow> same_place a c"
  by (simp add: same_place_def)

lemma add_from_list:
  assumes mid: "shard_mid (t # ahead) sh T" and t: "t \<in> set (timer_list sh)" "t \<notin> set ahead"
    and cap: "deadline (T t) < queue_deadline_cap sh"
  shows "\<exists>b h T'. grpc_timer_heap_add fresh (heap sh) T t = Some (b, h, T') \<and>
    shard_mid ahead (sh\<lparr>timer_list := list_remove t (timer_list sh), heap := h\<rparr>) T' \<and> same_timers T T' \<and>
    shard_elems (sh\<lparr>timer_list := list_remove t (timer_list sh), heap := h\<rparr>) = shard_elems sh \<and>
    (\<forall>x. x \<notin> shard_elems sh \<longrightarrow> T' x = T x)"
proof -
  have m: "timer_heap_wf (heap sh, T)" "distinct (timer_list sh)" "set (pending_timers (heap sh)) \<inter> set (timer_list sh) = {}"
    "timer_count (heap sh) + length (timer_list sh) + 1 < 2 ^ 31"
    using mid by (simp_all add: shard_mid_def)
  have tn: "t \<notin> pending_set (heap sh, T)" using m(3) t(1) by (auto simp: pending_set_def)
  have "timer_count (heap sh) + 1 < 2 ^ 31" using m(4) by simp
  from heap_add [OF m(1) tn this, of fresh] obtain b h T' where
    a: "grpc_timer_heap_add fresh (heap sh) T t = Some (b, h, T')" "timer_heap_wf (h, T')"
      "pending_set (h, T') = insert t (pending_set (heap sh, T))"
      "\<forall>x. x \<notin> insert t (pending_set (heap sh, T)) \<longrightarrow> T' x = T x" "timer_count h = timer_count (heap sh) + 1"
    by blast
  note same = heap_add_same [OF a(1)]
  let ?sh = "sh\<lparr>timer_list := list_remove t (timer_list sh), heap := h\<rparr>"
  have sets: "set (pending_timers h) = insert t (set (pending_timers (heap sh)))"
    "set (list_remove t (timer_list sh)) = set (timer_list sh) - {t}" "distinct (list_remove t (timer_list sh))"
    using a(3) m(2) by (simp_all add: pending_set_def list_remove_def)
  have "length (list_remove t (timer_list sh)) + 1 = length (timer_list sh)"
    using length_pos_if_in_set [OF t(1)] t(1) by (simp add: list_remove_def length_remove1)
  moreover have "T' x = T x" if "x \<in> set (timer_list sh)" "x \<noteq> t" for x
    using a(4) that m(3) by (auto simp: pending_set_def)
  ultimately have "shard_mid ahead ?sh T'"
    using mid a(2,5) sets cap unfolding shard_mid_def by (auto simp: same_timersD [OF same])
  moreover have "shard_elems ?sh = shard_elems sh" using sets t(1) by (auto simp: shard_elems_def)
  moreover have "T' x = T x" if "x \<notin> shard_elems sh" for x
    using a(4) that t(1) by (auto simp: shard_elems_def pending_set_def)
  ultimately show ?thesis using a(1) same by blast
qed

lemma refill_loop_ok:
  "shard_mid ahead sh T \<Longrightarrow> distinct ahead \<Longrightarrow> set ahead \<subseteq> set (timer_list sh) \<Longrightarrow>
    \<exists>sh' T'. refill_loop fresh ahead sh T = Some (sh', T') \<and> shard_wf sh' T' \<and> same_timers T T' \<and>
      shard_elems sh' = shard_elems sh \<and> (\<forall>x. x \<notin> shard_elems sh \<longrightarrow> T' x = T x) \<and> same_place sh sh' \<and>
      queue_deadline_cap sh' = queue_deadline_cap sh"
proof (induction ahead arbitrary: sh T)
  case Nil
  then show ?case by (simp add: same_place_def)
next
  case (Cons t ahead)
  show ?case
  proof (cases "deadline (T t) < queue_deadline_cap sh")
    case True
    let ?sh = "\<lambda>h. sh\<lparr>timer_list := list_remove t (timer_list sh), heap := h\<rparr>"
    from Cons.prems add_from_list [OF Cons.prems(1) _ _ True, of fresh] obtain b h T' where
      a: "grpc_timer_heap_add fresh (heap sh) T t = Some (b, h, T')" "shard_mid ahead (?sh h) T'" "same_timers T T'"
        "shard_elems (?sh h) = shard_elems sh" "\<forall>x. x \<notin> shard_elems sh \<longrightarrow> T' x = T x" by auto
    have "set ahead \<subseteq> set (timer_list (?sh h))" using Cons.prems by (auto simp: list_remove_def shard_mid_def)
    with Cons.IH [OF a(2)] Cons.prems(2) obtain sh' T'' where
      r: "refill_loop fresh ahead (?sh h) T' = Some (sh', T'')" "shard_wf sh' T''" "same_timers T' T''"
        "shard_elems sh' = shard_elems sh" "\<forall>x. x \<notin> shard_elems sh \<longrightarrow> T'' x = T' x" "same_place (?sh h) sh'"
        "queue_deadline_cap sh' = queue_deadline_cap sh" by (auto simp: a(4))
    moreover have "refill_loop fresh (t # ahead) sh T = refill_loop fresh ahead (?sh h) T'"
      using True a(1) by (simp add: Let_def)
    ultimately show ?thesis using a(5) same_timers_trans [OF a(3) r(3)] by (auto simp: same_place_def)
  next
    case False
    then have "shard_mid ahead sh T" using Cons.prems(1) by (auto simp: shard_mid_def)
    with Cons.IH [of sh T] Cons.prems(2,3) False show ?thesis by simp
  qed
qed

section \<open>Taking expired timers\<close>

text \<open>The windows the statistics give are not negative: the result of \<open>GPR_CLAMP\<close> is at least 0.01.\<close>

definition windows_ok :: "'d::{plus,times,zero,one,ord,inverse} timer_env \<Rightarrow> bool" where
  "windows_ok E \<longleftrightarrow> (\<forall>s. 0 \<le> fst (deadline_window E s))"

text \<open>No timer of the heap is due, and none of the list before \<open>now\<close>.\<close>

definition quiet :: "'d timer_shard \<Rightarrow> timer_store \<Rightarrow> grpc_millis \<Rightarrow> bool" where
  "quiet sh T now \<longleftrightarrow> (\<forall>t \<in> set (pending_timers (heap sh)). now < deadline (T t)) \<and> now \<le> queue_deadline_cap sh"

text \<open>What one or more expired timers \<open>ts\<close> taken from a shard leave.\<close>

definition taken :: "timer_ptr list \<Rightarrow> 'd timer_shard \<Rightarrow> timer_store \<Rightarrow> 'd timer_shard \<Rightarrow> timer_store \<Rightarrow> bool" where
  "taken ts sh T sh' T' \<longleftrightarrow>
     shard_wf sh' T' \<and> fired (set ts) T T' \<and> set ts \<subseteq> shard_elems sh \<and> distinct ts \<and>
     shard_elems sh' = shard_elems sh - set ts \<and> (\<forall>x. x \<notin> shard_elems sh \<longrightarrow> T' x = T x) \<and> same_place sh sh'"

lemma takenD:
  assumes "taken ts sh T sh' T'"
  shows "shard_wf sh' T'" "fired (set ts) T T'" "set ts \<subseteq> shard_elems sh" "distinct ts"
    "shard_elems sh' = shard_elems sh - set ts" "x \<notin> shard_elems sh \<Longrightarrow> T' x = T x" "same_place sh sh'"
  using assms by (simp_all add: taken_def)

lemma taken_trans:
  assumes "taken ts sh T sh' T'" and "taken us sh' T' sh'' T''"
  shows "taken (ts @ us) sh T sh'' T''"
  using fired_trans [OF takenD(2) [OF assms(1)] takenD(2) [OF assms(2)]]
    same_place_trans [OF takenD(7) [OF assms(1)] takenD(7) [OF assms(2)]] assms
  by (auto simp: taken_def)

lemma saturating_add_ge: "a \<le> GRPC_MILLIS_INF_FUTURE \<Longrightarrow> 0 \<le> b \<Longrightarrow> a \<le> saturating_add a b"
  by (simp add: saturating_add_def)

lemma saturating_add_le: "saturating_add a b \<le> GRPC_MILLIS_INF_FUTURE"
  by (simp add: saturating_add_def)

lemma refill_heap_ok:
  assumes wf: "shard_wf sh T" and E: "windows_ok E" and now: "now \<le> GRPC_MILLIS_INF_FUTURE"
    and cap: "queue_deadline_cap sh \<le> GRPC_MILLIS_INF_FUTURE"
  shows "\<exists>b sh' T'. refill_heap E sh T now = Some (b, sh', T') \<and> taken [] sh T sh' T' \<and>
    now \<le> queue_deadline_cap sh' \<and> queue_deadline_cap sh' \<le> GRPC_MILLIS_INF_FUTURE \<and>
    (b \<longleftrightarrow> set (pending_timers (heap sh')) \<noteq> {})"
proof -
  obtain delta s where w: "deadline_window E (stats sh) = (delta, s)" by force
  with E have d: "0 \<le> delta" unfolding windows_ok_def by (metis fst_conv)
  let ?cap = "saturating_add (max now (queue_deadline_cap sh)) delta"
  let ?sh = "sh\<lparr>stats := s, queue_deadline_cap := ?cap\<rparr>"
  have ge: "max now (queue_deadline_cap sh) \<le> ?cap" using now cap d by (intro saturating_add_ge) simp_all
  then have "shard_mid (timer_list ?sh) ?sh T" using wf by (auto simp: shard_mid_def)
  from refill_loop_ok [OF this, of "fresh_word E"] wf obtain sh' T' where
    r: "refill_loop (fresh_word E) (timer_list sh) ?sh T = Some (sh', T')" "shard_wf sh' T'" "same_timers T T'"
      "shard_elems sh' = shard_elems sh" "\<forall>x. x \<notin> shard_elems sh \<longrightarrow> T' x = T x" "same_place ?sh sh'"
      "queue_deadline_cap sh' = ?cap" by (auto simp: shard_mid_def shard_elems_def)
  have "refill_heap E sh T now = Some (\<not> grpc_timer_heap_is_empty (heap sh'), sh', T')"
    using w r(1) by (simp add: refill_heap_def)
  moreover have "grpc_timer_heap_is_empty (heap sh') \<longleftrightarrow> set (pending_timers (heap sh')) = {}"
    using heap_empty [of "heap sh'" T'] r(2) by (simp add: shard_mid_def pending_set_def)
  moreover have "taken [] sh T sh' T'"
    using r fired_same [OF r(3)] by (auto simp: taken_def same_place_def)
  ultimately show ?thesis using ge r(7) saturating_add_le by simp
qed

text \<open>Taking one timer out of the heap, or out of the list.\<close>

lemma taken_from_heap:
  assumes wf: "shard_wf sh T" and tp: "t \<in> set (pending_timers (heap sh))"
  shows "\<exists>k T'. grpc_timer_heap_remove (heap sh) (T(t := (T t)\<lparr>pending := False\<rparr>)) t = Some (k, T') \<and>
    taken [t] sh T (sh\<lparr>heap := k\<rparr>) T'"
proof -
  let ?T = "T(t := (T t)\<lparr>pending := False\<rparr>)"
  have h: "timer_heap_wf (heap sh, ?T)"
    by (rule heap_wf_cong [of "heap sh" T]) (use wf in \<open>simp_all add: shard_mid_def\<close>)
  have "t \<in> pending_set (heap sh, ?T)" using tp by (simp add: pending_set_def)
  from heap_remove [OF h this] obtain k T' where
    r: "grpc_timer_heap_remove (heap sh) ?T t = Some (k, T')" "timer_heap_wf (k, T')"
      "pending_set (k, T') = pending_set (heap sh, ?T) - {t}" "\<forall>x. x \<notin> pending_set (heap sh, ?T) \<longrightarrow> T' x = ?T x"
      "timer_count k + 1 = timer_count (heap sh)" by blast
  note same = same_timersD [OF heap_remove_same [OF r(1)]]
  have sets: "set (pending_timers k) = set (pending_timers (heap sh)) - {t}" using r(3) by (simp add: pending_set_def)
  have tl: "t \<notin> set (timer_list sh)" using wf tp by (auto simp: shard_mid_def)
  have f: "fired {t} T T'" using same by (simp add: fired_def)
  have "T' x = T x" if "x \<in> set (timer_list sh)" for x
    using r(4) wf that tl by (auto simp: shard_mid_def pending_set_def)
  then have "shard_wf (sh\<lparr>heap := k\<rparr>) T'"
    using wf r(2,5) sets by (auto simp: shard_mid_def firedD [OF f])
  moreover have "shard_elems (sh\<lparr>heap := k\<rparr>) = shard_elems sh - {t}" using sets tl by (auto simp: shard_elems_def)
  moreover have "T' x = T x" if "x \<notin> shard_elems sh" for x
    using r(4) that tp by (auto simp: shard_elems_def pending_set_def)
  ultimately have "taken [t] sh T (sh\<lparr>heap := k\<rparr>) T'"
    using f tp by (auto simp: taken_def same_place_def shard_elems_def)
  with r(1) show ?thesis by blast
qed

lemma list_remove_wf: "shard_wf sh T \<Longrightarrow> shard_wf (sh\<lparr>timer_list := list_remove t (timer_list sh)\<rparr>) T"
  by (auto simp: shard_mid_def list_remove_def length_remove1 dest: notin_set_remove1)

lemma taken_from_list:
  assumes wf: "shard_wf sh T" and tl: "t \<in> set (timer_list sh)"
  shows "taken [t] sh T (sh\<lparr>timer_list := list_remove t (timer_list sh)\<rparr>) (T(t := (T t)\<lparr>pending := False\<rparr>))"
proof -
  let ?T = "T(t := (T t)\<lparr>pending := False\<rparr>)" let ?sh = "sh\<lparr>timer_list := list_remove t (timer_list sh)\<rparr>"
  have "shard_wf sh ?T" by (rule shard_mid_cong [OF wf]) simp
  then have "shard_wf ?sh ?T" by (rule list_remove_wf)
  moreover have "shard_elems ?sh = shard_elems sh - {t}"
    using wf tl by (auto simp: shard_elems_def list_remove_def shard_mid_def)
  ultimately show ?thesis using tl by (auto simp: taken_def fired_def same_place_def shard_elems_def)
qed

definition pop_result :: "grpc_millis \<Rightarrow> 'd timer_shard \<Rightarrow> timer_store \<Rightarrow> timer_ptr option \<Rightarrow> 'd timer_shard \<Rightarrow>
    timer_store \<Rightarrow> bool" where
  "pop_result now sh T r sh' T' \<longleftrightarrow>
     (case r of
        None \<Rightarrow> taken [] sh T sh' T' \<and> quiet sh' T' now
      | Some t \<Rightarrow> taken [t] sh T sh' T' \<and> deadline (T t) \<le> now \<and> (\<forall>u \<in> shard_elems sh. deadline (T t) \<le> deadline (T u)))"

lemma pop_result_simps [simp]:
  "pop_result now sh T None sh' T' \<longleftrightarrow> taken [] sh T sh' T' \<and> quiet sh' T' now"
  "pop_result now sh T (Some t) sh' T' \<longleftrightarrow>
     taken [t] sh T sh' T' \<and> deadline (T t) \<le> now \<and> (\<forall>u \<in> shard_elems sh. deadline (T t) \<le> deadline (T u))"
  by (simp_all add: pop_result_def)

lemma pop_result_trans:
  assumes "taken [] sh T sh1 T1" and "pop_result now sh1 T1 r sh' T'"
  shows "pop_result now sh T r sh' T'"
  using assms taken_trans [OF assms(1), of _ sh' T'] takenD(5) [OF assms(1)] firedD(1) [OF takenD(2) [OF assms(1)]]
  by (cases r) simp_all

lemma taken_refl: "shard_wf sh T \<Longrightarrow> taken [] sh T sh T"
  by (simp add: taken_def fired_def same_place_def)

lemma pop_top_ok:
  assumes wf: "shard_wf sh T" and ne: "set (pending_timers (heap sh)) \<noteq> {}"
  shows "\<exists>r sh' T'. pop_top sh T now = Some (r, sh', T') \<and> queue_deadline_cap sh' = queue_deadline_cap sh \<and>
    pop_result now sh T r sh' T'"
proof -
  define t where "t = grpc_timer_heap_top (heap sh)"
  have h: "timer_heap_wf (heap sh, T)" "pending_set (heap sh, T) = set (pending_timers (heap sh))"
    using wf by (simp_all add: shard_mid_def pending_set_def)
  note t = heap_queue.least_elem [OF h(1)] heap_queue.least_le [OF h(1)]
  have tp: "t \<in> set (pending_timers (heap sh))" using t(1) ne h(2) by (simp add: t_def)
  have le: "\<forall>u \<in> set (pending_timers (heap sh)). deadline (T t) \<le> deadline (T u)"
    using t(2) h(2) by (simp add: t_def due_def)
  have tcap: "deadline (T t) < queue_deadline_cap sh" using wf tp by (simp add: shard_mid_def)
  show ?thesis
  proof (cases "now < deadline (T t)")
    case True
    then have "quiet sh T now" using le tcap by (auto simp: quiet_def)
    with True taken_refl [OF wf] show ?thesis by (simp add: pop_top_def t_def)
  next
    case False
    from taken_from_heap [OF wf tp] obtain k T' where
      r: "grpc_timer_heap_remove (heap sh) (T(t := (T t)\<lparr>pending := False\<rparr>)) t = Some (k, T')"
        "taken [t] sh T (sh\<lparr>heap := k\<rparr>) T'" by blast
    then have "pop_top sh T now = Some (Some t, sh\<lparr>heap := k\<rparr>, T')"
      using False by (simp add: pop_top_def Let_def grpc_timer_heap_pop_def t_def)
    moreover have "\<forall>u \<in> shard_elems sh. deadline (T t) \<le> deadline (T u)"
      using le wf tcap by (fastforce simp: shard_elems_def shard_mid_def)
    ultimately show ?thesis using False r(2) by (auto intro!: exI [of _ "Some t"])
  qed
qed

text \<open>What the calls of \<open>pop_one\<close> and \<open>pop_timers\<close> rely on.\<close>

definition poppable :: "'d::{plus,times,zero,one,ord,inverse} timer_env \<Rightarrow> grpc_millis \<Rightarrow> 'd timer_shard \<Rightarrow> timer_store \<Rightarrow> bool" where
  "poppable E now sh T \<longleftrightarrow> shard_wf sh T \<and> windows_ok E \<and> now \<le> GRPC_MILLIS_INF_FUTURE \<and>
     queue_deadline_cap sh \<le> GRPC_MILLIS_INF_FUTURE"

lemma pop_one_ok:
  assumes p: "poppable E now sh T"
  shows "\<exists>r sh' T'. pop_one E sh T now = Some (r, sh', T') \<and> queue_deadline_cap sh' \<le> GRPC_MILLIS_INF_FUTURE \<and>
    pop_result now sh T r sh' T'"
proof -
  have wf: "shard_wf sh T" and E: "windows_ok E" and now: "now \<le> GRPC_MILLIS_INF_FUTURE"
    and cap: "queue_deadline_cap sh \<le> GRPC_MILLIS_INF_FUTURE" using p by (simp_all add: poppable_def)
  have em: "grpc_timer_heap_is_empty (heap sh) \<longleftrightarrow> set (pending_timers (heap sh)) = {}"
    using heap_empty [of "heap sh" T] wf by (simp add: shard_mid_def pending_set_def)
  show ?thesis
  proof (cases "set (pending_timers (heap sh)) = {}")
    case False
    from pop_top_ok [OF wf False, of now] show ?thesis unfolding pop_one_def em using False cap by auto
  next
    case empty: True
    show ?thesis
    proof (cases "now < queue_deadline_cap sh")
      case True
      with empty em cap taken_refl [OF wf] show ?thesis by (auto simp: pop_one_def quiet_def)
    next
      case False
      from refill_heap_ok [OF wf E now cap] obtain b sh1 T1 where
        r: "refill_heap E sh T now = Some (b, sh1, T1)" "taken [] sh T sh1 T1" "now \<le> queue_deadline_cap sh1"
          "queue_deadline_cap sh1 \<le> GRPC_MILLIS_INF_FUTURE" "b \<longleftrightarrow> set (pending_timers (heap sh1)) \<noteq> {}" by blast
      have po: "pop_one E sh T now = (if \<not> b then Some (None, sh1, T1) else pop_top sh1 T1 now)"
        using False empty em r(1) by (simp add: pop_one_def)
      show ?thesis
      proof (cases b)
        case False
        with po r show ?thesis by (auto simp: quiet_def)
      next
        case True
        with r(5) pop_top_ok [OF takenD(1) [OF r(2)], of now] po r(4) pop_result_trans [OF r(2)] show ?thesis
          by fastforce
      qed
    qed
  qed
qed

lemma pop_loop_ok:
  assumes "poppable E now sh T"
  shows "\<exists>ts sh' T'. pop_loop E sh T now err n out =
      Some (n + length ts, out @ map (\<lambda>t. (closure (T t), err)) ts, sh', T') \<and>
    taken ts sh T sh' T' \<and> quiet sh' T' now \<and> queue_deadline_cap sh' \<le> GRPC_MILLIS_INF_FUTURE \<and>
    (\<forall>t \<in> set ts. deadline (T t) \<le> now) \<and> sorted (map (\<lambda>t. deadline (T t)) ts)"
  using assms
proof (induction "card (shard_elems sh)" arbitrary: sh T n out rule: less_induct)
  case less
  from pop_one_ok [OF less.prems] obtain r sh1 T1 where
    r: "pop_one E sh T now = Some (r, sh1, T1)" "queue_deadline_cap sh1 \<le> GRPC_MILLIS_INF_FUTURE"
      "pop_result now sh T r sh1 T1"
    by blast
  show ?case
  proof (cases r)
    case None
    then have "pop_loop E sh T now err n out = Some (n, out, sh1, T1)" using r(1) by (subst pop_loop.simps) simp
    with None r(2,3) show ?thesis by (intro exI [of _ "[]"] exI [of _ sh1] exI [of _ T1]) simp
  next
    case (Some t)
    with r(3) have t: "taken [t] sh T sh1 T1" "deadline (T t) \<le> now" "\<forall>u \<in> shard_elems sh. deadline (T t) \<le> deadline (T u)"
      by simp_all
    note d = firedD [OF takenD(2) [OF t(1)]]
    have "card (shard_elems sh1) < card (shard_elems sh)"
      using takenD(3,5) [OF t(1)] by (intro psubset_card_mono) auto
    moreover have "poppable E now sh1 T1" using less.prems r(2) takenD(1) [OF t(1)] by (simp add: poppable_def)
    ultimately obtain ts sh' T' where
      i: "pop_loop E sh1 T1 now err (n + 1) (out @ [(closure (T1 t), err)]) =
          Some (n + 1 + length ts, (out @ [(closure (T1 t), err)]) @ map (\<lambda>t. (closure (T1 t), err)) ts, sh', T')"
        "taken ts sh1 T1 sh' T'" "quiet sh' T' now" "queue_deadline_cap sh' \<le> GRPC_MILLIS_INF_FUTURE"
        "\<forall>t \<in> set ts. deadline (T1 t) \<le> now" "sorted (map (\<lambda>t. deadline (T1 t)) ts)"
      using less.hyps [of sh1 T1 "n + 1" "out @ [(closure (T1 t), err)]"] by blast
    have "pop_loop E sh T now err n out = pop_loop E sh1 T1 now err (n + 1) (out @ [(closure (T1 t), err)])"
      using r(1) Some by (subst pop_loop.simps) simp
    moreover have "\<forall>u \<in> set ts. deadline (T t) \<le> deadline (T u)"
      using t(3) takenD(3) [OF i(2)] takenD(5) [OF t(1)] by auto
    moreover note taken_trans [OF t(1) i(2)]
    ultimately show ?thesis using i(1,3-6) t(2)
      by (intro exI [of _ "t # ts"] exI [of _ sh'] exI [of _ T']) (simp add: d)
  qed
qed

end
