(* ===== verification/Timer_Queue.thy ===== *)
theory Timer_Queue
  imports Timers
begin

text \<open>
  The queue of the shards: \<open>note_deadline_change\<close> restores its order after the time of one shard has changed, and
  changes nothing else.
\<close>

section \<open>Sequences that are sorted but for one element\<close>

definition sorted_but :: "nat \<Rightarrow> int list \<Rightarrow> bool" where
  "sorted_but p ms \<longleftrightarrow> (\<forall>i j. i < j \<and> j < length ms \<and> i \<noteq> p \<and> j \<noteq> p \<longrightarrow> ms ! i \<le> ms ! j)"

abbreviation swapped :: "nat \<Rightarrow> int list \<Rightarrow> int list" where
  "swapped i ms \<equiv> ms[i := ms ! (i + 1), i + 1 := ms ! i]"

lemma sorted_but_down: "sorted_but (i + 1) ms \<Longrightarrow> i + 1 < length ms \<Longrightarrow> sorted_but i (swapped i ms)"
  unfolding sorted_but_def by (auto simp: nth_list_update)

lemma sorted_but_up: "sorted_but i ms \<Longrightarrow> i + 1 < length ms \<Longrightarrow> sorted_but (i + 1) (swapped i ms)"
  unfolding sorted_but_def by (auto simp: nth_list_update)

lemma sorted_but_sorted:
  assumes "sorted_but p ms" and "p < length ms" and "0 < p \<Longrightarrow> ms ! (p - 1) \<le> ms ! p"
    and "p + 1 < length ms \<Longrightarrow> ms ! p \<le> ms ! (p + 1)"
  shows "sorted ms"
  unfolding sorted_iff_nth_Suc
proof (intro allI impI)
  fix i assume i: "Suc i < length ms"
  consider "i = p" | "Suc i = p" | "i \<noteq> p" "Suc i \<noteq> p" by blast
  then show "ms ! i \<le> ms ! Suc i"
    using assms i by cases (auto simp: sorted_but_def)
qed

lemma sorted_but_update: "sorted ms \<Longrightarrow> sorted_but p (ms[p := x])"
  by (auto simp: sorted_but_def sorted_iff_nth_mono)

section \<open>The queue\<close>

definition queue_wf :: "'d timer_globals \<Rightarrow> bool" where
  "queue_wf g \<longleftrightarrow> length (g_shard_queue g) = length (g_shards g) \<and>
     (\<forall>i < length (g_shards g). g_shard_queue g ! i < length (g_shards g) \<and>
        shard_queue_index (g_shards g ! (g_shard_queue g ! i)) = i)"

definition queue_mins :: "'d timer_globals \<Rightarrow> int list" where
  "queue_mins g = map (\<lambda>k. min_deadline (g_shards g ! k)) (g_shard_queue g)"

text \<open>\<open>g'\<close> is \<open>g\<close> but for the order of the queue.\<close>

definition requeued :: "'d timer_globals \<Rightarrow> 'd timer_globals \<Rightarrow> bool" where
  "requeued g g' \<longleftrightarrow> queue_wf g' \<and> length (g_shards g') = length (g_shards g) \<and>
     g'\<lparr>g_shards := [], g_shard_queue := []\<rparr> = g\<lparr>g_shards := [], g_shard_queue := []\<rparr> \<and>
     (\<forall>k < length (g_shards g).
        (g_shards g' ! k)\<lparr>shard_queue_index := 0\<rparr> = (g_shards g ! k)\<lparr>shard_queue_index := 0\<rparr>)"

lemma requeued_refl: "queue_wf g \<Longrightarrow> requeued g g"
  by (simp add: requeued_def)

lemma requeued_trans: "requeued g g' \<Longrightarrow> requeued g' g'' \<Longrightarrow> requeued g g''"
  by (simp add: requeued_def)

lemma queue_index:
  assumes "queue_wf g" and "k < length (g_shards g)"
  shows "shard_queue_index (g_shards g ! k) < length (g_shards g)"
    and "g_shard_queue g ! shard_queue_index (g_shards g ! k) = k"
proof -
  let ?n = "length (g_shards g)" let ?q = "\<lambda>i. g_shard_queue g ! i"
  have "inj_on ?q {..<?n}" using assms(1) unfolding queue_wf_def by (metis inj_onI lessThan_iff)
  then have "?q ` {..<?n} = {..<?n}" using assms(1) by (intro endo_inj_surj) (auto simp: queue_wf_def)
  then obtain i where "i < ?n" "?q i = k" using assms(2) by (metis imageE lessThan_iff)
  with assms(1) show "shard_queue_index (g_shards g ! k) < ?n" "?q (shard_queue_index (g_shards g ! k)) = k"
    by (auto simp: queue_wf_def)
qed

lemma swap_requeued:
  assumes wf: "queue_wf g" and i: "i + 1 < length (g_shards g)"
  shows "requeued g (swap_adjacent_shards_in_queue i g)"
    and "g_shard_queue (swap_adjacent_shards_in_queue i g) =
      (g_shard_queue g)[i := g_shard_queue g ! (i + 1), i + 1 := g_shard_queue g ! i]"
    and "queue_mins (swap_adjacent_shards_in_queue i g) = swapped i (queue_mins g)"
proof -
  let ?q = "g_shard_queue g" let ?n = "length (g_shards g)" let ?s = "g_shards g"
  let ?a = "?q ! i" let ?b = "?q ! (i + 1)"
  have l: "length ?q = ?n" and ix: "\<And>j. j < ?n \<Longrightarrow> ?q ! j < ?n \<and> shard_queue_index (?s ! (?q ! j)) = j"
    using wf by (simp_all add: queue_wf_def)
  have ab: "?a \<noteq> ?b" "?a < ?n" "?b < ?n" using ix [of i] ix [of "i + 1"] i by auto
  define s' where "s' = ?s[?b := (?s ! ?b)\<lparr>shard_queue_index := i\<rparr>, ?a := (?s ! ?a)\<lparr>shard_queue_index := i + 1\<rparr>]"
  have q2: "?q[i := ?b] ! (i + 1) = ?b" "?q[i := ?b, i + 1 := ?a] ! i = ?b" "?q[i := ?b, i + 1 := ?a] ! (i + 1) = ?a"
    using i l by simp_all
  have sw: "swap_adjacent_shards_in_queue i g = g\<lparr>g_shards := s', g_shard_queue := ?q[i := ?b, i + 1 := ?a]\<rparr>"
    unfolding swap_adjacent_shards_in_queue_def set_queue_index_def set_shard_def Let_def timer_globals.simps q2
    using ab i l by (simp add: s'_def)
  have s'k: "s' ! k = (?s ! k)\<lparr>shard_queue_index := if k = ?a then i + 1 else if k = ?b then i else shard_queue_index (?s ! k)\<rparr>"
    if "k < ?n" for k using that ab by (simp add: s'_def nth_list_update)
  have q': "?q[i := ?b, i + 1 := ?a] ! j = (if j = i + 1 then ?a else if j = i then ?b else ?q ! j)" if "j < ?n" for j
    using that l i by (simp add: nth_list_update)
  have inj: "?q ! j = ?a \<longleftrightarrow> j = i" "?q ! j = ?b \<longleftrightarrow> j = i + 1" if "j < ?n" for j
    using ix [OF that] ix [of i] ix [of "i + 1"] i by (metis add_lessD1)+
  have sel: "g_shards (swap_adjacent_shards_in_queue i g) = s'"
    "g_shard_queue (swap_adjacent_shards_in_queue i g) = ?q[i := ?b, i + 1 := ?a]" by (simp_all add: sw)
  have wf': "queue_wf (swap_adjacent_shards_in_queue i g)"
    unfolding queue_wf_def sel
  proof (intro conjI allI impI)
    show "length (?q[i := ?b, i + 1 := ?a]) = length s'" by (simp add: l s'_def)
    fix j assume "j < length s'"
    then have j: "j < ?n" by (simp add: s'_def)
    show "?q[i := ?b, i + 1 := ?a] ! j < length s'" using q' [OF j] ix [OF j] ab by (simp add: s'_def)
    have "?q[i := ?b, i + 1 := ?a] ! j < ?n" using q' [OF j] ix [OF j] ab by simp
    then show "shard_queue_index (s' ! (?q[i := ?b, i + 1 := ?a] ! j)) = j"
      using q' [OF j] inj [OF j] ix [OF j] ab(1) by (simp add: s'k split: if_splits)
  qed
  then show "requeued g (swap_adjacent_shards_in_queue i g)"
    unfolding requeued_def using s'k by (simp add: sw) (simp add: s'_def)
  show "g_shard_queue (swap_adjacent_shards_in_queue i g) = ?q[i := ?b, i + 1 := ?a]" by (simp add: sw)
  show "queue_mins (swap_adjacent_shards_in_queue i g) = swapped i (queue_mins g)"
    by (rule nth_equalityI) (use l i ix q' ab in \<open>auto simp: queue_mins_def sw nth_list_update s'k\<close>)
qed

lemma queue_mins_nth:
  "queue_wf g \<Longrightarrow> i < length (g_shards g) \<Longrightarrow> queue_mins g ! i = min_deadline (g_shards g ! (g_shard_queue g ! i))"
  "queue_wf g \<Longrightarrow> length (queue_mins g) = length (g_shards g)"
  by (simp_all add: queue_mins_def queue_wf_def)

text \<open>After a swap the shard is at the other place.\<close>

lemma swap_index:
  assumes wf: "queue_wf g" and i: "i + 1 < length (g_shards g)" and k: "k < length (g_shards g)"
    and j: "shard_queue_index (g_shards g ! k) = i \<and> j = i + 1 \<or> shard_queue_index (g_shards g ! k) = i + 1 \<and> j = i"
  shows "shard_queue_index (g_shards (swap_adjacent_shards_in_queue i g) ! k) = j"
proof -
  let ?g = "swap_adjacent_shards_in_queue i g"
  note s = swap_requeued [OF wf i]
  have wf': "queue_wf ?g" "length (g_shards ?g) = length (g_shards g)" using s(1) by (simp_all add: requeued_def)
  have l: "length (g_shard_queue g) = length (g_shards g)" using wf by (simp add: queue_wf_def)
  have "g_shard_queue g ! shard_queue_index (g_shards g ! k) = k" by (rule queue_index [OF wf k])
  with j i l have "g_shard_queue ?g ! j = k" unfolding s(2) by (elim disjE conjE) simp_all
  moreover have "j < length (g_shards g)" using i j by linarith
  ultimately show ?thesis using wf' unfolding queue_wf_def by metis
qed

lemma move_forward_ok:
  assumes "queue_wf g" and "k < length (g_shards g)" and "sorted_but (shard_queue_index (g_shards g ! k)) (queue_mins g)"
  shows "\<exists>g'. move_forward k g = Some g' \<and> requeued g g' \<and>
    sorted_but (shard_queue_index (g_shards g' ! k)) (queue_mins g') \<and>
    (0 < shard_queue_index (g_shards g' ! k) \<longrightarrow>
       queue_mins g' ! (shard_queue_index (g_shards g' ! k) - 1) \<le> queue_mins g' ! shard_queue_index (g_shards g' ! k))"
  using assms
proof (induction "shard_queue_index (g_shards g ! k)" arbitrary: g rule: less_induct)
  case less
  define i where "i = shard_queue_index (g_shards g ! k)"
  note ix = queue_index [OF less.prems(1,2), folded i_def] and qm = queue_mins_nth [OF less.prems(1)]
  show ?case
  proof (cases "0 < i \<and> min_deadline (g_shards g ! k) < min_deadline (g_shards g ! (g_shard_queue g ! (i - 1)))")
    case True
    define g1 where "g1 = swap_adjacent_shards_in_queue (i - 1) g"
    have i: "i - 1 + 1 < length (g_shards g)" using ix(1) True by simp
    note s = swap_requeued [OF less.prems(1) i, folded g1_def]
    have k1: "shard_queue_index (g_shards g1 ! k) = i - 1"
      unfolding g1_def using True i_def by (intro swap_index [OF less.prems(1) i less.prems(2)]) simp
    have "sorted_but (i - 1) (queue_mins g1)"
      unfolding s(3) using less.prems(3) True i qm(2) by (intro sorted_but_down) (simp_all add: i_def)
    moreover have "queue_wf g1" "k < length (g_shards g1)" using s(1) less.prems(2) by (simp_all add: requeued_def)
    moreover have "shard_queue_index (g_shards g1 ! k) < i" using k1 True by simp
    ultimately obtain g' where g': "move_forward k g1 = Some g'" "requeued g1 g'"
      "sorted_but (shard_queue_index (g_shards g' ! k)) (queue_mins g')"
      "0 < shard_queue_index (g_shards g' ! k) \<longrightarrow>
       queue_mins g' ! (shard_queue_index (g_shards g' ! k) - 1) \<le> queue_mins g' ! shard_queue_index (g_shards g' ! k)"
      using less.hyps [of g1] k1 unfolding i_def by metis
    moreover have "move_forward k g = move_forward k g1"
      using True unfolding g1_def i_def by (subst move_forward.simps) (simp add: Let_def)
    ultimately show ?thesis using requeued_trans [OF s(1)] by auto
  next
    case False
    then have "move_forward k g = Some g" unfolding i_def by (subst move_forward.simps) (simp only: Let_def if_False)
    moreover have "0 < i \<longrightarrow> queue_mins g ! (i - 1) \<le> queue_mins g ! i"
      using False ix qm(1) [of i] qm(1) [of "i - 1"] by auto
    ultimately show ?thesis using less.prems(3) requeued_refl [OF less.prems(1)] by (simp add: i_def)
  qed
qed

lemma move_back_ok:
  assumes "queue_wf g" and "k < length (g_shards g)" and "sorted_but (shard_queue_index (g_shards g ! k)) (queue_mins g)"
    and "0 < shard_queue_index (g_shards g ! k) \<longrightarrow>
       queue_mins g ! (shard_queue_index (g_shards g ! k) - 1) \<le> queue_mins g ! shard_queue_index (g_shards g ! k)"
  shows "\<exists>g'. move_back k g = Some g' \<and> requeued g g' \<and> sorted (queue_mins g')"
  using assms
proof (induction "length (g_shards g) - shard_queue_index (g_shards g ! k)" arbitrary: g rule: less_induct)
  case less
  define i where "i = shard_queue_index (g_shards g ! k)"
  note ix = queue_index [OF less.prems(1,2), folded i_def] and qm = queue_mins_nth [OF less.prems(1)]
  show ?case
  proof (cases "i < length (g_shards g) - 1 \<and> min_deadline (g_shards g ! (g_shard_queue g ! (i + 1))) < min_deadline (g_shards g ! k)")
    case True
    define g1 where "g1 = swap_adjacent_shards_in_queue i g"
    have i: "i + 1 < length (g_shards g)" using True by linarith
    note s = swap_requeued [OF less.prems(1) i, folded g1_def]
    have k1: "shard_queue_index (g_shards g1 ! k) = i + 1"
      unfolding g1_def by (intro swap_index [OF less.prems(1) i less.prems(2)]) (simp add: i_def)
    have "sorted_but (i + 1) (queue_mins g1)"
      unfolding s(3) using less.prems(3) i qm(2) by (intro sorted_but_up) (simp_all add: i_def)
    moreover have "queue_mins g1 ! i \<le> queue_mins g1 ! (i + 1)"
      unfolding s(3) using True i ix qm by (simp add: less_imp_le)
    moreover have l: "queue_wf g1" "length (g_shards g1) = length (g_shards g)" using s(1) by (simp_all add: requeued_def)
    moreover have "length (g_shards g1) - shard_queue_index (g_shards g1 ! k) < length (g_shards g) - i"
      using k1 l i by simp
    ultimately obtain g' where g': "move_back k g1 = Some g'" "requeued g1 g'" "sorted (queue_mins g')"
      using less.hyps [of g1] k1 less.prems(2) unfolding i_def by auto
    moreover have "move_back k g = move_back k g1"
      using True unfolding g1_def i_def by (subst move_back.simps) (simp add: Let_def)
    ultimately show ?thesis using requeued_trans [OF s(1)] by auto
  next
    case False
    then have "move_back k g = Some g" unfolding i_def by (subst move_back.simps) (simp only: Let_def if_False)
    moreover have "sorted (queue_mins g)"
      using less.prems(3,4) False ix qm(1) [of i] qm(1) [of "i + 1"] qm(2)
      by (intro sorted_but_sorted [of i]) (auto simp: i_def)
    ultimately show ?thesis using requeued_refl [OF less.prems(1)] by simp
  qed
qed

lemma note_deadline_change_ok:
  assumes "queue_wf g" and "k < length (g_shards g)" and "sorted_but (shard_queue_index (g_shards g ! k)) (queue_mins g)"
  shows "\<exists>g'. note_deadline_change k g = Some g' \<and> requeued g g' \<and> sorted (queue_mins g')"
proof -
  from move_forward_ok [OF assms] obtain g1 where g1: "move_forward k g = Some g1" "requeued g g1"
    "sorted_but (shard_queue_index (g_shards g1 ! k)) (queue_mins g1)"
    "0 < shard_queue_index (g_shards g1 ! k) \<longrightarrow>
       queue_mins g1 ! (shard_queue_index (g_shards g1 ! k) - 1) \<le> queue_mins g1 ! shard_queue_index (g_shards g1 ! k)"
    by (elim exE conjE)
  from g1(2) assms(2) have wf1: "queue_wf g1" "k < length (g_shards g1)" by (simp_all add: requeued_def)
  from move_back_ok [OF wf1 g1(3,4)] obtain g' where g': "move_back k g1 = Some g'" "requeued g1 g'"
    "sorted (queue_mins g')" by (elim exE conjE)
  from g1(1) g'(1) have "note_deadline_change k g = Some g'" by (simp add: note_deadline_change_def)
  with requeued_trans [OF g1(2) g'(2)] g'(3) show ?thesis by blast
qed

end
