(* ===== verification/Timers_Spec.thy ===== *)
theory Timers_Spec
  imports Timer_Shard Timer_Queue
begin

text \<open>
  The timers as a whole: an invariant that every operation keeps, what a check of the timers fires, and the account of
  the closures.
\<close>

section \<open>The invariant\<close>

definition shard_good :: "nat \<Rightarrow> nat \<Rightarrow> 'd timer_shard \<Rightarrow> timer_store \<Rightarrow> bool" where
  "shard_good n k sh T \<longleftrightarrow>
     shard_wf sh T \<and> queue_deadline_cap sh \<le> GRPC_MILLIS_INF_FUTURE \<and>
     min_deadline sh \<le> saturating_add (queue_deadline_cap sh) 1 \<and>
     (\<forall>t \<in> set (pending_timers (heap sh)). min_deadline sh \<le> deadline (T t)) \<and>
     (\<forall>t \<in> shard_elems sh. pending (T t) \<and> GPR_HASH_POINTER t n = k)"

definition all_good :: "'d timer_globals \<Rightarrow> bool" where
  "all_good g \<longleftrightarrow>
     (\<forall>k < length (g_shards g). shard_good (length (g_shards g)) k (g_shards g ! k) (store g)) \<and>
     (\<forall>t. pending (store g t) \<longrightarrow> t \<in> shard_elems (g_shards g ! GPR_HASH_POINTER t (length (g_shards g))))"

definition timers_inv :: "'d timer_globals \<Rightarrow> bool" where
  "timers_inv g \<longleftrightarrow> initialized g \<and> g_shards g \<noteq> [] \<and> queue_wf g \<and> sorted (queue_mins g) \<and> all_good g"

definition timers_ok :: "'d timer_globals \<Rightarrow> bool" where
  "timers_ok g \<longleftrightarrow> timers_inv g \<and> (\<forall>k < length (g_shards g). min_timer g \<le> min_deadline (g_shards g ! k))"

lemma hash_less: "0 < n \<Longrightarrow> GPR_HASH_POINTER t n < n"
  by (simp add: GPR_HASH_POINTER_def)

lemma shard_good_frame:
  "shard_good n k sh T \<Longrightarrow> (\<And>x. x \<in> shard_elems sh \<Longrightarrow> T' x = T x) \<Longrightarrow> shard_good n k sh T'"
  using shard_mid_cong [of "[]" sh T T'] by (simp add: shard_good_def shard_elems_def)

lemma same_but_index:
  assumes "a\<lparr>shard_queue_index := 0\<rparr> = (b :: 'd timer_shard)\<lparr>shard_queue_index := 0\<rparr>"
  shows "heap a = heap b" "timer_list a = timer_list b" "queue_deadline_cap a = queue_deadline_cap b"
    "min_deadline a = min_deadline b"
  using assms by (cases a; cases b; simp)+

lemma shard_good_index:
  assumes "a\<lparr>shard_queue_index := 0\<rparr> = (b :: 'd timer_shard)\<lparr>shard_queue_index := 0\<rparr>"
  shows "shard_good n k a T = shard_good n k b T" "shard_elems a = shard_elems b"
  by (simp_all add: shard_good_def shard_mid_def shard_elems_def same_but_index [OF assms])

text \<open>A new order of the queue keeps all else.\<close>

lemma requeuedD:
  assumes "requeued g g'"
  shows "queue_wf g'" "length (g_shards g') = length (g_shards g)" "store g' = store g" "scheduled g' = scheduled g"
    "min_timer g' = min_timer g" "checker_mu g' = checker_mu g" "initialized g' = initialized g" "kicks g' = kicks g"
    "g_last_seen_min_timer g' = g_last_seen_min_timer g"
    "k < length (g_shards g) \<Longrightarrow> (g_shards g' ! k)\<lparr>shard_queue_index := 0\<rparr> = (g_shards g ! k)\<lparr>shard_queue_index := 0\<rparr>"
  using assms by (cases g; cases g'; simp add: requeued_def)+

lemma requeued_good:
  assumes r: "requeued g g'" and g: "all_good g" "g_shards g \<noteq> []"
  shows "all_good g'"
proof -
  let ?n = "length (g_shards g)"
  note d = requeuedD [OF r]
  have "GPR_HASH_POINTER t ?n < ?n" for t using g(2) by (simp add: hash_less)
  then show ?thesis using g(1) by (simp add: all_good_def d(2,3) shard_good_index [OF d(10)])
qed

text \<open>A change of one shard and of its timers.\<close>

lemma set_shard_good:
  assumes g: "all_good g" and k: "k < length (g_shards g)" and sh: "shard_good (length (g_shards g)) k sh T"
    and other: "\<And>x. GPR_HASH_POINTER x (length (g_shards g)) \<noteq> k \<Longrightarrow> T x = store g x"
    and pend: "\<And>x. GPR_HASH_POINTER x (length (g_shards g)) = k \<Longrightarrow> pending (T x) \<Longrightarrow> x \<in> shard_elems sh"
  shows "all_good ((set_shard k sh g)\<lparr>store := T\<rparr>)"
proof -
  let ?n = "length (g_shards g)"
  have "shard_good ?n j ((g_shards g)[k := sh] ! j) T" if j: "j < ?n" for j
  proof (cases "j = k")
    case False
    have gj: "shard_good ?n j (g_shards g ! j) (store g)" using g j by (simp add: all_good_def)
    have "shard_good ?n j (g_shards g ! j) T"
      by (rule shard_good_frame [OF gj]) (use gj False in \<open>auto simp: shard_good_def intro!: other\<close>)
    with False show ?thesis by simp
  qed (use k sh in simp)
  moreover have "x \<in> shard_elems ((g_shards g)[k := sh] ! GPR_HASH_POINTER x ?n)" if "pending (T x)" for x
    using that g k pend [of x] other [of x] by (cases "GPR_HASH_POINTER x ?n = k") (auto simp: all_good_def)
  ultimately show ?thesis by (simp add: all_good_def set_shard_def)
qed

lemma set_shard_queue:
  assumes wf: "queue_wf g" and k: "k < length (g_shards g)"
    and ix: "shard_queue_index sh = shard_queue_index (g_shards g ! k)"
  shows "queue_wf (set_shard k sh g)"
    and "queue_mins (set_shard k sh g) = (queue_mins g)[shard_queue_index (g_shards g ! k) := min_deadline sh]"
proof -
  show "queue_wf (set_shard k sh g)"
    using wf k ix by (auto simp: queue_wf_def set_shard_def nth_list_update)
  have iff: "g_shard_queue g ! i = k \<longleftrightarrow> i = shard_queue_index (g_shards g ! k)" if "i < length (g_shards g)" for i
  proof
    assume "g_shard_queue g ! i = k"
    with that wf show "i = shard_queue_index (g_shards g ! k)" unfolding queue_wf_def by metis
  qed (simp add: queue_index(2) [OF wf k])
  have "min_deadline ((g_shards g)[k := sh] ! (g_shard_queue g ! i)) =
      (if i = shard_queue_index (g_shards g ! k) then min_deadline sh else min_deadline (g_shards g ! (g_shard_queue g ! i)))"
    if "i < length (g_shards g)" for i unfolding iff [OF that, symmetric] using k by simp
  with wf k show
    "queue_mins (set_shard k sh g) = (queue_mins g)[shard_queue_index (g_shards g ! k) := min_deadline sh]"
    by (intro nth_equalityI) (simp_all add: queue_mins_def set_shard_def queue_wf_def nth_list_update)
qed

lemma queue_store [simp]: "queue_wf (g\<lparr>store := T\<rparr>) = queue_wf g" "queue_mins (g\<lparr>store := T\<rparr>) = queue_mins g"
  "queue_wf (g\<lparr>scheduled := l\<rparr>) = queue_wf g" "queue_mins (g\<lparr>scheduled := l\<rparr>) = queue_mins g"
  "queue_wf (g\<lparr>min_timer := m\<rparr>) = queue_wf g" "queue_mins (g\<lparr>min_timer := m\<rparr>) = queue_mins g"
  "queue_wf (g\<lparr>g_last_seen_min_timer := m\<rparr>) = queue_wf g" "queue_mins (g\<lparr>g_last_seen_min_timer := m\<rparr>) = queue_mins g"
  by (simp_all add: queue_wf_def queue_mins_def)

text \<open>The front of the queue has the least time.\<close>

lemma front_least:
  assumes "queue_wf g" "sorted (queue_mins g)" and k: "k < length (g_shards g)"
  shows "g_shard_queue g ! 0 < length (g_shards g)"
    and "min_deadline (g_shards g ! (g_shard_queue g ! 0)) \<le> min_deadline (g_shards g ! k)"
proof -
  have n: "0 < length (g_shards g)" using k by (cases "g_shards g") auto
  show "g_shard_queue g ! 0 < length (g_shards g)" using assms(1) n by (simp add: queue_wf_def)
  note ix = queue_index [OF assms(1) k]
  have "queue_mins g ! 0 \<le> queue_mins g ! shard_queue_index (g_shards g ! k)"
    using assms(2) ix(1) queue_mins_nth(2) [OF assms(1)] by (intro sorted_nth_mono) simp_all
  with ix n show "min_deadline (g_shards g ! (g_shard_queue g ! 0)) \<le> min_deadline (g_shards g ! k)"
    by (simp add: queue_mins_nth [OF assms(1)])
qed

text \<open>A shard gets new timers and a new time, and its place in the queue.\<close>

lemma rebalanced:
  assumes inv: "timers_inv g" and k: "k < length (g_shards g)"
    and ix: "shard_queue_index sh = shard_queue_index (g_shards g ! k)"
    and good: "all_good ((set_shard k sh g)\<lparr>store := T\<rparr>)"
    and g1: "g1 = (set_shard k sh g)\<lparr>store := T, scheduled := out\<rparr>"
  shows "\<exists>g'. note_deadline_change k g1 = Some g' \<and> requeued g1 g' \<and> timers_inv g'"
proof -
  have wf: "queue_wf g" "sorted (queue_mins g)" "g_shards g \<noteq> []" "initialized g"
    using inv by (simp_all add: timers_inv_def)
  note q = set_shard_queue [OF wf(1) k ix]
  have "queue_wf g1" "sorted_but (shard_queue_index (g_shards g1 ! k)) (queue_mins g1)" "k < length (g_shards g1)"
    using q ix k sorted_but_update [OF wf(2)] by (simp_all add: g1) (simp add: set_shard_def)+
  from note_deadline_change_ok [OF this(1,3,2)] obtain g' where
    g': "note_deadline_change k g1 = Some g'" "requeued g1 g'" "sorted (queue_mins g')" by blast
  have "all_good g1" using good by (simp add: g1 all_good_def)
  moreover have ne: "g_shards g1 \<noteq> []" using wf(3) by (simp add: g1 set_shard_def)
  ultimately have "all_good g'" by (intro requeued_good [OF g'(2)])
  moreover have "initialized g'" "g_shards g' \<noteq> []"
    using requeuedD(2,7) [OF g'(2)] wf(4) ne by (auto simp: g1 set_shard_def)
  ultimately show ?thesis using g' requeuedD(1) [OF g'(2)] by (auto simp: timers_inv_def)
qed

section \<open>A check of the timers\<close>

definition due_now :: "grpc_millis \<Rightarrow> grpc_millis \<Rightarrow> bool" where
  "due_now now m \<longleftrightarrow> m < now \<or> now \<noteq> GRPC_MILLIS_INF_FUTURE \<and> m = now"

lemma quiet_not_due:
  assumes wf: "shard_wf sh T" and q: "quiet sh T now" and cap: "queue_deadline_cap sh \<le> GRPC_MILLIS_INF_FUTURE"
  shows "\<not> due_now now (compute_min_deadline sh T)"
    and "compute_min_deadline sh T \<le> saturating_add (queue_deadline_cap sh) 1"
    and "t \<in> set (pending_timers (heap sh)) \<Longrightarrow> compute_min_deadline sh T \<le> deadline (T t)"
proof -
  have h: "timer_heap_wf (heap sh, T)" and ps: "pending_set (heap sh, T) = set (pending_timers (heap sh))"
    using wf by (simp_all add: shard_mid_def pending_set_def)
  have em: "grpc_timer_heap_is_empty (heap sh) \<longleftrightarrow> set (pending_timers (heap sh)) = {}"
    using heap_empty [OF h] by (simp only: ps)
  show "t \<in> set (pending_timers (heap sh)) \<Longrightarrow> compute_min_deadline sh T \<le> deadline (T t)"
    using heap_queue.least_le [OF h, of t] em ps by (auto simp: compute_min_deadline_def due_def)
  have "\<not> due_now now (compute_min_deadline sh T) \<and> compute_min_deadline sh T \<le> saturating_add (queue_deadline_cap sh) 1"
  proof (cases "grpc_timer_heap_is_empty (heap sh)")
    case True
    with q cap show ?thesis by (auto simp: compute_min_deadline_def due_now_def quiet_def saturating_add_def)
  next
    case False
    then have "grpc_timer_heap_top (heap sh) \<in> set (pending_timers (heap sh))"
      using heap_queue.least_elem [OF h] em ps by simp
    with wf q cap False show ?thesis
      by (auto simp: compute_min_deadline_def due_now_def quiet_def saturating_add_def shard_mid_def)
  qed
  then show "\<not> due_now now (compute_min_deadline sh T)"
    "compute_min_deadline sh T \<le> saturating_add (queue_deadline_cap sh) 1" by simp_all
qed

text \<open>A shard from which some timers have been taken, with a new time.\<close>

lemma taken_all_good:
  assumes g: "all_good g" and k: "k < length (g_shards g)" and tk: "taken ts (g_shards g ! k) (store g) sh T"
    and cap: "queue_deadline_cap sh \<le> GRPC_MILLIS_INF_FUTURE" and m: "m \<le> saturating_add (queue_deadline_cap sh) 1"
    and md: "\<And>t. t \<in> set (pending_timers (heap sh)) \<Longrightarrow> m \<le> deadline (T t)"
  shows "all_good ((set_shard k (sh\<lparr>min_deadline := m\<rparr>) g)\<lparr>store := T\<rparr>)"
proof -
  let ?n = "length (g_shards g)"
  note tk = takenD [OF tk]
  have good: "shard_good ?n k (g_shards g ! k) (store g)" and pend: "\<And>t. pending (store g t) \<Longrightarrow>
      t \<in> shard_elems (g_shards g ! GPR_HASH_POINTER t ?n)" using g k by (simp_all add: all_good_def)
  have "shard_good ?n k (sh\<lparr>min_deadline := m\<rparr>) T"
    using tk(1,5) m md cap good firedD(3) [OF tk(2)] by (auto simp: shard_good_def shard_mid_def shard_elems_def)
  moreover have "T x = store g x" if "GPR_HASH_POINTER x ?n \<noteq> k" for x
    using that tk(6) [of x] good by (auto simp: shard_good_def)
  moreover have "x \<in> shard_elems (sh\<lparr>min_deadline := m\<rparr>)" if "GPR_HASH_POINTER x ?n = k" "pending (T x)" for x
    using that pend [of x] tk(5) firedD(3) [OF tk(2), of x] by (auto simp: shard_elems_def)
  ultimately show ?thesis using g k by (intro set_shard_good)
qed

lemma pop_timers_ok:
  assumes inv: "timers_inv g" and k: "k < length (g_shards g)" and E: "windows_ok E" and now: "now \<le> GRPC_MILLIS_INF_FUTURE"
  shows "\<exists>ts m sh T. pop_timers E k now err g = Some (length ts, m, (set_shard k sh g)\<lparr>store := T,
        scheduled := scheduled g @ map (\<lambda>t. (closure (store g t), err)) ts\<rparr>) \<and>
    taken ts (g_shards g ! k) (store g) sh T \<and> \<not> due_now now m \<and>
    all_good ((set_shard k (sh\<lparr>min_deadline := m\<rparr>) g)\<lparr>store := T\<rparr>) \<and>
    (\<forall>t \<in> set ts. deadline (store g t) \<le> now) \<and> sorted (map (\<lambda>t. deadline (store g t)) ts)"
proof -
  let ?n = "length (g_shards g)" let ?sh = "g_shards g ! k"
  have ag: "all_good g" and good: "shard_good ?n k ?sh (store g)" using inv k by (simp_all add: timers_inv_def all_good_def)
  from good E now have "poppable E now ?sh (store g)" by (simp add: poppable_def shard_good_def)
  from pop_loop_ok [OF this, of err 0 "scheduled g"] obtain ts sh T where
    r: "pop_loop E ?sh (store g) now err 0 (scheduled g) =
        Some (length ts, scheduled g @ map (\<lambda>t. (closure (store g t), err)) ts, sh, T)"
      "taken ts ?sh (store g) sh T" "quiet sh T now" "queue_deadline_cap sh \<le> GRPC_MILLIS_INF_FUTURE"
      "\<forall>t \<in> set ts. deadline (store g t) \<le> now" "sorted (map (\<lambda>t. deadline (store g t)) ts)" by auto
  let ?m = "compute_min_deadline sh T"
  note m = quiet_not_due [OF takenD(1) [OF r(2)] r(3,4)]
  have "all_good ((set_shard k (sh\<lparr>min_deadline := ?m\<rparr>) g)\<lparr>store := T\<rparr>)"
    by (rule taken_all_good [OF ag k r(2,4) m(2,3)])
  with r m(1) show ?thesis by (auto simp: pop_timers_def)
qed

text \<open>The timers \<open>ts\<close> have been fired, and nothing else happened to the timers.\<close>

definition expired :: "grpc_millis \<Rightarrow> grpc_error \<Rightarrow> 'd timer_globals \<Rightarrow> timer_ptr list \<Rightarrow> 'd timer_globals \<Rightarrow> bool" where
  "expired now err g ts g' \<longleftrightarrow>
     timers_inv g' \<and> length (g_shards g') = length (g_shards g) \<and> fired (set ts) (store g) (store g') \<and>
     scheduled g' = scheduled g @ map (\<lambda>t. (closure (store g t), err)) ts \<and> distinct ts \<and>
     (\<forall>t \<in> set ts. pending (store g t) \<and> deadline (store g t) \<le> now) \<and>
     checker_mu g' = checker_mu g \<and> kicks g' = kicks g"

lemma expired_trans:
  assumes a: "expired now err g ts g'" and b: "expired now err g' us g''"
  shows "expired now err g (ts @ us) g''"
proof -
  have f: "fired (set ts) (store g) (store g')" using a by (simp add: expired_def)
  have "fired (set us) (store g') (store g'')" using b by (simp add: expired_def)
  with f have "fired (set (ts @ us)) (store g) (store g'')" using fired_trans by force
  with a b show ?thesis by (auto simp: expired_def firedD [OF f])
qed

lemma expire_step:
  assumes inv: "timers_inv g" and E: "windows_ok E" and now: "now \<le> GRPC_MILLIS_INF_FUTURE"
    and k: "k = g_shard_queue g ! 0"
  shows "\<exists>ts m g1 g2. pop_timers E k now err g = Some (length ts, m, g1) \<and>
    note_deadline_change k (set_shard k ((g_shards g1 ! k)\<lparr>min_deadline := m\<rparr>) g1) = Some g2 \<and> expired now err g ts g2 \<and>
    \<not> due_now now (min_deadline (g_shards g2 ! k)) \<and>
    (\<forall>j < length (g_shards g). j \<noteq> k \<longrightarrow> min_deadline (g_shards g2 ! j) = min_deadline (g_shards g ! j))"
proof -
  let ?n = "length (g_shards g)"
  have kn: "k < ?n" using inv k by (cases "g_shards g") (auto simp: timers_inv_def queue_wf_def)
  from pop_timers_ok [OF inv kn E now, of err] obtain ts m sh T where
    p: "pop_timers E k now err g = Some (length ts, m, (set_shard k sh g)\<lparr>store := T,
          scheduled := scheduled g @ map (\<lambda>t. (closure (store g t), err)) ts\<rparr>)"
      "taken ts (g_shards g ! k) (store g) sh T" "\<not> due_now now m"
      "all_good ((set_shard k (sh\<lparr>min_deadline := m\<rparr>) g)\<lparr>store := T\<rparr>)"
      "\<forall>t \<in> set ts. deadline (store g t) \<le> now" by blast
  let ?out = "scheduled g @ map (\<lambda>t. (closure (store g t), err)) ts"
  let ?g1 = "(set_shard k sh g)\<lparr>store := T, scheduled := ?out\<rparr>"
  let ?g2 = "(set_shard k (sh\<lparr>min_deadline := m\<rparr>) g)\<lparr>store := T, scheduled := ?out\<rparr>"
  have g12: "set_shard k ((g_shards ?g1 ! k)\<lparr>min_deadline := m\<rparr>) ?g1 = ?g2" using kn by (simp add: set_shard_def)
  have "shard_queue_index (sh\<lparr>min_deadline := m\<rparr>) = shard_queue_index (g_shards g ! k)"
    using takenD(7) [OF p(2)] by (simp add: same_place_def)
  from rebalanced [OF inv kn this p(4) refl, of ?out] obtain g2 where
    r: "note_deadline_change k ?g2 = Some g2" "requeued ?g2 g2" "timers_inv g2" by blast
  note d = requeuedD [OF r(2)]
  have md: "min_deadline (g_shards g2 ! j) = (if j = k then m else min_deadline (g_shards g ! j))" if "j < ?n" for j
    using same_but_index(4) [OF d(10), of j] that kn by (simp add: set_shard_def nth_list_update)
  have "set ts \<subseteq> {t. pending (store g t)}"
    using takenD(3) [OF p(2)] inv kn by (auto simp: timers_inv_def all_good_def shard_good_def)
  then have "expired now err g ts g2"
    using r(3) p(5) takenD(2,4) [OF p(2)] d(2,3,4,6,8) by (auto simp: expired_def set_shard_def)
  then show ?thesis using p(1,3) r(1) g12 md kn by auto
qed

lemma expire_loop_ok:
  assumes "timers_inv g" and E: "windows_ok E" and now: "now \<le> GRPC_MILLIS_INF_FUTURE"
  shows "\<exists>ts g'. expire_loop E now err res g = Some (if ts = [] then res else GRPC_TIMERS_FIRED, g') \<and>
    expired now err g ts g' \<and> (\<forall>k < length (g_shards g). \<not> due_now now (min_deadline (g_shards g' ! k)))"
  using assms(1)
proof (induction "card {k. k < length (g_shards g) \<and> due_now now (min_deadline (g_shards g ! k))}" arbitrary: g res
    rule: less_induct)
  case less
  let ?n = "length (g_shards g)" let ?due = "\<lambda>g. {k. k < length (g_shards g) \<and> due_now now (min_deadline (g_shards g ! k))}"
  define k where "k = g_shard_queue g ! 0"
  have wf: "queue_wf g" "sorted (queue_mins g)" "g_shards g \<noteq> []" using less.prems by (simp_all add: timers_inv_def)
  then have kn: "k < ?n" using front_least(1) [OF wf(1,2), of 0] by (simp add: k_def)
  have step: "expire_loop E now err res g =
      (if due_now now (min_deadline (g_shards g ! k)) then
         Option.bind (pop_timers E k now err g)
           (\<lambda>(n, m, g). Option.bind (note_deadline_change k (set_shard k ((g_shards g ! k)\<lparr>min_deadline := m\<rparr>) g))
              (expire_loop E now err (if 0 < n then GRPC_TIMERS_FIRED else res)))
       else Some (res, g))" for res
    unfolding due_now_def k_def by (subst expire_loop.simps) (simp add: Let_def)
  show ?case
  proof (cases "due_now now (min_deadline (g_shards g ! k))")
    case False
    have "\<not> due_now now (min_deadline (g_shards g ! j))" if "j < ?n" for j
      using front_least(2) [OF wf(1,2) that] False now by (auto simp: due_now_def k_def)
    moreover have "expired now err g [] g" using less.prems by (simp add: expired_def fired_def)
    ultimately show ?thesis using False step by (intro exI [of _ "[]"] exI [of _ g]) simp
  next
    case True
    from expire_step [OF less.prems E now k_def, of err] obtain ts m g1 g2 where
      s: "pop_timers E k now err g = Some (length ts, m, g1)"
        "note_deadline_change k (set_shard k ((g_shards g1 ! k)\<lparr>min_deadline := m\<rparr>) g1) = Some g2"
        "expired now err g ts g2" "\<not> due_now now (min_deadline (g_shards g2 ! k))"
        "\<forall>j < ?n. j \<noteq> k \<longrightarrow> min_deadline (g_shards g2 ! j) = min_deadline (g_shards g ! j)" by blast
    have n2: "length (g_shards g2) = ?n" "timers_inv g2" using s(3) by (simp_all add: expired_def)
    have "?due g2 \<subset> ?due g"
    proof
      have "j \<in> ?due g" if "j \<in> ?due g2" for j using that s(4,5) n2(1) by (cases "j = k") auto
      then show "?due g2 \<subseteq> ?due g" by blast
      show "?due g2 \<noteq> ?due g" using True s(4) kn by auto
    qed
    then have "card (?due g2) < card (?due g)" by (intro psubset_card_mono) simp_all
    from less.hyps [OF this n2(2), of "if 0 < length ts then GRPC_TIMERS_FIRED else res"] obtain us g' where
      i: "expire_loop E now err (if 0 < length ts then GRPC_TIMERS_FIRED else res) g2 =
          Some (if us = [] then if 0 < length ts then GRPC_TIMERS_FIRED else res else GRPC_TIMERS_FIRED, g')"
        "expired now err g2 us g'" "\<forall>k < ?n. \<not> due_now now (min_deadline (g_shards g' ! k))" unfolding n2(1) by blast
    have "expire_loop E now err res g = Some (if ts @ us = [] then res else GRPC_TIMERS_FIRED, g')"
      using True s(1,2) i(1) by (simp add: step)
    with expired_trans [OF s(3) i(2)] i(3) show ?thesis by blast
  qed
qed

section \<open>The operations keep the invariant\<close>

text \<open>After a check no shard is due.\<close>

lemma shard_late:
  assumes good: "shard_good n k sh T" and m: "now < min_deadline sh" and t: "t \<in> shard_elems sh"
  shows "now \<le> deadline (T t)"
    and "deadline (T t) = now \<Longrightarrow> t \<in> set (timer_list sh) \<and> queue_deadline_cap sh = now"
    and "min_deadline sh \<le> deadline (T t) + 1"
proof -
  have r: "now \<le> deadline (T t) \<and> (deadline (T t) = now \<longrightarrow> t \<in> set (timer_list sh) \<and> queue_deadline_cap sh = now) \<and>
    min_deadline sh \<le> deadline (T t) + 1"
  proof (cases "t \<in> set (timer_list sh)")
    case True
    then have "queue_deadline_cap sh \<le> deadline (T t)" using good by (simp add: shard_good_def shard_mid_def)
    moreover have "now \<le> queue_deadline_cap sh" "min_deadline sh \<le> queue_deadline_cap sh + 1"
      using m good by (auto simp: shard_good_def saturating_add_def split: if_splits)
    ultimately show ?thesis using True by auto
  next
    case False
    then have "t \<in> set (pending_timers (heap sh))" using t by (simp add: shard_elems_def)
    then have "min_deadline sh \<le> deadline (T t)" using good by (simp add: shard_good_def)
    with m have "now < deadline (T t)" "min_deadline sh \<le> deadline (T t) + 1" by linarith+
    then show ?thesis by (intro conjI impI) simp_all
  qed
  from r show "now \<le> deadline (T t)" "min_deadline sh \<le> deadline (T t) + 1" by blast+
  assume "deadline (T t) = now"
  with r show "t \<in> set (timer_list sh) \<and> queue_deadline_cap sh = now" by (elim conjE) (erule mp)
qed

lemma after_check:
  assumes inv: "timers_inv g" and none: "\<And>k. k < length (g_shards g) \<Longrightarrow> \<not> due_now now (min_deadline (g_shards g ! k))"
    and now: "now < GRPC_MILLIS_INF_FUTURE" and t: "pending (store g t)"
  shows "now \<le> deadline (store g t)"
    and "deadline (store g t) = now \<Longrightarrow>
      t \<in> set (timer_list (g_shards g ! GPR_HASH_POINTER t (length (g_shards g)))) \<and>
      queue_deadline_cap (g_shards g ! GPR_HASH_POINTER t (length (g_shards g))) = now"
proof -
  let ?n = "length (g_shards g)" let ?k = "GPR_HASH_POINTER t ?n" let ?sh = "g_shards g ! ?k"
  have k: "?k < ?n" using inv by (simp add: timers_inv_def hash_less)
  have good: "shard_good ?n ?k ?sh (store g)" and el: "t \<in> shard_elems ?sh"
    using inv k t by (simp_all add: timers_inv_def all_good_def)
  have m: "now < min_deadline ?sh" using none [OF k] now by (auto simp: due_now_def)
  show "now \<le> deadline (store g t)" by (rule shard_late(1) [OF good m el])
  assume "deadline (store g t) = now"
  then show "t \<in> set (timer_list ?sh) \<and> queue_deadline_cap ?sh = now" by (rule shard_late(2) [OF good m el])
qed

text \<open>The same for one shard, between \<open>pop_timers\<close> and the change of its time.\<close>

lemma popped:
  assumes inv: "timers_inv g" and k: "k < length (g_shards g)" and E: "windows_ok E" and now: "now < GRPC_MILLIS_INF_FUTURE"
  shows "\<exists>ts m g'. pop_timers E k now err g = Some (length ts, m, g') \<and> distinct ts \<and>
    set ts = {t. pending (store g t) \<and> \<not> pending (store g' t)} \<and>
    (\<forall>t \<in> set ts. GPR_HASH_POINTER t (length (g_shards g)) = k \<and> deadline (store g t) \<le> now) \<and>
    sorted (map (\<lambda>t. deadline (store g t)) ts) \<and>
    scheduled g' = scheduled g @ map (\<lambda>t. (closure (store g t), err)) ts \<and>
    (\<forall>t. pending (store g' t) \<and> GPR_HASH_POINTER t (length (g_shards g)) = k \<longrightarrow>
       pending (store g t) \<and> now \<le> deadline (store g t) \<and> m \<le> deadline (store g t) + 1 \<and>
       (deadline (store g t) = now \<longrightarrow>
          t \<in> set (timer_list (g_shards g' ! k)) \<and> queue_deadline_cap (g_shards g' ! k) = now)) \<and>
    now < m"
proof -
  let ?n = "length (g_shards g)"
  from pop_timers_ok [OF inv k E, of now err] now obtain ts m sh T where
    p: "pop_timers E k now err g = Some (length ts, m, (set_shard k sh g)\<lparr>store := T,
          scheduled := scheduled g @ map (\<lambda>t. (closure (store g t), err)) ts\<rparr>)"
      "taken ts (g_shards g ! k) (store g) sh T" "\<not> due_now now m"
      "all_good ((set_shard k (sh\<lparr>min_deadline := m\<rparr>) g)\<lparr>store := T\<rparr>)"
      "\<forall>t \<in> set ts. deadline (store g t) \<le> now" "sorted (map (\<lambda>t. deadline (store g t)) ts)" by auto
  let ?g' = "(set_shard k sh g)\<lparr>store := T, scheduled := scheduled g @ map (\<lambda>t. (closure (store g t), err)) ts\<rparr>"
  let ?sh = "sh\<lparr>min_deadline := m\<rparr>"
  note tk = takenD [OF p(2)]
  have good0: "shard_good ?n k (g_shards g ! k) (store g)" using inv k by (simp add: timers_inv_def all_good_def)
  have G: "g_shards ((set_shard k ?sh g)\<lparr>store := T\<rparr>) = (g_shards g)[k := ?sh]" "store ((set_shard k ?sh g)\<lparr>store := T\<rparr>) = T"
    by (simp_all add: set_shard_def)
  note ag = p(4) [unfolded all_good_def G length_list_update]
  have good: "shard_good ?n k ?sh T" using ag [THEN conjunct1, rule_format, OF k] k by simp
  have el: "t \<in> shard_elems ?sh" if "pending (T t)" "GPR_HASH_POINTER t ?n = k" for t
    using ag [THEN conjunct2, rule_format, OF that(1)] k unfolding that(2) by simp
  have m: "now < min_deadline ?sh" using p(3) now by (auto simp: due_now_def)
  have here: "pending (store g t) \<and> GPR_HASH_POINTER t ?n = k" if "t \<in> set ts" for t
    using that tk(3) good0 by (auto simp: shard_good_def)
  have late: "pending (store g t) \<and> now \<le> deadline (store g t) \<and> m \<le> deadline (store g t) + 1 \<and>
      (deadline (store g t) = now \<longrightarrow> t \<in> set (timer_list sh) \<and> queue_deadline_cap sh = now)"
    if "pending (T t)" "GPR_HASH_POINTER t ?n = k" for t
    using shard_late [OF good m el [OF that]] that(1) firedD [OF tk(2), of t] by simp
  have gone: "set ts = {t. pending (store g t) \<and> \<not> pending (T t)}" using here firedD(3) [OF tk(2)] by blast
  have g': "store ?g' = T" "g_shards ?g' ! k = sh" "scheduled ?g' = scheduled g @ map (\<lambda>t. (closure (store g t), err)) ts"
    using k by (simp_all add: set_shard_def)
  have "now < m" using m by simp
  then show ?thesis
    using p(1,5,6) tk(4) here late gone
    by (intro exI [of _ ts] exI [of _ m] exI [of _ ?g']) (unfold g', blast)
qed

lemma inv_globals [simp]:
  "timers_inv (g\<lparr>min_timer := m\<rparr>) = timers_inv g" "timers_inv (g\<lparr>g_last_seen_min_timer := m\<rparr>) = timers_inv g"
  "timers_inv (g\<lparr>kicks := j\<rparr>) = timers_inv g"
  by (simp_all add: timers_inv_def all_good_def queue_wf_def queue_mins_def)

text \<open>What a run of the expired timers gives.\<close>

lemma run_ok:
  assumes ok: "timers_ok g" and E: "windows_ok E" and now: "now \<le> GRPC_MILLIS_INF_FUTURE" and mu: "\<not> checker_mu g"
  shows "\<exists>ts next' g'. run_some_expired_timers E now next err g =
      Some (if ts = [] then GRPC_TIMERS_CHECKED_AND_EMPTY else GRPC_TIMERS_FIRED, next', g') \<and>
    timers_ok g' \<and> expired now err g ts g' \<and> (\<forall>k < length (g_shards g). \<not> due_now now (min_deadline (g_shards g' ! k)))"
proof -
  let ?g = "g\<lparr>g_last_seen_min_timer := min_timer g\<rparr>"
  have inv: "timers_inv ?g" and le: "\<And>k. k < length (g_shards g) \<Longrightarrow> min_timer g \<le> min_deadline (g_shards g ! k)"
    using ok by (simp_all add: timers_ok_def)
  show ?thesis
  proof (cases "now < min_timer g")
    case True
    have "\<not> due_now now (min_deadline (g_shards g ! k))" if "k < length (g_shards g)" for k
      using le [OF that] True by (auto simp: due_now_def)
    moreover have "expired now err g [] ?g" using inv by (simp add: expired_def fired_def)
    moreover have "timers_ok ?g" using ok by (simp add: timers_ok_def)
    ultimately show ?thesis using True
      by (intro exI [of _ "[]"] exI [of _ "map_option (\<lambda>x. min x (min_timer g)) next"] exI [of _ ?g])
         (simp add: run_some_expired_timers_def Let_def)
  next
    case False
    from expire_loop_ok [OF inv E now, of err GRPC_TIMERS_CHECKED_AND_EMPTY] obtain ts g' where
      l: "expire_loop E now err GRPC_TIMERS_CHECKED_AND_EMPTY ?g =
            Some (if ts = [] then GRPC_TIMERS_CHECKED_AND_EMPTY else GRPC_TIMERS_FIRED, g')"
        "expired now err ?g ts g'" "\<forall>k < length (g_shards g). \<not> due_now now (min_deadline (g_shards g' ! k))" by auto
    let ?m = "min_deadline (g_shards g' ! (g_shard_queue g' ! 0))"
    have inv': "timers_inv g'" "length (g_shards g') = length (g_shards g)" using l(2) by (simp_all add: expired_def)
    then have "timers_ok (g'\<lparr>min_timer := ?m\<rparr>)"
      using front_least(2) [of g'] by (simp add: timers_ok_def timers_inv_def all_good_def)
    moreover have "expired now err g ts (g'\<lparr>min_timer := ?m\<rparr>)" using l(2) by (simp add: expired_def)
    ultimately show ?thesis using False mu l(1,3)
      by (intro exI [of _ ts] exI [of _ "map_option (\<lambda>x. min x ?m) next"] exI [of _ "g'\<lparr>min_timer := ?m\<rparr>"])
         (simp add: run_some_expired_timers_def Let_def)
  qed
qed

section \<open>Starting a timer\<close>

text \<open>The shard of the timer has room for one more.\<close>

definition timer_fits :: "'d timer_globals \<Rightarrow> timer_ptr \<Rightarrow> bool" where
  "timer_fits g t \<longleftrightarrow>
     (let sh = g_shards g ! GPR_HASH_POINTER t (length (g_shards g))
      in timer_count (heap sh) + length (timer_list sh) + 2 < 2 ^ 31)"

text \<open>The timer \<open>t\<close> has been started at \<open>now\<close>: it is pending, or its closure has been scheduled.\<close>

definition started :: "timer_ptr \<Rightarrow> grpc_millis \<Rightarrow> nat \<Rightarrow> grpc_millis \<Rightarrow> 'd timer_globals \<Rightarrow> 'd timer_globals \<Rightarrow> bool" where
  "started t dl cl now g g' \<longleftrightarrow>
     (\<forall>x. x \<noteq> t \<longrightarrow> deadline (store g' x) = deadline (store g x) \<and> closure (store g' x) = closure (store g x) \<and>
        (pending (store g' x) \<longleftrightarrow> pending (store g x))) \<and>
     deadline (store g' t) = dl \<and> closure (store g' t) = cl \<and> (pending (store g' t) \<longleftrightarrow> now < dl) \<and>
     scheduled g' = scheduled g @ (if dl \<le> now then [(cl, GRPC_ERROR_NONE)] else []) \<and>
     checker_mu g' = checker_mu g"

lemma store_good:
  assumes g: "all_good g" and T: "\<And>x. x \<noteq> t \<Longrightarrow> T x = store g x" and t: "\<not> pending (T t)" "\<not> pending (store g t)"
  shows "all_good (g\<lparr>store := T\<rparr>)"
proof -
  have "shard_good (length (g_shards g)) k (g_shards g ! k) T" if k: "k < length (g_shards g)" for k
  proof (rule shard_good_frame)
    show gk: "shard_good (length (g_shards g)) k (g_shards g ! k) (store g)" using g k by (simp add: all_good_def)
    fix x assume "x \<in> shard_elems (g_shards g ! k)"
    with gk t(2) have "x \<noteq> t" by (auto simp: shard_good_def)
    then show "T x = store g x" by (rule T)
  qed
  moreover have "x \<in> shard_elems (g_shards g ! GPR_HASH_POINTER x (length (g_shards g)))" if "pending (T x)" for x
  proof -
    have "x \<noteq> t" using that t(1) by blast
    with that T [of x] g show ?thesis by (simp add: all_good_def)
  qed
  ultimately show ?thesis by (simp add: all_good_def)
qed

lemma same_shard_queue:
  assumes "queue_wf g" "k < length (g_shards g)" "shard_queue_index sh = shard_queue_index (g_shards g ! k)"
    and "min_deadline sh = min_deadline (g_shards g ! k)"
  shows "queue_wf (set_shard k sh g)" "queue_mins (set_shard k sh g) = queue_mins g"
  using set_shard_queue [OF assms(1-3)] queue_index [OF assms(1,2)] queue_mins_nth(1) [OF assms(1), of "shard_queue_index (g_shards g ! k)"]
    assms(4) by (simp_all add: list_update_same_conv queue_mins_nth(2) [OF assms(1)])

lemma set_shard_ok:
  assumes ok: "timers_ok g" and k: "k < length (g_shards g)" and ix: "shard_queue_index sh = shard_queue_index (g_shards g ! k)"
    and m: "min_deadline sh = min_deadline (g_shards g ! k)" and good: "all_good ((set_shard k sh g)\<lparr>store := T\<rparr>)"
  shows "timers_ok ((set_shard k sh g)\<lparr>store := T, scheduled := out\<rparr>)"
proof -
  have "queue_wf g" using ok by (simp add: timers_ok_def timers_inv_def)
  note q = same_shard_queue [OF this k ix m]
  have "all_good ((set_shard k sh g)\<lparr>store := T, scheduled := out\<rparr>)" using good by (simp add: all_good_def)
  moreover have "min_timer g \<le> min_deadline ((g_shards g)[k := sh] ! j)" if "j < length (g_shards g)" for j
    using ok that k m by (cases "j = k") (simp_all add: timers_ok_def)
  ultimately show ?thesis using ok q by (simp add: timers_ok_def timers_inv_def) (simp add: set_shard_def)
qed

lemma heap_insert_good:
  assumes good: "shard_good n k sh T" and t: "GPR_HASH_POINTER t n = k" "\<not> pending (T t)"
    and fits: "timer_count (heap sh) + length (timer_list sh) + 2 < 2 ^ 31" and cap: "dl < queue_deadline_cap sh"
    and T1: "T1 = T(t := x)" "deadline x = dl" "pending x"
  shows "\<exists>b h T'. grpc_timer_heap_add fresh (heap sh) T1 t = Some (b, h, T') \<and> same_timers T1 T' \<and>
    (\<forall>y. y \<noteq> t \<and> y \<notin> shard_elems sh \<longrightarrow> T' y = T y) \<and> shard_elems (sh\<lparr>heap := h\<rparr>) = insert t (shard_elems sh) \<and>
    (\<not> b \<longrightarrow> min_deadline sh \<le> dl) \<and>
    (\<forall>m s. m \<le> dl \<and> m \<le> min_deadline sh \<longrightarrow> shard_good n k (sh\<lparr>stats := s, heap := h, min_deadline := m\<rparr>) T')"
proof -
  have wf: "shard_wf sh T" and pe: "\<forall>u \<in> shard_elems sh. pending (T u) \<and> GPR_HASH_POINTER u n = k"
    and md: "\<forall>u \<in> set (pending_timers (heap sh)). min_deadline sh \<le> deadline (T u)"
    using good by (simp_all add: shard_good_def)
  have tn: "t \<notin> shard_elems sh" using pe t(2) by blast
  have T1e: "T1 y = T y" if "y \<in> shard_elems sh" for y using that tn T1(1) by auto
  have h1: "timer_heap_wf (heap sh, T1)"
    by (rule heap_wf_cong [of "heap sh" T]) (use wf T1e in \<open>auto simp: shard_mid_def shard_elems_def\<close>)
  have tp: "t \<notin> pending_set (heap sh, T1)" using tn by (simp add: pending_set_def shard_elems_def)
  have "timer_count (heap sh) + 1 < 2 ^ 31" using fits by simp
  from heap_add [OF h1 tp this, of fresh] obtain b h T' where
    a: "grpc_timer_heap_add fresh (heap sh) T1 t = Some (b, h, T')" "timer_heap_wf (h, T')"
      "pending_set (h, T') = insert t (pending_set (heap sh, T1))"
      "\<forall>x. x \<notin> insert t (pending_set (heap sh, T1)) \<longrightarrow> T' x = T1 x" "timer_count h = timer_count (heap sh) + 1"
      "b \<longleftrightarrow> (\<forall>x \<in> pending_set (heap sh, T1). deadline (T1 t) < deadline (T1 x))" by blast
  note same = heap_add_same [OF a(1)]
  have hs: "set (pending_timers h) = insert t (set (pending_timers (heap sh)))" using a(3) by (simp add: pending_set_def)
  have T'o: "T' y = T1 y" if "y \<noteq> t" "y \<notin> set (pending_timers (heap sh))" for y
    using a(4) that by (simp add: pending_set_def)
  have T'd: "deadline (T' y) = deadline (T y)" "pending (T' y) = pending (T y)" if "y \<in> shard_elems sh" for y
    using same_timersD [OF same, of y] T1e [OF that] by simp_all
  have T't: "deadline (T' t) = dl" "pending (T' t)" using same_timersD [OF same, of t] T1 by simp_all
  have good': "shard_good n k (sh\<lparr>stats := s, heap := h, min_deadline := m\<rparr>) T'" if m: "m \<le> dl" "m \<le> min_deadline sh" for m s
  proof -
    let ?sh = "sh\<lparr>stats := s, heap := h, min_deadline := m\<rparr>"
    have "heap_index (T' u) = INVALID_HEAP_INDEX \<and> queue_deadline_cap sh \<le> deadline (T' u)"
      if "u \<in> set (timer_list sh)" for u
    proof -
      have "u \<noteq> t" "u \<notin> set (pending_timers (heap sh))" "u \<in> shard_elems sh"
        using that tn wf by (auto simp: shard_elems_def shard_mid_def)
      then have "T' u = T u" using T'o T1e by simp
      with that wf show ?thesis by (simp add: shard_mid_def)
    qed
    moreover have "deadline (T' u) < queue_deadline_cap sh \<and> m \<le> deadline (T' u)" if "u \<in> set (pending_timers h)" for u
    proof (cases "u = t")
      case False
      then have u: "u \<in> set (pending_timers (heap sh))" using that hs by simp
      then have "deadline (T u) < queue_deadline_cap sh" "min_deadline sh \<le> deadline (T u)" "u \<in> shard_elems sh"
        using wf md by (simp_all add: shard_mid_def shard_elems_def)
      with m(2) show ?thesis by (simp add: T'd)
    qed (use T't cap m(1) in simp)
    moreover have "pending (T' u) \<and> GPR_HASH_POINTER u n = k" if "u \<in> shard_elems ?sh" for u
      using that hs pe T'd(2) [of u] T't t(1) by (auto simp: shard_elems_def)
    moreover have "t \<notin> set (timer_list sh)" using tn by (simp add: shard_elems_def)
    ultimately show ?thesis
      using a(2,5) hs good fits m(2) by (simp add: shard_good_def shard_mid_def)
  qed
  have "min_deadline sh \<le> dl" if "\<not> b"
  proof -
    from that a(6) T1 obtain u where u: "u \<in> pending_set (heap sh, T1)" "deadline (T1 u) \<le> dl" by force
    then have "u \<in> set (pending_timers (heap sh))" by (simp add: pending_set_def)
    with u(2) md T1e [of u] show ?thesis by (force simp: shard_elems_def)
  qed
  moreover have "T' y = T y" if "y \<noteq> t" "y \<notin> shard_elems sh" for y
    using that T'o [of y] T1(1) by (simp add: shard_elems_def)
  moreover have "shard_elems (sh\<lparr>heap := h\<rparr>) = insert t (shard_elems sh)" using hs by (auto simp: shard_elems_def)
  ultimately show ?thesis using a(1) same good' by blast
qed

lemma list_insert_good:
  assumes good: "shard_good n k sh T" and t: "GPR_HASH_POINTER t n = k" "\<not> pending (T t)"
    and fits: "timer_count (heap sh) + length (timer_list sh) + 2 < 2 ^ 31" and cap: "queue_deadline_cap sh \<le> dl"
    and T1: "T1 = T(t := x)" "deadline x = dl" "pending x" "heap_index x = INVALID_HEAP_INDEX"
  shows "shard_good n k (sh\<lparr>stats := s, timer_list := list_join (timer_list sh) t\<rparr>) T1"
    and "shard_elems (sh\<lparr>stats := s, timer_list := list_join (timer_list sh) t\<rparr>) = insert t (shard_elems sh)"
proof -
  let ?sh = "sh\<lparr>stats := s, timer_list := list_join (timer_list sh) t\<rparr>"
  have tn: "t \<notin> shard_elems sh" using good t(2) by (auto simp: shard_good_def)
  have Te: "T1 y = T y" if "y \<in> shard_elems sh" for y using that tn T1(1) by auto
  have t1: "T1 t = x" using T1(1) by simp
  have "shard_wf sh T" using good by (simp add: shard_good_def)
  then have w: "shard_wf sh T1" by (rule shard_mid_cong) (simp add: Te)
  show el: "shard_elems ?sh = insert t (shard_elems sh)" by (auto simp: shard_elems_def list_join_def)
  have "shard_wf ?sh T1" using w tn fits cap T1(2,4) t1 by (auto simp: shard_mid_def list_join_def shard_elems_def)
  moreover have "min_deadline sh \<le> deadline (T1 u)" if "u \<in> set (pending_timers (heap sh))" for u
    using that good Te [of u] by (simp add: shard_good_def shard_elems_def)
  moreover have "pending (T1 u) \<and> GPR_HASH_POINTER u n = k" if "u \<in> shard_elems ?sh" for u
    using that good Te [of u] t(1) t1 T1(3) unfolding el by (auto simp: shard_good_def)
  ultimately show "shard_good n k ?sh T1" using good by (simp add: shard_good_def)
qed

text \<open>The shard comes to its place in the queue, and the time of the next timer stays a lower bound.\<close>

lemma note_first_ok:
  assumes ok: "timers_ok g" and k: "k < length (g_shards g)" and ix: "shard_queue_index sh = shard_queue_index (g_shards g ! k)"
    and m: "min_deadline sh = min_deadline (g_shards g ! k)"
    and good: "\<And>m. m \<le> dl \<Longrightarrow> m \<le> min_deadline sh \<Longrightarrow> all_good ((set_shard k (sh\<lparr>min_deadline := m\<rparr>) g)\<lparr>store := T\<rparr>)"
    and g1: "g1 = (set_shard k sh g)\<lparr>store := T, scheduled := scheduled g\<rparr>"
  shows "\<exists>g'. note_first_timer k dl g1 = Some g' \<and> timers_ok g' \<and> store g' = T \<and> scheduled g' = scheduled g \<and>
    checker_mu g' = checker_mu g"
proof (cases "dl < min_deadline sh")
  case False
  have "all_good ((set_shard k (sh\<lparr>min_deadline := min_deadline sh\<rparr>) g)\<lparr>store := T\<rparr>)" using False by (intro good) simp_all
  then have "timers_ok g1" unfolding g1 by (intro set_shard_ok [OF ok k ix m]) simp
  moreover have "note_first_timer k dl g1 = Some g1" using False k by (simp add: note_first_timer_def g1 set_shard_def)
  ultimately show ?thesis by (simp add: g1) (simp add: set_shard_def)
next
  case True
  let ?sh = "sh\<lparr>min_deadline := dl\<rparr>" let ?g2 = "(set_shard k ?sh g)\<lparr>store := T, scheduled := scheduled g\<rparr>"
  have inv: "timers_inv g" and le: "\<And>j. j < length (g_shards g) \<Longrightarrow> min_timer g \<le> min_deadline (g_shards g ! j)"
    using ok by (simp_all add: timers_ok_def)
  have "all_good ((set_shard k ?sh g)\<lparr>store := T\<rparr>)" using True by (intro good) simp_all
  from rebalanced [OF inv k _ this refl, of "scheduled g"] ix obtain g' where
    r: "note_deadline_change k ?g2 = Some g'" "requeued ?g2 g'" "timers_inv g'" by auto
  note d = requeuedD [OF r(2)]
  have n: "length (g_shards g') = length (g_shards g)" using d(2) by (simp add: set_shard_def)
  have md: "min_deadline (g_shards g' ! j) = (if j = k then dl else min_deadline (g_shards g ! j))"
    if "j < length (g_shards g)" for j
    using same_but_index(4) [OF d(10), of j] that k by (simp add: set_shard_def nth_list_update)
  have wf': "queue_wf g'" "sorted (queue_mins g')" using r(3) by (simp_all add: timers_inv_def)
  let ?old = "min_deadline (g_shards g1 ! (g_shard_queue g1 ! 0))"
  let ?c = "shard_queue_index (g_shards g' ! k) = 0 \<and> dl < ?old"
  have nt: "note_first_timer k dl g1 = Some (if ?c then g'\<lparr>min_timer := dl, kicks := kicks g' + 1\<rparr> else g')"
  proof -
    have "set_shard k ((g_shards g1 ! k)\<lparr>min_deadline := dl\<rparr>) g1 = ?g2" using k by (simp add: g1 set_shard_def)
    then show ?thesis using True k r(1) unfolding note_first_timer_def by (simp add: g1) (simp add: set_shard_def)
  qed
  have k': "k < length (g_shards g')" using k n by simp
  have front: "g_shard_queue g' ! 0 < length (g_shards g)" "\<And>j. j < length (g_shards g) \<Longrightarrow>
      min_deadline (g_shards g' ! (g_shard_queue g' ! 0)) \<le> min_deadline (g_shards g' ! j)"
    using front_least [OF wf'] k n by auto
  have fk: "g_shard_queue g' ! 0 = k \<longleftrightarrow> shard_queue_index (g_shards g' ! k) = 0"
  proof
    assume "g_shard_queue g' ! 0 = k"
    moreover have "0 < length (g_shards g')" using k' by (cases "g_shards g'") simp_all
    ultimately show "shard_queue_index (g_shards g' ! k) = 0" using wf'(1) unfolding queue_wf_def by metis
  next
    assume "shard_queue_index (g_shards g' ! k) = 0"
    with queue_index(2) [OF wf'(1) k'] show "g_shard_queue g' ! 0 = k" by simp
  qed
  have low: "min_timer (if ?c then g'\<lparr>min_timer := dl, kicks := kicks g' + 1\<rparr> else g') \<le> min_deadline (g_shards g' ! j)"
    if j: "j < length (g_shards g)" for j
  proof (cases ?c)
    case True
    with front(2) [OF j] md [OF k] fk show ?thesis by simp
  next
    case False
    have "min_timer g \<le> min_deadline (g_shards g' ! (g_shard_queue g' ! 0))"
    proof (cases "g_shard_queue g' ! 0 = k")
      case True
      have q: "g_shard_queue g ! 0 < length (g_shards g)"
        using front_least(1) [of g k] inv k by (simp add: timers_inv_def)
      have "?old = min_deadline (g_shards g ! (g_shard_queue g ! 0))"
        using k m q by (simp add: g1 set_shard_def nth_list_update)
      with True False fk have "min_deadline (g_shards g ! (g_shard_queue g ! 0)) \<le> dl" by simp
      with le [OF q] True md [OF k] show ?thesis by simp
    qed (use md [OF front(1)] le [OF front(1)] in simp)
    moreover have "min_timer g' = min_timer g" using d(5) by (simp add: set_shard_def)
    ultimately show ?thesis using False front(2) [OF j] by auto
  qed
  define r' where "r' = (if ?c then g'\<lparr>min_timer := dl, kicks := kicks g' + 1\<rparr> else g')"
  have "timers_inv r'" "g_shards r' = g_shards g'" using r(3) by (simp_all add: r'_def)
  with low n have "timers_ok r'" unfolding timers_ok_def r'_def [symmetric] by simp
  then have "timers_ok (if ?c then g'\<lparr>min_timer := dl, kicks := kicks g' + 1\<rparr> else g')" unfolding r'_def .
  then show ?thesis using nt d(3,4,6) by (simp add: set_shard_def)
qed

lemma timer_init_ok:
  assumes ok: "timers_ok g" and t: "\<not> pending (store g t)" and fits: "timer_fits g t"
  shows "\<exists>g'. timer_init E t dl cl now g = Some g' \<and> timers_ok g' \<and> started t dl cl now g g'"
proof -
  let ?n = "length (g_shards g)" let ?k = "GPR_HASH_POINTER t ?n" let ?sh = "g_shards g ! ?k"
  have inv: "timers_inv g" using ok by (simp add: timers_ok_def)
  then have k: "?k < ?n" and i: "initialized g" and ag: "all_good g" by (simp_all add: timers_inv_def hash_less)
  then have good: "shard_good ?n ?k ?sh (store g)" by (simp add: all_good_def)
  let ?x = "(store g t)\<lparr>closure := cl, deadline := dl\<rparr>"
  let ?s = "grpc_time_averaged_stats_add_sample (stats ?sh) (to_double E (dl - now) / to_double E 1000)"
  consider "dl \<le> now" | "now < dl" "queue_deadline_cap ?sh \<le> dl" | "now < dl" "dl < queue_deadline_cap ?sh" by linarith
  then show ?thesis
  proof cases
    case 1
    let ?T = "(store g)(t := ?x\<lparr>pending := False\<rparr>)"
    have "all_good (g\<lparr>store := ?T\<rparr>)" using t by (intro store_good [OF ag, of t]) simp_all
    then have "timers_ok (g\<lparr>store := ?T, scheduled := scheduled g @ [(cl, GRPC_ERROR_NONE)]\<rparr>)"
      using ok by (simp add: timers_ok_def timers_inv_def all_good_def)
    moreover have "timer_init E t dl cl now g = Some (g\<lparr>store := ?T, scheduled := scheduled g @ [(cl, GRPC_ERROR_NONE)]\<rparr>)"
      using 1 i by (simp add: timer_init_def Let_def update_timer_def sched_closure_def)
    ultimately show ?thesis using 1 by (simp add: started_def)
  next
    case 2
    let ?T = "(store g)(t := ?x\<lparr>pending := True, heap_index := INVALID_HEAP_INDEX\<rparr>)"
    let ?sh' = "?sh\<lparr>stats := ?s, timer_list := list_join (timer_list ?sh) t\<rparr>"
    have f: "timer_count (heap ?sh) + length (timer_list ?sh) + 2 < 2 ^ 31" using fits by (simp add: timer_fits_def Let_def)
    note l = list_insert_good [OF good refl t f 2(2) refl, of "?x\<lparr>pending := True, heap_index := INVALID_HEAP_INDEX\<rparr>" ?s]
    have el: "shard_elems ?sh' = insert t (shard_elems ?sh)" by (rule l) simp_all
    have "shard_good ?n ?k ?sh' ?T" by (rule l) simp_all
    then have "all_good ((set_shard ?k ?sh' g)\<lparr>store := ?T\<rparr>)"
    proof (rule set_shard_good [OF ag k])
      show "?T y = store g y" if "GPR_HASH_POINTER y ?n \<noteq> ?k" for y using that by auto
      show "y \<in> shard_elems ?sh'" if "GPR_HASH_POINTER y ?n = ?k" "pending (?T y)" for y
        unfolding el using that ag by (cases "y = t") (auto simp: all_good_def)
    qed
    then have "timers_ok ((set_shard ?k ?sh' g)\<lparr>store := ?T, scheduled := scheduled g\<rparr>)"
      by (intro set_shard_ok [OF ok k]) simp_all
    moreover have "timer_init E t dl cl now g = Some ((set_shard ?k ?sh' g)\<lparr>store := ?T, scheduled := scheduled g\<rparr>)"
      using 2 i k by (simp add: timer_init_def Let_def update_timer_def set_shard_def)
    ultimately show ?thesis using 2(1) by (simp add: started_def) (simp add: set_shard_def)
  next
    case 3
    let ?T = "(store g)(t := ?x\<lparr>pending := True\<rparr>)"
    have f: "timer_count (heap ?sh) + length (timer_list ?sh) + 2 < 2 ^ 31" using fits by (simp add: timer_fits_def Let_def)
    from heap_insert_good [OF good refl t f 3(2) refl, of "?x\<lparr>pending := True\<rparr>" "fresh_word E"] obtain b h T' where
      a: "grpc_timer_heap_add (fresh_word E) (heap ?sh) ?T t = Some (b, h, T')" "same_timers ?T T'"
        "\<forall>y. y \<noteq> t \<and> y \<notin> shard_elems ?sh \<longrightarrow> T' y = store g y" "shard_elems (?sh\<lparr>heap := h\<rparr>) = insert t (shard_elems ?sh)"
        "\<not> b \<longrightarrow> min_deadline ?sh \<le> dl"
        "\<forall>m s. m \<le> dl \<and> m \<le> min_deadline ?sh \<longrightarrow> shard_good ?n ?k (?sh\<lparr>stats := s, heap := h, min_deadline := m\<rparr>) T'"
      by auto
    note same = same_timersD [OF a(2)]
    let ?sh' = "?sh\<lparr>stats := ?s, heap := h\<rparr>"
    have good': "all_good ((set_shard ?k (?sh'\<lparr>min_deadline := m\<rparr>) g)\<lparr>store := T'\<rparr>)"
      if m: "m \<le> dl" "m \<le> min_deadline ?sh'" for m
    proof (rule set_shard_good [OF ag k])
      show "shard_good ?n ?k (?sh'\<lparr>min_deadline := m\<rparr>) T'" using a(6) m by simp
      show "T' y = store g y" if "GPR_HASH_POINTER y ?n \<noteq> ?k" for y
        using that a(3) good by (auto simp: shard_good_def)
      have el: "shard_elems (?sh'\<lparr>min_deadline := m\<rparr>) = insert t (shard_elems ?sh)" using a(4) by (simp add: shard_elems_def)
      show "y \<in> shard_elems (?sh'\<lparr>min_deadline := m\<rparr>)" if "GPR_HASH_POINTER y ?n = ?k" "pending (T' y)" for y
        unfolding el using that ag same(2) [of y] by (cases "y = t") (auto simp: all_good_def)
    qed
    let ?g1 = "(set_shard ?k ?sh' g)\<lparr>store := T', scheduled := scheduled g\<rparr>"
    have "timer_init E t dl cl now g = (if b then note_first_timer ?k dl ?g1 else Some ?g1)"
      using 3 i k a(1) by (simp add: timer_init_def Let_def update_timer_def set_shard_def)
    moreover have "\<exists>g'. (if b then note_first_timer ?k dl ?g1 else Some ?g1) = Some g' \<and> timers_ok g' \<and> store g' = T' \<and>
        scheduled g' = scheduled g \<and> checker_mu g' = checker_mu g"
    proof (cases b)
      case True
      then show ?thesis using note_first_ok [OF ok k _ _ good' refl] by simp
    next
      case False
      have "all_good ((set_shard ?k (?sh'\<lparr>min_deadline := min_deadline ?sh\<rparr>) g)\<lparr>store := T'\<rparr>)"
        using a(5) False by (intro good') simp_all
      then have "timers_ok ?g1" by (intro set_shard_ok [OF ok k]) simp_all
      with False show ?thesis by (simp add: set_shard_def)
    qed
    moreover have "started t dl cl now g g'" if "store g' = T'" "scheduled g' = scheduled g" "checker_mu g' = checker_mu g" for g'
      using that 3(1) same by (simp add: started_def)
    ultimately show ?thesis by metis
  qed
qed

section \<open>Cancelling a timer\<close>

lemma taken_ok:
  assumes ok: "timers_ok g" and k: "k < length (g_shards g)" and tk: "taken ts (g_shards g ! k) (store g) sh T"
    and cap: "queue_deadline_cap sh = queue_deadline_cap (g_shards g ! k)"
    and sub: "set (pending_timers (heap sh)) \<subseteq> set (pending_timers (heap (g_shards g ! k)))"
  shows "timers_ok ((set_shard k sh g)\<lparr>store := T, scheduled := out\<rparr>)"
proof -
  have good: "shard_good (length (g_shards g)) k (g_shards g ! k) (store g)" and ag: "all_good g"
    using ok k by (simp_all add: timers_ok_def timers_inv_def all_good_def)
  have m: "min_deadline sh = min_deadline (g_shards g ! k)" "shard_queue_index sh = shard_queue_index (g_shards g ! k)"
    using takenD(7) [OF tk] by (simp_all add: same_place_def)
  have "all_good ((set_shard k (sh\<lparr>min_deadline := min_deadline sh\<rparr>) g)\<lparr>store := T\<rparr>)"
    using good cap sub m(1) firedD(1) [OF takenD(2) [OF tk]]
    by (intro taken_all_good [OF ag k tk]) (auto simp: shard_good_def)
  then show ?thesis by (intro set_shard_ok [OF ok k m(2,1)]) simp
qed

lemma timer_cancel_ok:
  assumes ok: "timers_ok g"
  shows "\<exists>g'. timer_cancel t g = Some g' \<and> timers_ok g' \<and> fired {t} (store g) (store g') \<and>
    scheduled g' = scheduled g @ (if pending (store g t) then [(closure (store g t), GRPC_ERROR_CANCELLED)] else []) \<and>
    checker_mu g' = checker_mu g"
proof -
  let ?n = "length (g_shards g)" let ?k = "GPR_HASH_POINTER t ?n" let ?sh = "g_shards g ! ?k"
  have inv: "timers_inv g" using ok by (simp add: timers_ok_def)
  then have k: "?k < ?n" and i: "initialized g" and ag: "all_good g" by (simp_all add: timers_inv_def hash_less)
  then have "shard_good ?n ?k ?sh (store g)" by (simp add: all_good_def)
  then have wf: "shard_wf ?sh (store g)" by (simp add: shard_good_def)
  let ?T = "(store g)(t := (store g t)\<lparr>pending := False\<rparr>)"
  let ?out = "scheduled g @ [(closure (store g t), GRPC_ERROR_CANCELLED)]"
  show ?thesis
  proof (cases "pending (store g t)")
    case False
    then have "timer_cancel t g = Some g" by (simp add: timer_cancel_def Let_def)
    with ok False show ?thesis by (auto simp: fired_def)
  next
    case True
    then have el: "t \<in> shard_elems ?sh" using ag by (simp add: all_good_def)
    note ix = invalid_index [OF wf el]
    show ?thesis
    proof (cases "t \<in> set (timer_list ?sh)")
      case inlist: True
      let ?sh' = "?sh\<lparr>timer_list := list_remove t (timer_list ?sh)\<rparr>"
      note tk = taken_from_list [OF wf inlist]
      have "timer_cancel t g = Some ((set_shard ?k ?sh' g)\<lparr>store := ?T, scheduled := ?out\<rparr>)"
        using True i ix inlist by (simp add: timer_cancel_def Let_def update_timer_def sched_closure_def set_shard_def)
      moreover have "timers_ok ((set_shard ?k ?sh' g)\<lparr>store := ?T, scheduled := ?out\<rparr>)"
        by (rule taken_ok [OF ok k tk]) simp_all
      ultimately show ?thesis using True takenD(2) [OF tk] by (simp add: set_shard_def)
    next
      case False
      then have "t \<in> set (pending_timers (heap ?sh))" using el by (simp add: shard_elems_def)
      from taken_from_heap [OF wf this] obtain h T' where
        r: "grpc_timer_heap_remove (heap ?sh) ?T t = Some (h, T')" and tk: "taken [t] ?sh (store g) (?sh\<lparr>heap := h\<rparr>) T'"
        by blast
      have "set (pending_timers h) \<subseteq> shard_elems ?sh - {t}"
        using takenD(5) [OF tk] by (auto simp: shard_elems_def)
      moreover have "set (pending_timers h) \<inter> set (timer_list ?sh) = {}" using takenD(1) [OF tk] by (simp add: shard_mid_def)
      ultimately have "set (pending_timers h) \<subseteq> set (pending_timers (heap ?sh))" by (auto simp: shard_elems_def)
      then have "timers_ok ((set_shard ?k (?sh\<lparr>heap := h\<rparr>) g)\<lparr>store := T', scheduled := ?out\<rparr>)"
        by (intro taken_ok [OF ok k tk]) simp_all
      moreover have "timer_cancel t g = Some ((set_shard ?k (?sh\<lparr>heap := h\<rparr>) g)\<lparr>store := T', scheduled := ?out\<rparr>)"
        using True i ix False r
        by (simp add: timer_cancel_def Let_def update_timer_def sched_closure_def set_shard_def)
      ultimately show ?thesis using True takenD(2) [OF tk] by (simp add: set_shard_def)
    qed
  qed
qed

section \<open>Starting and checking\<close>

lemma timer_list_init_ok:
  assumes "\<And>t. \<not> pending (store g t)" and now: "now \<le> GRPC_MILLIS_INF_FUTURE"
  shows "timers_ok (timer_list_init E g cores now)"
proof -
  let ?g = "timer_list_init E g cores now" let ?n = "GPR_CLAMP (2 * cores) 1 32"
  have n: "0 < ?n" by (simp add: GPR_CLAMP_def)
  have sh: "length (g_shards ?g) = ?n" "g_shard_queue ?g = [0..<?n]" "store ?g = store g" "min_timer ?g = now" "initialized ?g"
    by (simp_all add: timer_list_init_def Let_def)
  have sk: "heap (g_shards ?g ! k) = grpc_timer_heap_init" "timer_list (g_shards ?g ! k) = []"
    "queue_deadline_cap (g_shards ?g ! k) = now" "min_deadline (g_shards ?g ! k) = saturating_add now 1"
    "shard_queue_index (g_shards ?g ! k) = k" if "k < ?n" for k
    using that by (simp_all add: timer_list_init_def Let_def compute_min_deadline_def grpc_timer_heap_is_empty_def
        grpc_timer_heap_init_def)
  have "shard_good ?n k (g_shards ?g ! k) (store g)" if "k < ?n" for k
    using sk [OF that] heap_init_wf(1) [of "store g"] now
    by (simp add: shard_good_def shard_mid_def shard_elems_def pending_timers_def grpc_timer_heap_init_def)
  then have "all_good ?g" using assms(1) by (simp add: all_good_def sh)
  moreover have "queue_wf ?g" using sk by (simp add: queue_wf_def sh)
  moreover have "queue_mins ?g = replicate ?n (saturating_add now 1)"
    by (rule nth_equalityI) (use sk in \<open>simp_all add: queue_mins_def sh\<close>)
  moreover have "now \<le> saturating_add now 1" using now by (simp add: saturating_add_ge)
  moreover have "g_shards ?g \<noteq> []" using n sh(1) by (metis length_greater_0_conv)
  ultimately show ?thesis using sk by (simp add: timers_ok_def timers_inv_def sh)
qed

end
