(* ===== verification/Timer_Run.thy ===== *)
theory Timer_Run
  imports Timers_Spec "HOL-Library.Multiset"
begin

text \<open>
  Runs of the timers: any sequence of calls after the initialization, as an inductive relation, with the account of
  the closures; and the runs of one heap.
\<close>

section \<open>Checks and the end\<close>

lemma timer_check_ok:
  assumes ok: "timers_ok g" and E: "windows_ok E" and now: "now \<le> GRPC_MILLIS_INF_FUTURE" and mu: "\<not> checker_mu g"
  shows "\<exists>err ts r next' g'. timer_check E now next g = Some (r, next', g') \<and> timers_ok g' \<and> expired now err g ts g'"
proof (cases "now < g_last_seen_min_timer g")
  case True
  have "timers_inv g" using ok by (simp add: timers_ok_def)
  then have "expired now GRPC_ERROR_NONE g [] g" by (simp add: expired_def fired_def)
  moreover have "timer_check E now next g = Some (GRPC_TIMERS_CHECKED_AND_EMPTY, map_option (\<lambda>x. min x (g_last_seen_min_timer g)) next, g)"
    using True by (simp add: timer_check_def)
  ultimately show ?thesis using ok by blast
next
  case False
  then have "timer_check E now next g = run_some_expired_timers E now next (if now \<noteq> GRPC_MILLIS_INF_FUTURE then GRPC_ERROR_NONE else Shutting_down) g"
    by (simp add: timer_check_def)
  with run_ok [OF ok E now mu] show ?thesis by metis
qed

text \<open>At the shutdown every timer is called but those at the end of time.\<close>

lemma shutdown_ok:
  assumes ok: "timers_ok g" and E: "windows_ok E" and mu: "\<not> checker_mu g"
  shows "\<exists>ts g'. timer_list_shutdown E g = Some g' \<and> \<not> initialized g' \<and> distinct ts \<and>
    set ts = {t. pending (store g t) \<and> \<not> pending (store g' t)} \<and>
    scheduled g' = scheduled g @ map (\<lambda>t. (closure (store g t), List_shutdown)) ts \<and>
    (\<forall>t. pending (store g' t) \<longrightarrow> pending (store g t) \<and> GRPC_MILLIS_INF_FUTURE - 1 \<le> deadline (store g t))"
proof -
  from run_ok [OF ok E order_refl mu, of None List_shutdown] obtain ts next' g' where
    r: "run_some_expired_timers E GRPC_MILLIS_INF_FUTURE None List_shutdown g =
        Some (if ts = [] then GRPC_TIMERS_CHECKED_AND_EMPTY else GRPC_TIMERS_FIRED, next', g')"
      "timers_ok g'" "expired GRPC_MILLIS_INF_FUTURE List_shutdown g ts g'"
      "\<forall>k < length (g_shards g). \<not> due_now GRPC_MILLIS_INF_FUTURE (min_deadline (g_shards g' ! k))" by blast
  have f: "fired (set ts) (store g) (store g')" "distinct ts" "length (g_shards g') = length (g_shards g)"
    "\<forall>t \<in> set ts. pending (store g t)" "scheduled g' = scheduled g @ map (\<lambda>t. (closure (store g t), List_shutdown)) ts"
    using r(3) by (simp_all add: expired_def)
  have inv: "timers_inv g'" using r(2) by (simp add: timers_ok_def)
  have late: "GRPC_MILLIS_INF_FUTURE - 1 \<le> deadline (store g' t)" if t: "pending (store g' t)" for t
  proof -
    let ?n = "length (g_shards g')" let ?k = "GPR_HASH_POINTER t ?n" let ?sh = "g_shards g' ! ?k"
    have k: "?k < ?n" and el: "t \<in> shard_elems ?sh" and ag: "all_good g'"
      using inv t by (simp_all add: timers_inv_def hash_less all_good_def)
    then have good: "shard_good ?n ?k ?sh (store g')" by (simp add: all_good_def)
    have m: "GRPC_MILLIS_INF_FUTURE \<le> min_deadline ?sh" using r(4) k f(3) by (auto simp: due_now_def)
    have md: "min_deadline ?sh \<le> saturating_add (queue_deadline_cap ?sh) 1" using good by (simp add: shard_good_def)
    show ?thesis
    proof (cases "t \<in> set (timer_list ?sh)")
      case True
      then have "queue_deadline_cap ?sh \<le> deadline (store g' t)" using good by (simp add: shard_good_def shard_mid_def)
      with m md show ?thesis by (simp add: saturating_add_def split: if_splits)
    next
      case False
      then have "t \<in> set (pending_timers (heap ?sh))" using el by (simp add: shard_elems_def)
      then have "min_deadline ?sh \<le> deadline (store g' t)" using good by (simp add: shard_good_def)
      with m show ?thesis by simp
    qed
  qed
  let ?g' = "g'\<lparr>g_shards := [], g_shard_queue := [], initialized := False\<rparr>"
  have "timer_list_shutdown E g = Some ?g'" using r(1) by (simp add: timer_list_shutdown_def)
  moreover have "set ts = {t. pending (store g t) \<and> \<not> pending (store ?g' t)}"
    using f(4) firedD(3) [OF f(1)] by auto
  ultimately show ?thesis using f(2,5) late firedD [OF f(1)]
    by (intro exI [of _ ts] exI [of _ ?g']) simp
qed

section \<open>The account of the closures\<close>

definition pending_closures :: "'d timer_globals \<Rightarrow> nat multiset" where
  "pending_closures g = image_mset (\<lambda>t. closure (store g t)) (mset_set {t. pending (store g t)})"

text \<open>The closures that have been scheduled, and those that wait for their timers.\<close>

definition accounted :: "'d timer_globals \<Rightarrow> nat multiset" where
  "accounted g = mset (map fst (scheduled g)) + pending_closures g"

lemma pending_finite: "timers_ok g \<Longrightarrow> finite {t. pending (store g t)}"
proof -
  assume "timers_ok g"
  then have inv: "timers_inv g" by (simp add: timers_ok_def)
  let ?n = "length (g_shards g)"
  have "{t. pending (store g t)} \<subseteq> (\<Union>k \<in> {..<?n}. shard_elems (g_shards g ! k))"
    using inv hash_less [of ?n] by (force simp: timers_inv_def all_good_def)
  then show ?thesis by (rule finite_subset) simp
qed

lemma accounted_expired:
  assumes ok: "timers_ok g" and f: "fired (set ts) (store g) (store g')" and ts: "distinct ts" "\<forall>t \<in> set ts. pending (store g t)"
    and s: "scheduled g' = scheduled g @ map (\<lambda>t. (closure (store g t), err)) ts"
  shows "accounted g' = accounted g"
proof -
  let ?P = "{t. pending (store g t)}" let ?c = "\<lambda>t. closure (store g t)"
  have fin: "finite ?P" by (rule pending_finite [OF ok])
  have P': "{t. pending (store g' t)} = ?P - set ts" using firedD(3) [OF f] by auto
  have "?P = (?P - set ts) \<union> set ts" using ts(2) by auto
  moreover have "mset_set ((?P - set ts) \<union> set ts) = mset_set (?P - set ts) + mset_set (set ts)"
    using fin by (intro mset_set_Union) auto
  ultimately have "mset_set ?P = mset_set (?P - set ts) + mset_set (set ts)" by simp
  moreover have "mset_set (set ts) = mset ts" using ts(1) by (rule mset_set_set)
  ultimately have "pending_closures g = image_mset ?c (mset_set (?P - set ts)) + mset (map ?c ts)"
    by (simp add: pending_closures_def)
  moreover have "pending_closures g' = image_mset ?c (mset_set (?P - set ts))"
    using firedD(2) [OF f] by (simp add: pending_closures_def P')
  ultimately show ?thesis by (simp add: accounted_def s comp_def)
qed

lemma accounted_started:
  assumes ok: "timers_ok g" and st: "started t dl cl now g g'" and t: "\<not> pending (store g t)"
  shows "accounted g' = add_mset cl (accounted g)"
proof -
  let ?P = "{x. pending (store g x)}"
  have fin: "finite ?P" by (rule pending_finite [OF ok])
  have d: "\<And>x. x \<noteq> t \<Longrightarrow> closure (store g' x) = closure (store g x) \<and> (pending (store g' x) \<longleftrightarrow> pending (store g x))"
    "closure (store g' t) = cl" "pending (store g' t) \<longleftrightarrow> now < dl"
    "scheduled g' = scheduled g @ (if dl \<le> now then [(cl, GRPC_ERROR_NONE)] else [])"
    using st by (simp_all add: started_def)
  have same: "image_mset (\<lambda>x. closure (store g' x)) (mset_set ?P) = pending_closures g"
    unfolding pending_closures_def using fin t d(1) by (intro image_mset_cong) (metis finite_set_mset_mset_set mem_Collect_eq)
  show ?thesis
  proof (cases "now < dl")
    case True
    have "pending (store g' x) \<longleftrightarrow> x = t \<or> pending (store g x)" for x using d(1) [of x] d(3) True by (cases "x = t") simp_all
    then have "{x. pending (store g' x)} = insert t ?P" by auto
    with True fin t d(2,4) same show ?thesis by (simp add: accounted_def pending_closures_def)
  next
    case False
    have "pending (store g' x) = pending (store g x)" for x using d(1) [of x] d(3) False t by (cases "x = t") auto
    with False d(4) same show ?thesis by (simp add: accounted_def pending_closures_def)
  qed
qed

section \<open>Runs\<close>

inductive timers_run :: "'d::{plus,times,zero,one,ord,inverse} timer_env \<Rightarrow> 'd timer_globals \<Rightarrow> nat list \<Rightarrow>
    'd timer_globals \<Rightarrow> bool" for E g0 where
  run_start: "timers_run E g0 [] g0"
| run_init: "timers_run E g0 cs g \<Longrightarrow> \<not> pending (store g t) \<Longrightarrow> timer_fits g t \<Longrightarrow>
    timer_init E t dl cl now g = Some g' \<Longrightarrow> timers_run E g0 (cs @ [cl]) g'"
| run_cancel: "timers_run E g0 cs g \<Longrightarrow> timer_cancel t g = Some g' \<Longrightarrow> timers_run E g0 cs g'"
| run_check: "timers_run E g0 cs g \<Longrightarrow> now \<le> GRPC_MILLIS_INF_FUTURE \<Longrightarrow> timer_check E now next g = Some (r, next', g') \<Longrightarrow>
    timers_run E g0 cs g'"
| run_kick: "timers_run E g0 cs g \<Longrightarrow> timers_run E g0 cs (timer_consume_kick g)"

lemma timers_run_ok:
  assumes "timers_run E g0 cs g" and g0: "timers_ok g0" "\<not> checker_mu g0" and E: "windows_ok E"
  shows "timers_ok g \<and> \<not> checker_mu g \<and> accounted g = accounted g0 + mset cs"
  using assms(1)
proof (induction rule: timers_run.induct)
  case run_start
  then show ?case using g0 by simp
next
  case (run_init cs g t dl cl now g')
  then have ok: "timers_ok g" by simp
  from timer_init_ok [OF ok run_init.hyps(2,3), of E dl cl now] run_init.hyps(4) have
    s: "timers_ok g'" "started t dl cl now g g'" by auto
  moreover have "checker_mu g' = checker_mu g" using s(2) by (simp add: started_def)
  ultimately show ?case using accounted_started [OF ok s(2) run_init.hyps(2)] run_init.IH by simp
next
  case (run_cancel cs g t g')
  then have ok: "timers_ok g" by simp
  from timer_cancel_ok [OF ok, of t] run_cancel.hyps(2) have
    s: "timers_ok g'" "fired {t} (store g) (store g')" "checker_mu g' = checker_mu g"
      "scheduled g' = scheduled g @ (if pending (store g t) then [(closure (store g t), GRPC_ERROR_CANCELLED)] else [])"
    by auto
  have "accounted g' = accounted g"
  proof (cases "pending (store g t)")
    case True
    then show ?thesis using accounted_expired [OF ok, of "[t]" g' GRPC_ERROR_CANCELLED] s(2,4) by simp
  next
    case False
    then have "fired {} (store g) (store g')" using s(2) by (auto simp: fired_def)
    with False show ?thesis using accounted_expired [OF ok, of "[]" g' GRPC_ERROR_CANCELLED] s(4) by simp
  qed
  with s(1,3) run_cancel.IH show ?case by simp
next
  case (run_check cs g now "next" r next' g')
  then have ok: "timers_ok g" "\<not> checker_mu g" by simp_all
  from timer_check_ok [OF ok(1) E run_check.hyps(2) ok(2), of "next"] run_check.hyps(3) obtain err ts where
    s: "timers_ok g'" "expired now err g ts g'" by auto
  then show ?case using accounted_expired [OF ok(1), of ts g' err] run_check.IH by (simp add: expired_def)
next
  case (run_kick cs g)
  then show ?case by (simp add: timer_consume_kick_def timers_ok_def accounted_def pending_closures_def)
qed

inductive_cases timers_runE: "timers_run E g0 cs g"

text \<open>The states a program reaches after \<open>timer_list_init\<close>; \<open>cs\<close> are the closures of the calls of \<open>timer_init\<close>.\<close>

definition timers_reachable :: "'d::{plus,times,zero,one,ord,inverse} timer_env \<Rightarrow> nat list \<Rightarrow> 'd timer_globals \<Rightarrow> bool" where
  "timers_reachable E cs g \<longleftrightarrow>
     windows_ok E \<and>
     (\<exists>g0 cores start. start \<le> GRPC_MILLIS_INF_FUTURE \<and> (\<forall>t. \<not> pending (store g0 t)) \<and> scheduled g0 = [] \<and>
        timers_run E (timer_list_init E g0 cores start) cs g)"

lemma reachable_ok:
  assumes "timers_reachable E cs g"
  shows "windows_ok E" "timers_ok g" "\<not> checker_mu g" "accounted g = mset cs"
proof -
  from assms obtain g0 cores start where r: "windows_ok E" "start \<le> GRPC_MILLIS_INF_FUTURE" "\<forall>t. \<not> pending (store g0 t)"
    "scheduled g0 = []" "timers_run E (timer_list_init E g0 cores start) cs g" unfolding timers_reachable_def by blast
  let ?g = "timer_list_init E g0 cores start"
  have s: "store ?g = store g0" "scheduled ?g = scheduled g0" "\<not> checker_mu ?g" by (simp_all add: timer_list_init_def Let_def)
  have "timers_ok ?g" using r(2,3) by (intro timer_list_init_ok) simp_all
  from timers_run_ok [OF r(5) this s(3) r(1)] have "timers_ok g" "\<not> checker_mu g" "accounted g = accounted ?g + mset cs"
    by simp_all
  moreover have "accounted ?g = {#}" using r(3,4) by (simp add: accounted_def pending_closures_def s)
  ultimately show "windows_ok E" "timers_ok g" "\<not> checker_mu g" "accounted g = mset cs" using r(1) by simp_all
qed

text \<open>One more call.\<close>

lemma reachable_step:
  assumes "timers_reachable E cs g"
  shows "\<not> pending (store g t) \<Longrightarrow> timer_fits g t \<Longrightarrow> timer_init E t dl cl now g = Some g' \<Longrightarrow> timers_reachable E (cs @ [cl]) g'"
    and "timer_cancel t g = Some g' \<Longrightarrow> timers_reachable E cs g'"
    and "now \<le> GRPC_MILLIS_INF_FUTURE \<Longrightarrow> timer_check E now next g = Some (r, next', g') \<Longrightarrow> timers_reachable E cs g'"
  using assms unfolding timers_reachable_def by (blast intro: timers_run.intros)+

section \<open>Runs of one heap\<close>

datatype heap_call = Heap_add timer_ptr | Heap_remove timer_ptr

fun heap_step :: "(nat \<Rightarrow> timer_ptr) \<Rightarrow> heap_call \<Rightarrow> grpc_timer_heap \<times> timer_store \<Rightarrow> (grpc_timer_heap \<times> timer_store) option" where
  "heap_step fresh (Heap_add t) s = map_option snd (grpc_timer_heap_add fresh (fst s) (snd s) t)"
| "heap_step fresh (Heap_remove t) s = grpc_timer_heap_remove (fst s) (snd s) t"

fun heap_calls :: "(nat \<Rightarrow> timer_ptr) \<Rightarrow> heap_call list \<Rightarrow> grpc_timer_heap \<times> timer_store \<Rightarrow> (grpc_timer_heap \<times> timer_store) option" where
  "heap_calls fresh [] s = Some s"
| "heap_calls fresh (c # cs) s = Option.bind (heap_step fresh c s) (heap_calls fresh cs)"

text \<open>The specification: a set of timers. Only what is not in it is added, only what is in it is removed.\<close>

fun set_step :: "heap_call \<Rightarrow> timer_ptr set \<Rightarrow> timer_ptr set" where
  "set_step (Heap_add t) S = insert t S"
| "set_step (Heap_remove t) S = S - {t}"

fun legal_call :: "heap_call \<Rightarrow> timer_ptr set \<Rightarrow> bool" where
  "legal_call (Heap_add t) S \<longleftrightarrow> t \<notin> S"
| "legal_call (Heap_remove t) S \<longleftrightarrow> t \<in> S"

fun legal_calls :: "heap_call list \<Rightarrow> timer_ptr set \<Rightarrow> bool" where
  "legal_calls [] S \<longleftrightarrow> True"
| "legal_calls (c # cs) S \<longleftrightarrow> legal_call c S \<and> legal_calls cs (set_step c S)"

lemma heap_step_ok:
  assumes wf: "timer_heap_wf s" and l: "legal_call c (pending_set s)" and n: "timer_count (fst s) + 1 < 2 ^ 31"
  shows "\<exists>s'. heap_step fresh c s = Some s' \<and> timer_heap_wf s' \<and> pending_set s' = set_step c (pending_set s) \<and>
    due s' = due s \<and> timer_count (fst s') \<le> timer_count (fst s) + 1"
proof (cases c)
  case (Heap_add t)
  have "timer_heap_wf (fst s, snd s)" "t \<notin> pending_set (fst s, snd s)" using wf l Heap_add by simp_all
  from heap_add [OF this n, of fresh] obtain b h' T' where
    "grpc_timer_heap_add fresh (fst s) (snd s) t = Some (b, h', T')" "timer_heap_wf (h', T')"
      "pending_set (h', T') = insert t (pending_set s)" "timer_count h' = timer_count (fst s) + 1" by auto
  then show ?thesis using Heap_add due_same [OF heap_add_same, of fresh "fst s" "snd s" t b h' T' h' "fst s"] by auto
next
  case (Heap_remove t)
  have "timer_heap_wf (fst s, snd s)" "t \<in> pending_set (fst s, snd s)" using wf l Heap_remove by simp_all
  from heap_remove [OF this] obtain h' T' where
    "grpc_timer_heap_remove (fst s) (snd s) t = Some (h', T')" "timer_heap_wf (h', T')"
      "pending_set (h', T') = pending_set s - {t}" "timer_count h' + 1 = timer_count (fst s)" by auto
  then show ?thesis using Heap_remove due_same [OF heap_remove_same, of "fst s" "snd s" t h' T' h' "fst s"] by auto
qed

lemma heap_calls_ok:
  "timer_heap_wf s \<Longrightarrow> legal_calls cs (pending_set s) \<Longrightarrow> timer_count (fst s) + length cs < 2 ^ 31 \<Longrightarrow>
    \<exists>s'. heap_calls fresh cs s = Some s' \<and> timer_heap_wf s' \<and> pending_set s' = fold set_step cs (pending_set s) \<and> due s' = due s"
proof (induction cs arbitrary: s)
  case (Cons c cs)
  have "legal_call c (pending_set s)" "timer_count (fst s) + 1 < 2 ^ 31 \<or> timer_count (fst s) + 1 \<le> timer_count (fst s) + length (c # cs)"
    using Cons.prems by simp_all
  then have "timer_count (fst s) + 1 < 2 ^ 31" using Cons.prems(3) by simp
  from heap_step_ok [OF Cons.prems(1) _ this, of c fresh] Cons.prems(2) obtain s1 where
    s1: "heap_step fresh c s = Some s1" "timer_heap_wf s1" "pending_set s1 = set_step c (pending_set s)" "due s1 = due s"
      "timer_count (fst s1) \<le> timer_count (fst s) + 1" by auto
  from Cons.IH [OF s1(2)] Cons.prems(2,3) s1(3,5) obtain s' where
    "heap_calls fresh cs s1 = Some s'" "timer_heap_wf s'" "pending_set s' = fold set_step cs (pending_set s1)" "due s' = due s1"
    by auto
  with s1 show ?case by auto
qed simp

text \<open>Popping the first timer until the heap is empty.\<close>

primrec heap_drain :: "nat \<Rightarrow> grpc_timer_heap \<times> timer_store \<Rightarrow> timer_ptr list option" where
  "heap_drain 0 s = (if grpc_timer_heap_is_empty (fst s) then Some [] else None)"
| "heap_drain (Suc n) s =
     (if grpc_timer_heap_is_empty (fst s) then Some []
      else Option.bind (grpc_timer_heap_pop (fst s) (snd s))
        (\<lambda>s'. map_option (Cons (grpc_timer_heap_top (fst s))) (heap_drain n s')))"

lemma heap_drain_drained: "heap_drain n s = heap_queue.drained n s"
  by (induction n arbitrary: s) (simp_all add: grpc_timer_heap_pop_def)

end
