(* ===== verification/Stream_Map.thy ===== *)
theory Stream_Map
  imports Prelude "HOL-Library.More_List"
begin

text \<open>
  The map from stream identifiers to streams of the HTTP/2 transport of gRPC
  (\<open>gRPC-Core/src/core/ext/transport/chttp2/transport/stream_map.cc\<close>): two parallel arrays sorted by the keys, in
  which a deleted entry stays as a null pointer until the arrays are compacted.

  A stream is its address, 0 the null pointer. The arrays are lists as long as the capacity; \<open>fresh\<close> gives what new
  memory holds. A failed \<open>GPR_ASSERT\<close> is the result None.
\<close>

section \<open>State\<close>

record grpc_chttp2_stream_map =
  keys :: "u32 list"
  vals :: "nat list"
  count :: nat
  free :: nat
  capacity :: nat

definition grpc_chttp2_stream_map_init :: "(nat \<Rightarrow> u32 \<times> nat) \<Rightarrow> nat \<Rightarrow> grpc_chttp2_stream_map option" where
  "grpc_chttp2_stream_map_init fresh initial_capacity =
     (if 1 < initial_capacity then
        Some \<lparr>keys = map (fst \<circ> fresh) [0..<initial_capacity], vals = map (snd \<circ> fresh) [0..<initial_capacity],
              count = 0, free = 0, capacity = initial_capacity\<rparr>
      else None)"

section \<open>Operations\<close>

function compact_loop :: "u32 list \<Rightarrow> nat list \<Rightarrow> nat \<Rightarrow> nat \<Rightarrow> nat \<Rightarrow> u32 list \<times> nat list \<times> nat" where
  "compact_loop ks vs n i out =
     (if i < n then
        if vs ! i \<noteq> 0 then compact_loop (ks[out := ks ! i]) (vs[out := vs ! i]) n (i + 1) (out + 1)
        else compact_loop ks vs n (i + 1) out
      else (ks, vs, out))"
  by pat_completeness auto
termination
  by (relation "measure (\<lambda>(_, _, n, i, _). n - i)") auto

declare compact_loop.simps [simp del]

definition compact :: "u32 list \<Rightarrow> nat list \<Rightarrow> nat \<Rightarrow> u32 list \<times> nat list \<times> nat" where
  "compact ks vs n = compact_loop ks vs n 0 0"

function search_loop :: "u32 list \<Rightarrow> u32 \<Rightarrow> nat \<Rightarrow> nat \<Rightarrow> nat option" where
  "search_loop ks key min_idx max_idx =
     (if min_idx < max_idx then
        let mid_idx = min_idx + (max_idx - min_idx) div 2; mid_key = ks ! mid_idx in
        if mid_key < key then search_loop ks key (mid_idx + 1) max_idx
        else if key < mid_key then search_loop ks key min_idx mid_idx
        else Some mid_idx
      else None)"
  by pat_completeness auto
termination
  by (relation "measure (\<lambda>(_, _, lo, hi). hi - lo)") auto

declare search_loop.simps [simp del]

text \<open>The pointer to a value is its index.\<close>

definition find :: "grpc_chttp2_stream_map \<Rightarrow> u32 \<Rightarrow> nat option" where
  "find m key = (if count m = 0 then None else search_loop (keys m) key 0 (count m))"

definition grpc_chttp2_stream_map_find :: "grpc_chttp2_stream_map \<Rightarrow> u32 \<Rightarrow> nat" where
  "grpc_chttp2_stream_map_find m key = (case find m key of Some i \<Rightarrow> vals m ! i | None \<Rightarrow> 0)"

definition grpc_chttp2_stream_map_add :: "(nat \<Rightarrow> u32 \<times> nat) \<Rightarrow> grpc_chttp2_stream_map \<Rightarrow> u32 \<Rightarrow> nat \<Rightarrow>
    grpc_chttp2_stream_map option" where
  "grpc_chttp2_stream_map_add fresh m key v =
     (if \<not> (count m = 0 \<or> keys m ! (count m - 1) < key) then None
      else if v = 0 then None
      else if grpc_chttp2_stream_map_find m key \<noteq> 0 then None
      else
        let m =
          (if count m = capacity m then
             if capacity m div 4 < free m then
               case compact (keys m) (vals m) (count m) of
                 (ks, vs, n) \<Rightarrow> m\<lparr>keys := ks, vals := vs, count := n, free := 0\<rparr>
             else
               let n = mul_size 3 (capacity m) div 2
               in m\<lparr>capacity := n,
                    keys := take n (keys m) @ map (fst \<circ> fresh) [length (keys m)..<n],
                    vals := take n (vals m) @ map (snd \<circ> fresh) [length (vals m)..<n]\<rparr>
           else m)
        in Some (m\<lparr>keys := (keys m)[count m := key], vals := (vals m)[count m := v], count := count m + 1\<rparr>))"

definition grpc_chttp2_stream_map_delete :: "grpc_chttp2_stream_map \<Rightarrow> u32 \<Rightarrow> (nat \<times> grpc_chttp2_stream_map) option" where
  "grpc_chttp2_stream_map_delete m key =
     (case find m key of
        None \<Rightarrow> Some (0, m)
      | Some i \<Rightarrow>
          let out = vals m ! i;
              m = m\<lparr>vals := (vals m)[i := 0], free := free m + (if out \<noteq> 0 then 1 else 0)\<rparr>;
              m = (if free m = count m then m\<lparr>free := 0, count := 0\<rparr> else m)
          in if grpc_chttp2_stream_map_find m key = 0 then Some (out, m) else None)"

definition grpc_chttp2_stream_map_size :: "grpc_chttp2_stream_map \<Rightarrow> nat" where
  "grpc_chttp2_stream_map_size m = count m - free m"

text \<open>\<open>random\<close> is the number \<open>rand\<close> returns.\<close>

definition grpc_chttp2_stream_map_rand :: "nat \<Rightarrow> grpc_chttp2_stream_map \<Rightarrow> (nat \<times> grpc_chttp2_stream_map) option" where
  "grpc_chttp2_stream_map_rand random m =
     (if count m = free m then Some (0, m)
      else
        let m = (if free m \<noteq> 0 then
                   case compact (keys m) (vals m) (count m) of
                     (ks, vs, n) \<Rightarrow> m\<lparr>keys := ks, vals := vs, count := n, free := 0\<rparr>
                 else m)
        in if count m = 0 then None else Some (vals m ! (random mod count m), m))"

text \<open>The callback may change the map it is called from: its length is read again after every call.\<close>

partial_function (option) for_each_from :: "(u32 \<Rightarrow> nat \<Rightarrow> 'u \<times> grpc_chttp2_stream_map \<Rightarrow> 'u \<times> grpc_chttp2_stream_map) \<Rightarrow>
    nat \<Rightarrow> 'u \<times> grpc_chttp2_stream_map \<Rightarrow> ('u \<times> grpc_chttp2_stream_map) option" where
  "for_each_from f i s =
     (if i < count (snd s) then
        for_each_from f (i + 1)
          (if vals (snd s) ! i \<noteq> 0 then f (keys (snd s) ! i) (vals (snd s) ! i) s else s)
      else Some s)"

definition grpc_chttp2_stream_map_for_each :: "(u32 \<Rightarrow> nat \<Rightarrow> 'u \<times> grpc_chttp2_stream_map \<Rightarrow> 'u \<times> grpc_chttp2_stream_map) \<Rightarrow>
    'u \<Rightarrow> grpc_chttp2_stream_map \<Rightarrow> ('u \<times> grpc_chttp2_stream_map) option" where
  "grpc_chttp2_stream_map_for_each f user_data m = for_each_from f 0 (user_data, m)"

section \<open>The entries of a map\<close>

text \<open>The pairs of the used part of the arrays, and those that are not deleted.\<close>

definition slots :: "grpc_chttp2_stream_map \<Rightarrow> (u32 \<times> nat) list" where
  "slots m = zip (take (count m) (keys m)) (take (count m) (vals m))"

definition live :: "(u32 \<times> nat) list \<Rightarrow> (u32 \<times> nat) list" where
  "live xs = filter (\<lambda>(_, v). v \<noteq> 0) xs"

definition stream_map_wf :: "grpc_chttp2_stream_map \<Rightarrow> bool" where
  "stream_map_wf m \<longleftrightarrow>
     length (keys m) = capacity m \<and> length (vals m) = capacity m \<and> count m \<le> capacity m \<and> 1 < capacity m \<and>
     sorted_wrt (<) (take (count m) (keys m)) \<and> free m + length (live (slots m)) = count m \<and>
     (free m = count m \<longrightarrow> count m = 0)"

definition entries :: "grpc_chttp2_stream_map \<Rightarrow> u32 \<Rightarrow> nat option" where
  "entries m = map_of (live (slots m))"

lemma length_slots: "stream_map_wf m \<Longrightarrow> length (slots m) = count m"
  by (simp add: stream_map_wf_def slots_def)

lemma slots_nth: "stream_map_wf m \<Longrightarrow> i < count m \<Longrightarrow> slots m ! i = (keys m ! i, vals m ! i)"
  by (simp add: stream_map_wf_def slots_def)

lemma slots_keys: "stream_map_wf m \<Longrightarrow> map fst (slots m) = take (count m) (keys m)"
  by (simp add: stream_map_wf_def slots_def)

lemma live_append [simp]: "live (xs @ ys) = live xs @ live ys"
  by (simp add: live_def)

lemma live_simps [simp]: "live [] = []" "live ((k, v) # xs) = (if v \<noteq> 0 then (k, v) # live xs else live xs)"
  by (simp_all add: live_def)

lemma live_live [simp]: "live (live xs) = live xs"
  by (simp add: live_def)

lemma set_live: "p \<in> set (live xs) \<longleftrightarrow> p \<in> set xs \<and> snd p \<noteq> 0"
  by (auto simp: live_def)

lemma live_keys_sorted: "sorted_wrt (<) (map fst xs) \<Longrightarrow> sorted_wrt (<) (map fst (live xs))"
  by (induction xs) (auto simp: set_live)

section \<open>Binary search\<close>

lemma strict_sorted_nth: "sorted_wrt (<) xs \<Longrightarrow> i < j \<Longrightarrow> j < length xs \<Longrightarrow> xs ! i < xs ! j"
  by (rule sorted_wrt_nth_less)

lemma search_loop_iff:
  assumes "sorted_wrt (<) (take n ks)" and "n \<le> length ks" and "hi \<le> n"
  shows "search_loop ks key lo hi = Some i \<longleftrightarrow> lo \<le> i \<and> i < hi \<and> ks ! i = key"
  using assms
proof (induction ks key lo hi arbitrary: i rule: search_loop.induct)
  case (1 ks key lo hi)
  let ?mid = "lo + (hi - lo) div 2"
  have less: "ks ! i < ks ! j" if "i < j" "j < n" for i j
    using strict_sorted_nth [OF "1.prems"(1), of i j] that "1.prems"(2) by simp
  show ?case
  proof (cases "lo < hi")
    case False
    then show ?thesis by (subst search_loop.simps) simp
  next
    case lh: True
    then have mid: "lo \<le> ?mid" "?mid < hi" by simp_all
    note hn = "1.prems"(3)
    consider "ks ! ?mid < key" | "key < ks ! ?mid" | "ks ! ?mid = key" by (rule linorder_cases)
    then show ?thesis
    proof cases
      case 1
      have "search_loop ks key lo hi = search_loop ks key (?mid + 1) hi"
        using lh 1 by (subst search_loop.simps) (simp add: Let_def)
      moreover have "ks ! i \<noteq> key" if "i \<le> ?mid"
        using 1 that less [of i ?mid] mid hn by (cases "i = ?mid") auto
      then have "\<not> (i \<le> ?mid \<and> ks ! i = key)" by blast
      ultimately show ?thesis using "1.IH"(1) [OF lh refl refl 1 "1.prems", of i] mid by auto
    next
      case 2
      have nl: "\<not> ks ! ?mid < key" using 2 by simp
      have "search_loop ks key lo hi = search_loop ks key lo ?mid"
        by (subst search_loop.simps) (simp only: Let_def lh 2 nl if_True if_False)
      moreover have "ks ! i \<noteq> key" if "?mid \<le> i" "i < hi"
        using 2 that less [of ?mid i] hn by (cases "i = ?mid") auto
      moreover have "?mid \<le> n" using mid hn by simp
      ultimately show ?thesis using "1.IH"(2) [OF lh refl refl nl 2 "1.prems"(1,2), of i] mid by (auto simp: not_le)
    next
      case 3
      have "search_loop ks key lo hi = Some ?mid" using lh 3 by (subst search_loop.simps) (simp add: Let_def)
      moreover have "i = ?mid" if "i < hi" "ks ! i = key"
        using 3 that less [of i ?mid] less [of ?mid i] mid hn by (cases i ?mid rule: linorder_cases) auto
      ultimately show ?thesis using 3 mid by auto
    qed
  qed
qed

lemma find_iff: "stream_map_wf m \<Longrightarrow> find m key = Some i \<longleftrightarrow> i < count m \<and> keys m ! i = key"
  unfolding find_def by (simp add: search_loop_iff [of "count m"] stream_map_wf_def)

lemma live_map_of:
  assumes "sorted_wrt (<) (map fst xs)" and "i < length xs" and "fst (xs ! i) = k"
  shows "map_of (live xs) k = (if snd (xs ! i) = 0 then None else Some (snd (xs ! i)))"
proof -
  have d: "distinct (map fst xs)" using assms(1) by (simp add: strict_sorted_iff)
  have u: "snd (xs ! i) = v" if "(k, v) \<in> set xs" for v
    using that assms(2,3) d by (metis eq_key_imp_eq_value nth_mem prod.collapse)
  have m: "(k, snd (xs ! i)) \<in> set xs" using assms(2,3) by (metis nth_mem prod.collapse)
  have dl: "distinct (map fst (live xs))" using live_keys_sorted [OF assms(1)] by (simp add: strict_sorted_iff)
  show ?thesis
  proof (cases "snd (xs ! i) = 0")
    case True
    then have "v = 0" if "(k, v) \<in> set xs" for v using u [OF that] by simp
    then have "k \<notin> fst ` set (live xs)" by (force simp: set_live)
    with True show ?thesis by (simp add: map_of_eq_None_iff)
  next
    case False
    with m have "(k, snd (xs ! i)) \<in> set (live xs)" by (simp add: set_live)
    with dl False show ?thesis by simp
  qed
qed

lemma find_entries:
  assumes "stream_map_wf m"
  shows "grpc_chttp2_stream_map_find m key = (case entries m key of Some v \<Rightarrow> v | None \<Rightarrow> 0)"
proof -
  have s: "sorted_wrt (<) (map fst (slots m))" using assms by (simp add: slots_keys stream_map_wf_def)
  show ?thesis
  proof (cases "find m key")
    case None
    then have "\<nexists>i. i < count m \<and> keys m ! i = key" using find_iff [OF assms] by (metis option.distinct(1))
    then have "key \<notin> fst ` set (slots m)"
      using slots_nth [OF assms] length_slots [OF assms] by (auto simp: in_set_conv_nth)
    then have "entries m key = None" by (force simp: entries_def map_of_eq_None_iff set_live)
    with None show ?thesis by (simp add: grpc_chttp2_stream_map_find_def)
  next
    case (Some i)
    then have i: "i < count m" "keys m ! i = key" using find_iff [OF assms] by simp_all
    with live_map_of [OF s, of i key] length_slots [OF assms] slots_nth [OF assms i(1)] Some
    show ?thesis by (simp add: grpc_chttp2_stream_map_find_def entries_def)
  qed
qed

section \<open>Compaction\<close>

lemma compact_loop_live:
  assumes "out \<le> i" and "n \<le> length ks" "n \<le> length vs" and "i \<le> n"
    and "compact_loop ks vs n i out = (ks', vs', n')"
  shows "length ks' = length ks \<and> length vs' = length vs \<and> out \<le> n' \<and> n' \<le> n \<and>
    zip (take n' ks') (take n' vs') = zip (take out ks) (take out vs) @ live (drop i (zip (take n ks) (take n vs)))"
  using assms
proof (induction ks vs n i out arbitrary: ks' vs' n' rule: compact_loop.induct)
  case (1 ks vs n i out)
  let ?p = "zip (take n ks) (take n vs)"
  show ?case
  proof (cases "i < n")
    case False
    with "1.prems" show ?thesis by (subst (asm) compact_loop.simps) simp
  next
    case True
    have d: "drop i ?p = (ks ! i, vs ! i) # drop (i + 1) ?p"
      using True "1.prems"(2,3) by (subst Cons_nth_drop_Suc [symmetric]) simp_all
    show ?thesis
    proof (cases "vs ! i \<noteq> 0")
      case False
      have "compact_loop ks vs n (i + 1) out = (ks', vs', n')"
        using True False "1.prems"(5) by (subst (asm) compact_loop.simps) simp
      with "1.IH"(2) [OF True, of ks' vs' n'] False True "1.prems" show ?thesis by (simp add: d)
    next
      case v: True
      let ?ks = "ks[out := ks ! i]" let ?vs = "vs[out := vs ! i]"
      have r: "compact_loop ?ks ?vs n (i + 1) (out + 1) = (ks', vs', n')"
        using True v "1.prems"(5) by (subst (asm) compact_loop.simps) simp
      have tl: "drop (i + 1) (zip (take n ?ks) (take n ?vs)) = drop (i + 1) ?p"
        using "1.prems"(1) by (simp add: take_update_swap drop_zip drop_update_cancel)
      have hd: "zip (take (out + 1) ?ks) (take (out + 1) ?vs) = zip (take out ks) (take out vs) @ [(ks ! i, vs ! i)]"
        using "1.prems"(1-3) True by (simp add: take_Suc_conv_app_nth)
      from "1.IH"(1) [OF True v _ _ _ _ r] True "1.prems" tl hd d v show ?thesis by (simp add: not_less)
    qed
  qed
qed

lemma compact_slots:
  assumes "stream_map_wf m" and c: "compact (keys m) (vals m) (count m) = (ks, vs, n)"
  shows "length ks = capacity m" "length vs = capacity m" "n \<le> count m" "zip (take n ks) (take n vs) = live (slots m)"
    "n = length (live (slots m))"
proof -
  have r: "length ks = length (keys m) \<and> length vs = length (vals m) \<and> 0 \<le> n \<and> n \<le> count m \<and>
      zip (take n ks) (take n vs) = live (slots m)"
    using compact_loop_live [of 0 0 "count m" "keys m" "vals m" ks vs n] assms
    by (simp add: compact_def slots_def stream_map_wf_def)
  with assms(1) show "length ks = capacity m" "length vs = capacity m" "n \<le> count m"
    "zip (take n ks) (take n vs) = live (slots m)" by (simp_all add: stream_map_wf_def)
  then have "length (live (slots m)) = n" using assms(1) by (metis length_take length_zip min_absorb2 min_less_iff_conj order_trans stream_map_wf_def min.idem)
  then show "n = length (live (slots m))" by simp
qed

section \<open>The operations on the entries\<close>

lemma live_keys: "stream_map_wf m \<Longrightarrow> fst ` set (live (slots m)) \<subseteq> set (take (count m) (keys m))"
  by (simp flip: slots_keys) (auto simp: set_live)

lemma below_last: "\<forall>k \<in> set (take n xs). k < key \<Longrightarrow> n \<le> length xs \<Longrightarrow> n = 0 \<or> xs ! (n - 1) < (key :: 'a :: ord)"
  by (cases n) (auto simp: take_Suc_conv_app_nth)

text \<open>Compaction keeps the entries.\<close>

lemma compacted_wf:
  assumes wf: "stream_map_wf m" and c: "compact (keys m) (vals m) (count m) = (ks, vs, n)"
    and m': "m' = m\<lparr>keys := ks, vals := vs, count := n, free := 0\<rparr>"
  shows "stream_map_wf m'" "slots m' = live (slots m)" "entries m' = entries m" "count m' = count m - free m"
proof -
  note cs = compact_slots [OF wf c]
  show s: "slots m' = live (slots m)" using cs(4) by (simp add: slots_def m')
  have "map fst (slots m') = take n ks" using cs(1-3) wf by (simp add: slots_def m' stream_map_wf_def)
  moreover have "sorted_wrt (<) (map fst (live (slots m)))"
    using wf by (intro live_keys_sorted) (simp add: slots_keys stream_map_wf_def)
  ultimately have "sorted_wrt (<) (take n ks)" by (simp add: s)
  with cs wf s show "stream_map_wf m'" by (simp add: stream_map_wf_def m')
  show "entries m' = entries m" by (simp add: entries_def s)
  show "count m' = count m - free m" using cs(5) wf by (auto simp: m' stream_map_wf_def)
qed

text \<open>A larger array keeps the entries.\<close>

lemma enlarged_wf:
  assumes wf: "stream_map_wf m" and n: "capacity m \<le> n"
    and m': "m' = m\<lparr>capacity := n, keys := take n (keys m) @ map f [length (keys m)..<n],
        vals := take n (vals m) @ map h [length (vals m)..<n]\<rparr>"
  shows "stream_map_wf m'" "slots m' = slots m" "entries m' = entries m"
proof -
  have l: "length (keys m) \<le> n" "length (vals m) \<le> n" "count m \<le> length (keys m)" "count m \<le> length (vals m)"
    using wf n by (simp_all add: stream_map_wf_def)
  show s: "slots m' = slots m" using l by (simp add: slots_def m')
  show "stream_map_wf m'" using wf n l s by (simp add: stream_map_wf_def m')
  show "entries m' = entries m" by (simp add: entries_def s)
qed

lemma push_wf:
  assumes wf: "stream_map_wf m" and c: "count m < capacity m" and k: "count m = 0 \<or> keys m ! (count m - 1) < key" and v: "v \<noteq> 0"
    and m': "m' = m\<lparr>keys := (keys m)[count m := key], vals := (vals m)[count m := v], count := count m + 1\<rparr>"
  shows "stream_map_wf m'" "entries m' = (entries m)(key \<mapsto> v)" "keys m' ! (count m' - 1) = key"
proof -
  have l: "count m < length (keys m)" "count m < length (vals m)" using wf c by (simp_all add: stream_map_wf_def)
  have tk: "take (count m') (keys m') = take (count m) (keys m) @ [key]" using l by (simp add: m' take_Suc_conv_app_nth)
  have s: "slots m' = slots m @ [(key, v)]" using l by (simp add: slots_def m' take_Suc_conv_app_nth)
  have "x < key" if "x \<in> set (take (count m) (keys m))" for x
  proof -
    from that l obtain i where i: "i < count m" "x = keys m ! i" by (auto simp: in_set_conv_nth)
    have "sorted_wrt (<) (take (count m) (keys m))" using wf by (simp add: stream_map_wf_def)
    then have "keys m ! i < keys m ! (count m - 1) \<or> i = count m - 1"
      using strict_sorted_nth [of "take (count m) (keys m)" i "count m - 1"] i l by auto
    with k i show ?thesis by auto
  qed
  then have new: "\<forall>x \<in> set (take (count m) (keys m)). x < key" by blast
  show "stream_map_wf m'"
    unfolding stream_map_wf_def tk s using wf c new v by (simp add: stream_map_wf_def m' sorted_wrt_append)
  have "key \<notin> fst ` set (live (slots m))" using live_keys [OF wf] new by fastforce
  then have "map_of (live (slots m)) key = None" by (simp add: map_of_eq_None_iff)
  then show "entries m' = (entries m)(key \<mapsto> v)"
    using v by (auto simp: entries_def s fun_eq_iff map_add_def split: option.splits)
  show "keys m' ! (count m' - 1) = key" using l by (simp add: m')
qed

text \<open>The keys used so far are below the new one.\<close>

definition keys_below :: "grpc_chttp2_stream_map \<Rightarrow> u32 \<Rightarrow> bool" where
  "keys_below m key \<longleftrightarrow> (\<forall>k \<in> set (take (count m) (keys m)). k < key)"

lemma add_ok:
  assumes wf: "stream_map_wf m" and k: "keys_below m key" and v: "v \<noteq> 0" and cap: "3 * capacity m < 2 ^ 64"
  shows "\<exists>m'. grpc_chttp2_stream_map_add fresh m key v = Some m' \<and> stream_map_wf m' \<and> entries m' = (entries m)(key \<mapsto> v) \<and>
    capacity m' \<le> max (capacity m) (2 * count m) \<and> count m' \<le> count m + 1 \<and> (\<forall>k. key < k \<longrightarrow> keys_below m' k)"
proof -
  have below: "count m = 0 \<or> keys m ! (count m - 1) < key"
    using k wf by (intro below_last) (simp_all add: keys_below_def stream_map_wf_def)
  have none: "entries m key = None"
    using k live_keys [OF wf] by (force simp: keys_below_def entries_def map_of_eq_None_iff)
  then have fd: "grpc_chttp2_stream_map_find m key = 0" by (simp add: find_entries [OF wf])
  define m1 where "m1 = (if count m = capacity m then
             if capacity m div 4 < free m then
               case compact (keys m) (vals m) (count m) of
                 (ks, vs, n) \<Rightarrow> m\<lparr>keys := ks, vals := vs, count := n, free := 0\<rparr>
             else
               let n = mul_size 3 (capacity m) div 2
               in m\<lparr>capacity := n,
                    keys := take n (keys m) @ map (fst \<circ> fresh) [length (keys m)..<n],
                    vals := take n (vals m) @ map (snd \<circ> fresh) [length (vals m)..<n]\<rparr>
           else m)"
  have m1: "stream_map_wf m1 \<and> entries m1 = entries m \<and> count m1 < capacity m1 \<and> capacity m1 \<le> max (capacity m) (2 * count m) \<and> count m1 \<le> count m \<and>
      set (take (count m1) (keys m1)) \<subseteq> set (take (count m) (keys m))"
  proof (cases "count m = capacity m")
    case False
    then have "m1 = m" by (simp add: m1_def)
    with False wf show ?thesis by (simp add: stream_map_wf_def)
  next
    case full: True
    show ?thesis
    proof (cases "capacity m div 4 < free m")
      case True
      obtain ks vs n where c: "compact (keys m) (vals m) (count m) = (ks, vs, n)" by (metis prod_cases3)
      have e: "m1 = m\<lparr>keys := ks, vals := vs, count := n, free := 0\<rparr>" using full True c by (simp add: m1_def)
      note w = compacted_wf [OF wf c e]
      have "count m1 < capacity m1" using w(4) True full e wf by (simp add: stream_map_wf_def)
      moreover have "set (take (count m1) (keys m1)) \<subseteq> set (take (count m) (keys m))"
        using slots_keys [OF w(1)] live_keys [OF wf] by (simp add: w(2) flip: set_map)
      ultimately show ?thesis using w e by simp
    next
      case False
      have n: "mul_size 3 (capacity m) = 3 * capacity m" using cap by simp
      have e: "m1 = m\<lparr>capacity := 3 * capacity m div 2,
          keys := take (3 * capacity m div 2) (keys m) @ map (fst \<circ> fresh) [length (keys m)..<3 * capacity m div 2],
          vals := take (3 * capacity m div 2) (vals m) @ map (snd \<circ> fresh) [length (vals m)..<3 * capacity m div 2]\<rparr>"
        using full False by (simp add: m1_def Let_def n)
      have c1: "1 < capacity m" "count m \<le> length (keys m)" using wf by (simp_all add: stream_map_wf_def)
      then have "capacity m \<le> 3 * capacity m div 2" by linarith
      note w = enlarged_wf [OF wf this e]
      have "count m1 < capacity m1" using full c1(1) by (simp add: e)
      moreover have "take (count m1) (keys m1) = take (count m) (keys m)" using c1 full by (simp add: e)
      moreover have "capacity m1 \<le> 2 * count m" "count m1 = count m" using full by (simp_all add: e)
      ultimately show ?thesis using w by simp
    qed
  qed
  let ?m' = "m1\<lparr>keys := (keys m1)[count m1 := key], vals := (vals m1)[count m1 := v], count := count m1 + 1\<rparr>"
  have add: "grpc_chttp2_stream_map_add fresh m key v = Some ?m'"
    unfolding grpc_chttp2_stream_map_add_def m1_def [symmetric] using below v fd by (simp add: Let_def)
  have below1: "\<forall>k \<in> set (take (count m1) (keys m1)). k < key" using m1 k by (auto simp: keys_below_def)
  have "count m1 = 0 \<or> keys m1 ! (count m1 - 1) < key"
    using below1 m1 by (intro below_last) (simp_all add: stream_map_wf_def)
  note p = push_wf [OF conjunct1 [OF m1] _ this v refl]
  have "take (count ?m') (keys ?m') = take (count m1) (keys m1) @ [key]"
    using m1 by (simp add: take_Suc_conv_app_nth stream_map_wf_def)
  then have "\<forall>k. key < k \<longrightarrow> keys_below ?m' k" using below1 by (auto simp: keys_below_def)
  with add p m1 show ?thesis by (intro exI [of _ ?m']) simp
qed

text \<open>Deleting the entry of one slot.\<close>

lemma live_delete:
  assumes s: "sorted_wrt (<) (map fst xs)" and i: "i < length xs" "xs ! i = (k, v)"
  shows "map_of (live (xs[i := (k, 0)])) = (map_of (live xs))(k := None)"
    and "length (live (xs[i := (k, 0)])) = length (live xs) - (if v \<noteq> 0 then 1 else 0)"
    and "v \<noteq> 0 \<Longrightarrow> 0 < length (live xs)"
    and "live (drop (i + 1) xs) = [] \<or> live (xs[i := (k, 0)]) \<noteq> []"
proof -
  define ys zs where "ys = take i xs" and "zs = drop (i + 1) xs"
  have xs: "xs = ys @ (k, v) # zs" using id_take_nth_drop [OF i(1)] i(2) by (simp add: ys_def zs_def)
  have l: "length ys = i" using i(1) by (simp add: ys_def)
  have up: "xs[i := (k, 0)] = ys @ (k, 0) # zs" unfolding xs l [symmetric] by simp
  have "k \<notin> fst ` set ys" "k \<notin> fst ` set zs" using s by (auto simp: xs sorted_wrt_append)
  then have "map_of (live ys) k = None" "map_of (live zs) k = None"
    by (force simp: map_of_eq_None_iff set_live)+
  then show "map_of (live (xs[i := (k, 0)])) = (map_of (live xs))(k := None)"
    unfolding up by (auto simp: xs fun_eq_iff map_add_def split: option.splits)
  show "length (live (xs[i := (k, 0)])) = length (live xs) - (if v \<noteq> 0 then 1 else 0)"
    unfolding up by (simp add: xs)
  show "v \<noteq> 0 \<Longrightarrow> 0 < length (live xs)" by (simp add: xs)
  show "live (drop (i + 1) xs) = [] \<or> live (xs[i := (k, 0)]) \<noteq> []" unfolding up zs_def [symmetric] by simp
qed

lemma delete_slot:
  assumes wf: "stream_map_wf m" and i: "i < count m" "keys m ! i = key"
  shows "\<exists>m'. grpc_chttp2_stream_map_delete m key = Some (vals m ! i, m') \<and> stream_map_wf m' \<and>
    entries m' = (entries m)(key := None) \<and> capacity m' = capacity m \<and> keys m' = keys m \<and>
    (count m' = count m \<and> slots m' = (slots m)[i := (key, 0)] \<or>
     count m' = 0 \<and> live (drop (i + 1) (slots m)) = [])"
proof -
  let ?out = "vals m ! i" let ?xs = "slots m" let ?ys = "(slots m)[i := (key, 0)]"
  have s: "sorted_wrt (<) (map fst ?xs)" using wf by (simp add: slots_keys stream_map_wf_def)
  have xi: "i < length ?xs" "?xs ! i = (key, ?out)" using length_slots [OF wf] slots_nth [OF wf i(1)] i by simp_all
  note ld = live_delete [OF s xi]
  define m1 where "m1 = m\<lparr>vals := (vals m)[i := 0], free := free m + (if ?out \<noteq> 0 then 1 else 0)\<rparr>"
  define m' where "m' = (if free m1 = count m1 then m1\<lparr>free := 0, count := 0\<rparr> else m1)"
  have len: "i < length (keys m)" "i < length (vals m)" using wf i by (simp_all add: stream_map_wf_def)
  have s1: "slots m1 = ?ys"
  proof -
    have "take (count m) (keys m) = (take (count m) (keys m))[i := key]" using i by (metis list_update_id nth_take)
    then have "slots m1 = zip ((take (count m) (keys m))[i := key]) ((take (count m) (vals m))[i := 0])"
      by (simp add: slots_def m1_def take_update_swap)
    then show ?thesis by (simp add: zip_update slots_def)
  qed
  have f1: "free m1 + length (live ?ys) = count m1" using wf ld(2,3) by (auto simp: m1_def stream_map_wf_def)
  have e1: "map_of (live ?ys) = (entries m)(key := None)" using ld(1) by (simp add: entries_def)
  have fm': "find m key = Some i" using find_iff [OF wf] i by blast
  have k1: "keys m' = keys m" "capacity m' = capacity m" by (simp_all add: m'_def m1_def)
  have r: "stream_map_wf m' \<and> entries m' = (entries m)(key := None) \<and>
      (count m' = count m \<and> slots m' = ?ys \<or> count m' = 0 \<and> live (drop (i + 1) ?xs) = [])"
  proof (cases "free m1 = count m1")
    case True
    then have none: "live ?ys = []" using f1 by simp
    have z: "slots m' = []" "count m' = 0" "free m' = 0" using True by (simp_all add: m'_def slots_def)
    have "entries m' = (entries m)(key := None)" using none e1 by (simp add: entries_def z)
    moreover have "stream_map_wf m'" using wf k1 z by (simp add: stream_map_wf_def) (simp add: m'_def m1_def)
    ultimately show ?thesis using ld(4) none z by simp
  next
    case False
    then have m': "m' = m1" by (simp add: m'_def)
    have "stream_map_wf m'" unfolding stream_map_wf_def m' s1 using wf False f1 by (simp add: stream_map_wf_def m1_def)
    moreover have "count m1 = count m" by (simp add: m1_def)
    ultimately show ?thesis using e1 s1 by (simp add: m' entries_def)
  qed
  then have "grpc_chttp2_stream_map_find m' key = 0" by (simp add: find_entries)
  then have "grpc_chttp2_stream_map_delete m key = Some (?out, m')"
    unfolding grpc_chttp2_stream_map_delete_def Let_def fm' option.case m1_def [symmetric] m'_def [symmetric] by simp
  with r k1 show ?thesis by blast
qed

lemma delete_ok:
  assumes wf: "stream_map_wf m"
  shows "\<exists>m'. grpc_chttp2_stream_map_delete m key = Some (case entries m key of Some v \<Rightarrow> v | None \<Rightarrow> 0, m') \<and>
    stream_map_wf m' \<and> entries m' = (entries m)(key := None) \<and> capacity m' = capacity m \<and> count m' \<le> count m \<and>
    (\<forall>k. keys_below m k \<longrightarrow> keys_below m' k)"
proof (cases "find m key")
  case None
  then have "grpc_chttp2_stream_map_find m key = 0" by (simp add: grpc_chttp2_stream_map_find_def)
  have "key \<notin> fst ` set (slots m)"
    using None find_iff [OF wf, of key] slots_nth [OF wf] length_slots [OF wf] by (auto simp: in_set_conv_nth)
  then have e: "entries m key = None" by (force simp: entries_def map_of_eq_None_iff set_live)
  then have "entries m = (entries m)(key := None)" by auto
  with None e wf show ?thesis by (simp add: grpc_chttp2_stream_map_delete_def)
next
  case (Some i)
  then have i: "i < count m" "keys m ! i = key" using find_iff [OF wf] by simp_all
  have v: "vals m ! i = (case entries m key of Some v \<Rightarrow> v | None \<Rightarrow> 0)"
    using find_entries [OF wf, of key] Some by (simp add: grpc_chttp2_stream_map_find_def)
  from delete_slot [OF wf i] obtain m' where
    "grpc_chttp2_stream_map_delete m key = Some (vals m ! i, m')" "stream_map_wf m'" "entries m' = (entries m)(key := None)"
    "capacity m' = capacity m" "keys m' = keys m" "count m' = count m \<or> count m' = 0" by blast
  with v show ?thesis by (intro exI [of _ m']) (auto simp: keys_below_def)
qed

lemma size_ok:
  assumes "stream_map_wf m"
  shows "grpc_chttp2_stream_map_size m = card (dom (entries m))"
proof -
  have "sorted_wrt (<) (map fst (live (slots m)))"
    using assms by (intro live_keys_sorted) (simp add: slots_keys stream_map_wf_def)
  then have "distinct (map fst (live (slots m)))" by (simp add: strict_sorted_iff)
  then have "card (dom (entries m)) = length (live (slots m))"
    by (metis dom_map_of_conv_image_fst entries_def distinct_card length_map list.set_map)
  then show ?thesis using assms by (auto simp: grpc_chttp2_stream_map_size_def stream_map_wf_def)
qed

lemma entries_ran:
  assumes "stream_map_wf m"
  shows "ran (entries m) = snd ` set (live (slots m))"
proof -
  have "sorted_wrt (<) (map fst (live (slots m)))"
    using assms by (intro live_keys_sorted) (simp add: slots_keys stream_map_wf_def)
  then have "distinct (map fst (live (slots m)))" by (simp add: strict_sorted_iff)
  then show ?thesis by (simp add: entries_def ran_distinct)
qed

text \<open>A random entry: every entry comes for some number.\<close>

lemma rand_ok:
  assumes wf: "stream_map_wf m"
  shows "\<exists>m'. stream_map_wf m' \<and> entries m' = entries m \<and> capacity m' = capacity m \<and> count m' \<le> count m \<and>
    (\<forall>k. keys_below m k \<longrightarrow> keys_below m' k) \<and>
    (if entries m = Map.empty then m' = m \<and> (\<forall>random. grpc_chttp2_stream_map_rand random m = Some (0, m))
     else (\<forall>random. \<exists>v \<in> ran (entries m). grpc_chttp2_stream_map_rand random m = Some (v, m')) \<and>
       (\<forall>v \<in> ran (entries m). \<exists>random. grpc_chttp2_stream_map_rand random m = Some (v, m')))"
proof -
  have len: "free m + length (live (slots m)) = count m" using wf by (simp add: stream_map_wf_def)
  have em: "entries m = Map.empty \<longleftrightarrow> live (slots m) = []" by (simp add: entries_def)
  show ?thesis
  proof (cases "live (slots m) = []")
    case True
    then have "grpc_chttp2_stream_map_rand random m = Some (0, m)" for random
      using len by (simp add: grpc_chttp2_stream_map_rand_def)
    with True em wf show ?thesis by auto
  next
    case False
    then have nf: "count m \<noteq> free m" using len by auto
    define m' where "m' = (if free m \<noteq> 0 then
                   case compact (keys m) (vals m) (count m) of
                     (ks, vs, n) \<Rightarrow> m\<lparr>keys := ks, vals := vs, count := n, free := 0\<rparr>
                 else m)"
    have m': "stream_map_wf m' \<and> entries m' = entries m \<and> capacity m' = capacity m \<and> count m' \<le> count m \<and>
        slots m' = live (slots m) \<and> set (take (count m') (keys m')) \<subseteq> set (take (count m) (keys m))"
    proof (cases "free m = 0")
      case True
      then have "live (slots m) = slots m" using len length_slots [OF wf] unfolding live_def
        by (metis add_0 filter_id_conv length_filter_less less_irrefl)
      with True wf show ?thesis by (simp add: m'_def)
    next
      case False
      obtain ks vs n where c: "compact (keys m) (vals m) (count m) = (ks, vs, n)" by (metis prod_cases3)
      have e: "m' = m\<lparr>keys := ks, vals := vs, count := n, free := 0\<rparr>" using False c by (simp add: m'_def)
      note w = compacted_wf [OF wf c e]
      have "set (take (count m') (keys m')) \<subseteq> set (take (count m) (keys m))"
        using slots_keys [OF w(1)] live_keys [OF wf] by (simp add: w(2) flip: set_map)
      with w show ?thesis by (simp add: e)
    qed
    then have wf': "stream_map_wf m'" and sl: "slots m' = live (slots m)" by simp_all
    have n1: "count m' = length (live (slots m))" using length_slots [OF wf'] sl by simp
    have "0 < count m'" using False unfolding n1 by simp
    note n = n1 this
    have r: "grpc_chttp2_stream_map_rand random m = Some (vals m' ! (random mod count m'), m')" for random
      using nf n(2) unfolding grpc_chttp2_stream_map_rand_def Let_def m'_def [symmetric] by simp
    have "vals m' ! j \<in> ran (entries m)" if "j < count m'" for j
      using slots_nth [OF wf' that] that n sl entries_ran [OF wf] by (metis image_eqI nth_mem snd_conv)
    then have "\<exists>v \<in> ran (entries m). grpc_chttp2_stream_map_rand random m = Some (v, m')" for random
      using r [of random] n(2) by auto
    moreover have "\<exists>random. grpc_chttp2_stream_map_rand random m = Some (v, m')" if "v \<in> ran (entries m)" for v
    proof -
      from that obtain j where j: "j < count m'" "snd (slots m' ! j) = v"
        unfolding entries_ran [OF wf] sl n(1) by (auto simp: in_set_conv_nth)
      then have "vals m' ! (j mod count m') = v" using slots_nth [OF wf'] by simp
      with r [of j] show ?thesis by auto
    qed
    ultimately show ?thesis using m' False em by (intro exI [of _ m']) (auto simp: keys_below_def)
  qed
qed

section \<open>Visiting all entries\<close>

text \<open>
  A callback of \<open>grpc_chttp2_stream_map_for_each\<close> that may delete the stream it is called with, as
  \<open>cancel_stream_cb\<close> does: \<open>g\<close> gives its data and \<open>d\<close> says whether it deletes.
\<close>

definition visitor :: "(u32 \<Rightarrow> nat \<Rightarrow> 'u \<Rightarrow> 'u) \<Rightarrow> (u32 \<Rightarrow> nat \<Rightarrow> 'u \<Rightarrow> bool) \<Rightarrow> u32 \<Rightarrow> nat \<Rightarrow> 'u \<times> grpc_chttp2_stream_map \<Rightarrow>
    'u \<times> grpc_chttp2_stream_map" where
  "visitor g d k v s =
     (g k v (fst s), if d k v (fst s) then (case grpc_chttp2_stream_map_delete (snd s) k of
                                          Some (_, m) \<Rightarrow> m | None \<Rightarrow> snd s) else snd s)"

text \<open>The same on the specification: a finite map.\<close>

definition visit :: "(u32 \<Rightarrow> nat \<Rightarrow> 'u \<Rightarrow> 'u) \<Rightarrow> (u32 \<Rightarrow> nat \<Rightarrow> 'u \<Rightarrow> bool) \<Rightarrow> u32 \<times> nat \<Rightarrow> 'u \<times> (u32 \<Rightarrow> nat option) \<Rightarrow>
    'u \<times> (u32 \<Rightarrow> nat option)" where
  "visit g d p s = (g (fst p) (snd p) (fst s), if d (fst p) (snd p) (fst s) then (snd s)(fst p := None) else snd s)"

lemma for_each_from_ok:
  "stream_map_wf m \<Longrightarrow> i \<le> count m \<Longrightarrow>
    \<exists>u' m'. for_each_from (visitor g d) i (u, m) = Some (u', m') \<and> stream_map_wf m' \<and>
      (u', entries m') = fold (visit g d) (live (drop i (slots m))) (u, entries m)"
proof (induction "count m - i" arbitrary: i u m)
  case 0
  then have "for_each_from (visitor g d) i (u, m) = Some (u, m)" by (subst for_each_from.simps) simp
  then show ?case using 0 length_slots [of m] by simp
next
  case (Suc j)
  then have i: "i < count m" by simp
  let ?k = "keys m ! i" let ?v = "vals m ! i"
  have d: "drop i (slots m) = (?k, ?v) # drop (i + 1) (slots m)"
    using i length_slots [OF Suc.prems(1)] slots_nth [OF Suc.prems(1) i] by (subst Cons_nth_drop_Suc [symmetric]) simp_all
  have step: "for_each_from (visitor g d) i (u, m) =
      for_each_from (visitor g d) (i + 1) (if ?v \<noteq> 0 then visitor g d ?k ?v (u, m) else (u, m))"
    using i by (subst for_each_from.simps) simp
  show ?case
  proof (cases "?v \<noteq> 0 \<and> d ?k ?v u")
    case False
    let ?u = "if ?v \<noteq> 0 then g ?k ?v u else u"
    have "(if ?v \<noteq> 0 then visitor g d ?k ?v (u, m) else (u, m)) = (?u, m)" using False by (auto simp: visitor_def)
    with step have st: "for_each_from (visitor g d) i (u, m) = for_each_from (visitor g d) (i + 1) (?u, m)" by (simp only:)
    have "fold (visit g d) (live (drop i (slots m))) (u, entries m) =
        fold (visit g d) (live (drop (i + 1) (slots m))) (?u, entries m)"
      using False by (auto simp: d visit_def)
    with st Suc.hyps(1) [of m "i + 1" ?u] Suc.hyps(2) Suc.prems i show ?thesis by simp
  next
    case True
    from delete_slot [OF Suc.prems(1) i refl] obtain m1 where
      m1: "grpc_chttp2_stream_map_delete m ?k = Some (?v, m1)" "stream_map_wf m1" "entries m1 = (entries m)(?k := None)"
        "count m1 = count m \<and> slots m1 = (slots m)[i := (?k, 0)] \<or> count m1 = 0 \<and> live (drop (i + 1) (slots m)) = []"
      by blast
    have st: "for_each_from (visitor g d) i (u, m) = for_each_from (visitor g d) (i + 1) (g ?k ?v u, m1)"
      using True step m1(1) by (simp add: visitor_def)
    have fd: "fold (visit g d) (live (drop i (slots m))) (u, entries m) =
        fold (visit g d) (live (drop (i + 1) (slots m))) (g ?k ?v u, entries m1)"
      using True by (simp add: d visit_def m1(3))
    from m1(4) show ?thesis
    proof
      assume c: "count m1 = count m \<and> slots m1 = (slots m)[i := (?k, 0)]"
      then have "drop (i + 1) (slots m1) = drop (i + 1) (slots m)" by simp
      with st fd Suc.hyps(1) [of m1 "i + 1" "g ?k ?v u"] Suc.hyps(2) m1(2) c i show ?thesis by simp
    next
      assume c: "count m1 = 0 \<and> live (drop (i + 1) (slots m)) = []"
      then have "for_each_from (visitor g d) (i + 1) (g ?k ?v u, m1) = Some (g ?k ?v u, m1)"
        by (subst for_each_from.simps) simp
      with st fd c m1(2) show ?thesis by simp
    qed
  qed
qed

section \<open>Runs\<close>

datatype stream_call = Map_add u32 nat | Map_delete u32 | Map_find u32 | Map_size | Map_rand nat

definition map_step :: "(nat \<Rightarrow> u32 \<times> nat) \<Rightarrow> stream_call \<Rightarrow> grpc_chttp2_stream_map \<Rightarrow> (nat \<times> grpc_chttp2_stream_map) option" where
  "map_step fresh c m =
     (case c of
        Map_add k v \<Rightarrow> map_option (Pair 0) (grpc_chttp2_stream_map_add fresh m k v)
      | Map_delete k \<Rightarrow> grpc_chttp2_stream_map_delete m k
      | Map_find k \<Rightarrow> Some (grpc_chttp2_stream_map_find m k, m)
      | Map_size \<Rightarrow> Some (grpc_chttp2_stream_map_size m, m)
      | Map_rand random \<Rightarrow> grpc_chttp2_stream_map_rand random m)"

fun map_calls :: "(nat \<Rightarrow> u32 \<times> nat) \<Rightarrow> stream_call list \<Rightarrow> grpc_chttp2_stream_map \<Rightarrow> (nat list \<times> grpc_chttp2_stream_map) option" where
  "map_calls fresh [] m = Some ([], m)"
| "map_calls fresh (c # cs) m =
     Option.bind (map_step fresh c m) (\<lambda>(r, m). map_option (\<lambda>(rs, m). (r # rs, m)) (map_calls fresh cs m))"

text \<open>The specification: what a call may answer, and the map after it.\<close>

definition value_at :: "(u32 \<Rightarrow> nat option) \<Rightarrow> u32 \<Rightarrow> nat" where
  "value_at F k = (case F k of Some v \<Rightarrow> v | None \<Rightarrow> 0)"

definition answers :: "stream_call \<Rightarrow> (u32 \<Rightarrow> nat option) \<Rightarrow> nat \<Rightarrow> bool" where
  "answers c F r \<longleftrightarrow>
     (case c of
        Map_add k v \<Rightarrow> r = 0
      | Map_delete k \<Rightarrow> r = value_at F k
      | Map_find k \<Rightarrow> r = value_at F k
      | Map_size \<Rightarrow> r = card (dom F)
      | Map_rand random \<Rightarrow> if F = Map.empty then r = 0 else r \<in> ran F)"

definition after_call :: "stream_call \<Rightarrow> (u32 \<Rightarrow> nat option) \<Rightarrow> u32 \<Rightarrow> nat option" where
  "after_call c F = (case c of Map_add k v \<Rightarrow> F(k \<mapsto> v) | Map_delete k \<Rightarrow> F(k := None) | _ \<Rightarrow> F)"

fun all_answer :: "stream_call list \<Rightarrow> (u32 \<Rightarrow> nat option) \<Rightarrow> nat list \<Rightarrow> bool" where
  "all_answer [] F rs \<longleftrightarrow> rs = []"
| "all_answer (c # cs) F rs \<longleftrightarrow>
     (case rs of [] \<Rightarrow> False | r # rs \<Rightarrow> answers c F r \<and> all_answer cs (after_call c F) rs)"

text \<open>New keys are above all earlier ones, and new values are not null.\<close>

fun ascending_adds :: "u32 option \<Rightarrow> stream_call list \<Rightarrow> bool" where
  "ascending_adds hi [] \<longleftrightarrow> True"
| "ascending_adds hi (Map_add k v # cs) \<longleftrightarrow>
     (case hi of None \<Rightarrow> True | Some k' \<Rightarrow> k' < k) \<and> v \<noteq> 0 \<and> ascending_adds (Some k) cs"
| "ascending_adds hi (c # cs) \<longleftrightarrow> ascending_adds hi cs"

text \<open>Every key above the last one added is above all the keys of the arrays.\<close>

definition topped :: "u32 option \<Rightarrow> grpc_chttp2_stream_map \<Rightarrow> bool" where
  "topped hi m \<longleftrightarrow> (case hi of None \<Rightarrow> (\<forall>k. keys_below m k) | Some k' \<Rightarrow> \<forall>k. k' < k \<longrightarrow> keys_below m k)"

lemma map_step_ok:
  assumes wf: "stream_map_wf m" and hi: "topped hi m" and as: "ascending_adds hi (c # cs)"
    and N: "capacity m \<le> 2 * N" "count m + 1 \<le> N" "6 * N < 2 ^ 64"
  shows "\<exists>r m' hi'. map_step fresh c m = Some (r, m') \<and> stream_map_wf m' \<and> entries m' = after_call c (entries m) \<and>
    answers c (entries m) r \<and> capacity m' \<le> 2 * N \<and> count m' \<le> count m + 1 \<and> topped hi' m' \<and> ascending_adds hi' cs"
proof (cases c)
  case (Map_add k v)
  have kb: "keys_below m k" "v \<noteq> 0" using hi as Map_add by (auto simp: topped_def split: option.splits)
  have cap: "3 * capacity m < 2 ^ 64" using N by simp
  from add_ok [OF wf kb cap, of fresh] obtain m' where
    a: "grpc_chttp2_stream_map_add fresh m k v = Some m'" "stream_map_wf m'" "entries m' = (entries m)(k \<mapsto> v)"
      "capacity m' \<le> max (capacity m) (2 * count m)" "count m' \<le> count m + 1" "\<forall>x. k < x \<longrightarrow> keys_below m' x" by blast
  have "map_step fresh c m = Some (0, m')" "topped (Some k) m'" "ascending_adds (Some k) cs" "capacity m' \<le> 2 * N"
    using Map_add a as N by (simp_all add: map_step_def topped_def)
  with a(2,3,5) show ?thesis
    by (intro exI [of _ 0] exI [of _ m'] exI [of _ "Some k"]) (simp add: Map_add after_call_def answers_def)
next
  case (Map_delete k)
  from delete_ok [OF wf, of k] obtain m' where
    a: "grpc_chttp2_stream_map_delete m k = Some (value_at (entries m) k, m')" "stream_map_wf m'"
      "entries m' = (entries m)(k := None)" "capacity m' = capacity m" "count m' \<le> count m"
      "\<forall>x. keys_below m x \<longrightarrow> keys_below m' x" unfolding value_at_def by blast
  have "topped hi m'" using hi a(6) by (auto simp: topped_def split: option.splits)
  with a as N Map_delete show ?thesis
    by (intro exI [of _ "value_at (entries m) k"] exI [of _ m'] exI [of _ hi])
       (simp add: map_step_def after_call_def answers_def)
next
  case (Map_find k)
  with wf hi as N show ?thesis
    by (intro exI [of _ "value_at (entries m) k"] exI [of _ m] exI [of _ hi])
       (simp add: map_step_def after_call_def answers_def find_entries value_at_def)
next
  case Map_size
  with wf hi as N show ?thesis
    by (intro exI [of _ "card (dom (entries m))"] exI [of _ m] exI [of _ hi])
       (simp add: map_step_def after_call_def answers_def size_ok)
next
  case (Map_rand random)
  from rand_ok [OF wf] obtain m' where
    a: "stream_map_wf m'" "entries m' = entries m" "capacity m' = capacity m" "count m' \<le> count m"
      "\<forall>k. keys_below m k \<longrightarrow> keys_below m' k" and
    r: "if entries m = Map.empty then m' = m \<and> (\<forall>random. grpc_chttp2_stream_map_rand random m = Some (0, m))
        else (\<forall>random. \<exists>v \<in> ran (entries m). grpc_chttp2_stream_map_rand random m = Some (v, m')) \<and>
          (\<forall>v \<in> ran (entries m). \<exists>random. grpc_chttp2_stream_map_rand random m = Some (v, m'))" by blast
  from r obtain v where v: "grpc_chttp2_stream_map_rand random m = Some (v, m')"
    "if entries m = Map.empty then v = 0 else v \<in> ran (entries m)" by (auto split: if_splits)
  have "topped hi m'" using hi a(5) by (auto simp: topped_def split: option.splits)
  with v a as N Map_rand show ?thesis
    by (intro exI [of _ v] exI [of _ m'] exI [of _ hi]) (simp add: map_step_def after_call_def answers_def)
qed

lemma map_calls_ok:
  "stream_map_wf m \<Longrightarrow> topped hi m \<Longrightarrow> ascending_adds hi cs \<Longrightarrow> capacity m \<le> 2 * N \<Longrightarrow> count m + length cs \<le> N \<Longrightarrow>
    6 * N < 2 ^ 64 \<Longrightarrow>
    \<exists>rs m'. map_calls fresh cs m = Some (rs, m') \<and> stream_map_wf m' \<and> entries m' = fold after_call cs (entries m) \<and>
      all_answer cs (entries m) rs"
proof (induction cs arbitrary: m hi)
  case (Cons c cs)
  have "count m + 1 \<le> N" using Cons.prems(5) by simp
  from map_step_ok [OF Cons.prems(1-4) this Cons.prems(6), of fresh] obtain r m1 hi1 where
    s: "map_step fresh c m = Some (r, m1)" "stream_map_wf m1" "entries m1 = after_call c (entries m)"
      "answers c (entries m) r" "capacity m1 \<le> 2 * N" "count m1 \<le> count m + 1" "topped hi1 m1" "ascending_adds hi1 cs" by blast
  have "count m1 + length cs \<le> N" using s(6) Cons.prems(5) by simp
  from Cons.IH [OF s(2,7,8,5) this Cons.prems(6)] obtain rs m' where
    "map_calls fresh cs m1 = Some (rs, m')" "stream_map_wf m'" "entries m' = fold after_call cs (entries m1)"
    "all_answer cs (entries m1) rs" by blast
  with s show ?case by (intro exI [of _ "r # rs"] exI [of _ m']) simp
qed simp

lemma init_ok:
  assumes "1 < n"
  shows "\<exists>m. grpc_chttp2_stream_map_init fresh n = Some m \<and> stream_map_wf m \<and> entries m = Map.empty \<and> topped None m \<and>
    capacity m = n \<and> count m = 0"
  using assms
  by (auto simp: grpc_chttp2_stream_map_init_def stream_map_wf_def entries_def slots_def topped_def keys_below_def)

end
