(* ===== verification/Alts_Frames.thy ===== *)
theory Alts_Frames
  imports Prelude
begin

text \<open>
  The frames of the ALTS record protocol of gRPC (\<open>gRPC-Core/src/core/tsi/alts/frame_protector/frame_handler.cc\<close>) and
  the counters of its crypters (\<open>alts_counter.cc\<close>).

  A pointer to input is the bytes from it on, None the null pointer; advancing it drops bytes. What a call writes at
  its output pointer is a list of bytes it returns; the pointer the reader keeps is an address. \<open>*bytes_size\<close> is a
  number, or None for a null pointer.
\<close>

section \<open>State\<close>

definition kFrameMessageType :: nat where "kFrameMessageType = 0x06"
definition kFrameLengthFieldSize :: nat where "kFrameLengthFieldSize = 4"
definition kFrameMessageTypeFieldSize :: nat where "kFrameMessageTypeFieldSize = 4"
definition kFrameMaxSize :: nat where "kFrameMaxSize = 1024 * 1024"
definition kFrameHeaderSize :: nat where "kFrameHeaderSize = kFrameLengthFieldSize + kFrameMessageTypeFieldSize"

record alts_frame_writer =
  input_buffer :: "bytes option"
  w_header_buffer :: bytes
  input_bytes_written :: nat
  header_bytes_written :: nat
  input_size :: nat

record alts_frame_reader =
  output_buffer :: "nat option"
  header_buffer :: bytes
  header_bytes_read :: nat
  output_bytes_read :: nat
  bytes_remaining :: nat

definition load_32_le :: "bytes \<Rightarrow> u32" where
  "load_32_le buffer =
     push_bit 24 (ucast (buffer ! 3)) OR push_bit 16 (ucast (buffer ! 2)) OR push_bit 8 (ucast (buffer ! 1)) OR
     ucast (buffer ! 0)"

definition store_32_le :: "u32 \<Rightarrow> bytes" where
  "store_32_le v =
     [ucast v AND 0xFF, ucast (drop_bit 8 v) AND 0xFF, ucast (drop_bit 16 v) AND 0xFF, ucast (drop_bit 24 v) AND 0xFF]"

section \<open>The writer\<close>

definition alts_create_frame_writer :: alts_frame_writer where
  "alts_create_frame_writer =
     \<lparr>input_buffer = None, w_header_buffer = replicate kFrameHeaderSize 0, input_bytes_written = 0,
      header_bytes_written = 0, input_size = 0\<rparr>"

definition alts_is_frame_writer_done :: "alts_frame_writer \<Rightarrow> bool" where
  "alts_is_frame_writer_done w \<longleftrightarrow> input_buffer w = None \<or> input_size w = input_bytes_written w"

definition alts_reset_frame_writer :: "alts_frame_writer \<Rightarrow> bytes option \<Rightarrow> nat \<Rightarrow> bool \<times> alts_frame_writer" where
  "alts_reset_frame_writer w buffer len =
     (if buffer = None then (False, w)
      else
        let max_input_size = 2 ^ 64 - 1 - kFrameLengthFieldSize in
        if max_input_size < len then (False, w)
        else
          (True,
           w\<lparr>input_buffer := buffer, input_size := len, input_bytes_written := 0, header_bytes_written := 0,
             w_header_buffer := store_32_le (of_nat (add_size len kFrameMessageTypeFieldSize)) @
               store_32_le (of_nat kFrameMessageType)\<rparr>))"

text \<open>The bytes copied to the output, \<open>*bytes_size\<close> after the call, and the writer. \<open>output\<close> is whether there is an
  output pointer.\<close>

definition write_payload :: "alts_frame_writer \<Rightarrow> bytes \<Rightarrow> nat \<Rightarrow> bool \<times> bytes \<times> nat option \<times> alts_frame_writer" where
  "write_payload w written bytes_size =
     (let bytes_to_write = min (input_size w - input_bytes_written w) bytes_size;
          input = the (input_buffer w);
          written = written @ take bytes_to_write input
      in (True, written, Some (length written),
          w\<lparr>input_buffer := Some (drop bytes_to_write input),
            input_bytes_written := input_bytes_written w + bytes_to_write\<rparr>))"

definition alts_write_frame_bytes :: "alts_frame_writer \<Rightarrow> bool \<Rightarrow> nat option \<Rightarrow>
    bool \<times> bytes \<times> nat option \<times> alts_frame_writer" where
  "alts_write_frame_bytes w output bytes_size =
     (case bytes_size of
        None \<Rightarrow> (False, [], bytes_size, w)
      | Some n \<Rightarrow>
          if \<not> output then (False, [], bytes_size, w)
          else if alts_is_frame_writer_done w then (True, [], Some 0, w)
          else if header_bytes_written w \<noteq> kFrameHeaderSize then
            let bytes_to_write = min n (kFrameHeaderSize - header_bytes_written w);
                written = take bytes_to_write (drop (header_bytes_written w) (w_header_buffer w));
                n = n - bytes_to_write;
                w = w\<lparr>header_bytes_written := header_bytes_written w + bytes_to_write\<rparr>
            in if header_bytes_written w \<noteq> kFrameHeaderSize then (True, written, Some bytes_to_write, w)
               else write_payload w written n
          else write_payload w [] n)"

definition alts_get_num_writer_bytes_remaining :: "alts_frame_writer \<Rightarrow> nat" where
  "alts_get_num_writer_bytes_remaining w =
     (kFrameHeaderSize - header_bytes_written w) + (input_size w - input_bytes_written w)"

section \<open>The reader\<close>

definition alts_create_frame_reader :: alts_frame_reader where
  "alts_create_frame_reader =
     \<lparr>output_buffer = None, header_buffer = replicate kFrameHeaderSize 0, header_bytes_read = 0, output_bytes_read = 0,
      bytes_remaining = 0\<rparr>"

definition alts_is_frame_reader_done :: "alts_frame_reader \<Rightarrow> bool" where
  "alts_is_frame_reader_done r \<longleftrightarrow>
     output_buffer r = None \<or> header_bytes_read r = kFrameHeaderSize \<and> bytes_remaining r = 0"

definition alts_has_read_frame_length :: "alts_frame_reader \<Rightarrow> bool" where
  "alts_has_read_frame_length r \<longleftrightarrow> kFrameHeaderSize = header_bytes_read r"

definition alts_get_reader_bytes_remaining :: "alts_frame_reader \<Rightarrow> nat" where
  "alts_get_reader_bytes_remaining r = (if alts_has_read_frame_length r then bytes_remaining r else 0)"

definition alts_reset_reader_output_buffer :: "alts_frame_reader \<Rightarrow> nat option \<Rightarrow> alts_frame_reader" where
  "alts_reset_reader_output_buffer r buffer = r\<lparr>output_buffer := buffer\<rparr>"

definition alts_reset_frame_reader :: "alts_frame_reader \<Rightarrow> nat option \<Rightarrow> bool \<times> alts_frame_reader" where
  "alts_reset_frame_reader r buffer =
     (if buffer = None then (False, r)
      else (True, r\<lparr>output_buffer := buffer, bytes_remaining := 0, header_bytes_read := 0, output_bytes_read := 0\<rparr>))"

definition alts_get_output_bytes_read :: "alts_frame_reader \<Rightarrow> nat" where
  "alts_get_output_bytes_read r = output_bytes_read r"

definition alts_get_output_buffer :: "alts_frame_reader \<Rightarrow> nat option" where
  "alts_get_output_buffer r = output_buffer r"

text \<open>The result, the bytes written at the output pointer, \<open>*bytes_size\<close> after the call, and the reader.\<close>

definition read_payload :: "alts_frame_reader \<Rightarrow> bytes \<Rightarrow> nat \<Rightarrow> nat \<Rightarrow> bool \<times> bytes \<times> nat option \<times> alts_frame_reader" where
  "read_payload r input n bytes_processed =
     (let bytes_to_write = min n (bytes_remaining r)
      in (True, take bytes_to_write input, Some (bytes_processed + bytes_to_write),
          r\<lparr>output_buffer := map_option (\<lambda>a. a + bytes_to_write) (output_buffer r),
            bytes_remaining := bytes_remaining r - bytes_to_write,
            output_bytes_read := output_bytes_read r + bytes_to_write\<rparr>))"

definition alts_read_frame_bytes :: "alts_frame_reader \<Rightarrow> bytes option \<Rightarrow> nat option \<Rightarrow>
    bool \<times> bytes \<times> nat option \<times> alts_frame_reader" where
  "alts_read_frame_bytes r input bytes_size =
     (case bytes_size of
        None \<Rightarrow> (False, [], None, r)
      | Some n \<Rightarrow>
          (case input of
             None \<Rightarrow> (False, [], Some 0, r)
           | Some bs \<Rightarrow>
               if alts_is_frame_reader_done r then (True, [], Some 0, r)
               else if header_bytes_read r \<noteq> kFrameHeaderSize then
                 let bytes_to_write = min n (kFrameHeaderSize - header_bytes_read r);
                     r = r\<lparr>header_buffer := take (header_bytes_read r) (header_buffer r) @ take bytes_to_write bs @
                              drop (header_bytes_read r + bytes_to_write) (header_buffer r),
                           header_bytes_read := header_bytes_read r + bytes_to_write\<rparr>;
                     bs = drop bytes_to_write bs;
                     n = n - bytes_to_write
                 in if header_bytes_read r \<noteq> kFrameHeaderSize then (True, [], Some bytes_to_write, r)
                    else
                      let frame_length = unat (load_32_le (header_buffer r)) in
                      if frame_length < kFrameMessageTypeFieldSize \<or> kFrameMaxSize < frame_length
                      then (False, [], Some 0, r)
                      else if unat (load_32_le (drop kFrameLengthFieldSize (header_buffer r))) \<noteq> kFrameMessageType
                      then (False, [], Some 0, r)
                      else read_payload (r\<lparr>bytes_remaining := frame_length - kFrameMessageTypeFieldSize\<rparr>) bs n bytes_to_write
               else read_payload r bs n 0))"

section \<open>The counter\<close>

record alts_counter =
  counter_size :: nat
  overflow_size :: nat
  counter :: bytes

datatype grpc_status_code =
  GRPC_STATUS_OK | GRPC_STATUS_INVALID_ARGUMENT | GRPC_STATUS_FAILED_PRECONDITION | GRPC_STATUS_INTERNAL

text \<open>\<open>out\<close> is whether there is a pointer for the new counter.\<close>

definition alts_counter_create :: "bool \<Rightarrow> nat \<Rightarrow> nat \<Rightarrow> bool \<Rightarrow> grpc_status_code \<times> alts_counter option" where
  "alts_counter_create is_client size_of_counter size_of_overflow out =
     (if size_of_counter = 0 then (GRPC_STATUS_INVALID_ARGUMENT, None)
      else if size_of_overflow = 0 \<or> size_of_counter \<le> size_of_overflow then (GRPC_STATUS_INVALID_ARGUMENT, None)
      else if \<not> out then (GRPC_STATUS_INVALID_ARGUMENT, None)
      else
        let bytes = replicate size_of_counter 0
        in (GRPC_STATUS_OK,
            Some \<lparr>counter_size = size_of_counter, overflow_size = size_of_overflow,
                  counter = (if is_client then bytes[size_of_counter - 1 := 0x80] else bytes)\<rparr>))"

function increment_loop :: "bytes \<Rightarrow> nat \<Rightarrow> nat \<Rightarrow> bytes \<times> nat" where
  "increment_loop c i n =
     (if i < n then
        let c = c[i := c ! i + 1] in if c ! i \<noteq> 0 then (c, i) else increment_loop c (i + 1) n
      else (c, i))"
  by pat_completeness auto
termination
  by (relation "measure (\<lambda>(_, i, n). n - i)") auto

declare increment_loop.simps [simp del]

text \<open>The status, \<open>*is_overflow\<close> unless it is not set, and the counter; \<open>overflow\<close> is whether there is a pointer for it.\<close>

definition alts_counter_increment :: "alts_counter option \<Rightarrow> bool \<Rightarrow> grpc_status_code \<times> bool option \<times> alts_counter option" where
  "alts_counter_increment crypter_counter overflow =
     (case crypter_counter of
        None \<Rightarrow> (GRPC_STATUS_INVALID_ARGUMENT, None, None)
      | Some c \<Rightarrow>
          if \<not> overflow then (GRPC_STATUS_INVALID_ARGUMENT, None, Some c)
          else
            (case increment_loop (counter c) 0 (overflow_size c) of
               (bytes, i) \<Rightarrow>
                 if i = overflow_size c then (GRPC_STATUS_FAILED_PRECONDITION, Some True, Some (c\<lparr>counter := bytes\<rparr>))
                 else (GRPC_STATUS_OK, Some False, Some (c\<lparr>counter := bytes\<rparr>))))"

definition alts_counter_get_size :: "alts_counter option \<Rightarrow> nat" where
  "alts_counter_get_size c = (case c of None \<Rightarrow> 0 | Some c \<Rightarrow> counter_size c)"

definition alts_counter_get_counter :: "alts_counter option \<Rightarrow> bytes option" where
  "alts_counter_get_counter c = map_option counter c"

section \<open>The header\<close>

lemma k_sizes [simp]: "kFrameHeaderSize = 8" "kFrameLengthFieldSize = 4" "kFrameMessageTypeFieldSize = 4"
  "kFrameMaxSize = 1048576" "kFrameMessageType = 6"
  by (simp_all add: kFrameHeaderSize_def kFrameLengthFieldSize_def kFrameMessageTypeFieldSize_def kFrameMaxSize_def
      kFrameMessageType_def)

lemma u8_and_0xFF: "(b :: u8) AND 0xFF = b"
proof -
  have "(0xFF :: u8) = - 1" by simp
  then show ?thesis by (simp only: and.right_neutral)
qed

lemma ucast_u8_u32: "(ucast (ucast (v :: u32) :: u8) :: u32) = take_bit 8 v"
  by (rule bit_word_eqI) (auto simp: bit_simps)

lemma length_store [simp]: "length (store_32_le v) = 4"
  by (simp add: store_32_le_def)

lemma load_store: "load_32_le (store_32_le v @ bs) = v"
proof -
  have "load_32_le (store_32_le v @ bs) = ((take_bit 8 v OR push_bit 8 (take_bit 8 (drop_bit 8 v))) OR
      push_bit 16 (take_bit 8 (drop_bit 16 v))) OR push_bit 24 (take_bit 8 (drop_bit 24 v))"
    by (simp add: load_32_le_def store_32_le_def u8_and_0xFF ucast_u8_u32 or.assoc or.commute or.left_commute
        del: push_bit_word_beyond)
  also have "\<dots> = v" by (simp add: take_bit_step take_bit_word_beyond)
  finally show ?thesis .
qed

lemma load_take: "4 \<le> n \<Longrightarrow> load_32_le (take n S) = load_32_le S"
  by (simp add: load_32_le_def)

lemma load_drop_take: "8 \<le> n \<Longrightarrow> load_32_le (drop 4 (take n S)) = load_32_le (drop 4 S)"
  by (simp add: load_32_le_def drop_take)

section \<open>Sequences of calls\<close>

text \<open>The chunks that calls with buffers of the sizes \<open>ns\<close> write.\<close>

fun write_chunks :: "alts_frame_writer \<Rightarrow> nat list \<Rightarrow> bytes list \<times> alts_frame_writer" where
  "write_chunks w [] = ([], w)"
| "write_chunks w (n # ns) =
     (case alts_write_frame_bytes w True (Some n) of
        (_, out, _, w) \<Rightarrow> (case write_chunks w ns of (cs, w) \<Rightarrow> (out # cs, w)))"

text \<open>Whether every call of a sequence of reads succeeds, until one fails, the bytes written, the number of bytes
  processed, and the reader.\<close>

fun read_chunks :: "alts_frame_reader \<Rightarrow> bytes list \<Rightarrow> bool \<times> bytes \<times> nat \<times> alts_frame_reader" where
  "read_chunks r [] = (True, [], 0, r)"
| "read_chunks r (c # cs) =
     (case alts_read_frame_bytes r (Some c) (Some (length c)) of
        (ok, out, n, r) \<Rightarrow>
          if ok then (case read_chunks r cs of (ok, out', n', r) \<Rightarrow> (ok, out @ out', the n + n', r))
          else (False, out, the n, r))"

section \<open>What the writer writes\<close>

definition frame_header :: "nat \<Rightarrow> bytes" where
  "frame_header len = store_32_le (of_nat (len + 4)) @ store_32_le 6"

lemma length_frame_header [simp]: "length (frame_header len) = 8"
  by (simp add: frame_header_def)

text \<open>The writer has written \<open>k\<close> bytes of the frame of the \<open>len\<close> first bytes of \<open>bs\<close>.\<close>

definition writer_at :: "bytes \<Rightarrow> nat \<Rightarrow> nat \<Rightarrow> alts_frame_writer \<Rightarrow> bool" where
  "writer_at bs len k w \<longleftrightarrow>
     w_header_buffer w = frame_header len \<and> header_bytes_written w = min k 8 \<and> input_bytes_written w = k - 8 \<and>
     input_size w = len \<and> input_buffer w = Some (drop (k - 8) bs)"

lemma reset_writer:
  "len + 4 < 2 ^ 64 \<Longrightarrow> \<exists>w'. alts_reset_frame_writer w (Some bs) len = (True, w') \<and> writer_at bs len 0 w'"
  by (simp add: alts_reset_frame_writer_def writer_at_def frame_header_def)

lemma write_step:
  assumes w: "writer_at bs len k w" and len: "0 < len" "len \<le> length bs" and k: "k \<le> 8 + len"
  shows "\<exists>n' w'. alts_write_frame_bytes w True (Some n) = (True, take n (drop k (frame_header len @ take len bs)), n', w') \<and>
    writer_at bs len (min (k + n) (8 + len)) w'"
proof -
  let ?fr = "frame_header len @ take len bs"
  have f: "w_header_buffer w = frame_header len" "header_bytes_written w = min k 8" "input_bytes_written w = k - 8"
    "input_size w = len" "input_buffer w = Some (drop (k - 8) bs)" using w by (simp_all add: writer_at_def)
  consider "k = 8 + len" | "k < 8" "k + n < 8" | "k < 8" "8 \<le> k + n" | "8 \<le> k" "k < 8 + len" using k by linarith
  then show ?thesis
  proof cases
    case 1
    then show ?thesis using f w by (auto simp: alts_write_frame_bytes_def alts_is_frame_writer_done_def)
  next
    case 2
    have nd: "\<not> alts_is_frame_writer_done w" using f 2 len by (simp add: alts_is_frame_writer_done_def)
    have out: "take n (drop k ?fr) = take n (drop k (frame_header len))" using 2 by simp
    have "min n (8 - k) = n" using 2 by simp
    then show ?thesis using nd f 2 len unfolding out
      by (simp add: alts_write_frame_bytes_def Let_def writer_at_def)
  next
    case 3
    let ?m = "min len (n - (8 - k))"
    have nd: "\<not> alts_is_frame_writer_done w" using f 3 len by (simp add: alts_is_frame_writer_done_def)
    have mn: "min n (8 - k) = 8 - k" "min k 8 = k" using 3 by simp_all
    have out: "take n (drop k ?fr) = drop k (frame_header len) @ take ?m bs"
      using 3 by (simp add: min.commute)
    have m: "min (k + n) (8 + len) = 8 + ?m" using 3 by simp
    show ?thesis using nd f 3 len unfolding out m
      by (simp add: alts_write_frame_bytes_def write_payload_def Let_def writer_at_def mn)
  next
    case 4
    define x where "x = min (len - (k - 8)) n"
    have nd: "\<not> alts_is_frame_writer_done w" using f 4 by (simp add: alts_is_frame_writer_done_def)
    have m: "min (k + n) (8 + len) = k + x" "x + (k - 8) = k + x - 8" "min k 8 = 8" "min (k + x) 8 = 8"
      "min (len + 8 - k) n = x" "x + k - 8 = k + x - 8"
      using 4 by (simp_all add: x_def)
    have out: "take n (drop k ?fr) = take x (drop (k - 8) bs)"
      using 4 by (simp add: drop_take x_def min.commute)
    show ?thesis using nd f 4 len unfolding out m(1)
      by (simp add: alts_write_frame_bytes_def write_payload_def Let_def writer_at_def m)
  qed
qed

lemma write_chunks_ok:
  assumes "writer_at bs len k w" and "0 < len" "len \<le> length bs" and "k \<le> 8 + len"
  shows "\<exists>cs w'. write_chunks w ns = (cs, w') \<and>
    concat cs = take (sum_list ns) (drop k (frame_header len @ take len bs)) \<and>
    writer_at bs len (min (k + sum_list ns) (8 + len)) w'"
  using assms
proof (induction ns arbitrary: k w)
  case Nil
  then show ?case by simp
next
  case (Cons n ns)
  let ?fr = "frame_header len @ take len bs" let ?k = "min (k + n) (8 + len)"
  from write_step [OF Cons.prems, of n] obtain n' w1 where
    s: "alts_write_frame_bytes w True (Some n) = (True, take n (drop k ?fr), n', w1)" "writer_at bs len ?k w1" by blast
  have "?k \<le> 8 + len" by simp
  from Cons.IH [OF s(2) Cons.prems(2,3) this] obtain cs w' where
    i: "write_chunks w1 ns = (cs, w')" "concat cs = take (sum_list ns) (drop ?k ?fr)"
      "writer_at bs len (min (?k + sum_list ns) (8 + len)) w'" by blast
  have l: "length ?fr = 8 + len" using Cons.prems(3) by simp
  have "take n (drop k ?fr) @ take (sum_list ns) (drop ?k ?fr) = take (n + sum_list ns) (drop k ?fr)"
  proof (cases "k + n \<le> 8 + len")
    case True
    then show ?thesis
      by (simp only: take_add [of n "sum_list ns"] drop_drop min_absorb1 add.commute [of n k])
  next
    case False
    with l have "drop ?k ?fr = []" "length (drop k ?fr) \<le> n" by auto
    then show ?thesis by (simp only: take_all take_Nil append_Nil2 trans_le_add1)
  qed
  moreover have "min (?k + sum_list ns) (8 + len) = min (k + (n + sum_list ns)) (8 + len)" by simp
  ultimately show ?case using s(1) i by (intro exI [of _ "take n (drop k ?fr) # cs"] exI [of _ w']) simp
qed

section \<open>What the reader reads\<close>

definition frame_length :: "bytes \<Rightarrow> nat" where
  "frame_length S = unat (load_32_le S)"

definition good_header :: "bytes \<Rightarrow> bool" where
  "good_header S \<longleftrightarrow> 4 \<le> frame_length S \<and> frame_length S \<le> kFrameMaxSize \<and> unat (load_32_le (drop 4 S)) = kFrameMessageType"

definition payload :: "bytes \<Rightarrow> bytes" where
  "payload S = take (frame_length S - 4) (drop 8 S)"

text \<open>The reader has processed the first \<open>k\<close> bytes of the stream \<open>S\<close>, and its output began at \<open>a\<close>.\<close>

definition reader_at :: "bytes \<Rightarrow> nat \<Rightarrow> nat \<Rightarrow> alts_frame_reader \<Rightarrow> bool" where
  "reader_at S a k r \<longleftrightarrow>
     k \<le> length S \<and> length (header_buffer r) = 8 \<and> header_bytes_read r = min k 8 \<and>
     take (min k 8) (header_buffer r) = take (min k 8) S \<and> output_buffer r = Some (a + (k - 8)) \<and>
     output_bytes_read r = k - 8 \<and>
     (8 \<le> k \<longrightarrow> good_header S \<and> k \<le> 4 + frame_length S \<and> bytes_remaining r = 4 + frame_length S - k)"

lemma reset_reader:
  "length (header_buffer r) = 8 \<Longrightarrow> \<exists>r'. alts_reset_frame_reader r (Some a) = (True, r') \<and> reader_at S a 0 r'"
  by (simp add: alts_reset_frame_reader_def reader_at_def)

lemma reader_done: "reader_at S a k r \<Longrightarrow> alts_is_frame_reader_done r \<longleftrightarrow> 8 \<le> k \<and> k = 4 + frame_length S"
  by (auto simp: reader_at_def alts_is_frame_reader_done_def min_def)

lemma read_done: "alts_is_frame_reader_done r \<Longrightarrow> read_chunks r cs = (True, [], 0, r)"
  by (induction cs) (simp_all add: alts_read_frame_bytes_def)

lemma chunk_fits: "drop k S = c @ rest \<Longrightarrow> k \<le> length S \<Longrightarrow> k + length c \<le> length S"
proof -
  assume "drop k S = c @ rest"
  from arg_cong [OF this, of length] have "length S - k = length c + length rest" by simp
  then show "k \<le> length S \<Longrightarrow> k + length c \<le> length S" by linarith
qed

text \<open>One read that does not complete the header, one that does, and one after it.\<close>

lemma read_header_part:
  assumes r: "reader_at S a k r" and c: "drop k S = c @ rest" and k: "k + length c < 8"
  shows "\<exists>r'. alts_read_frame_bytes r (Some c) (Some (length c)) = (True, [], Some (length c), r') \<and>
    reader_at S a (k + length c) r'"
proof -
  have kS: "k + length c \<le> length S" using chunk_fits [OF c] r by (simp add: reader_at_def)
  have f: "header_bytes_read r = k" "length (header_buffer r) = 8" "take k (header_buffer r) = take k S"
    "output_buffer r = Some a" "output_bytes_read r = 0" using r k by (simp_all add: reader_at_def)
  have nd: "\<not> alts_is_frame_reader_done r" using reader_done [OF r] k by simp
  have e: "take (k + length c) S = take k S @ c" by (simp add: take_add c)
  have m: "min (length c) (8 - k) = length c" "min (k + length c) 8 = k + length c" "min (length S) k = k"
    using k kS by simp_all
  show ?thesis using nd f k kS by (simp add: alts_read_frame_bytes_def Let_def reader_at_def m e)
qed

lemma read_header_end:
  assumes r: "reader_at S a k r" and c: "drop k S = c @ rest" and k: "k < 8" "8 \<le> k + length c"
  shows "if good_header S then
      \<exists>r'. alts_read_frame_bytes r (Some c) (Some (length c)) =
        (True, take (frame_length S - 4) (drop (8 - k) c), Some (min (k + length c) (4 + frame_length S) - k), r') \<and>
        reader_at S a (min (k + length c) (4 + frame_length S)) r'
    else \<exists>r'. alts_read_frame_bytes r (Some c) (Some (length c)) = (False, [], Some 0, r')"
proof -
  have kS: "k + length c \<le> length S" using chunk_fits [OF c] r by (simp add: reader_at_def)
  have f: "header_bytes_read r = k" "length (header_buffer r) = 8" "take k (header_buffer r) = take k S"
    "output_buffer r = Some a" "output_bytes_read r = 0" using r k by (simp_all add: reader_at_def)
  have nd: "\<not> alts_is_frame_reader_done r" using reader_done [OF r] k by simp
  let ?r = "r\<lparr>header_buffer := take 8 S, header_bytes_read := 8\<rparr>"
  have "take (k + (8 - k)) S = take k S @ take (8 - k) c" unfolding take_add c using k by simp
  then have e8: "take k S @ take (8 - k) c = take 8 S" using k by simp
  have st: "alts_read_frame_bytes r (Some c) (Some (length c)) =
      (if frame_length S < 4 \<or> 1048576 < frame_length S then (False, [], Some 0, ?r)
       else if unat (load_32_le (drop 4 S)) \<noteq> 6 then (False, [], Some 0, ?r)
       else read_payload (?r\<lparr>bytes_remaining := frame_length S - 4\<rparr>) (drop (8 - k) c) (length c - (8 - k)) (8 - k))"
    using nd f k by (simp add: alts_read_frame_bytes_def Let_def e8 load_take load_drop_take frame_length_def min_absorb2)
  show ?thesis
  proof (cases "good_header S")
    case False
    with st show ?thesis by (auto simp: good_header_def)
  next
    case True
    define m where "m = min (length c - (8 - k)) (frame_length S - 4)"
    have fl: "4 \<le> frame_length S" using True by (simp add: good_header_def)
    have le: "8 + m \<le> length S" "m \<le> frame_length S - 4" "4 + m \<le> frame_length S"
      and mn: "min (length c + k - 8) (frame_length S - 4) = m" using k kS fl by (simp_all add: m_def)
    have m: "min (k + length c) (4 + frame_length S) = 8 + m"
      "take (frame_length S - 4) (drop (8 - k) c) = take m (drop (8 - k) c)"
      using k fl by (simp_all add: m_def min_def) linarith?
    have "alts_read_frame_bytes r (Some c) (Some (length c)) =
        read_payload (?r\<lparr>bytes_remaining := frame_length S - 4\<rparr>) (drop (8 - k) c) (length c - (8 - k)) (8 - k)"
      using st True by (simp add: good_header_def)
    then show ?thesis using True f k kS le unfolding m
      by (simp add: read_payload_def Let_def reader_at_def mn)
  qed
qed

lemma read_body:
  assumes r: "reader_at S a k r" and c: "drop k S = c @ rest" and k: "8 \<le> k"
  shows "\<exists>r'. alts_read_frame_bytes r (Some c) (Some (length c)) =
      (True, take (4 + frame_length S - k) c, Some (min (k + length c) (4 + frame_length S) - k), r') \<and>
      reader_at S a (min (k + length c) (4 + frame_length S)) r'"
proof (cases "k = 4 + frame_length S")
  case True
  with r k show ?thesis by (simp add: alts_read_frame_bytes_def reader_done [OF r])
next
  case False
  have kS: "k + length c \<le> length S" using chunk_fits [OF c] r by (simp add: reader_at_def)
  have nd: "\<not> alts_is_frame_reader_done r" using reader_done [OF r] False by simp
  have f: "header_bytes_read r = 8" "length (header_buffer r) = 8" "take 8 (header_buffer r) = take 8 S"
    "output_buffer r = Some (a + (k - 8))" "output_bytes_read r = k - 8" "good_header S" "k \<le> 4 + frame_length S"
    "bytes_remaining r = 4 + frame_length S - k" using r k by (simp_all add: reader_at_def)
  define m where "m = min (length c) (4 + frame_length S - k)"
  have le: "m \<le> length c" "k + m \<le> 4 + frame_length S" using f(7) by (simp_all add: m_def)
  have m: "min (k + length c) (4 + frame_length S) = k + m" "take (4 + frame_length S - k) c = take m c"
    using f(7) by (simp_all add: m_def min_def) linarith?
  have "alts_read_frame_bytes r (Some c) (Some (length c)) = read_payload r c (length c) 0"
    using nd f by (simp add: alts_read_frame_bytes_def)
  then show ?thesis unfolding m using f k kS le
    by (simp add: read_payload_def Let_def reader_at_def m_def [symmetric]) linarith?
qed

lemma read_past_header:
  assumes r: "reader_at S a k r" and c: "drop k S = c @ rest" and k: "8 \<le> k + length c" and g: "good_header S"
  shows "\<exists>r'. alts_read_frame_bytes r (Some c) (Some (length c)) =
      (True, take (4 + frame_length S - max k 8) (drop (8 - k) c), Some (min (k + length c) (4 + frame_length S) - k), r') \<and>
      reader_at S a (min (k + length c) (4 + frame_length S)) r'"
proof (cases "k < 8")
  case True
  then have "4 + frame_length S - max k 8 = frame_length S - 4" by (simp add: max_def)
  with read_header_end [OF r c True k] g show ?thesis by simp
next
  case False
  then have "max k 8 = k" "drop (8 - k) c = c" by simp_all
  with read_body [OF r c] False show ?thesis by simp
qed

lemma payload_from:
  assumes "drop k S = c @ rest" and "8 \<le> k + length c" and "4 \<le> frame_length S"
  shows "drop (k - 8) (payload S) = take (4 + frame_length S - max k 8) (drop (8 - k) c @ rest)"
proof -
  have "drop (k - 8) (payload S) = take (4 + frame_length S - max k 8) (drop (max k 8) S)"
    using assms(3) by (cases "k \<le> 8") (simp_all add: payload_def drop_take max_def add.commute)
  moreover have "drop (max k 8) S = drop (8 - k) (drop k S)" by (simp add: max_def)
  ultimately show ?thesis using assms(2) by (simp add: assms(1))
qed

lemma read_chunks_ok:
  assumes "reader_at S a k r" and "drop k S = concat cs" and "8 \<le> length S" and "good_header S"
  shows "\<exists>r'. read_chunks r cs =
      (True, drop (k - 8) (payload S), min (length S) (4 + frame_length S) - k, r') \<and>
    reader_at S a (min (length S) (4 + frame_length S)) r'"
  using assms(1,2)
proof (induction cs arbitrary: k r)
  case Nil
  have "k \<le> length S" "length S \<le> k" using Nil by (simp_all add: reader_at_def)
  then have k: "k = length S" by simp
  then have "min (length S) (4 + frame_length S) = k" using Nil(1) assms(3) by (simp add: reader_at_def)
  moreover have "drop (k - 8) (payload S) = []" by (simp add: payload_def k)
  ultimately show ?case using Nil(1) by simp
next
  case (Cons c cs)
  let ?N = "4 + frame_length S"
  have c: "drop k S = c @ concat cs" using Cons.prems(2) by simp
  have next_drop: "drop (k + length c) S = concat cs" using arg_cong [OF c, of "drop (length c)"] by (simp add: add.commute)
  have kS: "k + length c \<le> length S" using chunk_fits [OF c] Cons.prems(1) by (simp add: reader_at_def)
  have fl: "4 \<le> frame_length S" using assms(4) by (simp add: good_header_def)
  show ?case
  proof (cases "k + length c < 8")
    case True
    from read_header_part [OF Cons.prems(1) c True] obtain r1 where
      s: "alts_read_frame_bytes r (Some c) (Some (length c)) = (True, [], Some (length c), r1)" "reader_at S a (k + length c) r1"
      by blast
    from Cons.IH [OF s(2) next_drop] obtain r' where
      "read_chunks r1 cs = (True, drop (k + length c - 8) (payload S), min (length S) ?N - (k + length c), r')"
      "reader_at S a (min (length S) ?N) r'" by blast
    moreover have "length c + (min (length S) ?N - (k + length c)) = min (length S) ?N - k"
      using True assms(3) fl by simp
    ultimately show ?thesis using s(1) True by simp
  next
    case False
    let ?k = "min (k + length c) ?N" let ?out = "take (?N - max k 8) (drop (8 - k) c)"
    from read_past_header [OF Cons.prems(1) c _ assms(4)] False obtain r1 where
      s: "alts_read_frame_bytes r (Some c) (Some (length c)) = (True, ?out, Some (?k - k), r1)" "reader_at S a ?k r1" by auto
    note pay = payload_from [OF c _ fl]
    show ?thesis
    proof (cases "?N \<le> k + length c")
      case True
      then have k1: "?k = ?N" by simp
      have "alts_is_frame_reader_done r1" using reader_done [OF s(2)] fl by (simp add: k1)
      then have rd: "read_chunks r1 cs = (True, [], 0, r1)" by (rule read_done)
      have "drop (k - 8) (payload S) = ?out" using pay True False by simp
      moreover have "min (length S) ?N = ?N" using kS True by simp
      ultimately show ?thesis using s rd by (simp add: k1)
    next
      case notend: False
      then have k1: "?k = k + length c" by simp
      from Cons.IH [OF s(2) [unfolded k1] next_drop] obtain r' where
        i: "read_chunks r1 cs = (True, drop (k + length c - 8) (payload S), min (length S) ?N - (k + length c), r')"
          "reader_at S a (min (length S) ?N) r'" by blast
      have out: "?out = drop (8 - k) c" using notend False fl by (auto simp: max_def)
      have "length c - (8 - k) + (k - 8) = k + length c - 8" using False by linarith
      then have "drop (k + length c - 8) (payload S) = drop (length (drop (8 - k) c)) (drop (k - 8) (payload S))"
        by (simp only: drop_drop length_drop)
      then have "drop (8 - k) c @ drop (k + length c - 8) (payload S) = drop (k - 8) (payload S)"
        using pay False notend by simp
      moreover have "length c + (min (length S) ?N - (k + length c)) = min (length S) ?N - k" using kS notend by simp
      ultimately show ?thesis using s(1) i by (simp add: k1 out)
    qed
  qed
qed

lemma read_chunks_bad:
  assumes "reader_at S a k r" and "drop k S = concat cs" and "8 \<le> length S" and "\<not> good_header S" and "k < 8"
  shows "\<exists>n r'. read_chunks r cs = (False, [], n, r')"
  using assms(1,2,5)
proof (induction cs arbitrary: k r)
  case Nil
  then show ?case using assms(3) by simp
next
  case (Cons c cs)
  have c: "drop k S = c @ concat cs" using Cons.prems(2) by simp
  have next_drop: "drop (k + length c) S = concat cs" using arg_cong [OF c, of "drop (length c)"] by (simp add: add.commute)
  show ?case
  proof (cases "k + length c < 8")
    case True
    from read_header_part [OF Cons.prems(1) c True] obtain r1 where
      "alts_read_frame_bytes r (Some c) (Some (length c)) = (True, [], Some (length c), r1)" "reader_at S a (k + length c) r1"
      by blast
    with Cons.IH [OF _ next_drop True] show ?thesis by fastforce
  next
    case False
    with read_header_end [OF Cons.prems(1) c Cons.prems(3)] assms(4) show ?thesis by auto
  qed
qed

section \<open>The counter\<close>

text \<open>The number a counter holds in its first bytes, least significant first.\<close>

primrec le_val :: "bytes \<Rightarrow> nat" where
  "le_val [] = 0"
| "le_val (b # bs) = unat b + 256 * le_val bs"

lemma le_val_less: "le_val bs < 256 ^ length bs"
proof (induction bs)
  case (Cons b bs)
  then show ?case using u8_less [of b] by simp
qed simp

lemma le_val_replicate [simp]: "le_val (replicate n 0) = 0"
  by (induction n) simp_all

lemma unat_inc_mod: "unat ((b :: u8) + 1) = (unat b + 1) mod 256"
  by (simp add: unat_word_ariths)

lemma inc_zero: "(b :: u8) + 1 = 0 \<longleftrightarrow> unat b = 255"
proof -
  have "(b :: u8) + 1 = 0 \<longleftrightarrow> (unat b + 1) mod 256 = 0" by (simp add: unat_inc_mod flip: unat_eq_0)
  also have "\<dots> \<longleftrightarrow> unat b = 255" using u8_less [of b] by (cases "unat b = 255") auto
  finally show ?thesis .
qed

lemma unat_inc: "unat ((b :: u8) + 1) = (if b + 1 = 0 then 0 else unat b + 1)"
  using u8_less [of b] inc_zero [of b] by (auto simp: unat_inc_mod)

text \<open>The loop adds one to the number in the bytes from \<open>i\<close> to \<open>n\<close>, and ends at \<open>n\<close> exactly if it overflows.\<close>

lemma increment_loop_ok:
  assumes "i \<le> n" and "n \<le> length c" and "increment_loop c i n = (c', j)"
  shows "length c' = length c \<and> take i c' = take i c \<and> drop n c' = drop n c \<and>
    le_val (take (n - i) (drop i c')) = (le_val (take (n - i) (drop i c)) + 1) mod 256 ^ (n - i) \<and>
    (j = n \<longleftrightarrow> le_val (take (n - i) (drop i c)) + 1 = 256 ^ (n - i))"
  using assms
proof (induction c i n arbitrary: c' j rule: increment_loop.induct)
  case (1 c i n)
  show ?case
  proof (cases "i < n")
    case False
    with "1.prems" show ?thesis by (subst (asm) increment_loop.simps) simp
  next
    case True
    let ?b = "c ! i + 1" let ?c = "c[i := ?b]"
    define m where "m = n - Suc i"
    have n: "n - i = Suc m" "n - (i + 1) = m" using True by (simp_all add: m_def)
    have il: "i < length c" using True "1.prems"(2) by simp
    have d: "take (Suc m) (drop i xs) = xs ! i # take m (drop (i + 1) xs)" if "length xs = length c" for xs :: bytes
      using il that by (simp flip: Cons_nth_drop_Suc)
    have less: "le_val (take m (drop (i + 1) xs)) < 256 ^ m" for xs
      by (rule less_le_trans [OF le_val_less power_increasing]) simp_all
    show ?thesis
    proof (cases "?b \<noteq> 0")
      case nz: True
      have e: "c' = ?c" "j = i" using "1.prems"(3) True nz il by (subst (asm) increment_loop.simps; simp)+
      have "unat (c ! i) + 1 < 256" using nz unat_inc [of "c ! i"] u8_less [of ?b] by simp
      then have "unat (c ! i) + 256 * le_val (take m (drop (i + 1) c)) + 1 < 256 * 256 ^ m"
        using less [of c] by linarith
      then show ?thesis using True nz il unat_inc [of "c ! i"] unfolding e n
        by (simp add: d drop_update_cancel)
    next
      case z: False
      have r: "increment_loop ?c (i + 1) n = (c', j)"
        using "1.prems"(3) True z il by (subst (asm) increment_loop.simps) simp
      have ih: "length c' = length c \<and> take (i + 1) c' = take (i + 1) ?c \<and> drop n c' = drop n ?c \<and>
          le_val (take m (drop (i + 1) c')) = (le_val (take m (drop (i + 1) ?c)) + 1) mod 256 ^ m \<and>
          (j = n \<longleftrightarrow> le_val (take m (drop (i + 1) ?c)) + 1 = 256 ^ m)"
        using "1.IH" [OF True refl _ _ _ r] z il "1.prems"(2) True unfolding n by simp
      have c'i: "c' ! i = 0" using ih il z by (metis less_add_one nth_list_update_eq nth_take)
      have t: "take i c' = take i c" using arg_cong [OF conjunct1 [OF conjunct2 [OF ih]], of "take i"] by simp
      have dc: "drop (i + 1) ?c = drop (i + 1) c" by simp
      let ?v = "le_val (take m (drop (i + 1) c))"
      have b: "unat (c ! i) = 255" using inc_zero z by simp
      have "256 * ((?v + 1) mod 256 ^ m) = (256 * (?v + 1)) mod (256 * 256 ^ m)" by (simp add: mult_mod_right)
      moreover have "Suc ?v = x \<longleftrightarrow> 256 + 256 * ?v = 256 * x" for x by auto
      ultimately show ?thesis using ih t c'i b il True unfolding n by (simp add: d dc)
    qed
  qed
qed

text \<open>The counter after \<open>k\<close> increments, and their statuses.\<close>

fun counter_after :: "nat \<Rightarrow> alts_counter \<Rightarrow> grpc_status_code list \<times> alts_counter" where
  "counter_after 0 c = ([], c)"
| "counter_after (Suc k) c =
     (case counter_after k c of
        (ss, c) \<Rightarrow>
          (case alts_counter_increment (Some c) True of
             (s, _, Some c) \<Rightarrow> (ss @ [s], c)
           | (s, _, None) \<Rightarrow> (ss @ [s], c)))"

definition counter_number :: "alts_counter \<Rightarrow> nat" where
  "counter_number c = le_val (take (overflow_size c) (counter c))"

lemma increment_ok:
  assumes "overflow_size c \<le> length (counter c)"
  shows "\<exists>bs. alts_counter_increment (Some c) True =
      (if counter_number c + 1 = 256 ^ overflow_size c then (GRPC_STATUS_FAILED_PRECONDITION, Some True, Some (c\<lparr>counter := bs\<rparr>))
       else (GRPC_STATUS_OK, Some False, Some (c\<lparr>counter := bs\<rparr>))) \<and>
    length bs = length (counter c) \<and> drop (overflow_size c) bs = drop (overflow_size c) (counter c) \<and>
    counter_number (c\<lparr>counter := bs\<rparr>) = (counter_number c + 1) mod 256 ^ overflow_size c"
proof -
  obtain bs j where l: "increment_loop (counter c) 0 (overflow_size c) = (bs, j)" by force
  from increment_loop_ok [OF _ assms l] show ?thesis
    by (intro exI [of _ bs]) (simp add: alts_counter_increment_def l counter_number_def)
qed

lemma counter_after_ok:
  assumes c: "overflow_size c \<le> length (counter c)" "counter_number c = 0" and k: "k < 256 ^ overflow_size c"
  shows "\<exists>bs. counter_after k c = (replicate k GRPC_STATUS_OK, c\<lparr>counter := bs\<rparr>) \<and> length bs = length (counter c) \<and>
    drop (overflow_size c) bs = drop (overflow_size c) (counter c) \<and> counter_number (c\<lparr>counter := bs\<rparr>) = k"
  using k
proof (induction k)
  case 0
  then show ?case using c by (intro exI [of _ "counter c"]) simp
next
  case (Suc k)
  then obtain bs where b: "counter_after k c = (replicate k GRPC_STATUS_OK, c\<lparr>counter := bs\<rparr>)" "length bs = length (counter c)"
    "drop (overflow_size c) bs = drop (overflow_size c) (counter c)" "counter_number (c\<lparr>counter := bs\<rparr>) = k" by auto
  have "overflow_size (c\<lparr>counter := bs\<rparr>) \<le> length (counter (c\<lparr>counter := bs\<rparr>))" using c(1) b(2) by simp
  from increment_ok [OF this] b(4) Suc.prems obtain bs' where
    "alts_counter_increment (Some (c\<lparr>counter := bs\<rparr>)) True = (GRPC_STATUS_OK, Some False, Some (c\<lparr>counter := bs'\<rparr>))"
    "length bs' = length bs" "drop (overflow_size c) bs' = drop (overflow_size c) bs" "counter_number (c\<lparr>counter := bs'\<rparr>) = Suc k"
    by auto
  with b show ?case by (intro exI [of _ bs']) (simp add: replicate_append_same)
qed

end
