(* ===== verification/Gsec.thy ===== *)
theory Gsec
  imports Alts_Frames
begin

text \<open>
  The interface of authenticated encryption in gRPC (\<open>gRPC-Core/src/core/tsi/alts/crypt/gsec.cc\<close>): a crypter is a
  state and a table of functions, any of which may be missing.

  A pointer to bytes is the bytes it points to, or \<open>None\<close> for a null pointer; an argument for a result is whether
  there is a place for it, and the result is \<open>None\<close> if nothing was written there. The functions that fill a buffer
  get its contents and return the contents after the call. Error texts are left out.
\<close>

record iovec =
  iov_base :: "bytes option"
  iov_len :: nat

type_synonym 'c crypt_fun = "'c \<Rightarrow> bytes option \<Rightarrow> nat \<Rightarrow> iovec list option \<Rightarrow> nat \<Rightarrow> iovec list option \<Rightarrow> nat \<Rightarrow>
  iovec \<Rightarrow> bool \<Rightarrow> grpc_status_code \<times> bytes option \<times> nat option \<times> 'c"

type_synonym 'c length_fun = "'c \<Rightarrow> bool \<Rightarrow> grpc_status_code \<times> nat option"

type_synonym 'c bound_fun = "'c \<Rightarrow> nat \<Rightarrow> bool \<Rightarrow> grpc_status_code \<times> nat option"

record 'c gsec_aead_crypter_vtable =
  vt_encrypt_iovec :: "'c crypt_fun option"
  vt_decrypt_iovec :: "'c crypt_fun option"
  vt_max_ciphertext_and_tag_length :: "'c bound_fun option"
  vt_max_plaintext_length :: "'c bound_fun option"
  vt_nonce_length :: "'c length_fun option"
  vt_key_length :: "'c length_fun option"
  vt_tag_length :: "'c length_fun option"

record 'c gsec_aead_crypter =
  gsec_vtable :: "'c gsec_aead_crypter_vtable option"
  gsec_state :: 'c

text \<open>The function of the table, if there are a crypter, a table and an entry.\<close>

definition gsec_entry :: "('c gsec_aead_crypter_vtable \<Rightarrow> 'f option) \<Rightarrow> 'c gsec_aead_crypter option \<Rightarrow> ('c gsec_aead_crypter \<times> 'f) option" where
  "gsec_entry entry crypter =
     (case crypter of
        None \<Rightarrow> None
      | Some c \<Rightarrow> (case gsec_vtable c of None \<Rightarrow> None | Some vt \<Rightarrow> map_option (Pair c) (entry vt)))"

definition gsec_aead_crypter_encrypt :: "'c gsec_aead_crypter option \<Rightarrow> bytes option \<Rightarrow> nat \<Rightarrow> bytes option \<Rightarrow> nat \<Rightarrow>
    bytes option \<Rightarrow> nat \<Rightarrow> bytes option \<Rightarrow> nat \<Rightarrow> bool \<Rightarrow>
    grpc_status_code \<times> bytes option \<times> nat option \<times> 'c gsec_aead_crypter option" where
  "gsec_aead_crypter_encrypt crypter nonce nonce_length aad aad_length plaintext plaintext_length
      ciphertext_and_tag ciphertext_and_tag_length bytes_written =
     (case gsec_entry vt_encrypt_iovec crypter of
        Some (c, encrypt_iovec) \<Rightarrow>
          let aad_vec = \<lparr>iov_base = aad, iov_len = aad_length\<rparr>;
              plaintext_vec = \<lparr>iov_base = plaintext, iov_len = plaintext_length\<rparr>;
              ciphertext_vec = \<lparr>iov_base = ciphertext_and_tag, iov_len = ciphertext_and_tag_length\<rparr>
          in (case encrypt_iovec (gsec_state c) nonce nonce_length (Some [aad_vec]) 1 (Some [plaintext_vec]) 1
                ciphertext_vec bytes_written of
                (status, out, n, s) \<Rightarrow> (status, out, n, Some (c\<lparr>gsec_state := s\<rparr>)))
      | None \<Rightarrow> (GRPC_STATUS_INVALID_ARGUMENT, ciphertext_and_tag, None, crypter))"

definition gsec_aead_crypter_encrypt_iovec :: "'c gsec_aead_crypter option \<Rightarrow> bytes option \<Rightarrow> nat \<Rightarrow>
    iovec list option \<Rightarrow> nat \<Rightarrow> iovec list option \<Rightarrow> nat \<Rightarrow> iovec \<Rightarrow> bool \<Rightarrow>
    grpc_status_code \<times> bytes option \<times> nat option \<times> 'c gsec_aead_crypter option" where
  "gsec_aead_crypter_encrypt_iovec crypter nonce nonce_length aad_vec aad_vec_length plaintext_vec
      plaintext_vec_length ciphertext_vec bytes_written =
     (case gsec_entry vt_encrypt_iovec crypter of
        Some (c, encrypt_iovec) \<Rightarrow>
          (case encrypt_iovec (gsec_state c) nonce nonce_length aad_vec aad_vec_length plaintext_vec
              plaintext_vec_length ciphertext_vec bytes_written of
             (status, out, n, s) \<Rightarrow> (status, out, n, Some (c\<lparr>gsec_state := s\<rparr>)))
      | None \<Rightarrow> (GRPC_STATUS_INVALID_ARGUMENT, iov_base ciphertext_vec, None, crypter))"

definition gsec_aead_crypter_decrypt :: "'c gsec_aead_crypter option \<Rightarrow> bytes option \<Rightarrow> nat \<Rightarrow> bytes option \<Rightarrow> nat \<Rightarrow>
    bytes option \<Rightarrow> nat \<Rightarrow> bytes option \<Rightarrow> nat \<Rightarrow> bool \<Rightarrow>
    grpc_status_code \<times> bytes option \<times> nat option \<times> 'c gsec_aead_crypter option" where
  "gsec_aead_crypter_decrypt crypter nonce nonce_length aad aad_length ciphertext_and_tag
      ciphertext_and_tag_length plaintext plaintext_length bytes_written =
     (case gsec_entry vt_decrypt_iovec crypter of
        Some (c, decrypt_iovec) \<Rightarrow>
          let aad_vec = \<lparr>iov_base = aad, iov_len = aad_length\<rparr>;
              ciphertext_vec = \<lparr>iov_base = ciphertext_and_tag, iov_len = ciphertext_and_tag_length\<rparr>;
              plaintext_vec = \<lparr>iov_base = plaintext, iov_len = plaintext_length\<rparr>
          in (case decrypt_iovec (gsec_state c) nonce nonce_length (Some [aad_vec]) 1 (Some [ciphertext_vec]) 1
                plaintext_vec bytes_written of
                (status, out, n, s) \<Rightarrow> (status, out, n, Some (c\<lparr>gsec_state := s\<rparr>)))
      | None \<Rightarrow> (GRPC_STATUS_INVALID_ARGUMENT, plaintext, None, crypter))"

text \<open>The test of this function looks at the entry for encryption, and a missing entry for decryption is called.\<close>

definition gsec_aead_crypter_decrypt_iovec :: "'c gsec_aead_crypter option \<Rightarrow> bytes option \<Rightarrow> nat \<Rightarrow>
    iovec list option \<Rightarrow> nat \<Rightarrow> iovec list option \<Rightarrow> nat \<Rightarrow> iovec \<Rightarrow> bool \<Rightarrow>
    (grpc_status_code \<times> bytes option \<times> nat option \<times> 'c gsec_aead_crypter option) option" where
  "gsec_aead_crypter_decrypt_iovec crypter nonce nonce_length aad_vec aad_vec_length ciphertext_vec
      ciphertext_vec_length plaintext_vec bytes_written =
     (case gsec_entry vt_encrypt_iovec crypter of
        Some _ \<Rightarrow>
          (case gsec_entry vt_decrypt_iovec crypter of
             None \<Rightarrow> None
           | Some (c, decrypt_iovec) \<Rightarrow>
               Some (case decrypt_iovec (gsec_state c) nonce nonce_length aad_vec aad_vec_length ciphertext_vec
                   ciphertext_vec_length plaintext_vec bytes_written of
                 (status, out, n, s) \<Rightarrow> (status, out, n, Some (c\<lparr>gsec_state := s\<rparr>))))
      | None \<Rightarrow> Some (GRPC_STATUS_INVALID_ARGUMENT, iov_base plaintext_vec, None, crypter))"

definition gsec_aead_crypter_max_ciphertext_and_tag_length :: "'c gsec_aead_crypter option \<Rightarrow> nat \<Rightarrow> bool \<Rightarrow>
    grpc_status_code \<times> nat option" where
  "gsec_aead_crypter_max_ciphertext_and_tag_length crypter plaintext_length out =
     (case gsec_entry vt_max_ciphertext_and_tag_length crypter of
        Some (c, f) \<Rightarrow> f (gsec_state c) plaintext_length out
      | None \<Rightarrow> (GRPC_STATUS_INVALID_ARGUMENT, None))"

definition gsec_aead_crypter_max_plaintext_length :: "'c gsec_aead_crypter option \<Rightarrow> nat \<Rightarrow> bool \<Rightarrow>
    grpc_status_code \<times> nat option" where
  "gsec_aead_crypter_max_plaintext_length crypter ciphertext_and_tag_length out =
     (case gsec_entry vt_max_plaintext_length crypter of
        Some (c, f) \<Rightarrow> f (gsec_state c) ciphertext_and_tag_length out
      | None \<Rightarrow> (GRPC_STATUS_INVALID_ARGUMENT, None))"

definition gsec_aead_crypter_nonce_length :: "'c gsec_aead_crypter option \<Rightarrow> bool \<Rightarrow> grpc_status_code \<times> nat option" where
  "gsec_aead_crypter_nonce_length crypter out =
     (case gsec_entry vt_nonce_length crypter of
        Some (c, f) \<Rightarrow> f (gsec_state c) out
      | None \<Rightarrow> (GRPC_STATUS_INVALID_ARGUMENT, None))"

definition gsec_aead_crypter_key_length :: "'c gsec_aead_crypter option \<Rightarrow> bool \<Rightarrow> grpc_status_code \<times> nat option" where
  "gsec_aead_crypter_key_length crypter out =
     (case gsec_entry vt_key_length crypter of
        Some (c, f) \<Rightarrow> f (gsec_state c) out
      | None \<Rightarrow> (GRPC_STATUS_INVALID_ARGUMENT, None))"

definition gsec_aead_crypter_tag_length :: "'c gsec_aead_crypter option \<Rightarrow> bool \<Rightarrow> grpc_status_code \<times> nat option" where
  "gsec_aead_crypter_tag_length crypter out =
     (case gsec_entry vt_tag_length crypter of
        Some (c, f) \<Rightarrow> f (gsec_state c) out
      | None \<Rightarrow> (GRPC_STATUS_INVALID_ARGUMENT, None))"

end
