(* ===== verification/Alts_Crypter.thy ===== *)
theory Alts_Crypter
  imports Gsec
begin

text \<open>
  The crypters of the ALTS record protocol (\<open>gRPC-Core/src/core/tsi/alts/frame_protector\<close>: \<open>alts_crypter.cc\<close>,
  \<open>alts_record_protocol_crypter_common.cc\<close>, \<open>alts_seal_privacy_integrity_crypter.cc\<close>,
  \<open>alts_unseal_privacy_integrity_crypter.cc\<close>): they encrypt or decrypt one frame in place, with their counter as
  the nonce, and then increment the counter. Both tables of functions differ in \<open>process_in_place\<close> only.
\<close>

datatype alts_crypter_vtable = Seal_vtable | Unseal_vtable

record 'c alts_record_protocol_crypter =
  rp_base :: "alts_crypter_vtable option"
  rp_crypter :: "'c gsec_aead_crypter option"
  rp_ctr :: "alts_counter option"

section \<open>Common operations\<close>

text \<open>A pointer for a result is whether there is one.\<close>

definition input_sanity_check :: "'c alts_record_protocol_crypter option \<Rightarrow> bytes option \<Rightarrow> bool \<Rightarrow> grpc_status_code" where
  "input_sanity_check rp data output_size =
     (if rp = None then GRPC_STATUS_INVALID_ARGUMENT
      else if data = None then GRPC_STATUS_INVALID_ARGUMENT
      else if \<not> output_size then GRPC_STATUS_INVALID_ARGUMENT
      else GRPC_STATUS_OK)"

definition increment_counter :: "'c alts_record_protocol_crypter \<Rightarrow> grpc_status_code \<times> 'c alts_record_protocol_crypter" where
  "increment_counter rp =
     (case alts_counter_increment (rp_ctr rp) True of
        (status, is_overflow, c) \<Rightarrow>
          let rp = rp\<lparr>rp_ctr := c\<rparr> in
          if status \<noteq> GRPC_STATUS_OK then (status, rp)
          else if is_overflow = Some True then (GRPC_STATUS_INTERNAL, rp)
          else (GRPC_STATUS_OK, rp))"

definition alts_record_protocol_crypter_num_overhead_bytes :: "'c alts_record_protocol_crypter option \<Rightarrow> nat" where
  "alts_record_protocol_crypter_num_overhead_bytes c =
     (case c of
        None \<Rightarrow> 0
      | Some rp \<Rightarrow>
          (case gsec_aead_crypter_tag_length (rp_crypter rp) True of
             (status, n) \<Rightarrow> if status = GRPC_STATUS_OK then (case n of Some n \<Rightarrow> n | None \<Rightarrow> 0) else 0))"

definition alts_crypter_num_overhead_bytes :: "'c alts_record_protocol_crypter option \<Rightarrow> nat" where
  "alts_crypter_num_overhead_bytes crypter =
     (case crypter of
        None \<Rightarrow> 0
      | Some c \<Rightarrow> if rp_base c = None then 0 else alts_record_protocol_crypter_num_overhead_bytes (Some c))"

definition alts_crypter_create_common :: "'c gsec_aead_crypter option \<Rightarrow> bool \<Rightarrow> nat \<Rightarrow>
    'c alts_record_protocol_crypter option" where
  "alts_crypter_create_common crypter is_client overflow_bytes =
     (if crypter = None then None
      else
        case gsec_aead_crypter_nonce_length crypter True of
          (status, n) \<Rightarrow>
            if status \<noteq> GRPC_STATUS_OK then None
            else
              let counter_bytes = (case n of Some n \<Rightarrow> n | None \<Rightarrow> 0) in
              (case alts_counter_create is_client counter_bytes overflow_bytes True of
                 (status, ctr) \<Rightarrow>
                   if status \<noteq> GRPC_STATUS_OK then None
                   else Some \<lparr>rp_base = None, rp_crypter = crypter, rp_ctr = ctr\<rparr>))"

section \<open>Sealing\<close>

definition seal_check :: "'c alts_record_protocol_crypter option \<Rightarrow> bytes option \<Rightarrow> nat \<Rightarrow> nat \<Rightarrow> bool \<Rightarrow> grpc_status_code" where
  "seal_check c data data_allocated_size data_size output_size =
     (let status = input_sanity_check c data output_size in
      if status \<noteq> GRPC_STATUS_OK then status
      else
        let num_overhead_bytes = alts_crypter_num_overhead_bytes c in
        if data_size = 0 then GRPC_STATUS_INVALID_ARGUMENT
        else if data_allocated_size < add_size data_size num_overhead_bytes then GRPC_STATUS_INVALID_ARGUMENT
        else GRPC_STATUS_OK)"

text \<open>The status, the buffer, \<open>*output_size\<close> if it was set, and the crypter.\<close>

definition alts_seal_crypter_process_in_place :: "'c alts_record_protocol_crypter option \<Rightarrow> bytes option \<Rightarrow> nat \<Rightarrow> nat \<Rightarrow>
    bool \<Rightarrow> grpc_status_code \<times> bytes option \<times> nat option \<times> 'c alts_record_protocol_crypter option" where
  "alts_seal_crypter_process_in_place c data data_allocated_size data_size output_size =
     (let status = seal_check c data data_allocated_size data_size output_size in
      if status \<noteq> GRPC_STATUS_OK then (status, data, None, c)
      else
        case c of
          None \<Rightarrow> (status, data, None, c)
        | Some rp \<Rightarrow>
            (case gsec_aead_crypter_encrypt (rp_crypter rp) (alts_counter_get_counter (rp_ctr rp))
                (alts_counter_get_size (rp_ctr rp)) None 0 data data_size data data_allocated_size output_size of
               (status, data, n, g) \<Rightarrow>
                 let rp = rp\<lparr>rp_crypter := g\<rparr> in
                 if status \<noteq> GRPC_STATUS_OK then (status, data, n, Some rp)
                 else case increment_counter rp of (status, rp) \<Rightarrow> (status, data, n, Some rp)))"

definition alts_seal_crypter_create :: "'c gsec_aead_crypter option \<Rightarrow> bool \<Rightarrow> nat \<Rightarrow> bool \<Rightarrow>
    grpc_status_code \<times> 'c alts_record_protocol_crypter option" where
  "alts_seal_crypter_create gc is_client overflow_bytes crypter =
     (if \<not> crypter then (GRPC_STATUS_FAILED_PRECONDITION, None)
      else
        case alts_crypter_create_common gc (\<not> is_client) overflow_bytes of
          None \<Rightarrow> (GRPC_STATUS_FAILED_PRECONDITION, None)
        | Some rp \<Rightarrow> (GRPC_STATUS_OK, Some (rp\<lparr>rp_base := Some Seal_vtable\<rparr>)))"

section \<open>Unsealing\<close>

definition unseal_check :: "'c alts_record_protocol_crypter option \<Rightarrow> bytes option \<Rightarrow> nat \<Rightarrow> bool \<Rightarrow> grpc_status_code" where
  "unseal_check c data data_size output_size =
     (let status = input_sanity_check c data output_size in
      if status \<noteq> GRPC_STATUS_OK then status
      else if data_size < alts_crypter_num_overhead_bytes c then GRPC_STATUS_INVALID_ARGUMENT
      else GRPC_STATUS_OK)"

definition alts_unseal_crypter_process_in_place :: "'c alts_record_protocol_crypter option \<Rightarrow> bytes option \<Rightarrow> nat \<Rightarrow> nat \<Rightarrow>
    bool \<Rightarrow> grpc_status_code \<times> bytes option \<times> nat option \<times> 'c alts_record_protocol_crypter option" where
  "alts_unseal_crypter_process_in_place c data data_allocated_size data_size output_size =
     (let status = unseal_check c data data_size output_size in
      if status \<noteq> GRPC_STATUS_OK then (status, data, None, c)
      else
        case c of
          None \<Rightarrow> (status, data, None, c)
        | Some rp \<Rightarrow>
            (case gsec_aead_crypter_decrypt (rp_crypter rp) (alts_counter_get_counter (rp_ctr rp))
                (alts_counter_get_size (rp_ctr rp)) None 0 data data_size data data_allocated_size output_size of
               (status, data, n, g) \<Rightarrow>
                 let rp = rp\<lparr>rp_crypter := g\<rparr> in
                 if status \<noteq> GRPC_STATUS_OK then (status, data, n, Some rp)
                 else case increment_counter rp of (status, rp) \<Rightarrow> (status, data, n, Some rp)))"

definition alts_unseal_crypter_create :: "'c gsec_aead_crypter option \<Rightarrow> bool \<Rightarrow> nat \<Rightarrow> bool \<Rightarrow>
    grpc_status_code \<times> 'c alts_record_protocol_crypter option" where
  "alts_unseal_crypter_create gc is_client overflow_bytes crypter =
     (if \<not> crypter then (GRPC_STATUS_FAILED_PRECONDITION, None)
      else
        case alts_crypter_create_common gc is_client overflow_bytes of
          None \<Rightarrow> (GRPC_STATUS_FAILED_PRECONDITION, None)
        | Some rp \<Rightarrow> (GRPC_STATUS_OK, Some (rp\<lparr>rp_base := Some Unseal_vtable\<rparr>)))"

section \<open>The interface\<close>

definition alts_crypter_process_in_place :: "'c alts_record_protocol_crypter option \<Rightarrow> bytes option \<Rightarrow> nat \<Rightarrow> nat \<Rightarrow>
    bool \<Rightarrow> grpc_status_code \<times> bytes option \<times> nat option \<times> 'c alts_record_protocol_crypter option" where
  "alts_crypter_process_in_place crypter data data_allocated_size data_size output_size =
     (case crypter of
        None \<Rightarrow> (GRPC_STATUS_INVALID_ARGUMENT, data, None, crypter)
      | Some c \<Rightarrow>
          (case rp_base c of
             None \<Rightarrow> (GRPC_STATUS_INVALID_ARGUMENT, data, None, crypter)
           | Some Seal_vtable \<Rightarrow> alts_seal_crypter_process_in_place crypter data data_allocated_size data_size output_size
           | Some Unseal_vtable \<Rightarrow> alts_unseal_crypter_process_in_place crypter data data_allocated_size data_size output_size))"

end
