(* ===== verification/Aes_Gcm.thy ===== *)
theory Aes_Gcm
  imports Alts_Crypter
begin

text \<open>
  AES-GCM as a crypter (\<open>gRPC-Core/src/core/tsi/alts/crypt/aes_gcm.cc\<close>), with keys for a limited number of messages
  derived from the nonce if the crypter was made for rekeying.

  The functions of BoringSSL it calls are a parameter, a record of functions on an abstract context; a count given
  back through an \<open>int\<close> is not negative. \<open>buf\<close> is the output buffer and \<open>pos\<close> the place of the output pointer in it.
\<close>

section \<open>State\<close>

definition kAesGcmNonceLength :: nat where "kAesGcmNonceLength = 12"
definition kAesGcmTagLength :: nat where "kAesGcmTagLength = 16"
definition kAes128GcmKeyLength :: nat where "kAes128GcmKeyLength = 16"
definition kAes256GcmKeyLength :: nat where "kAes256GcmKeyLength = 32"
definition kAes128GcmRekeyKeyLength :: nat where "kAes128GcmRekeyKeyLength = 44"
definition kKdfKeyLen :: nat where "kKdfKeyLen = 32"
definition kKdfCounterLen :: nat where "kKdfCounterLen = 6"
definition kKdfCounterOffset :: nat where "kKdfCounterOffset = 2"
definition kRekeyAeadKeyLen :: nat where "kRekeyAeadKeyLen = kAes128GcmKeyLength"

lemmas aes_gcm_constants = kAesGcmNonceLength_def kAesGcmTagLength_def kAes128GcmKeyLength_def kAes256GcmKeyLength_def
  kAes128GcmRekeyKeyLength_def kKdfKeyLen_def kKdfCounterLen_def kKdfCounterOffset_def kRekeyAeadKeyLen_def

datatype evp_cipher = EVP_aes_128_gcm | EVP_aes_256_gcm

record 'x evp =
  EVP_CIPHER_CTX_new :: 'x
  EVP_EncryptInit_ex :: "'x \<Rightarrow> evp_cipher option \<Rightarrow> bytes option \<Rightarrow> bytes option \<Rightarrow> bool \<times> 'x"
  EVP_DecryptInit_ex :: "'x \<Rightarrow> evp_cipher option \<Rightarrow> bytes option \<Rightarrow> bytes option \<Rightarrow> bool \<times> 'x"
  EVP_EncryptUpdate :: "'x \<Rightarrow> bool \<Rightarrow> bytes \<Rightarrow> int \<Rightarrow> bool \<times> bytes \<times> nat \<times> 'x"
  EVP_DecryptUpdate :: "'x \<Rightarrow> bool \<Rightarrow> bytes \<Rightarrow> int \<Rightarrow> bool \<times> bytes \<times> nat \<times> 'x"
  EVP_EncryptFinal_ex :: "'x \<Rightarrow> bool \<times> nat \<times> 'x"
  EVP_DecryptFinal_ex :: "'x \<Rightarrow> bool \<times> nat \<times> 'x"
  EVP_CTRL_GCM_SET_IVLEN :: "'x \<Rightarrow> int \<Rightarrow> bool \<times> 'x"
  EVP_CTRL_GCM_GET_TAG :: "'x \<Rightarrow> nat \<Rightarrow> bool \<times> bytes \<times> 'x"
  EVP_CTRL_GCM_SET_TAG :: "'x \<Rightarrow> bytes \<Rightarrow> bool \<times> 'x"
  HMAC_sha256 :: "bytes \<Rightarrow> bytes \<Rightarrow> bytes option"

record gsec_aes_gcm_aead_rekey_data =
  kdf_counter :: bytes
  nonce_mask :: bytes

record 'x gsec_aes_gcm_aead_crypter =
  aes_key_length :: nat
  aes_nonce_length :: nat
  aes_tag_length :: nat
  aes_key :: bytes
  rekey_data :: "gsec_aes_gcm_aead_rekey_data option"
  aes_ctx :: 'x

definition overwrite :: "bytes \<Rightarrow> nat \<Rightarrow> bytes \<Rightarrow> bytes" where
  "overwrite buf pos bs = take pos buf @ bs @ drop (pos + length bs) buf"

text \<open>\<open>static_cast<int>(n)\<close> for a \<open>size_t\<close>.\<close>

definition to_int :: "nat \<Rightarrow> int" where
  "to_int n = sint (of_nat n :: u32)"

section \<open>Lengths\<close>

definition gsec_aes_gcm_aead_crypter_max_ciphertext_and_tag_length :: "'x gsec_aes_gcm_aead_crypter \<Rightarrow> nat \<Rightarrow> bool \<Rightarrow>
    grpc_status_code \<times> nat option" where
  "gsec_aes_gcm_aead_crypter_max_ciphertext_and_tag_length c plaintext_length out =
     (if \<not> out then (GRPC_STATUS_INVALID_ARGUMENT, None)
      else (GRPC_STATUS_OK, Some (add_size plaintext_length (aes_tag_length c))))"

definition gsec_aes_gcm_aead_crypter_max_plaintext_length :: "'x gsec_aes_gcm_aead_crypter \<Rightarrow> nat \<Rightarrow> bool \<Rightarrow>
    grpc_status_code \<times> nat option" where
  "gsec_aes_gcm_aead_crypter_max_plaintext_length c ciphertext_and_tag_length out =
     (if \<not> out then (GRPC_STATUS_INVALID_ARGUMENT, None)
      else if ciphertext_and_tag_length < aes_tag_length c then (GRPC_STATUS_INVALID_ARGUMENT, Some 0)
      else (GRPC_STATUS_OK, Some (ciphertext_and_tag_length - aes_tag_length c)))"

definition gsec_aes_gcm_aead_crypter_nonce_length :: "'x gsec_aes_gcm_aead_crypter \<Rightarrow> bool \<Rightarrow> grpc_status_code \<times> nat option" where
  "gsec_aes_gcm_aead_crypter_nonce_length c out =
     (if \<not> out then (GRPC_STATUS_INVALID_ARGUMENT, None) else (GRPC_STATUS_OK, Some (aes_nonce_length c)))"

definition gsec_aes_gcm_aead_crypter_key_length :: "'x gsec_aes_gcm_aead_crypter \<Rightarrow> bool \<Rightarrow> grpc_status_code \<times> nat option" where
  "gsec_aes_gcm_aead_crypter_key_length c out =
     (if \<not> out then (GRPC_STATUS_INVALID_ARGUMENT, None) else (GRPC_STATUS_OK, Some (aes_key_length c)))"

definition gsec_aes_gcm_aead_crypter_tag_length :: "'x gsec_aes_gcm_aead_crypter \<Rightarrow> bool \<Rightarrow> grpc_status_code \<times> nat option" where
  "gsec_aes_gcm_aead_crypter_tag_length c out =
     (if \<not> out then (GRPC_STATUS_INVALID_ARGUMENT, None) else (GRPC_STATUS_OK, Some (aes_tag_length c)))"

section \<open>Keys and nonces\<close>

text \<open>The exclusive or of a word of 8 and a word of 4 bytes, which acts on each byte alone.\<close>

definition aes_gcm_mask_nonce :: "bytes \<Rightarrow> bytes \<Rightarrow> bytes" where
  "aes_gcm_mask_nonce nonce m =
     map2 (XOR) (take 8 nonce) (take 8 m) @ map2 (XOR) (take 4 (drop 8 nonce)) (take 4 (drop 8 m))"

text \<open>\<open>None\<close> is \<open>GRPC_STATUS_INTERNAL\<close>.\<close>

definition aes_gcm_derive_aead_key :: "'x evp \<Rightarrow> bytes \<Rightarrow> bytes \<Rightarrow> bytes option" where
  "aes_gcm_derive_aead_key E kdf_key ctr =
     map_option (take kRekeyAeadKeyLen) (HMAC_sha256 E (take kKdfKeyLen kdf_key) (take kKdfCounterLen ctr @ [1]))"

definition aes_gcm_rekey_if_required :: "'x evp \<Rightarrow> 'x gsec_aes_gcm_aead_crypter \<Rightarrow> bytes \<Rightarrow>
    grpc_status_code \<times> 'x gsec_aes_gcm_aead_crypter" where
  "aes_gcm_rekey_if_required E c nonce =
     (case rekey_data c of
        None \<Rightarrow> (GRPC_STATUS_OK, c)
      | Some d \<Rightarrow>
          let ctr = take kKdfCounterLen (drop kKdfCounterOffset nonce) in
          if kdf_counter d = ctr then (GRPC_STATUS_OK, c)
          else
            let c = c\<lparr>rekey_data := Some (d\<lparr>kdf_counter := ctr\<rparr>)\<rparr> in
            case aes_gcm_derive_aead_key E (aes_key c) ctr of
              None \<Rightarrow> (GRPC_STATUS_INTERNAL, c)
            | Some aead_key \<Rightarrow>
                (case EVP_DecryptInit_ex E (aes_ctx c) None (Some aead_key) None of
                   (ok, x) \<Rightarrow> (if ok then GRPC_STATUS_OK else GRPC_STATUS_INTERNAL, c\<lparr>aes_ctx := x\<rparr>)))"

definition nonce_aead :: "'x gsec_aes_gcm_aead_crypter \<Rightarrow> bytes \<Rightarrow> bytes" where
  "nonce_aead c nonce =
     (case rekey_data c of None \<Rightarrow> nonce | Some d \<Rightarrow> aes_gcm_mask_nonce nonce (nonce_mask d))"

section \<open>Encryption\<close>

text \<open>The loop over the associated data is the same in both directions.\<close>

fun process_aad :: "('x \<Rightarrow> bool \<Rightarrow> bytes \<Rightarrow> int \<Rightarrow> bool \<times> bytes \<times> nat \<times> 'x) \<Rightarrow> iovec list \<Rightarrow> 'x \<Rightarrow> grpc_status_code \<times> 'x" where
  "process_aad update [] x = (GRPC_STATUS_OK, x)"
| "process_aad update (v # vs) x =
     (if iov_len v = 0 then process_aad update vs x
      else
        case iov_base v of
          None \<Rightarrow> (GRPC_STATUS_INVALID_ARGUMENT, x)
        | Some aad \<Rightarrow>
            (case update x False (take (iov_len v) aad) (to_int (iov_len v)) of
               (ok, _, aad_bytes_read, x) \<Rightarrow>
                 if \<not> ok \<or> aad_bytes_read \<noteq> iov_len v then (GRPC_STATUS_INTERNAL, x)
                 else process_aad update vs x))"

fun process_plaintext :: "'x evp \<Rightarrow> iovec list \<Rightarrow> 'x \<Rightarrow> bytes \<Rightarrow> nat \<Rightarrow> nat \<Rightarrow>
    grpc_status_code \<times> 'x \<times> bytes \<times> nat \<times> nat" where
  "process_plaintext E [] x buf pos ciphertext_length = (GRPC_STATUS_OK, x, buf, pos, ciphertext_length)"
| "process_plaintext E (v # vs) x buf pos ciphertext_length =
     (case iov_base v of
        None \<Rightarrow>
          if iov_len v = 0 then process_plaintext E vs x buf pos ciphertext_length
          else (GRPC_STATUS_INVALID_ARGUMENT, x, buf, pos, ciphertext_length)
      | Some plaintext \<Rightarrow>
          if ciphertext_length < iov_len v then (GRPC_STATUS_INVALID_ARGUMENT, x, buf, pos, ciphertext_length)
          else
            let bytes_to_write = to_int (iov_len v) in
            (case EVP_EncryptUpdate E x True (take (iov_len v) plaintext) bytes_to_write of
               (ok, out, bytes_written, x) \<Rightarrow>
                 let buf = overwrite buf pos out in
                 if \<not> ok then (GRPC_STATUS_INTERNAL, x, buf, pos, ciphertext_length)
                 else if bytes_to_write < int bytes_written then (GRPC_STATUS_INTERNAL, x, buf, pos, ciphertext_length)
                 else process_plaintext E vs x buf (pos + bytes_written) (ciphertext_length - bytes_written)))"

text \<open>The last part of the encryption writes the tag.\<close>

definition encrypt_final :: "'x evp \<Rightarrow> 'x \<Rightarrow> bytes \<Rightarrow> nat \<Rightarrow> nat \<Rightarrow> nat \<Rightarrow> grpc_status_code \<times> 'x \<times> bytes \<times> nat" where
  "encrypt_final E x buf pos ciphertext_length size_of_vec =
     (case EVP_EncryptFinal_ex E x of
        (ok, bytes_written_temp, x) \<Rightarrow>
          if \<not> ok then (GRPC_STATUS_INTERNAL, x, buf, 0)
          else if bytes_written_temp \<noteq> 0 then (GRPC_STATUS_INTERNAL, x, buf, 0)
          else if ciphertext_length < kAesGcmTagLength then (GRPC_STATUS_INVALID_ARGUMENT, x, buf, 0)
          else
            case EVP_CTRL_GCM_GET_TAG E x kAesGcmTagLength of
              (ok, tag, x) \<Rightarrow>
                let buf = overwrite buf pos tag in
                if \<not> ok then (GRPC_STATUS_INTERNAL, x, buf, 0)
                else (GRPC_STATUS_OK, x, buf, size_of_vec - (ciphertext_length - kAesGcmTagLength)))"

definition gsec_aes_gcm_aead_crypter_encrypt_iovec :: "'x evp \<Rightarrow> 'x gsec_aes_gcm_aead_crypter crypt_fun" where
  "gsec_aes_gcm_aead_crypter_encrypt_iovec E c nonce nonce_length aad_vec aad_vec_length plaintext_vec
      plaintext_vec_length ciphertext_vec bytes_written =
     (let out = iov_base ciphertext_vec in
      case nonce of
        None \<Rightarrow> (GRPC_STATUS_INVALID_ARGUMENT, out, None, c)
      | Some nonce \<Rightarrow>
          if kAesGcmNonceLength \<noteq> nonce_length then (GRPC_STATUS_INVALID_ARGUMENT, out, None, c)
          else if 0 < aad_vec_length \<and> aad_vec = None then (GRPC_STATUS_INVALID_ARGUMENT, out, None, c)
          else if 0 < plaintext_vec_length \<and> plaintext_vec = None then (GRPC_STATUS_INVALID_ARGUMENT, out, None, c)
          else if \<not> bytes_written then (GRPC_STATUS_INVALID_ARGUMENT, out, None, c)
          else
            case aes_gcm_rekey_if_required E c nonce of
              (status, c) \<Rightarrow>
                if status \<noteq> GRPC_STATUS_OK then (GRPC_STATUS_INTERNAL, out, Some 0, c)
                else
                  case EVP_EncryptInit_ex E (aes_ctx c) None None (Some (nonce_aead c nonce)) of
                    (ok, x) \<Rightarrow>
                      if \<not> ok then (GRPC_STATUS_INTERNAL, out, Some 0, c\<lparr>aes_ctx := x\<rparr>)
                      else
                        case process_aad (EVP_EncryptUpdate E) (case aad_vec of None \<Rightarrow> [] | Some vs \<Rightarrow> take aad_vec_length vs) x of
                          (status, x) \<Rightarrow>
                            if status \<noteq> GRPC_STATUS_OK then (status, out, Some 0, c\<lparr>aes_ctx := x\<rparr>)
                            else
                              case out of
                                None \<Rightarrow> (GRPC_STATUS_INVALID_ARGUMENT, out, Some 0, c\<lparr>aes_ctx := x\<rparr>)
                              | Some buf \<Rightarrow>
                                  (case process_plaintext E (case plaintext_vec of None \<Rightarrow> [] | Some vs \<Rightarrow> take plaintext_vec_length vs)
                                      x buf 0 (iov_len ciphertext_vec) of
                                     (status, x, buf, pos, ciphertext_length) \<Rightarrow>
                                       if status \<noteq> GRPC_STATUS_OK then (status, Some buf, Some 0, c\<lparr>aes_ctx := x\<rparr>)
                                       else
                                         case encrypt_final E x buf pos ciphertext_length (iov_len ciphertext_vec) of
                                           (status, x, buf, n) \<Rightarrow> (status, Some buf, Some n, c\<lparr>aes_ctx := x\<rparr>)))"

section \<open>Decryption\<close>

definition wipe :: "nat \<Rightarrow> bytes \<Rightarrow> bytes" where
  "wipe n buf = overwrite buf 0 (replicate n 0)"

text \<open>The loop over the ciphertext stops before the tag. It gives the vectors not yet reached, what is left of the
  current one, and the counts. \<open>size_of_vec\<close> is the length of the output buffer.\<close>

fun process_ciphertext :: "'x evp \<Rightarrow> nat \<Rightarrow> iovec list \<Rightarrow> bytes \<Rightarrow> nat \<Rightarrow> nat \<Rightarrow> 'x \<Rightarrow> bytes \<Rightarrow> nat \<Rightarrow> nat \<Rightarrow>
    grpc_status_code \<times> iovec list \<times> bytes \<times> nat \<times> nat \<times> 'x \<times> bytes \<times> nat" where
  "process_ciphertext E size_of_vec [] ciphertext ciphertext_length total_length x buf pos plaintext_length =
     (GRPC_STATUS_OK, [], ciphertext, ciphertext_length, total_length, x, buf, plaintext_length)"
| "process_ciphertext E size_of_vec (v # vs) ciphertext ciphertext_length total_length x buf pos plaintext_length =
     (if total_length \<le> kAesGcmTagLength
      then (GRPC_STATUS_OK, v # vs, ciphertext, ciphertext_length, total_length, x, buf, plaintext_length)
      else
        case iov_base v of
          None \<Rightarrow>
            if iov_len v = 0 then process_ciphertext E size_of_vec vs [] 0 total_length x buf pos plaintext_length
            else (GRPC_STATUS_INVALID_ARGUMENT, vs, [], iov_len v, total_length, x, wipe size_of_vec buf, plaintext_length)
        | Some ciphertext \<Rightarrow>
            let ciphertext_length = iov_len v;
                bytes_to_write = min ciphertext_length (total_length - kAesGcmTagLength) in
            if plaintext_length < bytes_to_write
            then (GRPC_STATUS_INVALID_ARGUMENT, vs, ciphertext, ciphertext_length, total_length, x, buf, plaintext_length)
            else
              (case EVP_DecryptUpdate E x True (take bytes_to_write ciphertext) (to_int bytes_to_write) of
                 (ok, out, bytes_written, x) \<Rightarrow>
                   let buf = overwrite buf pos out in
                   if \<not> ok
                   then (GRPC_STATUS_INTERNAL, vs, ciphertext, ciphertext_length, total_length, x, wipe size_of_vec buf, plaintext_length)
                   else if ciphertext_length < bytes_written
                   then (GRPC_STATUS_INTERNAL, vs, ciphertext, ciphertext_length, total_length, x, wipe size_of_vec buf, plaintext_length)
                   else process_ciphertext E size_of_vec vs (drop bytes_written ciphertext) (ciphertext_length - bytes_written)
                          (total_length - bytes_written) x buf (pos + bytes_written) (plaintext_length - bytes_written)))"

text \<open>The tag: what is left of the last vector processed, and the vectors behind it. \<open>None\<close> is a null pointer.\<close>

fun rest_of_tag :: "iovec list \<Rightarrow> bytes option" where
  "rest_of_tag [] = Some []"
| "rest_of_tag (v # vs) =
     (case iov_base v of
        None \<Rightarrow> if iov_len v = 0 then rest_of_tag vs else None
      | Some ciphertext \<Rightarrow> map_option (\<lambda>t. take (iov_len v) ciphertext @ t) (rest_of_tag vs))"

definition decrypt_final :: "'x evp \<Rightarrow> 'x \<Rightarrow> bytes \<Rightarrow> bytes \<Rightarrow> nat \<Rightarrow> nat \<Rightarrow> grpc_status_code \<times> 'x \<times> bytes \<times> nat" where
  "decrypt_final E x tag buf plaintext_length size_of_vec =
     (case EVP_CTRL_GCM_SET_TAG E x tag of
        (ok, x) \<Rightarrow>
          if \<not> ok then (GRPC_STATUS_INTERNAL, x, wipe size_of_vec buf, 0)
          else
            case EVP_DecryptFinal_ex E x of
              (ok, bytes_written_temp, x) \<Rightarrow>
                if \<not> ok then (GRPC_STATUS_FAILED_PRECONDITION, x, wipe size_of_vec buf, 0)
                else if bytes_written_temp \<noteq> 0 then (GRPC_STATUS_INTERNAL, x, wipe size_of_vec buf, 0)
                else (GRPC_STATUS_OK, x, buf, size_of_vec - plaintext_length))"

text \<open>The part of the decryption behind the associated data. A null pointer to the output comes with length zero.\<close>

definition decrypt_body :: "'x evp \<Rightarrow> 'x \<Rightarrow> iovec list \<Rightarrow> nat \<Rightarrow> iovec \<Rightarrow> grpc_status_code \<times> 'x \<times> bytes option \<times> nat" where
  "decrypt_body E x vs total_length plaintext_vec =
     (let size_of_vec = iov_len plaintext_vec;
          put = (\<lambda>buf. if iov_base plaintext_vec = None then None else Some buf) in
      if 0 < size_of_vec \<and> iov_base plaintext_vec = None then (GRPC_STATUS_INVALID_ARGUMENT, x, None, 0)
      else
        case process_ciphertext E size_of_vec vs [] 0 total_length x
            (case iov_base plaintext_vec of None \<Rightarrow> [] | Some buf \<Rightarrow> buf) 0 size_of_vec of
          (status, vs, ciphertext, ciphertext_length, total_length, x, buf, plaintext_length) \<Rightarrow>
            if status \<noteq> GRPC_STATUS_OK then (status, x, put buf, 0)
            else if kAesGcmTagLength < total_length then (GRPC_STATUS_INVALID_ARGUMENT, x, put (wipe size_of_vec buf), 0)
            else
              case rest_of_tag vs of
                None \<Rightarrow> (GRPC_STATUS_INVALID_ARGUMENT, x, put (wipe size_of_vec buf), 0)
              | Some t \<Rightarrow>
                  (case decrypt_final E x (take ciphertext_length ciphertext @ t) buf plaintext_length size_of_vec of
                     (status, x, buf, n) \<Rightarrow> (status, x, put buf, n)))"

definition gsec_aes_gcm_aead_crypter_decrypt_iovec :: "'x evp \<Rightarrow> 'x gsec_aes_gcm_aead_crypter crypt_fun" where
  "gsec_aes_gcm_aead_crypter_decrypt_iovec E c nonce nonce_length aad_vec aad_vec_length ciphertext_vec
      ciphertext_vec_length plaintext_vec bytes_written =
     (let out = iov_base plaintext_vec in
      case nonce of
        None \<Rightarrow> (GRPC_STATUS_INVALID_ARGUMENT, out, None, c)
      | Some nonce \<Rightarrow>
          if kAesGcmNonceLength \<noteq> nonce_length then (GRPC_STATUS_INVALID_ARGUMENT, out, None, c)
          else if 0 < aad_vec_length \<and> aad_vec = None then (GRPC_STATUS_INVALID_ARGUMENT, out, None, c)
          else if 0 < ciphertext_vec_length \<and> ciphertext_vec = None then (GRPC_STATUS_INVALID_ARGUMENT, out, None, c)
          else
            let vs = (case ciphertext_vec of None \<Rightarrow> [] | Some vs \<Rightarrow> take ciphertext_vec_length vs);
                total_length = fold (\<lambda>v n. add_size n (iov_len v)) vs 0 in
            if total_length < kAesGcmTagLength then (GRPC_STATUS_INVALID_ARGUMENT, out, None, c)
            else if \<not> bytes_written then (GRPC_STATUS_INVALID_ARGUMENT, out, None, c)
            else
              case aes_gcm_rekey_if_required E c nonce of
                (status, c) \<Rightarrow>
                  if status \<noteq> GRPC_STATUS_OK then (GRPC_STATUS_INTERNAL, out, Some 0, c)
                  else
                    case EVP_DecryptInit_ex E (aes_ctx c) None None (Some (nonce_aead c nonce)) of
                      (ok, x) \<Rightarrow>
                        if \<not> ok then (GRPC_STATUS_INTERNAL, out, Some 0, c\<lparr>aes_ctx := x\<rparr>)
                        else
                          case process_aad (EVP_DecryptUpdate E) (case aad_vec of None \<Rightarrow> [] | Some vs \<Rightarrow> take aad_vec_length vs) x of
                            (status, x) \<Rightarrow>
                              if status \<noteq> GRPC_STATUS_OK then (status, out, Some 0, c\<lparr>aes_ctx := x\<rparr>)
                              else
                                case decrypt_body E x vs total_length plaintext_vec of
                                  (status, x, out, n) \<Rightarrow> (status, out, Some n, c\<lparr>aes_ctx := x\<rparr>))"

section \<open>Creation\<close>

definition aes_gcm_vtable :: "'x evp \<Rightarrow> 'x gsec_aes_gcm_aead_crypter gsec_aead_crypter_vtable" where
  "aes_gcm_vtable E =
     \<lparr>vt_encrypt_iovec = Some (gsec_aes_gcm_aead_crypter_encrypt_iovec E),
      vt_decrypt_iovec = Some (gsec_aes_gcm_aead_crypter_decrypt_iovec E),
      vt_max_ciphertext_and_tag_length = Some gsec_aes_gcm_aead_crypter_max_ciphertext_and_tag_length,
      vt_max_plaintext_length = Some gsec_aes_gcm_aead_crypter_max_plaintext_length,
      vt_nonce_length = Some gsec_aes_gcm_aead_crypter_nonce_length,
      vt_key_length = Some gsec_aes_gcm_aead_crypter_key_length,
      vt_tag_length = Some gsec_aes_gcm_aead_crypter_tag_length\<rparr>"

definition aes_gcm_new_evp_cipher_ctx :: "'x evp \<Rightarrow> 'x gsec_aes_gcm_aead_crypter \<Rightarrow>
    grpc_status_code \<times> 'x gsec_aes_gcm_aead_crypter" where
  "aes_gcm_new_evp_cipher_ctx E c =
     (let n = (if rekey_data c \<noteq> None then kRekeyAeadKeyLen else aes_key_length c);
          cipher = (if n = kAes128GcmKeyLength then Some EVP_aes_128_gcm
                    else if n = kAes256GcmKeyLength then Some EVP_aes_256_gcm else None);
          aead_key = (case rekey_data c of
              None \<Rightarrow> Some (aes_key c)
            | Some d \<Rightarrow> aes_gcm_derive_aead_key E (aes_key c) (kdf_counter d))
      in case aead_key of
           None \<Rightarrow> (GRPC_STATUS_INTERNAL, c)
         | Some aead_key \<Rightarrow>
             (case EVP_DecryptInit_ex E (aes_ctx c) cipher (Some aead_key) None of
                (ok, x) \<Rightarrow>
                  if \<not> ok then (GRPC_STATUS_INTERNAL, c\<lparr>aes_ctx := x\<rparr>)
                  else
                    case EVP_CTRL_GCM_SET_IVLEN E x (to_int (aes_nonce_length c)) of
                      (ok, x) \<Rightarrow> (if ok then GRPC_STATUS_OK else GRPC_STATUS_INTERNAL, c\<lparr>aes_ctx := x\<rparr>)))"

text \<open>\<open>out\<close> is whether there is a place for the crypter, whose content is the second result.\<close>

definition gsec_aes_gcm_aead_crypter_create :: "'x evp \<Rightarrow> bytes option \<Rightarrow> nat \<Rightarrow> nat \<Rightarrow> nat \<Rightarrow> bool \<Rightarrow> bool \<Rightarrow>
    grpc_status_code \<times> 'x gsec_aes_gcm_aead_crypter gsec_aead_crypter option" where
  "gsec_aes_gcm_aead_crypter_create E key key_length nonce_length tag_length rekey out =
     (case key of
        None \<Rightarrow> (GRPC_STATUS_FAILED_PRECONDITION, None)
      | Some key \<Rightarrow>
          if \<not> out then (GRPC_STATUS_FAILED_PRECONDITION, None)
          else if rekey \<and> key_length \<noteq> kAes128GcmRekeyKeyLength \<or>
              \<not> rekey \<and> key_length \<noteq> kAes128GcmKeyLength \<and> key_length \<noteq> kAes256GcmKeyLength \<or>
              tag_length \<noteq> kAesGcmTagLength \<or> nonce_length \<noteq> kAesGcmNonceLength
          then (GRPC_STATUS_FAILED_PRECONDITION, None)
          else
            let n = (if rekey then kKdfKeyLen else key_length);
                c = \<lparr>aes_key_length = n, aes_nonce_length = nonce_length, aes_tag_length = tag_length, aes_key = take n key,
                     rekey_data = (if rekey then Some \<lparr>kdf_counter = replicate kKdfCounterLen 0,
                       nonce_mask = take kAesGcmNonceLength (drop kKdfKeyLen key)\<rparr> else None),
                     aes_ctx = EVP_CIPHER_CTX_new E\<rparr>
            in case aes_gcm_new_evp_cipher_ctx E c of
                 (status, c) \<Rightarrow>
                   if status \<noteq> GRPC_STATUS_OK then (status, None)
                   else (GRPC_STATUS_OK, Some \<lparr>gsec_vtable = Some (aes_gcm_vtable E), gsec_state = c\<rparr>))"

end
