(* ===== verification/Aead.thy ===== *)
theory Aead
  imports Aes_Gcm
begin

text \<open>
  What a crypter has to do for the record protocol (\<open>aead_ok\<close>): it encrypts in place to a text that is longer by
  the tag and depends on the nonce and the plaintext only, and decrypts exactly such texts. The crypter of
  \<open>aes_gcm.cc\<close> does, with rekeying or without, if BoringSSL does GCM (\<open>evp_gcm\<close>).
\<close>

section \<open>The contract of a crypter\<close>

text \<open>\<open>F\<close> gives the text for a nonce and a plaintext; \<open>I\<close> holds of the crypter in all its states.\<close>

definition seals :: "(bytes \<Rightarrow> bytes \<Rightarrow> bytes) \<Rightarrow> ('c gsec_aead_crypter \<Rightarrow> bool) \<Rightarrow> bool" where
  "seals F I \<longleftrightarrow>
     (\<forall>c n data m alloc. I c \<and> length n = 12 \<and> m + 16 \<le> alloc \<and> alloc \<le> length data \<and> alloc < 2 ^ 31 \<longrightarrow>
        (\<exists>c'. I c' \<and> gsec_aead_crypter_encrypt (Some c) (Some n) 12 None 0 (Some data) m (Some data) alloc True =
           (GRPC_STATUS_OK, Some (F n (take m data) @ drop (m + 16) data), Some (m + 16), Some c')))"

definition unseals :: "(bytes \<Rightarrow> bytes \<Rightarrow> bytes) \<Rightarrow> ('c gsec_aead_crypter \<Rightarrow> bool) \<Rightarrow> bool" where
  "unseals F I \<longleftrightarrow>
     (\<forall>c n data m alloc pt. I c \<and> length n = 12 \<and> m \<le> alloc \<and> alloc \<le> length data \<and> alloc < 2 ^ 31 \<and> take m data = F n pt \<longrightarrow>
        (\<exists>c'. I c' \<and> gsec_aead_crypter_decrypt (Some c) (Some n) 12 None 0 (Some data) m (Some data) alloc True =
           (GRPC_STATUS_OK, Some (pt @ drop (length pt) data), Some (length pt), Some c')))"

definition refuses :: "(bytes \<Rightarrow> bytes \<Rightarrow> bytes) \<Rightarrow> ('c gsec_aead_crypter \<Rightarrow> bool) \<Rightarrow> bool" where
  "refuses F I \<longleftrightarrow>
     (\<forall>c n data m alloc. I c \<and> length n = 12 \<and> 16 \<le> m \<and> m \<le> alloc \<and> alloc \<le> length data \<and> alloc < 2 ^ 31 \<and>
        (\<forall>pt. take m data \<noteq> F n pt) \<longrightarrow>
        (\<exists>c' k. I c' \<and> gsec_aead_crypter_decrypt (Some c) (Some n) 12 None 0 (Some data) m (Some data) alloc True =
           (GRPC_STATUS_FAILED_PRECONDITION, Some (replicate alloc 0 @ drop alloc data), k, Some c')))"

definition aead_ok :: "(bytes \<Rightarrow> bytes \<Rightarrow> bytes) \<Rightarrow> ('c gsec_aead_crypter \<Rightarrow> bool) \<Rightarrow> bool" where
  "aead_ok F I \<longleftrightarrow>
     seals F I \<and> unseals F I \<and> refuses F I \<and> (\<forall>n pt. length n = 12 \<longrightarrow> length (F n pt) = length pt + 16) \<and>
     (\<forall>c. I c \<longrightarrow> gsec_aead_crypter_nonce_length (Some c) True = (GRPC_STATUS_OK, Some 12) \<and>
        gsec_aead_crypter_tag_length (Some c) True = (GRPC_STATUS_OK, Some 16))"

section \<open>The contract of BoringSSL\<close>

text \<open>
  What a context holds. GCM is a key stream \<open>ks\<close>, by key, nonce and position, and a tag \<open>tg\<close> of the key, the nonce and
  the ciphertext; there are no associated data in ALTS.
\<close>

record gcm_view =
  v_cipher :: evp_cipher
  v_key :: bytes
  v_iv :: bytes
  v_text :: bytes

definition key_fits :: "evp_cipher \<Rightarrow> bytes \<Rightarrow> bool" where
  "key_fits c k \<longleftrightarrow> length k = (case c of EVP_aes_128_gcm \<Rightarrow> 16 | EVP_aes_256_gcm \<Rightarrow> 32)"

definition same_key :: "gcm_view \<Rightarrow> gcm_view \<Rightarrow> bool" where
  "same_key v w \<longleftrightarrow> v_cipher v = v_cipher w \<and> v_key v = v_key w"

definition stream_xor :: "(bytes \<Rightarrow> bytes \<Rightarrow> nat \<Rightarrow> u8) \<Rightarrow> gcm_view \<Rightarrow> bytes \<Rightarrow> bytes" where
  "stream_xor ks v bs =
     map2 (XOR) bs (map (ks (v_key v) (v_iv v)) [length (v_text v)..<length (v_text v) + length bs])"

definition evp_keys :: "'x evp \<Rightarrow> ('x \<Rightarrow> gcm_view) \<Rightarrow> bool" where
  "evp_keys E view \<longleftrightarrow>
     (\<forall>x c k. key_fits c k \<longrightarrow>
        (\<exists>x'. EVP_DecryptInit_ex E x (Some c) (Some k) None = (True, x') \<and> v_cipher (view x') = c \<and> v_key (view x') = k)) \<and>
     (\<forall>x k. key_fits (v_cipher (view x)) k \<longrightarrow>
        (\<exists>x'. EVP_DecryptInit_ex E x None (Some k) None = (True, x') \<and> v_cipher (view x') = v_cipher (view x) \<and>
           v_key (view x') = k)) \<and>
     (\<forall>x. \<exists>x'. EVP_CTRL_GCM_SET_IVLEN E x 12 = (True, x') \<and> same_key (view x') (view x)) \<and>
     (\<forall>k m. \<exists>h. HMAC_sha256 E k m = Some h \<and> length h = 32)"

definition evp_encrypts :: "'x evp \<Rightarrow> ('x \<Rightarrow> gcm_view) \<Rightarrow> (bytes \<Rightarrow> bytes \<Rightarrow> nat \<Rightarrow> u8) \<Rightarrow> (bytes \<Rightarrow> bytes \<Rightarrow> bytes \<Rightarrow> bytes) \<Rightarrow> bool" where
  "evp_encrypts E view ks tg \<longleftrightarrow>
     (\<forall>x iv. length iv = 12 \<longrightarrow>
        (\<exists>x'. EVP_EncryptInit_ex E x None None (Some iv) = (True, x') \<and> view x' = (view x)\<lparr>v_iv := iv, v_text := []\<rparr>)) \<and>
     (\<forall>x bs. length bs < 2 ^ 31 \<longrightarrow>
        (\<exists>x'. EVP_EncryptUpdate E x True bs (int (length bs)) = (True, stream_xor ks (view x) bs, length bs, x') \<and>
           view x' = (view x)\<lparr>v_text := v_text (view x) @ stream_xor ks (view x) bs\<rparr>)) \<and>
     (\<forall>x. \<exists>x' x''. EVP_EncryptFinal_ex E x = (True, 0, x') \<and>
        EVP_CTRL_GCM_GET_TAG E x' 16 = (True, tg (v_key (view x)) (v_iv (view x)) (v_text (view x)), x'') \<and>
        same_key (view x'') (view x))"

definition evp_decrypts :: "'x evp \<Rightarrow> ('x \<Rightarrow> gcm_view) \<Rightarrow> (bytes \<Rightarrow> bytes \<Rightarrow> nat \<Rightarrow> u8) \<Rightarrow> (bytes \<Rightarrow> bytes \<Rightarrow> bytes \<Rightarrow> bytes) \<Rightarrow> bool" where
  "evp_decrypts E view ks tg \<longleftrightarrow>
     (\<forall>x iv. length iv = 12 \<longrightarrow>
        (\<exists>x'. EVP_DecryptInit_ex E x None None (Some iv) = (True, x') \<and> view x' = (view x)\<lparr>v_iv := iv, v_text := []\<rparr>)) \<and>
     (\<forall>x bs. length bs < 2 ^ 31 \<longrightarrow>
        (\<exists>x'. EVP_DecryptUpdate E x True bs (int (length bs)) = (True, stream_xor ks (view x) bs, length bs, x') \<and>
           view x' = (view x)\<lparr>v_text := v_text (view x) @ bs\<rparr>)) \<and>
     (\<forall>x t. length t = 16 \<longrightarrow>
        (\<exists>x' x''. EVP_CTRL_GCM_SET_TAG E x t = (True, x') \<and>
           EVP_DecryptFinal_ex E x' = (t = tg (v_key (view x)) (v_iv (view x)) (v_text (view x)), 0, x'') \<and>
           same_key (view x'') (view x)))"

definition evp_gcm :: "'x evp \<Rightarrow> ('x \<Rightarrow> gcm_view) \<Rightarrow> (bytes \<Rightarrow> bytes \<Rightarrow> nat \<Rightarrow> u8) \<Rightarrow> (bytes \<Rightarrow> bytes \<Rightarrow> bytes \<Rightarrow> bytes) \<Rightarrow> bool" where
  "evp_gcm E view ks tg \<longleftrightarrow>
     evp_keys E view \<and> evp_encrypts E view ks tg \<and> evp_decrypts E view ks tg \<and> (\<forall>k iv bs. length (tg k iv bs) = 16)"

lemma stream_xor_length [simp]: "length (stream_xor ks v bs) = length bs"
  by (simp add: stream_xor_def)

lemma stream_xor_twice:
  assumes "v_key v = v_key w" and "v_iv v = v_iv w" and "length (v_text v) = length (v_text w)"
  shows "stream_xor ks v (stream_xor ks w bs) = bs"
  using assms by (intro nth_equalityI) (simp_all add: stream_xor_def xor.assoc)

section \<open>The states of the AES-GCM crypter\<close>

definition msg_key :: "'x evp \<Rightarrow> bytes \<Rightarrow> bytes option \<Rightarrow> bytes \<Rightarrow> bytes" where
  "msg_key E k m n = (case m of None \<Rightarrow> k | Some _ \<Rightarrow> the (aes_gcm_derive_aead_key E k (take 6 (drop 2 n))))"

definition msg_iv :: "bytes option \<Rightarrow> bytes \<Rightarrow> bytes" where
  "msg_iv m n = (case m of None \<Rightarrow> n | Some msk \<Rightarrow> aes_gcm_mask_nonce n msk)"

definition aes_state :: "'x evp \<Rightarrow> ('x \<Rightarrow> gcm_view) \<Rightarrow> bytes \<Rightarrow> bytes option \<Rightarrow> 'x gsec_aes_gcm_aead_crypter \<Rightarrow> bool" where
  "aes_state E view k m s \<longleftrightarrow>
     aes_nonce_length s = 12 \<and> aes_tag_length s = 16 \<and> aes_key s = k \<and>
     map_option nonce_mask (rekey_data s) = m \<and> (\<forall>msk. m = Some msk \<longrightarrow> length msk = 12) \<and>
     (case rekey_data s of
        None \<Rightarrow> v_key (view (aes_ctx s)) = k
      | Some d \<Rightarrow> v_cipher (view (aes_ctx s)) = EVP_aes_128_gcm \<and>
          aes_gcm_derive_aead_key E k (kdf_counter d) = Some (v_key (view (aes_ctx s))))"

definition aes_inv :: "'x evp \<Rightarrow> ('x \<Rightarrow> gcm_view) \<Rightarrow> bytes \<Rightarrow> bytes option \<Rightarrow> 'x gsec_aes_gcm_aead_crypter gsec_aead_crypter \<Rightarrow> bool" where
  "aes_inv E view k m c \<longleftrightarrow> gsec_vtable c = Some (aes_gcm_vtable E) \<and> aes_state E view k m (gsec_state c)"

definition msg_view :: "'x evp \<Rightarrow> bytes \<Rightarrow> bytes option \<Rightarrow> bytes \<Rightarrow> gcm_view" where
  "msg_view E k m n = \<lparr>v_cipher = EVP_aes_128_gcm, v_key = msg_key E k m n, v_iv = msg_iv m n, v_text = []\<rparr>"

definition aes_frame :: "'x evp \<Rightarrow> (bytes \<Rightarrow> bytes \<Rightarrow> nat \<Rightarrow> u8) \<Rightarrow> (bytes \<Rightarrow> bytes \<Rightarrow> bytes \<Rightarrow> bytes) \<Rightarrow> bytes \<Rightarrow> bytes option \<Rightarrow>
    bytes \<Rightarrow> bytes \<Rightarrow> bytes" where
  "aes_frame E ks tg k m n pt =
     (let ct = stream_xor ks (msg_view E k m n) pt in ct @ tg (msg_key E k m n) (msg_iv m n) ct)"

lemma derived_key:
  assumes "evp_keys E view"
  shows "\<exists>key. aes_gcm_derive_aead_key E k ctr = Some key \<and> key_fits EVP_aes_128_gcm key"
proof -
  from assms obtain h where "HMAC_sha256 E (take kKdfKeyLen k) (take kKdfCounterLen ctr @ [1]) = Some h" "length h = 32"
    unfolding evp_keys_def by blast
  then show ?thesis by (simp add: aes_gcm_derive_aead_key_def key_fits_def aes_gcm_constants)
qed

lemma rekey_ok:
  assumes E: "evp_keys E view" and s: "aes_state E view k m s"
  shows "\<exists>s'. aes_gcm_rekey_if_required E s n = (GRPC_STATUS_OK, s') \<and> aes_state E view k m s' \<and>
    v_key (view (aes_ctx s')) = msg_key E k m n \<and> nonce_aead s' n = msg_iv m n"
proof (cases "rekey_data s")
  case None
  with s show ?thesis by (auto simp: aes_gcm_rekey_if_required_def aes_state_def msg_key_def msg_iv_def nonce_aead_def)
next
  case (Some d)
  let ?ctr = "take 6 (drop 2 n)"
  from s Some have m: "m = Some (nonce_mask d)" by (auto simp: aes_state_def)
  show ?thesis
  proof (cases "kdf_counter d = ?ctr")
    case True
    with s Some m show ?thesis
      by (auto simp: aes_gcm_rekey_if_required_def aes_state_def msg_key_def msg_iv_def nonce_aead_def aes_gcm_constants)
  next
    case False
    from derived_key [OF E, of k ?ctr] obtain key where
      key: "aes_gcm_derive_aead_key E k ?ctr = Some key" "key_fits EVP_aes_128_gcm key" by blast
    have "key_fits (v_cipher (view (aes_ctx s))) key" using s Some key(2) by (simp add: aes_state_def)
    from E this obtain x' where x': "EVP_DecryptInit_ex E (aes_ctx s) None (Some key) None = (True, x')"
      "v_cipher (view x') = v_cipher (view (aes_ctx s))" "v_key (view x') = key" unfolding evp_keys_def by blast
    have k: "aes_key s = k" using s by (simp add: aes_state_def)
    let ?s = "s\<lparr>rekey_data := Some (d\<lparr>kdf_counter := ?ctr\<rparr>), aes_ctx := x'\<rparr>"
    have "aes_gcm_rekey_if_required E s n = (GRPC_STATUS_OK, ?s)"
      using Some False key(1) x'(1) k by (simp add: aes_gcm_rekey_if_required_def Let_def aes_gcm_constants)
    moreover have "aes_state E view k m ?s" using s Some m key(1) x'(2,3) by (simp add: aes_state_def)
    ultimately show ?thesis using m key(1) x'(3) by (auto simp: msg_key_def msg_iv_def nonce_aead_def)
  qed
qed

lemma to_int_small: "n < 2 ^ 31 \<Longrightarrow> to_int n = int n"
  by (simp add: to_int_def signed_of_nat signed_take_bit_int_eq_self_iff)

lemma aes_gcm_entries:
  assumes "gsec_vtable c = Some (aes_gcm_vtable E)"
  shows "gsec_entry vt_encrypt_iovec (Some c) = Some (c, gsec_aes_gcm_aead_crypter_encrypt_iovec E)"
    and "gsec_entry vt_decrypt_iovec (Some c) = Some (c, gsec_aes_gcm_aead_crypter_decrypt_iovec E)"
    and "gsec_entry vt_nonce_length (Some c) = Some (c, gsec_aes_gcm_aead_crypter_nonce_length)"
    and "gsec_entry vt_tag_length (Some c) = Some (c, gsec_aes_gcm_aead_crypter_tag_length)"
  using assms by (simp_all add: gsec_entry_def aes_gcm_vtable_def)

lemma aes_state_ctx:
  assumes "aes_state E view k m s" and "same_key (view x) (view (aes_ctx s))"
  shows "aes_state E view k m (s\<lparr>aes_ctx := x\<rparr>)"
  using assms by (auto simp: aes_state_def same_key_def split: option.splits)

lemma same_key_view: "v_key v = msg_key E k m n \<Longrightarrow> same_key w v \<Longrightarrow> v_key w = msg_key E k m n"
  by (simp add: same_key_def)

lemma stream_xor_msg:
  assumes "v_key v = msg_key E k m n" and "v_iv v = msg_iv m n" and "v_text v = []"
  shows "stream_xor ks v bs = stream_xor ks (msg_view E k m n) bs"
  using assms by (simp add: stream_xor_def msg_view_def)

lemma aes_encrypts:
  assumes E: "evp_gcm E view ks tg" and c: "aes_inv E view k msk c" and n: "length n = 12"
    and m: "m + 16 \<le> alloc" "alloc \<le> length data" "alloc < 2 ^ 31"
  shows "\<exists>c'. aes_inv E view k msk c' \<and>
    gsec_aead_crypter_encrypt (Some c) (Some n) 12 None 0 (Some data) m (Some data) alloc True =
      (GRPC_STATUS_OK, Some (aes_frame E ks tg k msk n (take m data) @ drop (m + 16) data), Some (m + 16), Some c')"
proof -
  have keys: "evp_keys E view" and enc: "evp_encrypts E view ks tg" and tg: "\<And>k iv bs. length (tg k iv bs) = 16"
    using E by (simp_all add: evp_gcm_def)
  have s: "aes_state E view k msk (gsec_state c)" and vt: "gsec_vtable c = Some (aes_gcm_vtable E)"
    using c by (simp_all add: aes_inv_def)
  from rekey_ok [OF keys s, of n] obtain s1 where s1: "aes_gcm_rekey_if_required E (gsec_state c) n = (GRPC_STATUS_OK, s1)"
    "aes_state E view k msk s1" "v_key (view (aes_ctx s1)) = msg_key E k msk n" "nonce_aead s1 n = msg_iv msk n" by blast
  have iv: "length (msg_iv msk n) = 12"
    using n s by (auto simp: msg_iv_def aes_gcm_mask_nonce_def aes_state_def split: option.splits)
  from enc iv obtain x2 where x2: "EVP_EncryptInit_ex E (aes_ctx s1) None None (Some (msg_iv msk n)) = (True, x2)"
    "view x2 = (view (aes_ctx s1))\<lparr>v_iv := msg_iv msk n, v_text := []\<rparr>" unfolding evp_encrypts_def by blast
  let ?pt = "take m data" let ?ct = "stream_xor ks (msg_view E k msk n) ?pt"
  have xm: "stream_xor ks (view x2) ?pt = ?ct" using s1(3) by (intro stream_xor_msg) (simp_all add: x2(2))
  have lp: "length ?pt = m" "length ?pt < 2 ^ 31" using m by simp_all
  from enc lp(2) obtain x3 where x3: "EVP_EncryptUpdate E x2 True ?pt (int (length ?pt)) = (True, stream_xor ks (view x2) ?pt, length ?pt, x3)"
    "view x3 = (view x2)\<lparr>v_text := v_text (view x2) @ stream_xor ks (view x2) ?pt\<rparr>" unfolding evp_encrypts_def by blast
  from enc obtain x4 x5 where x5: "EVP_EncryptFinal_ex E x3 = (True, 0, x4)"
    "EVP_CTRL_GCM_GET_TAG E x4 16 = (True, tg (v_key (view x3)) (v_iv (view x3)) (v_text (view x3)), x5)"
    "same_key (view x5) (view x3)" unfolding evp_encrypts_def by blast
  let ?t = "tg (msg_key E k msk n) (msg_iv msk n) ?ct"
  have t: "tg (v_key (view x3)) (v_iv (view x3)) (v_text (view x3)) = ?t" using s1(3) x2(2) x3(2) xm by simp
  have aes: "aes_state E view k msk (s1\<lparr>aes_ctx := x5\<rparr>)"
    using s1(2) x5(3) x3(2) x2(2) by (intro aes_state_ctx) (simp_all add: same_key_def)
  have "gsec_aead_crypter_encrypt (Some c) (Some n) 12 None 0 (Some data) m (Some data) alloc True =
      (GRPC_STATUS_OK, Some (overwrite (overwrite data 0 ?ct) m ?t), Some (m + 16), Some (c\<lparr>gsec_state := s1\<lparr>aes_ctx := x5\<rparr>\<rparr>))"
    using m lp x3(1) xm x5(1,2) t
    by (simp add: gsec_aead_crypter_encrypt_def aes_gcm_entries [OF vt] gsec_aes_gcm_aead_crypter_encrypt_iovec_def
        kAesGcmNonceLength_def kAesGcmTagLength_def s1(1,4) x2(1) to_int_small encrypt_final_def)
  moreover have "overwrite (overwrite data 0 ?ct) m ?t = aes_frame E ks tg k msk n ?pt @ drop (m + 16) data"
    using m tg by (simp add: overwrite_def aes_frame_def Let_def add.commute)
  ultimately show ?thesis using aes vt by (intro exI [of _ "c\<lparr>gsec_state := s1\<lparr>aes_ctx := x5\<rparr>\<rparr>"]) (simp add: aes_inv_def)
qed

text \<open>The decryption of a text of a tag and no more skips the loop.\<close>

lemma decrypt_body_ok:
  assumes E: "evp_decrypts E view ks tg" and m: "16 \<le> m" "m \<le> alloc" "alloc \<le> length data" "alloc < 2 ^ 31"
    and x: "v_text (view x) = []"
  shows "\<exists>x'. same_key (view x') (view x) \<and>
    decrypt_body E x [\<lparr>iov_base = Some data, iov_len = m\<rparr>] m \<lparr>iov_base = Some data, iov_len = alloc\<rparr> =
      (if take 16 (drop (m - 16) data) = tg (v_key (view x)) (v_iv (view x)) (take (m - 16) data)
       then (GRPC_STATUS_OK, x', Some (stream_xor ks (view x) (take (m - 16) data) @ drop (m - 16) data), m - 16)
       else (GRPC_STATUS_FAILED_PRECONDITION, x', Some (replicate alloc 0 @ drop alloc data), 0))"
proof -
  let ?ct = "take (m - 16) data" let ?t = "take 16 (drop (m - 16) data)"
  let ?buf = "stream_xor ks (view x) ?ct @ drop (m - 16) data"
  have l: "length ?ct = m - 16" "length ?ct < 2 ^ 31" "length ?t = 16" using m by simp_all
  have w: "wipe alloc ?buf = replicate alloc 0 @ drop alloc data" using m by (simp add: wipe_def overwrite_def)
  obtain x1 where x1: "v_text (view x1) = ?ct" "v_iv (view x1) = v_iv (view x)" "same_key (view x1) (view x)"
    and r: "process_ciphertext E alloc [\<lparr>iov_base = Some data, iov_len = m\<rparr>] [] 0 m x data 0 alloc =
      (if m = 16 then (GRPC_STATUS_OK, [\<lparr>iov_base = Some data, iov_len = m\<rparr>], [], 0, 16, x1, ?buf, alloc)
       else (GRPC_STATUS_OK, [], drop (m - 16) data, 16, 16, x1, ?buf, alloc - (m - 16)))"
  proof (cases "m = 16")
    case True
    with x show ?thesis by (intro that [of x]) (simp_all add: same_key_def kAesGcmTagLength_def stream_xor_def)
  next
    case False
    from E l(2) obtain x1 where x1: "EVP_DecryptUpdate E x True ?ct (int (length ?ct)) = (True, stream_xor ks (view x) ?ct, length ?ct, x1)"
      "view x1 = (view x)\<lparr>v_text := v_text (view x) @ ?ct\<rparr>" unfolding evp_decrypts_def by blast
    have "process_ciphertext E alloc [\<lparr>iov_base = Some data, iov_len = m\<rparr>] [] 0 m x data 0 alloc =
        (GRPC_STATUS_OK, [], drop (m - 16) data, 16, 16, x1, ?buf, alloc - (m - 16))"
    proof -
      have "min m (m - 16) = m - 16" "\<not> m \<le> 16" "\<not> alloc < m - 16" "\<not> m < m - 16" "to_int (m - 16) = int (m - 16)"
        "m - (m - 16) = 16" "min (length data) (m - 16) = m - 16" using False m by (simp_all add: to_int_small)
      with x1(1) show ?thesis unfolding l(1) by (simp add: kAesGcmTagLength_def overwrite_def Let_def del: of_nat_diff)
    qed
    with False x1(2) x show ?thesis by (intro that [of x1]) (simp_all add: same_key_def)
  qed
  from E l(3) obtain x2 x3 where f: "EVP_CTRL_GCM_SET_TAG E x1 ?t = (True, x2)"
    "EVP_DecryptFinal_ex E x2 = (?t = tg (v_key (view x1)) (v_iv (view x1)) (v_text (view x1)), 0, x3)"
    "same_key (view x3) (view x1)" unfolding evp_decrypts_def by blast
  have k: "tg (v_key (view x1)) (v_iv (view x1)) (v_text (view x1)) = tg (v_key (view x)) (v_iv (view x)) ?ct"
    using x1 by (simp add: same_key_def)
  have sz: "alloc - (alloc - (m - 16)) = m - 16" using m by simp
  have fin: "decrypt_final E x1 ?t ?buf pl alloc =
      (if ?t = tg (v_key (view x)) (v_iv (view x)) ?ct then (GRPC_STATUS_OK, x3, ?buf, alloc - pl)
       else (GRPC_STATUS_FAILED_PRECONDITION, x3, replicate alloc 0 @ drop alloc data, 0))" for pl
    unfolding decrypt_final_def f(1) prod.case f(2) k w by simp
  have "decrypt_body E x [\<lparr>iov_base = Some data, iov_len = m\<rparr>] m \<lparr>iov_base = Some data, iov_len = alloc\<rparr> =
      (case decrypt_final E x1 ?t ?buf (if m = 16 then alloc else alloc - (m - 16)) alloc of
         (status, x, buf, n) \<Rightarrow> (status, x, Some buf, n))"
    by (simp add: decrypt_body_def r kAesGcmTagLength_def del: process_ciphertext.simps)
  also have "\<dots> = (if ?t = tg (v_key (view x)) (v_iv (view x)) ?ct
       then (GRPC_STATUS_OK, x3, Some ?buf, m - 16)
       else (GRPC_STATUS_FAILED_PRECONDITION, x3, Some (replicate alloc 0 @ drop alloc data), 0))"
    unfolding fin using sz by simp
  finally show ?thesis using f(3) x1(3) by (intro exI [of _ x3]) (simp add: same_key_def)
qed

lemma aes_decrypts:
  assumes E: "evp_gcm E view ks tg" and c: "aes_inv E view k msk c" and n: "length n = 12"
    and m: "16 \<le> m" "m \<le> alloc" "alloc \<le> length data" "alloc < 2 ^ 31"
  shows "\<exists>c'. aes_inv E view k msk c' \<and>
    gsec_aead_crypter_decrypt (Some c) (Some n) 12 None 0 (Some data) m (Some data) alloc True =
      (if take 16 (drop (m - 16) data) = tg (msg_key E k msk n) (msg_iv msk n) (take (m - 16) data)
       then (GRPC_STATUS_OK, Some (stream_xor ks (msg_view E k msk n) (take (m - 16) data) @ drop (m - 16) data), Some (m - 16), Some c')
       else (GRPC_STATUS_FAILED_PRECONDITION, Some (replicate alloc 0 @ drop alloc data), Some 0, Some c'))"
proof -
  have keys: "evp_keys E view" and dec: "evp_decrypts E view ks tg"
    using E by (simp_all add: evp_gcm_def)
  have s: "aes_state E view k msk (gsec_state c)" and vt: "gsec_vtable c = Some (aes_gcm_vtable E)"
    using c by (simp_all add: aes_inv_def)
  from rekey_ok [OF keys s, of n] obtain s1 where s1: "aes_gcm_rekey_if_required E (gsec_state c) n = (GRPC_STATUS_OK, s1)"
    "aes_state E view k msk s1" "v_key (view (aes_ctx s1)) = msg_key E k msk n" "nonce_aead s1 n = msg_iv msk n" by blast
  have iv: "length (msg_iv msk n) = 12"
    using n s by (auto simp: msg_iv_def aes_gcm_mask_nonce_def aes_state_def split: option.splits)
  from dec iv obtain x2 where x2: "EVP_DecryptInit_ex E (aes_ctx s1) None None (Some (msg_iv msk n)) = (True, x2)"
    "view x2 = (view (aes_ctx s1))\<lparr>v_iv := msg_iv msk n, v_text := []\<rparr>" unfolding evp_decrypts_def by blast
  have v: "v_key (view x2) = msg_key E k msk n" "v_iv (view x2) = msg_iv msk n" "v_text (view x2) = []"
    using x2(2) s1(3) by simp_all
  from decrypt_body_ok [OF dec m v(3)] obtain x3 where x3: "same_key (view x3) (view x2)"
    "decrypt_body E x2 [\<lparr>iov_base = Some data, iov_len = m\<rparr>] m \<lparr>iov_base = Some data, iov_len = alloc\<rparr> =
      (if take 16 (drop (m - 16) data) = tg (v_key (view x2)) (v_iv (view x2)) (take (m - 16) data)
       then (GRPC_STATUS_OK, x3, Some (stream_xor ks (view x2) (take (m - 16) data) @ drop (m - 16) data), m - 16)
       else (GRPC_STATUS_FAILED_PRECONDITION, x3, Some (replicate alloc 0 @ drop alloc data), 0))" by blast
  let ?c = "c\<lparr>gsec_state := s1\<lparr>aes_ctx := x3\<rparr>\<rparr>"
  have aes: "aes_state E view k msk (s1\<lparr>aes_ctx := x3\<rparr>)"
    using s1(2) x3(1) x2(2) by (intro aes_state_ctx) (simp_all add: same_key_def)
  have tot: "add_size 0 m = m" using m by simp
  have "gsec_aead_crypter_decrypt (Some c) (Some n) 12 None 0 (Some data) m (Some data) alloc True =
      (case decrypt_body E x2 [\<lparr>iov_base = Some data, iov_len = m\<rparr>] m \<lparr>iov_base = Some data, iov_len = alloc\<rparr> of
         (status, x, out, n) \<Rightarrow> (status, out, Some n, Some (c\<lparr>gsec_state := s1\<lparr>aes_ctx := x\<rparr>\<rparr>)))"
    using m tot by (simp add: gsec_aead_crypter_decrypt_def aes_gcm_entries [OF vt] gsec_aes_gcm_aead_crypter_decrypt_iovec_def
        kAesGcmNonceLength_def kAesGcmTagLength_def s1(1,4) x2(1) split: prod.splits)
  also have "\<dots> = (if take 16 (drop (m - 16) data) = tg (msg_key E k msk n) (msg_iv msk n) (take (m - 16) data)
       then (GRPC_STATUS_OK, Some (stream_xor ks (msg_view E k msk n) (take (m - 16) data) @ drop (m - 16) data), Some (m - 16), Some ?c)
       else (GRPC_STATUS_FAILED_PRECONDITION, Some (replicate alloc 0 @ drop alloc data), Some 0, Some ?c))"
    unfolding x3(2) v(1,2) stream_xor_msg [OF v] by simp
  finally show ?thesis using aes vt by (intro exI [of _ ?c]) (simp add: aes_inv_def)
qed

lemma aes_frame_length: "(\<And>k iv bs. length (tg k iv bs) = 16) \<Longrightarrow> length (aes_frame E ks tg k msk n pt) = length pt + 16"
  by (simp add: aes_frame_def Let_def)

text \<open>A text is a frame of its decryption if its tag is right.\<close>

lemma aes_frame_iff:
  assumes "length bs = m" and "16 \<le> m" and "\<And>k iv bs. length (tg k iv bs) = 16"
  shows "bs = aes_frame E ks tg k msk n pt \<longleftrightarrow>
    pt = stream_xor ks (msg_view E k msk n) (take (m - 16) bs) \<and>
    take 16 (drop (m - 16) bs) = tg (msg_key E k msk n) (msg_iv msk n) (take (m - 16) bs)"
proof -
  have x: "stream_xor ks (msg_view E k msk n) (stream_xor ks (msg_view E k msk n) as) = as" for as
    by (rule stream_xor_twice) simp_all
  have d: "take 16 (drop (m - 16) bs) = drop (m - 16) bs" using assms(1,2) by simp
  show ?thesis
  proof
    assume "bs = aes_frame E ks tg k msk n pt"
    moreover from this have "length pt = m - 16" using assms aes_frame_length [of tg E ks k msk n pt] by simp
    ultimately show "pt = stream_xor ks (msg_view E k msk n) (take (m - 16) bs) \<and>
      take 16 (drop (m - 16) bs) = tg (msg_key E k msk n) (msg_iv msk n) (take (m - 16) bs)"
      using x assms(3) by (simp add: aes_frame_def Let_def)
  next
    assume "pt = stream_xor ks (msg_view E k msk n) (take (m - 16) bs) \<and>
      take 16 (drop (m - 16) bs) = tg (msg_key E k msk n) (msg_iv msk n) (take (m - 16) bs)"
    with x d show "bs = aes_frame E ks tg k msk n pt"
      by (simp add: aes_frame_def Let_def)
  qed
qed

lemma aes_gcm_ok:
  assumes E: "evp_gcm E view ks tg"
  shows "aead_ok (aes_frame E ks tg k msk) (aes_inv E view k msk)"
proof -
  let ?F = "aes_frame E ks tg k msk"
  have tg: "\<And>k iv bs. length (tg k iv bs) = 16" using E by (simp add: evp_gcm_def)
  have len: "length (?F n pt) = length pt + 16" for n pt by (rule aes_frame_length [OF tg])
  have parts: "take (m - 16) (take m data) = take (m - 16) data" "take 16 (drop (m - 16) (take m data)) = take 16 (drop (m - 16) data)"
    if "16 \<le> m" for m and data :: bytes using that by (simp_all add: drop_take)
  have "seals ?F (aes_inv E view k msk)" unfolding seals_def using aes_encrypts [OF E] by blast
  moreover have "unseals ?F (aes_inv E view k msk)" unfolding unseals_def
  proof (intro allI impI, elim conjE)
    fix c and n data :: bytes and m alloc and pt :: bytes
    assume a: "aes_inv E view k msk c" "length n = 12" "m \<le> alloc" "alloc \<le> length data" "alloc < 2 ^ 31" "take m data = ?F n pt"
    have lm: "length (take m data) = m" using a(3,4) by simp
    then have m: "m = length pt + 16" using len [of n pt] unfolding a(6) by simp
    then have m16: "16 \<le> m" by simp
    from iffD1 [OF aes_frame_iff [OF lm m16 tg] a(6)] have
      pt: "pt = stream_xor ks (msg_view E k msk n) (take (m - 16) data)"
      "take 16 (drop (m - 16) data) = tg (msg_key E k msk n) (msg_iv msk n) (take (m - 16) data)"
      unfolding parts [OF m16] by blast+
    have d: "drop (m - 16) data = drop (length pt) data" "m - 16 = length pt" using m by simp_all
    from aes_decrypts [OF E a(1,2) m16 a(3-5)] show
      "\<exists>c'. aes_inv E view k msk c' \<and> gsec_aead_crypter_decrypt (Some c) (Some n) 12 None 0 (Some data) m (Some data) alloc True =
         (GRPC_STATUS_OK, Some (pt @ drop (length pt) data), Some (length pt), Some c')"
      unfolding if_P [OF pt(2)] unfolding d unfolding pt(1) [unfolded d, symmetric] .
  qed
  moreover have "refuses ?F (aes_inv E view k msk)" unfolding refuses_def
  proof (intro allI impI, elim conjE)
    fix c and n data :: bytes and m alloc
    assume a: "aes_inv E view k msk c" "length n = 12" "16 \<le> m" "m \<le> alloc" "alloc \<le> length data" "alloc < 2 ^ 31"
      "\<forall>pt. take m data \<noteq> ?F n pt"
    have lm: "length (take m data) = m" using a(4,5) by simp
    have ne: "take 16 (drop (m - 16) data) \<noteq> tg (msg_key E k msk n) (msg_iv msk n) (take (m - 16) data)"
    proof
      assume eq: "take 16 (drop (m - 16) data) = tg (msg_key E k msk n) (msg_iv msk n) (take (m - 16) data)"
      have "take m data = ?F n (stream_xor ks (msg_view E k msk n) (take (m - 16) data))"
        by (rule iffD2 [OF aes_frame_iff [OF lm a(3) tg]], unfold parts [OF a(3)]) (simp add: eq)
      with a(7) show False by blast
    qed
    from aes_decrypts [OF E a(1-6)] show
      "\<exists>c' k'. aes_inv E view k msk c' \<and> gsec_aead_crypter_decrypt (Some c) (Some n) 12 None 0 (Some data) m (Some data) alloc True =
         (GRPC_STATUS_FAILED_PRECONDITION, Some (replicate alloc 0 @ drop alloc data), k', Some c')"
      unfolding if_not_P [OF ne] by blast
  qed
  moreover have "gsec_aead_crypter_nonce_length (Some c) True = (GRPC_STATUS_OK, Some 12) \<and>
      gsec_aead_crypter_tag_length (Some c) True = (GRPC_STATUS_OK, Some 16)" if "aes_inv E view k msk c" for c
    using that by (simp add: aes_inv_def aes_state_def gsec_aead_crypter_nonce_length_def gsec_aead_crypter_tag_length_def
        aes_gcm_entries gsec_aes_gcm_aead_crypter_nonce_length_def gsec_aes_gcm_aead_crypter_tag_length_def)
  ultimately show ?thesis using len by (simp add: aead_ok_def)
qed

definition session_key :: "bytes \<Rightarrow> bool \<Rightarrow> bytes" where
  "session_key key rekey = (if rekey then take 32 key else key)"

definition session_mask :: "bytes \<Rightarrow> bool \<Rightarrow> bytes option" where
  "session_mask key rekey = (if rekey then Some (take 12 (drop 32 key)) else None)"

definition good_key :: "bytes \<Rightarrow> bool \<Rightarrow> bool" where
  "good_key key rekey \<longleftrightarrow> (if rekey then length key = 44 else length key = 16 \<or> length key = 32)"

lemma aes_gcm_created:
  assumes E: "evp_gcm E view ks tg" and key: "good_key key rekey"
  shows "\<exists>c. gsec_aes_gcm_aead_crypter_create E (Some key) (length key) 12 16 rekey True = (GRPC_STATUS_OK, Some c) \<and>
    aes_inv E view (session_key key rekey) (session_mask key rekey) c"
proof -
  have keys: "evp_keys E view" using E by (simp add: evp_gcm_def)
  let ?n = "if rekey then 32 else length key"
  let ?d = "if rekey then Some \<lparr>kdf_counter = replicate 6 0, nonce_mask = take 12 (drop 32 key)\<rparr> else None"
  let ?c = "\<lparr>aes_key_length = ?n, aes_nonce_length = 12, aes_tag_length = 16, aes_key = take ?n key, rekey_data = ?d,
    aes_ctx = EVP_CIPHER_CTX_new E\<rparr>"
  have k: "take ?n key = session_key key rekey" by (simp add: session_key_def)
  from derived_key [OF keys, of "take 32 key" "replicate 6 0"] obtain dk where
    dk: "aes_gcm_derive_aead_key E (take 32 key) (replicate 6 0) = Some dk" "key_fits EVP_aes_128_gcm dk" by blast
  let ?cipher = "if rekey \<or> length key = 16 then EVP_aes_128_gcm else EVP_aes_256_gcm" let ?k = "if rekey then dk else key"
  have "key_fits ?cipher ?k" using key dk(2) by (auto simp: good_key_def key_fits_def split: if_splits)
  with keys obtain x1 where x1: "EVP_DecryptInit_ex E (EVP_CIPHER_CTX_new E) (Some ?cipher) (Some ?k) None = (True, x1)"
    "v_cipher (view x1) = ?cipher" "v_key (view x1) = ?k" unfolding evp_keys_def by blast
  from keys obtain x2 where x2: "EVP_CTRL_GCM_SET_IVLEN E x1 12 = (True, x2)" "same_key (view x2) (view x1)"
    unfolding evp_keys_def by blast
  have i12: "to_int 12 = 12" by (simp add: to_int_small)
  have "aes_gcm_new_evp_cipher_ctx E ?c = (GRPC_STATUS_OK, ?c\<lparr>aes_ctx := x2\<rparr>)"
    using key dk(1) x1(1) x2(1) i12
    by (auto simp: aes_gcm_new_evp_cipher_ctx_def good_key_def aes_gcm_constants Let_def split: if_splits)
  then have "gsec_aes_gcm_aead_crypter_create E (Some key) (length key) 12 16 rekey True =
      (GRPC_STATUS_OK, Some \<lparr>gsec_vtable = Some (aes_gcm_vtable E), gsec_state = ?c\<lparr>aes_ctx := x2\<rparr>\<rparr>)"
    using key by (auto simp: gsec_aes_gcm_aead_crypter_create_def good_key_def aes_gcm_constants Let_def split: if_splits)
  moreover have "aes_state E view (session_key key rekey) (session_mask key rekey) (?c\<lparr>aes_ctx := x2\<rparr>)"
    using key dk(1) x1(2,3) x2(2) by (auto simp: aes_state_def session_key_def session_mask_def same_key_def good_key_def)
  ultimately show ?thesis by (intro exI conjI) (assumption, simp add: aes_inv_def)
qed

end
