(* ===== verification/Alts_Protector.thy ===== *)
theory Alts_Protector
  imports Aead
begin

text \<open>
  The frame protector of ALTS (\<open>gRPC-Core/src/core/tsi/alts/frame_protector/alts_frame_protector.cc\<close>): it collects
  plaintext in a buffer, seals the buffer as a frame and writes the frame out in pieces; and reads frames in pieces,
  unseals them in a buffer and hands the plaintext out in pieces.

  The reader writes to the buffer of the protector through an offset. The writer reads from it through a copy: the
  bytes it has still to write are not changed before they are written. \<open>self\<close> is not null, since the functions are
  reached through it. Arguments that point to a size are the size, or \<open>None\<close> for a null pointer.
\<close>

datatype tsi_result =
  TSI_OK | TSI_UNKNOWN_ERROR | TSI_INVALID_ARGUMENT | TSI_PERMISSION_DENIED | TSI_INCOMPLETE_DATA |
  TSI_FAILED_PRECONDITION | TSI_UNIMPLEMENTED | TSI_INTERNAL_ERROR | TSI_DATA_CORRUPTED | TSI_NOT_FOUND |
  TSI_PROTOCOL_FAILURE | TSI_HANDSHAKE_IN_PROGRESS | TSI_OUT_OF_RESOURCES | TSI_ASYNC | TSI_HANDSHAKE_SHUTDOWN

definition kMinFrameLength :: nat where "kMinFrameLength = 1024"
definition kDefaultFrameLength :: nat where "kDefaultFrameLength = 16 * 1024"
definition kMaxFrameLength :: nat where "kMaxFrameLength = 1024 * 1024"
definition kAltsRecordProtocolRekeyFrameLimit :: nat where "kAltsRecordProtocolRekeyFrameLimit = 8"
definition kAltsRecordProtocolFrameLimit :: nat where "kAltsRecordProtocolFrameLimit = 5"

record 'c alts_frame_protector =
  seal_crypter :: "'c alts_record_protocol_crypter option"
  unseal_crypter :: "'c alts_record_protocol_crypter option"
  fp_writer :: alts_frame_writer
  fp_reader :: alts_frame_reader
  in_place_protect_buffer :: bytes
  in_place_unprotect_buffer :: bytes
  in_place_protect_bytes_buffered :: nat
  in_place_unprotect_bytes_processed :: nat
  max_protected_frame_size :: nat
  max_unprotected_frame_size :: nat
  overhead_length :: nat

section \<open>Protecting\<close>

definition seal :: "'c alts_frame_protector \<Rightarrow> tsi_result \<times> 'c alts_frame_protector" where
  "seal impl =
     (case alts_crypter_process_in_place (seal_crypter impl) (Some (in_place_protect_buffer impl))
         (max_protected_frame_size impl) (in_place_protect_bytes_buffered impl) True of
        (status, data, n, c) \<Rightarrow>
          let output_size = (case n of Some n \<Rightarrow> n | None \<Rightarrow> 0);
              impl = impl\<lparr>seal_crypter := c, in_place_protect_buffer := the data,
                          in_place_protect_bytes_buffered := output_size\<rparr>
          in (if status \<noteq> GRPC_STATUS_OK then TSI_INTERNAL_ERROR else TSI_OK, impl))"

definition max_encrypted_payload_bytes :: "'c alts_frame_protector \<Rightarrow> nat" where
  "max_encrypted_payload_bytes impl = max_protected_frame_size impl - kFrameHeaderSize"

text \<open>Sealing the buffered bytes and starting a frame.\<close>

definition start_frame :: "'c alts_frame_protector \<Rightarrow> tsi_result \<times> 'c alts_frame_protector" where
  "start_frame impl =
     (if alts_is_frame_writer_done (fp_writer impl) then
        case seal impl of
          (result, impl) \<Rightarrow>
            if result \<noteq> TSI_OK then (result, impl)
            else
              case alts_reset_frame_writer (fp_writer impl) (Some (in_place_protect_buffer impl))
                  (in_place_protect_bytes_buffered impl) of
                (ok, w) \<Rightarrow> (if ok then TSI_OK else TSI_INTERNAL_ERROR, impl\<lparr>fp_writer := w\<rparr>)
      else (TSI_OK, impl))"

text \<open>The result, the bytes written to the output, the two sizes after the call, and the protector.\<close>

definition alts_protect_flush :: "'c alts_frame_protector \<Rightarrow> bool \<Rightarrow> nat option \<Rightarrow> nat option \<Rightarrow>
    tsi_result \<times> bytes \<times> nat option \<times> nat option \<times> 'c alts_frame_protector" where
  "alts_protect_flush impl protected_output_frames protected_output_frames_size still_pending_size =
     (if \<not> protected_output_frames \<or> protected_output_frames_size = None \<or> still_pending_size = None
      then (TSI_INVALID_ARGUMENT, [], protected_output_frames_size, still_pending_size, impl)
      else if in_place_protect_bytes_buffered impl = 0 then (TSI_OK, [], Some 0, Some 0, impl)
      else
        case start_frame impl of
          (result, impl) \<Rightarrow>
            if result \<noteq> TSI_OK then (result, [], protected_output_frames_size, still_pending_size, impl)
            else
              case alts_write_frame_bytes (fp_writer impl) True protected_output_frames_size of
                (ok, out, written_frame_bytes, w) \<Rightarrow>
                  let impl = impl\<lparr>fp_writer := w\<rparr> in
                  if \<not> ok then (TSI_INTERNAL_ERROR, out, protected_output_frames_size, still_pending_size, impl)
                  else
                    (TSI_OK, out, written_frame_bytes, Some (alts_get_num_writer_bytes_remaining w),
                     if alts_is_frame_writer_done w then impl\<lparr>in_place_protect_bytes_buffered := 0\<rparr> else impl))"

text \<open>The result, the number of plaintext bytes taken, the output, its size, and the protector.\<close>

definition alts_protect :: "'c alts_frame_protector \<Rightarrow> bytes option \<Rightarrow> nat option \<Rightarrow> bool \<Rightarrow> nat option \<Rightarrow>
    tsi_result \<times> nat option \<times> bytes \<times> nat option \<times> 'c alts_frame_protector" where
  "alts_protect impl unprotected_bytes unprotected_bytes_size protected_output_frames protected_output_frames_size =
     (case (unprotected_bytes, unprotected_bytes_size) of
        (Some bs, Some n) \<Rightarrow>
          if \<not> protected_output_frames \<or> protected_output_frames_size = None
          then (TSI_INVALID_ARGUMENT, unprotected_bytes_size, [], protected_output_frames_size, impl)
          else
            let max_payload = max_encrypted_payload_bytes impl;
                buffered = in_place_protect_bytes_buffered impl;
                bytes_to_buffer =
                  (if buffered + overhead_length impl < max_payload
                   then min n (max_payload - buffered - overhead_length impl) else 0);
                impl = impl\<lparr>in_place_protect_buffer :=
                              overwrite (in_place_protect_buffer impl) buffered (take bytes_to_buffer bs),
                            in_place_protect_bytes_buffered := buffered + bytes_to_buffer\<rparr>
            in if max_payload = in_place_protect_bytes_buffered impl + overhead_length impl \<or>
                  max_payload = in_place_protect_bytes_buffered impl
               then
                 case alts_protect_flush impl protected_output_frames protected_output_frames_size (Some 0) of
                   (result, out, size_out, _, impl) \<Rightarrow> (result, Some bytes_to_buffer, out, size_out, impl)
               else (TSI_OK, Some bytes_to_buffer, [], Some 0, impl)
      | _ \<Rightarrow> (TSI_INVALID_ARGUMENT, unprotected_bytes_size, [], protected_output_frames_size, impl))"

section \<open>Unprotecting\<close>

definition unseal :: "'c alts_frame_protector \<Rightarrow> tsi_result \<times> 'c alts_frame_protector" where
  "unseal impl =
     (case alts_crypter_process_in_place (unseal_crypter impl) (Some (in_place_unprotect_buffer impl))
         (max_unprotected_frame_size impl) (alts_get_output_bytes_read (fp_reader impl)) True of
        (status, data, _, c) \<Rightarrow>
          (if status \<noteq> GRPC_STATUS_OK then TSI_DATA_CORRUPTED else TSI_OK,
           impl\<lparr>unseal_crypter := c, in_place_unprotect_buffer := the data\<rparr>))"

text \<open>\<open>fresh\<close> is what new memory holds.\<close>

definition ensure_buffer_size :: "(nat \<Rightarrow> u8) \<Rightarrow> 'c alts_frame_protector \<Rightarrow> 'c alts_frame_protector" where
  "ensure_buffer_size fresh impl =
     (let r = fp_reader impl; n = alts_get_output_bytes_read r in
      if \<not> alts_has_read_frame_length r then impl
      else
        let buffer_space_remaining = max_unprotected_frame_size impl - n in
        if buffer_space_remaining < alts_get_reader_bytes_remaining r then
          let buffer_len = n + alts_get_reader_bytes_remaining r;
              buffer = overwrite (map fresh [0..<buffer_len]) 0 (take n (in_place_unprotect_buffer impl))
          in impl\<lparr>max_unprotected_frame_size := buffer_len, in_place_unprotect_buffer := buffer,
                  fp_reader := alts_reset_reader_output_buffer r (Some n)\<rparr>
        else impl)"

definition start_reader :: "'c alts_frame_protector \<Rightarrow> tsi_result \<times> 'c alts_frame_protector" where
  "start_reader impl =
     (let r = fp_reader impl in
      if alts_is_frame_reader_done r \<and>
         (alts_get_output_buffer r = None \<or>
          alts_get_output_bytes_read r = in_place_unprotect_bytes_processed impl + overhead_length impl)
      then
        case alts_reset_frame_reader r (Some 0) of
          (ok, r) \<Rightarrow>
            if \<not> ok then (TSI_INTERNAL_ERROR, impl\<lparr>fp_reader := r\<rparr>)
            else (TSI_OK, impl\<lparr>fp_reader := r, in_place_unprotect_bytes_processed := 0\<rparr>)
      else (TSI_OK, impl))"

text \<open>Reading more bytes of the frame; the result, the number of bytes taken and the protector.\<close>

definition read_frame :: "(nat \<Rightarrow> u8) \<Rightarrow> 'c alts_frame_protector \<Rightarrow> bytes \<Rightarrow> nat \<Rightarrow> tsi_result \<times> nat \<times> 'c alts_frame_protector" where
  "read_frame fresh impl bs size_in =
     (if \<not> alts_is_frame_reader_done (fp_reader impl) then
        let impl = ensure_buffer_size fresh impl;
            r = fp_reader impl;
            n = min (max_unprotected_frame_size impl - alts_get_output_bytes_read r) size_in
        in case alts_read_frame_bytes r (Some bs) (Some n) of
             (ok, out, read_frames_bytes_size, r') \<Rightarrow>
               let impl = impl\<lparr>fp_reader := r',
                     in_place_unprotect_buffer := overwrite (in_place_unprotect_buffer impl) (the (alts_get_output_buffer r)) out\<rparr>
               in if \<not> ok then (TSI_INTERNAL_ERROR, n, impl)
                  else (TSI_OK, the read_frames_bytes_size, impl)
      else (TSI_OK, 0, impl))"

text \<open>Handing out what has been unsealed; the result, the bytes written and the protector.\<close>

definition write_unsealed :: "'c alts_frame_protector \<Rightarrow> nat \<Rightarrow> tsi_result \<times> bytes \<times> nat \<times> 'c alts_frame_protector" where
  "write_unsealed impl size_out =
     (if alts_is_frame_reader_done (fp_reader impl) then
        let (result, impl) = (if in_place_unprotect_bytes_processed impl = 0 then unseal impl else (TSI_OK, impl)) in
        if result \<noteq> TSI_OK then (result, [], size_out, impl)
        else
          let bytes_to_write = min size_out (alts_get_output_bytes_read (fp_reader impl) -
                in_place_unprotect_bytes_processed impl - overhead_length impl)
          in (TSI_OK, take bytes_to_write (drop (in_place_unprotect_bytes_processed impl) (in_place_unprotect_buffer impl)),
              bytes_to_write,
              impl\<lparr>in_place_unprotect_bytes_processed := in_place_unprotect_bytes_processed impl + bytes_to_write\<rparr>)
      else (TSI_OK, [], 0, impl))"

text \<open>The result, the number of bytes taken, the output, its size, and the protector.\<close>

definition alts_unprotect :: "(nat \<Rightarrow> u8) \<Rightarrow> 'c alts_frame_protector \<Rightarrow> bytes option \<Rightarrow> nat option \<Rightarrow> bool \<Rightarrow> nat option \<Rightarrow>
    tsi_result \<times> nat option \<times> bytes \<times> nat option \<times> 'c alts_frame_protector" where
  "alts_unprotect fresh impl protected_frames_bytes protected_frames_bytes_size unprotected_bytes unprotected_bytes_size =
     (case (protected_frames_bytes, protected_frames_bytes_size, unprotected_bytes_size) of
        (Some bs, Some size_in, Some size_out) \<Rightarrow>
          if \<not> unprotected_bytes
          then (TSI_INVALID_ARGUMENT, protected_frames_bytes_size, [], unprotected_bytes_size, impl)
          else
            case start_reader impl of
              (result, impl) \<Rightarrow>
                if result \<noteq> TSI_OK then (result, Some size_in, [], Some size_out, impl)
                else
                  case read_frame fresh impl bs size_in of
                    (result, n, impl) \<Rightarrow>
                      if result \<noteq> TSI_OK then (result, Some n, [], Some size_out, impl)
                      else
                        case write_unsealed impl size_out of
                          (result, out, k, impl) \<Rightarrow> (result, Some n, out, Some k, impl)
      | _ \<Rightarrow> (TSI_INVALID_ARGUMENT, protected_frames_bytes_size, [], unprotected_bytes_size, impl))"

section \<open>Creation\<close>

definition create_alts_crypters :: "'x evp \<Rightarrow> bytes option \<Rightarrow> nat \<Rightarrow> bool \<Rightarrow> bool \<Rightarrow>
    'x gsec_aes_gcm_aead_crypter alts_frame_protector \<Rightarrow> grpc_status_code \<times> 'x gsec_aes_gcm_aead_crypter alts_frame_protector" where
  "create_alts_crypters E key key_size is_client is_rekey impl =
     (case gsec_aes_gcm_aead_crypter_create E key key_size kAesGcmNonceLength kAesGcmTagLength is_rekey True of
        (status, aead_crypter_seal) \<Rightarrow>
          if status \<noteq> GRPC_STATUS_OK then (status, impl)
          else
            case gsec_aes_gcm_aead_crypter_create E key key_size kAesGcmNonceLength kAesGcmTagLength is_rekey True of
              (status, aead_crypter_unseal) \<Rightarrow>
                if status \<noteq> GRPC_STATUS_OK then (status, impl)
                else
                  let overflow_bytes = (if is_rekey then kAltsRecordProtocolRekeyFrameLimit else kAltsRecordProtocolFrameLimit) in
                  case alts_seal_crypter_create aead_crypter_seal is_client overflow_bytes True of
                    (status, c) \<Rightarrow>
                      if status \<noteq> GRPC_STATUS_OK then (status, impl)
                      else
                        let impl = impl\<lparr>seal_crypter := c\<rparr> in
                        case alts_unseal_crypter_create aead_crypter_unseal is_client overflow_bytes True of
                          (status, c) \<Rightarrow> (status, if status = GRPC_STATUS_OK then impl\<lparr>unseal_crypter := c\<rparr> else impl))"

text \<open>The result, \<open>*max_protected_frame_size\<close> after the call, and the protector; \<open>self\<close> is whether there is a place for it.\<close>

definition alts_create_frame_protector :: "'x evp \<Rightarrow> (nat \<Rightarrow> u8) \<Rightarrow> bytes option \<Rightarrow> nat \<Rightarrow> bool \<Rightarrow> bool \<Rightarrow> nat option \<Rightarrow> bool \<Rightarrow>
    tsi_result \<times> nat option \<times> 'x gsec_aes_gcm_aead_crypter alts_frame_protector option" where
  "alts_create_frame_protector E fresh key key_size is_client is_rekey max_size self =
     (if key = None \<or> \<not> self then (TSI_INTERNAL_ERROR, max_size, None)
      else
        let impl = \<lparr>seal_crypter = None, unseal_crypter = None, fp_writer = alts_create_frame_writer,
              fp_reader = alts_create_frame_reader, in_place_protect_buffer = [], in_place_unprotect_buffer = [],
              in_place_protect_bytes_buffered = 0, in_place_unprotect_bytes_processed = 0, max_protected_frame_size = 0,
              max_unprotected_frame_size = 0, overhead_length = 0\<rparr>
        in case create_alts_crypters E key key_size is_client is_rekey impl of
             (status, impl) \<Rightarrow>
               if status \<noteq> GRPC_STATUS_OK then (TSI_INTERNAL_ERROR, max_size, None)
               else
                 let max_size = map_option (\<lambda>n. max (min n kMaxFrameLength) kMinFrameLength) max_size;
                     n = (case max_size of None \<Rightarrow> kDefaultFrameLength | Some n \<Rightarrow> n)
                 in (TSI_OK, max_size,
                     Some (impl\<lparr>max_protected_frame_size := n, max_unprotected_frame_size := n,
                                in_place_protect_buffer := map fresh [0..<n], in_place_unprotect_buffer := map fresh [0..<n],
                                overhead_length := alts_crypter_num_overhead_bytes (seal_crypter impl)\<rparr>)))"

end
