(* ===== verification/Alts_Sender.thy ===== *)
theory Alts_Sender
  imports Alts_Protector
begin

text \<open>
  The sending end of a connection: the nonces of its frames, the frames on the wire, and that \<open>alts_protect\<close> and
  \<open>alts_protect_flush\<close> write the frames of the bytes they are given.
  \<open>F\<close> is the text of a frame for a nonce and a plaintext, \<open>N\<close> the nonces.
\<close>

section \<open>Nonces and crypters\<close>

definition counter0 :: "bool \<Rightarrow> nat \<Rightarrow> alts_counter" where
  "counter0 role ov =
     \<lparr>counter_size = 12, overflow_size = ov, counter = (if role then (replicate 12 0)[11 := 0x80] else replicate 12 0)\<rparr>"

definition counter_at :: "bool \<Rightarrow> nat \<Rightarrow> nat \<Rightarrow> alts_counter" where
  "counter_at role ov k = snd (counter_after k (counter0 role ov))"

definition nonces :: "bool \<Rightarrow> nat \<Rightarrow> nat \<Rightarrow> bytes" where
  "nonces role ov k = counter (counter_at role ov k)"

lemma counter_at_zero: "counter_at role ov 0 = counter0 role ov"
  by (simp add: counter_at_def)

lemma counter_at_ok:
  assumes "0 < ov" "ov < 12" and "k < 256 ^ ov"
  shows "counter_size (counter_at role ov k) = 12" "overflow_size (counter_at role ov k) = ov"
    "length (counter (counter_at role ov k)) = 12" "counter_number (counter_at role ov k) = k"
proof -
  have "overflow_size (counter0 role ov) \<le> length (counter (counter0 role ov))" "counter_number (counter0 role ov) = 0"
    using assms by (auto simp: counter0_def counter_number_def)
  from counter_after_ok [OF this] assms obtain bs where
    "counter_after k (counter0 role ov) = (replicate k GRPC_STATUS_OK, (counter0 role ov)\<lparr>counter := bs\<rparr>)"
    "length bs = length (counter (counter0 role ov))" "counter_number ((counter0 role ov)\<lparr>counter := bs\<rparr>) = k"
    by (auto simp: counter0_def)
  then show "counter_size (counter_at role ov k) = 12" "overflow_size (counter_at role ov k) = ov"
    "length (counter (counter_at role ov k)) = 12" "counter_number (counter_at role ov k) = k"
    by (auto simp: counter_at_def counter0_def)
qed

lemma counter_at_next:
  assumes "0 < ov" "ov < 12" and "Suc k < 256 ^ ov"
  shows "alts_counter_increment (Some (counter_at role ov k)) True = (GRPC_STATUS_OK, Some False, Some (counter_at role ov (Suc k)))"
proof -
  have k: "k < 256 ^ ov" using assms(3) by simp
  note c = counter_at_ok [OF assms(1,2) k, of role]
  have "overflow_size (counter_at role ov k) \<le> length (counter (counter_at role ov k))" using c assms(2) by simp
  from increment_ok [OF this] c assms(3) obtain bs where
    i: "alts_counter_increment (Some (counter_at role ov k)) True = (GRPC_STATUS_OK, Some False, Some ((counter_at role ov k)\<lparr>counter := bs\<rparr>))"
    by auto
  then have "counter_at role ov (Suc k) = (counter_at role ov k)\<lparr>counter := bs\<rparr>"
    by (cases "counter_after k (counter0 role ov)") (simp add: counter_at_def)
  with i show ?thesis by simp
qed

lemma nonces_length: "0 < ov \<Longrightarrow> ov < 12 \<Longrightarrow> k < 256 ^ ov \<Longrightarrow> length (nonces role ov k) = 12"
  by (simp add: nonces_def counter_at_ok)

text \<open>A crypter that has processed \<open>k\<close> frames.\<close>

definition crypter_at :: "alts_crypter_vtable \<Rightarrow> ('c gsec_aead_crypter \<Rightarrow> bool) \<Rightarrow> bool \<Rightarrow> nat \<Rightarrow> nat \<Rightarrow>
    'c alts_record_protocol_crypter option \<Rightarrow> bool" where
  "crypter_at vt I role ov k c \<longleftrightarrow>
     (\<exists>rp g. c = Some rp \<and> rp_base rp = Some vt \<and> rp_crypter rp = Some g \<and> I g \<and> rp_ctr rp = Some (counter_at role ov k))"

lemma crypter_overhead:
  assumes "aead_ok F I" and "crypter_at vt I role ov k c"
  shows "alts_crypter_num_overhead_bytes c = 16"
  using assms
  by (auto simp: crypter_at_def aead_ok_def alts_crypter_num_overhead_bytes_def
      alts_record_protocol_crypter_num_overhead_bytes_def)

lemma seal_step:
  assumes A: "aead_ok F I" and c: "crypter_at Seal_vtable I role ov k c" and ov: "0 < ov" "ov < 12" "Suc k < 256 ^ ov"
    and m: "0 < m" "m + 16 \<le> alloc" "alloc \<le> length data" "alloc < 2 ^ 31"
  shows "\<exists>c'. alts_crypter_process_in_place c (Some data) alloc m True =
      (GRPC_STATUS_OK, Some (F (nonces role ov k) (take m data) @ drop (m + 16) data), Some (m + 16), c') \<and>
    crypter_at Seal_vtable I role ov (Suc k) c'"
proof -
  from c obtain rp g where rp: "c = Some rp" "rp_base rp = Some Seal_vtable" "rp_crypter rp = Some g" "I g"
    "rp_ctr rp = Some (counter_at role ov k)" unfolding crypter_at_def by blast
  have k: "k < 256 ^ ov" using ov(3) by simp
  note ctr = counter_at_ok [OF ov(1,2) k, of role]
  have sz: "alts_counter_get_size (Some (counter_at role ov k)) = 12"
    "alts_counter_get_counter (Some (counter_at role ov k)) = Some (nonces role ov k)"
    using ctr by (simp_all add: alts_counter_get_size_def alts_counter_get_counter_def nonces_def)
  have "seals F I" using A by (simp add: aead_ok_def)
  with rp(4) nonces_length [OF ov(1,2) k, of role] m(2-4) obtain g' where g': "I g'"
    "gsec_aead_crypter_encrypt (Some g) (Some (nonces role ov k)) 12 None 0 (Some data) m (Some data) alloc True =
       (GRPC_STATUS_OK, Some (F (nonces role ov k) (take m data) @ drop (m + 16) data), Some (m + 16), Some g')"
    unfolding seals_def by blast
  have "add_size m 16 = m + 16" using m by simp
  then have "seal_check c (Some data) alloc m True = GRPC_STATUS_OK"
    using m crypter_overhead [OF A c] rp(1) by (simp add: seal_check_def input_sanity_check_def)
  moreover have "increment_counter (rp\<lparr>rp_crypter := Some g'\<rparr>) =
      (GRPC_STATUS_OK, rp\<lparr>rp_crypter := Some g', rp_ctr := Some (counter_at role ov (Suc k))\<rparr>)"
    using rp(5) counter_at_next [OF ov] by (simp add: increment_counter_def)
  ultimately show ?thesis using rp g' sz
    by (intro exI [of _ "Some (rp\<lparr>rp_crypter := Some g', rp_ctr := Some (counter_at role ov (Suc k))\<rparr>)"])
       (simp add: alts_crypter_process_in_place_def alts_seal_crypter_process_in_place_def crypter_at_def)
qed

lemma unseal_step:
  assumes A: "aead_ok F I" and c: "crypter_at Unseal_vtable I role ov k c" and ov: "0 < ov" "ov < 12" "Suc k < 256 ^ ov"
    and m: "m \<le> alloc" "alloc \<le> length data" "alloc < 2 ^ 31" and pt: "take m data = F (nonces role ov k) pt"
  shows "\<exists>c'. alts_crypter_process_in_place c (Some data) alloc m True =
      (GRPC_STATUS_OK, Some (pt @ drop (length pt) data), Some (length pt), c') \<and>
    crypter_at Unseal_vtable I role ov (Suc k) c'"
proof -
  from c obtain rp g where rp: "c = Some rp" "rp_base rp = Some Unseal_vtable" "rp_crypter rp = Some g" "I g"
    "rp_ctr rp = Some (counter_at role ov k)" unfolding crypter_at_def by blast
  have k: "k < 256 ^ ov" using ov(3) by simp
  note ctr = counter_at_ok [OF ov(1,2) k, of role]
  have sz: "alts_counter_get_size (Some (counter_at role ov k)) = 12"
    "alts_counter_get_counter (Some (counter_at role ov k)) = Some (nonces role ov k)"
    using ctr by (simp_all add: alts_counter_get_size_def alts_counter_get_counter_def nonces_def)
  have nl: "length (nonces role ov k) = 12" by (rule nonces_length [OF ov(1,2) k])
  have "unseals F I" and F: "length (F (nonces role ov k) pt) = length pt + 16" using A nl by (simp_all add: aead_ok_def)
  from this(1) rp(4) nl m pt obtain g' where g': "I g'"
    "gsec_aead_crypter_decrypt (Some g) (Some (nonces role ov k)) 12 None 0 (Some data) m (Some data) alloc True =
       (GRPC_STATUS_OK, Some (pt @ drop (length pt) data), Some (length pt), Some g')"
    unfolding unseals_def by blast
  have "length (take m data) = m" using m by simp
  then have "m = length pt + 16" unfolding pt F by simp
  then have "unseal_check c (Some data) m True = GRPC_STATUS_OK"
    using crypter_overhead [OF A c] rp(1) by (simp add: unseal_check_def input_sanity_check_def)
  moreover have "increment_counter (rp\<lparr>rp_crypter := Some g'\<rparr>) =
      (GRPC_STATUS_OK, rp\<lparr>rp_crypter := Some g', rp_ctr := Some (counter_at role ov (Suc k))\<rparr>)"
    using rp(5) counter_at_next [OF ov] by (simp add: increment_counter_def)
  ultimately show ?thesis using rp g' sz
    by (intro exI [of _ "Some (rp\<lparr>rp_crypter := Some g', rp_ctr := Some (counter_at role ov (Suc k))\<rparr>)"])
       (simp add: alts_crypter_process_in_place_def alts_unseal_crypter_process_in_place_def crypter_at_def)
qed

text \<open>A text that is no frame is refused, and the crypter waits for the same frame.\<close>

lemma unseal_refused:
  assumes A: "aead_ok F I" and c: "crypter_at Unseal_vtable I role ov k c" and ov: "0 < ov" "ov < 12" "k < 256 ^ ov"
    and m: "m \<le> alloc" "alloc \<le> length data" "alloc < 2 ^ 31" and pt: "\<forall>pt. take m data \<noteq> F (nonces role ov k) pt"
  shows "\<exists>status data' n c'. alts_crypter_process_in_place c (Some data) alloc m True = (status, Some data', n, c') \<and>
    status \<noteq> GRPC_STATUS_OK \<and> length data' = length data \<and> crypter_at Unseal_vtable I role ov k c'"
proof -
  from c obtain rp g where rp: "c = Some rp" "rp_base rp = Some Unseal_vtable" "rp_crypter rp = Some g" "I g"
    "rp_ctr rp = Some (counter_at role ov k)" unfolding crypter_at_def by blast
  note ctr = counter_at_ok [OF ov, of role]
  have sz: "alts_counter_get_size (Some (counter_at role ov k)) = 12"
    "alts_counter_get_counter (Some (counter_at role ov k)) = Some (nonces role ov k)"
    using ctr by (simp_all add: alts_counter_get_size_def alts_counter_get_counter_def nonces_def)
  show ?thesis
  proof (cases "m < 16")
    case True
    then have "unseal_check c (Some data) m True = GRPC_STATUS_INVALID_ARGUMENT"
      using crypter_overhead [OF A c] rp(1) by (simp add: unseal_check_def input_sanity_check_def)
    with rp c show ?thesis by (simp add: alts_crypter_process_in_place_def alts_unseal_crypter_process_in_place_def)
  next
    case False
    have "refuses F I" using A by (simp add: aead_ok_def)
    with rp(4) nonces_length [OF ov, of role] False m pt obtain g' n where g': "I g'"
      "gsec_aead_crypter_decrypt (Some g) (Some (nonces role ov k)) 12 None 0 (Some data) m (Some data) alloc True =
         (GRPC_STATUS_FAILED_PRECONDITION, Some (replicate alloc 0 @ drop alloc data), n, Some g')"
      unfolding refuses_def by (metis not_less)
    have "unseal_check c (Some data) m True = GRPC_STATUS_OK"
      using False crypter_overhead [OF A c] rp(1) by (simp add: unseal_check_def input_sanity_check_def)
    with rp g' sz m(2) show ?thesis
      by (simp add: alts_crypter_process_in_place_def alts_unseal_crypter_process_in_place_def crypter_at_def)
  qed
qed

section \<open>Frames on the wire\<close>

definition on_wire :: "bytes \<Rightarrow> bytes" where
  "on_wire ct = frame_header (length ct) @ ct"

text \<open>The frames of the plaintexts \<open>fs\<close>, the first with number \<open>k\<close>.\<close>

fun wire :: "(nat \<Rightarrow> bytes \<Rightarrow> bytes) \<Rightarrow> nat \<Rightarrow> bytes list \<Rightarrow> bytes" where
  "wire G k [] = []"
| "wire G k (f # fs) = on_wire (G k f) @ wire G (Suc k) fs"

lemma wire_append: "wire G k (fs @ gs) = wire G k fs @ wire G (k + length fs) gs"
  by (induction fs arbitrary: k) simp_all

lemma wire_snoc: "wire G k (fs @ [f]) = wire G k fs @ on_wire (G (k + length fs) f)"
  by (simp add: wire_append)

lemma on_wire_length [simp]: "length (on_wire ct) = 8 + length ct"
  by (simp add: on_wire_def)

section \<open>The sender\<close>

text \<open>
  The sender has sealed the plaintexts \<open>fs\<close> and has the bytes \<open>u\<close> still to be sealed; it has written \<open>out\<close>. Either no
  frame is being written, or the last one is; then its text is in the buffer and \<open>pos\<close> bytes of the frame are written.
\<close>

definition sender_busy :: "(nat \<Rightarrow> bytes \<Rightarrow> bytes) \<Rightarrow> 'c alts_frame_protector \<Rightarrow> bytes list \<Rightarrow> bytes \<Rightarrow> bool" where
  "sender_busy G P fs out \<longleftrightarrow>
     (\<exists>gs f bs pos. fs = gs @ [f] \<and> in_place_protect_bytes_buffered P = length f + 16 \<and>
        length (G (length gs) f) = length f + 16 \<and> take (length f + 16) bs = G (length gs) f \<and>
        length f + 24 \<le> max_protected_frame_size P \<and> writer_at bs (length f + 16) pos (fp_writer P) \<and> pos < length f + 24 \<and>
        out = wire G 0 gs @ take pos (on_wire (G (length gs) f)))"

definition sender_idle :: "(nat \<Rightarrow> bytes \<Rightarrow> bytes) \<Rightarrow> 'c alts_frame_protector \<Rightarrow> bytes list \<Rightarrow> bytes \<Rightarrow> bytes \<Rightarrow> bool" where
  "sender_idle G P fs u out \<longleftrightarrow>
     alts_is_frame_writer_done (fp_writer P) \<and> in_place_protect_bytes_buffered P = length u \<and>
     take (length u) (in_place_protect_buffer P) = u \<and> length u + 24 \<le> max_protected_frame_size P \<and> out = wire G 0 fs"

definition sender_base :: "('c gsec_aead_crypter \<Rightarrow> bool) \<Rightarrow> bool \<Rightarrow> nat \<Rightarrow> 'c alts_frame_protector \<Rightarrow> bytes list \<Rightarrow> bool" where
  "sender_base I role ov P fs \<longleftrightarrow>
     1024 \<le> max_protected_frame_size P \<and> max_protected_frame_size P \<le> kMaxFrameLength \<and> overhead_length P = 16 \<and>
     length (in_place_protect_buffer P) = max_protected_frame_size P \<and>
     crypter_at Seal_vtable I role ov (length fs) (seal_crypter P) \<and>
     (\<forall>f \<in> set fs. f \<noteq> [] \<and> length f + 24 \<le> kMaxFrameLength)"

lemma write_step_count:
  assumes "alts_write_frame_bytes w True (Some n) = (ok, out, k, w')" and "length (w_header_buffer w) = 8"
  shows "k = Some (length out)"
  using assms by (auto simp: alts_write_frame_bytes_def write_payload_def Let_def min_def split: if_splits)

lemma remaining_at:
  assumes "writer_at bs len k w" and "k \<le> 8 + len"
  shows "alts_get_num_writer_bytes_remaining w = 8 + len - k"
  using assms by (auto simp: alts_get_num_writer_bytes_remaining_def writer_at_def)

lemma writer_done_at:
  assumes "writer_at bs len k w" and "0 < len" "k \<le> 8 + len"
  shows "alts_is_frame_writer_done w \<longleftrightarrow> k = 8 + len"
  using assms by (auto simp: alts_is_frame_writer_done_def writer_at_def)

text \<open>Writing on a frame.\<close>

lemma busy_write:
  assumes b: "sender_base I role ov P fs" "sender_busy G P fs out"
  shows "\<exists>o' P' w. alts_write_frame_bytes (fp_writer P) True (Some n) = (True, o', Some (length o'), w) \<and>
    P' = (if alts_is_frame_writer_done w then P\<lparr>fp_writer := w, in_place_protect_bytes_buffered := 0\<rparr> else P\<lparr>fp_writer := w\<rparr>) \<and>
    sender_base I role ov P' fs \<and> alts_get_num_writer_bytes_remaining w \<le> max_protected_frame_size P - n \<and>
    (if alts_get_num_writer_bytes_remaining w = 0 then sender_idle G P' fs [] (out @ o') else sender_busy G P' fs (out @ o'))"
proof -
  from b(2) obtain gs f bs pos where f: "fs = gs @ [f]" "in_place_protect_bytes_buffered P = length f + 16"
    "length (G (length gs) f) = length f + 16" "take (length f + 16) bs = G (length gs) f"
    "length f + 24 \<le> max_protected_frame_size P" "writer_at bs (length f + 16) pos (fp_writer P)" "pos < length f + 24"
    "out = wire G 0 gs @ take pos (on_wire (G (length gs) f))" unfolding sender_busy_def by blast
  let ?len = "length f + 16" let ?ct = "G (length gs) f"
  have "length (take ?len bs) = ?len" using f(3,4) by simp
  then have bl: "?len \<le> length bs" by simp
  have pos: "pos \<le> 8 + ?len" using f(7) by simp
  from write_step [OF f(6) _ bl pos, of n] obtain n' w where
    w: "alts_write_frame_bytes (fp_writer P) True (Some n) = (True, take n (drop pos (on_wire ?ct)), n', w)"
       "writer_at bs ?len (min (pos + n) (8 + ?len)) w"
    by (auto simp: f(3,4) on_wire_def)
  let ?o = "take n (drop pos (on_wire ?ct))" let ?pos = "min (pos + n) (8 + ?len)"
  have "length (w_header_buffer (fp_writer P)) = 8" using f(6) by (simp add: writer_at_def)
  from write_step_count [OF w(1) this] have n': "n' = Some (length ?o)" .
  have out: "out @ ?o = wire G 0 gs @ take ?pos (on_wire ?ct)"
    using f(3,8) by (cases "pos + n \<le> 8 + ?len") (simp_all add: take_add)
  have wd: "alts_is_frame_writer_done w \<longleftrightarrow> ?pos = 8 + ?len" "alts_get_num_writer_bytes_remaining w = 8 + ?len - ?pos"
    using writer_done_at [OF w(2)] remaining_at [OF w(2)] by simp_all
  have left: "alts_get_num_writer_bytes_remaining w \<le> max_protected_frame_size P - n" unfolding wd(2) using f(5) by simp
  let ?P = "if alts_is_frame_writer_done w then P\<lparr>fp_writer := w, in_place_protect_bytes_buffered := 0\<rparr> else P\<lparr>fp_writer := w\<rparr>"
  have base: "sender_base I role ov ?P fs" using b(1) by (simp add: sender_base_def)
  show ?thesis
  proof (cases "?pos = 8 + ?len")
    case True
    then have "sender_idle G ?P fs [] (out @ ?o)"
      using b(1) f(1,3) wd(1) out by (simp add: sender_idle_def sender_base_def wire_snoc)
    with True wd base left w(1) n' show ?thesis by (intro exI [of _ ?o] exI [of _ ?P] exI [of _ w]) simp
  next
    case False
    then have lt: "?pos < length f + 24" by simp
    have nd: "\<not> alts_is_frame_writer_done w" "alts_get_num_writer_bytes_remaining w \<noteq> 0"
      unfolding wd using False lt by linarith+
    then have P: "?P = P\<lparr>fp_writer := w\<rparr>" by simp
    have "sender_busy G ?P fs (out @ ?o)" unfolding P sender_busy_def
      using f(1-5) w(2) lt out by (intro exI [of _ gs] exI [of _ f] exI [of _ bs] exI [of _ ?pos]) simp
    with base nd left w(1) n' show ?thesis by (intro exI [of _ ?o] exI [of _ ?P] exI [of _ w]) (simp only: if_False simp_thms)
  qed
qed

text \<open>Starting a frame with the buffered bytes.\<close>

lemma idle_start:
  assumes A: "aead_ok F I" and ov: "0 < ov" "ov < 12" "Suc (length fs) < 256 ^ ov"
    and b: "sender_base I role ov P fs" and i: "sender_idle (\<lambda>k. F (nonces role ov k)) P fs u out" and u: "u \<noteq> []"
  shows "\<exists>P'. start_frame P = (TSI_OK, P') \<and> sender_base I role ov P' (fs @ [u]) \<and>
    sender_busy (\<lambda>k. F (nonces role ov k)) P' (fs @ [u]) out \<and> max_protected_frame_size P' = max_protected_frame_size P"
proof -
  let ?G = "\<lambda>k. F (nonces role ov k)" let ?M = "max_protected_frame_size P" let ?ct = "?G (length fs) u"
  from b have base: "1024 \<le> ?M" "?M \<le> kMaxFrameLength" "length (in_place_protect_buffer P) = ?M"
    "crypter_at Seal_vtable I role ov (length fs) (seal_crypter P)"
    "\<forall>f \<in> set fs. f \<noteq> [] \<and> length f + 24 \<le> kMaxFrameLength" "overhead_length P = 16" by (simp_all add: sender_base_def)
  from i have idle: "alts_is_frame_writer_done (fp_writer P)" "in_place_protect_bytes_buffered P = length u"
    "take (length u) (in_place_protect_buffer P) = u" "length u + 24 \<le> ?M" "out = wire ?G 0 fs" by (simp_all add: sender_idle_def)
  have M: "?M < 2 ^ 31" using base(2) by (simp add: kMaxFrameLength_def)
  have k: "length fs < 256 ^ ov" using ov(3) by simp
  have ct: "length ?ct = length u + 16" using A nonces_length [OF ov(1,2) k, of role] by (simp add: aead_ok_def)
  from seal_step [OF A base(4) ov, of "length u" ?M "in_place_protect_buffer P"] u idle(3,4) base(3) M obtain c' where
    s: "alts_crypter_process_in_place (seal_crypter P) (Some (in_place_protect_buffer P)) ?M (length u) True =
      (GRPC_STATUS_OK, Some (?ct @ drop (length u + 16) (in_place_protect_buffer P)), Some (length u + 16), c')"
      "crypter_at Seal_vtable I role ov (Suc (length fs)) c'" by auto
  let ?bs = "?ct @ drop (length u + 16) (in_place_protect_buffer P)"
  let ?P = "P\<lparr>seal_crypter := c', in_place_protect_buffer := ?bs, in_place_protect_bytes_buffered := length u + 16\<rparr>"
  have seal: "seal P = (TSI_OK, ?P)" using s(1) idle(2) by (simp add: seal_def)
  have "length u + 16 + 4 < 2 ^ 64" using idle(4) M by simp
  from reset_writer [OF this, of "fp_writer P" ?bs] obtain w where
    w: "alts_reset_frame_writer (fp_writer P) (Some ?bs) (length u + 16) = (True, w)" "writer_at ?bs (length u + 16) 0 w" by blast
  let ?P' = "?P\<lparr>fp_writer := w\<rparr>"
  have "start_frame P = (TSI_OK, ?P')" using idle(1) seal w(1) by (simp add: start_frame_def)
  moreover have "sender_base I role ov ?P' (fs @ [u])"
    using base s(2) ct idle(4) u by (simp add: sender_base_def)
  moreover have "sender_busy ?G ?P' (fs @ [u]) out" unfolding sender_busy_def
    using ct idle(4,5) w(2) by (intro exI [of _ fs] exI [of _ u] exI [of _ ?bs] exI [of _ 0]) simp
  ultimately show ?thesis by (intro exI [of _ ?P']) simp
qed

lemma flush_step:
  assumes A: "aead_ok F I" and ov: "0 < ov" "ov < 12" "Suc (length fs) < 256 ^ ov"
    and b: "sender_base I role ov P fs" and i: "sender_idle (\<lambda>k. F (nonces role ov k)) P fs u out \<or>
      sender_busy (\<lambda>k. F (nonces role ov k)) P fs out \<and> u = []"
  shows "\<exists>o' p P'. alts_protect_flush P True (Some n) (Some x) = (TSI_OK, o', Some (length o'), Some p, P') \<and>
    p \<le> max_protected_frame_size P - n \<and>
    sender_base I role ov P' (if u = [] then fs else fs @ [u]) \<and> max_protected_frame_size P' = max_protected_frame_size P \<and>
    (if p = 0 then sender_idle (\<lambda>k. F (nonces role ov k)) P' (if u = [] then fs else fs @ [u]) [] (out @ o')
     else sender_busy (\<lambda>k. F (nonces role ov k)) P' (if u = [] then fs else fs @ [u]) (out @ o'))"
proof -
  let ?G = "\<lambda>k. F (nonces role ov k)"
  have wr: "\<exists>o' p P'. (case alts_write_frame_bytes (fp_writer P) True (Some n) of
         (ok, out, written_frame_bytes, w) \<Rightarrow>
           let impl = P\<lparr>fp_writer := w\<rparr> in
           if \<not> ok then (TSI_INTERNAL_ERROR, out, Some n, Some x, impl)
           else (TSI_OK, out, written_frame_bytes, Some (alts_get_num_writer_bytes_remaining w),
             if alts_is_frame_writer_done w then impl\<lparr>in_place_protect_bytes_buffered := 0\<rparr> else impl)) =
       (TSI_OK, o', Some (length o'), Some p, P') \<and> p \<le> max_protected_frame_size P - n \<and> sender_base I role ov P' fs \<and>
       max_protected_frame_size P' = max_protected_frame_size P \<and>
       (if p = 0 then sender_idle ?G P' fs [] (out @ o') else sender_busy ?G P' fs (out @ o'))"
    if "sender_base I role ov P fs" "sender_busy ?G P fs out" for P fs
  proof -
    from busy_write [OF that, of n] obtain o' P' w where
      r: "alts_write_frame_bytes (fp_writer P) True (Some n) = (True, o', Some (length o'), w)"
      "P' = (if alts_is_frame_writer_done w then P\<lparr>fp_writer := w, in_place_protect_bytes_buffered := 0\<rparr> else P\<lparr>fp_writer := w\<rparr>)"
      "sender_base I role ov P' fs" "alts_get_num_writer_bytes_remaining w \<le> max_protected_frame_size P - n"
      "if alts_get_num_writer_bytes_remaining w = 0 then sender_idle ?G P' fs [] (out @ o') else sender_busy ?G P' fs (out @ o')"
      by blast
    show ?thesis
      by (rule exI [of _ o'], rule exI [of _ "alts_get_num_writer_bytes_remaining w"], rule exI [of _ P'], intro conjI)
         (simp add: r(1,2) Let_def, rule r(4), rule r(3), simp add: r(2), rule r(5))
  qed
  consider (empty) "sender_idle ?G P fs [] out" "u = []" | (start) "sender_idle ?G P fs u out" "u \<noteq> []" |
    (busy) "sender_busy ?G P fs out" "u = []" using i by blast
  then show ?thesis
  proof cases
    case empty
    then have "in_place_protect_bytes_buffered P = 0" by (simp add: sender_idle_def)
    with empty b show ?thesis by (intro exI [of _ "[]"] exI [of _ 0] exI [of _ P]) (simp add: alts_protect_flush_def)
  next
    case start
    then have ne: "in_place_protect_bytes_buffered P \<noteq> 0" by (simp add: sender_idle_def)
    from idle_start [OF A ov b start] obtain P1 where
      P1: "start_frame P = (TSI_OK, P1)" "sender_base I role ov P1 (fs @ [u])" "sender_busy ?G P1 (fs @ [u]) out"
      "max_protected_frame_size P1 = max_protected_frame_size P" by blast
    have "alts_protect_flush P True (Some n) (Some x) =
      (case alts_write_frame_bytes (fp_writer P1) True (Some n) of
         (ok, out, written_frame_bytes, w) \<Rightarrow>
           let impl = P1\<lparr>fp_writer := w\<rparr> in
           if \<not> ok then (TSI_INTERNAL_ERROR, out, Some n, Some x, impl)
           else (TSI_OK, out, written_frame_bytes, Some (alts_get_num_writer_bytes_remaining w),
             if alts_is_frame_writer_done w then impl\<lparr>in_place_protect_bytes_buffered := 0\<rparr> else impl))"
      using ne P1(1) by (simp add: alts_protect_flush_def)
    with wr [OF P1(2,3)] start(2) P1(4) show ?thesis by simp
  next
    case busy
    from busy(1) have ne: "in_place_protect_bytes_buffered P \<noteq> 0" "\<not> alts_is_frame_writer_done (fp_writer P)"
      by (auto simp: sender_busy_def writer_at_def alts_is_frame_writer_done_def)
    then have "start_frame P = (TSI_OK, P)" by (simp add: start_frame_def)
    then have "alts_protect_flush P True (Some n) (Some x) =
      (case alts_write_frame_bytes (fp_writer P) True (Some n) of
         (ok, out, written_frame_bytes, w) \<Rightarrow>
           let impl = P\<lparr>fp_writer := w\<rparr> in
           if \<not> ok then (TSI_INTERNAL_ERROR, out, Some n, Some x, impl)
           else (TSI_OK, out, written_frame_bytes, Some (alts_get_num_writer_bytes_remaining w),
             if alts_is_frame_writer_done w then impl\<lparr>in_place_protect_bytes_buffered := 0\<rparr> else impl))"
      using ne(1) by (simp add: alts_protect_flush_def)
    with wr [OF b busy(1)] busy(2) show ?thesis by simp
  qed
qed

text \<open>A frame that \<open>alts_protect\<close> has started is full.\<close>

definition last_full :: "'c alts_frame_protector \<Rightarrow> bytes list \<Rightarrow> bool" where
  "last_full P fs \<longleftrightarrow> length (last fs) + 24 = max_protected_frame_size P"

lemma protect_step:
  assumes A: "aead_ok F I" and ov: "0 < ov" "ov < 12" "Suc (length fs) < 256 ^ ov"
    and b: "sender_base I role ov P fs" and i: "sender_idle (\<lambda>k. F (nonces role ov k)) P fs u out \<or>
      sender_busy (\<lambda>k. F (nonces role ov k)) P fs out \<and> u = [] \<and> last_full P fs"
  shows "\<exists>k o' P' fs' u'. alts_protect P (Some bs) (Some (length bs)) True (Some n) = (TSI_OK, Some k, o', Some (length o'), P') \<and>
    k \<le> length bs \<and> (in_place_protect_bytes_buffered P = 0 \<longrightarrow> k = min (length bs) (max_protected_frame_size P - 24)) \<and>
    concat fs' @ u' = concat fs @ u @ take k bs \<and> length fs' \<le> Suc (length fs) \<and> sender_base I role ov P' fs' \<and>
    (sender_idle (\<lambda>k. F (nonces role ov k)) P' fs' u' (out @ o') \<or>
     sender_busy (\<lambda>k. F (nonces role ov k)) P' fs' (out @ o') \<and> u' = [] \<and> last_full P' fs')"
proof -
  let ?G = "\<lambda>k. F (nonces role ov k)" let ?M = "max_protected_frame_size P" let ?b = "in_place_protect_bytes_buffered P"
  from b have base: "1024 \<le> ?M" "length (in_place_protect_buffer P) = ?M" "overhead_length P = 16" by (simp_all add: sender_base_def)
  define k where "k = (if ?b + 16 < ?M - 8 then min (length bs) (?M - 8 - ?b - 16) else 0)"
  define P1 where "P1 = P\<lparr>in_place_protect_buffer := overwrite (in_place_protect_buffer P) ?b (take k bs),
    in_place_protect_bytes_buffered := ?b + k\<rparr>"
  have k: "k \<le> length bs" by (simp add: k_def)
  have k0: "?b = 0 \<longrightarrow> k = min (length bs) (?M - 24)" using base(1) by (simp add: k_def)
  have P1b: "in_place_protect_bytes_buffered P1 = ?b + k" "overhead_length P1 = 16" by (simp_all add: P1_def base(3))
  have pr: "alts_protect P (Some bs) (Some (length bs)) True (Some n) =
      (if ?M - 8 = ?b + k + 16 \<or> ?M - 8 = ?b + k
       then case alts_protect_flush P1 True (Some n) (Some 0) of (result, out, size_out, _, impl) \<Rightarrow> (result, Some k, out, size_out, impl)
       else (TSI_OK, Some k, [], Some 0, P1))"
    unfolding alts_protect_def prod.case option.case Let_def max_encrypted_payload_bytes_def k_sizes base(3)
    unfolding k_def [symmetric]
    unfolding P1_def [symmetric]
    unfolding P1b
    by simp
  have flush: ?thesis
    if "sender_idle ?G P1 fs (u @ take k bs) out \<or> sender_busy ?G P1 fs out \<and> u @ take k bs = []" and "sender_base I role ov P1 fs"
      and f: "last_full P1 (if u @ take k bs = [] then fs else fs @ [u @ take k bs])" and "?M - 8 = ?b + k + 16 \<or> ?M - 8 = ?b + k"
  proof -
    let ?u = "u @ take k bs" let ?fs = "if ?u = [] then fs else fs @ [?u]"
    from flush_step [OF A ov that(2,1), of n 0] obtain o' p P' where
      r: "alts_protect_flush P1 True (Some n) (Some 0) = (TSI_OK, o', Some (length o'), Some p, P')"
        "sender_base I role ov P' ?fs" "max_protected_frame_size P' = max_protected_frame_size P1"
        "if p = 0 then sender_idle ?G P' ?fs [] (out @ o') else sender_busy ?G P' ?fs (out @ o')" by blast
    have "last_full P' ?fs" using f r(3) by (simp add: last_full_def)
    then have "sender_idle ?G P' ?fs [] (out @ o') \<or> sender_busy ?G P' ?fs (out @ o') \<and> [] = ([] :: bytes) \<and> last_full P' ?fs"
      using r(4) by (cases "p = 0") simp_all
    moreover have "concat ?fs @ [] = concat fs @ u @ take k bs" by simp
    moreover have "length ?fs \<le> Suc (length fs)" by simp
    moreover have "alts_protect P (Some bs) (Some (length bs)) True (Some n) = (TSI_OK, Some k, o', Some (length o'), P')"
      unfolding pr using that(4) r(1) by simp
    ultimately show ?thesis using k k0 r(2)
      by (intro exI [of _ k] exI [of _ o'] exI [of _ P'] exI [of _ ?fs] exI [of _ "[]"] conjI) (assumption+)
  qed
  consider (idle) "sender_idle ?G P fs u out" | (busy) "sender_busy ?G P fs out" "u = []" "last_full P fs" using i by blast
  then show ?thesis
  proof cases
    case idle
    then have i: "?b = length u" "take (length u) (in_place_protect_buffer P) = u" "length u + 24 \<le> ?M"
      by (simp_all add: sender_idle_def)
    have kM: "length u + k + 24 \<le> ?M" using i(1,3) by (auto simp: k_def)
    have tk: "length (take k bs) = k" using k by simp
    have buf: "overwrite (in_place_protect_buffer P) ?b (take k bs) = (u @ take k bs) @ drop (length u + k) (in_place_protect_buffer P)"
      using i(1,2) tk by (simp add: overwrite_def)
    have base1: "sender_base I role ov P1 fs"
      using b i(1) kM tk unfolding P1_def buf by (simp add: sender_base_def)
    have idle1: "sender_idle ?G P1 fs (u @ take k bs) out"
      using idle kM tk unfolding P1_def buf by (simp add: sender_idle_def)
    show ?thesis
    proof (cases "?M - 8 = ?b + k + 16")
      case True
      then have ln: "length u + k + 24 = ?M" using base(1) i(1) by simp
      then have ne: "u @ take k bs \<noteq> []" using base(1) tk by auto
      have full: "last_full P1 (if u @ take k bs = [] then fs else fs @ [u @ take k bs])"
        unfolding if_not_P [OF ne] using ln tk by (simp add: last_full_def P1_def)
      show ?thesis by (rule flush [OF disjI1 [OF idle1] base1 full disjI1 [OF True]])
    next
      case False
      have "?M - 8 \<noteq> ?b + k" using kM i(1) by simp
      with False pr have "alts_protect P (Some bs) (Some (length bs)) True (Some n) = (TSI_OK, Some k, [], Some 0, P1)" by simp
      with k k0 base1 idle1 show ?thesis
        by (intro exI [of _ k] exI [of _ "[]"] exI [of _ P1] exI [of _ fs] exI [of _ "u @ take k bs"]) simp
    qed
  next
    case busy
    then obtain f gs where f: "fs = gs @ [f]" "?b = length f + 16" unfolding sender_busy_def by blast
    with busy(3) have bM: "?b + 8 = ?M" by (simp add: last_full_def)
    then have kz: "k = 0" by (simp add: k_def)
    have P1: "P1 = P" by (simp add: P1_def kz overwrite_def)
    have c: "?M - 8 = ?b + k + 16 \<or> ?M - 8 = ?b + k" unfolding bM [symmetric] kz by simp
    have full: "last_full P1 (if u @ take k bs = [] then fs else fs @ [u @ take k bs])" using busy(2,3) kz P1 by simp
    have bz: "sender_busy ?G P1 fs out \<and> u @ take k bs = []" using busy(1,2) P1 kz by simp
    have b1: "sender_base I role ov P1 fs" using b P1 by simp
    show ?thesis by (rule flush [OF disjI2 [OF bz] b1 full c])
  qed
qed

end
