(* ===== verification/Alts_Receiver.thy ===== *)
theory Alts_Receiver
  imports Alts_Sender
begin

text \<open>
  The receiving end of a connection: that \<open>alts_unprotect\<close> takes the frames of a sender in pieces and hands out their
  plaintexts.
\<close>

section \<open>Reading a frame\<close>

lemma read_take:
  assumes "n \<le> length bs"
  shows "alts_read_frame_bytes r (Some bs) (Some n) = alts_read_frame_bytes r (Some (take n bs)) (Some (length (take n bs)))"
proof -
  have l: "length (take n bs) = n" using assms by simp
  have t: "take (min n m) (take n bs) = take (min n m) bs" for m by simp
  have p: "read_payload r (drop (min n m) bs) (n - min n m) k = read_payload r (drop (min n m) (take n bs)) (n - min n m) k" for r m k
    by (simp add: read_payload_def Let_def drop_take)
  have q: "read_payload r bs n k = read_payload r (take n bs) n k" for r k
    by (simp add: read_payload_def Let_def)
  show ?thesis unfolding alts_read_frame_bytes_def option.case Let_def l t
    using p q by simp
qed

text \<open>The stream \<open>T\<close> is empty or begins with a frame.\<close>

definition frame_end :: "bytes \<Rightarrow> nat" where
  "frame_end T = (if T = [] then 0 else 4 + frame_length T)"

lemma read_any:
  assumes r: "reader_at T a k r" and c: "drop k T = c @ rest" and T: "T \<noteq> [] \<longrightarrow> 8 \<le> length T \<and> good_header T"
  shows "\<exists>r'. alts_read_frame_bytes r (Some c) (Some (length c)) =
      (True, drop (k - 8) (take (min (k + length c) (frame_end T) - 8) (drop 8 T)), Some (min (k + length c) (frame_end T) - k), r') \<and>
    reader_at T a (min (k + length c) (frame_end T)) r'"
proof -
  have kT: "k + length c \<le> length T" using chunk_fits [OF c] r by (simp add: reader_at_def)
  show ?thesis
  proof (cases "T = []")
    case True
    with kT have k: "k = 0" "c = []" by simp_all
    from read_header_part [OF r c] k True show ?thesis by (simp add: frame_end_def)
  next
    case False
    with T have g: "good_header T" and e: "frame_end T = 4 + frame_length T" by (simp_all add: frame_end_def)
    then have fl: "4 \<le> frame_length T" by (simp add: good_header_def)
    show ?thesis
    proof (cases "k + length c < 8")
      case True
      then have "min (k + length c) (frame_end T) = k + length c" "min (k + length c) (frame_end T) - 8 = 0" using e fl by simp_all
      with read_header_part [OF r c True] show ?thesis by simp
    next
      case False
      let ?k = "min (k + length c) (4 + frame_length T)"
      have "drop (k - 8) (take (?k - 8) (drop 8 T)) = take (4 + frame_length T - max k 8) (drop (8 - k) c)"
      proof -
        have "drop (k - 8) (take (?k - 8) (drop 8 T)) = take (?k - 8 - (k - 8)) (drop (8 - k) (drop k T))"
        proof -
          have "k - 8 + 8 = 8 - k + k" by arith
          then show ?thesis by (simp add: drop_take)
        qed
        also have "\<dots> = take (?k - 8 - (k - 8)) (drop (8 - k) c)" using False by (simp add: c)
        also have "\<dots> = take (4 + frame_length T - max k 8) (drop (8 - k) c)"
        proof (cases "k + length c \<le> 4 + frame_length T")
          case True
          with False show ?thesis by (simp add: max_def)
        next
          case F: False
          then have "?k - 8 - (k - 8) = 4 + frame_length T - max k 8" by (simp add: max_def add.commute)
          then show ?thesis by simp
        qed
        finally show ?thesis .
      qed
      with read_past_header [OF r c _ g] False show ?thesis unfolding e by simp
    qed
  qed
qed

lemma wire_head:
  assumes "length (G k f) + 4 \<le> kFrameMaxSize"
  shows "good_header (wire G k (f # fs))" "frame_end (wire G k (f # fs)) = 8 + length (G k f)"
    "8 \<le> length (wire G k (f # fs))" "drop 8 (wire G k (f # fs)) = G k f @ wire G (Suc k) fs" "wire G k (f # fs) \<noteq> []"
proof -
  let ?l = "length (G k f)"
  have "unat (of_nat (?l + 4) :: u32) = ?l + 4"
    using assms unfolding unsigned_of_nat by (subst take_bit_nat_eq_self) simp_all
  then have fl: "frame_length (wire G k (f # fs)) = ?l + 4"
    by (simp only: frame_length_def wire.simps on_wire_def frame_header_def load_store append_assoc)
  have "load_32_le (drop 4 (wire G k (f # fs))) = 6" by (simp add: on_wire_def frame_header_def load_store)
  then show "good_header (wire G k (f # fs))" unfolding good_header_def fl using assms by simp
  show ne: "wire G k (f # fs) \<noteq> []" by (simp add: on_wire_def frame_header_def store_32_le_def)
  show "frame_end (wire G k (f # fs)) = 8 + ?l" using ne by (simp add: frame_end_def fl del: wire.simps)
  show "8 \<le> length (wire G k (f # fs))" "drop 8 (wire G k (f # fs)) = G k f @ wire G (Suc k) fs"
    by (simp_all add: on_wire_def)
qed

section \<open>The receiver\<close>

text \<open>
  The frames of the plaintexts \<open>fs\<close> arrive. The receiver has taken \<open>t\<close> bytes and handed out \<open>got\<close>. Between calls it
  is inside or before a frame (\<open>receiver_mid\<close>, \<open>k\<close> bytes of frame \<open>j\<close> are read), or hands out a frame it has unsealed
  (\<open>receiver_out\<close>, \<open>q\<close> bytes of it are out), or has just been created (\<open>receiver_new\<close>).
\<close>

definition receiver_base :: "'c alts_frame_protector \<Rightarrow> bool" where
  "receiver_base Q \<longleftrightarrow>
     1024 \<le> max_unprotected_frame_size Q \<and> max_unprotected_frame_size Q \<le> kMaxFrameLength \<and> overhead_length Q = 16 \<and>
     length (in_place_unprotect_buffer Q) = max_unprotected_frame_size Q \<and> length (header_buffer (fp_reader Q)) = 8"

definition receiver_mid :: "(nat \<Rightarrow> bytes \<Rightarrow> bytes) \<Rightarrow> ('c gsec_aead_crypter \<Rightarrow> bool) \<Rightarrow> bool \<Rightarrow> nat \<Rightarrow> bytes list \<Rightarrow>
    'c alts_frame_protector \<Rightarrow> nat \<Rightarrow> nat \<Rightarrow> nat \<Rightarrow> bytes \<Rightarrow> bool" where
  "receiver_mid G I role ov fs Q j k t got \<longleftrightarrow>
     j \<le> length fs \<and> t = length (wire G 0 (take j fs)) + k \<and> reader_at (wire G j (drop j fs)) 0 k (fp_reader Q) \<and>
     (j < length fs \<longrightarrow> k \<le> frame_end (wire G j (drop j fs))) \<and> in_place_unprotect_bytes_processed Q = 0 \<and>
     k - 8 \<le> max_unprotected_frame_size Q \<and>
     take (k - 8) (in_place_unprotect_buffer Q) = take (k - 8) (drop 8 (wire G j (drop j fs))) \<and>
     crypter_at Unseal_vtable I role ov j (unseal_crypter Q) \<and> got = concat (take j fs)"

definition receiver_out :: "(nat \<Rightarrow> bytes \<Rightarrow> bytes) \<Rightarrow> ('c gsec_aead_crypter \<Rightarrow> bool) \<Rightarrow> bool \<Rightarrow> nat \<Rightarrow> bytes list \<Rightarrow>
    'c alts_frame_protector \<Rightarrow> nat \<Rightarrow> nat \<Rightarrow> nat \<Rightarrow> bytes \<Rightarrow> bool" where
  "receiver_out G I role ov fs Q j q t got \<longleftrightarrow>
     j < length fs \<and> t = length (wire G 0 (take (Suc j) fs)) \<and> alts_is_frame_reader_done (fp_reader Q) \<and>
     output_buffer (fp_reader Q) \<noteq> None \<and> output_bytes_read (fp_reader Q) = length (fs ! j) + 16 \<and>
     take (length (fs ! j)) (in_place_unprotect_buffer Q) = fs ! j \<and> in_place_unprotect_bytes_processed Q = q \<and>
     0 < q \<and> q \<le> length (fs ! j) \<and> crypter_at Unseal_vtable I role ov (Suc j) (unseal_crypter Q) \<and>
     got = concat (take j fs) @ take q (fs ! j)"

definition receiver_new :: "('c gsec_aead_crypter \<Rightarrow> bool) \<Rightarrow> bool \<Rightarrow> nat \<Rightarrow> 'c alts_frame_protector \<Rightarrow> nat \<Rightarrow> bytes \<Rightarrow> bool" where
  "receiver_new I role ov Q t got \<longleftrightarrow>
     output_buffer (fp_reader Q) = None \<and> t = 0 \<and> got = [] \<and> crypter_at Unseal_vtable I role ov 0 (unseal_crypter Q)"

definition open_frame :: "(nat \<Rightarrow> bytes \<Rightarrow> bytes) \<Rightarrow> bytes list \<Rightarrow> nat \<Rightarrow> nat \<Rightarrow> bool" where
  "open_frame G fs j k \<longleftrightarrow> (j < length fs \<longrightarrow> k < frame_end (wire G j (drop j fs)))"

definition receiver_at :: "(nat \<Rightarrow> bytes \<Rightarrow> bytes) \<Rightarrow> ('c gsec_aead_crypter \<Rightarrow> bool) \<Rightarrow> bool \<Rightarrow> nat \<Rightarrow> bytes list \<Rightarrow>
    'c alts_frame_protector \<Rightarrow> nat \<Rightarrow> bytes \<Rightarrow> bool" where
  "receiver_at G I role ov fs Q t got \<longleftrightarrow>
     receiver_base Q \<and>
     ((\<exists>j k. receiver_mid G I role ov fs Q j k t got \<and> open_frame G fs j k) \<or>
      (\<exists>j q. receiver_out G I role ov fs Q j q t got) \<or> receiver_new I role ov Q t got)"

text \<open>The frames of a sender.\<close>

definition frames_ok :: "(nat \<Rightarrow> bytes \<Rightarrow> bytes) \<Rightarrow> nat \<Rightarrow> bytes list \<Rightarrow> bool" where
  "frames_ok G ov fs \<longleftrightarrow>
     length fs < 256 ^ ov \<and> (\<forall>f \<in> set fs. f \<noteq> [] \<and> length f + 24 \<le> kMaxFrameLength) \<and>
     (\<forall>j < length fs. length (G j (fs ! j)) = length (fs ! j) + 16)"

lemma frame_at:
  assumes "frames_ok G ov fs" and "j < length fs"
  shows "good_header (wire G j (drop j fs))" "frame_end (wire G j (drop j fs)) = length (fs ! j) + 24"
    "8 \<le> length (wire G j (drop j fs))" "drop 8 (wire G j (drop j fs)) = G j (fs ! j) @ wire G (Suc j) (drop (Suc j) fs)"
    "wire G j (drop j fs) \<noteq> []" "fs ! j \<noteq> []" "length (G j (fs ! j)) = length (fs ! j) + 16" "length (fs ! j) + 24 \<le> kMaxFrameLength"
proof -
  have f: "fs ! j \<noteq> []" "length (fs ! j) + 24 \<le> kMaxFrameLength" "length (G j (fs ! j)) = length (fs ! j) + 16"
    using assms nth_mem [OF assms(2)] by (auto simp: frames_ok_def)
  then have l: "length (G j (fs ! j)) + 4 \<le> kFrameMaxSize" by (simp add: kMaxFrameLength_def kFrameMaxSize_def)
  note w = wire_head [of G j "fs ! j" "drop (Suc j) fs", OF l, unfolded Cons_nth_drop_Suc [OF assms(2)]]
  from w f show "good_header (wire G j (drop j fs))" "frame_end (wire G j (drop j fs)) = length (fs ! j) + 24"
    "8 \<le> length (wire G j (drop j fs))" "drop 8 (wire G j (drop j fs)) = G j (fs ! j) @ wire G (Suc j) (drop (Suc j) fs)"
    "wire G j (drop j fs) \<noteq> []" "fs ! j \<noteq> []" "length (G j (fs ! j)) = length (fs ! j) + 16" "length (fs ! j) + 24 \<le> kMaxFrameLength"
    by simp_all
qed

lemma wire_split: "j \<le> length fs \<Longrightarrow> wire G 0 fs = wire G 0 (take j fs) @ wire G j (drop j fs)"
  using wire_append [of G 0 "take j fs" "drop j fs"] by simp

lemma start_reader_step:
  assumes fs: "frames_ok G ov fs" and Q: "receiver_at G I role ov fs Q t got"
  shows "\<exists>Q'. start_reader Q = (TSI_OK, Q') \<and> receiver_base Q' \<and>
    ((\<exists>j k. receiver_mid G I role ov fs Q' j k t got \<and> open_frame G fs j k) \<or>
     (\<exists>j q. receiver_out G I role ov fs Q' j q t got \<and> q < length (fs ! j)))"
proof -
  let ?r = "fp_reader Q"
  have b: "receiver_base Q" using Q by (simp add: receiver_at_def)
  have reset: "\<exists>Q'. start_reader Q = (TSI_OK, Q') \<and> receiver_base Q' \<and> receiver_mid G I role ov fs Q' j 0 t got \<and> open_frame G fs j 0"
    if "alts_is_frame_reader_done ?r" "output_buffer ?r = None \<or> output_bytes_read ?r = in_place_unprotect_bytes_processed Q + 16"
      "j \<le> length fs" "t = length (wire G 0 (take j fs))" "crypter_at Unseal_vtable I role ov j (unseal_crypter Q)"
      "got = concat (take j fs)" for j
  proof -
    from reset_reader [of ?r 0 "wire G j (drop j fs)"] b obtain r' where
      r: "alts_reset_frame_reader ?r (Some 0) = (True, r')" "reader_at (wire G j (drop j fs)) 0 0 r'"
      by (auto simp: receiver_base_def)
    let ?Q = "Q\<lparr>fp_reader := r', in_place_unprotect_bytes_processed := 0\<rparr>"
    have "start_reader Q = (TSI_OK, ?Q)"
      using that(1,2) b r(1)
      by (simp add: start_reader_def receiver_base_def alts_get_output_buffer_def alts_get_output_bytes_read_def Let_def)
    moreover have "receiver_base ?Q" using b r(2) by (simp add: receiver_base_def reader_at_def)
    moreover have "receiver_mid G I role ov fs ?Q j 0 t got" using that r(2) by (simp add: receiver_mid_def)
    moreover have "open_frame G fs j 0" using frame_at(2) [OF fs, of j] by (simp add: open_frame_def)
    ultimately show ?thesis by blast
  qed
  consider (mid) j k where "receiver_mid G I role ov fs Q j k t got" "open_frame G fs j k" |
    (part) j q where "receiver_out G I role ov fs Q j q t got" "q < length (fs ! j)" |
    (all) j where "receiver_out G I role ov fs Q j (length (fs ! j)) t got" | (new) "receiver_new I role ov Q t got"
    using Q unfolding receiver_at_def receiver_out_def by (metis le_neq_implies_less)
  then show ?thesis
  proof cases
    case mid
    have "\<not> alts_is_frame_reader_done ?r"
    proof (cases "j < length fs")
      case True
      from mid have "reader_at (wire G j (drop j fs)) 0 k ?r" "k < frame_end (wire G j (drop j fs))"
        using True by (simp_all add: receiver_mid_def open_frame_def)
      with frame_at(5) [OF fs True] show ?thesis by (simp add: reader_done frame_end_def)
    next
      case False
      with mid have "reader_at [] 0 k ?r" by (simp add: receiver_mid_def)
      moreover from this have "k = 0" by (simp add: reader_at_def)
      ultimately show ?thesis by (simp add: reader_done)
    qed
    then have "start_reader Q = (TSI_OK, Q)" by (simp add: start_reader_def Let_def)
    with mid b show ?thesis by blast
  next
    case part
    then have "output_buffer ?r \<noteq> None" "output_bytes_read ?r \<noteq> in_place_unprotect_bytes_processed Q + overhead_length Q"
      using b by (simp_all add: receiver_out_def receiver_base_def)
    then have "start_reader Q = (TSI_OK, Q)"
      by (auto simp: start_reader_def Let_def alts_get_output_buffer_def alts_get_output_bytes_read_def)
    with part b show ?thesis by blast
  next
    case all
    then show ?thesis using reset [of "Suc j"] by (fastforce simp: receiver_out_def take_Suc_conv_app_nth)
  next
    case new
    then show ?thesis using reset [of 0] by (fastforce simp: receiver_new_def alts_is_frame_reader_done_def)
  qed
qed

text \<open>The reads of a call.\<close>

lemma mid_not_done:
  assumes fs: "frames_ok G ov fs" and Q: "receiver_mid G I role ov fs Q j k t got" "open_frame G fs j k"
  shows "\<not> alts_is_frame_reader_done (fp_reader Q)"
proof (cases "j < length fs")
  case True
  from Q have "reader_at (wire G j (drop j fs)) 0 k (fp_reader Q)" "k < frame_end (wire G j (drop j fs))"
    using True by (simp_all add: receiver_mid_def open_frame_def)
  with frame_at(5) [OF fs True] show ?thesis by (simp add: reader_done frame_end_def)
next
  case False
  with Q have "reader_at [] 0 k (fp_reader Q)" by (simp add: receiver_mid_def)
  moreover from this have "k = 0" by (simp add: reader_at_def)
  ultimately show ?thesis by (simp add: reader_done)
qed

lemma ensure_ok:
  assumes fs: "frames_ok G ov fs" and b: "receiver_base Q" and Q: "receiver_mid G I role ov fs Q j k t got" "open_frame G fs j k"
  shows "\<exists>Q'. ensure_buffer_size fresh Q = Q' \<and> receiver_base Q' \<and> receiver_mid G I role ov fs Q' j k t got \<and>
    fp_reader Q' = fp_reader Q \<and>
    (8 \<le> k \<longrightarrow> frame_end (wire G j (drop j fs)) - 8 \<le> max_unprotected_frame_size Q')"
proof -
  let ?T = "wire G j (drop j fs)" let ?r = "fp_reader Q" let ?M = "max_unprotected_frame_size Q"
  have r: "reader_at ?T 0 k ?r" "k - 8 \<le> ?M" using Q(1) by (simp_all add: receiver_mid_def)
  show ?thesis
  proof (cases "8 \<le> k \<and> ?M - (k - 8) < frame_end ?T - k")
    case False
    moreover have "8 \<le> k \<longrightarrow> ?T \<noteq> []" using r(1) by (auto simp: reader_at_def)
    ultimately have "ensure_buffer_size fresh Q = Q" "8 \<le> k \<longrightarrow> frame_end ?T - 8 \<le> ?M"
      using r by (auto simp: ensure_buffer_size_def Let_def alts_has_read_frame_length_def alts_get_output_bytes_read_def
          alts_get_reader_bytes_remaining_def reader_at_def frame_end_def)
    with b Q(1) show ?thesis by simp
  next
    case True
    have "?T \<noteq> []" using r(1) True by (auto simp: reader_at_def)
    then have j: "j < length fs" by (cases "j < length fs") simp_all
    note f = frame_at [OF fs j]
    let ?e = "length (fs ! j) + 24"
    have k: "8 \<le> k" "k < ?e" "?M - (k - 8) < ?e - k"
      using True Q(2) j unfolding open_frame_def f(2) by blast+
    have e: "frame_end ?T = 4 + frame_length ?T" using f(5) by (simp add: frame_end_def)
    have h: "header_bytes_read ?r = 8" "output_bytes_read ?r = k - 8" "bytes_remaining ?r = ?e - k"
      "output_buffer ?r = Some (k - 8)" using r(1) k(1) e f(2) by (simp_all add: reader_at_def)
    let ?l = "k - 8 + (?e - k)"
    let ?buf = "overwrite (map fresh [0..<?l]) 0 (take (k - 8) (in_place_unprotect_buffer Q))"
    have rr: "alts_reset_reader_output_buffer ?r (Some (k - 8)) = ?r"
      using h(4) by (simp add: alts_reset_reader_output_buffer_def)
    have en: "ensure_buffer_size fresh Q = Q\<lparr>max_unprotected_frame_size := ?l, in_place_unprotect_buffer := ?buf\<rparr>"
      using k h rr
      by (simp add: ensure_buffer_size_def Let_def alts_has_read_frame_length_def alts_get_output_bytes_read_def
          alts_get_reader_bytes_remaining_def)
    have bl: "length (in_place_unprotect_buffer Q) = ?M" "1024 \<le> ?M" using b by (simp_all add: receiver_base_def)
    have buf: "length ?buf = ?l" "take (k - 8) ?buf = take (k - 8) (in_place_unprotect_buffer Q)"
      using bl r(2) by (simp_all add: overwrite_def)
    have "?M \<le> ?l" "?l \<le> kMaxFrameLength" using k f(8) by simp_all
    with bl b buf(1) have base: "receiver_base (ensure_buffer_size fresh Q)"
      unfolding en by (simp add: receiver_base_def)
    have "receiver_mid G I role ov fs (ensure_buffer_size fresh Q) j k t got"
      using Q(1) buf(2) unfolding en receiver_mid_def by simp
    with base show ?thesis unfolding en using f(2) k by simp
  qed
qed

lemma read_frame_step:
  assumes fs: "frames_ok G ov fs" and b: "receiver_base Q" and Q: "receiver_mid G I role ov fs Q j k t got" "open_frame G fs j k"
    and bs: "drop t (wire G 0 fs) = bs @ rest"
  shows "\<exists>m Q'. read_frame fresh Q bs (length bs) = (TSI_OK, m, Q') \<and> m \<le> length bs \<and> (bs \<noteq> [] \<longrightarrow> 0 < m) \<and>
    receiver_base Q' \<and> receiver_mid G I role ov fs Q' j (k + m) (t + m) got"
proof -
  let ?T = "wire G j (drop j fs)"
  from ensure_ok [OF fs b Q, of fresh] obtain Q1 where
    q1: "ensure_buffer_size fresh Q = Q1" "receiver_base Q1" "receiver_mid G I role ov fs Q1 j k t got"
      "fp_reader Q1 = fp_reader Q" "8 \<le> k \<longrightarrow> frame_end ?T - 8 \<le> max_unprotected_frame_size Q1" by blast
  let ?M = "max_unprotected_frame_size Q1" let ?r = "fp_reader Q1"
  have mid: "j \<le> length fs" "t = length (wire G 0 (take j fs)) + k" "reader_at ?T 0 k ?r" "k - 8 \<le> ?M"
    "take (k - 8) (in_place_unprotect_buffer Q1) = take (k - 8) (drop 8 ?T)"
    using q1(3) by (simp_all add: receiver_mid_def)
  have base: "1024 \<le> ?M" "length (in_place_unprotect_buffer Q1) = ?M" using q1(2) by (simp_all add: receiver_base_def)
  have T: "drop k ?T = bs @ rest" using bs mid(2) wire_split [OF mid(1), of G] by simp
  have open_k: "j < length fs \<Longrightarrow> k < frame_end ?T" using Q(2) by (simp add: open_frame_def)
  have hd: "?T \<noteq> [] \<longrightarrow> 8 \<le> length ?T \<and> good_header ?T"
    using frame_at [OF fs, of j] by (cases "j < length fs") simp_all
  define n where "n = min (?M - (k - 8)) (length bs)"
  have n: "n \<le> length bs" by (simp add: n_def)
  define k' where "k' = min (k + n) (frame_end ?T)"
  let ?out = "drop (k - 8) (take (k' - 8) (drop 8 ?T))"
  have "drop k ?T = take n bs @ drop n bs @ rest" using T by simp
  from read_any [OF mid(3) this hd] n obtain r' where
    "alts_read_frame_bytes ?r (Some (take n bs)) (Some (length (take n bs))) = (True, ?out, Some (k' - k), r')"
    "reader_at ?T 0 k' r'" unfolding k'_def by auto
  then have r': "alts_read_frame_bytes ?r (Some bs) (Some n) = (True, ?out, Some (k' - k), r')" "reader_at ?T 0 k' r'"
    using read_take [OF n, of ?r] by simp_all
  have kk: "k \<le> k'"
    using open_k mid(3) by (cases "j < length fs") (simp_all add: k'_def reader_at_def)
  have k'n: "k' \<le> k + n" by (simp add: k'_def)
  have k'M: "k' - 8 \<le> ?M" using k'n mid(4) unfolding n_def by linarith
  have k'T: "k' \<le> length ?T" using r'(2) by (simp add: reader_at_def)
  then have lo: "length ?out = k' - 8 - (k - 8)" by simp
  let ?buf = "overwrite (in_place_unprotect_buffer Q1) (k - 8) ?out"
  let ?Q = "Q1\<lparr>fp_reader := r', in_place_unprotect_buffer := ?buf\<rparr>"
  have ob: "output_buffer ?r = Some (k - 8)" "output_bytes_read ?r = k - 8" using mid(3) by (simp_all add: reader_at_def)
  have rd: "read_frame fresh Q bs (length bs) = (TSI_OK, k' - k, ?Q)"
    using mid_not_done [OF fs Q] r'(1) ob
    by (simp add: read_frame_def Let_def q1(1) alts_get_output_bytes_read_def alts_get_output_buffer_def n_def)
  have "(k - 8) + length ?out \<le> ?M" unfolding lo using k'M kk by linarith
  then have bl: "length ?buf = ?M" using base(2) mid(4) by (simp add: overwrite_def)
  have tb: "take (k' - 8) ?buf = take (k' - 8) (drop 8 ?T)"
  proof -
    have "take (k - 8) (drop 8 ?T) @ ?out = take (k' - 8) (drop 8 ?T)"
    proof -
      have "k - 8 \<le> k' - 8" using kk by simp
      then have "take (k - 8) (take (k' - 8) (drop 8 ?T)) = take (k - 8) (drop 8 ?T)" by (simp add: min_absorb1)
      with append_take_drop_id [of "k - 8" "take (k' - 8) (drop 8 ?T)"] show ?thesis by simp
    qed
    moreover have "?buf = (take (k - 8) (drop 8 ?T) @ ?out) @ drop (k - 8 + length ?out) (in_place_unprotect_buffer Q1)"
      using mid(5) by (simp add: overwrite_def)
    moreover have "length (take (k' - 8) (drop 8 ?T)) = k' - 8" using k'T by simp
    ultimately show ?thesis by simp
  qed
  have "receiver_base ?Q" using q1(2) bl r'(2) by (simp add: receiver_base_def reader_at_def)
  moreover have "receiver_mid G I role ov fs ?Q j (k + (k' - k)) (t + (k' - k)) got"
    using q1(3) tb kk r'(2) k'M unfolding receiver_mid_def by (simp add: k'_def)
  moreover have "bs \<noteq> [] \<longrightarrow> 0 < k' - k"
  proof
    assume ne: "bs \<noteq> []"
    with T have "?T \<noteq> []" by auto
    then have j: "j < length fs" by (cases "j < length fs") simp_all
    have "0 < ?M - (k - 8)" using open_k [OF j] base(1) q1(5) by linarith
    with ne have "0 < n" by (simp add: n_def)
    with open_k [OF j] show "0 < k' - k" by (simp add: k'_def)
  qed
  moreover have "k' - k \<le> length bs" using k'n n by simp
  ultimately show ?thesis using rd by blast
qed

text \<open>Unsealing a frame that is complete, and handing out plaintext.\<close>

lemma complete_unseal:
  assumes A: "aead_ok F I" and ov: "0 < ov" "ov < 12" and fs: "frames_ok (\<lambda>k. F (nonces role ov k)) ov fs"
    and b: "receiver_base Q" and Q: "receiver_mid (\<lambda>k. F (nonces role ov k)) I role ov fs Q j k t got"
    and k: "j < length fs" "k = frame_end (wire (\<lambda>k. F (nonces role ov k)) j (drop j fs))"
  shows "\<exists>c buf. unseal Q = (TSI_OK, Q\<lparr>unseal_crypter := c, in_place_unprotect_buffer := buf\<rparr>) \<and>
    length buf = max_unprotected_frame_size Q \<and> take (length (fs ! j)) buf = fs ! j \<and>
    crypter_at Unseal_vtable I role ov (Suc j) c"
proof -
  let ?G = "\<lambda>k. F (nonces role ov k)" let ?T = "wire ?G j (drop j fs)" let ?f = "fs ! j"
  let ?M = "max_unprotected_frame_size Q" let ?buf = "in_place_unprotect_buffer Q"
  note f = frame_at [OF fs k(1)]
  have k24: "k = length ?f + 24" using k(2) f(2) by simp
  have mid: "reader_at ?T 0 k (fp_reader Q)" "k - 8 \<le> ?M" "take (k - 8) ?buf = take (k - 8) (drop 8 ?T)"
    "crypter_at Unseal_vtable I role ov j (unseal_crypter Q)" using Q by (simp_all add: receiver_mid_def)
  have n: "alts_get_output_bytes_read (fp_reader Q) = length ?f + 16"
    using mid(1) k24 by (simp add: alts_get_output_bytes_read_def reader_at_def)
  have t: "take (length ?f + 16) ?buf = ?G j ?f" using mid(3) k24 f(4,7) by (simp add: add.commute)
  have l: "length ?buf = ?M" "?M < 2 ^ 31" using b by (simp_all add: receiver_base_def kMaxFrameLength_def)
  have "Suc j < 256 ^ ov" using fs k(1) by (simp add: frames_ok_def)
  from unseal_step [OF A mid(4) ov this _ _ l(2) t] mid(2) k24 l(1) obtain c where
    "alts_crypter_process_in_place (unseal_crypter Q) (Some ?buf) ?M (length ?f + 16) True =
      (GRPC_STATUS_OK, Some (?f @ drop (length ?f) ?buf), Some (length ?f), c)"
    "crypter_at Unseal_vtable I role ov (Suc j) c" by auto
  then show ?thesis using n l(1) mid(2) k24
    by (intro exI [of _ c] exI [of _ "?f @ drop (length ?f) ?buf"]) (simp add: unseal_def)
qed

definition hand_out :: "'c alts_frame_protector \<Rightarrow> nat \<Rightarrow> tsi_result \<times> bytes \<times> nat \<times> 'c alts_frame_protector" where
  "hand_out P m =
     (let q = in_place_unprotect_bytes_processed P;
          n = min m (alts_get_output_bytes_read (fp_reader P) - q - overhead_length P)
      in (TSI_OK, take n (drop q (in_place_unprotect_buffer P)), n, P\<lparr>in_place_unprotect_bytes_processed := q + n\<rparr>))"

lemma write_unsealed_done:
  assumes "alts_is_frame_reader_done (fp_reader P)"
  shows "in_place_unprotect_bytes_processed P \<noteq> 0 \<Longrightarrow> write_unsealed P m = hand_out P m"
    and "in_place_unprotect_bytes_processed P = 0 \<Longrightarrow> unseal P = (TSI_OK, P') \<Longrightarrow> write_unsealed P m = hand_out P' m"
  using assms by (simp_all add: write_unsealed_def hand_out_def Let_def)

lemma hand_out_step:
  assumes P: "receiver_base P" "j < length fs" "t = length (wire G 0 (take (Suc j) fs))" "alts_is_frame_reader_done (fp_reader P)"
      "output_buffer (fp_reader P) \<noteq> None" "output_bytes_read (fp_reader P) = length (fs ! j) + 16"
      "take (length (fs ! j)) (in_place_unprotect_buffer P) = fs ! j" "in_place_unprotect_bytes_processed P = q"
      "q < length (fs ! j)" "crypter_at Unseal_vtable I role ov (Suc j) (unseal_crypter P)"
      "got = concat (take j fs) @ take q (fs ! j)" and m: "0 < m"
  shows "\<exists>out Q'. hand_out P m = (TSI_OK, out, length out, Q') \<and> length out \<le> m \<and>
    receiver_at G I role ov fs Q' t (got @ out) \<and> out \<noteq> []"
proof -
  let ?f = "fs ! j" let ?q = "min m (length ?f - q)" let ?out = "take ?q (drop q ?f)"
  let ?P = "P\<lparr>in_place_unprotect_bytes_processed := q + ?q\<rparr>"
  have "length ?f - q = alts_get_output_bytes_read (fp_reader P) - q - overhead_length P"
    using P(1,6) by (simp add: alts_get_output_bytes_read_def receiver_base_def)
  moreover have "take ?q (drop q (in_place_unprotect_buffer P)) = ?out"
  proof -
    have "take ?q (drop q (in_place_unprotect_buffer P)) = take ?q (take (length ?f - q) (drop q (in_place_unprotect_buffer P)))" by simp
    also have "\<dots> = ?out" using P(7) by (simp only: drop_take [symmetric])
    finally show ?thesis .
  qed
  moreover have lo: "length ?out = ?q" by simp
  ultimately have h: "hand_out P m = (TSI_OK, ?out, length ?out, ?P)" by (simp add: hand_out_def Let_def P(8))
  have "got @ ?out = concat (take j fs) @ take (q + ?q) ?f" using P(11) by (simp only: take_add append_assoc)
  then have "receiver_out G I role ov fs ?P j (q + ?q) t (got @ ?out)" using P m unfolding receiver_out_def by simp
  moreover have "receiver_base ?P" using P(1) by (simp add: receiver_base_def)
  ultimately have "receiver_at G I role ov fs ?P t (got @ ?out)" unfolding receiver_at_def by blast
  moreover have "?out \<noteq> []" using P(9) m by simp
  ultimately show ?thesis using h lo by (metis min.cobounded1)
qed

lemma write_unsealed_step:
  assumes A: "aead_ok F I" and ov: "0 < ov" "ov < 12" and fs: "frames_ok (\<lambda>k. F (nonces role ov k)) ov fs"
    and b: "receiver_base Q" and m: "0 < m"
    and Q: "receiver_mid (\<lambda>k. F (nonces role ov k)) I role ov fs Q j k t got \<or>
      receiver_out (\<lambda>k. F (nonces role ov k)) I role ov fs Q j k t got \<and> k < length (fs ! j)"
  shows "\<exists>out Q'. write_unsealed Q m = (TSI_OK, out, length out, Q') \<and> length out \<le> m \<and>
    receiver_at (\<lambda>k. F (nonces role ov k)) I role ov fs Q' t (got @ out) \<and>
    (out = [] \<longrightarrow> receiver_mid (\<lambda>k. F (nonces role ov k)) I role ov fs Q j k t got \<and>
      open_frame (\<lambda>k. F (nonces role ov k)) fs j k)"
proof -
  let ?G = "\<lambda>k. F (nonces role ov k)" let ?f = "fs ! j" let ?T = "wire ?G j (drop j fs)"
  consider (opened) "receiver_mid ?G I role ov fs Q j k t got" "open_frame ?G fs j k" |
    (complete) "receiver_mid ?G I role ov fs Q j k t got" "j < length fs" "k = frame_end ?T" |
    (part) "receiver_out ?G I role ov fs Q j k t got" "k < length ?f"
    using Q unfolding open_frame_def receiver_mid_def by (metis le_neq_implies_less)
  then show ?thesis
  proof cases
    case opened
    with mid_not_done [OF fs opened] have "write_unsealed Q m = (TSI_OK, [], 0, Q)" by (simp add: write_unsealed_def)
    with opened b show ?thesis by (intro exI [of _ "[]"] exI [of _ Q]) (auto simp: receiver_at_def)
  next
    case complete
    from complete_unseal [OF A ov fs b complete] obtain c buf where
      u: "unseal Q = (TSI_OK, Q\<lparr>unseal_crypter := c, in_place_unprotect_buffer := buf\<rparr>)"
        "length buf = max_unprotected_frame_size Q" "take (length ?f) buf = ?f" "crypter_at Unseal_vtable I role ov (Suc j) c"
      by blast
    note f = frame_at [OF fs complete(2)]
    have k: "k = length ?f + 24" using complete(3) f(2) by simp
    have mid: "reader_at ?T 0 k (fp_reader Q)" "in_place_unprotect_bytes_processed Q = 0"
      "t = length (wire ?G 0 (take j fs)) + k" "got = concat (take j fs)" using complete(1) by (simp_all add: receiver_mid_def)
    have d: "alts_is_frame_reader_done (fp_reader Q)"
      using reader_done [OF mid(1)] complete(3) k f(5) by (simp add: frame_end_def)
    have r: "output_buffer (fp_reader Q) \<noteq> None" "output_bytes_read (fp_reader Q) = length ?f + 16"
      using mid(1) k by (simp_all add: reader_at_def)
    have tt: "t = length (wire ?G 0 (take (Suc j) fs))"
      using mid(3) k complete(2) f(7) by (simp add: take_Suc_conv_app_nth wire_snoc)
    have "receiver_base (Q\<lparr>unseal_crypter := c, in_place_unprotect_buffer := buf\<rparr>)" using b u(2) by (simp add: receiver_base_def)
    from hand_out_step [OF this complete(2) tt, of 0 I role ov got m] u(3,4) d r mid(2,4) f(6) m
      write_unsealed_done(2) [OF d mid(2) u(1), of m]
    show ?thesis by fastforce
  next
    case part
    then have r: "j < length fs" "t = length (wire ?G 0 (take (Suc j) fs))" "alts_is_frame_reader_done (fp_reader Q)"
      "output_buffer (fp_reader Q) \<noteq> None" "output_bytes_read (fp_reader Q) = length ?f + 16"
      "take (length ?f) (in_place_unprotect_buffer Q) = ?f" "in_place_unprotect_bytes_processed Q = k"
      "crypter_at Unseal_vtable I role ov (Suc j) (unseal_crypter Q)" "got = concat (take j fs) @ take k ?f" "0 < k"
      by (simp_all add: receiver_out_def)
    from r(7,10) have "in_place_unprotect_bytes_processed Q \<noteq> 0" by simp
    with hand_out_step [OF b r(1-7) part(2) r(8,9) m] write_unsealed_done(1) [OF r(3), of m]
    show ?thesis by metis
  qed
qed

section \<open>A call\<close>

lemma wire_end:
  assumes fs: "frames_ok G ov fs" and Q: "receiver_mid G I role ov fs Q j k t got" "open_frame G fs j k"
    and e: "drop t (wire G 0 fs) = []"
  shows "got = concat fs"
proof -
  have mid: "j \<le> length fs" "t = length (wire G 0 (take j fs)) + k" "got = concat (take j fs)"
    using Q(1) by (simp_all add: receiver_mid_def)
  have T: "drop k (wire G j (drop j fs)) = []" using e mid(2) wire_split [OF mid(1), of G] by simp
  have "j = length fs"
  proof (rule ccontr)
    assume "j \<noteq> length fs"
    with mid(1) have j: "j < length fs" by simp
    note f = frame_at [OF fs j]
    have "length (drop 8 (wire G j (drop j fs))) \<ge> length (fs ! j) + 16" unfolding f(4) using f(7) by simp
    with T Q(2) j f(2) show False by (simp add: open_frame_def)
  qed
  with mid(3) show ?thesis by simp
qed

lemma received_prefix:
  assumes "receiver_at G I role ov fs Q t got"
  shows "\<exists>ys. concat fs = got @ ys"
proof -
  have mid: "concat fs = concat (take j fs) @ concat (drop j fs)" for j
    by (simp flip: concat_append)
  have out: "concat fs = (concat (take j fs) @ take q (fs ! j)) @ drop q (fs ! j) @ concat (drop (Suc j) fs)" if "j < length fs" for j q
    using mid [of j] Cons_nth_drop_Suc [OF that, symmetric] by simp
  from assms show ?thesis unfolding receiver_at_def receiver_mid_def receiver_out_def receiver_new_def
    using mid out by (elim conjE disjE exE) (simp, blast, simp, blast, simp)
qed

lemma unprotect_step:
  assumes A: "aead_ok F I" and ov: "0 < ov" "ov < 12" and fs: "frames_ok (\<lambda>k. F (nonces role ov k)) ov fs"
    and Q: "receiver_at (\<lambda>k. F (nonces role ov k)) I role ov fs Q t got" and m: "0 < m"
    and bs: "drop t (wire (\<lambda>k. F (nonces role ov k)) 0 fs) = bs @ rest"
  shows "\<exists>n out Q'. alts_unprotect fresh Q (Some bs) (Some (length bs)) True (Some m) = (TSI_OK, Some n, out, Some (length out), Q') \<and>
    n \<le> length bs \<and> length out \<le> m \<and> receiver_at (\<lambda>k. F (nonces role ov k)) I role ov fs Q' (t + n) (got @ out) \<and>
    (n = 0 \<and> out = [] \<and> rest = [] \<longrightarrow> got = concat fs)"
proof -
  let ?G = "\<lambda>k. F (nonces role ov k)"
  from start_reader_step [OF fs Q] obtain Q1 where
    s: "start_reader Q = (TSI_OK, Q1)" "receiver_base Q1"
      "(\<exists>j k. receiver_mid ?G I role ov fs Q1 j k t got \<and> open_frame ?G fs j k) \<or>
       (\<exists>j q. receiver_out ?G I role ov fs Q1 j q t got \<and> q < length (fs ! j))" by blast
  have "\<exists>n Q2 j k. read_frame fresh Q1 bs (length bs) = (TSI_OK, n, Q2) \<and> n \<le> length bs \<and> receiver_base Q2 \<and>
      (receiver_mid ?G I role ov fs Q2 j k (t + n) got \<and> (bs \<noteq> [] \<longrightarrow> 0 < n) \<or>
       receiver_out ?G I role ov fs Q2 j k (t + n) got \<and> k < length (fs ! j))"
    using s(3)
  proof (elim disjE exE conjE)
    fix j k assume "receiver_mid ?G I role ov fs Q1 j k t got" "open_frame ?G fs j k"
    from read_frame_step [OF fs s(2) this bs, of fresh] show ?thesis by blast
  next
    fix j q assume o: "receiver_out ?G I role ov fs Q1 j q t got" "q < length (fs ! j)"
    then have "read_frame fresh Q1 bs (length bs) = (TSI_OK, 0, Q1)" by (simp add: read_frame_def receiver_out_def)
    with o s(2) show ?thesis by (intro exI [of _ 0] exI [of _ Q1] exI [of _ j] exI [of _ q]) simp
  qed
  then obtain n Q2 j k where
    r: "read_frame fresh Q1 bs (length bs) = (TSI_OK, n, Q2)" "n \<le> length bs" "receiver_base Q2"
      "receiver_mid ?G I role ov fs Q2 j k (t + n) got \<and> (bs \<noteq> [] \<longrightarrow> 0 < n) \<or>
       receiver_out ?G I role ov fs Q2 j k (t + n) got \<and> k < length (fs ! j)" by blast
  from r(4) have "receiver_mid ?G I role ov fs Q2 j k (t + n) got \<or>
      receiver_out ?G I role ov fs Q2 j k (t + n) got \<and> k < length (fs ! j)" by blast
  from write_unsealed_step [OF A ov fs r(3) m this] obtain out Q3 where
    w: "write_unsealed Q2 m = (TSI_OK, out, length out, Q3)" "length out \<le> m" "receiver_at ?G I role ov fs Q3 (t + n) (got @ out)"
      "out = [] \<longrightarrow> receiver_mid ?G I role ov fs Q2 j k (t + n) got \<and> open_frame ?G fs j k" by blast
  have "got = concat fs" if z: "n = 0 \<and> out = [] \<and> rest = []"
  proof -
    from z w(4) have mid: "receiver_mid ?G I role ov fs Q2 j k t got" "open_frame ?G fs j k" by simp_all
    have "\<not> (receiver_out ?G I role ov fs Q2 j k (t + n) got)"
      using mid_not_done [OF fs mid] by (simp add: receiver_out_def)
    with r(4) z have "bs = []" by blast
    with bs z have "drop t (wire ?G 0 fs) = []" by simp
    from wire_end [OF fs mid this] show ?thesis .
  qed
  with s(1) r(1,2) w(1-3) show ?thesis
    by (intro exI [of _ n] exI [of _ out] exI [of _ Q3]) (simp add: alts_unprotect_def)
qed

end
