(* ===== verification/Alts_Intake.thy ===== *)
theory Alts_Intake
  imports Alts_Receiver
begin

text \<open>
  The receiving end when the bytes that arrive are arbitrary: as long as no call fails, what has been taken is frames
  that are sealed under the nonces of their numbers, and then a part of a frame; and what is handed out is their
  plaintexts.
\<close>

section \<open>Frames of unknown origin\<close>

lemma store_load:
  assumes "4 \<le> length S"
  shows "store_32_le (load_32_le S) = take 4 S"
proof -
  let ?l = "load_32_le S"
  have b: "ucast (drop_bit 0 ?l) = S ! 0" "ucast (drop_bit 8 ?l) = S ! 1" "ucast (drop_bit 16 ?l) = S ! 2" "ucast (drop_bit 24 ?l) = S ! 3"
    by (rule bit_word_eqI; auto simp: load_32_le_def bit_simps dest: bit_imp_le_length)+
  have "take 4 S = [S ! 0, S ! 1, S ! 2, S ! 3]"
    using assms by (intro nth_equalityI) (auto simp: less_Suc_eq numeral_eq_Suc)
  then show ?thesis using b by (simp add: store_32_le_def u8_and_0xFF)
qed

lemma frame_text:
  assumes T: "4 + frame_length T \<le> length T" and g: "good_header T" and ct: "take (frame_length T - 4) (drop 8 T) = ct"
  shows "T = on_wire ct @ drop (4 + frame_length T) T"
proof -
  have fl: "4 \<le> frame_length T" and t6: "unat (load_32_le (drop 4 T)) = 6" using g by (simp_all add: good_header_def)
  have lc: "length ct + 4 = frame_length T" using T fl by (simp flip: ct)
  have "load_32_le (drop 4 T) = 6" using t6 by (simp add: word_eq_iff_unsigned [where 'a = nat])
  moreover have "store_32_le (load_32_le (drop 4 T)) = take 4 (drop 4 T)" using T fl by (intro store_load) simp
  moreover have "store_32_le (load_32_le T) = take 4 T" using T fl by (intro store_load) simp
  moreover have "(of_nat (length ct + 4) :: u32) = load_32_le T" unfolding lc by (simp add: frame_length_def)
  ultimately have "frame_header (length ct) = take 4 T @ take 4 (drop 4 T)" by (simp add: frame_header_def)
  also have "\<dots> = take 8 T" by (simp flip: take_add)
  finally have "on_wire ct = take 8 T @ take (frame_length T - 4) (drop 8 T)" by (simp add: on_wire_def ct)
  also have "\<dots> = take (4 + frame_length T) T" using fl by (simp flip: take_add)
  finally show ?thesis by simp
qed

section \<open>The invariant\<close>

definition intake_mid :: "(nat \<Rightarrow> bytes \<Rightarrow> bytes) \<Rightarrow> ('c gsec_aead_crypter \<Rightarrow> bool) \<Rightarrow> bool \<Rightarrow> nat \<Rightarrow> bytes \<Rightarrow>
    'c alts_frame_protector \<Rightarrow> bytes list \<Rightarrow> bytes \<Rightarrow> nat \<Rightarrow> nat \<Rightarrow> bytes \<Rightarrow> bool" where
  "intake_mid G I role ov S Q fs T k t got \<longleftrightarrow>
     S = wire G 0 fs @ T \<and> length fs < 256 ^ ov \<and> t = length (wire G 0 fs) + k \<and> reader_at T 0 k (fp_reader Q) \<and>
     in_place_unprotect_bytes_processed Q = 0 \<and> k - 8 \<le> max_unprotected_frame_size Q \<and>
     take (k - 8) (in_place_unprotect_buffer Q) = take (k - 8) (drop 8 T) \<and>
     crypter_at Unseal_vtable I role ov (length fs) (unseal_crypter Q) \<and> got = concat fs"

definition intake_out :: "(nat \<Rightarrow> bytes \<Rightarrow> bytes) \<Rightarrow> ('c gsec_aead_crypter \<Rightarrow> bool) \<Rightarrow> bool \<Rightarrow> nat \<Rightarrow> bytes \<Rightarrow>
    'c alts_frame_protector \<Rightarrow> bytes list \<Rightarrow> bytes \<Rightarrow> bytes \<Rightarrow> nat \<Rightarrow> nat \<Rightarrow> bytes \<Rightarrow> bool" where
  "intake_out G I role ov S Q fs f T q t got \<longleftrightarrow>
     S = wire G 0 (fs @ [f]) @ T \<and> Suc (length fs) < 256 ^ ov \<and> t = length (wire G 0 (fs @ [f])) \<and>
     alts_is_frame_reader_done (fp_reader Q) \<and> output_buffer (fp_reader Q) \<noteq> None \<and>
     output_bytes_read (fp_reader Q) = length f + 16 \<and> take (length f) (in_place_unprotect_buffer Q) = f \<and>
     in_place_unprotect_bytes_processed Q = q \<and> q \<le> length f \<and>
     crypter_at Unseal_vtable I role ov (Suc (length fs)) (unseal_crypter Q) \<and> got = concat fs @ take q f"

definition intake_at :: "(nat \<Rightarrow> bytes \<Rightarrow> bytes) \<Rightarrow> ('c gsec_aead_crypter \<Rightarrow> bool) \<Rightarrow> bool \<Rightarrow> nat \<Rightarrow> bytes \<Rightarrow>
    'c alts_frame_protector \<Rightarrow> nat \<Rightarrow> bytes \<Rightarrow> bool" where
  "intake_at G I role ov S Q t got \<longleftrightarrow>
     receiver_base Q \<and>
     ((\<exists>fs T k. intake_mid G I role ov S Q fs T k t got \<and> \<not> alts_is_frame_reader_done (fp_reader Q)) \<or>
      (\<exists>fs f T q. intake_out G I role ov S Q fs f T q t got \<and> (q = 0 \<longrightarrow> f = [])) \<or> receiver_new I role ov Q t got)"

lemma intake_start:
  assumes Q: "intake_at G I role ov S Q t got"
  shows "\<exists>Q'. start_reader Q = (TSI_OK, Q') \<and> receiver_base Q' \<and>
    ((\<exists>fs T k. intake_mid G I role ov S Q' fs T k t got \<and> \<not> alts_is_frame_reader_done (fp_reader Q')) \<or>
     (\<exists>fs f T q. intake_out G I role ov S Q' fs f T q t got \<and> q < length f \<and> q \<noteq> 0))"
proof -
  let ?r = "fp_reader Q"
  have b: "receiver_base Q" using Q by (simp add: intake_at_def)
  have reset: "\<exists>Q'. start_reader Q = (TSI_OK, Q') \<and> receiver_base Q' \<and> intake_mid G I role ov S Q' fs T 0 t got \<and>
      \<not> alts_is_frame_reader_done (fp_reader Q')"
    if "alts_is_frame_reader_done ?r" "output_buffer ?r = None \<or> output_bytes_read ?r = in_place_unprotect_bytes_processed Q + 16"
      "S = wire G 0 fs @ T" "length fs < 256 ^ ov" "t = length (wire G 0 fs)"
      "crypter_at Unseal_vtable I role ov (length fs) (unseal_crypter Q)" "got = concat fs" for fs T
  proof -
    from reset_reader [of ?r 0 T] b obtain r' where
      r: "alts_reset_frame_reader ?r (Some 0) = (True, r')" "reader_at T 0 0 r'" by (auto simp: receiver_base_def)
    let ?Q = "Q\<lparr>fp_reader := r', in_place_unprotect_bytes_processed := 0\<rparr>"
    have "start_reader Q = (TSI_OK, ?Q)"
      using that(1,2) b r(1)
      by (simp add: start_reader_def receiver_base_def alts_get_output_buffer_def alts_get_output_bytes_read_def Let_def)
    moreover have "receiver_base ?Q" using b r(2) by (simp add: receiver_base_def reader_at_def)
    moreover have "intake_mid G I role ov S ?Q fs T 0 t got" using that r(2) by (simp add: intake_mid_def)
    moreover have "\<not> alts_is_frame_reader_done r'" using reader_done [OF r(2)] by simp
    ultimately show ?thesis by (intro exI [of _ ?Q]) simp
  qed
  consider (mid) fs T k where "intake_mid G I role ov S Q fs T k t got" "\<not> alts_is_frame_reader_done ?r" |
    (part) fs f T q where "intake_out G I role ov S Q fs f T q t got" "q < length f" "q \<noteq> 0" |
    (all) fs f T where "intake_out G I role ov S Q fs f T (length f) t got" | (new) "receiver_new I role ov Q t got"
    using Q unfolding intake_at_def intake_out_def by (metis le_neq_implies_less list.size(3))
  then show ?thesis
  proof cases
    case mid
    then have "start_reader Q = (TSI_OK, Q)" by (simp add: start_reader_def Let_def)
    with mid b show ?thesis by blast
  next
    case part
    then have "output_buffer ?r \<noteq> None" "output_bytes_read ?r \<noteq> in_place_unprotect_bytes_processed Q + overhead_length Q"
      using b by (simp_all add: intake_out_def receiver_base_def)
    then have "start_reader Q = (TSI_OK, Q)"
      by (auto simp: start_reader_def Let_def alts_get_output_buffer_def alts_get_output_bytes_read_def)
    with part b show ?thesis by blast
  next
    case all
    then have "\<exists>Q'. start_reader Q = (TSI_OK, Q') \<and> receiver_base Q' \<and> intake_mid G I role ov S Q' (fs @ [f]) T 0 t got \<and>
      \<not> alts_is_frame_reader_done (fp_reader Q')"
      by (intro reset) (auto simp: intake_out_def)
    then show ?thesis by blast
  next
    case new
    then have "\<exists>Q'. start_reader Q = (TSI_OK, Q') \<and> receiver_base Q' \<and> intake_mid G I role ov S Q' [] S 0 t got \<and>
      \<not> alts_is_frame_reader_done (fp_reader Q')"
      by (intro reset) (auto simp: receiver_new_def alts_is_frame_reader_done_def)
    then show ?thesis by blast
  qed
qed

section \<open>Reading\<close>

lemma read_some:
  assumes r: "reader_at T a k r" and c: "drop k T = c @ rest"
  shows "\<exists>ok out n r'. alts_read_frame_bytes r (Some c) (Some (length c)) = (ok, out, n, r') \<and>
    (ok \<longrightarrow> (\<exists>k'. out = drop (k - 8) (take (k' - 8) (drop 8 T)) \<and> n = Some (k' - k) \<and> k \<le> k' \<and> k' \<le> k + length c \<and> reader_at T a k' r'))"
proof -
  have kT: "k + length c \<le> length T" using chunk_fits [OF c] r by (simp add: reader_at_def)
  consider "k + length c < 8" | "8 \<le> k + length c" "good_header T" | "8 \<le> k + length c" "\<not> good_header T" by linarith
  then show ?thesis
  proof cases
    case 1
    from read_header_part [OF r c 1] obtain r' where
      "alts_read_frame_bytes r (Some c) (Some (length c)) = (True, [], Some (length c), r')" "reader_at T a (k + length c) r'" by blast
    with 1 show ?thesis
      by (intro exI [of _ True] exI [of _ "[]"] exI [of _ "Some (length c)"] exI [of _ r']) (auto intro!: exI [of _ "k + length c"])
  next
    case 2
    let ?k = "min (k + length c) (frame_end T)"
    have T: "T \<noteq> [] \<longrightarrow> 8 \<le> length T \<and> good_header T" "frame_end T = 4 + frame_length T"
      using 2 kT by (auto simp: frame_end_def)
    have "k \<le> ?k" using r 2(2) by (cases "8 \<le> k") (auto simp: reader_at_def good_header_def T(2))
    moreover from read_any [OF r c T(1)] obtain r' where
      "alts_read_frame_bytes r (Some c) (Some (length c)) = (True, drop (k - 8) (take (?k - 8) (drop 8 T)), Some (?k - k), r')"
      "reader_at T a ?k r'" by blast
    ultimately show ?thesis
      by (intro exI [of _ True] exI [of _ "drop (k - 8) (take (?k - 8) (drop 8 T))"] exI [of _ "Some (?k - k)"] exI [of _ r'] conjI impI
          exI [of _ ?k] refl) simp_all
  next
    case 3
    then have "k < 8" using r by (auto simp: reader_at_def not_less)
    from read_header_end [OF r c this 3(1)] 3(2) show ?thesis by auto
  qed
qed

lemma ensure_any:
  assumes b: "receiver_base Q" and r: "reader_at T 0 k (fp_reader Q)" and k: "k - 8 \<le> max_unprotected_frame_size Q"
  shows "\<exists>M buf. ensure_buffer_size fresh Q = Q\<lparr>max_unprotected_frame_size := M, in_place_unprotect_buffer := buf\<rparr> \<and>
    1024 \<le> M \<and> M \<le> kMaxFrameLength \<and> length buf = M \<and> k - 8 \<le> M \<and>
    take (k - 8) buf = take (k - 8) (in_place_unprotect_buffer Q)"
proof -
  let ?r = "fp_reader Q" let ?M = "max_unprotected_frame_size Q"
  have bl: "length (in_place_unprotect_buffer Q) = ?M" "1024 \<le> ?M" "?M \<le> kMaxFrameLength" using b by (simp_all add: receiver_base_def)
  show ?thesis
  proof (cases "8 \<le> k \<and> ?M - (k - 8) < 4 + frame_length T - k")
    case False
    then have "ensure_buffer_size fresh Q = Q"
      using r by (auto simp: ensure_buffer_size_def Let_def alts_has_read_frame_length_def alts_get_output_bytes_read_def
          alts_get_reader_bytes_remaining_def reader_at_def)
    with bl k show ?thesis by (intro exI [of _ ?M] exI [of _ "in_place_unprotect_buffer Q"]) simp
  next
    case True
    have h: "header_bytes_read ?r = 8" "output_bytes_read ?r = k - 8" "bytes_remaining ?r = 4 + frame_length T - k"
      "output_buffer ?r = Some (k - 8)" "good_header T" "k \<le> 4 + frame_length T" using r True by (simp_all add: reader_at_def)
    let ?l = "k - 8 + (4 + frame_length T - k)"
    let ?buf = "overwrite (map fresh [0..<?l]) 0 (take (k - 8) (in_place_unprotect_buffer Q))"
    have rr: "alts_reset_reader_output_buffer ?r (Some (k - 8)) = ?r"
      using h(4) by (simp add: alts_reset_reader_output_buffer_def)
    have en: "ensure_buffer_size fresh Q = Q\<lparr>max_unprotected_frame_size := ?l, in_place_unprotect_buffer := ?buf\<rparr>"
      using conjunct1 [OF True] conjunct2 [OF True] h(1-4) rr
      by (simp add: ensure_buffer_size_def Let_def alts_has_read_frame_length_def alts_get_output_bytes_read_def
          alts_get_reader_bytes_remaining_def)
    have buf: "length ?buf = ?l" "take (k - 8) ?buf = take (k - 8) (in_place_unprotect_buffer Q)"
      using bl(1) k by (simp_all add: overwrite_def)
    have "?M \<le> ?l" "?l \<le> kMaxFrameLength"
      using conjunct1 [OF True] conjunct2 [OF True] h(5,6) by (auto simp: good_header_def kMaxFrameLength_def)
    with bl(2) buf show ?thesis unfolding en by (intro exI [of _ ?l] exI [of _ ?buf]) simp
  qed
qed

lemma intake_read:
  assumes b: "receiver_base Q" and Q: "intake_mid G I role ov S Q fs T k t got" "\<not> alts_is_frame_reader_done (fp_reader Q)"
    and bs: "drop t S = bs @ rest" and ok: "read_frame fresh Q bs (length bs) = (TSI_OK, m, Q')"
  shows "m \<le> length bs \<and> receiver_base Q' \<and> intake_mid G I role ov S Q' fs T (k + m) (t + m) got"
proof -
  have mid: "S = wire G 0 fs @ T" "t = length (wire G 0 fs) + k" "reader_at T 0 k (fp_reader Q)" "k - 8 \<le> max_unprotected_frame_size Q"
    "take (k - 8) (in_place_unprotect_buffer Q) = take (k - 8) (drop 8 T)" using Q(1) by (simp_all add: intake_mid_def)
  from ensure_any [OF b mid(3,4), of fresh] obtain M buf where
    e: "ensure_buffer_size fresh Q = Q\<lparr>max_unprotected_frame_size := M, in_place_unprotect_buffer := buf\<rparr>"
      "1024 \<le> M" "M \<le> kMaxFrameLength" "length buf = M" "k - 8 \<le> M"
      "take (k - 8) buf = take (k - 8) (in_place_unprotect_buffer Q)" by blast
  have T: "drop k T = bs @ rest" using bs mid(1,2) by simp
  define n where "n = min (M - (k - 8)) (length bs)"
  have n: "n \<le> length bs" by (simp add: n_def)
  then have ln: "length (take n bs) = n" by simp
  have "drop k T = take n bs @ drop n bs @ rest" using T by simp
  from read_some [OF mid(3) this] obtain ok' out n' r' where
    r': "alts_read_frame_bytes (fp_reader Q) (Some bs) (Some n) = (ok', out, n', r')"
      "ok' \<longrightarrow> (\<exists>k'. out = drop (k - 8) (take (k' - 8) (drop 8 T)) \<and> n' = Some (k' - k) \<and> k \<le> k' \<and> k' \<le> k + n \<and> reader_at T 0 k' r')"
    using read_take [OF n, of "fp_reader Q"] unfolding ln by metis
  have ob: "output_buffer (fp_reader Q) = Some (k - 8)" "output_bytes_read (fp_reader Q) = k - 8"
    using mid(3) by (simp_all add: reader_at_def)
  let ?Q = "Q\<lparr>max_unprotected_frame_size := M, fp_reader := r', in_place_unprotect_buffer := overwrite buf (k - 8) out\<rparr>"
  have rd: "read_frame fresh Q bs (length bs) = (if ok' then (TSI_OK, the n', ?Q) else (TSI_INTERNAL_ERROR, n, ?Q))"
    using Q(2) r'(1) ob
    by (simp add: read_frame_def Let_def e(1) alts_get_output_bytes_read_def alts_get_output_buffer_def n_def)
  with ok have "ok'" "m = the n'" "Q' = ?Q" by (auto split: if_splits)
  with r'(2) obtain k' where k': "out = drop (k - 8) (take (k' - 8) (drop 8 T))" "m = k' - k" "k \<le> k'" "k' \<le> k + n"
    "reader_at T 0 k' r'" by auto
  have k'M: "k' - 8 \<le> M" using k'(4) e(5) unfolding n_def by linarith
  have k'T: "k' \<le> length T" using k'(5) by (simp add: reader_at_def)
  have lo: "length out = k' - 8 - (k - 8)" using k'T by (simp add: k'(1))
  have lb: "length (overwrite buf (k - 8) out) = M" using lo k'M k'(3) e(4,5) by (simp add: overwrite_def)
  have "take (k' - 8) (overwrite buf (k - 8) out) = take (k' - 8) (drop 8 T)"
  proof -
    have "take (k - 8) (drop 8 T) @ out = take (k' - 8) (drop 8 T)"
    proof -
      have "k - 8 \<le> k' - 8" using k'(3) by simp
      then have "take (k - 8) (take (k' - 8) (drop 8 T)) = take (k - 8) (drop 8 T)" by (simp add: min_absorb1)
      with append_take_drop_id [of "k - 8" "take (k' - 8) (drop 8 T)"] show ?thesis by (simp add: k'(1))
    qed
    moreover have "overwrite buf (k - 8) out = (take (k - 8) (drop 8 T) @ out) @ drop (k - 8 + length out) buf"
      using e(6) mid(5) by (simp add: overwrite_def)
    moreover have "length (take (k' - 8) (drop 8 T)) = k' - 8" using k'T by simp
    ultimately show ?thesis by simp
  qed
  then have "intake_mid G I role ov S Q' fs T (k + m) (t + m) got"
    using Q(1) k'(2,3,5) k'M unfolding \<open>Q' = ?Q\<close> intake_mid_def by simp
  moreover have "receiver_base Q'"
    using b e(2,3) lb k'(5) unfolding \<open>Q' = ?Q\<close> by (simp add: receiver_base_def reader_at_def)
  moreover have "m \<le> length bs" using k'(2,4) n by simp
  ultimately show ?thesis by simp
qed

section \<open>Unsealing\<close>

text \<open>The last frame of the crypter is not unsealed: the counter overflows.\<close>

lemma unseal_last:
  assumes A: "aead_ok F I" and c: "crypter_at Unseal_vtable I role ov k c" and ov: "0 < ov" "ov < 12" "Suc k = 256 ^ ov"
    and m: "m \<le> alloc" "alloc \<le> length data" "alloc < 2 ^ 31" and pt: "take m data = F (nonces role ov k) pt"
  shows "fst (alts_crypter_process_in_place c (Some data) alloc m True) \<noteq> GRPC_STATUS_OK"
proof -
  from c obtain rp g where rp: "c = Some rp" "rp_base rp = Some Unseal_vtable" "rp_crypter rp = Some g" "I g"
    "rp_ctr rp = Some (counter_at role ov k)" unfolding crypter_at_def by blast
  have k: "k < 256 ^ ov" using ov(3) by simp
  note ctr = counter_at_ok [OF ov(1,2) k, of role]
  have sz: "alts_counter_get_size (Some (counter_at role ov k)) = 12"
    "alts_counter_get_counter (Some (counter_at role ov k)) = Some (nonces role ov k)"
    using ctr by (simp_all add: alts_counter_get_size_def alts_counter_get_counter_def nonces_def)
  have "unseals F I" using A by (simp add: aead_ok_def)
  with rp(4) nonces_length [OF ov(1,2) k, of role] m pt obtain g' where
    g': "gsec_aead_crypter_decrypt (Some g) (Some (nonces role ov k)) 12 None 0 (Some data) m (Some data) alloc True =
       (GRPC_STATUS_OK, Some (pt @ drop (length pt) data), Some (length pt), Some g')"
    unfolding unseals_def by blast
  have "overflow_size (counter_at role ov k) \<le> length (counter (counter_at role ov k))" using ctr ov(2) by simp
  from increment_ok [OF this] ctr(2,4) ov(3) obtain c' where
    "alts_counter_increment (Some (counter_at role ov k)) True = (GRPC_STATUS_FAILED_PRECONDITION, Some True, Some c')" by auto
  with rp g' sz show ?thesis
    by (simp add: alts_crypter_process_in_place_def alts_unseal_crypter_process_in_place_def increment_counter_def Let_def split: if_splits)
qed

text \<open>A frame that is unsealed was sealed under the nonce of its number.\<close>

lemma unseal_only:
  assumes A: "aead_ok F I" and c: "crypter_at Unseal_vtable I role ov k c" and ov: "0 < ov" "ov < 12" "k < 256 ^ ov"
    and m: "m \<le> alloc" "alloc \<le> length data" "alloc < 2 ^ 31"
    and ok: "alts_crypter_process_in_place c (Some data) alloc m True = (GRPC_STATUS_OK, data', n, c')"
  shows "\<exists>pt. take m data = F (nonces role ov k) pt \<and> Suc k < 256 ^ ov \<and> m = length pt + 16 \<and>
    data' = Some (pt @ drop (length pt) data) \<and> crypter_at Unseal_vtable I role ov (Suc k) c'"
proof -
  from unseal_refused [OF A c ov m] ok obtain pt where pt: "take m data = F (nonces role ov k) pt" by force
  have "Suc k \<noteq> 256 ^ ov" using unseal_last [OF A c ov(1,2) _ m pt] ok by auto
  then have k: "Suc k < 256 ^ ov" using ov(3) by simp
  have "length (F (nonces role ov k) pt) = length pt + 16"
    using A nonces_length [OF ov, of role] by (simp add: aead_ok_def)
  moreover have "length (take m data) = m" using m by simp
  ultimately have "m = length pt + 16" by (simp add: pt)
  with unseal_step [OF A c ov(1,2) k m pt] ok pt k show ?thesis by auto
qed

lemma intake_hand_out:
  assumes b: "receiver_base P" and P: "intake_out G I role ov S P fs f T q t got" "q < length f \<or> f = []" and m: "0 < m"
    and h: "hand_out P m = (r, out, n, Q')"
  shows "intake_at G I role ov S Q' t (got @ out)"
proof -
  let ?q = "min m (length f - q)" let ?out = "take ?q (drop q f)"
  let ?P = "P\<lparr>in_place_unprotect_bytes_processed := q + ?q\<rparr>"
  have o: "in_place_unprotect_bytes_processed P = q" "take (length f) (in_place_unprotect_buffer P) = f"
    "output_bytes_read (fp_reader P) = length f + 16" "got = concat fs @ take q f" "q \<le> length f"
    using P(1) by (simp_all add: intake_out_def)
  have "length f - q = alts_get_output_bytes_read (fp_reader P) - q - overhead_length P"
    using b o(3) by (simp add: alts_get_output_bytes_read_def receiver_base_def)
  moreover have "take ?q (drop q (in_place_unprotect_buffer P)) = ?out"
  proof -
    have "take ?q (drop q (in_place_unprotect_buffer P)) = take ?q (take (length f - q) (drop q (in_place_unprotect_buffer P)))" by simp
    also have "\<dots> = ?out" using o(2) by (simp only: drop_take [symmetric])
    finally show ?thesis .
  qed
  ultimately have "hand_out P m = (TSI_OK, ?out, ?q, ?P)" by (simp add: hand_out_def Let_def o(1))
  with h have e: "out = ?out" "Q' = ?P" by (metis Pair_inject)+
  have "got @ ?out = concat fs @ take (q + ?q) f" using o(4) by (simp only: take_add append_assoc)
  then have "intake_out G I role ov S ?P fs f T (q + ?q) t (got @ ?out)"
    using P m unfolding intake_out_def by auto
  moreover have "receiver_base ?P" using b by (simp add: receiver_base_def)
  moreover have "q + ?q = 0 \<longrightarrow> f = []" using P(2) m by (auto simp: min_def)
  ultimately show ?thesis unfolding intake_at_def e
    by (intro conjI disjI2 [OF disjI1] exI [of _ fs] exI [of _ f] exI [of _ T] exI [of _ "q + ?q"]) assumption+
qed

lemma intake_write:
  assumes A: "aead_ok F I" and ov: "0 < ov" "ov < 12" and b: "receiver_base Q" and m: "0 < m"
    and Q: "(\<exists>fs T k. intake_mid (\<lambda>k. F (nonces role ov k)) I role ov S Q fs T k t got) \<or>
      (\<exists>fs f T q. intake_out (\<lambda>k. F (nonces role ov k)) I role ov S Q fs f T q t got \<and> q < length f \<and> q \<noteq> 0)"
    and ok: "write_unsealed Q m = (TSI_OK, out, n, Q')"
  shows "intake_at (\<lambda>k. F (nonces role ov k)) I role ov S Q' t (got @ out)"
proof -
  let ?G = "\<lambda>k. F (nonces role ov k)"
  consider (mid) fs T k where "intake_mid ?G I role ov S Q fs T k t got" "\<not> alts_is_frame_reader_done (fp_reader Q)" |
    (complete) fs T k where "intake_mid ?G I role ov S Q fs T k t got" "alts_is_frame_reader_done (fp_reader Q)" |
    (part) fs f T q where "intake_out ?G I role ov S Q fs f T q t got" "q < length f" "q \<noteq> 0"
    using Q by blast
  then show ?thesis
  proof cases
    case mid
    then have "Q' = Q" "out = []" using ok by (simp_all add: write_unsealed_def)
    with mid b show ?thesis unfolding intake_at_def by auto
  next
    case part
    then have q: "in_place_unprotect_bytes_processed Q \<noteq> 0" "alts_is_frame_reader_done (fp_reader Q)" by (auto simp: intake_out_def)
    with ok have "hand_out Q m = (TSI_OK, out, n, Q')" using write_unsealed_done(1) [OF q(2,1), of m] by simp
    from intake_hand_out [OF b part(1) _ m this] part(2) show ?thesis by simp
  next
    case complete
    have mid: "S = wire ?G 0 fs @ T" "length fs < 256 ^ ov" "t = length (wire ?G 0 fs) + k" "reader_at T 0 k (fp_reader Q)"
      "in_place_unprotect_bytes_processed Q = 0" "k - 8 \<le> max_unprotected_frame_size Q"
      "take (k - 8) (in_place_unprotect_buffer Q) = take (k - 8) (drop 8 T)"
      "crypter_at Unseal_vtable I role ov (length fs) (unseal_crypter Q)" "got = concat fs"
      using complete(1) by (simp_all add: intake_mid_def)
    have k: "8 \<le> k" "k = 4 + frame_length T" using reader_done [OF mid(4)] complete(2) by simp_all
    have g: "good_header T" "k \<le> length T" "output_bytes_read (fp_reader Q) = k - 8" "output_buffer (fp_reader Q) \<noteq> None"
      using mid(4) k(1) by (simp_all add: reader_at_def)
    have l: "length (in_place_unprotect_buffer Q) = max_unprotected_frame_size Q" "max_unprotected_frame_size Q < 2 ^ 31"
      using b by (simp_all add: receiver_base_def kMaxFrameLength_def)
    obtain status data' n' c where
      u: "alts_crypter_process_in_place (unseal_crypter Q) (Some (in_place_unprotect_buffer Q)) (max_unprotected_frame_size Q) (k - 8) True =
        (status, data', n', c)" by (metis prod_cases4)
    then have us: "unseal Q = (if status \<noteq> GRPC_STATUS_OK then TSI_DATA_CORRUPTED else TSI_OK,
        Q\<lparr>unseal_crypter := c, in_place_unprotect_buffer := the data'\<rparr>)"
      by (simp add: unseal_def alts_get_output_bytes_read_def g(3))
    have "status = GRPC_STATUS_OK"
      using ok complete(2) mid(5) us by (auto simp: write_unsealed_def split: if_splits)
    then have "alts_crypter_process_in_place (unseal_crypter Q) (Some (in_place_unprotect_buffer Q)) (max_unprotected_frame_size Q) (k - 8) True =
        (GRPC_STATUS_OK, data', n', c)" using u by simp
    from unseal_only [OF A mid(8) ov mid(2,6) _ l(2) this] l(1) obtain pt where
      pt: "take (k - 8) (in_place_unprotect_buffer Q) = ?G (length fs) pt" "Suc (length fs) < 256 ^ ov" "k - 8 = length pt + 16"
        "data' = Some (pt @ drop (length pt) (in_place_unprotect_buffer Q))" "crypter_at Unseal_vtable I role ov (Suc (length fs)) c" by auto
    let ?P = "Q\<lparr>unseal_crypter := c, in_place_unprotect_buffer := pt @ drop (length pt) (in_place_unprotect_buffer Q)\<rparr>"
    have "take (frame_length T - 4) (drop 8 T) = ?G (length fs) pt" using pt(1) mid(7) k by simp
    from frame_text [OF _ g(1) this] g(2) k(2) have T: "T = on_wire (?G (length fs) pt) @ drop k T" by simp
    have "length (?G (length fs) pt) = length pt + 16" using A nonces_length [OF ov mid(2), of role] by (simp add: aead_ok_def)
    then have tt: "t = length (wire ?G 0 (fs @ [pt]))" using mid(3) pt(3) k(1) by (simp add: wire_snoc)
    have "S = wire ?G 0 (fs @ [pt]) @ drop k T" using mid(1) T by (simp add: wire_snoc)
    then have o: "intake_out ?G I role ov S ?P fs pt (drop k T) 0 t got"
      using pt tt complete(2) g(3,4) mid(5,9) by (simp add: intake_out_def)
    have "length (pt @ drop (length pt) (in_place_unprotect_buffer Q)) = max_unprotected_frame_size Q"
      using l(1) mid(6) pt(3) by simp
    then have base: "receiver_base ?P" using b by (simp add: receiver_base_def)
    have h: "hand_out ?P m = (TSI_OK, out, n, Q')"
      using ok write_unsealed_done(2) [OF complete(2) mid(5), of ?P m] us \<open>status = GRPC_STATUS_OK\<close> pt(4) by simp
    from intake_hand_out [OF base o _ m h] show ?thesis by (cases pt) simp_all
  qed
qed

section \<open>A call\<close>

lemma intake_unprotect:
  assumes A: "aead_ok F I" and ov: "0 < ov" "ov < 12" and m: "0 < m"
    and Q: "intake_at (\<lambda>k. F (nonces role ov k)) I role ov S Q t got" and bs: "drop t S = bs @ rest"
    and ok: "alts_unprotect fresh Q (Some bs) (Some (length bs)) True (Some m) = (TSI_OK, Some n, out, l, Q')"
  shows "intake_at (\<lambda>k. F (nonces role ov k)) I role ov S Q' (t + n) (got @ out) \<and> n \<le> length bs"
proof -
  let ?G = "\<lambda>k. F (nonces role ov k)"
  from intake_start [OF Q] obtain Q1 where
    s: "start_reader Q = (TSI_OK, Q1)" "receiver_base Q1"
      "(\<exists>fs T k. intake_mid ?G I role ov S Q1 fs T k t got \<and> \<not> alts_is_frame_reader_done (fp_reader Q1)) \<or>
       (\<exists>fs f T q. intake_out ?G I role ov S Q1 fs f T q t got \<and> q < length f \<and> q \<noteq> 0)" by blast
  obtain r1 n1 Q2 where r: "read_frame fresh Q1 bs (length bs) = (r1, n1, Q2)" by (metis prod_cases3)
  obtain r2 o2 k2 Q3 where w: "write_unsealed Q2 m = (r2, o2, k2, Q3)" by (metis prod_cases4)
  from ok s(1) r w have e: "r1 = TSI_OK" "r2 = TSI_OK" "n1 = n" "o2 = out" "Q3 = Q'"
    by (auto simp: alts_unprotect_def split: if_splits)
  have "n \<le> length bs \<and> receiver_base Q2 \<and>
      ((\<exists>fs T k. intake_mid ?G I role ov S Q2 fs T k (t + n) got) \<or>
       (\<exists>fs f T q. intake_out ?G I role ov S Q2 fs f T q (t + n) got \<and> q < length f \<and> q \<noteq> 0))"
    using s(3)
  proof (elim disjE exE conjE)
    fix fs T k assume "intake_mid ?G I role ov S Q1 fs T k t got" "\<not> alts_is_frame_reader_done (fp_reader Q1)"
    from intake_read [OF s(2) this bs r [unfolded e]] show ?thesis by blast
  next
    fix fs f T q assume o: "intake_out ?G I role ov S Q1 fs f T q t got" "q < length f" "q \<noteq> 0"
    then have "n = 0" "Q2 = Q1" using r e(3) by (simp_all add: read_frame_def intake_out_def)
    with o s(2) show ?thesis by (intro conjI disjI2 exI [of _ fs] exI [of _ f] exI [of _ T] exI [of _ q]) simp_all
  qed
  with intake_write [OF A ov _ m _ w [unfolded e]] show ?thesis by blast
qed

text \<open>What has been handed out is the beginning of the plaintexts of the frames that have been taken.\<close>

lemma intake_frames:
  assumes "intake_at G I role ov S Q t got" and "t \<le> length S"
  shows "\<exists>fs zs. take t S = wire G 0 fs @ zs \<and> (\<exists>ys. concat fs = got @ ys)"
proof -
  have "take (length X + k) (X @ T) = X @ take k T" for X T :: bytes and k by simp
  with assms(1) show ?thesis unfolding intake_at_def
  proof (elim conjE disjE exE)
    fix fs T k assume m: "intake_mid G I role ov S Q fs T k t got"
    then have "take t S = wire G 0 fs @ take k T" "concat fs = got @ []" by (simp_all add: intake_mid_def)
    then show ?thesis by blast
  next
    fix fs f T q assume m: "intake_out G I role ov S Q fs f T q t got"
    then have "take t S = wire G 0 (fs @ [f]) @ []" "concat (fs @ [f]) = got @ drop q f" by (simp_all add: intake_out_def)
    then show ?thesis by blast
  next
    assume "receiver_new I role ov Q t got"
    then have "take t S = wire G 0 [] @ []" "concat [] = got @ []" by (simp_all add: receiver_new_def)
    then show ?thesis by blast
  qed
qed

end
