(* ===== verification/Alts_Channel.thy ===== *)
theory Alts_Channel
  imports Alts_Intake
begin

text \<open>
  Connections of the frame protectors that \<open>alts_create_frame_protector\<close> makes from one key: the calls at the two ends
  and what they add up to. The runs are those of the relations \<open>sends\<close> and \<open>receives\<close>: the plaintexts, the chunks and the
  buffers have any size, except that every buffer for plaintext received has room for a byte, and the calls come in any
  order, except that nothing is protected between a flush that leaves bytes pending and the flush that writes the last of
  them. Both exceptions are needed: the code loses plaintext protected during an unfinished flush, and unseals a frame a
  second time after a call with an output buffer of size 0.
\<close>

section \<open>Creation\<close>

definition overflow_bytes :: "bool \<Rightarrow> nat" where
  "overflow_bytes rekey = (if rekey then kAltsRecordProtocolRekeyFrameLimit else kAltsRecordProtocolFrameLimit)"

lemma overflow_bytes_range: "0 < overflow_bytes rekey" "overflow_bytes rekey < 12"
  by (simp_all add: overflow_bytes_def kAltsRecordProtocolRekeyFrameLimit_def kAltsRecordProtocolFrameLimit_def)

lemma crypters_created:
  assumes A: "aead_ok F I" and I: "I g" and ov: "0 < ov" "ov < 12"
  shows "\<exists>c. alts_seal_crypter_create (Some g) role ov True = (GRPC_STATUS_OK, c) \<and> crypter_at Seal_vtable I (\<not> role) ov 0 c"
    and "\<exists>c. alts_unseal_crypter_create (Some g) role ov True = (GRPC_STATUS_OK, c) \<and> crypter_at Unseal_vtable I role ov 0 c"
proof -
  have "gsec_aead_crypter_nonce_length (Some g) True = (GRPC_STATUS_OK, Some 12)" using A I by (simp add: aead_ok_def)
  then have "alts_crypter_create_common (Some g) r ov = Some \<lparr>rp_base = None, rp_crypter = Some g, rp_ctr = Some (counter0 r ov)\<rparr>" for r
    using ov by (simp add: alts_crypter_create_common_def alts_counter_create_def counter0_def)
  then show "\<exists>c. alts_seal_crypter_create (Some g) role ov True = (GRPC_STATUS_OK, c) \<and> crypter_at Seal_vtable I (\<not> role) ov 0 c"
    "\<exists>c. alts_unseal_crypter_create (Some g) role ov True = (GRPC_STATUS_OK, c) \<and> crypter_at Unseal_vtable I role ov 0 c"
    using I by (simp_all add: alts_seal_crypter_create_def alts_unseal_crypter_create_def crypter_at_def counter_at_zero)
qed

lemma created:
  assumes E: "evp_gcm E view ks tg" and key: "good_key key rekey"
  shows "\<exists>ms P. alts_create_frame_protector E fresh (Some key) (length key) is_client rekey max_size True = (TSI_OK, ms, Some P) \<and>
    sender_base (aes_inv E view (session_key key rekey) (session_mask key rekey)) (\<not> is_client) (overflow_bytes rekey) P [] \<and>
    sender_idle G P [] [] [] \<and> receiver_base P \<and>
    receiver_new (aes_inv E view (session_key key rekey) (session_mask key rekey)) is_client (overflow_bytes rekey) P 0 []"
proof -
  let ?k = "session_key key rekey" let ?m = "session_mask key rekey" let ?I = "aes_inv E view ?k ?m"
  let ?ov = "overflow_bytes rekey"
  have A: "aead_ok (aes_frame E ks tg ?k ?m) ?I" by (rule aes_gcm_ok [OF E])
  from aes_gcm_created [OF E key] obtain g where
    g: "gsec_aes_gcm_aead_crypter_create E (Some key) (length key) 12 16 rekey True = (GRPC_STATUS_OK, Some g)" "?I g" by blast
  from crypters_created(1) [OF A g(2) overflow_bytes_range, of is_client rekey] obtain s where
    s: "alts_seal_crypter_create (Some g) is_client ?ov True = (GRPC_STATUS_OK, s)" "crypter_at Seal_vtable ?I (\<not> is_client) ?ov 0 s" by blast
  from crypters_created(2) [OF A g(2) overflow_bytes_range, of is_client rekey] obtain u where
    u: "alts_unseal_crypter_create (Some g) is_client ?ov True = (GRPC_STATUS_OK, u)" "crypter_at Unseal_vtable ?I is_client ?ov 0 u" by blast
  have c: "create_alts_crypters E (Some key) (length key) is_client rekey impl =
      (GRPC_STATUS_OK, impl\<lparr>seal_crypter := s, unseal_crypter := u\<rparr>)" for impl
    unfolding create_alts_crypters_def using g(1) s(1) u(1) by (simp add: aes_gcm_constants overflow_bytes_def Let_def)
  let ?ms = "map_option (\<lambda>n. max (min n kMaxFrameLength) kMinFrameLength) max_size"
  let ?n = "case ?ms of None \<Rightarrow> kDefaultFrameLength | Some n \<Rightarrow> n"
  have n: "1024 \<le> ?n" "?n \<le> kMaxFrameLength"
    by (auto simp: kDefaultFrameLength_def kMaxFrameLength_def kMinFrameLength_def split: option.splits)
  have o: "alts_crypter_num_overhead_bytes s = 16" by (rule crypter_overhead [OF A s(2)])
  show ?thesis unfolding alts_create_frame_protector_def
    using c o n s(2) u(2)
    by (simp add: Let_def sender_base_def sender_idle_def receiver_base_def receiver_new_def alts_create_frame_writer_def
        alts_create_frame_reader_def alts_is_frame_writer_done_def)
qed

section \<open>Runs\<close>

text \<open>
  The calls at the sending end: after \<open>n\<close> calls the bytes \<open>taken\<close> have been taken and \<open>out\<close> has been written, and the last
  flush says that \<open>p\<close> bytes are pending. Between a flush that leaves bytes and the one that writes the last of them,
  \<open>alts_protect\<close> is not called (\<open>tsi_frame_protector_protect_flush\<close> is called in a loop).
\<close>

inductive sends :: "'c alts_frame_protector \<Rightarrow> nat \<Rightarrow> bytes \<Rightarrow> bytes \<Rightarrow> nat \<Rightarrow> 'c alts_frame_protector \<Rightarrow> bool" for P0 where
  sends_start: "sends P0 0 [] [] 0 P0"
| sends_protect: "sends P0 (Suc n) (taken @ take k bs) (out @ o') 0 P'"
    if "sends P0 n taken out 0 P"
      and "alts_protect P (Some bs) (Some (length bs)) True (Some room) = (TSI_OK, Some k, o', room', P')"
| sends_flush: "sends P0 (Suc n) taken (out @ o') p' P'"
    if "sends P0 n taken out p P"
      and "alts_protect_flush P True (Some room) (Some x) = (TSI_OK, o', room', Some p', P')"

text \<open>
  The calls at the receiving end, each given the next bytes of the stream and an output buffer that is not empty: \<open>t\<close> bytes
  of the stream have been taken and \<open>got\<close> has been handed out.
\<close>

inductive receives :: "bytes \<Rightarrow> 'c alts_frame_protector \<Rightarrow> nat \<Rightarrow> bytes \<Rightarrow> 'c alts_frame_protector \<Rightarrow> bool" for stream Q0 where
  receives_start: "receives stream Q0 0 [] Q0"
| receives_unprotect: "receives stream Q0 (t + k) (got @ o') Q'"
    if "receives stream Q0 t got Q" and "drop t stream = bs @ rest" and "0 < room"
      and "alts_unprotect fresh Q (Some bs) (Some (length bs)) True (Some room) = (TSI_OK, Some k, o', room', Q')"

text \<open>Where a sender is between calls.\<close>

definition sender_at :: "(nat \<Rightarrow> bytes \<Rightarrow> bytes) \<Rightarrow> ('c gsec_aead_crypter \<Rightarrow> bool) \<Rightarrow> bool \<Rightarrow> nat \<Rightarrow> nat \<Rightarrow> bytes \<Rightarrow> bytes \<Rightarrow> nat \<Rightarrow>
    'c alts_frame_protector \<Rightarrow> bytes list \<Rightarrow> bytes \<Rightarrow> bool" where
  "sender_at G I role ov n taken out p P fs u \<longleftrightarrow>
     concat fs @ u = taken \<and> length fs \<le> n \<and> sender_base I role ov P fs \<and>
     (sender_idle G P fs u out \<or> sender_busy G P fs out \<and> u = [] \<and> (p = 0 \<longrightarrow> last_full P fs))"

lemma protect_at:
  assumes A: "aead_ok F I" and ov: "0 < ov" "ov < 12" "Suc n < 256 ^ ov"
    and s: "sender_at (\<lambda>k. F (nonces role ov k)) I role ov n taken out 0 P fs u"
  shows "\<exists>k o' P' fs' u'. alts_protect P (Some bs) (Some (length bs)) True (Some room) = (TSI_OK, Some k, o', Some (length o'), P') \<and>
    k \<le> length bs \<and> (in_place_protect_bytes_buffered P = 0 \<longrightarrow> k = min (length bs) (max_protected_frame_size P - 24)) \<and>
    sender_at (\<lambda>k. F (nonces role ov k)) I role ov (Suc n) (taken @ take k bs) (out @ o') 0 P' fs' u'"
proof -
  have l: "length fs \<le> n" and b: "sender_base I role ov P fs" and c: "concat fs @ u = taken"
    and i: "sender_idle (\<lambda>k. F (nonces role ov k)) P fs u out \<or> sender_busy (\<lambda>k. F (nonces role ov k)) P fs out \<and> u = [] \<and> last_full P fs"
    using s by (auto simp: sender_at_def)
  have "Suc (length fs) < 256 ^ ov" using l ov(3) by simp
  from protect_step [OF A ov(1,2) this b i, of bs room] obtain k o' P' fs' u' where
    r: "alts_protect P (Some bs) (Some (length bs)) True (Some room) = (TSI_OK, Some k, o', Some (length o'), P')" "k \<le> length bs"
      "in_place_protect_bytes_buffered P = 0 \<longrightarrow> k = min (length bs) (max_protected_frame_size P - 24)"
      "concat fs' @ u' = concat fs @ u @ take k bs" "length fs' \<le> Suc (length fs)" "sender_base I role ov P' fs'"
      "sender_idle (\<lambda>k. F (nonces role ov k)) P' fs' u' (out @ o') \<or>
        sender_busy (\<lambda>k. F (nonces role ov k)) P' fs' (out @ o') \<and> u' = [] \<and> last_full P' fs'" by (elim exE conjE) (rule that; assumption)
  have "concat fs' @ u' = taken @ take k bs" "length fs' \<le> Suc n" using r(4,5) l by (simp_all flip: c)
  with r(6,7) have "sender_at (\<lambda>k. F (nonces role ov k)) I role ov (Suc n) (taken @ take k bs) (out @ o') 0 P' fs' u'"
    by (simp add: sender_at_def)
  with r(1-3) show ?thesis by (intro exI conjI) assumption+
qed

lemma flush_at:
  assumes A: "aead_ok F I" and ov: "0 < ov" "ov < 12" "Suc n < 256 ^ ov"
    and s: "sender_at (\<lambda>k. F (nonces role ov k)) I role ov n taken out p P fs u"
  shows "\<exists>o' p' P' fs'. alts_protect_flush P True (Some room) (Some x) = (TSI_OK, o', Some (length o'), Some p', P') \<and>
    sender_at (\<lambda>k. F (nonces role ov k)) I role ov (Suc n) taken (out @ o') p' P' fs' [] \<and>
    p' \<le> max_protected_frame_size P - room \<and> (p' = 0 \<longrightarrow> in_place_protect_bytes_buffered P' = 0)"
proof -
  have l: "length fs \<le> n" and b: "sender_base I role ov P fs" and c: "concat fs @ u = taken"
    and i: "sender_idle (\<lambda>k. F (nonces role ov k)) P fs u out \<or> sender_busy (\<lambda>k. F (nonces role ov k)) P fs out \<and> u = []"
    using s by (auto simp: sender_at_def)
  let ?fs = "if u = [] then fs else fs @ [u]"
  have "Suc (length fs) < 256 ^ ov" using l ov(3) by simp
  from flush_step [OF A ov(1,2) this b i, of room x] obtain o' p' P' where
    r: "alts_protect_flush P True (Some room) (Some x) = (TSI_OK, o', Some (length o'), Some p', P')" "p' \<le> max_protected_frame_size P - room" "sender_base I role ov P' ?fs"
      "if p' = 0 then sender_idle (\<lambda>k. F (nonces role ov k)) P' ?fs [] (out @ o') else sender_busy (\<lambda>k. F (nonces role ov k)) P' ?fs (out @ o')"
    by blast
  have f: "concat ?fs @ [] = taken" "length ?fs \<le> Suc n" using l c by auto
  have "sender_idle (\<lambda>k. F (nonces role ov k)) P' ?fs [] (out @ o') \<or>
      sender_busy (\<lambda>k. F (nonces role ov k)) P' ?fs (out @ o') \<and> [] = ([] :: bytes) \<and> (p' = 0 \<longrightarrow> last_full P' ?fs)"
    using r(4) by (cases "p' = 0") simp_all
  moreover have "p' = 0 \<longrightarrow> in_place_protect_bytes_buffered P' = 0" using r(4) by (cases "p' = 0") (simp_all add: sender_idle_def)
  ultimately show ?thesis using r(1-3) f unfolding sender_at_def
    by (intro exI [of _ o'] exI [of _ p'] exI [of _ P'] exI [of _ ?fs] conjI) assumption+
qed

lemma sends_at:
  assumes A: "aead_ok F I" and ov: "0 < ov" "ov < 12"
    and b: "sender_base I role ov P0 []" "sender_idle (\<lambda>k. F (nonces role ov k)) P0 [] [] []"
    and s: "sends P0 n taken out p P" and n: "n < 256 ^ ov"
  shows "\<exists>fs u. sender_at (\<lambda>k. F (nonces role ov k)) I role ov n taken out p P fs u"
  using s n
proof induction
  case sends_start
  show ?case using b by (intro exI [of _ "[]"] exI [of _ "[]"]) (simp add: sender_at_def)
next
  case (sends_protect n taken out P bs room k o' room' P')
  then obtain fs u where "sender_at (\<lambda>k. F (nonces role ov k)) I role ov n taken out 0 P fs u" by auto
  from protect_at [OF A ov sends_protect.prems this, of bs room] sends_protect.hyps(2) show ?case by auto
next
  case (sends_flush n taken out p P room x o' room' p' P')
  then obtain fs u where "sender_at (\<lambda>k. F (nonces role ov k)) I role ov n taken out p P fs u" by auto
  from flush_at [OF A ov sends_flush.prems this, of room x] sends_flush.hyps(2) show ?case by auto
qed

text \<open>What a sender has written is the beginning of the frames it has sealed.\<close>

lemma sender_frames:
  assumes A: "aead_ok F I" and ov: "0 < ov" "ov < 12" "n < 256 ^ ov"
    and s: "sender_at (\<lambda>k. F (nonces role ov k)) I role ov n taken out p P fs u"
  shows "frames_ok (\<lambda>k. F (nonces role ov k)) ov fs"
    and "\<exists>zs. wire (\<lambda>k. F (nonces role ov k)) 0 fs = out @ zs"
    and "in_place_protect_bytes_buffered P = 0 \<Longrightarrow> out = wire (\<lambda>k. F (nonces role ov k)) 0 fs \<and> concat fs = taken"
proof -
  let ?G = "\<lambda>k. F (nonces role ov k)"
  have l: "length fs < 256 ^ ov" using s ov(3) by (simp add: sender_at_def)
  have i: "sender_idle ?G P fs u out \<or> sender_busy ?G P fs out \<and> u = []" using s by (auto simp: sender_at_def)
  have "length (?G j (fs ! j)) = length (fs ! j) + 16" if "j < length fs" for j
    using A nonces_length [OF ov(1,2), of j role] that l by (simp add: aead_ok_def)
  with l s show "frames_ok ?G ov fs" by (simp add: frames_ok_def sender_at_def sender_base_def)
  show "\<exists>zs. wire ?G 0 fs = out @ zs"
  proof (cases "sender_idle ?G P fs u out")
    case True
    then show ?thesis by (simp add: sender_idle_def)
  next
    case False
    with i obtain gs f pos where "fs = gs @ [f]" "out = wire ?G 0 gs @ take pos (on_wire (?G (length gs) f))"
      by (auto simp: sender_busy_def)
    then show ?thesis by (intro exI [of _ "drop pos (on_wire (?G (length gs) f))"]) (simp add: wire_snoc)
  qed
  assume "in_place_protect_bytes_buffered P = 0"
  with i have "sender_idle ?G P fs [] out" "u = []" by (auto simp: sender_idle_def sender_busy_def)
  then show "out = wire ?G 0 fs \<and> concat fs = taken" using s by (simp add: sender_idle_def sender_at_def)
qed

lemma receives_at:
  assumes A: "aead_ok F I" and ov: "0 < ov" "ov < 12" and fs: "frames_ok (\<lambda>k. F (nonces role ov k)) ov fs"
    and b: "receiver_base Q0" "receiver_new I role ov Q0 0 []"
    and w: "wire (\<lambda>k. F (nonces role ov k)) 0 fs = out @ zs" and r: "receives out Q0 t got Q"
  shows "receiver_at (\<lambda>k. F (nonces role ov k)) I role ov fs Q t got \<and> t \<le> length out"
  using r
proof induction
  case receives_start
  show ?case using b by (simp add: receiver_at_def)
next
  case (receives_unprotect t got Q bs rest room fresh k o' room' Q')
  then have at: "receiver_at (\<lambda>k. F (nonces role ov k)) I role ov fs Q t got" and t: "t \<le> length out" by simp_all
  have d: "drop t (wire (\<lambda>k. F (nonces role ov k)) 0 fs) = bs @ (rest @ zs)"
    using receives_unprotect.hyps(2) t unfolding w by simp
  from unprotect_step [OF A ov fs at receives_unprotect.hyps(3) d, of fresh] receives_unprotect.hyps(4)
  have "k \<le> length bs" "receiver_at (\<lambda>k. F (nonces role ov k)) I role ov fs Q' (t + k) (got @ o')" by auto
  moreover have "t + length bs \<le> length out" by (rule chunk_fits [OF receives_unprotect.hyps(2) t])
  ultimately show ?case by simp
qed

section \<open>Delivery\<close>

lemma receives_prepend:
  assumes r: "receives (drop n S) Q1 t got Q"
    and s: "S = bs @ rest" "0 < room" "alts_unprotect fresh Q0 (Some bs) (Some (length bs)) True (Some room) = (TSI_OK, Some n, o', room', Q1)"
  shows "receives S Q0 (n + t) (o' @ got) Q"
  using r
proof induction
  case receives_start
  from receives_unprotect [of S Q0 0 "[]" Q0 bs rest room fresh n o' room' Q1] s show ?case by (simp add: receives.receives_start)
next
  case (receives_unprotect t got Q bs rest room fresh k o'' room'' Q')
  have "drop (n + t) S = bs @ rest" using receives_unprotect.hyps(2) by (simp add: add.commute)
  from receives.receives_unprotect [OF receives_unprotect.IH this receives_unprotect.hyps(3,4)] show ?case by (simp add: add.assoc)
qed

lemma receives_all:
  assumes A: "aead_ok F I" and ov: "0 < ov" "ov < 12" and fs: "frames_ok (\<lambda>k. F (nonces role ov k)) ov fs"
    and Q: "receiver_at (\<lambda>k. F (nonces role ov k)) I role ov fs Q t got"
  shows "\<exists>k Q'. receives (drop t (wire (\<lambda>k. F (nonces role ov k)) 0 fs)) Q k (drop (length got) (concat fs)) Q'"
  using Q
proof (induction "(length (wire (\<lambda>k. F (nonces role ov k)) 0 fs) - t) + (length (concat fs) - length got)" arbitrary: Q t got
    rule: less_induct)
  case less
  let ?W = "wire (\<lambda>k. F (nonces role ov k)) 0 fs" and ?at = "receiver_at (\<lambda>k. F (nonces role ov k)) I role ov fs"
  from unprotect_step [OF A ov fs less.prems, of 1 "drop t ?W" "[]" "\<lambda>_. 0"] obtain n o' Q1 where
    u: "alts_unprotect (\<lambda>_. 0) Q (Some (drop t ?W)) (Some (length (drop t ?W))) True (Some 1) = (TSI_OK, Some n, o', Some (length o'), Q1)"
      "n \<le> length (drop t ?W)" "?at Q1 (t + n) (got @ o')" "n = 0 \<and> o' = [] \<longrightarrow> got = concat fs" by auto
  show ?case
  proof (cases "n = 0 \<and> o' = []")
    case True
    with u(4) have "drop (length got) (concat fs) = []" by simp
    with receives_start [of "drop t ?W" Q] show ?thesis by metis
  next
    case False
    from received_prefix [OF u(3)] obtain ys where ys: "concat fs = got @ o' @ ys" by auto
    have "(length ?W - (t + n)) + (length (concat fs) - length (got @ o')) < (length ?W - t) + (length (concat fs) - length got)"
      using False u(2) unfolding ys by (cases "n = 0") auto
    from less.hyps [OF this u(3)] obtain k Q' where
      "receives (drop (t + n) ?W) Q1 k (drop (length (got @ o')) (concat fs)) Q'" by blast
    then have "receives (drop n (drop t ?W)) Q1 k ys Q'" by (simp add: ys add.commute)
    from receives_prepend [OF this _ _ u(1), of "[]"] have "receives (drop t ?W) Q (n + k) (o' @ ys) Q'" by simp
    moreover have "o' @ ys = drop (length got) (concat fs)" by (simp add: ys)
    ultimately show ?thesis by metis
  qed
qed

section \<open>Connections\<close>

text \<open>Two protectors of one key, one at the client and one at the server.\<close>

lemma connected:
  assumes E: "evp_gcm E view ks tg" and key: "good_key key rekey"
    and P0: "alts_create_frame_protector E fresh1 (Some key) (length key) is_client rekey max1 True = (TSI_OK, ms1, Some P0)"
    and Q0: "alts_create_frame_protector E fresh2 (Some key) (length key) (\<not> is_client) rekey max2 True = (TSI_OK, ms2, Some Q0)"
    and s: "sends P0 n taken out p P" and n: "n < 256 ^ overflow_bytes rekey" and r: "receives out Q0 t got Q"
  shows "\<exists>F I fs u. aead_ok F I \<and>
    sender_at (\<lambda>k. F (nonces (\<not> is_client) (overflow_bytes rekey) k)) I (\<not> is_client) (overflow_bytes rekey) n taken out p P fs u \<and>
    receiver_at (\<lambda>k. F (nonces (\<not> is_client) (overflow_bytes rekey) k)) I (\<not> is_client) (overflow_bytes rekey) fs Q t got \<and>
    t \<le> length out"
proof -
  let ?F = "aes_frame E ks tg (session_key key rekey) (session_mask key rekey)"
  let ?I = "aes_inv E view (session_key key rekey) (session_mask key rekey)"
  let ?ov = "overflow_bytes rekey" let ?role = "\<not> is_client" let ?G = "\<lambda>k. ?F (nonces ?role ?ov k)"
  have A: "aead_ok ?F ?I" by (rule aes_gcm_ok [OF E])
  note ov = overflow_bytes_range [of rekey]
  from created [OF E key, of fresh1 is_client max1 ?G] P0 have
    P: "sender_base ?I ?role ?ov P0 []" "sender_idle ?G P0 [] [] []" by auto
  from created [OF E key, of fresh2 ?role max2 ?G] Q0 have
    Q: "receiver_base Q0" "receiver_new ?I ?role ?ov Q0 0 []" by auto
  from sends_at [OF A ov P s n] obtain fs u where at: "sender_at ?G ?I ?role ?ov n taken out p P fs u" by blast
  note f = sender_frames [OF A ov n at]
  from f(2) obtain zs where "wire ?G 0 fs = out @ zs" by blast
  from receives_at [OF A ov f(1) Q this r] A at show ?thesis by blast
qed

section \<open>An instance\<close>

text \<open>Functions in place of those of BoringSSL, with the shape of GCM and of an HMAC but no strength, and a connection that
  uses them: the client sends one byte.\<close>

definition demo_stream :: "bytes \<Rightarrow> bytes \<Rightarrow> nat \<Rightarrow> u8" where
  "demo_stream k iv i = sum_list k + sum_list iv + of_nat i"

definition demo_tag :: "bytes \<Rightarrow> bytes \<Rightarrow> bytes \<Rightarrow> bytes" where
  "demo_tag k iv bs = replicate 15 (sum_list k + sum_list iv) @ [sum_list bs]"

definition demo_init :: "gcm_view \<times> bytes \<Rightarrow> evp_cipher option \<Rightarrow> bytes option \<Rightarrow> bytes option \<Rightarrow> bool \<times> gcm_view \<times> bytes" where
  "demo_init x c k iv =
     (let v = fst x;
          v = (case c of None \<Rightarrow> v | Some c \<Rightarrow> v\<lparr>v_cipher := c\<rparr>);
          v = (case k of None \<Rightarrow> v | Some k \<Rightarrow> v\<lparr>v_key := k\<rparr>);
          v = (case iv of None \<Rightarrow> v | Some iv \<Rightarrow> v\<lparr>v_iv := iv, v_text := []\<rparr>)
      in (True, v, []))"

definition demo_evp :: "(gcm_view \<times> bytes) evp" where
  "demo_evp =
     \<lparr>EVP_CIPHER_CTX_new = (\<lparr>v_cipher = EVP_aes_128_gcm, v_key = [], v_iv = [], v_text = []\<rparr>, []),
      EVP_EncryptInit_ex = demo_init, EVP_DecryptInit_ex = demo_init,
      EVP_EncryptUpdate = (\<lambda>(v, t) _ bs _. let ct = stream_xor demo_stream v bs in (True, ct, length bs, v\<lparr>v_text := v_text v @ ct\<rparr>, t)),
      EVP_DecryptUpdate = (\<lambda>(v, t) _ bs _. (True, stream_xor demo_stream v bs, length bs, v\<lparr>v_text := v_text v @ bs\<rparr>, t)),
      EVP_EncryptFinal_ex = (\<lambda>x. (True, 0, x)),
      EVP_DecryptFinal_ex = (\<lambda>(v, t). (t = demo_tag (v_key v) (v_iv v) (v_text v), 0, v, t)),
      EVP_CTRL_GCM_SET_IVLEN = (\<lambda>x _. (True, x)),
      EVP_CTRL_GCM_GET_TAG = (\<lambda>(v, t) _. (True, demo_tag (v_key v) (v_iv v) (v_text v), v, t)),
      EVP_CTRL_GCM_SET_TAG = (\<lambda>(v, _) t. (True, v, t)),
      HMAC_sha256 = (\<lambda>k m. Some (replicate 31 (sum_list k) @ [sum_list m]))\<rparr>"

lemma demo_evp_gcm: "evp_gcm demo_evp fst demo_stream demo_tag"
  by (simp add: evp_gcm_def evp_keys_def evp_encrypts_def evp_decrypts_def demo_evp_def demo_init_def demo_tag_def
      same_key_def Let_def split_beta)

lemma demo_connection:
  "\<exists>ms1 P0 ms2 Q0 out p P t Q.
     alts_create_frame_protector demo_evp (\<lambda>_. 0) (Some (replicate 16 1)) (length (replicate 16 (1 :: u8))) True False (Some 2000) True =
       (TSI_OK, ms1, Some P0) \<and>
     alts_create_frame_protector demo_evp (\<lambda>_. 0) (Some (replicate 16 1)) (length (replicate 16 (1 :: u8))) (\<not> True) False None True =
       (TSI_OK, ms2, Some Q0) \<and>
     sends P0 2 [5] out p P \<and> in_place_protect_bytes_buffered P = 0 \<and> receives out Q0 t [5] Q"
proof -
  let ?key = "replicate 16 (1 :: u8)" let ?ov = "overflow_bytes False"
  have key: "good_key ?key False" by (simp add: good_key_def)
  let ?F = "aes_frame demo_evp demo_stream demo_tag (session_key ?key False) (session_mask ?key False)"
  let ?I = "aes_inv demo_evp fst (session_key ?key False) (session_mask ?key False)"
  let ?G = "\<lambda>k. ?F (nonces (\<not> True) ?ov k)"
  have A: "aead_ok ?F ?I" by (rule aes_gcm_ok [OF demo_evp_gcm])
  note ov = overflow_bytes_range [of False]
  have n: "Suc 1 < 256 ^ ?ov" by (simp add: overflow_bytes_def kAltsRecordProtocolFrameLimit_def)
  then have n0: "Suc 0 < 256 ^ ?ov" "(2::nat) < 256 ^ ?ov" by simp_all
  from created [OF demo_evp_gcm key, of "\<lambda>_. 0" True "Some 2000" ?G] obtain ms1 P0 where
    P0: "alts_create_frame_protector demo_evp (\<lambda>_. 0) (Some ?key) (length ?key) True False (Some 2000) True = (TSI_OK, ms1, Some P0)"
      "sender_base ?I (\<not> True) ?ov P0 []" "sender_idle ?G P0 [] [] []" by blast
  from created [OF demo_evp_gcm key, of "\<lambda>_. 0" "\<not> True" None ?G] obtain ms2 Q0 where
    Q0: "alts_create_frame_protector demo_evp (\<lambda>_. 0) (Some ?key) (length ?key) (\<not> True) False None True = (TSI_OK, ms2, Some Q0)"
      "receiver_base Q0" "receiver_new ?I (\<not> True) ?ov Q0 0 []" by blast
  have at0: "sender_at ?G ?I (\<not> True) ?ov 0 [] [] 0 P0 [] []" using P0(2,3) by (simp add: sender_at_def)
  have "in_place_protect_bytes_buffered P0 = 0" "24 < max_protected_frame_size P0"
    using P0(2,3) by (simp_all add: sender_idle_def sender_base_def)
  with protect_at [OF A ov n0(1) at0, of "[5]" 2000] obtain o1 P1 fs1 u1 where
    r1: "alts_protect P0 (Some [5]) (Some (length [5 :: u8])) True (Some 2000) = (TSI_OK, Some 1, o1, Some (length o1), P1)"
      "sender_at ?G ?I (\<not> True) ?ov 1 [5] o1 0 P1 fs1 u1" by auto
  have s1: "sends P0 1 [5] o1 0 P1" using sends_protect [OF sends_start r1(1)] by simp
  have M1: "max_protected_frame_size P1 \<le> kMaxFrameLength" using r1(2) by (simp add: sender_at_def sender_base_def)
  from flush_at [OF A ov n r1(2), of kMaxFrameLength 0] M1 obtain o2 P2 fs2 where
    r2: "alts_protect_flush P1 True (Some kMaxFrameLength) (Some 0) = (TSI_OK, o2, Some (length o2), Some 0, P2)"
      "sender_at ?G ?I (\<not> True) ?ov 2 [5] (o1 @ o2) 0 P2 fs2 []" "in_place_protect_bytes_buffered P2 = 0"
    by (auto simp: numeral_2_eq_2)
  have s2: "sends P0 2 [5] (o1 @ o2) 0 P2" using sends_flush [OF s1 r2(1)] by (simp add: numeral_2_eq_2)
  note f = sender_frames [OF A ov n0(2) r2(2)]
  have "receiver_at ?G ?I (\<not> True) ?ov fs2 Q0 0 []" using Q0(2,3) by (simp add: receiver_at_def)
  from receives_all [OF A ov f(1) this] f(3) [OF r2(3)] obtain t Q where "receives (o1 @ o2) Q0 t [5] Q" by auto
  with P0(1) Q0(1) s2 r2(3) show ?thesis by blast
qed

section \<open>Properties\<close>

text \<open>C4: What is received is the beginning of what was sent. The runs are those of \<open>sends\<close> and \<open>receives\<close>: at the sending end
  \<open>alts_protect\<close> is not called between a flush that leaves bytes pending and the flush that writes the last of them, and the
  calls are fewer than the counter has values; at the receiving end every call of \<open>alts_unprotect\<close> is given the next bytes
  that the sender has written, in chunks of any size, and an output buffer with room for at least one byte.\<close>

theorem alts_channel_prefix:
  assumes E: "evp_gcm E view ks tg" and key: "good_key key rekey"
    and P0: "alts_create_frame_protector E fresh1 (Some key) (length key) is_client rekey max1 True = (TSI_OK, ms1, Some P0)"
    and Q0: "alts_create_frame_protector E fresh2 (Some key) (length key) (\<not> is_client) rekey max2 True = (TSI_OK, ms2, Some Q0)"
    and s: "sends P0 n taken out p P" and n: "n < 256 ^ overflow_bytes rekey" and r: "receives out Q0 t got Q"
  shows "\<exists>rest. taken = got @ rest"
proof -
  from connected [OF assms] obtain F I fs u where "concat fs @ u = taken"
    "receiver_at (\<lambda>k. F (nonces (\<not> is_client) (overflow_bytes rekey) k)) I (\<not> is_client) (overflow_bytes rekey) fs Q t got"
    unfolding sender_at_def by blast
  with received_prefix [OF this(2)] show ?thesis by (metis append_assoc)
qed

lemma alts_channel_prefix_witness:
  "\<exists>ms1 P0 ms2 Q0 out p P t Q.
     alts_create_frame_protector demo_evp (\<lambda>_. 0) (Some (replicate 16 1)) (length (replicate 16 (1 :: u8))) True False (Some 2000) True =
       (TSI_OK, ms1, Some P0) \<and>
     alts_create_frame_protector demo_evp (\<lambda>_. 0) (Some (replicate 16 1)) (length (replicate 16 (1 :: u8))) (\<not> True) False None True =
       (TSI_OK, ms2, Some Q0) \<and>
     sends P0 2 [5] out p P \<and> receives out Q0 t [5] Q \<and> (\<exists>rest. [5] = [5] @ rest)"
proof -
  from demo_connection obtain ms1 P0 ms2 Q0 out p P t Q where
    c: "alts_create_frame_protector demo_evp (\<lambda>_. 0) (Some (replicate 16 1)) (length (replicate 16 (1 :: u8))) True False (Some 2000) True =
         (TSI_OK, ms1, Some P0)"
      "alts_create_frame_protector demo_evp (\<lambda>_. 0) (Some (replicate 16 1)) (length (replicate 16 (1 :: u8))) (\<not> True) False None True =
         (TSI_OK, ms2, Some Q0)"
    and r: "sends P0 2 [5] out p P" "in_place_protect_bytes_buffered P = 0" "receives out Q0 t [5] Q" by blast
  have key: "good_key (replicate 16 (1 :: u8)) False" by (simp add: good_key_def)
  have "(2::nat) < 256 ^ overflow_bytes False" by (simp add: overflow_bytes_def kAltsRecordProtocolFrameLimit_def)
  from alts_channel_prefix [OF demo_evp_gcm key c r(1) this r(3)] c r show ?thesis by blast
qed

text \<open>C6: On a connection that has been used as in \<open>sends\<close> and \<open>receives\<close> (nothing protected while a flush is unfinished, every
  output buffer of \<open>alts_unprotect\<close> with room for a byte, chunks of what the sender has written, counters not used up) these
  next calls succeed: \<open>alts_protect\<close>, if no flush is unfinished (\<open>p = 0\<close>); \<open>alts_protect_flush\<close>, which leaves nothing in the
  buffer if it reports that no bytes are pending, as it does when it has room for a frame; and \<open>alts_unprotect\<close> with any next
  bytes that the sender has written and an output buffer that is not empty (\<open>0 < room\<close>). When a call of \<open>alts_unprotect\<close> that
  is given all of them takes nothing and gives nothing, and the sender has no bytes in its buffer, then all that was sent
  has been received.\<close>

theorem alts_channel_calls_succeed:
  assumes E: "evp_gcm E view ks tg" and key: "good_key key rekey"
    and P0: "alts_create_frame_protector E fresh1 (Some key) (length key) is_client rekey max1 True = (TSI_OK, ms1, Some P0)"
    and Q0: "alts_create_frame_protector E fresh2 (Some key) (length key) (\<not> is_client) rekey max2 True = (TSI_OK, ms2, Some Q0)"
    and s: "sends P0 n taken out p P" and n: "Suc n < 256 ^ overflow_bytes rekey" and r: "receives out Q0 t got Q"
  shows "(p = 0 \<longrightarrow> (\<exists>k o' P'. k \<le> length bs \<and>
      alts_protect P (Some bs) (Some (length bs)) True (Some room) = (TSI_OK, Some k, o', Some (length o'), P'))) \<and>
    (\<exists>o' p' P'. alts_protect_flush P True (Some room) (Some x) = (TSI_OK, o', Some (length o'), Some p', P') \<and>
      p' \<le> max_protected_frame_size P - room \<and> (p' = 0 \<longrightarrow> in_place_protect_bytes_buffered P' = 0)) \<and>
    (0 < room \<and> drop t out = cs @ rest \<longrightarrow>
      (\<exists>k o' Q'. alts_unprotect fresh Q (Some cs) (Some (length cs)) True (Some room) = (TSI_OK, Some k, o', Some (length o'), Q') \<and>
        k \<le> length cs \<and> length o' \<le> room \<and>
        (rest = [] \<and> k = 0 \<and> o' = [] \<and> in_place_protect_bytes_buffered P = 0 \<longrightarrow> got = taken)))"
proof -
  let ?ov = "overflow_bytes rekey" let ?role = "\<not> is_client" let ?G = "\<lambda>F k. F (nonces ?role ?ov k)"
  have n': "n < 256 ^ ?ov" using n by simp
  from connected [OF E key P0 Q0 s n' r] obtain F I fs u where A: "aead_ok F I"
    and at: "sender_at (?G F) I ?role ?ov n taken out p P fs u" and rec: "receiver_at (?G F) I ?role ?ov fs Q t got"
    and t: "t \<le> length out" by blast
  note ov = overflow_bytes_range [of rekey] and f = sender_frames [OF A overflow_bytes_range n' at]
  have protect: "\<exists>k o' P'. k \<le> length bs \<and>
      alts_protect P (Some bs) (Some (length bs)) True (Some room) = (TSI_OK, Some k, o', Some (length o'), P')"
    if "p = 0" using protect_at [OF A ov n at [unfolded that], of bs room] by blast
  have flush: "\<exists>o' p' P'. alts_protect_flush P True (Some room) (Some x) = (TSI_OK, o', Some (length o'), Some p', P') \<and>
      p' \<le> max_protected_frame_size P - room \<and> (p' = 0 \<longrightarrow> in_place_protect_bytes_buffered P' = 0)"
    using flush_at [OF A ov n at, of room x] by blast
  from f(2) obtain zs where zs: "wire (?G F) 0 fs = out @ zs" by blast
  have unprotect: "\<exists>k o' Q'. alts_unprotect fresh Q (Some cs) (Some (length cs)) True (Some room) = (TSI_OK, Some k, o', Some (length o'), Q') \<and>
      k \<le> length cs \<and> length o' \<le> room \<and> (rest = [] \<and> k = 0 \<and> o' = [] \<and> in_place_protect_bytes_buffered P = 0 \<longrightarrow> got = taken)"
    if c: "0 < room \<and> drop t out = cs @ rest"
  proof -
    have d: "drop t (wire (?G F) 0 fs) = cs @ (rest @ zs)" using t c unfolding zs by simp
    have z: "in_place_protect_bytes_buffered P = 0 \<longrightarrow> zs = [] \<and> concat fs = taken" using f(3) zs by auto
    from unprotect_step [OF A ov f(1) rec conjunct1 [OF c] d, of fresh] z show ?thesis by simp metis
  qed
  from protect flush unprotect show ?thesis by blast
qed

lemma alts_channel_calls_succeed_witness:
  "\<exists>ms1 P0 ms2 Q0.
     alts_create_frame_protector demo_evp (\<lambda>_. 0) (Some (replicate 16 1)) (length (replicate 16 (1 :: u8))) True False (Some 2000) True =
       (TSI_OK, ms1, Some P0) \<and>
     alts_create_frame_protector demo_evp (\<lambda>_. 0) (Some (replicate 16 1)) (length (replicate 16 (1 :: u8))) (\<not> True) False None True =
       (TSI_OK, ms2, Some Q0) \<and>
     (\<exists>k o' P'. k \<le> length [1, 2, 3 :: u8] \<and> alts_protect P0 (Some [1, 2, 3]) (Some (length [1, 2, 3 :: u8])) True (Some 100) =
       (TSI_OK, Some k, o', Some (length o'), P'))"
proof -
  from demo_connection obtain ms1 P0 ms2 Q0 out p P t Q where
    c: "alts_create_frame_protector demo_evp (\<lambda>_. 0) (Some (replicate 16 1)) (length (replicate 16 (1 :: u8))) True False (Some 2000) True =
         (TSI_OK, ms1, Some P0)"
      "alts_create_frame_protector demo_evp (\<lambda>_. 0) (Some (replicate 16 1)) (length (replicate 16 (1 :: u8))) (\<not> True) False None True =
         (TSI_OK, ms2, Some Q0)"
    and r: "sends P0 2 [5] out p P" "in_place_protect_bytes_buffered P = 0" "receives out Q0 t [5] Q" by blast
  have key: "good_key (replicate 16 (1 :: u8)) False" by (simp add: good_key_def)
  have "Suc 0 < 256 ^ overflow_bytes False" by (simp add: overflow_bytes_def kAltsRecordProtocolFrameLimit_def)
  from alts_channel_calls_succeed [OF demo_evp_gcm key c sends_start this receives_start, of "[1, 2, 3]" 100] c show ?thesis by blast
qed

text \<open>C5: Delivery. When a sender that was used as in \<open>sends\<close> (nothing protected between a flush that leaves bytes pending and
  the flush that writes the last of them, counters not used up) has no bytes in its buffer, then a receiver, from wherever
  calls with output buffers that are not empty have brought it, can get all the rest of what was sent by further such
  calls.\<close>

theorem alts_channel_delivers:
  assumes E: "evp_gcm E view ks tg" and key: "good_key key rekey"
    and P0: "alts_create_frame_protector E fresh1 (Some key) (length key) is_client rekey max1 True = (TSI_OK, ms1, Some P0)"
    and Q0: "alts_create_frame_protector E fresh2 (Some key) (length key) (\<not> is_client) rekey max2 True = (TSI_OK, ms2, Some Q0)"
    and s: "sends P0 n taken out p P" and n: "n < 256 ^ overflow_bytes rekey" and r: "receives out Q0 t got Q"
    and b: "in_place_protect_bytes_buffered P = 0"
  shows "\<exists>k Q'. receives (drop t out) Q k (drop (length got) taken) Q'"
proof -
  let ?ov = "overflow_bytes rekey" let ?role = "\<not> is_client"
  from connected [OF E key P0 Q0 s n r] obtain F I fs u where A: "aead_ok F I"
    and at: "sender_at (\<lambda>k. F (nonces ?role ?ov k)) I ?role ?ov n taken out p P fs u"
    and rec: "receiver_at (\<lambda>k. F (nonces ?role ?ov k)) I ?role ?ov fs Q t got" by blast
  note ov = overflow_bytes_range [of rekey]
  note f = sender_frames [OF A ov n at]
  from receives_all [OF A ov f(1) rec] f(3) [OF b] show ?thesis by simp
qed

lemma alts_channel_delivers_witness:
  "\<exists>ms1 P0 ms2 Q0 out p P k Q.
     alts_create_frame_protector demo_evp (\<lambda>_. 0) (Some (replicate 16 1)) (length (replicate 16 (1 :: u8))) True False (Some 2000) True =
       (TSI_OK, ms1, Some P0) \<and>
     alts_create_frame_protector demo_evp (\<lambda>_. 0) (Some (replicate 16 1)) (length (replicate 16 (1 :: u8))) (\<not> True) False None True =
       (TSI_OK, ms2, Some Q0) \<and>
     sends P0 2 [5] out p P \<and> receives out Q0 k [5] Q"
proof -
  from demo_connection obtain ms1 P0 ms2 Q0 out p P t Q where
    c: "alts_create_frame_protector demo_evp (\<lambda>_. 0) (Some (replicate 16 1)) (length (replicate 16 (1 :: u8))) True False (Some 2000) True =
         (TSI_OK, ms1, Some P0)"
      "alts_create_frame_protector demo_evp (\<lambda>_. 0) (Some (replicate 16 1)) (length (replicate 16 (1 :: u8))) (\<not> True) False None True =
         (TSI_OK, ms2, Some Q0)"
    and r: "sends P0 2 [5] out p P" "in_place_protect_bytes_buffered P = 0" "receives out Q0 t [5] Q" by blast
  have key: "good_key (replicate 16 (1 :: u8)) False" by (simp add: good_key_def)
  have "(2::nat) < 256 ^ overflow_bytes False" by (simp add: overflow_bytes_def kAltsRecordProtocolFrameLimit_def)
  from alts_channel_delivers [OF demo_evp_gcm key c r(1) this receives_start r(2)] obtain k Q' where "receives out Q0 k [5] Q'" by auto
  with c r(1) show ?thesis by blast
qed

text \<open>C3: A protector hands out nothing that was not sealed with its key: whatever bytes arrive, in whatever pieces, as long
  as no call of \<open>alts_unprotect\<close> fails (and each has an output buffer with room for a byte), what has been handed out is the
  beginning of the plaintexts of the frames at the beginning of what has been taken, and frame \<open>j\<close> is the text of its
  plaintext under the key and nonce \<open>j\<close> of the direction. So nothing can be changed, left out, repeated or reordered without
  a text that fits the nonce.\<close>

theorem alts_unprotect_authentic:
  assumes E: "evp_gcm E view ks tg" and key: "good_key key rekey"
    and Q0: "alts_create_frame_protector E fresh (Some key) (length key) is_client rekey max_size True = (TSI_OK, ms, Some Q0)"
    and r: "receives stream Q0 t got Q"
  shows "\<exists>fs zs ys. concat fs = got @ ys \<and> take t stream =
      wire (\<lambda>j. aes_frame E ks tg (session_key key rekey) (session_mask key rekey) (nonces is_client (overflow_bytes rekey) j)) 0 fs @ zs"
proof -
  let ?F = "aes_frame E ks tg (session_key key rekey) (session_mask key rekey)"
  let ?I = "aes_inv E view (session_key key rekey) (session_mask key rekey)" let ?ov = "overflow_bytes rekey"
  let ?G = "\<lambda>j. ?F (nonces is_client ?ov j)"
  have A: "aead_ok ?F ?I" by (rule aes_gcm_ok [OF E])
  from created [OF E key, of fresh is_client max_size ?G] Q0 have
    Q: "receiver_base Q0" "receiver_new ?I is_client ?ov Q0 0 []" by auto
  from r have "intake_at ?G ?I is_client ?ov stream Q t got \<and> t \<le> length stream"
  proof induction
    case receives_start
    show ?case using Q by (simp add: intake_at_def)
  next
    case (receives_unprotect t got Q bs rest room fresh k o' room' Q')
    from intake_unprotect [OF A overflow_bytes_range receives_unprotect.hyps(3) _ receives_unprotect.hyps(2,4)]
      chunk_fits [OF receives_unprotect.hyps(2)] receives_unprotect.IH
    show ?case by fastforce
  qed
  then show ?thesis using intake_frames [of ?G ?I is_client ?ov stream Q t got] by blast
qed

lemma alts_unprotect_authentic_witness:
  "\<exists>ms Q0 stream t Q.
     alts_create_frame_protector demo_evp (\<lambda>_. 0) (Some (replicate 16 1)) (length (replicate 16 (1 :: u8))) (\<not> True) False None True =
       (TSI_OK, ms, Some Q0) \<and>
     receives stream Q0 t [5] Q \<and>
     (\<exists>fs zs ys. concat fs = [5] @ ys \<and> take t stream =
       wire (\<lambda>j. aes_frame demo_evp demo_stream demo_tag (session_key (replicate 16 1) False) (session_mask (replicate 16 1) False)
         (nonces (\<not> True) (overflow_bytes False) j)) 0 fs @ zs)"
proof -
  from demo_connection obtain ms1 P0 ms2 Q0 out p P t Q where
    c: "alts_create_frame_protector demo_evp (\<lambda>_. 0) (Some (replicate 16 1)) (length (replicate 16 (1 :: u8))) True False (Some 2000) True =
         (TSI_OK, ms1, Some P0)"
      "alts_create_frame_protector demo_evp (\<lambda>_. 0) (Some (replicate 16 1)) (length (replicate 16 (1 :: u8))) (\<not> True) False None True =
         (TSI_OK, ms2, Some Q0)"
    and r: "sends P0 2 [5] out p P" "in_place_protect_bytes_buffered P = 0" "receives out Q0 t [5] Q" by blast
  have key: "good_key (replicate 16 (1 :: u8)) False" by (simp add: good_key_def)
  from alts_unprotect_authentic [OF demo_evp_gcm key c(2) r(3)] c(2) r(3) show ?thesis by blast
qed

end
