(* ===== verification/Grpc.thy ===== *)
theory Grpc
  imports Timer_Run Stream_Map Alts_Channel
begin

text \<open>
  The properties of the gRPC components: the timers, the stream map, and the frames and counters of
  ALTS.
\<close>

section \<open>The heap of timers\<close>

abbreviation demo_timer :: "int \<Rightarrow> grpc_timer" where
  "demo_timer d \<equiv> \<lparr>deadline = d, heap_index = 0, pending = False, closure = 0\<rparr>"

text \<open>C17: The timer heap is a priority queue of timers: after any calls of \<open>grpc_timer_heap_add\<close> and
  \<open>grpc_timer_heap_remove\<close> that add only absent timers and remove only present ones, fewer than 2^31, every loop has
  ended and the heap holds each timer of the set once, \<open>grpc_timer_heap_is_empty\<close> and \<open>grpc_timer_heap_top\<close> tell whether
  the set is empty and give a timer with the least deadline, and every timer knows its index. Popping the first timer
  until the heap is empty gives every timer once, in the order of their deadlines.\<close>

theorem timer_heap_refines_set:
  assumes "legal_calls cs {}" and "length cs < 2 ^ 31"
  shows "\<exists>h T'. heap_calls fresh cs (grpc_timer_heap_init, T) = Some (h, T') \<and>
    distinct (pending_timers h) \<and> set (pending_timers h) = fold set_step cs {} \<and>
    (\<forall>x. deadline (T' x) = deadline (T x)) \<and>
    (grpc_timer_heap_is_empty h \<longleftrightarrow> fold set_step cs {} = {}) \<and>
    (\<forall>t \<in> fold set_step cs {}. grpc_timer_heap_top h \<in> fold set_step cs {} \<and>
       deadline (T (grpc_timer_heap_top h)) \<le> deadline (T t)) \<and>
    (\<forall>i < timer_count h. heap_index (T' (timers h ! i)) = i) \<and>
    (\<exists>xs. heap_drain (timer_count h) (h, T') = Some xs \<and> set xs = fold set_step cs {} \<and> distinct xs \<and>
       sorted (map (\<lambda>t. deadline (T t)) xs))"
proof -
  let ?S = "fold set_step cs {}"
  from heap_calls_ok [OF heap_init_wf(1) [of T], of cs fresh] assms heap_init_wf(2) [of T] obtain h T' where
    s: "heap_calls fresh cs (grpc_timer_heap_init, T) = Some (h, T')" "timer_heap_wf (h, T')" "pending_set (h, T') = ?S"
      "due (h, T') = due (grpc_timer_heap_init, T)"
    by (auto simp: grpc_timer_heap_init_def)
  have d: "deadline (T' x) = deadline (T x)" for x using s(4) by (simp add: due_def fun_eq_iff)
  note q = heap_queue.empty_iff [OF s(2)] heap_queue.least_elem [OF s(2)] heap_queue.least_le [OF s(2)]
  have "grpc_timer_heap_top h \<in> ?S \<and> deadline (T (grpc_timer_heap_top h)) \<le> deadline (T t)" if "t \<in> ?S" for t
    using q(2) q(3) [of t] that s(3) d by (auto simp: due_def)
  moreover have "distinct (pending_timers h)" "\<forall>i < timer_count h. heap_index (T' (timers h ! i)) = i"
    using s(2) by (simp_all add: timer_heap_wf_def indexed_def)
  moreover have "card (pending_set (h, T')) \<le> timer_count h"
    unfolding pending_set_def pending_timers_def by (rule order_trans [OF card_length]) simp
  from heap_queue.drained_sorted [OF s(2) this] have
    "\<exists>xs. heap_drain (timer_count h) (h, T') = Some xs \<and> set xs = ?S \<and> distinct xs \<and> sorted (map (\<lambda>t. deadline (T t)) xs)"
    unfolding heap_drain_drained s(3) by (simp add: due_def [abs_def] d)
  ultimately show ?thesis using s(1,3) d q(1) by (simp add: pending_set_def)
qed

lemma timer_heap_refines_set_witness:
  "\<exists>h T'. heap_calls (\<lambda>_. 0) [Heap_add 1, Heap_add 2, Heap_add 3, Heap_remove 2]
      (grpc_timer_heap_init, \<lambda>t. demo_timer (10 - int t)) = Some (h, T') \<and>
    set (pending_timers h) = {1, 3} \<and> grpc_timer_heap_top h = 3"
proof -
  let ?S = "fold set_step [Heap_add 1, Heap_add 2, Heap_add 3, Heap_remove 2] {} :: nat set"
  have S: "?S = {1, 3}" by auto
  from timer_heap_refines_set [of "[Heap_add 1, Heap_add 2, Heap_add 3, Heap_remove 2]" "\<lambda>_. 0" "\<lambda>t. demo_timer (10 - int t)",
      unfolded S] obtain h T' where
    h: "heap_calls (\<lambda>_. 0) [Heap_add 1, Heap_add 2, Heap_add 3, Heap_remove 2]
      (grpc_timer_heap_init, \<lambda>t. demo_timer (10 - int t)) = Some (h, T')" "set (pending_timers h) = {1, 3}"
      "\<forall>t \<in> {1, 3}. grpc_timer_heap_top h \<in> {1, 3} \<and>
         deadline (demo_timer (10 - int (grpc_timer_heap_top h))) \<le> deadline (demo_timer (10 - int t))" by auto
  from h(3) have "grpc_timer_heap_top h = 3" by auto
  with h(1,2) show ?thesis by blast
qed

section \<open>The timers\<close>

text \<open>C7: In every state that calls of \<open>timer_init\<close>, \<open>timer_cancel\<close> and \<open>timer_check\<close> reach, the timers are in order:
  each shard holds its pending timers once, in the heap those due before its deadline cap and in the list the others;
  no timer of a shard is due before the time its shard shows (but at the cap itself), the queue of the shards is sorted
  by these times, and \<open>min_timer\<close> is a lower bound of them. The next legal call returns.\<close>

theorem timers_invariant:
  assumes "timers_reachable E cs g"
  shows "timers_ok g \<and>
    (\<not> pending (store g t) \<and> timer_fits g t \<longrightarrow> (\<exists>g'. timer_init E t dl cl now g = Some g')) \<and>
    (\<exists>g'. timer_cancel t g = Some g') \<and>
    (now \<le> GRPC_MILLIS_INF_FUTURE \<longrightarrow> (\<exists>r next' g'. timer_check E now next g = Some (r, next', g')))"
  using reachable_ok [OF assms] timer_init_ok [of g t E dl cl now] timer_cancel_ok [of g t] timer_check_ok [of g E now "next"]
  by blast

text \<open>C8: A check of the timers at \<open>now\<close> that is not skipped schedules the closures of exactly the timers that stop
  being pending, each once, with no error; all of them are due, and the timers that stay pending are due later. The
  only exception are timers due exactly at \<open>now\<close> that are in the list of a shard whose deadline cap is \<open>now\<close>. The result
  says whether a timer fired.\<close>

theorem expired_timers_fire:
  assumes "timers_reachable E cs g" and now: "now < GRPC_MILLIS_INF_FUTURE" "g_last_seen_min_timer g \<le> now"
    and "timer_check E now next g = Some (r, next', g')"
  shows "\<exists>ts. distinct ts \<and> set ts = {t. pending (store g t) \<and> \<not> pending (store g' t)} \<and>
    scheduled g' = scheduled g @ map (\<lambda>t. (closure (store g t), GRPC_ERROR_NONE)) ts \<and>
    (\<forall>t \<in> set ts. deadline (store g t) \<le> now) \<and>
    (\<forall>t. pending (store g' t) \<longrightarrow> pending (store g t) \<and> now \<le> deadline (store g t) \<and>
       (deadline (store g t) = now \<longrightarrow>
          t \<in> set (timer_list (g_shards g' ! GPR_HASH_POINTER t (length (g_shards g')))) \<and>
          queue_deadline_cap (g_shards g' ! GPR_HASH_POINTER t (length (g_shards g'))) = now)) \<and>
    r = (if ts = [] then GRPC_TIMERS_CHECKED_AND_EMPTY else GRPC_TIMERS_FIRED)"
proof -
  note ok = reachable_ok [OF assms(1)]
  have "timer_check E now next g = run_some_expired_timers E now next GRPC_ERROR_NONE g"
    using now by (simp add: timer_check_def)
  with run_ok [OF ok(2,1) _ ok(3), of now "next" GRPC_ERROR_NONE] now assms(4) obtain ts where
    r: "r = (if ts = [] then GRPC_TIMERS_CHECKED_AND_EMPTY else GRPC_TIMERS_FIRED)" "timers_ok g'"
      "expired now GRPC_ERROR_NONE g ts g'"
      "\<forall>k < length (g_shards g). \<not> due_now now (min_deadline (g_shards g' ! k))" by auto
  have e: "fired (set ts) (store g) (store g')" "length (g_shards g') = length (g_shards g)" "distinct ts"
    "\<forall>t \<in> set ts. pending (store g t) \<and> deadline (store g t) \<le> now"
    "scheduled g' = scheduled g @ map (\<lambda>t. (closure (store g t), GRPC_ERROR_NONE)) ts"
    using r(3) by (simp_all add: expired_def)
  have inv: "timers_inv g'" using r(2) by (simp add: timers_ok_def)
  have none: "\<not> due_now now (min_deadline (g_shards g' ! k))" if "k < length (g_shards g')" for k
    using r(4) e(2) that by simp
  note late = after_check [OF inv none now(1)]
  have "set ts = {t. pending (store g t) \<and> \<not> pending (store g' t)}" using e(4) firedD(3) [OF e(1)] by auto
  then show ?thesis using e(3,4,5) r(1) late firedD [OF e(1)] by (intro exI [of _ ts]) simp
qed

text \<open>C9: Every closure given to \<open>timer_init\<close> is scheduled exactly once, at the expiry or the cancellation of its timer,
  or still waits for it: the closures scheduled and those of the pending timers are together those of all the calls.\<close>

theorem closures_called_once:
  assumes "timers_reachable E cs g"
  shows "mset (map fst (scheduled g)) + pending_closures g = mset cs"
  using reachable_ok(4) [OF assms] by (simp add: accounted_def)

text \<open>C27: \<open>timer_list_shutdown\<close> returns, and calls the closure of every pending timer, once, with the error of the
  shutdown; only a timer due within the last millisecond of time may stay.\<close>

theorem shutdown_calls_all:
  assumes "timers_reachable E cs g"
  shows "\<exists>ts g'. timer_list_shutdown E g = Some g' \<and> \<not> initialized g' \<and> distinct ts \<and>
    set ts = {t. pending (store g t) \<and> \<not> pending (store g' t)} \<and>
    scheduled g' = scheduled g @ map (\<lambda>t. (closure (store g t), List_shutdown)) ts \<and>
    (\<forall>t. pending (store g' t) \<longrightarrow> pending (store g t) \<and> GRPC_MILLIS_INF_FUTURE - 1 \<le> deadline (store g t))"
  using shutdown_ok reachable_ok [OF assms] by blast

text \<open>C28: \<open>pop_timers\<close> on a shard takes exactly the timers of the shard that stop being pending, each once, in the order of
  their deadlines, although some of them come from the unordered list, and schedules their closures and counts them. All of
  them are due at \<open>now\<close>; the timers of the shard that stay pending are not, but for those due exactly at \<open>now\<close> that are in
  the list when the deadline cap is \<open>now\<close>. The time it gives back is later than \<open>now\<close>, and at most one millisecond later
  than the deadline of any timer that stays in the shard.\<close>

theorem shard_fires_in_order:
  assumes "timers_reachable E cs g" and "k < length (g_shards g)" and now: "now < GRPC_MILLIS_INF_FUTURE"
  shows "\<exists>ts m g'. pop_timers E k now err g = Some (length ts, m, g') \<and> distinct ts \<and>
    set ts = {t. pending (store g t) \<and> \<not> pending (store g' t)} \<and>
    (\<forall>t \<in> set ts. GPR_HASH_POINTER t (length (g_shards g)) = k \<and> deadline (store g t) \<le> now) \<and>
    sorted (map (\<lambda>t. deadline (store g t)) ts) \<and>
    scheduled g' = scheduled g @ map (\<lambda>t. (closure (store g t), err)) ts \<and>
    (\<forall>t. pending (store g' t) \<and> GPR_HASH_POINTER t (length (g_shards g)) = k \<longrightarrow>
       pending (store g t) \<and> now \<le> deadline (store g t) \<and> m \<le> deadline (store g t) + 1 \<and>
       (deadline (store g t) = now \<longrightarrow>
          t \<in> set (timer_list (g_shards g' ! k)) \<and> queue_deadline_cap (g_shards g' ! k) = now)) \<and>
    now < m"
  using popped [OF _ assms(2) _ now] reachable_ok(1,2) [OF assms(1)] by (simp add: timers_ok_def)

section \<open>A run of the timers\<close>

text \<open>Times as real numbers, and one timer with the closure 7 due at 5.\<close>

definition timer_demo_env :: "real timer_env" where
  "timer_demo_env = \<lparr>to_double = of_int, to_millis = floor, fresh_word = (\<lambda>_. 0)\<rparr>"

definition demo_start :: "real timer_globals" where
  "demo_start = timer_list_init timer_demo_env
     \<lparr>g_shards = [], g_shard_queue = [], min_timer = 0, checker_mu = False, initialized = False, g_last_seen_min_timer = 0,
      store = (\<lambda>_. demo_timer 0), scheduled = [], kicks = 0\<rparr> 1 0"

lemma demo_windows: "windows_ok timer_demo_env"
  by (auto simp: windows_ok_def deadline_window_def timer_demo_env_def GPR_CLAMP_def Let_def case_prod_beta)

lemma demo_reachable: "timers_reachable timer_demo_env [] demo_start"
  unfolding timers_reachable_def demo_start_def
  by (intro conjI demo_windows exI [of _ 0] exI [of _ 1] exI
      [of _ "\<lparr>g_shards = [], g_shard_queue = [], min_timer = 0, checker_mu = False, initialized = False,
        g_last_seen_min_timer = 0, store = (\<lambda>_. demo_timer 0), scheduled = [], kicks = 0\<rparr>"])
     (auto simp: GRPC_MILLIS_INF_FUTURE_def intro: timers_run.intros)

lemma demo_run:
  "\<exists>g. timer_init timer_demo_env 32 5 7 0 demo_start = Some g \<and> timers_reachable timer_demo_env [7] g \<and> pending (store g 32) \<and>
    deadline (store g 32) = 5 \<and> closure (store g 32) = 7 \<and> scheduled g = [] \<and> g_last_seen_min_timer g = 0 \<and>
    (\<forall>t. pending (store g t) \<longrightarrow> t = 32) \<and> length (g_shards g) = 2"
proof -
  let ?g = "demo_start"
  have st: "store ?g = (\<lambda>_. demo_timer 0)" "scheduled ?g = []"
    by (simp_all add: demo_start_def timer_list_init_def Let_def)
  have np: "\<not> pending (store ?g 32)" by (simp add: st)
  have sh: "length (g_shards ?g) = 2" "heap (g_shards ?g ! k) = grpc_timer_heap_init" "timer_list (g_shards ?g ! k) = []"
    "queue_deadline_cap (g_shards ?g ! k) = 0" if "k < 2" for k
    using that by (simp_all add: demo_start_def timer_list_init_def Let_def GPR_CLAMP_def nth_map)
  have h: "GPR_HASH_POINTER 32 2 < 2" by (simp add: GPR_HASH_POINTER_def)
  have fits: "timer_fits ?g 32" using h sh by (simp add: timer_fits_def Let_def grpc_timer_heap_init_def)
  note ok = reachable_ok [OF demo_reachable]
  from timer_init_ok [OF ok(2) np fits, of timer_demo_env 5 7 0] obtain g where
    g: "timer_init timer_demo_env 32 5 7 0 ?g = Some g" "timers_ok g" "started 32 5 7 0 ?g g" by blast
  have ls: "g_last_seen_min_timer g = 0" "length (g_shards g) = 2"
    using g(1) h sh
    by (auto simp: timer_init_def Let_def demo_start_def timer_list_init_def update_timer_def set_shard_def GPR_CLAMP_def)
  have "timers_reachable timer_demo_env ([] @ [7]) g" by (rule reachable_step(1) [OF demo_reachable np fits g(1)])
  with g ls st show ?thesis by (auto simp: started_def)
qed

lemma distinct_one: "distinct xs \<Longrightarrow> set xs = {a} \<Longrightarrow> xs = [a]"
  by (cases xs; cases "tl xs") auto

lemma timers_invariant_witness: "\<exists>g. timers_reachable timer_demo_env [7] g \<and> timers_ok g \<and> (\<exists>g'. timer_cancel 32 g = Some g')"
  using demo_run timers_invariant by blast

lemma expired_timers_fire_witness:
  "\<exists>g r next' g'. timer_init timer_demo_env 32 5 7 0 demo_start = Some g \<and> timer_check timer_demo_env 20 None g = Some (r, next', g') \<and>
    scheduled g' = [(7, GRPC_ERROR_NONE)] \<and> r = GRPC_TIMERS_FIRED"
proof -
  from demo_run obtain g where g: "timer_init timer_demo_env 32 5 7 0 demo_start = Some g" "timers_reachable timer_demo_env [7] g"
    "pending (store g 32)" "deadline (store g 32) = 5" "closure (store g 32) = 7" "scheduled g = []" "g_last_seen_min_timer g = 0"
    "\<forall>t. pending (store g t) \<longrightarrow> t = 32" by blast
  have now: "20 < GRPC_MILLIS_INF_FUTURE" by (simp add: GRPC_MILLIS_INF_FUTURE_def)
  note ok = reachable_ok [OF g(2)]
  obtain r next' g' where c: "timer_check timer_demo_env 20 None g = Some (r, next', g')"
    using timer_check_ok [OF ok(2,1) _ ok(3), of 20 None] now by auto
  from expired_timers_fire [OF g(2) now _ c] g(7) obtain ts where
    ts: "distinct ts" "set ts = {t. pending (store g t) \<and> \<not> pending (store g' t)}"
      "scheduled g' = scheduled g @ map (\<lambda>t. (closure (store g t), GRPC_ERROR_NONE)) ts"
      "\<forall>t. pending (store g' t) \<longrightarrow> pending (store g t) \<and> 20 \<le> deadline (store g t)"
      "r = (if ts = [] then GRPC_TIMERS_CHECKED_AND_EMPTY else GRPC_TIMERS_FIRED)" by auto
  have "\<not> 20 \<le> deadline (store g 32)" by (simp add: g(4))
  then have "\<not> pending (store g' 32)" using ts(4) by blast
  with g(3,8) have "set ts = {32}" unfolding ts(2) by blast
  with ts(1) have "ts = [32]" by (rule distinct_one)
  with ts(3,5) g(5,6) have "scheduled g' = [(7, GRPC_ERROR_NONE)]" "r = GRPC_TIMERS_FIRED" by simp_all
  with g(1) c show ?thesis by blast
qed

lemma closures_called_once_witness:
  "\<exists>g. timers_reachable timer_demo_env [7] g \<and> mset (map fst (scheduled g)) + pending_closures g = {#7#}"
proof -
  from demo_run obtain g where "timers_reachable timer_demo_env [7] g" by blast
  with closures_called_once [OF this] show ?thesis by auto
qed

lemma shutdown_calls_all_witness:
  "\<exists>g g'. timers_reachable timer_demo_env [7] g \<and> timer_list_shutdown timer_demo_env g = Some g' \<and> \<not> initialized g' \<and> \<not> pending (store g' 32)"
proof -
  from demo_run obtain g where g: "timers_reachable timer_demo_env [7] g" "deadline (store g 32) = 5" by blast
  from shutdown_calls_all [OF g(1)] obtain g' where g': "timer_list_shutdown timer_demo_env g = Some g'" "\<not> initialized g'"
    "\<forall>t. pending (store g' t) \<longrightarrow> pending (store g t) \<and> GRPC_MILLIS_INF_FUTURE - 1 \<le> deadline (store g t)" by blast
  have "\<not> GRPC_MILLIS_INF_FUTURE - 1 \<le> deadline (store g 32)" by (simp add: g(2) GRPC_MILLIS_INF_FUTURE_def)
  with g'(3) have "\<not> pending (store g' 32)" by blast
  with g(1) g'(1,2) show ?thesis by blast
qed

lemma shard_fires_in_order_witness:
  "\<exists>g k (ts :: timer_ptr list) m g'. timers_reachable timer_demo_env [7] g \<and>
    pop_timers timer_demo_env k 20 GRPC_ERROR_NONE g = Some (length ts, m, g') \<and> ts = [32] \<and>
    scheduled g' = [(7, GRPC_ERROR_NONE)] \<and> 20 < m"
proof -
  from demo_run obtain g where g: "timers_reachable timer_demo_env [7] g" "length (g_shards g) = 2" "pending (store g 32)"
    "deadline (store g 32) = 5" "closure (store g 32) = 7" "scheduled g = []" "\<forall>t. pending (store g t) \<longrightarrow> t = 32" by blast
  define k where "k = GPR_HASH_POINTER 32 (length (g_shards g))"
  have k: "k < length (g_shards g)" "20 < GRPC_MILLIS_INF_FUTURE"
    using g(2) by (simp_all add: GRPC_MILLIS_INF_FUTURE_def k_def GPR_HASH_POINTER_def)
  from shard_fires_in_order [OF g(1) k, of GRPC_ERROR_NONE] obtain ts :: "timer_ptr list" and m g' where
    p: "pop_timers timer_demo_env k 20 GRPC_ERROR_NONE g = Some (length ts, m, g')" "distinct ts"
      "set ts = {t. pending (store g t) \<and> \<not> pending (store g' t)}"
      "scheduled g' = scheduled g @ map (\<lambda>t. (closure (store g t), GRPC_ERROR_NONE)) ts"
      "\<forall>t. pending (store g' t) \<and> GPR_HASH_POINTER t (length (g_shards g)) = k \<longrightarrow> 20 \<le> deadline (store g t)" "20 < m"
    by (elim exE conjE) (rule that; blast)
  have "\<not> pending (store g' 32)" using p(5) g(4) by (force simp: k_def)
  with g(3,7) have "set ts = {32}" unfolding p(3) by blast
  with p(2) have "ts = [32]" by (rule distinct_one)
  with p(1,4,6) g(1,5,6) show ?thesis by (intro exI [of _ g] exI [of _ k] exI [of _ ts] exI [of _ m] exI [of _ g']) simp
qed

section \<open>The stream map\<close>

text \<open>C18: The stream map is a finite map. For any sequence of additions with ascending keys and streams that are not
  null, deletions, searches, size queries and random choices, from an empty map of capacity above one and within the
  memory, no assertion fails, every answer is the one of the finite map - a null pointer for an absent key, the number of
  live entries, a live stream unless there is none - although deleted entries stay in the arrays until they are compacted
  and the search is binary.\<close>

theorem stream_map_refines_map:
  assumes "1 < n" and "ascending_adds None cs" and "6 * (n + length cs) < 2 ^ 64"
  shows "\<exists>m0 rs m. grpc_chttp2_stream_map_init fresh n = Some m0 \<and> map_calls fresh cs m0 = Some (rs, m) \<and>
    all_answer cs Map.empty rs \<and> entries m = fold after_call cs Map.empty"
proof -
  from init_ok [OF assms(1), of fresh] obtain m0 where m0: "grpc_chttp2_stream_map_init fresh n = Some m0" "stream_map_wf m0"
    "entries m0 = Map.empty" "topped None m0" "capacity m0 = n" "count m0 = 0" by blast
  from map_calls_ok [OF m0(2,4) assms(2), of "n + length cs" fresh] m0 assms(3) show ?thesis by auto
qed

lemma stream_map_refines_map_witness:
  "\<exists>m0 rs m. grpc_chttp2_stream_map_init (\<lambda>_. (0, 0)) 2 = Some m0 \<and>
    map_calls (\<lambda>_. (0, 0)) [Map_add 1 10, Map_add 3 30, Map_delete 1, Map_add 5 50, Map_find 3, Map_find 1, Map_size] m0 = Some (rs, m) \<and>
    rs ! 4 = 30 \<and> rs ! 5 = 0"
proof -
  let ?cs = "[Map_add 1 10, Map_add 3 30, Map_delete 1, Map_add 5 50, Map_find 3, Map_find 1, Map_size]"
  have "1 < (2 :: nat)" "ascending_adds None ?cs" "6 * (2 + length ?cs) < 2 ^ 64" by simp_all
  from stream_map_refines_map [OF this, of "\<lambda>_. (0, 0)"] obtain m0 rs m where
    r: "grpc_chttp2_stream_map_init (\<lambda>_. (0, 0)) 2 = Some m0" "map_calls (\<lambda>_. (0, 0)) ?cs m0 = Some (rs, m)"
      "all_answer ?cs Map.empty rs" by blast
  from r(3) have "rs ! 4 = 30 \<and> rs ! 5 = 0"
    by (auto simp: answers_def after_call_def value_at_def split: list.splits)
  with r(1,2) show ?thesis by blast
qed

text \<open>C29: \<open>grpc_chttp2_stream_map_for_each\<close> calls its callback for every entry exactly once, in the order of the keys,
  even if the callback deletes the stream it is called for; afterwards the map holds the entries that were not deleted.\<close>

theorem stream_map_visits_each_once:
  assumes "1 < n" and "ascending_adds None cs" and "6 * (n + length cs) < 2 ^ 64"
    and "grpc_chttp2_stream_map_init fresh n = Some m0" and "map_calls fresh cs m0 = Some (rs, m)"
  shows "\<exists>xs u' m'. grpc_chttp2_stream_map_for_each (visitor g d) u m = Some (u', m') \<and>
    sorted_wrt (<) (map fst xs) \<and> map_of xs = fold after_call cs Map.empty \<and>
    (u', entries m') = fold (visit g d) xs (u, map_of xs)"
proof -
  from init_ok [OF assms(1), of fresh] assms(4) have m0: "stream_map_wf m0" "entries m0 = Map.empty" "topped None m0"
    "capacity m0 = n" "count m0 = 0" by simp_all
  from map_calls_ok [OF m0(1,3) assms(2), of "n + length cs" fresh] m0 assms(3,5) have
    m: "stream_map_wf m" "entries m = fold after_call cs Map.empty" by auto
  from for_each_from_ok [OF m(1), of 0 g d u] obtain u' m' where
    v: "for_each_from (visitor g d) 0 (u, m) = Some (u', m')" "(u', entries m') = fold (visit g d) (live (slots m)) (u, entries m)"
    by auto
  have "sorted_wrt (<) (map fst (live (slots m)))"
    using m(1) by (intro live_keys_sorted) (simp add: slots_keys stream_map_wf_def)
  moreover have "map_of (live (slots m)) = entries m" by (simp add: entries_def)
  ultimately show ?thesis using v m(2)
    by (intro exI [of _ "live (slots m)"] exI [of _ u'] exI [of _ m']) (simp add: grpc_chttp2_stream_map_for_each_def)
qed

text \<open>The streams 10 and 30 are visited, and the first is deleted.\<close>

lemma stream_map_visits_each_once_witness:
  "\<exists>m0 rs m u' m'. grpc_chttp2_stream_map_init (\<lambda>_. (0, 0)) 2 = Some m0 \<and>
    map_calls (\<lambda>_. (0, 0)) [Map_add 1 10, Map_add 3 30] m0 = Some (rs, m) \<and>
    grpc_chttp2_stream_map_for_each (visitor (\<lambda>_ v u. u + v) (\<lambda>k _ _. k = 1)) 0 m = Some (u', m') \<and> entries m' 1 = None"
proof -
  let ?cs = "[Map_add 1 10, Map_add 3 30]" let ?f = "\<lambda>_. (0, 0)"
  have p: "1 < (2 :: nat)" "ascending_adds None ?cs" "6 * (2 + length ?cs) < 2 ^ 64" by simp_all
  obtain m0 where m0: "grpc_chttp2_stream_map_init ?f 2 = Some m0" "stream_map_wf m0" "topped None m0" "capacity m0 = 2" "count m0 = 0"
    using init_ok [OF p(1), of ?f] by blast
  obtain rs m where m: "map_calls ?f ?cs m0 = Some (rs, m)"
    using map_calls_ok [OF m0(2,3) p(2), of 4 ?f] m0(4,5) by auto
  from stream_map_visits_each_once [OF p m0(1) m, where g = "\<lambda>_ v u. u + v" and d = "\<lambda>k _ _. k = 1" and u = 0] obtain xs u' m' where
    v: "grpc_chttp2_stream_map_for_each (visitor (\<lambda>_ v u. u + v) (\<lambda>k _ _. k = 1)) 0 m = Some (u', m')"
      "map_of xs = fold after_call ?cs Map.empty"
      "(u', entries m') = fold (visit (\<lambda>_ v u. u + v) (\<lambda>k _ _. k = 1)) xs (0, map_of xs)" by blast
  have del: "1 \<in> fst ` set ys \<or> F 1 = None \<Longrightarrow>
      snd (fold (visit (\<lambda>_ v u. u + v) (\<lambda>k _ _. k = 1)) ys (w, F)) 1 = None" for ys and w :: nat and F
    by (induction ys arbitrary: w F) (auto simp: visit_def)
  have "map_of xs 1 \<noteq> None" unfolding v(2) by (simp add: after_call_def)
  then have "1 \<in> fst ` set xs" by (metis map_of_eq_None_iff)
  with del [of xs "map_of xs" 0] v(3) have "entries m' 1 = None" by (metis snd_conv)
  with m0(1) m v(1) show ?thesis by blast
qed

section \<open>The frames and the counters of ALTS\<close>

text \<open>C19: A frame arrives. Whatever the sizes of the output buffers of \<open>alts_write_frame_bytes\<close> are, once they add up to
  the frame the writer is done; and whatever the chunks are in which these bytes, and possibly others behind them, are
  given to \<open>alts_read_frame_bytes\<close>, every call succeeds, the calls process exactly the frame, write exactly the payload
  from the start of the output buffer on, and leave the reader done. The payload is not empty and fits in a frame.\<close>

theorem alts_frame_roundtrip:
  assumes len: "0 < len" "len \<le> length bs" "len + 4 \<le> kFrameMaxSize"
    and w: "alts_reset_frame_writer w0 (Some bs) len = (True, w)"
    and r: "length (header_buffer r0) = kFrameHeaderSize" "alts_reset_frame_reader r0 (Some a) = (True, r)"
    and ns: "8 + len \<le> sum_list ns"
    and cs: "concat cs = concat (fst (write_chunks w ns)) @ rest"
  shows "alts_is_frame_writer_done (snd (write_chunks w ns)) \<and>
    (\<exists>r'. read_chunks r cs = (True, take len bs, 8 + len, r') \<and> alts_is_frame_reader_done r' \<and>
       alts_get_output_bytes_read r' = len \<and> alts_get_output_buffer r' = Some (a + len))"
proof -
  let ?fr = "frame_header len @ take len bs"
  have l: "len + 4 < 2 ^ 32" using len(3) by simp
  have "len + 4 < 2 ^ 64" using len(3) by simp
  from reset_writer [OF this, of w0 bs] w have "writer_at bs len 0 w" by simp
  from write_chunks_ok [OF this len(1,2), of ns] obtain out w' where
    o: "write_chunks w ns = (out, w')" "concat out = take (sum_list ns) ?fr" "writer_at bs len (min (sum_list ns) (8 + len)) w'"
    by auto
  have fr: "concat out = ?fr" using o(2) ns len(2) by simp
  have "writer_at bs len (8 + len) w'" using o(3) ns by (simp add: min_absorb2)
  then have wd: "alts_is_frame_writer_done w'" by (simp add: writer_at_def alts_is_frame_writer_done_def)
  have S: "concat cs = ?fr @ rest" using cs o(1) fr by simp
  have fl: "frame_length (?fr @ rest) = len + 4"
  proof -
    have "unat (of_nat (len + 4) :: u32) = len + 4"
      using l unfolding unsigned_of_nat by (subst take_bit_nat_eq_self) simp_all
    then show ?thesis by (simp only: frame_length_def frame_header_def load_store append_assoc)
  qed
  have "load_32_le (drop 4 (?fr @ rest)) = 6" by (simp add: frame_header_def load_store)
  then have good: "good_header (?fr @ rest)" unfolding good_header_def fl using len(3) by simp
  have "length (header_buffer r0) = 8" using r(1) by simp
  from reset_reader [OF this, of a] r(2) have "reader_at (?fr @ rest) a 0 r" by simp
  from read_chunks_ok [OF this _ _ good, of cs] S obtain r' where
    "read_chunks r cs = (True, payload (?fr @ rest), min (length (?fr @ rest)) (4 + frame_length (?fr @ rest)), r')"
    "reader_at (?fr @ rest) a (min (length (?fr @ rest)) (4 + frame_length (?fr @ rest))) r'" by auto
  moreover have "payload (?fr @ rest) = take len bs" unfolding payload_def fl using len(2) by simp
  moreover have "min (length (?fr @ rest)) (4 + frame_length (?fr @ rest)) = 8 + len" unfolding fl using len(2) by simp
  ultimately have rr: "read_chunks r cs = (True, take len bs, 8 + len, r')" "reader_at (?fr @ rest) a (8 + len) r'" by simp_all
  have "alts_is_frame_reader_done r'" unfolding reader_done [OF rr(2)] fl by simp
  moreover have "alts_get_output_bytes_read r' = len" "alts_get_output_buffer r' = Some (a + len)"
    using rr(2) by (simp_all add: reader_at_def alts_get_output_bytes_read_def alts_get_output_buffer_def)
  ultimately show ?thesis using wd rr(1) by (simp add: o(1))
qed

lemma alts_frame_roundtrip_witness:
  "\<exists>r'. read_chunks (snd (alts_reset_frame_reader alts_create_frame_reader (Some 100)))
      [[7, 0, 0], [0, 6, 0, 0], [0, 1, 2], [3, 9]] = (True, [1, 2, 3], 11, r') \<and> alts_is_frame_reader_done r'"
proof -
  let ?w = "\<lparr>input_buffer = Some [1, 2, 3], w_header_buffer = [7, 0, 0, 0, 6, 0, 0, 0], input_bytes_written = 0,
    header_bytes_written = 0, input_size = 3\<rparr> :: alts_frame_writer"
  let ?r = "snd (alts_reset_frame_reader alts_create_frame_reader (Some 100))"
  have w: "alts_reset_frame_writer alts_create_frame_writer (Some [1, 2, 3]) 3 = (True, ?w)"
    by (simp add: alts_reset_frame_writer_def alts_create_frame_writer_def store_32_le_def)
  have r: "alts_reset_frame_reader alts_create_frame_reader (Some 100) = (True, ?r)"
    by (simp add: alts_reset_frame_reader_def)
  have "concat [[7, 0, 0], [0, 6, 0, 0], [0, 1, 2], [3, 9]] = concat (fst (write_chunks ?w [5, 4, 10])) @ [9]" by code_simp
  from alts_frame_roundtrip [OF _ _ _ w _ r _ this] show ?thesis by (auto simp: alts_create_frame_reader_def)
qed

text \<open>The reader accepts exactly the well-formed frames: for any chunks of a stream of at least eight bytes every call
  succeeds if and only if the length in its header is between 4 and \<open>kFrameMaxSize\<close> and its message type is 6; then it
  writes the payload as far as it has come, and nothing of what follows it; else it writes nothing.\<close>

theorem alts_reader_checks_header:
  assumes "length (header_buffer r0) = kFrameHeaderSize" and "alts_reset_frame_reader r0 (Some a) = (True, r)"
    and "8 \<le> length (concat cs)"
  shows "if good_header (concat cs)
    then \<exists>r'. read_chunks r cs = (True, payload (concat cs), min (length (concat cs)) (4 + frame_length (concat cs)), r')
    else \<exists>n r'. read_chunks r cs = (False, [], n, r')"
proof -
  have "length (header_buffer r0) = 8" using assms(1) by simp
  from reset_reader [OF this, of a "concat cs"] assms(2) have r: "reader_at (concat cs) a 0 r" by simp
  show ?thesis using read_chunks_ok [OF r _ assms(3)] read_chunks_bad [OF r _ assms(3)] by auto
qed

text \<open>C26: No nonce is used twice: the counter of the client and that of the server have, after fewer increments than
  256 to the overflow size, always different contents, and so has one counter after different numbers of increments;
  all these increments succeed, and the next one after the last of them reports the overflow.\<close>

theorem alts_counters_unique:
  assumes "alts_counter_create role1 sz ov True = (GRPC_STATUS_OK, Some c1)"
    and "alts_counter_create role2 sz ov True = (GRPC_STATUS_OK, Some c2)"
    and "j < 256 ^ ov" and "k < 256 ^ ov" and "(role1, j) \<noteq> (role2, k)"
  shows "fst (counter_after j c1) = replicate j GRPC_STATUS_OK \<and>
    alts_counter_get_counter (Some (snd (counter_after j c1))) \<noteq> alts_counter_get_counter (Some (snd (counter_after k c2))) \<and>
    (k + 1 = 256 ^ ov \<longrightarrow> (\<exists>c. alts_counter_increment (Some (snd (counter_after k c2))) True =
       (GRPC_STATUS_FAILED_PRECONDITION, Some True, Some c)))"
proof -
  have created: "overflow_size c = ov \<and> length (counter c) = sz \<and> ov < sz \<and> counter_number c = 0 \<and>
      counter c ! (sz - 1) = (if role then 0x80 else 0)"
    if "alts_counter_create role sz ov True = (GRPC_STATUS_OK, Some c)" for role c
    using that by (auto simp: alts_counter_create_def Let_def counter_number_def split: if_splits)
  note c1 = created [OF assms(1)] and c2 = created [OF assms(2)]
  have after: "\<exists>bs. counter_after i c = (replicate i GRPC_STATUS_OK, c\<lparr>counter := bs\<rparr>) \<and> length bs = sz \<and>
      bs ! (sz - 1) = counter c ! (sz - 1) \<and> counter_number (c\<lparr>counter := bs\<rparr>) = i"
    if "overflow_size c = ov \<and> length (counter c) = sz \<and> ov < sz \<and> counter_number c = 0 \<and> x" "i < 256 ^ ov" for c i x
  proof -
    from that counter_after_ok [of c i] obtain bs where b: "counter_after i c = (replicate i GRPC_STATUS_OK, c\<lparr>counter := bs\<rparr>)"
      "length bs = length (counter c)" "drop ov bs = drop ov (counter c)" "counter_number (c\<lparr>counter := bs\<rparr>) = i" by auto
    have "drop ov bs ! (sz - 1 - ov) = drop ov (counter c) ! (sz - 1 - ov)" by (simp add: b(3))
    then have "bs ! (sz - 1) = counter c ! (sz - 1)" using that(1) b(2) by simp
    with b that(1) show ?thesis by blast
  qed
  from after [OF c1 assms(3)] obtain b1 where b1: "counter_after j c1 = (replicate j GRPC_STATUS_OK, c1\<lparr>counter := b1\<rparr>)"
    "b1 ! (sz - 1) = counter c1 ! (sz - 1)" "counter_number (c1\<lparr>counter := b1\<rparr>) = j" by blast
  from after [OF c2 assms(4)] obtain b2 where b2: "counter_after k c2 = (replicate k GRPC_STATUS_OK, c2\<lparr>counter := b2\<rparr>)"
    "length b2 = sz" "b2 ! (sz - 1) = counter c2 ! (sz - 1)" "counter_number (c2\<lparr>counter := b2\<rparr>) = k" by blast
  have "b1 \<noteq> b2"
  proof
    assume eq: "b1 = b2"
    then have "j = k" using b1(3) b2(4) c1 c2 by (simp add: counter_number_def)
    moreover have "role1 = role2" using eq b1(2) b2(3) c1 c2 by (auto split: if_splits)
    ultimately show False using assms(5) by simp
  qed
  moreover have "\<exists>c. alts_counter_increment (Some (c2\<lparr>counter := b2\<rparr>)) True = (GRPC_STATUS_FAILED_PRECONDITION, Some True, Some c)"
    if "k + 1 = 256 ^ ov"
    using increment_ok [of "c2\<lparr>counter := b2\<rparr>"] c2 b2(2,4) that by auto
  ultimately show ?thesis by (simp add: b1(1) b2(1) alts_counter_get_counter_def)
qed

lemma alts_counters_unique_witness:
  "alts_counter_get_counter (Some (snd (counter_after 3 \<lparr>counter_size = 12, overflow_size = 5, counter = (replicate 12 0)[11 := 0x80]\<rparr>))) \<noteq>
   alts_counter_get_counter (Some (snd (counter_after 3 \<lparr>counter_size = 12, overflow_size = 5, counter = replicate 12 0\<rparr>)))"
  using alts_counters_unique [of True 12 5 "\<lparr>counter_size = 12, overflow_size = 5, counter = (replicate 12 0)[11 := 0x80]\<rparr>" False
      "\<lparr>counter_size = 12, overflow_size = 5, counter = replicate 12 0\<rparr>" 3 3]
  by (simp add: alts_counter_create_def)

end
