(* ===== verification/Spec2Isabelle.thy ===== *)
theory Spec2Isabelle
  imports Rpc_Versions Decoding Nanopb Messages Bytestring Containers Encoding Grpc
begin

text \<open>
  A verification library for the C and C++ code of the application's pods (\<open>src/sirube/Pods\<close>).

  \<^bold>\<open>The program.\<close> The application keeps its data in Firestore. Firestore encodes documents as protocol
  buffers with nanopb and sends them over gRPC; gRPC encrypts its channels with BoringSSL, whose certificates
  and handshake messages are ASN.1 read and written with the byte strings \<open>CBS\<close> and \<open>CBB\<close>, and which keeps
  its objects in stacks and hash tables. Modelled is this path: nanopb in full, the byte strings with BER and
  Base64, the containers, and the parts of gRPC that use nanopb directly or are algorithms of their own.

  \<^bold>\<open>Conventions.\<close> Definitions carry the names of the code. Machine integers are words; a \<open>size_t\<close> is a natural
  number, with \<open>add_size\<close> and \<open>mul_size\<close> where C arithmetic on it can wrap (\<open>Prelude\<close>). A C loop is a
  recursive function of its own, structural or with a measure; mutually recursive code runs on fuel and gives
  \<open>None\<close> when it is used up. A \<open>return 0\<close>, an error code or a flag is the same value in the model; an
  \<open>assert\<close> or a crash is \<open>None\<close>. State is passed explicitly. User callbacks, the comparison and hash functions,
  \<open>malloc\<close> as a function of the size, \<open>qsort\<close>, \<open>bsearch\<close>, \<open>pb_realloc\<close> and \<open>pb_free\<close> are parameters; what is
  assumed of them is the contract of a locale or a named hypothesis, and each is instantiated by a concrete
  function in an interpretation or a witness.

  \<^bold>\<open>nanopb\<close> (\<open>nanopb/pb_common.c\<close>, \<open>pb_encode.c\<close>, \<open>pb_decode.c\<close> and their headers, as built here with
  \<open>PB_ENABLE_MALLOC\<close> and \<open>PB_FIELD_32BIT\<close>).

  \<^item> \<open>Pb_Stream\<close>: input and output streams as records; a stream over a buffer holds the bytes still to be read
    or already written. \<open>Pb_Varint\<close>: varints, zigzag, fixed-width integers. \<open>Pb_Wire\<close>: tags, strings,
    substreams, skipping. Their lemmas say what each writer writes and that the reader of the same encoding
    reads it back whatever follows; the locale \<open>wire_codec\<close> states this contract once for packed arrays.
    \<open>Nanopb\<close> holds the properties.
  \<^item> \<open>Pb_Fields\<close>: messages as bytes in memory, descriptors, the iterator, which is shown to enumerate the
    fields (\<open>iter_at\<close>). \<open>Pb_Encode\<close>: the encoder. \<open>Pb_Encode_Spec\<close>: \<open>message_out\<close>, the encoding of a message
    without streams, and the proof that the encoder writes exactly it, for callbacks that keep the locale
    \<open>message_callbacks\<close>. \<open>Messages\<close>: the properties, with the interpretation for gRPC's callback and for the
    descriptors of \<open>timestamp.pb.c\<close>.
  \<^item> \<open>Pb_Decode\<close>: the decoder; memory, stream and allocator are one state. The local variables of
    \<open>pb_decode_noinit\<close> whose address is taken lie in memory too. \<open>Pb_Decode_Spec\<close> and \<open>Pb_Decode_Safe\<close>: what
    each function may change and that it returns (locale \<open>static_decoder\<close>). \<open>Decoding\<close>: the properties, two
    defects of pointer fields, the interpretation for gRPC.
  \<^item> \<open>Pb_Values\<close>, \<open>Pb_Roundtrip\<close>: the value of a message as a tree, and that the decoder rebuilds what the
    encoder wrote (locale \<open>simple_messages\<close>, an extension of \<open>static_decoder\<close>: optional fields that do not
    overlap). \<open>Pb_Typed\<close>: what a message of that kind is like after a successful decode of any bytes.

  \<^bold>\<open>BoringSSL\<close> (\<open>BoringSSL-GRPC/crypto\<close>).

  \<^item> \<open>Mem\<close>: the allocation layer, string helpers and \<open>buf.c\<close>.
  \<^item> \<open>Cbs\<close>: the parser \<open>bytestring/cbs.c\<close>; a \<open>CBS\<close> is the list of its bytes. \<open>Der\<close>: DER as a specification.
    \<open>Oid\<close>: object identifiers as text, which texts are encoded and that they are printed back. \<open>Cbb\<close>: the builder \<open>cbb.c\<close>; open children form a stack of frames over
    one buffer. \<open>Cbb_Spec\<close>: the abstract builder and the simulation. \<open>Ber\<close>, \<open>Ber_Spec\<close>: \<open>ber.c\<close> and what a
    converted input looks like. \<open>Sort\<close>, \<open>Set_of\<close>: the contract of comparison functions (locale
    \<open>comparator\<close>), sorting of a SET OF. \<open>Bytestring\<close>: the properties.
  \<^item> \<open>Stack\<close> (\<open>stack/stack.c\<close>), \<open>Lhash\<close> (\<open>lhash/lhash.c\<close>, locale \<open>hashing\<close>), \<open>Lhash_Iter\<close>: iterating a hash table
    while the callback changes it, with the loops as partial functions that give \<open>None\<close> for a dangling pointer or a run
    without end. \<open>Containers\<close>: the properties, refinements of lists and finite maps.
  \<^item> \<open>Constant_Time\<close> (\<open>internal.h\<close>), \<open>Base64\<close> (\<open>base64/base64.c\<close>), \<open>Encoding\<close>: the properties.

  \<^bold>\<open>gRPC\<close> (\<open>gRPC-Core/src/core\<close>).

  \<^item> \<open>Rpc_Versions\<close>: the protocol versions of ALTS, on nanopb
    (\<open>tsi/alts/handshaker/transport_security_common_api.cc\<close>), with the interpretation of \<open>simple_messages\<close> on
    their descriptors and the properties of decoded messages.
  \<^item> \<open>Timer_Heap\<close> (\<open>lib/iomgr/timer_heap.cc\<close>): the array of timers, which are addresses into a store, its two
    sifting loops, its growth and shrinking, and the proof that it is a priority queue. The locale
    \<open>timer_queue\<close> is the contract of such a queue; its interpretation \<open>heap_queue\<close> rests on the heap.
  \<^item> \<open>Timers\<close> (\<open>lib/iomgr/timer_generic.cc\<close>, \<open>time_averaged_stats.cc\<close>): the shards with their heap, list and
    deadline cap, the queue of the shards, and the handlers \<open>timer_init\<close>, \<open>timer_cancel\<close>, \<open>timer_check\<close>,
    \<open>timer_list_init\<close> and \<open>timer_list_shutdown\<close>. The circular list of a shard is a list; the scheduled closures
    form a log. \<open>Timer_Queue\<close>: the queue stays a sorted permutation. \<open>Timer_Shard\<close>: the invariant of one shard
    and what popping takes from it. \<open>Timers_Spec\<close>: the invariant of all shards and each handler's effect.
    \<open>Timer_Run\<close>: the handlers as a step relation, the reachable states, the account of the closures.
  \<^item> \<open>Stream_Map\<close> (\<open>ext/transport/chttp2/transport/stream_map.cc\<close>): the streams of a connection in sorted
    arrays with gaps, and the simulation of a finite map.
  \<^item> \<open>Alts_Frames\<close> (\<open>tsi/alts/frame_protector/frame_handler.cc\<close>, \<open>alts_counter.cc\<close>): the frame writer and
    reader as state machines over buffers of any sizes, and the frame counters. A pointer into a buffer is
    the rest of the buffer for input, an offset for output.
  \<^item> \<open>Gsec\<close>, \<open>Aes_Gcm\<close> (\<open>tsi/alts/crypt/gsec.cc\<close>, \<open>aes_gcm.cc\<close>): authenticated encryption as a state with a
    table of functions, and AES-GCM with rekeying behind it; the cipher and HMAC functions of BoringSSL are a
    record of functions. \<open>Aead\<close>: the contract of a crypter (\<open>aead_ok\<close>), which AES-GCM meets if BoringSSL's
    functions do what they are documented to (\<open>evp_gcm\<close>).
  \<^item> \<open>Alts_Crypter\<close>, \<open>Alts_Protector\<close> (\<open>tsi/alts/frame_protector\<close>): the crypters that seal and unseal a frame in
    place under a counter, and the frame protector that composes them with the frame writer and reader.
    \<open>Alts_Sender\<close>, \<open>Alts_Receiver\<close>: the frames on the wire, and what a call of \<open>alts_protect\<close>,
    \<open>alts_protect_flush\<close> or \<open>alts_unprotect\<close> does to a sender and a receiver of such frames. \<open>Alts_Intake\<close>: a
    receiver of arbitrary bytes. \<open>Alts_Channel\<close>: creation, the calls at both ends as step relations (\<open>sends\<close>,
    \<open>receives\<close>), the properties of a connection, and an instance of \<open>evp_gcm\<close> that shows it can hold. The relations leave
    out the two uses on which the code loses or spoils data: \<open>alts_protect\<close> while a flush is unfinished, and
    \<open>alts_unprotect\<close> with an output buffer of size 0.
  \<^item> \<open>Grpc\<close>: the properties of the gRPC parts.

  In the timers a step is a whole operation: what the code does without the lock of \<open>g_shared_mutables\<close>, where
  another thread may intervene, is not split. The code is that of a release build for 64 bits. A \<open>double\<close> is
  any type with the arithmetic operations; \<open>windows_ok\<close> assumes that the window computed from it, which the code
  clamps to 0.01 to 1 seconds, is not negative after its conversion, and a real-valued instance shows it can hold.
  A loop with no obvious measure is a partial function into \<open>option\<close>, and that it ends is part of the theorems.

  \<^bold>\<open>Fuel and bounds.\<close> The encoder needs one unit of fuel per level of submessages and one more, the decoder as
  many as the bytes left plus the levels plus two, the protocol versions at most 31; the conversion of BER is
  shown never to use up the fuel it is given. Fuel never restricts the input: the theorems \<open>encoder_returns\<close>,
  \<open>decoder_returns\<close> and \<open>ber_conversion_returns\<close> say that enough of it gives a result. A timer heap holds fewer
  than 2^31 timers, beyond which the code computes the parent of an index wrongly; an ALTS connection carries fewer
  frames than its counters count (2^40, or 2^64 with rekeying), and a text beyond is refused; the stream map and the
  containers stay within the sizes a \<open>size_t\<close> can count.

  \<^bold>\<open>Not modelled.\<close> The round trip of repeated, union and required fields, and the safety of pointer fields
  (their code is modelled, and has the two defects); the cryptography, ASN.1 templates and TLS of BoringSSL;
  the transports and event engines of gRPC, its other ALTS code, and races inside an operation of its timers; Firestore itself, which is C++ and Objective-C++ over the nanopb
  primitives; generated descriptor tables other than the three used; user interface code. The first needs a
  richer notion of value, the others are too large or are concurrent, or are not C.
\<close>

end
